(* ===== verification/Prelude.thy ===== *)
theory Prelude
  imports Main "HOL-Library.Word" "HOL-Library.List_Lexorder" "HOL-Library.Char_ord"
begin

text \<open>
  Shared vocabulary of the development: machine integers, the error type of the engine and the
  result monad over it, checked arithmetic, byte slices and little-endian codecs.

  Conventions used by every theory.
  \<^item> A fixed-width Rust integer is a word: \<open>u8\<close>, \<open>u32\<close>, \<open>u64\<close>; a signed one is the same word
    read with \<^const>\<open>sint\<close>. A \<open>usize\<close> (64 bits on every supported target) that only counts or
    indexes is a \<^typ>\<open>nat\<close>, with the overflow check written out where the code checks it.
  \<^item> A byte slice or vector is a \<^typ>\<open>8 word list\<close>; a Rust \<open>String\<close> is a \<^typ>\<open>string\<close> whose
    characters are its UTF-8 bytes, so that lexicographic order on both sides is byte order.
  \<^item> \<open>DevonResult<T>\<close> is a sum: \<^const>\<open>Inl\<close> an error, \<^const>\<open>Inr\<close> a value. The context of an
    error is the literal or the format template of the source; values the source interpolates into
    a message are not part of the model.
\<close>

unbundle bit_operations_syntax

type_synonym u8 = "8 word"
type_synonym u32 = "32 word"
type_synonym u64 = "64 word"
type_synonym u128 = "128 word"
type_synonym i64 = "64 word"
type_synonym i128 = "128 word"
type_synonym bytes = "8 word list"

named_theorems byte_simps \<open>reading back what was copied into a byte buffer\<close>
named_theorems result_simps \<open>inversion of successful results\<close>

section \<open>Errors and results\<close>

datatype devon_error =
    Io string
  | Corrupt string
  | VersionMismatch u32 u32 u32
  | InvalidArgument string
  | NotFound string
  | TransactionConflict string
  | BudgetExceeded string
  | ReadOnly string
  | Busy string

type_synonym 'a devon_result = "devon_error + 'a"

fun is_ok :: "'e + 'a \<Rightarrow> bool" where
  "is_ok (Inl e) = False"
| "is_ok (Inr x) = True"

text \<open>The \<open>?\<close> operator.\<close>

fun rbind :: "'e + 'a \<Rightarrow> ('a \<Rightarrow> 'e + 'b) \<Rightarrow> 'e + 'b" where
  "rbind (Inl e) f = Inl e"
| "rbind (Inr x) f = f x"

lemma rbind_eq_Inr [result_simps]: "rbind m f = Inr y \<longleftrightarrow> (\<exists>x. m = Inr x \<and> f x = Inr y)"
  by (cases m) auto

lemma rbind_eq_Inl: "rbind m f = Inl e \<longleftrightarrow> m = Inl e \<or> (\<exists>x. m = Inr x \<and> f x = Inl e)"
  by (cases m) auto

lemma rbind_cong [fundef_cong]:
  "m = m' \<Longrightarrow> (\<And>x. m' = Inr x \<Longrightarrow> f x = f' x) \<Longrightarrow> rbind m f = rbind m' f'"
  by (cases m') auto

lemma rbind_assoc: "rbind (rbind m f) g = rbind m (\<lambda>x. rbind (f x) g)"
  by (cases m) auto

lemma rbind_split:
  "P (rbind m f) \<longleftrightarrow> (\<forall>e. m = Inl e \<longrightarrow> P (Inl e)) \<and> (\<forall>x. m = Inr x \<longrightarrow> P (f x))"
  by (cases m) auto

fun map_err :: "('e \<Rightarrow> 'f) \<Rightarrow> 'e + 'a \<Rightarrow> 'f + 'a" where
  "map_err g (Inl e) = Inl (g e)"
| "map_err g (Inr x) = Inr x"

lemma map_err_eq_Inr [result_simps]: "map_err g m = Inr y \<longleftrightarrow> m = Inr y"
  by (cases m) auto

fun ok_or :: "'e \<Rightarrow> 'a option \<Rightarrow> 'e + 'a" where
  "ok_or e None = Inl e"
| "ok_or e (Some x) = Inr x"

lemma ok_or_eq_Inr [result_simps]: "ok_or e m = Inr y \<longleftrightarrow> m = Some y"
  by (cases m) auto

text \<open>Collecting an iterator of results into a result of a vector, and a fallible loop over one.\<close>

fun rmapM :: "('a \<Rightarrow> 'e + 'b) \<Rightarrow> 'a list \<Rightarrow> 'e + 'b list" where
  "rmapM f [] = Inr []"
| "rmapM f (x # xs) = rbind (f x) (\<lambda>y. rbind (rmapM f xs) (\<lambda>ys. Inr (y # ys)))"

lemma rmapM_cong [fundef_cong]:
  "xs = ys \<Longrightarrow> (\<And>x. x \<in> set ys \<Longrightarrow> f x = g x) \<Longrightarrow> rmapM f xs = rmapM g ys"
  by (induction ys arbitrary: xs) auto

lemma rmapM_Inr_map: "(\<And>x. x \<in> set xs \<Longrightarrow> f x = Inr (g x)) \<Longrightarrow> rmapM f xs = Inr (map g xs)"
  by (induction xs) auto

lemma rmapM_eq_Inr: "rmapM f xs = Inr ys \<longleftrightarrow> list_all2 (\<lambda>x y. f x = Inr y) xs ys"
  by (induction xs arbitrary: ys) (auto simp: rbind_eq_Inr list_all2_Cons1)

fun rfold :: "('a \<Rightarrow> 's \<Rightarrow> 'e + 's) \<Rightarrow> 'a list \<Rightarrow> 's \<Rightarrow> 'e + 's" where
  "rfold f [] s = Inr s"
| "rfold f (x # xs) s = rbind (f x s) (rfold f xs)"

lemma rfold_append: "rfold f (xs @ ys) s = rbind (rfold f xs s) (rfold f ys)"
  by (induction xs arbitrary: s) (auto intro!: rbind_cong simp: rbind_assoc)

lemma rfold_invariant:
  assumes "rfold f xs s = Inr t" and "P s"
    and "\<And>x s s'. x \<in> set xs \<Longrightarrow> P s \<Longrightarrow> f x s = Inr s' \<Longrightarrow> P s'"
  shows "P t"
  using assms by (induction xs arbitrary: s) (auto simp: rbind_eq_Inr)

section \<open>Checked and saturating arithmetic\<close>

abbreviation (input) usize_bound :: nat where
  "usize_bound \<equiv> 2 ^ 64"

definition checked_add_usize :: "nat \<Rightarrow> nat \<Rightarrow> nat option" where
  "checked_add_usize a b = (if a + b < usize_bound then Some (a + b) else None)"

definition checked_mul_usize :: "nat \<Rightarrow> nat \<Rightarrow> nat option" where
  "checked_mul_usize a b = (if a * b < usize_bound then Some (a * b) else None)"

definition saturating_add_usize :: "nat \<Rightarrow> nat \<Rightarrow> nat" where
  "saturating_add_usize a b = min (a + b) (usize_bound - 1)"

definition checked_add_word :: "'a::len word \<Rightarrow> 'a word \<Rightarrow> 'a word option" where
  "checked_add_word a b = (if unat a + unat b < 2 ^ LENGTH('a) then Some (a + b) else None)"

definition u32_try_from :: "nat \<Rightarrow> u32 option" where
  "u32_try_from n = (if n < 2 ^ 32 then Some (of_nat n) else None)"

lemma checked_add_usize_eq_Some [result_simps]:
  "checked_add_usize a b = Some c \<longleftrightarrow> a + b < usize_bound \<and> c = a + b"
  by (auto simp: checked_add_usize_def)

lemma checked_mul_usize_eq_Some [result_simps]:
  "checked_mul_usize a b = Some c \<longleftrightarrow> a * b < usize_bound \<and> c = a * b"
  by (auto simp: checked_mul_usize_def)

lemma checked_add_word_eq_Some:
  "checked_add_word a b = Some c \<Longrightarrow> unat c = unat a + unat b"
  by (auto simp: checked_add_word_def unat_word_ariths split: if_splits)

lemma u32_try_from_eq_Some [result_simps]:
  "u32_try_from n = Some w \<longleftrightarrow> n < 2 ^ 32 \<and> w = of_nat n"
  by (auto simp: u32_try_from_def)

lemma unat_of_nat_u32 [simp]: "n < 2 ^ 32 \<Longrightarrow> unat (of_nat n :: u32) = n"
  by (simp add: unat_of_nat take_bit_nat_eq_self_iff)

lemma unat_two_power: "n < LENGTH('a) \<Longrightarrow> unat (2 ^ n :: 'a::len word) = 2 ^ n"
proof -
  assume n: "n < LENGTH('a)"
  have "unat (of_nat (2 ^ n) :: 'a word) = 2 ^ n"
    using n by (subst unat_of_nat) (simp add: take_bit_nat_eq_self_iff)
  then show ?thesis by simp
qed

lemma u32_try_from_unat: "u32_try_from n = Some w \<Longrightarrow> unat w = n"
  by (auto simp: u32_try_from_eq_Some)

section \<open>Little-endian codecs\<close>

text \<open>\<open>to_le_bytes\<close> and \<open>from_le_bytes\<close>, for every width.\<close>

definition to_le :: "nat \<Rightarrow> 'a::len word \<Rightarrow> bytes" where
  "to_le n w = map (\<lambda>i. ucast (drop_bit (8 * i) w)) [0..<n]"

primrec from_le :: "bytes \<Rightarrow> 'a::len word" where
  "from_le [] = 0"
| "from_le (b # bs) = ucast b OR push_bit 8 (from_le bs)"

abbreviation u32_to_le_bytes :: "u32 \<Rightarrow> bytes" where
  "u32_to_le_bytes \<equiv> to_le 4"

abbreviation u64_to_le_bytes :: "u64 \<Rightarrow> bytes" where
  "u64_to_le_bytes \<equiv> to_le 8"

abbreviation i128_to_le_bytes :: "i128 \<Rightarrow> bytes" where
  "i128_to_le_bytes \<equiv> to_le 16"

lemma length_to_le [simp]: "length (to_le n w) = n"
  by (simp add: to_le_def)

lemma bit_from_le: "bit (from_le bs :: 'a::len word) i \<longleftrightarrow>
   i < LENGTH('a) \<and> i div 8 < length bs \<and> bit (bs ! (i div 8)) (i mod 8)"
proof (induction bs arbitrary: i)
  case Nil
  then show ?case by simp
next
  case (Cons b bs)
  show ?case
  proof (cases "i < 8")
    case True
    then show ?thesis
      by (auto simp: bit_or_iff bit_push_bit_iff bit_ucast_iff)
  next
    case False
    then have d: "i div 8 = Suc ((i - 8) div 8)" "i mod 8 = (i - 8) mod 8"
      by (simp_all add: div_if le_mod_geq)
    have "\<not> bit b i" using False by (auto dest: bit_imp_le_length)
    with False show ?thesis
      by (auto simp: bit_or_iff bit_push_bit_iff bit_ucast_iff d Cons.IH dest: bit_imp_le_length)
  qed
qed

lemma from_le_to_le: "LENGTH('a) = 8 * n \<Longrightarrow> from_le (to_le n (w :: 'a::len word)) = w"
  by (rule bit_word_eqI)
    (auto simp: bit_from_le to_le_def bit_ucast_iff bit_drop_bit_eq less_mult_imp_div_less
      mult.commute dest: bit_imp_le_length)

lemma to_le_from_le:
  assumes "LENGTH('a) = 8 * length bs"
  shows "to_le (length bs) (from_le bs :: 'a::len word) = bs"
proof (rule nth_equalityI)
  fix i assume "i < length (to_le (length bs) (from_le bs :: 'a word))"
  with assms show "to_le (length bs) (from_le bs :: 'a word) ! i = bs ! i"
    by (auto intro!: bit_word_eqI simp: to_le_def bit_ucast_iff bit_drop_bit_eq bit_from_le)
qed simp

lemma from_le_u32 [simp]: "from_le (to_le 4 (w :: u32)) = w"
  by (rule from_le_to_le) simp

lemma from_le_u64 [simp]: "from_le (to_le 8 (w :: u64)) = w"
  by (rule from_le_to_le) simp

lemma from_le_u128 [simp]: "from_le (to_le 16 (w :: u128)) = w"
  by (rule from_le_to_le) simp

lemma from_le_zeros [simp]: "from_le (replicate n 0) = 0"
  by (induction n) simp_all

lemma to_le_zero: "to_le n 0 = replicate n 0"
  by (rule nth_equalityI) (simp_all add: to_le_def)

lemma to_le_inj: "LENGTH('a) = 8 * n \<Longrightarrow> to_le n (v :: 'a::len word) = to_le n w \<longleftrightarrow> v = w"
  by (metis from_le_to_le)

section \<open>Byte slices\<close>

text \<open>
  \<open>&bs[a..b]\<close> and \<open>bs[a..a + len].copy_from_slice(src)\<close>. Rust panics out of range; every use in
  the code, and in the model, is behind a length check.
\<close>

definition subslice :: "bytes \<Rightarrow> nat \<Rightarrow> nat \<Rightarrow> bytes" where
  "subslice bs a b = take (b - a) (drop a bs)"

definition copy_into :: "bytes \<Rightarrow> nat \<Rightarrow> bytes \<Rightarrow> bytes" where
  "copy_into page a src = take a page @ src @ drop (a + length src) page"

definition read_u32 :: "bytes \<Rightarrow> nat \<Rightarrow> u32" where
  "read_u32 page offset = from_le (subslice page offset (offset + 4))"

definition read_u64 :: "bytes \<Rightarrow> nat \<Rightarrow> u64" where
  "read_u64 page offset = from_le (subslice page offset (offset + 8))"

lemma length_subslice [simp]: "length (subslice bs a b) = min (b - a) (length bs - a)"
  by (simp add: subslice_def min.commute)

lemma length_copy_into [simp]:
  "a + length src \<le> length page \<Longrightarrow> length (copy_into page a src) = length page"
  by (simp add: copy_into_def)

lemma subslice_whole [simp]: "subslice bs 0 (length bs) = bs"
  by (simp add: subslice_def)

lemma subslice_append_left: "b \<le> length xs \<Longrightarrow> subslice (xs @ ys) a b = subslice xs a b"
  by (simp add: subslice_def)

lemma subslice_append_right:
  "length xs \<le> a \<Longrightarrow> subslice (xs @ ys) a b = subslice ys (a - length xs) (b - length xs)"
  by (cases "b \<le> a") (simp_all add: subslice_def)

lemma subslice_copy_same [byte_simps]:
  "b = a + length src \<Longrightarrow> a \<le> length page \<Longrightarrow> subslice (copy_into page a src) a b = src"
  by (simp add: subslice_def copy_into_def)

lemma subslice_copy_before [byte_simps]:
  "b \<le> c \<Longrightarrow> c \<le> length page \<Longrightarrow> subslice (copy_into page c src) a b = subslice page a b"
  by (simp add: subslice_def copy_into_def drop_take min_absorb1)

lemma subslice_copy_after [byte_simps]:
  "c + length src \<le> a \<Longrightarrow> c \<le> length page \<Longrightarrow> subslice (copy_into page c src) a b = subslice page a b"
  by (simp add: subslice_def copy_into_def)

lemma nth_copy_into_after:
  "c + length src \<le> i \<Longrightarrow> i < length page \<Longrightarrow> copy_into page c src ! i = page ! i"
  by (auto simp: copy_into_def nth_append)

lemma subslice_subslice: "b \<le> d \<Longrightarrow> subslice (subslice bs 0 d) a b = subslice bs a b"
  by (simp add: subslice_def drop_take min_absorb1)

lemma subslice_replicate [byte_simps]:
  "b \<le> n \<Longrightarrow> subslice (replicate n x) a b = replicate (b - a) x"
  by (simp add: subslice_def min_absorb1)

lemma subslice_nth: "i < b - a \<Longrightarrow> b \<le> length bs \<Longrightarrow> subslice bs a b ! i = bs ! (a + i)"
  by (simp add: subslice_def)

lemma subslice_copy_within [byte_simps]:
  "c \<le> a \<Longrightarrow> a \<le> b \<Longrightarrow> b \<le> c + length src \<Longrightarrow> c \<le> length page \<Longrightarrow>
    subslice (copy_into page c src) a b = subslice src (a - c) (b - c)"
  by (simp add: subslice_def copy_into_def)

lemma subslice_join:
  "a \<le> b \<Longrightarrow> b \<le> c \<Longrightarrow> subslice bs a b @ subslice bs b c = subslice bs a c"
proof -
  assume "a \<le> b" "b \<le> c"
  then have "c - a = (b - a) + (c - b)" and "b = a + (b - a)" by simp_all
  then show ?thesis
    unfolding subslice_def by (metis add.commute drop_drop take_add)
qed

lemma to_le_read_u32: "a + 4 \<le> length bs \<Longrightarrow> u32_to_le_bytes (read_u32 bs a) = subslice bs a (a + 4)"
  using to_le_from_le [of "subslice bs a (a + 4)", where ?'a = 32] by (simp add: read_u32_def)

lemma to_le_read_u64: "a + 8 \<le> length bs \<Longrightarrow> u64_to_le_bytes (read_u64 bs a) = subslice bs a (a + 8)"
  using to_le_from_le [of "subslice bs a (a + 8)", where ?'a = 64] by (simp add: read_u64_def)

lemma copy_into_adjacent:
  "a + length xs + length ys \<le> length page \<Longrightarrow>
    copy_into (copy_into page a xs) (a + length xs) ys = copy_into page a (xs @ ys)"
  by (simp add: copy_into_def ac_simps)

text \<open>A run of fixed-width fields: the width of the run and its fields.\<close>

lemma length_concat_chunks:
  "(\<And>x. x \<in> set xs \<Longrightarrow> length (f x) = n) \<Longrightarrow> length (concat (map f xs)) = n * length xs"
  by (induction xs) simp_all

lemma concat_chunk:
  assumes "\<And>x. x \<in> set xs \<Longrightarrow> length (f x) = n" and "i < length xs"
  shows "take n (drop (n * i) (concat (map f xs))) = f (xs ! i)"
  using assms
proof (induction xs arbitrary: i)
  case (Cons x xs)
  then show ?case
  proof (cases i)
    case (Suc j)
    have "drop (n * i) (f x) = []" using Cons.prems Suc by simp
    moreover have "n * i - length (f x) = n * j" using Cons.prems Suc by simp
    ultimately show ?thesis using Cons Suc by simp
  qed simp
qed simp

lemma concat_map_chunks:
  assumes "n * k \<le> length bs" and "\<And>i. i < k \<Longrightarrow> f (g i) = take n (drop (n * i) bs)"
  shows "concat (map f (map g [0..<k])) = take (n * k) bs"
  using assms
proof (induction k)
  case (Suc k)
  then have "concat (map f (map g [0..<Suc k])) = take (n * k) bs @ take n (drop (n * k) bs)"
    by simp
  also have "\<dots> = take (n * Suc k) bs"
    by (simp add: take_add [symmetric] add.commute)
  finally show ?case .
qed simp

lemma subslice_concat_chunk:
  assumes "\<And>x. x \<in> set xs \<Longrightarrow> length (f x) = n" and "i < length xs" and "b \<le> n"
  shows "subslice (concat (map f xs)) (n * i + a) (n * i + b) = subslice (f (xs ! i)) a b"
proof -
  have "subslice (f (xs ! i)) a b = subslice (take n (drop (n * i) (concat (map f xs)))) a b"
    using concat_chunk [where f = f and xs = xs and n = n and i = i] assms by simp
  also have "\<dots> = subslice (concat (map f xs)) (n * i + a) (n * i + b)"
    using assms(3) by (cases "a \<le> b")
      (simp_all add: subslice_def drop_take min_absorb1 add.commute)
  finally show ?thesis ..
qed

text \<open>A concrete checksum, for instantiating the CRC parameter in concrete instances.\<close>

definition byte_sum :: "bytes \<Rightarrow> u32" where
  "byte_sum bs = sum_list (map ucast bs)"

definition byte_sum_append :: "u32 \<Rightarrow> bytes \<Rightarrow> u32" where
  "byte_sum_append c bs = c + byte_sum bs"

section \<open>Strings as their UTF-8 bytes\<close>

definition as_bytes :: "string \<Rightarrow> bytes" where
  "as_bytes s = map (\<lambda>c. of_nat (of_char c)) s"

definition string_of_bytes :: "bytes \<Rightarrow> string" where
  "string_of_bytes bs = map (\<lambda>b. char_of (unat b)) bs"

lemma unat_of_char_u8 [simp]: "unat (of_nat (of_char c) :: u8) = of_char c"
  by (simp add: unat_of_nat take_bit_nat_eq_self_iff)

lemma string_of_as_bytes [simp]: "string_of_bytes (as_bytes s) = s"
  by (simp add: as_bytes_def string_of_bytes_def comp_def)

lemma as_bytes_string_of [simp]: "as_bytes (string_of_bytes bs) = bs"
proof -
  have "of_nat (of_char (char_of (unat b) :: char)) = b" for b :: u8
    using unsigned_less [of b, where ?'a = nat] by (simp add: take_bit_nat_eq_self_iff)
  then show ?thesis
    by (simp add: as_bytes_def string_of_bytes_def comp_def)
qed

lemma length_as_bytes [simp]: "length (as_bytes s) = length s"
  by (simp add: as_bytes_def)

text \<open>
  \<open>std::str::from_utf8\<close> as a predicate: the well-formed byte sequences of the Unicode standard
  (no overlong forms, no surrogates, nothing above U+10FFFF).
\<close>

definition utf8_continuation :: "u8 \<Rightarrow> bool" where
  "utf8_continuation b \<longleftrightarrow> 0x80 \<le> b \<and> b \<le> 0xBF"

definition utf8_lead3 :: "u8 \<Rightarrow> u8 \<Rightarrow> bool" where
  "utf8_lead3 b c \<longleftrightarrow>
    (if b = 0xE0 then 0xA0 \<le> c \<and> c \<le> 0xBF
     else if b = 0xED then 0x80 \<le> c \<and> c \<le> 0x9F
     else 0xE1 \<le> b \<and> b \<le> 0xEF \<and> utf8_continuation c)"

definition utf8_lead4 :: "u8 \<Rightarrow> u8 \<Rightarrow> bool" where
  "utf8_lead4 b c \<longleftrightarrow>
    (if b = 0xF0 then 0x90 \<le> c \<and> c \<le> 0xBF
     else if b = 0xF4 then 0x80 \<le> c \<and> c \<le> 0x8F
     else 0xF1 \<le> b \<and> b \<le> 0xF3 \<and> utf8_continuation c)"

fun utf8_valid :: "bytes \<Rightarrow> bool" where
  "utf8_valid [] = True"
| "utf8_valid (b # bs) =
    (if b < 0x80 then utf8_valid bs
     else (case bs of
       [] \<Rightarrow> False
     | c1 # bs1 \<Rightarrow>
         if 0xC2 \<le> b \<and> b \<le> 0xDF then utf8_continuation c1 \<and> utf8_valid bs1
         else (case bs1 of
           [] \<Rightarrow> False
         | c2 # bs2 \<Rightarrow>
             if utf8_lead3 b c1 then utf8_continuation c2 \<and> utf8_valid bs2
             else (case bs2 of
               [] \<Rightarrow> False
             | c3 # bs3 \<Rightarrow>
                 utf8_lead4 b c1 \<and> utf8_continuation c2 \<and> utf8_continuation c3 \<and>
                 utf8_valid bs3))))"

definition from_utf8 :: "bytes \<Rightarrow> string option" where
  "from_utf8 bs = (if utf8_valid bs then Some (string_of_bytes bs) else None)"

lemma from_utf8_as_bytes: "utf8_valid (as_bytes s) \<Longrightarrow> from_utf8 (as_bytes s) = Some s"
  by (simp add: from_utf8_def)

section \<open>Invariants of step relations\<close>

text \<open>
  The contract every state machine of the development meets: its invariant holds at the start
  and every step keeps it. The conclusion is drawn once.
\<close>

locale invariant_system =
  fixes init :: "'s \<Rightarrow> bool"
    and step :: "'s \<Rightarrow> 's \<Rightarrow> bool"
    and inv :: "'s \<Rightarrow> bool"
  assumes init_inv: "init s \<Longrightarrow> inv s"
    and step_inv: "step s t \<Longrightarrow> inv s \<Longrightarrow> inv t"
begin

lemma steps_inv: "step\<^sup>*\<^sup>* s t \<Longrightarrow> inv s \<Longrightarrow> inv t"
  by (induction rule: rtranclp_induct) (auto intro: step_inv)

lemma reachable_inv: "init s \<Longrightarrow> step\<^sup>*\<^sup>* s t \<Longrightarrow> inv t"
  by (blast intro: init_inv steps_inv)

end

end
