(* ===== verification/Superblock.thy ===== *)
theory Superblock
  imports Prelude
begin

text \<open>
  The versioned database header in pages 0 and 1 (\<^verbatim>\<open>devondb-storage/src/superblock.rs\<close>): feature
  flags, the 64-byte codec with its CRC, version and flag validation, and the arbitration between
  the two slots. The CRC-32C of the \<^verbatim>\<open>crc32c\<close> crate is a parameter \<open>crc32c\<close>; no result depends
  on which function it is.
\<close>

section \<open>Layout constants and the feature flag registry\<close>

definition MAGIC :: bytes where
  "MAGIC = [0x44, 0x45, 0x56, 0x4F, 0x4E, 0x44, 0x42, 0]"

definition HEADER_LEN :: nat where "HEADER_LEN = 64"
definition CHECKSUM_OFFSET :: nat where "CHECKSUM_OFFSET = 60"
definition MIN_PAGE_SIZE :: u32 where "MIN_PAGE_SIZE = 4096"
definition MAX_PAGE_SIZE :: u32 where "MAX_PAGE_SIZE = 65536"
definition SUPPORTED_FORMAT_VERSION :: u32 where "SUPPORTED_FORMAT_VERSION = 1"

definition HNSW_INDEX_FLAG :: u64 where "HNSW_INDEX_FLAG = push_bit 0 1"
definition ONTOLOGY_FLAG :: u64 where "ONTOLOGY_FLAG = push_bit 1 1"
definition PINNED_PLANS_FLAG :: u64 where "PINNED_PLANS_FLAG = push_bit 2 1"
definition ZONE_MAPS_FLAG :: u64 where "ZONE_MAPS_FLAG = push_bit 3 1"
definition GEO_COLUMNS_FLAG :: u64 where "GEO_COLUMNS_FLAG = push_bit 4 1"
definition FREE_PAGES_FLAG :: u64 where "FREE_PAGES_FLAG = push_bit 5 1"
definition RESERVED_READ_SAFE_FLAG :: u64 where "RESERVED_READ_SAFE_FLAG = push_bit 12 1"
definition DML_WAL_FLAG :: u64 where "DML_WAL_FLAG = push_bit 6 1"
definition SCALAR_TYPES_V2_FLAG :: u64 where "SCALAR_TYPES_V2_FLAG = push_bit 7 1"
definition MULTIPROCESS_COORDINATION_FLAG :: u64 where
  "MULTIPROCESS_COORDINATION_FLAG = push_bit 8 1"
definition MULTIPAGE_CATALOG_FLAG :: u64 where "MULTIPAGE_CATALOG_FLAG = push_bit 9 1"
definition REL_TOMBSTONE_WAL_FLAG :: u64 where "REL_TOMBSTONE_WAL_FLAG = push_bit 10 1"
definition COLUMN_ENCODINGS_FLAG :: u64 where "COLUMN_ENCODINGS_FLAG = push_bit 13 1"
definition HNSW_MUTATION_WAL_FLAG :: u64 where "HNSW_MUTATION_WAL_FLAG = push_bit 14 1"

definition READ_SAFE_FLAG_MASK :: u64 where
  "READ_SAFE_FLAG_MASK = HNSW_INDEX_FLAG OR ONTOLOGY_FLAG OR PINNED_PLANS_FLAG OR ZONE_MAPS_FLAG
     OR FREE_PAGES_FLAG OR RESERVED_READ_SAFE_FLAG"

definition SUPPORTED_FLAG_MASK :: u64 where
  "SUPPORTED_FLAG_MASK = HNSW_INDEX_FLAG OR ONTOLOGY_FLAG OR PINNED_PLANS_FLAG OR ZONE_MAPS_FLAG
     OR GEO_COLUMNS_FLAG OR FREE_PAGES_FLAG OR DML_WAL_FLAG OR SCALAR_TYPES_V2_FLAG
     OR MULTIPROCESS_COORDINATION_FLAG OR MULTIPAGE_CATALOG_FLAG OR REL_TOMBSTONE_WAL_FLAG
     OR COLUMN_ENCODINGS_FLAG OR HNSW_MUTATION_WAL_FLAG"

lemmas flag_defs =
  HNSW_INDEX_FLAG_def ONTOLOGY_FLAG_def PINNED_PLANS_FLAG_def ZONE_MAPS_FLAG_def
  GEO_COLUMNS_FLAG_def FREE_PAGES_FLAG_def RESERVED_READ_SAFE_FLAG_def DML_WAL_FLAG_def
  SCALAR_TYPES_V2_FLAG_def MULTIPROCESS_COORDINATION_FLAG_def MULTIPAGE_CATALOG_FLAG_def
  REL_TOMBSTONE_WAL_FLAG_def COLUMN_ENCODINGS_FLAG_def HNSW_MUTATION_WAL_FLAG_def

lemma READ_SAFE_FLAG_MASK_value: "READ_SAFE_FLAG_MASK = 0x102F"
  by (simp add: READ_SAFE_FLAG_MASK_def flag_defs)

lemma SUPPORTED_FLAG_MASK_value: "SUPPORTED_FLAG_MASK = 0x67FF"
  by (simp add: SUPPORTED_FLAG_MASK_def flag_defs)

lemmas sb_const_defs =
  HEADER_LEN_def CHECKSUM_OFFSET_def MIN_PAGE_SIZE_def MAX_PAGE_SIZE_def
  SUPPORTED_FORMAT_VERSION_def

section \<open>The header record and its codec\<close>

record superblock =
  sb_format_version :: u32
  sb_min_reader_version :: u32
  sb_feature_flags :: u64
  sb_page_size :: u32
  sb_db_id :: bytes
  sb_checkpoint_lsn :: u64
  sb_catalog_root :: u64

text \<open>\<open>is_power_of_two\<close> is \<open>count_ones() == 1\<close>.\<close>

definition count_ones :: "'a::len word \<Rightarrow> nat" where
  "count_ones w = length (filter (bit w) [0..<LENGTH('a)])"

definition valid_page_size :: "u32 \<Rightarrow> bool" where
  "valid_page_size sz \<longleftrightarrow>
     MIN_PAGE_SIZE \<le> sz \<and> sz \<le> MAX_PAGE_SIZE \<and> count_ones sz = 1"

definition sb_fill_fields :: "superblock \<Rightarrow> bytes \<Rightarrow> bytes" where
  "sb_fill_fields sb page =
    (let page = copy_into page 0 MAGIC;
         page = copy_into page 8 (u32_to_le_bytes (sb_format_version sb));
         page = copy_into page 12 (u32_to_le_bytes (sb_min_reader_version sb));
         page = copy_into page 16 (u64_to_le_bytes (sb_feature_flags sb));
         page = copy_into page 24 (u32_to_le_bytes (sb_page_size sb));
         page = copy_into page 28 (sb_db_id sb);
         page = copy_into page 44 (u64_to_le_bytes (sb_checkpoint_lsn sb))
     in copy_into page 52 (u64_to_le_bytes (sb_catalog_root sb)))"

definition sb_encode :: "(bytes \<Rightarrow> u32) \<Rightarrow> superblock \<Rightarrow> bytes \<Rightarrow> bytes devon_result" where
  "sb_encode crc32c sb page =
    (if length page < HEADER_LEN
     then Inl (InvalidArgument ''superblock page must be at least 64 bytes'')
     else if \<not> valid_page_size (sb_page_size sb)
     then Inl (InvalidArgument
       ''page size {} must be a power of two between 4096 and 65536 bytes'')
     else if sb_min_reader_version sb > sb_format_version sb
     then Inl (InvalidArgument
       ''minimum reader version {} cannot exceed format version {}'')
     else
       (let page = sb_fill_fields sb (replicate (length page) 0);
            checksum = crc32c (subslice page 0 CHECKSUM_OFFSET);
            page = copy_into page CHECKSUM_OFFSET (u32_to_le_bytes checksum)
        in Inr page))"

definition read_db_id :: "bytes \<Rightarrow> bytes" where
  "read_db_id page = subslice page 28 44"

definition version_mismatch :: "superblock \<Rightarrow> devon_error" where
  "version_mismatch sb = VersionMismatch (sb_format_version sb) (sb_min_reader_version sb)
     SUPPORTED_FORMAT_VERSION"

definition validate_decoded :: "superblock \<Rightarrow> u64 \<Rightarrow> u64 \<Rightarrow> unit devon_result" where
  "validate_decoded sb supported read_safe =
    (if sb_min_reader_version sb > SUPPORTED_FORMAT_VERSION then Inl (version_mismatch sb)
     else if sb_feature_flags sb AND NOT (read_safe OR supported) \<noteq> 0
     then Inl (version_mismatch sb)
     else if \<not> valid_page_size (sb_page_size sb)
     then Inl (Corrupt ''invalid page size in superblock'')
     else Inr ())"

definition decode_with_masks ::
    "(bytes \<Rightarrow> u32) \<Rightarrow> bytes \<Rightarrow> u64 \<Rightarrow> u64 \<Rightarrow> superblock devon_result" where
  "decode_with_masks crc32c page supported read_safe =
    (if length page < HEADER_LEN
     then Inl (Corrupt ''superblock page is shorter than 64 bytes'')
     else if subslice page 0 8 \<noteq> MAGIC then Inl (Corrupt ''invalid superblock magic'')
     else
       (let expected_checksum = read_u32 page CHECKSUM_OFFSET;
            actual_checksum = crc32c (subslice page 0 CHECKSUM_OFFSET)
        in if actual_checksum \<noteq> expected_checksum
           then Inl (Corrupt ''superblock checksum does not match'')
           else
             (let superblock =
                \<lparr> sb_format_version = read_u32 page 8,
                  sb_min_reader_version = read_u32 page 12,
                  sb_feature_flags = read_u64 page 16,
                  sb_page_size = read_u32 page 24,
                  sb_db_id = read_db_id page,
                  sb_checkpoint_lsn = read_u64 page 44,
                  sb_catalog_root = read_u64 page 52 \<rparr>
              in rbind (validate_decoded superblock supported read_safe)
                   (\<lambda>_. Inr superblock))))"

definition sb_decode :: "(bytes \<Rightarrow> u32) \<Rightarrow> bytes \<Rightarrow> superblock devon_result" where
  "sb_decode crc32c page = decode_with_masks crc32c page SUPPORTED_FLAG_MASK READ_SAFE_FLAG_MASK"

definition requires_read_only :: "superblock \<Rightarrow> bool" where
  "requires_read_only sb \<longleftrightarrow>
     sb_feature_flags sb AND READ_SAFE_FLAG_MASK AND NOT SUPPORTED_FLAG_MASK \<noteq> 0"

text \<open>Arbitration between the two slots; the match arms of the source, in its order.\<close>

fun is_version_mismatch :: "devon_error \<Rightarrow> bool" where
  "is_version_mismatch (VersionMismatch a b c) = True"
| "is_version_mismatch _ = False"

definition choose_authoritative ::
    "superblock devon_result \<Rightarrow> superblock devon_result \<Rightarrow> superblock devon_result" where
  "choose_authoritative a b =
    (case (a, b) of
       (Inl ea, _) \<Rightarrow>
         (if is_version_mismatch ea then Inl ea
          else (case b of
                  Inl eb \<Rightarrow> (if is_version_mismatch eb then Inl eb else Inl ea)
                | Inr sb \<Rightarrow> Inr sb))
     | (Inr sa, Inl eb) \<Rightarrow> (if is_version_mismatch eb then Inl eb else Inr sa)
     | (Inr sa, Inr sb) \<Rightarrow>
         (if sb_checkpoint_lsn sb > sb_checkpoint_lsn sa then Inr sb else Inr sa))"

section \<open>Valid page sizes\<close>

lemma count_ones_eq_1_imp:
  fixes w :: "'a::len word"
  assumes "count_ones w = 1"
  obtains n where "n < LENGTH('a)" and "w = 2 ^ n"
proof -
  from assms obtain n where f: "filter (bit w) [0..<LENGTH('a)] = [n]"
    by (auto simp: count_ones_def length_Suc_conv)
  have "{i. i < LENGTH('a) \<and> bit w i} = set (filter (bit w) [0..<LENGTH('a)])"
    by auto
  with f have s: "{i. i < LENGTH('a) \<and> bit w i} = {n}"
    by simp
  then have n: "n < LENGTH('a)" by auto
  have "w = 2 ^ n"
  proof (rule bit_word_eqI)
    fix i assume "i < LENGTH('a)"
    with s have "bit w i \<longleftrightarrow> i = n" by blast
    with n show "bit w i \<longleftrightarrow> bit (2 ^ n :: 'a word) i"
      by (auto simp: bit_exp_iff)
  qed
  with n show ?thesis by (rule that)
qed

lemma valid_page_size_iff: "valid_page_size sz \<longleftrightarrow> sz \<in> {4096, 8192, 16384, 32768, 65536}"
proof
  assume v: "valid_page_size sz"
  then obtain n where n: "n < 32" "sz = 2 ^ n"
    using count_ones_eq_1_imp [of sz] by (auto simp: valid_page_size_def)
  then have u: "unat sz = 2 ^ n"
    by (simp add: unat_two_power)
  from v have "(4096 :: nat) \<le> 2 ^ n" "2 ^ n \<le> (65536 :: nat)"
    unfolding u [symmetric]
    by (simp_all add: valid_page_size_def word_le_nat_alt sb_const_defs)
  then have "(2::nat) ^ 12 \<le> 2 ^ n" "(2::nat) ^ n \<le> 2 ^ 16"
    by simp_all
  then have "12 \<le> n" "n \<le> 16"
    by (simp_all only: power_increasing_iff one_less_numeral_iff semiring_norm)
  then consider "n = 12" | "n = 13" | "n = 14" | "n = 15" | "n = 16"
    by linarith
  then show "sz \<in> {4096, 8192, 16384, 32768, 65536}"
    using n by cases simp_all
next
  have "list_all valid_page_size [4096, 8192, 16384, 32768, 65536]"
    by code_simp
  moreover assume "sz \<in> {4096, 8192, 16384, 32768, 65536}"
  ultimately show "valid_page_size sz"
    by auto
qed

section \<open>The codec\<close>

lemma length_MAGIC [simp]: "length MAGIC = 8"
  by (simp add: MAGIC_def)

text \<open>Well-formed headers: what \<open>encode\<close> accepts and \<open>decode\<close> under the build's masks admits.\<close>

definition sb_readable :: "superblock \<Rightarrow> bool" where
  "sb_readable sb \<longleftrightarrow>
     sb_min_reader_version sb \<le> SUPPORTED_FORMAT_VERSION \<and>
     sb_feature_flags sb AND NOT (READ_SAFE_FLAG_MASK OR SUPPORTED_FLAG_MASK) = 0"

lemma validate_decoded_iff:
  "validate_decoded sb SUPPORTED_FLAG_MASK READ_SAFE_FLAG_MASK = Inr u \<longleftrightarrow>
     sb_readable sb \<and> valid_page_size (sb_page_size sb)"
  by (auto simp: validate_decoded_def sb_readable_def not_less)

lemma superblock_collapse:
  "\<lparr> sb_format_version = sb_format_version sb, sb_min_reader_version = sb_min_reader_version sb,
     sb_feature_flags = sb_feature_flags sb, sb_page_size = sb_page_size sb,
     sb_db_id = sb_db_id sb, sb_checkpoint_lsn = sb_checkpoint_lsn sb,
     sb_catalog_root = sb_catalog_root sb \<rparr> = sb"
  by simp

lemma sb_decode_readable: "sb_decode crc32c page = Inr sb \<Longrightarrow> sb_readable sb"
  by (auto simp: sb_decode_def decode_with_masks_def Let_def rbind_eq_Inr validate_decoded_iff
      split: if_splits)

lemma sb_decode_header_only:
  assumes "take 64 page = take 64 page'" and "64 \<le> length page" and "64 \<le> length page'"
  shows "sb_decode crc32c page = sb_decode crc32c page'"
proof -
  have "subslice page a b = subslice page' a b" if "b \<le> 64" for a b
    using subslice_subslice [OF that, of page a] subslice_subslice [OF that, of page' a] assms(1)
    by (simp add: subslice_def [of _ 0])
  with assms(2,3) show ?thesis
    by (simp add: sb_decode_def decode_with_masks_def HEADER_LEN_def CHECKSUM_OFFSET_def Let_def
        read_u32_def read_u64_def read_db_id_def)
qed

lemma sb_fill_fields_shape:
  assumes "64 \<le> length page" and "length (sb_db_id sb) = 16"
  shows "length (sb_fill_fields sb page) = length page"
    and "subslice (sb_fill_fields sb page) 0 8 = MAGIC"
    and "subslice (sb_fill_fields sb page) 8 12 = u32_to_le_bytes (sb_format_version sb)"
    and "subslice (sb_fill_fields sb page) 12 16 = u32_to_le_bytes (sb_min_reader_version sb)"
    and "subslice (sb_fill_fields sb page) 16 24 = u64_to_le_bytes (sb_feature_flags sb)"
    and "subslice (sb_fill_fields sb page) 24 28 = u32_to_le_bytes (sb_page_size sb)"
    and "subslice (sb_fill_fields sb page) 28 44 = sb_db_id sb"
    and "subslice (sb_fill_fields sb page) 44 52 = u64_to_le_bytes (sb_checkpoint_lsn sb)"
    and "subslice (sb_fill_fields sb page) 52 60 = u64_to_le_bytes (sb_catalog_root sb)"
    and "64 \<le> a \<Longrightarrow> subslice (sb_fill_fields sb page) a b = subslice page a b"
  using assms by (simp_all add: sb_fill_fields_def Let_def byte_simps)

lemma sb_encode_eq:
  assumes "sb_encode crc32c sb page = Inr p"
  obtains q where "q = sb_fill_fields sb (replicate (length page) 0)"
    and "p = copy_into q 60 (u32_to_le_bytes (crc32c (subslice q 0 60)))"
    and "64 \<le> length page" and "valid_page_size (sb_page_size sb)"
    and "sb_min_reader_version sb \<le> sb_format_version sb"
  using assms by (auto simp: sb_encode_def Let_def sb_const_defs split: if_splits)

lemma sb_decode_sb_encode:
  assumes enc: "sb_encode crc32c sb page = Inr p" and id: "length (sb_db_id sb) = 16"
    and ok: "sb_readable sb"
  shows "sb_decode crc32c p = Inr sb"
proof -
  from enc obtain q where q: "q = sb_fill_fields sb (replicate (length page) 0)"
    and p: "p = copy_into q 60 (u32_to_le_bytes (crc32c (subslice q 0 60)))"
    and len: "64 \<le> length page" and sz: "valid_page_size (sb_page_size sb)"
    by (rule sb_encode_eq)
  have "64 \<le> length (replicate (length page) (0::u8))" using len by simp
  note shape = sb_fill_fields_shape [OF this id, folded q]
  have v: "validate_decoded sb SUPPORTED_FLAG_MASK READ_SAFE_FLAG_MASK = Inr ()"
    using ok sz by (simp add: validate_decoded_iff)
  show ?thesis
    using len v
    by (simp add: sb_decode_def decode_with_masks_def sb_const_defs read_u32_def read_u64_def
        read_db_id_def p shape byte_simps Let_def superblock_collapse)
qed

lemma sb_encode_tail:
  assumes enc: "sb_encode crc32c sb page = Inr p" and id: "length (sb_db_id sb) = 16"
  shows "length p = length page"
    and "subslice p 64 (length p) = replicate (length p - 64) 0"
proof -
  from enc obtain q where q: "q = sb_fill_fields sb (replicate (length page) 0)"
    and p: "p = copy_into q 60 (u32_to_le_bytes (crc32c (subslice q 0 60)))"
    and len: "64 \<le> length page"
    by (rule sb_encode_eq)
  have "64 \<le> length (replicate (length page) (0::u8))" using len by simp
  note shape = sb_fill_fields_shape [OF this id, folded q]
  show "length p = length page" "subslice p 64 (length p) = replicate (length p - 64) 0"
    using len by (simp_all add: p shape byte_simps)
qed

text \<open>
  C33. A header that \<open>Superblock::encode\<close> writes, and whose version and flags this build reads,
  decodes to itself; the page keeps its length and every byte past the 64-byte header is zero.
\<close>

theorem superblock_roundtrip:
  assumes "sb_encode crc32c sb page = Inr p" and "length (sb_db_id sb) = 16"
    and "sb_readable sb"
  shows "sb_decode crc32c p = Inr sb \<and> length p = length page \<and>
     subslice p 64 (length p) = replicate (length p - 64) 0"
  using sb_decode_sb_encode [OF assms] sb_encode_tail [OF assms(1,2)] by simp

text \<open>The sample header of the source's own tests, on a 64-byte page.\<close>

definition sample_superblock :: superblock where
  "sample_superblock =
    \<lparr> sb_format_version = 1, sb_min_reader_version = 1, sb_feature_flags = 0x2021,
      sb_page_size = 4096, sb_db_id = replicate 16 7, sb_checkpoint_lsn = 42,
      sb_catalog_root = 73 \<rparr>"

lemma sample_superblock_readable: "sb_readable sample_superblock"
  by (simp add: sb_readable_def sample_superblock_def sb_const_defs
      READ_SAFE_FLAG_MASK_value SUPPORTED_FLAG_MASK_value)

lemma sample_superblock_encodes:
  "\<exists>p. sb_encode byte_sum sample_superblock (replicate 64 0xFF) = Inr p"
  by (simp add: sb_encode_def sample_superblock_def sb_const_defs valid_page_size_iff Let_def)

theorem superblock_roundtrip_witness:
  "\<exists>p. sb_encode byte_sum sample_superblock (replicate 64 0xFF) = Inr p \<and>
     sb_decode byte_sum p = Inr sample_superblock"
proof -
  obtain p where p: "sb_encode byte_sum sample_superblock (replicate 64 0xFF) = Inr p"
    using sample_superblock_encodes by blast
  have "length (sb_db_id sample_superblock) = 16" by (simp add: sample_superblock_def)
  from superblock_roundtrip [OF p this sample_superblock_readable] p show ?thesis by blast
qed

section \<open>What a successful decode guarantees\<close>

text \<open>
  \<open>decode\<close> fails closed: it succeeds on a page exactly when the header is long enough, the
  magic and the checksum match, the reader version is supported, every set feature bit is known
  to this build, and the page size is legal; and then its fields are the stored ones.
\<close>

lemma superblock_decode_iff:
  "sb_decode crc32c page = Inr sb \<longleftrightarrow>
     64 \<le> length page \<and> subslice page 0 8 = MAGIC \<and>
     crc32c (subslice page 0 60) = read_u32 page 60 \<and>
     sb_readable sb \<and> valid_page_size (sb_page_size sb) \<and>
     sb = \<lparr> sb_format_version = read_u32 page 8, sb_min_reader_version = read_u32 page 12,
            sb_feature_flags = read_u64 page 16, sb_page_size = read_u32 page 24,
            sb_db_id = subslice page 28 44, sb_checkpoint_lsn = read_u64 page 44,
            sb_catalog_root = read_u64 page 52 \<rparr>"
  by (auto simp: sb_decode_def decode_with_masks_def HEADER_LEN_def CHECKSUM_OFFSET_def Let_def
      rbind_eq_Inr validate_decoded_iff read_db_id_def)

text \<open>
  C34. A file this build opens for writing (decoded, and not forced read-only) sets only feature
  bits the build fully supports: no feature can be silently dropped by a writer.
\<close>

theorem writable_open_fully_supported:
  assumes "sb_decode crc32c page = Inr sb" and "\<not> requires_read_only sb"
  shows "sb_feature_flags sb AND NOT SUPPORTED_FLAG_MASK = 0"
proof -
  let ?f = "sb_feature_flags sb"
  from assms(1) have "?f AND NOT (READ_SAFE_FLAG_MASK OR SUPPORTED_FLAG_MASK) = 0"
    by (auto dest: sb_decode_readable simp: sb_readable_def)
  moreover from assms(2) have "?f AND READ_SAFE_FLAG_MASK AND NOT SUPPORTED_FLAG_MASK = 0"
    by (simp add: requires_read_only_def)
  ultimately show ?thesis
    by (auto simp: bit_eq_iff bit_simps)
qed

theorem writable_open_fully_supported_witness:
  "\<exists>page. sb_decode byte_sum page = Inr sample_superblock \<and>
     sb_feature_flags sample_superblock AND NOT SUPPORTED_FLAG_MASK = 0"
proof -
  obtain p where p: "sb_encode byte_sum sample_superblock (replicate 64 0xFF) = Inr p"
    using sample_superblock_encodes by blast
  have d: "sb_decode byte_sum p = Inr sample_superblock"
    by (rule sb_decode_sb_encode [OF p _ sample_superblock_readable])
      (simp add: sample_superblock_def)
  have "\<not> requires_read_only sample_superblock"
    by (simp add: requires_read_only_def sample_superblock_def
        READ_SAFE_FLAG_MASK_value SUPPORTED_FLAG_MASK_value)
  from d writable_open_fully_supported [OF d this] show ?thesis by blast
qed

section \<open>Slot arbitration\<close>

text \<open>
  C18. Arbitration picks a valid slot with the highest checkpoint LSN (slot A on a tie), refuses
  the file whenever either slot needs a newer reader, and fails only if neither slot is usable.
\<close>

theorem choose_authoritative_spec:
  "case choose_authoritative a b of
     Inr s \<Rightarrow>
       (a = Inr s \<or> b = Inr s) \<and>
       (\<forall>s'. a = Inr s' \<or> b = Inr s' \<longrightarrow> sb_checkpoint_lsn s' \<le> sb_checkpoint_lsn s) \<and>
       (\<forall>e. a = Inl e \<or> b = Inl e \<longrightarrow> \<not> is_version_mismatch e)
   | Inl e \<Rightarrow>
       (a = Inl e \<or> b = Inl e) \<and>
       (is_version_mismatch e \<or> \<not> is_ok a \<and> \<not> is_ok b)"
  by (cases a; cases b) (auto simp: choose_authoritative_def)

theorem choose_authoritative_spec_witness:
  "choose_authoritative (Inr sample_superblock)
     (Inr (sample_superblock\<lparr>sb_checkpoint_lsn := 43\<rparr>))
   = Inr (sample_superblock\<lparr>sb_checkpoint_lsn := 43\<rparr>)"
  using choose_authoritative_spec [of "Inr sample_superblock"
      "Inr (sample_superblock\<lparr>sb_checkpoint_lsn := 43\<rparr>)"]
  by (simp add: choose_authoritative_def sample_superblock_def)

end
