(* ===== verification/Wal.thy ===== *)
theory Wal
  imports Prelude
begin

text \<open>
  The write-ahead log sidecar (\<^verbatim>\<open>devondb-storage/src/wal.rs\<close>): record framing, the forward-only
  reader with its torn-tail rule, replay and cursor replay, and the appending writer with its
  open-time repair and its recovery from a failed write.

  A file is its byte contents. What the operating system does to a write is an explicit argument
  of \<open>wal_append\<close>: it succeeds, or it fails after a prefix of the record reached the file and the
  truncation that undoes it then succeeds or fails. Reads do not fail. The CRC-32C of the
  \<^verbatim>\<open>crc32c\<close> crate is the pair of parameters \<open>crc32c\<close> and \<open>crc32c_append\<close>; the results hold for
  any two functions.
\<close>

definition WAL_HEADER_LEN :: nat where "WAL_HEADER_LEN = 16"

type_synonym wal_record = "u64 \<times> bytes"
type_synonym crc_fun = "bytes \<Rightarrow> u32"
type_synonym crc_append_fun = "u32 \<Rightarrow> bytes \<Rightarrow> u32"

section \<open>Framing\<close>

definition encode_header ::
    "crc_fun \<Rightarrow> crc_append_fun \<Rightarrow> u64 \<Rightarrow> bytes \<Rightarrow> bytes devon_result" where
  "encode_header crc32c crc32c_append lsn payload =
    rbind (ok_or (InvalidArgument ''WAL payload length exceeds u32::MAX'')
             (u32_try_from (length payload)))
      (\<lambda>payload_len.
        (let lsn_bytes = u64_to_le_bytes lsn;
             checksum = crc32c_append (crc32c lsn_bytes) payload
         in Inr (u32_to_le_bytes payload_len @ u32_to_le_bytes checksum @ lsn_bytes)))"

section \<open>The reader\<close>

record wal_reader =
  rd_file :: bytes
  rd_pos :: nat
  rd_last_lsn :: "u64 option"
  rd_stopped :: bool

definition from_file :: "bytes \<Rightarrow> wal_reader" where
  "from_file file = \<lparr> rd_file = file, rd_pos = 0, rd_last_lsn = None, rd_stopped = False \<rparr>"

text \<open>
  \<open>WalReader::read_next\<close>: a complete header, a complete payload, a matching checksum and a
  strictly larger LSN, or nothing. The stream position after an unsuccessful read is not used by
  any caller and is left unchanged here.
\<close>

definition read_next ::
    "crc_fun \<Rightarrow> crc_append_fun \<Rightarrow> wal_reader \<Rightarrow> wal_record option \<times> wal_reader" where
  "read_next crc32c crc32c_append r =
    (let rest = drop (rd_pos r) (rd_file r) in
     if length rest < WAL_HEADER_LEN then (None, r)
     else
       (let payload_len = unat (from_le (subslice rest 0 4) :: u32);
            expected_crc = (from_le (subslice rest 4 8) :: u32);
            lsn_bytes = subslice rest 8 16;
            lsn = (from_le lsn_bytes :: u64);
            body = drop WAL_HEADER_LEN rest
        in if length body < payload_len then (None, r)
           else
             (let payload = take payload_len body;
                  actual_crc = crc32c_append (crc32c lsn_bytes) payload
              in if actual_crc \<noteq> expected_crc
                    \<or> (case rd_last_lsn r of None \<Rightarrow> False | Some prev \<Rightarrow> lsn \<le> prev)
                 then (None, r)
                 else (Some (lsn, payload),
                       r\<lparr> rd_pos := rd_pos r + WAL_HEADER_LEN + payload_len,
                          rd_last_lsn := Some lsn \<rparr>))))"

text \<open>\<open>Iterator for WalReader\<close>: after the first miss the reader stays stopped.\<close>

definition reader_next ::
    "crc_fun \<Rightarrow> crc_append_fun \<Rightarrow> wal_reader \<Rightarrow> wal_record option \<times> wal_reader" where
  "reader_next crc32c crc32c_append r =
    (if rd_stopped r then (None, r)
     else (case read_next crc32c crc32c_append r of
             (Some rec, r') \<Rightarrow> (Some rec, r')
           | (None, r') \<Rightarrow> (None, r'\<lparr> rd_stopped := True \<rparr>)))"

lemma read_next_advances:
  assumes "read_next crc32c crc32c_append r = (Some rec, r')"
  shows "rd_file r' = rd_file r" and "rd_pos r < rd_pos r'" and "rd_pos r' \<le> length (rd_file r)"
    and "rd_stopped r' = rd_stopped r"
  using assms
  by (auto simp: read_next_def Let_def WAL_HEADER_LEN_def split: if_splits)

text \<open>
  The loop \<open>while let Some(record) = reader.read_next()\<close> shared by \<open>replay\<close>, \<open>replay_from\<close> and
  \<open>scan_intact_prefix\<close>: the records and the reader at the end of the last intact one.
\<close>

function read_loop ::
    "crc_fun \<Rightarrow> crc_append_fun \<Rightarrow> wal_reader \<Rightarrow> wal_record list \<times> wal_reader" where
  "read_loop crc32c crc32c_append r =
    (case read_next crc32c crc32c_append r of
       (None, _) \<Rightarrow> ([], r)
     | (Some rec, r') \<Rightarrow>
         (let (recs, r'') = read_loop crc32c crc32c_append r' in (rec # recs, r'')))"
  by pat_completeness auto
termination
proof (relation "measure (\<lambda>(_, _, r). length (rd_file r) - rd_pos r)", goal_cases)
  case (2 crc32c crc32c_append r x y rec)
  then have "read_next crc32c crc32c_append r = (Some rec, y)"
    by simp
  from read_next_advances [OF this] show ?case
    by auto
qed simp

declare read_loop.simps [simp del]

definition replay :: "crc_fun \<Rightarrow> crc_append_fun \<Rightarrow> bytes \<Rightarrow> wal_record list" where
  "replay crc32c crc32c_append file = fst (read_loop crc32c crc32c_append (from_file file))"

definition replay_from ::
    "crc_fun \<Rightarrow> crc_append_fun \<Rightarrow> bytes \<Rightarrow> nat \<Rightarrow> (wal_record list \<times> nat) devon_result" where
  "replay_from crc32c crc32c_append file offset =
    (if offset > length file
     then Inl (InvalidArgument ''WAL replay offset {} is beyond the file length {}'')
     else
       (let (records, r) = read_loop crc32c crc32c_append ((from_file file)\<lparr> rd_pos := offset \<rparr>)
        in Inr (records, rd_pos r)))"

definition scan_intact_prefix ::
    "crc_fun \<Rightarrow> crc_append_fun \<Rightarrow> bytes \<Rightarrow> nat \<times> u64 option" where
  "scan_intact_prefix crc32c crc32c_append file =
    (let (_, r) = read_loop crc32c crc32c_append (from_file file)
     in (rd_pos r, rd_last_lsn r))"

section \<open>The writer\<close>

record wal_writer =
  wr_file :: bytes
  wr_log_end :: nat
  wr_next_lsn :: "u64 option"
  wr_poison_reason :: "string option"

text \<open>\<open>File::set_len\<close> and a write at a seeked position.\<close>

definition set_len :: "bytes \<Rightarrow> nat \<Rightarrow> bytes" where
  "set_len file n = take n file @ replicate (n - length file) 0"

definition write_at :: "bytes \<Rightarrow> nat \<Rightarrow> bytes \<Rightarrow> bytes" where
  "write_at file pos src = set_len file pos @ src @ drop (pos + length src) file"

definition next_lsn_after :: "u64 option \<Rightarrow> u64 \<Rightarrow> u64 option" where
  "next_lsn_after last_lsn requested =
    (case last_lsn of
       Some prev \<Rightarrow> map_option (\<lambda>nxt. max requested nxt) (checked_add_word prev 1)
     | None \<Rightarrow> Some requested)"

definition wal_open :: "crc_fun \<Rightarrow> crc_append_fun \<Rightarrow> bytes \<Rightarrow> u64 \<Rightarrow> wal_writer" where
  "wal_open crc32c crc32c_append file next_lsn =
    (let (log_end, last_lsn) = scan_intact_prefix crc32c crc32c_append file;
         file = (if length file \<noteq> log_end then set_len file log_end else file)
     in \<lparr> wr_file = file, wr_log_end = log_end,
          wr_next_lsn = next_lsn_after last_lsn next_lsn, wr_poison_reason = None \<rparr>)"

text \<open>What the operating system makes of the two \<open>write_all\<close> calls of one append.\<close>

datatype io_outcome =
    Written
  | WriteFailed nat bool \<comment> \<open>bytes that reached the file; whether the truncation succeeded\<close>

definition recover_failed_append :: "bool \<Rightarrow> wal_writer \<Rightarrow> devon_error \<times> wal_writer" where
  "recover_failed_append truncated w =
    (if truncated
     then (Io ''write_all'', w\<lparr> wr_file := set_len (wr_file w) (wr_log_end w) \<rparr>)
     else
       (let context = ''WAL writer poisoned: append failed ({}) and truncating the torn tail to byte {} failed ({})''
        in (Corrupt context, w\<lparr> wr_poison_reason := Some context \<rparr>)))"

definition wal_append ::
    "crc_fun \<Rightarrow> crc_append_fun \<Rightarrow> io_outcome \<Rightarrow> wal_writer \<Rightarrow> bytes
      \<Rightarrow> u64 devon_result \<times> wal_writer" where
  "wal_append crc32c crc32c_append io w payload =
    (case wr_poison_reason w of
       Some context \<Rightarrow> (Inl (Corrupt context), w)
     | None \<Rightarrow>
    (case wr_next_lsn w of
       None \<Rightarrow> (Inl (InvalidArgument ''WAL LSN space is exhausted''), w)
     | Some lsn \<Rightarrow>
    (case encode_header crc32c crc32c_append lsn payload of
       Inl e \<Rightarrow> (Inl e, w)
     | Inr header \<Rightarrow>
    (case checked_add_usize (wr_log_end w) (WAL_HEADER_LEN + length payload) of
       None \<Rightarrow> (Inl (InvalidArgument ''WAL file length exceeds u64::MAX''), w)
     | Some new_log_end \<Rightarrow>
    (case io of
       Written \<Rightarrow>
         (Inr lsn,
          w\<lparr> wr_file := write_at (wr_file w) (wr_log_end w) (header @ payload),
             wr_log_end := new_log_end,
             wr_next_lsn := checked_add_word lsn 1 \<rparr>)
     | WriteFailed n truncated \<Rightarrow>
         (let (e, w') = recover_failed_append truncated
                (w\<lparr> wr_file := write_at (wr_file w) (wr_log_end w) (take n (header @ payload)) \<rparr>)
          in (Inl e, w')))))))"

section \<open>Parsing one record\<close>

text \<open>The bytes of one record, and the reader restated on the bytes that remain.\<close>

definition frame :: "crc_fun \<Rightarrow> crc_append_fun \<Rightarrow> wal_record \<Rightarrow> bytes" where
  "frame crc32c crc32c_append rec =
    u32_to_le_bytes (of_nat (length (snd rec)))
    @ u32_to_le_bytes (crc32c_append (crc32c (u64_to_le_bytes (fst rec))) (snd rec))
    @ u64_to_le_bytes (fst rec) @ snd rec"

fun above :: "u64 option \<Rightarrow> u64 \<Rightarrow> bool" where
  "above None lsn = True"
| "above (Some prev) lsn = (prev < lsn)"

definition parse_record ::
    "crc_fun \<Rightarrow> crc_append_fun \<Rightarrow> u64 option \<Rightarrow> bytes \<Rightarrow> wal_record option" where
  "parse_record crc32c crc32c_append last_lsn rest =
    fst (read_next crc32c crc32c_append
      \<lparr> rd_file = rest, rd_pos = 0, rd_last_lsn = last_lsn, rd_stopped = False \<rparr>)"

lemma length_frame [simp]: "length (frame crc32c crc32c_append rec) = 16 + length (snd rec)"
  by (simp add: frame_def)

lemma read_next_parse:
  "read_next crc32c crc32c_append r =
    (case parse_record crc32c crc32c_append (rd_last_lsn r) (drop (rd_pos r) (rd_file r)) of
       None \<Rightarrow> (None, r)
     | Some (lsn, payload) \<Rightarrow>
         (Some (lsn, payload),
          r\<lparr> rd_pos := rd_pos r + 16 + length payload, rd_last_lsn := Some lsn \<rparr>))"
  by (simp add: parse_record_def read_next_def Let_def WAL_HEADER_LEN_def min_absorb2)

lemma parse_record_frame:
  assumes "above last_lsn (fst rec)" and "length (snd rec) < 2 ^ 32"
  shows "parse_record crc32c crc32c_append last_lsn (frame crc32c crc32c_append rec @ rest) = Some rec"
  using assms
  by (cases last_lsn)
    (auto simp: parse_record_def read_next_def Let_def WAL_HEADER_LEN_def frame_def subslice_def)

lemma parse_record_SomeD:
  assumes "parse_record crc32c crc32c_append last_lsn bs = Some rec"
  shows "bs = frame crc32c crc32c_append rec @ drop (16 + length (snd rec)) bs"
    and "above last_lsn (fst rec)" and "length (snd rec) < 2 ^ 32"
proof -
  let ?n = "from_le (subslice bs 0 4) :: u32"
  let ?lsn = "subslice bs 8 16"
  let ?body = "drop 16 bs"
  from assms have len: "16 \<le> length bs" "unat ?n \<le> length ?body"
    and rec: "rec = (from_le ?lsn, take (unat ?n) ?body)"
    and crc: "crc32c_append (crc32c ?lsn) (take (unat ?n) ?body) = from_le (subslice bs 4 8)"
    and ab: "above last_lsn (fst rec)"
    by (auto simp: parse_record_def read_next_def Let_def WAL_HEADER_LEN_def not_le not_less
        split: if_splits option.splits)
  have lsn: "u64_to_le_bytes (from_le ?lsn) = ?lsn"
    using to_le_from_le [of ?lsn, where ?'a = 64] len by simp
  have n: "u32_to_le_bytes ?n = subslice bs 0 4"
    using to_le_from_le [of "subslice bs 0 4", where ?'a = 32] len by simp
  have c: "u32_to_le_bytes (from_le (subslice bs 4 8)) = subslice bs 4 8"
    using to_le_from_le [of "subslice bs 4 8", where ?'a = 32] len by simp
  have small: "length (snd rec) = unat ?n"
    using rec len by (simp add: min_absorb2)
  have "frame crc32c crc32c_append rec
      = subslice bs 0 4 @ subslice bs 4 8 @ ?lsn @ take (unat ?n) ?body"
    using len by (simp add: frame_def rec lsn crc n c min_absorb2)
  also have "\<dots> = take (16 + unat ?n) bs"
    by (simp add: subslice_def take_add drop_drop flip: append_assoc take_add)
  finally show "bs = frame crc32c crc32c_append rec @ drop (16 + length (snd rec)) bs"
    by (simp add: small)
  show "above last_lsn (fst rec)" by (rule ab)
  show "length (snd rec) < 2 ^ 32"
    unfolding small using unsigned_less [of ?n, where ?'a = nat] by simp
qed

lemma parse_record_torn:
  assumes "n < 16 + length (snd rec)" and "length (snd rec) < 2 ^ 32"
  shows "parse_record crc32c crc32c_append last_lsn (take n (frame crc32c crc32c_append rec)) = None"
proof (cases "n < 16")
  case True
  then show ?thesis
    by (simp add: parse_record_def read_next_def Let_def WAL_HEADER_LEN_def)
next
  case False
  then have "subslice (take n (frame crc32c crc32c_append rec)) 0 4
      = u32_to_le_bytes (of_nat (length (snd rec)))"
    by (simp add: subslice_def frame_def min_absorb1)
  moreover have "n - 16 < length (snd rec)"
    using False assms(1) by arith
  ultimately show ?thesis
    using assms(2) by (simp add: parse_record_def read_next_def Let_def WAL_HEADER_LEN_def)
qed

section \<open>Whole logs\<close>

definition log_file :: "crc_fun \<Rightarrow> crc_append_fun \<Rightarrow> wal_record list \<Rightarrow> bytes" where
  "log_file crc32c crc32c_append recs = concat (map (frame crc32c crc32c_append) recs)"

fun log_ok :: "u64 option \<Rightarrow> wal_record list \<Rightarrow> bool" where
  "log_ok prev [] = True"
| "log_ok prev (rec # recs) =
     (above prev (fst rec) \<and> length (snd rec) < 2 ^ 32 \<and> log_ok (Some (fst rec)) recs)"

fun last_lsn_of :: "u64 option \<Rightarrow> wal_record list \<Rightarrow> u64 option" where
  "last_lsn_of prev [] = prev"
| "last_lsn_of prev (rec # recs) = last_lsn_of (Some (fst rec)) recs"

lemma log_file_simps [simp]:
  "log_file crc32c crc32c_append [] = []"
  "log_file crc32c crc32c_append (rec # recs)
    = frame crc32c crc32c_append rec @ log_file crc32c crc32c_append recs"
  "log_file crc32c crc32c_append (recs @ recs')
    = log_file crc32c crc32c_append recs @ log_file crc32c crc32c_append recs'"
  by (simp_all add: log_file_def)

lemma last_lsn_of_append [simp]:
  "last_lsn_of prev (recs @ recs') = last_lsn_of (last_lsn_of prev recs) recs'"
  by (induction recs arbitrary: prev) simp_all

lemma log_ok_append:
  "log_ok prev (recs @ recs') \<longleftrightarrow> log_ok prev recs \<and> log_ok (last_lsn_of prev recs) recs'"
  by (induction recs arbitrary: prev) auto

lemma above_trans: "above prev l \<Longrightarrow> l < l' \<Longrightarrow> above prev l'"
  by (cases prev) auto

lemma log_ok_sorted:
  "log_ok prev recs \<Longrightarrow> sorted_wrt (<) (map fst recs) \<and> (\<forall>rec\<in>set recs. above prev (fst rec))"
proof (induction recs arbitrary: prev)
  case (Cons rec recs)
  from Cons.prems Cons.IH [of "Some (fst rec)"] show ?case
    by (auto intro: above_trans)
qed simp

lemma log_ok_take: "log_ok prev recs \<Longrightarrow> log_ok prev (take j recs)"
  by (metis append_take_drop_id log_ok_append)

lemma read_loop_frames:
  assumes "drop (rd_pos r) (rd_file r) = log_file crc32c crc32c_append recs @ tail"
    and "log_ok (rd_last_lsn r) recs"
    and "parse_record crc32c crc32c_append (last_lsn_of (rd_last_lsn r) recs) tail = None"
  shows "read_loop crc32c crc32c_append r =
    (recs, r\<lparr> rd_pos := rd_pos r + length (log_file crc32c crc32c_append recs),
              rd_last_lsn := last_lsn_of (rd_last_lsn r) recs \<rparr>)"
  using assms
proof (induction recs arbitrary: r)
  case Nil
  then show ?case
    by (simp add: read_loop.simps [of _ _ r] read_next_parse)
next
  case (Cons rec recs)
  let ?r = "r\<lparr> rd_pos := rd_pos r + 16 + length (snd rec), rd_last_lsn := Some (fst rec) \<rparr>"
  have nxt: "read_next crc32c crc32c_append r = (Some rec, ?r)"
    using Cons.prems by (cases rec) (simp add: read_next_parse parse_record_frame)
  have "drop (rd_pos ?r) (rd_file ?r) = drop (16 + length (snd rec)) (drop (rd_pos r) (rd_file r))"
    by (simp add: add.commute add.left_commute)
  also have "\<dots> = log_file crc32c crc32c_append recs @ tail"
    using Cons.prems(1) by simp
  finally have "read_loop crc32c crc32c_append ?r =
    (recs, ?r\<lparr> rd_pos := rd_pos ?r + length (log_file crc32c crc32c_append recs),
               rd_last_lsn := last_lsn_of (rd_last_lsn ?r) recs \<rparr>)"
    using Cons.prems by (intro Cons.IH) simp_all
  then show ?case
    by (simp add: read_loop.simps [of _ _ r] nxt add.assoc)
qed

lemma read_loop_sound:
  assumes "read_loop crc32c crc32c_append r = (recs, r')"
  shows "drop (rd_pos r) (rd_file r)
      = log_file crc32c crc32c_append recs @ drop (rd_pos r') (rd_file r) \<and>
    log_ok (rd_last_lsn r) recs \<and>
    parse_record crc32c crc32c_append (last_lsn_of (rd_last_lsn r) recs)
      (drop (rd_pos r') (rd_file r)) = None \<and>
    rd_last_lsn r' = last_lsn_of (rd_last_lsn r) recs \<and>
    rd_pos r' = rd_pos r + length (log_file crc32c crc32c_append recs)"
  using assms
proof (induction crc32c crc32c_append r arbitrary: recs r' rule: read_loop.induct)
  case (1 crc32c crc32c_append r)
  show ?case
  proof (cases "parse_record crc32c crc32c_append (rd_last_lsn r) (drop (rd_pos r) (rd_file r))")
    case None
    with "1.prems" show ?thesis
      by (auto simp: read_loop.simps [of _ _ r] read_next_parse)
  next
    case (Some rec)
    let ?r = "r\<lparr> rd_pos := rd_pos r + 16 + length (snd rec), rd_last_lsn := Some (fst rec) \<rparr>"
    have nxt: "read_next crc32c crc32c_append r = (Some rec, ?r)"
      using Some by (cases rec) (simp add: read_next_parse)
    obtain recs' where loop: "read_loop crc32c crc32c_append ?r = (recs', r')"
      and recs: "recs = rec # recs'"
      using "1.prems" by (auto simp: read_loop.simps [of _ _ r] nxt split: prod.splits)
    note IH = "1.IH" [OF nxt [symmetric] refl loop]
    have "drop (rd_pos r) (rd_file r)
        = frame crc32c crc32c_append rec @ drop (rd_pos ?r) (rd_file ?r)"
      using parse_record_SomeD(1) [OF Some] by (simp add: add.commute add.left_commute)
    with IH parse_record_SomeD(2,3) [OF Some] show ?thesis
      by (auto simp: recs)
  qed
qed

lemma replay_iff:
  "replay crc32c crc32c_append file = recs \<longleftrightarrow>
    (\<exists>tail. file = log_file crc32c crc32c_append recs @ tail \<and> log_ok None recs \<and>
       parse_record crc32c crc32c_append (last_lsn_of None recs) tail = None)"
proof
  assume "replay crc32c crc32c_append file = recs"
  then obtain r' where "read_loop crc32c crc32c_append (from_file file) = (recs, r')"
    by (metis prod.collapse replay_def)
  from read_loop_sound [OF this]
  show "\<exists>tail. file = log_file crc32c crc32c_append recs @ tail \<and> log_ok None recs \<and>
       parse_record crc32c crc32c_append (last_lsn_of None recs) tail = None"
    by (auto simp: from_file_def)
next
  assume "\<exists>tail. file = log_file crc32c crc32c_append recs @ tail \<and> log_ok None recs \<and>
       parse_record crc32c crc32c_append (last_lsn_of None recs) tail = None"
  then show "replay crc32c crc32c_append file = recs"
    by (auto simp: replay_def from_file_def read_loop_frames)
qed

lemma scan_intact_prefix_replay:
  "scan_intact_prefix crc32c crc32c_append file =
    (length (log_file crc32c crc32c_append (replay crc32c crc32c_append file)),
     last_lsn_of None (replay crc32c crc32c_append file))"
proof -
  obtain recs r' where l: "read_loop crc32c crc32c_append (from_file file) = (recs, r')"
    by fastforce
  from read_loop_sound [OF this] show ?thesis
    unfolding scan_intact_prefix_def replay_def l by (simp add: from_file_def)
qed

lemma parse_record_Nil [simp]: "parse_record crc32c crc32c_append prev [] = None"
  by (simp add: parse_record_def read_next_def Let_def WAL_HEADER_LEN_def)

lemma replay_log_file: "log_ok None recs \<Longrightarrow> replay crc32c crc32c_append (log_file crc32c crc32c_append recs) = recs"
  by (auto simp: replay_iff)

section \<open>The writer implements an append-only log\<close>

text \<open>A failed write leaves a strict prefix of the record in the file.\<close>

fun io_ok :: "io_outcome \<Rightarrow> bytes \<Rightarrow> bool" where
  "io_ok Written payload = True"
| "io_ok (WriteFailed n truncated) payload = (n < 16 + length payload)"

definition wal_inv :: "crc_fun \<Rightarrow> crc_append_fun \<Rightarrow> wal_writer \<Rightarrow> bool" where
  "wal_inv crc32c crc32c_append w \<longleftrightarrow>
    (\<exists>recs tail.
       wr_file w = log_file crc32c crc32c_append recs @ tail \<and> log_ok None recs \<and>
       wr_log_end w = length (log_file crc32c crc32c_append recs) \<and>
       parse_record crc32c crc32c_append (last_lsn_of None recs) tail = None \<and>
       (wr_poison_reason w = None \<longrightarrow> tail = []) \<and>
       (\<forall>n. wr_next_lsn w = Some n \<longrightarrow> above (last_lsn_of None recs) n))"

lemma encode_header_frame:
  "encode_header crc32c crc32c_append lsn payload = Inr header \<longleftrightarrow>
     length payload < 2 ^ 32 \<and> header @ payload = frame crc32c crc32c_append (lsn, payload)"
  by (auto simp: encode_header_def Let_def frame_def result_simps)

lemma set_len_log: "set_len (xs @ ys) (length xs) = xs"
  by (simp add: set_len_def)

lemma write_at_end: "write_at xs (length xs) src = xs @ src"
  by (simp add: write_at_def set_len_def)

lemma next_lsn_after_above: "next_lsn_after prev requested = Some n \<Longrightarrow> above prev n \<and> requested \<le> n"
  by (cases prev)
    (auto simp: next_lsn_after_def word_less_nat_alt word_le_nat_alt max_def
      dest!: checked_add_word_eq_Some)

lemma replay_split:
  obtains tail where "file = log_file crc32c crc32c_append (replay crc32c crc32c_append file) @ tail"
    and "log_ok None (replay crc32c crc32c_append file)"
  using replay_iff [of crc32c crc32c_append "file" "replay crc32c crc32c_append file"] by auto

lemma wal_open_file:
  "wr_file (wal_open crc32c crc32c_append file requested)
    = log_file crc32c crc32c_append (replay crc32c crc32c_append file)"
proof -
  let ?log = "log_file crc32c crc32c_append (replay crc32c crc32c_append file)"
  have cut: "set_len file (length ?log) = ?log"
    by (metis set_len_log replay_split)
  then have "length file = length ?log \<Longrightarrow> file = ?log"
    by (simp add: set_len_def)
  with cut show ?thesis
    by (simp add: wal_open_def scan_intact_prefix_replay Let_def)
qed

lemma wal_open_replay:
  "replay crc32c crc32c_append (wr_file (wal_open crc32c crc32c_append file requested))
    = replay crc32c crc32c_append file"
  unfolding wal_open_file by (rule replay_split) (rule replay_log_file)

lemma wal_open_next:
  "case wr_next_lsn (wal_open crc32c crc32c_append file requested) of
     None \<Rightarrow> last_lsn_of None (replay crc32c crc32c_append file) = Some (- 1)
   | Some n \<Rightarrow> requested \<le> n \<and> above (last_lsn_of None (replay crc32c crc32c_append file)) n"
proof (cases "next_lsn_after (last_lsn_of None (replay crc32c crc32c_append file)) requested")
  case None
  then obtain prev where prev: "last_lsn_of None (replay crc32c crc32c_append file) = Some prev"
    and "2 ^ 64 \<le> unat prev + 1"
    by (auto simp: next_lsn_after_def checked_add_word_def split: option.splits if_splits)
  with unsigned_less [of prev, where ?'a = nat] have "unat prev = unat (- 1 :: u64)"
    by (simp add: unsigned_minus_1_eq_mask mask_eq_exp_minus_1)
  then have "prev = - 1"
    by (rule unsigned_word_eqI)
  with None prev show ?thesis
    by (simp add: wal_open_def scan_intact_prefix_replay Let_def)
next
  case (Some n)
  with next_lsn_after_above [OF Some] show ?thesis
    by (simp add: wal_open_def scan_intact_prefix_replay Let_def)
qed

lemma wal_open_inv: "wal_inv crc32c crc32c_append (wal_open crc32c crc32c_append file requested)"
proof -
  let ?recs = "replay crc32c crc32c_append file"
  have "log_ok None ?recs"
    by (rule replay_split)
  moreover have "wr_log_end (wal_open crc32c crc32c_append file requested)
      = length (log_file crc32c crc32c_append ?recs)"
    by (simp add: wal_open_def scan_intact_prefix_replay Let_def)
  ultimately show ?thesis
    unfolding wal_inv_def
    using wal_open_next [of crc32c crc32c_append "file" requested]
    by (intro exI [of _ ?recs] exI [of _ "[]"]) (auto simp: wal_open_file)
qed

lemma wal_append_cases:
  assumes "wal_append crc32c crc32c_append io w payload = (res, w')"
  obtains (unchanged) e where "res = Inl e" and "w' = w"
  | (written) lsn where "res = Inr lsn" and "io = Written" and "wr_poison_reason w = None"
      and "wr_next_lsn w = Some lsn" and "length payload < 2 ^ 32"
      and "w' = w\<lparr> wr_file := write_at (wr_file w) (wr_log_end w)
                      (frame crc32c crc32c_append (lsn, payload)),
                 wr_log_end := wr_log_end w + 16 + length payload,
                 wr_next_lsn := checked_add_word lsn 1 \<rparr>"
  | (undone) e lsn n where "res = Inl e" and "io = WriteFailed n True"
      and "wr_poison_reason w = None" and "length payload < 2 ^ 32"
      and "w' = w\<lparr> wr_file := set_len (write_at (wr_file w) (wr_log_end w)
                      (take n (frame crc32c crc32c_append (lsn, payload)))) (wr_log_end w) \<rparr>"
  | (poisoned) e lsn n reason where "res = Inl e" and "io = WriteFailed n False"
      and "wr_poison_reason w = None" and "length payload < 2 ^ 32"
      and "w' = w\<lparr> wr_file := write_at (wr_file w) (wr_log_end w)
                      (take n (frame crc32c crc32c_append (lsn, payload))),
                 wr_poison_reason := Some reason \<rparr>"
  using assms
  by (auto simp: wal_append_def recover_failed_append_def Let_def WAL_HEADER_LEN_def
      checked_add_usize_eq_Some encode_header_frame simp flip: append_assoc
      split: option.splits sum.splits io_outcome.splits if_splits prod.splits)

lemma wal_append_refines:
  assumes inv: "wal_inv crc32c crc32c_append w" and io: "io_ok io payload"
    and app: "wal_append crc32c crc32c_append io w payload = (res, w')"
  shows "wal_inv crc32c crc32c_append w' \<and>
    replay crc32c crc32c_append (wr_file w') =
      replay crc32c crc32c_append (wr_file w) @
        (case res of Inl _ \<Rightarrow> [] | Inr lsn \<Rightarrow> [(lsn, payload)])"
proof -
  from inv obtain recs tail where f: "wr_file w = log_file crc32c crc32c_append recs @ tail"
    and ok: "log_ok None recs" and log_end: "wr_log_end w = length (log_file crc32c crc32c_append recs)"
    and torn: "parse_record crc32c crc32c_append (last_lsn_of None recs) tail = None"
    and clean: "wr_poison_reason w = None \<longrightarrow> tail = []"
    and nxt: "\<forall>n. wr_next_lsn w = Some n \<longrightarrow> above (last_lsn_of None recs) n"
    by (auto simp: wal_inv_def)
  have r: "replay crc32c crc32c_append (wr_file w) = recs"
    using f ok torn by (auto simp: replay_iff)
  from app show ?thesis
  proof (cases rule: wal_append_cases)
    case (unchanged e)
    then show ?thesis using inv by simp
  next
    case (written lsn)
    let ?recs = "recs @ [(lsn, payload)]"
    have ok': "log_ok None ?recs"
      using ok nxt written by (simp add: log_ok_append)
    have f': "wr_file w' = log_file crc32c crc32c_append ?recs"
      using written f clean log_end by (simp add: write_at_end)
    have "wal_inv crc32c crc32c_append w'"
      unfolding wal_inv_def
      by (rule exI [of _ ?recs], rule exI [of _ "[]"])
        (use ok' f' written log_end in \<open>auto simp: word_less_nat_alt dest!: checked_add_word_eq_Some\<close>)
    moreover have "replay crc32c crc32c_append (wr_file w') = ?recs"
      unfolding f' by (rule replay_log_file [OF ok'])
    ultimately show ?thesis
      using written(1) r by simp
  next
    case (undone e lsn n)
    have "w' = w"
      using undone f clean log_end by (simp add: write_at_end set_len_log)
    then show ?thesis using undone inv by simp
  next
    case (poisoned e lsn n reason)
    let ?tail = "take n (frame crc32c crc32c_append (lsn, payload))"
    have f': "wr_file w' = log_file crc32c crc32c_append recs @ ?tail"
      using poisoned f clean log_end by (simp add: write_at_end)
    have torn': "parse_record crc32c crc32c_append (last_lsn_of None recs) ?tail = None"
      using poisoned io by (intro parse_record_torn) simp_all
    have "wal_inv crc32c crc32c_append w'"
      unfolding wal_inv_def
      by (rule exI [of _ recs], rule exI [of _ ?tail])
        (use ok f' torn' poisoned log_end nxt in auto)
    moreover have "replay crc32c crc32c_append (wr_file w') = recs"
      using ok f' torn' by (auto simp: replay_iff)
    ultimately show ?thesis using poisoned r by simp
  qed
qed

lemma wal_append_poisoned:
  "wr_poison_reason w = Some reason \<Longrightarrow>
     wal_append crc32c crc32c_append io w payload = (Inl (Corrupt reason), w)"
  by (simp add: wal_append_def)

section \<open>Torn tails\<close>

lemma replay_take_log_file:
  assumes "log_ok prev recs"
  shows "\<exists>j \<le> length recs.
    take k (log_file crc32c crc32c_append recs)
      = log_file crc32c crc32c_append (take j recs)
        @ take (k - length (log_file crc32c crc32c_append (take j recs)))
            (log_file crc32c crc32c_append (drop j recs)) \<and>
    parse_record crc32c crc32c_append (last_lsn_of prev (take j recs))
      (take (k - length (log_file crc32c crc32c_append (take j recs)))
         (log_file crc32c crc32c_append (drop j recs))) = None \<and>
    length (log_file crc32c crc32c_append (take j recs)) \<le> k \<and>
    (j < length recs \<longrightarrow> k < length (log_file crc32c crc32c_append (take (Suc j) recs)))"
  using assms
proof (induction recs arbitrary: prev k)
  case Nil
  then show ?case by simp
next
  case (Cons rec recs)
  show ?case
  proof (cases "k < 16 + length (snd rec)")
    case True
    have "parse_record crc32c crc32c_append prev (take k (frame crc32c crc32c_append rec)) = None"
      using True Cons.prems by (intro parse_record_torn) simp_all
    with True show ?thesis
      by (intro exI [of _ 0]) simp
  next
    case False
    let ?k = "k - (16 + length (snd rec))"
    from Cons.prems have "log_ok (Some (fst rec)) recs" by simp
    from Cons.IH [OF this, of ?k] obtain j where j: "j \<le> length recs"
      and h: "take ?k (log_file crc32c crc32c_append recs)
        = log_file crc32c crc32c_append (take j recs)
          @ take (?k - length (log_file crc32c crc32c_append (take j recs)))
              (log_file crc32c crc32c_append (drop j recs))"
      "parse_record crc32c crc32c_append (last_lsn_of (Some (fst rec)) (take j recs))
        (take (?k - length (log_file crc32c crc32c_append (take j recs)))
          (log_file crc32c crc32c_append (drop j recs))) = None"
      "length (log_file crc32c crc32c_append (take j recs)) \<le> ?k"
      "j < length recs \<longrightarrow> ?k < length (log_file crc32c crc32c_append (take (Suc j) recs))"
      by auto
    from False j h show ?thesis
      by (intro exI [of _ "Suc j"]) (auto simp: diff_diff_left)
  qed
qed

lemma replay_cut:
  assumes "log_ok None recs"
  shows "\<exists>j \<le> length recs.
    replay crc32c crc32c_append (take k (log_file crc32c crc32c_append recs)) = take j recs \<and>
    length (log_file crc32c crc32c_append (take j recs)) \<le> k \<and>
    (j < length recs \<longrightarrow> k < length (log_file crc32c crc32c_append (take (Suc j) recs)))"
proof -
  from replay_take_log_file [OF assms, of k crc32c crc32c_append] obtain j where
    "j \<le> length recs" and
    "take k (log_file crc32c crc32c_append recs)
      = log_file crc32c crc32c_append (take j recs)
        @ take (k - length (log_file crc32c crc32c_append (take j recs)))
            (log_file crc32c crc32c_append (drop j recs))"
    "parse_record crc32c crc32c_append (last_lsn_of None (take j recs))
      (take (k - length (log_file crc32c crc32c_append (take j recs)))
         (log_file crc32c crc32c_append (drop j recs))) = None"
    and j: "length (log_file crc32c crc32c_append (take j recs)) \<le> k"
    "j < length recs \<longrightarrow> k < length (log_file crc32c crc32c_append (take (Suc j) recs))"
    by auto
  moreover from this log_ok_take [OF assms, of j]
  have "replay crc32c crc32c_append (take k (log_file crc32c crc32c_append recs)) = take j recs"
    unfolding replay_iff by blast
  ultimately show ?thesis by blast
qed

text \<open>
  C24. Crash tolerance of the log: cutting the file at any byte keeps exactly the records whose
  bytes lie wholly before the cut. No record is invented and no surviving record is lost,
  whatever the checksum function is.
\<close>

theorem replay_truncated_log:
  assumes "log_ok None recs"
  shows "\<exists>j \<le> length recs.
    replay crc32c crc32c_append (take k (log_file crc32c crc32c_append recs)) = take j recs \<and>
    length (log_file crc32c crc32c_append (take j recs)) \<le> k \<and>
    (j < length recs \<longrightarrow> k < length (log_file crc32c crc32c_append (take (Suc j) recs)))"
  by (rule replay_cut [OF assms])

theorem replay_truncated_log_witness:
  "replay byte_sum byte_sum_append
     (take 40 (log_file byte_sum byte_sum_append [(7, [1, 2, 3]), (8, [4, 5, 6, 7, 8, 9])]))
   = [(7, [1, 2, 3])]"
proof -
  let ?recs = "[(7, [1, 2, 3]), (8, [4, 5, 6, 7, 8, 9])] :: wal_record list"
  have ok: "log_ok None ?recs" by simp
  from replay_truncated_log [OF ok, of byte_sum byte_sum_append 40]
  obtain j where j: "j \<le> length ?recs"
    and r: "replay byte_sum byte_sum_append (take 40 (log_file byte_sum byte_sum_append ?recs))
      = take j ?recs"
    and lo: "length (log_file byte_sum byte_sum_append (take j ?recs)) \<le> 40"
    and hi: "j < length ?recs \<longrightarrow>
      40 < length (log_file byte_sum byte_sum_append (take (Suc j) ?recs))"
    by blast
  from j consider "j = 0" | "j = 1" | "j = 2" by fastforce
  then have "j = 1" using lo hi by cases simp_all
  with r show ?thesis by simp
qed

text \<open>
  C17. \<open>WalWriter::append\<close> implements an append-only log: on success exactly one record, with the
  returned LSN, is added at the end of what replay returns; on any failure (a poisoned writer, an
  exhausted LSN space, an oversized payload, a failed write whether or not its truncation
  succeeds) replay returns what it returned before. Either way the writer stays well formed.
\<close>

theorem wal_append_correct:
  assumes "wal_inv crc32c crc32c_append w" and "io_ok io payload"
    and "wal_append crc32c crc32c_append io w payload = (res, w')"
  shows "wal_inv crc32c crc32c_append w' \<and>
    replay crc32c crc32c_append (wr_file w') =
      replay crc32c crc32c_append (wr_file w) @
        (case res of Inl _ \<Rightarrow> [] | Inr lsn \<Rightarrow> [(lsn, payload)])"
  using assms by (rule wal_append_refines)

lemma wal_open_empty: "wal_open crc32c crc32c_append [] n
    = \<lparr> wr_file = [], wr_log_end = 0, wr_next_lsn = Some n, wr_poison_reason = None \<rparr>"
proof -
  have "replay crc32c crc32c_append [] = []"
    using replay_log_file [of "[]" crc32c crc32c_append] by simp
  then show ?thesis
    by (simp add: wal_open_def scan_intact_prefix_replay next_lsn_after_def)
qed

theorem wal_append_correct_witness:
  "\<exists>w'. wal_append byte_sum byte_sum_append Written (wal_open byte_sum byte_sum_append [] 41) [9]
       = (Inr 41, w') \<and>
     replay byte_sum byte_sum_append (wr_file w') = [(41, [9])]"
proof -
  let ?w = "wal_open byte_sum byte_sum_append [] 41"
  obtain w' where w': "wal_append byte_sum byte_sum_append Written ?w [9] = (Inr 41, w')"
    by (auto simp: wal_open_empty wal_append_def encode_header_def u32_try_from_def
        checked_add_usize_def WAL_HEADER_LEN_def Let_def)
  have "replay byte_sum byte_sum_append (wr_file ?w) = []"
    using replay_log_file [of "[]" byte_sum byte_sum_append] by (simp add: wal_open_empty)
  with wal_append_correct [OF wal_open_inv _ w'] w' show ?thesis by auto
qed

text \<open>
  C25. \<open>WalWriter::open\<close> repairs any file: whatever bytes it finds, the result is a well-formed
  writer whose file is exactly the intact records of the old one, and the next LSN (when the LSN
  space is not exhausted) is at least the requested one and above every LSN in the log.
\<close>

theorem wal_open_repairs:
  "wal_inv crc32c crc32c_append (wal_open crc32c crc32c_append file requested) \<and>
   replay crc32c crc32c_append (wr_file (wal_open crc32c crc32c_append file requested))
     = replay crc32c crc32c_append file \<and>
   wr_file (wal_open crc32c crc32c_append file requested)
     = log_file crc32c crc32c_append (replay crc32c crc32c_append file) \<and>
   (case wr_next_lsn (wal_open crc32c crc32c_append file requested) of
      None \<Rightarrow> last_lsn_of None (replay crc32c crc32c_append file) = Some (- 1)
    | Some n \<Rightarrow> requested \<le> n \<and> above (last_lsn_of None (replay crc32c crc32c_append file)) n)"
  using wal_open_inv wal_open_replay wal_open_file wal_open_next by blast

section \<open>Cursor replay\<close>

lemma log_ok_weaken: "log_ok prev recs \<Longrightarrow> log_ok None recs"
  by (cases recs) auto

lemma last_lsn_of_nonempty: "recs \<noteq> [] \<Longrightarrow> last_lsn_of prev recs = Some (fst (last recs))"
  by (induction recs arbitrary: prev) auto

text \<open>
  C26. A follower that replayed the first records of a log and kept the returned cursor reads
  exactly the records appended since, and a cursor at the end of the last intact one, whatever
  unreadable bytes follow it; a cursor past the end of the file is refused.
\<close>

theorem replay_from_cursor:
  assumes "log_ok None (old @ new)"
    and "parse_record crc32c crc32c_append (last_lsn_of None new) tail = None"
    and "f = log_file crc32c crc32c_append (old @ new) @ tail"
  shows "replay_from crc32c crc32c_append f (length (log_file crc32c crc32c_append old))
      = Inr (new, length (log_file crc32c crc32c_append (old @ new))) \<and>
    (\<forall>k. replay_from crc32c crc32c_append f (length f + Suc k)
      = Inl (InvalidArgument ''WAL replay offset {} is beyond the file length {}''))"
proof -
  let ?r = "(from_file f)\<lparr> rd_pos := length (log_file crc32c crc32c_append old) \<rparr>"
  have ok: "log_ok None new"
    using assms(1) by (auto simp: log_ok_append intro: log_ok_weaken)
  then have "read_loop crc32c crc32c_append ?r = (new,
      ?r\<lparr> rd_pos := rd_pos ?r + length (log_file crc32c crc32c_append new),
          rd_last_lsn := last_lsn_of None new \<rparr>)"
    using assms(2) read_loop_frames [of ?r crc32c crc32c_append new tail] assms(3)
    by (simp add: from_file_def)
  then show ?thesis
    using assms(3) by (simp add: replay_from_def)
qed

theorem replay_from_cursor_witness:
  "replay_from byte_sum byte_sum_append
     (log_file byte_sum byte_sum_append [(50, [1]), (51, [2, 3]), (52, [])]) 17
   = Inr ([(51, [2, 3]), (52, [])], 51)"
  using replay_from_cursor [of "[(50, [1])]" "[(51, [2, 3]), (52, [])]"
      byte_sum byte_sum_append "[]"]
  by simp

section \<open>The log as an interface\<close>

text \<open>
  The contract the commit pipeline relies on: an appendable log with an abstract record list.
  Appending a batch stops at the first error, and the log then holds the records appended so far
  and no others.
\<close>

fun append_seq :: "('io \<Rightarrow> 'w \<Rightarrow> 'p \<Rightarrow> ('e + 'l) \<times> 'w) \<Rightarrow> ('io \<times> 'p) list
    \<Rightarrow> 'l option \<Rightarrow> 'w \<Rightarrow> ('e + 'l option) \<times> 'w" where
  "append_seq app [] lsn w = (Inr lsn, w)"
| "append_seq app ((io, payload) # batch) lsn w =
    (case app io w payload of
       (Inl e, w') \<Rightarrow> (Inl e, w')
     | (Inr lsn', w') \<Rightarrow> append_seq app batch (Some lsn') w')"

locale durable_log =
  fixes inv :: "'w \<Rightarrow> bool"
    and records :: "'w \<Rightarrow> ('l \<times> 'p) list"
    and admissible :: "'io \<Rightarrow> 'p \<Rightarrow> bool"
    and log_append :: "'io \<Rightarrow> 'w \<Rightarrow> 'p \<Rightarrow> ('e + 'l) \<times> 'w"
  assumes append_inv: "inv w \<Longrightarrow> admissible io p \<Longrightarrow> log_append io w p = (res, w') \<Longrightarrow> inv w'"
    and append_ok: "inv w \<Longrightarrow> admissible io p \<Longrightarrow> log_append io w p = (Inr l, w') \<Longrightarrow>
      records w' = records w @ [(l, p)]"
    and append_err: "inv w \<Longrightarrow> admissible io p \<Longrightarrow> log_append io w p = (Inl e, w') \<Longrightarrow>
      records w' = records w"
begin

lemma append_seq_records:
  assumes "inv w" and "\<forall>(io, p) \<in> set batch. admissible io p"
    and "append_seq log_append batch lsn w = (res, w')"
  shows "inv w' \<and> (\<exists>ls. length ls \<le> length batch \<and>
    records w' = records w @ zip ls (map snd batch) \<and>
    (\<forall>l. res = Inr l \<longrightarrow>
      length ls = length batch \<and> l = (if batch = [] then lsn else Some (last ls))))"
  using assms
proof (induction batch arbitrary: lsn w)
  case Nil
  then show ?case by auto
next
  case (Cons x batch)
  obtain io p where x: "x = (io, p)" by fastforce
  obtain r w1 where ap: "log_append io w p = (r, w1)" by fastforce
  have adm: "admissible io p" using Cons.prems(2) x by auto
  have inv1: "inv w1" using append_inv [OF Cons.prems(1) adm ap] .
  show ?case
  proof (cases r)
    case (Inl e)
    with Cons.prems ap x inv1 append_err [OF Cons.prems(1) adm] show ?thesis
      by (auto intro!: exI [of _ "[]"])
  next
    case (Inr l)
    with Cons.prems ap x have rest: "append_seq log_append batch (Some l) w1 = (res, w')" by simp
    have "\<forall>(io, p) \<in> set batch. admissible io p" using Cons.prems(2) by simp
    from Cons.IH [OF inv1 this rest] obtain ls where ls: "inv w'"
      "length ls \<le> length batch" "records w' = records w1 @ zip ls (map snd batch)"
      "\<forall>l'. res = Inr l' \<longrightarrow>
        length ls = length batch \<and> l' = (if batch = [] then Some l else Some (last ls))"
      by blast
    have "records w1 = records w @ [(l, p)]"
      by (rule append_ok [OF Cons.prems(1) adm ap [unfolded Inr]])
    then have "records w' = records w @ zip (l # ls) (map snd (x # batch))"
      using ls(3) x by simp
    moreover have "length (l # ls) = length (x # batch) \<and>
        l' = (if x # batch = [] then lsn else Some (last (l # ls)))" if "res = Inr l'" for l'
      using ls(4) [rule_format, OF that] by (cases ls) auto
    ultimately show ?thesis
      using ls(1,2) by (intro conjI exI [of _ "l # ls"]) simp_all
  qed
qed

end

interpretation wal: durable_log "wal_inv crc32c crc32c_append"
  "\<lambda>w. replay crc32c crc32c_append (wr_file w)" io_ok "wal_append crc32c crc32c_append"
  for crc32c crc32c_append
  by unfold_locales (auto dest: wal_append_refines)

section \<open>Reachable writer states\<close>

text \<open>
  A process appends, reopens the log cleanly, or crashes, losing any suffix of the file, and
  reopens it.
\<close>

inductive wal_step :: "crc_fun \<Rightarrow> crc_append_fun \<Rightarrow> wal_writer \<Rightarrow> wal_writer \<Rightarrow> bool"
  for crc32c :: crc_fun and crc32c_append :: crc_append_fun
where
  append: "io_ok io payload \<Longrightarrow>
    wal_step crc32c crc32c_append w (snd (wal_append crc32c crc32c_append io w payload))"
| reopen: "wal_step crc32c crc32c_append w (wal_open crc32c crc32c_append (wr_file w) requested)"
| crash: "wal_step crc32c crc32c_append w
    (wal_open crc32c crc32c_append (take k (wr_file w)) requested)"

definition wal_init :: "crc_fun \<Rightarrow> crc_append_fun \<Rightarrow> wal_writer \<Rightarrow> bool" where
  "wal_init crc32c crc32c_append w \<longleftrightarrow>
     (\<exists>f requested. w = wal_open crc32c crc32c_append f requested)"

lemma wal_step_inv:
  "wal_step crc32c crc32c_append w w' \<Longrightarrow> wal_inv crc32c crc32c_append w \<Longrightarrow>
    wal_inv crc32c crc32c_append w'"
  by (induction rule: wal_step.induct) (auto intro: wal_open_inv dest: wal_append_refines simp: prod_eq_iff)

interpretation wal_sys: invariant_system "wal_init crc32c crc32c_append"
  "wal_step crc32c crc32c_append" "wal_inv crc32c crc32c_append" for crc32c crc32c_append
  by unfold_locales (auto simp: wal_init_def intro: wal_open_inv wal_step_inv)

lemma above_last_all:
  "log_ok prev recs \<Longrightarrow> above (last_lsn_of prev recs) n \<Longrightarrow> \<forall>rec \<in> set recs. fst rec < n"
proof (induction recs arbitrary: prev)
  case (Cons rec recs)
  then have "log_ok (Some (fst rec)) recs" and "above (last_lsn_of (Some (fst rec)) recs) n"
    by simp_all
  note IH = Cons.IH [OF this] and tail = this
  have "fst rec < n"
  proof (cases recs)
    case Nil
    with tail show ?thesis by simp
  next
    case (Cons rec' recs')
    with tail(1) have "fst rec < fst rec'" by simp
    also have "fst rec' < n" using IH Cons by simp
    finally show ?thesis .
  qed
  with IH show ?case by simp
qed simp

lemma wal_inv_replay:
  assumes "wal_inv crc32c crc32c_append w"
  shows "log_ok None (replay crc32c crc32c_append (wr_file w))"
    and "wr_next_lsn w = Some n \<Longrightarrow>
      above (last_lsn_of None (replay crc32c crc32c_append (wr_file w))) n"
proof -
  from assms obtain recs where r: "replay crc32c crc32c_append (wr_file w) = recs"
    and ok: "log_ok None recs"
    and n: "\<forall>n. wr_next_lsn w = Some n \<longrightarrow> above (last_lsn_of None recs) n"
    by (auto simp: wal_inv_def replay_iff)
  from r ok show "log_ok None (replay crc32c crc32c_append (wr_file w))" by simp
  from r n show "wr_next_lsn w = Some n \<Longrightarrow>
      above (last_lsn_of None (replay crc32c crc32c_append (wr_file w))) n" by simp
qed

text \<open>
  C27. In every state a writer can reach from any file, through any mix of successful and failed
  appends, clean reopens and crashes, the log replays to records with strictly increasing LSNs,
  and every LSN that is still to be assigned is above all of them.
\<close>

theorem wal_reachable_lsns_ascend:
  assumes "(wal_step crc32c crc32c_append)\<^sup>*\<^sup>* (wal_open crc32c crc32c_append f requested) w"
  shows "sorted_wrt (<) (map fst (replay crc32c crc32c_append (wr_file w))) \<and>
    (\<forall>n. wr_next_lsn w = Some n \<longrightarrow>
       (\<forall>rec \<in> set (replay crc32c crc32c_append (wr_file w)). fst rec < n))"
proof -
  have "wal_inv crc32c crc32c_append w"
    by (rule wal_sys.reachable_inv [OF _ assms]) (auto simp: wal_init_def)
  from wal_inv_replay [OF this] show ?thesis
    using log_ok_sorted above_last_all by blast
qed

theorem wal_reachable_lsns_ascend_witness:
  "sorted_wrt (<) (map fst (replay byte_sum byte_sum_append
     (wr_file (snd (wal_append byte_sum byte_sum_append Written
        (wal_open byte_sum byte_sum_append [] 41) [9])))))"
proof -
  have "wal_step byte_sum byte_sum_append (wal_open byte_sum byte_sum_append [] 41)
      (snd (wal_append byte_sum byte_sum_append Written
        (wal_open byte_sum byte_sum_append [] 41) [9]))"
    by (rule wal_step.append) simp
  then have "(wal_step byte_sum byte_sum_append)\<^sup>*\<^sup>* (wal_open byte_sum byte_sum_append [] 41)
      (snd (wal_append byte_sum byte_sum_append Written
        (wal_open byte_sum byte_sum_append [] 41) [9]))"
    by blast
  from wal_reachable_lsns_ascend [OF this] show ?thesis by blast
qed

end
