(* ===== verification/FreePages.thy ===== *)
theory FreePages
  imports Superblock
begin

text \<open>
  Free-page management codecs (\<^verbatim>\<open>devondb-storage/src/free_pages.rs\<close>): the extension of a
  superblock page, the pages of the retirement ledger, and the in-memory queue of pages written by
  a failed generation. CRC-32C is a parameter, as in the other theories.
\<close>

section \<open>The superblock extension\<close>

definition EXTENSION_OFFSET :: nat where "EXTENSION_OFFSET = 64"
definition EXTENSION_END :: nat where "EXTENSION_END = 92"
definition EXTENSION_CRC_OFFSET :: nat where "EXTENSION_CRC_OFFSET = 88"

record superblock_extension =
  retire_ledger_head :: u64
  retire_ledger_tail :: u64
  retired_total :: u64

definition ext_fill :: "superblock_extension \<Rightarrow> bytes \<Rightarrow> bytes" where
  "ext_fill ext page =
    (let page = copy_into page 64 (u64_to_le_bytes (retire_ledger_head ext));
         page = copy_into page 72 (u64_to_le_bytes (retire_ledger_tail ext))
     in copy_into page 80 (u64_to_le_bytes (retired_total ext)))"

definition ext_encode_into ::
    "(bytes \<Rightarrow> u32) \<Rightarrow> superblock_extension \<Rightarrow> bytes \<Rightarrow> bytes devon_result" where
  "ext_encode_into crc32c ext page =
    (if length page < EXTENSION_END
     then Inl (InvalidArgument ''superblock page of {} bytes cannot hold the {}-byte extension'')
     else
       (let page = ext_fill ext page;
            checksum = crc32c (subslice page EXTENSION_OFFSET EXTENSION_CRC_OFFSET)
        in Inr (copy_into page EXTENSION_CRC_OFFSET (u32_to_le_bytes checksum))))"

definition ext_decode_from :: "(bytes \<Rightarrow> u32) \<Rightarrow> bytes \<Rightarrow> superblock_extension option" where
  "ext_decode_from crc32c page =
    (if length page < EXTENSION_END then None
     else
       (let expected = read_u32 page EXTENSION_CRC_OFFSET in
        if crc32c (subslice page EXTENSION_OFFSET EXTENSION_CRC_OFFSET) \<noteq> expected then None
        else Some \<lparr> retire_ledger_head = read_u64 page 64,
                    retire_ledger_tail = read_u64 page 72,
                    retired_total = read_u64 page 80 \<rparr>))"

definition has_ledger :: "superblock_extension \<Rightarrow> bool" where
  "has_ledger ext \<longleftrightarrow> retire_ledger_head ext \<noteq> 0"

section \<open>Ledger pages\<close>

definition LEDGER_ENTRIES_OFFSET :: nat where "LEDGER_ENTRIES_OFFSET = 32"
definition LEDGER_ENTRY_LEN :: nat where "LEDGER_ENTRY_LEN = 16"
definition LEDGER_MAGIC :: bytes where "LEDGER_MAGIC = as_bytes ''DEVONFPL''"
definition LEDGER_CRC_OFFSET :: nat where "LEDGER_CRC_OFFSET = 24"

record ledger_entry =
  le_page_id :: u64
  le_retired_lsn :: u64

record ledger_page =
  lp_next_page :: u64
  lp_consumed_count :: u32
  lp_entries :: "ledger_entry list"

text \<open>The subtraction panics in Rust below 32 bytes; every page has at least 4096.\<close>

definition ledger_capacity :: "nat \<Rightarrow> nat" where
  "ledger_capacity page_size = (page_size - LEDGER_ENTRIES_OFFSET) div LEDGER_ENTRY_LEN"

definition ledger_checksum ::
    "(u32 \<Rightarrow> bytes \<Rightarrow> u32) \<Rightarrow> ledger_page \<Rightarrow> bytes \<Rightarrow> u32" where
  "ledger_checksum crc32c_append l page =
    (let entries_end = LEDGER_ENTRIES_OFFSET + length (lp_entries l) * LEDGER_ENTRY_LEN;
         hasher = crc32c_append 0 (subslice page 0 LEDGER_CRC_OFFSET)
     in crc32c_append hasher (subslice page LEDGER_ENTRIES_OFFSET entries_end))"

fun ledger_fill :: "bytes \<Rightarrow> nat \<Rightarrow> ledger_entry list \<Rightarrow> bytes" where
  "ledger_fill page index [] = page"
| "ledger_fill page index (entry # entries) =
    (let offset = LEDGER_ENTRIES_OFFSET + index * LEDGER_ENTRY_LEN;
         page = copy_into page offset (u64_to_le_bytes (le_page_id entry));
         page = copy_into page (offset + 8) (u64_to_le_bytes (le_retired_lsn entry))
     in ledger_fill page (Suc index) entries)"

definition ledger_encode ::
    "(u32 \<Rightarrow> bytes \<Rightarrow> u32) \<Rightarrow> nat \<Rightarrow> ledger_page \<Rightarrow> bytes devon_result" where
  "ledger_encode crc32c_append page_size l =
    (if length (lp_entries l) > ledger_capacity page_size
     then Inl (InvalidArgument ''{} ledger entries exceed the page capacity {}'')
     else
       rbind (ok_or (InvalidArgument ''ledger entry count exceeds u32'')
                (u32_try_from (length (lp_entries l))))
         (\<lambda>entry_count.
           if lp_consumed_count l > entry_count
           then Inl (InvalidArgument ''ledger consumed_count {} exceeds entry_count {}'')
           else
             (let page = replicate page_size 0;
                  page = copy_into page 0 LEDGER_MAGIC;
                  page = copy_into page 8 (u64_to_le_bytes (lp_next_page l));
                  page = copy_into page 16 (u32_to_le_bytes entry_count);
                  page = copy_into page 20 (u32_to_le_bytes (lp_consumed_count l));
                  page = ledger_fill page 0 (lp_entries l);
                  checksum = ledger_checksum crc32c_append l page
              in Inr (copy_into page LEDGER_CRC_OFFSET (u32_to_le_bytes checksum)))))"

definition read_entry :: "bytes \<Rightarrow> nat \<Rightarrow> ledger_entry" where
  "read_entry page index =
    (let offset = LEDGER_ENTRIES_OFFSET + index * LEDGER_ENTRY_LEN
     in \<lparr> le_page_id = read_u64 page offset, le_retired_lsn = read_u64 page (offset + 8) \<rparr>)"

definition ledger_decode ::
    "(u32 \<Rightarrow> bytes \<Rightarrow> u32) \<Rightarrow> bytes \<Rightarrow> ledger_page devon_result" where
  "ledger_decode crc32c_append page =
    (if length page < LEDGER_ENTRIES_OFFSET
     then Inl (Corrupt ''ledger page is shorter than its header'')
     else if subslice page 0 8 \<noteq> LEDGER_MAGIC
     then Inl (Corrupt ''ledger page magic is not DEVONFPL'')
     else
       (let entry_count = unat (read_u32 page 16);
            consumed_count = read_u32 page 20
        in if entry_count > ledger_capacity (length page)
           then Inl (Corrupt ''ledger entry_count exceeds the page capacity'')
           else if unat consumed_count > entry_count
           then Inl (Corrupt ''ledger consumed_count exceeds entry_count'')
           else
             (let decoded = \<lparr> lp_next_page = read_u64 page 8,
                              lp_consumed_count = consumed_count,
                              lp_entries = map (read_entry page) [0..<entry_count] \<rparr>;
                  expected = read_u32 page LEDGER_CRC_OFFSET
              in if ledger_checksum crc32c_append decoded page \<noteq> expected
                 then Inl (Corrupt ''ledger page checksum does not match'')
                 else Inr decoded)))"

section \<open>Prospective retirements\<close>

text \<open>
  The process-wide queue: a map from database ids to ordered sets of page ids. Every operation
  holds the mutex for its whole body.
\<close>

type_synonym prospective = "bytes \<rightharpoonup> u64 set"

definition queue_prospective_pages :: "bytes \<Rightarrow> u64 list \<Rightarrow> prospective \<Rightarrow> prospective" where
  "queue_prospective_pages db_id pages queued =
    (let entry = (case queued db_id of None \<Rightarrow> {} | Some s \<Rightarrow> s)
     in queued(db_id \<mapsto> entry \<union> set (filter (\<lambda>page_id. 2 \<le> page_id) pages)))"

definition prospective_page_count :: "bytes \<Rightarrow> prospective \<Rightarrow> nat" where
  "prospective_page_count db_id queued =
    (case queued db_id of None \<Rightarrow> 0 | Some pages \<Rightarrow> card pages)"

definition prospective_pages :: "bytes \<Rightarrow> prospective \<Rightarrow> u64 list" where
  "prospective_pages db_id queued =
    (case queued db_id of None \<Rightarrow> [] | Some pages \<Rightarrow> sorted_list_of_set pages)"

definition published_prospective_pages :: "bytes \<Rightarrow> u64 list \<Rightarrow> prospective \<Rightarrow> prospective" where
  "published_prospective_pages db_id pages queued =
    (case queued db_id of
       None \<Rightarrow> queued
     | Some entry \<Rightarrow>
         (let entry' = foldl (\<lambda>s page_id. s - {page_id}) entry pages
          in if entry' = {} then queued(db_id := None) else queued(db_id \<mapsto> entry')))"

section \<open>Reading back an extension\<close>

lemma ext_encode_into_eq:
  assumes "92 \<le> length page"
  shows "ext_encode_into crc32c ext page = Inr (copy_into page 64
    (let body = u64_to_le_bytes (retire_ledger_head ext) @ u64_to_le_bytes (retire_ledger_tail ext)
       @ u64_to_le_bytes (retired_total ext) in body @ u32_to_le_bytes (crc32c body)))"
proof -
  let ?h = "u64_to_le_bytes (retire_ledger_head ext)"
  let ?t = "u64_to_le_bytes (retire_ledger_tail ext)"
  let ?n = "u64_to_le_bytes (retired_total ext)"
  have fill: "ext_fill ext page = copy_into page 64 (?h @ ?t @ ?n)"
    using assms copy_into_adjacent [of 64 ?h ?t page] copy_into_adjacent [of 64 "?h @ ?t" ?n page]
    by (simp add: ext_fill_def Let_def)
  have "subslice (copy_into page 64 (?h @ ?t @ ?n)) 64 88 = ?h @ ?t @ ?n"
    using assms by (intro subslice_copy_same) simp_all
  then show ?thesis
    using assms fill copy_into_adjacent [of 64 "?h @ ?t @ ?n" _ page]
    by (simp add: ext_encode_into_def EXTENSION_END_def EXTENSION_OFFSET_def
        EXTENSION_CRC_OFFSET_def Let_def)
qed

lemma subslice_three:
  "length xs = 8 \<Longrightarrow> length ys = 8 \<Longrightarrow> length zs = 8 \<Longrightarrow>
    subslice (xs @ ys @ zs @ us) 0 8 = xs \<and> subslice (xs @ ys @ zs @ us) 8 16 = ys \<and>
    subslice (xs @ ys @ zs @ us) 16 24 = zs \<and> subslice (xs @ ys @ zs @ us) 0 24 = xs @ ys @ zs"
  by (simp add: subslice_def)

lemma ext_decode_encoded:
  assumes "92 \<le> length page"
    and "page' = copy_into page 64 (body @ u32_to_le_bytes (crc32c body))"
    and "body = u64_to_le_bytes h @ u64_to_le_bytes t @ u64_to_le_bytes n"
  shows "ext_decode_from crc32c page'
    = Some \<lparr> retire_ledger_head = h, retire_ledger_tail = t, retired_total = n \<rparr>"
proof -
  have len: "length body = 24" "length page' = length page"
    using assms by simp_all
  have cut: "subslice page' a b = subslice (body @ u32_to_le_bytes (crc32c body)) (a - 64) (b - 64)"
    if "64 \<le> a" "a \<le> b" "b \<le> 92" for a b
    using assms(1,2) len that by (simp add: subslice_copy_within)
  have "subslice (body @ u32_to_le_bytes (crc32c body)) 24 28 = u32_to_le_bytes (crc32c body)"
    using len by (simp add: subslice_def)
  then show ?thesis
    using assms(1) len
      subslice_three [of "u64_to_le_bytes h" "u64_to_le_bytes t" "u64_to_le_bytes n"
        "u32_to_le_bytes (crc32c body)"]
    by (simp add: ext_decode_from_def EXTENSION_END_def EXTENSION_OFFSET_def
        EXTENSION_CRC_OFFSET_def read_u32_def read_u64_def cut assms(3))
qed

text \<open>
  The superblock extension and the superblock header share a page without disturbing each
  other. Encoding an extension fails exactly on a page below 92 bytes; otherwise the extension
  decodes back, every byte outside 64..92 is kept, and the slot decodes to the same superblock (or
  the same error) as before, so that a publication's ledger never takes part in slot arbitration.
\<close>

lemma extension_roundtrip:
  "case ext_encode_into crc32c ext page of
     Inl e \<Rightarrow> length page < 92
   | Inr page' \<Rightarrow>
       ext_decode_from crc32c page' = Some ext \<and> length page' = length page \<and>
       take 64 page' = take 64 page \<and> drop 92 page' = drop 92 page \<and>
       sb_decode hdr_crc page' = sb_decode hdr_crc page"
proof (cases "length page < 92")
  case True
  then show ?thesis by (simp add: ext_encode_into_def EXTENSION_END_def)
next
  case False
  then have len: "92 \<le> length page" by simp
  obtain body where e: "ext_encode_into crc32c ext page
      = Inr (copy_into page 64 (body @ u32_to_le_bytes (crc32c body)))"
    and body: "body = u64_to_le_bytes (retire_ledger_head ext)
      @ u64_to_le_bytes (retire_ledger_tail ext) @ u64_to_le_bytes (retired_total ext)"
    using ext_encode_into_eq [OF len, of crc32c ext] by (metis append_assoc)
  let ?page' = "copy_into page 64 (body @ u32_to_le_bytes (crc32c body))"
  have hdr: "take 64 ?page' = take 64 page" and rest: "drop 92 ?page' = drop 92 page"
    and len': "length ?page' = length page"
    using len body by (simp_all add: copy_into_def)
  moreover have "ext_decode_from crc32c ?page' = Some ext"
    using ext_decode_encoded [OF len refl body] by simp
  moreover have "sb_decode hdr_crc ?page' = sb_decode hdr_crc page"
    using len len' hdr by (intro sb_decode_header_only) simp_all
  ultimately show ?thesis by (simp add: e)
qed

section \<open>Reading back a ledger page\<close>

definition entry_bytes :: "ledger_entry \<Rightarrow> bytes" where
  "entry_bytes entry =
    u64_to_le_bytes (le_page_id entry) @ u64_to_le_bytes (le_retired_lsn entry)"

lemma length_entry_bytes [simp]: "length (entry_bytes entry) = 16"
  by (simp add: entry_bytes_def)

lemma length_entries_bytes [simp]: "length (concat (map entry_bytes entries)) = 16 * length entries"
  by (simp add: length_concat_chunks [where n = 16])

lemma ledger_fill_eq:
  "32 + 16 * (index + length entries) \<le> length page \<Longrightarrow>
    ledger_fill page index entries
      = copy_into page (32 + 16 * index) (concat (map entry_bytes entries))"
proof (induction entries arbitrary: index page)
  case Nil
  then show ?case by (simp add: copy_into_def)
next
  case (Cons entry entries)
  let ?page = "copy_into page (32 + 16 * index) (entry_bytes entry)"
  have "copy_into (copy_into page (32 + 16 * index) (u64_to_le_bytes (le_page_id entry)))
      (40 + 16 * index) (u64_to_le_bytes (le_retired_lsn entry)) = ?page"
    using Cons.prems copy_into_adjacent [of "32 + 16 * index"
        "u64_to_le_bytes (le_page_id entry)" "u64_to_le_bytes (le_retired_lsn entry)" page]
    by (simp add: entry_bytes_def add.commute)
  moreover have "ledger_fill ?page (Suc index) entries
      = copy_into ?page (32 + 16 * index + 16) (concat (map entry_bytes entries))"
    using Cons.prems Cons.IH [of "Suc index" ?page] by (simp add: add.commute)
  moreover have "\<dots> = copy_into page (32 + 16 * index) (concat (map entry_bytes (entry # entries)))"
    using Cons.prems copy_into_adjacent [of "32 + 16 * index" "entry_bytes entry"
        "concat (map entry_bytes entries)" page] by simp
  ultimately show ?case
    by (simp add: LEDGER_ENTRIES_OFFSET_def LEDGER_ENTRY_LEN_def mult.commute add.commute)
qed

text \<open>The bytes of a ledger page: header, checksum and reserved word, entries, padding.\<close>

definition ledger_header :: "ledger_page \<Rightarrow> bytes" where
  "ledger_header l = LEDGER_MAGIC @ u64_to_le_bytes (lp_next_page l)
    @ u32_to_le_bytes (of_nat (length (lp_entries l))) @ u32_to_le_bytes (lp_consumed_count l)"

definition ledger_valid :: "nat \<Rightarrow> ledger_page \<Rightarrow> bool" where
  "ledger_valid page_size l \<longleftrightarrow>
    length (lp_entries l) \<le> ledger_capacity page_size \<and> length (lp_entries l) < 2 ^ 32 \<and>
    unat (lp_consumed_count l) \<le> length (lp_entries l)"

definition ledger_image ::
    "(u32 \<Rightarrow> bytes \<Rightarrow> u32) \<Rightarrow> ledger_page \<Rightarrow> bytes \<Rightarrow> bytes \<Rightarrow> bytes" where
  "ledger_image crc32c_append l reserved padding =
    (let body = concat (map entry_bytes (lp_entries l))
     in ledger_header l
        @ u32_to_le_bytes (crc32c_append (crc32c_append 0 (ledger_header l)) body)
        @ reserved @ body @ padding)"

lemma length_LEDGER_MAGIC [simp]: "length LEDGER_MAGIC = 8"
  by (simp add: LEDGER_MAGIC_def)

lemma length_ledger_header [simp]: "length (ledger_header l) = 24"
  by (simp add: ledger_header_def)

lemma ledger_capacity_fits:
  "n \<le> ledger_capacity page_size \<Longrightarrow> 32 \<le> page_size \<Longrightarrow> 32 + 16 * n \<le> page_size"
  by (simp add: ledger_capacity_def LEDGER_ENTRIES_OFFSET_def LEDGER_ENTRY_LEN_def
      less_eq_div_iff_mult_less_eq)

lemma copy_header:
  assumes "length m = 8" and "32 \<le> page_size"
  shows "copy_into (copy_into (copy_into (copy_into (replicate page_size 0) 0 m) 8
      (u64_to_le_bytes n)) 16 (u32_to_le_bytes c)) 20 (u32_to_le_bytes k)
    = (m @ u64_to_le_bytes n @ u32_to_le_bytes c @ u32_to_le_bytes k)
      @ replicate (page_size - 24) 0"
  using assms by (simp add: copy_into_def)

lemma ledger_encode_image:
  assumes "32 \<le> page_size"
  shows "ledger_encode crc32c_append page_size l = Inr page \<longleftrightarrow>
    ledger_valid page_size l \<and>
    page = ledger_image crc32c_append l (replicate 4 0)
      (replicate (page_size - (32 + 16 * length (lp_entries l))) 0)"
proof (cases "ledger_valid page_size l")
  case False
  then show ?thesis
    by (auto simp: ledger_encode_def ledger_valid_def Let_def u32_try_from_def rbind_eq_Inr
        word_less_nat_alt)
next
  case True
  let ?n = "length (lp_entries l)"
  let ?body = "concat (map entry_bytes (lp_entries l))"
  let ?pad = "replicate (page_size - (32 + 16 * ?n)) 0 :: bytes"
  let ?p1 = "ledger_header l @ replicate (page_size - 24) 0"
  let ?p2 = "ledger_header l @ replicate 8 0 @ ?body @ ?pad"
  have room: "32 + 16 * ?n \<le> page_size"
    using True assms ledger_capacity_fits by (simp add: ledger_valid_def)
  have "ledger_fill ?p1 0 (lp_entries l) = copy_into ?p1 32 ?body"
    using room by (subst ledger_fill_eq) simp_all
  also have "\<dots> = ?p2"
    using room by (simp add: copy_into_def)
  finally have fill: "ledger_fill ?p1 0 (lp_entries l) = ?p2" .
  have sum: "ledger_checksum crc32c_append l ?p2
      = crc32c_append (crc32c_append 0 (ledger_header l)) ?body"
    by (simp add: ledger_checksum_def Let_def LEDGER_CRC_OFFSET_def LEDGER_ENTRIES_OFFSET_def
        LEDGER_ENTRY_LEN_def subslice_def)
  have fin: "copy_into ?p2 24 (u32_to_le_bytes c)
      = ledger_header l @ u32_to_le_bytes c @ replicate 4 0 @ ?body @ ?pad" for c
    by (simp add: copy_into_def)
  show ?thesis
    using True assms copy_header [of LEDGER_MAGIC page_size, OF _ assms]
    by (auto simp: ledger_encode_def ledger_valid_def Let_def u32_try_from_def word_less_nat_alt
        fill [unfolded ledger_header_def, simplified] sum [unfolded ledger_header_def, simplified]
        fin [unfolded ledger_header_def, simplified] ledger_image_def ledger_header_def
        LEDGER_CRC_OFFSET_def)
qed

lemma ledger_decode_image:
  assumes "ledger_valid (length page) l" and "length reserved = 4"
    and "page = ledger_image crc32c_append l reserved padding"
  shows "ledger_decode crc32c_append page = Inr l"
proof -
  let ?body = "concat (map entry_bytes (lp_entries l))"
  let ?n = "length (lp_entries l)"
  let ?c = "u32_to_le_bytes (crc32c_append (crc32c_append 0 (ledger_header l)) ?body)"
  have page: "page = ledger_header l @ ?c @ reserved @ ?body @ padding"
    using assms(3) by (simp add: ledger_image_def Let_def)
  have hdr: "subslice page a b = subslice (ledger_header l) a b" if "b \<le> 24" for a b
    using that by (simp add: page subslice_append_left)
  have fields: "subslice page 0 8 = LEDGER_MAGIC" "read_u64 page 8 = lp_next_page l"
    "read_u32 page 16 = of_nat ?n" "read_u32 page 20 = lp_consumed_count l"
    by (simp_all add: read_u64_def read_u32_def page ledger_header_def subslice_def)
  have body: "subslice page (32 + a) (32 + b) = subslice ?body a b" if "b \<le> 16 * ?n" for a b
    using that assms(2) by (simp add: page subslice_def)
  have entry: "read_entry page i = lp_entries l ! i" if i: "i < ?n" for i
  proof -
    have "subslice page (32 + (16 * i + a)) (32 + (16 * i + b))
        = subslice (entry_bytes (lp_entries l ! i)) a b" if "b \<le> 16" for a b
      using that i by (subst body) (simp_all add: subslice_concat_chunk [where n = 16])
    from this [of 8 0] this [of 16 8] show ?thesis
      by (simp add: read_entry_def Let_def read_u64_def LEDGER_ENTRIES_OFFSET_def
          LEDGER_ENTRY_LEN_def entry_bytes_def subslice_def mult.commute add.commute)
  qed
  have entries: "map (read_entry page) [0..<?n] = lp_entries l"
    by (rule nth_equalityI) (simp_all add: entry)
  have "read_u32 page 24 = from_le ?c"
    using assms(2) by (simp add: read_u32_def page subslice_def)
  moreover have "ledger_checksum crc32c_append \<lparr> lp_next_page = lp_next_page l,
      lp_consumed_count = lp_consumed_count l, lp_entries = lp_entries l \<rparr> page
      = crc32c_append (crc32c_append 0 (ledger_header l)) ?body"
    using body [of "16 * ?n" 0] hdr [of 24 0]
    by (simp add: ledger_checksum_def Let_def LEDGER_CRC_OFFSET_def LEDGER_ENTRIES_OFFSET_def
        LEDGER_ENTRY_LEN_def subslice_def mult.commute)
  moreover have "32 \<le> length page"
    using assms(2) by (simp add: page)
  ultimately show ?thesis
    using assms(1) fields entries
    by (simp add: ledger_decode_def ledger_valid_def Let_def LEDGER_CRC_OFFSET_def
        LEDGER_ENTRIES_OFFSET_def)
qed

lemma ledger_decode_sound:
  assumes "ledger_decode crc32c_append page = Inr l"
  shows "ledger_valid (length page) l \<and>
    (\<exists>reserved padding. length reserved = 4 \<and>
       page = ledger_image crc32c_append l reserved padding)"
proof -
  let ?n = "length (lp_entries l)"
  let ?body = "concat (map entry_bytes (lp_entries l))"
  have len: "32 \<le> length page" and magic: "subslice page 0 8 = LEDGER_MAGIC"
    and n: "unat (read_u32 page 16) = ?n" and valid: "?n \<le> ledger_capacity (length page)"
    and consumed: "lp_consumed_count l = read_u32 page 20" "unat (lp_consumed_count l) \<le> ?n"
    and nxt: "lp_next_page l = read_u64 page 8"
    and entries: "lp_entries l = map (read_entry page) [0..<?n]"
    and crc: "ledger_checksum crc32c_append l page = read_u32 page 24"
    using assms
    by (auto simp: ledger_decode_def Let_def LEDGER_CRC_OFFSET_def LEDGER_ENTRIES_OFFSET_def
        split: if_splits)
  have small: "?n < 2 ^ 32"
    unfolding n [symmetric] using unsigned_less [of "read_u32 page 16", where ?'a = nat] by simp
  have room: "32 + 16 * ?n \<le> length page"
    by (rule ledger_capacity_fits [OF valid len])
  have "ledger_header l
      = subslice page 0 8 @ subslice page 8 16 @ subslice page 16 20 @ subslice page 20 24"
    using len to_le_read_u64 [of 8 page] to_le_read_u32 [of 16 page] to_le_read_u32 [of 20 page]
    by (simp add: ledger_header_def consumed nxt magic [symmetric] n [symmetric])
  then have hdr: "ledger_header l = subslice page 0 24"
    by (simp add: subslice_join)
  have eb: "entry_bytes (read_entry page i) = take 16 (drop (16 * i) (drop 32 page))"
    if "i < ?n" for i
  proof -
    let ?a = "32 + i * 16"
    have "entry_bytes (read_entry page i)
        = subslice page ?a (?a + 8) @ subslice page (?a + 8) (?a + 8 + 8)"
      using that room to_le_read_u64 [of ?a page] to_le_read_u64 [of "?a + 8" page]
      by (simp add: entry_bytes_def read_entry_def Let_def LEDGER_ENTRIES_OFFSET_def
          LEDGER_ENTRY_LEN_def)
    then show ?thesis
      by (simp add: subslice_join) (simp add: subslice_def mult.commute add.commute)
  qed
  have "?body = concat (map entry_bytes (map (read_entry page) [0..<?n]))"
    by (rule arg_cong [OF entries])
  also have "\<dots> = take (16 * ?n) (drop 32 page)"
    by (rule concat_map_chunks) (use room eb in simp_all)
  finally have body: "?body = take (16 * ?n) (drop 32 page)" .
  have c: "crc32c_append (crc32c_append 0 (ledger_header l)) ?body = read_u32 page 24"
    using crc hdr body
    by (simp add: ledger_checksum_def Let_def LEDGER_CRC_OFFSET_def LEDGER_ENTRIES_OFFSET_def
        LEDGER_ENTRY_LEN_def subslice_def mult.commute)
  have "page = subslice page 0 24 @ subslice page 24 28 @ subslice page 28 32 @ drop 32 page"
    by (simp add: subslice_join flip: append_assoc) (simp add: subslice_def)
  moreover have "drop 32 page = ?body @ drop (16 * ?n) (drop 32 page)"
    unfolding body by (rule append_take_drop_id [symmetric])
  ultimately have "page = ledger_image crc32c_append l (subslice page 28 32)
      (drop (16 * ?n) (drop 32 page))"
    using len to_le_read_u32 [of 24 page] c hdr
    by (simp add: ledger_image_def Let_def)
  moreover have "length (subslice page 28 32) = 4"
    using len by simp
  ultimately show ?thesis
    using small valid consumed(2) unfolding ledger_valid_def by blast
qed



section \<open>The queue of prospective pages\<close>

definition queued_pages :: "prospective \<Rightarrow> bytes \<Rightarrow> u64 set" where
  "queued_pages queued db_id = (case queued db_id of None \<Rightarrow> {} | Some pages \<Rightarrow> pages)"

lemma foldl_remove: "foldl (\<lambda>s page_id. s - {page_id}) entry pages = entry - set pages"
  by (induction pages arbitrary: entry) auto

lemma queued_pages_queue:
  "queued_pages (queue_prospective_pages db_id pages queued) =
    (queued_pages queued)(db_id := queued_pages queued db_id \<union> {p \<in> set pages. 2 \<le> p})"
  by (auto simp: queued_pages_def queue_prospective_pages_def Let_def fun_eq_iff
      split: option.splits)

lemma queued_pages_published:
  "queued_pages (published_prospective_pages db_id pages queued) =
    (queued_pages queued)(db_id := queued_pages queued db_id - set pages)"
  by (auto simp: queued_pages_def published_prospective_pages_def Let_def fun_eq_iff foldl_remove
      split: option.splits)

inductive prospective_reachable :: "prospective \<Rightarrow> bool" where
  start: "prospective_reachable Map.empty"
| queue: "prospective_reachable q \<Longrightarrow> prospective_reachable (queue_prospective_pages db_id pages q)"
| published: "prospective_reachable q \<Longrightarrow>
    prospective_reachable (published_prospective_pages db_id pages q)"

lemma prospective_reachable_inv:
  "prospective_reachable q \<Longrightarrow> finite (queued_pages q db_id) \<and> (\<forall>p \<in> queued_pages q db_id. 2 \<le> p)"
  by (induction rule: prospective_reachable.induct)
    (auto simp: queued_pages_queue queued_pages_published queued_pages_def [of Map.empty])

text \<open>
  The queue of prospective retirements, in any state reachable through the two operations: it
  never names a superblock page (0 or 1); publishing the pages it returned empties it for that
  database and leaves every other database alone; pages queued in between survive.
\<close>

lemma prospective_queue_correct:
  assumes "prospective_reachable q"
  shows "(\<forall>p \<in> set (prospective_pages db_id q). 2 \<le> p) \<and>
    sorted (prospective_pages db_id q) \<and>
    prospective_page_count db_id q = length (prospective_pages db_id q) \<and>
    prospective_pages db_id
      (published_prospective_pages db_id (prospective_pages db_id q) q) = [] \<and>
    set (prospective_pages db_id
      (published_prospective_pages db_id (prospective_pages db_id q)
        (queue_prospective_pages db_id added q)))
      = {p \<in> set added. 2 \<le> p} - set (prospective_pages db_id q) \<and>
    (\<forall>other. other \<noteq> db_id \<longrightarrow>
      published_prospective_pages db_id pages q other = q other \<and>
      queue_prospective_pages db_id added q other = q other)"
proof -
  have pages: "prospective_pages d q' = sorted_list_of_set (queued_pages q' d)" for d q'
    by (simp add: prospective_pages_def queued_pages_def split: option.split)
  have fin: "finite (queued_pages q db_id)" and two: "\<forall>p \<in> queued_pages q db_id. 2 \<le> p"
    using prospective_reachable_inv [OF assms] by auto
  have count: "prospective_page_count db_id q = card (queued_pages q db_id)"
    by (simp add: prospective_page_count_def queued_pages_def split: option.split)
  have other: "published_prospective_pages db_id pages q d = q d \<and>
      queue_prospective_pages db_id added q d = q d" if "d \<noteq> db_id" for d
    using that by (auto simp: published_prospective_pages_def queue_prospective_pages_def Let_def
        split: option.splits)
  show ?thesis
    using fin two other
    by (auto simp: pages count queued_pages_published queued_pages_queue)
qed

end
