(* ===== verification/Decimal.thy ===== *)
theory Decimal
  imports Prelude
begin

text \<open>
  Exact fixed-point decimals (\<^verbatim>\<open>devondb-types/src/decimal.rs\<close>): construction, the precision
  check, exact arithmetic, midpoint-away-from-zero rounding, division by long division, and the
  canonical string form. An \<open>i128\<close> is an integer and a \<open>u128\<close> a natural number; every checked
  operation of the code is a range check here, and \<open>decimal_ok\<close> is the range of the fields.
\<close>

definition MAX_PRECISION :: nat where "MAX_PRECISION = 38"
definition MAX_SCALE :: nat where "MAX_SCALE = 38"

record decimal128 =
  dec_digits :: int
  dec_scale :: nat

definition i128_range :: "int \<Rightarrow> bool" where
  "i128_range d \<longleftrightarrow> - (2 ^ 127) \<le> d \<and> d < 2 ^ 127"

definition checked_i128 :: "int \<Rightarrow> int option" where
  "checked_i128 d = (if i128_range d then Some d else None)"

definition checked_u128 :: "nat \<Rightarrow> nat option" where
  "checked_u128 n = (if n < 2 ^ 128 then Some n else None)"

definition decimal_ok :: "decimal128 \<Rightarrow> bool" where
  "decimal_ok d \<longleftrightarrow> i128_range (dec_digits d) \<and> dec_scale d \<le> MAX_SCALE"

section \<open>Construction and precision\<close>

definition dec_new :: "int \<Rightarrow> nat \<Rightarrow> decimal128 devon_result" where
  "dec_new digits scale =
    (if scale > MAX_SCALE
     then Inl (InvalidArgument ''decimal scale {} exceeds the maximum {}'')
     else Inr \<lparr> dec_digits = digits, dec_scale = scale \<rparr>)"

text \<open>\<open>i128::unsigned_abs\<close>.\<close>

definition unsigned_abs :: "int \<Rightarrow> nat" where
  "unsigned_abs d = nat \<bar>d\<bar>"

fun digit_count :: "nat \<Rightarrow> nat" where
  "digit_count magnitude = (if magnitude \<ge> 10 then Suc (digit_count (magnitude div 10)) else 1)"

declare digit_count.simps [simp del]

definition dec_precision :: "decimal128 \<Rightarrow> nat" where
  "dec_precision d = digit_count (unsigned_abs (dec_digits d))"

definition dec_fits :: "decimal128 \<Rightarrow> nat \<Rightarrow> nat \<Rightarrow> bool" where
  "dec_fits d precision scale \<longleftrightarrow> dec_scale d = scale \<and> dec_precision d \<le> precision"

text \<open>The exponents the code passes are at most 38, so the \<open>u128\<close> fold does not overflow.\<close>

definition power_of_ten :: "nat \<Rightarrow> nat" where
  "power_of_ten exponent = fold (\<lambda>_ factor. factor * 10) [0..<exponent] 1"

definition i128_try_from :: "nat \<Rightarrow> int option" where
  "i128_try_from n = (if n < 2 ^ 127 then Some (int n) else None)"

definition pad_to_scale :: "decimal128 \<Rightarrow> nat \<Rightarrow> nat \<Rightarrow> decimal128 devon_result" where
  "pad_to_scale d target_scale precision =
    (if target_scale < dec_scale d
     then Inl (InvalidArgument ''cannot pad decimal scale {} down to {}'')
     else if target_scale > MAX_SCALE
     then Inl (InvalidArgument ''decimal scale {} exceeds the maximum {}'')
     else
       rbind (ok_or (InvalidArgument ''decimal scale padding factor exceeds i128'')
                (i128_try_from (power_of_ten (target_scale - dec_scale d)))) (\<lambda>factor.
       rbind (ok_or (InvalidArgument ''decimal scale padding overflowed i128'')
                (checked_i128 (dec_digits d * factor))) (\<lambda>digits.
       rbind (dec_new digits target_scale) (\<lambda>result.
       if \<not> dec_fits result precision target_scale
       then Inl (InvalidArgument ''decimal value {} does not fit Decimal({}, {})'')
       else Inr result))))"

section \<open>Exact arithmetic\<close>

definition checked_result :: "int option \<Rightarrow> nat \<Rightarrow> decimal128 devon_result" where
  "checked_result digits scale =
    rbind (ok_or (InvalidArgument ''decimal arithmetic result overflowed i128'') digits) (\<lambda>digits.
    rbind (dec_new digits scale) (\<lambda>result.
    if dec_precision result > MAX_PRECISION
    then Inl (InvalidArgument ''decimal arithmetic result {} exceeds {} digits'')
    else Inr result))"

definition require_same_scale :: "decimal128 \<Rightarrow> decimal128 \<Rightarrow> unit devon_result" where
  "require_same_scale a b =
    (if dec_scale a = dec_scale b then Inr ()
     else Inl (InvalidArgument ''decimal {} requires equal scales; got {} and {}''))"

definition checked_add_same_scale :: "decimal128 \<Rightarrow> decimal128 \<Rightarrow> decimal128 devon_result" where
  "checked_add_same_scale a b =
    rbind (require_same_scale a b)
      (\<lambda>_. checked_result (checked_i128 (dec_digits a + dec_digits b)) (dec_scale a))"

definition checked_sub_same_scale :: "decimal128 \<Rightarrow> decimal128 \<Rightarrow> decimal128 devon_result" where
  "checked_sub_same_scale a b =
    rbind (require_same_scale a b)
      (\<lambda>_. checked_result (checked_i128 (dec_digits a - dec_digits b)) (dec_scale a))"

definition dec_checked_mul :: "decimal128 \<Rightarrow> decimal128 \<Rightarrow> decimal128 devon_result" where
  "dec_checked_mul a b =
    (let scale = dec_scale a + dec_scale b in
     if scale > MAX_SCALE
     then Inl (InvalidArgument ''decimal product scale {} exceeds the maximum {}'')
     else checked_result (checked_i128 (dec_digits a * dec_digits b)) scale)"

definition from_i64_scaled :: "int \<Rightarrow> nat \<Rightarrow> decimal128 devon_result" where
  "from_i64_scaled val scale =
    (if scale > MAX_SCALE
     then Inl (InvalidArgument ''decimal scale {} exceeds the maximum {}'')
     else
       rbind (ok_or (InvalidArgument ''decimal Int64 promotion factor exceeds i128'')
                (i128_try_from (power_of_ten scale)))
         (\<lambda>factor. checked_result (checked_i128 (val * factor)) scale))"

section \<open>Rounding and division\<close>

definition round_magnitude :: "nat \<Rightarrow> nat \<Rightarrow> nat \<Rightarrow> nat devon_result" where
  "round_magnitude quot remainder divisor =
    (if remainder \<ge> divisor div 2 + divisor mod 2
     then ok_or (InvalidArgument ''decimal midpoint-away rounding overflowed u128'')
            (checked_u128 (quot + 1))
     else Inr quot)"

definition signed_magnitude :: "nat \<Rightarrow> bool \<Rightarrow> int devon_result" where
  "signed_magnitude magnitude negative =
    (if magnitude = 0 then Inr 0
     else if negative \<and> magnitude = unsigned_abs (- (2 ^ 127)) then Inr (- (2 ^ 127))
     else
       rbind (ok_or (InvalidArgument ''decimal result exceeds i128'') (i128_try_from magnitude))
         (\<lambda>digits. if negative
            then ok_or (InvalidArgument ''decimal result exceeds i128'') (checked_i128 (- digits))
            else Inr digits))"

definition round_to_places :: "decimal128 \<Rightarrow> nat \<Rightarrow> nat \<Rightarrow> decimal128 devon_result" where
  "round_to_places d places precision =
    (if places > dec_scale d
     then Inl (InvalidArgument ''decimal rounding places {} exceeds scale {}'')
     else
       (let divisor = power_of_ten (dec_scale d - places);
            magnitude = unsigned_abs (dec_digits d);
            quot = magnitude div divisor;
            remainder = magnitude mod divisor
        in rbind (round_magnitude quot remainder divisor) (\<lambda>rounded.
           rbind (signed_magnitude rounded (dec_digits d < 0)) (\<lambda>digits.
           rbind (dec_new digits places) (\<lambda>r. pad_to_scale r (dec_scale d) precision)))))"

text \<open>The loop of ten additions, and the long division over it.\<close>

fun decimal_digit_loop :: "nat \<Rightarrow> nat \<Rightarrow> nat \<Rightarrow> nat \<Rightarrow> nat \<Rightarrow> (nat \<times> nat) devon_result" where
  "decimal_digit_loop 0 remainder denominator digit next_remainder = Inr (digit, next_remainder)"
| "decimal_digit_loop (Suc k) remainder denominator digit next_remainder =
    rbind (ok_or (InvalidArgument ''exact decimal remainder overflowed u128'')
             (checked_u128 (next_remainder + remainder))) (\<lambda>sum.
    if sum \<ge> denominator
    then decimal_digit_loop k remainder denominator (digit + 1) (sum - denominator)
    else decimal_digit_loop k remainder denominator digit sum)"

definition next_decimal_digit :: "nat \<Rightarrow> nat \<Rightarrow> (nat \<times> nat) devon_result" where
  "next_decimal_digit remainder denominator = decimal_digit_loop 10 remainder denominator 0 0"

fun long_division_loop :: "nat \<Rightarrow> nat \<Rightarrow> nat \<Rightarrow> nat \<Rightarrow> (nat \<times> nat) devon_result" where
  "long_division_loop 0 denominator quot remainder = Inr (quot, remainder)"
| "long_division_loop (Suc k) denominator quot remainder =
    rbind (next_decimal_digit remainder denominator) (\<lambda>(digit, next_remainder).
    rbind (ok_or (InvalidArgument ''exact decimal quotient overflowed u128'')
             (case checked_u128 (quot * 10) of
                None \<Rightarrow> None
              | Some v \<Rightarrow> checked_u128 (v + digit)))
      (\<lambda>quot. long_division_loop k denominator quot next_remainder))"

definition scaled_long_division :: "nat \<Rightarrow> nat \<Rightarrow> nat \<Rightarrow> (nat \<times> nat) devon_result" where
  "scaled_long_division numerator denominator shifts =
    long_division_loop shifts denominator (numerator div denominator) (numerator mod denominator)"

definition rounded_with_larger_denominator :: "nat \<Rightarrow> nat \<Rightarrow> nat \<Rightarrow> nat devon_result" where
  "rounded_with_larger_denominator numerator denominator shifts =
    (let factor = power_of_ten shifts;
         base_quotient = numerator div denominator;
         base_remainder = numerator mod denominator;
         quot = base_quotient div factor;
         discarded = base_quotient mod factor
     in rbind (ok_or (InvalidArgument ''exact decimal quotient remainder overflowed u128'')
                 (checked_u128 (discarded * 2))) (\<lambda>twice_discarded.
        let rounds_up = twice_discarded \<ge> factor \<or>
              (factor - twice_discarded = 1 \<and>
               base_remainder \<ge> denominator div 2 + denominator mod 2)
        in if rounds_up
           then ok_or (InvalidArgument ''decimal midpoint-away rounding overflowed u128'')
                  (checked_u128 (quot + 1))
           else Inr quot))"

definition rounded_ratio_magnitude :: "nat \<Rightarrow> nat \<Rightarrow> int \<Rightarrow> nat devon_result" where
  "rounded_ratio_magnitude numerator denominator exponent =
    (if exponent \<ge> 0
     then
       (if exponent < 256
        then rbind (scaled_long_division numerator denominator (nat exponent))
               (\<lambda>(quot, remainder). round_magnitude quot remainder denominator)
        else Inl (InvalidArgument ''decimal division scale exponent is out of range''))
     else
       (if - exponent < 256
        then rounded_with_larger_denominator numerator denominator (nat (- exponent))
        else Inl (InvalidArgument ''decimal division scale exponent is out of range'')))"

definition round_div_to_places ::
    "decimal128 \<Rightarrow> decimal128 \<Rightarrow> nat \<Rightarrow> nat \<Rightarrow> decimal128 devon_result" where
  "round_div_to_places d denominator places precision =
    (if dec_digits denominator = 0
     then Inl (InvalidArgument ''decimal division by zero'')
     else if places > dec_scale d
     then Inl (InvalidArgument ''decimal division rounding places {} exceeds result scale {}'')
     else
       (let exponent = int (dec_scale denominator) + int places - int (dec_scale d)
        in rbind (rounded_ratio_magnitude (unsigned_abs (dec_digits d))
                    (unsigned_abs (dec_digits denominator)) exponent) (\<lambda>magnitude.
           let negative = (dec_digits d < 0) \<noteq> (dec_digits denominator < 0)
           in rbind (signed_magnitude magnitude negative) (\<lambda>digits.
              rbind (dec_new digits places) (\<lambda>r. pad_to_scale r (dec_scale d) precision)))))"

section \<open>The canonical string form\<close>

definition digit_char :: "nat \<Rightarrow> char" where
  "digit_char k = char_of (48 + k)"

fun nat_to_string :: "nat \<Rightarrow> string" where
  "nat_to_string n =
    (if n < 10 then [digit_char n] else nat_to_string (n div 10) @ [digit_char (n mod 10)])"

declare nat_to_string.simps [simp del]

text \<open>\<open>fmt::Display\<close>.\<close>

definition dec_to_string :: "decimal128 \<Rightarrow> string" where
  "dec_to_string d =
    (let sign = (if dec_digits d < 0 then ''-'' else []);
         magnitude = nat_to_string (unsigned_abs (dec_digits d));
         scale = dec_scale d
     in if scale = 0 then sign @ magnitude
        else if length magnitude > scale
        then (let k = length magnitude - scale
              in sign @ take k magnitude @ ''.'' @ drop k magnitude)
        else sign @ ''0.'' @ replicate (scale - length magnitude) (CHR ''0'') @ magnitude)"

fun split_once :: "char \<Rightarrow> string \<Rightarrow> (string \<times> string) option" where
  "split_once c [] = None"
| "split_once c (x # xs) =
    (if x = c then Some ([], xs) else map_option (\<lambda>(a, b). (x # a, b)) (split_once c xs))"

definition is_ascii_digit :: "char \<Rightarrow> bool" where
  "is_ascii_digit c \<longleftrightarrow> 48 \<le> (of_char c :: nat) \<and> (of_char c :: nat) \<le> 57"

definition digit_val :: "char \<Rightarrow> nat" where
  "digit_val c = of_char c - 48"

fun accumulate_digits :: "string \<Rightarrow> int \<Rightarrow> int option" where
  "accumulate_digits [] digits = Some digits"
| "accumulate_digits (b # bs) digits =
    (case checked_i128 (digits * 10) of
       None \<Rightarrow> None
     | Some d \<Rightarrow>
         (case checked_i128 (d + int (digit_val b)) of
            None \<Rightarrow> None
          | Some d \<Rightarrow> accumulate_digits bs d))"

definition strip_sign :: "string \<Rightarrow> int \<times> string" where
  "strip_sign txt =
    (case txt of
       [] \<Rightarrow> (1, [])
     | c # rest \<Rightarrow>
         if c = CHR ''-'' then (- 1, rest) else if c = CHR ''+'' then (1, rest) else (1, txt))"

definition dec_from_str :: "string \<Rightarrow> decimal128 devon_result" where
  "dec_from_str txt =
    (let (sign, body) = strip_sign txt;
         (integral, fractional) =
           (case split_once (CHR ''.'') body of
              Some (integral, fractional) \<Rightarrow> (integral, Some fractional)
            | None \<Rightarrow> (body, None))
     in if integral = [] \<or> fractional = Some []
        then Inl (InvalidArgument ''{} is not a decimal literal: the grammar is decimal(<sign?digits[.digits]>)'')
        else if \<not> list_all is_ascii_digit integral \<or>
          \<not> list_all is_ascii_digit (case fractional of None \<Rightarrow> ''0'' | Some f \<Rightarrow> f)
        then Inl (InvalidArgument ''{} is not a decimal literal'')
        else
          (let f = (case fractional of None \<Rightarrow> [] | Some f \<Rightarrow> f);
               scale = length f
           in if scale > 255 \<or> scale > MAX_SCALE
              then Inl (InvalidArgument ''decimal literal {} has more than {} fractional digits'')
              else
                rbind (ok_or (InvalidArgument ''decimal literal {} overflows 38 digits'')
                         (accumulate_digits (integral @ f) 0))
                  (\<lambda>digits. dec_new (sign * digits) scale)))"

section \<open>Ranges and powers\<close>

lemma power_of_ten_eq [simp]: "power_of_ten n = 10 ^ n"
  by (induction n) (simp_all add: power_of_ten_def)

lemma ten_power_38: "n \<le> 38 \<Longrightarrow> (10::nat) ^ n < 2 ^ 127"
proof -
  assume "n \<le> 38"
  then have "(10::nat) ^ n \<le> 10 ^ 38" by (intro power_increasing) simp_all
  also have "\<dots> < 2 ^ 127" by simp
  finally show ?thesis .
qed

lemma checked_i128_eq_Some [result_simps]: "checked_i128 d = Some e \<longleftrightarrow> i128_range d \<and> e = d"
  by (auto simp: checked_i128_def)

lemma checked_u128_eq_Some [result_simps]: "checked_u128 n = Some m \<longleftrightarrow> n < 2 ^ 128 \<and> m = n"
  by (auto simp: checked_u128_def)

lemma dec_new_eq_Inr [result_simps]:
  "dec_new digits scale = Inr d \<longleftrightarrow> scale \<le> 38 \<and> d = \<lparr> dec_digits = digits, dec_scale = scale \<rparr>"
  by (auto simp: dec_new_def MAX_SCALE_def)

lemma digit_count_pos: "0 < digit_count n"
  by (subst digit_count.simps) simp

lemma digit_count_le_iff: "digit_count n \<le> k \<longleftrightarrow> 0 < k \<and> n < 10 ^ k"
proof (induction n arbitrary: k rule: digit_count.induct)
  case (1 n)
  show ?case
  proof (cases "10 \<le> n")
    case False
    moreover have "n < 10 ^ k" if "n < 10" "0 < k" for k
      using that by (metis less_le_trans one_le_numeral power_increasing power_one_right Suc_leI One_nat_def)
    ultimately show ?thesis
      by (auto simp: digit_count.simps [of n])
  next
    case True
    show ?thesis
    proof (cases k)
      case 0
      then show ?thesis using digit_count_pos [of n] by simp
    next
      case (Suc j)
      have "n div 10 < 10 ^ j \<longleftrightarrow> n < 10 ^ Suc j"
        by (simp add: div_less_iff_less_mult mult.commute)
      moreover have "j = 0 \<Longrightarrow> \<not> n < 10 ^ Suc j" using True by simp
      ultimately show ?thesis
        using True Suc "1.IH" [OF True, of j] by (auto simp: digit_count.simps [of n])
    qed
  qed
qed

lemma dec_precision_le_iff:
  "dec_precision d \<le> k \<longleftrightarrow> 0 < k \<and> \<bar>dec_digits d\<bar> < 10 ^ k"
proof -
  have "nat \<bar>x\<bar> < 10 ^ k \<longleftrightarrow> \<bar>x\<bar> < 10 ^ k" for x :: int
    by (simp add: nat_less_iff)
  then show ?thesis
    by (simp add: dec_precision_def unsigned_abs_def digit_count_le_iff)
qed

lemma ten_power_in_range: "\<bar>x\<bar> < 10 ^ 38 \<Longrightarrow> i128_range x"
  by (simp add: i128_range_def abs_less_iff)

section \<open>Exactness of the arithmetic\<close>

lemma checked_result_eq_Inr:
  "checked_result (checked_i128 x) scale = Inr r \<longleftrightarrow>
    scale \<le> 38 \<and> \<bar>x\<bar> < 10 ^ 38 \<and> r = \<lparr> dec_digits = x, dec_scale = scale \<rparr>"
  using ten_power_in_range [of x]
    dec_precision_le_iff [of "\<lparr> dec_digits = x, dec_scale = scale \<rparr>" 38]
  by (auto simp: checked_result_def result_simps MAX_PRECISION_def)

lemma require_same_scale_eq_Inr [result_simps]:
  "require_same_scale a b = Inr u \<longleftrightarrow> dec_scale a = dec_scale b"
  by (simp add: require_same_scale_def)

section \<open>Reading back the string form\<close>

lemma of_char_digit_char: "k < 10 \<Longrightarrow> (of_char (digit_char k) :: nat) = 48 + k"
  by (simp add: digit_char_def take_bit_nat_eq_self_iff)

lemma digit_char_props:
  assumes "k < 10"
  shows "is_ascii_digit (digit_char k)" and "digit_val (digit_char k) = k"
    and "digit_char k \<noteq> CHR ''.''" and "digit_char k \<noteq> CHR ''-''" and "digit_char k \<noteq> CHR ''+''"
proof -
  have "(of_char (CHR ''.'') :: nat) = 46" "(of_char (CHR ''-'') :: nat) = 45"
    "(of_char (CHR ''+'') :: nat) = 43" by simp_all
  with of_char_digit_char [OF assms]
  show "is_ascii_digit (digit_char k)" "digit_val (digit_char k) = k"
    "digit_char k \<noteq> CHR ''.''" "digit_char k \<noteq> CHR ''-''" "digit_char k \<noteq> CHR ''+''"
    using assms by (auto simp: is_ascii_digit_def digit_val_def)
qed

lemma zero_char: "CHR ''0'' = digit_char 0"
  by code_simp

definition digit_string :: "string \<Rightarrow> bool" where
  "digit_string s \<longleftrightarrow> (\<forall>c \<in> set s. \<exists>k < 10. c = digit_char k)"

lemma digit_string_nat_to_string: "digit_string (nat_to_string n)"
proof (induction n rule: nat_to_string.induct)
  case (1 n)
  then show ?case
    by (subst nat_to_string.simps)
      (auto simp: digit_string_def intro: exI [of _ n] exI [of _ "n mod 10"])
qed

lemma nat_to_string_nonempty [simp]: "nat_to_string n \<noteq> []"
  by (subst nat_to_string.simps) simp

lemma digit_string_list_all: "digit_string s \<Longrightarrow> list_all is_ascii_digit s"
  by (auto simp: digit_string_def list_all_iff digit_char_props)

lemma split_once_digits:
  "digit_string s \<Longrightarrow> split_once (CHR ''.'') (s @ rest) =
     map_option (\<lambda>(a, b). (s @ a, b)) (split_once (CHR ''.'') rest)"
proof (induction s)
  case Nil
  then show ?case by (cases "split_once (CHR ''.'') rest") auto
next
  case (Cons c s)
  then have "c \<noteq> CHR ''.''" and "digit_string s"
    by (auto simp: digit_string_def digit_char_props)
  with Cons.IH show ?case by (simp add: option.map_comp comp_def case_prod_unfold)
qed

text \<open>What a digit string denotes, and the checked accumulation of it.\<close>

definition digits_value :: "string \<Rightarrow> nat" where
  "digits_value s = foldl (\<lambda>n c. n * 10 + digit_val c) 0 s"

lemma digits_value_nat_to_string: "digits_value (nat_to_string n) = n"
proof (induction n rule: nat_to_string.induct)
  case (1 n)
  then show ?case
    by (subst nat_to_string.simps) (auto simp: digits_value_def digit_char_props)
qed

lemma digits_value_zeros: "digits_value (replicate k (CHR ''0'') @ s) = digits_value s"
proof -
  have "foldl (\<lambda>n c. n * 10 + digit_val c) 0 (replicate k (CHR ''0'')) = 0"
    by (induction k) (simp_all add: digit_val_def)
  then show ?thesis by (simp add: digits_value_def)
qed

lemma foldl_digits_mono: "n \<le> foldl (\<lambda>n c. n * 10 + digit_val c) n s"
proof (induction s arbitrary: n)
  case (Cons c s)
  have "n \<le> n * 10 + digit_val c" by simp
  also have "\<dots> \<le> foldl (\<lambda>n c. n * 10 + digit_val c) n (c # s)" using Cons by simp
  finally show ?case .
qed simp

lemma accumulate_digits_eq:
  "n < 2 ^ 127 \<Longrightarrow> accumulate_digits s (int n) =
    (if foldl (\<lambda>n c. n * 10 + digit_val c) n s < 2 ^ 127
     then Some (int (foldl (\<lambda>n c. n * 10 + digit_val c) n s)) else None)"
proof (induction s arbitrary: n)
  case Nil
  then show ?case by simp
next
  case (Cons c s)
  let ?n = "n * 10 + digit_val c"
  have big: "2 ^ 127 \<le> ?n \<Longrightarrow> \<not> foldl (\<lambda>n c. n * 10 + digit_val c) ?n s < 2 ^ 127"
    using foldl_digits_mono [of ?n s] by linarith
  have "accumulate_digits (c # s) (int n)
      = (if ?n < 2 ^ 127 then accumulate_digits s (int ?n) else None)"
    by (auto simp: checked_i128_def i128_range_def)
  with Cons.IH [of ?n] big show ?case by auto
qed

lemma dec_to_string_parts:
  assumes "scale \<le> 38"
  obtains integral fractional where
    "dec_to_string \<lparr> dec_digits = x, dec_scale = scale \<rparr>
      = (if x < 0 then ''-'' else []) @ integral
        @ (if fractional = [] then [] else ''.'' @ fractional)"
    and "digit_string integral" and "integral \<noteq> []" and "digit_string fractional"
    and "length fractional = scale" and "digits_value (integral @ fractional) = unsigned_abs x"
proof -
  let ?m = "nat_to_string (unsigned_abs x)"
  let ?k = "length ?m - scale"
  have m: "digit_string ?m" "digits_value ?m = unsigned_abs x"
    by (simp_all add: digit_string_nat_to_string digits_value_nat_to_string)
  show thesis
  proof (cases "length ?m > scale")
    case True
    have "digit_string (take ?k ?m)" and "digit_string (drop ?k ?m)"
      using m(1) by (auto simp: digit_string_def dest: in_set_takeD in_set_dropD)
    with True m show thesis
      by (intro that [of "take ?k ?m" "drop ?k ?m"]) (auto simp: dec_to_string_def Let_def)
  next
    case False
    then have "scale \<noteq> 0" by (metis length_greater_0_conv nat_to_string_nonempty)
    moreover have "digit_string (replicate (scale - length ?m) (CHR ''0'') @ ?m)"
      and "digit_string ''0''"
      using m(1) by (auto simp: digit_string_def zero_char intro: exI [of _ 0])
    moreover have "digits_value (''0'' @ replicate (scale - length ?m) (CHR ''0'') @ ?m)
        = unsigned_abs x"
      using digits_value_zeros [of "Suc (scale - length ?m)" ?m] m(2) by simp
    ultimately show thesis
      using False
      by (intro that [of "''0''" "replicate (scale - length ?m) (CHR ''0'') @ ?m"])
        (simp_all add: dec_to_string_def Let_def)
  qed
qed

lemma strip_sign_digits:
  assumes "digit_string s" and "s \<noteq> []"
  shows "strip_sign (''-'' @ s @ rest) = (- 1, s @ rest)" and "strip_sign (s @ rest) = (1, s @ rest)"
  using assms by (cases s; auto simp: strip_sign_def digit_string_def digit_char_props)+

lemma dec_from_str_parts:
  assumes "digit_string integral" and "integral \<noteq> []" and "digit_string fractional"
    and "length fractional \<le> 38"
    and "txt = (if negative then ''-'' else []) @ integral
      @ (if fractional = [] then [] else ''.'' @ fractional)"
  shows "dec_from_str txt =
    (if digits_value (integral @ fractional) < 2 ^ 127
     then Inr \<lparr> dec_digits = (if negative then - 1 else 1) * int (digits_value (integral @ fractional)),
                dec_scale = length fractional \<rparr>
     else Inl (InvalidArgument ''decimal literal {} overflows 38 digits''))"
proof -
  let ?body = "integral @ (if fractional = [] then [] else ''.'' @ fractional)"
  have sign: "strip_sign txt = (if negative then - 1 else 1, ?body)"
    using strip_sign_digits [OF assms(1,2)] assms(5) by simp
  have split: "split_once (CHR ''.'') ?body
      = (if fractional = [] then None else Some (integral, fractional))"
    using split_once_digits [OF assms(1), of "[]"] split_once_digits [OF assms(1), of "''.'' @ fractional"]
    by simp
  have all: "list_all is_ascii_digit integral" "list_all is_ascii_digit fractional"
    using assms(1,3) by (simp_all add: digit_string_list_all)
  have zero: "is_ascii_digit (CHR ''0'')"
    by (simp add: is_ascii_digit_def)
  have acc: "accumulate_digits (integral @ fractional) 0
      = (if digits_value (integral @ fractional) < 2 ^ 127
         then Some (int (digits_value (integral @ fractional))) else None)"
    using accumulate_digits_eq [of 0 "integral @ fractional"] by (simp add: digits_value_def)
  show ?thesis
  proof (cases "fractional = []")
    case True
    with sign split have "strip_sign txt = (if negative then - 1 else 1, integral)"
      and "split_once (CHR ''.'') integral = None" by simp_all
    with True assms(2) all zero acc show ?thesis
      by (simp add: dec_from_str_def dec_new_def)
  next
    case False
    with sign split have "strip_sign txt = (if negative then - 1 else 1, integral @ ''.'' @ fractional)"
      and "split_once (CHR ''.'') (integral @ ''.'' @ fractional) = Some (integral, fractional)"
      by simp_all
    with False assms(2,4) all acc show ?thesis
      by (simp add: dec_from_str_def dec_new_def MAX_SCALE_def)
  qed
qed

text \<open>
  C37. The canonical string form round-trips: every representable decimal except the one whose
  digits are \<open>i128::MIN\<close> parses back from its own display to exactly the same digits and scale.
  For that one value the display form is refused by the parser.
\<close>

theorem decimal_string_roundtrip:
  assumes "decimal_ok d"
  shows "dec_from_str (dec_to_string d) =
    (if dec_digits d = - (2 ^ 127)
     then Inl (InvalidArgument ''decimal literal {} overflows 38 digits'')
     else Inr d)"
proof -
  obtain x s where d: "d = \<lparr> dec_digits = x, dec_scale = s \<rparr>" by (cases d)
  with assms have s: "s \<le> 38" and x: "i128_range x"
    by (simp_all add: decimal_ok_def MAX_SCALE_def)
  obtain integral fractional where
    str: "dec_to_string d = (if x < 0 then ''-'' else []) @ integral
      @ (if fractional = [] then [] else ''.'' @ fractional)"
    and parts: "digit_string integral" "integral \<noteq> []" "digit_string fractional"
      "length fractional = s" "digits_value (integral @ fractional) = unsigned_abs x"
    unfolding d by (rule dec_to_string_parts [OF s, of x])
  have "unsigned_abs x < 2 ^ 127 \<longleftrightarrow> x \<noteq> - (2 ^ 127)"
    using x by (auto simp: unsigned_abs_def i128_range_def nat_less_iff abs_less_iff)
  moreover have "(if x < 0 then - 1 else 1) * int (unsigned_abs x) = x"
    by (simp add: unsigned_abs_def)
  moreover have "dec_from_str (dec_to_string d) =
    (if unsigned_abs x < 2 ^ 127
     then Inr \<lparr> dec_digits = (if x < 0 then - 1 else 1) * int (unsigned_abs x), dec_scale = s \<rparr>
     else Inl (InvalidArgument ''decimal literal {} overflows 38 digits''))"
    using dec_from_str_parts [OF parts(1,2,3) _ str] parts(4,5) s by presburger
  ultimately show ?thesis
    unfolding d by (metis decimal128.select_convs(1))
qed

theorem decimal_string_roundtrip_witness:
  "dec_from_str (dec_to_string \<lparr> dec_digits = - 5, dec_scale = 2 \<rparr>)
     = Inr \<lparr> dec_digits = - 5, dec_scale = 2 \<rparr>"
  using decimal_string_roundtrip [of "\<lparr> dec_digits = - 5, dec_scale = 2 \<rparr>"]
  by (simp add: decimal_ok_def i128_range_def MAX_SCALE_def)

end
