(* ===== verification/DecimalRounding.thy ===== *)
theory DecimalRounding
  imports Complex_Main Decimal
begin

text \<open>
  The numeric meaning of the decimal operations: a decimal denotes a rational, arithmetic is exact
  on it, and rounding and division round the exact rational once, midpoints away from zero.
\<close>

section \<open>Values\<close>

definition dec_val :: "decimal128 \<Rightarrow> rat" where
  "dec_val d = of_int (dec_digits d) / 10 ^ dec_scale d"

text \<open>
  Decimal arithmetic is exact or refuses. Each operation succeeds exactly when the scales are
  admissible and the exact result has at most 38 digits, and then its value is the exact sum,
  difference, product or promotion; nothing is ever rounded or wrapped.
\<close>

lemma decimal_arithmetic_exact:
  assumes "decimal_ok a" and "decimal_ok b"
  shows "(checked_add_same_scale a b = Inr r \<longleftrightarrow>
      dec_scale a = dec_scale b \<and> dec_scale r = dec_scale a \<and> dec_val r = dec_val a + dec_val b \<and>
      \<bar>dec_digits r\<bar> < 10 ^ 38) \<and>
    (checked_sub_same_scale a b = Inr r \<longleftrightarrow>
      dec_scale a = dec_scale b \<and> dec_scale r = dec_scale a \<and> dec_val r = dec_val a - dec_val b \<and>
      \<bar>dec_digits r\<bar> < 10 ^ 38) \<and>
    (dec_checked_mul a b = Inr r \<longleftrightarrow>
      dec_scale a + dec_scale b \<le> 38 \<and> dec_scale r = dec_scale a + dec_scale b \<and>
      dec_val r = dec_val a * dec_val b \<and> \<bar>dec_digits r\<bar> < 10 ^ 38) \<and>
    (from_i64_scaled n scale = Inr r \<longleftrightarrow>
      scale \<le> 38 \<and> dec_scale r = scale \<and> dec_val r = of_int n \<and> \<bar>dec_digits r\<bar> < 10 ^ 38)"
proof -
  have small: "dec_scale a \<le> 38" "dec_scale b \<le> 38"
    using assms by (simp_all add: decimal_ok_def MAX_SCALE_def)
  have rec: "r = \<lparr> dec_digits = x, dec_scale = s \<rparr> \<longleftrightarrow> dec_digits r = x \<and> dec_scale r = s" for x s
    by (cases r) auto
  have ratio: "(of_int x / 10 ^ s = (of_int y / 10 ^ s :: rat)) \<longleftrightarrow> x = y" for x y s
    by simp
  have add: "checked_add_same_scale a b = Inr r \<longleftrightarrow> dec_scale a = dec_scale b \<and>
      dec_scale r = dec_scale a \<and> dec_val r = dec_val a + dec_val b \<and> \<bar>dec_digits r\<bar> < 10 ^ 38"
    using small ratio [of "dec_digits r" "dec_scale a" "dec_digits a + dec_digits b"]
    by (auto simp: checked_add_same_scale_def result_simps checked_result_eq_Inr rec dec_val_def
        add_divide_distrib)
  have sub: "checked_sub_same_scale a b = Inr r \<longleftrightarrow> dec_scale a = dec_scale b \<and>
      dec_scale r = dec_scale a \<and> dec_val r = dec_val a - dec_val b \<and> \<bar>dec_digits r\<bar> < 10 ^ 38"
    using small ratio [of "dec_digits r" "dec_scale a" "dec_digits a - dec_digits b"]
    by (auto simp: checked_sub_same_scale_def result_simps checked_result_eq_Inr rec dec_val_def
        diff_divide_distrib)
  have mul: "dec_checked_mul a b = Inr r \<longleftrightarrow> dec_scale a + dec_scale b \<le> 38 \<and>
      dec_scale r = dec_scale a + dec_scale b \<and> dec_val r = dec_val a * dec_val b \<and>
      \<bar>dec_digits r\<bar> < 10 ^ 38"
    using ratio [of "dec_digits r" "dec_scale a + dec_scale b" "dec_digits a * dec_digits b"]
    by (auto simp: dec_checked_mul_def Let_def MAX_SCALE_def checked_result_eq_Inr rec dec_val_def
        power_add)
  have prom: "from_i64_scaled n scale = Inr r \<longleftrightarrow> scale \<le> 38 \<and> dec_scale r = scale \<and>
      dec_val r = of_int n \<and> \<bar>dec_digits r\<bar> < 10 ^ 38"
    using ratio [of "dec_digits r" scale "n * 10 ^ scale"] ten_power_38 [of scale]
    by (auto simp: from_i64_scaled_def MAX_SCALE_def result_simps i128_try_from_def
        checked_result_eq_Inr rec dec_val_def)
  from add sub mul prom show ?thesis by blast
qed

lemma decimal_arithmetic_exact_witness:
  "checked_add_same_scale \<lparr> dec_digits = 995, dec_scale = 2 \<rparr> \<lparr> dec_digits = 10, dec_scale = 2 \<rparr>
     = Inr \<lparr> dec_digits = 1005, dec_scale = 2 \<rparr>"
  using decimal_arithmetic_exact [of "\<lparr> dec_digits = 995, dec_scale = 2 \<rparr>"
      "\<lparr> dec_digits = 10, dec_scale = 2 \<rparr>" "\<lparr> dec_digits = 1005, dec_scale = 2 \<rparr>"]
  by (simp add: decimal_ok_def i128_range_def MAX_SCALE_def dec_val_def)

section \<open>Rounding\<close>

definition half_up :: "nat \<Rightarrow> nat \<Rightarrow> nat" where
  "half_up n d = (2 * n + d) div (2 * d)"

lemma half_up_div_mod:
  assumes "0 < d"
  shows "half_up n d = n div d + (if d \<le> 2 * (n mod d) then 1 else 0)"
proof -
  have "2 * n + d = 2 * d * (n div d) + (2 * (n mod d) + d)"
  proof -
    have "2 * n = 2 * (d * (n div d) + n mod d)" by simp
    then show ?thesis by (simp only: distrib_left mult.assoc add.assoc)
  qed
  then have "half_up n d = n div d + (2 * (n mod d) + d) div (2 * d)"
    using assms unfolding half_up_def by (simp only: div_mult_self4 mult_eq_0_iff) simp
  also have "(2 * (n mod d) + d) div (2 * d) = (if d \<le> 2 * (n mod d) then 1 else 0)"
    using assms mod_less_divisor [OF assms, of n] by (auto simp: div_eq_dividend_iff div_nat_eqI)
  finally show ?thesis .
qed

lemma half_test: "(d div 2 + d mod 2 \<le> r) \<longleftrightarrow> d \<le> 2 * r" for d r :: nat
  by presburger

lemma round_magnitude_half_up:
  assumes "0 < d" and "n div d < 2 ^ 128"
  shows "round_magnitude (n div d) (n mod d) d = Inr m \<longleftrightarrow> m = half_up n d \<and> m < 2 ^ 128"
  using assms by (auto simp: round_magnitude_def half_test half_up_div_mod result_simps)

lemma signed_magnitude_eq_Inr:
  "signed_magnitude m negative = Inr v \<longleftrightarrow>
    v = (if negative then - int m else int m) \<and> i128_range v"
  by (auto simp: signed_magnitude_def unsigned_abs_def i128_try_from_def result_simps
      i128_range_def checked_i128_def nat_power_eq)

lemma pad_to_scale_eq_Inr:
  "pad_to_scale d target precision = Inr r \<longleftrightarrow>
    dec_scale d \<le> target \<and> target \<le> 38 \<and> dec_scale r = target \<and>
    dec_digits r = dec_digits d * 10 ^ (target - dec_scale d) \<and> i128_range (dec_digits r) \<and>
    0 < precision \<and> \<bar>dec_digits r\<bar> < 10 ^ precision"
proof (cases "dec_scale d \<le> target \<and> target \<le> 38")
  case False
  then show ?thesis by (auto simp: pad_to_scale_def MAX_SCALE_def)
next
  case True
  let ?x = "dec_digits d * 10 ^ (target - dec_scale d)"
  have "(10::nat) ^ (target - dec_scale d) < 2 ^ 127"
    using True by (intro ten_power_38) linarith
  then have "i128_try_from (power_of_ten (target - dec_scale d)) = Some (10 ^ (target - dec_scale d))"
    by (simp add: i128_try_from_def)
  then have "pad_to_scale d target precision = Inr r \<longleftrightarrow>
      i128_range ?x \<and> dec_fits r precision target \<and> r = \<lparr> dec_digits = ?x, dec_scale = target \<rparr>"
    using True by (auto simp: pad_to_scale_def MAX_SCALE_def result_simps)
  moreover have "r = \<lparr> dec_digits = ?x, dec_scale = target \<rparr> \<longleftrightarrow>
      dec_digits r = ?x \<and> dec_scale r = target"
    by (cases r) auto
  ultimately show ?thesis
    using True by (auto simp: dec_fits_def dec_precision_le_iff)
qed

lemma i128_range_unscale:
  assumes "i128_range (v * 10 ^ k)"
  shows "i128_range v"
proof -
  have "(1::int) \<le> 10 ^ k" by simp
  then have "\<bar>v\<bar> * 1 \<le> \<bar>v\<bar> * 10 ^ k" by (rule mult_left_mono) simp
  then have "\<bar>v\<bar> \<le> \<bar>v * 10 ^ k\<bar>" by (simp add: abs_mult)
  moreover have "0 \<le> v \<Longrightarrow> 0 \<le> v * 10 ^ k" and "v < 0 \<Longrightarrow> v * 10 ^ k \<le> 0"
    by (simp_all add: mult_nonneg_nonneg mult_nonpos_nonneg)
  ultimately show ?thesis
    using assms unfolding i128_range_def by (cases "0 \<le> v") linarith+
qed

text \<open>The last steps both rounding operations share.\<close>

lemma finish_rounding:
  assumes "places \<le> scale" and "scale \<le> 38"
  shows "rbind (signed_magnitude m negative)
      (\<lambda>digits. rbind (dec_new digits places) (\<lambda>r. pad_to_scale r scale precision)) = Inr r \<longleftrightarrow>
    dec_scale r = scale \<and>
    dec_digits r = (if negative then - int m else int m) * 10 ^ (scale - places) \<and>
    i128_range (dec_digits r) \<and> 0 < precision \<and> \<bar>dec_digits r\<bar> < 10 ^ precision"
  using assms i128_range_unscale [of "if negative then - int m else int m"]
  by (auto simp: rbind_eq_Inr signed_magnitude_eq_Inr dec_new_eq_Inr pad_to_scale_eq_Inr)

text \<open>Rounding to the nearest integer, midpoints away from zero, as the specification.\<close>

definition round_away :: "rat \<Rightarrow> int" where
  "round_away x = (if x < 0 then - \<lfloor>- x + 1 / 2\<rfloor> else \<lfloor>x + 1 / 2\<rfloor>)"

lemma floor_half_up:
  assumes "0 < d"
  shows "\<lfloor>of_nat n / of_nat d + 1 / 2 :: rat\<rfloor> = int (half_up n d)"
proof -
  have "of_nat n / of_nat d + 1 / 2 = (of_nat (2 * n + d) / of_nat (2 * d) :: rat)"
    using assms by (simp add: field_simps)
  then show ?thesis
    by (simp only: floor_divide_of_nat_eq half_up_def)
qed

lemma round_away_ratio:
  assumes "0 < d" and "x = (if negative then - (of_nat n / of_nat d) else of_nat n / of_nat d)"
  shows "round_away x = (if negative then - int (half_up n d) else int (half_up n d))"
proof (cases "negative \<and> n = 0")
  case True
  then show ?thesis
    using assms by (simp add: round_away_def half_up_def floor_eq_iff)
next
  case False
  define y where "y = (of_nat n / of_nat d :: rat)"
  have "0 \<le> y" and pos: "n \<noteq> 0 \<Longrightarrow> 0 < y" and fl: "\<lfloor>y + 1 / 2\<rfloor> = int (half_up n d)"
    using assms(1) floor_half_up [OF assms(1), of n] by (simp_all add: y_def)
  moreover have "x = (if negative then - y else y)"
    using assms(2) by (simp add: y_def)
  ultimately show ?thesis
    using False by (auto simp: round_away_def not_less)
qed

lemma dec_val_magnitude:
  "dec_val d = (if dec_digits d < 0 then - (of_nat (unsigned_abs (dec_digits d)) / 10 ^ dec_scale d)
     else of_nat (unsigned_abs (dec_digits d)) / 10 ^ dec_scale d)"
  by (simp add: dec_val_def unsigned_abs_def)

lemma unsigned_abs_bound: "i128_range x \<Longrightarrow> unsigned_abs x \<le> 2 ^ 127"
  by (simp add: unsigned_abs_def i128_range_def nat_le_iff abs_le_iff)

lemma ten_power_diff: "p \<le> s \<Longrightarrow> (10::rat) ^ s = 10 ^ p * 10 ^ (s - p)"
  by (simp flip: power_add)

text \<open>
  \<open>round_to_places\<close> rounds once, to the nearest multiple of \<open>10\<^sup>-\<^sup>p\<close> with midpoints away from
  zero, keeps the scale, and refuses exactly when more places are asked for than the value has or
  the rounded value does not fit the declared precision.
\<close>

lemma round_to_places_correct:
  assumes "decimal_ok d"
  shows "round_to_places d places precision = Inr r \<longleftrightarrow>
    places \<le> dec_scale d \<and> dec_scale r = dec_scale d \<and>
    dec_digits r = round_away (dec_val d * 10 ^ places) * 10 ^ (dec_scale d - places) \<and>
    i128_range (dec_digits r) \<and> 0 < precision \<and> \<bar>dec_digits r\<bar> < 10 ^ precision"
proof (cases "places \<le> dec_scale d")
  case False
  then show ?thesis by (simp add: round_to_places_def)
next
  case True
  let ?m = "unsigned_abs (dec_digits d)"
  let ?d = "10 ^ (dec_scale d - places) :: nat"
  have m: "?m < 2 ^ 128"
    using assms unsigned_abs_bound [of "dec_digits d"] by (simp add: decimal_ok_def)
  have small: "?m div ?d < 2 ^ 128"
    using m by (meson div_le_dividend le_less_trans)
  have val: "dec_val d * 10 ^ places
      = (if dec_digits d < 0 then - (of_nat ?m / of_nat ?d) else of_nat ?m / of_nat ?d)"
    using True by (simp add: dec_val_magnitude ten_power_diff)
  have away: "round_away (dec_val d * 10 ^ places)
      = (if dec_digits d < 0 then - int (half_up ?m ?d) else int (half_up ?m ?d))"
    by (rule round_away_ratio [OF _ val]) simp
  have half: "half_up ?m ?d < 2 ^ 128" if "i128_range ((if dec_digits d < 0 then
      - int (half_up ?m ?d) else int (half_up ?m ?d)) * 10 ^ (dec_scale d - places))"
    using i128_range_unscale [OF that] by (auto simp: i128_range_def split: if_splits)
  have "round_to_places d places precision = Inr r \<longleftrightarrow> half_up ?m ?d < 2 ^ 128 \<and>
      rbind (signed_magnitude (half_up ?m ?d) (dec_digits d < 0))
        (\<lambda>digits. rbind (dec_new digits places) (\<lambda>r. pad_to_scale r (dec_scale d) precision)) = Inr r"
    using True small round_magnitude_half_up [of ?d ?m]
    by (auto simp: round_to_places_def Let_def rbind_eq_Inr [of "round_magnitude _ _ _"])
  also have "\<dots> \<longleftrightarrow> dec_scale r = dec_scale d \<and>
      dec_digits r = round_away (dec_val d * 10 ^ places) * 10 ^ (dec_scale d - places) \<and>
      i128_range (dec_digits r) \<and> 0 < precision \<and> \<bar>dec_digits r\<bar> < 10 ^ precision"
    using assms True half finish_rounding [OF True, of "half_up ?m ?d" "dec_digits d < 0" precision r]
    by (auto simp: away decimal_ok_def MAX_SCALE_def)
  finally show ?thesis using True by blast
qed

section \<open>Long division\<close>

lemma decimal_digit_loop_eq:
  assumes "r < d" and "nr < d" and "d \<le> 2 ^ 127"
  shows "decimal_digit_loop k r d g nr = Inr (g + (k * r + nr) div d, (k * r + nr) mod d)"
  using assms
proof (induction k arbitrary: g nr)
  case 0
  then show ?case by simp
next
  case (Suc k)
  have fits: "checked_u128 (nr + r) = Some (nr + r)"
    using Suc.prems by (simp add: checked_u128_def)
  show ?case
  proof (cases "d \<le> nr + r")
    case True
    let ?n = "k * r + (nr + r - d)"
    have e: "Suc k * r + nr = ?n + d" using True by simp
    have "decimal_digit_loop (Suc k) r d g nr = decimal_digit_loop k r d (g + 1) (nr + r - d)"
      using True fits by simp
    also have "\<dots> = Inr (g + 1 + ?n div d, ?n mod d)"
      using Suc.prems by (intro Suc.IH) simp_all
    finally show ?thesis
      unfolding e using Suc.prems by (simp add: div_add_self2)
  next
    case False
    then show ?thesis using Suc fits by (simp add: ac_simps)
  qed
qed

lemma next_decimal_digit_eq:
  "r < d \<Longrightarrow> d \<le> 2 ^ 127 \<Longrightarrow> next_decimal_digit r d = Inr (10 * r div d, 10 * r mod d)"
  using decimal_digit_loop_eq [of r d 0 10 0] by (simp add: next_decimal_digit_def)

lemma shift_digit:
  fixes r d :: nat
  assumes "0 < d"
  shows "10 * r div d * 10 ^ k + 10 * r mod d * 10 ^ k div d = r * 10 ^ Suc k div d"
    and "10 * r mod d * 10 ^ k mod d = r * 10 ^ Suc k mod d"
proof -
  have "r * 10 ^ Suc k = (d * (10 * r div d) + 10 * r mod d) * 10 ^ k"
    by simp
  also have "\<dots> = 10 * r mod d * 10 ^ k + d * (10 * r div d * 10 ^ k)"
    by (simp only: distrib_right mult.assoc add.commute)
  finally have e: "r * 10 ^ Suc k = 10 * r mod d * 10 ^ k + d * (10 * r div d * 10 ^ k)" .
  show "10 * r div d * 10 ^ k + 10 * r mod d * 10 ^ k div d = r * 10 ^ Suc k div d"
    unfolding e using assms by simp
  show "10 * r mod d * 10 ^ k mod d = r * 10 ^ Suc k mod d"
    unfolding e by simp
qed

lemma long_division_loop_eq:
  assumes "r < d" and "d \<le> 2 ^ 127" and "q < 2 ^ 128"
  shows "long_division_loop k d q r = Inr qr \<longleftrightarrow>
    qr = (q * 10 ^ k + r * 10 ^ k div d, r * 10 ^ k mod d) \<and> fst qr < 2 ^ 128"
  using assms
proof (induction k arbitrary: q r)
  case 0
  then show ?case by auto
next
  case (Suc k)
  let ?q = "q * 10 + 10 * r div d" and ?r = "10 * r mod d"
  have r: "?r < d" using Suc.prems by simp
  have step: "long_division_loop (Suc k) d q r = Inr qr \<longleftrightarrow>
      ?q < 2 ^ 128 \<and> long_division_loop k d ?q ?r = Inr qr"
    using Suc.prems
    by (auto simp: next_decimal_digit_eq checked_u128_def)
  have "?q * 10 ^ k + ?r * 10 ^ k div d
      = q * 10 ^ Suc k + (10 * r div d * 10 ^ k + ?r * 10 ^ k div d)"
    by (simp add: distrib_right)
  then have quot: "?q * 10 ^ k + ?r * 10 ^ k div d = q * 10 ^ Suc k + r * 10 ^ Suc k div d"
    using shift_digit(1) [of d r k] r by simp
  have "?q \<le> ?q * 10 ^ k" by simp
  then have "?q \<le> q * 10 ^ Suc k + r * 10 ^ Suc k div d"
    unfolding quot [symmetric] by (rule trans_le_add1)
  then have "?q < 2 ^ 128" if "q * 10 ^ Suc k + r * 10 ^ Suc k div d < 2 ^ 128"
    using that by linarith
  moreover have "?r * 10 ^ k mod d = r * 10 ^ Suc k mod d"
    using r by (intro shift_digit(2)) simp
  ultimately show ?case
    using step Suc.IH [of ?r ?q] r Suc.prems(2) quot by auto
qed

lemma scaled_long_division_eq:
  assumes "0 < d" and "d \<le> 2 ^ 127" and "n < 2 ^ 128"
  shows "scaled_long_division n d k = Inr qr \<longleftrightarrow>
    qr = (n * 10 ^ k div d, n * 10 ^ k mod d) \<and> fst qr < 2 ^ 128"
proof -
  have "n div d < 2 ^ 128"
    using assms(3) by (meson div_le_dividend le_less_trans)
  moreover have "n * 10 ^ k = n mod d * 10 ^ k + d * (n div d * 10 ^ k)"
  proof -
    have "n * 10 ^ k = (d * (n div d) + n mod d) * 10 ^ k" by simp
    then show ?thesis by (simp only: distrib_right mult.assoc add.commute)
  qed
  then have "n div d * 10 ^ k + n mod d * 10 ^ k div d = n * 10 ^ k div d"
    and "n mod d * 10 ^ k mod d = n * 10 ^ k mod d"
    using assms(1) by simp_all
  ultimately show ?thesis
    using assms(1,2) long_division_loop_eq [of "n mod d" d "n div d" k]
    by (simp add: scaled_long_division_def)
qed

lemma larger_denominator_test:
  fixes n d f :: nat
  assumes "0 < d" and "0 < f"
  shows "d * f \<le> 2 * (n mod (d * f)) \<longleftrightarrow>
    f \<le> n div d mod f * 2 \<or> (f - n div d mod f * 2 = 1 \<and> d \<le> 2 * (n mod d))"
proof -
  define a where "a = n div d mod f"
  define r where "r = n mod d"
  have split: "n mod (d * f) = d * a + r" by (simp add: mod_mult2_eq a_def r_def)
  have r: "r < d" using assms(1) by (simp add: r_def)
  have "d * f \<le> 2 * (d * a + r) \<longleftrightarrow> f \<le> a * 2 \<or> (f - a * 2 = 1 \<and> d \<le> 2 * r)"
  proof (cases "f \<le> a * 2")
    case True
    then have "d * f \<le> 2 * (d * a)"
      using mult_le_mono2 [OF True, of d] by (simp add: mult.commute mult.left_commute)
    then have "d * f \<le> 2 * (d * a + r)" by (rule order_trans) simp
    with True show ?thesis by blast
  next
    case False
    show ?thesis
    proof (cases "f = a * 2 + 1")
      case True
      then have "d * f = 2 * (d * a) + d" by (simp add: algebra_simps)
      then have "d * f \<le> 2 * (d * a + r) \<longleftrightarrow> d \<le> 2 * r" by (simp only: distrib_left add_le_cancel_left)
      with True show ?thesis by simp
    next
      case neq: False
      with False have "a * 2 + 2 \<le> f" by linarith
      from mult_le_mono2 [OF this, of d] have "2 * (d * a) + 2 * d \<le> d * f"
        by (simp add: algebra_simps)
      moreover have "2 * (d * a + r) < 2 * (d * a) + 2 * d" using r by simp
      ultimately have "\<not> d * f \<le> 2 * (d * a + r)" by (meson leD less_le_trans)
      with False neq show ?thesis by auto
    qed
  qed
  then show ?thesis by (simp only: split a_def r_def)
qed

lemma rounded_with_larger_denominator_eq:
  assumes "0 < d" and "n < 2 ^ 128" and "k \<le> 38"
  shows "rounded_with_larger_denominator n d k = Inr m \<longleftrightarrow>
    m = half_up n (d * 10 ^ k) \<and> m < 2 ^ 128"
proof -
  let ?f = "10 ^ k :: nat"
  have f: "?f < 2 ^ 127" using assms(3) by (rule ten_power_38)
  have "n div d mod ?f < ?f" by simp
  with f have "n div d mod ?f * 2 < 2 * 2 ^ 127" by linarith
  then have "n div d mod ?f * 2 < 2 ^ 128" by simp
  moreover have "half_up n (d * ?f)
      = n div d div ?f + (if d * ?f \<le> 2 * (n mod (d * ?f)) then 1 else 0)"
    using assms(1) by (subst half_up_div_mod) (simp_all add: div_mult2_eq)
  moreover have "n div d div ?f < 2 ^ 128"
    using assms(2) by (meson div_le_dividend le_less_trans)
  ultimately show ?thesis
    using assms(1)
    by (auto simp: rounded_with_larger_denominator_def Let_def checked_u128_def half_test
        larger_denominator_test)
qed

lemma rounded_ratio_magnitude_eq:
  assumes "0 < d" and "d \<le> 2 ^ 127" and "n < 2 ^ 128" and "- 38 \<le> e" and "e \<le> 76"
  shows "rounded_ratio_magnitude n d e = Inr m \<longleftrightarrow>
    m = half_up (n * 10 ^ nat e) (d * 10 ^ nat (- e)) \<and> m < 2 ^ 128"
proof (cases "0 \<le> e")
  case False
  then show ?thesis
    using assms rounded_with_larger_denominator_eq [of d n "nat (- e)"]
    by (simp add: rounded_ratio_magnitude_def)
next
  case True
  let ?N = "n * 10 ^ nat e"
  have le: "?N div d \<le> half_up ?N d"
    using assms(1) by (simp add: half_up_div_mod)
  have "rounded_ratio_magnitude n d e = Inr m \<longleftrightarrow>
      ?N div d < 2 ^ 128 \<and> round_magnitude (?N div d) (?N mod d) d = Inr m"
    using True assms scaled_long_division_eq [of d n "nat e"]
    by (auto simp: rounded_ratio_magnitude_def rbind_eq_Inr)
  also have "\<dots> \<longleftrightarrow> m = half_up ?N d \<and> m < 2 ^ 128"
    using le round_magnitude_half_up [of d ?N m] assms(1) by auto
  finally show ?thesis using True by simp
qed

lemma ratio_magnitudes:
  assumes "places \<le> dec_scale d" and "dec_digits den \<noteq> 0"
    and "e = int (dec_scale den) + int places - int (dec_scale d)"
  defines "n \<equiv> unsigned_abs (dec_digits d) * 10 ^ nat e"
    and "m \<equiv> unsigned_abs (dec_digits den) * 10 ^ nat (- e)"
  shows "dec_val d / dec_val den * 10 ^ places
    = (if (dec_digits d < 0) \<noteq> (dec_digits den < 0) then - (of_nat n / of_nat m)
       else of_nat n / of_nat m)"
proof -
  have scales: "dec_scale den + places + nat (- e) = dec_scale d + nat e"
    using assms(3) by simp
  have tens: "(10::rat) ^ dec_scale den * 10 ^ places * 10 ^ nat (- e) = 10 ^ dec_scale d * 10 ^ nat e"
    unfolding power_add [symmetric] scales ..
  define a where "a = (of_nat (unsigned_abs (dec_digits d)) / 10 ^ dec_scale d :: rat)"
  define b where "b = (of_nat (unsigned_abs (dec_digits den)) / 10 ^ dec_scale den :: rat)"
  have "a / b * 10 ^ places = of_nat n / of_nat m"
    using assms(2) tens by (simp add: a_def b_def n_def m_def field_simps unsigned_abs_def)
  moreover have "dec_val d = (if dec_digits d < 0 then - a else a)"
    and "dec_val den = (if dec_digits den < 0 then - b else b)"
    by (simp_all add: dec_val_magnitude a_def b_def)
  ultimately show ?thesis by auto
qed

text \<open>
  C36. \<open>round_div_to_places\<close> divides exactly and rounds once: the result is the rational quotient
  rounded to the nearest multiple of \<open>10\<^sup>-\<^sup>p\<close>, midpoints away from zero, at the scale of the
  numerator. It refuses exactly on a zero denominator, on more places than the numerator's scale,
  or when that result does not fit the precision: the 128-bit long division never fails on its own.
\<close>

theorem round_div_to_places_correct:
  assumes "decimal_ok d" and "decimal_ok den"
  shows "round_div_to_places d den places precision = Inr r \<longleftrightarrow>
    dec_digits den \<noteq> 0 \<and> places \<le> dec_scale d \<and> dec_scale r = dec_scale d \<and>
    dec_digits r = round_away (dec_val d / dec_val den * 10 ^ places) * 10 ^ (dec_scale d - places) \<and>
    i128_range (dec_digits r) \<and> 0 < precision \<and> \<bar>dec_digits r\<bar> < 10 ^ precision"
proof (cases "dec_digits den \<noteq> 0 \<and> places \<le> dec_scale d")
  case False
  then show ?thesis by (auto simp: round_div_to_places_def)
next
  case True
  define e where "e = int (dec_scale den) + int places - int (dec_scale d)"
  define n where "n = unsigned_abs (dec_digits d) * 10 ^ nat e"
  define m where "m = unsigned_abs (dec_digits den) * 10 ^ nat (- e)"
  define neg where "neg = ((dec_digits d < 0) \<noteq> (dec_digits den < 0))"
  have scales: "dec_scale d \<le> 38" "dec_scale den \<le> 38"
    using assms by (simp_all add: decimal_ok_def MAX_SCALE_def)
  have mags: "unsigned_abs (dec_digits d) < 2 ^ 128" "unsigned_abs (dec_digits den) \<le> 2 ^ 127"
    using assms unsigned_abs_bound [of "dec_digits d"] unsigned_abs_bound [of "dec_digits den"]
    by (simp_all add: decimal_ok_def)
  have pos: "0 < unsigned_abs (dec_digits den)" using True by (simp add: unsigned_abs_def)
  have away: "round_away (dec_val d / dec_val den * 10 ^ places)
      = (if neg then - int (half_up n m) else int (half_up n m))"
    unfolding neg_def n_def m_def e_def
    by (rule round_away_ratio [OF _ ratio_magnitudes]) (use True pos in simp_all)
  have fits: "half_up n m < 2 ^ 128"
    if "i128_range ((if neg then - int (half_up n m) else int (half_up n m)) * 10 ^ k)" for k
    using i128_range_unscale [OF that] by (auto simp: i128_range_def split: if_splits)
  have "rounded_ratio_magnitude (unsigned_abs (dec_digits d)) (unsigned_abs (dec_digits den)) e = Inr k
      \<longleftrightarrow> k = half_up n m \<and> k < 2 ^ 128" for k
    unfolding n_def m_def
    by (rule rounded_ratio_magnitude_eq) (use pos mags scales True in \<open>simp_all add: e_def\<close>)
  then have "round_div_to_places d den places precision = Inr r \<longleftrightarrow> half_up n m < 2 ^ 128 \<and>
      rbind (signed_magnitude (half_up n m) neg)
        (\<lambda>digits. rbind (dec_new digits places) (\<lambda>r. pad_to_scale r (dec_scale d) precision)) = Inr r"
    using True
    by (auto simp: round_div_to_places_def Let_def rbind_eq_Inr [of "rounded_ratio_magnitude _ _ _"]
        e_def neg_def)
  also have "\<dots> \<longleftrightarrow> dec_scale r = dec_scale d \<and>
      dec_digits r = round_away (dec_val d / dec_val den * 10 ^ places) * 10 ^ (dec_scale d - places) \<and>
      i128_range (dec_digits r) \<and> 0 < precision \<and> \<bar>dec_digits r\<bar> < 10 ^ precision"
    using True scales fits finish_rounding [of places "dec_scale d" "half_up n m" neg precision r]
    unfolding away by auto
  finally show ?thesis using True by blast
qed

theorem round_div_to_places_correct_witness:
  "round_div_to_places \<lparr> dec_digits = 200, dec_scale = 2 \<rparr> \<lparr> dec_digits = - 3, dec_scale = 0 \<rparr> 2 10
     = Inr \<lparr> dec_digits = - 67, dec_scale = 2 \<rparr>"
proof -
  have "round_away (dec_val \<lparr> dec_digits = 200, dec_scale = 2 \<rparr>
      / dec_val \<lparr> dec_digits = - 3, dec_scale = 0 \<rparr> * 10 ^ 2) = - 67"
    by (simp add: dec_val_def round_away_def floor_eq_iff)
  then show ?thesis
    using round_div_to_places_correct [of "\<lparr> dec_digits = 200, dec_scale = 2 \<rparr>"
        "\<lparr> dec_digits = - 3, dec_scale = 0 \<rparr>" 2 10 "\<lparr> dec_digits = - 67, dec_scale = 2 \<rparr>"]
    by (simp add: decimal_ok_def i128_range_def MAX_SCALE_def)
qed

end
