(* ===== verification/ValueTypes.thy ===== *)
theory ValueTypes
  imports Decimal
begin

text \<open>
  The type system of the engine (\<^verbatim>\<open>devondb-types/src/logical_type.rs\<close>, \<^verbatim>\<open>value.rs\<close>,
  \<^verbatim>\<open>column.rs\<close>): logical types, runtime values, validity bitmaps and typed columns.

  A float is its IEEE-754 bit pattern; the development never computes with floats. A coordinate
  pair is the pair of its bit patterns.
\<close>

section \<open>Logical types\<close>

datatype b1_rescore = RescoreNone | RescoreF16 | RescoreI8 | RescoreF32

datatype vector_encoding = EncF16 | EncI8 | EncB1 u64 b1_rescore

datatype logical_type =
    TBool
  | TInt64
  | TFloat64
  | TString
  | TGeoPoint
  | TVector u32
  | TVectorEncoded u32 vector_encoding
  | TTimestamp
  | TBytes
  | TDecimal nat nat
  | TJson

fun value_type :: "logical_type \<Rightarrow> logical_type" where
  "value_type (TVectorEncoded dim encoding) = TVector dim"
| "value_type ty = ty"

fun vector_dim :: "logical_type \<Rightarrow> u32 option" where
  "vector_dim (TVector dim) = Some dim"
| "vector_dim (TVectorEncoded dim encoding) = Some dim"
| "vector_dim ty = None"

section \<open>Values\<close>

datatype devon_value =
    Null
  | VBool bool
  | VInt64 i64
  | VFloat64 u64
  | VString string
  | VVector "u32 list"
  | VGeoPoint u64 u64
  | VTimestamp i64
  | VBytes bytes
  | VDecimal decimal128
  | VJson string

fun matches_type :: "devon_value \<Rightarrow> logical_type \<Rightarrow> bool" where
  "matches_type Null ty = True"
| "matches_type (VBool b) TBool = True"
| "matches_type (VInt64 n) TInt64 = True"
| "matches_type (VFloat64 x) TFloat64 = True"
| "matches_type (VString s) TString = True"
| "matches_type (VVector v) (TVector dim) = (length v = unat dim)"
| "matches_type (VVector v) (TVectorEncoded dim encoding) = (length v = unat dim)"
| "matches_type (VGeoPoint x y) TGeoPoint = True"
| "matches_type (VTimestamp t) TTimestamp = True"
| "matches_type (VBytes b) TBytes = True"
| "matches_type (VDecimal d) (TDecimal precision scale) = dec_fits d precision scale"
| "matches_type (VJson s) TJson = True"
| "matches_type v ty = False"

fun value_approx_bytes :: "devon_value \<Rightarrow> nat" where
  "value_approx_bytes (VString s) = 32 + length s"
| "value_approx_bytes (VVector v) = 32 + 4 * length v"
| "value_approx_bytes (VGeoPoint x y) = 24"
| "value_approx_bytes (VBytes b) = 32 + length b"
| "value_approx_bytes (VDecimal d) = 24"
| "value_approx_bytes (VJson s) = 32 + length s"
| "value_approx_bytes v = 16"

fun value_logical_type :: "devon_value \<Rightarrow> logical_type option" where
  "value_logical_type Null = None"
| "value_logical_type (VBool b) = Some TBool"
| "value_logical_type (VInt64 n) = Some TInt64"
| "value_logical_type (VFloat64 x) = Some TFloat64"
| "value_logical_type (VString s) = Some TString"
| "value_logical_type (VVector v) = Some (TVector (of_nat (length v)))"
| "value_logical_type (VGeoPoint x y) = Some TGeoPoint"
| "value_logical_type (VTimestamp t) = Some TTimestamp"
| "value_logical_type (VBytes b) = Some TBytes"
| "value_logical_type (VDecimal d) = Some (TDecimal (dec_precision d) (dec_scale d))"
| "value_logical_type (VJson s) = Some TJson"

text \<open>A value is admitted by its own type, as long as a vector has fewer than \<open>2\<^sup>3\<^sup>2\<close> elements.\<close>

lemma value_logical_type_matches:
  "value_logical_type v = Some ty \<Longrightarrow> (\<And>xs. v = VVector xs \<Longrightarrow> length xs < 2 ^ 32) \<Longrightarrow>
    matches_type v ty"
  by (cases v) (auto simp: dec_fits_def)

lemma matches_type_value_type: "matches_type v (value_type ty) = matches_type v ty"
  by (cases ty; cases v) simp_all

section \<open>Validity bitmaps\<close>

record bitmap =
  bm_words :: "u64 list"
  bm_len :: nat

definition bm_all_valid :: "nat \<Rightarrow> bitmap" where
  "bm_all_valid n =
    (let words = replicate ((n + 63) div 64) (- 1);
         tail = n mod 64;
         words = (if tail \<noteq> 0 \<and> words \<noteq> []
                  then words[length words - 1 := push_bit tail 1 - 1] else words)
     in \<lparr> bm_words = words, bm_len = n \<rparr>)"

definition bm_is_valid :: "bitmap \<Rightarrow> nat \<Rightarrow> bool" where
  "bm_is_valid b i \<longleftrightarrow>
    i div 64 < length (bm_words b) \<and> bm_words b ! (i div 64) AND push_bit (i mod 64) 1 \<noteq> 0"

text \<open>\<open>set\<close> and \<open>clear\<close> panic past the last word; every caller is in range.\<close>

definition bm_set :: "bitmap \<Rightarrow> nat \<Rightarrow> bitmap" where
  "bm_set b i =
    b\<lparr> bm_words := (bm_words b)[i div 64 := bm_words b ! (i div 64) OR push_bit (i mod 64) 1] \<rparr>"

definition bm_clear :: "bitmap \<Rightarrow> nat \<Rightarrow> bitmap" where
  "bm_clear b i =
    b\<lparr> bm_words :=
       (bm_words b)[i div 64 := bm_words b ! (i div 64) AND NOT (push_bit (i mod 64) 1)] \<rparr>"

definition bm_approx_bytes :: "bitmap \<Rightarrow> nat" where
  "bm_approx_bytes b = length (bm_words b) * 8"

definition bitmap_ok :: "bitmap \<Rightarrow> bool" where
  "bitmap_ok b \<longleftrightarrow>
    length (bm_words b) = (bm_len b + 63) div 64 \<and> (\<forall>i \<ge> bm_len b. \<not> bm_is_valid b i)"

lemma bm_is_valid_bit:
  "bm_is_valid b i \<longleftrightarrow> i div 64 < length (bm_words b) \<and> bit (bm_words b ! (i div 64)) (i mod 64)"
  by (simp add: bm_is_valid_def and_exp_eq_0_iff_not_bit push_bit_of_1)

lemma div_mod_less_iff:
  fixes i n k :: nat
  shows "i div k < n div k \<or> (i div k = n div k \<and> i mod k < n mod k) \<longleftrightarrow> i < n"
proof (cases "i div k" "n div k" rule: linorder_cases)
  case less
  then have "\<not> n \<le> i" using div_le_mono [of n i k] by linarith
  with less show ?thesis by simp
next
  case equal
  then have "i < n \<longleftrightarrow> i mod k < n mod k"
    by (metis add_less_cancel_left mult_div_mod_eq)
  with equal show ?thesis by simp
next
  case greater
  then have "\<not> i \<le> n" using div_le_mono [of i n k] by linarith
  with greater show ?thesis by simp
qed

lemma bm_all_valid_is_valid: "bm_is_valid (bm_all_valid n) i \<longleftrightarrow> i < n"
proof (cases "n mod 64 = 0")
  case True
  then obtain k where "n = 64 * k" by (metis mod_0_imp_dvd dvdE)
  then have "(n + 63) div 64 = n div 64" and "i div 64 < n div 64 \<longleftrightarrow> i < n"
    by (simp_all add: div_less_iff_less_mult mult.commute)
  with True show ?thesis
    by (auto simp: bm_is_valid_bit bm_all_valid_def Let_def)
next
  case False
  define q where "q = n div 64"
  define r where "r = n mod 64"
  have n: "n = 64 * q + r" and r: "0 < r" "r < 64"
    using False by (simp_all add: q_def r_def)
  have len: "(n + 63) div 64 = Suc (n div 64)"
    using r by (simp add: n div_nat_eqI)
  have mask: "bit (2 ^ (n mod 64) - 1 :: u64) k \<longleftrightarrow> k < n mod 64" for k
  proof -
    have "bit (mask (n mod 64) :: u64) k \<longleftrightarrow> k < n mod 64"
      by (auto simp: bit_mask_iff)
    then show ?thesis by (simp add: mask_eq_exp_minus_1)
  qed
  have "i div 64 < n div 64 \<or> (i div 64 = n div 64 \<and> i mod 64 < n mod 64) \<longleftrightarrow> i < n"
    by (rule div_mod_less_iff)
  moreover have "bm_words (bm_all_valid n)
      = (replicate (Suc (n div 64)) (- 1))[n div 64 := push_bit (n mod 64) 1 - 1]"
    unfolding bm_all_valid_def Let_def len using False by simp
  then have "bm_is_valid (bm_all_valid n) i \<longleftrightarrow> i div 64 \<le> n div 64 \<and>
      (if i div 64 = n div 64 then i mod 64 < n mod 64 else bit (- 1 :: u64) (i mod 64))"
    by (simp add: bm_is_valid_bit nth_list_update mask less_Suc_eq_le nth_replicate
        del: replicate_Suc cong: conj_cong)
  ultimately show ?thesis by (auto simp: le_less)
qed

lemma bm_len_all_valid [simp]: "bm_len (bm_all_valid n) = n"
  by (simp add: bm_all_valid_def Let_def)

lemma bitmap_ok_all_valid: "bitmap_ok (bm_all_valid n)"
  by (simp add: bitmap_ok_def bm_all_valid_is_valid) (simp add: bm_all_valid_def Let_def)

lemma div_mod_64_eq_iff: "i = j \<longleftrightarrow> i div 64 = j div 64 \<and> i mod 64 = j mod 64" for i j :: nat
  by (metis div_mod_decomp)

lemma word_in_range: "bitmap_ok b \<Longrightarrow> i < bm_len b \<Longrightarrow> i div 64 < length (bm_words b)"
proof -
  assume "bitmap_ok b" and "i < bm_len b"
  moreover from this have "(i + 64) div 64 \<le> (bm_len b + 63) div 64" by (intro div_le_mono) simp
  ultimately show ?thesis by (simp add: bitmap_ok_def)
qed

lemma bm_is_valid_clear:
  "bitmap_ok b \<Longrightarrow> i < bm_len b \<Longrightarrow> bm_is_valid (bm_clear b i) j \<longleftrightarrow> j \<noteq> i \<and> bm_is_valid b j"
  using word_in_range [of b i]
  by (auto simp: bm_is_valid_bit bm_clear_def nth_list_update div_mod_64_eq_iff [of j i]
      bit_and_iff bit_not_iff bit_exp_iff)

lemma bm_is_valid_set:
  "bitmap_ok b \<Longrightarrow> i < bm_len b \<Longrightarrow> bm_is_valid (bm_set b i) j \<longleftrightarrow> j = i \<or> bm_is_valid b j"
  using word_in_range [of b i]
  by (auto simp: bm_is_valid_bit bm_set_def nth_list_update div_mod_64_eq_iff [of j i]
      bit_or_iff bit_exp_iff)

lemma bm_shape [simp]:
  "length (bm_words (bm_clear b i)) = length (bm_words b)" "bm_len (bm_clear b i) = bm_len b"
  "length (bm_words (bm_set b i)) = length (bm_words b)" "bm_len (bm_set b i) = bm_len b"
  by (simp_all add: bm_clear_def bm_set_def)

lemma bitmap_ok_clear: "bitmap_ok b \<Longrightarrow> i < bm_len b \<Longrightarrow> bitmap_ok (bm_clear b i)"
  using bm_is_valid_clear [of b i] by (auto simp: bitmap_ok_def)

lemma bitmap_ok_set: "bitmap_ok b \<Longrightarrow> i < bm_len b \<Longrightarrow> bitmap_ok (bm_set b i)"
  using bm_is_valid_set [of b i] by (auto simp: bitmap_ok_def)

section \<open>Columns\<close>

datatype column =
    ColInt64 "i64 list" "bitmap option"
  | ColFloat64 "u64 list" "bitmap option"
  | ColBool "bool list" "bitmap option"
  | ColTimestamp "i64 list" "bitmap option"
  | ColDecimal "int list" nat "bitmap option"
  | ColBoxed "devon_value list"

text \<open>\<open>typed_parts\<close>: one pass over the values; the bitmap is allocated at the first null.\<close>

fun typed_parts_loop ::
    "'a \<Rightarrow> (devon_value \<Rightarrow> 'a option) \<Rightarrow> nat \<Rightarrow> nat \<Rightarrow> devon_value list \<Rightarrow> 'a list \<Rightarrow> bitmap option
      \<Rightarrow> ('a list \<times> bitmap option) option" where
  "typed_parts_loop default_slot extr n index [] slots validity = Some (slots, validity)"
| "typed_parts_loop default_slot extr n index (v # vs) slots validity =
    (if v = Null
     then (let b = (case validity of None \<Rightarrow> bm_all_valid n | Some b \<Rightarrow> b)
           in typed_parts_loop default_slot extr n (Suc index) vs (slots @ [default_slot])
                (Some (bm_clear b index)))
     else (case extr v of
             None \<Rightarrow> None
           | Some x \<Rightarrow>
               typed_parts_loop default_slot extr n (Suc index) vs (slots @ [x]) validity))"

definition typed_parts ::
    "'a \<Rightarrow> (devon_value \<Rightarrow> 'a option) \<Rightarrow> devon_value list \<Rightarrow> ('a list \<times> bitmap option) option" where
  "typed_parts default_slot extr vs =
    typed_parts_loop default_slot extr (length vs) 0 vs [] None"

fun as_int64 :: "devon_value \<Rightarrow> i64 option" where
  "as_int64 (VInt64 n) = Some n"
| "as_int64 v = None"

fun as_float64 :: "devon_value \<Rightarrow> u64 option" where
  "as_float64 (VFloat64 x) = Some x"
| "as_float64 v = None"

fun as_bool :: "devon_value \<Rightarrow> bool option" where
  "as_bool (VBool b) = Some b"
| "as_bool v = None"

fun as_timestamp :: "devon_value \<Rightarrow> i64 option" where
  "as_timestamp (VTimestamp t) = Some t"
| "as_timestamp v = None"

fun as_decimal_digits :: "nat \<Rightarrow> devon_value \<Rightarrow> int option" where
  "as_decimal_digits scale (VDecimal d) = (if dec_scale d = scale then Some (dec_digits d) else None)"
| "as_decimal_digits scale v = None"

definition decimal_value :: "nat \<Rightarrow> int \<Rightarrow> devon_value" where
  "decimal_value scale digits =
    (case dec_new digits scale of Inr d \<Rightarrow> VDecimal d | Inl _ \<Rightarrow> Null)"

fun from_values :: "logical_type \<Rightarrow> devon_value list \<Rightarrow> column" where
  "from_values TInt64 vs =
    (case typed_parts 0 as_int64 vs of
       Some (slots, validity) \<Rightarrow> ColInt64 slots validity | None \<Rightarrow> ColBoxed vs)"
| "from_values TFloat64 vs =
    (case typed_parts 0 as_float64 vs of
       Some (slots, validity) \<Rightarrow> ColFloat64 slots validity | None \<Rightarrow> ColBoxed vs)"
| "from_values TBool vs =
    (case typed_parts False as_bool vs of
       Some (slots, validity) \<Rightarrow> ColBool slots validity | None \<Rightarrow> ColBoxed vs)"
| "from_values TTimestamp vs =
    (case typed_parts 0 as_timestamp vs of
       Some (slots, validity) \<Rightarrow> ColTimestamp slots validity | None \<Rightarrow> ColBoxed vs)"
| "from_values (TDecimal precision scale) vs =
    (if scale > MAX_SCALE then ColBoxed vs
     else (case typed_parts 0 (as_decimal_digits scale) vs of
             Some (slots, validity) \<Rightarrow> ColDecimal slots scale validity | None \<Rightarrow> ColBoxed vs))"
| "from_values ty vs = ColBoxed vs"

definition typed_value :: "bitmap option \<Rightarrow> nat \<Rightarrow> 'a list \<Rightarrow> ('a \<Rightarrow> devon_value) \<Rightarrow> devon_value" where
  "typed_value validity row slots wrap =
    (if (case validity of None \<Rightarrow> False | Some b \<Rightarrow> \<not> bm_is_valid b row) then Null
     else wrap (slots ! row))"

fun col_len :: "column \<Rightarrow> nat" where
  "col_len (ColInt64 slots validity) = length slots"
| "col_len (ColFloat64 slots validity) = length slots"
| "col_len (ColBool slots validity) = length slots"
| "col_len (ColTimestamp slots validity) = length slots"
| "col_len (ColDecimal slots scale validity) = length slots"
| "col_len (ColBoxed vs) = length vs"

text \<open>Out of range \<open>value_at\<close> panics; callers check the row first.\<close>

fun value_at :: "column \<Rightarrow> nat \<Rightarrow> devon_value" where
  "value_at (ColInt64 slots validity) row = typed_value validity row slots VInt64"
| "value_at (ColFloat64 slots validity) row = typed_value validity row slots VFloat64"
| "value_at (ColBool slots validity) row = typed_value validity row slots VBool"
| "value_at (ColTimestamp slots validity) row = typed_value validity row slots VTimestamp"
| "value_at (ColDecimal slots scale validity) row =
    typed_value validity row slots (decimal_value scale)"
| "value_at (ColBoxed vs) row = vs ! row"

fun value_ref_boxed :: "column \<Rightarrow> nat \<Rightarrow> devon_value option" where
  "value_ref_boxed (ColBoxed vs) row = (if row < length vs then Some (vs ! row) else None)"
| "value_ref_boxed col row = None"

definition fixed_width_bytes :: "nat \<Rightarrow> nat \<Rightarrow> bitmap option \<Rightarrow> nat" where
  "fixed_width_bytes n width validity =
    n * width + (case validity of None \<Rightarrow> 0 | Some b \<Rightarrow> bm_approx_bytes b)"

fun col_approx_bytes :: "column \<Rightarrow> nat" where
  "col_approx_bytes (ColInt64 slots validity) = fixed_width_bytes (length slots) 8 validity"
| "col_approx_bytes (ColFloat64 slots validity) = fixed_width_bytes (length slots) 8 validity"
| "col_approx_bytes (ColBool slots validity) = fixed_width_bytes (length slots) 1 validity"
| "col_approx_bytes (ColTimestamp slots validity) = fixed_width_bytes (length slots) 8 validity"
| "col_approx_bytes (ColDecimal slots scale validity) = fixed_width_bytes (length slots) 16 validity"
| "col_approx_bytes (ColBoxed vs) = sum_list (map value_approx_bytes vs)"

text \<open>\<open>PartialEq for Column\<close>: row-wise agreement.\<close>

definition col_eq :: "column \<Rightarrow> column \<Rightarrow> bool" where
  "col_eq a b \<longleftrightarrow>
    col_len a = col_len b \<and> list_all (\<lambda>row. value_at a row = value_at b row) [0..<col_len a]"

section \<open>Columns hold the values they were built from\<close>

definition parts_ok ::
    "(devon_value \<Rightarrow> 'a option) \<Rightarrow> nat \<Rightarrow> devon_value list \<Rightarrow> 'a list \<Rightarrow> bitmap option \<Rightarrow> bool" where
  "parts_ok extr n vs slots validity \<longleftrightarrow>
    length slots = length vs \<and> length vs \<le> n \<and>
    (\<forall>i < length vs. vs ! i \<noteq> Null \<longrightarrow> extr (vs ! i) = Some (slots ! i)) \<and>
    (case validity of
       None \<Rightarrow> \<forall>i < length vs. vs ! i \<noteq> Null
     | Some b \<Rightarrow> bitmap_ok b \<and> bm_len b = n \<and>
         (\<forall>i < n. bm_is_valid b i \<longleftrightarrow> (i < length vs \<longrightarrow> vs ! i \<noteq> Null)))"

lemma parts_ok_null:
  assumes "parts_ok extr n vs slots validity" and "length vs < n"
  shows "parts_ok extr n (vs @ [Null]) (slots @ [x])
    (Some (bm_clear (case validity of None \<Rightarrow> bm_all_valid n | Some b \<Rightarrow> b) (length vs)))"
proof -
  let ?b = "case validity of None \<Rightarrow> bm_all_valid n | Some b \<Rightarrow> b"
  have b: "bitmap_ok ?b" "bm_len ?b = n"
    "\<forall>i < n. bm_is_valid ?b i \<longleftrightarrow> (i < length vs \<longrightarrow> vs ! i \<noteq> Null)"
    using assms(1)
    by (auto simp: parts_ok_def bitmap_ok_all_valid bm_all_valid_is_valid split: option.splits)
  with assms show ?thesis
    by (auto simp: parts_ok_def nth_append bitmap_ok_clear bm_is_valid_clear less_Suc_eq)
qed

lemma parts_ok_slot:
  assumes "parts_ok extr n vs slots validity" and "length vs < n"
    and "v \<noteq> Null" and "extr v = Some x"
  shows "parts_ok extr n (vs @ [v]) (slots @ [x]) validity"
  using assms by (auto simp: parts_ok_def nth_append less_Suc_eq split: option.splits)

lemma typed_parts_loop_ok:
  assumes "typed_parts_loop default_slot extr n (length vs) ws slots validity = Some (slots', validity')"
    and "parts_ok extr n vs slots validity" and "length vs + length ws \<le> n"
  shows "parts_ok extr n (vs @ ws) slots' validity'"
  using assms
proof (induction ws arbitrary: vs slots validity)
  case Nil
  then show ?case by simp
next
  case (Cons w ws)
  show ?case
  proof (cases "w = Null")
    case True
    with Cons.prems
      Cons.IH [of "vs @ [w]" "slots @ [default_slot]"
        "Some (bm_clear (case validity of None \<Rightarrow> bm_all_valid n | Some b \<Rightarrow> b) (length vs))"]
    show ?thesis by (simp add: parts_ok_null)
  next
    case False
    then obtain x where "extr w = Some x"
      using Cons.prems(1) by (auto split: option.splits)
    with False Cons.prems Cons.IH [of "vs @ [w]" "slots @ [x]" validity]
    show ?thesis by (simp add: parts_ok_slot)
  qed
qed

lemma typed_parts_value:
  assumes "typed_parts default_slot extr vs = Some (slots, validity)"
    and "\<And>v x. v \<noteq> Null \<Longrightarrow> extr v = Some x \<Longrightarrow> wrap x = v"
  shows "length slots = length vs"
    and "row < length vs \<Longrightarrow> typed_value validity row slots wrap = vs ! row"
proof -
  have "parts_ok extr (length vs) ([] @ vs) slots validity"
    using assms(1) by (intro typed_parts_loop_ok) (auto simp: typed_parts_def parts_ok_def)
  then have ok: "parts_ok extr (length vs) vs slots validity" by simp
  then show "length slots = length vs" by (simp add: parts_ok_def)
  assume "row < length vs"
  with ok assms(2) show "typed_value validity row slots wrap = vs ! row"
    by (cases "vs ! row = Null") (auto simp: parts_ok_def typed_value_def split: option.splits)
qed

lemma typed_parts_total:
  assumes "\<And>v. v \<in> set vs \<Longrightarrow> v \<noteq> Null \<Longrightarrow> extr v \<noteq> None"
  shows "\<exists>slots validity. typed_parts default_slot extr vs = Some (slots, validity)"
proof -
  have "\<exists>slots' validity'. typed_parts_loop default_slot extr n index vs slots validity
      = Some (slots', validity')" for n index slots validity
    using assms
  proof (induction vs arbitrary: index slots validity)
    case (Cons v vs)
    show ?case
    proof (cases "v = Null")
      case True
      then show ?thesis using Cons by (simp add: Let_def)
    next
      case False
      then obtain x where "extr v = Some x" using Cons.prems [of v] by auto
      with False Cons show ?thesis by simp
    qed
  qed simp
  then show ?thesis by (simp add: typed_parts_def)
qed

lemma as_inverse:
  "as_int64 v = Some n \<Longrightarrow> VInt64 n = v" "as_float64 v = Some x \<Longrightarrow> VFloat64 x = v"
  "as_bool v = Some b \<Longrightarrow> VBool b = v" "as_timestamp v = Some t \<Longrightarrow> VTimestamp t = v"
  by (cases v; simp)+

lemma as_decimal_inverse:
  "as_decimal_digits scale v = Some d \<Longrightarrow> scale \<le> MAX_SCALE \<Longrightarrow> decimal_value scale d = v"
  by (cases v) (auto simp: decimal_value_def dec_new_def split: if_splits)

lemma from_values_rows:
  shows "col_len (from_values ty vs) = length vs"
    and "row < length vs \<Longrightarrow> value_at (from_values ty vs) row = vs ! row"
proof -
  have "col_len (from_values ty vs) = length vs \<and>
      (\<forall>row < length vs. value_at (from_values ty vs) row = vs ! row)"
  proof (cases ty)
    case (TDecimal precision scale)
    then show ?thesis
      using typed_parts_value [where wrap = "decimal_value scale" and extr = "as_decimal_digits scale"]
      by (auto simp: as_decimal_inverse split: option.split)
  qed (auto split: option.split
        simp: typed_parts_value [where wrap = VInt64] typed_parts_value [where wrap = VFloat64]
          typed_parts_value [where wrap = VBool] typed_parts_value [where wrap = VTimestamp]
          as_inverse)
  then show "col_len (from_values ty vs) = length vs"
    and "row < length vs \<Longrightarrow> value_at (from_values ty vs) row = vs ! row" by blast+
qed

text \<open>
  C38. A column holds exactly the values it was built from: for every logical type and every list
  of values, admitted by the type or not, \<open>from_values\<close> yields a column of the same length whose
  every row materializes to the input value, nulls included.
\<close>

theorem column_roundtrip:
  "col_len (from_values ty vs) = length vs \<and>
   map (value_at (from_values ty vs)) [0..<length vs] = vs"
  by (auto intro: nth_equalityI simp: from_values_rows)

end
