(* ===== verification/EncodingBase.thy ===== *)
theory EncodingBase
  imports ValueTypes
begin

text \<open>
  What the values-section encodings share (\<^verbatim>\<open>devondb-storage/src/node_group/encodings/\<close>): the
  parameter bytes, the validity a decoder attaches to its column, what a writer may hand to an
  encoder, and the contract between the two halves of an encoding.
\<close>

type_synonym enc_params = "u8 \<times> u8 \<times> u8"
type_synonym enc_fun = "column \<Rightarrow> logical_type \<Rightarrow> (bytes \<times> enc_params) devon_result"
type_synonym dec_fun =
  "enc_params \<Rightarrow> bytes \<Rightarrow> bitmap \<Rightarrow> nat \<Rightarrow> logical_type \<Rightarrow> column devon_result"

definition no_params :: enc_params where
  "no_params = (0, 0, 0)"

text \<open>\<open>column_validity\<close>: no bitmap when every row is valid.\<close>

definition column_validity :: "bitmap \<Rightarrow> nat \<Rightarrow> bitmap option" where
  "column_validity validity row_count =
    (let has_null = list_ex (\<lambda>row. \<not> bm_is_valid validity row) [0..<row_count]
     in if has_null then Some validity else None)"

lemma typed_value_column_validity:
  "row < row_count \<Longrightarrow>
    typed_value (column_validity validity row_count) row slots wrap =
      (if bm_is_valid validity row then wrap (slots ! row) else Null)"
  by (auto simp: typed_value_def column_validity_def list_ex_iff)

section \<open>Well-formed types, values and columns\<close>

fun type_wf :: "logical_type \<Rightarrow> bool" where
  "type_wf (TDecimal precision scale) \<longleftrightarrow> 1 \<le> precision \<and> precision \<le> 38 \<and> scale \<le> precision"
| "type_wf ty \<longleftrightarrow> True"

fun value_wf :: "devon_value \<Rightarrow> bool" where
  "value_wf (VString s) \<longleftrightarrow> utf8_valid (as_bytes s)"
| "value_wf (VJson s) \<longleftrightarrow> utf8_valid (as_bytes s)"
| "value_wf (VDecimal d) \<longleftrightarrow> decimal_ok d"
| "value_wf v \<longleftrightarrow> True"

definition column_wf :: "logical_type \<Rightarrow> column \<Rightarrow> bool" where
  "column_wf ty col \<longleftrightarrow> type_wf ty \<and> col_len col < 2 ^ 60 \<and>
    (\<forall>row < col_len col. matches_type (value_at col row) ty \<and> value_wf (value_at col row))"

text \<open>The payload's validity bitmap for a column.\<close>

definition validity_for :: "column \<Rightarrow> bitmap \<Rightarrow> bool" where
  "validity_for col b \<longleftrightarrow>
    (\<forall>row < col_len col. bm_is_valid b row \<longleftrightarrow> value_at col row \<noteq> Null)"

lemma col_eqI:
  "col_len a = col_len b \<Longrightarrow> (\<And>row. row < col_len b \<Longrightarrow> value_at a row = value_at b row) \<Longrightarrow> col_eq a b"
  by (simp add: col_eq_def list_all_iff)

lemma col_eq_value_at: "col_eq a b \<Longrightarrow> row < col_len b \<Longrightarrow> value_at a row = value_at b row"
  by (simp add: col_eq_def list_all_iff)

section \<open>The contract of an encoding\<close>

text \<open>
  What the dispatcher and the node-group writer rely on: a values section that was written for a
  well-formed column decodes, under that column's validity bitmap, to an equal column.
\<close>

locale values_encoding =
  fixes encode :: enc_fun
    and decode :: dec_fun
  assumes round_trip:
    "encode col ty = Inr (section, params) \<Longrightarrow> column_wf ty col \<Longrightarrow> validity_for col validity \<Longrightarrow>
     \<exists>col'. decode params section validity (col_len col) ty = Inr col' \<and> col_eq col' col"
begin

lemma values_round_trip:
  assumes enc: "encode (from_values ty vs) ty = Inr (section, params)"
    and ty: "type_wf ty" and len: "length vs < 2 ^ 60"
    and vs: "\<forall>v \<in> set vs. matches_type v ty \<and> value_wf v"
    and b: "\<forall>row < length vs. bm_is_valid validity row \<longleftrightarrow> vs ! row \<noteq> Null"
  shows "\<exists>col. decode params section validity (length vs) ty = Inr col \<and>
    col_len col = length vs \<and> map (value_at col) [0..<length vs] = vs"
proof -
  have wf: "column_wf ty (from_values ty vs)"
    using ty len vs by (simp add: column_wf_def from_values_rows)
  have v: "validity_for (from_values ty vs) validity"
    using b by (simp add: validity_for_def from_values_rows)
  from round_trip [OF enc wf v] obtain col where
    dec: "decode params section validity (length vs) ty = Inr col"
    and eq: "col_eq col (from_values ty vs)"
    by (auto simp: from_values_rows)
  have "map (value_at col) [0..<length vs] = vs"
    by (rule nth_equalityI) (use eq in \<open>simp_all add: col_eq_value_at from_values_rows\<close>)
  moreover have "col_len col = length vs"
    using eq by (simp add: col_eq_def from_values_rows)
  ultimately show ?thesis using dec by blast
qed

end

section \<open>Fixed-width slots\<close>

text \<open>\<open>i128\<close> digits as sixteen little-endian bytes in two's complement.\<close>

definition digits_to_le :: "int \<Rightarrow> bytes" where
  "digits_to_le d = i128_to_le_bytes (word_of_int d)"

definition digits_from_le :: "bytes \<Rightarrow> int" where
  "digits_from_le bs = sint (from_le bs :: i128)"

lemma digits_roundtrip: "i128_range d \<Longrightarrow> digits_from_le (digits_to_le d) = d"
  by (simp add: digits_from_le_def digits_to_le_def i128_range_def signed_of_int
      signed_take_bit_int_eq_self)

lemma length_digits_to_le [simp]: "length (digits_to_le d) = 16"
  by (simp add: digits_to_le_def)

definition bool_to_byte :: "bool \<Rightarrow> bytes" where
  "bool_to_byte b = [if b then 1 else 0]"

end
