(* ===== verification/EncConstant.thy ===== *)
theory EncConstant
  imports EncodingBase
begin

text \<open>
  Constant encoding (\<^verbatim>\<open>devondb-storage/src/node_group/encodings/constant.rs\<close>): one shared non-null
  value. Values are compared structurally, which for floats is the comparison of bit patterns the
  code uses; the types whose equality would differ (vectors, coordinates) are refused by
  \<open>encode_value\<close> in any case.
\<close>

fun value_section_len :: "logical_type \<Rightarrow> nat option" where
  "value_section_len TInt64 = Some 8"
| "value_section_len TFloat64 = Some 8"
| "value_section_len TTimestamp = Some 8"
| "value_section_len TBool = Some 1"
| "value_section_len (TDecimal precision scale) = Some 16"
| "value_section_len ty = None"

definition zero_spelling :: "logical_type \<Rightarrow> bytes" where
  "zero_spelling ty =
    (case value_section_len ty of Some width \<Rightarrow> replicate width 0 | None \<Rightarrow> replicate 4 0)"

definition constant_encode_value :: "devon_value \<Rightarrow> logical_type \<Rightarrow> bytes devon_result" where
  "constant_encode_value v ty =
    (case (ty, v) of
       (TInt64, VInt64 n) \<Rightarrow> Inr (u64_to_le_bytes n)
     | (TTimestamp, VTimestamp t) \<Rightarrow> Inr (u64_to_le_bytes t)
     | (TFloat64, VFloat64 x) \<Rightarrow> Inr (u64_to_le_bytes x)
     | (TBool, VBool b) \<Rightarrow> Inr (bool_to_byte b)
     | (TDecimal precision scale, VDecimal d) \<Rightarrow> Inr (digits_to_le (dec_digits d))
     | (TString, VString s) \<Rightarrow>
         rbind (ok_or (InvalidArgument ''encoding constant String value length exceeds u32'')
                  (u32_try_from (length (as_bytes s))))
           (\<lambda>len. Inr (u32_to_le_bytes len @ as_bytes s))
     | _ \<Rightarrow> Inl (InvalidArgument ''encoding constant value {} does not match {}''))"

definition constant_step :: "column \<Rightarrow> nat \<Rightarrow> devon_value option \<Rightarrow> devon_value option devon_result" where
  "constant_step col row shared =
    (let v = value_at col row
     in if v = Null then Inr shared
        else (case shared of
                None \<Rightarrow> Inr (Some v)
              | Some s \<Rightarrow>
                  if s = v then Inr shared
                  else Inl (InvalidArgument
                    ''encoding constant requires one shared non-null value but row {} disagrees'')))"

definition constant_encode :: enc_fun where
  "constant_encode col ty =
    rbind (rfold (constant_step col) [0..<col_len col] None) (\<lambda>shared.
    rbind (case shared of
             Some v \<Rightarrow> constant_encode_value v ty
           | None \<Rightarrow> Inr (zero_spelling ty))
      (\<lambda>section. Inr (section, no_params)))"

definition fixed_slot :: "nat \<Rightarrow> bytes \<Rightarrow> bytes devon_result" where
  "fixed_slot n section =
    (if length section \<noteq> n
     then Inl (Corrupt ''constant value section is {} bytes, expected exactly {} for {}'')
     else Inr section)"

definition constant_slots :: "'a \<Rightarrow> 'a \<Rightarrow> bitmap \<Rightarrow> nat \<Rightarrow> 'a list" where
  "constant_slots default_slot v validity row_count =
    map (\<lambda>row. if bm_is_valid validity row then v else default_slot) [0..<row_count]"

definition constant_decode_decimal ::
    "bytes \<Rightarrow> bitmap \<Rightarrow> nat \<Rightarrow> nat \<Rightarrow> nat \<Rightarrow> column devon_result" where
  "constant_decode_decimal section validity row_count precision scale =
    (if \<not> (1 \<le> precision \<and> precision \<le> MAX_PRECISION) \<or> scale > precision
     then Inl (Corrupt ''constant column has invalid Decimal({}, {}) declaration'')
     else
       rbind (fixed_slot 16 section) (\<lambda>slot.
       let digits = digits_from_le slot
       in rbind (map_err (\<lambda>_. Corrupt ''constant Decimal is invalid: {}'') (dec_new digits scale)) (\<lambda>v.
          if \<not> dec_fits v precision scale
          then Inl (Corrupt ''constant Decimal digits exceed declared precision {}'')
          else Inr (ColDecimal (constant_slots 0 digits validity row_count) scale
                     (column_validity validity row_count)))))"

definition constant_decode_string :: "bytes \<Rightarrow> bitmap \<Rightarrow> nat \<Rightarrow> column devon_result" where
  "constant_decode_string section validity row_count =
    (if length section < 4
     then Inl (Corrupt ''constant String value section is {} bytes, expected at least 4'')
     else
       (let len = unat (read_u32 section 0) in
        if length section - 4 \<noteq> len
        then Inl (Corrupt ''constant String value section is {} bytes, expected {} for a {}-byte value'')
        else
          rbind (ok_or (Corrupt ''constant String is not valid UTF-8: {}'')
                   (from_utf8 (drop 4 section)))
            (\<lambda>txt. Inr (ColBoxed
               (map (\<lambda>row. if bm_is_valid validity row then VString txt else Null) [0..<row_count])))))"

definition constant_decode :: dec_fun where
  "constant_decode params section validity row_count ty =
    (if params \<noteq> no_params then Inl (Corrupt ''encoding constant parameters are not zero'')
     else
       (let all_null = list_all (\<lambda>row. \<not> bm_is_valid validity row) [0..<row_count]
        in if all_null \<and> section \<noteq> zero_spelling ty
           then Inl (Corrupt ''constant value slot is not the zero spelling but every row is NULL'')
           else
             (case ty of
                TInt64 \<Rightarrow> rbind (fixed_slot 8 section) (\<lambda>slot.
                  Inr (ColInt64 (constant_slots 0 (from_le slot) validity row_count)
                        (column_validity validity row_count)))
              | TTimestamp \<Rightarrow> rbind (fixed_slot 8 section) (\<lambda>slot.
                  Inr (ColTimestamp (constant_slots 0 (from_le slot) validity row_count)
                        (column_validity validity row_count)))
              | TFloat64 \<Rightarrow> rbind (fixed_slot 8 section) (\<lambda>slot.
                  Inr (ColFloat64 (constant_slots 0 (from_le slot) validity row_count)
                        (column_validity validity row_count)))
              | TBool \<Rightarrow> rbind (fixed_slot 1 section) (\<lambda>slot.
                  if slot ! 0 > 1 then Inl (Corrupt ''constant Bool value is {}, expected 0 or 1'')
                  else Inr (ColBool (constant_slots False (slot ! 0 = 1) validity row_count)
                             (column_validity validity row_count)))
              | TDecimal precision scale \<Rightarrow>
                  constant_decode_decimal section validity row_count precision scale
              | TString \<Rightarrow> constant_decode_string section validity row_count
              | _ \<Rightarrow> Inl (Corrupt ''encoding constant is not admissible for {}''))))"

section \<open>The encoding keeps the column\<close>

text \<open>What the loop over the rows finds.\<close>

lemma constant_loop:
  assumes "rfold (constant_step col) rows shared = Inr res"
  shows "(\<forall>v. shared = Some v \<longrightarrow> res = Some v) \<and>
    (\<forall>row \<in> set rows. value_at col row = Null \<or> res = Some (value_at col row)) \<and>
    (res = None \<or> res = shared \<or> (\<exists>row \<in> set rows. res = Some (value_at col row)))"
  using assms
proof (induction rows arbitrary: shared)
  case (Cons row rows)
  then obtain s where s: "constant_step col row shared = Inr s" "rfold (constant_step col) rows s = Inr res"
    by (auto simp: rbind_eq_Inr)
  from Cons.IH [OF s(2)] s(1) show ?case
    by (auto simp: constant_step_def Let_def split: if_splits option.splits)
qed simp

lemma constant_loop_total:
  assumes "\<forall>row \<in> set rows. value_at col row = Null \<or> value_at col row = v"
    and "shared = None \<or> shared = Some v"
  shows "\<exists>res. rfold (constant_step col) rows shared = Inr res \<and> (res = None \<or> res = Some v)"
  using assms
proof (induction rows arbitrary: shared)
  case (Cons row rows)
  have "\<exists>s. constant_step col row shared = Inr s \<and> (s = None \<or> s = Some v)"
    using Cons.prems by (auto simp: constant_step_def Let_def split: option.splits)
  with Cons show ?case by fastforce
qed auto

text \<open>Decoding the bytes of one value, or the zero spelling when there is none.\<close>

lemma constant_decode_ok:
  assumes "type_wf ty" and v: "matches_type v ty" "value_wf v" "v \<noteq> Null"
    and enc: "constant_encode_value v ty = Inr section"
    and some: "\<exists>row < n. bm_is_valid validity row"
  shows "\<exists>col'. constant_decode no_params section validity n ty = Inr col' \<and> col_len col' = n \<and>
    (\<forall>row < n. value_at col' row = (if bm_is_valid validity row then v else Null))"
proof -
  have some': "\<not> list_all (\<lambda>row. \<not> bm_is_valid validity row) [0..<n]"
    using some by (auto simp: list_all_iff)
  have utf: "from_utf8 (as_bytes s) = Some s" if "v = VString s" for s
    using v(2) that by (simp add: from_utf8_as_bytes)
  have dig: "digits_from_le (digits_to_le (dec_digits d)) = dec_digits d" if "v = VDecimal d" for d
    using v(2) that by (simp add: digits_roundtrip decimal_ok_def)
  have prec: "dec_precision \<lparr> dec_digits = dec_digits d, dec_scale = s \<rparr> = dec_precision d" for d s
    by (simp add: dec_precision_def)
  show ?thesis
    using assms(1) v enc some' utf dig
    by (cases ty; cases v)
      (auto simp: constant_encode_value_def constant_decode_def constant_decode_decimal_def
        constant_decode_string_def fixed_slot_def Let_def typed_value_column_validity
        constant_slots_def bool_to_byte_def dec_new_def dec_fits_def MAX_SCALE_def MAX_PRECISION_def
        decimal_value_def read_u32_def subslice_def result_simps prec split: if_splits)
qed

lemma constant_decode_zero:
  assumes "type_wf ty" and "value_section_len ty \<noteq> None \<or> ty = TString"
    and null: "\<forall>row < n. \<not> bm_is_valid validity row"
  shows "\<exists>col'. constant_decode no_params (zero_spelling ty) validity n ty = Inr col' \<and>
    col_len col' = n \<and> (\<forall>row < n. value_at col' row = Null)"
proof -
  have "digits_from_le (replicate 16 0) = 0"
    by (simp add: digits_from_le_def)
  moreover have "dec_precision \<lparr> dec_digits = 0, dec_scale = s \<rparr> \<le> p" if "1 \<le> p" for s p
    using that by (simp add: dec_precision_le_iff)
  ultimately show ?thesis
    using assms
    by (cases ty)
      (auto simp: zero_spelling_def constant_decode_def constant_decode_decimal_def
        constant_decode_string_def fixed_slot_def Let_def typed_value_column_validity
        constant_slots_def dec_new_def dec_fits_def MAX_SCALE_def MAX_PRECISION_def
        read_u32_def subslice_def from_utf8_def)
qed

text \<open>The types the registry admits for this encoding.\<close>

definition constant_type :: "logical_type \<Rightarrow> bool" where
  "constant_type ty \<longleftrightarrow> value_section_len ty \<noteq> None \<or> ty = TString"

lemma constant_encode_value_type:
  "constant_encode_value v ty = Inr section \<Longrightarrow> constant_type ty"
  by (cases ty; cases v) (auto simp: constant_encode_value_def constant_type_def)

lemma constant_round_trip:
  assumes enc: "constant_encode col ty = Inr (section, params)" and ct: "constant_type ty"
    and wf: "column_wf ty col" and b: "validity_for col validity"
  shows "\<exists>col'. constant_decode params section validity (col_len col) ty = Inr col' \<and> col_eq col' col"
proof -
  let ?n = "col_len col"
  from enc obtain shared where loop: "rfold (constant_step col) [0..<?n] None = Inr shared"
    and sec: "(case shared of Some v \<Rightarrow> constant_encode_value v ty | None \<Rightarrow> Inr (zero_spelling ty))
      = Inr section" and params: "params = no_params"
    by (auto simp: constant_encode_def rbind_eq_Inr)
  have valid: "bm_is_valid validity row \<longleftrightarrow> value_at col row \<noteq> Null" if "row < ?n" for row
    using b that by (simp add: validity_for_def)
  have ty: "type_wf ty" using wf by (simp add: column_wf_def)
  show ?thesis
  proof (cases shared)
    case None
    with constant_loop [OF loop] have null: "\<forall>row < ?n. value_at col row = Null" by auto
    from constant_decode_zero [OF ty ct [unfolded constant_type_def], of ?n validity] null valid
    obtain col' where "constant_decode no_params (zero_spelling ty) validity ?n ty = Inr col'"
      "col_len col' = ?n" "\<forall>row < ?n. value_at col' row = Null" by auto
    with None sec params null show ?thesis by (auto intro!: col_eqI)
  next
    case (Some v)
    from constant_loop [OF loop] Some obtain row where row: "row < ?n" "value_at col row = v"
      by auto
    from constant_loop [OF loop] Some
    have all: "\<forall>row < ?n. value_at col row = Null \<or> value_at col row = v" by auto
    show ?thesis
    proof (cases "v = Null")
      case True
      with Some sec ty show ?thesis
        by (cases ty) (auto simp: constant_encode_value_def)
    next
      case False
      have "matches_type v ty" "value_wf v" using wf row by (auto simp: column_wf_def)
      moreover have "\<exists>row < ?n. bm_is_valid validity row" using row valid False by auto
      moreover have "constant_encode_value v ty = Inr section" using sec Some by simp
      ultimately obtain col' where "constant_decode no_params section validity ?n ty = Inr col'"
        "col_len col' = ?n"
        "\<forall>row < ?n. value_at col' row = (if bm_is_valid validity row then v else Null)"
        using constant_decode_ok [OF ty _ _ False] by metis
      with params all valid show ?thesis by (auto intro!: col_eqI)
    qed
  qed
qed

text \<open>
  The code checks admissibility in the dispatcher, so the contract is met by the encoder behind that
  check.
\<close>

definition constant_encode_admitted :: enc_fun where
  "constant_encode_admitted col ty =
    (if constant_type ty then constant_encode col ty
     else Inl (InvalidArgument ''encoding {} is not admissible for {}''))"

interpretation const_enc: values_encoding constant_encode_admitted constant_decode
  by unfold_locales
    (auto simp: constant_encode_admitted_def intro: constant_round_trip split: if_splits)

lemma constant_encode_total:
  assumes "\<forall>v \<in> set vs. v = Null \<or> v = shared" and "\<forall>v \<in> set vs. matches_type v ty"
    and "constant_type ty" and "\<And>s. shared = VString s \<Longrightarrow> length s < 2 ^ 32"
  shows "\<exists>section. constant_encode (from_values ty vs) ty = Inr (section, no_params)"
proof -
  let ?col = "from_values ty vs"
  have rows: "\<forall>row \<in> set [0..<col_len ?col]. value_at ?col row = Null \<or> value_at ?col row = shared"
    using assms(1) by (simp add: from_values_rows)
  from constant_loop_total [OF rows, of None] obtain res where
    loop: "rfold (constant_step ?col) [0..<col_len ?col] None = Inr res" and res: "res = None \<or> res = Some shared"
    by blast
  have "is_ok (constant_encode_value shared ty)" if "res = Some shared"
  proof -
    from constant_loop [OF loop] that obtain row where "row < length vs" "vs ! row = shared"
      by (auto simp: from_values_rows)
    then have m: "matches_type shared ty" using assms(2) by auto
    have "shared \<noteq> Null"
    proof
      assume "shared = Null"
      with rows have null: "\<forall>row \<in> set [0..<col_len ?col]. value_at ?col row = Null" by simp
      have "rfold (constant_step ?col) rs None = Inr None"
        if "\<forall>row \<in> set rs. value_at ?col row = Null" for rs
        using that by (induction rs) (auto simp: constant_step_def)
      with null loop \<open>res = Some shared\<close> show False by auto
    qed
    with m assms(3,4) show ?thesis
      by (cases ty; cases shared)
        (auto simp: constant_encode_value_def constant_type_def u32_try_from_def)
  qed
  with res loop show ?thesis
    by (cases "constant_encode_value shared ty") (auto simp: constant_encode_def)
qed

text \<open>
  Constant encoding loses nothing: a column of an admissible type whose non-null values all
  agree (an all-null column included) encodes, and decodes under the payload's validity bitmap to
  exactly the same values.
\<close>

lemma constant_values_roundtrip:
  assumes "constant_type ty" and "type_wf ty"
    and "\<forall>v \<in> set vs. v = Null \<or> v = shared"
    and "\<forall>v \<in> set vs. matches_type v ty \<and> value_wf v" and "length vs < 2 ^ 60"
    and "value_approx_bytes shared < 2 ^ 32"
    and "\<forall>row < length vs. bm_is_valid validity row \<longleftrightarrow> vs ! row \<noteq> Null"
  shows "\<exists>section col. constant_encode (from_values ty vs) ty = Inr (section, no_params) \<and>
    constant_decode no_params section validity (length vs) ty = Inr col \<and>
    map (value_at col) [0..<length vs] = vs"
proof -
  have "\<exists>section. constant_encode (from_values ty vs) ty = Inr (section, no_params)"
    by (rule constant_encode_total [OF assms(3)]) (use assms in auto)
  then obtain sec where enc: "constant_encode (from_values ty vs) ty = Inr (sec, no_params)"
    by blast
  then have "constant_encode_admitted (from_values ty vs) ty = Inr (sec, no_params)"
    using assms(1) by (simp add: constant_encode_admitted_def)
  from const_enc.values_round_trip [OF this assms(2,5,4,7)] enc show ?thesis by blast
qed

end
