(* ===== verification/EncRle.thy ===== *)
theory EncRle
  imports EncodingBase
begin

text \<open>
  Run-length encoding (\<^verbatim>\<open>devondb-storage/src/node_group/encodings/rle.rs\<close>). The run section is
  generic in the slot type, in the code by type parameters and closures and here by function
  arguments; the locale \<open>slot_codec\<close> is what the two closures of a slot type promise, and it is
  interpreted for the three slot types of the code.
\<close>

section \<open>Encoding runs\<close>

definition flush_run ::
    "('a \<Rightarrow> bytes) \<Rightarrow> bytes \<Rightarrow> u32 \<Rightarrow> 'a \<Rightarrow> nat \<Rightarrow> (bytes \<times> u32) devon_result" where
  "flush_run push_value body run_count held len =
    rbind (ok_or (InvalidArgument ''rle run length exceeds u32'') (u32_try_from len)) (\<lambda>run_len.
    let body = body @ u32_to_le_bytes run_len @ push_value held
    in rbind (ok_or (InvalidArgument ''rle run count exceeds u32'') (checked_add_word run_count 1))
         (\<lambda>run_count. Inr (body, run_count)))"

fun encode_runs_loop ::
    "(nat \<Rightarrow> 'a devon_result) \<Rightarrow> ('a \<Rightarrow> bytes) \<Rightarrow> nat list \<Rightarrow> bytes \<Rightarrow> u32 \<Rightarrow> ('a \<times> nat) option
      \<Rightarrow> (bytes \<times> u32 \<times> ('a \<times> nat) option) devon_result" where
  "encode_runs_loop slot push_value [] body run_count current = Inr (body, run_count, current)"
| "encode_runs_loop slot push_value (row # rows) body run_count current =
    rbind (slot row) (\<lambda>v.
    case current of
      None \<Rightarrow> encode_runs_loop slot push_value rows body run_count (Some (v, 1))
    | Some (held, len) \<Rightarrow>
        if held = v
        then encode_runs_loop slot push_value rows body run_count (Some (held, len + 1))
        else rbind (flush_run push_value body run_count held len) (\<lambda>(body, run_count).
               encode_runs_loop slot push_value rows body run_count (Some (v, 1))))"

definition encode_runs ::
    "nat \<Rightarrow> (nat \<Rightarrow> 'a devon_result) \<Rightarrow> ('a \<Rightarrow> bytes) \<Rightarrow> bytes devon_result" where
  "encode_runs row_count slot push_value =
    rbind (encode_runs_loop slot push_value [0..<row_count] [] 0 None)
      (\<lambda>(body, run_count, current).
      rbind (case current of
               None \<Rightarrow> Inr (body, run_count)
             | Some (held, len) \<Rightarrow> flush_run push_value body run_count held len)
        (\<lambda>(body, run_count). Inr (u32_to_le_bytes run_count @ body)))"

section \<open>Decoding runs\<close>

fun parse_runs_loop ::
    "nat \<Rightarrow> (bytes \<Rightarrow> 'a devon_result) \<Rightarrow> bytes \<Rightarrow> nat list \<Rightarrow> nat \<Rightarrow> (u32 \<times> 'a) list
      \<Rightarrow> (nat \<times> (u32 \<times> 'a) list) devon_result" where
  "parse_runs_loop width read_value section [] covered runs = Inr (covered, runs)"
| "parse_runs_loop width read_value section (index # indices) covered runs =
    (let entry_len = 4 + width;
         start = 4 + index * entry_len;
         run_len = read_u32 section start
     in if run_len = 0 then Inl (Corrupt ''rle run {} has length 0'')
        else
          rbind (ok_or (Corrupt ''rle run lengths overflow row coverage'')
                   (checked_add_usize covered (unat run_len))) (\<lambda>covered.
          rbind (read_value (subslice section (start + 4) (start + entry_len))) (\<lambda>v.
          parse_runs_loop width read_value section indices covered (runs @ [(run_len, v)]))))"

definition parse_runs ::
    "nat \<Rightarrow> (bytes \<Rightarrow> 'a devon_result) \<Rightarrow> bytes \<Rightarrow> nat \<Rightarrow> (u32 \<times> 'a) list devon_result" where
  "parse_runs width read_value section row_count =
    (if length section < 4
     then Inl (Corrupt ''rle values section is {} bytes, smaller than the 4-byte run_count prefix'')
     else
       (let run_count = unat (read_u32 section 0);
            entry_len = 4 + width
        in rbind (ok_or (Corrupt ''rle run_count {} overflows the run section length for {}'')
                    (checked_mul_usize run_count entry_len)) (\<lambda>needed.
           let actual = length section - 4
           in if actual < needed
              then Inl (Corrupt ''rle run section is {} bytes, expected {} for {} runs'')
              else if actual > needed
              then Inl (Corrupt ''rle values section has {} trailing bytes after {} runs'')
              else
                rbind (parse_runs_loop width read_value section [0..<run_count] 0 [])
                  (\<lambda>(covered, runs).
                  if covered \<noteq> row_count
                  then Inl (Corrupt ''rle runs cover {} rows, expected {}'')
                  else Inr runs))))"

definition expand_runs :: "(u32 \<times> 'a) list \<Rightarrow> 'a list" where
  "expand_runs runs = concat (map (\<lambda>(run_len, v). replicate (unat run_len) v) runs)"

definition decode_runs ::
    "nat \<Rightarrow> (bytes \<Rightarrow> 'a devon_result) \<Rightarrow> bytes \<Rightarrow> nat \<Rightarrow> 'a list devon_result" where
  "decode_runs width read_value section row_count =
    rbind (parse_runs width read_value section row_count) (\<lambda>runs. Inr (expand_runs runs))"

section \<open>Slots of a column\<close>

definition i64_slot :: "column \<Rightarrow> nat \<Rightarrow> i64 devon_result" where
  "i64_slot col row =
    (case value_at col row of
       Null \<Rightarrow> Inr 0
     | VInt64 v \<Rightarrow> Inr v
     | VTimestamp v \<Rightarrow> Inr v
     | _ \<Rightarrow> Inl (InvalidArgument ''encoding rle value {} does not match {}''))"

definition bool_slot :: "column \<Rightarrow> nat \<Rightarrow> bool devon_result" where
  "bool_slot col row =
    (case value_at col row of
       Null \<Rightarrow> Inr False
     | VBool v \<Rightarrow> Inr v
     | _ \<Rightarrow> Inl (InvalidArgument ''encoding rle value {} does not match {}''))"

definition decimal_slot :: "nat \<Rightarrow> column \<Rightarrow> nat \<Rightarrow> int devon_result" where
  "decimal_slot scale col row =
    (case value_at col row of
       Null \<Rightarrow> Inr 0
     | VDecimal d \<Rightarrow>
         (if dec_scale d = scale then Inr (dec_digits d)
          else Inl (InvalidArgument ''encoding rle value {} does not match {}''))
     | _ \<Rightarrow> Inl (InvalidArgument ''encoding rle value {} does not match {}''))"

definition read_i64 :: "bytes \<Rightarrow> i64 devon_result" where
  "read_i64 slot = Inr (from_le slot)"

definition read_bool :: "bytes \<Rightarrow> bool devon_result" where
  "read_bool slot =
    (let byte = slot ! 0
     in if byte > 1 then Inl (Corrupt ''rle Bool value is {}, expected 0 or 1'') else Inr (byte = 1))"

definition read_digits :: "nat \<Rightarrow> nat \<Rightarrow> bytes \<Rightarrow> int devon_result" where
  "read_digits precision scale slot =
    (let digits = digits_from_le slot
     in rbind (map_err (\<lambda>_. Corrupt ''rle Decimal is invalid: {}'') (dec_new digits scale)) (\<lambda>v.
        if \<not> dec_fits v precision scale
        then Inl (Corrupt ''rle Decimal digits exceed declared precision {}'')
        else Inr digits))"

section \<open>The encoding\<close>

definition rle_encode :: enc_fun where
  "rle_encode col ty =
    rbind
      (case ty of
         TInt64 \<Rightarrow> encode_runs (col_len col) (i64_slot col) u64_to_le_bytes
       | TTimestamp \<Rightarrow> encode_runs (col_len col) (i64_slot col) u64_to_le_bytes
       | TBool \<Rightarrow> encode_runs (col_len col) (bool_slot col) bool_to_byte
       | TDecimal precision scale \<Rightarrow>
           encode_runs (col_len col) (decimal_slot scale col) digits_to_le
       | _ \<Rightarrow> Inl (InvalidArgument ''encoding rle is not admissible for {}''))
      (\<lambda>section. Inr (section, no_params))"

definition rle_decode_decimal ::
    "bytes \<Rightarrow> bitmap \<Rightarrow> nat \<Rightarrow> nat \<Rightarrow> nat \<Rightarrow> column devon_result" where
  "rle_decode_decimal section validity row_count precision scale =
    (if \<not> (1 \<le> precision \<and> precision \<le> MAX_PRECISION) \<or> scale > precision
     then Inl (Corrupt ''rle column has invalid Decimal({}, {}) declaration'')
     else
       rbind (decode_runs 16 (read_digits precision scale) section row_count)
         (\<lambda>vs. Inr (ColDecimal vs scale (column_validity validity row_count))))"

definition rle_decode :: dec_fun where
  "rle_decode params section validity row_count ty =
    (if params \<noteq> no_params then Inl (Corrupt ''encoding rle parameters are not zero'')
     else
       (case ty of
          TInt64 \<Rightarrow>
            rbind (decode_runs 8 read_i64 section row_count)
              (\<lambda>vs. Inr (ColInt64 vs (column_validity validity row_count)))
        | TTimestamp \<Rightarrow>
            rbind (decode_runs 8 read_i64 section row_count)
              (\<lambda>vs. Inr (ColTimestamp vs (column_validity validity row_count)))
        | TBool \<Rightarrow>
            rbind (decode_runs 1 read_bool section row_count)
              (\<lambda>vs. Inr (ColBool vs (column_validity validity row_count)))
        | TDecimal precision scale \<Rightarrow>
            rle_decode_decimal section validity row_count precision scale
        | _ \<Rightarrow> Inl (Corrupt ''encoding rle is not admissible for {}'')))"

section \<open>Runs of a slot type\<close>

text \<open>What is written after the run count: every run nonempty and below \<open>2\<^sup>3\<^sup>2\<close>.\<close>

definition run_bytes :: "('a \<Rightarrow> bytes) \<Rightarrow> u32 \<times> 'a \<Rightarrow> bytes" where
  "run_bytes push_value run = u32_to_le_bytes (fst run) @ push_value (snd run)"

definition runs_section :: "('a \<Rightarrow> bytes) \<Rightarrow> (u32 \<times> 'a) list \<Rightarrow> bytes" where
  "runs_section push_value runs =
    u32_to_le_bytes (of_nat (length runs)) @ concat (map (run_bytes push_value) runs)"

definition runs_wf :: "(u32 \<times> 'a) list \<Rightarrow> bool" where
  "runs_wf runs \<longleftrightarrow> length runs < 2 ^ 32 \<and> (\<forall>run \<in> set runs. fst run \<noteq> 0)"

lemma expand_runs_append [simp]: "expand_runs (rs @ rs') = expand_runs rs @ expand_runs rs'"
  and expand_runs_Nil [simp]: "expand_runs [] = []"
  and expand_runs_single [simp]: "expand_runs [(n, v)] = replicate (unat n) v"
  by (simp_all add: expand_runs_def)

lemma flush_run_eq_Inr:
  assumes "runs_wf runs" and "0 < len"
    and "flush_run push_value (concat (map (run_bytes push_value) runs)) (of_nat (length runs)) held len
      = Inr (body, run_count)"
  obtains run where "body = concat (map (run_bytes push_value) (runs @ [run]))"
    and "run_count = of_nat (length (runs @ [run]))" and "runs_wf (runs @ [run])"
    and "expand_runs [run] = replicate len held"
proof -
  let ?run = "(of_nat len :: u32, held)"
  from assms(3) have len: "len < 2 ^ 32"
    and body: "body = concat (map (run_bytes push_value) (runs @ [?run]))"
    and c: "checked_add_word (of_nat (length runs) :: u32) 1 = Some run_count"
    by (auto simp: flush_run_def result_simps run_bytes_def)
  have "unat run_count = length runs + 1"
    using checked_add_word_eq_Some [OF c] assms(1) by (simp add: runs_wf_def)
  moreover have "run_count = of_nat (unat run_count)" by simp
  ultimately have "run_count = of_nat (length (runs @ [?run]))" and "length (runs @ [?run]) < 2 ^ 32"
    using unsigned_less [of run_count, where ?'a = nat] by simp_all
  moreover have "(of_nat len :: u32) \<noteq> 0"
    using assms(2) len by (metis unat_of_nat_u32 unsigned_0 less_irrefl)
  ultimately show thesis
    using body assms(1) len by (intro that [of ?run]) (auto simp: runs_wf_def)
qed

fun pending_run :: "('a \<times> nat) option \<Rightarrow> 'a list" where
  "pending_run None = []"
| "pending_run (Some (held, len)) = replicate len held"

lemma encode_runs_loop_sound:
  assumes "encode_runs_loop slot push_value rows (concat (map (run_bytes push_value) runs))
      (of_nat (length runs)) current = Inr (body, run_count, current')"
    and "runs_wf runs" and "\<And>held len. current = Some (held, len) \<Longrightarrow> 0 < len"
  shows "\<exists>runs' vs. body = concat (map (run_bytes push_value) runs') \<and>
    run_count = of_nat (length runs') \<and> runs_wf runs' \<and> rmapM slot rows = Inr vs \<and>
    expand_runs runs' @ pending_run current' = expand_runs runs @ pending_run current @ vs \<and>
    (\<forall>held len. current' = Some (held, len) \<longrightarrow> 0 < len)"
  using assms
proof (induction rows arbitrary: runs current)
  case Nil
  then show ?case by auto
next
  case (Cons row rows)
  from Cons.prems(1) obtain v where v: "slot row = Inr v"
    by (auto simp: rbind_eq_Inr)
  show ?case
  proof (cases current)
    case None
    with Cons.prems v have "encode_runs_loop slot push_value rows
        (concat (map (run_bytes push_value) runs)) (of_nat (length runs)) (Some (v, 1))
        = Inr (body, run_count, current')" by simp
    from Cons.IH [OF this Cons.prems(2)] None v show ?thesis by fastforce
  next
    case (Some p)
    then obtain held len where current: "current = Some (held, len)" and pos: "0 < len"
      using Cons.prems(3) by (cases p) auto
    show ?thesis
    proof (cases "held = v")
      case True
      with Cons.prems v current have "encode_runs_loop slot push_value rows
          (concat (map (run_bytes push_value) runs)) (of_nat (length runs)) (Some (held, len + 1))
          = Inr (body, run_count, current')" by simp
      from Cons.IH [OF this Cons.prems(2)] True v current show ?thesis
        by (fastforce simp: replicate_append_same)
    next
      case False
      with Cons.prems v current obtain body1 count1 where
        flush: "flush_run push_value (concat (map (run_bytes push_value) runs))
          (of_nat (length runs)) held len = Inr (body1, count1)"
        and rest: "encode_runs_loop slot push_value rows body1 count1 (Some (v, 1))
          = Inr (body, run_count, current')"
        by (auto simp: rbind_eq_Inr)
      obtain run where run: "body1 = concat (map (run_bytes push_value) (runs @ [run]))"
        "count1 = of_nat (length (runs @ [run]))" "runs_wf (runs @ [run])"
        "expand_runs [run] = replicate len held"
        by (rule flush_run_eq_Inr [OF Cons.prems(2) pos flush])
      from Cons.IH [OF rest [unfolded run(1,2)] run(3)] obtain runs' vs where
        "body = concat (map (run_bytes push_value) runs')" "run_count = of_nat (length runs')"
        "runs_wf runs'" "rmapM slot rows = Inr vs"
        "expand_runs runs' @ pending_run current' = expand_runs (runs @ [run]) @ [v] @ vs"
        "\<forall>held len. current' = Some (held, len) \<longrightarrow> 0 < len"
        by auto
      with run(4) current v show ?thesis by auto
    qed
  qed
qed

lemma encode_runs_eq:
  assumes "encode_runs row_count slot push_value = Inr section"
  obtains runs vs where "section = runs_section push_value runs" and "runs_wf runs"
    and "rmapM slot [0..<row_count] = Inr vs" and "expand_runs runs = vs"
proof -
  from assms obtain body run_count current body' run_count' where
    loop: "encode_runs_loop slot push_value [0..<row_count] [] 0 None
      = Inr (body, run_count, current)"
    and last_run: "(case current of None \<Rightarrow> Inr (body, run_count)
      | Some (held, len) \<Rightarrow> flush_run push_value body run_count held len) = Inr (body', run_count')"
    and sec: "section = u32_to_le_bytes run_count' @ body'"
    by (auto simp: encode_runs_def rbind_eq_Inr)
  have "encode_runs_loop slot push_value [0..<row_count]
      (concat (map (run_bytes push_value) [])) (of_nat (length [])) None
      = Inr (body, run_count, current)" using loop by simp
  from encode_runs_loop_sound [OF this] obtain runs vs where
    r: "body = concat (map (run_bytes push_value) runs)" "run_count = of_nat (length runs)"
      "runs_wf runs" "rmapM slot [0..<row_count] = Inr vs"
      "expand_runs runs @ pending_run current = vs"
      "\<forall>held len. current = Some (held, len) \<longrightarrow> 0 < len"
    by (auto simp: runs_wf_def)
  show thesis
  proof (cases current)
    case None
    with r last_run sec show thesis
      by (intro that [of runs vs]) (simp_all add: runs_section_def)
  next
    case (Some p)
    then obtain held len where current: "current = Some (held, len)" and pos: "0 < len"
      using r(6) by (cases p) auto
    from last_run current r(1,2) have "flush_run push_value
        (concat (map (run_bytes push_value) runs)) (of_nat (length runs)) held len
        = Inr (body', run_count')" by simp
    from flush_run_eq_Inr [OF r(3) pos this] obtain run where
      "body' = concat (map (run_bytes push_value) (runs @ [run]))"
      "run_count' = of_nat (length (runs @ [run]))" "runs_wf (runs @ [run])"
      "expand_runs [run] = replicate len held" by blast
    with r current sec show thesis
      by (intro that [of "runs @ [run]" vs]) (simp_all add: runs_section_def)
  qed
qed

lemma flush_run_total:
  assumes "unat run_count + 1 < 2 ^ 32" and "len < 2 ^ 32"
  obtains body' where "flush_run push_value body run_count held len = Inr (body', run_count + 1)"
  using assms by (auto simp: flush_run_def u32_try_from_def checked_add_word_def)

lemma encode_runs_loop_total:
  assumes "\<And>row. row \<in> set rows \<Longrightarrow> is_ok (slot row)"
    and "unat run_count + 1 + length rows < 2 ^ 32"
    and "(case current of None \<Rightarrow> 0 | Some (held, len) \<Rightarrow> len) + length rows < 2 ^ 32"
  shows "\<exists>body' run_count' current'.
    encode_runs_loop slot push_value rows body run_count current = Inr (body', run_count', current') \<and>
    unat run_count' + 1 < 2 ^ 32 \<and> (case current' of None \<Rightarrow> 0 | Some (held, len) \<Rightarrow> len) < 2 ^ 32"
  using assms
proof (induction rows arbitrary: body run_count current)
  case Nil
  then show ?case by simp
next
  case (Cons row rows)
  obtain v where v: "slot row = Inr v"
    using Cons.prems(1) [of row] by (cases "slot row") auto
  show ?case
  proof (cases current)
    case None
    then show ?thesis using Cons.prems v Cons.IH [of run_count "Some (v, 1)" body] by simp
  next
    case (Some p)
    obtain held len where p: "p = (held, len)" by fastforce
    show ?thesis
    proof (cases "held = v")
      case True
      then show ?thesis
        using Cons.prems v Some p Cons.IH [of run_count "Some (held, len + 1)" body] by simp
    next
      case False
      obtain body1 where "flush_run push_value body run_count held len = Inr (body1, run_count + 1)"
        by (rule flush_run_total [of run_count len push_value body held])
          (use Cons.prems Some p in simp_all)
      moreover have "checked_add_word run_count 1 = Some (run_count + 1)"
        using Cons.prems(2) by (simp add: checked_add_word_def)
      then have "unat (run_count + 1) = unat run_count + 1"
        by (auto dest: checked_add_word_eq_Some)
      ultimately show ?thesis
        using Cons.prems v Some p False Cons.IH [of "run_count + 1" "Some (v, 1)" body1] by simp
    qed
  qed
qed

lemma encode_runs_total:
  assumes "\<And>row. row < row_count \<Longrightarrow> is_ok (slot row)" and "row_count < 2 ^ 32 - 1"
  shows "\<exists>section. encode_runs row_count slot push_value = Inr section"
proof -
  from encode_runs_loop_total [of "[0..<row_count]" slot 0 None push_value "[]"] assms
  obtain body run_count current where
    loop: "encode_runs_loop slot push_value [0..<row_count] [] 0 None = Inr (body, run_count, current)"
    and small: "unat run_count + 1 < 2 ^ 32"
      "(case current of None \<Rightarrow> 0 | Some (held, len) \<Rightarrow> len) < 2 ^ 32"
    by auto
  show ?thesis
  proof (cases current)
    case None
    with loop show ?thesis by (simp add: encode_runs_def)
  next
    case (Some p)
    obtain held len where p: "p = (held, len)" by fastforce
    obtain body1 where "flush_run push_value body run_count held len = Inr (body1, run_count + 1)"
      by (rule flush_run_total [of run_count len push_value body held]) (use small Some p in simp_all)
    with loop Some p show ?thesis by (simp add: encode_runs_def)
  qed
qed

text \<open>The promise of a slot type: fixed width, and reading what was pushed.\<close>

locale slot_codec =
  fixes width :: nat
    and push_value :: "'a \<Rightarrow> bytes"
    and read_value :: "bytes \<Rightarrow> 'a devon_result"
    and admissible :: "'a \<Rightarrow> bool"
  assumes width_small: "width \<le> 16"
    and push_width: "length (push_value v) = width"
    and read_push: "admissible v \<Longrightarrow> read_value (push_value v) = Inr v"
begin

lemma length_run_bytes [simp]: "length (run_bytes push_value run) = 4 + width"
  by (simp add: run_bytes_def push_width)

lemma runs_section_entry:
  assumes "i < length runs"
  shows "read_u32 (runs_section push_value runs) (4 + i * (4 + width)) = fst (runs ! i)"
    and "subslice (runs_section push_value runs) (4 + i * (4 + width) + 4)
      (4 + i * (4 + width) + (4 + width)) = push_value (snd (runs ! i))"
proof -
  let ?body = "concat (map (run_bytes push_value) runs)"
  have body: "subslice (runs_section push_value runs) (4 + i * (4 + width) + a) (4 + i * (4 + width) + b)
      = subslice (run_bytes push_value (runs ! i)) a b" if "b \<le> 4 + width" for a b
  proof -
    have "subslice (runs_section push_value runs) (4 + i * (4 + width) + a) (4 + i * (4 + width) + b)
        = subslice ?body ((4 + width) * i + a) ((4 + width) * i + b)"
      by (simp add: runs_section_def subslice_append_right mult.commute)
    also have "\<dots> = subslice (run_bytes push_value (runs ! i)) a b"
      using assms that by (intro subslice_concat_chunk) simp_all
    finally show ?thesis .
  qed
  from body [of 4 0] show "read_u32 (runs_section push_value runs) (4 + i * (4 + width)) = fst (runs ! i)"
    by (simp add: read_u32_def run_bytes_def subslice_def)
  from body [of "4 + width" 4]
  show "subslice (runs_section push_value runs) (4 + i * (4 + width) + 4)
      (4 + i * (4 + width) + (4 + width)) = push_value (snd (runs ! i))"
    by (simp add: run_bytes_def subslice_def push_width)
qed

lemma parse_runs_loop_eq:
  assumes "\<forall>run \<in> set runs. fst run \<noteq> 0 \<and> admissible (snd run)"
    and "length (expand_runs runs) < 2 ^ 64" and "k \<le> length runs"
  shows "parse_runs_loop width read_value (runs_section push_value runs) [k..<length runs]
      (length (expand_runs (take k runs))) (take k runs) = Inr (length (expand_runs runs), runs)"
  using assms(3)
proof (induction "length runs - k" arbitrary: k)
  case 0
  then show ?case by simp
next
  case (Suc d)
  then have k: "k < length runs" by simp
  let ?run = "runs ! k"
  have run: "fst ?run \<noteq> 0" "admissible (snd ?run)" using assms(1) k by simp_all
  have split: "take (Suc k) runs = take k runs @ [?run]" by (simp add: k take_Suc_conv_app_nth)
  have single: "length (expand_runs [?run]) = unat (fst ?run)"
    by (cases ?run) simp
  with split have cover: "length (expand_runs (take (Suc k) runs))
      = length (expand_runs (take k runs)) + unat (fst ?run)"
    by simp
  have "expand_runs runs = expand_runs (take (Suc k) runs) @ expand_runs (drop (Suc k) runs)"
    by (simp flip: expand_runs_append)
  then have "length (expand_runs (take (Suc k) runs)) \<le> length (expand_runs runs)" by simp
  then have fits: "length (expand_runs (take k runs)) + unat (fst ?run) < 2 ^ 64"
    using assms(2) cover by simp
  have "[k..<length runs] = k # [Suc k..<length runs]" using k by (rule upt_conv_Cons)
  then have "parse_runs_loop width read_value (runs_section push_value runs) [k..<length runs]
      (length (expand_runs (take k runs))) (take k runs)
    = parse_runs_loop width read_value (runs_section push_value runs) [Suc k..<length runs]
      (length (expand_runs (take (Suc k) runs))) (take (Suc k) runs)"
    using run fits runs_section_entry [OF k]
    by (simp add: Let_def read_push checked_add_usize_def single split)
  also have "\<dots> = Inr (length (expand_runs runs), runs)"
    using Suc k by (intro Suc.hyps) simp_all
  finally show ?case .
qed

lemma decode_runs_section:
  assumes "runs_wf runs" and "\<forall>run \<in> set runs. admissible (snd run)"
    and "length (expand_runs runs) < 2 ^ 64"
  shows "decode_runs width read_value (runs_section push_value runs) (length (expand_runs runs))
    = Inr (expand_runs runs)"
proof -
  let ?s = "runs_section push_value runs"
  have n: "length runs < 2 ^ 32" and nz: "\<forall>run \<in> set runs. fst run \<noteq> 0 \<and> admissible (snd run)"
    using assms(1,2) by (auto simp: runs_wf_def)
  have len: "length ?s = 4 + (4 + width) * length runs"
    by (simp add: runs_section_def length_concat_chunks [where n = "4 + width"])
  have count: "unat (read_u32 ?s 0) = length runs"
    using n by (simp add: read_u32_def runs_section_def subslice_def)
  have "length runs * (4 + width) \<le> length runs * 20"
    using width_small by (intro mult_le_mono2) simp
  also have "\<dots> < 2 ^ 64" using n by simp
  finally have small: "length runs * (4 + width) < 2 ^ 64" .
  have "parse_runs width read_value ?s (length (expand_runs runs)) = Inr runs"
    using parse_runs_loop_eq [OF nz assms(3), of 0] small
    by (simp add: parse_runs_def Let_def len count checked_mul_usize_def mult.commute)
  then show ?thesis by (simp add: decode_runs_def)
qed

lemma runs_round_trip:
  assumes "encode_runs row_count slot push_value = Inr section"
    and "\<And>row v. row < row_count \<Longrightarrow> slot row = Inr v \<Longrightarrow> admissible v" and "row_count < 2 ^ 64"
  obtains vs where "decode_runs width read_value section row_count = Inr vs"
    and "length vs = row_count" and "\<And>row. row < row_count \<Longrightarrow> slot row = Inr (vs ! row)"
proof -
  from encode_runs_eq [OF assms(1)] obtain runs where
    r: "section = runs_section push_value runs" "runs_wf runs"
      "rmapM slot [0..<row_count] = Inr (expand_runs runs)" by metis
  let ?vs = "expand_runs runs"
  from r(3) have all2: "list_all2 (\<lambda>row v. slot row = Inr v) [0..<row_count] ?vs"
    by (simp add: rmapM_eq_Inr)
  then have len: "length ?vs = row_count" by (auto dest: list_all2_lengthD)
  have slot: "slot row = Inr (?vs ! row)" if "row < row_count" for row
    using list_all2_nthD [OF all2, of row] that by simp
  have "admissible v" if "v \<in> set ?vs" for v
    using that slot assms(2) len by (metis in_set_conv_nth)
  moreover have "snd run \<in> set ?vs" if "run \<in> set runs" for run
  proof -
    obtain n v where run: "run = (n, v)" by fastforce
    with that r(2) have "unat n \<noteq> 0" by (auto simp: runs_wf_def unat_eq_zero)
    with that run show ?thesis by (auto simp: expand_runs_def intro!: bexI [of _ run])
  qed
  ultimately have "\<forall>run \<in> set runs. admissible (snd run)" by blast
  from decode_runs_section [OF r(2) this] assms(3) len r(1) slot show thesis
    by (intro that [of ?vs]) simp_all
qed

end

interpretation i64_runs: slot_codec 8 u64_to_le_bytes read_i64 "\<lambda>_. True"
  by unfold_locales (simp_all add: read_i64_def)

interpretation bool_runs: slot_codec 1 bool_to_byte read_bool "\<lambda>_. True"
  by unfold_locales (simp_all add: read_bool_def bool_to_byte_def)

lemma read_digits_push:
  "i128_range d \<Longrightarrow> scale \<le> 38 \<Longrightarrow> 0 < precision \<Longrightarrow> \<bar>d\<bar> < 10 ^ precision \<Longrightarrow>
    read_digits precision scale (digits_to_le d) = Inr d"
  by (simp add: read_digits_def digits_roundtrip dec_new_def MAX_SCALE_def dec_fits_def
      dec_precision_le_iff)

interpretation digit_runs: slot_codec 16 digits_to_le "read_digits precision scale"
  "\<lambda>d. i128_range d \<and> scale \<le> 38 \<and> 0 < precision \<and> \<bar>d\<bar> < 10 ^ precision" for precision scale
  by unfold_locales (simp_all add: read_digits_push)

section \<open>The encoding keeps the column\<close>

lemma i64_slot_value:
  "column_wf ty col \<Longrightarrow> row < col_len col \<Longrightarrow> i64_slot col row = Inr x \<Longrightarrow> ty = TInt64 \<Longrightarrow>
    value_at col row \<noteq> Null \<Longrightarrow> value_at col row = VInt64 x"
  "column_wf ty col \<Longrightarrow> row < col_len col \<Longrightarrow> i64_slot col row = Inr x \<Longrightarrow> ty = TTimestamp \<Longrightarrow>
    value_at col row \<noteq> Null \<Longrightarrow> value_at col row = VTimestamp x"
  by (cases "value_at col row"; force simp: i64_slot_def column_wf_def)+

lemma bool_slot_value:
  "row < col_len col \<Longrightarrow> bool_slot col row = Inr x \<Longrightarrow> value_at col row \<noteq> Null \<Longrightarrow>
    value_at col row = VBool x"
  by (cases "value_at col row") (auto simp: bool_slot_def)

lemma decimal_slot_value:
  "decimal_slot scale col row = Inr x \<Longrightarrow> value_at col row \<noteq> Null \<Longrightarrow>
    value_at col row = VDecimal \<lparr> dec_digits = x, dec_scale = scale \<rparr>"
  by (cases "value_at col row") (auto simp: decimal_slot_def split: if_splits)

lemma decimal_slot_admissible:
  assumes "column_wf (TDecimal precision scale) col" and "row < col_len col"
    and "decimal_slot scale col row = Inr x"
  shows "i128_range x \<and> scale \<le> 38 \<and> 0 < precision \<and> \<bar>x\<bar> < 10 ^ precision"
proof (cases "value_at col row = Null")
  case True
  then show ?thesis
    using assms by (simp add: decimal_slot_def column_wf_def i128_range_def)
next
  case False
  from decimal_slot_value [OF assms(3) False] assms show ?thesis
    by (force simp: column_wf_def decimal_ok_def dec_fits_def dec_precision_le_iff)
qed

lemma rle_round_trip:
  assumes enc: "rle_encode col ty = Inr (section, params)" and wf: "column_wf ty col"
    and b: "validity_for col validity"
  shows "\<exists>col'. rle_decode params section validity (col_len col) ty = Inr col' \<and> col_eq col' col"
proof -
  have n: "col_len col < 2 ^ 64" using wf by (simp add: column_wf_def)
  have valid: "bm_is_valid validity row \<longleftrightarrow> value_at col row \<noteq> Null" if "row < col_len col" for row
    using b that by (simp add: validity_for_def)
  from enc have params: "params = no_params"
    by (auto simp: rle_encode_def rbind_eq_Inr)
  consider (int) "ty = TInt64" | (ts) "ty = TTimestamp" | (bool) "ty = TBool"
    | (dec) precision scale where "ty = TDecimal precision scale"
    using enc by (cases ty) (auto simp: rle_encode_def)
  then show ?thesis
  proof cases
    case int
    with enc have "encode_runs (col_len col) (i64_slot col) u64_to_le_bytes = Inr section"
      by (auto simp: rle_encode_def rbind_eq_Inr)
    from i64_runs.runs_round_trip [OF this _ n] obtain vs where
      "decode_runs 8 read_i64 section (col_len col) = Inr vs" "length vs = col_len col"
      "\<And>row. row < col_len col \<Longrightarrow> i64_slot col row = Inr (vs ! row)" by auto
    with int params valid i64_slot_value(1) [OF wf] show ?thesis
      by (auto simp: rle_decode_def typed_value_column_validity intro!: col_eqI)
  next
    case ts
    with enc have "encode_runs (col_len col) (i64_slot col) u64_to_le_bytes = Inr section"
      by (auto simp: rle_encode_def rbind_eq_Inr)
    from i64_runs.runs_round_trip [OF this _ n] obtain vs where
      "decode_runs 8 read_i64 section (col_len col) = Inr vs" "length vs = col_len col"
      "\<And>row. row < col_len col \<Longrightarrow> i64_slot col row = Inr (vs ! row)" by auto
    with ts params valid i64_slot_value(2) [OF wf] show ?thesis
      by (auto simp: rle_decode_def typed_value_column_validity intro!: col_eqI)
  next
    case bool
    with enc have "encode_runs (col_len col) (bool_slot col) bool_to_byte = Inr section"
      by (auto simp: rle_encode_def rbind_eq_Inr)
    from bool_runs.runs_round_trip [OF this _ n] obtain vs where
      "decode_runs 1 read_bool section (col_len col) = Inr vs" "length vs = col_len col"
      "\<And>row. row < col_len col \<Longrightarrow> bool_slot col row = Inr (vs ! row)" by auto
    with bool params valid bool_slot_value show ?thesis
      by (auto simp: rle_decode_def typed_value_column_validity intro!: col_eqI)
  next
    case (dec precision scale)
    with enc have "encode_runs (col_len col) (decimal_slot scale col) digits_to_le = Inr section"
      by (auto simp: rle_encode_def rbind_eq_Inr)
    from digit_runs.runs_round_trip [OF this _ n, of scale precision] dec
      decimal_slot_admissible [of precision scale col] wf obtain vs where
      vs: "decode_runs 16 (read_digits precision scale) section (col_len col) = Inr vs"
      "length vs = col_len col"
      "\<And>row. row < col_len col \<Longrightarrow> decimal_slot scale col row = Inr (vs ! row)" by blast
    have "VDecimal \<lparr> dec_digits = vs ! row, dec_scale = scale \<rparr> = value_at col row"
      if "row < col_len col" "value_at col row \<noteq> Null" for row
      using decimal_slot_value [OF vs(3) that(2)] that(1) by simp
    moreover have "1 \<le> precision" "precision \<le> 38" "scale \<le> precision"
      using wf dec by (simp_all add: column_wf_def)
    ultimately show ?thesis
      using dec params valid vs
      by (auto simp: rle_decode_def rle_decode_decimal_def MAX_PRECISION_def MAX_SCALE_def
          typed_value_column_validity decimal_value_def dec_new_def intro!: col_eqI)
  qed
qed

interpretation rle: values_encoding rle_encode rle_decode
  by unfold_locales (rule rle_round_trip)

lemma rle_encode_total:
  assumes "column_wf ty col" and "col_len col < 2 ^ 32 - 1"
    and "case ty of TInt64 \<Rightarrow> True | TTimestamp \<Rightarrow> True | TBool \<Rightarrow> True | TDecimal p s \<Rightarrow> True | _ \<Rightarrow> False"
  shows "\<exists>section. rle_encode col ty = Inr (section, no_params)"
proof -
  have m: "row < col_len col \<Longrightarrow> matches_type (value_at col row) ty" for row
    using assms(1) by (simp add: column_wf_def)
  have ints: "is_ok (i64_slot col row)" if "row < col_len col" "ty = TInt64 \<or> ty = TTimestamp" for row
    using m [OF that(1)] that(2) by (cases "value_at col row") (auto simp: i64_slot_def)
  have bools: "is_ok (bool_slot col row)" if "row < col_len col" "ty = TBool" for row
    using m [OF that(1)] that(2) by (cases "value_at col row") (auto simp: bool_slot_def)
  have decs: "is_ok (decimal_slot s col row)" if "row < col_len col" "ty = TDecimal p s" for row p s
    using m [OF that(1)] that(2) by (cases "value_at col row") (auto simp: decimal_slot_def dec_fits_def)
  have n: "col_len col < 2 ^ 32 - 1" by (rule assms(2))
  show ?thesis
    using assms(3) encode_runs_total [OF ints n] encode_runs_total [OF bools n]
      encode_runs_total [OF decs n]
    by (cases ty) (auto simp: rle_encode_def rbind_eq_Inr)
qed

text \<open>
  Run-length encoding loses nothing: for every admissible type and every list of fewer than
  \<open>2\<^sup>3\<^sup>2 - 1\<close> well-typed values, encoding succeeds, and decoding the section under the payload's
  validity bitmap yields exactly those values, nulls included.
\<close>

lemma rle_values_roundtrip:
  assumes "case ty of TInt64 \<Rightarrow> True | TTimestamp \<Rightarrow> True | TBool \<Rightarrow> True | TDecimal p s \<Rightarrow> True | _ \<Rightarrow> False"
    and "type_wf ty" and "\<forall>v \<in> set vs. matches_type v ty \<and> value_wf v" and "length vs < 2 ^ 32 - 1"
    and "\<forall>row < length vs. bm_is_valid validity row \<longleftrightarrow> vs ! row \<noteq> Null"
  shows "\<exists>section col. rle_encode (from_values ty vs) ty = Inr (section, no_params) \<and>
    rle_decode no_params section validity (length vs) ty = Inr col \<and>
    map (value_at col) [0..<length vs] = vs"
proof -
  have "column_wf ty (from_values ty vs)"
    using assms by (simp add: column_wf_def from_values_rows)
  then obtain sec where enc: "rle_encode (from_values ty vs) ty = Inr (sec, no_params)"
    using rle_encode_total assms(1,4) by (metis from_values_rows(1))
  from rle.values_round_trip [OF this assms(2) _ assms(3,5)] assms(4) enc show ?thesis
    by auto
qed

end
