(* ===== verification/EncBitpackFor.thy ===== *)
theory EncBitpackFor
  imports EncodingBase
begin

text \<open>
  Frame-of-reference bit packing (\<^verbatim>\<open>devondb-storage/src/node_group/encodings/bitpack_for.rs\<close>):
  the minimum as the reference, the narrowest width that holds every delta, and blocks of 1024
  deltas in the transposed order of the FastLanes layout.
\<close>

definition BLOCK_ROWS :: nat where "BLOCK_ROWS = 1024"
definition WORDS_PER_PLANE :: nat where "WORDS_PER_PLANE = 16"
definition LANES_PER_WORD :: nat where "LANES_PER_WORD = 64"
definition BYTES_PER_PLANE :: nat where "BYTES_PER_PLANE = WORDS_PER_PLANE * 8"
definition BITPACK_HEADER_LEN :: nat where "BITPACK_HEADER_LEN = 12"
definition MAX_BIT_WIDTH :: nat where "MAX_BIT_WIDTH = 64"

lemmas bitpack_consts = BLOCK_ROWS_def WORDS_PER_PLANE_def LANES_PER_WORD_def BYTES_PER_PLANE_def
  BITPACK_HEADER_LEN_def MAX_BIT_WIDTH_def

definition div_ceil :: "nat \<Rightarrow> nat \<Rightarrow> nat" where
  "div_ceil n d = (n + (d - 1)) div d"

section \<open>Encoding\<close>

fun bp_is_valid :: "bitmap option \<Rightarrow> nat \<Rightarrow> bool" where
  "bp_is_valid None row = True"
| "bp_is_valid (Some b) row = bm_is_valid b row"

fun typed_slots :: "column \<Rightarrow> logical_type \<Rightarrow> (i64 list \<times> bitmap option) devon_result" where
  "typed_slots (ColInt64 vs validity) TInt64 = Inr (vs, validity)"
| "typed_slots (ColTimestamp vs validity) TTimestamp = Inr (vs, validity)"
| "typed_slots col ty =
    Inl (InvalidArgument ''encoding bitpack_for column storage does not match {}'')"

definition reference_of :: "i64 list \<Rightarrow> bitmap option \<Rightarrow> i64" where
  "reference_of vs validity =
    (case fold (\<lambda>(row, v) reference.
                  if \<not> bp_is_valid validity row then reference
                  else Some (case reference of
                         None \<Rightarrow> v
                       | Some minimum \<Rightarrow> if sint minimum \<le> sint v then minimum else v))
            (enumerate 0 vs) None of
       None \<Rightarrow> 0
     | Some reference \<Rightarrow> reference)"

definition delta_of :: "i64 \<Rightarrow> i64 \<Rightarrow> u64" where
  "delta_of v reference = word_of_int (sint v - sint reference)"

definition leading_zeros :: "u64 \<Rightarrow> nat" where
  "leading_zeros w = length (takeWhile (\<lambda>i. \<not> bit w i) (rev [0..<64]))"

definition bit_width_of :: "i64 list \<Rightarrow> bitmap option \<Rightarrow> i64 \<Rightarrow> nat" where
  "bit_width_of vs validity reference =
    (let widest = fold (\<lambda>(row, v) widest.
           if bp_is_valid validity row then max widest (delta_of v reference) else widest)
         (enumerate 0 vs) 0
     in MAX_BIT_WIDTH - leading_zeros widest)"

definition fill_deltas :: "i64 list \<Rightarrow> bitmap option \<Rightarrow> i64 \<Rightarrow> nat \<Rightarrow> u64 list" where
  "fill_deltas vs validity reference block =
    map (\<lambda>slot. let row = block * BLOCK_ROWS + slot
                in if row < length vs \<and> bp_is_valid validity row
                   then delta_of (vs ! row) reference else 0)
      [0..<BLOCK_ROWS]"

definition pack_word :: "u64 list \<Rightarrow> nat \<Rightarrow> nat \<Rightarrow> u64" where
  "pack_word deltas plane word =
    fold (\<lambda>lane packed. packed OR push_bit lane (drop_bit plane (deltas ! (16 * lane + word)) AND 1))
      [0..<LANES_PER_WORD] 0"

definition pack_block :: "u64 list \<Rightarrow> nat \<Rightarrow> bytes" where
  "pack_block deltas bit_width =
    concat (map (\<lambda>plane.
      concat (map (\<lambda>word. u64_to_le_bytes (pack_word deltas plane word)) [0..<WORDS_PER_PLANE]))
      [0..<bit_width])"

definition bitpack_encode :: enc_fun where
  "bitpack_encode col ty =
    rbind (typed_slots col ty) (\<lambda>(vs, validity).
    let reference = reference_of vs validity;
        bit_width = bit_width_of vs validity reference;
        block_count = div_ceil (length vs) BLOCK_ROWS;
        header = u64_to_le_bytes reference @ [of_nat bit_width] @ [0, 0, 0];
        blocks = concat (map (\<lambda>block. pack_block (fill_deltas vs validity reference block) bit_width)
                   [0..<block_count])
    in Inr (header @ blocks, (of_nat bit_width, 0, 0)))"

section \<open>Decoding\<close>

definition bitpack_header :: "enc_params \<Rightarrow> bytes \<Rightarrow> (i64 \<times> nat) devon_result" where
  "bitpack_header params section =
    (case params of (p0, p1, p2) \<Rightarrow>
     if p1 \<noteq> 0 \<or> p2 \<noteq> 0
     then Inl (Corrupt ''encoding bitpack_for parameters p1/p2 are not zero'')
     else if length section < BITPACK_HEADER_LEN
     then Inl (Corrupt ''bitpack_for header is {} bytes, expected at least {}'')
     else
       (let reference = from_le (subslice section 0 8) in
        if subslice section 9 BITPACK_HEADER_LEN \<noteq> [0, 0, 0]
        then Inl (Corrupt ''bitpack_for reserved header bytes are not zero'')
        else
          (let bit_width = section ! 8 in
           if unat bit_width > MAX_BIT_WIDTH
           then Inl (Corrupt ''bitpack_for bit width {} exceeds {}'')
           else if p0 \<noteq> bit_width
           then Inl (Corrupt ''bitpack_for directory parameter bit width {} disagrees with the section bit width {}'')
           else Inr (reference, unat bit_width))))"

definition section_len :: "nat \<Rightarrow> nat \<Rightarrow> nat devon_result" where
  "section_len row_count bit_width =
    ok_or (Corrupt ''bitpack_for section length overflows'')
      (case checked_mul_usize (div_ceil row_count BLOCK_ROWS) bit_width of
         None \<Rightarrow> None
       | Some planes \<Rightarrow>
           (case checked_mul_usize planes BYTES_PER_PLANE of
              None \<Rightarrow> None
            | Some blocks \<Rightarrow> checked_add_usize blocks BITPACK_HEADER_LEN))"

definition unpack_lane :: "nat \<Rightarrow> nat \<Rightarrow> u64 \<Rightarrow> nat \<Rightarrow> u64 list \<Rightarrow> u64 list" where
  "unpack_lane plane word packed lane deltas =
    deltas[16 * lane + word :=
      deltas ! (16 * lane + word) OR push_bit plane (drop_bit lane packed AND 1)]"

definition unpack_word :: "bytes \<Rightarrow> nat \<Rightarrow> nat \<Rightarrow> u64 list \<Rightarrow> u64 list" where
  "unpack_word section plane word deltas =
    (let offset = (plane * WORDS_PER_PLANE + word) * 8;
         packed = from_le (subslice section offset (offset + 8))
     in fold (unpack_lane plane word packed) [0..<LANES_PER_WORD] deltas)"

definition unpack_block :: "bytes \<Rightarrow> nat \<Rightarrow> u64 list" where
  "unpack_block section bit_width =
    fold (\<lambda>plane. fold (unpack_word section plane) [0..<WORDS_PER_PLANE]) [0..<bit_width]
      (replicate BLOCK_ROWS 0)"

definition apply_slot ::
    "i64 \<Rightarrow> bitmap \<Rightarrow> nat \<Rightarrow> nat \<Rightarrow> nat \<times> u64 \<Rightarrow> i64 list \<Rightarrow> i64 list devon_result" where
  "apply_slot reference validity row_count block slot_delta vs =
    (let (slot, delta) = slot_delta;
         row = block * BLOCK_ROWS + slot
     in if row \<ge> row_count \<and> delta \<noteq> 0
        then Inl (Corrupt ''bitpack_for padding slot {} of block {} is not zero'')
        else if row < row_count \<and> \<not> bm_is_valid validity row \<and> delta \<noteq> 0
        then Inl (Corrupt ''bitpack_for NULL slot {} holds nonzero delta {}'')
        else if row < row_count \<and> bm_is_valid validity row
        then
          (let v = sint reference + uint delta
           in if - (2 ^ 63) \<le> v \<and> v < 2 ^ 63
              then Inr (vs[row := word_of_int v])
              else Inl (Corrupt ''bitpack_for reference {} + delta {} overflows i64 at row {}''))
        else Inr vs)"

definition apply_deltas ::
    "i64 list \<Rightarrow> u64 list \<Rightarrow> i64 \<Rightarrow> bitmap \<Rightarrow> nat \<Rightarrow> nat \<Rightarrow> i64 list devon_result" where
  "apply_deltas vs deltas reference validity row_count block =
    rfold (apply_slot reference validity row_count block) (enumerate 0 deltas) vs"

definition decode_blocks ::
    "bytes \<Rightarrow> i64 \<Rightarrow> nat \<Rightarrow> bitmap \<Rightarrow> nat \<Rightarrow> i64 list devon_result" where
  "decode_blocks section reference bit_width validity row_count =
    (let block_bytes = bit_width * BYTES_PER_PLANE
     in rfold (\<lambda>block vs.
          let start = BITPACK_HEADER_LEN + block * block_bytes;
              deltas = unpack_block (subslice section start (start + block_bytes)) bit_width
          in apply_deltas vs deltas reference validity row_count block)
        [0..<div_ceil row_count BLOCK_ROWS] (replicate row_count 0))"

definition bitpack_decode :: dec_fun where
  "bitpack_decode params section validity row_count ty =
    (if \<not> (ty = TInt64 \<or> ty = TTimestamp)
     then Inl (Corrupt ''encoding bitpack_for is not admissible for {}'')
     else
       rbind (bitpack_header params section) (\<lambda>(reference, bit_width).
       rbind (section_len row_count bit_width) (\<lambda>expected_len.
       if length section \<noteq> expected_len
       then Inl (Corrupt ''bitpack_for section is {} bytes, expected exactly {} for {} rows at bit width {}'')
       else if list_all (\<lambda>row. \<not> bm_is_valid validity row) [0..<row_count] \<and> reference \<noteq> 0
       then Inl (Corrupt ''bitpack_for reference is {} but every row is NULL'')
       else
         rbind (decode_blocks section reference bit_width validity row_count) (\<lambda>vs.
         let validity = column_validity validity row_count
         in Inr (if ty = TInt64 then ColInt64 vs validity else ColTimestamp vs validity)))))"

section \<open>Packing and unpacking a block\<close>

lemma bit_fold_or:
  "bit (fold (\<lambda>x w. w OR f x) xs w) k \<longleftrightarrow> bit w k \<or> (\<exists>x \<in> set xs. bit (f x) k)"
  for w :: "'a::len word"
  by (induction xs arbitrary: w) (auto simp: bit_or_iff)

lemma bit_and_one: "bit (drop_bit n w AND 1) k \<longleftrightarrow> k = 0 \<and> bit w n" for w :: "'a::len word"
  by (auto simp: bit_and_iff bit_drop_bit_eq bit_1_iff)

lemma bit_push_one:
  "bit (push_bit m (drop_bit n w AND 1)) k \<longleftrightarrow> k = m \<and> k < LENGTH('a) \<and> bit w n"
  for w :: "'a::len word"
  by (auto simp: bit_push_bit_iff bit_and_one simp del: push_bit_and)

lemma bit_pack_word:
  "bit (pack_word deltas plane word) lane \<longleftrightarrow> lane < 64 \<and> bit (deltas ! (16 * lane + word)) plane"
  by (auto simp: pack_word_def bit_fold_or bit_push_one bitpack_consts simp del: push_bit_and)

text \<open>A loop each of whose turns sets some bits of some slots sets the union of them.\<close>

lemma fold_bits:
  assumes "\<And>x ds s k. x \<in> set xs \<Longrightarrow> length ds = n \<Longrightarrow> s < n \<Longrightarrow>
      bit (f x ds ! s :: 'a::len word) k \<longleftrightarrow> bit (ds ! s) k \<or> P x s k"
    and "\<And>x ds. x \<in> set xs \<Longrightarrow> length ds = n \<Longrightarrow> length (f x ds) = n"
    and "length ds = n" and "s < n"
  shows "bit (fold f xs ds ! s) k \<longleftrightarrow> bit (ds ! s) k \<or> (\<exists>x \<in> set xs. P x s k)"
    and "length (fold f xs ds) = n"
  using assms
proof (induction xs arbitrary: ds)
  case (Cons x xs)
  {
    case 1
    then show ?case using Cons.IH(1) [of "f x ds"] by auto
  next
    case 2
    then show ?case using Cons.IH(2) [of "f x ds"] by auto
  }
qed simp_all

lemma pack_block_flat:
  "pack_block deltas w
    = concat (map (\<lambda>i. u64_to_le_bytes (pack_word deltas (i div 16) (i mod 16))) [0..<16 * w])"
proof (induction w)
  case 0
  then show ?case by (simp add: pack_block_def)
next
  case (Suc w)
  have "[0..<16 * Suc w] = [0..<16 * w] @ map (\<lambda>i. 16 * w + i) [0..<16]"
  proof -
    have "[0..<16 * Suc w] = [0..<16 * w] @ [16 * w..<16 * w + 16]"
      using upt_add_eq_append [of 0 "16 * w" 16] by (simp add: add.commute)
    also have "[16 * w..<16 * w + 16] = map (\<lambda>i. 16 * w + i) [0..<16]"
      by (simp add: map_add_upt add.commute)
    finally show ?thesis .
  qed
  moreover have "map (\<lambda>i. u64_to_le_bytes (pack_word deltas ((16 * w + i) div 16) ((16 * w + i) mod 16))) [0..<16]
      = map (\<lambda>word. u64_to_le_bytes (pack_word deltas w word)) [0..<16]"
    by (rule map_cong) simp_all
  moreover have "pack_block deltas (Suc w) = pack_block deltas w
      @ concat (map (\<lambda>word. u64_to_le_bytes (pack_word deltas w word)) [0..<16])"
    by (simp add: pack_block_def WORDS_PER_PLANE_def)
  ultimately show ?case
    unfolding Suc by (simp only: map_append concat_append map_map comp_def)
qed

lemma length_pack_block [simp]: "length (pack_block deltas w) = 128 * w"
  unfolding pack_block_flat by (subst length_concat_chunks [where n = 8]) simp_all

lemma pack_block_word:
  assumes "plane < w" and "word < 16"
  shows "from_le (subslice (pack_block deltas w) ((plane * 16 + word) * 8) ((plane * 16 + word) * 8 + 8))
    = pack_word deltas plane word"
proof -
  let ?i = "plane * 16 + word"
  have i: "?i < 16 * w" using assms by linarith
  have "subslice (pack_block deltas w) (8 * ?i + 0) (8 * ?i + 8)
      = subslice (u64_to_le_bytes (pack_word deltas (?i div 16) (?i mod 16))) 0 8"
    unfolding pack_block_flat
    by (subst subslice_concat_chunk [where n = 8]) (use i in simp_all)
  then show ?thesis using assms by (simp add: mult.commute subslice_def)
qed

lemma unpack_lanes:
  assumes "word < 16" and "length ds = 1024" and "s < 1024"
  shows "bit (fold (unpack_lane plane word packed) [0..<64] ds ! s) k \<longleftrightarrow>
      bit (ds ! s) k \<or> (s mod 16 = word \<and> k = plane \<and> k < 64 \<and> bit packed (s div 16))"
    and "length (fold (unpack_lane plane word packed) [0..<64] ds) = 1024"
proof -
  have one: "bit (unpack_lane plane word packed lane ds ! s) k \<longleftrightarrow> bit (ds ! s) k \<or>
      (16 * lane + word = s \<and> k = plane \<and> k < 64 \<and> bit packed lane)"
    if "length ds = 1024" "s < 1024" for lane ds s k
    using that by (cases "16 * lane + word = s")
      (auto simp: unpack_lane_def bit_or_iff bit_push_one simp del: push_bit_and)
  have len: "length (unpack_lane plane word packed lane ds) = 1024" if "length ds = 1024" for lane ds
    using that by (simp add: unpack_lane_def)
  have pos: "(\<exists>lane \<in> set [0..<64]. 16 * lane + word = s \<and> k = plane \<and> k < 64 \<and> bit packed lane)
      \<longleftrightarrow> s mod 16 = word \<and> k = plane \<and> k < 64 \<and> bit packed (s div 16)"
  proof -
    have "s = 16 * (s div 16) + s mod 16" by simp
    moreover have "s div 16 < 64" using assms(3) by (simp add: div_less_iff_less_mult)
    moreover have "(16 * lane + word) div 16 = lane" "(16 * lane + word) mod 16 = word" for lane
      using assms(1) by simp_all
    ultimately show ?thesis by (metis atLeastLessThan_iff le0 set_upt)
  qed
  show "bit (fold (unpack_lane plane word packed) [0..<64] ds ! s) k \<longleftrightarrow>
      bit (ds ! s) k \<or> (s mod 16 = word \<and> k = plane \<and> k < 64 \<and> bit packed (s div 16))"
    by (subst fold_bits(1) [where n = 1024, OF one len assms(2,3)]) (simp_all only: pos)
  show "length (fold (unpack_lane plane word packed) [0..<64] ds) = 1024"
    by (rule fold_bits(2) [where n = 1024, OF one len assms(2,3)])
qed

lemma unpack_words:
  assumes "plane < w" and "length ds = 1024" and "s < 1024"
  shows "bit (fold (unpack_word (pack_block deltas w) plane) [0..<16] ds ! s) k \<longleftrightarrow>
      bit (ds ! s) k \<or> (k = plane \<and> k < 64 \<and> bit (deltas ! s) k)"
    and "length (fold (unpack_word (pack_block deltas w) plane) [0..<16] ds) = 1024"
proof -
  let ?step = "unpack_word (pack_block deltas w) plane"
  have eq: "?step word ds
      = fold (unpack_lane plane word (pack_word deltas plane word)) [0..<64] ds"
    if "word < 16" for word ds
    using pack_block_word [OF assms(1) that] by (simp add: unpack_word_def Let_def bitpack_consts)
  have slot: "16 * (s div 16) + s mod 16 = s" for s :: nat by simp
  have one: "bit (?step word ds ! s) k \<longleftrightarrow> bit (ds ! s) k \<or>
      (s mod 16 = word \<and> k = plane \<and> k < 64 \<and> bit (deltas ! s) k)"
    if "word \<in> set [0..<16]" "length ds = 1024" "s < 1024" for word ds s k
    using that unpack_lanes(1) [of word ds s plane "pack_word deltas plane word" k] slot [of s]
    by (auto simp: eq bit_pack_word div_less_iff_less_mult)
  have len: "length (?step word ds) = 1024" if "word \<in> set [0..<16]" "length ds = 1024" for word ds
    using that unpack_lanes(2) [of word ds 0 plane "pack_word deltas plane word"] by (simp add: eq)
  have "s mod 16 \<in> set [0..<16]" by simp
  then have ex: "(\<exists>word \<in> set [0..<16]. s mod 16 = word \<and> k = plane \<and> k < 64 \<and> bit (deltas ! s) k)
      \<longleftrightarrow> k = plane \<and> k < 64 \<and> bit (deltas ! s) k" by blast
  show "bit (fold ?step [0..<16] ds ! s) k \<longleftrightarrow>
      bit (ds ! s) k \<or> (k = plane \<and> k < 64 \<and> bit (deltas ! s) k)"
    by (subst fold_bits(1) [where n = 1024, OF one len assms(2,3)]) (simp_all only: ex)
  show "length (fold ?step [0..<16] ds) = 1024"
    by (rule fold_bits(2) [where n = 1024, OF one len assms(2,3)])
qed

lemma unpack_pack_block:
  assumes "length deltas = 1024" and "\<And>s. s < 1024 \<Longrightarrow> drop_bit w (deltas ! s) = 0"
  shows "unpack_block (pack_block deltas w) w = deltas"
proof (rule nth_equalityI)
  let ?step = "\<lambda>plane. fold (unpack_word (pack_block deltas w) plane) [0..<16]"
  have one: "bit (?step plane ds ! s) k \<longleftrightarrow> bit (ds ! s) k \<or> (k = plane \<and> k < 64 \<and> bit (deltas ! s) k)"
    if "plane \<in> set [0..<w]" "length ds = 1024" "s < 1024" for plane ds s k
    using that by (intro unpack_words(1)) simp_all
  have len: "length (?step plane ds) = 1024" if "plane \<in> set [0..<w]" "length ds = 1024" for plane ds
    using that by (intro unpack_words(2) [of plane w ds 0]) simp_all
  have un: "unpack_block (pack_block deltas w) w = fold ?step [0..<w] (replicate 1024 0)"
    by (simp add: unpack_block_def bitpack_consts)
  show l: "length (unpack_block (pack_block deltas w) w) = length deltas"
    unfolding un assms(1)
    by (rule fold_bits(2) [where n = 1024 and s = 0 and xs = "[0..<w]" and f = ?step, OF one len])
      simp_all
  fix s assume "s < length (unpack_block (pack_block deltas w) w)"
  then have s: "s < 1024" using l assms(1) by simp
  show "unpack_block (pack_block deltas w) w ! s = deltas ! s"
  proof (rule bit_word_eqI)
    fix k assume "k < LENGTH(64)"
    have "bit (unpack_block (pack_block deltas w) w ! s) k \<longleftrightarrow> k < w \<and> k < 64 \<and> bit (deltas ! s) k"
      unfolding un using s by (subst fold_bits(1) [where n = 1024, OF one len]) auto
    moreover have "k < w" if "bit (deltas ! s) k"
    proof (rule ccontr)
      assume "\<not> k < w"
      then have "bit (drop_bit w (deltas ! s)) (k - w)"
        using that by (simp add: bit_drop_bit_eq)
      with assms(2) [OF s] show False by simp
    qed
    ultimately show "bit (unpack_block (pack_block deltas w) w ! s) k = bit (deltas ! s) k"
      using \<open>k < LENGTH(64)\<close> by auto
  qed
qed

section \<open>The frame of reference\<close>

lemma fold_reference:
  "fold (\<lambda>(row, v) reference.
      if \<not> valid row then reference
      else Some (case reference of None \<Rightarrow> v
             | Some minimum \<Rightarrow> if sint minimum \<le> sint v then minimum else v)) rvs (Some m) = Some r \<Longrightarrow>
    sint r \<le> sint m \<and> (\<forall>(row, v) \<in> set rvs. valid row \<longrightarrow> sint r \<le> sint v)"
  for rvs :: "(nat \<times> i64) list"
proof (induction rvs arbitrary: m)
  case (Cons rv rvs)
  obtain row v where rv: "rv = (row, v)" by fastforce
  show ?case
  proof (cases "valid row")
    case True
    let ?m = "if sint m \<le> sint v then m else v"
    have "sint r \<le> sint ?m \<and> (\<forall>(row, v) \<in> set rvs. valid row \<longrightarrow> sint r \<le> sint v)"
      using Cons.prems True rv by (intro Cons.IH) simp
    then show ?thesis using rv True by (auto split: if_splits)
  next
    case False
    then show ?thesis using Cons rv by auto
  qed
qed simp

lemma fold_reference_None:
  "fold (\<lambda>(row, v) reference.
      if \<not> valid row then reference
      else Some (case reference of None \<Rightarrow> v
             | Some minimum \<Rightarrow> if sint minimum \<le> sint v then minimum else v)) rvs None = res \<Longrightarrow>
    case res of
      None \<Rightarrow> \<forall>(row, v) \<in> set rvs. \<not> valid row
    | Some r \<Rightarrow> \<forall>(row, v) \<in> set rvs. valid row \<longrightarrow> sint r \<le> sint v"
  for rvs :: "(nat \<times> i64) list"
proof (induction rvs)
  case (Cons rv rvs)
  obtain row v where rv: "rv = (row, v)" by fastforce
  show ?case
  proof (cases "valid row")
    case True
    let ?f = "fold (\<lambda>(row, v) reference.
      if \<not> valid row then reference
      else Some (case reference of None \<Rightarrow> v
             | Some minimum \<Rightarrow> if sint minimum \<le> sint v then minimum else v)) rvs"
    have some: "\<exists>r. ?f (Some m) = Some r" for m
      by (induction rvs arbitrary: m) auto
    from Cons.prems True rv have "res = ?f (Some v)" by simp
    with some [of v] obtain r where r: "res = Some r" "?f (Some v) = Some r" by auto
    from fold_reference [OF r(2)] r(1) rv show ?thesis by auto
  next
    case False
    then show ?thesis using Cons rv by (auto split: option.splits)
  qed
qed simp

lemma reference_of_le:
  "row < length vs \<Longrightarrow> bp_is_valid validity row \<Longrightarrow> sint (reference_of vs validity) \<le> sint (vs ! row)"
  using fold_reference_None [of "bp_is_valid validity" "enumerate 0 vs", OF refl]
  by (force simp: reference_of_def in_set_enumerate_eq split: option.splits)

lemma reference_of_all_null:
  "\<forall>row < length vs. \<not> bp_is_valid validity row \<Longrightarrow> reference_of vs validity = 0"
proof -
  assume null: "\<forall>row < length vs. \<not> bp_is_valid validity row"
  have "fold (\<lambda>(row, v) reference.
      if \<not> bp_is_valid validity row then reference
      else Some (case reference of None \<Rightarrow> v
             | Some minimum \<Rightarrow> if sint minimum \<le> sint v then minimum else v)) rvs None = None"
    if "\<forall>(row, v) \<in> set rvs. \<not> bp_is_valid validity row" for rvs :: "(nat \<times> i64) list"
    using that by (induction rvs) auto
  moreover have "\<forall>(row, v) \<in> set (enumerate 0 vs). \<not> bp_is_valid validity row"
    using null by (auto simp: in_set_enumerate_eq)
  ultimately show ?thesis by (simp add: reference_of_def)
qed

lemma uint_delta_of:
  assumes "sint r \<le> sint v"
  shows "uint (delta_of v r) = sint v - sint r"
proof -
  have "sint v < 2 ^ 63" "- (2 ^ 63) \<le> sint r"
    using sint_less [of v] sint_ge [of r] by simp_all
  with assms show ?thesis
    unfolding delta_of_def unsigned_of_int by (simp add: take_bit_int_eq_self)
qed

lemma drop_bit_leading_zeros: "drop_bit (64 - leading_zeros w) w = 0"
proof (rule bit_word_eqI)
  fix k
  let ?xs = "rev [0..<64] :: nat list"
  have "\<not> bit w (64 - leading_zeros w + k)"
  proof
    let ?i = "64 - leading_zeros w + k"
    assume b: "bit w ?i"
    then have i: "?i < 64" by (auto dest: bit_imp_le_length)
    then have j: "63 - ?i < leading_zeros w" by linarith
    then have "takeWhile (\<lambda>i. \<not> bit w i) ?xs ! (63 - ?i) = ?xs ! (63 - ?i)"
      unfolding leading_zeros_def by (rule takeWhile_nth)
    also have "\<dots> = ?i" using i by (simp add: rev_nth)
    finally have "?i \<in> set (takeWhile (\<lambda>i. \<not> bit w i) ?xs)"
      using j unfolding leading_zeros_def by (metis nth_mem)
    then have "\<not> bit w ?i" by (auto dest: set_takeWhileD)
    with b show False by contradiction
  qed
  then show "bit (drop_bit (64 - leading_zeros w) w) k = bit (0 :: u64) k"
    by (simp add: bit_drop_bit_eq)
qed

lemma drop_bit_eq_0_mono:
  fixes v w :: u64
  assumes "v \<le> w" and "drop_bit n w = 0"
  shows "drop_bit n v = 0"
proof -
  have div: "unat (drop_bit n x) = unat x div 2 ^ n" for x :: u64
    unfolding unsigned_drop_bit_eq
    using unsigned_less [of x, where ?'a = nat] by (simp add: drop_bit_eq_div take_bit_nat_eq_self)
  have "unat v div 2 ^ n \<le> unat w div 2 ^ n"
    using assms(1) by (intro div_le_mono) (simp add: word_le_nat_alt)
  also have "\<dots> = 0" using assms(2) div [of w] by simp
  finally show ?thesis using div [of v] by (simp add: unat_eq_zero)
qed

lemma fold_max_ge:
  "m \<le> fold (\<lambda>(row, v) widest. if valid row then max widest (f v) else widest) rvs m \<and>
    (\<forall>(row, v) \<in> set rvs. valid row \<longrightarrow>
      f v \<le> fold (\<lambda>(row, v) widest. if valid row then max widest (f v) else widest) rvs m)"
  for m :: u64
proof (induction rvs arbitrary: m)
  case (Cons rv rvs)
  obtain row v where rv: "rv = (row, v)" by fastforce
  show ?case
    using Cons.IH [of m] Cons.IH [of "max m (f v)"] by (auto simp: rv)
qed simp

lemma bit_width_of_le: "bit_width_of vs validity reference \<le> 64"
  by (simp add: bit_width_of_def Let_def MAX_BIT_WIDTH_def)

lemma drop_bit_width:
  assumes "row < length vs" and "bp_is_valid validity row"
  shows "drop_bit (bit_width_of vs validity reference) (delta_of (vs ! row) reference) = 0"
proof -
  let ?widest = "fold (\<lambda>(row, v) widest.
      if bp_is_valid validity row then max widest (delta_of v reference) else widest)
    (enumerate 0 vs) 0"
  have "(row, vs ! row) \<in> set (enumerate 0 vs)"
    using assms(1) by (simp add: in_set_enumerate_eq)
  then have "delta_of (vs ! row) reference \<le> ?widest"
    using fold_max_ge [of 0 "bp_is_valid validity" "\<lambda>v. delta_of v reference" "enumerate 0 vs"]
      assms(2) by blast
  then show ?thesis
    unfolding bit_width_of_def Let_def MAX_BIT_WIDTH_def
    by (rule drop_bit_eq_0_mono) (rule drop_bit_leading_zeros)
qed

lemma unpack_filled:
  "unpack_block (pack_block (fill_deltas vs validity r block) (bit_width_of vs validity r))
      (bit_width_of vs validity r) = fill_deltas vs validity r block"
  by (rule unpack_pack_block)
    (auto simp: fill_deltas_def Let_def BLOCK_ROWS_def drop_bit_width)

section \<open>Decoding what was encoded\<close>

text \<open>The values after the first \<open>m\<close> rows have been materialized.\<close>

definition partial_values :: "(nat \<Rightarrow> bool) \<Rightarrow> i64 list \<Rightarrow> nat \<Rightarrow> i64 list" where
  "partial_values valid vs m = map (\<lambda>row. if row < m \<and> valid row then vs ! row else 0) [0..<length vs]"

lemma apply_slot_partial:
  assumes "\<And>row. row < length vs \<Longrightarrow> bm_is_valid b row \<longleftrightarrow> valid row"
    and "\<And>row. row < length vs \<Longrightarrow> valid row \<Longrightarrow> sint r \<le> sint (vs ! row)"
    and "row = block * 1024 + slot"
    and "delta = (if row < length vs \<and> valid row then delta_of (vs ! row) r else 0)"
  shows "apply_slot r b (length vs) block (slot, delta) (partial_values valid vs row)
    = Inr (partial_values valid vs (Suc row))"
proof (cases "row < length vs \<and> valid row")
  case True
  then have "sint r + uint delta = sint (vs ! row)"
    using assms(2,4) uint_delta_of [of r "vs ! row"] by simp
  moreover have "- (2 ^ 63) \<le> sint (vs ! row)" "sint (vs ! row) < 2 ^ 63"
    using sint_less [of "vs ! row"] sint_ge [of "vs ! row"] by simp_all
  moreover have "(partial_values valid vs row)[row := vs ! row] = partial_values valid vs (Suc row)"
    by (rule nth_equalityI) (use True in \<open>auto simp: partial_values_def nth_list_update less_Suc_eq\<close>)
  ultimately show ?thesis
    using True assms(1,3) by (simp add: apply_slot_def BLOCK_ROWS_def Let_def)
next
  case False
  then have "partial_values valid vs (Suc row) = partial_values valid vs row"
    by (auto simp: partial_values_def less_Suc_eq)
  with False show ?thesis
    using assms(1,3,4) by (auto simp: apply_slot_def BLOCK_ROWS_def Let_def)
qed

lemma apply_deltas_partial:
  assumes "\<And>row. row < length vs \<Longrightarrow> bm_is_valid b row \<longleftrightarrow> bp_is_valid validity row"
    and "\<And>row. row < length vs \<Longrightarrow> bp_is_valid validity row \<Longrightarrow> sint r \<le> sint (vs ! row)"
  shows "apply_deltas (partial_values (bp_is_valid validity) vs (block * 1024))
      (fill_deltas vs validity r block) r b (length vs) block
    = Inr (partial_values (bp_is_valid validity) vs (Suc block * 1024))"
proof -
  let ?deltas = "fill_deltas vs validity r block"
  have len: "length ?deltas = 1024" by (simp add: fill_deltas_def BLOCK_ROWS_def)
  have nth: "?deltas ! slot = (if block * 1024 + slot < length vs \<and> bp_is_valid validity (block * 1024 + slot)
      then delta_of (vs ! (block * 1024 + slot)) r else 0)" if "slot < 1024" for slot
    using that by (simp add: fill_deltas_def BLOCK_ROWS_def Let_def)
  have "rfold (apply_slot r b (length vs) block) (enumerate 0 (take k ?deltas))
      (partial_values (bp_is_valid validity) vs (block * 1024))
    = Inr (partial_values (bp_is_valid validity) vs (block * 1024 + k))" if "k \<le> 1024" for k
    using that
  proof (induction k)
    case 0
    then show ?case by simp
  next
    case (Suc k)
    then have "enumerate 0 (take (Suc k) ?deltas) = enumerate 0 (take k ?deltas) @ [(k, ?deltas ! k)]"
      using len by (simp add: take_Suc_conv_app_nth enumerate_append_eq)
    moreover have "apply_slot r b (length vs) block (k, ?deltas ! k)
        (partial_values (bp_is_valid validity) vs (block * 1024 + k))
      = Inr (partial_values (bp_is_valid validity) vs (Suc (block * 1024 + k)))"
      by (rule apply_slot_partial [OF assms refl]) (use nth Suc.prems in simp_all)
    ultimately show ?case using Suc by (simp add: rfold_append)
  qed
  from this [of 1024] len show ?thesis
    by (simp add: apply_deltas_def add.commute)
qed

lemma decode_blocks_encoded:
  assumes valid: "\<And>row. row < length vs \<Longrightarrow> bm_is_valid b row \<longleftrightarrow> bp_is_valid validity row"
    and r: "r = reference_of vs validity" and w: "w = bit_width_of vs validity r"
    and header: "length header = 12"
    and sec: "section = header @ concat (map (\<lambda>block. pack_block (fill_deltas vs validity r block) w)
      [0..<div_ceil (length vs) 1024])"
  shows "decode_blocks section r w b (length vs)
    = Inr (map (\<lambda>row. if bp_is_valid validity row then vs ! row else 0) [0..<length vs])"
proof -
  let ?n = "div_ceil (length vs) 1024"
  let ?blocks = "map (\<lambda>block. pack_block (fill_deltas vs validity r block) w) [0..<?n]"
  let ?P = "partial_values (bp_is_valid validity) vs"
  have le: "sint r \<le> sint (vs ! row)" if "row < length vs" "bp_is_valid validity row" for row
    using that r by (simp add: reference_of_le)
  have block: "subslice section (12 + k * (w * 128)) (12 + k * (w * 128) + w * 128)
      = pack_block (fill_deltas vs validity r k) w" if "k < ?n" for k
  proof -
    have "subslice section (12 + k * (w * 128)) (12 + k * (w * 128) + w * 128)
        = subslice (concat ?blocks) (128 * w * k + 0) (128 * w * k + 128 * w)"
      using header by (simp add: sec subslice_append_right mult.commute mult.left_commute)
    also have "\<dots> = subslice (pack_block (fill_deltas vs validity r ([0..<?n] ! k)) w) 0 (128 * w)"
      by (rule subslice_concat_chunk) (use that in simp_all)
    finally show ?thesis using that by (simp add: subslice_def)
  qed
  have step: "apply_deltas (?P (k * 1024)) (unpack_block (subslice section
      (12 + k * (w * 128)) (12 + k * (w * 128) + w * 128)) w) r b (length vs) k
    = Inr (?P (Suc k * 1024))" if "k < ?n" for k
  proof -
    have "unpack_block (pack_block (fill_deltas vs validity r k) w) w = fill_deltas vs validity r k"
      unfolding w by (rule unpack_filled)
    then show ?thesis
      unfolding block [OF that] using apply_deltas_partial [OF valid le] by simp
  qed
  have "rfold (\<lambda>block vs'.
          let start = BITPACK_HEADER_LEN + block * (w * BYTES_PER_PLANE);
              deltas = unpack_block (subslice section start (start + w * BYTES_PER_PLANE)) w
          in apply_deltas vs' deltas r b (length vs) block) [0..<k] (?P 0) = Inr (?P (k * 1024))"
    if "k \<le> ?n" for k
    using that
  proof (induction k)
    case (Suc k)
    then show ?case using step [of k] by (simp add: rfold_append Let_def bitpack_consts)
  qed simp
  from this [of ?n] have "decode_blocks section r w b (length vs) = Inr (?P (?n * 1024))"
    by (simp add: decode_blocks_def Let_def BLOCK_ROWS_def partial_values_def map_replicate_const)
  moreover have "length vs \<le> ?n * 1024"
    using dividend_less_div_times [of 1024 "length vs + 1023"] by (simp add: div_ceil_def)
  ultimately show ?thesis
    by (auto simp: partial_values_def)
qed

lemma typed_slots_value_at:
  assumes "typed_slots col ty = Inr (vs, validity)"
  shows "col_len col = length vs" and "ty = TInt64 \<or> ty = TTimestamp"
    and "value_at col row = (if bp_is_valid validity row
      then (if ty = TInt64 then VInt64 (vs ! row) else VTimestamp (vs ! row)) else Null)"
  using assms
  by (cases col; cases ty; auto simp: typed_value_def split: option.splits)+

lemma section_len_eq:
  assumes "n < 2 ^ 60" and "w \<le> 64"
  shows "section_len n w = Inr (12 + div_ceil n 1024 * w * 128)"
proof -
  have "div_ceil n 1024 \<le> 2 ^ 50"
    using assms(1) by (simp add: div_ceil_def div_le_mono less_mult_imp_div_less Suc_leI
        div_less_iff_less_mult less_Suc_eq_le [symmetric])
  then have a: "div_ceil n 1024 * w \<le> 2 ^ 50 * 64" using assms(2) by (rule mult_le_mono)
  then have "div_ceil n 1024 * w * 128 \<le> 2 ^ 50 * 64 * 128" by (rule mult_le_mono) simp
  with a show ?thesis
    by (simp add: section_len_def checked_mul_usize_def checked_add_usize_def bitpack_consts)
qed

lemma bitpack_round_trip:
  assumes enc: "bitpack_encode col ty = Inr (section, params)" and wf: "column_wf ty col"
    and b: "validity_for col validity"
  shows "\<exists>col'. bitpack_decode params section validity (col_len col) ty = Inr col' \<and> col_eq col' col"
proof -
  from enc obtain vs opt where slots: "typed_slots col ty = Inr (vs, opt)"
    by (auto simp: bitpack_encode_def rbind_eq_Inr)
  note col = typed_slots_value_at [OF slots]
  define r where "r = reference_of vs opt"
  define w where "w = bit_width_of vs opt r"
  let ?blocks = "concat (map (\<lambda>block. pack_block (fill_deltas vs opt r block) w)
      [0..<div_ceil (length vs) 1024])"
  let ?header = "u64_to_le_bytes r @ [of_nat w] @ [0, 0, 0]"
  have sec: "section = ?header @ ?blocks" and params: "params = (of_nat w, 0, 0)"
    using enc slots by (simp_all add: bitpack_encode_def Let_def r_def w_def BLOCK_ROWS_def)
  have w: "w \<le> 64" by (simp add: w_def bit_width_of_le)
  have valid: "bm_is_valid validity row \<longleftrightarrow> bp_is_valid opt row" if "row < length vs" for row
    using b that col by (simp add: validity_for_def)
  have "unat (of_nat w :: u8) = w"
    using w by (simp add: unat_of_nat take_bit_nat_eq_self_iff)
  then have hd: "bitpack_header params section = Inr (r, w)"
    using w by (simp add: bitpack_header_def params sec Let_def bitpack_consts subslice_def nth_append)
  have "length ?blocks = 128 * w * div_ceil (length vs) 1024"
    by (subst length_concat_chunks [where n = "128 * w"]) simp_all
  then have len: "section_len (length vs) w = Inr (length section)"
    using wf col(1) w by (simp add: section_len_eq column_wf_def sec)
  have null: "\<not> (list_all (\<lambda>row. \<not> bm_is_valid validity row) [0..<length vs] \<and> r \<noteq> 0)"
  proof
    assume all: "list_all (\<lambda>row. \<not> bm_is_valid validity row) [0..<length vs] \<and> r \<noteq> 0"
    then have "\<forall>row < length vs. \<not> bp_is_valid opt row" using valid by (auto simp: list_all_iff)
    with all show False by (simp add: r_def reference_of_all_null)
  qed
  have dec: "decode_blocks section r w validity (length vs)
      = Inr (map (\<lambda>row. if bp_is_valid opt row then vs ! row else 0) [0..<length vs])"
    by (rule decode_blocks_encoded [OF valid _ _ _ sec]) (simp_all add: r_def w_def)
  let ?cv = "column_validity validity (length vs)"
  let ?vs = "map (\<lambda>row. if bp_is_valid opt row then vs ! row else 0) [0..<length vs]"
  have "bitpack_decode params section validity (col_len col) ty
      = Inr (if ty = TInt64 then ColInt64 ?vs ?cv else ColTimestamp ?vs ?cv)"
    using col(1,2) hd len null dec by (auto simp: bitpack_decode_def Let_def)
  moreover have "col_eq (if ty = TInt64 then ColInt64 ?vs ?cv else ColTimestamp ?vs ?cv) col"
    using col valid by (auto intro!: col_eqI simp: typed_value_column_validity)
  ultimately show ?thesis by blast
qed

interpretation bitpack: values_encoding bitpack_encode bitpack_decode
  by unfold_locales (rule bitpack_round_trip)

lemma bitpack_encode_total:
  assumes "ty = TInt64 \<or> ty = TTimestamp" and "\<forall>v \<in> set vs. matches_type v ty"
  shows "\<exists>section params. bitpack_encode (from_values ty vs) ty = Inr (section, params)"
proof -
  have "as_int64 v \<noteq> None" if "v \<in> set vs" "v \<noteq> Null" "ty = TInt64" for v
    using assms(2) that by (cases v) auto
  moreover have "as_timestamp v \<noteq> None" if "v \<in> set vs" "v \<noteq> Null" "ty = TTimestamp" for v
    using assms(2) that by (cases v) auto
  ultimately show ?thesis
    using assms(1) typed_parts_total [of vs as_int64 0] typed_parts_total [of vs as_timestamp 0]
    by (auto simp: bitpack_encode_def Let_def)
qed

text \<open>
  Frame-of-reference bit packing loses nothing: every list of integers or timestamps, with
  nulls anywhere and any spread from \<open>i64::MIN\<close> to \<open>i64::MAX\<close>, encodes, and the transposed blocks
  decode under the payload's validity bitmap to exactly the same values.
\<close>

lemma bitpack_values_roundtrip:
  assumes "ty = TInt64 \<or> ty = TTimestamp"
    and "\<forall>v \<in> set vs. matches_type v ty" and "length vs < 2 ^ 60"
    and "\<forall>row < length vs. bm_is_valid validity row \<longleftrightarrow> vs ! row \<noteq> Null"
  shows "\<exists>section params col. bitpack_encode (from_values ty vs) ty = Inr (section, params) \<and>
    bitpack_decode params section validity (length vs) ty = Inr col \<and>
    map (value_at col) [0..<length vs] = vs"
proof -
  obtain sec params where enc: "bitpack_encode (from_values ty vs) ty = Inr (sec, params)"
    using bitpack_encode_total [OF assms(1,2)] by blast
  have wf: "type_wf ty" "\<forall>v \<in> set vs. matches_type v ty \<and> value_wf v"
  proof -
    show "type_wf ty" using assms(1) by auto
    have "value_wf v" if "v \<in> set vs" for v
      using assms(1,2) that by (cases v) auto
    with assms(2) show "\<forall>v \<in> set vs. matches_type v ty \<and> value_wf v" by blast
  qed
  from bitpack.values_round_trip [OF enc wf(1) assms(3) wf(2) assms(4)] enc show ?thesis by blast
qed

end
