(* ===== verification/EncDictionary.thy ===== *)
theory EncDictionary
  imports EncodingBase "HOL-Library.Multiset"
begin

text \<open>
  Dictionary encoding of strings (\<^verbatim>\<open>devondb-storage/src/node_group/encodings/dictionary.rs\<close>): the
  distinct non-null strings in byte order, once each, and one 32-bit code per row.
\<close>

definition CODE_WIDTH_V1 :: u8 where "CODE_WIDTH_V1 = 4"

definition PARAMS_V1 :: enc_params where
  "PARAMS_V1 = (CODE_WIDTH_V1, 0, 0)"

section \<open>Encoding\<close>

definition collect_step :: "column \<Rightarrow> nat \<Rightarrow> string list \<Rightarrow> string list devon_result" where
  "collect_step col row dictionary =
    (case value_at col row of
       Null \<Rightarrow> Inr dictionary
     | VString txt \<Rightarrow> Inr (dictionary @ [txt])
     | _ \<Rightarrow> Inl (InvalidArgument ''encoding dictionary value {} does not match {}''))"

text \<open>\<open>sort_unstable\<close> followed by \<open>dedup\<close>; string order is byte order.\<close>

definition collect_dictionary :: "column \<Rightarrow> string list devon_result" where
  "collect_dictionary col =
    rbind (rfold (collect_step col) [0..<col_len col] [])
      (\<lambda>dictionary. Inr (remdups_adj (sort dictionary)))"

fun offsets_loop :: "u32 \<Rightarrow> string list \<Rightarrow> u32 list devon_result" where
  "offsets_loop offset [] = Inr []"
| "offsets_loop offset (entry # entries) =
    rbind (ok_or (InvalidArgument ''dictionary entry length exceeds u32'')
             (u32_try_from (length entry))) (\<lambda>len.
    rbind (offsets_loop (offset + len) entries) (\<lambda>rest. Inr ((offset + len) # rest)))"

text \<open>
  \<open>slice::binary_search\<close>. On a strictly increasing slice, which is what the code calls it on, the
  answer is the one position of the key, or none.
\<close>

definition binary_search :: "string list \<Rightarrow> string \<Rightarrow> nat option" where
  "binary_search dictionary txt =
    (let i = length (takeWhile (\<lambda>e. e \<noteq> txt) dictionary)
     in if i < length dictionary then Some i else None)"

definition code_of :: "string list \<Rightarrow> column \<Rightarrow> nat \<Rightarrow> u32 devon_result" where
  "code_of dictionary col row =
    (case value_at col row of
       Null \<Rightarrow> Inr 0
     | VString txt \<Rightarrow>
         ok_or (InvalidArgument ''encoding dictionary lost an entry between passes'')
           (map_option of_nat (binary_search dictionary txt))
     | _ \<Rightarrow> Inl (InvalidArgument ''encoding dictionary value {} does not match String''))"

definition write_section :: "column \<Rightarrow> string list \<Rightarrow> bytes devon_result" where
  "write_section col dictionary =
    rbind (ok_or (InvalidArgument ''encoding dictionary entry count exceeds u32'')
             (u32_try_from (length dictionary))) (\<lambda>dict_count.
    let heap = concat (map as_bytes dictionary)
    in rbind (ok_or (InvalidArgument ''encoding dictionary heap length exceeds u32'')
                (u32_try_from (length heap))) (\<lambda>_.
       rbind (offsets_loop 0 dictionary) (\<lambda>offsets.
       rbind (rmapM (code_of dictionary col) [0..<col_len col]) (\<lambda>codes.
       Inr (u32_to_le_bytes dict_count @ concat (map u32_to_le_bytes (0 # offsets)) @ heap
         @ concat (map u32_to_le_bytes codes))))))"

definition dictionary_encode :: enc_fun where
  "dictionary_encode col ty =
    (if ty \<noteq> TString then Inl (InvalidArgument ''encoding dictionary is not admissible for {}'')
     else
       rbind (collect_dictionary col) (\<lambda>dictionary.
       rbind (write_section col dictionary) (\<lambda>section. Inr (section, PARAMS_V1))))"

section \<open>Decoding\<close>

definition split_section :: "bytes \<Rightarrow> nat \<Rightarrow> (u32 list \<times> bytes \<times> bytes) devon_result" where
  "split_section section row_count =
    (if length section < 4
     then Inl (Corrupt ''dictionary section is {} bytes, smaller than the u32 dict_count 4'')
     else
       (let dict_count = unat (read_u32 section 0) in
        rbind (ok_or (Corrupt ''dictionary offsets length overflows usize'')
                 (case checked_add_usize dict_count 1 of
                    None \<Rightarrow> None | Some n \<Rightarrow> checked_mul_usize 4 n)) (\<lambda>offsets_len.
        rbind (ok_or (Corrupt ''dictionary codes length overflows usize for {} rows'')
                 (checked_mul_usize 4 row_count)) (\<lambda>codes_len.
        rbind (ok_or (Corrupt ''dictionary section length overflows usize'')
                 (case checked_add_usize 4 offsets_len of
                    None \<Rightarrow> None | Some n \<Rightarrow> checked_add_usize n codes_len)) (\<lambda>minimum.
        if length section < minimum
        then Inl (Corrupt ''dictionary section is {} bytes, too short for dict_count {} and {} codes ({} minimum)'')
        else
          (let heap_len = length section - minimum;
               offsets = map (\<lambda>i. read_u32 section (4 + 4 * i)) [0..<dict_count + 1];
               heap = subslice section (4 + offsets_len) (4 + offsets_len + heap_len);
               codes = drop (4 + offsets_len + heap_len) section
           in Inr (offsets, heap, codes)))))))"

fun entries_loop :: "bytes \<Rightarrow> u32 list \<Rightarrow> string list \<Rightarrow> string list devon_result" where
  "entries_loop heap (a # b # offsets) entries =
    rbind (ok_or (Corrupt ''dictionary entry {} is not valid UTF-8: {}'')
             (from_utf8 (subslice heap (unat a) (unat b)))) (\<lambda>entry.
    if entries \<noteq> [] \<and> entry \<le> last entries
    then Inl (Corrupt ''dictionary entries are not unique and sorted bytewise ascending at entry {}'')
    else entries_loop heap (b # offsets) (entries @ [entry]))"
| "entries_loop heap offsets entries = Inr entries"

definition validate_entries :: "u32 list \<Rightarrow> bytes \<Rightarrow> string list devon_result" where
  "validate_entries offsets heap =
    (if offsets = [] \<or> hd offsets \<noteq> 0
     then Inl (Corrupt ''dictionary offsets start at {}, expected 0'')
     else if \<not> list_all (\<lambda>i. offsets ! i \<le> offsets ! Suc i) [0..<length offsets - 1]
     then Inl (Corrupt ''dictionary offsets are not non-decreasing'')
     else
       rbind (ok_or (Corrupt ''dictionary heap length exceeds u32'') (u32_try_from (length heap)))
         (\<lambda>heap_len.
         if last offsets \<noteq> heap_len
         then Inl (Corrupt ''dictionary offsets end at {} but the heap is {} bytes'')
         else entries_loop heap offsets []))"

definition materialize_row ::
    "string list \<Rightarrow> bytes \<Rightarrow> bitmap \<Rightarrow> nat \<Rightarrow> devon_value devon_result" where
  "materialize_row entries codes validity row =
    (let code = read_u32 codes (4 * row)
     in if \<not> bm_is_valid validity row
        then (if code \<noteq> 0 then Inl (Corrupt ''dictionary code at NULL row {} is {}, expected 0'')
              else Inr Null)
        else if unat code < length entries then Inr (VString (entries ! unat code))
        else Inl (Corrupt ''dictionary code {} at row {} is out of range for dict_count {}''))"

text \<open>One row per full four-byte chunk; \<open>split_section\<close> leaves exactly \<open>row_count\<close> of them.\<close>

definition materialize :: "string list \<Rightarrow> bytes \<Rightarrow> bitmap \<Rightarrow> column devon_result" where
  "materialize entries codes validity =
    rbind (rmapM (materialize_row entries codes validity) [0..<length codes div 4])
      (\<lambda>vs. Inr (ColBoxed vs))"

definition dictionary_decode :: dec_fun where
  "dictionary_decode params section validity row_count ty =
    (if params \<noteq> PARAMS_V1
     then Inl (Corrupt ''encoding dictionary parameters are not the v1 spelling {}'')
     else if ty \<noteq> TString then Inl (Corrupt ''encoding dictionary is not admissible for {}'')
     else
       rbind (split_section section row_count) (\<lambda>(offsets, heap, codes).
       rbind (validate_entries offsets heap) (\<lambda>entries.
       materialize entries codes validity)))"

section \<open>The dictionary\<close>

lemma collect_loop:
  assumes "rfold (collect_step col) rows d = Inr d'"
  shows "set d' = set d \<union> {txt. \<exists>row \<in> set rows. value_at col row = VString txt} \<and>
    (\<forall>row \<in> set rows. value_at col row = Null \<or> (\<exists>txt. value_at col row = VString txt))"
  using assms
proof (induction rows arbitrary: d)
  case (Cons row rows)
  then obtain d1 where d1: "collect_step col row d = Inr d1" "rfold (collect_step col) rows d1 = Inr d'"
    by (auto simp: rbind_eq_Inr)
  from Cons.IH [OF d1(2)] d1(1) show ?case
    by (auto simp: collect_step_def split: devon_value.splits)
qed simp

lemma strict_sorted_remdups_adj: "sorted xs \<Longrightarrow> sorted_wrt (<) (remdups_adj xs)"
  for xs :: "'a::linorder list"
  by (induction xs rule: remdups_adj.induct) (auto intro: less_le_trans simp: le_less)

lemma collect_dictionary_ok:
  assumes "collect_dictionary col = Inr dict"
  shows "sorted_wrt (<) dict"
    and "set dict = {txt. \<exists>row < col_len col. value_at col row = VString txt}"
    and "row < col_len col \<Longrightarrow> value_at col row = Null \<or> (\<exists>txt. value_at col row = VString txt)"
proof -
  from assms obtain d where d: "rfold (collect_step col) [0..<col_len col] [] = Inr d"
    and dict: "dict = remdups_adj (sort d)"
    by (auto simp: collect_dictionary_def rbind_eq_Inr)
  from collect_loop [OF d] dict
  show "set dict = {txt. \<exists>row < col_len col. value_at col row = VString txt}"
    and "row < col_len col \<Longrightarrow> value_at col row = Null \<or> (\<exists>txt. value_at col row = VString txt)"
    by auto
  show "sorted_wrt (<) dict" using dict by (simp add: strict_sorted_remdups_adj)
qed

lemma binary_search_Some:
  assumes "binary_search dict txt = Some i"
  shows "i < length dict" and "dict ! i = txt"
proof -
  from assms have i: "i = length (takeWhile (\<lambda>e. e \<noteq> txt) dict)" and l: "i < length dict"
    by (auto simp: binary_search_def Let_def split: if_splits)
  show "i < length dict" by (rule l)
  show "dict ! i = txt" using nth_length_takeWhile [of "\<lambda>e. e \<noteq> txt" dict] i l by simp
qed

lemma binary_search_in: "txt \<in> set dict \<Longrightarrow> \<exists>i. binary_search dict txt = Some i"
proof -
  assume mem: "txt \<in> set dict"
  have "takeWhile (\<lambda>e. e \<noteq> txt) dict \<noteq> dict" using mem by auto
  then have "length (takeWhile (\<lambda>e. e \<noteq> txt) dict) < length dict"
    by (metis le_neq_implies_less length_takeWhile_le takeWhile_eq_take take_all order_refl)
  then show ?thesis by (simp add: binary_search_def Let_def)
qed

section \<open>Offsets and entries\<close>

definition heap_offset :: "string list \<Rightarrow> nat \<Rightarrow> nat" where
  "heap_offset dict i = length (concat (map as_bytes (take i dict)))"

lemma heap_offset_simps [simp]:
  "heap_offset dict 0 = 0" "heap_offset (e # dict) (Suc i) = length e + heap_offset dict i"
  by (simp_all add: heap_offset_def)

lemma heap_offset_le: "heap_offset dict i \<le> length (concat (map as_bytes dict))"
proof -
  have "concat (map as_bytes dict)
      = concat (map as_bytes (take i dict)) @ concat (map as_bytes (drop i dict))"
    by (metis append_take_drop_id concat_append map_append)
  then show ?thesis by (simp add: heap_offset_def)
qed

lemma offsets_loop_eq:
  assumes "base + length (concat (map as_bytes dict)) < 2 ^ 32"
  shows "offsets_loop (of_nat base) dict
    = Inr (map (\<lambda>i. of_nat (base + heap_offset dict (Suc i))) [0..<length dict])"
  using assms
proof (induction dict arbitrary: base)
  case (Cons e dict)
  have "u32_try_from (length e) = Some (of_nat (length e))"
    using Cons.prems by (simp add: u32_try_from_def)
  moreover have "offsets_loop (of_nat (base + length e)) dict
      = Inr (map (\<lambda>i. of_nat (base + length e + heap_offset dict (Suc i))) [0..<length dict])"
    using Cons.prems by (intro Cons.IH) simp
  moreover have "[0..<length (e # dict)] = 0 # map Suc [0..<length dict]"
    by (simp add: upt_conv_Cons map_Suc_upt del: upt_Suc)
  ultimately show ?case
    by (simp add: comp_def add.assoc del: upt_Suc)
qed simp

lemma heap_entry:
  "i < length dict \<Longrightarrow>
    subslice (concat (map as_bytes dict)) (heap_offset dict i) (heap_offset dict (Suc i))
      = as_bytes (dict ! i)"
proof (induction dict arbitrary: i)
  case (Cons e dict)
  then show ?case
    by (cases i) (simp_all add: subslice_append_right, simp add: subslice_def)
qed simp

lemma entries_loop_eq:
  assumes "sorted_wrt (<) dict" and "\<forall>e \<in> set dict. utf8_valid (as_bytes e)"
    and "length (concat (map as_bytes dict)) < 2 ^ 32" and "k \<le> length dict"
  shows "entries_loop (concat (map as_bytes dict))
      (map (\<lambda>i. of_nat (heap_offset dict i)) [k..<Suc (length dict)]) (take k dict) = Inr dict"
  using assms(4)
proof (induction "length dict - k" arbitrary: k)
  case 0
  then show ?case by simp
next
  case (Suc d)
  then have k: "k < length dict" by simp
  have off: "unat (of_nat (heap_offset dict i) :: u32) = heap_offset dict i" for i
    using heap_offset_le [of dict i] assms(3) by simp
  have "from_utf8 (subslice (concat (map as_bytes dict)) (heap_offset dict k) (heap_offset dict (Suc k)))
      = Some (dict ! k)"
    using k assms(2) by (simp add: heap_entry from_utf8_as_bytes)
  moreover have "\<not> (take k dict \<noteq> [] \<and> dict ! k \<le> last (take k dict))"
  proof
    assume a: "take k dict \<noteq> [] \<and> dict ! k \<le> last (take k dict)"
    then have "last (take k dict) = dict ! (k - 1)" and "k - 1 < k"
      using k by (auto simp: last_conv_nth)
    with sorted_wrt_nth_less [OF assms(1), of "k - 1" k] k a show False by auto
  qed
  moreover have "[k..<Suc (length dict)] = k # Suc k # [Suc (Suc k)..<Suc (length dict)]"
    and "[Suc k..<Suc (length dict)] = Suc k # [Suc (Suc k)..<Suc (length dict)]"
    using k by (simp_all add: upt_conv_Cons)
  ultimately have "entries_loop (concat (map as_bytes dict))
      (map (\<lambda>i. of_nat (heap_offset dict i)) [k..<Suc (length dict)]) (take k dict)
    = entries_loop (concat (map as_bytes dict))
      (map (\<lambda>i. of_nat (heap_offset dict i)) [Suc k..<Suc (length dict)]) (take (Suc k) dict)"
    using k off by (auto simp: take_Suc_conv_app_nth simp del: upt_Suc)
  also have "\<dots> = Inr dict" using Suc k by (intro Suc.hyps) simp_all
  finally show ?case .
qed

lemma heap_offset_mono: "heap_offset dict i \<le> heap_offset dict (Suc i)"
proof (induction dict arbitrary: i)
  case (Cons e dict)
  then show ?case by (cases i) simp_all
qed (simp add: heap_offset_def)

lemma validate_entries_eq:
  assumes "sorted_wrt (<) dict" and "\<forall>e \<in> set dict. utf8_valid (as_bytes e)"
    and "length (concat (map as_bytes dict)) < 2 ^ 32"
  shows "validate_entries (map (\<lambda>i. of_nat (heap_offset dict i)) [0..<Suc (length dict)])
      (concat (map as_bytes dict)) = Inr dict"
proof -
  let ?offsets = "map (\<lambda>i. of_nat (heap_offset dict i)) [0..<Suc (length dict)] :: u32 list"
  have off: "unat (of_nat (heap_offset dict i) :: u32) = heap_offset dict i" for i
    using heap_offset_le [of dict i] assms(3) by simp
  have hd: "?offsets \<noteq> []" "hd ?offsets = 0"
    by (simp_all add: upt_conv_Cons del: upt_Suc)
  have mono: "list_all (\<lambda>i. ?offsets ! i \<le> ?offsets ! Suc i) [0..<length ?offsets - 1]"
  proof -
    have nth: "?offsets ! i = of_nat (heap_offset dict i)" if "i \<le> length dict" for i
      using that nth_map [of i "[0..<Suc (length dict)]"] by (simp add: less_Suc_eq_le del: upt_Suc)
    show ?thesis
      by (auto simp: list_all_iff nth word_le_nat_alt off heap_offset_mono simp del: upt_Suc)
  qed
  have "last ?offsets = of_nat (length (concat (map as_bytes dict)))"
    by (simp add: heap_offset_def)
  moreover have "entries_loop (concat (map as_bytes dict)) ?offsets [] = Inr dict"
    using entries_loop_eq [OF assms, of 0] by simp
  ultimately show ?thesis
    using hd mono assms(3) by (simp add: validate_entries_def u32_try_from_def del: upt_Suc)
qed

section \<open>The section\<close>

lemma read_u32_chunk:
  assumes "i < length ws"
  shows "read_u32 (xs @ concat (map u32_to_le_bytes ws) @ ys) (length xs + 4 * i) = ws ! i"
proof -
  have "subslice (xs @ concat (map u32_to_le_bytes ws) @ ys) (length xs + 4 * i) (length xs + 4 * i + 4)
      = subslice (concat (map u32_to_le_bytes ws)) (4 * i + 0) (4 * i + 4)"
    using assms by (simp add: subslice_append_right subslice_append_left
        length_concat_chunks [where n = 4])
  also have "\<dots> = subslice (u32_to_le_bytes (ws ! i)) 0 4"
    using assms by (intro subslice_concat_chunk) simp_all
  finally show ?thesis by (simp add: read_u32_def subslice_def)
qed

lemma length_u32s [simp]: "length (concat (map u32_to_le_bytes ws)) = 4 * length ws"
  by (simp add: length_concat_chunks [where n = 4])

lemma split_section_eq:
  assumes "length offsets = Suc n" and "n < 2 ^ 32" and "length codes < 2 ^ 60"
    and "sec = u32_to_le_bytes (of_nat n) @ concat (map u32_to_le_bytes offsets) @ heap
      @ concat (map u32_to_le_bytes codes)"
  shows "split_section sec (length codes) = Inr (offsets, heap, concat (map u32_to_le_bytes codes))"
proof -
  have count: "unat (read_u32 sec 0) = n"
    using assms(2) by (simp add: assms(4) read_u32_def subslice_def)
  have len: "length sec = 4 + 4 * Suc n + length heap + 4 * length codes"
    by (simp add: assms(1,4))
  have offs: "map (\<lambda>i. read_u32 sec (4 + 4 * i)) [0..<Suc n] = offsets"
  proof (rule nth_equalityI)
    fix i assume "i < length (map (\<lambda>i. read_u32 sec (4 + 4 * i)) [0..<Suc n])"
    then have "i < Suc n" by simp
    then show "map (\<lambda>i. read_u32 sec (4 + 4 * i)) [0..<Suc n] ! i = offsets ! i"
      using read_u32_chunk [of i offsets "u32_to_le_bytes (of_nat n)"] assms(1)
      by (simp add: assms(4) del: upt_Suc)
  qed (simp add: assms(1))
  have heap: "subslice sec (4 + 4 * Suc n) (4 + 4 * Suc n + length heap) = heap"
    and codes: "drop (4 + 4 * Suc n + length heap) sec = concat (map u32_to_le_bytes codes)"
    by (simp_all add: assms(1,4) subslice_def)
  have small: "Suc n * 4 < 2 ^ 64" "4 * length codes < 2 ^ 64" "8 + 4 * n + 4 * length codes < 2 ^ 64"
    using assms(2,3) by simp_all
  show ?thesis
    using small len offs heap codes assms(2,3)
    by (simp add: split_section_def Let_def count checked_add_usize_def checked_mul_usize_def del: upt_Suc)
qed

lemma materialize_eq:
  assumes "\<And>row. row < length codes \<Longrightarrow>
      materialize_row entries (concat (map u32_to_le_bytes codes)) validity row = Inr (f row)"
  shows "materialize entries (concat (map u32_to_le_bytes codes)) validity
    = Inr (ColBoxed (map f [0..<length codes]))"
proof -
  have "rmapM (materialize_row entries (concat (map u32_to_le_bytes codes)) validity)
      [0..<length codes] = Inr (map f [0..<length codes])"
    by (rule rmapM_Inr_map) (use assms in simp)
  then show ?thesis by (simp add: materialize_def)
qed

lemma dictionary_round_trip:
  assumes enc: "dictionary_encode col ty = Inr (section, params)" and wf: "column_wf ty col"
    and b: "validity_for col validity"
  shows "\<exists>col'. dictionary_decode params section validity (col_len col) ty = Inr col' \<and> col_eq col' col"
proof -
  let ?n = "col_len col"
  from enc obtain dict where ty: "ty = TString" and params: "params = PARAMS_V1"
    and dict: "collect_dictionary col = Inr dict" and sec: "write_section col dict = Inr section"
    by (auto simp: dictionary_encode_def rbind_eq_Inr split: if_splits)
  note d = collect_dictionary_ok [OF dict]
  let ?heap = "concat (map as_bytes dict)"
  from sec obtain offsets codes where n: "length dict < 2 ^ 32" and h: "length ?heap < 2 ^ 32"
    and off: "offsets_loop 0 dict = Inr offsets" and codes: "rmapM (code_of dict col) [0..<?n] = Inr codes"
    and s: "section = u32_to_le_bytes (of_nat (length dict)) @ concat (map u32_to_le_bytes (0 # offsets))
      @ ?heap @ concat (map u32_to_le_bytes codes)"
    by (auto simp: write_section_def Let_def result_simps)
  have offsets: "0 # offsets = map (\<lambda>i. of_nat (heap_offset dict i)) [0..<Suc (length dict)]"
    using offsets_loop_eq [of 0 dict] off h
    by (simp add: upt_conv_Cons map_Suc_upt [symmetric] comp_def del: upt_Suc)
  from codes have all2: "list_all2 (\<lambda>row c. code_of dict col row = Inr c) [0..<?n] codes"
    by (simp add: rmapM_eq_Inr)
  then have len: "length codes = ?n" by (auto dest: list_all2_lengthD)
  have code: "code_of dict col row = Inr (codes ! row)" if "row < ?n" for row
    using list_all2_nthD [OF all2, of row] that by simp
  have utf: "\<forall>e \<in> set dict. utf8_valid (as_bytes e)"
    using d(2) wf by (fastforce simp: column_wf_def)
  have split: "split_section section (length codes) = Inr (0 # offsets, ?heap, concat (map u32_to_le_bytes codes))"
    by (rule split_section_eq [OF _ n _ s])
      (use wf len offsets [THEN arg_cong, of length] in \<open>simp_all add: column_wf_def\<close>)
  have "materialize_row dict (concat (map u32_to_le_bytes codes)) validity row = Inr (value_at col row)"
    if "row < length codes" for row
  proof -
    have r: "read_u32 (concat (map u32_to_le_bytes codes)) (4 * row) = codes ! row"
      using read_u32_chunk [of row codes "[]" "[]"] that by simp
    have v: "bm_is_valid validity row \<longleftrightarrow> value_at col row \<noteq> Null"
      using b that len by (simp add: validity_for_def)
    from d(3) [of row] that len consider "value_at col row = Null"
      | e where "value_at col row = VString e" by auto
    then show ?thesis
    proof cases
      case 1
      with code [of row] that len v r show ?thesis by (simp add: materialize_row_def code_of_def)
    next
      case (2 e)
      with code [of row] that len obtain i where i: "binary_search dict e = Some i"
        "codes ! row = of_nat i" by (auto simp: code_of_def result_simps)
      from binary_search_Some [OF i(1)] n i(2) 2 v r show ?thesis
        by (simp add: materialize_row_def)
    qed
  qed
  then have "materialize dict (concat (map u32_to_le_bytes codes)) validity
      = Inr (ColBoxed (map (value_at col) [0..<length codes]))"
    by (rule materialize_eq)
  then have "dictionary_decode params section validity ?n ty
      = Inr (ColBoxed (map (value_at col) [0..<?n]))"
    using params ty split len validate_entries_eq [OF d(1) utf h]
    by (simp add: dictionary_decode_def offsets del: upt_Suc)
  then show ?thesis by (auto intro!: col_eqI)
qed

interpretation dictionary: values_encoding dictionary_encode dictionary_decode
  by unfold_locales (rule dictionary_round_trip)

text \<open>Encoding succeeds as long as the strings fit a 32-bit heap.\<close>

lemma collect_loop_total:
  assumes "\<forall>row \<in> set rows. value_at col row = Null \<or> (\<exists>e. value_at col row = VString e)"
  shows "\<exists>d'. rfold (collect_step col) rows d = Inr d' \<and>
    sum_list (map length d')
      \<le> sum_list (map length d) + sum_list (map (\<lambda>row. value_approx_bytes (value_at col row)) rows) \<and>
    length d' \<le> length d + length rows"
  using assms
proof (induction rows arbitrary: d)
  case (Cons row rows)
  then obtain d1 where "collect_step col row d = Inr d1"
    and "sum_list (map length d1)
      \<le> sum_list (map length d) + value_approx_bytes (value_at col row)"
    and "length d1 \<le> Suc (length d)"
    by (auto simp: collect_step_def)
  moreover from Cons.IH [of d1] Cons.prems obtain d' where "rfold (collect_step col) rows d1 = Inr d'"
    "sum_list (map length d')
      \<le> sum_list (map length d1) + sum_list (map (\<lambda>row. value_approx_bytes (value_at col row)) rows)"
    "length d' \<le> length d1 + length rows" by auto
  ultimately show ?case by (intro exI [of _ d']) simp
qed simp

lemma sum_length_remdups_adj: "sum_list (map length (remdups_adj xs)) \<le> sum_list (map length xs)"
  by (induction xs rule: remdups_adj.induct) auto

lemma sum_length_sort: "sum_list (map length (sort xs)) = sum_list (map length xs)"
  for xs :: "string list"
  by (metis mset_map mset_sort sum_mset_sum_list)

lemma value_approx_bytes_ge: "16 \<le> value_approx_bytes v"
  by (cases v) simp_all

lemma sum_approx_ge: "16 * length vs \<le> sum_list (map value_approx_bytes vs)"
proof (induction vs)
  case (Cons v vs)
  then show ?case using value_approx_bytes_ge [of v] by simp
qed simp

lemma dictionary_encode_total:
  assumes "\<forall>v \<in> set vs. matches_type v TString" and "sum_list (map value_approx_bytes vs) < 2 ^ 32"
  shows "\<exists>section. dictionary_encode (from_values TString vs) TString = Inr (section, PARAMS_V1)"
proof -
  let ?col = "from_values TString vs"
  let ?n = "length vs"
  have col: "col_len ?col = ?n" by (rule from_values_rows)
  have str: "\<forall>row \<in> set [0..<?n]. value_at ?col row = Null \<or> (\<exists>e. value_at ?col row = VString e)"
  proof
    fix row assume "row \<in> set [0..<?n]"
    then have "matches_type (vs ! row) TString" using assms(1) by simp
    with \<open>row \<in> set [0..<?n]\<close> show "value_at ?col row = Null \<or> (\<exists>e. value_at ?col row = VString e)"
      by (cases "vs ! row") simp_all
  qed
  have "map (\<lambda>row. value_approx_bytes (value_at ?col row)) [0..<?n] = map value_approx_bytes vs"
    by (rule nth_equalityI) simp_all
  with collect_loop_total [OF str, of "[]"] obtain d where
    d: "rfold (collect_step ?col) [0..<?n] [] = Inr d"
    and sum: "sum_list (map length d) \<le> sum_list (map value_approx_bytes vs)" and len: "length d \<le> ?n"
    by auto
  define dict where "dict = remdups_adj (sort d)"
  have dict: "collect_dictionary ?col = Inr dict"
    using d by (simp add: collect_dictionary_def col dict_def del: from_values.simps)
  have "length (concat (map as_bytes dict)) = sum_list (map length dict)"
    by (simp add: length_concat comp_def)
  also have "\<dots> \<le> sum_list (map length d)"
    unfolding dict_def using sum_length_remdups_adj [of "sort d"] by (simp add: sum_length_sort)
  finally have heap: "length (concat (map as_bytes dict)) < 2 ^ 32" using sum assms(2) by linarith
  have "length dict \<le> length d"
    unfolding dict_def using remdups_adj_length [of "sort d"] by simp
  then have count: "length dict < 2 ^ 32"
    using len sum_approx_ge [of vs] assms(2) by linarith
  have "is_ok (code_of dict ?col row)" if "row < ?n" for row
  proof -
    have "row \<in> set [0..<?n]" using that by simp
    with str consider "value_at ?col row = Null" | e where "value_at ?col row = VString e"
      by blast
    then show ?thesis
    proof cases
      case 1
      then show ?thesis by (simp add: code_of_def del: from_values.simps)
    next
      case (2 e)
      moreover have "row < col_len ?col" unfolding col by (rule that)
      ultimately have "e \<in> set dict" unfolding collect_dictionary_ok(2) [OF dict] mem_Collect_eq by blast
      then obtain i where "binary_search dict e = Some i" using binary_search_in by blast
      with 2 show ?thesis by (simp add: code_of_def del: from_values.simps)
    qed
  qed
  then have "\<exists>codes. rmapM (code_of dict ?col) rows = Inr codes" if "set rows \<subseteq> {..<?n}" for rows
    using that
  proof (induction rows)
    case (Cons row rows)
    then show ?case by (cases "code_of dict ?col row") force+
  qed simp
  moreover have "set [0..<?n] \<subseteq> {..<?n}" by auto
  ultimately obtain codes where "rmapM (code_of dict ?col) [0..<?n] = Inr codes" by blast
  with dict heap count offsets_loop_eq [of 0 dict] show ?thesis
    by (simp add: dictionary_encode_def write_section_def Let_def u32_try_from_def col
        del: from_values.simps)
qed

text \<open>
  Dictionary encoding loses nothing: every list of strings (nulls included) whose footprint
  fits 32 bits encodes, and decodes under the payload's validity bitmap to exactly the same
  strings; the decoder's checks on offsets, UTF-8, order and code ranges all accept it.
\<close>

lemma dictionary_values_roundtrip:
  assumes "\<forall>v \<in> set vs. matches_type v TString \<and> value_wf v"
    and "sum_list (map value_approx_bytes vs) < 2 ^ 32"
    and "\<forall>row < length vs. bm_is_valid validity row \<longleftrightarrow> vs ! row \<noteq> Null"
  shows "\<exists>section col. dictionary_encode (from_values TString vs) TString = Inr (section, PARAMS_V1) \<and>
    dictionary_decode PARAMS_V1 section validity (length vs) TString = Inr col \<and>
    map (value_at col) [0..<length vs] = vs"
proof -
  have len: "length vs < 2 ^ 60" using sum_approx_ge [of vs] assms(2) by simp
  obtain sec where enc: "dictionary_encode (from_values TString vs) TString = Inr (sec, PARAMS_V1)"
    using dictionary_encode_total [OF _ assms(2)] assms(1) by blast
  have ty: "type_wf TString" by simp
  from dictionary.values_round_trip [OF enc ty len assms(1,3)] enc show ?thesis by blast
qed

end
