(* ===== verification/Encodings.thy ===== *)
theory Encodings
  imports EncConstant EncRle EncBitpackFor EncDictionary
begin

text \<open>
  The registry of values-section encodings and their dispatch
  (\<^verbatim>\<open>devondb-storage/src/node_group/encodings/mod.rs\<close>), and the column payload around it
  (\<^verbatim>\<open>devondb-storage/src/node_group.rs\<close>): the validity bytes, the payload of a non-plain column and
  the directory section that records the encodings.

  The plain, FSST and ALP codecs are arguments (\<open>other_codecs\<close>); nothing is assumed about them, and
  the results below are about the other four.
\<close>

section \<open>The registry\<close>

datatype encoding = Plain | Constant | Rle | BitpackFor | Dictionary | Fsst | Alp

fun encoding_id :: "encoding \<Rightarrow> u8" where
  "encoding_id Plain = 0"
| "encoding_id Constant = 1"
| "encoding_id Rle = 2"
| "encoding_id BitpackFor = 3"
| "encoding_id Dictionary = 4"
| "encoding_id Fsst = 5"
| "encoding_id Alp = 6"

definition encoding_from_id :: "u8 \<Rightarrow> encoding option" where
  "encoding_from_id n =
    (if n = 0 then Some Plain
     else if n = 1 then Some Constant
     else if n = 2 then Some Rle
     else if n = 3 then Some BitpackFor
     else if n = 4 then Some Dictionary
     else if n = 5 then Some Fsst
     else if n = 6 then Some Alp
     else None)"

fun is_admissible_for :: "encoding \<Rightarrow> logical_type \<Rightarrow> bool" where
  "is_admissible_for Plain ty = True"
| "is_admissible_for Constant ty =
    (case ty of TInt64 \<Rightarrow> True | TFloat64 \<Rightarrow> True | TBool \<Rightarrow> True | TTimestamp \<Rightarrow> True
      | TDecimal p s \<Rightarrow> True | TString \<Rightarrow> True | _ \<Rightarrow> False)"
| "is_admissible_for Rle ty =
    (case ty of TInt64 \<Rightarrow> True | TTimestamp \<Rightarrow> True | TDecimal p s \<Rightarrow> True | TBool \<Rightarrow> True | _ \<Rightarrow> False)"
| "is_admissible_for BitpackFor ty = (case ty of TInt64 \<Rightarrow> True | TTimestamp \<Rightarrow> True | _ \<Rightarrow> False)"
| "is_admissible_for Dictionary ty = (ty = TString)"
| "is_admissible_for Fsst ty = (ty = TString)"
| "is_admissible_for Alp ty = (ty = TFloat64)"

lemma encoding_from_id_iff: "encoding_from_id n = Some e \<longleftrightarrow> encoding_id e = n"
  by (cases e) (auto simp: encoding_from_id_def)

section \<open>Dispatch\<close>

record other_codecs =
  plain_section :: "devon_value list \<Rightarrow> logical_type \<Rightarrow> bytes devon_result"
  plain_column :: "bytes \<Rightarrow> nat \<Rightarrow> logical_type \<Rightarrow> column devon_result"
  fsst_encode :: enc_fun
  fsst_decode :: dec_fun
  alp_encode :: enc_fun
  alp_decode :: dec_fun

definition encode_values ::
    "other_codecs \<Rightarrow> encoding \<Rightarrow> column \<Rightarrow> logical_type \<Rightarrow> (bytes \<times> enc_params) devon_result" where
  "encode_values oc enc col ty =
    (if \<not> is_admissible_for enc ty
     then Inl (InvalidArgument ''encoding {} is not admissible for {}'')
     else (case enc of
       Plain \<Rightarrow>
         rbind (plain_section oc (map (value_at col) [0..<col_len col]) ty)
           (\<lambda>section. Inr (section, no_params))
     | Constant \<Rightarrow> constant_encode col ty
     | Rle \<Rightarrow> rle_encode col ty
     | BitpackFor \<Rightarrow> bitpack_encode col ty
     | Dictionary \<Rightarrow> dictionary_encode col ty
     | Fsst \<Rightarrow> fsst_encode oc col ty
     | Alp \<Rightarrow> alp_encode oc col ty))"

section \<open>Validity bytes\<close>

definition bitmap_len :: "nat \<Rightarrow> nat" where
  "bitmap_len row_count = div_ceil row_count 8"

definition set_bit8 :: "nat \<Rightarrow> bytes \<Rightarrow> bytes" where
  "set_bit8 row bs = bs[row div 8 := bs ! (row div 8) OR push_bit (row mod 8) 1]"

definition bit_is_set :: "bytes \<Rightarrow> nat \<Rightarrow> bool" where
  "bit_is_set bs row \<longleftrightarrow> bs ! (row div 8) AND push_bit (row mod 8) 1 \<noteq> 0"

definition encode_validity :: "devon_value list \<Rightarrow> bytes" where
  "encode_validity vs =
    fold (\<lambda>(row, v) bs. if v \<noteq> Null then set_bit8 row bs else bs) (enumerate 0 vs)
      (replicate (bitmap_len (length vs)) 0)"

definition validate_bitmap_padding :: "bytes \<Rightarrow> nat \<Rightarrow> unit devon_result" where
  "validate_bitmap_padding bs row_count =
    (let used_bits = row_count mod 8
     in if used_bits = 0 then Inr ()
        else
          (let used_mask = (push_bit used_bits 1 - 1 :: u8)
           in if bs \<noteq> [] \<and> last bs AND NOT used_mask \<noteq> 0
              then Inl (Corrupt ''column {} {} bitmap trailing bits are not zero'')
              else Inr ()))"

definition bitmap_from_validity_bytes :: "bytes \<Rightarrow> nat \<Rightarrow> bitmap" where
  "bitmap_from_validity_bytes bs row_count =
    fold (\<lambda>row b. if \<not> bit_is_set bs row then bm_clear b row else b) [0..<row_count]
      (bm_all_valid row_count)"

definition validity_bytes_from_bitmap :: "bitmap \<Rightarrow> bytes" where
  "validity_bytes_from_bitmap b =
    fold (\<lambda>row bs. if bm_is_valid b row then set_bit8 row bs else bs) [0..<bm_len b]
      (replicate (bitmap_len (bm_len b)) 0)"

definition decode_values ::
    "other_codecs \<Rightarrow> encoding \<Rightarrow> enc_params \<Rightarrow> bytes \<Rightarrow> bitmap \<Rightarrow> nat \<Rightarrow> logical_type
      \<Rightarrow> column devon_result" where
  "decode_values oc enc params section validity row_count ty =
    (case enc of
       Plain \<Rightarrow>
         if params \<noteq> no_params then Inl (Corrupt ''encoding plain parameters are not zero'')
         else plain_column oc (validity_bytes_from_bitmap validity @ section) row_count ty
     | Constant \<Rightarrow> constant_decode params section validity row_count ty
     | Rle \<Rightarrow> rle_decode params section validity row_count ty
     | BitpackFor \<Rightarrow> bitpack_decode params section validity row_count ty
     | Dictionary \<Rightarrow> dictionary_decode params section validity row_count ty
     | Fsst \<Rightarrow> fsst_decode oc params section validity row_count ty
     | Alp \<Rightarrow> alp_decode oc params section validity row_count ty)"

section \<open>Column payloads\<close>

definition encoded_vector_slot_len :: "nat \<Rightarrow> vector_encoding \<Rightarrow> nat option" where
  "encoded_vector_slot_len n enc =
    (case enc of
       EncF16 \<Rightarrow> checked_mul_usize n 2
     | EncI8 \<Rightarrow> checked_add_usize n 8
     | EncB1 seed rescore \<Rightarrow> map_option (\<lambda>m. m div 8) (checked_add_usize n 7))"

definition fixed_payload_len :: "nat \<Rightarrow> logical_type \<Rightarrow> nat option" where
  "fixed_payload_len row_count ty =
    (let validity_len = bitmap_len row_count
     in Option.bind
          (case ty of
             TBool \<Rightarrow> Some validity_len
           | TInt64 \<Rightarrow> checked_mul_usize row_count 8
           | TFloat64 \<Rightarrow> checked_mul_usize row_count 8
           | TTimestamp \<Rightarrow> checked_mul_usize row_count 8
           | TVector n \<Rightarrow>
               Option.bind (checked_mul_usize row_count (unat n)) (\<lambda>m. checked_mul_usize m 4)
           | TVectorEncoded n enc \<Rightarrow>
               Option.bind (encoded_vector_slot_len (unat n) enc) (checked_mul_usize row_count)
           | TGeoPoint \<Rightarrow> checked_mul_usize row_count 16
           | TDecimal precision scale \<Rightarrow> checked_mul_usize row_count 16
           | TString \<Rightarrow> None
           | TBytes \<Rightarrow> None
           | TJson \<Rightarrow> None)
          (checked_add_usize validity_len))"

record encoded_payload =
  ep_bytes :: bytes
  ep_encoding :: encoding
  ep_params :: enc_params

definition encode_column ::
    "other_codecs \<Rightarrow> devon_value list \<Rightarrow> logical_type \<Rightarrow> encoding \<Rightarrow> encoded_payload devon_result" where
  "encode_column oc vs ty enc =
    (if (case fixed_payload_len (length vs) ty of None \<Rightarrow> False | Some n \<Rightarrow> n > 2 ^ 32 - 1)
     then Inl (InvalidArgument ''column {} payload length exceeds u32'')
     else
       (let payload = encode_validity vs
        in rbind (case enc of
                    Plain \<Rightarrow>
                      rbind (plain_section oc vs ty) (\<lambda>section. Inr (section, no_params))
                  | _ \<Rightarrow> encode_values oc enc (from_values ty vs) ty)
             (\<lambda>(section, params).
             let payload = payload @ section
             in if length payload > 2 ^ 32 - 1
                then Inl (InvalidArgument ''column {} payload length exceeds u32'')
                else Inr \<lparr> ep_bytes = payload, ep_encoding = enc, ep_params = params \<rparr>)))"

definition decode_column_encoded ::
    "other_codecs \<Rightarrow> bytes \<Rightarrow> nat \<Rightarrow> logical_type \<Rightarrow> encoding \<Rightarrow> enc_params \<Rightarrow> column devon_result" where
  "decode_column_encoded oc payload row_count ty enc params =
    (let validity_len = bitmap_len row_count
     in if length payload < validity_len
        then Inl (Corrupt ''column {} payload is {} bytes, shorter than the validity bitmap {}'')
        else
          (let validity = take validity_len payload
           in rbind (validate_bitmap_padding validity row_count) (\<lambda>_.
              decode_values oc enc params (drop validity_len payload)
                (bitmap_from_validity_bytes validity row_count) row_count ty)))"

fun materialize_values :: "column \<Rightarrow> devon_value list" where
  "materialize_values (ColBoxed vs) = vs"
| "materialize_values col = map (value_at col) [0..<col_len col]"

section \<open>The directory section\<close>

definition encode_section_payload :: "(encoding \<times> enc_params) list \<Rightarrow> bytes" where
  "encode_section_payload selections =
    concat (map (\<lambda>(enc, p0, p1, p2). [encoding_id enc, p0, p1, p2]) selections)"

definition decode_record :: "bytes \<Rightarrow> logical_type \<Rightarrow> (encoding \<times> enc_params) devon_result" where
  "decode_record rec ty =
    rbind (ok_or (Corrupt ''COLUMN_ENCODINGS column {} encoding id {} is not registered'')
             (encoding_from_id (rec ! 0))) (\<lambda>enc.
    if \<not> is_admissible_for enc ty
    then Inl (Corrupt ''COLUMN_ENCODINGS column {} encoding {} is not admissible for {}'')
    else
      (let params = (rec ! 1, rec ! 2, rec ! 3)
       in if (enc = Plain \<or> enc = Constant) \<and> params \<noteq> no_params
          then Inl (Corrupt ''COLUMN_ENCODINGS column {} encoding {} parameters are not zero'')
          else Inr (enc, params)))"

definition decode_encoding_section ::
    "bytes \<Rightarrow> logical_type list \<Rightarrow> (encoding \<times> enc_params) list devon_result" where
  "decode_encoding_section payload types =
    rbind (ok_or (Corrupt ''COLUMN_ENCODINGS payload length overflows usize'')
             (checked_mul_usize (length types) 4)) (\<lambda>expected.
    if length payload \<noteq> expected
    then Inl (Corrupt ''COLUMN_ENCODINGS section_len is {}, expected {}'')
    else
      rbind (rmapM (\<lambda>i. decode_record (subslice payload (4 * i) (4 * i + 4)) (types ! i))
               [0..<length types]) (\<lambda>selections.
      if list_all (\<lambda>(enc, params). enc = Plain) selections
      then Inl (Corrupt ''COLUMN_ENCODINGS section is present but every column is plain'')
      else Inr selections))"

section \<open>Dispatch meets the contract of each encoding\<close>

definition scalar_encodings :: "encoding list" where
  "scalar_encodings = [Constant, Rle, BitpackFor, Dictionary]"

lemma encode_values_eq_Inr:
  assumes "encode_values oc enc col ty = Inr r"
  shows "is_admissible_for enc ty"
    and "enc = Constant \<Longrightarrow> constant_encode_admitted col ty = Inr r"
    and "enc = Rle \<Longrightarrow> rle_encode col ty = Inr r"
    and "enc = BitpackFor \<Longrightarrow> bitpack_encode col ty = Inr r"
    and "enc = Dictionary \<Longrightarrow> dictionary_encode col ty = Inr r"
proof -
  show adm: "is_admissible_for enc ty"
    using assms by (auto simp: encode_values_def split: if_splits)
  show "enc = Constant \<Longrightarrow> constant_encode_admitted col ty = Inr r"
    using assms adm
    by (cases ty) (auto simp: encode_values_def constant_encode_admitted_def constant_type_def)
  show "enc = Rle \<Longrightarrow> rle_encode col ty = Inr r"
    and "enc = BitpackFor \<Longrightarrow> bitpack_encode col ty = Inr r"
    and "enc = Dictionary \<Longrightarrow> dictionary_encode col ty = Inr r"
    using assms adm by (auto simp: encode_values_def)
qed

lemma dispatch_contract:
  assumes "enc \<in> set scalar_encodings"
  shows "values_encoding (encode_values oc enc) (decode_values oc enc)"
proof
  fix col ty sec params validity
  assume enc: "encode_values oc enc col ty = Inr (sec, params)"
    and wf: "column_wf ty col" "validity_for col validity"
  note arms = encode_values_eq_Inr [OF enc]
  from assms consider "enc = Constant" | "enc = Rle" | "enc = BitpackFor" | "enc = Dictionary"
    by (auto simp: scalar_encodings_def)
  then show "\<exists>col'. decode_values oc enc params sec validity (col_len col) ty = Inr col' \<and>
      col_eq col' col"
  proof cases
    case 1
    with const_enc.round_trip [OF arms(2) wf] show ?thesis by (simp add: decode_values_def)
  next
    case 2
    with rle.round_trip [OF arms(3) wf] show ?thesis by (simp add: decode_values_def)
  next
    case 3
    with bitpack.round_trip [OF arms(4) wf] show ?thesis by (simp add: decode_values_def)
  next
    case 4
    with dictionary.round_trip [OF arms(5) wf] show ?thesis by (simp add: decode_values_def)
  qed
qed

section \<open>Validity bytes round-trip\<close>

lemma bit_is_set_bit: "bit_is_set bs row \<longleftrightarrow> bit (bs ! (row div 8)) (row mod 8)"
  by (simp add: bit_is_set_def and_exp_eq_0_iff_not_bit push_bit_of_1)

lemma bit_set_bit8:
  "j < length bs \<Longrightarrow> bit (set_bit8 row bs ! j) k \<longleftrightarrow>
    bit (bs ! j) k \<or> (row div 8 = j \<and> row mod 8 = k)"
  by (cases "row div 8 = j") (auto simp: set_bit8_def bit_or_iff bit_exp_iff push_bit_of_1)

lemma bit_fold_validity:
  "j < length bs \<Longrightarrow>
    bit (fold (\<lambda>(row, v) bs. if v \<noteq> Null then set_bit8 row bs else bs) rvs bs ! j) k \<longleftrightarrow>
      bit (bs ! j) k \<or> (\<exists>(row, v) \<in> set rvs. v \<noteq> Null \<and> row div 8 = j \<and> row mod 8 = k)"
proof (induction rvs arbitrary: bs)
  case (Cons rv rvs)
  obtain row v where rv: "rv = (row, v)" by fastforce
  have "length (set_bit8 row bs) = length bs" by (simp add: set_bit8_def)
  with Cons show ?case by (auto simp: rv bit_set_bit8)
qed simp

lemma length_encode_validity [simp]: "length (encode_validity vs) = bitmap_len (length vs)"
proof -
  have "length (fold (\<lambda>(row, v) bs. if v \<noteq> Null then set_bit8 row bs else bs) rvs bs) = length bs"
    for rvs bs
    by (induction rvs arbitrary: bs) (auto simp: set_bit8_def)
  then show ?thesis by (simp add: encode_validity_def)
qed

lemma row_byte_in_range: "row < n \<Longrightarrow> row div 8 < bitmap_len n"
proof -
  assume "row < n"
  then have "(row + 8) div 8 \<le> (n + 7) div 8" by (intro div_le_mono) simp
  then show ?thesis by (simp add: bitmap_len_def div_ceil_def)
qed

lemma bit_encode_validity:
  assumes "j < bitmap_len (length vs)"
  shows "bit (encode_validity vs ! j) k \<longleftrightarrow>
    (\<exists>row < length vs. vs ! row \<noteq> Null \<and> row div 8 = j \<and> row mod 8 = k)"
  using assms unfolding encode_validity_def
  by (subst bit_fold_validity) (auto simp: in_set_enumerate_eq)

lemma bit_is_set_encode_validity:
  assumes "row < length vs"
  shows "bit_is_set (encode_validity vs) row \<longleftrightarrow> vs ! row \<noteq> Null"
proof -
  have "row' = row" if "row' div 8 = row div 8" "row' mod 8 = row mod 8" for row'
    using that by (metis div_mod_decomp)
  then show ?thesis
    using assms row_byte_in_range [OF assms]
    by (auto simp: bit_is_set_bit bit_encode_validity)
qed

lemma validate_encode_validity: "validate_bitmap_padding (encode_validity vs) (length vs) = Inr ()"
proof (cases "length vs mod 8 = 0 \<or> encode_validity vs = []")
  case True
  then show ?thesis by (auto simp: validate_bitmap_padding_def Let_def)
next
  case False
  let ?n = "length vs"
  let ?mask = "push_bit (?n mod 8) 1 - 1 :: u8"
  have mask: "bit ?mask k \<longleftrightarrow> k < ?n mod 8" for k
  proof -
    have "bit (mask (?n mod 8) :: u8) k \<longleftrightarrow> k < ?n mod 8"
      by (auto simp: bit_mask_iff)
    then show ?thesis by (simp add: mask_eq_exp_minus_1 push_bit_of_1)
  qed
  have len: "bitmap_len ?n = Suc (?n div 8)"
  proof -
    define q r where "q = ?n div 8" and "r = ?n mod 8"
    have "?n = 8 * q + r" "0 < r" "r < 8" using False by (auto simp: q_def r_def)
    then show ?thesis by (simp add: bitmap_len_def div_ceil_def div_nat_eqI)
  qed
  have "last (encode_validity vs) = encode_validity vs ! (?n div 8)"
    using False len by (simp add: last_conv_nth)
  moreover have "\<not> bit (encode_validity vs ! (?n div 8)) k" if "\<not> k < ?n mod 8" for k
    using that len by (auto simp: bit_encode_validity div_mod_less_iff [of _ 8 "?n", symmetric])
  ultimately have "last (encode_validity vs) AND NOT ?mask = 0"
    using mask by (intro bit_word_eqI) (auto simp: bit_and_iff bit_not_iff)
  then show ?thesis by (simp add: validate_bitmap_padding_def Let_def)
qed

lemma bitmap_from_bytes:
  "bm_is_valid (bitmap_from_validity_bytes bs n) row \<longleftrightarrow> row < n \<and> bit_is_set bs row"
proof -
  have "bitmap_ok (fold (\<lambda>row b. if \<not> bit_is_set bs row then bm_clear b row else b) rows b) \<and>
      bm_len (fold (\<lambda>row b. if \<not> bit_is_set bs row then bm_clear b row else b) rows b) = n \<and>
      (bm_is_valid (fold (\<lambda>row b. if \<not> bit_is_set bs row then bm_clear b row else b) rows b) row
        \<longleftrightarrow> bm_is_valid b row \<and> (row \<in> set rows \<longrightarrow> bit_is_set bs row))"
    if "set rows \<subseteq> {..<n}" "bitmap_ok b" "bm_len b = n" for rows b
    using that
  proof (induction rows arbitrary: b)
    case (Cons r rows)
    then show ?case
      using Cons.IH [of b] Cons.IH [of "bm_clear b r"]
      by (auto simp: bitmap_ok_clear bm_is_valid_clear)
  qed auto
  note steps = this
  have rows: "set [0..<n] \<subseteq> {..<n}" by auto
  from steps [OF rows, of "bm_all_valid n"] show ?thesis
    by (auto simp: bitmap_from_validity_bytes_def bitmap_ok_all_valid bm_all_valid_is_valid)
qed

section \<open>Payloads and sections round-trip\<close>

lemma materialize_values_eq: "materialize_values col = map (value_at col) [0..<col_len col]"
proof (cases col)
  case (ColBoxed xs)
  then show ?thesis by (auto intro: nth_equalityI)
qed simp_all

text \<open>
  C31. A column payload written under any of the four modelled encodings reads back: whenever
  \<open>encode_column\<close> accepts a list of well-typed values, splitting the payload, checking and
  repacking the validity bytes and decoding the section under the recorded parameters gives the
  same list of values.
\<close>

theorem column_payload_roundtrip:
  assumes "enc \<in> set scalar_encodings" and "type_wf ty"
    and "\<forall>v \<in> set vs. matches_type v ty \<and> value_wf v" and "length vs < 2 ^ 60"
    and "encode_column oc vs ty enc = Inr p"
  shows "ep_encoding p = enc \<and>
    (\<exists>col. decode_column_encoded oc (ep_bytes p) (length vs) ty (ep_encoding p) (ep_params p) = Inr col \<and>
      materialize_values col = vs)"
proof -
  from assms(1,5) obtain sec params where
    enc: "encode_values oc enc (from_values ty vs) ty = Inr (sec, params)"
    and p: "p = \<lparr> ep_bytes = encode_validity vs @ sec, ep_encoding = enc, ep_params = params \<rparr>"
    by (cases enc) (auto simp: encode_column_def scalar_encodings_def Let_def rbind_eq_Inr
        split: if_splits)
  let ?b = "bitmap_from_validity_bytes (encode_validity vs) (length vs)"
  have b: "\<forall>row < length vs. bm_is_valid ?b row \<longleftrightarrow> vs ! row \<noteq> Null"
    by (simp add: bitmap_from_bytes bit_is_set_encode_validity)
  from values_encoding.values_round_trip [OF dispatch_contract [OF assms(1)] enc assms(2,4,3) b]
  obtain col where col: "decode_values oc enc params sec ?b (length vs) ty = Inr col"
    "col_len col = length vs" "map (value_at col) [0..<length vs] = vs" by blast
  then show ?thesis
    by (simp add: p decode_column_encoded_def Let_def validate_encode_validity materialize_values_eq)
qed

definition rejecting_codecs :: other_codecs where
  "rejecting_codecs =
    \<lparr> plain_section = (\<lambda>_ _. Inl (InvalidArgument ''unsupported'')),
      plain_column = (\<lambda>_ _ _. Inl (Corrupt ''unsupported'')),
      fsst_encode = (\<lambda>_ _. Inl (InvalidArgument ''unsupported'')),
      fsst_decode = (\<lambda>_ _ _ _ _. Inl (Corrupt ''unsupported'')),
      alp_encode = (\<lambda>_ _. Inl (InvalidArgument ''unsupported'')),
      alp_decode = (\<lambda>_ _ _ _ _. Inl (Corrupt ''unsupported'')) \<rparr>"

theorem column_payload_roundtrip_witness:
  "\<exists>p col. encode_column rejecting_codecs [VInt64 7, Null, VInt64 7] TInt64 Constant = Inr p \<and>
     decode_column_encoded rejecting_codecs (ep_bytes p) 3 TInt64 (ep_encoding p) (ep_params p) = Inr col \<and>
     materialize_values col = [VInt64 7, Null, VInt64 7]"
proof -
  let ?vs = "[VInt64 7, Null, VInt64 7]"
  have "case constant_encode (from_values TInt64 ?vs) TInt64 of
      Inl e \<Rightarrow> False | Inr (sec, params) \<Rightarrow> length sec = 8"
    by code_simp
  then obtain sec params where "constant_encode (from_values TInt64 ?vs) TInt64 = Inr (sec, params)"
    and "length sec = 8"
    by (auto split: sum.splits)
  then obtain p where p: "encode_column rejecting_codecs ?vs TInt64 Constant = Inr p"
    by (simp add: encode_column_def encode_values_def fixed_payload_len_def checked_mul_usize_def
        checked_add_usize_def bitmap_len_def div_ceil_def)
  have three: "length ?vs = 3" by simp
  have hyps: "Constant \<in> set scalar_encodings" "type_wf TInt64"
    "\<forall>v \<in> set ?vs. matches_type v TInt64 \<and> value_wf v" "length ?vs < 2 ^ 60"
    by (simp_all add: scalar_encodings_def)
  from column_payload_roundtrip [OF hyps p] p show ?thesis unfolding three by blast
qed

section \<open>The directory section is a bijection on admissible selections\<close>

definition selection_ok :: "logical_type \<Rightarrow> encoding \<times> enc_params \<Rightarrow> bool" where
  "selection_ok ty sel \<longleftrightarrow> is_admissible_for (fst sel) ty \<and>
    (fst sel \<notin> {Plain, Constant} \<or> snd sel = no_params)"

abbreviation selection_record :: "encoding \<times> enc_params \<Rightarrow> bytes" where
  "selection_record \<equiv> \<lambda>(enc, p0, p1, p2). [encoding_id enc, p0, p1, p2]"

lemma decode_record_eq_Inr:
  assumes "length r = 4"
  shows "decode_record r ty = Inr sel \<longleftrightarrow> r = selection_record sel \<and> selection_ok ty sel"
proof -
  obtain a b c d where r: "r = [a, b, c, d]"
    using assms by (auto simp: numeral_eq_Suc length_Suc_conv)
  obtain e p0 p1 p2 where sel: "sel = (e, p0, p1, p2)" by (cases sel) auto
  show ?thesis
    by (auto simp: r sel decode_record_def selection_ok_def rbind_eq_Inr ok_or_eq_Inr
        encoding_from_id_iff Let_def split: if_splits)
qed

lemma section_records:
  assumes "length bs = 4 * n"
  shows "list_all2 (\<lambda>i sel. subslice bs (4 * i) (4 * i + 4) = selection_record sel) [0..<n] sels \<longleftrightarrow>
    length sels = n \<and> bs = encode_section_payload sels"
proof -
  have rec4: "length (selection_record sel) = 4" for sel by (auto split: prod.splits)
  show ?thesis
  proof (intro iffI conjI)
    assume all: "list_all2 (\<lambda>i sel. subslice bs (4 * i) (4 * i + 4) = selection_record sel) [0..<n] sels"
    then show len: "length sels = n" by (auto dest: list_all2_lengthD)
    have "concat (map selection_record (map ((!) sels) [0..<n])) = take (4 * n) bs"
      by (rule concat_map_chunks)
        (use all assms len in \<open>auto simp: list_all2_conv_all_nth subslice_def drop_take\<close>)
    moreover have "map ((!) sels) [0..<n] = sels" using map_nth [of sels] len by simp
    ultimately show "bs = encode_section_payload sels"
      using assms by (simp only: encode_section_payload_def) simp
  next
    assume "length sels = n \<and> bs = encode_section_payload sels"
    then show "list_all2 (\<lambda>i sel. subslice bs (4 * i) (4 * i + 4) = selection_record sel) [0..<n] sels"
      using subslice_concat_chunk [of sels selection_record 4 _ 4 0] rec4
      by (auto simp: list_all2_conv_all_nth encode_section_payload_def subslice_def)
  qed
qed

text \<open>
  C32. The COLUMN_ENCODINGS section of a node group directory is canonical: it decodes against a
  column schema to a list of selections exactly when it is the encoding of those selections, there
  is one per column, each is admissible for its column's type, the encodings without parameters
  have zero parameter bytes, and at least one column is not plain. So a decoded section re-encodes
  to the same bytes, and every other section is rejected.
\<close>

theorem encoding_section_canonical:
  "decode_encoding_section payload types = Inr selections \<longleftrightarrow>
    payload = encode_section_payload selections \<and> list_all2 selection_ok types selections \<and>
    list_ex (\<lambda>sel. fst sel \<noteq> Plain) selections \<and> length payload < 2 ^ 64"
proof (cases "length payload = 4 * length types \<and> length payload < 2 ^ 64")
  case True
  let ?n = "length types"
  have records: "rmapM (\<lambda>i. decode_record (subslice payload (4 * i) (4 * i + 4)) (types ! i)) [0..<?n]
      = Inr selections \<longleftrightarrow>
    payload = encode_section_payload selections \<and> list_all2 selection_ok types selections"
  proof -
    have "length (subslice payload (4 * i) (4 * i + 4)) = 4" if "i < ?n" for i
      using that True by (simp add: subslice_def)
    then have "rmapM (\<lambda>i. decode_record (subslice payload (4 * i) (4 * i + 4)) (types ! i)) [0..<?n]
        = Inr selections \<longleftrightarrow>
      list_all2 (\<lambda>i sel. subslice payload (4 * i) (4 * i + 4) = selection_record sel) [0..<?n] selections
        \<and> list_all2 selection_ok types selections"
      by (auto simp: rmapM_eq_Inr list_all2_conv_all_nth decode_record_eq_Inr)
    then show ?thesis
      using section_records [of payload ?n selections] True by (auto dest: list_all2_lengthD)
  qed
  from True have "checked_mul_usize ?n 4 = Some (length payload)"
    by (simp add: checked_mul_usize_def)
  moreover have "list_all (\<lambda>(enc, params). enc = Plain) selections \<longleftrightarrow>
      \<not> list_ex (\<lambda>sel. fst sel \<noteq> Plain) selections"
    by (auto simp: list_all_iff list_ex_iff)
  ultimately show ?thesis
    using True records by (auto simp: decode_encoding_section_def rbind_eq_Inr split: if_splits)
next
  case False
  have "length (encode_section_payload selections) = 4 * length selections"
    unfolding encode_section_payload_def by (rule length_concat_chunks) auto
  with False show ?thesis
    by (auto simp: decode_encoding_section_def rbind_eq_Inr ok_or_eq_Inr
        checked_mul_usize_eq_Some split: if_splits dest: list_all2_lengthD)
qed

end
