(* ===== verification/Schema.thy ===== *)
theory Schema
  imports ValueTypes
begin

text \<open>
  Schemas (\<^verbatim>\<open>devondb-types/src/schema.rs\<close>): identifier folding, the did-you-mean suggestion, and the
  validated node and relationship table schemas.
\<close>

section \<open>Identifier folding\<close>

definition is_ascii_uppercase :: "char \<Rightarrow> bool" where
  "is_ascii_uppercase c \<longleftrightarrow> 65 \<le> (of_char c :: nat) \<and> (of_char c :: nat) \<le> 90"

definition to_ascii_lowercase :: "char \<Rightarrow> char" where
  "to_ascii_lowercase c = (if is_ascii_uppercase c then char_of (of_char c + 32 :: nat) else c)"

definition fold_name :: "string \<Rightarrow> string" where
  "fold_name name =
    (if list_ex is_ascii_uppercase name then map to_ascii_lowercase name else name)"

section \<open>Suggestions\<close>

text \<open>
  \<open>levenshtein\<close>: one row of the table per byte of \<open>a\<close>. \<open>lev_cell\<close> is the body of the inner loop,
  which fills \<open>current[column + 1]\<close> from \<open>previous\<close> and \<open>current[column]\<close>.
\<close>

definition lev_cell :: "char \<Rightarrow> nat list \<Rightarrow> nat \<times> char \<Rightarrow> nat list \<Rightarrow> nat list" where
  "lev_cell a_byte previous = (\<lambda>(column, b_byte) current.
    (let substitution = previous ! column + (if a_byte \<noteq> b_byte then 1 else 0)
     in current[column + 1 :=
          min (min substitution (previous ! (column + 1) + 1)) (current ! column + 1)]))"

definition lev_row :: "string \<Rightarrow> nat \<times> char \<Rightarrow> nat list \<times> nat list \<Rightarrow> nat list \<times> nat list" where
  "lev_row b = (\<lambda>(row, a_byte) (previous, current).
    (let current = current[0 := row + 1];
         current = fold (lev_cell a_byte previous) (enumerate 0 b) current
     in (current, previous)))"

definition levenshtein :: "string \<Rightarrow> string \<Rightarrow> nat" where
  "levenshtein a b =
    (let (previous, current) =
       fold (lev_row b) (enumerate 0 a) ([0..<length b + 1], replicate (length b + 1) 0)
     in previous ! length b)"

definition suggestion_budget :: "nat \<Rightarrow> nat" where
  "suggestion_budget folded_input_len =
    (if folded_input_len \<le> 4 then 1 else if folded_input_len \<le> 8 then 2 else 3)"

fun suggest_loop :: "string \<Rightarrow> nat \<Rightarrow> string list \<Rightarrow> (nat \<times> string) option \<Rightarrow> (nat \<times> string) option" where
  "suggest_loop folded_input budget [] best = best"
| "suggest_loop folded_input budget (candidate # candidates) best =
    (let distance = levenshtein folded_input (fold_name candidate);
         closer = (case best of None \<Rightarrow> True | Some (best_distance, _) \<Rightarrow> distance < best_distance)
     in suggest_loop folded_input budget candidates
          (if distance \<noteq> 0 \<and> distance \<le> budget \<and> closer then Some (distance, candidate) else best))"

definition did_you_mean :: "string \<Rightarrow> string list \<Rightarrow> string option" where
  "did_you_mean input candidates =
    (let folded_input = fold_name input;
         budget = suggestion_budget (length folded_input)
     in map_option snd (suggest_loop folded_input budget candidates None))"

definition suggestion_suffix :: "string \<Rightarrow> string list \<Rightarrow> string" where
  "suggestion_suffix input candidates =
    (case did_you_mean input candidates of
       Some name \<Rightarrow> '' (did you mean `'' @ name @ ''`?)''
     | None \<Rightarrow> '''')"

section \<open>Table schemas\<close>

record schema_column =
  scol_name :: string
  scol_ty :: logical_type
  scol_primary_key :: bool

record node_table_schema =
  node_name :: string
  node_columns :: "schema_column list"

record rel_table_schema =
  rel_name :: string
  rel_from :: string
  rel_to :: string
  rel_columns :: "schema_column list"

datatype table_kind = NodeKind | RelationshipKind

definition validate_table_name :: "string \<Rightarrow> unit devon_result" where
  "validate_table_name name =
    (if name = [] then Inl (InvalidArgument ''{} table has an empty table name'') else Inr ())"

definition validate_endpoint_name :: "string \<Rightarrow> unit devon_result" where
  "validate_endpoint_name name =
    (if name = []
     then Inl (InvalidArgument ''relationship table {} has an empty {} node-table name'')
     else Inr ())"

definition validate_decimal_column :: "schema_column \<Rightarrow> unit devon_result" where
  "validate_decimal_column col =
    (case scol_ty col of
       TDecimal precision scale \<Rightarrow>
         if \<not> (1 \<le> precision \<and> precision \<le> MAX_PRECISION)
         then Inl (InvalidArgument ''column {} in {} table {} has Decimal precision {}'')
         else if scale > precision
         then Inl (InvalidArgument ''column {} in {} table {} has Decimal scale {}'')
         else Inr ()
     | _ \<Rightarrow> Inr ())"

fun scalar_v2_type :: "logical_type \<Rightarrow> bool" where
  "scalar_v2_type TTimestamp = True"
| "scalar_v2_type TBytes = True"
| "scalar_v2_type (TDecimal precision scale) = True"
| "scalar_v2_type TJson = True"
| "scalar_v2_type ty = False"

fun validate_columns_loop ::
    "table_kind \<Rightarrow> schema_column list \<Rightarrow> string list \<Rightarrow> unit devon_result" where
  "validate_columns_loop kind [] names = Inr ()"
| "validate_columns_loop kind (col # cols) names =
    (if scol_name col = []
     then Inl (InvalidArgument ''column at index {} in {} table {} has an empty name'')
     else if fold_name (scol_name col) \<in> set names
     then Inl (InvalidArgument ''column {} is duplicated in {} table {}'')
     else
       rbind (validate_decimal_column col) (\<lambda>_.
       if kind = RelationshipKind \<and> scol_ty col = TGeoPoint
       then Inl (InvalidArgument
         ''column {} in {} table {}: GeoPoint relationship properties are not supported'')
       else if kind = RelationshipKind \<and> scalar_v2_type (scol_ty col)
       then Inl (InvalidArgument
         ''column {} in {} table {}: {} relationship properties are not supported'')
       else validate_columns_loop kind cols (fold_name (scol_name col) # names)))"

definition validate_columns :: "table_kind \<Rightarrow> schema_column list \<Rightarrow> unit devon_result" where
  "validate_columns kind cols = validate_columns_loop kind cols []"

definition validate_node_primary_key :: "schema_column list \<Rightarrow> unit devon_result" where
  "validate_node_primary_key cols =
    (let primary_keys = filter scol_primary_key cols
     in if length primary_keys \<noteq> 1
        then Inl (InvalidArgument ''node table {} must have exactly one primary key column; found {}'')
        else
          (case scol_ty (primary_keys ! 0) of
             TInt64 \<Rightarrow> Inr ()
           | TString \<Rightarrow> Inr ()
           | _ \<Rightarrow> Inl (InvalidArgument
               ''primary key column {} in node table {} has type {}; v0 requires Int64 or String'')))"

definition validate_rel_primary_keys :: "schema_column list \<Rightarrow> unit devon_result" where
  "validate_rel_primary_keys cols =
    (case find scol_primary_key cols of
       Some col \<Rightarrow>
         Inl (InvalidArgument ''column {} in relationship table {} cannot be a primary key'')
     | None \<Rightarrow> Inr ())"

definition node_schema_new :: "string \<Rightarrow> schema_column list \<Rightarrow> node_table_schema devon_result" where
  "node_schema_new name cols =
    rbind (validate_table_name name) (\<lambda>_.
    rbind (validate_columns NodeKind cols) (\<lambda>_.
    rbind (validate_node_primary_key cols) (\<lambda>_.
    Inr \<lparr> node_name = name, node_columns = cols \<rparr>)))"

definition rel_schema_new ::
    "string \<Rightarrow> string \<Rightarrow> string \<Rightarrow> schema_column list \<Rightarrow> rel_table_schema devon_result" where
  "rel_schema_new name from to cols =
    rbind (validate_table_name name) (\<lambda>_.
    rbind (validate_endpoint_name from) (\<lambda>_.
    rbind (validate_endpoint_name to) (\<lambda>_.
    rbind (validate_columns RelationshipKind cols) (\<lambda>_.
    rbind (validate_rel_primary_keys cols) (\<lambda>_.
    Inr \<lparr> rel_name = name, rel_from = from, rel_to = to, rel_columns = cols \<rparr>)))))"

text \<open>\<open>Iterator::position\<close>, and the lookup both schema types share.\<close>

fun position :: "('a \<Rightarrow> bool) \<Rightarrow> 'a list \<Rightarrow> nat option" where
  "position P [] = None"
| "position P (x # xs) = (if P x then Some 0 else map_option Suc (position P xs))"

definition column_index :: "schema_column list \<Rightarrow> string \<Rightarrow> nat option" where
  "column_index cols name =
    (let folded = fold_name name
     in position (\<lambda>col. fold_name (scol_name col) = folded) cols)"

section \<open>Edit distance\<close>

text \<open>One edit, and the least number of edits between two strings.\<close>

inductive edit1 :: "'a list \<Rightarrow> 'a list \<Rightarrow> bool" where
  edit_insert: "edit1 (u @ v) (u @ c # v)"
| edit_delete: "edit1 (u @ c # v) (u @ v)"
| edit_substitute: "edit1 (u @ c # v) (u @ d # v)"

lemma edit1_Cons: "edit1 a b \<Longrightarrow> edit1 (x # a) (x # b)"
  by (auto elim!: edit1.cases simp flip: append_Cons intro: edit1.intros)

lemma edit1_rev: "edit1 a b \<Longrightarrow> edit1 (rev a) (rev b)"
proof (induction rule: edit1.induct)
  case (edit_insert u v c)
  then show ?case using edit1.edit_insert [of "rev v" "rev u" c] by simp
next
  case (edit_delete u c v)
  then show ?case using edit1.edit_delete [of "rev v" c "rev u"] by simp
next
  case (edit_substitute u c v d)
  then show ?case using edit1.edit_substitute [of "rev v" c "rev u" d] by simp
qed

lemma edits_Cons: "(edit1 ^^ n) a b \<Longrightarrow> (edit1 ^^ n) (x # a) (x # b)"
proof (induction n arbitrary: b)
  case (Suc n)
  then show ?case by (auto intro!: relcomppI edit1_Cons)
qed simp

lemma edits_rev: "(edit1 ^^ n) a b \<Longrightarrow> (edit1 ^^ n) (rev a) (rev b)"
proof (induction n arbitrary: b)
  case (Suc n)
  then show ?case by (auto intro!: relcomppI edit1_rev)
qed simp

fun edit_distance :: "'a list \<Rightarrow> 'a list \<Rightarrow> nat" where
  "edit_distance [] b = length b"
| "edit_distance a [] = length a"
| "edit_distance (x # a) (y # b) =
    min (min (edit_distance a b + (if x \<noteq> y then 1 else 0)) (edit_distance a (y # b) + 1))
      (edit_distance (x # a) b + 1)"

lemma edit_distance_Nil2 [simp]: "edit_distance a [] = length a"
  by (cases a) simp_all

lemma edit_distance_self [simp]: "edit_distance a a = 0"
  by (induction a) simp_all

lemma edit_distance_Cons_le: "edit_distance (x # a) b \<le> Suc (edit_distance a b)"
  by (cases b) auto

lemma edit_distance_insert: "edit_distance a (y # b) \<le> Suc (edit_distance a b)"
  by (cases a) auto

lemma edit_distance_delete: "edit_distance a b \<le> Suc (edit_distance a (y # b))"
proof (induction a)
  case (Cons x a)
  then show ?case using edit_distance_Cons_le [of x a b] by auto
qed simp

lemma edit_distance_substitute: "edit_distance a (z # b) \<le> Suc (edit_distance a (y # b))"
proof (induction a)
  case (Cons x a)
  then show ?case using edit_distance_Cons_le [of x a "z # b"] by auto
qed simp

lemma edit_distance_under_Cons:
  assumes "\<And>a. edit_distance a b' \<le> Suc (edit_distance a b)"
  shows "edit_distance a (y # b') \<le> Suc (edit_distance a (y # b))"
proof (induction a)
  case Nil
  show ?case using assms [of "[]"] by simp
next
  case (Cons x a)
  then show ?case using assms [of a] assms [of "x # a"] by auto
qed

lemma edit_distance_edit1: "edit1 b b' \<Longrightarrow> edit_distance a b' \<le> Suc (edit_distance a b)"
proof (induction arbitrary: a rule: edit1.induct)
  case (edit_insert u v c)
  show ?case
    by (induction u arbitrary: a) (simp_all add: edit_distance_insert edit_distance_under_Cons del: edit_distance.simps)
next
  case (edit_delete u c v)
  show ?case
    by (induction u arbitrary: a) (simp_all add: edit_distance_delete edit_distance_under_Cons del: edit_distance.simps)
next
  case (edit_substitute u c v d)
  show ?case
    by (induction u arbitrary: a) (simp_all add: edit_distance_substitute edit_distance_under_Cons del: edit_distance.simps)
qed

lemma edit_distance_minimal: "(edit1 ^^ n) a b \<Longrightarrow> edit_distance a b \<le> n"
proof (induction n arbitrary: b)
  case (Suc n)
  then obtain c where "(edit1 ^^ n) a c" "edit1 c b" by auto
  with Suc.IH [of c] edit_distance_edit1 [of c b a] show ?case by simp
qed simp

lemma edits_from_Nil: "(edit1 ^^ length b) [] b"
proof (induction b)
  case (Cons y b)
  then show ?case using edit1.edit_insert [of "[]" b y] by (auto intro!: relcomppI)
qed simp

lemma edits_to_Nil: "(edit1 ^^ length a) a []"
proof (induction a)
  case (Cons x a)
  moreover have "edit1 (x # a) a" using edit1.edit_delete [of "[]" x a] by simp
  ultimately show ?case by (auto intro: relpowp_Suc_I2 simp del: relpowp.simps)
qed simp

lemma edits_then: "(edit1 ^^ n) a b \<Longrightarrow> edit1 b c \<Longrightarrow> (edit1 ^^ (n + 1)) a c"
  by (auto intro!: relcomppI)

lemma edits_first: "edit1 a b \<Longrightarrow> (edit1 ^^ n) b c \<Longrightarrow> (edit1 ^^ (n + 1)) a c"
  by (auto intro: relpowp_Suc_I2 simp del: relpowp.simps)

lemma edit_distance_achieved: "(edit1 ^^ edit_distance a b) a b"
proof (induction a b rule: edit_distance.induct)
  case (3 x a y b)
  have sub: "(edit1 ^^ (edit_distance a b + (if x \<noteq> y then 1 else 0))) (x # a) (y # b)"
    using edits_Cons [OF "3.IH"(1), of x] edits_then edit1.edit_substitute [of "[]" x b y] by auto
  have del: "(edit1 ^^ (edit_distance a (y # b) + 1)) (x # a) (y # b)"
    using edits_first [OF _ "3.IH"(2)] edit1.edit_delete [of "[]" x a] by simp
  have ins: "(edit1 ^^ (edit_distance (x # a) b + 1)) (x # a) (y # b)"
    using edits_then [OF "3.IH"(3)] edit1.edit_insert [of "[]" b y] by simp
  show ?case using sub del ins by (simp only: edit_distance.simps min_def split: if_split) simp
qed (use edits_from_Nil edits_to_Nil in \<open>simp_all del: length_Cons list.size relpowp.simps\<close>)

section \<open>The table computes the edit distance\<close>

abbreviation prefix_distance :: "'a list \<Rightarrow> 'a list \<Rightarrow> nat" where
  "prefix_distance a b \<equiv> edit_distance (rev a) (rev b)"

lemma lev_cells:
  assumes "b = u @ v" "length cur = length b + 1"
    and "\<forall>k \<le> length u. cur ! k = prefix_distance (a @ [x]) (take k b)"
    and "\<forall>k \<le> length b. prev ! k = prefix_distance a (take k b)"
  shows "length (fold (lev_cell x prev) (enumerate (length u) v) cur) = length b + 1 \<and>
    (\<forall>k \<le> length b. fold (lev_cell x prev) (enumerate (length u) v) cur ! k
      = prefix_distance (a @ [x]) (take k b))"
  using assms
proof (induction v arbitrary: u cur)
  case (Cons y v)
  let ?cur = "lev_cell x prev (length u, y) cur"
  have u: "take (length u) b = u" "take (Suc (length u)) b = u @ [y]" "length u < length b"
    using Cons.prems(1) by simp_all
  have cell: "?cur = cur[length u + 1 := prefix_distance (a @ [x]) (u @ [y])]"
    using Cons.prems(3,4) u by (simp add: lev_cell_def)
  have "\<forall>k \<le> length (u @ [y]). ?cur ! k = prefix_distance (a @ [x]) (take k b)"
  proof (intro allI impI)
    fix k assume "k \<le> length (u @ [y])"
    then consider "k \<le> length u" | "k = Suc (length u)" by (auto simp: le_Suc_eq)
    then show "?cur ! k = prefix_distance (a @ [x]) (take k b)"
      by cases (use Cons.prems(2,3) u in \<open>simp_all add: cell\<close>)
  qed
  with Cons.IH [of "u @ [y]" ?cur] Cons.prems(1,2,4) show ?case by (simp add: cell)
qed simp

lemma lev_rows:
  assumes "length prev = length b + 1" "length cur = length b + 1"
    and "\<forall>k \<le> length b. prev ! k = prefix_distance u (take k b)"
  shows "fst (fold (lev_row b) (enumerate (length u) v) (prev, cur)) ! length b
    = prefix_distance (u @ v) b"
  using assms
proof (induction v arbitrary: u prev cur)
  case (Cons x v)
  let ?cur = "fold (lev_cell x prev) (enumerate 0 b) (cur[0 := length u + 1])"
  have row: "length ?cur = length b + 1 \<and>
      (\<forall>k \<le> length b. ?cur ! k = prefix_distance (u @ [x]) (take k b))"
    using lev_cells [of b "[]" b "cur[0 := length u + 1]" u x prev] Cons.prems
    by (simp add: nth_list_update)
  have "lev_row b (length u, x) (prev, cur) = (?cur, prev)"
    by (simp add: lev_row_def)
  with Cons.IH [of ?cur prev "u @ [x]"] row Cons.prems(1) show ?case by simp
qed simp

lemma levenshtein_eq: "levenshtein a b = prefix_distance a b"
proof -
  have "fst (fold (lev_row b) (enumerate 0 a) ([0..<length b + 1], replicate (length b + 1) 0))
      ! length b = prefix_distance a b"
    using lev_rows [of "[0..<length b + 1]" b "replicate (length b + 1) 0" "[]" a]
    by (simp add: nth_append)
  then show ?thesis by (simp add: levenshtein_def case_prod_beta)
qed

text \<open>
  C39. The two-row dynamic program computes the Levenshtein distance: the two strings are that many
  single-byte insertions, deletions and substitutions apart, and no shorter chain of edits connects
  them.
\<close>

theorem levenshtein_is_edit_distance:
  "(edit1 ^^ levenshtein a b) a b \<and> levenshtein a b = (LEAST n. (edit1 ^^ n) a b)"
proof
  show chain: "(edit1 ^^ levenshtein a b) a b"
    using edits_rev [OF edit_distance_achieved [of "rev a" "rev b"]] by (simp add: levenshtein_eq)
  have "levenshtein a b \<le> n" if "(edit1 ^^ n) a b" for n
    using edit_distance_minimal [OF edits_rev [OF that]] by (simp add: levenshtein_eq)
  with chain show "levenshtein a b = (LEAST n. (edit1 ^^ n) a b)"
    by (metis Least_equality)
qed

section \<open>The suggestion is the nearest plausible candidate\<close>

definition name_distance :: "string \<Rightarrow> string \<Rightarrow> nat" where
  "name_distance input candidate = levenshtein (fold_name input) (fold_name candidate)"

definition plausible :: "string \<Rightarrow> string \<Rightarrow> bool" where
  "plausible input candidate \<longleftrightarrow> 0 < name_distance input candidate \<and>
    name_distance input candidate \<le> suggestion_budget (length input)"

lemma length_fold_name [simp]: "length (fold_name name) = length name"
  by (simp add: fold_name_def)

lemma arg_min_list_drop:
  "d x \<le> d c \<Longrightarrow> arg_min_list d (x # c # cs) = arg_min_list d (x # cs)"
  by (cases cs) (auto simp: Let_def)

lemma arg_min_list_replace:
  assumes "d c < d x"
  shows "arg_min_list d (x # c # cs) = arg_min_list d (c # cs)"
proof -
  have "d (arg_min_list d (c # cs)) \<le> d c"
    by (simp add: f_arg_min_list_f)
  with assms have "\<not> d x \<le> d (arg_min_list d (c # cs))" by (meson le_less_trans not_le)
  then show ?thesis by (simp add: Let_def)
qed

lemma suggest_loop_Some:
  "suggest_loop (fold_name input) (suggestion_budget (length input)) cs
      (Some (name_distance input x, x)) =
    (let m = arg_min_list (name_distance input) (x # filter (plausible input) cs)
     in Some (name_distance input m, m))"
proof (induction cs arbitrary: x)
  case (Cons c cs)
  then show ?case
    by (auto simp: Let_def plausible_def name_distance_def [symmetric] arg_min_list_drop
        arg_min_list_replace simp del: arg_min_list.simps(2))
qed simp

lemma suggest_loop_None:
  "suggest_loop (fold_name input) (suggestion_budget (length input)) cs None =
    (case filter (plausible input) cs of
       [] \<Rightarrow> None
     | x # xs \<Rightarrow> let m = arg_min_list (name_distance input) (x # xs)
                 in Some (name_distance input m, m))"
proof (induction cs)
  case (Cons c cs)
  have "suggest_loop (fold_name input) (suggestion_budget (length input)) (c # cs) None =
      suggest_loop (fold_name input) (suggestion_budget (length input)) cs
        (if plausible input c then Some (name_distance input c, c) else None)"
    by (simp add: plausible_def name_distance_def [symmetric])
  with Cons show ?case by (simp add: suggest_loop_Some)
qed simp

text \<open>
  C40. \<open>did_you_mean\<close> suggests the candidate nearest to the input, by edit distance between the
  folded spellings, among those that differ from it and are within the edit budget for the input's
  length; the earliest one on a tie, and none when there is no such candidate.
\<close>

theorem did_you_mean_nearest:
  "did_you_mean input candidates =
    (let near = filter (plausible input) candidates
     in if near = [] then None else Some (arg_min_list (name_distance input) near))"
  by (auto simp: did_you_mean_def suggest_loop_None Let_def split: list.split)

section \<open>Validated schemas\<close>

fun decimal_type_ok :: "logical_type \<Rightarrow> bool" where
  "decimal_type_ok (TDecimal precision scale) \<longleftrightarrow> 1 \<le> precision \<and> precision \<le> 38 \<and> scale \<le> precision"
| "decimal_type_ok ty \<longleftrightarrow> True"

definition columns_wf :: "table_kind \<Rightarrow> schema_column list \<Rightarrow> bool" where
  "columns_wf kind cols \<longleftrightarrow> distinct (map (\<lambda>col. fold_name (scol_name col)) cols) \<and>
    list_all (\<lambda>col. scol_name col \<noteq> [] \<and> decimal_type_ok (scol_ty col) \<and>
      (kind = NodeKind \<or> scol_ty col \<noteq> TGeoPoint \<and> \<not> scalar_v2_type (scol_ty col))) cols"

definition node_schema_wf :: "node_table_schema \<Rightarrow> bool" where
  "node_schema_wf sch \<longleftrightarrow> node_name sch \<noteq> [] \<and> columns_wf NodeKind (node_columns sch) \<and>
    (\<exists>key. filter scol_primary_key (node_columns sch) = [key] \<and> scol_ty key \<in> {TInt64, TString})"

definition rel_schema_wf :: "rel_table_schema \<Rightarrow> bool" where
  "rel_schema_wf sch \<longleftrightarrow> rel_name sch \<noteq> [] \<and> rel_from sch \<noteq> [] \<and> rel_to sch \<noteq> [] \<and>
    columns_wf RelationshipKind (rel_columns sch) \<and>
    list_all (\<lambda>col. \<not> scol_primary_key col) (rel_columns sch)"

lemma validate_decimal_column_iff:
  "validate_decimal_column col = Inr () \<longleftrightarrow> decimal_type_ok (scol_ty col)"
  by (auto simp: validate_decimal_column_def MAX_PRECISION_def split: logical_type.splits)

lemma validate_columns_loop_iff:
  "validate_columns_loop kind cols names = Inr () \<longleftrightarrow> columns_wf kind cols \<and>
    set names \<inter> (\<lambda>col. fold_name (scol_name col)) ` set cols = {}"
proof (induction cols arbitrary: names)
  case Nil
  show ?case by (simp add: columns_wf_def)
next
  case (Cons col cols)
  let ?ok = "scol_name col \<noteq> [] \<and> fold_name (scol_name col) \<notin> set names \<and>
    decimal_type_ok (scol_ty col) \<and>
    (kind = NodeKind \<or> scol_ty col \<noteq> TGeoPoint \<and> \<not> scalar_v2_type (scol_ty col))"
  have "validate_columns_loop kind (col # cols) names = Inr () \<longleftrightarrow>
      ?ok \<and> validate_columns_loop kind cols (fold_name (scol_name col) # names) = Inr ()"
    by (cases kind) (auto simp: rbind_eq_Inr validate_decimal_column_iff)
  then show ?case by (auto simp: Cons columns_wf_def)
qed

lemma validate_node_primary_key_iff:
  "validate_node_primary_key cols = Inr () \<longleftrightarrow>
    (\<exists>key. filter scol_primary_key cols = [key] \<and> scol_ty key \<in> {TInt64, TString})"
proof (cases "length (filter scol_primary_key cols) = 1")
  case True
  then obtain key where "filter scol_primary_key cols = [key]"
    by (auto simp: length_Suc_conv)
  then show ?thesis
    by (simp add: validate_node_primary_key_def split: logical_type.split)
qed (auto simp: validate_node_primary_key_def)

lemma validate_rel_primary_keys_iff:
  "validate_rel_primary_keys cols = Inr () \<longleftrightarrow> list_all (\<lambda>col. \<not> scol_primary_key col) cols"
  by (auto simp: validate_rel_primary_keys_def list_all_iff find_None_iff find_Some_iff
      split: option.split)

lemma node_schema_new_iff:
  "node_schema_new name cols = Inr sch \<longleftrightarrow>
    sch = \<lparr> node_name = name, node_columns = cols \<rparr> \<and> node_schema_wf sch"
  by (auto simp: node_schema_new_def rbind_eq_Inr validate_table_name_def validate_columns_def
      validate_columns_loop_iff validate_node_primary_key_iff node_schema_wf_def)

lemma rel_schema_new_iff:
  "rel_schema_new name from to cols = Inr sch \<longleftrightarrow>
    sch = \<lparr> rel_name = name, rel_from = from, rel_to = to, rel_columns = cols \<rparr> \<and> rel_schema_wf sch"
  by (auto simp: rel_schema_new_def rbind_eq_Inr validate_table_name_def validate_columns_def
      validate_endpoint_name_def validate_columns_loop_iff validate_rel_primary_keys_iff
      rel_schema_wf_def)

lemma position_eq_Some:
  "position P xs = Some i \<longleftrightarrow> i < length xs \<and> P (xs ! i) \<and> (\<forall>j < i. \<not> P (xs ! j))"
proof (induction xs arbitrary: i)
  case (Cons x xs)
  then show ?case by (cases i) (auto simp: All_less_Suc2)
qed simp

lemma column_index_wf:
  assumes "columns_wf kind cols"
  shows "column_index cols name = Some i \<longleftrightarrow>
    i < length cols \<and> fold_name (scol_name (cols ! i)) = fold_name name"
proof -
  have "distinct (map (\<lambda>col. fold_name (scol_name col)) cols)"
    using assms by (simp add: columns_wf_def)
  then show ?thesis
    by (auto simp: column_index_def position_eq_Some distinct_conv_nth)
       (metis less_trans nat_neq_iff)
qed

text \<open>
  A table schema is exactly what its constructor accepts: a node schema is built if and only if
  it has a name, columns with non-empty names that stay distinct after folding, valid decimal
  declarations and exactly one primary key of an integer or string type; a relationship schema if
  and only if it has its three names, such columns without the node-only types, and no primary key.
\<close>

lemma schema_constructors_exact:
  "(node_schema_new name cols = Inr node \<longleftrightarrow>
      node = \<lparr> node_name = name, node_columns = cols \<rparr> \<and> node_schema_wf node) \<and>
   (rel_schema_new name from to cols = Inr rel \<longleftrightarrow>
      rel = \<lparr> rel_name = name, rel_from = from, rel_to = to, rel_columns = cols \<rparr> \<and>
      rel_schema_wf rel)"
  by (simp add: node_schema_new_iff rel_schema_new_iff)

end
