(* ===== verification/BTree.thy ===== *)
theory BTree
  imports Prelude
begin

text \<open>
  Rust's \<open>BTreeMap\<close> as the engine uses it: an association list in strictly ascending key order,
  which is the order the standard library iterates in. The interface its clients rely on is the
  locale \<open>ordered_map\<close>.
\<close>

type_synonym ('k, 'v) btree = "('k \<times> 'v) list"

definition bt_wf :: "('k::linorder, 'v) btree \<Rightarrow> bool" where
  "bt_wf m \<longleftrightarrow> sorted_wrt (<) (map fst m)"

definition bt_keys :: "('k, 'v) btree \<Rightarrow> 'k set" where
  "bt_keys m = fst ` set m"

definition bt_get :: "('k, 'v) btree \<Rightarrow> 'k \<Rightarrow> 'v option" where
  "bt_get m k = map_of m k"

fun bt_insert :: "'k::linorder \<Rightarrow> 'v \<Rightarrow> ('k, 'v) btree \<Rightarrow> ('k, 'v) btree" where
  "bt_insert k v [] = [(k, v)]"
| "bt_insert k v ((k', v') # m) =
    (if k < k' then (k, v) # (k', v') # m
     else if k = k' then (k, v) # m
     else (k', v') # bt_insert k v m)"

fun bt_remove :: "'k \<Rightarrow> ('k, 'v) btree \<Rightarrow> ('k, 'v) btree" where
  "bt_remove k [] = []"
| "bt_remove k ((k', v') # m) = (if k = k' then m else (k', v') # bt_remove k m)"

text \<open>\<open>entry(k).or_default()\<close> followed by an update of the entry in place.\<close>

definition bt_entry :: "'k::linorder \<Rightarrow> 'v \<Rightarrow> ('v \<Rightarrow> 'v) \<Rightarrow> ('k, 'v) btree \<Rightarrow> ('k, 'v) btree" where
  "bt_entry k d f m = bt_insert k (f (case bt_get m k of None \<Rightarrow> d | Some v \<Rightarrow> v)) m"

text \<open>\<open>map.get(k).into_iter().flatten()\<close>.\<close>

definition bt_items :: "('k, 'v list) btree \<Rightarrow> 'k \<Rightarrow> 'v list" where
  "bt_items m k = (case bt_get m k of None \<Rightarrow> [] | Some vs \<Rightarrow> vs)"

section \<open>The interface\<close>

locale ordered_map =
  fixes empty :: 'm
    and get :: "'m \<Rightarrow> 'k::linorder \<Rightarrow> 'v option"
    and insert :: "'k \<Rightarrow> 'v \<Rightarrow> 'm \<Rightarrow> 'm"
    and remove :: "'k \<Rightarrow> 'm \<Rightarrow> 'm"
    and wf :: "'m \<Rightarrow> bool"
  assumes wf_empty: "wf empty"
    and wf_insert: "wf m \<Longrightarrow> wf (insert k v m)"
    and wf_remove: "wf m \<Longrightarrow> wf (remove k m)"
    and get_empty: "get empty k = None"
    and get_insert: "wf m \<Longrightarrow> get (insert k v m) k' = (if k' = k then Some v else get m k')"
    and get_remove: "wf m \<Longrightarrow> get (remove k m) k' = (if k' = k then None else get m k')"
begin

lemma get_fold_insert:
  "wf m \<Longrightarrow> wf (fold (\<lambda>(k, v). insert k v) kvs m) \<and>
    get (fold (\<lambda>(k, v). insert k v) kvs m) k = (get m ++ map_of (rev kvs)) k"
proof (induction kvs arbitrary: m)
  case (Cons kv kvs)
  obtain k' v where kv: "kv = (k', v)" by fastforce
  show ?case
    using Cons.IH [OF wf_insert [OF Cons.prems, of k' v]] Cons.prems
    by (simp add: kv get_insert map_add_def split: option.split)
qed simp

lemma get_fold_remove:
  "wf m \<Longrightarrow> wf (fold remove ks m) \<and>
    get (fold remove ks m) k = (if k \<in> set ks then None else get m k)"
proof (induction ks arbitrary: m)
  case (Cons k' ks)
  show ?case
    using Cons.IH [OF wf_remove [OF Cons.prems, of k']] Cons.prems by (simp add: get_remove)
qed simp

end

section \<open>The list implements it\<close>

lemma bt_get_simps [simp]:
  "bt_get [] k = None"
  "bt_get ((k', v) # m) k = (if k' = k then Some v else bt_get m k)"
  by (simp_all add: bt_get_def)

lemma bt_keys_simps [simp]: "bt_keys [] = {}" "bt_keys ((k, v) # m) = insert k (bt_keys m)"
  by (simp_all add: bt_keys_def)

lemma bt_wf_Cons [simp]:
  "bt_wf [] " "bt_wf ((k, v) # m) \<longleftrightarrow> (\<forall>k' \<in> bt_keys m. k < k') \<and> bt_wf m"
  by (auto simp: bt_wf_def bt_keys_def)

lemma bt_get_None: "k \<notin> bt_keys m \<Longrightarrow> bt_get m k = None"
  by (simp add: bt_get_def bt_keys_def map_of_eq_None_iff)

lemma bt_keys_insert: "bt_keys (bt_insert k v m) = insert k (bt_keys m)"
  by (induction m) (auto split: if_splits)

lemma bt_keys_remove: "bt_keys (bt_remove k m) \<subseteq> bt_keys m"
  by (induction m) (auto split: if_splits)

lemma bt_wf_insert: "bt_wf m \<Longrightarrow> bt_wf (bt_insert k v m)"
proof (induction m)
  case (Cons kv m)
  obtain k' v' where kv: "kv = (k', v')" by fastforce
  consider "k < k'" | "k = k'" | "k' < k" by fastforce
  then show ?case
  proof cases
    case 1
    with Cons.prems show ?thesis by (auto simp: kv)
  next
    case 3
    with Cons show ?thesis by (auto simp: kv bt_keys_insert)
  qed (use Cons.prems in \<open>simp add: kv\<close>)
qed simp

lemma bt_wf_remove: "bt_wf m \<Longrightarrow> bt_wf (bt_remove k m)"
proof (induction m)
  case (Cons kv m)
  then show ?case using bt_keys_remove [of k m] by (cases kv) auto
qed simp

lemma bt_get_insert: "bt_wf m \<Longrightarrow> bt_get (bt_insert k v m) k' = (if k' = k then Some v else bt_get m k')"
  by (induction m) auto

lemma bt_get_remove: "bt_wf m \<Longrightarrow> bt_get (bt_remove k m) k' = (if k' = k then None else bt_get m k')"
proof (induction m)
  case (Cons kv m)
  obtain k1 v1 where "kv = (k1, v1)" by fastforce
  with Cons show ?case
    using bt_get_None [of k1 m] by fastforce
qed simp

interpretation bt: ordered_map "[]" bt_get bt_insert bt_remove bt_wf
  by unfold_locales (simp_all add: bt_wf_insert bt_wf_remove bt_get_insert bt_get_remove)

lemma bt_wf_entry: "bt_wf m \<Longrightarrow> bt_wf (bt_entry k d f m)"
  by (simp add: bt_entry_def bt_wf_insert)

lemma bt_get_entry:
  "bt_wf m \<Longrightarrow> bt_get (bt_entry k d f m) k' =
    (if k' = k then Some (f (case bt_get m k of None \<Rightarrow> d | Some v \<Rightarrow> v)) else bt_get m k')"
  by (simp add: bt_entry_def bt_get_insert)

text \<open>Inserting at or after the last key appends, which is how a map is rebuilt in key order.\<close>

lemma bt_insert_last:
  "\<forall>k' \<in> bt_keys m. k' < k \<Longrightarrow> bt_insert k v m = m @ [(k, v)]"
  by (induction m) (auto simp: less_not_sym)

lemma bt_insert_at_last:
  "\<forall>k' \<in> bt_keys m. k' < k \<Longrightarrow> bt_insert k v (m @ [(k, w)]) = m @ [(k, v)]"
  by (induction m) (auto simp: less_not_sym)

lemma bt_get_last:
  "\<forall>k' \<in> bt_keys m. k' < (k :: 'k::linorder) \<Longrightarrow> bt_get (m @ [(k, w)]) k = Some w"
  by (induction m) auto

lemma bt_entry_last:
  assumes "\<forall>k' \<in> bt_keys m. k' < k"
  shows "bt_entry k d f m = m @ [(k, f d)]" "bt_entry k d f (m @ [(k, w)]) = m @ [(k, f w)]"
proof -
  have "bt_get m k = None"
    using assms by (intro bt_get_None) auto
  then show "bt_entry k d f m = m @ [(k, f d)]"
    by (simp add: bt_entry_def bt_insert_last [OF assms])
  show "bt_entry k d f (m @ [(k, w)]) = m @ [(k, f w)]"
    using assms by (simp add: bt_entry_def bt_get_last bt_insert_at_last)
qed

lemma bt_entry_push_all:
  assumes "\<forall>k' \<in> bt_keys m. k' < k" and "vs \<noteq> []"
  shows "fold (\<lambda>v. bt_entry k [] (\<lambda>old. old @ [v])) vs m = m @ [(k, vs)]"
proof -
  have "fold (\<lambda>v. bt_entry k [] (\<lambda>old. old @ [v])) vs (m @ [(k, ws)]) = m @ [(k, ws @ vs)]" for vs ws
    by (induction vs arbitrary: ws) (simp_all add: bt_entry_last [OF assms(1)])
  from this [of "tl vs" "[hd vs]"] show ?thesis
    using assms(2) by (cases vs) (simp_all add: bt_entry_last [OF assms(1)])
qed

end
