(* ===== verification/Catalog.thy ===== *)
theory Catalog
  imports Schema BTree Superblock
begin

text \<open>
  The catalog (\<^verbatim>\<open>devondb-storage/src/catalog.rs\<close>): table schemas, storage roots, indexes, the
  ontology section and pinned plans; the operations that change them, and the validation that a
  stored catalog passes when it is loaded. \<open>serde_json\<close> is a parameter of the codec; a pinned plan
  is a JSON value.
\<close>

section \<open>Entries\<close>

record table_storage =
  ts_groups :: "u64 list"

record rel_storage =
  rs_fwd :: "u64 list"
  rs_bwd :: "u64 list"

datatype storage_state = StorageNode table_storage | StorageRel rel_storage

datatype index_kind = IndexHnsw

record index_entry =
  ix_name :: string
  ix_kind :: index_kind
  ix_table :: string
  ix_column :: string
  ix_root :: u64

record interface_column =
  ic_name :: string
  ic_ty :: logical_type

record interface_entry =
  if_name :: string
  if_columns :: "interface_column list"

record node_class_entry =
  nc_table :: string
  nc_display :: "string option"
  nc_plural :: "string option"
  nc_label :: "string option"
  nc_summary :: "string list"
  nc_color :: "string option"
  nc_description :: "string option"
  nc_implements :: "string list"

record rel_class_entry =
  rc_table :: string
  rc_verb :: "string option"
  rc_inverse :: "string option"

record ontology =
  ont_interfaces :: "interface_entry list"
  ont_node_classes :: "node_class_entry list"
  ont_rel_classes :: "rel_class_entry list"

definition ontology_default :: ontology where
  "ontology_default = \<lparr> ont_interfaces = [], ont_node_classes = [], ont_rel_classes = [] \<rparr>"

definition ontology_is_empty :: "ontology \<Rightarrow> bool" where
  "ontology_is_empty ont \<longleftrightarrow>
    ont_interfaces ont = [] \<and> ont_node_classes ont = [] \<and> ont_rel_classes ont = []"

text \<open>\<open>serde_json::Value\<close>, as far as the catalog looks into one.\<close>

datatype json =
    JNull
  | JBool bool
  | JNumber string
  | JString string
  | JArray "json list"
  | JObject "(string \<times> json) list"

record pin_entry =
  pin_name :: string
  pin_text :: string
  pin_plan :: json
  pin_created_lsn :: u64

record catalog =
  cat_node_tables :: "node_table_schema list"
  cat_rel_tables :: "rel_table_schema list"
  cat_storage :: "(string, storage_state) btree"
  cat_indexes :: "index_entry list"
  cat_ontology :: "ontology option"
  cat_pins :: "pin_entry list"

definition catalog_default :: catalog where
  "catalog_default = \<lparr> cat_node_tables = [], cat_rel_tables = [], cat_storage = [],
    cat_indexes = [], cat_ontology = None, cat_pins = [] \<rparr>"

section \<open>Lookups\<close>

definition node_table :: "catalog \<Rightarrow> string \<Rightarrow> node_table_schema option" where
  "node_table cat name = find (\<lambda>sch. fold_name (node_name sch) = fold_name name) (cat_node_tables cat)"

definition rel_table :: "catalog \<Rightarrow> string \<Rightarrow> rel_table_schema option" where
  "rel_table cat name = find (\<lambda>sch. fold_name (rel_name sch) = fold_name name) (cat_rel_tables cat)"

definition contains_table :: "catalog \<Rightarrow> string \<Rightarrow> bool" where
  "contains_table cat name \<longleftrightarrow> node_table cat name \<noteq> None \<or> rel_table cat name \<noteq> None"

definition interface :: "catalog \<Rightarrow> string \<Rightarrow> interface_entry option" where
  "interface cat name = Option.bind (cat_ontology cat) (\<lambda>ont.
    find (\<lambda>i. fold_name (if_name i) = fold_name name) (ont_interfaces ont))"

definition node_class :: "catalog \<Rightarrow> string \<Rightarrow> node_class_entry option" where
  "node_class cat table = Option.bind (cat_ontology cat) (\<lambda>ont.
    find (\<lambda>cls. fold_name (nc_table cls) = fold_name table) (ont_node_classes ont))"

definition rel_class :: "catalog \<Rightarrow> string \<Rightarrow> rel_class_entry option" where
  "rel_class cat table = Option.bind (cat_ontology cat) (\<lambda>ont.
    find (\<lambda>cls. fold_name (rc_table cls) = fold_name table) (ont_rel_classes ont))"

definition storage_state_of :: "catalog \<Rightarrow> string \<Rightarrow> storage_state option" where
  "storage_state_of cat name =
    map_option snd (find (\<lambda>(stored, _). fold_name stored = fold_name name) (cat_storage cat))"

definition table_storage_of :: "catalog \<Rightarrow> string \<Rightarrow> table_storage option" where
  "table_storage_of cat name =
    (case storage_state_of cat name of Some (StorageNode st) \<Rightarrow> Some st | _ \<Rightarrow> None)"

definition rel_storage_of :: "catalog \<Rightarrow> string \<Rightarrow> rel_storage option" where
  "rel_storage_of cat name =
    (case storage_state_of cat name of Some (StorageRel st) \<Rightarrow> Some st | _ \<Rightarrow> None)"

definition require_node_table :: "catalog \<Rightarrow> string \<Rightarrow> unit devon_result" where
  "require_node_table cat name =
    (if node_table cat name = None then Inl (NotFound ''node table {}'') else Inr ())"

section \<open>Validation of entries\<close>

text \<open>A loop that refuses a key it has seen and checks each entry.\<close>

fun unique_loop ::
    "('a \<Rightarrow> 'k) \<Rightarrow> devon_error \<Rightarrow> ('a \<Rightarrow> unit devon_result) \<Rightarrow> 'a list \<Rightarrow> 'k set \<Rightarrow> unit devon_result" where
  "unique_loop key dup check [] names = Inr ()"
| "unique_loop key dup check (x # xs) names =
    (if key x \<in> names then Inl dup
     else rbind (check x) (\<lambda>_. unique_loop key dup check xs (insert (key x) names)))"

fun interface_columns_loop :: "interface_column list \<Rightarrow> string set \<Rightarrow> unit devon_result" where
  "interface_columns_loop [] names = Inr ()"
| "interface_columns_loop (col # cols) names =
    (if ic_name col = [] then Inl (Corrupt ''interface {} has a column with an empty name'')
     else if fold_name (ic_name col) \<in> names
     then Inl (Corrupt ''interface {} column {} has a fold-equal duplicate'')
     else interface_columns_loop cols (insert (fold_name (ic_name col)) names))"

definition validate_interface_entry :: "interface_entry \<Rightarrow> unit devon_result" where
  "validate_interface_entry entry =
    (if if_name entry = [] then Inl (Corrupt ''interface has an empty name'')
     else if if_columns entry = [] then Inl (Corrupt ''interface {} declares no columns'')
     else interface_columns_loop (if_columns entry) {})"

definition satisfies_interface :: "node_table_schema \<Rightarrow> interface_entry \<Rightarrow> unit devon_result" where
  "satisfies_interface sch i =
    rfold (\<lambda>required _.
      if (case Option.bind (column_index (node_columns sch) (ic_name required))
                (\<lambda>ix. if ix < length (node_columns sch) then Some (node_columns sch ! ix) else None) of
            None \<Rightarrow> False
          | Some col \<Rightarrow> scol_ty col = ic_ty required)
      then Inr ()
      else Inl (Corrupt ''node table {} does not satisfy interface {}: requires column {} of type {}''))
      (if_columns i) ()"

definition validate_node_class_entry :: "catalog \<Rightarrow> node_class_entry \<Rightarrow> unit devon_result" where
  "validate_node_class_entry cat entry =
    (case node_table cat (nc_table entry) of
       None \<Rightarrow> Inl (Corrupt ''node class names unknown node table {}'')
     | Some sch \<Rightarrow>
         rbind (rfold (\<lambda>column _.
           if column_index (node_columns sch) column = None
           then Inl (Corrupt ''node class for {} names unknown column {}'')
           else Inr ()) (case nc_label entry of None \<Rightarrow> nc_summary entry | Some l \<Rightarrow> l # nc_summary entry) ()) (\<lambda>_.
         rfold (\<lambda>name _.
           case interface cat name of
             None \<Rightarrow> Inl (Corrupt ''node class for {} implements unknown interface {}'')
           | Some i \<Rightarrow> satisfies_interface sch i) (nc_implements entry) ()))"

definition validate_rel_class_entry :: "catalog \<Rightarrow> rel_class_entry \<Rightarrow> unit devon_result" where
  "validate_rel_class_entry cat entry =
    (if rel_table cat (rc_table entry) = None
     then Inl (Corrupt ''relationship class names unknown relationship table {}'')
     else Inr ())"

definition validate_index_entry :: "catalog \<Rightarrow> index_entry \<Rightarrow> unit devon_result" where
  "validate_index_entry cat index =
    (if ix_root index = 0 then Inl (Corrupt ''index {} has root page 0'')
     else
       (case node_table cat (ix_table index) of
          None \<Rightarrow> Inl (Corrupt ''index {} covers unknown node table {}'')
        | Some sch \<Rightarrow>
            if column_index (node_columns sch) (ix_column index) = None
            then Inl (Corrupt ''index {} covers unknown column {}.{}'')
            else Inr ()))"

fun json_get :: "json \<Rightarrow> string \<Rightarrow> json option" where
  "json_get (JObject members) key = map_of members key"
| "json_get _ key = None"

fun json_is_object :: "json \<Rightarrow> bool" where
  "json_is_object (JObject members) = True"
| "json_is_object _ = False"

fun json_is_number :: "json \<Rightarrow> bool" where
  "json_is_number (JNumber n) = True"
| "json_is_number _ = False"

definition validate_pin_entry :: "pin_entry \<Rightarrow> unit devon_result" where
  "validate_pin_entry entry =
    (let envelope = pin_plan entry
     in if \<not> json_is_object envelope then Inl (Corrupt ''pin {} plan is not a JSON object'')
        else if \<not> (case json_get envelope ''v'' of None \<Rightarrow> False | Some v \<Rightarrow> json_is_number v)
        then Inl (Corrupt ''pin {} plan has no numeric v'')
        else if \<not> (case json_get envelope ''plan'' of None \<Rightarrow> False | Some v \<Rightarrow> json_is_object v)
        then Inl (Corrupt ''pin {} plan has no object plan'')
        else Inr ())"

fun corrupt_to_invalid :: "devon_error \<Rightarrow> devon_error" where
  "corrupt_to_invalid (Corrupt msg) = InvalidArgument msg"
| "corrupt_to_invalid e = e"

definition reject_vector_encoded_relationship_columns :: "schema_column list \<Rightarrow> unit devon_result" where
  "reject_vector_encoded_relationship_columns cols =
    rfold (\<lambda>col _.
      case scol_ty col of
        TVectorEncoded dim encoding \<Rightarrow> Inl (InvalidArgument
          ''column {} in relationship table {} has type {}; VectorEncoded relationship properties are not supported'')
      | _ \<Rightarrow> Inr ()) cols ()"

section \<open>Operations\<close>

definition duplicate_table :: devon_error where
  "duplicate_table = InvalidArgument ''table name {} is already in the catalog''"

definition add_node_table :: "catalog \<Rightarrow> node_table_schema \<Rightarrow> catalog devon_result" where
  "add_node_table cat sch =
    (if contains_table cat (node_name sch) then Inl duplicate_table
     else Inr (cat\<lparr> cat_node_tables := cat_node_tables cat @ [sch] \<rparr>))"

definition add_rel_table :: "catalog \<Rightarrow> rel_table_schema \<Rightarrow> catalog devon_result" where
  "add_rel_table cat sch =
    (if contains_table cat (rel_name sch) then Inl duplicate_table
     else
       rbind (require_node_table cat (rel_from sch)) (\<lambda>_.
       rbind (require_node_table cat (rel_to sch)) (\<lambda>_.
       rbind (reject_vector_encoded_relationship_columns (rel_columns sch)) (\<lambda>_.
       Inr (cat\<lparr> cat_rel_tables := cat_rel_tables cat @ [sch] \<rparr>)))))"

definition set_table_storage :: "catalog \<Rightarrow> string \<Rightarrow> table_storage \<Rightarrow> catalog devon_result" where
  "set_table_storage cat name storage =
    rbind (ok_or (NotFound ''node table {}'') (node_table cat name)) (\<lambda>sch.
    Inr (cat\<lparr> cat_storage := bt_insert (node_name sch) (StorageNode storage) (cat_storage cat) \<rparr>))"

definition set_rel_storage :: "catalog \<Rightarrow> string \<Rightarrow> rel_storage \<Rightarrow> catalog devon_result" where
  "set_rel_storage cat name storage =
    rbind (ok_or (NotFound ''relationship table {}'') (rel_table cat name)) (\<lambda>sch.
    Inr (cat\<lparr> cat_storage := bt_insert (rel_name sch) (StorageRel storage) (cat_storage cat) \<rparr>))"

definition add_index :: "catalog \<Rightarrow> index_entry \<Rightarrow> catalog devon_result" where
  "add_index cat entry =
    (if list_ex (\<lambda>index. fold_name (ix_name index) = fold_name (ix_name entry)) (cat_indexes cat)
     then Inl (InvalidArgument ''index name {} is already in the catalog'')
     else if find (\<lambda>index. fold_name (ix_table index) = fold_name (ix_table entry) \<and>
                fold_name (ix_column index) = fold_name (ix_column entry)) (cat_indexes cat) \<noteq> None
     then Inl (InvalidArgument ''column {}.{} is already indexed by {}'')
     else
       rbind (map_err corrupt_to_invalid (validate_index_entry cat entry)) (\<lambda>_.
       Inr (cat\<lparr> cat_indexes := cat_indexes cat @ [entry] \<rparr>)))"

definition set_index_root :: "catalog \<Rightarrow> string \<Rightarrow> u64 \<Rightarrow> catalog devon_result" where
  "set_index_root cat name root =
    (if root = 0 then Inl (InvalidArgument ''index {} cannot use root page 0'')
     else
       rbind (ok_or (NotFound ''index {}'')
         (position (\<lambda>index. fold_name (ix_name index) = fold_name name) (cat_indexes cat))) (\<lambda>p.
       Inr (cat\<lparr> cat_indexes := (cat_indexes cat)[p := (cat_indexes cat ! p)\<lparr> ix_root := root \<rparr>] \<rparr>)))"

definition pin :: "catalog \<Rightarrow> pin_entry \<Rightarrow> catalog devon_result" where
  "pin cat entry =
    (if list_ex (\<lambda>p. fold_name (pin_name p) = fold_name (pin_name entry)) (cat_pins cat)
     then Inl (InvalidArgument ''pin {} is already in the catalog'')
     else
       rbind (map_err corrupt_to_invalid (validate_pin_entry entry)) (\<lambda>_.
       Inr (cat\<lparr> cat_pins := cat_pins cat @ [entry] \<rparr>)))"

definition unpin :: "catalog \<Rightarrow> string \<Rightarrow> catalog devon_result" where
  "unpin cat name =
    rbind (ok_or (NotFound (''pin {}'' @ suggestion_suffix name (map pin_name (cat_pins cat))))
      (position (\<lambda>p. fold_name (pin_name p) = fold_name name) (cat_pins cat))) (\<lambda>index.
    Inr (cat\<lparr> cat_pins := take index (cat_pins cat) @ drop (Suc index) (cat_pins cat) \<rparr>))"

definition ontology_or_default :: "catalog \<Rightarrow> ontology" where
  "ontology_or_default cat = (case cat_ontology cat of None \<Rightarrow> ontology_default | Some ont \<Rightarrow> ont)"

definition declare_interface :: "catalog \<Rightarrow> interface_entry \<Rightarrow> catalog devon_result" where
  "declare_interface cat entry =
    (if interface cat (if_name entry) \<noteq> None
     then Inl (InvalidArgument ''interface {} is already declared'')
     else
       rbind (map_err corrupt_to_invalid (validate_interface_entry entry)) (\<lambda>_.
       let ont = ontology_or_default cat
       in Inr (cat\<lparr> cat_ontology := Some (ont\<lparr> ont_interfaces := ont_interfaces ont @ [entry] \<rparr>) \<rparr>)))"

definition declare_node_class :: "catalog \<Rightarrow> node_class_entry \<Rightarrow> catalog devon_result" where
  "declare_node_class cat entry =
    (if node_class cat (nc_table entry) \<noteq> None
     then Inl (InvalidArgument ''node table {} already has a class declaration'')
     else
       rbind (map_err corrupt_to_invalid (validate_node_class_entry cat entry)) (\<lambda>_.
       let ont = ontology_or_default cat
       in Inr (cat\<lparr> cat_ontology := Some (ont\<lparr> ont_node_classes := ont_node_classes ont @ [entry] \<rparr>) \<rparr>)))"

definition declare_rel_class :: "catalog \<Rightarrow> rel_class_entry \<Rightarrow> catalog devon_result" where
  "declare_rel_class cat entry =
    (if rel_class cat (rc_table entry) \<noteq> None
     then Inl (InvalidArgument ''relationship table {} already has a class declaration'')
     else
       rbind (map_err corrupt_to_invalid (validate_rel_class_entry cat entry)) (\<lambda>_.
       let ont = ontology_or_default cat
       in Inr (cat\<lparr> cat_ontology := Some (ont\<lparr> ont_rel_classes := ont_rel_classes ont @ [entry] \<rparr>) \<rparr>)))"

section \<open>Validation on load\<close>

definition validate_decoded_columns :: "schema_column list \<Rightarrow> unit devon_result" where
  "validate_decoded_columns cols =
    unique_loop (\<lambda>col. fold_name (scol_name col))
      (Corrupt ''column {} has a fold-equal duplicate in table {}'') (\<lambda>_. Inr ()) cols {}"

text \<open>Both loops of \<open>validate_schemas\<close> share the set of table names.\<close>

definition table_decls :: "catalog \<Rightarrow> (string \<times> schema_column list) list" where
  "table_decls cat =
    map (\<lambda>sch. (node_name sch, node_columns sch)) (cat_node_tables cat) @
    map (\<lambda>sch. (rel_name sch, rel_columns sch)) (cat_rel_tables cat)"

definition validate_schemas :: "catalog \<Rightarrow> unit devon_result" where
  "validate_schemas cat =
    unique_loop (\<lambda>decl. fold_name (fst decl))
      (Corrupt ''table name {} has a fold-equal duplicate in the catalog'')
      (\<lambda>decl. validate_decoded_columns (snd decl)) (table_decls cat) {}"

fun validate_storage_entry :: "catalog \<Rightarrow> string \<times> storage_state \<Rightarrow> unit devon_result" where
  "validate_storage_entry cat (name, StorageNode st) =
    (if node_table cat name \<noteq> None then Inr ()
     else if rel_table cat name \<noteq> None
     then Inl (Corrupt ''relationship table {} has node-table storage'')
     else Inl (Corrupt ''storage state names unknown table {}''))"
| "validate_storage_entry cat (name, StorageRel st) =
    (if rel_table cat name \<noteq> None then Inr ()
     else if node_table cat name \<noteq> None
     then Inl (Corrupt ''node table {} has relationship-table storage'')
     else Inl (Corrupt ''storage state names unknown table {}''))"

definition validate_storage :: "catalog \<Rightarrow> unit devon_result" where
  "validate_storage cat =
    unique_loop (\<lambda>(name, _). fold_name name)
      (Corrupt ''storage state contains fold-equal table name {}'')
      (validate_storage_entry cat) (cat_storage cat) {}"

fun validate_indexes_loop ::
    "catalog \<Rightarrow> index_entry list \<Rightarrow> string set \<Rightarrow> (string \<times> string) set \<Rightarrow> unit devon_result" where
  "validate_indexes_loop cat [] names columns = Inr ()"
| "validate_indexes_loop cat (index # rest) names columns =
    (if fold_name (ix_name index) \<in> names
     then Inl (Corrupt ''index name {} has a fold-equal duplicate in the catalog'')
     else if (fold_name (ix_table index), fold_name (ix_column index)) \<in> columns
     then Inl (Corrupt ''index column {}.{} has a fold-equal duplicate in the catalog'')
     else
       rbind (validate_index_entry cat index) (\<lambda>_.
       validate_indexes_loop cat rest (insert (fold_name (ix_name index)) names)
         (insert (fold_name (ix_table index), fold_name (ix_column index)) columns)))"

definition validate_indexes :: "catalog \<Rightarrow> unit devon_result" where
  "validate_indexes cat = validate_indexes_loop cat (cat_indexes cat) {} {}"

definition validate_ontology :: "catalog \<Rightarrow> unit devon_result" where
  "validate_ontology cat =
    (case cat_ontology cat of
       None \<Rightarrow> Inr ()
     | Some ont \<Rightarrow>
         if ontology_is_empty ont
         then Inl (Corrupt ''catalog ontology section is present but declares nothing'')
         else
           rbind (unique_loop (\<lambda>i. fold_name (if_name i))
             (Corrupt ''interface {} has a fold-equal duplicate in the catalog'')
             validate_interface_entry (ont_interfaces ont) {}) (\<lambda>_.
           rbind (unique_loop (\<lambda>cls. fold_name (nc_table cls))
             (Corrupt ''node class for {} has a fold-equal duplicate in the catalog'')
             (validate_node_class_entry cat) (ont_node_classes ont) {}) (\<lambda>_.
           unique_loop (\<lambda>cls. fold_name (rc_table cls))
             (Corrupt ''relationship class for {} has a fold-equal duplicate in the catalog'')
             (validate_rel_class_entry cat) (ont_rel_classes ont) {})))"

definition validate_pins :: "catalog \<Rightarrow> unit devon_result" where
  "validate_pins cat =
    unique_loop (\<lambda>p. fold_name (pin_name p))
      (Corrupt ''pin {} has a fold-equal duplicate in the catalog'') validate_pin_entry (cat_pins cat) {}"

definition from_payload :: "(bytes \<Rightarrow> catalog option) \<Rightarrow> bytes \<Rightarrow> catalog devon_result" where
  "from_payload parse payload =
    rbind (ok_or (Corrupt ''catalog payload is not valid JSON: {}'') (parse payload)) (\<lambda>cat.
    rbind (validate_schemas cat) (\<lambda>_.
    rbind (validate_storage cat) (\<lambda>_.
    rbind (validate_indexes cat) (\<lambda>_.
    rbind (validate_ontology cat) (\<lambda>_.
    rbind (validate_pins cat) (\<lambda>_. Inr cat))))))"

section \<open>The catalog page\<close>

definition CATALOG_HEADER_LEN :: nat where "CATALOG_HEADER_LEN = 8"

definition encode_single :: "(bytes \<Rightarrow> u32) \<Rightarrow> bytes \<Rightarrow> nat \<Rightarrow> bytes devon_result" where
  "encode_single crc32c payload page_size =
    (if page_size < CATALOG_HEADER_LEN
     then Inl (InvalidArgument ''catalog page is shorter than its header'')
     else if length payload > page_size - CATALOG_HEADER_LEN
     then Inl (InvalidArgument ''catalog payload is {} bytes but page capacity is {} bytes'')
     else
       rbind (ok_or (InvalidArgument ''catalog payload length exceeds u32'') (u32_try_from (length payload))) (\<lambda>n.
       let page = replicate page_size 0;
           page = copy_into page 0 (u32_to_le_bytes n);
           page = copy_into page 4 (u32_to_le_bytes (crc32c payload));
           page = copy_into page CATALOG_HEADER_LEN payload
       in Inr page))"

definition catalog_decode ::
    "(bytes \<Rightarrow> u32) \<Rightarrow> (bytes \<Rightarrow> catalog option) \<Rightarrow> bytes \<Rightarrow> catalog devon_result" where
  "catalog_decode crc32c parse page =
    (if length page < CATALOG_HEADER_LEN
     then Inl (Corrupt ''catalog page is shorter than its header'')
     else
       (let payload_len = unat (read_u32 page 0)
        in if payload_len > length page - CATALOG_HEADER_LEN
           then Inl (Corrupt ''catalog payload length exceeds page capacity'')
           else
             (let payload = subslice page CATALOG_HEADER_LEN (CATALOG_HEADER_LEN + payload_len);
                  expected_checksum = read_u32 page 4
              in if crc32c payload \<noteq> expected_checksum
                 then Inl (Corrupt ''catalog payload checksum does not match'')
                 else if list_ex (\<lambda>b. b \<noteq> 0) (drop (CATALOG_HEADER_LEN + payload_len) page)
                 then Inl (Corrupt ''catalog page padding is not zero'')
                 else from_payload parse payload)))"

section \<open>What validation accepts\<close>

lemma unique_loop_iff:
  "unique_loop key dup check xs names = Inr () \<longleftrightarrow>
    distinct (map key xs) \<and> names \<inter> key ` set xs = {} \<and> (\<forall>x \<in> set xs. check x = Inr ())"
  by (induction xs arbitrary: names) (auto simp: rbind_eq_Inr)

lemma validate_indexes_loop_iff:
  "validate_indexes_loop cat xs names columns = Inr () \<longleftrightarrow>
    distinct (map (\<lambda>x. fold_name (ix_name x)) xs) \<and>
    distinct (map (\<lambda>x. (fold_name (ix_table x), fold_name (ix_column x))) xs) \<and>
    names \<inter> (\<lambda>x. fold_name (ix_name x)) ` set xs = {} \<and>
    columns \<inter> (\<lambda>x. (fold_name (ix_table x), fold_name (ix_column x))) ` set xs = {} \<and>
    (\<forall>x \<in> set xs. validate_index_entry cat x = Inr ())"
  by (induction xs arbitrary: names columns) (auto simp: rbind_eq_Inr)

lemma rfold_check_iff: "rfold (\<lambda>x _. f x) xs () = Inr () \<longleftrightarrow> (\<forall>x \<in> set xs. f x = Inr ())"
  by (induction xs) (auto simp: rbind_eq_Inr)

lemma find_append: "find P (xs @ ys) = (case find P xs of None \<Rightarrow> find P ys | Some x \<Rightarrow> Some x)"
  by (induction xs) auto

lemma find_None_all: "find P xs = None \<longleftrightarrow> (\<forall>x \<in> set xs. \<not> P x)"
  by (auto simp: find_None_iff)

definition columns_distinct :: "schema_column list \<Rightarrow> bool" where
  "columns_distinct cols \<longleftrightarrow> distinct (map (\<lambda>col. fold_name (scol_name col)) cols)"

definition schemas_ok :: "catalog \<Rightarrow> bool" where
  "schemas_ok cat \<longleftrightarrow> distinct (map (\<lambda>decl. fold_name (fst decl)) (table_decls cat)) \<and>
    (\<forall>decl \<in> set (table_decls cat). columns_distinct (snd decl))"

definition indexes_ok :: "catalog \<Rightarrow> bool" where
  "indexes_ok cat \<longleftrightarrow>
    distinct (map (\<lambda>x. fold_name (ix_name x)) (cat_indexes cat)) \<and>
    distinct (map (\<lambda>x. (fold_name (ix_table x), fold_name (ix_column x))) (cat_indexes cat)) \<and>
    (\<forall>x \<in> set (cat_indexes cat). validate_index_entry cat x = Inr ())"

definition ontology_ok :: "catalog \<Rightarrow> ontology \<Rightarrow> bool" where
  "ontology_ok cat ont \<longleftrightarrow> \<not> ontology_is_empty ont \<and>
    distinct (map (\<lambda>i. fold_name (if_name i)) (ont_interfaces ont)) \<and>
    (\<forall>i \<in> set (ont_interfaces ont). validate_interface_entry i = Inr ()) \<and>
    distinct (map (\<lambda>cls. fold_name (nc_table cls)) (ont_node_classes ont)) \<and>
    (\<forall>cls \<in> set (ont_node_classes ont). validate_node_class_entry cat cls = Inr ()) \<and>
    distinct (map (\<lambda>cls. fold_name (rc_table cls)) (ont_rel_classes ont)) \<and>
    (\<forall>cls \<in> set (ont_rel_classes ont). validate_rel_class_entry cat cls = Inr ())"

definition pins_ok :: "catalog \<Rightarrow> bool" where
  "pins_ok cat \<longleftrightarrow> distinct (map (\<lambda>p. fold_name (pin_name p)) (cat_pins cat)) \<and>
    (\<forall>p \<in> set (cat_pins cat). validate_pin_entry p = Inr ())"

text \<open>Storage is keyed by the display name of a table of its kind.\<close>

fun storage_entry_ok :: "catalog \<Rightarrow> string \<times> storage_state \<Rightarrow> bool" where
  "storage_entry_ok cat (name, StorageNode st) \<longleftrightarrow> name \<in> node_name ` set (cat_node_tables cat)"
| "storage_entry_ok cat (name, StorageRel st) \<longleftrightarrow> name \<in> rel_name ` set (cat_rel_tables cat)"

definition storage_ok :: "catalog \<Rightarrow> bool" where
  "storage_ok cat \<longleftrightarrow> bt_wf (cat_storage cat) \<and> (\<forall>entry \<in> set (cat_storage cat). storage_entry_ok cat entry)"

definition catalog_inv :: "catalog \<Rightarrow> bool" where
  "catalog_inv cat \<longleftrightarrow> schemas_ok cat \<and> storage_ok cat \<and> indexes_ok cat \<and>
    (\<forall>ont. cat_ontology cat = Some ont \<longrightarrow> ontology_ok cat ont) \<and> pins_ok cat"

lemma validate_schemas_iff: "validate_schemas cat = Inr () \<longleftrightarrow> schemas_ok cat"
  by (auto simp: validate_schemas_def unique_loop_iff schemas_ok_def validate_decoded_columns_def
      columns_distinct_def)

lemma validate_indexes_iff: "validate_indexes cat = Inr () \<longleftrightarrow> indexes_ok cat"
  by (simp add: validate_indexes_def validate_indexes_loop_iff indexes_ok_def)

lemma validate_ontology_iff:
  "validate_ontology cat = Inr () \<longleftrightarrow> (\<forall>ont. cat_ontology cat = Some ont \<longrightarrow> ontology_ok cat ont)"
  by (auto simp: validate_ontology_def ontology_ok_def rbind_eq_Inr unique_loop_iff
      split: option.splits)

lemma validate_pins_iff: "validate_pins cat = Inr () \<longleftrightarrow> pins_ok cat"
  by (simp add: validate_pins_def unique_loop_iff pins_ok_def)

lemma node_table_mem: "name \<in> node_name ` set (cat_node_tables cat) \<Longrightarrow> node_table cat name \<noteq> None"
  by (auto simp: node_table_def find_None_all)

lemma rel_table_mem: "name \<in> rel_name ` set (cat_rel_tables cat) \<Longrightarrow> rel_table cat name \<noteq> None"
  by (auto simp: rel_table_def find_None_all)

lemma bt_wf_distinct: "bt_wf m \<Longrightarrow> distinct (map fst m)"
  by (induction m) (auto simp: bt_wf_def)

lemma validate_storage_ok:
  assumes "storage_ok cat" "schemas_ok cat"
  shows "validate_storage cat = Inr ()"
proof -
  have named: "fst entry \<in> set (map fst (table_decls cat))" if "entry \<in> set (cat_storage cat)" for entry
  proof -
    have "storage_entry_ok cat entry" using assms(1) that by (auto simp: storage_ok_def)
    then show ?thesis
      by (cases "(cat, entry)" rule: storage_entry_ok.cases) (auto simp: table_decls_def image_iff)
  qed
  have "distinct (map fold_name (map fst (table_decls cat)))"
    using assms(2) by (simp add: schemas_ok_def comp_def)
  then have "inj_on fold_name (set (map fst (table_decls cat)))" by (simp only: distinct_map)
  moreover have "fst ` set (cat_storage cat) \<subseteq> set (map fst (table_decls cat))" using named by auto
  ultimately have "inj_on fold_name (fst ` set (cat_storage cat))" by (rule inj_on_subset)
  moreover have "distinct (map fst (cat_storage cat))"
    using assms(1) by (simp add: storage_ok_def bt_wf_distinct)
  ultimately have "distinct (map fold_name (map fst (cat_storage cat)))"
    by (subst distinct_map) simp
  moreover have "validate_storage_entry cat entry = Inr ()" if "entry \<in> set (cat_storage cat)" for entry
  proof -
    have "storage_entry_ok cat entry" using assms(1) that by (auto simp: storage_ok_def)
    then show ?thesis
      by (cases "(cat, entry)" rule: storage_entry_ok.cases)
        (use node_table_mem rel_table_mem in \<open>auto simp del: not_None_eq\<close>)
  qed
  ultimately show ?thesis
    by (simp add: validate_storage_def unique_loop_iff comp_def split_def)
qed

lemma from_payload_inv:
  assumes "catalog_inv cat" "parse payload = Some cat"
  shows "from_payload parse payload = Inr cat"
proof -
  have "validate_schemas cat = Inr ()" "validate_storage cat = Inr ()" "validate_indexes cat = Inr ()"
    "validate_ontology cat = Inr ()" "validate_pins cat = Inr ()"
    using assms(1) validate_storage_ok [of cat]
    by (simp_all add: catalog_inv_def validate_schemas_iff validate_indexes_iff validate_ontology_iff
        validate_pins_iff)
  then show ?thesis using assms(2) by (simp add: from_payload_def)
qed

section \<open>Every operation keeps the catalog loadable\<close>

text \<open>Lookups that succeed keep their result when entries are appended.\<close>

definition grows :: "catalog \<Rightarrow> catalog \<Rightarrow> bool" where
  "grows cat cat' \<longleftrightarrow>
    (\<forall>n sch. node_table cat n = Some sch \<longrightarrow> node_table cat' n = Some sch) \<and>
    (\<forall>n sch. rel_table cat n = Some sch \<longrightarrow> rel_table cat' n = Some sch) \<and>
    (\<forall>n i. interface cat n = Some i \<longrightarrow> interface cat' n = Some i)"

lemma validate_index_entry_grows:
  "grows cat cat' \<Longrightarrow> validate_index_entry cat x = Inr () \<Longrightarrow> validate_index_entry cat' x = Inr ()"
  by (auto simp: grows_def validate_index_entry_def split: if_splits option.splits)

lemma validate_node_class_entry_grows:
  assumes "grows cat cat'" "validate_node_class_entry cat x = Inr ()"
  shows "validate_node_class_entry cat' x = Inr ()"
proof -
  from assms(2) obtain sch where sch: "node_table cat (nc_table x) = Some sch"
    by (auto simp: validate_node_class_entry_def split: option.splits)
  moreover have "node_table cat' (nc_table x) = Some sch" using assms(1) sch by (simp add: grows_def)
  moreover have "interface cat' n = Some i" if "interface cat n = Some i" for n i
    using assms(1) that by (simp add: grows_def)
  ultimately show ?thesis
    using assms(2)
    by (auto simp: validate_node_class_entry_def rbind_eq_Inr rfold_check_iff split: option.splits)
qed

lemma validate_rel_class_entry_grows:
  "grows cat cat' \<Longrightarrow> validate_rel_class_entry cat x = Inr () \<Longrightarrow> validate_rel_class_entry cat' x = Inr ()"
  by (auto simp: grows_def validate_rel_class_entry_def split: if_splits)

lemma indexes_ok_grows:
  "grows cat cat' \<Longrightarrow> cat_indexes cat' = cat_indexes cat \<Longrightarrow> indexes_ok cat \<Longrightarrow> indexes_ok cat'"
  by (auto simp: indexes_ok_def intro: validate_index_entry_grows)

lemma ontology_ok_grows: "grows cat cat' \<Longrightarrow> ontology_ok cat ont \<Longrightarrow> ontology_ok cat' ont"
  by (auto simp: ontology_ok_def intro: validate_node_class_entry_grows validate_rel_class_entry_grows)

text \<open>One step: any operation of the catalog that succeeds, schemas coming from the constructors.\<close>

inductive catalog_step :: "catalog \<Rightarrow> catalog \<Rightarrow> bool" where
  step_add_node: "node_schema_new name cols = Inr sch \<Longrightarrow> add_node_table cat sch = Inr cat' \<Longrightarrow>
    catalog_step cat cat'"
| step_add_rel: "rel_schema_new name from to cols = Inr sch \<Longrightarrow> add_rel_table cat sch = Inr cat' \<Longrightarrow>
    catalog_step cat cat'"
| step_table_storage: "set_table_storage cat name st = Inr cat' \<Longrightarrow> catalog_step cat cat'"
| step_rel_storage: "set_rel_storage cat name rst = Inr cat' \<Longrightarrow> catalog_step cat cat'"
| step_add_index: "add_index cat entry = Inr cat' \<Longrightarrow> catalog_step cat cat'"
| step_index_root: "set_index_root cat name root = Inr cat' \<Longrightarrow> catalog_step cat cat'"
| step_interface: "declare_interface cat i = Inr cat' \<Longrightarrow> catalog_step cat cat'"
| step_node_class: "declare_node_class cat nc = Inr cat' \<Longrightarrow> catalog_step cat cat'"
| step_rel_class: "declare_rel_class cat rc = Inr cat' \<Longrightarrow> catalog_step cat cat'"
| step_pin: "pin cat p = Inr cat' \<Longrightarrow> catalog_step cat cat'"
| step_unpin: "unpin cat name = Inr cat' \<Longrightarrow> catalog_step cat cat'"

text \<open>Operations on the table lists: everything that refers to tables refers to tables still there.\<close>

lemma catalog_inv_tables:
  assumes "catalog_inv cat" "grows cat cat'" "schemas_ok cat'"
    and "node_name ` set (cat_node_tables cat) \<subseteq> node_name ` set (cat_node_tables cat')"
    and "rel_name ` set (cat_rel_tables cat) \<subseteq> rel_name ` set (cat_rel_tables cat')"
    and "cat_storage cat' = cat_storage cat" "cat_indexes cat' = cat_indexes cat"
    and "cat_ontology cat' = cat_ontology cat" "cat_pins cat' = cat_pins cat"
  shows "catalog_inv cat'"
proof -
  have entry: "storage_entry_ok cat' e" if "storage_entry_ok cat e" for e
    using that assms(4,5) by (cases "(cat, e)" rule: storage_entry_ok.cases) auto
  then have "storage_ok cat'" using assms(1,6) by (auto simp: catalog_inv_def storage_ok_def)
  moreover have "indexes_ok cat'"
    using assms(1,2,7) by (auto simp: catalog_inv_def intro: indexes_ok_grows)
  moreover have "pins_ok cat'" using assms(1,9) by (simp add: catalog_inv_def pins_ok_def)
  ultimately show ?thesis
    using assms(1,2,3,8) by (auto simp: catalog_inv_def intro: ontology_ok_grows)
qed

lemma not_contains_table:
  "\<not> contains_table cat name \<longleftrightarrow>
    (\<forall>sch \<in> set (cat_node_tables cat). fold_name (node_name sch) \<noteq> fold_name name) \<and>
    (\<forall>sch \<in> set (cat_rel_tables cat). fold_name (rel_name sch) \<noteq> fold_name name)"
  by (simp add: contains_table_def node_table_def rel_table_def find_None_all del: not_None_eq)

lemma schemas_ok_alt:
  "schemas_ok cat \<longleftrightarrow>
    distinct (map (\<lambda>sch. fold_name (node_name sch)) (cat_node_tables cat)) \<and>
    distinct (map (\<lambda>sch. fold_name (rel_name sch)) (cat_rel_tables cat)) \<and>
    (\<forall>n \<in> set (cat_node_tables cat). \<forall>r \<in> set (cat_rel_tables cat).
      fold_name (node_name n) \<noteq> fold_name (rel_name r)) \<and>
    (\<forall>sch \<in> set (cat_node_tables cat). columns_distinct (node_columns sch)) \<and>
    (\<forall>sch \<in> set (cat_rel_tables cat). columns_distinct (rel_columns sch))"
  by (auto simp: schemas_ok_def table_decls_def comp_def ball_Un disjoint_iff image_iff)

lemma add_node_table_inv:
  assumes "catalog_inv cat" "node_schema_new name cols = Inr sch" "add_node_table cat sch = Inr cat'"
  shows "catalog_inv cat'"
proof -
  from assms(3) have new: "\<not> contains_table cat (node_name sch)"
    and cat': "cat' = cat\<lparr> cat_node_tables := cat_node_tables cat @ [sch] \<rparr>"
    by (auto simp: add_node_table_def split: if_splits)
  from assms(2) have cols: "columns_distinct (node_columns sch)"
    by (auto simp: node_schema_new_iff node_schema_wf_def columns_wf_def columns_distinct_def)
  have "schemas_ok cat" using assms(1) by (simp add: catalog_inv_def)
  then have "schemas_ok cat'"
    using new cols by (auto simp: schemas_ok_alt not_contains_table cat')
  moreover have "grows cat cat'"
    by (auto simp: grows_def cat' node_table_def rel_table_def interface_def find_append
        split: option.splits)
  ultimately show ?thesis
    by (intro catalog_inv_tables [OF assms(1)]) (auto simp: cat')
qed

lemma add_rel_table_inv:
  assumes "catalog_inv cat" "rel_schema_new name from to cols = Inr sch" "add_rel_table cat sch = Inr cat'"
  shows "catalog_inv cat'"
proof -
  from assms(3) have new: "\<not> contains_table cat (rel_name sch)"
    and cat': "cat' = cat\<lparr> cat_rel_tables := cat_rel_tables cat @ [sch] \<rparr>"
    by (auto simp: add_rel_table_def rbind_eq_Inr split: if_splits)
  from assms(2) have cols: "columns_distinct (rel_columns sch)"
    by (auto simp: rel_schema_new_iff rel_schema_wf_def columns_wf_def columns_distinct_def)
  have "schemas_ok cat" using assms(1) by (simp add: catalog_inv_def)
  then have "schemas_ok cat'"
    using new cols by (auto simp: schemas_ok_alt not_contains_table cat')
  moreover have "grows cat cat'"
    by (auto simp: grows_def cat' node_table_def rel_table_def interface_def find_append
        split: option.splits)
  ultimately show ?thesis
    by (intro catalog_inv_tables [OF assms(1)]) (auto simp: cat')
qed

lemma set_bt_insert: "set (bt_insert k v m) \<subseteq> insert (k, v) (set m)"
  by (induction k v m rule: bt_insert.induct) auto

lemma catalog_inv_storage:
  assumes "catalog_inv cat" "storage_entry_ok cat (name, st)"
  shows "catalog_inv (cat\<lparr> cat_storage := bt_insert name st (cat_storage cat) \<rparr>)" (is "catalog_inv ?cat'")
proof -
  have same: "grows cat ?cat'"
    by (simp add: grows_def node_table_def rel_table_def interface_def)
  have entry: "storage_entry_ok ?cat' e = storage_entry_ok cat e" for e
    by (cases "(cat, e)" rule: storage_entry_ok.cases) simp_all
  have "storage_ok ?cat'"
    using assms set_bt_insert [of name st "cat_storage cat"]
    by (auto simp: catalog_inv_def storage_ok_def entry bt_wf_insert)
  then show ?thesis
    using assms(1) indexes_ok_grows [OF same] ontology_ok_grows [OF same]
    by (simp add: catalog_inv_def schemas_ok_alt pins_ok_def)
qed

lemma set_table_storage_inv:
  "catalog_inv cat \<Longrightarrow> set_table_storage cat name st = Inr cat' \<Longrightarrow> catalog_inv cat'"
  by (auto simp: set_table_storage_def rbind_eq_Inr ok_or_eq_Inr node_table_def find_Some_iff
      intro!: catalog_inv_storage)

lemma set_rel_storage_inv:
  "catalog_inv cat \<Longrightarrow> set_rel_storage cat name st = Inr cat' \<Longrightarrow> catalog_inv cat'"
  by (auto simp: set_rel_storage_def rbind_eq_Inr ok_or_eq_Inr rel_table_def find_Some_iff
      intro!: catalog_inv_storage)

text \<open>Operations on the lists that refer to tables.\<close>

lemma catalog_inv_indexes:
  assumes "catalog_inv cat" "indexes_ok (cat\<lparr> cat_indexes := xs \<rparr>)"
  shows "catalog_inv (cat\<lparr> cat_indexes := xs \<rparr>)" (is "catalog_inv ?cat'")
proof -
  have same: "grows cat ?cat'"
    by (simp add: grows_def node_table_def rel_table_def interface_def)
  have entry: "storage_entry_ok ?cat' e = storage_entry_ok cat e" for e
    by (cases "(cat, e)" rule: storage_entry_ok.cases) simp_all
  show ?thesis
    using assms ontology_ok_grows [OF same]
    by (simp add: catalog_inv_def schemas_ok_alt pins_ok_def storage_ok_def entry)
qed

lemma validate_index_entry_indexes [simp]:
  "validate_index_entry (cat\<lparr> cat_indexes := xs \<rparr>) = validate_index_entry cat"
  by (simp add: fun_eq_iff validate_index_entry_def node_table_def)

lemma add_index_inv:
  assumes "catalog_inv cat" "add_index cat entry = Inr cat'"
  shows "catalog_inv cat'"
proof -
  from assms(2) have new: "\<forall>x \<in> set (cat_indexes cat). fold_name (ix_name x) \<noteq> fold_name (ix_name entry)"
    "\<forall>x \<in> set (cat_indexes cat). \<not> (fold_name (ix_table x) = fold_name (ix_table entry) \<and>
      fold_name (ix_column x) = fold_name (ix_column entry))"
    and valid: "validate_index_entry cat entry = Inr ()"
    and cat': "cat' = cat\<lparr> cat_indexes := cat_indexes cat @ [entry] \<rparr>"
    by (auto simp: add_index_def rbind_eq_Inr map_err_eq_Inr list_ex_iff find_None_all
        simp del: not_None_eq split: if_splits)
  show ?thesis
    unfolding cat' using assms(1) new valid
    by (intro catalog_inv_indexes) (auto simp: catalog_inv_def indexes_ok_def)
qed

lemma map_update_same: "f y = f (xs ! p) \<Longrightarrow> map f (xs[p := y]) = map f xs"
  by (cases "p < length xs") (simp_all add: map_update list_update_same_conv list_update_beyond)

lemma set_index_root_inv:
  assumes "catalog_inv cat" "set_index_root cat name root = Inr cat'"
  shows "catalog_inv cat'"
proof -
  let ?xs = "cat_indexes cat"
  from assms(2) obtain p where p: "p < length ?xs" and root: "root \<noteq> 0"
    and cat': "cat' = cat\<lparr> cat_indexes := ?xs[p := (?xs ! p)\<lparr> ix_root := root \<rparr>] \<rparr>"
    by (auto simp: set_index_root_def rbind_eq_Inr ok_or_eq_Inr position_eq_Some split: if_splits)
  have "validate_index_entry cat (?xs ! p) = Inr ()"
    using assms(1) p by (simp add: catalog_inv_def indexes_ok_def)
  then have "validate_index_entry cat ((?xs ! p)\<lparr> ix_root := root \<rparr>) = Inr ()"
    using root by (auto simp: validate_index_entry_def split: if_splits option.splits)
  then have "\<forall>x \<in> set (?xs[p := (?xs ! p)\<lparr> ix_root := root \<rparr>]). validate_index_entry cat x = Inr ()"
    using assms(1) set_update_subset_insert [of ?xs p] by (auto simp: catalog_inv_def indexes_ok_def)
  then show ?thesis
    unfolding cat' using assms(1)
    by (intro catalog_inv_indexes) (simp_all add: catalog_inv_def indexes_ok_def map_update_same)
qed

lemma catalog_inv_pins:
  assumes "catalog_inv cat" "pins_ok (cat\<lparr> cat_pins := xs \<rparr>)"
  shows "catalog_inv (cat\<lparr> cat_pins := xs \<rparr>)" (is "catalog_inv ?cat'")
proof -
  have same: "grows cat ?cat'"
    by (simp add: grows_def node_table_def rel_table_def interface_def)
  have entry: "storage_entry_ok ?cat' e = storage_entry_ok cat e" for e
    by (cases "(cat, e)" rule: storage_entry_ok.cases) simp_all
  show ?thesis
    using assms ontology_ok_grows [OF same] indexes_ok_grows [OF same]
    by (simp add: catalog_inv_def schemas_ok_alt storage_ok_def entry)
qed

lemma pin_inv:
  assumes "catalog_inv cat" "pin cat p = Inr cat'"
  shows "catalog_inv cat'"
proof -
  from assms(2) have "\<forall>x \<in> set (cat_pins cat). fold_name (pin_name x) \<noteq> fold_name (pin_name p)"
    and "validate_pin_entry p = Inr ()" and cat': "cat' = cat\<lparr> cat_pins := cat_pins cat @ [p] \<rparr>"
    by (auto simp: pin_def rbind_eq_Inr map_err_eq_Inr list_ex_iff split: if_splits)
  with assms(1) show ?thesis
    unfolding cat' by (intro catalog_inv_pins) (auto simp: catalog_inv_def pins_ok_def)
qed

lemma unpin_inv:
  assumes "catalog_inv cat" "unpin cat name = Inr cat'"
  shows "catalog_inv cat'"
proof -
  from assms(2) obtain ix where
    cat': "cat' = cat\<lparr> cat_pins := take ix (cat_pins cat) @ drop (Suc ix) (cat_pins cat) \<rparr>"
    by (auto simp: unpin_def rbind_eq_Inr)
  let ?xs = "take ix (cat_pins cat) @ drop (Suc ix) (cat_pins cat)"
  have ok: "pins_ok cat" using assms(1) by (simp add: catalog_inv_def)
  have sub: "set ?xs \<subseteq> set (cat_pins cat)"
    using set_take_subset [of ix "cat_pins cat"] set_drop_subset [of "Suc ix" "cat_pins cat"] by auto
  let ?ys = "map (\<lambda>p. fold_name (pin_name p)) (cat_pins cat)"
  have "distinct ?ys" using ok by (simp add: pins_ok_def)
  then have "distinct (map (\<lambda>p. fold_name (pin_name p)) ?xs)"
    using set_take_disj_set_drop_if_distinct [of ?ys ix "Suc ix"] distinct_take [of ?ys ix]
      distinct_drop [of ?ys "Suc ix"]
    by (simp add: take_map drop_map)
  with ok sub have "pins_ok (cat\<lparr> cat_pins := ?xs \<rparr>)" unfolding pins_ok_def by auto
  then show ?thesis unfolding cat' by (rule catalog_inv_pins [OF assms(1)])
qed

text \<open>Declarations in the ontology section.\<close>

lemma catalog_inv_ontology:
  assumes "catalog_inv cat" "ontology_ok (cat\<lparr> cat_ontology := Some ont \<rparr>) ont"
  shows "catalog_inv (cat\<lparr> cat_ontology := Some ont \<rparr>)" (is "catalog_inv ?cat'")
proof -
  have entry: "storage_entry_ok ?cat' e = storage_entry_ok cat e" for e
    by (cases "(cat, e)" rule: storage_entry_ok.cases) simp_all
  have index: "validate_index_entry ?cat' = validate_index_entry cat"
    by (simp add: fun_eq_iff validate_index_entry_def node_table_def)
  show ?thesis
    using assms
    by (simp add: catalog_inv_def schemas_ok_alt storage_ok_def entry indexes_ok_def index pins_ok_def)
qed

lemma ontology_or_default_ok:
  assumes "catalog_inv cat"
  defines "ont \<equiv> ontology_or_default cat"
  shows "distinct (map (\<lambda>i. fold_name (if_name i)) (ont_interfaces ont))"
    and "\<forall>i \<in> set (ont_interfaces ont). validate_interface_entry i = Inr ()"
    and "distinct (map (\<lambda>cls. fold_name (nc_table cls)) (ont_node_classes ont))"
    and "\<forall>cls \<in> set (ont_node_classes ont). validate_node_class_entry cat cls = Inr ()"
    and "distinct (map (\<lambda>cls. fold_name (rc_table cls)) (ont_rel_classes ont))"
    and "\<forall>cls \<in> set (ont_rel_classes ont). validate_rel_class_entry cat cls = Inr ()"
  using assms(1)
  by (auto simp: ont_def ontology_or_default_def ontology_default_def catalog_inv_def ontology_ok_def
      split: option.split)

lemma grows_ontology:
  assumes "\<exists>new. ont_interfaces ont = ont_interfaces (ontology_or_default cat) @ new"
  shows "grows cat (cat\<lparr> cat_ontology := Some ont \<rparr>)"
  using assms
  by (auto simp: grows_def node_table_def rel_table_def interface_def ontology_or_default_def find_append
      split: option.splits)

lemma interface_alt:
  "interface cat name = find (\<lambda>i. fold_name (if_name i) = fold_name name) (ont_interfaces (ontology_or_default cat))"
  by (simp add: interface_def ontology_or_default_def ontology_default_def split: option.split)

lemma node_class_alt:
  "node_class cat name = find (\<lambda>i. fold_name (nc_table i) = fold_name name) (ont_node_classes (ontology_or_default cat))"
  by (simp add: node_class_def ontology_or_default_def ontology_default_def split: option.split)

lemma rel_class_alt:
  "rel_class cat name = find (\<lambda>i. fold_name (rc_table i) = fold_name name) (ont_rel_classes (ontology_or_default cat))"
  by (simp add: rel_class_def ontology_or_default_def ontology_default_def split: option.split)

lemma declare_interface_inv:
  assumes "catalog_inv cat" "declare_interface cat entry = Inr cat'"
  shows "catalog_inv cat'"
proof -
  let ?ont = "ontology_or_default cat"
  let ?ont' = "?ont\<lparr> ont_interfaces := ont_interfaces ?ont @ [entry] \<rparr>"
  from assms(2) have new: "\<forall>i \<in> set (ont_interfaces ?ont). fold_name (if_name i) \<noteq> fold_name (if_name entry)"
    and valid: "validate_interface_entry entry = Inr ()"
    and cat': "cat' = cat\<lparr> cat_ontology := Some ?ont' \<rparr>"
    by (auto simp: declare_interface_def rbind_eq_Inr map_err_eq_Inr interface_alt find_None_all Let_def
        simp del: not_None_eq split: if_splits)
  have grow: "grows cat (cat\<lparr> cat_ontology := Some ?ont' \<rparr>)" by (rule grows_ontology) simp
  show ?thesis
    unfolding cat' using ontology_or_default_ok [OF assms(1)] new valid
    by (intro catalog_inv_ontology assms(1))
      (auto simp: ontology_ok_def ontology_is_empty_def intro: validate_node_class_entry_grows [OF grow]
        validate_rel_class_entry_grows [OF grow])
qed

lemma declare_node_class_inv:
  assumes "catalog_inv cat" "declare_node_class cat entry = Inr cat'"
  shows "catalog_inv cat'"
proof -
  let ?ont = "ontology_or_default cat"
  let ?ont' = "?ont\<lparr> ont_node_classes := ont_node_classes ?ont @ [entry] \<rparr>"
  from assms(2) have new: "\<forall>i \<in> set (ont_node_classes ?ont). fold_name (nc_table i) \<noteq> fold_name (nc_table entry)"
    and valid: "validate_node_class_entry cat entry = Inr ()"
    and cat': "cat' = cat\<lparr> cat_ontology := Some ?ont' \<rparr>"
    by (auto simp: declare_node_class_def rbind_eq_Inr map_err_eq_Inr node_class_alt find_None_all Let_def
        simp del: not_None_eq split: if_splits)
  have grow: "grows cat (cat\<lparr> cat_ontology := Some ?ont' \<rparr>)" by (rule grows_ontology) simp
  show ?thesis
    unfolding cat' using ontology_or_default_ok [OF assms(1)] new valid
    by (intro catalog_inv_ontology assms(1))
      (auto simp: ontology_ok_def ontology_is_empty_def intro: validate_node_class_entry_grows [OF grow]
        validate_rel_class_entry_grows [OF grow])
qed

lemma declare_rel_class_inv:
  assumes "catalog_inv cat" "declare_rel_class cat entry = Inr cat'"
  shows "catalog_inv cat'"
proof -
  let ?ont = "ontology_or_default cat"
  let ?ont' = "?ont\<lparr> ont_rel_classes := ont_rel_classes ?ont @ [entry] \<rparr>"
  from assms(2) have new: "\<forall>i \<in> set (ont_rel_classes ?ont). fold_name (rc_table i) \<noteq> fold_name (rc_table entry)"
    and valid: "validate_rel_class_entry cat entry = Inr ()"
    and cat': "cat' = cat\<lparr> cat_ontology := Some ?ont' \<rparr>"
    by (auto simp: declare_rel_class_def rbind_eq_Inr map_err_eq_Inr rel_class_alt find_None_all Let_def
        simp del: not_None_eq split: if_splits)
  have grow: "grows cat (cat\<lparr> cat_ontology := Some ?ont' \<rparr>)" by (rule grows_ontology) simp
  show ?thesis
    unfolding cat' using ontology_or_default_ok [OF assms(1)] new valid
    by (intro catalog_inv_ontology assms(1))
      (auto simp: ontology_ok_def ontology_is_empty_def intro: validate_node_class_entry_grows [OF grow]
        validate_rel_class_entry_grows [OF grow])
qed

lemma catalog_step_inv: "catalog_step cat cat' \<Longrightarrow> catalog_inv cat \<Longrightarrow> catalog_inv cat'"
  by (induction rule: catalog_step.induct)
    (blast intro: add_node_table_inv add_rel_table_inv set_table_storage_inv set_rel_storage_inv
      add_index_inv set_index_root_inv declare_interface_inv declare_node_class_inv
      declare_rel_class_inv pin_inv unpin_inv)+

lemma catalog_default_inv: "catalog_inv catalog_default"
  by (simp add: catalog_inv_def catalog_default_def schemas_ok_alt storage_ok_def indexes_ok_def
      pins_ok_def bt_wf_def)

interpretation catalog_sys: invariant_system "\<lambda>cat. cat = catalog_default" catalog_step catalog_inv
  by unfold_locales (auto intro: catalog_step_inv catalog_default_inv)

section \<open>The page\<close>

lemma catalog_page_roundtrip:
  assumes "encode_single crc32c payload page_size = Inr page"
  shows "catalog_decode crc32c parse page = from_payload parse payload"
proof -
  from assms have size: "8 \<le> page_size" "length payload \<le> page_size - 8" "length payload < 2 ^ 32"
    and page: "page = copy_into (copy_into (copy_into (replicate page_size 0) 0
      (u32_to_le_bytes (of_nat (length payload)))) 4 (u32_to_le_bytes (crc32c payload))) 8 payload"
    by (auto simp: encode_single_def CATALOG_HEADER_LEN_def rbind_eq_Inr ok_or_eq_Inr u32_try_from_eq_Some
        Let_def split: if_splits)
  have len: "length page = page_size" using size by (simp add: page)
  have "read_u32 page 0 = of_nat (length payload)" "read_u32 page 4 = crc32c payload"
    using size by (simp_all add: page read_u32_def byte_simps)
  moreover have "subslice page 8 (8 + length payload) = payload"
    using size by (simp add: page byte_simps)
  moreover have "drop (8 + length payload) page = replicate (page_size - 8 - length payload) 0"
    using size by (simp add: page copy_into_def)
  ultimately show ?thesis
    using size len by (simp add: catalog_decode_def CATALOG_HEADER_LEN_def Let_def list_ex_iff)
qed

text \<open>
  C15. A catalog that is built from the empty one by any sequence of successful operations can be
  stored and loaded: when its JSON text is faithful and fits the page, the stored page decodes to
  exactly that catalog, so none of the checks on load ever refuses what the operations produce.
\<close>

theorem catalog_operations_loadable:
  assumes "catalog_step\<^sup>*\<^sup>* catalog_default cat"
    and "parse (print cat) = Some cat"
    and "encode_single crc32c (print cat) page_size = Inr page"
  shows "catalog_decode crc32c parse page = Inr cat"
  using catalog_sys.reachable_inv [OF refl assms(1)] assms(2)
  by (simp add: catalog_page_roundtrip [OF assms(3)] from_payload_inv)

definition sample_person :: node_table_schema where
  "sample_person = \<lparr> node_name = ''Person'', node_columns =
    [\<lparr> scol_name = ''id'', scol_ty = TInt64, scol_primary_key = True \<rparr>] \<rparr>"

definition sample_catalog :: catalog where
  "sample_catalog = catalog_default\<lparr> cat_node_tables := [sample_person],
    cat_storage := [(''Person'', StorageNode \<lparr> ts_groups = [7] \<rparr>)] \<rparr>"

lemma sample_catalog_reachable: "catalog_step\<^sup>*\<^sup>* catalog_default sample_catalog"
proof -
  have "node_schema_new ''Person'' (node_columns sample_person) = Inr sample_person" by code_simp
  moreover have "add_node_table catalog_default sample_person =
      Inr (catalog_default\<lparr> cat_node_tables := [sample_person] \<rparr>)"
    by code_simp
  ultimately have "catalog_step catalog_default (catalog_default\<lparr> cat_node_tables := [sample_person] \<rparr>)"
    by (rule step_add_node)
  moreover have "set_table_storage (catalog_default\<lparr> cat_node_tables := [sample_person] \<rparr>) ''PERSON''
      \<lparr> ts_groups = [7] \<rparr> = Inr sample_catalog"
    by code_simp
  then have "catalog_step (catalog_default\<lparr> cat_node_tables := [sample_person] \<rparr>) sample_catalog"
    by (rule step_table_storage)
  ultimately show ?thesis by (meson converse_rtranclp_into_rtranclp r_into_rtranclp)
qed

theorem catalog_operations_loadable_witness:
  "\<exists>page. encode_single (\<lambda>_. 5) [0x7B, 0x7D] 4096 = Inr page \<and>
    catalog_decode (\<lambda>_. 5) (\<lambda>_. Some sample_catalog) page = Inr sample_catalog"
proof -
  have "\<exists>page. encode_single (\<lambda>_. 5) [0x7B, 0x7D] 4096 = Inr page"
    by (simp add: encode_single_def CATALOG_HEADER_LEN_def u32_try_from_def Let_def)
  then obtain page where page: "encode_single (\<lambda>_. 5) [0x7B, 0x7D] 4096 = Inr page" by blast
  have "catalog_decode (\<lambda>_. 5) (\<lambda>_. Some sample_catalog) page = Inr sample_catalog"
    by (rule catalog_operations_loadable [OF sample_catalog_reachable,
          where print = "\<lambda>_. [0x7B, 0x7D]" and page_size = 4096, OF refl page])
  with page show ?thesis by blast
qed

text \<open>
  The checks on load accept storage under a spelling of the table name that the operations never
  write; setting the storage of that table then leaves two fold-equal keys, which load refuses.
\<close>

definition respelled_catalog :: catalog where
  "respelled_catalog = catalog_default\<lparr> cat_node_tables := [sample_person],
    cat_storage := [(''person'', StorageNode \<lparr> ts_groups = [7] \<rparr>)] \<rparr>"

theorem respelled_storage_unloadable:
  "from_payload (\<lambda>_. Some respelled_catalog) [] = Inr respelled_catalog \<and>
   set_table_storage respelled_catalog ''Person'' \<lparr> ts_groups = [8] \<rparr> =
     Inr (respelled_catalog\<lparr> cat_storage := [(''Person'', StorageNode \<lparr> ts_groups = [8] \<rparr>),
       (''person'', StorageNode \<lparr> ts_groups = [7] \<rparr>)] \<rparr>) \<and>
   \<not> is_ok (from_payload (\<lambda>_. Some (respelled_catalog\<lparr> cat_storage :=
     [(''Person'', StorageNode \<lparr> ts_groups = [8] \<rparr>), (''person'', StorageNode \<lparr> ts_groups = [7] \<rparr>)] \<rparr>)) [])"
proof (intro conjI)
  show "from_payload (\<lambda>_. Some respelled_catalog) [] = Inr respelled_catalog" by code_simp
  show "set_table_storage respelled_catalog ''Person'' \<lparr> ts_groups = [8] \<rparr> =
     Inr (respelled_catalog\<lparr> cat_storage := [(''Person'', StorageNode \<lparr> ts_groups = [8] \<rparr>),
       (''person'', StorageNode \<lparr> ts_groups = [7] \<rparr>)] \<rparr>)" by code_simp
  show "\<not> is_ok (from_payload (\<lambda>_. Some (respelled_catalog\<lparr> cat_storage :=
     [(''Person'', StorageNode \<lparr> ts_groups = [8] \<rparr>), (''person'', StorageNode \<lparr> ts_groups = [7] \<rparr>)] \<rparr>)) [])"
    by code_simp
qed

end
