(* ===== verification/TxnLog.thy ===== *)
theory TxnLog
  imports Schema
begin

text \<open>
  Transactional framing of the log (\<^verbatim>\<open>devondb-storage/src/txn_log.rs\<close>): the payload registry, the
  canonical order of the records of a transaction, and the reader that groups a replayed log into
  committed transactions.

  The JSON text is produced and parsed by \<^verbatim>\<open>serde_json\<close>, which is not part of the repository: its
  operations are the fields of \<open>serde_json\<close>, an argument of the definitions that call it. The
  structs the source derives the JSON from are the constructors of \<open>payload_doc\<close>.
\<close>

section \<open>Payloads\<close>

datatype rel_endpoint = EndpointFrom | EndpointTo

datatype ddl_payload =
    CreateNodeTable node_table_schema
  | CreateRelTable rel_table_schema

datatype wal_payload =
    NodeInsert string "devon_value list"
  | RelInsert string u64 u64 "devon_value list"
  | NodeUpdate string "devon_value list"
  | RelDelete string rel_endpoint u64
  | NodeDelete string devon_value
  | Ddl ddl_payload
  | Commit u64

record committed_record =
  begin_lsn :: u64
  payload :: wal_payload

record committed_group =
  commit_lsn :: u64
  group_records :: "committed_record list"

section \<open>The JSON library\<close>

datatype payload_doc =
    NodeInsertPayload string "devon_value list"
  | RelInsertPayload string u64 u64 "devon_value list"
  | NodeUpdateEnvelope string "devon_value list"
  | RelDeleteEnvelope string rel_endpoint u64
  | NodeDeleteEnvelope string devon_value
  | DdlEnvelope ddl_payload
  | CommitEnvelope u64

text \<open>
  \<open>to_vec\<close> is \<open>serde_json::to_vec\<close> on one of the structs. \<open>parse_value\<close> is \<open>serde_json::from_slice\<close>
  into a \<open>Value\<close>: no value, a value that is no object, or an object with these keys. The remaining
  fields are \<open>serde_json::from_slice\<close> at the type of each struct.
\<close>

record serde_json =
  to_vec :: "payload_doc \<Rightarrow> bytes option"
  parse_value :: "bytes \<Rightarrow> string list option option"
  parse_node_insert :: "bytes \<Rightarrow> (string \<times> devon_value list) option"
  parse_rel_insert :: "bytes \<Rightarrow> (string \<times> u64 \<times> u64 \<times> devon_value list) option"
  parse_node_update :: "bytes \<Rightarrow> (string \<times> devon_value list) option"
  parse_rel_delete :: "bytes \<Rightarrow> (string \<times> rel_endpoint \<times> u64) option"
  parse_node_delete :: "bytes \<Rightarrow> (string \<times> devon_value) option"
  parse_ddl :: "bytes \<Rightarrow> ddl_payload option"
  parse_commit :: "bytes \<Rightarrow> u64 option"

section \<open>Encoding and decoding one payload\<close>

definition f64_is_finite :: "u64 \<Rightarrow> bool" where
  "f64_is_finite x \<longleftrightarrow> x AND 0x7FF0000000000000 \<noteq> 0x7FF0000000000000"

definition f32_is_finite :: "u32 \<Rightarrow> bool" where
  "f32_is_finite x \<longleftrightarrow> x AND 0x7F800000 \<noteq> 0x7F800000"

fun finite_value :: "devon_value \<Rightarrow> bool" where
  "finite_value (VFloat64 x) = f64_is_finite x"
| "finite_value (VVector xs) = (\<not> list_ex (\<lambda>x. \<not> f32_is_finite x) xs)"
| "finite_value v = True"

fun validate_finite_values :: "devon_value list \<Rightarrow> unit devon_result" where
  "validate_finite_values [] = Inr ()"
| "validate_finite_values (v # vs) =
    (if \<not> finite_value v
     then Inl (InvalidArgument ''{} table {} contains a non-finite {} value'')
     else validate_finite_values vs)"

definition encode_json :: "serde_json \<Rightarrow> payload_doc \<Rightarrow> bytes devon_result" where
  "encode_json js doc = ok_or (InvalidArgument ''{} cannot be encoded: {}'') (to_vec js doc)"

fun encode_payload :: "serde_json \<Rightarrow> wal_payload \<Rightarrow> bytes devon_result" where
  "encode_payload js (NodeInsert table row) =
    rbind (validate_finite_values row) (\<lambda>_. encode_json js (NodeInsertPayload table row))"
| "encode_payload js (RelInsert rel src dst values) =
    rbind (validate_finite_values values) (\<lambda>_. encode_json js (RelInsertPayload rel src dst values))"
| "encode_payload js (NodeUpdate table row) =
    rbind (validate_finite_values row) (\<lambda>_. encode_json js (NodeUpdateEnvelope table row))"
| "encode_payload js (RelDelete rel endpoint offset) =
    encode_json js (RelDeleteEnvelope rel endpoint offset)"
| "encode_payload js (NodeDelete table key) =
    rbind (validate_finite_values [key]) (\<lambda>_. encode_json js (NodeDeleteEnvelope table key))"
| "encode_payload js (Ddl ddl) = encode_json js (DdlEnvelope ddl)"
| "encode_payload js (Commit records) =
    (if records = 0
     then Inl (InvalidArgument ''commit WAL payload must name at least one record'')
     else encode_json js (CommitEnvelope records))"

definition decode_json :: "'a option \<Rightarrow> 'a devon_result" where
  "decode_json parsed = ok_or (Corrupt ''{} is malformed: {}'') parsed"

definition decode_node_insert :: "serde_json \<Rightarrow> bytes \<Rightarrow> wal_payload devon_result" where
  "decode_node_insert js bs =
    rbind (decode_json (parse_node_insert js bs)) (\<lambda>(table, row). Inr (NodeInsert table row))"

definition decode_rel_insert :: "serde_json \<Rightarrow> bytes \<Rightarrow> wal_payload devon_result" where
  "decode_rel_insert js bs =
    rbind (decode_json (parse_rel_insert js bs))
      (\<lambda>(rel, src, dst, values). Inr (RelInsert rel src dst values))"

definition decode_node_update :: "serde_json \<Rightarrow> bytes \<Rightarrow> wal_payload devon_result" where
  "decode_node_update js bs =
    rbind (decode_json (parse_node_update js bs)) (\<lambda>(table, row). Inr (NodeUpdate table row))"

definition decode_rel_delete :: "serde_json \<Rightarrow> bytes \<Rightarrow> wal_payload devon_result" where
  "decode_rel_delete js bs =
    rbind (decode_json (parse_rel_delete js bs))
      (\<lambda>(rel, endpoint, offset). Inr (RelDelete rel endpoint offset))"

definition decode_node_delete :: "serde_json \<Rightarrow> bytes \<Rightarrow> wal_payload devon_result" where
  "decode_node_delete js bs =
    rbind (decode_json (parse_node_delete js bs)) (\<lambda>(table, key). Inr (NodeDelete table key))"

fun validate_ddl_schema :: "ddl_payload \<Rightarrow> unit devon_result" where
  "validate_ddl_schema (CreateNodeTable sch) =
    map_err (\<lambda>e. Corrupt ''DDL WAL payload has an invalid schema: {}'')
      (rbind (node_schema_new (node_name sch) (node_columns sch)) (\<lambda>_. Inr ()))"
| "validate_ddl_schema (CreateRelTable sch) =
    map_err (\<lambda>e. Corrupt ''DDL WAL payload has an invalid schema: {}'')
      (rbind (rel_schema_new (rel_name sch) (rel_from sch) (rel_to sch) (rel_columns sch))
        (\<lambda>_. Inr ()))"

definition decode_ddl :: "serde_json \<Rightarrow> bytes \<Rightarrow> wal_payload devon_result" where
  "decode_ddl js bs =
    rbind (decode_json (parse_ddl js bs)) (\<lambda>ddl.
    rbind (validate_ddl_schema ddl) (\<lambda>_. Inr (Ddl ddl)))"

definition decode_commit :: "serde_json \<Rightarrow> bytes \<Rightarrow> wal_payload devon_result" where
  "decode_commit js bs =
    rbind (decode_json (parse_commit js bs)) (\<lambda>records.
    if records = 0 then Inl (Corrupt ''commit WAL payload must name at least one record'')
    else Inr (Commit records))"

definition discriminator_keys :: "string list" where
  "discriminator_keys =
    [''commit'', ''ddl'', ''table'', ''rel'', ''update'', ''rel_delete'', ''delete'']"

definition decode_payload :: "serde_json \<Rightarrow> bytes \<Rightarrow> wal_payload devon_result" where
  "decode_payload js bs =
    (case parse_value js bs of
       None \<Rightarrow> Inl (Corrupt ''WAL payload is not valid JSON: {}'')
     | Some None \<Rightarrow> Inl (Corrupt ''WAL payload must be a JSON object'')
     | Some (Some object) \<Rightarrow>
         (let discriminators = filter (\<lambda>key. key \<in> set object) discriminator_keys
          in if length discriminators \<noteq> 1
             then Inl (Corrupt ''WAL payload must contain exactly one discriminator key'')
             else
               (let d = discriminators ! 0
                in if d = ''commit'' then decode_commit js bs
                   else if d = ''ddl'' then decode_ddl js bs
                   else if d = ''table'' then decode_node_insert js bs
                   else if d = ''rel'' then decode_rel_insert js bs
                   else if d = ''update'' then decode_node_update js bs
                   else if d = ''rel_delete'' then decode_rel_delete js bs
                   else if d = ''delete'' then decode_node_delete js bs
                   else Inl (Corrupt ''WAL payload discriminator is unknown''))))"

section \<open>The canonical order of a transaction's records\<close>

record order_state =
  os_phase :: nat
  os_last_node_table :: "string option"
  os_last_rel_table :: "string option"
  os_last_rel_delete_table :: "string option"
  os_rel_delete_claims :: "(string \<times> rel_endpoint \<times> u64) list"

definition advance_phase :: "nat \<Rightarrow> nat \<Rightarrow> string + nat" where
  "advance_phase cur new =
    (if new < cur
     then Inl ''{} appears after a later record kind''
     else Inr new)"

definition require_lexicographic_table :: "string option \<Rightarrow> string \<Rightarrow> string + string option" where
  "require_lexicographic_table previous table =
    (if (case previous of None \<Rightarrow> False | Some name \<Rightarrow> table < name)
     then Inl ''{} table {} is out of lexicographic order''
     else Inr (Some table))"

fun order_step :: "wal_payload \<Rightarrow> order_state \<Rightarrow> string + order_state" where
  "order_step (Ddl ddl) st =
    rbind (advance_phase (os_phase st) 0) (\<lambda>ph. Inr (st\<lparr> os_phase := ph \<rparr>))"
| "order_step (NodeInsert table row) st =
    rbind (advance_phase (os_phase st) 1) (\<lambda>ph.
    rbind (require_lexicographic_table (os_last_node_table st) table) (\<lambda>t.
    Inr (st\<lparr> os_phase := ph, os_last_node_table := t \<rparr>)))"
| "order_step (RelInsert rel src dst values) st =
    rbind (advance_phase (os_phase st) 2) (\<lambda>ph.
    rbind (require_lexicographic_table (os_last_rel_table st) rel) (\<lambda>t.
    Inr (st\<lparr> os_phase := ph, os_last_rel_table := t \<rparr>)))"
| "order_step (NodeUpdate table row) st =
    rbind (advance_phase (os_phase st) 3) (\<lambda>ph. Inr (st\<lparr> os_phase := ph \<rparr>))"
| "order_step (RelDelete rel endpoint offset) st =
    rbind (advance_phase (os_phase st) 4) (\<lambda>ph.
    rbind (require_lexicographic_table (os_last_rel_delete_table st) rel) (\<lambda>t.
    if (rel, endpoint, offset) \<in> set (os_rel_delete_claims st)
    then Inl ''duplicate relationship endpoint delete claim for {} {} offset {}''
    else Inr (st\<lparr> os_phase := ph, os_last_rel_delete_table := t,
      os_rel_delete_claims := (rel, endpoint, offset) # os_rel_delete_claims st \<rparr>)))"
| "order_step (NodeDelete table key) st =
    rbind (advance_phase (os_phase st) 5) (\<lambda>ph. Inr (st\<lparr> os_phase := ph \<rparr>))"
| "order_step (Commit records) st = Inl ''transaction records must not contain a commit payload''"

definition order_start :: order_state where
  "order_start = \<lparr> os_phase = 0, os_last_node_table = None, os_last_rel_table = None,
     os_last_rel_delete_table = None, os_rel_delete_claims = [] \<rparr>"

definition validate_record_order :: "wal_payload list \<Rightarrow> string + unit" where
  "validate_record_order records = rbind (rfold order_step records order_start) (\<lambda>_. Inr ())"

section \<open>Writing and grouping transactions\<close>

definition encode_transaction :: "serde_json \<Rightarrow> wal_payload list \<Rightarrow> bytes list devon_result" where
  "encode_transaction js records =
    (if records = [] then Inl (InvalidArgument ''empty transactions do not write WAL records'')
     else
       rbind (map_err InvalidArgument (validate_record_order records)) (\<lambda>_.
       if \<not> length records < 2 ^ 64
       then Inl (InvalidArgument ''transaction record count exceeds u64::MAX'')
       else
         (let record_count = of_nat (length records)
          in rbind (rmapM (encode_payload js) records) (\<lambda>encoded.
             rbind (encode_payload js (Commit record_count)) (\<lambda>commit.
             Inr (encoded @ [commit]))))))"

definition ensure_ascending_commit_lsn :: "u64 option \<Rightarrow> u64 \<Rightarrow> unit devon_result" where
  "ensure_ascending_commit_lsn previous current =
    (if (case previous of None \<Rightarrow> False | Some p \<Rightarrow> current \<le> p)
     then Inl (Corrupt ''WAL commit LSNs must strictly ascend across groups'')
     else Inr ())"

text \<open>
  \<open>finish_group\<close> returns the groups with the finished one appended; the pending records are empty
  afterwards on both successful paths.
\<close>

definition finish_group ::
    "committed_group list \<Rightarrow> wal_payload list \<Rightarrow> u64 \<Rightarrow> u64 \<Rightarrow> u64
      \<Rightarrow> (committed_group list \<times> wal_payload list) devon_result" where
  "finish_group groups pending lsn expected_records checkpoint_lsn =
    (if lsn \<le> checkpoint_lsn then Inr (groups, [])
     else if \<not> length pending < 2 ^ 64
     then Inl (Corrupt ''WAL group at LSN {} exceeds u64::MAX records'')
     else if expected_records \<noteq> of_nat (length pending)
     then Inl (Corrupt ''WAL commit at LSN {} declares {} records but the group contains {}'')
     else
       rbind (map_err (\<lambda>ctx. Corrupt (''WAL group committed at LSN {}: '' @ ctx))
                (validate_record_order pending)) (\<lambda>_.
       Inr (groups @ [\<lparr> commit_lsn = lsn,
              group_records = map (\<lambda>p. \<lparr> begin_lsn = lsn, payload = p \<rparr>) pending \<rparr>], [])))"

fun error_at_lsn :: "devon_error \<Rightarrow> devon_error" where
  "error_at_lsn (Corrupt ctx) = Corrupt (''WAL payload at LSN {}: '' @ ctx)"
| "error_at_lsn e = e"

fun group_loop ::
    "serde_json \<Rightarrow> u64 \<Rightarrow> (u64 \<times> bytes) list \<Rightarrow> wal_payload list \<Rightarrow> committed_group list \<Rightarrow> u64 option
      \<Rightarrow> committed_group list devon_result" where
  "group_loop js checkpoint_lsn [] pending groups previous = Inr groups"
| "group_loop js checkpoint_lsn ((lsn, bs) # records) pending groups previous =
    rbind (map_err error_at_lsn (decode_payload js bs)) (\<lambda>p.
    case p of
      Commit n \<Rightarrow>
        rbind (ensure_ascending_commit_lsn previous lsn) (\<lambda>_.
        rbind (finish_group groups pending lsn n checkpoint_lsn) (\<lambda>(groups, pending).
        group_loop js checkpoint_lsn records pending groups (Some lsn)))
    | rec \<Rightarrow> group_loop js checkpoint_lsn records (pending @ [rec]) groups previous)"

definition group_transactions ::
    "serde_json \<Rightarrow> (u64 \<times> bytes) list \<Rightarrow> u64 \<Rightarrow> committed_group list devon_result" where
  "group_transactions js records checkpoint_lsn = group_loop js checkpoint_lsn records [] [] None"

section \<open>What the order check accepts\<close>

fun record_phase :: "wal_payload \<Rightarrow> nat" where
  "record_phase (Ddl ddl) = 0"
| "record_phase (NodeInsert table row) = 1"
| "record_phase (RelInsert rel src dst values) = 2"
| "record_phase (NodeUpdate table row) = 3"
| "record_phase (RelDelete rel endpoint offset) = 4"
| "record_phase (NodeDelete table key) = 5"
| "record_phase (Commit records) = 6"

fun is_commit :: "wal_payload \<Rightarrow> bool" where
  "is_commit (Commit records) = True"
| "is_commit p = False"

fun node_insert_table :: "wal_payload \<Rightarrow> string list" where
  "node_insert_table (NodeInsert table row) = [table]"
| "node_insert_table p = []"

fun rel_insert_table :: "wal_payload \<Rightarrow> string list" where
  "rel_insert_table (RelInsert rel src dst values) = [rel]"
| "rel_insert_table p = []"

fun rel_delete_claim :: "wal_payload \<Rightarrow> (string \<times> rel_endpoint \<times> u64) list" where
  "rel_delete_claim (RelDelete rel endpoint offset) = [(rel, endpoint, offset)]"
| "rel_delete_claim p = []"

definition canonical_order :: "wal_payload list \<Rightarrow> bool" where
  "canonical_order records \<longleftrightarrow>
    list_all (\<lambda>p. \<not> is_commit p) records \<and>
    sorted (map record_phase records) \<and>
    sorted (concat (map node_insert_table records)) \<and>
    sorted (concat (map rel_insert_table records)) \<and>
    sorted (map fst (concat (map rel_delete_claim records))) \<and>
    distinct (concat (map rel_delete_claim records))"

abbreviation opt_list :: "'a option \<Rightarrow> 'a list" where
  "opt_list x \<equiv> (case x of None \<Rightarrow> [] | Some y \<Rightarrow> [y])"

fun latest :: "'a list \<Rightarrow> 'a option \<Rightarrow> 'a option" where
  "latest [] x = x"
| "latest (y # ys) x = Some y"

lemma advance_phase_ok: "advance_phase cur new = Inr ph \<longleftrightarrow> cur \<le> new \<and> ph = new"
  by (auto simp: advance_phase_def)

lemma require_table_ok:
  "require_lexicographic_table previous table = Inr t \<longleftrightarrow>
    t = Some table \<and> sorted (opt_list previous @ [table])"
  by (auto simp: require_lexicographic_table_def not_less split: option.split)

lemma sorted_latest:
  assumes "length t \<le> 1"
  shows "sorted (opt_list x @ t @ ts) \<longleftrightarrow>
    sorted (opt_list x @ t) \<and> sorted (opt_list (latest t x) @ ts)"
proof (cases t)
  case (Cons y ys)
  then show ?thesis using assms by (auto split: option.split)
qed (auto split: option.split)

lemma record_tables_single:
  "length (node_insert_table r) \<le> 1" "length (rel_insert_table r) \<le> 1"
  "length (map fst (rel_delete_claim r)) \<le> 1" "distinct (rel_delete_claim r)"
  by (cases r; simp)+

lemma order_step_ok:
  "order_step r st = Inr st1 \<longleftrightarrow>
    \<not> is_commit r \<and> os_phase st \<le> record_phase r \<and>
    sorted (opt_list (os_last_node_table st) @ node_insert_table r) \<and>
    sorted (opt_list (os_last_rel_table st) @ rel_insert_table r) \<and>
    sorted (opt_list (os_last_rel_delete_table st) @ map fst (rel_delete_claim r)) \<and>
    set (os_rel_delete_claims st) \<inter> set (rel_delete_claim r) = {} \<and>
    st1 = st\<lparr> os_phase := record_phase r,
      os_last_node_table := latest (node_insert_table r) (os_last_node_table st),
      os_last_rel_table := latest (rel_insert_table r) (os_last_rel_table st),
      os_last_rel_delete_table :=
        latest (map fst (rel_delete_claim r)) (os_last_rel_delete_table st),
      os_rel_delete_claims := rel_delete_claim r @ os_rel_delete_claims st \<rparr>"
  by (cases r) (auto simp: rbind_eq_Inr advance_phase_ok require_table_ok split: option.splits)

lemma order_loop_ok:
  "(\<exists>st'. rfold order_step records st = Inr st') \<longleftrightarrow>
    list_all (\<lambda>p. \<not> is_commit p) records \<and>
    sorted (os_phase st # map record_phase records) \<and>
    sorted (opt_list (os_last_node_table st) @ concat (map node_insert_table records)) \<and>
    sorted (opt_list (os_last_rel_table st) @ concat (map rel_insert_table records)) \<and>
    sorted (opt_list (os_last_rel_delete_table st) @
      map fst (concat (map rel_delete_claim records))) \<and>
    distinct (concat (map rel_delete_claim records)) \<and>
    set (os_rel_delete_claims st) \<inter> set (concat (map rel_delete_claim records)) = {}"
proof (induction records arbitrary: st)
  case Nil
  show ?case by (auto split: option.split)
next
  case (Cons r records)
  have rest: "(\<exists>st'. rfold order_step (r # records) st = Inr st') \<longleftrightarrow>
      (\<exists>st1. order_step r st = Inr st1 \<and> (\<exists>st'. rfold order_step records st1 = Inr st'))"
    by (auto simp: rbind_eq_Inr)
  note latest = record_tables_single(1-3) [of r, THEN sorted_latest]
  show ?case
    unfolding rest Cons order_step_ok
    by (simp add: latest record_tables_single(4) Int_Un_distrib Int_Un_distrib2 sorted2
        del: length_map sorted_wrt.simps) (simp only: conj_ac)
qed

lemma validate_record_order_iff: "validate_record_order records = Inr () \<longleftrightarrow> canonical_order records"
proof -
  have "validate_record_order records = Inr () \<longleftrightarrow>
      (\<exists>st'. rfold order_step records order_start = Inr st')"
    by (auto simp: validate_record_order_def rbind_eq_Inr)
  then show ?thesis
    by (simp add: order_loop_ok canonical_order_def order_start_def)
qed

section \<open>Payloads round-trip\<close>

fun payload_doc_of :: "wal_payload \<Rightarrow> payload_doc" where
  "payload_doc_of (NodeInsert table row) = NodeInsertPayload table row"
| "payload_doc_of (RelInsert rel src dst values) = RelInsertPayload rel src dst values"
| "payload_doc_of (NodeUpdate table row) = NodeUpdateEnvelope table row"
| "payload_doc_of (RelDelete rel endpoint offset) = RelDeleteEnvelope rel endpoint offset"
| "payload_doc_of (NodeDelete table key) = NodeDeleteEnvelope table key"
| "payload_doc_of (Ddl ddl) = DdlEnvelope ddl"
| "payload_doc_of (Commit records) = CommitEnvelope records"

fun doc_keys :: "payload_doc \<Rightarrow> string list" where
  "doc_keys (NodeInsertPayload table row) = [''table'', ''row'']"
| "doc_keys (RelInsertPayload rel src dst values) = [''rel'', ''from'', ''to'', ''values'']"
| "doc_keys (NodeUpdateEnvelope table row) = [''update'']"
| "doc_keys (RelDeleteEnvelope rel endpoint offset) = [''rel_delete'']"
| "doc_keys (NodeDeleteEnvelope table key) = [''delete'']"
| "doc_keys (DdlEnvelope ddl) = [''ddl'']"
| "doc_keys (CommitEnvelope records) = [''commit'']"

fun doc_parses :: "serde_json \<Rightarrow> payload_doc \<Rightarrow> bytes \<Rightarrow> bool" where
  "doc_parses js (NodeInsertPayload table row) bs = (parse_node_insert js bs = Some (table, row))"
| "doc_parses js (RelInsertPayload rel src dst values) bs =
    (parse_rel_insert js bs = Some (rel, src, dst, values))"
| "doc_parses js (NodeUpdateEnvelope table row) bs = (parse_node_update js bs = Some (table, row))"
| "doc_parses js (RelDeleteEnvelope rel endpoint offset) bs =
    (parse_rel_delete js bs = Some (rel, endpoint, offset))"
| "doc_parses js (NodeDeleteEnvelope table key) bs = (parse_node_delete js bs = Some (table, key))"
| "doc_parses js (DdlEnvelope ddl) bs = (parse_ddl js bs = Some ddl)"
| "doc_parses js (CommitEnvelope records) bs = (parse_commit js bs = Some records)"

text \<open>
  What the log relies on of the JSON library for one document: a struct serializes to an object
  whose keys are its field names, and deserializing that text at the struct's type gives it back.
  For a document with floating-point values the second half depends on how the library is built,
  which is why it is stated per document.
\<close>

definition json_faithful :: "serde_json \<Rightarrow> payload_doc \<Rightarrow> bool" where
  "json_faithful js doc \<longleftrightarrow>
    (case to_vec js doc of
       None \<Rightarrow> True
     | Some bs \<Rightarrow> parse_value js bs = Some (Some (doc_keys doc)) \<and> doc_parses js doc bs)"

text \<open>Schemas cannot be built unvalidated: their fields are private to the constructor's module.\<close>

fun payload_wf :: "wal_payload \<Rightarrow> bool" where
  "payload_wf (Ddl (CreateNodeTable sch)) = node_schema_wf sch"
| "payload_wf (Ddl (CreateRelTable sch)) = rel_schema_wf sch"
| "payload_wf p = True"

lemma validate_ddl_schema_wf: "payload_wf (Ddl ddl) \<Longrightarrow> validate_ddl_schema ddl = Inr ()"
  by (cases ddl) (auto simp: map_err_eq_Inr rbind_eq_Inr node_schema_new_iff rel_schema_new_iff
      node_schema_wf_def rel_schema_wf_def)

lemmas decode_arm_defs =
  decode_node_insert_def decode_rel_insert_def decode_node_update_def decode_rel_delete_def
  decode_node_delete_def decode_ddl_def decode_commit_def decode_json_def

lemma decode_encode_payload:
  assumes "encode_payload js p = Inr bs" "json_faithful js (payload_doc_of p)" "payload_wf p"
  shows "decode_payload js bs = Inr p"
proof -
  have vec: "to_vec js (payload_doc_of p) = Some bs"
    using assms(1)
    by (cases p) (auto simp: encode_json_def rbind_eq_Inr ok_or_eq_Inr split: if_splits)
  have "parse_value js bs = Some (Some (doc_keys (payload_doc_of p)))"
    and "doc_parses js (payload_doc_of p) bs"
    using assms(2) vec by (simp_all add: json_faithful_def)
  then show ?thesis
    using assms(1,3)
    by (cases p) (auto simp: decode_payload_def discriminator_keys_def decode_arm_defs
        validate_ddl_schema_wf split: if_splits)
qed

section \<open>Committed transactions are recovered\<close>

definition stamped_group :: "u64 \<Rightarrow> wal_payload list \<Rightarrow> committed_group" where
  "stamped_group lsn records =
    \<lparr> commit_lsn = lsn, group_records = map (\<lambda>p. \<lparr> begin_lsn = lsn, payload = p \<rparr>) records \<rparr>"

text \<open>
  What recovery should find in a log that holds these transactions, one record per LSN: every
  transaction whose commit record is after the checkpoint, stamped with the LSN of that record.
\<close>

fun expected_groups :: "u64 \<Rightarrow> wal_payload list list \<Rightarrow> u64 list \<Rightarrow> committed_group list" where
  "expected_groups checkpoint_lsn [] lsns = []"
| "expected_groups checkpoint_lsn (records # txns) lsns =
    (let lsn = lsns ! length records
     in (if lsn \<le> checkpoint_lsn then [] else [stamped_group lsn records]) @
        expected_groups checkpoint_lsn txns (drop (Suc (length records)) lsns))"

definition transaction_docs :: "wal_payload list \<Rightarrow> payload_doc list" where
  "transaction_docs records =
    map payload_doc_of records @ [CommitEnvelope (of_nat (length records))]"

definition recoverable :: "serde_json \<Rightarrow> wal_payload list \<Rightarrow> bool" where
  "recoverable js records \<longleftrightarrow>
    list_all payload_wf records \<and> list_all (json_faithful js) (transaction_docs records)"

lemma group_loop_pending:
  assumes "list_all2 (\<lambda>p b. decode_payload js b = Inr p) ps bs"
    and "list_all (\<lambda>p. \<not> is_commit p) ps" "length lsns = length bs"
  shows "group_loop js ck (zip lsns bs @ rest) pending groups previous =
    group_loop js ck rest (pending @ ps) groups previous"
  using assms
proof (induction ps bs arbitrary: lsns pending rule: list_all2_induct)
  case (Cons p ps b bs)
  then obtain lsn ls where "lsns = lsn # ls" by (cases lsns) auto
  with Cons show ?case by (cases p) simp_all
qed simp

lemma encode_transaction_eq_Inr:
  "encode_transaction js records = Inr enc \<longleftrightarrow>
    records \<noteq> [] \<and> canonical_order records \<and> length records < 2 ^ 64 \<and>
    (\<exists>body commit. enc = body @ [commit] \<and>
      list_all2 (\<lambda>p b. encode_payload js p = Inr b) records body \<and>
      encode_payload js (Commit (of_nat (length records))) = Inr commit)"
  by (auto simp: encode_transaction_def rbind_eq_Inr map_err_eq_Inr validate_record_order_iff
      rmapM_eq_Inr Let_def simp del: encode_payload.simps)

lemma list_all2_decode:
  "list_all2 (\<lambda>p b. encode_payload js p = Inr b) ps bs \<Longrightarrow> list_all payload_wf ps \<Longrightarrow>
    list_all (json_faithful js) (map payload_doc_of ps) \<Longrightarrow>
    list_all2 (\<lambda>p b. decode_payload js b = Inr p) ps bs"
  by (induction rule: list_all2_induct) (auto intro: decode_encode_payload)

lemma group_loop_transaction:
  assumes enc: "encode_transaction js records = Inr enc" and rec: "recoverable js records"
    and lsns: "length lsns = length enc"
    and prev: "\<forall>p \<in> set_option previous. p < last lsns"
  shows "group_loop js ck (zip lsns enc @ rest) [] groups previous =
    group_loop js ck rest []
      (groups @ (if last lsns \<le> ck then [] else [stamped_group (last lsns) records]))
      (Some (last lsns))"
proof -
  from enc obtain body commit where body: "enc = body @ [commit]"
    "list_all2 (\<lambda>p b. encode_payload js p = Inr b) records body"
    and commit: "encode_payload js (Commit (of_nat (length records))) = Inr commit"
    and order: "canonical_order records" and len: "length records < 2 ^ 64" "records \<noteq> []"
    by (auto simp: encode_transaction_eq_Inr simp del: encode_payload.simps)
  from lsns body(1) obtain ls c where ls: "lsns = ls @ [c]" "length ls = length body"
    by (cases lsns rule: rev_cases) auto
  have "decode_payload js commit = Inr (Commit (of_nat (length records)))"
    using rec by (intro decode_encode_payload [OF commit])
      (simp_all add: recoverable_def transaction_docs_def)
  moreover have "list_all2 (\<lambda>p b. decode_payload js b = Inr p) records body"
    using rec by (intro list_all2_decode [OF body(2)])
      (simp_all add: recoverable_def transaction_docs_def)
  moreover have "list_all (\<lambda>p. \<not> is_commit p) records"
    using order by (simp add: canonical_order_def)
  moreover have "ensure_ascending_commit_lsn previous c = Inr ()"
    using prev ls(1)
    by (cases previous) (auto simp: ensure_ascending_commit_lsn_def)
  moreover have "validate_record_order records = Inr ()"
    using order by (simp add: validate_record_order_iff)
  ultimately show ?thesis
    using len by (simp add: body(1) ls group_loop_pending finish_group_def stamped_group_def)
qed

lemma group_loop_log:
  assumes "list_all2 (\<lambda>records enc. encode_transaction js records = Inr enc) txns encs"
    and "list_all (recoverable js) txns"
    and "list_all2 (\<lambda>p b. decode_payload js b = Inr p) unfinished tail"
    and "list_all (\<lambda>p. \<not> is_commit p) unfinished"
    and "sorted_wrt (<) lsns" "length lsns = length (concat encs @ tail)"
    and "\<forall>p \<in> set_option previous. \<forall>lsn \<in> set lsns. p < lsn"
  shows "group_loop js ck (zip lsns (concat encs @ tail)) [] groups previous =
    Inr (groups @ expected_groups ck txns lsns)"
  using assms
proof (induction txns encs arbitrary: lsns groups previous rule: list_all2_induct)
  case Nil
  then show ?case using group_loop_pending [of js unfinished tail lsns ck "[]"] by simp
next
  case (Cons records txns enc encs)
  define now later where "now = take (length enc) lsns" and "later = drop (length enc) lsns"
  have lsns: "lsns = now @ later" and len: "length now = length enc"
    "length later = length (concat encs @ tail)"
    using Cons.prems(5) by (simp_all add: now_def later_def)
  have enc: "length enc = Suc (length records)"
    using Cons.hyps(1) by (auto simp: encode_transaction_eq_Inr dest: list_all2_lengthD)
  then have "now \<noteq> []" using len by auto
  then have now: "last now = lsns ! length records" "last now \<in> set now"
    using len enc by (auto simp: lsns last_conv_nth nth_append)
  have "group_loop js ck (zip lsns (concat (enc # encs) @ tail)) [] groups previous =
    group_loop js ck (zip now enc @ zip later (concat encs @ tail)) [] groups previous"
    using len by (simp add: lsns)
  also have "\<dots> = group_loop js ck (zip later (concat encs @ tail)) []
      (groups @ (if last now \<le> ck then [] else [stamped_group (last now) records])) (Some (last now))"
    using Cons.prems(1,6) now
    by (intro group_loop_transaction [OF Cons.hyps(1)]) (auto simp: len lsns)
  also have "\<dots> = Inr ((groups @ (if last now \<le> ck then [] else [stamped_group (last now) records]))
      @ expected_groups ck txns later)"
    using Cons.prems(1,4) now(2)
    by (intro Cons.IH [OF _ Cons.prems(2,3)]) (auto simp: lsns len sorted_wrt_append)
  also have "\<dots> = Inr (groups @ expected_groups ck (records # txns) lsns)"
    using now(1) enc by (simp add: later_def Let_def)
  finally show ?case .
qed

text \<open>
  C16. Exactly the committed transactions are recovered: a log that holds the encodings of a
  sequence of transactions at strictly increasing LSNs, followed by any number of records of a
  transaction that never committed, groups into the transactions whose commit record is after the
  checkpoint, in order, each record stamped with the LSN of its commit record.
\<close>

theorem committed_transactions_recovered:
  assumes "list_all2 (\<lambda>records enc. encode_transaction js records = Inr enc) txns encs"
    and "list_all2 (\<lambda>p b. encode_payload js p = Inr b) unfinished tail"
    and "list_all (\<lambda>p. \<not> is_commit p) unfinished"
    and "list_all (recoverable js) (unfinished # txns)"
    and "sorted_wrt (<) lsns" and "length lsns = length (concat encs @ tail)"
  shows "group_transactions js (zip lsns (concat encs @ tail)) checkpoint_lsn =
    Inr (expected_groups checkpoint_lsn txns lsns)"
proof -
  have "list_all2 (\<lambda>p b. decode_payload js b = Inr p) unfinished tail"
    using assms(4) by (intro list_all2_decode [OF assms(2)])
      (simp_all add: recoverable_def transaction_docs_def)
  from group_loop_log [OF assms(1) _ this assms(3,5,6), of None checkpoint_lsn "[]"] assms(4)
  show ?thesis by (simp add: group_transactions_def)
qed

definition sample_json :: serde_json where
  "sample_json =
    \<lparr> to_vec = (\<lambda>doc. case doc of NodeDeleteEnvelope table key \<Rightarrow> Some [1]
        | RelDeleteEnvelope rel endpoint offset \<Rightarrow> Some [2]
        | CommitEnvelope records \<Rightarrow> Some [3] | _ \<Rightarrow> None),
      parse_value = (\<lambda>bs. if bs = [1] then Some (Some [''delete''])
        else if bs = [2] then Some (Some [''rel_delete''])
        else if bs = [3] then Some (Some [''commit'']) else None),
      parse_node_insert = (\<lambda>_. None), parse_rel_insert = (\<lambda>_. None),
      parse_node_update = (\<lambda>_. None), parse_rel_delete = (\<lambda>_. Some (''R'', EndpointFrom, 5)),
      parse_node_delete = (\<lambda>_. Some (''T'', VInt64 1)), parse_ddl = (\<lambda>_. None),
      parse_commit = (\<lambda>_. Some 1) \<rparr>"

theorem committed_transactions_recovered_witness:
  "group_transactions sample_json [(4, [1]), (5, [3]), (6, [1]), (8, [3]), (9, [2])] 5 =
    Inr [stamped_group 8 [NodeDelete ''T'' (VInt64 1)]]"
proof -
  let ?txn = "[NodeDelete ''T'' (VInt64 1)]" and ?enc = "[[1], [3]] :: bytes list"
  have sorted: "sorted_wrt (<) ([4, 5, 6, 8, 9] :: u64 list)" by simp
  have hyps:
    "list_all2 (\<lambda>records enc. encode_transaction sample_json records = Inr enc) [?txn, ?txn] [?enc, ?enc]"
    "list_all2 (\<lambda>p b. encode_payload sample_json p = Inr b) [RelDelete ''R'' EndpointFrom 5] [[2]]"
    "list_all (\<lambda>p. \<not> is_commit p) [RelDelete ''R'' EndpointFrom 5]"
    "list_all (recoverable sample_json) ([RelDelete ''R'' EndpointFrom 5] # [?txn, ?txn])"
    by (simp_all add: encode_transaction_def validate_record_order_def order_start_def
        advance_phase_def encode_json_def sample_json_def recoverable_def transaction_docs_def
        json_faithful_def)
  from committed_transactions_recovered [OF hyps sorted, of 5] show ?thesis
    by simp
qed

section \<open>What grouping guarantees on any log\<close>

definition group_ok :: "u64 \<Rightarrow> committed_group \<Rightarrow> bool" where
  "group_ok checkpoint_lsn g \<longleftrightarrow>
    checkpoint_lsn < commit_lsn g \<and> group_records g \<noteq> [] \<and>
    canonical_order (map payload (group_records g)) \<and>
    list_all (\<lambda>r. begin_lsn r = commit_lsn g) (group_records g)"

lemma decode_payload_commit:
  assumes "decode_payload js bs = Inr (Commit n)"
  shows "n \<noteq> 0"
proof -
  have arms: "decode_commit js bs = Inr (Commit n) \<Longrightarrow> n \<noteq> 0"
    "decode_ddl js bs \<noteq> Inr (Commit n)" "decode_node_insert js bs \<noteq> Inr (Commit n)"
    "decode_rel_insert js bs \<noteq> Inr (Commit n)" "decode_node_update js bs \<noteq> Inr (Commit n)"
    "decode_rel_delete js bs \<noteq> Inr (Commit n)" "decode_node_delete js bs \<noteq> Inr (Commit n)"
    by (auto simp: decode_arm_defs rbind_eq_Inr split: if_splits)
  show ?thesis
    using assms arms unfolding decode_payload_def Let_def
    by (auto split: option.splits if_splits)
qed

lemma finish_group_ok:
  assumes "finish_group groups pending lsn n ck = Inr (groups', pending')" "n \<noteq> 0"
  shows "\<exists>new. groups' = groups @ new \<and> list_all (\<lambda>g. group_ok ck g \<and> commit_lsn g = lsn) new \<and>
    length new \<le> 1"
proof (cases "lsn \<le> ck")
  case False
  with assms have "validate_record_order pending = Inr ()"
    "groups' = groups @ [stamped_group lsn pending]" "pending \<noteq> []"
    by (auto simp: finish_group_def rbind_eq_Inr map_err_eq_Inr stamped_group_def split: if_splits)
  with False show ?thesis
    by (auto simp: group_ok_def stamped_group_def validate_record_order_iff list_all_iff o_def)
qed (use assms in \<open>auto simp: finish_group_def\<close>)

lemma group_loop_sound:
  assumes "group_loop js ck records pending groups previous = Inr result"
    and "sorted_wrt (<) (map commit_lsn groups)" "list_all (group_ok ck) groups"
    and "\<forall>g \<in> set groups. \<exists>p. previous = Some p \<and> commit_lsn g \<le> p"
  shows "sorted_wrt (<) (map commit_lsn result) \<and> list_all (group_ok ck) result"
  using assms
proof (induction js ck records pending groups previous rule: group_loop.induct)
  case (2 js ck lsn bs records pending groups previous)
  from "2.prems"(1) obtain p where p: "decode_payload js bs = Inr p"
    by (auto simp: rbind_eq_Inr map_err_eq_Inr)
  show ?case
  proof (cases p)
    case (Commit n)
    with "2.prems"(1) p obtain groups' pending' where
      asc: "ensure_ascending_commit_lsn previous lsn = Inr ()"
      and fin: "finish_group groups pending lsn n ck = Inr (groups', pending')"
      and loop: "group_loop js ck records pending' groups' (Some lsn) = Inr result"
      by (auto simp: rbind_eq_Inr)
    from finish_group_ok [OF fin] decode_payload_commit p Commit obtain new where
      new: "groups' = groups @ new" "list_all (\<lambda>g. group_ok ck g \<and> commit_lsn g = lsn) new"
      "length new \<le> 1" by blast
    have below: "\<forall>g \<in> set groups. commit_lsn g < lsn"
      using asc "2.prems"(4)
      by (cases previous) (auto simp: ensure_ascending_commit_lsn_def split: if_splits)
    have "sorted_wrt (<) (map commit_lsn groups')"
      using new below "2.prems"(2)
      by (cases new) (auto simp: sorted_wrt_append)
    moreover have "list_all (group_ok ck) groups'"
      using new "2.prems"(3) by (auto simp: list_all_iff)
    moreover have "\<forall>g \<in> set groups'. \<exists>p. Some lsn = Some p \<and> commit_lsn g \<le> p"
      using new below by (auto simp: list_all_iff)
    ultimately show ?thesis
      by (intro "2.IH"(7) [OF _ Commit asc fin _ loop]) (simp_all add: p)
  qed (use 2 p in \<open>simp_all add: map_err_eq_Inr\<close>)
qed simp

text \<open>
  The transactions of a decoded log, read off at its commit records: the LSN of the commit, the number
  of records it declares, and the records since the commit before it.
\<close>

definition decodes_to :: "serde_json \<Rightarrow> u64 \<times> bytes \<Rightarrow> u64 \<times> wal_payload \<Rightarrow> bool" where
  "decodes_to js entry = (\<lambda>(lsn, p). lsn = fst entry \<and> decode_payload js (snd entry) = Inr p)"

fun committed_runs :: "(u64 \<times> wal_payload) list \<Rightarrow> wal_payload list \<Rightarrow> (u64 \<times> u64 \<times> wal_payload list) list" where
  "committed_runs [] pending = []"
| "committed_runs ((lsn, Commit n) # entries) pending = (lsn, n, pending) # committed_runs entries []"
| "committed_runs ((lsn, p) # entries) pending = committed_runs entries (pending @ [p])"

definition runs_after :: "u64 \<Rightarrow> (u64 \<times> u64 \<times> wal_payload list) list \<Rightarrow> (u64 \<times> u64 \<times> wal_payload list) list" where
  "runs_after ck = filter (\<lambda>(lsn, _). ck < lsn)"

definition run_complete :: "u64 \<times> u64 \<times> wal_payload list \<Rightarrow> bool" where
  "run_complete = (\<lambda>(lsn, n, run). length run < 2 ^ 64 \<and> n = of_nat (length run) \<and> canonical_order run)"

definition run_group :: "u64 \<times> u64 \<times> wal_payload list \<Rightarrow> committed_group" where
  "run_group = (\<lambda>(lsn, n, run). stamped_group lsn run)"

lemma runs_after_Cons:
  "runs_after ck ((lsn, n, run) # runs) = (if lsn \<le> ck then runs_after ck runs else (lsn, n, run) # runs_after ck runs)"
  by (simp add: runs_after_def not_le [symmetric])

lemma finish_group_iff:
  "finish_group groups pending lsn n ck = Inr x \<longleftrightarrow>
    list_all run_complete (runs_after ck [(lsn, n, pending)]) \<and> x = (groups @ map run_group (runs_after ck [(lsn, n, pending)]), [])"
  by (auto simp: finish_group_def runs_after_Cons runs_after_def run_complete_def run_group_def stamped_group_def rbind_eq_Inr
      map_err_eq_Inr validate_record_order_iff)

lemma committed_runs_ascend:
  "sorted_wrt (<) (opt_list previous @ lsn # lsns) \<longleftrightarrow>
    ensure_ascending_commit_lsn previous lsn = Inr () \<and> sorted_wrt (<) (opt_list (Some lsn) @ lsns)"
  by (cases previous) (auto simp: ensure_ascending_commit_lsn_def)

lemma group_loop_iff:
  "group_loop js ck records pending groups previous = Inr result \<longleftrightarrow>
    (\<exists>entries. list_all2 (decodes_to js) records entries \<and>
      sorted_wrt (<) (opt_list previous @ map fst (committed_runs entries pending)) \<and>
      list_all run_complete (runs_after ck (committed_runs entries pending)) \<and>
      result = groups @ map run_group (runs_after ck (committed_runs entries pending)))"
proof (induction records arbitrary: pending groups previous)
  case Nil
  then show ?case by (cases previous) (auto simp: runs_after_def)
next
  case (Cons entry records)
  obtain lsn bs where entry: "entry = (lsn, bs)" by fastforce
  show ?case
  proof (cases "decode_payload js bs")
    case (Inl e)
    then show ?thesis by (auto simp: entry list_all2_Cons1 decodes_to_def)
  next
    case (Inr p)
    have split: "(\<exists>entries. list_all2 (decodes_to js) (entry # records) entries \<and> P entries) \<longleftrightarrow>
        (\<exists>entries. list_all2 (decodes_to js) records entries \<and> P ((lsn, p) # entries))" for P
      by (auto simp: entry list_all2_Cons1 decodes_to_def Inr)
    show ?thesis
    proof (cases p)
      case (Commit n)
      define now where "now = runs_after ck [(lsn, n, pending)]"
      have "group_loop js ck (entry # records) pending groups previous = Inr result \<longleftrightarrow>
          ensure_ascending_commit_lsn previous lsn = Inr () \<and> list_all run_complete now \<and>
          group_loop js ck records [] (groups @ map run_group now) (Some lsn) = Inr result"
        by (auto simp: entry Inr Commit rbind_eq_Inr finish_group_iff now_def)
      moreover have "runs_after ck ((lsn, n, pending) # runs) = now @ runs_after ck runs" for runs
        by (simp add: now_def runs_after_def)
      ultimately show ?thesis
        unfolding split Cons.IH Commit committed_runs.simps list.map(2) fst_conv committed_runs_ascend by auto
    qed (unfold split, simp_all add: entry Inr Cons.IH)
  qed
qed

text \<open>
  C28. What grouping accepts and returns, on any bytes: it succeeds exactly when every record decodes,
  the commit LSNs strictly ascend, and every transaction after the checkpoint is complete, that is its
  commit record declares exactly the number of records since the commit before and these are in
  canonical order. The groups are then exactly those transactions: one per commit after the
  checkpoint, in order, with all its records and no other, each stamped with the commit LSN; no group
  is empty. Records behind the last commit make no group.
\<close>

theorem grouping_sound:
  "(group_transactions js records checkpoint_lsn = Inr groups \<longleftrightarrow>
     (\<exists>entries. list_all2 (decodes_to js) records entries \<and>
       sorted_wrt (<) (map fst (committed_runs entries [])) \<and>
       list_all run_complete (runs_after checkpoint_lsn (committed_runs entries [])) \<and>
       groups = map run_group (runs_after checkpoint_lsn (committed_runs entries [])))) \<and>
   (group_transactions js records checkpoint_lsn = Inr groups \<longrightarrow>
     sorted_wrt (<) (map commit_lsn groups) \<and> list_all (group_ok checkpoint_lsn) groups)"
  using group_loop_iff [of js checkpoint_lsn records "[]" "[]" None groups]
    group_loop_sound [of js checkpoint_lsn records "[]" "[]" None groups]
  by (simp add: group_transactions_def)

theorem grouping_sound_witness:
  "list_all (group_ok 3) [stamped_group 5 [NodeDelete ''T'' (VInt64 1)]] \<and>
    (\<exists>entries. list_all2 (decodes_to sample_json) [(4, [1]), (5, [3])] entries \<and>
      map run_group (runs_after 3 (committed_runs entries [])) = [stamped_group 5 [NodeDelete ''T'' (VInt64 1)]])"
proof -
  have "group_transactions sample_json [(4, [1]), (5, [3])] 3 =
      Inr [stamped_group 5 [NodeDelete ''T'' (VInt64 1)]]"
    by (simp add: group_transactions_def decode_payload_def sample_json_def discriminator_keys_def
        decode_arm_defs ensure_ascending_commit_lsn_def finish_group_def validate_record_order_def
        order_start_def advance_phase_def stamped_group_def)
  with grouping_sound [of sample_json "[(4, [1]), (5, [3])]" 3 "[stamped_group 5 [NodeDelete ''T'' (VInt64 1)]]"]
  show ?thesis by metis
qed

end
