(* ===== verification/Budget.thy ===== *)
theory Budget
  imports Prelude
begin

text \<open>
  The memory accountant (\<^verbatim>\<open>devondb-storage/src/budget.rs\<close>): lock-free charge and release on one
  shared counter, the single reclaim retry, and the reservation that releases on drop.

  \<open>try_charge\<close> and \<open>release\<close> are compare-and-swap loops. Their bodies are the functions
  \<open>charge_attempt\<close> and \<open>release_attempt\<close>; the sequential operations run them against a counter
  nobody else touches, and \<open>budget_step\<close> interleaves the loops of any number of threads, one
  atomic access at a time, with spurious failures of the weak compare-and-swap.
\<close>

record memory_budget =
  mb_limit :: nat
  mb_charged :: nat

definition budget_new :: "nat \<Rightarrow> memory_budget" where
  "budget_new limit = \<lparr> mb_limit = limit, mb_charged = 0 \<rparr>"

definition budget_unlimited :: memory_budget where
  "budget_unlimited = budget_new (2 ^ 64 - 1)"

section \<open>Sequential operations\<close>

text \<open>One turn of each loop: the value to swap in for the observed one, if any.\<close>

definition charge_attempt :: "nat \<Rightarrow> nat \<Rightarrow> nat \<Rightarrow> nat option" where
  "charge_attempt limit bytes current =
    (case checked_add_usize current bytes of
       None \<Rightarrow> None
     | Some nxt \<Rightarrow> if nxt > limit then None else Some nxt)"

definition release_attempt :: "nat \<Rightarrow> nat \<Rightarrow> nat" where
  "release_attempt bytes current = current - bytes"

definition try_charge :: "memory_budget \<Rightarrow> nat \<Rightarrow> bool \<times> memory_budget" where
  "try_charge b bytes =
    (case charge_attempt (mb_limit b) bytes (mb_charged b) of
       None \<Rightarrow> (False, b)
     | Some nxt \<Rightarrow> (True, b\<lparr> mb_charged := nxt \<rparr>))"

definition release :: "memory_budget \<Rightarrow> nat \<Rightarrow> memory_budget" where
  "release b bytes = b\<lparr> mb_charged := release_attempt bytes (mb_charged b) \<rparr>"

text \<open>The installed reclaimer is a callback that may change the counter.\<close>

definition charge_or_reclaim ::
    "(nat \<Rightarrow> memory_budget \<Rightarrow> memory_budget) option \<Rightarrow> memory_budget \<Rightarrow> nat
      \<Rightarrow> bool \<times> memory_budget" where
  "charge_or_reclaim reclaimer b bytes =
    (case try_charge b bytes of
       (True, b') \<Rightarrow> (True, b')
     | (False, b') \<Rightarrow>
         (case reclaimer of
            None \<Rightarrow> (False, b')
          | Some reclaim \<Rightarrow> try_charge (reclaim bytes b') bytes))"

lemma charge_attempt_eq_Some:
  "charge_attempt limit bytes current = Some nxt \<longleftrightarrow>
    nxt = current + bytes \<and> nxt \<le> limit \<and> nxt < 2 ^ 64"
  by (auto simp: charge_attempt_def checked_add_usize_def)

lemma try_charge_cases:
  "try_charge b bytes =
    (if mb_charged b + bytes \<le> mb_limit b \<and> mb_charged b + bytes < 2 ^ 64
     then (True, b\<lparr> mb_charged := mb_charged b + bytes \<rparr>) else (False, b))"
  by (auto simp: try_charge_def charge_attempt_def checked_add_usize_def)

section \<open>Reservations\<close>

text \<open>
  \<open>ChargedBytes\<close>: the reservation is the number of bytes it holds; its budget is passed along.
  Dropping it releases them.
\<close>

definition cb_try_new :: "memory_budget \<Rightarrow> nat \<Rightarrow> string \<Rightarrow> nat devon_result \<times> memory_budget" where
  "cb_try_new b bytes ctx =
    (case try_charge b bytes of
       (False, b') \<Rightarrow> (Inl (BudgetExceeded ctx), b')
     | (True, b') \<Rightarrow> (Inr bytes, b'))"

definition cb_grow ::
    "memory_budget \<Rightarrow> nat \<Rightarrow> nat \<Rightarrow> string \<Rightarrow> nat devon_result \<times> memory_budget" where
  "cb_grow b bytes additional ctx =
    (case try_charge b additional of
       (False, b') \<Rightarrow> (Inl (BudgetExceeded ctx), b')
     | (True, b') \<Rightarrow> (Inr (bytes + additional), b'))"

definition cb_shrink :: "memory_budget \<Rightarrow> nat \<Rightarrow> nat \<Rightarrow> nat \<times> memory_budget" where
  "cb_shrink b bytes n =
    (let released = min bytes n in (bytes - released, release b released))"

definition cb_drop :: "memory_budget \<Rightarrow> nat \<Rightarrow> memory_budget" where
  "cb_drop b bytes = release b bytes"

text \<open>
  Clients hold any number of reservations at once. A failed creation leaves none; a failed growth
  leaves the old one.
\<close>

inductive reservation_step ::
    "memory_budget \<times> nat list \<Rightarrow> memory_budget \<times> nat list \<Rightarrow> bool" where
  new_ok: "cb_try_new b n ctx = (Inr r, b') \<Longrightarrow> reservation_step (b, rs) (b', rs @ [r])"
| new_err: "cb_try_new b n ctx = (Inl e, b') \<Longrightarrow> reservation_step (b, rs) (b', rs)"
| grow_ok: "i < length rs \<Longrightarrow> cb_grow b (rs ! i) n ctx = (Inr r, b') \<Longrightarrow>
    reservation_step (b, rs) (b', rs[i := r])"
| grow_err: "i < length rs \<Longrightarrow> cb_grow b (rs ! i) n ctx = (Inl e, b') \<Longrightarrow>
    reservation_step (b, rs) (b', rs)"
| shrink: "i < length rs \<Longrightarrow> cb_shrink b (rs ! i) n = (r, b') \<Longrightarrow>
    reservation_step (b, rs) (b', rs[i := r])"
| dropped: "i < length rs \<Longrightarrow>
    reservation_step (b, rs) (cb_drop b (rs ! i), take i rs @ drop (Suc i) rs)"

fun reservations_inv :: "memory_budget \<times> nat list \<Rightarrow> bool" where
  "reservations_inv (b, rs) \<longleftrightarrow>
    mb_charged b = sum_list rs \<and> mb_charged b \<le> mb_limit b \<and> mb_charged b < 2 ^ 64"

fun reservations_init :: "memory_budget \<times> nat list \<Rightarrow> bool" where
  "reservations_init (b, rs) \<longleftrightarrow> (\<exists>limit. b = budget_new limit) \<and> rs = []"

lemma sum_list_split: "i < length rs \<Longrightarrow> sum_list rs = sum_list (take i rs @ drop (Suc i) rs) + rs ! i"
  for rs :: "nat list"
  by (subst id_take_nth_drop [of i rs]) simp_all

lemma sum_list_update_split:
  "i < length rs \<Longrightarrow> sum_list (rs[i := r]) = sum_list (take i rs @ drop (Suc i) rs) + r"
  for rs :: "nat list"
  by (simp add: upd_conv_take_nth_drop)

lemma reservation_step_inv:
  "reservation_step s t \<Longrightarrow> reservations_inv s \<Longrightarrow> reservations_inv t"
proof (induction rule: reservation_step.induct)
  case (shrink i rs b n r b')
  then show ?case
    using sum_list_split [of i rs] sum_list_update_split [of i rs]
    by (auto simp: cb_shrink_def Let_def release_def release_attempt_def)
next
  case (dropped i rs b)
  then show ?case
    using sum_list_split [of i rs] by (auto simp: cb_drop_def release_def release_attempt_def)
next
  case (grow_ok i rs b n ctx r b')
  then show ?case
    using sum_list_split [of i rs] sum_list_update_split [of i rs]
    by (auto simp: cb_grow_def try_charge_cases split: if_splits)
qed (auto simp: cb_try_new_def cb_grow_def try_charge_cases split: if_splits)

interpretation reservations: invariant_system reservations_init reservation_step reservations_inv
  by unfold_locales (auto simp: budget_new_def dest: reservation_step_inv)

text \<open>
  C30. Charges and releases through reservations always pair up: in every reachable state the
  counter is exactly the sum of the live reservations and within the limit (so the additions of
  \<open>grow\<close> cannot overflow), hence every release is of bytes that are charged (the debug assertion
  of \<open>release\<close> cannot fire) and dropping the last reservation returns the counter to zero.
\<close>

theorem reservations_account_exactly:
  assumes "reservation_step\<^sup>*\<^sup>* (budget_new limit, []) (b, rs)"
  shows "mb_charged b = sum_list rs \<and> mb_charged b \<le> mb_limit b \<and> mb_charged b < 2 ^ 64 \<and>
    (\<forall>r \<in> set rs. r \<le> mb_charged b) \<and>
    (\<forall>r. rs = [r] \<longrightarrow> mb_charged (cb_drop b r) = 0)"
proof -
  have "reservations_init (budget_new limit, [])"
    by auto
  from reservations.reachable_inv [OF this assms] show ?thesis
    by (auto simp: cb_drop_def release_def release_attempt_def member_le_sum_list)
qed

theorem reservations_account_exactly_witness:
  "mb_charged (snd (cb_try_new (budget_new 100) 40 [])) = sum_list [40]"
proof -
  have "reservation_step (budget_new 100, []) (\<lparr> mb_limit = 100, mb_charged = 40 \<rparr>, [] @ [40])"
    by (rule reservation_step.new_ok [where n = 40 and ctx = "[]"])
      (simp add: cb_try_new_def try_charge_cases budget_new_def)
  then have "reservation_step\<^sup>*\<^sup>* (budget_new 100, []) (\<lparr> mb_limit = 100, mb_charged = 40 \<rparr>, [40])"
    by auto
  from reservations_account_exactly [OF this] show ?thesis
    by (simp add: cb_try_new_def try_charge_cases budget_new_def)
qed

section \<open>Concurrent charges\<close>

datatype budget_pc =
    Idle
  | Charging nat nat   \<comment> \<open>bytes, observed value\<close>
  | Releasing nat nat  \<comment> \<open>bytes, observed value\<close>

text \<open>The shared counter, where each thread is in its loop, and what each thread has charged.\<close>

record budget_threads =
  bt_charged :: nat
  bt_pc :: "nat \<Rightarrow> budget_pc"
  bt_held :: "nat \<Rightarrow> nat"

text \<open>
  Threads are numbered below \<open>n\<close>. A thread starts a loop by loading the counter; a turn of the
  loop gives up, swaps when the counter still has the observed value, or fails and observes the
  counter anew. Clients only release what they have charged.
\<close>

inductive budget_step :: "nat \<Rightarrow> nat \<Rightarrow> budget_threads \<Rightarrow> budget_threads \<Rightarrow> bool"
  for n limit :: nat
where
  charge_load: "t < n \<Longrightarrow> bt_pc s t = Idle \<Longrightarrow>
    budget_step n limit s (s\<lparr> bt_pc := (bt_pc s)(t := Charging bytes (bt_charged s)) \<rparr>)"
| charge_refused: "t < n \<Longrightarrow> bt_pc s t = Charging bytes current \<Longrightarrow>
    charge_attempt limit bytes current = None \<Longrightarrow>
    budget_step n limit s (s\<lparr> bt_pc := (bt_pc s)(t := Idle) \<rparr>)"
| charge_swap: "t < n \<Longrightarrow> bt_pc s t = Charging bytes current \<Longrightarrow>
    charge_attempt limit bytes current = Some nxt \<Longrightarrow> bt_charged s = current \<Longrightarrow>
    budget_step n limit s
      (s\<lparr> bt_charged := nxt, bt_pc := (bt_pc s)(t := Idle),
         bt_held := (bt_held s)(t := bt_held s t + bytes) \<rparr>)"
| charge_retry: "t < n \<Longrightarrow> bt_pc s t = Charging bytes current \<Longrightarrow>
    charge_attempt limit bytes current = Some nxt \<Longrightarrow>
    budget_step n limit s (s\<lparr> bt_pc := (bt_pc s)(t := Charging bytes (bt_charged s)) \<rparr>)"
| release_load: "t < n \<Longrightarrow> bt_pc s t = Idle \<Longrightarrow> bytes \<le> bt_held s t \<Longrightarrow>
    budget_step n limit s (s\<lparr> bt_pc := (bt_pc s)(t := Releasing bytes (bt_charged s)) \<rparr>)"
| release_swap: "t < n \<Longrightarrow> bt_pc s t = Releasing bytes current \<Longrightarrow> bt_charged s = current \<Longrightarrow>
    budget_step n limit s
      (s\<lparr> bt_charged := release_attempt bytes current, bt_pc := (bt_pc s)(t := Idle),
         bt_held := (bt_held s)(t := bt_held s t - bytes) \<rparr>)"
| release_retry: "t < n \<Longrightarrow> bt_pc s t = Releasing bytes current \<Longrightarrow>
    budget_step n limit s (s\<lparr> bt_pc := (bt_pc s)(t := Releasing bytes (bt_charged s)) \<rparr>)"

definition budget_idle :: budget_threads where
  "budget_idle = \<lparr> bt_charged = 0, bt_pc = \<lambda>_. Idle, bt_held = \<lambda>_. 0 \<rparr>"

definition budget_inv :: "nat \<Rightarrow> nat \<Rightarrow> budget_threads \<Rightarrow> bool" where
  "budget_inv n limit s \<longleftrightarrow>
    bt_charged s = (\<Sum>t<n. bt_held s t) \<and> bt_charged s \<le> limit \<and> bt_charged s < 2 ^ 64 \<and>
    (\<forall>t bytes current. bt_pc s t = Releasing bytes current \<longrightarrow> bytes \<le> bt_held s t)"

lemma sum_fun_upd:
  fixes f :: "nat \<Rightarrow> nat"
  assumes "t < n"
  shows "(\<Sum>i<n. (f(t := x)) i) = (\<Sum>i\<in>{..<n} - {t}. f i) + x"
    and "(\<Sum>i<n. f i) = (\<Sum>i\<in>{..<n} - {t}. f i) + f t"
proof -
  have "(\<Sum>i<n. (f(t := x)) i) = (f(t := x)) t + (\<Sum>i\<in>{..<n} - {t}. (f(t := x)) i)"
    by (rule sum.remove) (use assms in auto)
  also have "(\<Sum>i\<in>{..<n} - {t}. (f(t := x)) i) = (\<Sum>i\<in>{..<n} - {t}. f i)"
    by (rule sum.cong) auto
  finally show "(\<Sum>i<n. (f(t := x)) i) = (\<Sum>i\<in>{..<n} - {t}. f i) + x" by simp
  show "(\<Sum>i<n. f i) = (\<Sum>i\<in>{..<n} - {t}. f i) + f t"
    using sum.remove [of "{..<n}" t f] assms by auto
qed

lemma budget_step_inv: "budget_step n limit s s' \<Longrightarrow> budget_inv n limit s \<Longrightarrow> budget_inv n limit s'"
proof (induction rule: budget_step.induct)
  case (charge_swap t s bytes current nxt)
  then show ?case
    using sum_fun_upd(1) [of t n "bt_held s" "bt_held s t + bytes"] sum_fun_upd(2) [of t n "bt_held s"]
    by (auto simp: budget_inv_def charge_attempt_eq_Some)
next
  case (release_swap t s bytes current)
  then have "bytes \<le> bt_held s t" by (auto simp: budget_inv_def)
  with release_swap show ?case
    using sum_fun_upd(1) [of t n "bt_held s" "bt_held s t - bytes"] sum_fun_upd(2) [of t n "bt_held s"]
    by (auto simp: budget_inv_def release_attempt_def)
qed (auto simp: budget_inv_def)

interpretation threads: invariant_system "\<lambda>s. s = budget_idle" "budget_step n limit"
  "budget_inv n limit" for n limit
  by unfold_locales (auto simp: budget_idle_def budget_inv_def dest: budget_step_inv)

text \<open>
  C29. Under any interleaving of any number of threads that charge and release, with any spurious
  failures of the compare-and-swap, the shared counter never exceeds the limit and is always
  exactly the sum of what the threads hold, so no charge is lost and none is counted twice.
\<close>

theorem concurrent_charges_exact:
  assumes "(budget_step n limit)\<^sup>*\<^sup>* budget_idle s"
  shows "bt_charged s \<le> limit \<and> bt_charged s = (\<Sum>t<n. bt_held s t)"
  using threads.reachable_inv [OF refl assms] by (simp add: budget_inv_def)

theorem concurrent_charges_exact_witness:
  "\<exists>s. (budget_step 2 10)\<^sup>*\<^sup>* budget_idle s \<and> bt_charged s = 7 \<and> bt_charged s = bt_held s 0 + bt_held s 1"
proof -
  let ?s1 = "budget_idle\<lparr> bt_pc := (\<lambda>_. Idle)(1 := Charging 7 0) \<rparr>"
  let ?s2 = "?s1\<lparr> bt_charged := 7, bt_pc := (bt_pc ?s1)(1 := Idle),
    bt_held := (bt_held ?s1)(1 := bt_held ?s1 1 + 7) \<rparr>"
  have "budget_step 2 10 budget_idle ?s1"
    using budget_step.charge_load [where t = 1 and n = 2 and s = budget_idle and limit = 10 and bytes = 7]
    by (simp add: budget_idle_def)
  moreover have "budget_step 2 10 ?s1 ?s2"
    by (rule budget_step.charge_swap [where t = 1 and bytes = 7 and current = 0])
      (simp_all add: budget_idle_def charge_attempt_def checked_add_usize_def)
  ultimately have reach: "(budget_step 2 10)\<^sup>*\<^sup>* budget_idle ?s2"
    by (meson converse_rtranclp_into_rtranclp r_into_rtranclp)
  from concurrent_charges_exact [OF reach] reach show ?thesis
    by (intro exI [of _ ?s2]) (simp add: budget_idle_def numeral_2_eq_2)
qed

end
