(* ===== verification/Overlay.thy ===== *)
theory Overlay
  imports TxnLog BTree Budget
begin

text \<open>
  The committed overlay (\<^verbatim>\<open>devondb-storage/src/overlay.rs\<close>): the delta a commit publishes, the chain
  of deltas since the last checkpoint, the merged view of a node table over that chain, and the
  summaries conflict detection keeps. A \<open>BTreeSet\<close> of offsets is a set. The HNSW deltas of a commit
  are derived data that never reach the log; they are not part of the model.
\<close>

section \<open>Byte estimates\<close>

definition COMMIT_LINK_OVERHEAD_BYTES :: nat where "COMMIT_LINK_OVERHEAD_BYTES = 128"
definition COMMIT_DELTA_OVERHEAD_BYTES :: nat where "COMMIT_DELTA_OVERHEAD_BYTES = 96"
definition MAP_ENTRY_OVERHEAD_BYTES :: nat where "MAP_ENTRY_OVERHEAD_BYTES = 64"
definition ROW_OVERHEAD_BYTES :: nat where "ROW_OVERHEAD_BYTES = 24"
definition OVERLAY_EDGE_OVERHEAD_BYTES :: nat where "OVERLAY_EDGE_OVERHEAD_BYTES = 40"
definition REL_ENDPOINT_TOMBSTONES_OVERHEAD_BYTES :: nat where
  "REL_ENDPOINT_TOMBSTONES_OVERHEAD_BYTES = 48"
definition REL_TOMBSTONE_OFFSET_OVERHEAD_BYTES :: nat where
  "REL_TOMBSTONE_OFFSET_OVERHEAD_BYTES = 40"
definition DDL_OP_OVERHEAD_BYTES :: nat where "DDL_OP_OVERHEAD_BYTES = 96"
definition SCHEMA_COLUMN_OVERHEAD_BYTES :: nat where "SCHEMA_COLUMN_OVERHEAD_BYTES = 48"
definition COMMIT_SUMMARY_OVERHEAD_BYTES :: nat where "COMMIT_SUMMARY_OVERHEAD_BYTES = 96"
definition SUMMARY_TABLE_NAME_OVERHEAD_BYTES :: nat where "SUMMARY_TABLE_NAME_OVERHEAD_BYTES = 24"

definition estimate_overflow :: devon_error where
  "estimate_overflow = BudgetExceeded ''committed overlay byte estimate exceeds usize::MAX''"

definition checked_estimate_add :: "nat \<Rightarrow> nat \<Rightarrow> nat devon_result" where
  "checked_estimate_add left right = ok_or estimate_overflow (checked_add_usize left right)"

text \<open>\<open>checked_estimate_accumulate(&mut total, bytes)\<close>: the total is the state that is passed on.\<close>

definition checked_estimate_accumulate :: "nat \<Rightarrow> nat \<Rightarrow> nat devon_result" where
  "checked_estimate_accumulate bytes acc = checked_estimate_add acc bytes"

definition estimate_values :: "devon_value list \<Rightarrow> nat \<Rightarrow> nat devon_result" where
  "estimate_values values acc =
    rfold (\<lambda>v. checked_estimate_accumulate (value_approx_bytes v)) values acc"

definition estimate_columns :: "schema_column list \<Rightarrow> nat \<Rightarrow> nat devon_result" where
  "estimate_columns columns acc =
    rfold (\<lambda>col acc.
      rbind (checked_estimate_accumulate SCHEMA_COLUMN_OVERHEAD_BYTES acc)
        (checked_estimate_accumulate (length (scol_name col)))) columns acc"

section \<open>Deltas\<close>

record rel_endpoint_tombstones =
  from_offsets :: "u64 set"
  to_offsets :: "u64 set"

definition no_tombstones :: rel_endpoint_tombstones where
  "no_tombstones = \<lparr> from_offsets = {}, to_offsets = {} \<rparr>"

definition tombstones_union_with ::
    "rel_endpoint_tombstones \<Rightarrow> rel_endpoint_tombstones \<Rightarrow> rel_endpoint_tombstones" where
  "tombstones_union_with self other =
    \<lparr> from_offsets = from_offsets self \<union> from_offsets other,
      to_offsets = to_offsets self \<union> to_offsets other \<rparr>"

definition tombstones_is_empty :: "rel_endpoint_tombstones \<Rightarrow> bool" where
  "tombstones_is_empty self \<longleftrightarrow> from_offsets self = {} \<and> to_offsets self = {}"

definition tombstones_estimated_bytes :: "rel_endpoint_tombstones \<Rightarrow> nat devon_result" where
  "tombstones_estimated_bytes self =
    rbind (ok_or estimate_overflow
             (checked_add_usize (card (from_offsets self)) (card (to_offsets self)))) (\<lambda>entries.
    rbind (ok_or estimate_overflow
             (checked_mul_usize entries REL_TOMBSTONE_OFFSET_OVERHEAD_BYTES)) (\<lambda>bytes.
    checked_estimate_add REL_ENDPOINT_TOMBSTONES_OVERHEAD_BYTES bytes))"

record overlay_edge =
  edge_from :: u64
  edge_to :: u64
  edge_values :: "devon_value list"

datatype ddl_op =
    OpCreateNodeTable node_table_schema
  | OpCreateRelTable rel_table_schema

fun ddl_op_from :: "ddl_payload \<Rightarrow> ddl_op" where
  "ddl_op_from (CreateNodeTable sch) = OpCreateNodeTable sch"
| "ddl_op_from (CreateRelTable sch) = OpCreateRelTable sch"

type_synonym row = "devon_value list"

record commit_delta =
  delta_nodes :: "(string, row list) btree"
  delta_node_updates :: "(string, row list) btree"
  delta_node_deletes :: "(string, devon_value list) btree"
  delta_edges :: "(string, overlay_edge list) btree"
  delta_rel_tombstones :: "(string, rel_endpoint_tombstones) btree"
  delta_ddl :: "ddl_op list"

definition delta_default :: commit_delta where
  "delta_default = \<lparr> delta_nodes = [], delta_node_updates = [], delta_node_deletes = [],
     delta_edges = [], delta_rel_tombstones = [], delta_ddl = [] \<rparr>"

fun add_tombstone :: "rel_endpoint \<Rightarrow> u64 \<Rightarrow> rel_endpoint_tombstones \<Rightarrow> rel_endpoint_tombstones" where
  "add_tombstone EndpointFrom offset t = t\<lparr> from_offsets := insert offset (from_offsets t) \<rparr>"
| "add_tombstone EndpointTo offset t = t\<lparr> to_offsets := insert offset (to_offsets t) \<rparr>"

fun apply_payload :: "wal_payload \<Rightarrow> commit_delta \<Rightarrow> commit_delta devon_result" where
  "apply_payload (NodeInsert table row) d =
    Inr (d\<lparr> delta_nodes := bt_entry table [] (\<lambda>rows. rows @ [row]) (delta_nodes d) \<rparr>)"
| "apply_payload (RelInsert rel src dst values) d =
    Inr (d\<lparr> delta_edges := bt_entry rel []
      (\<lambda>edges. edges @ [\<lparr> edge_from = src, edge_to = dst, edge_values = values \<rparr>]) (delta_edges d) \<rparr>)"
| "apply_payload (NodeUpdate table row) d =
    Inr (d\<lparr> delta_node_updates := bt_entry table [] (\<lambda>rows. rows @ [row]) (delta_node_updates d) \<rparr>)"
| "apply_payload (RelDelete rel endpoint offset) d =
    Inr (d\<lparr> delta_rel_tombstones :=
      bt_entry rel no_tombstones (add_tombstone endpoint offset) (delta_rel_tombstones d) \<rparr>)"
| "apply_payload (NodeDelete table key) d =
    Inr (d\<lparr> delta_node_deletes := bt_entry table [] (\<lambda>keys. keys @ [key]) (delta_node_deletes d) \<rparr>)"
| "apply_payload (Ddl ddl) d = Inr (d\<lparr> delta_ddl := delta_ddl d @ [ddl_op_from ddl] \<rparr>)"
| "apply_payload (Commit n) d = Inl (Corrupt ''commit delta contains a WAL commit payload'')"

definition from_wal_payloads :: "wal_payload list \<Rightarrow> commit_delta devon_result" where
  "from_wal_payloads payloads = rfold apply_payload payloads delta_default"

definition from_committed_group :: "committed_group \<Rightarrow> commit_delta devon_result" where
  "from_committed_group g =
    (if list_ex (\<lambda>r. begin_lsn r \<noteq> commit_lsn g) (group_records g)
     then Inl (Corrupt ''WAL group committed at LSN {} contains record stamped with begin LSN {}'')
     else from_wal_payloads (map payload (group_records g)))"

definition estimate_entry :: "string \<Rightarrow> nat \<Rightarrow> nat devon_result" where
  "estimate_entry table acc =
    rbind (checked_estimate_accumulate MAP_ENTRY_OVERHEAD_BYTES acc)
      (checked_estimate_accumulate (length table))"

definition estimate_node_rows :: "(string, row list) btree \<Rightarrow> nat \<Rightarrow> nat devon_result" where
  "estimate_node_rows nodes acc =
    rfold (\<lambda>(table, rows) acc.
      rbind (estimate_entry table acc)
        (rfold (\<lambda>row acc.
          rbind (checked_estimate_accumulate ROW_OVERHEAD_BYTES acc) (estimate_values row)) rows))
      nodes acc"

definition estimate_edges :: "(string, overlay_edge list) btree \<Rightarrow> nat \<Rightarrow> nat devon_result" where
  "estimate_edges edges acc =
    rfold (\<lambda>(table, table_edges) acc.
      rbind (estimate_entry table acc)
        (rfold (\<lambda>edge acc.
          rbind (checked_estimate_accumulate OVERLAY_EDGE_OVERHEAD_BYTES acc)
            (estimate_values (edge_values edge))) table_edges))
      edges acc"

definition estimate_rel_tombstones ::
    "(string, rel_endpoint_tombstones) btree \<Rightarrow> nat \<Rightarrow> nat devon_result" where
  "estimate_rel_tombstones tombstones acc =
    rfold (\<lambda>(table, table_tombstones) acc.
      rbind (estimate_entry table acc) (\<lambda>acc.
      rbind (tombstones_estimated_bytes table_tombstones) (\<lambda>bytes.
      checked_estimate_accumulate bytes acc)))
      tombstones acc"

fun estimate_ddl :: "ddl_op \<Rightarrow> nat \<Rightarrow> nat devon_result" where
  "estimate_ddl (OpCreateNodeTable sch) acc =
    rbind (checked_estimate_accumulate (length (node_name sch)) acc)
      (estimate_columns (node_columns sch))"
| "estimate_ddl (OpCreateRelTable sch) acc =
    rbind (checked_estimate_accumulate (length (rel_name sch)) acc) (\<lambda>acc.
    rbind (checked_estimate_accumulate (length (rel_from sch)) acc) (\<lambda>acc.
    rbind (checked_estimate_accumulate (length (rel_to sch)) acc)
      (estimate_columns (rel_columns sch))))"

definition estimate_keys :: "(string, devon_value list) btree \<Rightarrow> nat \<Rightarrow> nat devon_result" where
  "estimate_keys m acc =
    rfold (\<lambda>(table, keys) acc. rbind (estimate_entry table acc) (estimate_values keys)) m acc"

definition delta_estimated_bytes :: "commit_delta \<Rightarrow> nat devon_result" where
  "delta_estimated_bytes d =
    rbind (estimate_node_rows (delta_nodes d) COMMIT_DELTA_OVERHEAD_BYTES) (\<lambda>acc.
    rbind (estimate_node_rows (delta_node_updates d) acc) (\<lambda>acc.
    rbind (estimate_keys (delta_node_deletes d) acc) (\<lambda>acc.
    rbind (estimate_edges (delta_edges d) acc) (\<lambda>acc.
    rbind (estimate_rel_tombstones (delta_rel_tombstones d) acc) (\<lambda>acc.
    rfold (\<lambda>ddl acc.
      rbind (checked_estimate_accumulate DDL_OP_OVERHEAD_BYTES acc) (estimate_ddl ddl))
      (delta_ddl d) acc)))))"

section \<open>Chains\<close>

datatype commit_link =
  CommitLink (link_prev: "commit_link option") (link_commit_lsn: u64) (link_delta: commit_delta)
    (link_charged_bytes: nat)

definition commit_link_new ::
    "memory_budget \<Rightarrow> commit_link option \<Rightarrow> u64 \<Rightarrow> commit_delta
      \<Rightarrow> commit_link devon_result \<times> memory_budget" where
  "commit_link_new budget prev lsn d =
    (case rbind (delta_estimated_bytes d) (checked_estimate_add COMMIT_LINK_OVERHEAD_BYTES) of
       Inl e \<Rightarrow> (Inl e, budget)
     | Inr charged_bytes \<Rightarrow>
         (case try_charge budget charged_bytes of
            (False, budget) \<Rightarrow>
              (Inl (BudgetExceeded
                 ''committed overlay requested {} bytes with {} bytes charged and limit {}''), budget)
          | (True, budget) \<Rightarrow> (Inr (CommitLink prev lsn d charged_bytes), budget)))"

definition commit_link_new_arc_reserved ::
    "commit_link option \<Rightarrow> u64 \<Rightarrow> commit_delta \<Rightarrow> nat \<Rightarrow> commit_link devon_result" where
  "commit_link_new_arc_reserved prev lsn d reserved_bytes =
    rbind (rbind (delta_estimated_bytes d) (checked_estimate_add COMMIT_LINK_OVERHEAD_BYTES))
      (\<lambda>charged_bytes.
      if charged_bytes \<noteq> reserved_bytes
      then Inl (InvalidArgument
        ''commit reservation of {} bytes does not match the link estimate of {} bytes'')
      else Inr (CommitLink prev lsn d charged_bytes))"

fun newest_to_oldest :: "commit_link \<Rightarrow> commit_link list" where
  "newest_to_oldest (CommitLink prev lsn d charged) =
    CommitLink prev lsn d charged #
      (case prev of None \<Rightarrow> [] | Some link \<Rightarrow> newest_to_oldest link)"

definition commit_links_oldest_first :: "commit_link option \<Rightarrow> commit_link list" where
  "commit_links_oldest_first head =
    rev (case head of None \<Rightarrow> [] | Some link \<Rightarrow> newest_to_oldest link)"

section \<open>Primary keys\<close>

datatype pk_key = PkInt64 i64 | PkString string

text \<open>The derived order: integers as signed numbers, then strings bytewise.\<close>

instantiation pk_key :: linorder
begin

fun less_eq_pk_key :: "pk_key \<Rightarrow> pk_key \<Rightarrow> bool" where
  "less_eq_pk_key (PkInt64 a) (PkInt64 b) \<longleftrightarrow> sint a \<le> sint b"
| "less_eq_pk_key (PkInt64 a) (PkString b) \<longleftrightarrow> True"
| "less_eq_pk_key (PkString a) (PkInt64 b) \<longleftrightarrow> False"
| "less_eq_pk_key (PkString a) (PkString b) \<longleftrightarrow> a \<le> b"

definition less_pk_key :: "pk_key \<Rightarrow> pk_key \<Rightarrow> bool" where
  "less_pk_key a b \<longleftrightarrow> a \<le> b \<and> \<not> b \<le> a"

instance
proof
  fix x y z :: pk_key
  show "x < y \<longleftrightarrow> x \<le> y \<and> \<not> y \<le> x" by (rule less_pk_key_def)
  show "x \<le> x" by (cases x) simp_all
  show "x \<le> y \<Longrightarrow> y \<le> z \<Longrightarrow> x \<le> z" by (cases x; cases y; cases z) auto
  have "a = b" if "sint a = sint b" for a b :: i64 using that by (rule signed_word_eqI)
  then show "x \<le> y \<Longrightarrow> y \<le> x \<Longrightarrow> x = y" by (cases x; cases y) auto
  show "x \<le> y \<or> y \<le> x" by (cases x; cases y) auto
qed

end

fun pk_try_from :: "devon_value \<Rightarrow> pk_key devon_result" where
  "pk_try_from (VInt64 v) = Inr (PkInt64 v)"
| "pk_try_from (VString v) = Inr (PkString v)"
| "pk_try_from v = Inl (Corrupt ''overlay primary key must be Int64 or String, found {}'')"

text \<open>\<open>slice::get\<close>.\<close>

definition slice_get :: "'a list \<Rightarrow> nat \<Rightarrow> 'a option" where
  "slice_get xs i = (if i < length xs then Some (xs ! i) else None)"

definition row_pk :: "row \<Rightarrow> nat \<Rightarrow> pk_key devon_result" where
  "row_pk row primary_key_column =
    rbind (ok_or (Corrupt ''overlay row for node table {} has no primary-key column at index {}'')
             (slice_get row primary_key_column)) pk_try_from"

definition optional_row_pk :: "row \<Rightarrow> nat \<Rightarrow> pk_key option" where
  "optional_row_pk row primary_key_column =
    Option.bind (slice_get row primary_key_column)
      (\<lambda>v. case pk_try_from v of Inl e \<Rightarrow> None | Inr key \<Rightarrow> Some key)"

section \<open>Net effects and the merged view of a node table\<close>

record node_dml_effects =
  eff_updates :: "(pk_key, row) btree"
  eff_tombstones :: "pk_key set"

definition no_effects :: node_dml_effects where
  "no_effects = \<lparr> eff_updates = [], eff_tombstones = {} \<rparr>"

definition effects_update :: "nat \<Rightarrow> row \<Rightarrow> node_dml_effects \<Rightarrow> node_dml_effects devon_result" where
  "effects_update primary_key_column row eff =
    rbind (row_pk row primary_key_column) (\<lambda>key.
    Inr \<lparr> eff_updates = bt_insert key row (eff_updates eff),
          eff_tombstones = eff_tombstones eff - {key} \<rparr>)"

definition effects_delete :: "devon_value \<Rightarrow> node_dml_effects \<Rightarrow> node_dml_effects devon_result" where
  "effects_delete v eff =
    rbind (pk_try_from v) (\<lambda>key.
    Inr \<lparr> eff_updates = bt_remove key (eff_updates eff),
          eff_tombstones = insert key (eff_tombstones eff) \<rparr>)"

definition effects_insert :: "nat \<Rightarrow> row \<Rightarrow> node_dml_effects \<Rightarrow> node_dml_effects devon_result" where
  "effects_insert primary_key_column row eff =
    rbind (row_pk row primary_key_column) (\<lambda>key.
    Inr \<lparr> eff_updates = bt_remove key (eff_updates eff),
          eff_tombstones = eff_tombstones eff - {key} \<rparr>)"

definition effects_of_link ::
    "string \<Rightarrow> nat \<Rightarrow> commit_delta \<Rightarrow> node_dml_effects \<Rightarrow> node_dml_effects devon_result" where
  "effects_of_link table primary_key_column d eff =
    rbind (rfold (effects_update primary_key_column) (bt_items (delta_node_updates d) table) eff) (\<lambda>eff.
    rbind (rfold effects_delete (bt_items (delta_node_deletes d) table) eff) (\<lambda>eff.
    rfold (effects_insert primary_key_column) (bt_items (delta_nodes d) table) eff))"

definition node_dml_effects ::
    "commit_link option \<Rightarrow> string \<Rightarrow> nat \<Rightarrow> node_dml_effects devon_result" where
  "node_dml_effects head table primary_key_column =
    rfold (\<lambda>link. effects_of_link table primary_key_column (link_delta link))
      (commit_links_oldest_first head) no_effects"

type_synonym slots = "row option list \<times> (pk_key, nat) btree"

definition apply_node_insert :: "nat \<Rightarrow> row \<Rightarrow> slots \<Rightarrow> slots" where
  "apply_node_insert primary_key_column row = (\<lambda>(rows, active).
    (case optional_row_pk row primary_key_column of
       None \<Rightarrow> (rows @ [Some row], active)
     | Some key \<Rightarrow>
         (let previous = bt_get active key;
              active = bt_insert key (length rows) active;
              rows = (case previous of None \<Rightarrow> rows | Some p \<Rightarrow> rows[p := None])
          in (rows @ [Some row], active))))"

definition apply_node_update :: "nat \<Rightarrow> row \<Rightarrow> slots \<Rightarrow> slots" where
  "apply_node_update primary_key_column row = (\<lambda>(rows, active).
    (case optional_row_pk row primary_key_column of
       None \<Rightarrow> (rows, active)
     | Some key \<Rightarrow>
         (case bt_get active key of
            None \<Rightarrow> (rows, active)
          | Some pos \<Rightarrow> (rows[pos := Some row], active))))"

definition apply_node_delete :: "devon_value \<Rightarrow> slots \<Rightarrow> slots" where
  "apply_node_delete v = (\<lambda>(rows, active).
    (case pk_try_from v of
       Inl e \<Rightarrow> (rows, active)
     | Inr key \<Rightarrow>
         (case bt_get active key of
            None \<Rightarrow> (rows, active)
          | Some pos \<Rightarrow> (rows[pos := None], bt_remove key active))))"

definition slots_of_link :: "string \<Rightarrow> nat \<Rightarrow> commit_delta \<Rightarrow> slots \<Rightarrow> slots" where
  "slots_of_link table primary_key_column d st =
    (let st = fold (apply_node_update primary_key_column) (bt_items (delta_node_updates d) table) st;
         st = fold apply_node_delete (bt_items (delta_node_deletes d) table) st
     in fold (apply_node_insert primary_key_column) (bt_items (delta_nodes d) table) st)"

definition effective_node_rows :: "commit_link option \<Rightarrow> string \<Rightarrow> nat \<Rightarrow> row option list" where
  "effective_node_rows head table primary_key_column =
    fst (fold (\<lambda>link. slots_of_link table primary_key_column (link_delta link))
      (commit_links_oldest_first head) ([], []))"

definition node_slots_oldest_first ::
    "commit_link option \<Rightarrow> string \<Rightarrow> nat \<Rightarrow> (nat \<times> row option) list" where
  "node_slots_oldest_first head table primary_key_column =
    enumerate 0 (effective_node_rows head table primary_key_column)"

definition node_rows_oldest_first :: "commit_link option \<Rightarrow> string \<Rightarrow> nat \<Rightarrow> row list" where
  "node_rows_oldest_first head table primary_key_column =
    List.map_filter snd (node_slots_oldest_first head table primary_key_column)"

definition rel_edges_oldest_first :: "commit_link option \<Rightarrow> string \<Rightarrow> overlay_edge list" where
  "rel_edges_oldest_first head table =
    concat (map (\<lambda>link. bt_items (delta_edges (link_delta link)) table)
      (commit_links_oldest_first head))"

definition rel_tombstones_oldest_first ::
    "commit_link option \<Rightarrow> string \<Rightarrow> rel_endpoint_tombstones" where
  "rel_tombstones_oldest_first head table =
    fold (\<lambda>link acc.
      case bt_get (delta_rel_tombstones (link_delta link)) table of
        None \<Rightarrow> acc
      | Some t \<Rightarrow> tombstones_union_with acc t)
      (commit_links_oldest_first head) no_tombstones"

definition node_offset :: "u64 \<Rightarrow> nat \<Rightarrow> u64 devon_result" where
  "node_offset checkpointed_total overlay_position =
    (if \<not> overlay_position < 2 ^ 64
     then Inl (InvalidArgument ''overlay row position exceeds u64::MAX'')
     else if \<not> unat checkpointed_total + overlay_position < 2 ^ 64
     then Inl (InvalidArgument
       ''checkpointed row total {} plus overlay position {} exceeds u64::MAX'')
     else Inr (checkpointed_total + of_nat overlay_position))"

section \<open>Conflict summaries\<close>

type_synonym claims = "(string, devon_value list) btree"

record commit_summary =
  sum_inserted_pks :: claims
  sum_dml_pks :: claims
  sum_detach_pks :: claims
  sum_edge_endpoint_pks :: claims
  sum_created_tables :: "string list"

definition summary_estimated_bytes :: "commit_summary \<Rightarrow> nat devon_result" where
  "summary_estimated_bytes s =
    rbind (estimate_keys (sum_inserted_pks s @ sum_dml_pks s @ sum_detach_pks s @
             sum_edge_endpoint_pks s) COMMIT_SUMMARY_OVERHEAD_BYTES) (\<lambda>acc.
    rfold (\<lambda>table acc.
      rbind (checked_estimate_accumulate SUMMARY_TABLE_NAME_OVERHEAD_BYTES acc)
        (checked_estimate_accumulate (length table))) (sum_created_tables s) acc)"

definition prune_recent_summaries ::
    "(u64 \<times> commit_summary) list \<Rightarrow> u64 \<Rightarrow> (u64 \<times> commit_summary) list" where
  "prune_recent_summaries recent_summaries minimum_snapshot_lsn =
    filter (\<lambda>(lsn, _). lsn > minimum_snapshot_lsn) recent_summaries"

end
