(* ===== verification/OverlayView.thy ===== *)
theory OverlayView
  imports Overlay
begin

text \<open>
  The merged view of a node table refines its history. The abstract table is a map from primary
  keys to rows on which every committed change takes effect at once, in commit order; the overlay
  represents it by the live insert slots and the net effects on the checkpointed rows.
\<close>

section \<open>The abstract table\<close>

definition spec_put :: "nat \<Rightarrow> row \<Rightarrow> (pk_key \<rightharpoonup> row) \<Rightarrow> (pk_key \<rightharpoonup> row)" where
  "spec_put c row m = (case optional_row_pk row c of None \<Rightarrow> m | Some k \<Rightarrow> m(k \<mapsto> row))"

definition spec_delete :: "devon_value \<Rightarrow> (pk_key \<rightharpoonup> row) \<Rightarrow> (pk_key \<rightharpoonup> row)" where
  "spec_delete v m = (case pk_try_from v of Inl e \<Rightarrow> m | Inr k \<Rightarrow> m(k := None))"

definition spec_delta :: "string \<Rightarrow> nat \<Rightarrow> commit_delta \<Rightarrow> (pk_key \<rightharpoonup> row) \<Rightarrow> (pk_key \<rightharpoonup> row)" where
  "spec_delta table c d m =
    fold (spec_put c) (bt_items (delta_nodes d) table)
      (fold spec_delete (bt_items (delta_node_deletes d) table)
        (fold (spec_put c) (bt_items (delta_node_updates d) table) m))"

definition spec_chain ::
    "string \<Rightarrow> nat \<Rightarrow> commit_link option \<Rightarrow> (pk_key \<rightharpoonup> row) \<Rightarrow> (pk_key \<rightharpoonup> row)" where
  "spec_chain table c head m =
    fold (\<lambda>link. spec_delta table c (link_delta link)) (commit_links_oldest_first head) m"

section \<open>The representation invariant\<close>

definition slot_key :: "nat \<Rightarrow> row option list \<Rightarrow> nat \<Rightarrow> pk_key option" where
  "slot_key c rows p =
    (if p < length rows then Option.bind (rows ! p) (\<lambda>r. optional_row_pk r c) else None)"

definition slots_ok :: "nat \<Rightarrow> slots \<Rightarrow> bool" where
  "slots_ok c st \<longleftrightarrow> bt_wf (snd st) \<and>
    (\<forall>k p. bt_get (snd st) k = Some p \<longleftrightarrow> slot_key c (fst st) p = Some k) \<and>
    (\<forall>r. Some r \<in> set (fst st) \<longrightarrow> optional_row_pk r c \<noteq> None)"

definition live_row :: "slots \<Rightarrow> pk_key \<Rightarrow> row option" where
  "live_row st k = (case bt_get (snd st) k of None \<Rightarrow> None | Some p \<Rightarrow> fst st ! p)"

definition effects_ok :: "node_dml_effects \<Rightarrow> bool" where
  "effects_ok eff \<longleftrightarrow> bt_wf (eff_updates eff) \<and>
    (\<forall>k \<in> eff_tombstones eff. bt_get (eff_updates eff) k = None)"

text \<open>
  One key: its checkpointed row, its live overlay row, whether it is tombstoned, its replacement
  row, and the row the abstract table has.
\<close>

definition represents_at ::
    "row option \<Rightarrow> row option \<Rightarrow> bool \<Rightarrow> row option \<Rightarrow> row option \<Rightarrow> bool" where
  "represents_at base live tombstoned replacement row \<longleftrightarrow>
    (case live of
       None \<Rightarrow> row = (if tombstoned then None
                   else case replacement of None \<Rightarrow> base | Some r \<Rightarrow> Some r)
     | Some r \<Rightarrow> row = Some r \<and> \<not> tombstoned \<and> (replacement = None \<or> replacement = Some r))"

definition represents ::
    "(pk_key \<rightharpoonup> row) \<Rightarrow> slots \<Rightarrow> node_dml_effects \<Rightarrow> (pk_key \<rightharpoonup> row) \<Rightarrow> bool" where
  "represents base st eff m \<longleftrightarrow>
    (\<forall>k. represents_at (base k) (live_row st k) (k \<in> eff_tombstones eff)
      (bt_get (eff_updates eff) k) (m k))"

lemma representsI:
  assumes "represents base st eff m"
    and "represents_at (base k) (live_row st' k) (k \<in> eff_tombstones eff')
      (bt_get (eff_updates eff') k) (m' k)"
    and "\<And>k'. k' \<noteq> k \<Longrightarrow> live_row st' k' = live_row st k' \<and> m' k' = m k' \<and>
      (k' \<in> eff_tombstones eff' \<longleftrightarrow> k' \<in> eff_tombstones eff) \<and>
      bt_get (eff_updates eff') k' = bt_get (eff_updates eff) k'"
  shows "represents base st' eff' m'"
  unfolding represents_def
proof
  fix k'
  show "represents_at (base k') (live_row st' k') (k' \<in> eff_tombstones eff')
      (bt_get (eff_updates eff') k') (m' k')"
    using assms by (cases "k' = k") (simp_all add: represents_def)
qed

lemma row_pk_iff: "row_pk row c = Inr k \<longleftrightarrow> optional_row_pk row c = Some k"
proof (cases "slice_get row c")
  case (Some v)
  then show ?thesis
    by (cases "pk_try_from v") (simp_all add: row_pk_def optional_row_pk_def)
qed (simp add: row_pk_def optional_row_pk_def)

lemma slots_okD:
  assumes "slots_ok c (rows, active)"
  shows "bt_wf active" and "bt_get active k = Some p \<longleftrightarrow> slot_key c rows p = Some k"
    and "Some r \<in> set rows \<Longrightarrow> optional_row_pk r c \<noteq> None"
  using assms by (auto simp: slots_ok_def)

lemma slot_key_Some:
  "slot_key c rows p = Some k \<longleftrightarrow>
    p < length rows \<and> (\<exists>r. rows ! p = Some r \<and> optional_row_pk r c = Some k)"
  by (auto simp: slot_key_def Option.bind_eq_Some_conv)

lemma slot_key_update:
  "slot_key c (rows[p := x]) q =
    (if q = p \<and> p < length rows then Option.bind x (\<lambda>r. optional_row_pk r c) else slot_key c rows q)"
  by (simp add: slot_key_def)

lemma slot_key_append:
  "slot_key c (rows @ [x]) q =
    (if q = length rows then Option.bind x (\<lambda>r. optional_row_pk r c) else slot_key c rows q)"
  by (simp add: slot_key_def nth_append)

lemma live_row_iff:
  assumes "slots_ok c (rows, active)"
  shows "live_row (rows, active) k = Some r \<longleftrightarrow> Some r \<in> set rows \<and> optional_row_pk r c = Some k"
proof
  assume "live_row (rows, active) k = Some r"
  then obtain p where p: "bt_get active k = Some p" "rows ! p = Some r"
    by (auto simp: live_row_def split: option.splits)
  then have "slot_key c rows p = Some k"
    using slots_okD(2) [OF assms] by simp
  with p(2) show "Some r \<in> set rows \<and> optional_row_pk r c = Some k"
    by (auto simp: slot_key_Some in_set_conv_nth)
next
  assume r: "Some r \<in> set rows \<and> optional_row_pk r c = Some k"
  then obtain p where "p < length rows" "rows ! p = Some r"
    by (auto simp: in_set_conv_nth)
  with r have "bt_get active k = Some p"
    by (simp add: slots_okD(2) [OF assms] slot_key_Some)
  with \<open>rows ! p = Some r\<close> show "live_row (rows, active) k = Some r"
    by (simp add: live_row_def)
qed

lemma slots_replace:
  assumes ok: "slots_ok c (rows, active)" and k: "bt_get active k = Some p"
    and pk: "optional_row_pk row c = Some k"
  shows "slots_ok c (rows[p := Some row], active)"
    and "live_row (rows[p := Some row], active) = (live_row (rows, active))(k \<mapsto> row)"
proof -
  have p: "p < length rows" "slot_key c rows p = Some k"
    using k by (simp_all add: slots_okD(2) [OF ok] slot_key_Some)
  have key: "bt_get active k' = Some q \<longleftrightarrow> slot_key c (rows[p := Some row]) q = Some k'" for k' q
    using p pk by (simp add: slots_okD(2) [OF ok] slot_key_update)
  have live: "optional_row_pk r c \<noteq> None" if "Some r \<in> set (rows[p := Some row])" for r
    using that set_update_subset_insert [of rows p "Some row"] slots_okD(3) [OF ok] pk by auto
  show "slots_ok c (rows[p := Some row], active)"
    using slots_okD(1) [OF ok] key live by (simp add: slots_ok_def)
  have "p \<noteq> q" if "bt_get active k' = Some q" "k' \<noteq> k" for k' q
    using that p(2) by (auto simp: slots_okD(2) [OF ok])
  then show "live_row (rows[p := Some row], active) = (live_row (rows, active))(k \<mapsto> row)"
    using p(1) k by (auto simp: live_row_def fun_eq_iff split: option.split)
qed

lemma slots_clear:
  assumes ok: "slots_ok c (rows, active)" and k: "bt_get active k = Some p"
  shows "slots_ok c (rows[p := None], bt_remove k active)"
    and "live_row (rows[p := None], bt_remove k active) = (live_row (rows, active))(k := None)"
proof -
  note wf = slots_okD(1) [OF ok]
  have p: "p < length rows" "slot_key c rows p = Some k"
    using k by (simp_all add: slots_okD(2) [OF ok] slot_key_Some)
  have at: "p = q \<longleftrightarrow> k' = k" if "bt_get active k' = Some q" for k' q
  proof
    show "k' = k" if "p = q"
      using \<open>bt_get active k' = Some q\<close> that p(2) by (simp add: slots_okD(2) [OF ok])
    show "p = q" if "k' = k" using \<open>bt_get active k' = Some q\<close> that k by simp
  qed
  have key: "bt_get (bt_remove k active) k' = Some q \<longleftrightarrow> slot_key c (rows[p := None]) q = Some k'"
    for k' q
    using at [of k' q] p(1)
    by (auto simp: bt_get_remove [OF wf] slot_key_update simp flip: slots_okD(2) [OF ok])
  have live: "optional_row_pk r c \<noteq> None" if "Some r \<in> set (rows[p := None])" for r
    using that set_update_subset_insert [of rows p None] slots_okD(3) [OF ok] by auto
  show "slots_ok c (rows[p := None], bt_remove k active)"
    using bt_wf_remove [OF wf] key live by (simp add: slots_ok_def)
  show "live_row (rows[p := None], bt_remove k active) = (live_row (rows, active))(k := None)"
    using at by (auto simp: live_row_def fun_eq_iff bt_get_remove [OF wf] split: option.split)
qed

lemma slots_append:
  assumes ok: "slots_ok c (rows, active)" and k: "bt_get active k = None"
    and pk: "optional_row_pk row c = Some k" and wf: "bt_wf active'"
    and get: "\<And>k'. bt_get active' k' = (if k' = k then Some (length rows) else bt_get active k')"
  shows "slots_ok c (rows @ [Some row], active')"
    and "live_row (rows @ [Some row], active') = (live_row (rows, active))(k \<mapsto> row)"
proof -
  have below: "q \<noteq> length rows" if "bt_get active k' = Some q" for k' q
    using that by (auto simp: slots_okD(2) [OF ok] slot_key_Some)
  have key: "bt_get active' k' = Some q \<longleftrightarrow> slot_key c (rows @ [Some row]) q = Some k'" for k' q
    using below [of k' q] pk k
    by (auto simp: get slot_key_append simp flip: slots_okD(2) [OF ok])
  show "slots_ok c (rows @ [Some row], active')"
    using wf key slots_okD(3) [OF ok] pk by (auto simp: slots_ok_def)
  have "q < length rows" if "bt_get active k' = Some q" for k' q
    using that by (auto simp: slots_okD(2) [OF ok] slot_key_Some)
  then show "live_row (rows @ [Some row], active') = (live_row (rows, active))(k \<mapsto> row)"
    by (auto simp: live_row_def fun_eq_iff get nth_append split: option.split)
qed

section \<open>Every change preserves the representation\<close>

lemma represents_update:
  assumes "slots_ok c st" "effects_ok eff" "represents base st eff m"
    and "effects_update c row eff = Inr eff'"
  shows "slots_ok c (apply_node_update c row st)" "effects_ok eff'"
    "represents base (apply_node_update c row st) eff' (spec_put c row m)"
proof -
  obtain rows active where st: "st = (rows, active)" by fastforce
  from assms(4) obtain k where k: "optional_row_pk row c = Some k"
    and eff': "eff' = \<lparr> eff_updates = bt_insert k row (eff_updates eff),
      eff_tombstones = eff_tombstones eff - {k} \<rparr>"
    by (auto simp: effects_update_def rbind_eq_Inr row_pk_iff)
  note wf = assms(2) [unfolded effects_ok_def, THEN conjunct1]
  show "effects_ok eff'"
    using assms(2) by (auto simp: effects_ok_def eff' bt_wf_insert bt_get_insert)
  have "slots_ok c (apply_node_update c row st) \<and>
      live_row (apply_node_update c row st) =
        (case live_row st k of None \<Rightarrow> live_row st | Some r \<Rightarrow> (live_row st)(k \<mapsto> row))"
  proof (cases "bt_get active k")
    case None
    then show ?thesis using assms(1) by (simp add: apply_node_update_def st k live_row_def)
  next
    case (Some p)
    have "live_row st k \<noteq> None"
      using Some slots_okD(2) [OF assms(1) [unfolded st], of k p]
      by (auto simp: st live_row_def slot_key_Some)
    then obtain r where "live_row (rows, active) k = Some r" by (auto simp: st)
    with Some slots_replace [OF assms(1) [unfolded st] Some k] show ?thesis
      by (simp add: apply_node_update_def st k)
  qed
  then show "slots_ok c (apply_node_update c row st)"
    "represents base (apply_node_update c row st) eff' (spec_put c row m)"
    by (auto intro!: representsI [OF assms(3), of k] simp: represents_at_def spec_put_def k eff'
        bt_get_insert [OF wf] split: option.splits)
qed

lemma represents_delete:
  assumes "slots_ok c st" "effects_ok eff" "represents base st eff m"
    and "effects_delete v eff = Inr eff'"
  shows "slots_ok c (apply_node_delete v st)" "effects_ok eff'"
    "represents base (apply_node_delete v st) eff' (spec_delete v m)"
proof -
  obtain rows active where st: "st = (rows, active)" by fastforce
  from assms(4) obtain k where k: "pk_try_from v = Inr k"
    and eff': "eff' = \<lparr> eff_updates = bt_remove k (eff_updates eff),
      eff_tombstones = insert k (eff_tombstones eff) \<rparr>"
    by (auto simp: effects_delete_def rbind_eq_Inr)
  note wf = assms(2) [unfolded effects_ok_def, THEN conjunct1]
  show "effects_ok eff'"
    using assms(2) by (auto simp: effects_ok_def eff' bt_wf_remove bt_get_remove)
  have "slots_ok c (apply_node_delete v st) \<and>
      live_row (apply_node_delete v st) = (live_row st)(k := None)"
  proof (cases "bt_get active k")
    case None
    then show ?thesis using assms(1) by (auto simp: apply_node_delete_def st k live_row_def)
  next
    case (Some p)
    with slots_clear [OF assms(1) [unfolded st] Some] show ?thesis
      by (simp add: apply_node_delete_def st k)
  qed
  then show "slots_ok c (apply_node_delete v st)"
    "represents base (apply_node_delete v st) eff' (spec_delete v m)"
    by (auto intro!: representsI [OF assms(3), of k] simp: represents_at_def spec_delete_def k eff'
        bt_get_remove [OF wf] split: option.splits)
qed

lemma represents_insert:
  assumes "slots_ok c st" "effects_ok eff" "represents base st eff m"
    and "effects_insert c row eff = Inr eff'"
  shows "slots_ok c (apply_node_insert c row st)" "effects_ok eff'"
    "represents base (apply_node_insert c row st) eff' (spec_put c row m)"
proof -
  obtain rows active where st: "st = (rows, active)" by fastforce
  from assms(4) obtain k where k: "optional_row_pk row c = Some k"
    and eff': "eff' = \<lparr> eff_updates = bt_remove k (eff_updates eff),
      eff_tombstones = eff_tombstones eff - {k} \<rparr>"
    by (auto simp: effects_insert_def rbind_eq_Inr row_pk_iff)
  note wf = assms(2) [unfolded effects_ok_def, THEN conjunct1]
  note ok = assms(1) [unfolded st]
  note active = slots_okD(1) [OF ok]
  show "effects_ok eff'"
    using assms(2) by (auto simp: effects_ok_def eff' bt_wf_remove bt_get_remove)
  have "slots_ok c (apply_node_insert c row st) \<and>
      live_row (apply_node_insert c row st) = (live_row st)(k \<mapsto> row)"
  proof (cases "bt_get active k")
    case None
    from slots_append [OF ok None k bt_wf_insert [OF active] bt_get_insert [OF active]] None
    show ?thesis by (simp add: apply_node_insert_def st k Let_def)
  next
    case (Some p)
    note cleared = slots_clear [OF ok Some]
    have get: "bt_get (bt_insert k (length rows) active) k' =
        (if k' = k then Some (length (rows[p := None])) else bt_get (bt_remove k active) k')" for k'
      by (simp add: bt_get_insert [OF active] bt_get_remove [OF active])
    have none: "bt_get (bt_remove k active) k = None"
      by (simp add: bt_get_remove [OF active])
    from slots_append [OF cleared(1) none k bt_wf_insert [OF active] get] cleared(2) Some
    show ?thesis by (simp add: apply_node_insert_def st k Let_def)
  qed
  then show "slots_ok c (apply_node_insert c row st)"
    "represents base (apply_node_insert c row st) eff' (spec_put c row m)"
    by (auto intro!: representsI [OF assms(3), of k] simp: represents_at_def spec_put_def k eff'
        bt_get_remove [OF wf] split: option.splits)
qed

definition overlay_rep ::
    "nat \<Rightarrow> (pk_key \<rightharpoonup> row) \<Rightarrow> slots \<Rightarrow> node_dml_effects \<Rightarrow> (pk_key \<rightharpoonup> row) \<Rightarrow> bool" where
  "overlay_rep c base st eff m \<longleftrightarrow> slots_ok c st \<and> effects_ok eff \<and> represents base st eff m"

text \<open>A representation that every step of a fallible loop keeps, kept by the loop.\<close>

lemma rep_rfold:
  assumes step: "\<And>x st eff m eff'. R st eff m \<Longrightarrow> f x eff = Inr eff' \<Longrightarrow> R (g x st) eff' (h x m)"
    and rep: "R st eff m" and fold: "rfold f xs eff = Inr eff'"
  shows "R (fold g xs st) eff' (fold h xs m)"
  using rep fold
proof (induction xs arbitrary: st eff m)
  case (Cons x xs)
  then obtain eff1 where "f x eff = Inr eff1" "rfold f xs eff1 = Inr eff'"
    by (auto simp: rbind_eq_Inr)
  with Cons.IH [OF step [OF Cons.prems(1)]] show ?case by simp
qed simp

lemma overlay_rep_link:
  assumes "overlay_rep c base st eff m" "effects_of_link table c d eff = Inr eff'"
  shows "overlay_rep c base (slots_of_link table c d st) eff' (spec_delta table c d m)"
proof -
  from assms(2) obtain eff1 eff2 where
    upd: "rfold (effects_update c) (bt_items (delta_node_updates d) table) eff = Inr eff1"
    and del: "rfold effects_delete (bt_items (delta_node_deletes d) table) eff1 = Inr eff2"
    and ins: "rfold (effects_insert c) (bt_items (delta_nodes d) table) eff2 = Inr eff'"
    by (auto simp: effects_of_link_def rbind_eq_Inr)
  have 1: "overlay_rep c base (apply_node_update c x st) eff' (spec_put c x m)"
    if "overlay_rep c base st eff m" "effects_update c x eff = Inr eff'" for x st eff m eff'
    using that represents_update [of c st eff base m x eff'] by (simp add: overlay_rep_def)
  have 2: "overlay_rep c base (apply_node_delete x st) eff' (spec_delete x m)"
    if "overlay_rep c base st eff m" "effects_delete x eff = Inr eff'" for x st eff m eff'
    using that represents_delete [of c st eff base m x eff'] by (simp add: overlay_rep_def)
  have 3: "overlay_rep c base (apply_node_insert c x st) eff' (spec_put c x m)"
    if "overlay_rep c base st eff m" "effects_insert c x eff = Inr eff'" for x st eff m eff'
    using that represents_insert [of c st eff base m x eff'] by (simp add: overlay_rep_def)
  show ?thesis
    unfolding slots_of_link_def spec_delta_def Let_def
    by (rule rep_rfold [where R = "overlay_rep c base", OF 3
        rep_rfold [where R = "overlay_rep c base", OF 2
          rep_rfold [where R = "overlay_rep c base", OF 1 assms(1) upd] del] ins])
qed

lemma overlay_rep_start: "overlay_rep c base ([], []) no_effects base"
  by (auto simp: overlay_rep_def slots_ok_def effects_ok_def represents_def represents_at_def
      live_row_def no_effects_def slot_key_def)

lemma overlay_rep_chain:
  assumes "node_dml_effects head table c = Inr eff"
  shows "overlay_rep c base
    (fold (\<lambda>link. slots_of_link table c (link_delta link)) (commit_links_oldest_first head) ([], []))
    eff (spec_chain table c head base)"
  unfolding spec_chain_def
  by (rule rep_rfold [where R = "overlay_rep c base", OF _ overlay_rep_start
        assms [unfolded node_dml_effects_def]]) (rule overlay_rep_link)

section \<open>The merged view\<close>

text \<open>
  What a reader sees under a key: the visible overlay row, and otherwise the checkpointed row with
  the net effects applied.
\<close>

definition merged_lookup ::
    "nat \<Rightarrow> (pk_key \<rightharpoonup> row) \<Rightarrow> row list \<Rightarrow> node_dml_effects \<Rightarrow> pk_key \<Rightarrow> row option" where
  "merged_lookup c base rows eff k =
    (case find (\<lambda>r. optional_row_pk r c = Some k) rows of
       Some r \<Rightarrow> Some r
     | None \<Rightarrow>
         if k \<in> eff_tombstones eff then None
         else case bt_get (eff_updates eff) k of None \<Rightarrow> base k | Some r \<Rightarrow> Some r)"

lemma live_rows_Cons:
  "List.map_filter id (x # xs) =
    (case x of None \<Rightarrow> List.map_filter id xs | Some r \<Rightarrow> r # List.map_filter id xs)"
  by (simp add: List.map_filter_def split: option.split)

lemma set_live_rows: "set (List.map_filter id xs) = {r. Some r \<in> set xs}"
  by (induction xs) (auto simp: List.map_filter_simps split: option.split)

lemma node_rows_map_filter:
  "node_rows_oldest_first head table c = List.map_filter id (effective_node_rows head table c)"
proof -
  have "List.map_filter snd (enumerate n xs) = List.map_filter id xs" for n and xs :: "row option list"
    by (induction xs arbitrary: n) (simp_all add: List.map_filter_simps split: option.split)
  then show ?thesis
    by (simp add: node_rows_oldest_first_def node_slots_oldest_first_def)
qed

lemma set_node_rows:
  "set (node_rows_oldest_first head table c) = {r. Some r \<in> set (effective_node_rows head table c)}"
  by (simp add: node_rows_map_filter set_live_rows)

lemma distinct_live_keys:
  assumes "\<And>p q k. slot_key c rows p = Some k \<Longrightarrow> slot_key c rows q = Some k \<Longrightarrow> p = q"
    and "\<And>r. Some r \<in> set rows \<Longrightarrow> optional_row_pk r c \<noteq> None"
  shows "distinct (map (\<lambda>r. optional_row_pk r c) (List.map_filter id rows))"
  using assms
proof (induction rows)
  case (Cons x rows)
  have shift: "slot_key c (x # rows) (Suc p) = slot_key c rows p" for p
    by (simp add: slot_key_def)
  have "distinct (map (\<lambda>r. optional_row_pk r c) (List.map_filter id rows))"
  proof (rule Cons.IH)
    show "p = q" if "slot_key c rows p = Some k" "slot_key c rows q = Some k" for p q k
      using Cons.prems(1) [of "Suc p" k "Suc q"] that by (simp add: shift)
  qed (use Cons.prems(2) in auto)
  moreover have "optional_row_pk r c \<noteq> optional_row_pk r' c"
    if x: "x = Some r" and r': "Some r' \<in> set rows" for r r'
  proof
    assume eq: "optional_row_pk r c = optional_row_pk r' c"
    obtain k where k: "optional_row_pk r c = Some k" using Cons.prems(2) [of r] x by auto
    obtain p where "p < length rows" "rows ! p = Some r'" using r' by (auto simp: in_set_conv_nth)
    with k eq x have "slot_key c (x # rows) 0 = Some k" "slot_key c (x # rows) (Suc p) = Some k"
      by (simp_all add: shift slot_key_def)
    with Cons.prems(1) show False by blast
  qed
  ultimately show ?case
    unfolding live_rows_Cons by (cases x) (auto simp: set_live_rows)
qed (simp add: List.map_filter_simps)

text \<open>The row of a key among the live rows, and the representation stated over it.\<close>

lemma overlay_live_rows:
  assumes "node_dml_effects head table c = Inr eff"
  shows "effects_ok eff"
    and "represents_at (base k) (find (\<lambda>r. optional_row_pk r c = Some k) (node_rows_oldest_first head table c))
      (k \<in> eff_tombstones eff) (bt_get (eff_updates eff) k) (spec_chain table c head base k)"
    and "distinct (map (\<lambda>r. optional_row_pk r c) (node_rows_oldest_first head table c))"
    and "Some r \<in> set (effective_node_rows head table c) \<Longrightarrow> optional_row_pk r c \<noteq> None"
proof -
  obtain rows active where st: "fold (\<lambda>link. slots_of_link table c (link_delta link))
      (commit_links_oldest_first head) ([], []) = (rows, active)"
    by fastforce
  have rows: "effective_node_rows head table c = rows"
    by (simp add: effective_node_rows_def st)
  from overlay_rep_chain [OF assms, of base] have eff: "effects_ok eff"
    and ok: "slots_ok c (rows, active)" and rep: "represents base (rows, active) eff (spec_chain table c head base)"
    by (simp_all add: st overlay_rep_def)
  show "effects_ok eff" by (rule eff)
  show "optional_row_pk r c \<noteq> None" if "Some r \<in> set (effective_node_rows head table c)"
    using that slots_okD(3) [OF ok] by (simp add: rows)
  have "find (\<lambda>r. optional_row_pk r c = Some k) (node_rows_oldest_first head table c) =
      live_row (rows, active) k"
  proof (cases "find (\<lambda>r. optional_row_pk r c = Some k) (node_rows_oldest_first head table c)")
    case None
    then have "live_row (rows, active) k \<noteq> Some r" for r
      by (auto simp: find_None_iff set_node_rows rows live_row_iff [OF ok])
    with None show ?thesis by (cases "live_row (rows, active) k") auto
  next
    case (Some r)
    then have "r \<in> set (node_rows_oldest_first head table c)" "optional_row_pk r c = Some k"
      by (auto simp: find_Some_iff)
    then have "live_row (rows, active) k = Some r"
      by (simp add: set_node_rows rows live_row_iff [OF ok])
    with Some show ?thesis by simp
  qed
  with rep show "represents_at (base k)
      (find (\<lambda>r. optional_row_pk r c = Some k) (node_rows_oldest_first head table c))
      (k \<in> eff_tombstones eff) (bt_get (eff_updates eff) k) (spec_chain table c head base k)"
    by (simp add: represents_def)
  show "distinct (map (\<lambda>r. optional_row_pk r c) (node_rows_oldest_first head table c))"
    unfolding node_rows_map_filter rows
  proof (rule distinct_live_keys)
    show "p = q" if "slot_key c rows p = Some k" "slot_key c rows q = Some k" for p q k
      using that [folded slots_okD(2) [OF ok]] by simp
  qed (rule slots_okD(3) [OF ok])
qed

text \<open>
  C11. Reading through the overlay is reading the latest committed state: for every node table,
  checkpointed contents and chain of commits whose keys are well formed, the merged view of the live
  overlay rows and the net effects on checkpointed rows is exactly the table obtained by applying
  the commits one after another, and no primary key is visible twice in the overlay.
\<close>

theorem merged_view_refines_history:
  assumes "node_dml_effects head table c = Inr eff"
  shows "merged_lookup c base (node_rows_oldest_first head table c) eff = spec_chain table c head base
    \<and> distinct (map (\<lambda>r. optional_row_pk r c) (node_rows_oldest_first head table c))"
proof
  show "merged_lookup c base (node_rows_oldest_first head table c) eff = spec_chain table c head base"
  proof
    fix k
    from overlay_live_rows(2) [OF assms, of base k]
    show "merged_lookup c base (node_rows_oldest_first head table c) eff k =
        spec_chain table c head base k"
      by (simp add: merged_lookup_def represents_at_def split: option.splits)
  qed
qed (rule overlay_live_rows(3) [OF assms])

definition sample_chain :: "commit_link option" where
  "sample_chain =
    Some (CommitLink
      (Some (CommitLink None 5
        (delta_default\<lparr> delta_nodes := [(''T'', [[VInt64 1, VString ''a''], [VInt64 2, VString ''b'']])],
          delta_node_deletes := [(''T'', [VInt64 3])] \<rparr>) 0)) 9
      (delta_default\<lparr> delta_node_updates := [(''T'', [[VInt64 2, VString ''c'']])],
        delta_node_deletes := [(''T'', [VInt64 1])] \<rparr>) 0)"

lemma sample_effects:
  "node_dml_effects sample_chain ''T'' 0 =
    Inr \<lparr> eff_updates = [(PkInt64 2, [VInt64 2, VString ''c''])],
          eff_tombstones = {PkInt64 1, PkInt64 3} \<rparr>"
  by (simp add: node_dml_effects_def sample_chain_def commit_links_oldest_first_def delta_default_def
      effects_of_link_def bt_items_def effects_update_def effects_delete_def effects_insert_def
      row_pk_def slice_get_def no_effects_def)

theorem merged_view_refines_history_witness:
  "merged_lookup 0 [PkInt64 3 \<mapsto> [VInt64 3, VString ''z'']] (node_rows_oldest_first sample_chain ''T'' 0)
      \<lparr> eff_updates = [(PkInt64 2, [VInt64 2, VString ''c''])],
        eff_tombstones = {PkInt64 1, PkInt64 3} \<rparr>
    = spec_chain ''T'' 0 sample_chain [PkInt64 3 \<mapsto> [VInt64 3, VString ''z'']]"
  using merged_view_refines_history [OF sample_effects] by blast

end
