(* ===== verification/NodeTable.thy ===== *)
theory NodeTable
  imports OverlayView
begin

text \<open>
  Materializing a node table at a checkpoint (\<^verbatim>\<open>devondb-storage/src/node_table.rs\<close>). A persisted
  node group is its rows, in place of the page its directory is stored at; writing a group can fail
  only by rejecting a row.
\<close>

section \<open>Row and group validation\<close>

definition NODE_GROUP_CAPACITY :: nat where "NODE_GROUP_CAPACITY = 2048"

definition validate_row :: "node_table_schema \<Rightarrow> row \<Rightarrow> unit devon_result" where
  "validate_row sch row =
    (if length row \<noteq> length (node_columns sch)
     then Inl (InvalidArgument ''node table {} expects {} columns but row has {} values'')
     else
       rbind (rmapM (\<lambda>(col, v).
         if \<not> matches_type v (scol_ty col)
         then Inl (InvalidArgument ''column {} in node table {} expects {} but received {}'')
         else Inr ()) (zip (node_columns sch) row)) (\<lambda>_. Inr ()))"

definition schema_types :: "node_table_schema \<Rightarrow> logical_type list" where
  "schema_types sch = map scol_ty (node_columns sch)"

definition primary_key_column :: "node_table_schema \<Rightarrow> nat devon_result" where
  "primary_key_column sch =
    ok_or (Corrupt ''node table {} has no primary-key column'')
      (position scol_primary_key (node_columns sch))"

text \<open>\<open>NodeGroup::new\<close> and \<open>NodeGroup::push_row\<close>: the rows of a group under construction.\<close>

definition group_new :: "logical_type list \<Rightarrow> row list devon_result" where
  "group_new types =
    (if types = [] then Inl (InvalidArgument ''a node group must contain at least one column'')
     else Inr [])"

definition push_row :: "logical_type list \<Rightarrow> row \<Rightarrow> row list \<Rightarrow> row list devon_result" where
  "push_row types row rows =
    (if length row \<noteq> length types
     then Inl (InvalidArgument ''row arity mismatch: expected {} values, actual {}'')
     else if length rows \<ge> NODE_GROUP_CAPACITY
     then Inl (InvalidArgument ''node group is full at capacity {} rows'')
     else
       rbind (rmapM (\<lambda>(v, ty).
         if \<not> matches_type v ty
         then Inl (InvalidArgument ''column {} value {} does not match expected type {}'')
         else Inr ()) (zip row types)) (\<lambda>_. Inr (rows @ [row])))"

text \<open>\<open>NodeGroup::write\<close> refuses an empty group; the page layout is not part of this theory.\<close>

definition group_write :: "row list \<Rightarrow> row list devon_result" where
  "group_write rows =
    (if rows = [] then Inl (InvalidArgument ''cannot write an empty node group'') else Inr rows)"

definition write_group :: "logical_type list \<Rightarrow> row list \<Rightarrow> row list devon_result" where
  "write_group types rows =
    rbind (group_new types) (\<lambda>g. rbind (rfold (push_row types) rows g) group_write)"

definition validate_group_position :: "row list \<Rightarrow> nat \<Rightarrow> nat \<Rightarrow> unit devon_result" where
  "validate_group_position g index group_count =
    (if index + 1 < group_count \<and> length g < NODE_GROUP_CAPACITY
     then Inl (Corrupt ''node group {} is partial but is not the table's last group'')
     else Inr ())"

section \<open>Applying net effects to rows\<close>

datatype delete_compaction = Permitted | Forbidden

text \<open>
  \<open>MaterializationEffects\<close> keeps the integer and the string keys in separate maps and sets; here one
  map and one set are keyed by \<^typ>\<open>pk_key\<close>.
\<close>

definition take_tombstone :: "devon_value \<Rightarrow> node_dml_effects \<Rightarrow> (bool \<times> node_dml_effects) devon_result" where
  "take_tombstone v eff =
    (case pk_try_from v of
       Inl e \<Rightarrow> Inl (Corrupt ''node row primary key must be Int64 or String, found {}'')
     | Inr k \<Rightarrow> Inr (k \<in> eff_tombstones eff, eff\<lparr> eff_tombstones := eff_tombstones eff - {k} \<rparr>))"

definition take_update :: "devon_value \<Rightarrow> node_dml_effects \<Rightarrow> (row option \<times> node_dml_effects) devon_result" where
  "take_update v eff =
    (case pk_try_from v of
       Inl e \<Rightarrow> Inl (Corrupt ''node row primary key must be Int64 or String, found {}'')
     | Inr k \<Rightarrow> Inr (bt_get (eff_updates eff) k, eff\<lparr> eff_updates := bt_remove k (eff_updates eff) \<rparr>))"

definition buffered_insert :: "devon_value \<Rightarrow> pk_key set \<Rightarrow> (bool \<times> pk_key set) devon_result" where
  "buffered_insert v keys =
    (case pk_try_from v of
       Inl e \<Rightarrow> Inl (Corrupt ''node row primary key must be Int64 or String, found {}'')
     | Inr k \<Rightarrow> Inr (k \<notin> keys, insert k keys))"

definition buffered_contains :: "devon_value \<Rightarrow> pk_key set \<Rightarrow> bool" where
  "buffered_contains v keys = (case pk_try_from v of Inl e \<Rightarrow> False | Inr k \<Rightarrow> k \<in> keys)"

definition require_delete_compaction :: "delete_compaction \<Rightarrow> unit devon_result" where
  "require_delete_compaction dc =
    (if dc = Forbidden
     then Inl (InvalidArgument ''delete compaction was not affirmed'')
     else Inr ())"

fun apply_dml_loop ::
    "nat \<Rightarrow> pk_key set option \<Rightarrow> delete_compaction \<Rightarrow> row list
      \<Rightarrow> row list \<times> bool \<times> bool \<times> node_dml_effects
      \<Rightarrow> (row list \<times> bool \<times> bool \<times> node_dml_effects) devon_result" where
  "apply_dml_loop c shadowed dc [] st = Inr st"
| "apply_dml_loop c shadowed dc (row # rows) (output, changed, deleted, eff) =
    rbind (ok_or (Corrupt ''node row has no primary-key column at index {}'') (slice_get row c)) (\<lambda>key.
    if (case shadowed of None \<Rightarrow> False | Some keys \<Rightarrow> buffered_contains key keys)
    then rbind (require_delete_compaction dc) (\<lambda>_.
      apply_dml_loop c shadowed dc rows (output, True, True, eff))
    else
      rbind (take_tombstone key eff) (\<lambda>(gone, eff).
      if gone then apply_dml_loop c shadowed dc rows (output, True, True, eff)
      else
        rbind (take_update key eff) (\<lambda>(replacement, eff).
        case replacement of
          Some r \<Rightarrow> apply_dml_loop c shadowed dc rows (output @ [r], True, deleted, eff)
        | None \<Rightarrow> apply_dml_loop c shadowed dc rows (output @ [row], changed, deleted, eff))))"

definition apply_dml_effects ::
    "row list \<Rightarrow> nat \<Rightarrow> node_dml_effects \<Rightarrow> pk_key set option \<Rightarrow> delete_compaction
      \<Rightarrow> (row list \<times> bool \<times> bool \<times> node_dml_effects) devon_result" where
  "apply_dml_effects rows c eff shadowed dc = apply_dml_loop c shadowed dc rows ([], False, False, eff)"

fun normalize_loop :: "nat \<Rightarrow> row list \<Rightarrow> pk_key set \<Rightarrow> row list \<Rightarrow> (row list \<times> pk_key set) devon_result" where
  "normalize_loop c [] keys normalized = Inr (normalized, keys)"
| "normalize_loop c (row # rows) keys normalized =
    rbind (ok_or (Corrupt ''node row has no primary-key column at index {}'') (slice_get row c)) (\<lambda>key.
    rbind (buffered_insert key keys) (\<lambda>(fresh, keys).
    normalize_loop c rows keys (if fresh then normalized @ [row] else normalized)))"

definition normalize_buffered_rows :: "row list \<Rightarrow> nat \<Rightarrow> (row list \<times> pk_key set) devon_result" where
  "normalize_buffered_rows rows c =
    rbind (normalize_loop c (rev rows) {} []) (\<lambda>(normalized, keys). Inr (rev normalized, keys))"

section \<open>Writing groups\<close>

function write_full_groups ::
    "logical_type list \<Rightarrow> row list list \<Rightarrow> row list \<Rightarrow> (row list list \<times> row list) devon_result" where
  "write_full_groups types groups rows =
    (if length rows \<ge> NODE_GROUP_CAPACITY
     then rbind (write_group types (take NODE_GROUP_CAPACITY rows)) (\<lambda>g.
       write_full_groups types (groups @ [g]) (drop NODE_GROUP_CAPACITY rows))
     else Inr (groups, rows))"
  by pat_completeness auto
termination
  by (relation "measure (\<lambda>(types, groups, rows). length rows)") (auto simp: NODE_GROUP_CAPACITY_def)

declare write_full_groups.simps [simp del]

definition write_partial_group ::
    "logical_type list \<Rightarrow> row list list \<Rightarrow> row list \<Rightarrow> row list list devon_result" where
  "write_partial_group types groups rows =
    (if rows \<noteq> [] then rbind (write_group types rows) (\<lambda>g. Inr (groups @ [g])) else Inr groups)"

text \<open>
  \<open>fill_group\<close>: the group and the rows that are left, which is where the source's row index points.
\<close>

function fill_group ::
    "logical_type list \<Rightarrow> row list \<Rightarrow> row list \<Rightarrow> (row list \<times> row list) devon_result" where
  "fill_group types g rows =
    (if length g < NODE_GROUP_CAPACITY \<and> rows \<noteq> []
     then rbind (push_row types (hd rows) g) (\<lambda>g. fill_group types g (tl rows))
     else Inr (g, rows))"
  by pat_completeness auto
termination
  by (relation "measure (\<lambda>(types, g, rows). length rows)") auto

declare fill_group.simps [simp del]

definition rewrite_partial_tail ::
    "logical_type list \<Rightarrow> row list list \<Rightarrow> row list \<Rightarrow> (row list list \<times> row list) devon_result" where
  "rewrite_partial_tail types groups rows =
    (if groups = [] then Inr (groups, rows)
     else
       (let tail = last groups
        in if length tail \<ge> NODE_GROUP_CAPACITY then Inr (groups, rows)
           else
             rbind (group_new types) (\<lambda>g.
             rbind (rfold (push_row types) tail g) (\<lambda>g.
             rbind (fill_group types g rows) (\<lambda>(g, rows).
             rbind (group_write g) (\<lambda>g. Inr (butlast groups @ [g], rows)))))))"

lemma rfold_push_row:
  "rfold (push_row types) rows g = Inr g' \<Longrightarrow>
    g' = g @ rows \<and> (rows = [] \<or> length g' \<le> NODE_GROUP_CAPACITY)"
proof (induction rows arbitrary: g)
  case (Cons row rows)
  then obtain g1 where g1: "push_row types row g = Inr g1" "rfold (push_row types) rows g1 = Inr g'"
    by (auto simp: rbind_eq_Inr)
  then have "g1 = g @ [row]" "length g < NODE_GROUP_CAPACITY"
    by (auto simp: push_row_def rbind_eq_Inr split: if_splits)
  with Cons.IH [OF g1(2)] show ?case by auto
qed simp

lemma fill_group_eq:
  "fill_group types g rows = Inr (g', rest) \<Longrightarrow>
    g' @ rest = g @ rows \<and> (rest = [] \<or> length g' \<ge> NODE_GROUP_CAPACITY) \<and>
    (length g \<le> NODE_GROUP_CAPACITY \<longrightarrow> length g' \<le> NODE_GROUP_CAPACITY)"
proof (induction types g rows rule: fill_group.induct)
  case (1 types g rows)
  show ?case
  proof (cases "length g < NODE_GROUP_CAPACITY \<and> rows \<noteq> []")
    case True
    with "1.prems" obtain g1 where g1: "push_row types (hd rows) g = Inr g1"
      and rest: "fill_group types g1 (tl rows) = Inr (g', rest)"
      by (subst (asm) fill_group.simps) (auto simp: rbind_eq_Inr)
    from g1 have "g1 = g @ [hd rows]"
      by (auto simp: push_row_def rbind_eq_Inr split: if_splits)
    with "1.IH" [OF True g1 rest] True show ?thesis by (cases rows) auto
  next
    case False
    with "1.prems" show ?thesis by (subst (asm) fill_group.simps) auto
  qed
qed

lemma fill_group_progress:
  assumes "fill_group types [] rows = Inr (g, rest)" "rows \<noteq> []"
  shows "length rest < length rows" "g \<noteq> []"
proof -
  note fill = fill_group_eq [OF assms(1)]
  show "g \<noteq> []" using fill assms(2) by (auto simp: NODE_GROUP_CAPACITY_def)
  moreover have "length g + length rest = length rows"
    using fill by (metis append_Nil length_append)
  ultimately show "length rest < length rows" by (cases g) auto
qed

text \<open>The loop of \<open>materialize_rows\<close>: each round fills a group with at least one row.\<close>

function materialize_loop ::
    "logical_type list \<Rightarrow> row list list \<Rightarrow> row list \<Rightarrow> row list list devon_result" where
  "materialize_loop types groups rows =
    (if rows = [] then Inr groups
     else
       rbind (group_new types) (\<lambda>g0.
       rbind (fill_group types g0 rows) (\<lambda>(g, rest).
       rbind (group_write g) (\<lambda>written. materialize_loop types (groups @ [written]) rest))))"
  by pat_completeness auto
termination
proof (relation "measure (\<lambda>(types, groups, rows). length rows)", goal_cases)
  case (2 types groups rows g0 p g rest written)
  then have "g0 = []" by (auto simp: group_new_def split: if_splits)
  with 2 fill_group_progress(1) [of types rows g rest] show ?case by auto
qed simp

declare materialize_loop.simps [simp del]

definition materialize_rows ::
    "node_table_schema \<Rightarrow> row list list option \<Rightarrow> row list \<Rightarrow> row list list devon_result" where
  "materialize_rows sch persisted rows =
    (let types = schema_types sch;
         groups = (case persisted of None \<Rightarrow> [] | Some gs \<Rightarrow> gs)
     in rbind (rewrite_partial_tail types groups rows) (\<lambda>(groups, rows).
        materialize_loop types groups rows))"

text \<open>\<open>rewrite_persisted_groups\<close>: the groups, the rows gathered once a row is deleted, the effects.\<close>

fun rewrite_groups_loop ::
    "logical_type list \<Rightarrow> nat \<Rightarrow> pk_key set \<Rightarrow> delete_compaction \<Rightarrow> nat \<Rightarrow> (nat \<times> row list) list
      \<Rightarrow> row list list \<Rightarrow> row list option \<Rightarrow> node_dml_effects
      \<Rightarrow> (row list list \<times> row list option \<times> node_dml_effects) devon_result" where
  "rewrite_groups_loop types c keys dc group_count [] groups compacted eff = Inr (groups, compacted, eff)"
| "rewrite_groups_loop types c keys dc group_count ((index, g) # rest) groups compacted eff =
    rbind (validate_group_position g index group_count) (\<lambda>_.
    rbind (apply_dml_effects g c eff (Some keys) dc) (\<lambda>(rows, changed, deleted, eff).
    case compacted of
      Some pending \<Rightarrow>
        rbind (write_full_groups types groups (pending @ rows)) (\<lambda>(groups, pending).
        rewrite_groups_loop types c keys dc group_count rest groups (Some pending) eff)
    | None \<Rightarrow>
        if deleted
        then rewrite_groups_loop types c keys dc group_count rest groups (Some rows) eff
        else if changed
        then rbind (write_group types rows) (\<lambda>g.
          rewrite_groups_loop types c keys dc group_count rest (groups @ [g]) None eff)
        else rewrite_groups_loop types c keys dc group_count rest (groups @ [g]) None eff))"

definition rewrite_persisted_groups ::
    "logical_type list \<Rightarrow> row list list \<Rightarrow> nat \<Rightarrow> node_dml_effects \<Rightarrow> pk_key set \<Rightarrow> delete_compaction
      \<Rightarrow> (row list list \<times> row list option \<times> node_dml_effects) devon_result" where
  "rewrite_persisted_groups types persisted c eff keys dc =
    rewrite_groups_loop types c keys dc (length persisted) (enumerate 0 persisted) [] None eff"

definition materialize_rows_with_dml ::
    "node_table_schema \<Rightarrow> row list list option \<Rightarrow> row list \<Rightarrow> node_dml_effects \<Rightarrow> delete_compaction
      \<Rightarrow> (row list list \<times> node_dml_effects) devon_result" where
  "materialize_rows_with_dml sch persisted buffered_rows eff dc =
    (let types = schema_types sch
     in rbind (primary_key_column sch) (\<lambda>c.
        rbind (normalize_buffered_rows buffered_rows c) (\<lambda>(buffered_rows, buffered_keys).
        rbind (rewrite_persisted_groups types (case persisted of None \<Rightarrow> [] | Some gs \<Rightarrow> gs) c eff
                 buffered_keys dc) (\<lambda>(groups, compacted, eff).
        rbind (apply_dml_effects buffered_rows c eff None dc) (\<lambda>(buffered, _, _, eff).
        case compacted of
          Some rows \<Rightarrow>
            rbind (write_full_groups types groups (rows @ buffered)) (\<lambda>(groups, rows).
            rbind (write_partial_group types groups rows) (\<lambda>groups. Inr (groups, eff)))
        | None \<Rightarrow>
            if buffered = [] then Inr (groups, eff)
            else rbind (materialize_rows sch (Some groups) buffered) (\<lambda>groups. Inr (groups, eff)))))))"

section \<open>The checkpoint of a table\<close>

fun key_matches_value :: "pk_key \<Rightarrow> devon_value \<Rightarrow> bool" where
  "key_matches_value (PkInt64 l) (VInt64 r) = (l = r)"
| "key_matches_value (PkString l) (VString r) = (l = r)"
| "key_matches_value k v = False"

definition validate_dml_effects ::
    "node_table_schema \<Rightarrow> node_dml_effects \<Rightarrow> delete_compaction \<Rightarrow> unit devon_result" where
  "validate_dml_effects sch eff dc =
    (if eff_tombstones eff \<noteq> {} \<and> dc = Forbidden
     then Inl (InvalidArgument ''delete compaction for node table {} was not affirmed'')
     else if list_ex (\<lambda>(k, r). k \<in> eff_tombstones eff) (eff_updates eff)
     then Inl (Corrupt ''node table {} has a primary key with both update and delete effects'')
     else
       rbind (primary_key_column sch) (\<lambda>c.
       rbind (rmapM (\<lambda>(k, r).
         rbind (map_err (\<lambda>e. Corrupt ''checkpoint update for node table {} carries an invalid replacement row: {}'')
                  (validate_row sch r)) (\<lambda>_.
         if \<not> key_matches_value k (r ! c)
         then Inl (Corrupt ''checkpoint update key {} disagrees with its replacement row in node table {}'')
         else Inr ())) (eff_updates eff)) (\<lambda>_. Inr ())))"

definition ensure_effects_consumed :: "node_dml_effects \<Rightarrow> unit devon_result" where
  "ensure_effects_consumed eff =
    (if eff_updates eff \<noteq> []
     then Inl (Corrupt ''checkpoint update for node table {} targets primary key {} which exists nowhere in persisted or overlay rows'')
     else if eff_tombstones eff \<noteq> {}
     then Inl (Corrupt ''checkpoint delete for node table {} targets primary key {} which exists nowhere in persisted or overlay rows'')
     else Inr ())"

text \<open>
  \<open>checkpoint_with_dml\<close>. The catalog's entry for the table and its stored groups are arguments; the
  result is the storage the catalog holds afterwards.
\<close>

definition checkpoint_with_dml ::
    "node_table_schema \<Rightarrow> row list \<Rightarrow> node_table_schema option \<Rightarrow> row list list option
      \<Rightarrow> node_dml_effects \<Rightarrow> delete_compaction \<Rightarrow> row list list option devon_result" where
  "checkpoint_with_dml sch buffered_rows catalog_schema storage eff dc =
    (if buffered_rows = [] \<and> eff_updates eff = [] \<and> eff_tombstones eff = {} then Inr storage
     else
       rbind (ok_or (NotFound ''node table {}'') catalog_schema) (\<lambda>catalog_sch.
       if catalog_sch \<noteq> sch
       then Inl (InvalidArgument ''node table {} schema differs from the catalog'')
       else
         rbind (validate_dml_effects sch eff dc) (\<lambda>_.
         rbind (materialize_rows_with_dml sch storage buffered_rows eff dc) (\<lambda>(groups, eff).
         rbind (ensure_effects_consumed eff) (\<lambda>_. Inr (Some groups))))))"

text \<open>
  One round of \<open>materialize_nodes\<close> in \<^verbatim>\<open>devondb/src/database/checkpoint.rs\<close>: every insert of the
  chain is buffered again (\<open>recover_overlay_inserts\<close>, \<open>recover_row\<close>), then the table is checkpointed
  with the chain's net effects.
\<close>

definition recover_row :: "node_table_schema \<Rightarrow> row \<Rightarrow> row list \<Rightarrow> row list devon_result" where
  "recover_row sch row buffered = rbind (validate_row sch row) (\<lambda>_. Inr (buffered @ [row]))"

definition recover_overlay_inserts ::
    "commit_link option \<Rightarrow> node_table_schema \<Rightarrow> row list devon_result" where
  "recover_overlay_inserts head sch =
    rfold (\<lambda>link. rfold (recover_row sch) (bt_items (delta_nodes (link_delta link)) (node_name sch)))
      (commit_links_oldest_first head) []"

definition materialize_node_table ::
    "commit_link option \<Rightarrow> node_table_schema \<Rightarrow> row list list option \<Rightarrow> delete_compaction
      \<Rightarrow> row list list option devon_result" where
  "materialize_node_table head sch storage dc =
    rbind (recover_overlay_inserts head sch) (\<lambda>buffered.
    rbind (rbind (ok_or (Corrupt ''node table {} has no primary-key column'')
             (position scol_primary_key (node_columns sch)))
           (node_dml_effects head (node_name sch))) (\<lambda>eff.
    checkpoint_with_dml sch buffered (Some sch) storage eff dc))"

section \<open>Writing groups keeps rows and packing\<close>

definition packed :: "row list list \<Rightarrow> bool" where
  "packed groups \<longleftrightarrow>
    list_all (\<lambda>n. n = NODE_GROUP_CAPACITY) (butlast (map length groups)) \<and>
    (groups = [] \<or> 0 < last (map length groups) \<and> last (map length groups) \<le> NODE_GROUP_CAPACITY)"

abbreviation all_full :: "row list list \<Rightarrow> bool" where
  "all_full groups \<equiv> list_all (\<lambda>g. length g = NODE_GROUP_CAPACITY) groups"

lemma packed_snoc:
  "packed (groups @ [g]) \<longleftrightarrow> all_full groups \<and> g \<noteq> [] \<and> length g \<le> NODE_GROUP_CAPACITY"
  by (auto simp: packed_def list_all_iff)

lemma packed_full: "all_full groups \<Longrightarrow> packed groups"
  by (cases groups rule: rev_cases)
     (auto simp: packed_snoc packed_def [of "[]"] NODE_GROUP_CAPACITY_def)

lemma packed_lengths: "map length groups = map length groups' \<Longrightarrow> packed groups \<longleftrightarrow> packed groups'"
  by (auto simp: packed_def dest: map_eq_imp_length_eq)

lemma packed_before: "packed (groups @ g # rest) \<Longrightarrow> all_full groups"
proof (cases rest rule: rev_cases)
  case (snoc rest' g')
  moreover assume "packed (groups @ g # rest)"
  ultimately show ?thesis using packed_snoc [of "groups @ g # rest'" g'] by simp
qed (simp add: packed_snoc)

lemma packedE:
  assumes "packed groups"
  obtains "all_full groups"
  | full g where "groups = full @ [g]" "all_full full" "g \<noteq> []" "length g < NODE_GROUP_CAPACITY"
proof (cases groups rule: rev_cases)
  case (snoc full g)
  with assms have "all_full full" "g \<noteq> []" "length g \<le> NODE_GROUP_CAPACITY"
    by (simp_all add: packed_snoc)
  with snoc that show ?thesis by (cases "length g = NODE_GROUP_CAPACITY") auto
qed (use that(1) in simp)

lemma write_group_eq:
  assumes "write_group types rows = Inr g"
  shows "g = rows \<and> rows \<noteq> [] \<and> length rows \<le> NODE_GROUP_CAPACITY"
proof -
  from assms obtain g0 g1 where "group_new types = Inr g0" "rfold (push_row types) rows g0 = Inr g1"
    "group_write g1 = Inr g"
    by (auto simp: write_group_def rbind_eq_Inr)
  with rfold_push_row [of types rows g0 g1] show ?thesis
    by (auto simp: group_new_def group_write_def split: if_splits)
qed

lemma write_full_groups_eq:
  "write_full_groups types groups rows = Inr (groups', rest) \<Longrightarrow>
    concat groups' @ rest = concat groups @ rows \<and> length rest < NODE_GROUP_CAPACITY \<and>
    (all_full groups \<longrightarrow> all_full groups')"
proof (induction types groups rows rule: write_full_groups.induct)
  case (1 types groups rows)
  show ?case
  proof (cases "length rows \<ge> NODE_GROUP_CAPACITY")
    case True
    with "1.prems" obtain g where g: "write_group types (take NODE_GROUP_CAPACITY rows) = Inr g"
      and rest: "write_full_groups types (groups @ [g]) (drop NODE_GROUP_CAPACITY rows) =
        Inr (groups', rest)"
      by (subst (asm) write_full_groups.simps) (auto simp: rbind_eq_Inr)
    from "1.IH" [OF True g rest] write_group_eq [OF g] True show ?thesis by simp
  next
    case False
    with "1.prems" show ?thesis by (subst (asm) write_full_groups.simps) simp
  qed
qed

lemma write_partial_group_eq:
  assumes "write_partial_group types groups rows = Inr groups'"
  shows "concat groups' = concat groups @ rows" "all_full groups \<Longrightarrow> packed groups'"
  using assms
  by (auto simp: write_partial_group_def rbind_eq_Inr packed_full packed_snoc split: if_splits
      dest!: write_group_eq)

lemma materialize_loop_eq:
  "materialize_loop types groups rows = Inr groups' \<Longrightarrow> all_full groups \<or> rows = [] \<and> packed groups \<Longrightarrow>
    concat groups' = concat groups @ rows \<and> packed groups'"
proof (induction types groups rows rule: materialize_loop.induct)
  case (1 types groups rows)
  show ?case
  proof (cases "rows = []")
    case True
    with "1.prems" show ?thesis by (subst (asm) materialize_loop.simps) (auto intro: packed_full)
  next
    case False
    with "1.prems"(1) obtain g rest where g0: "group_new types = Inr []"
      and fill: "fill_group types [] rows = Inr (g, rest)" and wr: "group_write g = Inr g"
      and loop: "materialize_loop types (groups @ [g]) rest = Inr groups'"
      by (subst (asm) materialize_loop.simps)
        (auto simp: rbind_eq_Inr group_new_def group_write_def split: if_splits)
    note eq = fill_group_eq [OF fill]
    have "all_full groups" using "1.prems"(2) False by simp
    then have "all_full (groups @ [g]) \<or> rest = [] \<and> packed (groups @ [g])"
      using eq fill_group_progress(2) [OF fill False] by (auto simp: packed_snoc)
    with "1.IH" [OF False g0 fill refl wr loop] eq show ?thesis by simp
  qed
qed

lemma materialize_rows_eq:
  assumes "materialize_rows sch (Some groups) rows = Inr groups'" "packed groups"
  shows "concat groups' = concat groups @ rows \<and> packed groups'"
proof -
  let ?types = "schema_types sch"
  from assms(1) obtain groups1 rows1 where
    tail: "rewrite_partial_tail ?types groups rows = Inr (groups1, rows1)"
    and loop: "materialize_loop ?types groups1 rows1 = Inr groups'"
    by (auto simp: materialize_rows_def rbind_eq_Inr Let_def)
  from assms(2) show ?thesis
  proof (cases rule: packedE)
    case 1
    then have "groups = [] \<or> length (last groups) = NODE_GROUP_CAPACITY"
      by (cases groups rule: rev_cases) auto
    with tail have "groups1 = groups" "rows1 = rows"
      by (auto simp: rewrite_partial_tail_def Let_def split: if_splits)
    with materialize_loop_eq [OF loop] 1 show ?thesis by simp
  next
    case (2 full g)
    with tail obtain g' where fill: "fill_group ?types g rows = Inr (g', rows1)"
      and groups1: "groups1 = full @ [g']"
      by (auto simp: rewrite_partial_tail_def Let_def rbind_eq_Inr group_new_def group_write_def
          split: if_splits dest!: rfold_push_row)
    note eq = fill_group_eq [OF fill]
    have "g' \<noteq> []" using eq 2(3,4) by (auto simp: NODE_GROUP_CAPACITY_def)
    then have "all_full groups1 \<or> rows1 = [] \<and> packed groups1"
      using eq 2 by (auto simp: groups1 packed_snoc)
    with materialize_loop_eq [OF loop] eq show ?thesis by (simp add: 2(1) groups1)
  qed
qed

section \<open>What applying the effects does to a list of rows\<close>

abbreviation row_key :: "nat \<Rightarrow> row \<Rightarrow> pk_key option" where
  "row_key c r \<equiv> optional_row_pk r c"

definition lookup_row :: "nat \<Rightarrow> row list \<Rightarrow> pk_key \<Rightarrow> row option" where
  "lookup_row c rows k = find (\<lambda>r. row_key c r = Some k) rows"

definition keyed_rows :: "nat \<Rightarrow> row list \<Rightarrow> bool" where
  "keyed_rows c rows \<longleftrightarrow> distinct (map (row_key c) rows) \<and> list_all (\<lambda>r. row_key c r \<noteq> None) rows"

definition row_after :: "pk_key set \<Rightarrow> node_dml_effects \<Rightarrow> pk_key \<Rightarrow> row \<Rightarrow> row option" where
  "row_after shadowed eff k r =
    (if k \<in> shadowed \<or> k \<in> eff_tombstones eff then None
     else case bt_get (eff_updates eff) k of None \<Rightarrow> Some r | Some r' \<Rightarrow> Some r')"

definition rows_after :: "nat \<Rightarrow> pk_key set \<Rightarrow> node_dml_effects \<Rightarrow> row list \<Rightarrow> row list" where
  "rows_after c shadowed eff rows =
    concat (map (\<lambda>r. case row_key c r of None \<Rightarrow> []
      | Some k \<Rightarrow> (case row_after shadowed eff k r of None \<Rightarrow> [] | Some r' \<Rightarrow> [r'])) rows)"

definition keys_of :: "nat \<Rightarrow> row list \<Rightarrow> pk_key set" where
  "keys_of c rows = {k. \<exists>r \<in> set rows. row_key c r = Some k}"

text \<open>The effects that are left once those of some keys are taken.\<close>

definition effects_left :: "pk_key set \<Rightarrow> node_dml_effects \<Rightarrow> node_dml_effects \<Rightarrow> bool" where
  "effects_left taken eff eff' \<longleftrightarrow> effects_ok eff' \<and>
    eff_tombstones eff' = eff_tombstones eff - taken \<and>
    (\<forall>k. bt_get (eff_updates eff') k = (if k \<in> taken then None else bt_get (eff_updates eff) k))"

definition replacements_keyed :: "nat \<Rightarrow> node_dml_effects \<Rightarrow> bool" where
  "replacements_keyed c eff \<longleftrightarrow>
    (\<forall>k r. bt_get (eff_updates eff) k = Some r \<longrightarrow> row_key c r = Some k)"

lemma effects_left_refl: "effects_ok eff \<Longrightarrow> effects_left {} eff eff"
  by (simp add: effects_left_def)

lemma effects_left_trans:
  "effects_left s eff eff1 \<Longrightarrow> effects_left t eff1 eff2 \<Longrightarrow> effects_left (s \<union> t) eff eff2"
  by (auto simp: effects_left_def)

lemma row_after_left:
  "effects_left taken eff eff' \<Longrightarrow> k \<notin> taken \<Longrightarrow> row_after sh eff' k r = row_after sh eff k r"
  by (simp add: effects_left_def row_after_def)

lemma rows_after_left:
  assumes "effects_left taken eff eff'" "taken \<inter> keys_of c rows = {}"
  shows "rows_after c sh eff' rows = rows_after c sh eff rows"
proof -
  have "row_after sh eff' k r = row_after sh eff k r" if "r \<in> set rows" "row_key c r = Some k" for r k
    using that assms(2) by (intro row_after_left [OF assms(1)]) (auto simp: keys_of_def)
  then show ?thesis
    unfolding rows_after_def
    by (intro arg_cong [where f = concat] map_cong refl) (simp split: option.split)
qed

definition shadow_set :: "pk_key set option \<Rightarrow> pk_key set" where
  "shadow_set shadowed = (case shadowed of None \<Rightarrow> {} | Some keys \<Rightarrow> keys)"

lemma slice_get_key:
  "slice_get row c = Some v \<Longrightarrow> pk_try_from v = Inr k \<Longrightarrow> row_key c row = Some k"
  by (simp add: optional_row_pk_def)

text \<open>One row of the loop, and what it takes from the effects.\<close>

lemma apply_dml_row:
  assumes loop: "apply_dml_loop c shadowed dc (row # rows) (output, changed, deleted, eff) = Inr res"
    and eff: "effects_ok eff"
  shows "\<exists>k changed' deleted' eff'. row_key c row = Some k \<and>
    effects_left (if k \<in> shadow_set shadowed then {} else {k}) eff eff' \<and>
    apply_dml_loop c shadowed dc rows
      (output @ (case row_after (shadow_set shadowed) eff k row of None \<Rightarrow> [] | Some r \<Rightarrow> [r]),
       changed', deleted', eff') = Inr res \<and>
    (deleted' \<longleftrightarrow> deleted \<or> row_after (shadow_set shadowed) eff k row = None) \<and>
    (changed \<longrightarrow> changed') \<and> (changed' \<or> row_after (shadow_set shadowed) eff k row = Some row)"
proof -
  from loop obtain v where v: "slice_get row c = Some v"
    by (auto simp: rbind_eq_Inr ok_or_eq_Inr)
  have "\<exists>k. pk_try_from v = Inr k"
  proof (cases "pk_try_from v")
    case (Inl e)
    with loop v show ?thesis
      by (auto simp: rbind_eq_Inr take_tombstone_def buffered_contains_def split: option.splits)
  qed blast
  then obtain k where k: "pk_try_from v = Inr k" by blast
  have key: "row_key c row = Some k" by (rule slice_get_key [OF v k])
  have shadow: "(case shadowed of None \<Rightarrow> False | Some keys \<Rightarrow> buffered_contains v keys) \<longleftrightarrow>
      k \<in> shadow_set shadowed"
    by (simp add: shadow_set_def buffered_contains_def k split: option.split)
  note wf = eff [unfolded effects_ok_def, THEN conjunct1]
  consider "k \<in> shadow_set shadowed" | "k \<notin> shadow_set shadowed" "k \<in> eff_tombstones eff"
    | "k \<notin> shadow_set shadowed" "k \<notin> eff_tombstones eff" by blast
  then show ?thesis
  proof cases
    case 1
    with loop v shadow have "apply_dml_loop c shadowed dc rows (output, True, True, eff) = Inr res"
      by (simp add: rbind_eq_Inr)
    with 1 eff key show ?thesis
      by (auto simp: row_after_def intro!: exI [of _ True] exI [of _ eff] effects_left_refl)
  next
    case 2
    let ?eff = "eff\<lparr> eff_tombstones := eff_tombstones eff - {k} \<rparr>"
    from 2 loop v shadow k have "apply_dml_loop c shadowed dc rows (output, True, True, ?eff) = Inr res"
      by (simp add: take_tombstone_def)
    moreover have "effects_left {k} eff ?eff"
      using eff 2 by (auto simp: effects_left_def effects_ok_def)
    ultimately show ?thesis
      using 2 key by (auto simp: row_after_def intro!: exI [of _ True] exI [of _ ?eff])
  next
    case 3
    let ?eff = "eff\<lparr> eff_tombstones := eff_tombstones eff - {k},
        eff_updates := bt_remove k (eff_updates eff) \<rparr>"
    have left: "effects_left {k} eff ?eff"
      using eff 3 by (auto simp: effects_left_def effects_ok_def bt_wf_remove bt_get_remove)
    show ?thesis
    proof (cases "bt_get (eff_updates eff) k")
      case None
      with 3 loop v shadow k have
        "apply_dml_loop c shadowed dc rows (output @ [row], changed, deleted, ?eff) = Inr res"
        by (simp add: take_tombstone_def take_update_def)
      with None 3 key left show ?thesis
        by (auto simp: row_after_def intro!: exI [of _ changed] exI [of _ ?eff])
    next
      case (Some r)
      with 3 loop v shadow k have
        "apply_dml_loop c shadowed dc rows (output @ [r], True, deleted, ?eff) = Inr res"
        by (simp add: take_tombstone_def take_update_def)
      with Some 3 key left show ?thesis
        by (auto simp: row_after_def intro!: exI [of _ True] exI [of _ ?eff])
    qed
  qed
qed

lemma keys_of_Cons: "row_key c r = Some k \<Longrightarrow> keys_of c (r # rows) = insert k (keys_of c rows)"
  by (auto simp: keys_of_def)

lemma apply_dml_loop_eq:
  assumes "apply_dml_loop c shadowed dc rows (output, changed, deleted, eff) =
      Inr (output', changed', deleted', eff')"
    and "effects_ok eff" and "distinct (map (row_key c) rows)"
  shows "list_all (\<lambda>r. row_key c r \<noteq> None) rows \<and>
    output' = output @ rows_after c (shadow_set shadowed) eff rows \<and>
    effects_left (keys_of c rows - shadow_set shadowed) eff eff' \<and>
    (deleted' \<or> \<not> deleted \<and> length (rows_after c (shadow_set shadowed) eff rows) = length rows) \<and>
    (changed' \<or> \<not> changed \<and> rows_after c (shadow_set shadowed) eff rows = rows)"
  using assms
proof (induction rows arbitrary: "output" changed deleted eff)
  case Nil
  then show ?case by (simp add: rows_after_def keys_of_def effects_left_refl)
next
  case (Cons row rows)
  let ?sh = "shadow_set shadowed"
  from apply_dml_row [OF Cons.prems(1,2)] obtain k ch1 del1 eff1 where
    k: "row_key c row = Some k" and left: "effects_left (if k \<in> ?sh then {} else {k}) eff eff1"
    and loop: "apply_dml_loop c shadowed dc rows
      (output @ (case row_after ?sh eff k row of None \<Rightarrow> [] | Some r \<Rightarrow> [r]), ch1, del1, eff1) =
      Inr (output', changed', deleted', eff')"
    and del: "del1 \<longleftrightarrow> deleted \<or> row_after ?sh eff k row = None"
    and ch: "changed \<longrightarrow> ch1" "ch1 \<or> row_after ?sh eff k row = Some row"
    by blast
  have ok1: "effects_ok eff1" using left by (simp add: effects_left_def)
  have dist: "distinct (map (row_key c) rows)" "k \<notin> keys_of c rows"
    using Cons.prems(3) k by (auto simp: keys_of_def image_iff)
  have same: "rows_after c ?sh eff1 rows = rows_after c ?sh eff rows"
    using dist(2) by (intro rows_after_left [OF left]) auto
  have head: "rows_after c ?sh eff (row # rows) =
      (case row_after ?sh eff k row of None \<Rightarrow> [] | Some r \<Rightarrow> [r]) @ rows_after c ?sh eff rows"
    by (simp add: rows_after_def k)
  from Cons.IH [OF loop ok1 dist(1)] have
    IH: "list_all (\<lambda>r. row_key c r \<noteq> None) rows"
    "output' = (output @ (case row_after ?sh eff k row of None \<Rightarrow> [] | Some r \<Rightarrow> [r])) @ rows_after c ?sh eff rows"
    "effects_left (keys_of c rows - ?sh) eff1 eff'"
    "deleted' \<or> \<not> del1 \<and> length (rows_after c ?sh eff rows) = length rows"
    "changed' \<or> \<not> ch1 \<and> rows_after c ?sh eff rows = rows"
    by (simp_all add: same)
  have "effects_left ((if k \<in> ?sh then {} else {k}) \<union> (keys_of c rows - ?sh)) eff eff'"
    by (rule effects_left_trans [OF left IH(3)])
  moreover have "(if k \<in> ?sh then {} else {k}) \<union> (keys_of c rows - ?sh) = keys_of c (row # rows) - ?sh"
    by (auto simp: keys_of_Cons [OF k])
  ultimately show ?case
    using IH k del ch by (auto simp: head split: option.splits)
qed

lemma apply_dml_effects_eq:
  assumes "apply_dml_effects rows c eff shadowed dc = Inr (output, changed, deleted, eff')"
    and "effects_ok eff" and "distinct (map (row_key c) rows)"
  shows "list_all (\<lambda>r. row_key c r \<noteq> None) rows"
    and "output = rows_after c (shadow_set shadowed) eff rows"
    and "effects_left (keys_of c rows - shadow_set shadowed) eff eff'"
    and "\<not> deleted \<Longrightarrow> length output = length rows" and "\<not> changed \<Longrightarrow> output = rows"
  using apply_dml_loop_eq [OF assms(1) [unfolded apply_dml_effects_def] assms(2,3)] by auto

section \<open>Looking rows up\<close>

lemma lookup_row_append:
  "lookup_row c (xs @ ys) k = (case lookup_row c xs k of None \<Rightarrow> lookup_row c ys k | Some r \<Rightarrow> Some r)"
  by (induction xs) (simp_all add: lookup_row_def)

lemma lookup_row_None: "lookup_row c rows k = None \<longleftrightarrow> k \<notin> keys_of c rows"
  by (auto simp: lookup_row_def find_None_iff keys_of_def)

lemma row_after_key:
  assumes "replacements_keyed c eff" "row_key c r = Some k" "row_after sh eff k r = Some r'"
  shows "row_key c r' = Some k"
  using assms by (auto simp: row_after_def replacements_keyed_def split: if_splits option.splits)

lemma keys_of_rows_after:
  assumes "replacements_keyed c eff"
  shows "keys_of c (rows_after c sh eff rows) \<subseteq> keys_of c rows - sh - eff_tombstones eff"
proof
  fix k assume "k \<in> keys_of c (rows_after c sh eff rows)"
  then obtain r r' k' where "r \<in> set rows" and r: "row_key c r = Some k'" "row_after sh eff k' r = Some r'"
    and "row_key c r' = Some k"
    by (auto simp: keys_of_def rows_after_def split: option.splits) metis
  moreover from row_after_key [OF assms r] \<open>row_key c r' = Some k\<close> have "k' = k" by simp
  ultimately show "k \<in> keys_of c rows - sh - eff_tombstones eff"
    by (auto simp: keys_of_def row_after_def split: if_splits)
qed

lemma keyed_rows_after:
  assumes "replacements_keyed c eff" "keyed_rows c rows"
  shows "keyed_rows c (rows_after c sh eff rows)"
  using assms(2)
proof (induction rows)
  case Nil
  show ?case by (simp add: rows_after_def keyed_rows_def)
next
  case (Cons r rows)
  then obtain k where k: "row_key c r = Some k" by (auto simp: keyed_rows_def)
  have fresh: "k \<notin> keys_of c rows" "keyed_rows c rows"
    using Cons.prems k by (auto simp: keyed_rows_def keys_of_def image_iff)
  show ?case
  proof (cases "row_after sh eff k r")
    case None
    with Cons.IH [OF fresh(2)] k show ?thesis by (simp add: rows_after_def)
  next
    case (Some r')
    have "row_key c r' = Some k" by (rule row_after_key [OF assms(1) k Some])
    moreover have "k \<notin> keys_of c (rows_after c sh eff rows)"
      using keys_of_rows_after [OF assms(1), of sh rows] fresh(1) by blast
    moreover have "rows_after c sh eff (r # rows) = r' # rows_after c sh eff rows"
      by (simp add: rows_after_def k Some)
    ultimately show ?thesis
      using Cons.IH [OF fresh(2)] by (auto simp: keyed_rows_def keys_of_def image_iff)
  qed
qed

lemma lookup_rows_after:
  assumes "replacements_keyed c eff" "keyed_rows c rows"
  shows "lookup_row c (rows_after c sh eff rows) k =
    (case lookup_row c rows k of None \<Rightarrow> None | Some r \<Rightarrow> row_after sh eff k r)"
  using assms(2)
proof (induction rows)
  case Nil
  show ?case by (simp add: rows_after_def lookup_row_def)
next
  case (Cons r rows)
  then obtain k1 where k1: "row_key c r = Some k1" by (auto simp: keyed_rows_def)
  have fresh: "k1 \<notin> keys_of c rows" "keyed_rows c rows"
    using Cons.prems k1 by (auto simp: keyed_rows_def keys_of_def image_iff)
  have head: "rows_after c sh eff (r # rows) =
      (case row_after sh eff k1 r of None \<Rightarrow> [] | Some r' \<Rightarrow> [r']) @ rows_after c sh eff rows"
    by (simp add: rows_after_def k1)
  have first: "lookup_row c (case row_after sh eff k1 r of None \<Rightarrow> [] | Some r' \<Rightarrow> [r']) k =
      (if k = k1 then row_after sh eff k1 r else None)"
    using row_after_key [OF assms(1) k1] by (auto simp: lookup_row_def split: option.split)
  have "lookup_row c (rows_after c sh eff rows) k1 = None"
    using keys_of_rows_after [OF assms(1), of sh rows] fresh(1) by (auto simp: lookup_row_None)
  moreover have "lookup_row c (r # rows) k = (if k = k1 then Some r else lookup_row c rows k)"
    by (simp add: lookup_row_def k1)
  ultimately show ?case
    using Cons.IH [OF fresh(2)] by (auto simp: head lookup_row_append first split: option.split)
qed

lemma lookup_row_keyed:
  assumes "keyed_rows c rows"
  shows "lookup_row c rows k = Some r \<longleftrightarrow> r \<in> set rows \<and> row_key c r = Some k"
  using assms
proof (induction rows)
  case (Cons x rows)
  then have "keyed_rows c rows" "\<forall>r \<in> set rows. row_key c r \<noteq> row_key c x"
    by (auto simp: keyed_rows_def image_iff)
  with Cons.IH show ?case by (auto simp: lookup_row_def)
qed (simp add: lookup_row_def)

lemma keyed_rows_rev: "keyed_rows c (rev rows) = keyed_rows c rows"
  by (simp add: keyed_rows_def rev_map [symmetric])

lemma lookup_row_rev:
  assumes "keyed_rows c rows"
  shows "lookup_row c (rev rows) k = lookup_row c rows k"
proof -
  have "lookup_row c (rev rows) k = Some r \<longleftrightarrow> lookup_row c rows k = Some r" for r
    using assms by (simp add: lookup_row_keyed keyed_rows_rev)
  then show ?thesis by (metis option.exhaust)
qed

section \<open>The buffered rows\<close>

lemma normalize_loop_eq:
  "normalize_loop c rows keys normalized = Inr (normalized', keys') \<Longrightarrow>
    keys' = keys \<union> keys_of c rows \<and>
    (\<exists>new. normalized' = normalized @ new \<and> keyed_rows c new \<and> keys_of c new = keys_of c rows - keys \<and>
      (\<forall>k. k \<notin> keys \<longrightarrow> lookup_row c new k = lookup_row c rows k))"
proof (induction rows arbitrary: keys normalized)
  case Nil
  then show ?case by (auto simp: keys_of_def keyed_rows_def)
next
  case (Cons row rows)
  from Cons.prems obtain v where v0: "slice_get row c = Some v"
    by (auto simp: rbind_eq_Inr ok_or_eq_Inr)
  with Cons.prems obtain k where k0: "pk_try_from v = Inr k"
    by (cases "pk_try_from v") (auto simp: buffered_insert_def)
  with v0 Cons.prems have v: "slice_get row c = Some v" "pk_try_from v = Inr k"
    and loop: "normalize_loop c rows (insert k keys)
      (if k \<notin> keys then normalized @ [row] else normalized) = Inr (normalized', keys')"
    by (auto simp: buffered_insert_def)
  have k: "row_key c row = Some k" by (rule slice_get_key [OF v])
  from Cons.IH [OF loop] obtain new where
    keys': "keys' = insert k keys \<union> keys_of c rows"
    and norm: "normalized' = (if k \<notin> keys then normalized @ [row] else normalized) @ new"
    and new: "keyed_rows c new" "keys_of c new = keys_of c rows - insert k keys"
      "\<forall>k'. k' \<notin> insert k keys \<longrightarrow> lookup_row c new k' = lookup_row c rows k'"
    by blast
  have look: "lookup_row c (row # xs) k' = (if k' = k then Some row else lookup_row c xs k')" for xs k'
    by (simp add: lookup_row_def k)
  show ?case
  proof (cases "k \<in> keys")
    case True
    have "lookup_row c new k' = lookup_row c (row # rows) k'" if "k' \<notin> keys" for k'
      using that True new(3) by (auto simp: look)
    with True norm new keys' show ?thesis
      by (auto simp: keys_of_Cons [OF k] insert_absorb)
  next
    case False
    have "k \<notin> keys_of c new" using new(2) by simp
    then have "keyed_rows c (row # new)"
      using new(1) k by (auto simp: keyed_rows_def keys_of_def image_iff)
    moreover have "lookup_row c (row # new) k' = lookup_row c (row # rows) k'" if "k' \<notin> keys" for k'
      using that new(3) by (auto simp: look)
    ultimately show ?thesis
      using False norm new(2) keys'
      by (auto simp: keys_of_Cons [OF k] intro!: exI [of _ "row # new"])
  qed
qed

lemma normalize_buffered_rows_eq:
  assumes "normalize_buffered_rows rows c = Inr (normalized, keys)"
  shows "keys = keys_of c rows" "keyed_rows c normalized" "keys_of c normalized = keys"
    "lookup_row c normalized k = lookup_row c (rev rows) k"
proof -
  from assms obtain new where "normalize_loop c (rev rows) {} [] = Inr (new, keys)"
    and n: "normalized = rev new"
    by (auto simp: normalize_buffered_rows_def rbind_eq_Inr)
  from normalize_loop_eq [OF this(1)] have
    new: "keys = keys_of c (rev rows)" "keyed_rows c new" "keys_of c new = keys_of c (rev rows)"
      "lookup_row c new k = lookup_row c (rev rows) k" for k
    by auto
  have rev: "keys_of c (rev xs) = keys_of c xs" for xs by (simp add: keys_of_def)
  show "keys = keys_of c rows" "keyed_rows c normalized" "keys_of c normalized = keys"
    "lookup_row c normalized k = lookup_row c (rev rows) k"
    using new by (simp_all add: n rev keyed_rows_rev lookup_row_rev)
qed

section \<open>The persisted groups\<close>

lemma rows_after_append:
  "rows_after c sh eff (xs @ ys) = rows_after c sh eff xs @ rows_after c sh eff ys"
  by (simp add: rows_after_def)

lemma keys_of_append: "keys_of c (xs @ ys) = keys_of c xs \<union> keys_of c ys"
  by (auto simp: keys_of_def)

abbreviation pending_rows :: "row list option \<Rightarrow> row list" where
  "pending_rows compacted \<equiv> (case compacted of None \<Rightarrow> [] | Some rows \<Rightarrow> rows)"

lemma rewrite_groups_loop_eq:
  assumes "rewrite_groups_loop types c keys dc n igs groups compacted eff =
      Inr (groups', compacted', eff')"
    and "effects_ok eff" and "distinct (map (row_key c) (concat (map snd igs)))"
    and "case compacted of None \<Rightarrow> packed (groups @ map snd igs) | Some rows \<Rightarrow> all_full groups"
  shows "list_all (\<lambda>r. row_key c r \<noteq> None) (concat (map snd igs)) \<and>
    concat groups' @ pending_rows compacted' =
      concat groups @ pending_rows compacted @ rows_after c keys eff (concat (map snd igs)) \<and>
    effects_left (keys_of c (concat (map snd igs)) - keys) eff eff' \<and>
    (case compacted' of None \<Rightarrow> packed groups' | Some rows \<Rightarrow> all_full groups')"
  using assms
proof (induction igs arbitrary: groups compacted eff)
  case Nil
  then show ?case
    by (cases compacted') (auto simp: rows_after_def keys_of_def effects_left_refl)
next
  case (Cons ig igs)
  obtain i g where ig: "ig = (i, g)" by fastforce
  let ?rest = "concat (map snd igs)"
  from Cons.prems(1) obtain rows changed deleted eff1 where
    app: "apply_dml_effects g c eff (Some keys) dc = Inr (rows, changed, deleted, eff1)"
    by (auto simp: ig rbind_eq_Inr)
  have dist: "distinct (map (row_key c) g)" "distinct (map (row_key c) ?rest)"
    and img: "row_key c ` set g \<inter> row_key c ` set ?rest = {}"
    using Cons.prems(3) by (simp_all add: ig)
  have key: "k \<in> keys_of c xs \<longleftrightarrow> Some k \<in> row_key c ` set xs" for k xs
    by (force simp: keys_of_def image_iff)
  have sep: "keys_of c g \<inter> keys_of c ?rest = {}"
    using img by (simp only: disjoint_iff key) blast
  note app_eq = apply_dml_effects_eq [OF app Cons.prems(2) dist(1), unfolded shadow_set_def option.case]
  have ok1: "effects_ok eff1" using app_eq(3) by (simp add: effects_left_def)
  have same: "rows_after c keys eff1 ?rest = rows_after c keys eff ?rest"
    using sep by (intro rows_after_left [OF app_eq(3)]) auto
  have "\<exists>groups1 compacted1.
      rewrite_groups_loop types c keys dc n igs groups1 compacted1 eff1 = Inr (groups', compacted', eff') \<and>
      concat groups1 @ pending_rows compacted1 = concat groups @ pending_rows compacted @ rows \<and>
      (case compacted1 of None \<Rightarrow> packed (groups1 @ map snd igs) | Some rows \<Rightarrow> all_full groups1)"
  proof (cases compacted)
    case (Some pending)
    with Cons.prems(1) app obtain groups1 pending1 where
      wf: "write_full_groups types groups (pending @ rows) = Inr (groups1, pending1)"
      and loop: "rewrite_groups_loop types c keys dc n igs groups1 (Some pending1) eff1 =
        Inr (groups', compacted', eff')"
      by (auto simp: ig rbind_eq_Inr)
    from write_full_groups_eq [OF wf] Cons.prems(4) Some loop show ?thesis
      by (intro exI [of _ groups1] exI [of _ "Some pending1"]) simp
  next
    case None
    then have before: "all_full groups" and pk: "packed (groups @ g # map snd igs)"
      using Cons.prems(4) packed_before by (auto simp: ig)
    consider "deleted" | "\<not> deleted" "changed" | "\<not> deleted" "\<not> changed" by blast
    then show ?thesis
    proof cases
      case 1
      with None Cons.prems(1) app before show ?thesis
        by (intro exI [of _ groups] exI [of _ "Some rows"]) (auto simp: ig rbind_eq_Inr)
    next
      case 2
      with None Cons.prems(1) app obtain g1 where "write_group types rows = Inr g1"
        and loop: "rewrite_groups_loop types c keys dc n igs (groups @ [g1]) None eff1 =
          Inr (groups', compacted', eff')"
        by (auto simp: ig rbind_eq_Inr)
      then have "g1 = rows" by (auto dest: write_group_eq)
      moreover have "packed ((groups @ [rows]) @ map snd igs)"
        using pk app_eq(4) [OF 2(1)] by (subst packed_lengths [of _ "groups @ g # map snd igs"]) simp_all
      ultimately show ?thesis using loop None by (intro exI [of _ "groups @ [rows]"] exI [of _ None]) simp
    next
      case 3
      with None Cons.prems(1) app pk app_eq(5) show ?thesis
        by (intro exI [of _ "groups @ [g]"] exI [of _ None]) (auto simp: ig rbind_eq_Inr)
    qed
  qed
  then obtain groups1 compacted1 where
    loop: "rewrite_groups_loop types c keys dc n igs groups1 compacted1 eff1 = Inr (groups', compacted', eff')"
    and cat: "concat groups1 @ pending_rows compacted1 = concat groups @ pending_rows compacted @ rows"
    and pk: "case compacted1 of None \<Rightarrow> packed (groups1 @ map snd igs) | Some rows \<Rightarrow> all_full groups1"
    by blast
  from Cons.IH [OF loop ok1 dist(2) pk] have
    IH: "list_all (\<lambda>r. row_key c r \<noteq> None) ?rest"
    "concat groups' @ pending_rows compacted' =
      (concat groups1 @ pending_rows compacted1) @ rows_after c keys eff ?rest"
    "effects_left (keys_of c ?rest - keys) eff1 eff'"
    "case compacted' of None \<Rightarrow> packed groups' | Some rows \<Rightarrow> all_full groups'"
    by (simp_all add: same)
  have "effects_left ((keys_of c g - keys) \<union> (keys_of c ?rest - keys)) eff eff'"
    by (rule effects_left_trans [OF app_eq(3) IH(3)])
  then have left: "effects_left (keys_of c (concat (map snd (ig # igs))) - keys) eff eff'"
    by (simp add: ig keys_of_append Un_Diff)
  show ?case
    using IH(1,4) left app_eq(1,2)
    by (simp add: ig rows_after_append IH(2) cat)
qed

section \<open>The chain, as its inserts and its net effects\<close>

definition chain_inserts :: "string \<Rightarrow> commit_link option \<Rightarrow> row list" where
  "chain_inserts table head =
    concat (map (\<lambda>link. bt_items (delta_nodes (link_delta link)) table) (commit_links_oldest_first head))"

text \<open>The history a list of inserts and the net effects stand for, on checkpointed contents.\<close>

definition history_lookup ::
    "nat \<Rightarrow> (pk_key \<rightharpoonup> row) \<Rightarrow> row list \<Rightarrow> node_dml_effects \<Rightarrow> pk_key \<Rightarrow> row option" where
  "history_lookup c base ins eff k =
    (if k \<in> eff_tombstones eff then None
     else case bt_get (eff_updates eff) k of
       Some r \<Rightarrow> Some r
     | None \<Rightarrow> (case lookup_row c (rev ins) k of Some r \<Rightarrow> Some r | None \<Rightarrow> base k))"

definition history_rep ::
    "nat \<Rightarrow> (pk_key \<rightharpoonup> row) \<Rightarrow> row list \<Rightarrow> node_dml_effects \<Rightarrow> (pk_key \<rightharpoonup> row) \<Rightarrow> bool" where
  "history_rep c base ins eff m \<longleftrightarrow>
    effects_ok eff \<and> replacements_keyed c eff \<and> m = history_lookup c base ins eff"

lemma history_rep_update:
  assumes "history_rep c base ins eff m" "effects_update c row eff = Inr eff'"
  shows "history_rep c base ins eff' (spec_put c row m)"
proof -
  from assms(2) obtain k where k: "row_key c row = Some k"
    and eff': "eff' = \<lparr> eff_updates = bt_insert k row (eff_updates eff),
      eff_tombstones = eff_tombstones eff - {k} \<rparr>"
    by (auto simp: effects_update_def rbind_eq_Inr row_pk_iff)
  from assms(1) have wf: "bt_wf (eff_updates eff)"
    by (simp add: history_rep_def effects_ok_def)
  from assms(1) show ?thesis
    by (auto simp: history_rep_def effects_ok_def replacements_keyed_def eff' k spec_put_def fun_eq_iff
        history_lookup_def bt_wf_insert bt_get_insert [OF wf] split: if_splits)
qed

lemma history_rep_delete:
  assumes "history_rep c base ins eff m" "effects_delete v eff = Inr eff'"
  shows "history_rep c base ins eff' (spec_delete v m)"
proof -
  from assms(2) obtain k where k: "pk_try_from v = Inr k"
    and eff': "eff' = \<lparr> eff_updates = bt_remove k (eff_updates eff),
      eff_tombstones = insert k (eff_tombstones eff) \<rparr>"
    by (auto simp: effects_delete_def rbind_eq_Inr)
  from assms(1) have wf: "bt_wf (eff_updates eff)"
    by (simp add: history_rep_def effects_ok_def)
  from assms(1) show ?thesis
    by (auto simp: history_rep_def effects_ok_def replacements_keyed_def eff' k spec_delete_def fun_eq_iff
        history_lookup_def bt_wf_remove bt_get_remove [OF wf] split: if_splits)
qed

lemma history_rep_insert:
  assumes "history_rep c base ins eff m" "effects_insert c row eff = Inr eff'"
  shows "history_rep c base (ins @ [row]) eff' (spec_put c row m)"
proof -
  from assms(2) obtain k where k: "row_key c row = Some k"
    and eff': "eff' = \<lparr> eff_updates = bt_remove k (eff_updates eff),
      eff_tombstones = eff_tombstones eff - {k} \<rparr>"
    by (auto simp: effects_insert_def rbind_eq_Inr row_pk_iff)
  from assms(1) have wf: "bt_wf (eff_updates eff)"
    by (simp add: history_rep_def effects_ok_def)
  have look: "lookup_row c (row # xs) k' = (if k' = k then Some row else lookup_row c xs k')" for xs k'
    by (simp add: lookup_row_def k)
  from assms(1) show ?thesis
    by (auto simp: history_rep_def effects_ok_def replacements_keyed_def eff' k spec_put_def fun_eq_iff
        history_lookup_def look bt_wf_remove bt_get_remove [OF wf] split: if_splits option.split)
qed

lemma history_rep_link:
  assumes "history_rep c base ins eff m" "effects_of_link table c d eff = Inr eff'"
  shows "history_rep c base (ins @ bt_items (delta_nodes d) table) eff' (spec_delta table c d m)"
proof -
  from assms(2) obtain eff1 eff2 where
    upd: "rfold (effects_update c) (bt_items (delta_node_updates d) table) eff = Inr eff1"
    and del: "rfold effects_delete (bt_items (delta_node_deletes d) table) eff1 = Inr eff2"
    and ins: "rfold (effects_insert c) (bt_items (delta_nodes d) table) eff2 = Inr eff'"
    by (auto simp: effects_of_link_def rbind_eq_Inr)
  have keep: "fold (\<lambda>x xs. xs) rows ins = ins" for rows :: "'a list" by (induction rows) simp_all
  have snoc: "fold (\<lambda>r xs. xs @ [r]) rows ins = ins @ rows" for rows
    by (induction rows arbitrary: ins) simp_all
  from rep_rfold [where R = "history_rep c base" and g = "\<lambda>x xs. xs" and h = "spec_put c",
      OF history_rep_update assms(1) upd]
  have 1: "history_rep c base ins eff1 (fold (spec_put c) (bt_items (delta_node_updates d) table) m)"
    by (simp add: keep)
  from rep_rfold [where R = "history_rep c base" and g = "\<lambda>x xs. xs" and h = spec_delete,
      OF history_rep_delete 1 del]
  have 2: "history_rep c base ins eff2 (fold spec_delete (bt_items (delta_node_deletes d) table)
      (fold (spec_put c) (bt_items (delta_node_updates d) table) m))"
    by (simp add: keep)
  from rep_rfold [where R = "history_rep c base" and g = "\<lambda>r xs. xs @ [r]" and h = "spec_put c",
      OF history_rep_insert 2 ins]
  show ?thesis by (simp add: snoc spec_delta_def)
qed

lemma history_rep_start: "history_rep c base [] no_effects base"
  by (auto simp: history_rep_def effects_ok_def replacements_keyed_def no_effects_def
      history_lookup_def lookup_row_def fun_eq_iff)

lemma history_rep_chain:
  assumes "node_dml_effects head table c = Inr eff"
  shows "history_rep c base (chain_inserts table head) eff (spec_chain table c head base)"
proof -
  have cat: "fold (\<lambda>link xs. xs @ f link) links ins = ins @ concat (map f links)"
    for f :: "commit_link \<Rightarrow> row list" and links ins
    by (induction links arbitrary: ins) simp_all
  from rep_rfold [where R = "history_rep c base"
      and g = "\<lambda>link xs. xs @ bt_items (delta_nodes (link_delta link)) table",
      OF history_rep_link history_rep_start assms [unfolded node_dml_effects_def]]
  show ?thesis by (simp add: cat spec_chain_def chain_inserts_def)
qed

lemma recover_overlay_inserts_eq:
  assumes "recover_overlay_inserts head sch = Inr buffered"
  shows "buffered = chain_inserts (node_name sch) head"
proof -
  have rows: "buf' = buf @ rows" if "rfold (recover_row sch) rows buf = Inr buf'" for rows buf buf'
    using that
    by (induction rows arbitrary: buf) (fastforce simp: rbind_eq_Inr recover_row_def)+
  have "buf' = buf @ concat (map f links)"
    if "rfold (\<lambda>link. rfold (recover_row sch) (f link)) links buf = Inr buf'"
    for f :: "commit_link \<Rightarrow> row list" and links buf buf'
    using that by (induction links arbitrary: buf) (fastforce simp: rbind_eq_Inr dest: rows)+
  from this [OF assms [unfolded recover_overlay_inserts_def]] show ?thesis
    by (simp add: chain_inserts_def)
qed

section \<open>The checkpointed table\<close>

lemma lookup_materialized:
  assumes eff: "effects_ok eff" "replacements_keyed c eff"
    and p: "keyed_rows c persisted" and n: "keyed_rows c buffered"
    and bufs: "lookup_row c buffered k = lookup_row c (rev ins) k"
    and left: "effects_left (keys_of c persisted \<union> keys_of c buffered) eff
      \<lparr> eff_updates = [], eff_tombstones = {} \<rparr>"
  shows "lookup_row c (rows_after c (keys_of c buffered) eff persisted @ rows_after c {} eff buffered) k =
    history_lookup c (lookup_row c persisted) ins eff k"
proof (cases "k \<in> keys_of c buffered")
  case True
  then obtain r where r: "lookup_row c buffered k = Some r"
    using lookup_row_None [of c buffered k] by auto
  with True bufs show ?thesis
    by (auto simp: lookup_row_append lookup_rows_after [OF eff(2)] p n history_lookup_def row_after_def
        split: option.split)
next
  case False
  then have none: "lookup_row c buffered k = None" by (simp add: lookup_row_None)
  have gone: "bt_get (eff_updates eff) k = None \<and> k \<notin> eff_tombstones eff"
    if "lookup_row c persisted k = None"
    using left that False by (auto simp: effects_left_def lookup_row_None split: if_splits)
  from none bufs gone show ?thesis
    by (auto simp: lookup_row_append lookup_rows_after [OF eff(2)] p n False history_lookup_def
        row_after_def split: option.split)
qed

lemma keyed_rows_append:
  "keyed_rows c (xs @ ys) \<longleftrightarrow> keyed_rows c xs \<and> keyed_rows c ys \<and> keys_of c xs \<inter> keys_of c ys = {}"
proof -
  have "row_key c ` set xs \<inter> row_key c ` set ys = {} \<longleftrightarrow> keys_of c xs \<inter> keys_of c ys = {}"
    if "list_all (\<lambda>r. row_key c r \<noteq> None) ys"
  proof -
    have key: "k \<in> keys_of c zs \<longleftrightarrow> Some k \<in> row_key c ` set zs" for k zs
      by (force simp: keys_of_def image_iff)
    have "None \<notin> row_key c ` set ys" using that by (force simp: list_all_iff image_iff)
    moreover have "(\<forall>x. x \<in> A \<longrightarrow> x \<notin> B) \<longleftrightarrow> (\<forall>k. Some k \<in> A \<longrightarrow> Some k \<notin> B)"
      if "None \<notin> B" for A B :: "pk_key option set"
      using that by (metis not_None_eq)
    ultimately show ?thesis unfolding disjoint_iff key by blast
  qed
  then show ?thesis unfolding keyed_rows_def by (simp add: conj_ac) blast
qed

lemma materialize_rows_with_dml_eq:
  assumes mat: "materialize_rows_with_dml sch storage ins eff dc = Inr (groups', eff')"
    and c: "primary_key_column sch = Inr c"
    and eff: "effects_ok eff" "replacements_keyed c eff"
    and base: "base = concat (case storage of None \<Rightarrow> [] | Some gs \<Rightarrow> gs)"
    and keyed: "keyed_rows c base"
    and pk: "packed (case storage of None \<Rightarrow> [] | Some gs \<Rightarrow> gs)"
    and used: "ensure_effects_consumed eff' = Inr ()"
  shows "lookup_row c (concat groups') = history_lookup c (lookup_row c base) ins eff \<and>
    keyed_rows c (concat groups') \<and> packed groups'"
proof -
  let ?gs = "case storage of None \<Rightarrow> [] | Some gs \<Rightarrow> gs"
  let ?types = "schema_types sch"
  from mat c obtain buffered keys groups compacted eff1 rows ch del eff2 where
    norm: "normalize_buffered_rows ins c = Inr (buffered, keys)"
    and rew: "rewrite_persisted_groups ?types ?gs c eff keys dc = Inr (groups, compacted, eff1)"
    and app: "apply_dml_effects buffered c eff1 None dc = Inr (rows, ch, del, eff2)"
    and fin: "(case compacted of
      Some rs \<Rightarrow> rbind (write_full_groups ?types groups (rs @ rows)) (\<lambda>(groups, rows).
        rbind (write_partial_group ?types groups rows) (\<lambda>groups. Inr (groups, eff2)))
    | None \<Rightarrow> if rows = [] then Inr (groups, eff2)
        else rbind (materialize_rows sch (Some groups) rows) (\<lambda>groups. Inr (groups, eff2))) =
      Inr (groups', eff')"
    by (auto simp: materialize_rows_with_dml_def rbind_eq_Inr Let_def)
  note norm_eq = normalize_buffered_rows_eq [OF norm]
  have cat: "concat (map snd (enumerate 0 ?gs)) = base" by (simp add: base)
  from rewrite_groups_loop_eq [OF rew [unfolded rewrite_persisted_groups_def] eff(1)] keyed pk
  have groups: "concat groups @ pending_rows compacted = rows_after c keys eff base"
    and left1: "effects_left (keys_of c base - keys) eff eff1"
    and pk1: "case compacted of None \<Rightarrow> packed groups | Some rs \<Rightarrow> all_full groups"
    unfolding cat by (auto simp: keyed_rows_def)
  have ok1: "effects_ok eff1" using left1 by (simp add: effects_left_def)
  have dist: "distinct (map (row_key c) buffered)" using norm_eq(2) by (simp add: keyed_rows_def)
  note app_eq = apply_dml_effects_eq [OF app ok1 dist, unfolded shadow_set_def option.case]
  have rows: "rows = rows_after c {} eff buffered"
    using rows_after_left [OF left1, of c buffered] norm_eq(3) app_eq(2) by auto
  have final: "concat groups' = (concat groups @ pending_rows compacted) @ rows \<and> packed groups' \<and> eff2 = eff'"
  proof (cases compacted)
    case None
    with fin pk1 show ?thesis
      by (auto simp: rbind_eq_Inr split: if_splits dest: materialize_rows_eq)
  next
    case (Some rs)
    with fin obtain gs rest where wf: "write_full_groups ?types groups (rs @ rows) = Inr (gs, rest)"
      and wp: "write_partial_group ?types gs rest = Inr groups'" and "eff2 = eff'"
      by (auto simp: rbind_eq_Inr)
    from write_full_groups_eq [OF wf] write_partial_group_eq [OF wp] Some pk1 \<open>eff2 = eff'\<close>
    show ?thesis by simp
  qed
  have empty: "eff_updates eff' = []" "eff_tombstones eff' = {}"
    using used by (auto simp: ensure_effects_consumed_def split: if_splits)
  have "effects_left ((keys_of c base - keys) \<union> keys_of c buffered) eff eff'"
    using effects_left_trans [OF left1 app_eq(3)] final by simp
  moreover have "(keys_of c base - keys) \<union> keys_of c buffered = keys_of c base \<union> keys_of c buffered"
    using norm_eq(3) by auto
  ultimately have left: "effects_left (keys_of c base \<union> keys_of c buffered) eff
      \<lparr> eff_updates = [], eff_tombstones = {} \<rparr>"
    using empty by (simp add: effects_left_def effects_ok_def)
  have sep: "keys_of c (rows_after c keys eff base) \<inter> keys_of c (rows_after c {} eff buffered) = {}"
    using keys_of_rows_after [OF eff(2), of keys base] keys_of_rows_after [OF eff(2), of "{}" buffered]
      norm_eq(3) by blast
  show ?thesis
    using final lookup_materialized [OF eff keyed norm_eq(2,4) left] norm_eq(3) sep
      keyed_rows_after [OF eff(2) keyed] keyed_rows_after [OF eff(2) norm_eq(2)]
    by (simp add: groups rows keyed_rows_append fun_eq_iff)
qed

abbreviation stored_groups :: "row list list option \<Rightarrow> row list list" where
  "stored_groups storage \<equiv> (case storage of None \<Rightarrow> [] | Some gs \<Rightarrow> gs)"

text \<open>
  C12. A checkpoint of a node table keeps the committed contents: when the stored groups hold rows
  with distinct well-formed primary keys and are packed (every group but the last is full), a
  checkpoint that succeeds leaves stored groups in which every primary key has exactly the row that
  applying the chain's commits one after another to the stored contents gives it, with distinct
  keys and packed groups again.
\<close>

theorem checkpoint_materializes_history:
  assumes "materialize_node_table head sch storage dc = Inr storage'"
    and "primary_key_column sch = Inr c"
    and "keyed_rows c (concat (stored_groups storage))"
    and "packed (stored_groups storage)"
  shows "lookup_row c (concat (stored_groups storage')) =
      spec_chain (node_name sch) c head (lookup_row c (concat (stored_groups storage))) \<and>
    keyed_rows c (concat (stored_groups storage')) \<and> packed (stored_groups storage')"
proof -
  let ?base = "concat (case storage of None \<Rightarrow> [] | Some gs \<Rightarrow> gs)"
  from assms(1,2) obtain ins eff where
    ins: "recover_overlay_inserts head sch = Inr ins"
    and eff: "node_dml_effects head (node_name sch) c = Inr eff"
    and ck: "checkpoint_with_dml sch ins (Some sch) storage eff dc = Inr storage'"
    by (auto simp: materialize_node_table_def rbind_eq_Inr primary_key_column_def ok_or_eq_Inr)
  from history_rep_chain [OF eff, of "lookup_row c ?base"] have
    ok: "effects_ok eff" "replacements_keyed c eff"
    and spec: "spec_chain (node_name sch) c head (lookup_row c ?base) =
      history_lookup c (lookup_row c ?base) ins eff"
    using recover_overlay_inserts_eq [OF ins] by (simp_all add: history_rep_def)
  show ?thesis
  proof (cases "ins = [] \<and> eff_updates eff = [] \<and> eff_tombstones eff = {}")
    case True
    with ck have "storage' = storage" by (simp add: checkpoint_with_dml_def)
    moreover have "history_lookup c (lookup_row c ?base) ins eff = lookup_row c ?base"
      using True by (simp add: history_lookup_def lookup_row_def fun_eq_iff)
    ultimately show ?thesis using assms(3,4) by (simp add: spec)
  next
    case False
    with ck obtain groups' eff' where
      mat: "materialize_rows_with_dml sch storage ins eff dc = Inr (groups', eff')"
      and used: "ensure_effects_consumed eff' = Inr ()" and st: "storage' = Some groups'"
      by (auto simp: checkpoint_with_dml_def rbind_eq_Inr split: if_splits)
    from materialize_rows_with_dml_eq [OF mat assms(2) ok refl assms(3,4) used] show ?thesis
      by (simp add: st spec)
  qed
qed

definition sample_node_schema :: node_table_schema where
  "sample_node_schema =
    \<lparr> node_name = ''T'', node_columns =
      [\<lparr> scol_name = ''id'', scol_ty = TInt64, scol_primary_key = True \<rparr>,
       \<lparr> scol_name = ''tag'', scol_ty = TString, scol_primary_key = False \<rparr>] \<rparr>"

lemma sample_materialized:
  "materialize_node_table sample_chain sample_node_schema
    (Some [[[VInt64 3, VString ''z''], [VInt64 4, VString ''y'']]]) Permitted =
    Inr (Some [[[VInt64 4, VString ''y''], [VInt64 2, VString ''c'']]])"
  by code_simp

theorem checkpoint_materializes_history_witness:
  "lookup_row 0 [[VInt64 4, VString ''y''], [VInt64 2, VString ''c'']] =
    spec_chain ''T'' 0 sample_chain (lookup_row 0 [[VInt64 3, VString ''z''], [VInt64 4, VString ''y'']])"
proof -
  have "primary_key_column sample_node_schema = Inr 0" by code_simp
  moreover have "keyed_rows 0 [[VInt64 3, VString ''z''], [VInt64 4, VString ''y'']]" by code_simp
  moreover have "packed [[[VInt64 3, VString ''z''], [VInt64 4, VString ''y'']]]"
    by (simp add: packed_def NODE_GROUP_CAPACITY_def)
  ultimately show ?thesis
    using checkpoint_materializes_history [OF sample_materialized, of 0]
    by (simp add: sample_node_schema_def)
qed

end
