(* ===== verification/PkIndex.thy ===== *)
theory PkIndex
  imports NodeTable Budget
begin

text \<open>
  The primary-key index of a checkpointed node table (\<^verbatim>\<open>devondb-storage/src/overlay.rs\<close>,
  \<open>PkResolutionIndex\<close> and \<open>TablePkCache\<close>): built on first use within the memory budget, with the
  decoded group last read kept beside it. Node groups are read from a store, the rows a directory
  page leads to. Whether a container can grow by one entry (\<open>try_reserve\<close>) and the size of a decoded
  group in memory are arguments.
\<close>

section \<open>The index\<close>

definition PK_INDEX_BASE_BYTES :: nat where "PK_INDEX_BASE_BYTES = 128"
definition PK_INDEX_INT_ENTRY_BYTES :: nat where "PK_INDEX_INT_ENTRY_BYTES = 48"
definition PK_INDEX_STRING_ENTRY_BYTES :: nat where "PK_INDEX_STRING_ENTRY_BYTES = 64"
definition PK_INDEX_GROUP_BYTES :: nat where "PK_INDEX_GROUP_BYTES = 32"

definition u64_try_from :: "nat \<Rightarrow> u64 option" where
  "u64_try_from n = (if n < 2 ^ 64 then Some (of_nat n) else None)"

record group_location =
  gl_page_id :: u64
  gl_start_offset :: u64
  gl_row_count :: u64

definition row_index :: "group_location \<Rightarrow> u64 \<Rightarrow> nat devon_result" where
  "row_index loc offset =
    (if offset < gl_start_offset loc
     then Inl (Corrupt ''indexed node offset precedes its containing group'')
     else
       (let row = offset - gl_start_offset loc
        in if row \<ge> gl_row_count loc
           then Inl (Corrupt ''indexed node offset exceeds its containing group'')
           else Inr (unat row)))"

record pk_resolution_index =
  pi_integer_offsets :: "i64 \<rightharpoonup> u64"
  pi_string_offsets :: "string \<rightharpoonup> u64"
  pi_groups :: "group_location list"
  pi_charged_bytes :: nat

definition pk_index_new :: pk_resolution_index where
  "pk_index_new = \<lparr> pi_integer_offsets = Map.empty, pi_string_offsets = Map.empty,
    pi_groups = [], pi_charged_bytes = 0 \<rparr>"

fun index_offset :: "pk_resolution_index \<Rightarrow> devon_value \<Rightarrow> u64 option" where
  "index_offset idx (VInt64 key) = pi_integer_offsets idx key"
| "index_offset idx (VString key) = pi_string_offsets idx key"
| "index_offset idx _ = None"

text \<open>\<open>slice::partition_point\<close> on a slice whose matching elements come first.\<close>

definition partition_point :: "('a \<Rightarrow> bool) \<Rightarrow> 'a list \<Rightarrow> nat" where
  "partition_point P xs = length (takeWhile P xs)"

definition index_locate ::
    "pk_resolution_index \<Rightarrow> devon_value \<Rightarrow> (u64 \<times> group_location) option devon_result" where
  "index_locate idx key =
    (case index_offset idx key of
       None \<Rightarrow> Inr None
     | Some offset \<Rightarrow>
         (let point = partition_point (\<lambda>loc. gl_start_offset loc \<le> offset) (pi_groups idx)
          in rbind (ok_or (Corrupt ''indexed node offset has no containing group'')
               (if point = 0 then None else slice_get (pi_groups idx) (point - 1))) (\<lambda>loc.
             rbind (row_index loc offset) (\<lambda>_. Inr (Some (offset, loc))))))"

type_synonym reclaimer = "(nat \<Rightarrow> memory_budget \<Rightarrow> memory_budget) option"

definition grow_charge ::
    "reclaimer \<Rightarrow> nat \<Rightarrow> pk_resolution_index \<times> memory_budget
      \<Rightarrow> bool \<times> pk_resolution_index \<times> memory_budget" where
  "grow_charge reclaim bytes = (\<lambda>(idx, budget).
    case (if pi_charged_bytes idx = 0 then checked_add_usize PK_INDEX_BASE_BYTES bytes else Some bytes) of
      None \<Rightarrow> (False, idx, budget)
    | Some requested \<Rightarrow>
        (case checked_add_usize (pi_charged_bytes idx) requested of
           None \<Rightarrow> (False, idx, budget)
         | Some charged \<Rightarrow>
             (case charge_or_reclaim reclaim budget requested of
                (False, budget) \<Rightarrow> (False, idx, budget)
              | (True, budget) \<Rightarrow> (True, idx\<lparr> pi_charged_bytes := charged \<rparr>, budget))))"

definition push_group ::
    "reclaimer \<Rightarrow> (pk_resolution_index \<Rightarrow> bool) \<Rightarrow> group_location \<Rightarrow> pk_resolution_index \<times> memory_budget
      \<Rightarrow> bool \<times> pk_resolution_index \<times> memory_budget" where
  "push_group reclaim reserve loc st =
    (case grow_charge reclaim PK_INDEX_GROUP_BYTES st of
       (False, st) \<Rightarrow> (False, st)
     | (True, idx, budget) \<Rightarrow>
         if \<not> reserve idx then (False, idx, budget)
         else (True, idx\<lparr> pi_groups := pi_groups idx @ [loc] \<rparr>, budget))"

definition insert_integer ::
    "reclaimer \<Rightarrow> (pk_resolution_index \<Rightarrow> bool) \<Rightarrow> i64 \<Rightarrow> u64 \<Rightarrow> pk_resolution_index \<times> memory_budget
      \<Rightarrow> bool \<times> pk_resolution_index \<times> memory_budget" where
  "insert_integer reclaim reserve key offset st =
    (if pi_integer_offsets (fst st) key \<noteq> None then (True, st)
     else
       (case grow_charge reclaim PK_INDEX_INT_ENTRY_BYTES st of
          (False, st) \<Rightarrow> (False, st)
        | (True, idx, budget) \<Rightarrow>
            if \<not> reserve idx then (False, idx, budget)
            else (True, idx\<lparr> pi_integer_offsets := (pi_integer_offsets idx)(key \<mapsto> offset) \<rparr>, budget)))"

definition insert_string ::
    "reclaimer \<Rightarrow> (pk_resolution_index \<Rightarrow> bool) \<Rightarrow> string \<Rightarrow> u64 \<Rightarrow> pk_resolution_index \<times> memory_budget
      \<Rightarrow> bool \<times> pk_resolution_index \<times> memory_budget" where
  "insert_string reclaim reserve key offset st =
    (if pi_string_offsets (fst st) key \<noteq> None then (True, st)
     else
       (case checked_add_usize PK_INDEX_STRING_ENTRY_BYTES (length key) of
          None \<Rightarrow> (False, st)
        | Some bytes \<Rightarrow>
            (case grow_charge reclaim bytes st of
               (False, st) \<Rightarrow> (False, st)
             | (True, idx, budget) \<Rightarrow>
                 if \<not> reserve idx then (False, idx, budget)
                 else (True, idx\<lparr> pi_string_offsets := (pi_string_offsets idx)(key \<mapsto> offset) \<rparr>, budget))))"

fun index_insert ::
    "reclaimer \<Rightarrow> (pk_resolution_index \<Rightarrow> bool) \<Rightarrow> devon_value \<Rightarrow> u64 \<Rightarrow> pk_resolution_index \<times> memory_budget
      \<Rightarrow> bool \<times> pk_resolution_index \<times> memory_budget" where
  "index_insert reclaim reserve (VInt64 key) offset st = insert_integer reclaim reserve key offset st"
| "index_insert reclaim reserve (VString key) offset st = insert_string reclaim reserve key offset st"
| "index_insert reclaim reserve Null offset st = (True, st)"
| "index_insert reclaim reserve _ offset st = (False, st)"

fun index_group_keys ::
    "reclaimer \<Rightarrow> (pk_resolution_index \<Rightarrow> bool) \<Rightarrow> u64 \<Rightarrow> nat \<Rightarrow> devon_value list
      \<Rightarrow> pk_resolution_index \<times> memory_budget
      \<Rightarrow> bool devon_result \<times> pk_resolution_index \<times> memory_budget" where
  "index_group_keys reclaim reserve start_offset row [] st = (Inr True, st)"
| "index_group_keys reclaim reserve start_offset row (key # keys) st =
    (case u64_try_from row of
       None \<Rightarrow> (Inl (Corrupt ''node-group row index exceeds u64::MAX''), st)
     | Some row_offset \<Rightarrow>
         (case checked_add_word start_offset row_offset of
            None \<Rightarrow> (Inl (Corrupt ''checkpointed node offset exceeds u64::MAX''), st)
          | Some offset \<Rightarrow>
              (case index_insert reclaim reserve key offset st of
                 (False, st) \<Rightarrow> (Inr False, st)
               | (True, st) \<Rightarrow> index_group_keys reclaim reserve start_offset (Suc row) keys st)))"

text \<open>\<open>Drop\<close> releases what the index has charged.\<close>

definition index_drop :: "pk_resolution_index \<times> memory_budget \<Rightarrow> memory_budget" where
  "index_drop = (\<lambda>(idx, budget). release budget (pi_charged_bytes idx))"

type_synonym group_store = "u64 \<Rightarrow> row list devon_result"

fun build_loop ::
    "reclaimer \<Rightarrow> (pk_resolution_index \<Rightarrow> bool) \<Rightarrow> group_store \<Rightarrow> nat \<Rightarrow> u64 list \<Rightarrow> u64
      \<Rightarrow> pk_resolution_index \<times> memory_budget
      \<Rightarrow> pk_resolution_index option devon_result \<times> memory_budget" where
  "build_loop reclaim reserve store c [] start_offset st = (Inr (Some (fst st)), snd st)"
| "build_loop reclaim reserve store c (group_id # group_ids) start_offset st =
    (case store group_id of
       Inl e \<Rightarrow> (Inl e, index_drop st)
     | Inr rows \<Rightarrow>
         (case u64_try_from (length rows) of
            None \<Rightarrow> (Inl (Corrupt ''node-group row count exceeds u64::MAX''), index_drop st)
          | Some row_count \<Rightarrow>
              (case push_group reclaim reserve \<lparr> gl_page_id = group_id, gl_start_offset = start_offset,
                       gl_row_count = row_count \<rparr> st of
                 (False, st) \<Rightarrow> (Inr None, index_drop st)
               | (True, st) \<Rightarrow>
                   (case index_group_keys reclaim reserve start_offset 0 (map (\<lambda>row. row ! c) rows) st of
                      (Inl e, st) \<Rightarrow> (Inl e, index_drop st)
                    | (Inr False, st) \<Rightarrow> (Inr None, index_drop st)
                    | (Inr True, st) \<Rightarrow>
                        (case checked_add_word start_offset row_count of
                           None \<Rightarrow> (Inl (Corrupt ''checkpointed node offset exceeds u64::MAX''), index_drop st)
                         | Some start_offset \<Rightarrow>
                             build_loop reclaim reserve store c group_ids start_offset st)))))"

definition build_pk_index ::
    "reclaimer \<Rightarrow> (pk_resolution_index \<Rightarrow> bool) \<Rightarrow> group_store \<Rightarrow> node_table_schema \<Rightarrow> u64 list
      \<Rightarrow> memory_budget \<Rightarrow> pk_resolution_index option devon_result \<times> memory_budget" where
  "build_pk_index reclaim reserve store sch group_ids budget =
    (case position scol_primary_key (node_columns sch) of
       None \<Rightarrow> (Inl (Corrupt ''node table {} has no primary key''), budget)
     | Some c \<Rightarrow> build_loop reclaim reserve store c group_ids 0 (pk_index_new, budget))"

section \<open>The cache of a table\<close>

datatype pk_index_state = is_Unbuilt: Unbuilt | Ready pk_resolution_index | Refused

lemma is_Unbuilt_iff [simp]: "is_Unbuilt st \<longleftrightarrow> st = Unbuilt"
  by (cases st) simp_all

datatype 'a pk_index_result = Indexed "'a option" | Unavailable

record cached_node_group =
  cg_page_id :: u64
  cg_rows :: "row list"
  cg_charged_bytes :: nat

record table_pk_cache =
  pc_index :: pk_index_state
  pc_decoded_group :: "cached_node_group option"

definition cache_default :: table_pk_cache where
  "cache_default = \<lparr> pc_index = Unbuilt, pc_decoded_group = None \<rparr>"

fun is_budget_exceeded :: "devon_error \<Rightarrow> bool" where
  "is_budget_exceeded (BudgetExceeded ctx) = True"
| "is_budget_exceeded _ = False"

definition ensure_pk_index ::
    "reclaimer \<Rightarrow> (pk_resolution_index \<Rightarrow> bool) \<Rightarrow> group_store \<Rightarrow> node_table_schema \<Rightarrow> u64 list
      \<Rightarrow> table_pk_cache \<times> memory_budget \<Rightarrow> unit devon_result \<times> table_pk_cache \<times> memory_budget" where
  "ensure_pk_index reclaim reserve store sch group_ids = (\<lambda>(cache, budget).
    if \<not> is_Unbuilt (pc_index cache) then (Inr (), cache, budget)
    else
      (case build_pk_index reclaim reserve store sch group_ids budget of
         (Inr (Some idx), budget) \<Rightarrow> (Inr (), cache\<lparr> pc_index := Ready idx \<rparr>, budget)
       | (Inr None, budget) \<Rightarrow> (Inr (), cache\<lparr> pc_index := Refused \<rparr>, budget)
       | (Inl e, budget) \<Rightarrow>
           if is_budget_exceeded e then (Inr (), cache\<lparr> pc_index := Refused \<rparr>, budget)
           else (Inl e, cache, budget)))"

definition lookup_offset ::
    "reclaimer \<Rightarrow> (pk_resolution_index \<Rightarrow> bool) \<Rightarrow> group_store \<Rightarrow> node_table_schema \<Rightarrow> u64 list
      \<Rightarrow> devon_value \<Rightarrow> table_pk_cache \<times> memory_budget
      \<Rightarrow> u64 pk_index_result devon_result \<times> table_pk_cache \<times> memory_budget" where
  "lookup_offset reclaim reserve store sch group_ids key st =
    (case ensure_pk_index reclaim reserve store sch group_ids st of
       (Inl e, st) \<Rightarrow> (Inl e, st)
     | (Inr _, cache, budget) \<Rightarrow>
         (case pc_index cache of
            Ready idx \<Rightarrow> (Inr (Indexed (index_offset idx key)), cache, budget)
          | Refused \<Rightarrow> (Inr Unavailable, cache, budget)
          | Unbuilt \<Rightarrow> (Inl (Corrupt ''PK index build left its state unbuilt''), cache, budget)))"

definition node_group_row :: "row list \<Rightarrow> nat \<Rightarrow> row devon_result" where
  "node_group_row rows row =
    ok_or (Corrupt ''node group is missing an indexed row value'') (slice_get rows row)"

definition drop_decoded_group :: "table_pk_cache \<times> memory_budget \<Rightarrow> table_pk_cache \<times> memory_budget" where
  "drop_decoded_group = (\<lambda>(cache, budget).
    (cache\<lparr> pc_decoded_group := None \<rparr>,
     case pc_decoded_group cache of None \<Rightarrow> budget | Some g \<Rightarrow> release budget (cg_charged_bytes g)))"

definition cache_decoded_group ::
    "reclaimer \<Rightarrow> (row list \<Rightarrow> nat option) \<Rightarrow> u64 \<Rightarrow> row list \<Rightarrow> table_pk_cache \<times> memory_budget
      \<Rightarrow> table_pk_cache \<times> memory_budget" where
  "cache_decoded_group reclaim group_bytes page_id rows = (\<lambda>(cache, budget).
    case group_bytes rows of
      None \<Rightarrow> (cache, budget)
    | Some charged \<Rightarrow>
        (case charge_or_reclaim reclaim budget charged of
           (False, budget) \<Rightarrow> (cache, budget)
         | (True, budget) \<Rightarrow>
             (cache\<lparr> pc_decoded_group := Some \<lparr> cg_page_id = page_id, cg_rows = rows,
                cg_charged_bytes = charged \<rparr> \<rparr>, budget)))"

definition cached_rows :: "table_pk_cache \<Rightarrow> u64 \<Rightarrow> row list option" where
  "cached_rows cache page_id =
    (case pc_decoded_group cache of
       None \<Rightarrow> None
     | Some g \<Rightarrow> if cg_page_id g = page_id then Some (cg_rows g) else None)"

definition read_row ::
    "reclaimer \<Rightarrow> (row list \<Rightarrow> nat option) \<Rightarrow> group_store \<Rightarrow> u64 \<Rightarrow> group_location
      \<Rightarrow> table_pk_cache \<times> memory_budget \<Rightarrow> row devon_result \<times> table_pk_cache \<times> memory_budget" where
  "read_row reclaim group_bytes store offset loc st =
    (case row_index loc offset of
       Inl e \<Rightarrow> (Inl e, st)
     | Inr row \<Rightarrow>
         (case cached_rows (fst st) (gl_page_id loc) of
            Some rows \<Rightarrow> (node_group_row rows row, st)
          | None \<Rightarrow>
              (let st = drop_decoded_group st
               in case store (gl_page_id loc) of
                    Inl e \<Rightarrow> (Inl e, st)
                  | Inr rows \<Rightarrow>
                      (case node_group_row rows row of
                         Inl e \<Rightarrow> (Inl e, st)
                       | Inr result \<Rightarrow>
                           (Inr result, cache_decoded_group reclaim group_bytes (gl_page_id loc) rows st)))))"

definition cache_lookup_row ::
    "reclaimer \<Rightarrow> (pk_resolution_index \<Rightarrow> bool) \<Rightarrow> (row list \<Rightarrow> nat option) \<Rightarrow> group_store
      \<Rightarrow> node_table_schema \<Rightarrow> u64 list \<Rightarrow> devon_value \<Rightarrow> table_pk_cache \<times> memory_budget
      \<Rightarrow> row pk_index_result devon_result \<times> table_pk_cache \<times> memory_budget" where
  "cache_lookup_row reclaim reserve group_bytes store sch group_ids key st =
    (case ensure_pk_index reclaim reserve store sch group_ids st of
       (Inl e, st) \<Rightarrow> (Inl e, st)
     | (Inr _, cache, budget) \<Rightarrow>
         (case pc_index cache of
            Ready idx \<Rightarrow>
              (case index_locate idx key of
                 Inl e \<Rightarrow> (Inl e, cache, budget)
               | Inr None \<Rightarrow> (Inr (Indexed None), cache, budget)
               | Inr (Some (offset, loc)) \<Rightarrow>
                   (case read_row reclaim group_bytes store offset loc (cache, budget) of
                      (Inl e, st) \<Rightarrow> (Inl e, st)
                    | (Inr row, st) \<Rightarrow> (Inr (Indexed (Some row)), st)))
          | Refused \<Rightarrow> (Inr Unavailable, cache, budget)
          | Unbuilt \<Rightarrow> (Inl (Corrupt ''PK index build left its state unbuilt''), cache, budget)))"

section \<open>The scan\<close>

text \<open>\<open>scan_checkpointed_node_key\<close> in \<^verbatim>\<open>devondb/src/database/view.rs\<close>, the fallback without an index.\<close>

fun scan_loop :: "group_store \<Rightarrow> nat \<Rightarrow> devon_value \<Rightarrow> u64 list \<Rightarrow> u64 \<Rightarrow> u64 option devon_result" where
  "scan_loop store c key [] group_start = Inr None"
| "scan_loop store c key (group_id # group_ids) group_start =
    rbind (store group_id) (\<lambda>rows.
    case position (\<lambda>row. slice_get row c = Some key) rows of
      Some row \<Rightarrow>
        rbind (ok_or (Corrupt ''node-group row index exceeds u64::MAX'') (u64_try_from row)) (\<lambda>row.
        rbind (ok_or (Corrupt ''checkpointed node offset exceeds u64::MAX'')
          (checked_add_word group_start row)) (\<lambda>offset. Inr (Some offset)))
    | None \<Rightarrow>
        rbind (ok_or (Corrupt ''node-group row count cannot be represented as u64'')
          (u64_try_from (length rows))) (\<lambda>n.
        rbind (ok_or (Corrupt ''checkpointed node offset exceeds u64::MAX'')
          (checked_add_word group_start n)) (\<lambda>group_start.
        scan_loop store c key group_ids group_start)))"

definition scan_checkpointed_node_key ::
    "group_store \<Rightarrow> nat \<Rightarrow> devon_value \<Rightarrow> u64 list \<Rightarrow> u64 option devon_result" where
  "scan_checkpointed_node_key store c key group_ids = scan_loop store c key group_ids 0"

section \<open>What the index holds\<close>

text \<open>The positions an index records: of each key, the first row that carries it.\<close>

definition is_key :: "devon_value \<Rightarrow> bool" where
  "is_key v \<longleftrightarrow> is_ok (pk_try_from v)"

lemma is_key_cases: "is_key v \<longleftrightarrow> (\<exists>n. v = VInt64 n) \<or> (\<exists>s. v = VString s)"
  by (cases v) (simp_all add: is_key_def)

definition first_offset :: "nat \<Rightarrow> devon_value list \<Rightarrow> devon_value \<Rightarrow> u64 option" where
  "first_offset start keys k = map_option (\<lambda>i. of_nat (start + i)) (position (\<lambda>v. v = k) keys)"

lemma position_append:
  "position P (xs @ ys) =
    (case position P xs of Some i \<Rightarrow> Some i | None \<Rightarrow> map_option (\<lambda>i. length xs + i) (position P ys))"
proof (induction xs)
  case Nil
  show ?case by (cases "position P ys") simp_all
next
  case (Cons x xs)
  then show ?case by (cases "position P ys") (auto split: option.split)
qed

lemma position_map: "position P (map f xs) = position (\<lambda>x. P (f x)) xs"
  by (induction xs) simp_all

lemma first_offset_append:
  "first_offset start (xs @ ys) k =
    (case first_offset start xs k of Some off \<Rightarrow> Some off | None \<Rightarrow> first_offset (start + length xs) ys k)"
  by (auto simp: first_offset_def position_append option.map_comp comp_def add.assoc split: option.split)

lemma grow_charge_fields:
  assumes "grow_charge reclaim bytes (idx, budget) = (ok, idx', budget')"
  shows "pi_integer_offsets idx' = pi_integer_offsets idx \<and> pi_string_offsets idx' = pi_string_offsets idx \<and>
    pi_groups idx' = pi_groups idx"
  using assms by (auto simp: grow_charge_def split: option.splits prod.splits bool.splits if_splits)

lemma index_insert_offset:
  assumes "index_insert reclaim reserve v off (idx, budget) = (True, idx', budget')" and "is_key k"
  shows "index_offset idx' k =
    (case index_offset idx k of Some o' \<Rightarrow> Some o' | None \<Rightarrow> if k = v then Some off else None)"
    and "pi_groups idx' = pi_groups idx"
proof -
  have "index_offset idx' k =
    (case index_offset idx k of Some o' \<Rightarrow> Some o' | None \<Rightarrow> if k = v then Some off else None) \<and>
    pi_groups idx' = pi_groups idx"
  proof (cases v)
    case (VInt64 n)
    with assms show ?thesis
      by (auto simp: insert_integer_def is_key_cases dest!: grow_charge_fields
          split: if_splits prod.splits bool.splits option.splits)
  next
    case (VString n)
    with assms show ?thesis
      by (auto simp: insert_string_def is_key_cases dest!: grow_charge_fields
          split: if_splits prod.splits bool.splits option.splits)
  next
    case Null
    with assms show ?thesis by (auto simp: is_key_cases split: option.split)
  qed (use assms in auto)
  then show "index_offset idx' k =
      (case index_offset idx k of Some o' \<Rightarrow> Some o' | None \<Rightarrow> if k = v then Some off else None)"
    "pi_groups idx' = pi_groups idx" by simp_all
qed

lemma checked_add_of_nat:
  assumes "checked_add_word (of_nat a) w = Some v" "a < 2 ^ 64"
  shows "(v :: u64) = of_nat (a + unat w)" "a + unat w < 2 ^ 64"
  using assms by (auto simp: checked_add_word_def unat_of_nat take_bit_nat_eq_self_iff split: if_splits)

lemma index_group_keys_offsets:
  assumes "index_group_keys reclaim reserve (of_nat start) row keys st = (Inr True, st')"
    and "start < 2 ^ 64" and "is_key k"
  shows "index_offset (fst st') k =
      (case index_offset (fst st) k of Some off \<Rightarrow> Some off | None \<Rightarrow> first_offset (start + row) keys k)
    \<and> pi_groups (fst st') = pi_groups (fst st)"
  using assms(1)
proof (induction keys arbitrary: row st)
  case Nil
  then show ?case by (simp add: first_offset_def split: option.split)
next
  case (Cons v keys)
  obtain idx budget where st: "st = (idx, budget)" by fastforce
  from Cons.prems obtain off st1 where row: "row < 2 ^ 64"
    and off: "checked_add_word (of_nat start) (of_nat row) = Some off"
    and ins: "index_insert reclaim reserve v off (idx, budget) = (True, st1)"
    and rest: "index_group_keys reclaim reserve (of_nat start) (Suc row) keys st1 = (Inr True, st')"
    by (auto simp: u64_try_from_def st split: if_splits option.splits prod.splits bool.splits)
  have off_eq: "off = of_nat (start + row)"
    using checked_add_of_nat(1) [OF off assms(2)] row by (simp add: unat_of_nat take_bit_nat_eq_self_iff)
  obtain idx1 budget1 where st1: "st1 = (idx1, budget1)" by fastforce
  note ins1 = index_insert_offset [OF ins [unfolded st1] assms(3)]
  have "first_offset (start + row) (v # keys) k =
      (if v = k then Some (of_nat (start + row)) else first_offset (start + Suc row) keys k)"
    by (cases "position (\<lambda>v. v = k) keys") (simp_all add: first_offset_def add.assoc)
  with Cons.IH [OF rest] ins1 show ?case
    by (auto simp: st st1 off_eq split: option.splits)
qed

fun locations :: "u64 list \<Rightarrow> row list list \<Rightarrow> nat \<Rightarrow> group_location list" where
  "locations (gid # gids) (rows # gs) start =
    \<lparr> gl_page_id = gid, gl_start_offset = of_nat start, gl_row_count = of_nat (length rows) \<rparr> #
      locations gids gs (start + length rows)"
| "locations _ _ start = []"

abbreviation key_column_of :: "nat \<Rightarrow> row list list \<Rightarrow> devon_value list" where
  "key_column_of c gs \<equiv> map (\<lambda>row. row ! c) (concat gs)"

lemma build_loop_offsets:
  assumes "build_loop reclaim reserve store c gids (of_nat start) st = (Inr (Some idx'), budget')"
    and "list_all2 (\<lambda>gid rows. store gid = Inr rows) gids gs" and "start < 2 ^ 64"
  shows "start + length (concat gs) < 2 ^ 64 \<and>
    pi_groups idx' = pi_groups (fst st) @ locations gids gs start \<and>
    (\<forall>k. is_key k \<longrightarrow> index_offset idx' k =
      (case index_offset (fst st) k of Some off \<Rightarrow> Some off
       | None \<Rightarrow> first_offset start (key_column_of c gs) k))"
  using assms(2,1,3)
proof (induction arbitrary: start st rule: list_all2_induct)
  case Nil
  then show ?case by (auto simp: first_offset_def split: option.split)
next
  case (Cons gid gids rows gs)
  let ?loc = "\<lparr> gl_page_id = gid, gl_start_offset = of_nat start, gl_row_count = of_nat (length rows) \<rparr>"
  from Cons.prems(1) Cons.hyps(1) obtain st1 st2 start2 where n: "length rows < 2 ^ 64"
    and push: "push_group reclaim reserve ?loc st = (True, st1)"
    and keys: "index_group_keys reclaim reserve (of_nat start) 0 (map (\<lambda>row. row ! c) rows) st1 =
      (Inr True, st2)"
    and start2: "checked_add_word (of_nat start) (of_nat (length rows)) = Some start2"
    and rest: "build_loop reclaim reserve store c gids start2 st2 = (Inr (Some idx'), budget')"
    by (auto simp: u64_try_from_def split: if_splits option.splits prod.splits bool.splits sum.splits)
  from push have groups1: "pi_groups (fst st1) = pi_groups (fst st) @ [?loc]"
    by (cases st) (auto simp: push_group_def dest!: grow_charge_fields
        split: prod.splits bool.splits if_splits)
  from push have same: "index_offset (fst st1) k = index_offset (fst st) k" for k
    by (cases st; cases k) (auto simp: push_group_def dest!: grow_charge_fields
        split: prod.splits bool.splits if_splits)
  have next_start: "start2 = of_nat (start + length rows)" "start + length rows < 2 ^ 64"
    using checked_add_of_nat [OF start2 Cons.prems(2)] n
    by (simp_all add: unat_of_nat take_bit_nat_eq_self_iff)
  note IH = Cons.IH [OF rest [unfolded next_start(1)] next_start(2)]
  have "index_offset idx' k = (case index_offset (fst st) k of Some off \<Rightarrow> Some off
      | None \<Rightarrow> first_offset start (key_column_of c (rows # gs)) k)" if "is_key k" for k
    using IH index_group_keys_offsets [OF keys Cons.prems(2) that] that
    by (auto simp: same first_offset_append split: option.splits)
  moreover have "pi_groups (fst st2) = pi_groups (fst st1)"
    using index_group_keys_offsets [OF keys Cons.prems(2), of "VInt64 0"] by (simp add: is_key_cases)
  ultimately show ?case using IH by (simp add: groups1 add.assoc)
qed

lemma of_nat_u64_le: "a < 2 ^ 64 \<Longrightarrow> b < 2 ^ 64 \<Longrightarrow> (of_nat a :: u64) \<le> of_nat b \<longleftrightarrow> a \<le> b"
  by (simp add: word_le_nat_alt unat_of_nat take_bit_nat_eq_self_iff)

lemma locations_hd:
  assumes "locations gids gs start = loc # rest"
  shows "gl_start_offset loc = of_nat start"
  using assms by (cases "(gids, gs, start)" rule: locations.cases) auto

text \<open>The last group that starts at or before an offset is the one that contains it.\<close>

lemma locations_contain:
  assumes "list_all2 (\<lambda>gid rows. store gid = Inr rows) gids gs"
    and "start + length (concat gs) < 2 ^ 64" "start \<le> n" "n < start + length (concat gs)"
  shows "\<exists>i loc rows. partition_point (\<lambda>l. gl_start_offset l \<le> of_nat n) (locations gids gs start) = Suc i \<and>
    i < length (locations gids gs start) \<and> locations gids gs start ! i = loc \<and>
    store (gl_page_id loc) = Inr rows \<and>
    (\<exists>row. row_index loc (of_nat n) = Inr row \<and> row < length rows \<and> rows ! row = concat gs ! (n - start))"
  using assms
proof (induction arbitrary: start rule: list_all2_induct)
  case (Cons gid gids rows gs)
  let ?loc = "\<lparr> gl_page_id = gid, gl_start_offset = of_nat start, gl_row_count = of_nat (length rows) \<rparr>"
  have bounds: "start < 2 ^ 64" "n < 2 ^ 64" "length rows < 2 ^ 64" using Cons.prems by simp_all
  have first: "(of_nat start :: u64) \<le> of_nat n" using bounds Cons.prems(2) by (simp add: of_nat_u64_le)
  show ?case
  proof (cases "n < start + length rows")
    case True
    have "takeWhile (\<lambda>l. gl_start_offset l \<le> of_nat n) (locations gids gs (start + length rows)) = []"
    proof (cases "locations gids gs (start + length rows)")
      case (Cons loc rest)
      have "start + length rows < 2 ^ 64" using \<open>start + length (concat (rows # gs)) < 2 ^ 64\<close> by simp
      then have "\<not> (of_nat (start + length rows) :: u64) \<le> of_nat n"
        using True bounds(2) by (subst of_nat_u64_le) auto
      with locations_hd [OF Cons] show ?thesis unfolding Cons by simp
    qed simp
    then have point: "partition_point (\<lambda>l. gl_start_offset l \<le> of_nat n)
        (locations (gid # gids) (rows # gs) start) = Suc 0"
      using first by (simp add: partition_point_def)
    have row: "(of_nat n - of_nat start :: u64) = of_nat (n - start)"
      using Cons.prems(2) by (simp add: of_nat_diff)
    have "unat (of_nat (n - start) :: u64) = n - start"
      using bounds(2) by (simp add: unat_of_nat take_bit_nat_eq_self_iff)
    moreover have "\<not> (of_nat (length rows) :: u64) \<le> of_nat (n - start)"
      using True bounds Cons.prems(2) by (subst of_nat_u64_le) auto
    ultimately have "row_index ?loc (of_nat n) = Inr (n - start)"
      using first by (simp add: row_index_def row Let_def not_less)
    moreover have "n - start < length rows" using True Cons.prems(2) by simp
    ultimately show ?thesis
      using point Cons.hyps(1)
      by (intro exI [of _ 0] exI [of _ ?loc] exI [of _ rows]) (auto simp: nth_append)
  next
    case False
    from Cons.IH [of "start + length rows"] Cons.prems False obtain i loc rows' where
      "partition_point (\<lambda>l. gl_start_offset l \<le> of_nat n) (locations gids gs (start + length rows)) = Suc i"
      "i < length (locations gids gs (start + length rows))"
      "locations gids gs (start + length rows) ! i = loc" "store (gl_page_id loc) = Inr rows'"
      "\<exists>row. row_index loc (of_nat n) = Inr row \<and> row < length rows' \<and>
        rows' ! row = concat gs ! (n - (start + length rows))"
      by auto
    with first False show ?thesis
      by (intro exI [of _ "Suc i"] exI [of _ loc] exI [of _ rows'])
        (auto simp: partition_point_def nth_append)
  qed
qed simp

section \<open>The cache answers as a scan would\<close>

definition index_ok :: "nat \<Rightarrow> u64 list \<Rightarrow> row list list \<Rightarrow> pk_resolution_index \<Rightarrow> bool" where
  "index_ok c gids gs idx \<longleftrightarrow> length (concat gs) < 2 ^ 64 \<and> pi_groups idx = locations gids gs 0 \<and>
    (\<forall>k. is_key k \<longrightarrow> index_offset idx k = first_offset 0 (key_column_of c gs) k)"

definition cache_ok :: "group_store \<Rightarrow> nat \<Rightarrow> u64 list \<Rightarrow> row list list \<Rightarrow> table_pk_cache \<Rightarrow> bool" where
  "cache_ok store c gids gs cache \<longleftrightarrow>
    (\<forall>idx. pc_index cache = Ready idx \<longrightarrow> index_ok c gids gs idx) \<and>
    (\<forall>g. pc_decoded_group cache = Some g \<longrightarrow> store (cg_page_id g) = Inr (cg_rows g))"

lemma ensure_pk_index_ok:
  assumes "ensure_pk_index reclaim reserve store sch gids (cache, budget) = (res, cache', budget')"
    and "cache_ok store c gids gs cache" and "position scol_primary_key (node_columns sch) = Some c"
    and "list_all2 (\<lambda>gid rows. store gid = Inr rows) gids gs"
  shows "cache_ok store c gids gs cache'" "pc_index cache' = Unbuilt \<Longrightarrow> \<exists>e. res = Inl e"
    "pc_index cache' \<noteq> Unbuilt \<Longrightarrow> res = Inr ()"
proof -
  have built: "index_ok c gids gs idx"
    if "build_pk_index reclaim reserve store sch gids budget = (Inr (Some idx), b)" for idx b
    using build_loop_offsets [of reclaim reserve store c gids 0 "(pk_index_new, budget)" idx b gs]
      that assms(3,4)
    by (auto simp: build_pk_index_def index_ok_def is_key_cases pk_index_new_def)
  show "cache_ok store c gids gs cache'"
    using assms(1,2) built
    by (auto simp: ensure_pk_index_def cache_ok_def split: if_splits prod.splits sum.splits option.splits)
  show "\<exists>e. res = Inl e" if "pc_index cache' = Unbuilt"
    using assms(1) that
    by (auto simp: ensure_pk_index_def split: if_splits prod.splits sum.splits option.splits)
  show "res = Inr ()" if "pc_index cache' \<noteq> Unbuilt"
    using assms(1) that
    by (auto simp: ensure_pk_index_def split: if_splits prod.splits sum.splits option.splits)
qed

lemma read_row_ok:
  assumes "read_row reclaim group_bytes store off loc (cache, budget) = (res, cache', budget')"
    and "cache_ok store c gids gs cache" and "store (gl_page_id loc) = Inr rows"
    and "row_index loc off = Inr row" "row < length rows"
  shows "res = Inr (rows ! row)" "cache_ok store c gids gs cache'" "pc_index cache' = pc_index cache"
proof -
  have hit: "rows' = rows" if "cached_rows cache (gl_page_id loc) = Some rows'" for rows'
    using that assms(2,3) by (auto simp: cached_rows_def cache_ok_def split: option.splits if_splits)
  have "res = Inr (rows ! row) \<and> cache_ok store c gids gs cache' \<and> pc_index cache' = pc_index cache"
  proof (cases "cached_rows cache (gl_page_id loc)")
    case (Some rows')
    with assms hit [OF Some] show ?thesis
      by (auto simp: read_row_def node_group_row_def slice_get_def)
  next
    case None
    with assms show ?thesis
      by (auto simp: read_row_def node_group_row_def slice_get_def drop_decoded_group_def
          cache_decoded_group_def cache_ok_def Let_def split: option.splits prod.splits bool.splits)
  qed
  then show "res = Inr (rows ! row)" "cache_ok store c gids gs cache'" "pc_index cache' = pc_index cache"
    by simp_all
qed

lemma find_position: "find P xs = map_option (\<lambda>i. xs ! i) (position P xs)"
  by (induction xs) (auto simp: option.map_comp comp_def)

lemma position_cong: "(\<And>x. x \<in> set xs \<Longrightarrow> P x = Q x) \<Longrightarrow> position P xs = position Q xs"
  by (induction xs) auto

lemma index_locate_ok:
  assumes idx: "index_ok c gids gs idx" and gs: "list_all2 (\<lambda>gid rows. store gid = Inr rows) gids gs"
    and key: "is_key key"
  shows "case position (\<lambda>row. row ! c = key) (concat gs) of
      None \<Rightarrow> index_locate idx key = Inr None
    | Some n \<Rightarrow> (\<exists>loc rows row. index_locate idx key = Inr (Some (of_nat n, loc)) \<and>
        store (gl_page_id loc) = Inr rows \<and> row_index loc (of_nat n) = Inr row \<and>
        row < length rows \<and> rows ! row = concat gs ! n)"
proof (cases "position (\<lambda>row. row ! c = key) (concat gs)")
  case None
  then show ?thesis
    using idx key by (simp add: index_locate_def index_ok_def first_offset_def position_map)
next
  case (Some n)
  have n: "n < length (concat gs)" using Some by (simp add: position_eq_Some)
  have off: "index_offset idx key = Some (of_nat n)"
    using idx key Some by (simp add: index_ok_def first_offset_def position_map)
  from locations_contain [OF gs, of 0 n] idx n obtain i loc rows row where
    i: "partition_point (\<lambda>l. gl_start_offset l \<le> of_nat n) (locations gids gs 0) = Suc i"
      "i < length (locations gids gs 0)" "locations gids gs 0 ! i = loc"
    and loc: "store (gl_page_id loc) = Inr rows" "row_index loc (of_nat n) = Inr row"
      "row < length rows" "rows ! row = concat gs ! n"
    by (auto simp: index_ok_def)
  with idx off have "index_locate idx key = Inr (Some (of_nat n, loc))"
    by (simp add: index_locate_def index_ok_def slice_get_def Let_def)
  with Some loc show ?thesis by auto
qed

lemma cache_lookup_row_answer:
  assumes "list_all2 (\<lambda>gid rows. store gid = Inr rows) gids gs"
    and "position scol_primary_key (node_columns sch) = Some c"
    and "cache_ok store c gids gs cache" and "is_key key"
    and "cache_lookup_row reclaim reserve group_bytes store sch gids key (cache, budget) =
      (res, cache', budget')"
  shows "cache_ok store c gids gs cache' \<and>
    (case pc_index cache' of
       Ready idx \<Rightarrow> res = Inr (Indexed (find (\<lambda>row. row ! c = key) (concat gs)))
     | Refused \<Rightarrow> res = Inr Unavailable
     | Unbuilt \<Rightarrow> (\<exists>e. res = Inl e))"
proof -
  obtain r cache1 b1 where ens: "ensure_pk_index reclaim reserve store sch gids (cache, budget) = (r, cache1, b1)"
    by (metis prod_cases3)
  note e = ensure_pk_index_ok [OF ens assms(3,2,1)]
  show ?thesis
  proof (cases "pc_index cache1")
    case Unbuilt
    then obtain err where "r = Inl err" using e(2) by blast
    with assms(5) ens e(1) Unbuilt show ?thesis by (auto simp: cache_lookup_row_def)
  next
    case Refused
    with assms(5) ens e(1,3) show ?thesis by (simp add: cache_lookup_row_def)
  next
    case (Ready idx)
    have idx: "index_ok c gids gs idx" using e(1) Ready by (simp add: cache_ok_def)
    note loc = index_locate_ok [OF idx assms(1,4)]
    show ?thesis
    proof (cases "position (\<lambda>row. row ! c = key) (concat gs)")
      case None
      with loc assms(5) ens e(1,3) Ready show ?thesis
        by (auto simp: cache_lookup_row_def find_position)
    next
      case (Some n)
      with loc obtain l rows row where l: "index_locate idx key = Inr (Some (of_nat n, l))"
        and at: "store (gl_page_id l) = Inr rows" "row_index l (of_nat n) = Inr row" "row < length rows"
        and row: "rows ! row = concat gs ! n"
        by auto
      obtain r2 cache2 b2 where rd: "read_row reclaim group_bytes store (of_nat n) l (cache1, b1) = (r2, cache2, b2)"
        by (metis prod_cases3)
      from read_row_ok [OF rd e(1) at] have "r2 = Inr (rows ! row)"
        "cache_ok store c gids gs cache2" "pc_index cache2 = Ready idx" by (simp_all add: Ready)
      with l rd assms(5) ens e(3) Ready Some row show ?thesis
        by (auto simp: cache_lookup_row_def find_position)
    qed
  qed
qed

text \<open>The offset of a key, through the index and by the scan.\<close>

lemma scan_loop_offset:
  assumes "list_all2 (\<lambda>gid rows. store gid = Inr rows) gids gs"
    and "start + length (concat gs) < 2 ^ 64" and "\<forall>row \<in> set (concat gs). c < length row"
  shows "scan_loop store c key gids (of_nat start) = Inr (first_offset start (key_column_of c gs) key)"
  using assms
proof (induction arbitrary: start rule: list_all2_induct)
  case Nil
  then show ?case by (simp add: first_offset_def)
next
  case (Cons gid gids rows gs)
  have pos: "position (\<lambda>row. slice_get row c = Some key) rows = position (\<lambda>v. v = key) (map (\<lambda>row. row ! c) rows)"
    using Cons.prems(2) unfolding position_map by (intro position_cong) (simp add: slice_get_def)
  have n: "length rows < 2 ^ 64" "start + length rows < 2 ^ 64" using Cons.prems(1) by simp_all
  have add: "checked_add_word (of_nat start :: u64) (of_nat m) = Some (of_nat (start + m))"
    if "m \<le> length rows" for m
    using n that by (simp add: checked_add_word_def unat_of_nat take_bit_nat_eq_self_iff)
  show ?case
  proof (cases "position (\<lambda>v. v = key) (map (\<lambda>row. row ! c) rows)")
    case None
    with Cons pos n add show ?thesis
      by (simp add: u64_try_from_def first_offset_append first_offset_def [of _ "map _ rows"] add.assoc
          del: of_nat_add)
  next
    case (Some i)
    then have "i < length rows" by (simp add: position_eq_Some)
    with Some Cons.hyps pos n add show ?thesis
      by (simp add: u64_try_from_def first_offset_append first_offset_def [of _ "map _ rows"]
          del: of_nat_add)
  qed
qed

lemma lookup_offset_matches_scan:
  assumes "list_all2 (\<lambda>gid rows. store gid = Inr rows) gids gs"
    and "position scol_primary_key (node_columns sch) = Some c"
    and "\<forall>row \<in> set (concat gs). c < length row"
    and "cache_ok store c gids gs cache" and "is_key key"
    and "lookup_offset reclaim reserve store sch gids key (cache, budget) = (Inr (Indexed off), cache', budget')"
  shows "scan_checkpointed_node_key store c key gids = Inr off"
proof -
  obtain r cache1 b1 where ens: "ensure_pk_index reclaim reserve store sch gids (cache, budget) = (r, cache1, b1)"
    by (metis prod_cases3)
  with assms(6) obtain idx where ready: "pc_index cache1 = Ready idx" "off = index_offset idx key"
    by (auto simp: lookup_offset_def split: sum.splits pk_index_state.splits)
  have "index_ok c gids gs idx"
    using ensure_pk_index_ok(1) [OF ens assms(4,2,1)] ready by (simp add: cache_ok_def)
  with ready(2) assms(5) scan_loop_offset [OF assms(1), of 0 c key] assms(3) show ?thesis
    by (simp add: index_ok_def scan_checkpointed_node_key_def)
qed

lemma lookup_offset_answer:
  assumes "list_all2 (\<lambda>gid rows. store gid = Inr rows) gids gs"
    and "position scol_primary_key (node_columns sch) = Some c"
    and "cache_ok store c gids gs cache" and "is_key key"
    and "lookup_offset reclaim reserve store sch gids key (cache, budget) = (res, cache', budget')"
  shows "cache_ok store c gids gs cache' \<and>
    (case pc_index cache' of
       Ready idx \<Rightarrow> res = Inr (Indexed (map_option of_nat (position (\<lambda>row. row ! c = key) (concat gs))))
     | Refused \<Rightarrow> res = Inr Unavailable
     | Unbuilt \<Rightarrow> (\<exists>e. res = Inl e))"
proof -
  obtain r cache1 b1 where ens: "ensure_pk_index reclaim reserve store sch gids (cache, budget) = (r, cache1, b1)"
    by (metis prod_cases3)
  note e = ensure_pk_index_ok [OF ens assms(3,2,1)]
  show ?thesis
  proof (cases "pc_index cache1")
    case Unbuilt
    then obtain err where "r = Inl err" using e(2) by blast
    with assms(5) ens e(1) Unbuilt show ?thesis by (auto simp: lookup_offset_def)
  next
    case Refused
    with assms(5) ens e(1,3) show ?thesis by (simp add: lookup_offset_def)
  next
    case (Ready idx)
    then have "index_ok c gids gs idx" using e(1) by (simp add: cache_ok_def)
    with assms(4) have "index_offset idx key = map_option of_nat (position (\<lambda>row. row ! c = key) (concat gs))"
      by (simp add: index_ok_def first_offset_def position_map)
    with assms(5) ens e(1,3) Ready show ?thesis by (simp add: lookup_offset_def)
  qed
qed

lemma scan_answer:
  assumes "list_all2 (\<lambda>gid rows. store gid = Inr rows) gids gs"
    and "length (concat gs) < 2 ^ 64" "\<forall>row \<in> set (concat gs). c < length row"
  shows "scan_checkpointed_node_key store c key gids = Inr (map_option of_nat (position (\<lambda>row. row ! c = key) (concat gs)))"
  using scan_loop_offset [OF assms(1), of 0 c key] assms(2,3)
  by (simp add: scan_checkpointed_node_key_def first_offset_def position_map)

text \<open>
  C14. The primary-key index is only a faster scan: whatever the budget, the reclaimer and earlier
  lookups did, a lookup through the cache answers, when the index is available, with exactly the
  first stored row that carries the key (or with none), through the decoded group it keeps or
  through a fresh read, and a lookup of the offset with exactly the position of that row among the
  stored rows; without an index both say so. The scan that then stands in for the index finds the
  same position, where every row has the key column and the rows are fewer than 2^64. The caches the
  lookups leave are good for the next lookup.
\<close>

theorem pk_lookup_matches_scan:
  assumes "list_all2 (\<lambda>gid rows. store gid = Inr rows) gids gs"
    and "position scol_primary_key (node_columns sch) = Some c"
    and "cache_ok store c gids gs cache" and "is_key key"
    and "cache_lookup_row reclaim reserve group_bytes store sch gids key (cache, budget) =
      (res, cache', budget')"
    and "lookup_offset reclaim reserve store sch gids key (cache, budget) = (off, cache2, budget2)"
  shows "cache_ok store c gids gs cache' \<and>
    (case pc_index cache' of
       Ready idx \<Rightarrow> res = Inr (Indexed (find (\<lambda>row. row ! c = key) (concat gs)))
     | Refused \<Rightarrow> res = Inr Unavailable
     | Unbuilt \<Rightarrow> (\<exists>e. res = Inl e)) \<and>
    cache_ok store c gids gs cache2 \<and>
    (case pc_index cache2 of
       Ready idx \<Rightarrow> off = Inr (Indexed (map_option of_nat (position (\<lambda>row. row ! c = key) (concat gs))))
     | Refused \<Rightarrow> off = Inr Unavailable
     | Unbuilt \<Rightarrow> (\<exists>e. off = Inl e)) \<and>
    (length (concat gs) < 2 ^ 64 \<and> (\<forall>row \<in> set (concat gs). c < length row) \<longrightarrow>
      scan_checkpointed_node_key store c key gids =
        Inr (map_option of_nat (position (\<lambda>row. row ! c = key) (concat gs))))"
  using cache_lookup_row_answer [OF assms(1-5)] lookup_offset_answer [OF assms(1-4,6)] scan_answer [OF assms(1)]
  by blast

theorem pk_lookup_matches_scan_witness:
  "\<exists>res off cache' budget' cache2 budget2.
    cache_lookup_row None (\<lambda>_. True) (\<lambda>_. None) (\<lambda>_. Inr [[VInt64 5, Null], [VInt64 7, Null]])
      sample_node_schema [3] (VInt64 7) (cache_default, budget_new 4096) = (res, cache', budget') \<and>
    (case pc_index cache' of
       Ready idx \<Rightarrow> res = Inr (Indexed (Some [VInt64 7, Null]))
     | Refused \<Rightarrow> res = Inr Unavailable
     | Unbuilt \<Rightarrow> (\<exists>e. res = Inl e)) \<and>
    lookup_offset None (\<lambda>_. True) (\<lambda>_. Inr [[VInt64 5, Null], [VInt64 7, Null]])
      sample_node_schema [3] (VInt64 7) (cache_default, budget_new 4096) = (off, cache2, budget2) \<and>
    (case pc_index cache2 of
       Ready idx \<Rightarrow> off = Inr (Indexed (Some 1))
     | Refused \<Rightarrow> off = Inr Unavailable
     | Unbuilt \<Rightarrow> (\<exists>e. off = Inl e)) \<and>
    scan_checkpointed_node_key (\<lambda>_. Inr [[VInt64 5, Null], [VInt64 7, Null]]) 0 (VInt64 7) [3] = Inr (Some 1)"
proof -
  let ?store = "\<lambda>_. Inr [[VInt64 5, Null], [VInt64 7, Null]] :: row list devon_result"
  let ?gs = "[[[VInt64 5, Null], [VInt64 7, Null]]]"
  obtain res cache' budget' where look: "cache_lookup_row None (\<lambda>_. True) (\<lambda>_. None) ?store
      sample_node_schema [3] (VInt64 7) (cache_default, budget_new 4096) = (res, cache', budget')"
    by (metis prod_cases3)
  obtain off cache2 budget2 where look2: "lookup_offset None (\<lambda>_. True) ?store
      sample_node_schema [3] (VInt64 7) (cache_default, budget_new 4096) = (off, cache2, budget2)"
    by (metis prod_cases3)
  have ok: "cache_ok ?store 0 [3] ?gs cache_default" by (simp add: cache_ok_def cache_default_def)
  have pos: "position scol_primary_key (node_columns sample_node_schema) = Some 0"
    by (simp add: sample_node_schema_def)
  have "is_key (VInt64 7)" "list_all2 (\<lambda>gid rows. ?store gid = Inr rows) [3] ?gs" by (simp_all add: is_key_cases)
  from pk_lookup_matches_scan [OF this(2) pos ok this(1) look look2] have
    "case pc_index cache' of
       Ready idx \<Rightarrow> res = Inr (Indexed (Some [VInt64 7, Null]))
     | Refused \<Rightarrow> res = Inr Unavailable
     | Unbuilt \<Rightarrow> (\<exists>e. res = Inl e)"
    "case pc_index cache2 of
       Ready idx \<Rightarrow> off = Inr (Indexed (Some 1))
     | Refused \<Rightarrow> off = Inr Unavailable
     | Unbuilt \<Rightarrow> (\<exists>e. off = Inl e)"
    "scan_checkpointed_node_key ?store 0 (VInt64 7) [3] = Inr (Some 1)"
    by (simp_all cong: pk_index_state.case_cong)
  with look look2 show ?thesis by blast
qed

end
