(* ===== verification/ReadView.thy ===== *)
theory ReadView
  imports Catalog PkIndex
begin

text \<open>
  Reading one node row through a read view (\<^verbatim>\<open>devondb/src/database/view.rs\<close>): the committed state, the
  writes of the reading transaction on top of it, the overlay rows, and the checkpointed rows through
  the primary-key cache or, without one, by a scan.
\<close>

section \<open>Published states and views\<close>

record published_state =
  ps_catalog :: catalog
  ps_chain :: "commit_link option"
  ps_last_commit_lsn :: u64
  ps_catalog_generation :: u64
  ps_recent_summaries :: "(u64 \<times> commit_summary) list"

record read_view =
  rv_state :: published_state
  rv_catalog :: catalog
  rv_own :: "commit_delta option"

definition state_primary_key_column :: "published_state \<Rightarrow> string \<Rightarrow> nat option" where
  "state_primary_key_column state table =
    Option.bind (node_table (ps_catalog state) table)
      (\<lambda>sch. position scol_primary_key (node_columns sch))"

definition state_node_rows :: "published_state \<Rightarrow> string \<Rightarrow> row list" where
  "state_node_rows state table =
    node_rows_oldest_first (ps_chain state) table
      (case state_primary_key_column state table of None \<Rightarrow> 0 | Some c \<Rightarrow> c)"

definition state_node_dml_effects :: "published_state \<Rightarrow> string \<Rightarrow> node_dml_effects devon_result" where
  "state_node_dml_effects state table =
    rbind (ok_or (NotFound ''node table {}'') (node_table (ps_catalog state) table)) (\<lambda>sch.
    rbind (ok_or (Corrupt ''node table {} has no primary-key column'')
      (position scol_primary_key (node_columns sch))) (\<lambda>c.
    node_dml_effects (ps_chain state) table c))"

definition primary_key :: "node_table_schema \<Rightarrow> (nat \<times> string) devon_result" where
  "primary_key sch =
    rbind (ok_or (Corrupt ''node table {} has no primary key'')
      (position scol_primary_key (node_columns sch))) (\<lambda>c.
    Inr (c, scol_name (node_columns sch ! c)))"

section \<open>Overlay keys\<close>

text \<open>\<open>OverlayKey\<close> owns what \<open>PkKey\<close> borrows; both are \<^typ>\<open>pk_key\<close>.\<close>

fun key_from_value :: "devon_value \<Rightarrow> pk_key devon_result" where
  "key_from_value (VInt64 n) = Inr (PkInt64 n)"
| "key_from_value (VString s) = Inr (PkString s)"
| "key_from_value _ = Inl (Corrupt ''node DML primary key must be Int64 or String, found {}'')"

definition key_from_query :: "node_table_schema \<Rightarrow> nat \<Rightarrow> devon_value \<Rightarrow> pk_key devon_result" where
  "key_from_query sch key_index key =
    (case (scol_ty (node_columns sch ! key_index), key) of
       (TInt64, VInt64 n) \<Rightarrow> Inr (PkInt64 n)
     | (TString, VString s) \<Rightarrow> Inr (PkString s)
     | _ \<Rightarrow> Inl (InvalidArgument ''primary key {} in node table {} expects {} but received {}''))"

definition key_from_row :: "row \<Rightarrow> nat \<Rightarrow> pk_key devon_result" where
  "key_from_row row key_index =
    (case slice_get row key_index of
       Some (VInt64 n) \<Rightarrow> Inr (PkInt64 n)
     | Some (VString s) \<Rightarrow> Inr (PkString s)
     | Some v \<Rightarrow> Inl (Corrupt ''node table {} overlay has invalid primary key {}'')
     | None \<Rightarrow> Inl (Corrupt ''node table {} overlay row is missing its primary key''))"

section \<open>Visible effects\<close>

datatype visible_row_effect = VisibleUpdate row | VisibleDelete

type_synonym visible_effects = "pk_key \<rightharpoonup> visible_row_effect"

definition visible_updates :: "nat \<Rightarrow> row list \<Rightarrow> visible_effects \<Rightarrow> visible_effects devon_result" where
  "visible_updates key_index rows visible =
    rfold (\<lambda>row visible. rbind (key_from_row row key_index) (\<lambda>k. Inr (visible(k \<mapsto> VisibleUpdate row))))
      rows visible"

definition apply_own_dml_effects ::
    "commit_delta \<Rightarrow> string \<Rightarrow> nat \<Rightarrow> visible_effects \<Rightarrow> visible_effects devon_result" where
  "apply_own_dml_effects own table key_index visible =
    rbind (visible_updates key_index (bt_items (delta_node_updates own) table) visible) (\<lambda>visible.
    rbind (rfold (\<lambda>key visible. rbind (key_from_value key) (\<lambda>k. Inr (visible(k \<mapsto> VisibleDelete))))
      (bt_items (delta_node_deletes own) table) visible) (\<lambda>visible.
    rfold (\<lambda>row visible. rbind (key_from_row row key_index) (\<lambda>k. Inr (visible(k := None))))
      (bt_items (delta_nodes own) table) visible))"

definition visible_dml_effects :: "read_view \<Rightarrow> node_table_schema \<Rightarrow> visible_effects devon_result" where
  "visible_dml_effects view sch =
    rbind (primary_key sch) (\<lambda>(key_index, _).
    rbind
      (if node_table (ps_catalog (rv_state view)) (node_name sch) \<noteq> None
       then
         rbind (state_node_dml_effects (rv_state view) (node_name sch)) (\<lambda>committed.
         rbind (visible_updates key_index (map snd (eff_updates committed)) Map.empty) (\<lambda>visible.
         Inr (\<lambda>k. if k \<in> eff_tombstones committed then Some VisibleDelete else visible k)))
       else Inr Map.empty) (\<lambda>visible.
    case rv_own view of
      None \<Rightarrow> Inr visible
    | Some own \<Rightarrow> apply_own_dml_effects own (node_name sch) key_index visible))"

section \<open>Resolving a row\<close>

definition missing_node_key :: devon_error where
  "missing_node_key = NotFound ''node table {} primary key {}''"

definition own_node_row :: "read_view \<Rightarrow> string \<Rightarrow> nat \<Rightarrow> devon_value \<Rightarrow> row option" where
  "own_node_row view table key_index key =
    Option.bind (rv_own view) (\<lambda>own.
    Option.bind (bt_get (delta_nodes own) table) (\<lambda>rows.
    find (\<lambda>row. slice_get row key_index = Some key) rows))"

definition stored_group_ids :: "catalog \<Rightarrow> string \<Rightarrow> u64 list" where
  "stored_group_ids cat table =
    (case table_storage_of cat table of None \<Rightarrow> [] | Some st \<Rightarrow> ts_groups st)"

text \<open>\<open>NodeTable::scan\<close> of a table with no buffered rows.\<close>

definition table_scan :: "group_store \<Rightarrow> catalog \<Rightarrow> node_table_schema \<Rightarrow> row list devon_result" where
  "table_scan store cat sch =
    (let group_ids = stored_group_ids cat (node_name sch)
     in rfold (\<lambda>(index, group_id) rows.
          rbind (store group_id) (\<lambda>g.
          rbind (validate_group_position g index (length group_ids)) (\<lambda>_. Inr (rows @ g))))
        (enumerate 0 group_ids) [])"

text \<open>The process-wide cache of the table and the budget are passed on; the rest is the environment.\<close>

record read_env =
  re_reclaim :: reclaimer
  re_reserve :: "pk_resolution_index \<Rightarrow> bool"
  re_group_bytes :: "row list \<Rightarrow> nat option"
  re_store :: group_store

definition checkpointed_node_row ::
    "read_env \<Rightarrow> published_state \<Rightarrow> string \<Rightarrow> devon_value \<Rightarrow> table_pk_cache \<times> memory_budget
      \<Rightarrow> row pk_index_result devon_result \<times> table_pk_cache \<times> memory_budget" where
  "checkpointed_node_row env state table key st =
    (case node_table (ps_catalog state) table of
       None \<Rightarrow> (Inr (Indexed None), st)
     | Some sch \<Rightarrow>
         cache_lookup_row (re_reclaim env) (re_reserve env) (re_group_bytes env) (re_store env) sch
           (stored_group_ids (ps_catalog state) (node_name sch)) key st)"

definition resolve_node_row ::
    "read_env \<Rightarrow> read_view \<Rightarrow> string \<Rightarrow> devon_value \<Rightarrow> table_pk_cache \<times> memory_budget
      \<Rightarrow> row devon_result \<times> table_pk_cache \<times> memory_budget" where
  "resolve_node_row env view table key st =
    (case
       rbind (ok_or (NotFound ''node table {}'') (node_table (rv_catalog view) table)) (\<lambda>sch.
       rbind (primary_key sch) (\<lambda>(key_index, key_column).
       rbind (key_from_query sch key_index key) (\<lambda>cache_key.
       rbind (visible_dml_effects view sch) (\<lambda>visible.
       Inr (sch, key_index, visible cache_key))))) of
       Inl e \<Rightarrow> (Inl e, st)
     | Inr (sch, key_index, Some (VisibleUpdate row)) \<Rightarrow> (Inr row, st)
     | Inr (sch, key_index, Some VisibleDelete) \<Rightarrow> (Inl missing_node_key, st)
     | Inr (sch, key_index, None) \<Rightarrow>
         (case own_node_row view (node_name sch) key_index key of
            Some row \<Rightarrow> (Inr row, st)
          | None \<Rightarrow>
              (case find (\<lambda>row. slice_get row key_index = Some key)
                      (state_node_rows (rv_state view) (node_name sch)) of
                 Some row \<Rightarrow> (Inr row, st)
               | None \<Rightarrow>
                   (case checkpointed_node_row env (rv_state view) (node_name sch) key st of
                      (Inl e, st) \<Rightarrow> (Inl e, st)
                    | (Inr (Indexed (Some row)), st) \<Rightarrow> (Inr row, st)
                    | (Inr (Indexed None), st) \<Rightarrow> (Inl missing_node_key, st)
                    | (Inr Unavailable, st) \<Rightarrow>
                        (rbind (table_scan (re_store env) (rv_catalog view) sch) (\<lambda>rows.
                           ok_or missing_node_key (find (\<lambda>row. slice_get row key_index = Some key) rows)),
                         st)))))"

section \<open>Resolving an offset\<close>

text \<open>
  The index of the overlay rows of a table; the small process-wide cache of such indexes holds what
  this computes for an immutable state.
\<close>

definition overlay_index_step ::
    "nat \<Rightarrow> nat \<times> row option \<Rightarrow> (pk_key \<rightharpoonup> nat) \<times> nat \<Rightarrow> ((pk_key \<rightharpoonup> nat) \<times> nat) devon_result" where
  "overlay_index_step key_index = (\<lambda>(pos, slot) (positions, row_count).
    rbind (case slot of
        None \<Rightarrow> Inr positions
      | Some row \<Rightarrow>
          rbind (key_from_row row key_index) (\<lambda>k.
          Inr (if positions k = None then positions(k \<mapsto> pos) else positions))) (\<lambda>positions.
    rbind (ok_or (Corrupt ''node table {} overlay row count exceeds usize::MAX'') (checked_add_usize pos 1))
      (\<lambda>row_count. Inr (positions, row_count))))"

definition build_overlay_key_index ::
    "read_view \<Rightarrow> string \<Rightarrow> nat \<Rightarrow> ((pk_key \<rightharpoonup> nat) \<times> nat) devon_result" where
  "build_overlay_key_index view table key_index =
    rfold (overlay_index_step key_index)
      (node_slots_oldest_first (ps_chain (rv_state view)) table
        (case state_primary_key_column (rv_state view) table of None \<Rightarrow> 0 | Some c \<Rightarrow> c))
      (Map.empty, 0)"

definition overlay_key_position ::
    "read_view \<Rightarrow> string \<Rightarrow> nat \<Rightarrow> pk_key \<Rightarrow> (nat option \<times> nat) devon_result" where
  "overlay_key_position view table key_index key =
    rbind (build_overlay_key_index view table key_index) (\<lambda>(positions, row_count).
    Inr (positions key, row_count))"

definition view_has_node_deletes :: "read_view \<Rightarrow> string \<Rightarrow> bool" where
  "view_has_node_deletes view table \<longleftrightarrow>
    (case rv_own view of None \<Rightarrow> False | Some own \<Rightarrow> bt_get (delta_node_deletes own) table \<noteq> None) \<or>
    list_ex (\<lambda>link. bt_get (delta_node_deletes (link_delta link)) table \<noteq> None)
      (commit_links_oldest_first (ps_chain (rv_state view)))"

definition checkpointed_row_count ::
    "read_env \<Rightarrow> read_view \<Rightarrow> node_table_schema \<Rightarrow> u64 devon_result" where
  "checkpointed_row_count env view sch =
    rfold (\<lambda>group_id count.
      rbind (map_err (\<lambda>_. Corrupt ''node table {} group {} has invalid metadata: {}'') (re_store env group_id)) (\<lambda>rows.
      rbind (ok_or (Corrupt ''node table {} group row count exceeds u64::MAX'') (u64_try_from (length rows))) (\<lambda>n.
      ok_or (Corrupt ''checkpointed row count for node table {} exceeds u64::MAX'') (checked_add_word count n))))
      (stored_group_ids (rv_catalog view) (node_name sch)) 0"

definition resolve_checkpointed_node_key ::
    "read_env \<Rightarrow> read_view \<Rightarrow> node_table_schema \<Rightarrow> nat \<Rightarrow> devon_value \<Rightarrow> table_pk_cache \<times> memory_budget
      \<Rightarrow> u64 option devon_result \<times> table_pk_cache \<times> memory_budget" where
  "resolve_checkpointed_node_key env view sch key_index key st =
    (case node_table (ps_catalog (rv_state view)) (node_name sch) of
       None \<Rightarrow> (Inr None, st)
     | Some state_sch \<Rightarrow>
         (case lookup_offset (re_reclaim env) (re_reserve env) (re_store env) state_sch
                 (stored_group_ids (ps_catalog (rv_state view)) (node_name state_sch)) key st of
            (Inl e, st) \<Rightarrow> (Inl e, st)
          | (Inr (Indexed offset), st) \<Rightarrow> (Inr offset, st)
          | (Inr Unavailable, st) \<Rightarrow>
              (scan_checkpointed_node_key (re_store env) key_index key
                 (stored_group_ids (rv_catalog view) (node_name sch)), st)))"

definition own_row_position :: "read_view \<Rightarrow> string \<Rightarrow> nat \<Rightarrow> devon_value \<Rightarrow> nat option" where
  "own_row_position view table key_index key =
    Option.bind (rv_own view) (\<lambda>own.
    Option.bind (bt_get (delta_nodes own) table) (\<lambda>rows.
    position (\<lambda>row. slice_get row key_index = Some key) rows))"

definition resolve_node_key ::
    "read_env \<Rightarrow> read_view \<Rightarrow> string \<Rightarrow> devon_value \<Rightarrow> table_pk_cache \<times> memory_budget
      \<Rightarrow> u64 devon_result \<times> table_pk_cache \<times> memory_budget" where
  "resolve_node_key env view table key st =
    (case
       rbind (ok_or (NotFound ''node table {}'') (node_table (rv_catalog view) table)) (\<lambda>sch.
       rbind (primary_key sch) (\<lambda>(key_index, key_column).
       rbind (key_from_query sch key_index key) (\<lambda>cache_key.
       rbind (overlay_key_position view (node_name sch) key_index cache_key) (\<lambda>(overlay_position, overlay_count).
       Inr (sch, key_index, cache_key, overlay_position, overlay_count))))) of
       Inl e \<Rightarrow> (Inl e, st)
     | Inr (sch, key_index, cache_key, overlay_position, overlay_count) \<Rightarrow>
         (case own_row_position view (node_name sch) key_index key of
            Some pos \<Rightarrow>
              (rbind (ok_or (Corrupt ''node table {} overlay position exceeds usize::MAX'')
                 (checked_add_usize overlay_count pos)) (\<lambda>pos.
               rbind (checkpointed_row_count env view sch) (\<lambda>count. node_offset count pos)), st)
          | None \<Rightarrow>
              (case
                 if view_has_node_deletes view (node_name sch)
                 then rbind (visible_dml_effects view sch) (\<lambda>visible. Inr (visible cache_key = Some VisibleDelete))
                 else Inr False of
                 Inl e \<Rightarrow> (Inl e, st)
               | Inr True \<Rightarrow> (Inl missing_node_key, st)
               | Inr False \<Rightarrow>
                   (case overlay_position of
                      Some pos \<Rightarrow> (rbind (checkpointed_row_count env view sch) (\<lambda>count. node_offset count pos), st)
                    | None \<Rightarrow>
                        (case resolve_checkpointed_node_key env view sch key_index key st of
                           (Inl e, st) \<Rightarrow> (Inl e, st)
                         | (Inr (Some offset), st) \<Rightarrow> (Inr offset, st)
                         | (Inr None, st) \<Rightarrow> (Inl missing_node_key, st))))))"

section \<open>Keys\<close>

lemma key_from_row_iff: "key_from_row row c = Inr k \<longleftrightarrow> optional_row_pk row c = Some k"
  by (auto simp: key_from_row_def optional_row_pk_def split: option.splits devon_value.splits sum.splits)

lemma key_from_value_eq: "key_from_value v = Inr k \<longleftrightarrow> pk_try_from v = Inr k"
  by (cases v) simp_all

lemma key_from_query_key: "key_from_query sch c v = Inr k \<Longrightarrow> pk_try_from v = Inr k"
  by (auto simp: key_from_query_def split: logical_type.splits devon_value.splits)

lemma pk_try_from_inj: "pk_try_from v = Inr k \<Longrightarrow> pk_try_from w = Inr k \<longleftrightarrow> w = v"
  by (cases v; cases w) auto

lemma slice_get_is_key:
  assumes "pk_try_from v = Inr k"
  shows "slice_get row c = Some v \<longleftrightarrow> optional_row_pk row c = Some k"
proof (cases "slice_get row c")
  case (Some w)
  then show ?thesis
    using pk_try_from_inj [OF assms, of w]
    by (cases "pk_try_from w") (auto simp: optional_row_pk_def)
qed (simp add: optional_row_pk_def)

lemma find_key_lookup:
  "pk_try_from v = Inr k \<Longrightarrow> find (\<lambda>row. slice_get row c = Some v) rows = lookup_row c rows k"
  by (simp add: slice_get_is_key lookup_row_def)

section \<open>The own writes of a view\<close>

definition delete_keys :: "devon_value list \<Rightarrow> pk_key set" where
  "delete_keys vs = {k. \<exists>v \<in> set vs. pk_try_from v = Inr k}"

lemma fold_spec_put:
  "fold (spec_put c) rows m k =
    (case lookup_row c (rev rows) k of None \<Rightarrow> m k | Some r \<Rightarrow> Some r)"
proof (induction rows arbitrary: m)
  case (Cons r rows)
  then show ?case
    by (auto simp: lookup_row_append lookup_row_def [of c "[r]"] spec_put_def split: option.split)
qed (simp add: lookup_row_def)

lemma fold_spec_delete: "fold spec_delete vs m k = (if k \<in> delete_keys vs then None else m k)"
  by (induction vs arbitrary: m) (auto simp: spec_delete_def delete_keys_def split: sum.split)

lemma spec_delta_at:
  "spec_delta table c d m k =
    (case lookup_row c (rev (bt_items (delta_nodes d) table)) k of
       Some r \<Rightarrow> Some r
     | None \<Rightarrow>
         if k \<in> delete_keys (bt_items (delta_node_deletes d) table) then None
         else case lookup_row c (rev (bt_items (delta_node_updates d) table)) k of
           Some r \<Rightarrow> Some r | None \<Rightarrow> m k)"
  by (simp add: spec_delta_def fold_spec_put fold_spec_delete split: option.split)

lemma visible_updates_eq:
  assumes "list_all (\<lambda>r. row_key c r \<noteq> None) rows"
  shows "visible_updates c rows vis =
    Inr (\<lambda>k. case lookup_row c (rev rows) k of Some r \<Rightarrow> Some (VisibleUpdate r) | None \<Rightarrow> vis k)"
  using assms
proof (induction rows arbitrary: vis)
  case (Cons r rows)
  then obtain k where k: "row_key c r = Some k" by auto
  then have key: "key_from_row r c = Inr k" by (simp add: key_from_row_iff)
  have look: "lookup_row c [r] = [k \<mapsto> r]" by (auto simp: lookup_row_def k fun_eq_iff)
  from Cons key show ?case
    by (auto simp: visible_updates_def lookup_row_append look fun_eq_iff split: option.split)
qed (simp add: visible_updates_def lookup_row_def)

lemma visible_deletes_eq:
  assumes "list_all is_key vs"
  shows "rfold (\<lambda>key vis. rbind (key_from_value key) (\<lambda>k. Inr (vis(k \<mapsto> VisibleDelete)))) vs vis =
    Inr (\<lambda>k. if k \<in> delete_keys vs then Some VisibleDelete else vis k)"
  using assms
proof (induction vs arbitrary: vis)
  case (Cons v vs)
  then obtain k where "pk_try_from v = Inr k" by (auto simp: is_key_cases)
  moreover from this have "key_from_value v = Inr k" by (simp add: key_from_value_eq)
  ultimately show ?case using Cons by (auto simp: delete_keys_def fun_eq_iff)
qed (simp add: delete_keys_def)

lemma visible_inserts_eq:
  assumes "list_all (\<lambda>r. row_key c r \<noteq> None) rows"
  shows "rfold (\<lambda>row vis. rbind (key_from_row row c) (\<lambda>k. Inr (vis(k := None)))) rows vis =
    Inr (\<lambda>k. if k \<in> keys_of c rows then None else vis k)"
  using assms
proof (induction rows arbitrary: vis)
  case (Cons r rows)
  then obtain k where k: "row_key c r = Some k" by auto
  then have "key_from_row r c = Inr k" by (simp add: key_from_row_iff)
  with Cons k show ?case by (auto simp: keys_of_Cons [OF k] fun_eq_iff)
qed (simp add: keys_of_def)

text \<open>Own writes that are well formed: rows carry keys, deletes are keys, no key is inserted twice.\<close>

definition own_ok :: "nat \<Rightarrow> string \<Rightarrow> commit_delta \<Rightarrow> bool" where
  "own_ok c table d \<longleftrightarrow> keyed_rows c (bt_items (delta_nodes d) table) \<and>
    list_all (\<lambda>r. row_key c r \<noteq> None) (bt_items (delta_node_updates d) table) \<and>
    list_all is_key (bt_items (delta_node_deletes d) table)"

lemma apply_own_dml_effects_eq:
  assumes "own_ok c table d"
  shows "apply_own_dml_effects d table c vis =
    Inr (\<lambda>k. if k \<in> keys_of c (bt_items (delta_nodes d) table) then None
      else if k \<in> delete_keys (bt_items (delta_node_deletes d) table) then Some VisibleDelete
      else case lookup_row c (rev (bt_items (delta_node_updates d) table)) k of
        Some r \<Rightarrow> Some (VisibleUpdate r) | None \<Rightarrow> vis k)"
  using assms
  by (simp add: apply_own_dml_effects_def own_ok_def keyed_rows_def visible_updates_eq
      visible_deletes_eq visible_inserts_eq)

lemma lookup_updates:
  assumes "bt_wf upd" "\<And>k r. bt_get upd k = Some r \<Longrightarrow> row_key c r = Some k"
  shows "lookup_row c (rev (map snd upd)) k = bt_get upd k"
    and "list_all (\<lambda>r. row_key c r \<noteq> None) (map snd upd)"
proof -
  have at: "bt_get upd k = Some r \<longleftrightarrow> (k, r) \<in> set upd" for k r
    using bt_wf_distinct [OF assms(1)] by (simp add: bt_get_def)
  have keys: "row_key c r = Some k" if "(k, r) \<in> set upd" for k r
    using that assms(2) at by blast
  then have "map (row_key c) (map snd upd) = map (\<lambda>e. Some (fst e)) upd" by auto
  moreover have "distinct (map (\<lambda>e. Some (fst e)) upd)"
    using bt_wf_distinct [OF assms(1)] by (simp add: distinct_map inj_on_def)
  ultimately have "distinct (map (row_key c) (map snd upd))" by (simp only:)
  moreover have "list_all (\<lambda>r. row_key c r \<noteq> None) (map snd upd)" using keys by (auto simp: list_all_iff)
  ultimately have kr: "keyed_rows c (map snd upd)" by (simp only: keyed_rows_def simp_thms)
  then show "list_all (\<lambda>r. row_key c r \<noteq> None) (map snd upd)" by (simp add: keyed_rows_def)
  have "lookup_row c (map snd upd) k = Some r \<longleftrightarrow> bt_get upd k = Some r" for r
    unfolding lookup_row_keyed [OF kr] at using keys by force
  then have "lookup_row c (map snd upd) k = bt_get upd k" by (metis option.exhaust)
  then show "lookup_row c (rev (map snd upd)) k = bt_get upd k" by (simp add: lookup_row_rev [OF kr])
qed

section \<open>What a view shows\<close>

text \<open>The table a view stands for: the commits of its state in order, then the own writes.\<close>

definition view_table :: "read_view \<Rightarrow> string \<Rightarrow> nat \<Rightarrow> (pk_key \<rightharpoonup> row) \<Rightarrow> (pk_key \<rightharpoonup> row)" where
  "view_table view table c base =
    (let m = spec_chain table c (ps_chain (rv_state view)) base
     in case rv_own view of None \<Rightarrow> m | Some own \<Rightarrow> spec_delta table c own m)"

text \<open>
  A sound view of a table: its schema, key column and groups, groups packed with distinct keys; the
  state knows the table under the same schema, or not at all when the transaction created it.
\<close>

definition view_ok ::
    "read_env \<Rightarrow> read_view \<Rightarrow> node_table_schema \<Rightarrow> nat \<Rightarrow> row list list \<Rightarrow> table_pk_cache \<Rightarrow> bool" where
  "view_ok env view sch c gs cache \<longleftrightarrow>
    position scol_primary_key (node_columns sch) = Some c \<and>
    list_all2 (\<lambda>gid rows. re_store env gid = Inr rows) (stored_group_ids (rv_catalog view) (node_name sch)) gs \<and>
    packed gs \<and> keyed_rows c (concat gs) \<and> length (concat gs) < 2 ^ 64 \<and>
    (\<exists>eff. node_dml_effects (ps_chain (rv_state view)) (node_name sch) c = Inr eff) \<and>
    (\<forall>own. rv_own view = Some own \<longrightarrow> own_ok c (node_name sch) own) \<and>
    cache_ok (re_store env) c (stored_group_ids (rv_catalog view) (node_name sch)) gs cache \<and>
    (case node_table (ps_catalog (rv_state view)) (node_name sch) of
       Some sch' \<Rightarrow> sch' = sch \<and>
         stored_group_ids (ps_catalog (rv_state view)) (node_name sch) =
         stored_group_ids (rv_catalog view) (node_name sch)
     | None \<Rightarrow> gs = [] \<and> (\<forall>link \<in> set (commit_links_oldest_first (ps_chain (rv_state view))).
         bt_items (delta_nodes (link_delta link)) (node_name sch) = [] \<and>
         bt_items (delta_node_updates (link_delta link)) (node_name sch) = [] \<and>
         bt_items (delta_node_deletes (link_delta link)) (node_name sch) = []))"

text \<open>An index build fails only by running out of offsets.\<close>

lemma index_group_keys_total:
  assumes "start + row + length keys < 2 ^ 64"
  shows "\<exists>b st'. index_group_keys reclaim reserve (of_nat start) row keys st = (Inr b, st')"
  using assms
proof (induction keys arbitrary: row st)
  case (Cons v keys)
  have "checked_add_word (of_nat start :: u64) (of_nat row) = Some (of_nat start + of_nat row)"
    using Cons.prems by (simp add: checked_add_word_def unat_of_nat take_bit_nat_eq_self_iff)
  with Cons show ?case
    by (auto simp: u64_try_from_def split: prod.split bool.split)
qed auto

lemma build_loop_total:
  assumes "list_all2 (\<lambda>gid rows. store gid = Inr rows) gids gs"
    and "start + length (concat gs) < 2 ^ 64"
  shows "\<exists>i b. build_loop reclaim reserve store c gids (of_nat start) st = (Inr i, b)"
  using assms
proof (induction arbitrary: start st rule: list_all2_induct)
  case (Cons gid gids rows gs)
  have add: "checked_add_word (of_nat start :: u64) (of_nat (length rows)) = Some (of_nat (start + length rows))"
    using Cons.prems by (simp add: checked_add_word_def unat_of_nat take_bit_nat_eq_self_iff)
  have keys: "\<exists>b st'. index_group_keys reclaim reserve (of_nat start) 0 (map (\<lambda>row. row ! c) rows) st = (Inr b, st')"
    for st using Cons.prems by (intro index_group_keys_total) simp
  have rest: "\<exists>i b. build_loop reclaim reserve store c gids (of_nat (start + length rows)) st = (Inr i, b)" for st
    using Cons.prems by (intro Cons.IH) simp
  obtain ok1 st1 where push: "push_group reclaim reserve \<lparr> gl_page_id = gid, gl_start_offset = of_nat start,
      gl_row_count = of_nat (length rows) \<rparr> st = (ok1, st1)" by (metis surj_pair)
  obtain b2 st2 where "index_group_keys reclaim reserve (of_nat start) 0 (map (\<lambda>row. row ! c) rows) st1 =
      (Inr b2, st2)" using keys by blast
  with Cons.hyps(1) Cons.prems push add rest [of st2] show ?case
    by (cases ok1; cases b2) (simp_all add: u64_try_from_def del: of_nat_add)
qed simp

lemma ensure_pk_index_total:
  assumes "list_all2 (\<lambda>gid rows. store gid = Inr rows) gids gs" "length (concat gs) < 2 ^ 64"
    and "position scol_primary_key (node_columns sch) = Some c"
    and "ensure_pk_index reclaim reserve store sch gids (cache, budget) = (res, cache', budget')"
  shows "pc_index cache' \<noteq> Unbuilt"
  using build_loop_total [OF assms(1), of 0 reclaim reserve c "(pk_index_new, budget)"] assms(2-4)
  by (auto simp: ensure_pk_index_def build_pk_index_def split: if_splits option.splits)

lemma read_row_index:
  "read_row reclaim group_bytes store off loc (cache, budget) = (res, cache', budget') \<Longrightarrow>
    pc_index cache' = pc_index cache"
  by (auto simp: read_row_def drop_decoded_group_def cache_decoded_group_def Let_def
      split: sum.splits option.splits prod.splits bool.splits)

lemma cache_lookup_row_total:
  assumes "list_all2 (\<lambda>gid rows. store gid = Inr rows) gids gs" "length (concat gs) < 2 ^ 64"
    and "position scol_primary_key (node_columns sch) = Some c"
    and "cache_lookup_row reclaim reserve group_bytes store sch gids key (cache, budget) =
      (res, cache', budget')"
  shows "pc_index cache' \<noteq> Unbuilt"
proof -
  obtain r cache1 b1 where ens: "ensure_pk_index reclaim reserve store sch gids (cache, budget) = (r, cache1, b1)"
    by (metis prod_cases3)
  have "pc_index cache' = pc_index cache1"
    using assms(4) ens
    by (auto simp: cache_lookup_row_def dest!: read_row_index
        split: sum.splits pk_index_state.splits option.splits prod.splits)
  with ensure_pk_index_total [OF assms(1-3) ens] show ?thesis by simp
qed

lemma table_scan_eq:
  assumes "list_all2 (\<lambda>gid rows. store gid = Inr rows) (stored_group_ids cat (node_name sch)) gs"
    and "packed gs"
  shows "table_scan store cat sch = Inr (concat gs)"
proof -
  let ?gids = "stored_group_ids cat (node_name sch)"
  have len: "length ?gids = length gs" using assms(1) by (rule list_all2_lengthD)
  have "rfold (\<lambda>(index, group_id) rows. rbind (store group_id) (\<lambda>g.
      rbind (validate_group_position g index (length ?gids)) (\<lambda>_. Inr (rows @ g))))
      (enumerate n gids') acc = Inr (acc @ concat gs')"
    if "list_all2 (\<lambda>gid rows. store gid = Inr rows) gids' gs'" "n + length gs' = length gs"
      "\<And>i. i < length gs' \<Longrightarrow> gs' ! i = gs ! (n + i)" for gids' gs' n acc
    using that
  proof (induction arbitrary: n acc rule: list_all2_induct)
    case (Cons gid gids rows gs')
    have "length rows = NODE_GROUP_CAPACITY" if "n + 1 < length gs"
    proof -
      have "rows = gs ! n" using Cons.prems(2) [of 0] by simp
      moreover have "n < length (butlast (map length gs))" using that by simp
      ultimately show ?thesis
        using assms(2) that by (auto simp: packed_def list_all_length nth_butlast)
    qed
    then have "validate_group_position rows n (length ?gids) = Inr ()"
      by (auto simp: validate_group_position_def len)
    moreover have "gs' ! i = gs ! (Suc n + i)" if "i < length gs'" for i
      using Cons.prems(2) [of "Suc i"] that by simp
    ultimately show ?case using Cons by simp
  qed simp
  from this [OF assms(1), of 0 "[]"] show ?thesis by (simp add: table_scan_def Let_def)
qed

text \<open>A table that no commit of the chain touches.\<close>

lemma untouched_chain:
  assumes "\<forall>link \<in> set (commit_links_oldest_first head).
      bt_items (delta_nodes (link_delta link)) table = [] \<and>
      bt_items (delta_node_updates (link_delta link)) table = [] \<and>
      bt_items (delta_node_deletes (link_delta link)) table = []"
  shows "node_rows_oldest_first head table c = []" "node_dml_effects head table c = Inr no_effects"
    "spec_chain table c head base = base"
proof -
  have "fold (\<lambda>link. slots_of_link table c (link_delta link)) links st = st \<and>
      rfold (\<lambda>link. effects_of_link table c (link_delta link)) links eff = Inr eff \<and>
      fold (\<lambda>link. spec_delta table c (link_delta link)) links m = m"
    if "\<forall>link \<in> set links. bt_items (delta_nodes (link_delta link)) table = [] \<and>
      bt_items (delta_node_updates (link_delta link)) table = [] \<and>
      bt_items (delta_node_deletes (link_delta link)) table = []" for links st eff m
    using that
    by (induction links) (simp_all add: slots_of_link_def effects_of_link_def spec_delta_def)
  from this [OF assms] show "node_rows_oldest_first head table c = []"
    "node_dml_effects head table c = Inr no_effects" "spec_chain table c head base = base"
    by (simp_all add: node_rows_map_filter effective_node_rows_def List.map_filter_simps
        node_dml_effects_def spec_chain_def)
qed

text \<open>The effects a view shows on a key, and the rows below them.\<close>

lemma visible_dml_effects_eq:
  assumes "view_ok env view sch c gs cache"
    and "node_dml_effects (ps_chain (rv_state view)) (node_name sch) c = Inr eff"
  shows "visible_dml_effects view sch =
    (let vis = (\<lambda>k. if k \<in> eff_tombstones eff then Some VisibleDelete
        else map_option VisibleUpdate (bt_get (eff_updates eff) k))
     in case rv_own view of None \<Rightarrow> Inr vis
        | Some own \<Rightarrow> apply_own_dml_effects own (node_name sch) c vis)"
proof -
  have pk: "primary_key sch = Inr (c, scol_name (node_columns sch ! c))"
    using assms(1) by (simp add: view_ok_def primary_key_def)
  show ?thesis
  proof (cases "node_table (ps_catalog (rv_state view)) (node_name sch)")
    case None
    then have "eff = no_effects" using assms untouched_chain(2) by (auto simp: view_ok_def)
    with None pk show ?thesis
      by (simp add: visible_dml_effects_def no_effects_def fun_eq_iff Let_def cong: option.case_cong)
  next
    case (Some sch')
    from history_rep_chain [OF assms(2), of Map.empty] have wf: "bt_wf (eff_updates eff)"
      and keyed: "\<And>k r. bt_get (eff_updates eff) k = Some r \<Longrightarrow> row_key c r = Some k"
      by (auto simp: history_rep_def effects_ok_def replacements_keyed_def)
    have "visible_updates c (map snd (eff_updates eff)) Map.empty =
        Inr (\<lambda>k. map_option VisibleUpdate (bt_get (eff_updates eff) k))"
      by (simp add: visible_updates_eq [OF lookup_updates(2) [OF wf keyed]] fun_eq_iff
          lookup_updates(1) [OF wf keyed] split: option.split)
    moreover have "state_node_dml_effects (rv_state view) (node_name sch) = Inr eff"
      using Some assms by (simp add: state_node_dml_effects_def view_ok_def)
    ultimately show ?thesis
      using Some pk by (simp add: visible_dml_effects_def fun_eq_iff Let_def cong: if_cong)
  qed
qed

lemma checkpointed_node_row_eq:
  assumes "view_ok env view sch c gs cache" and "pk_try_from key = Inr k"
    and "checkpointed_node_row env (rv_state view) (node_name sch) key (cache, budget) = (res, cache', budget')"
  shows "(res = Inr (Indexed (lookup_row c (concat gs) k)) \<or> res = Inr Unavailable) \<and>
    cache_ok (re_store env) c (stored_group_ids (rv_catalog view) (node_name sch)) gs cache'"
proof (cases "node_table (ps_catalog (rv_state view)) (node_name sch)")
  case None
  with assms show ?thesis by (auto simp: checkpointed_node_row_def view_ok_def lookup_row_def)
next
  case (Some sch')
  let ?gids = "stored_group_ids (rv_catalog view) (node_name sch)"
  from assms(1) Some have same: "sch' = sch" "stored_group_ids (ps_catalog (rv_state view)) (node_name sch) = ?gids"
    and c: "position scol_primary_key (node_columns sch) = Some c"
    and gs: "list_all2 (\<lambda>gid rows. re_store env gid = Inr rows) ?gids gs" "length (concat gs) < 2 ^ 64"
      "keyed_rows c (concat gs)"
    and cok: "cache_ok (re_store env) c ?gids gs cache"
    by (auto simp: view_ok_def)
  have key: "is_key key" using assms(2) by (simp add: is_key_def)
  from assms(3) Some same have look: "cache_lookup_row (re_reclaim env) (re_reserve env) (re_group_bytes env)
      (re_store env) sch ?gids key (cache, budget) = (res, cache', budget')"
    by (simp add: checkpointed_node_row_def)
  note answer = cache_lookup_row_answer [OF gs(1) c cok key look]
  have "find (\<lambda>row. row ! c = key) (concat gs) = lookup_row c (concat gs) k"
  proof -
    have "row ! c = key \<longleftrightarrow> optional_row_pk row c = Some k" if "row \<in> set (concat gs)" for row
    proof -
      have "row_key c row \<noteq> None" using gs(3) that by (auto simp: keyed_rows_def list_all_iff)
      then have "slice_get row c = Some (row ! c)"
        by (auto simp: optional_row_pk_def slice_get_def split: if_splits)
      then show ?thesis using slice_get_is_key [OF assms(2), of row c] by simp
    qed
    then show ?thesis unfolding lookup_row_def by (intro find_cong) auto
  qed
  with answer cache_lookup_row_total [OF gs(1,2) c look] show ?thesis
    by (auto split: pk_index_state.splits)
qed

lemma resolve_node_row_eq:
  assumes ok: "view_ok env view sch c gs cache"
    and table: "node_table (rv_catalog view) table = Some sch"
    and query: "key_from_query sch c key = Inr k"
    and res: "resolve_node_row env view table key (cache, budget) = (res, cache', budget')"
  shows "res = (case view_table view (node_name sch) c (lookup_row c (concat gs)) k of
      Some row \<Rightarrow> Inr row | None \<Rightarrow> Inl missing_node_key) \<and>
    cache_ok (re_store env) c (stored_group_ids (rv_catalog view) (node_name sch)) gs cache'"
proof -
  let ?T = "node_name sch" and ?base = "lookup_row c (concat gs)" and ?head = "ps_chain (rv_state view)"
  let ?live = "find (\<lambda>r. optional_row_pk r c = Some k) (node_rows_oldest_first ?head ?T c)"
  from ok obtain eff where eff: "node_dml_effects ?head ?T c = Inr eff" by (auto simp: view_ok_def)
  have pk: "primary_key sch = Inr (c, scol_name (node_columns sch ! c))"
    and cok: "cache_ok (re_store env) c (stored_group_ids (rv_catalog view) ?T) gs cache"
    using ok by (simp_all add: view_ok_def primary_key_def)
  have key: "pk_try_from key = Inr k" by (rule key_from_query_key [OF query])
  have rep: "represents_at (?base k) ?live (k \<in> eff_tombstones eff) (bt_get (eff_updates eff) k)
      (spec_chain ?T c ?head ?base k)"
    by (rule overlay_live_rows(2) [OF eff])
  have live: "find (\<lambda>row. slice_get row c = Some key) (state_node_rows (rv_state view) ?T) = ?live"
  proof (cases "node_table (ps_catalog (rv_state view)) ?T")
    case None
    then show ?thesis using ok by (auto simp: view_ok_def state_node_rows_def untouched_chain(1))
  next
    case (Some sch')
    then have "state_primary_key_column (rv_state view) ?T = Some c"
      using ok by (auto simp: view_ok_def state_primary_key_column_def)
    then show ?thesis by (simp add: state_node_rows_def slice_get_is_key [OF key])
  qed
  obtain r1 cache1 b1 where ck: "checkpointed_node_row env (rv_state view) ?T key (cache, budget) = (r1, cache1, b1)"
    by (metis prod_cases3)
  note stored = checkpointed_node_row_eq [OF ok key ck]
  have scan: "table_scan (re_store env) (rv_catalog view) sch = Inr (concat gs)"
    using ok by (auto simp: view_ok_def intro: table_scan_eq)
  note vis = visible_dml_effects_eq [OF ok eff, unfolded Let_def]
  show ?thesis
  proof (cases "rv_own view")
    case None
    note facts = res stored ck live rep pk query vis cok scan None
    show ?thesis
      using facts
      by (auto simp: resolve_node_row_def table view_table_def represents_at_def own_node_row_def
          find_key_lookup [OF key] split: option.splits if_splits)
  next
    case (Some own)
    have own: "own_ok c ?T own" using ok Some by (simp add: view_ok_def)
    have own_row: "own_node_row view ?T c key = lookup_row c (bt_items (delta_nodes own) ?T) k"
      by (simp add: own_node_row_def Some find_key_lookup [OF key] bt_items_def lookup_row_def split: option.split)
    have rev: "lookup_row c (rev (bt_items (delta_nodes own) ?T)) k = lookup_row c (bt_items (delta_nodes own) ?T) k"
      using own by (simp add: own_ok_def lookup_row_rev)
    note facts = res stored ck live rep pk query vis cok scan Some own_row
    show ?thesis
      using facts lookup_row_None [of c "bt_items (delta_nodes own) ?T" k]
      by (auto simp: resolve_node_row_def table view_table_def represents_at_def
          apply_own_dml_effects_eq [OF own] spec_delta_at rev find_key_lookup [OF key]
          split: option.splits if_splits)
  qed
qed

text \<open>
  C13. A transaction reads its snapshot and its own writes: on a sound view, resolving a primary key
  returns exactly the row that the committed history of the snapshot followed by the own writes of
  the transaction gives it, and reports a missing key exactly when there is none, whether the row is
  found in the overlay, through the primary-key cache or by the scan.
\<close>

theorem transaction_reads_exact:
  assumes "view_ok env view sch c gs cache"
    and "node_table (rv_catalog view) table = Some sch"
    and "key_from_query sch c key = Inr k"
  shows "fst (resolve_node_row env view table key (cache, budget)) =
    (case view_table view (node_name sch) c (lookup_row c (concat gs)) k of
       Some row \<Rightarrow> Inr row | None \<Rightarrow> Inl missing_node_key)"
  using resolve_node_row_eq [OF assms, of budget]
  by (cases "resolve_node_row env view table key (cache, budget)") auto

definition sample_env :: read_env where
  "sample_env = \<lparr> re_reclaim = None, re_reserve = (\<lambda>_. True), re_group_bytes = (\<lambda>_. None),
    re_store = (\<lambda>_. Inr [[VInt64 3, VString ''z''], [VInt64 4, VString ''y'']]) \<rparr>"

definition sample_read_catalog :: catalog where
  "sample_read_catalog = catalog_default\<lparr> cat_node_tables := [sample_node_schema],
    cat_storage := [(''T'', StorageNode \<lparr> ts_groups = [9] \<rparr>)] \<rparr>"

definition sample_view :: read_view where
  "sample_view = \<lparr>
    rv_state = \<lparr> ps_catalog = sample_read_catalog, ps_chain = sample_chain, ps_last_commit_lsn = 9,
      ps_catalog_generation = 4, ps_recent_summaries = [] \<rparr>,
    rv_catalog = sample_read_catalog,
    rv_own = Some (delta_default\<lparr> delta_node_deletes := [(''T'', [VInt64 2])] \<rparr>) \<rparr>"

lemma sample_view_ok:
  "view_ok sample_env sample_view sample_node_schema 0
    [[[VInt64 3, VString ''z''], [VInt64 4, VString ''y'']]] cache_default"
proof -
  have ids: "stored_group_ids sample_read_catalog ''T'' = [9]" by code_simp
  have table: "node_table sample_read_catalog ''T'' = Some sample_node_schema" by code_simp
  have "keyed_rows 0 [[VInt64 3, VString ''z''], [VInt64 4, VString ''y'']]" by code_simp
  moreover have "packed [[[VInt64 3, VString ''z''], [VInt64 4, VString ''y'']]]"
    by (simp add: packed_def NODE_GROUP_CAPACITY_def)
  moreover have "own_ok 0 ''T'' (delta_default\<lparr> delta_node_deletes := [(''T'', [VInt64 2])] \<rparr>)"
    by code_simp
  ultimately show ?thesis
    using sample_effects
    by (simp add: view_ok_def sample_view_def ids table sample_node_schema_def sample_env_def
        cache_ok_def cache_default_def)
qed

theorem transaction_reads_exact_witness:
  "fst (resolve_node_row sample_env sample_view ''t'' (VInt64 2) (cache_default, budget_new 4096)) =
      Inl missing_node_key"
proof -
  have "node_table (rv_catalog sample_view) ''t'' = Some sample_node_schema" by code_simp
  moreover have "key_from_query sample_node_schema 0 (VInt64 2) = Inr (PkInt64 2)" by code_simp
  moreover have "view_table sample_view (node_name sample_node_schema) 0
      (lookup_row 0 (concat [[[VInt64 3, VString ''z''], [VInt64 4, VString ''y'']]])) (PkInt64 2) = None"
    by (simp add: view_table_def sample_view_def spec_delta_at sample_node_schema_def delta_default_def
        bt_items_def bt_get_def lookup_row_def delete_keys_def Let_def)
  ultimately show ?thesis
    using transaction_reads_exact [OF sample_view_ok] by simp
qed

end
