(* ===== verification/WriteSet.thy ===== *)
theory WriteSet
  imports ReadView
begin

text \<open>
  The write set of a transaction (\<^verbatim>\<open>devondb/src/txn.rs\<close>) and the claims on keys that conflict
  detection derives from it (\<^verbatim>\<open>devondb/src/database/commit.rs\<close>). An HNSW creation intent runs alone
  in its transaction and never reaches the log; it is the flag \<open>ws_hnsw_create\<close>.
\<close>

section \<open>Pending writes\<close>

record pending_edge =
  pe_from_key :: devon_value
  pe_to_key :: devon_value
  pe_values :: "devon_value list"

record pending_detach =
  pd_table :: string
  pd_key :: devon_value

record write_set =
  ws_nodes :: "(string, row list) btree"
  ws_node_updates :: "(string, row list) btree"
  ws_node_deletes :: "(string, devon_value list) btree"
  ws_edges :: "(string, pending_edge list) btree"
  ws_detaches :: "pending_detach list"
  ws_rel_tombstones :: "(string, rel_endpoint_tombstones) btree"
  ws_ddl :: "ddl_op list"
  ws_inserted_pks :: claims
  ws_hnsw_create :: bool
  ws_charged :: nat

definition write_set_default :: write_set where
  "write_set_default = \<lparr> ws_nodes = [], ws_node_updates = [], ws_node_deletes = [], ws_edges = [],
     ws_detaches = [], ws_rel_tombstones = [], ws_ddl = [], ws_inserted_pks = [],
     ws_hnsw_create = False, ws_charged = 0 \<rparr>"

definition write_set_is_empty :: "write_set \<Rightarrow> bool" where
  "write_set_is_empty w \<longleftrightarrow> ws_nodes w = [] \<and> ws_node_updates w = [] \<and> ws_node_deletes w = [] \<and>
    ws_edges w = [] \<and> ws_detaches w = [] \<and> ws_rel_tombstones w = [] \<and> ws_ddl w = [] \<and>
    \<not> ws_hnsw_create w"

section \<open>Byte estimates\<close>

definition checked_accumulate :: "nat \<Rightarrow> nat \<Rightarrow> nat devon_result" where
  "checked_accumulate bytes acc =
    ok_or (BudgetExceeded ''write set byte estimate exceeds usize::MAX'') (checked_add_usize acc bytes)"

definition estimate_map_entry :: "string \<Rightarrow> nat \<Rightarrow> nat devon_result" where
  "estimate_map_entry table acc =
    rbind (checked_accumulate MAP_ENTRY_OVERHEAD_BYTES acc) (checked_accumulate (length table))"

definition ws_estimate_columns :: "schema_column list \<Rightarrow> nat \<Rightarrow> nat devon_result" where
  "ws_estimate_columns columns acc =
    rfold (\<lambda>col acc. rbind (checked_accumulate SCHEMA_COLUMN_OVERHEAD_BYTES acc)
      (checked_accumulate (length (scol_name col)))) columns acc"

definition ws_estimate_values :: "devon_value list \<Rightarrow> nat \<Rightarrow> nat devon_result" where
  "ws_estimate_values vs acc = rfold (\<lambda>v. checked_accumulate (value_approx_bytes v)) vs acc"

abbreviation entry_unless :: "bool \<Rightarrow> string \<Rightarrow> nat \<Rightarrow> nat devon_result" where
  "entry_unless present table acc \<equiv> (if present then Inr acc else estimate_map_entry table acc)"

definition node_dml_bytes :: "(string, row list) btree \<Rightarrow> string \<Rightarrow> row \<Rightarrow> nat devon_result" where
  "node_dml_bytes m table row =
    rbind (entry_unless (bt_get m table \<noteq> None) table 0) (\<lambda>acc.
    rbind (checked_accumulate ROW_OVERHEAD_BYTES acc) (ws_estimate_values row))"

definition node_insert_bytes ::
    "write_set \<Rightarrow> string \<Rightarrow> row list \<Rightarrow> devon_value list \<Rightarrow> nat devon_result" where
  "node_insert_bytes w table rows keys =
    rbind (entry_unless (bt_get (ws_nodes w) table \<noteq> None) table 0) (\<lambda>acc.
    rbind (entry_unless (bt_get (ws_inserted_pks w) table \<noteq> None) table acc) (\<lambda>acc.
    rbind (rfold (\<lambda>row acc. rbind (checked_accumulate ROW_OVERHEAD_BYTES acc) (ws_estimate_values row))
      rows acc) (ws_estimate_values keys)))"

definition rel_insert_bytes ::
    "write_set \<Rightarrow> string \<Rightarrow> pending_edge list \<Rightarrow> string \<Rightarrow> string \<Rightarrow> bool \<Rightarrow> bool \<Rightarrow> nat devon_result" where
  "rel_insert_bytes w table edges from_table to_table from_claims_staged to_claims_staged =
    rbind (entry_unless (bt_get (ws_edges w) table \<noteq> None) table 0) (\<lambda>acc.
    rbind (entry_unless from_claims_staged from_table acc) (\<lambda>acc.
    rbind (entry_unless (\<not> (from_table \<noteq> to_table \<and> \<not> to_claims_staged)) to_table acc) (\<lambda>acc.
    rfold (\<lambda>edge acc.
      rbind (checked_accumulate OVERLAY_EDGE_OVERHEAD_BYTES acc) (\<lambda>acc.
      rbind (checked_accumulate (value_approx_bytes (pe_from_key edge)) acc) (\<lambda>acc.
      rbind (checked_accumulate (value_approx_bytes (pe_to_key edge)) acc) (\<lambda>acc.
      rbind (ws_estimate_values (pe_values edge) acc) (\<lambda>acc.
      rbind (checked_accumulate (value_approx_bytes (pe_from_key edge)) acc)
        (checked_accumulate (value_approx_bytes (pe_to_key edge)))))))) edges acc)))"

type_synonym tombstone_claim = "string \<times> bool \<times> u64"

definition tombstone_staged :: "write_set \<Rightarrow> tombstone_claim \<Rightarrow> bool" where
  "tombstone_staged w claim =
    (case claim of (rel, from_side, offset) \<Rightarrow>
      (case bt_get (ws_rel_tombstones w) rel of
         None \<Rightarrow> False
       | Some roles \<Rightarrow> offset \<in> (if from_side then from_offsets roles else to_offsets roles)))"

definition detach_claim_bytes ::
    "write_set \<Rightarrow> tombstone_claim list \<Rightarrow> nat \<times> tombstone_claim \<Rightarrow> nat \<Rightarrow> nat devon_result" where
  "detach_claim_bytes w tombstones = (\<lambda>(index, claim) acc.
    rbind
      (if bt_get (ws_rel_tombstones w) (fst claim) = None \<and>
          \<not> list_ex (\<lambda>previous. fst previous = fst claim) (take index tombstones)
       then
         rbind (estimate_map_entry (fst claim) acc)
           (checked_accumulate REL_ENDPOINT_TOMBSTONES_OVERHEAD_BYTES)
       else Inr acc) (\<lambda>acc.
    if \<not> tombstone_staged w claim \<and> claim \<notin> set (take index tombstones)
    then checked_accumulate REL_TOMBSTONE_OFFSET_OVERHEAD_BYTES acc
    else Inr acc))"

definition detach_bytes :: "write_set \<Rightarrow> pending_detach \<Rightarrow> tombstone_claim list \<Rightarrow> nat devon_result" where
  "detach_bytes w intent tombstones =
    rbind (checked_accumulate (length (pd_table intent)) ROW_OVERHEAD_BYTES) (\<lambda>acc.
    rbind (checked_accumulate (value_approx_bytes (pd_key intent)) acc) (\<lambda>acc.
    rbind (entry_unless (list_ex (\<lambda>staged. pd_table staged = pd_table intent) (ws_detaches w))
      (pd_table intent) acc) (\<lambda>acc.
    rbind
      (if list_ex (\<lambda>staged. pd_table staged = pd_table intent \<and> pd_key staged = pd_key intent) (ws_detaches w)
       then Inr acc else checked_accumulate (value_approx_bytes (pd_key intent)) acc) (\<lambda>acc.
    rfold (detach_claim_bytes w tombstones) (enumerate 0 tombstones) acc))))"

fun ddl_bytes :: "ddl_op \<Rightarrow> nat devon_result" where
  "ddl_bytes (OpCreateNodeTable sch) =
    rbind (checked_accumulate (length (node_name sch)) DDL_OP_OVERHEAD_BYTES)
      (ws_estimate_columns (node_columns sch))"
| "ddl_bytes (OpCreateRelTable sch) =
    rbind (checked_accumulate (length (rel_name sch)) DDL_OP_OVERHEAD_BYTES) (\<lambda>acc.
    rbind (checked_accumulate (length (rel_from sch)) acc) (\<lambda>acc.
    rbind (checked_accumulate (length (rel_to sch)) acc)
      (ws_estimate_columns (rel_columns sch))))"

section \<open>Transactions\<close>

record transaction =
  tx_id :: u64
  tx_state :: published_state
  tx_catalog :: catalog
  tx_writes :: write_set
  tx_poisoned :: "string option"
  tx_registered :: bool

definition transaction_new :: "u64 \<Rightarrow> published_state \<Rightarrow> transaction" where
  "transaction_new txn_id state = \<lparr> tx_id = txn_id, tx_state = state, tx_catalog = ps_catalog state,
     tx_writes = write_set_default, tx_poisoned = None, tx_registered = True \<rparr>"

definition poison_error :: "transaction \<Rightarrow> devon_error option" where
  "poison_error tx = map_option BudgetExceeded (tx_poisoned tx)"

text \<open>
  \<open>execute\<close> runs a statement, here the function \<open>run\<close>, and poisons the transaction on a budget error.
\<close>

definition transaction_execute ::
    "(transaction \<times> 's \<Rightarrow> unit devon_result \<times> transaction \<times> 's)
      \<Rightarrow> transaction \<times> 's \<Rightarrow> unit devon_result \<times> transaction \<times> 's" where
  "transaction_execute run st =
    (case poison_error (fst st) of
       Some e \<Rightarrow> (Inl e, st)
     | None \<Rightarrow>
         (case run st of
            (Inl (BudgetExceeded context), tx, rest) \<Rightarrow>
              (Inl (BudgetExceeded context), tx\<lparr> tx_poisoned := Some context \<rparr>, rest)
          | other \<Rightarrow> other))"

text \<open>\<open>finish\<close> releases the charge and deregisters the snapshot; the registry maps ids to LSNs.\<close>

definition transaction_finish ::
    "transaction \<Rightarrow> memory_budget \<Rightarrow> (u64, u64) btree \<Rightarrow> transaction \<times> memory_budget \<times> (u64, u64) btree" where
  "transaction_finish tx budget write_txns =
    (tx\<lparr> tx_writes := (tx_writes tx)\<lparr> ws_charged := 0 \<rparr>, tx_registered := False \<rparr>,
     release budget (ws_charged (tx_writes tx)),
     if tx_registered tx then bt_remove (tx_id tx) write_txns else write_txns)"

section \<open>Claims\<close>

definition push_new :: "devon_value \<Rightarrow> devon_value list \<Rightarrow> devon_value list" where
  "push_new key keys = (if key \<in> set keys then keys else keys @ [key])"

definition detach_pks_from_writes :: "write_set \<Rightarrow> claims" where
  "detach_pks_from_writes w =
    fold (\<lambda>intent. bt_entry (pd_table intent) [] (push_new (pd_key intent))) (ws_detaches w) []"

definition push_unique_claim ::
    "string \<Rightarrow> devon_value \<Rightarrow> claims \<times> (string \<times> pk_key) set \<Rightarrow> (claims \<times> (string \<times> pk_key) set) devon_result" where
  "push_unique_claim table key = (\<lambda>(claims, seen).
    rbind (map_err (\<lambda>_. Corrupt ''relationship endpoint claim for node table {} has invalid primary key {}'')
      (pk_try_from key)) (\<lambda>claim.
    Inr (if (table, claim) \<in> seen then (claims, seen)
      else (bt_entry table [] (\<lambda>keys. keys @ [key]) claims, insert (table, claim) seen))))"

definition edge_endpoint_pks_from_writes :: "catalog \<Rightarrow> write_set \<Rightarrow> claims devon_result" where
  "edge_endpoint_pks_from_writes cat w =
    rbind (rfold (\<lambda>(rel, edges) st.
      rbind (ok_or (Corrupt ''relationship write set names unknown table {} while deriving conflict claims'')
        (rel_table cat rel)) (\<lambda>sch.
      rfold (\<lambda>edge st.
        rbind (push_unique_claim (rel_from sch) (pe_from_key edge) st)
          (push_unique_claim (rel_to sch) (pe_to_key edge))) edges st)) (ws_edges w) ([], {}))
      (\<lambda>(claims, seen). Inr claims)"

definition edge_endpoint_table_staged :: "catalog \<Rightarrow> write_set \<Rightarrow> string \<Rightarrow> bool devon_result" where
  "edge_endpoint_table_staged cat w table =
    rfold (\<lambda>(rel, _) found.
      if found then Inr True
      else
        rbind (ok_or (Corrupt ''relationship write set names unknown table {} while estimating conflict claims'')
          (rel_table cat rel)) (\<lambda>sch. Inr (rel_from sch = table \<or> rel_to sch = table)))
      (ws_edges w) False"

text \<open>The keys of staged updates join those of staged deletes, table by table.\<close>

definition merge_update_keys ::
    "catalog \<Rightarrow> (string, row list) btree \<Rightarrow> claims \<Rightarrow> claims devon_result" where
  "merge_update_keys cat updates claims =
    rfold (\<lambda>(table, rows) claims.
      rbind (ok_or (Corrupt ''DML write set names unknown node table {}'') (node_table cat table)) (\<lambda>sch.
      rbind (primary_key sch) (\<lambda>(key_index, _).
      rbind (rfold (\<lambda>row keys.
        rbind (ok_or (Corrupt ''staged update lost its primary-key value'') (slice_get row key_index)) (\<lambda>key.
        Inr (push_new key keys))) rows (bt_items claims table)) (\<lambda>keys.
      Inr (bt_insert table keys claims))))) updates claims"

definition dml_pks_from_writes :: "catalog \<Rightarrow> write_set \<Rightarrow> claims devon_result" where
  "dml_pks_from_writes cat w = merge_update_keys cat (ws_node_updates w) (ws_node_deletes w)"

fun ddl_name :: "ddl_op \<Rightarrow> string" where
  "ddl_name (OpCreateNodeTable sch) = node_name sch"
| "ddl_name (OpCreateRelTable sch) = rel_name sch"

definition summary_from_writes :: "catalog \<Rightarrow> write_set \<Rightarrow> commit_summary devon_result" where
  "summary_from_writes cat w =
    rbind (dml_pks_from_writes cat w) (\<lambda>dml.
    rbind (edge_endpoint_pks_from_writes cat w) (\<lambda>edges.
    Inr \<lparr> sum_inserted_pks = ws_inserted_pks w, sum_dml_pks = dml,
          sum_detach_pks = detach_pks_from_writes w, sum_edge_endpoint_pks = edges,
          sum_created_tables = map ddl_name (ws_ddl w) \<rparr>))"

end
