(* ===== verification/Conflicts.thy ===== *)
theory Conflicts
  imports WriteSet
begin

text \<open>
  Optimistic concurrency (\<^verbatim>\<open>devondb/src/database/commit.rs\<close>, \<^verbatim>\<open>checkpoint.rs\<close>, \<^verbatim>\<open>options.rs\<close>):
  a transaction commits only if no commit after its snapshot claims a key it claims. The summaries of
  earlier commits are kept as long as a registered transaction may need them.
\<close>

section \<open>Detection\<close>

definition conflicting_key :: "commit_summary \<Rightarrow> string \<Rightarrow> devon_value list \<Rightarrow> devon_value option" where
  "conflicting_key summary table keys =
    find (\<lambda>key. key \<in> set (bt_items (sum_inserted_pks summary) table) \<or>
      key \<in> set (bt_items (sum_dml_pks summary) table)) keys"

fun asymmetric_conflict :: "claims \<Rightarrow> claims \<Rightarrow> (string \<times> devon_value) option" where
  "asymmetric_conflict [] committed = None"
| "asymmetric_conflict ((table, keys) # ours) committed =
    (case find (\<lambda>key. key \<in> set (bt_items committed table)) keys of
       Some key \<Rightarrow> Some (table, key)
     | None \<Rightarrow> asymmetric_conflict ours committed)"

definition write_conflict :: "bool \<Rightarrow> devon_error" where
  "write_conflict inserted = TransactionConflict
    (if inserted then ''node table {} primary key {} was inserted by a concurrent transaction''
     else ''node table {} primary key {} was written by a concurrent transaction'')"

fun written_conflict :: "write_set \<Rightarrow> commit_summary \<Rightarrow> claims \<Rightarrow> unit devon_result" where
  "written_conflict w summary [] = Inr ()"
| "written_conflict w summary ((table, keys) # claims) =
    (case conflicting_key summary table keys of
       Some key \<Rightarrow> Inl (write_conflict
         (key \<in> set (bt_items (ws_inserted_pks w) table) \<and>
          key \<in> set (bt_items (sum_inserted_pks summary) table)))
     | None \<Rightarrow> written_conflict w summary claims)"

definition check_summary ::
    "write_set \<Rightarrow> claims \<Rightarrow> claims \<Rightarrow> claims \<Rightarrow> commit_summary \<Rightarrow> unit devon_result" where
  "check_summary w dml_pks detach_pks edge_endpoint_pks summary =
    rbind (written_conflict w summary (ws_inserted_pks w @ dml_pks)) (\<lambda>_.
    if asymmetric_conflict detach_pks (sum_edge_endpoint_pks summary) \<noteq> None \<or>
       asymmetric_conflict edge_endpoint_pks (sum_detach_pks summary) \<noteq> None
    then Inl (TransactionConflict
      ''node table {} primary key {} was touched by a concurrent detach/incident-edge insert'')
    else if list_ex (\<lambda>ddl. list_ex (\<lambda>created. fold_name created = fold_name (ddl_name ddl))
        (sum_created_tables summary)) (ws_ddl w)
    then Inl (TransactionConflict ''table {} was created by a concurrent transaction'')
    else Inr ())"

fun detect_loop ::
    "u64 \<Rightarrow> (commit_summary \<Rightarrow> unit devon_result) \<Rightarrow> (u64 \<times> commit_summary) list \<Rightarrow> unit devon_result" where
  "detect_loop snapshot_lsn check [] = Inr ()"
| "detect_loop snapshot_lsn check ((lsn, summary) # older) =
    (if lsn \<le> snapshot_lsn then Inr ()
     else rbind (check summary) (\<lambda>_. detect_loop snapshot_lsn check older))"

definition detect_conflict :: "published_state \<Rightarrow> transaction \<Rightarrow> unit devon_result" where
  "detect_conflict current tx =
    rbind (dml_pks_from_writes (tx_catalog tx) (tx_writes tx)) (\<lambda>dml_pks.
    rbind (edge_endpoint_pks_from_writes (tx_catalog tx) (tx_writes tx)) (\<lambda>edge_endpoint_pks.
    detect_loop (ps_last_commit_lsn (tx_state tx))
      (check_summary (tx_writes tx) dml_pks (detach_pks_from_writes (tx_writes tx)) edge_endpoint_pks)
      (rev (ps_recent_summaries current))))"

section \<open>What it detects\<close>

abbreviation claimed :: "claims \<Rightarrow> string \<Rightarrow> devon_value \<Rightarrow> bool" where
  "claimed claims table key \<equiv> key \<in> set (bt_items claims table)"

abbreviation written :: "commit_summary \<Rightarrow> string \<Rightarrow> devon_value \<Rightarrow> bool" where
  "written s table key \<equiv> claimed (sum_inserted_pks s) table key \<or> claimed (sum_dml_pks s) table key"

text \<open>Two commits that must not both happen when one does not see the other.\<close>

definition conflicts :: "commit_summary \<Rightarrow> commit_summary \<Rightarrow> bool" where
  "conflicts ours theirs \<longleftrightarrow>
    (\<exists>table key. written ours table key \<and> written theirs table key) \<or>
    (\<exists>table key. claimed (sum_detach_pks ours) table key \<and> claimed (sum_edge_endpoint_pks theirs) table key) \<or>
    (\<exists>table key. claimed (sum_edge_endpoint_pks ours) table key \<and> claimed (sum_detach_pks theirs) table key) \<or>
    (\<exists>a \<in> set (sum_created_tables ours). \<exists>b \<in> set (sum_created_tables theirs). fold_name a = fold_name b)"

lemma claimed_iff:
  assumes "bt_wf m"
  shows "claimed m table key \<longleftrightarrow> (\<exists>keys. (table, keys) \<in> set m \<and> key \<in> set keys)"
  using bt_wf_distinct [OF assms]
  by (auto simp: bt_items_def bt_get_def split: option.split dest: map_of_SomeD)

lemma written_conflict_iff:
  "written_conflict w summary claims = Inr () \<longleftrightarrow>
    (\<forall>(table, keys) \<in> set claims. \<forall>key \<in> set keys. \<not> written summary table key)"
  by (induction w summary claims rule: written_conflict.induct)
    (auto simp: conflicting_key_def find_None_iff find_Some_iff split: option.split)

lemma asymmetric_conflict_iff:
  "asymmetric_conflict ours committed = None \<longleftrightarrow>
    (\<forall>(table, keys) \<in> set ours. \<forall>key \<in> set keys. \<not> claimed committed table key)"
  by (induction ours committed rule: asymmetric_conflict.induct)
    (auto simp: find_None_iff find_Some_iff split: option.split)

lemma detect_loop_iff:
  assumes "sorted_wrt (\<lambda>a b. fst b < fst a) entries"
  shows "detect_loop snapshot check entries = Inr () \<longleftrightarrow>
    (\<forall>(lsn, summary) \<in> set entries. snapshot < lsn \<longrightarrow> check summary = Inr ())"
  using assms
proof (induction entries)
  case (Cons entry entries)
  obtain lsn summary where entry: "entry = (lsn, summary)" by fastforce
  show ?case
  proof (cases "lsn \<le> snapshot")
    case True
    with Cons.prems have "\<not> snapshot < fst older" if "older \<in> set entries" for older
      using that by (auto simp: entry not_less)
    with True show ?thesis by (auto simp: entry)
  next
    case False
    with Cons show ?thesis by (auto simp: entry rbind_eq_Inr)
  qed
qed simp

text \<open>The claims a write set gives are ordered maps.\<close>

definition ws_wf :: "write_set \<Rightarrow> bool" where
  "ws_wf w \<longleftrightarrow> bt_wf (ws_nodes w) \<and> bt_wf (ws_node_updates w) \<and> bt_wf (ws_node_deletes w) \<and>
    bt_wf (ws_edges w) \<and> bt_wf (ws_inserted_pks w)"

lemma dml_pks_wf: "dml_pks_from_writes cat w = Inr claims \<Longrightarrow> bt_wf (ws_node_deletes w) \<Longrightarrow> bt_wf claims"
  unfolding dml_pks_from_writes_def merge_update_keys_def
  by (rule rfold_invariant) (auto simp: rbind_eq_Inr bt_wf_insert)

lemma detach_pks_wf: "bt_wf (detach_pks_from_writes w)"
proof -
  have "bt_wf (fold (\<lambda>intent. bt_entry (pd_table intent) [] (push_new (pd_key intent))) xs m)"
    if "bt_wf m" for xs :: "pending_detach list" and m
    using that by (induction xs arbitrary: m) (simp_all add: bt_wf_entry)
  then show ?thesis by (simp add: detach_pks_from_writes_def)
qed

lemma push_unique_claim_wf:
  "push_unique_claim table key st = Inr st' \<Longrightarrow> bt_wf (fst st) \<Longrightarrow> bt_wf (fst st')"
  by (auto simp: push_unique_claim_def rbind_eq_Inr bt_wf_entry split: if_splits prod.splits)

lemma edge_endpoint_pks_wf:
  assumes "edge_endpoint_pks_from_writes cat w = Inr claims"
  shows "bt_wf claims"
proof -
  from assms obtain seen where loop: "rfold (\<lambda>(rel, edges) st.
      rbind (ok_or (Corrupt ''relationship write set names unknown table {} while deriving conflict claims'')
        (rel_table cat rel)) (\<lambda>sch.
      rfold (\<lambda>edge st.
        rbind (push_unique_claim (rel_from sch) (pe_from_key edge) st)
          (push_unique_claim (rel_to sch) (pe_to_key edge))) edges st)) (ws_edges w) ([], {}) = Inr (claims, seen)"
    by (auto simp: edge_endpoint_pks_from_writes_def rbind_eq_Inr)
  have inner: "bt_wf (fst st')" if "rfold (\<lambda>edge st.
        rbind (push_unique_claim a (pe_from_key edge) st) (push_unique_claim b (pe_to_key edge))) edges st = Inr st'"
      "bt_wf (fst st)" for a b edges st st'
    using that by (rule rfold_invariant) (auto simp: rbind_eq_Inr dest: push_unique_claim_wf)
  have "bt_wf (fst (claims, seen))"
    using loop by (rule rfold_invariant) (auto simp: rbind_eq_Inr dest!: inner)
  then show ?thesis by simp
qed

lemma summary_from_writes_Inr:
  "summary_from_writes cat w = Inr ours \<longleftrightarrow>
    dml_pks_from_writes cat w = Inr (sum_dml_pks ours) \<and>
    edge_endpoint_pks_from_writes cat w = Inr (sum_edge_endpoint_pks ours) \<and>
    sum_inserted_pks ours = ws_inserted_pks w \<and> sum_detach_pks ours = detach_pks_from_writes w \<and>
    sum_created_tables ours = map ddl_name (ws_ddl w)"
  by (cases ours) (auto simp: summary_from_writes_def rbind_eq_Inr)

lemma check_summary_iff:
  assumes "summary_from_writes cat w = Inr ours" and "ws_wf w"
  shows "check_summary w (sum_dml_pks ours) (sum_detach_pks ours) (sum_edge_endpoint_pks ours) summary = Inr ()
    \<longleftrightarrow> \<not> conflicts ours summary"
proof -
  from assms have ours: "dml_pks_from_writes cat w = Inr (sum_dml_pks ours)"
    "edge_endpoint_pks_from_writes cat w = Inr (sum_edge_endpoint_pks ours)"
    "sum_inserted_pks ours = ws_inserted_pks w" "sum_detach_pks ours = detach_pks_from_writes w"
    "sum_created_tables ours = map ddl_name (ws_ddl w)"
    by (simp_all add: summary_from_writes_Inr)
  have wf: "bt_wf (sum_inserted_pks ours)" "bt_wf (sum_dml_pks ours)" "bt_wf (sum_detach_pks ours)"
    "bt_wf (sum_edge_endpoint_pks ours)"
    using assms(2) dml_pks_wf [OF ours(1)] edge_endpoint_pks_wf [OF ours(2)] detach_pks_wf
    by (simp_all add: ours ws_wf_def)
  have "written_conflict w summary (sum_inserted_pks ours @ sum_dml_pks ours) = Inr () \<longleftrightarrow>
      \<not> (\<exists>table key. written ours table key \<and> written summary table key)"
    unfolding written_conflict_iff claimed_iff [OF wf(1)] claimed_iff [OF wf(2)] by fastforce
  moreover have "asymmetric_conflict (sum_detach_pks ours) (sum_edge_endpoint_pks summary) = None \<longleftrightarrow>
      \<not> (\<exists>table key. claimed (sum_detach_pks ours) table key \<and> claimed (sum_edge_endpoint_pks summary) table key)"
    unfolding asymmetric_conflict_iff claimed_iff [OF wf(3)] by fastforce
  moreover have "asymmetric_conflict (sum_edge_endpoint_pks ours) (sum_detach_pks summary) = None \<longleftrightarrow>
      \<not> (\<exists>table key. claimed (sum_edge_endpoint_pks ours) table key \<and> claimed (sum_detach_pks summary) table key)"
    unfolding asymmetric_conflict_iff claimed_iff [OF wf(4)] by fastforce
  moreover have "list_ex (\<lambda>ddl. list_ex (\<lambda>created. fold_name created = fold_name (ddl_name ddl))
        (sum_created_tables summary)) (ws_ddl w) \<longleftrightarrow>
      (\<exists>a \<in> set (sum_created_tables ours). \<exists>b \<in> set (sum_created_tables summary). fold_name a = fold_name b)"
    by (simp add: list_ex_iff ours(5)) metis
  ultimately show ?thesis
    unfolding check_summary_def conflicts_def ours(3) [symmetric] rbind_eq_Inr by (auto split: if_splits)
qed

lemma detect_conflict_iff:
  assumes "summary_from_writes (tx_catalog tx) (tx_writes tx) = Inr ours" and "ws_wf (tx_writes tx)"
    and "sorted_wrt (<) (map fst (ps_recent_summaries current))"
  shows "detect_conflict current tx = Inr () \<longleftrightarrow>
    (\<forall>(lsn, summary) \<in> set (ps_recent_summaries current).
      ps_last_commit_lsn (tx_state tx) < lsn \<longrightarrow> \<not> conflicts ours summary)"
proof -
  have "sorted_wrt (\<lambda>a b. fst b < fst a) (rev (ps_recent_summaries current))"
    using assms(3) by (simp add: sorted_wrt_rev sorted_wrt_map)
  note loop = detect_loop_iff [OF this]
  from assms(1) have "dml_pks_from_writes (tx_catalog tx) (tx_writes tx) = Inr (sum_dml_pks ours)"
    "edge_endpoint_pks_from_writes (tx_catalog tx) (tx_writes tx) = Inr (sum_edge_endpoint_pks ours)"
    "sum_detach_pks ours = detach_pks_from_writes (tx_writes tx)"
    by (simp_all add: summary_from_writes_Inr)
  then show ?thesis
    using check_summary_iff [OF assms(1,2)] by (simp add: detect_conflict_def loop)
qed

end
