(* ===== verification/Commit.thy ===== *)
theory Commit
  imports Conflicts Wal
begin

text \<open>
  Committing a transaction (\<^verbatim>\<open>devondb/src/database/commit.rs\<close>): preparing the delta, its records and
  its summary, moving the charge of the write set to them, making the records durable and publishing
  the next state; and the checkpoint's share of the published state (\<^verbatim>\<open>checkpoint.rs\<close>).

  A key is resolved through the primary-key cache of its table, so the resolving operations pass on
  a cache per table and the budget. The HNSW proposals of a commit are derived data and not part of
  the model.
\<close>

section \<open>Preparing\<close>

type_synonym rel_delete_records = "(string, (rel_endpoint \<times> u64) list) btree"

type_synonym caches = "string \<Rightarrow> table_pk_cache"

definition view_resolve_key ::
    "read_env \<Rightarrow> read_view \<Rightarrow> string \<Rightarrow> devon_value \<Rightarrow> caches \<times> memory_budget
      \<Rightarrow> u64 devon_result \<times> caches \<times> memory_budget" where
  "view_resolve_key env view table key = (\<lambda>(caches, budget).
    let name = (case node_table (rv_catalog view) table of None \<Rightarrow> table | Some sch \<Rightarrow> node_name sch)
    in (case resolve_node_key env view table key (caches name, budget) of
          (res, cache, budget) \<Rightarrow> (res, caches(name := cache), budget)))"

text \<open>A loop that threads state and stops at the first error.\<close>

fun smapM :: "('a \<Rightarrow> 's \<Rightarrow> ('e + 'b) \<times> 's) \<Rightarrow> 'a list \<Rightarrow> 's \<Rightarrow> ('e + 'b list) \<times> 's" where
  "smapM f [] st = (Inr [], st)"
| "smapM f (x # xs) st =
    (case f x st of
       (Inl e, st) \<Rightarrow> (Inl e, st)
     | (Inr y, st) \<Rightarrow>
         (case smapM f xs st of
            (Inl e, st) \<Rightarrow> (Inl e, st)
          | (Inr ys, st) \<Rightarrow> (Inr (y # ys), st)))"

definition reject_interface_collision_for_node :: "catalog \<Rightarrow> string \<Rightarrow> unit devon_result" where
  "reject_interface_collision_for_node cat name =
    (if interface cat name \<noteq> None
     then Inl (InvalidArgument ''node table {} conflicts with interface {} under folded name resolution'')
     else Inr ())"

definition reject_node_collision_for_interface :: "catalog \<Rightarrow> string \<Rightarrow> unit devon_result" where
  "reject_node_collision_for_interface cat name =
    (if node_table cat name \<noteq> None
     then Inl (InvalidArgument ''interface {} conflicts with node table {} under folded name resolution'')
     else Inr ())"

definition validate_ddl_interface_collisions :: "catalog \<Rightarrow> ddl_op list \<Rightarrow> unit devon_result" where
  "validate_ddl_interface_collisions cat ddl =
    rfold (\<lambda>op _. case op of
        OpCreateNodeTable sch \<Rightarrow> reject_interface_collision_for_node cat (node_name sch)
      | OpCreateRelTable sch \<Rightarrow> Inr ()) ddl ()"

fun apply_ddl :: "ddl_op \<Rightarrow> catalog \<Rightarrow> catalog devon_result" where
  "apply_ddl (OpCreateNodeTable sch) cat =
    rbind (reject_interface_collision_for_node cat (node_name sch)) (\<lambda>_. add_node_table cat sch)"
| "apply_ddl (OpCreateRelTable sch) cat = add_rel_table cat sch"

definition apply_ddl_to_catalog :: "catalog \<Rightarrow> ddl_op list \<Rightarrow> catalog devon_result" where
  "apply_ddl_to_catalog cat ddl = rfold apply_ddl ddl cat"

definition reject_referenced_delete :: "catalog \<Rightarrow> node_table_schema \<Rightarrow> unit devon_result" where
  "reject_referenced_delete cat sch =
    (if list_ex (\<lambda>rel. fold_name (rel_from rel) = fold_name (node_name sch) \<or>
          fold_name (rel_to rel) = fold_name (node_name sch)) (cat_rel_tables cat)
     then Inl (InvalidArgument
       ''delete refused for node table {} because a relationship table names it as an endpoint; detach-delete is not supported'')
     else Inr ())"

definition validate_commit_dml_refusals :: "catalog \<Rightarrow> write_set \<Rightarrow> unit devon_result" where
  "validate_commit_dml_refusals cat w =
    rbind (rfold (\<lambda>table _.
      rbind (ok_or (Corrupt ''DML write set names unknown node table {}'') (node_table cat table)) (\<lambda>_. Inr ()))
      (map fst (ws_node_updates w) @ map fst (ws_node_deletes w)) ()) (\<lambda>_.
    rfold (\<lambda>table _.
      rbind (ok_or (Corrupt ''delete write set names unknown node table {}'') (node_table cat table)) (\<lambda>sch.
      if list_ex (\<lambda>intent. fold_name (pd_table intent) = fold_name table) (ws_detaches w) then Inr ()
      else reject_referenced_delete cat sch)) (map fst (ws_node_deletes w)) ())"

definition resolve_pending_edge ::
    "read_env \<Rightarrow> read_view \<Rightarrow> rel_table_schema \<Rightarrow> pending_edge \<Rightarrow> caches \<times> memory_budget
      \<Rightarrow> overlay_edge devon_result \<times> caches \<times> memory_budget" where
  "resolve_pending_edge env view sch edge st =
    (case view_resolve_key env view (rel_from sch) (pe_from_key edge) st of
       (Inl e, st) \<Rightarrow> (Inl e, st)
     | (Inr src, st) \<Rightarrow>
         (case view_resolve_key env view (rel_to sch) (pe_to_key edge) st of
            (Inl e, st) \<Rightarrow> (Inl e, st)
          | (Inr dst, st) \<Rightarrow>
              (Inr \<lparr> edge_from = src, edge_to = dst, edge_values = pe_values edge \<rparr>, st)))"

definition resolve_table_edges ::
    "read_env \<Rightarrow> read_view \<Rightarrow> string \<times> pending_edge list \<Rightarrow> caches \<times> memory_budget
      \<Rightarrow> (string \<times> overlay_edge list) devon_result \<times> caches \<times> memory_budget" where
  "resolve_table_edges env view = (\<lambda>(table, edges) st.
    case rel_table (rv_catalog view) table of
      None \<Rightarrow> (Inl (Corrupt ''write set names unknown relationship table {}''), st)
    | Some sch \<Rightarrow>
        (case smapM (resolve_pending_edge env view sch) edges st of
           (Inl e, st) \<Rightarrow> (Inl e, st)
         | (Inr table_edges, st) \<Rightarrow> (Inr (table, table_edges), st)))"

definition resolve_edges_for_view ::
    "read_env \<Rightarrow> published_state \<Rightarrow> catalog \<Rightarrow> commit_delta \<Rightarrow> (string, pending_edge list) btree
      \<Rightarrow> caches \<times> memory_budget
      \<Rightarrow> (string, overlay_edge list) btree devon_result \<times> caches \<times> memory_budget" where
  "resolve_edges_for_view env state cat own pending =
    (let view = \<lparr> rv_state = state, rv_catalog = cat, rv_own = Some own \<rparr>
     in smapM (resolve_table_edges env view) pending)"

definition append_rel_delete_claim ::
    "string \<Rightarrow> string \<Rightarrow> rel_endpoint \<Rightarrow> u64 \<Rightarrow> (rel_endpoint \<times> u64) list \<Rightarrow> (rel_endpoint \<times> u64) list" where
  "append_rel_delete_claim endpoint_table detached_table endpoint offset claims =
    (if fold_name endpoint_table = fold_name detached_table \<and> (endpoint, offset) \<notin> set claims
     then claims @ [(endpoint, offset)] else claims)"

definition rel_delete_claims ::
    "rel_table_schema \<Rightarrow> (pending_detach \<times> u64) list \<Rightarrow> (rel_endpoint \<times> u64) list" where
  "rel_delete_claims rel resolved =
    fold (\<lambda>(intent, offset) claims.
      append_rel_delete_claim (rel_to rel) (pd_table intent) EndpointTo offset
        (append_rel_delete_claim (rel_from rel) (pd_table intent) EndpointFrom offset claims)) resolved []"

definition rel_delete_records_of :: "catalog \<Rightarrow> (pending_detach \<times> u64) list \<Rightarrow> rel_delete_records" where
  "rel_delete_records_of cat resolved =
    fold (\<lambda>rel records.
      let claims = rel_delete_claims rel resolved
      in if claims \<noteq> [] then bt_insert (rel_name rel) claims records else records) (cat_rel_tables cat) []"

fun missing_is_corrupt :: "string \<Rightarrow> devon_error \<Rightarrow> devon_error" where
  "missing_is_corrupt msg (NotFound what) = Corrupt msg"
| "missing_is_corrupt msg e = e"

definition resolve_detaches_for_commit ::
    "read_env \<Rightarrow> published_state \<Rightarrow> catalog \<Rightarrow> commit_delta \<Rightarrow> pending_detach list
      \<Rightarrow> caches \<times> memory_budget \<Rightarrow> rel_delete_records devon_result \<times> caches \<times> memory_budget" where
  "resolve_detaches_for_commit env state cat own detaches st =
    (if detaches = [] then (Inr [], st)
     else
       (let resolution_delta = own\<lparr> delta_nodes := [], delta_node_deletes := [], delta_rel_tombstones := [] \<rparr>;
            view = \<lparr> rv_state = state, rv_catalog = cat, rv_own = Some resolution_delta \<rparr>
        in (case smapM (\<lambda>intent. view_resolve_key env view (pd_table intent) (pd_key intent)) detaches st of
              (Inl e, st) \<Rightarrow> (Inl (missing_is_corrupt ''detach target {} primary key {} stopped resolving at commit'' e), st)
            | (Inr offsets, st) \<Rightarrow> (Inr (rel_delete_records_of cat (zip detaches offsets)), st))))"

definition rel_tombstones_from_records :: "rel_delete_records \<Rightarrow> (string, rel_endpoint_tombstones) btree" where
  "rel_tombstones_from_records records =
    fold (\<lambda>(rel, claims) tombstones.
      bt_entry rel no_tombstones (fold (\<lambda>(endpoint, offset). add_tombstone endpoint offset) claims) tombstones)
      records []"

definition delta_of_writes :: "write_set \<Rightarrow> commit_delta" where
  "delta_of_writes w = delta_default\<lparr> delta_nodes := ws_nodes w, delta_node_updates := ws_node_updates w,
     delta_node_deletes := ws_node_deletes w, delta_ddl := ws_ddl w \<rparr>"

definition build_commit_delta ::
    "read_env \<Rightarrow> published_state \<Rightarrow> catalog \<Rightarrow> write_set \<Rightarrow> caches \<times> memory_budget
      \<Rightarrow> (commit_delta \<times> rel_delete_records) devon_result \<times> caches \<times> memory_budget" where
  "build_commit_delta env current cat w st =
    (let d = delta_of_writes w
     in (case resolve_edges_for_view env current cat d (ws_edges w) st of
           (Inl e, st) \<Rightarrow> (Inl (missing_is_corrupt ''relationship endpoint stopped resolving at commit: {}'' e), st)
         | (Inr edges, st) \<Rightarrow>
             (let d = d\<lparr> delta_edges := edges \<rparr>
              in (case resolve_detaches_for_commit env current cat d (ws_detaches w) st of
                    (Inl e, st) \<Rightarrow> (Inl e, st)
                  | (Inr records, st) \<Rightarrow>
                      (Inr (d\<lparr> delta_rel_tombstones := rel_tombstones_from_records records \<rparr>, records), st)))))"

record prepared_commit =
  pc_current :: published_state
  pc_catalog :: catalog
  pc_delta :: commit_delta
  pc_rel_delete_records :: rel_delete_records
  pc_summary :: commit_summary

definition prepare_commit ::
    "read_env \<Rightarrow> published_state \<Rightarrow> transaction \<Rightarrow> caches \<times> memory_budget
      \<Rightarrow> prepared_commit devon_result \<times> caches \<times> memory_budget" where
  "prepare_commit env current tx st =
    (case
       rbind (detect_conflict current tx) (\<lambda>_.
       rbind (validate_ddl_interface_collisions (ps_catalog current) (ws_ddl (tx_writes tx))) (\<lambda>_.
       rbind (map_err (\<lambda>_. Corrupt ''validated transaction DDL became invalid: {}'')
         (apply_ddl_to_catalog (ps_catalog current) (ws_ddl (tx_writes tx)))) (\<lambda>cat.
       rbind (validate_commit_dml_refusals cat (tx_writes tx)) (\<lambda>_. Inr cat)))) of
       Inl e \<Rightarrow> (Inl e, st)
     | Inr cat \<Rightarrow>
         (case build_commit_delta env current cat (tx_writes tx) st of
            (Inl e, st) \<Rightarrow> (Inl e, st)
          | (Inr (d, records), st) \<Rightarrow>
              (rbind (summary_from_writes cat (tx_writes tx)) (\<lambda>summary.
               Inr \<lparr> pc_current = current, pc_catalog = cat, pc_delta = d,
                     pc_rel_delete_records = records, pc_summary = summary \<rparr>), st)))"

section \<open>Charges\<close>

record commit_reservation =
  cr_link_bytes :: nat
  cr_summary_bytes :: nat

definition transfer_commit_charge ::
    "commit_delta \<Rightarrow> commit_summary \<Rightarrow> write_set \<times> memory_budget
      \<Rightarrow> commit_reservation devon_result \<times> write_set \<times> memory_budget" where
  "transfer_commit_charge d summary = (\<lambda>(w, budget).
    case
      rbind (rbind (delta_estimated_bytes d) (\<lambda>bytes.
        ok_or estimate_overflow (checked_add_usize COMMIT_LINK_OVERHEAD_BYTES bytes))) (\<lambda>link_bytes.
      rbind (summary_estimated_bytes summary) (\<lambda>summary_bytes.
      rbind (ok_or (BudgetExceeded ''commit publication byte estimate exceeds usize::MAX'')
        (checked_add_usize link_bytes summary_bytes)) (\<lambda>requested.
      Inr (link_bytes, summary_bytes, requested)))) of
      Inl e \<Rightarrow> (Inl e, w, budget)
    | Inr (link_bytes, summary_bytes, requested) \<Rightarrow>
        (case if requested > ws_charged w then try_charge budget (requested - ws_charged w) else (True, budget) of
           (False, budget) \<Rightarrow>
             (Inl (BudgetExceeded
                ''commit publication requested {} bytes with {} write-set bytes reserved, {} bytes charged, and limit {}''),
              w, budget)
         | (True, budget) \<Rightarrow>
             (Inr \<lparr> cr_link_bytes = link_bytes, cr_summary_bytes = summary_bytes \<rparr>,
              w\<lparr> ws_charged := 0 \<rparr>,
              if ws_charged w > requested then release budget (ws_charged w - requested) else budget)))"

section \<open>Records\<close>

fun ddl_payload_of :: "ddl_op \<Rightarrow> ddl_payload" where
  "ddl_payload_of (OpCreateNodeTable sch) = CreateNodeTable sch"
| "ddl_payload_of (OpCreateRelTable sch) = CreateRelTable sch"

definition wal_records :: "commit_delta \<Rightarrow> rel_delete_records \<Rightarrow> wal_payload list" where
  "wal_records d records =
    map (\<lambda>ddl. Ddl (ddl_payload_of ddl)) (delta_ddl d) @
    concat (map (\<lambda>(table, rows). map (NodeInsert table) rows) (delta_nodes d)) @
    concat (map (\<lambda>(rel, edges). map (\<lambda>e. RelInsert rel (edge_from e) (edge_to e) (edge_values e)) edges)
      (delta_edges d)) @
    concat (map (\<lambda>(table, rows). map (NodeUpdate table) rows) (delta_node_updates d)) @
    concat (map (\<lambda>(rel, claims). map (\<lambda>(endpoint, offset). RelDelete rel endpoint offset) claims) records) @
    concat (map (\<lambda>(table, keys). map (NodeDelete table) keys) (delta_node_deletes d))"

section \<open>Publishing\<close>

definition required_wal_flags :: "bool \<Rightarrow> bool \<Rightarrow> bool \<Rightarrow> u64" where
  "required_wal_flags has_dml has_rel_tombstones has_hnsw_mutations =
    (if has_dml then DML_WAL_FLAG else 0) OR
    (if has_rel_tombstones then REL_TOMBSTONE_WAL_FLAG else 0) OR
    (if has_hnsw_mutations then HNSW_MUTATION_WAL_FLAG else 0)"

text \<open>\<open>commit_feature_flags\<close> of the pager writes a superblock; its outcome is an argument.\<close>

definition set_wal_feature_flags :: "unit devon_result \<Rightarrow> u64 \<Rightarrow> u64 \<Rightarrow> unit devon_result \<times> u64" where
  "set_wal_feature_flags outcome required flags =
    (if flags AND required \<noteq> required
     then (case outcome of Inl e \<Rightarrow> (Inl e, flags) | Inr _ \<Rightarrow> (Inr (), flags OR required))
     else (Inr (), flags))"

definition folded_map_get :: "(string, 'v) btree \<Rightarrow> string \<Rightarrow> 'v option" where
  "folded_map_get m name = map_option snd (find (\<lambda>(stored, _). fold_name stored = fold_name name) m)"

definition delta_mutates_table :: "commit_delta \<Rightarrow> string \<Rightarrow> bool" where
  "delta_mutates_table d table \<longleftrightarrow>
    (case folded_map_get (delta_node_updates d) table of None \<Rightarrow> False | Some rows \<Rightarrow> rows \<noteq> []) \<or>
    (case folded_map_get (delta_node_deletes d) table of None \<Rightarrow> False | Some keys \<Rightarrow> keys \<noteq> [])"

definition delta_mutates_indexed_table :: "catalog \<Rightarrow> commit_delta \<Rightarrow> bool" where
  "delta_mutates_indexed_table cat d \<longleftrightarrow> list_ex (\<lambda>entry. delta_mutates_table d (ix_table entry)) (cat_indexes cat)"

text \<open>
  What the commit meets outside: the writes of its records, the write of the feature flags and the
  file synchronization.
\<close>

record commit_io =
  io_writes :: "nat \<Rightarrow> io_outcome"
  io_flags :: "unit devon_result"
  io_sync :: "unit devon_result"

record commit_pipe =
  cp_wal :: "wal_writer option"
  cp_flags :: u64

definition make_durable ::
    "serde_json \<Rightarrow> crc_fun \<Rightarrow> crc_append_fun \<Rightarrow> commit_io \<Rightarrow> u64 \<Rightarrow> wal_payload list \<Rightarrow> commit_pipe
      \<Rightarrow> u64 devon_result \<times> commit_pipe" where
  "make_durable js crc32c crc32c_append io required records pipe =
    (case encode_transaction js records of
       Inl e \<Rightarrow> (Inl e, pipe)
     | Inr encoded \<Rightarrow>
         (case cp_wal pipe of
            None \<Rightarrow> (Inl (ReadOnly ''no usable WAL writer''), pipe)
          | Some wal \<Rightarrow>
              (case set_wal_feature_flags (io_flags io) required (cp_flags pipe) of
                 (Inl e, flags) \<Rightarrow> (Inl e, pipe\<lparr> cp_flags := flags \<rparr>)
               | (Inr _, flags) \<Rightarrow>
                   (case append_seq (wal_append crc32c crc32c_append) (zip (map (io_writes io) [0..<length encoded]) encoded) None wal of
                      (Inl e, wal) \<Rightarrow> (Inl e, pipe\<lparr> cp_flags := flags, cp_wal := Some wal \<rparr>)
                    | (Inr lsn, wal) \<Rightarrow>
                        (rbind (io_sync io) (\<lambda>_.
                         ok_or (Corrupt ''non-empty transaction encoded no commit record'') lsn),
                         pipe\<lparr> cp_flags := flags, cp_wal := Some wal \<rparr>)))))"

definition next_state :: "prepared_commit \<Rightarrow> commit_link \<Rightarrow> u64 \<Rightarrow> published_state" where
  "next_state p link lsn = \<lparr> ps_catalog = pc_catalog p, ps_chain = Some link, ps_last_commit_lsn = lsn,
     ps_catalog_generation = ps_catalog_generation (pc_current p),
     ps_recent_summaries = ps_recent_summaries (pc_current p) @ [(lsn, pc_summary p)] \<rparr>"

text \<open>A failing publication drops the reservation and the summary, which releases their bytes.\<close>

definition publish_prepared_commit ::
    "serde_json \<Rightarrow> crc_fun \<Rightarrow> crc_append_fun \<Rightarrow> commit_io \<Rightarrow> prepared_commit \<Rightarrow> commit_reservation
      \<Rightarrow> commit_pipe \<times> memory_budget \<Rightarrow> published_state devon_result \<times> commit_pipe \<times> memory_budget" where
  "publish_prepared_commit js crc32c crc32c_append io p r = (\<lambda>(pipe, budget).
    let d = pc_delta p;
        dropped = release budget (cr_link_bytes r + cr_summary_bytes r);
        required = required_wal_flags (delta_node_updates d \<noteq> [] \<or> delta_node_deletes d \<noteq> [])
          (pc_rel_delete_records p \<noteq> []) (delta_mutates_indexed_table (pc_catalog p) d)
    in case
      rbind (summary_estimated_bytes (pc_summary p)) (\<lambda>bytes.
      if bytes \<noteq> cr_summary_bytes r
      then Inl (InvalidArgument ''commit summary reservation of {} bytes does not match the estimate of {} bytes'')
      else
        rbind (rbind (delta_estimated_bytes d) (\<lambda>bytes.
          ok_or (Corrupt ''commit link estimate overflows usize'')
            (checked_add_usize COMMIT_LINK_OVERHEAD_BYTES bytes))) (\<lambda>link_bytes.
        if link_bytes \<noteq> cr_link_bytes r
        then Inl (InvalidArgument ''commit reservation of {} bytes does not match the link estimate of {} bytes'')
        else Inr ())) of
      Inl e \<Rightarrow> (Inl e, pipe, dropped)
    | Inr _ \<Rightarrow>
        (case make_durable js crc32c crc32c_append io required (wal_records d (pc_rel_delete_records p)) pipe of
           (Inl e, pipe) \<Rightarrow> (Inl e, pipe, dropped)
         | (Inr lsn, pipe) \<Rightarrow>
             (case commit_link_new_arc_reserved (ps_chain (pc_current p)) lsn d (cr_link_bytes r) of
                Inl e \<Rightarrow> (Inl (Corrupt ''commit at LSN {} is durable but publication failed: {}''), pipe, dropped)
              | Inr link \<Rightarrow> (Inr (next_state p link lsn), pipe, budget))))"

section \<open>Checkpoints and snapshots\<close>

text \<open>\<open>write_txns\<close> maps registered transactions to the LSN of their snapshot.\<close>

definition retained_summaries ::
    "(u64, u64) btree \<Rightarrow> published_state \<Rightarrow> (u64 \<times> commit_summary) list" where
  "retained_summaries write_txns state =
    (if write_txns = [] then []
     else prune_recent_summaries (ps_recent_summaries state) (Min (snd ` set write_txns)))"

text \<open>What a checkpoint publishes; \<open>materialized\<close> is the catalog its tables were written to.\<close>

definition checkpoint_publish :: "(u64, u64) btree \<Rightarrow> catalog \<Rightarrow> published_state \<Rightarrow> published_state" where
  "checkpoint_publish write_txns materialized current =
    (if ps_chain current = None
     then current\<lparr> ps_recent_summaries := retained_summaries write_txns current \<rparr>
     else \<lparr> ps_catalog = materialized, ps_chain = None, ps_last_commit_lsn = ps_last_commit_lsn current,
            ps_catalog_generation = ps_last_commit_lsn current,
            ps_recent_summaries = retained_summaries write_txns current \<rparr>)"

definition begin_transaction ::
    "u64 \<Rightarrow> published_state \<Rightarrow> (u64, u64) btree \<Rightarrow> transaction \<times> (u64, u64) btree" where
  "begin_transaction txn_id state write_txns =
    (transaction_new txn_id state, bt_insert txn_id (ps_last_commit_lsn state) write_txns)"

end
