(* ===== verification/CommitRecords.thy ===== *)
theory CommitRecords
  imports Commit
begin

text \<open>
  The records of a commit: they are in the order the log demands, and reading them back gives the
  delta that is published. Each map of a delta is one section of the records; what the sections
  share is the locale \<open>delta_section\<close>.
\<close>

section \<open>Ordered maps, rebuilt in order\<close>

abbreviation push_entry :: "'k::linorder \<Rightarrow> 'v \<Rightarrow> ('k, 'v list) btree \<Rightarrow> ('k, 'v list) btree" where
  "push_entry k v \<equiv> bt_entry k [] (\<lambda>vs. vs @ [v])"

definition full_map :: "('k::linorder, 'v list) btree \<Rightarrow> bool" where
  "full_map m \<longleftrightarrow> bt_wf m \<and> list_all (\<lambda>(k, vs). vs \<noteq> []) m"

lemma bt_wf_append:
  "bt_wf (m @ m') \<longleftrightarrow> bt_wf m \<and> bt_wf m' \<and> (\<forall>k \<in> bt_keys m. \<forall>k' \<in> bt_keys m'. k < k')"
  by (auto simp: bt_wf_def bt_keys_def sorted_wrt_append)

lemma rebuild_map:
  assumes "bt_wf (acc @ m)" and "list_all (\<lambda>(k, vs). vs \<noteq> []) m"
  shows "fold (\<lambda>(k, vs). fold (push_entry k) vs) m acc = acc @ m"
  using assms
proof (induction m arbitrary: acc)
  case (Cons kv m)
  obtain k vs where kv: "kv = (k, vs)" by fastforce
  have "\<forall>k' \<in> bt_keys acc. k' < k"
    using Cons.prems(1) by (auto simp: bt_wf_append kv)
  then have "fold (push_entry k) vs acc = acc @ [(k, vs)]"
    using Cons.prems(2) by (intro bt_entry_push_all) (auto simp: kv)
  moreover have "fold (\<lambda>(k, vs). fold (push_entry k) vs) m (acc @ [(k, vs)]) = (acc @ [(k, vs)]) @ m"
    using Cons.prems by (intro Cons.IH) (simp_all add: kv)
  ultimately show ?case by (simp add: kv)
qed simp

lemma bt_insert_insert: "bt_insert k v (bt_insert k w m) = bt_insert k v m"
  by (induction m) auto

lemma bt_get_insert_same: "bt_get (bt_insert k v m) k = Some v"
  by (induction m) auto

lemma bt_entry_entry: "bt_entry k d f (bt_entry k d g m) = bt_entry k d (\<lambda>x. f (g x)) m"
  by (simp add: bt_entry_def bt_insert_insert bt_get_insert_same)

section \<open>Sections of the records\<close>

locale delta_section =
  fixes payload :: "string \<Rightarrow> 'v \<Rightarrow> wal_payload"
    and get :: "commit_delta \<Rightarrow> (string, 'v list) btree"
    and put :: "(string, 'v list) btree \<Rightarrow> commit_delta \<Rightarrow> commit_delta"
  assumes applies: "apply_payload (payload k v) d = Inr (put (push_entry k v (get d)) d)"
    and get_put: "get (put m d) = m"
    and put_put: "put m' (put m d) = put m' d"
    and put_get: "put (get d) d = d"
begin

lemma apply_entry:
  "rfold apply_payload (map (payload k) vs) d = Inr (put (fold (push_entry k) vs (get d)) d)"
  by (induction vs arbitrary: d) (simp_all add: applies get_put put_put put_get)

lemma apply_section:
  "rfold apply_payload (concat (map (\<lambda>(k, vs). map (payload k) vs) m)) d =
    Inr (put (fold (\<lambda>(k, vs). fold (push_entry k) vs) m (get d)) d)"
  by (induction m arbitrary: d)
    (auto simp: rfold_append apply_entry get_put put_put put_get)

lemma rebuild_section:
  "full_map m \<Longrightarrow> get d = [] \<Longrightarrow>
    rfold apply_payload (concat (map (\<lambda>(k, vs). map (payload k) vs) m)) d = Inr (put m d)"
  using rebuild_map [of "[]" m] by (simp add: apply_section full_map_def)

end

interpretation nodes: delta_section NodeInsert delta_nodes "\<lambda>m d. d\<lparr> delta_nodes := m \<rparr>"
  by unfold_locales simp_all

lemma edge_eta: "\<lparr> edge_from = edge_from e, edge_to = edge_to e, edge_values = edge_values e \<rparr> = e"
  by (cases e) simp

interpretation edges: delta_section "\<lambda>rel e. RelInsert rel (edge_from e) (edge_to e) (edge_values e)"
  delta_edges "\<lambda>m d. d\<lparr> delta_edges := m \<rparr>"
  by unfold_locales (simp_all add: edge_eta)

interpretation updates: delta_section NodeUpdate delta_node_updates "\<lambda>m d. d\<lparr> delta_node_updates := m \<rparr>"
  by unfold_locales simp_all

interpretation deletes: delta_section NodeDelete delta_node_deletes "\<lambda>m d. d\<lparr> delta_node_deletes := m \<rparr>"
  by unfold_locales simp_all

lemma apply_ddl_section:
  "rfold apply_payload (map (\<lambda>ddl. Ddl (ddl_payload_of ddl)) ops) d = Inr (d\<lparr> delta_ddl := delta_ddl d @ ops \<rparr>)"
proof (induction ops arbitrary: d)
  case (Cons op ops)
  have "ddl_op_from (ddl_payload_of op) = op" by (cases op) simp_all
  with Cons show ?case by simp
qed simp

abbreviation add_claims :: "(rel_endpoint \<times> u64) list \<Rightarrow> rel_endpoint_tombstones \<Rightarrow> rel_endpoint_tombstones" where
  "add_claims \<equiv> fold (\<lambda>(endpoint, offset). add_tombstone endpoint offset)"

lemma apply_claims:
  "claims \<noteq> [] \<Longrightarrow> rfold apply_payload (map (\<lambda>(endpoint, offset). RelDelete rel endpoint offset) claims) d =
    Inr (d\<lparr> delta_rel_tombstones := bt_entry rel no_tombstones (add_claims claims) (delta_rel_tombstones d) \<rparr>)"
proof (induction claims arbitrary: d)
  case (Cons claim claims)
  obtain endpoint offset where claim: "claim = (endpoint, offset)" by fastforce
  show ?case
  proof (cases "claims = []")
    case False
    with Cons.IH show ?thesis by (simp add: claim bt_entry_entry)
  qed (simp add: claim)
qed simp

lemma apply_claims_section:
  "list_all (\<lambda>(rel, claims). claims \<noteq> []) records \<Longrightarrow>
    rfold apply_payload (concat (map (\<lambda>(rel, claims).
      map (\<lambda>(endpoint, offset). RelDelete rel endpoint offset) claims) records)) d =
    Inr (d\<lparr> delta_rel_tombstones := fold (\<lambda>(rel, claims) tombstones.
      bt_entry rel no_tombstones (add_claims claims) tombstones) records (delta_rel_tombstones d) \<rparr>)"
  by (induction records arbitrary: d) (auto simp: rfold_append apply_claims)

section \<open>Deltas whose records are canonical\<close>

definition delta_canonical :: "commit_delta \<Rightarrow> rel_delete_records \<Rightarrow> bool" where
  "delta_canonical d records \<longleftrightarrow> full_map (delta_nodes d) \<and> full_map (delta_edges d) \<and>
    full_map (delta_node_updates d) \<and> full_map (delta_node_deletes d) \<and> full_map records \<and>
    list_all (\<lambda>(rel, claims). distinct claims) records \<and>
    delta_rel_tombstones d = rel_tombstones_from_records records"

lemma records_rebuild_delta:
  assumes "delta_canonical d records"
  shows "from_wal_payloads (wal_records d records) = Inr d"
  using assms
  by (simp add: from_wal_payloads_def wal_records_def delta_canonical_def rfold_append apply_ddl_section
      nodes.rebuild_section edges.rebuild_section updates.rebuild_section deletes.rebuild_section
      apply_claims_section full_map_def rel_tombstones_from_records_def delta_default_def)

text \<open>The order: what the projections of the order check see of a section.\<close>

lemma section_projection:
  "concat (map f (concat (map (\<lambda>(k, vs). map (g k) vs) m))) =
    concat (map (\<lambda>(k, vs). concat (map (\<lambda>v. f (g k v)) vs)) m)"
  by (induction m) (auto simp: comp_def)

lemma concat_empty [simp]: "concat (map (\<lambda>x. []) xs) = []" "concat (map (\<lambda>(x, y). []) ps) = []"
  by (auto simp: concat_eq_Nil_conv)

lemma sorted_replicated:
  "bt_wf m \<Longrightarrow> sorted (concat (map (\<lambda>(k, vs). map (\<lambda>v. k) vs) m))"
proof (induction m)
  case (Cons kv m)
  obtain k vs where kv: "kv = (k, vs)" by fastforce
  have "k < k'" if "(k', vs') \<in> set m" for k' vs'
    using that Cons.prems by (force simp: kv bt_keys_def)
  moreover have "sorted (map (\<lambda>v. k) vs)" by (induction vs) simp_all
  ultimately show ?case using Cons by (fastforce simp: kv sorted_append intro: less_imp_le)
qed simp

lemma distinct_claims:
  assumes "bt_wf m" "list_all (\<lambda>(k, vs). distinct vs) m"
  shows "distinct (concat (map (\<lambda>(k, vs). map (\<lambda>v. (k, v)) vs) m))"
  using assms
proof (induction m)
  case (Cons kv m)
  obtain k vs where kv: "kv = (k, vs)" by fastforce
  have "(k, vs') \<notin> set m" for vs'
    using Cons.prems by (force simp: kv bt_keys_def)
  with Cons show ?case by (auto simp: kv distinct_map inj_on_def)
qed simp

lemma concat_singletons: "concat (map (\<lambda>x. [f x]) xs) = map f xs"
  by (induction xs) simp_all

lemma sorted_equal: "(\<And>x y. x \<in> set xs \<Longrightarrow> y \<in> set xs \<Longrightarrow> x = y) \<Longrightarrow> sorted (xs :: nat list)"
  unfolding sorted_iff_nth_mono by (metis nth_mem order.refl order_le_less_trans)

lemma records_canonical:
  assumes "delta_canonical d records"
  shows "canonical_order (wal_records d records)"
proof -
  have wf: "bt_wf (delta_nodes d)" "bt_wf (delta_edges d)" "bt_wf records"
    "list_all (\<lambda>(rel, claims). distinct claims) records"
    using assms by (simp_all add: delta_canonical_def full_map_def)
  have nodes: "concat (map node_insert_table (wal_records d records)) =
      concat (map (\<lambda>(k, vs). map (\<lambda>v. k) vs) (delta_nodes d))"
    by (simp add: wal_records_def section_projection comp_def concat_singletons split_beta)
  have edges: "concat (map rel_insert_table (wal_records d records)) =
      concat (map (\<lambda>(k, vs). map (\<lambda>v. k) vs) (delta_edges d))"
    by (simp add: wal_records_def section_projection comp_def concat_singletons split_beta)
  have claims: "concat (map rel_delete_claim (wal_records d records)) =
      concat (map (\<lambda>(k, vs). map (\<lambda>v. (k, v)) vs) records)"
    by (simp add: wal_records_def section_projection comp_def concat_singletons split_beta)
  have "map fst (concat (map (\<lambda>(k, vs). map (\<lambda>v. (k, v)) vs) records)) =
      concat (map (\<lambda>(k, vs). map (\<lambda>v. k) vs) records)"
    by (induction records) (auto simp: comp_def)
  moreover have "sorted (map record_phase (wal_records d records))"
    unfolding wal_records_def map_append sorted_append by (auto intro!: sorted_equal)
  moreover have "list_all (\<lambda>p. \<not> is_commit p) (wal_records d records)"
    by (auto simp: wal_records_def list_all_iff)
  ultimately show ?thesis
    using sorted_replicated [OF wf(1)] sorted_replicated [OF wf(2)] sorted_replicated [OF wf(3)]
      distinct_claims [OF wf(3,4)]
    by (simp add: canonical_order_def nodes edges claims)
qed

section \<open>Commits build such deltas\<close>

text \<open>A write set no entry of which is empty, as staging leaves it.\<close>

definition ws_full :: "write_set \<Rightarrow> bool" where
  "ws_full w \<longleftrightarrow> full_map (ws_nodes w) \<and> full_map (ws_node_updates w) \<and> full_map (ws_node_deletes w) \<and>
    full_map (ws_edges w)"

lemma smapM_Inr:
  assumes "smapM f xs st = (Inr ys, st')"
  shows "list_all2 (\<lambda>x y. \<exists>s s'. f x s = (Inr y, s')) xs ys"
  using assms
proof (induction xs arbitrary: st ys)
  case (Cons x xs)
  obtain r s1 where r: "f x st = (r, s1)" by (metis surj_pair)
  obtain r' s2 where r': "smapM f xs s1 = (r', s2)" by (metis surj_pair)
  from Cons.prems r r' obtain y zs where "r = Inr y" "r' = Inr zs" "ys = y # zs"
    by (cases r; cases r') auto
  with Cons.IH [of s1 zs] Cons.prems r r' show ?case by auto
qed simp

lemma full_map_same_keys:
  assumes "full_map m" and "list_all2 (\<lambda>(k, vs) (k', vs'). k' = k \<and> length vs' = length vs) m m'"
  shows "full_map m'"
proof -
  from assms(2) have "map fst m' = map fst m \<and> (list_all (\<lambda>(k, vs). vs \<noteq> []) m \<longrightarrow> list_all (\<lambda>(k, vs). vs \<noteq> []) m')"
    by (induction rule: list_all2_induct) auto
  with assms(1) show ?thesis by (simp add: full_map_def bt_wf_def)
qed

lemma resolve_table_edges_keys:
  assumes "resolve_table_edges env view (k, vs) st = (Inr (k', vs'), st')"
  shows "k' = k \<and> length vs' = length vs"
proof -
  from assms obtain sch where sch: "rel_table (rv_catalog view) k = Some sch"
    by (auto simp: resolve_table_edges_def split: option.splits)
  obtain r st1 where "smapM (resolve_pending_edge env view sch) vs st = (r, st1)" by (metis surj_pair)
  with assms sch show ?thesis
    by (cases r) (auto simp: resolve_table_edges_def dest!: smapM_Inr list_all2_lengthD)
qed

lemma resolved_edges_full:
  assumes "resolve_edges_for_view env state cat own pending st = (Inr edges, st')" and "full_map pending"
  shows "full_map edges"
proof (rule full_map_same_keys [OF assms(2)])
  note resolved = smapM_Inr [OF assms(1) [unfolded resolve_edges_for_view_def Let_def]]
  show "list_all2 (\<lambda>(k, vs) (k', vs'). k' = k \<and> length vs' = length vs) pending edges"
    using resolved
    by (rule list_all2_mono) (auto dest!: resolve_table_edges_keys)
qed

lemma rel_delete_claims_distinct: "distinct (rel_delete_claims rel resolved)"
proof -
  have append_claim: "distinct (append_rel_delete_claim t t' endpoint offset claims)" if "distinct claims"
    for t t' endpoint offset claims
    using that by (simp add: append_rel_delete_claim_def)
  have "distinct (fold (\<lambda>(intent, offset) claims.
      append_rel_delete_claim (rel_to rel) (pd_table intent) EndpointTo offset
        (append_rel_delete_claim (rel_from rel) (pd_table intent) EndpointFrom offset claims)) resolved claims)"
    if "distinct claims" for claims
    using that
  proof (induction resolved arbitrary: claims)
    case (Cons intent resolved)
    then show ?case by (simp add: split_beta append_claim)
  qed simp
  then show ?thesis by (simp add: rel_delete_claims_def)
qed

lemma rel_delete_records_full:
  "full_map (rel_delete_records_of cat resolved) \<and>
    list_all (\<lambda>(rel, claims). distinct claims) (rel_delete_records_of cat resolved)"
proof -
  have set_insert: "set (bt_insert k v m) \<subseteq> insert (k, v) (set m)" for k :: string and v m
    by (induction m) (auto split: if_splits)
  let ?step = "\<lambda>rel records. let claims = rel_delete_claims rel resolved
      in if claims \<noteq> [] then bt_insert (rel_name rel) claims records else records"
  have "bt_wf (fold ?step rels m) \<and> (\<forall>(k, vs) \<in> set (fold ?step rels m). vs \<noteq> [] \<and> distinct vs)"
    if "bt_wf m \<and> (\<forall>(k, vs) \<in> set m. vs \<noteq> [] \<and> distinct vs)" for rels m
    using that
  proof (induction rels arbitrary: m)
    case (Cons rel rels)
    have "bt_wf (?step rel m) \<and> (\<forall>(k, vs) \<in> set (?step rel m). vs \<noteq> [] \<and> distinct vs)"
      using Cons.prems set_insert [of "rel_name rel" "rel_delete_claims rel resolved" m]
      by (auto simp: Let_def bt_wf_insert rel_delete_claims_distinct)
    from Cons.IH [OF this] show ?case by simp
  qed simp
  from this [of "[]"] show ?thesis
    by (fastforce simp: rel_delete_records_of_def full_map_def list_all_iff)
qed

lemma build_commit_delta_canonical:
  assumes "build_commit_delta env current cat w st = (Inr (d, records), st')" and "ws_full w"
  shows "delta_canonical d records"
proof -
  obtain r st1 where r: "resolve_edges_for_view env current cat (delta_of_writes w) (ws_edges w) st = (r, st1)"
    by (metis surj_pair)
  with assms(1) obtain edges where edges: "resolve_edges_for_view env current cat (delta_of_writes w)
      (ws_edges w) st = (Inr edges, st1)"
    by (cases r) (simp_all add: build_commit_delta_def)
  obtain r' st2 where r': "resolve_detaches_for_commit env current cat ((delta_of_writes w)\<lparr> delta_edges := edges \<rparr>)
      (ws_detaches w) st1 = (r', st2)"
    by (metis surj_pair)
  with assms(1) edges have records: "r' = Inr records"
    and d: "d = (delta_of_writes w)\<lparr> delta_edges := edges,
      delta_rel_tombstones := rel_tombstones_from_records records \<rparr>"
    by (cases r'; simp add: build_commit_delta_def Let_def)+
  have "full_map edges" using resolved_edges_full [OF edges] assms(2) by (simp add: ws_full_def)
  moreover have "records = [] \<or> (\<exists>resolved. records = rel_delete_records_of cat resolved)"
    using r' records by (auto simp: resolve_detaches_for_commit_def Let_def split: if_splits prod.splits sum.splits)
  then have "full_map records \<and> list_all (\<lambda>(rel, claims). distinct claims) records"
    using rel_delete_records_full by (auto simp: full_map_def)
  ultimately show ?thesis
    using assms(2) by (simp add: delta_canonical_def d delta_of_writes_def ws_full_def)
qed

end
