(* ===== verification/Durability.thy ===== *)
theory Durability
  imports CommitRecords
begin

text \<open>
  What a commit leaves in the log and what recovery finds there. The deltas that recovery reads are
  those of the published chain, wherever a crash cuts the file.
\<close>

section \<open>Prefixes of a log\<close>

lemma expected_groups_append:
  "expected_groups ck (txns @ txns') lsns =
    expected_groups ck txns lsns @ expected_groups ck txns' (drop (length (concat txns) + length txns) lsns)"
proof (induction txns arbitrary: lsns)
  case (Cons records txns)
  show ?case by (simp add: Cons Let_def drop_drop ac_simps del: length_concat)
qed simp

lemma expected_groups_take:
  "length (concat txns) + length txns \<le> n \<Longrightarrow> expected_groups ck txns (take n lsns) = expected_groups ck txns lsns"
proof (induction txns arbitrary: n lsns)
  case (Cons records txns)
  have "expected_groups ck txns (take (n - Suc (length records)) (drop (Suc (length records)) lsns)) =
      expected_groups ck txns (drop (Suc (length records)) lsns)"
    using Cons.prems by (intro Cons.IH) simp
  with Cons.prems show ?case by (simp add: Let_def drop_take)
qed simp

lemma encoded_length:
  "encode_transaction js records = Inr enc \<Longrightarrow> length enc = Suc (length records)"
  by (auto simp: encode_transaction_eq_Inr dest: list_all2_lengthD)

lemma encoded_lengths:
  "list_all2 (\<lambda>records enc. encode_transaction js records = Inr enc) txns encs \<Longrightarrow>
    length (concat encs) = length (concat txns) + length txns"
  by (induction rule: list_all2_induct) (simp_all add: encoded_length)

text \<open>A cut of the records of a log falls into one transaction, before its commit record.\<close>

lemma take_concat:
  "j < length (concat xss) \<Longrightarrow>
    \<exists>m r. m < length xss \<and> r < length (xss ! m) \<and> take j (concat xss) = concat (take m xss) @ take r (xss ! m)"
proof (induction xss arbitrary: j)
  case (Cons xs xss)
  show ?case
  proof (cases "j < length xs")
    case True
    then show ?thesis by (intro exI [of _ 0] exI [of _ j]) simp
  next
    case False
    with Cons.prems have "j - length xs < length (concat xss)" by simp
    from Cons.IH [OF this] obtain m r where "m < length xss" "r < length (xss ! m)"
      "take (j - length xs) (concat xss) = concat (take m xss) @ take r (xss ! m)" by blast
    with False show ?thesis by (intro exI [of _ "Suc m"] exI [of _ r]) simp
  qed
qed simp

lemma encoded_prefix_decodes:
  assumes "encode_transaction js records = Inr enc" "recoverable js records" "r < length enc"
  shows "list_all2 (\<lambda>p b. decode_payload js b = Inr p) (take r records) (take r enc)"
    and "list_all (\<lambda>p. \<not> is_commit p) (take r records)"
proof -
  from assms(1) obtain body commit where enc: "enc = body @ [commit]"
    "list_all2 (\<lambda>p b. encode_payload js p = Inr b) records body" and order: "canonical_order records"
    by (auto simp: encode_transaction_eq_Inr)
  have "list_all2 (\<lambda>p b. decode_payload js b = Inr p) records body"
    using assms(2) by (intro list_all2_decode [OF enc(2)]) (simp_all add: recoverable_def transaction_docs_def)
  then have "list_all2 (\<lambda>p b. decode_payload js b = Inr p) (take r records) (take r body)"
    by (rule list_all2_takeI)
  moreover have "take r enc = take r body" using assms(3) enc(1) by simp
  ultimately show "list_all2 (\<lambda>p b. decode_payload js b = Inr p) (take r records) (take r enc)" by simp
  show "list_all (\<lambda>p. \<not> is_commit p) (take r records)"
    using order by (auto simp: canonical_order_def list_all_iff dest: in_set_takeD)
qed

text \<open>Grouping any prefix of a log finds the transactions that are complete in it.\<close>

lemma group_prefix:
  assumes enc: "list_all2 (\<lambda>records enc. encode_transaction js records = Inr enc) txns encs"
    and rec: "list_all (recoverable js) txns"
    and lsns: "sorted_wrt (<) lsns" "length lsns = length (concat encs)"
  shows "\<exists>m \<le> length txns.
    group_transactions js (take j (zip lsns (concat encs))) ck = Inr (expected_groups ck (take m txns) lsns) \<and>
    (\<forall>n \<le> length txns. length (concat (take n encs)) \<le> j \<longrightarrow> n \<le> m)"
proof (cases "j < length (concat encs)")
  case False
  have "group_loop js ck (zip lsns (concat encs @ [])) [] [] None = Inr ([] @ expected_groups ck txns lsns)"
    using enc rec lsns by (intro group_loop_log) auto
  with False lsns show ?thesis
    by (intro exI [of _ "length txns"]) (simp add: group_transactions_def)
next
  case True
  have len: "length txns = length encs" using enc by (rule list_all2_lengthD)
  from take_concat [OF True] obtain m r where m: "m < length encs" "r < length (encs ! m)"
    and cut: "take j (concat encs) = concat (take m encs) @ take r (encs ! m)" by blast
  have "length (take j (concat encs)) = j" using True by simp
  then have j: "j = length (concat (take m encs)) + r"
    using m(2) by (simp add: cut del: length_concat)
  have tm: "encode_transaction js (txns ! m) = Inr (encs ! m)" "recoverable js (txns ! m)"
    using enc rec m len by (auto simp: list_all2_conv_all_nth list_all_length)
  have prefix: "list_all2 (\<lambda>records enc. encode_transaction js records = Inr enc) (take m txns) (take m encs)"
    using enc by (rule list_all2_takeI)
  have "group_loop js ck (zip (take j lsns) (concat (take m encs) @ take r (encs ! m))) [] [] None =
      Inr ([] @ expected_groups ck (take m txns) (take j lsns))"
  proof (rule group_loop_log [OF prefix _ encoded_prefix_decodes [OF tm m(2)]])
    show "list_all (recoverable js) (take m txns)"
      using rec by (auto simp: list_all_iff dest: in_set_takeD)
    show "sorted_wrt (<) (take j lsns)" using lsns(1) by (simp add: sorted_wrt_take)
    show "length (take j lsns) = length (concat (take m encs) @ take r (encs ! m))"
      using lsns(2) True by (simp add: cut [symmetric] del: length_concat)
  qed simp
  moreover have "expected_groups ck (take m txns) (take j lsns) = expected_groups ck (take m txns) lsns"
    using encoded_lengths [OF prefix] by (intro expected_groups_take) (simp add: j)
  moreover have "n \<le> m" if "n \<le> length txns" "length (concat (take n encs)) \<le> j" for n
  proof (rule ccontr)
    assume "\<not> n \<le> m"
    then obtain i where "n = Suc m + i" by (metis add.commute less_iff_Suc_add not_le add_Suc_right)
    then have "length (concat (take (Suc m) encs)) \<le> length (concat (take n encs))"
      using take_add [of "Suc m" i encs] by (simp del: length_concat)
    moreover have "length (concat (take (Suc m) encs)) = length (concat (take m encs)) + length (encs ! m)"
      using m(1) by (simp add: take_Suc_conv_app_nth del: length_concat)
    ultimately show False using that(2) j m(2) by linarith
  qed
  ultimately show ?thesis
    using m(1) len by (intro exI [of _ m]) (simp add: group_transactions_def take_zip cut)
qed

section \<open>The log and the chain\<close>

text \<open>What recovery reads: the commits after the checkpoint, each with its LSN and its delta.\<close>

definition recovered_deltas ::
    "serde_json \<Rightarrow> crc_fun \<Rightarrow> crc_append_fun \<Rightarrow> u64 \<Rightarrow> bytes \<Rightarrow> (u64 \<times> commit_delta) list devon_result" where
  "recovered_deltas js crc32c crc32c_append checkpoint_lsn file =
    rbind (group_transactions js (replay crc32c crc32c_append file) checkpoint_lsn)
      (rmapM (\<lambda>g. rbind (from_committed_group g) (\<lambda>d. Inr (commit_lsn g, d))))"

definition chain_deltas :: "commit_link option \<Rightarrow> (u64 \<times> commit_delta) list" where
  "chain_deltas head = map (\<lambda>link. (link_commit_lsn link, link_delta link)) (commit_links_oldest_first head)"

abbreviation group_delta :: "committed_group \<Rightarrow> (u64 \<times> commit_delta) devon_result" where
  "group_delta g \<equiv> rbind (from_committed_group g) (\<lambda>d. Inr (commit_lsn g, d))"

text \<open>A log that holds the transactions of a chain, after the checkpoint, and nothing unfinished.\<close>

definition log_of ::
    "serde_json \<Rightarrow> u64 \<Rightarrow> wal_payload list list \<Rightarrow> bytes list list \<Rightarrow> u64 list \<Rightarrow> (u64 \<times> commit_delta) list \<Rightarrow> bool" where
  "log_of js ck txns encs lsns commits \<longleftrightarrow>
    list_all2 (\<lambda>records enc. encode_transaction js records = Inr enc) txns encs \<and>
    list_all (recoverable js) txns \<and> sorted_wrt (<) lsns \<and> length lsns = length (concat encs) \<and>
    list_all2 (\<lambda>g c. group_delta g = Inr c) (expected_groups ck txns lsns) commits"

definition log_holds ::
    "serde_json \<Rightarrow> u64 \<Rightarrow> (u64 \<times> bytes) list \<Rightarrow> (u64 \<times> commit_delta) list \<Rightarrow> bool" where
  "log_holds js ck log commits \<longleftrightarrow>
    (\<exists>txns encs lsns. log = zip lsns (concat encs) \<and> log_of js ck txns encs lsns commits)"

lemma log_holds_empty: "log_holds js ck [] []"
  unfolding log_holds_def log_of_def by (intro exI [of _ "[]"]) simp

lemma stamped_group_delta: "group_delta (stamped_group lsn records) =
    rbind (from_wal_payloads records) (\<lambda>d. Inr (lsn, d))"
  by (simp add: from_committed_group_def stamped_group_def list_ex_iff comp_def)

lemma log_of_commit:
  assumes "log_of js ck txns encs lsns commits"
    and enc: "encode_transaction js records = Inr enc" and rec: "recoverable js records"
    and delta: "from_wal_payloads records = Inr d"
    and ls: "length ls = length enc" "sorted_wrt (<) (lsns @ ls)" "ck < last ls"
  shows "log_of js ck (txns @ [records]) (encs @ [enc]) (lsns @ ls) (commits @ [(last ls, d)])"
proof -
  from assms(1) have encs: "list_all2 (\<lambda>records enc. encode_transaction js records = Inr enc) txns encs"
    and recs: "list_all (recoverable js) txns" and len: "length lsns = length (concat encs)"
    and commits: "list_all2 (\<lambda>g c. group_delta g = Inr c) (expected_groups ck txns lsns) commits"
    by (simp_all only: log_of_def)
  have total: "length lsns = length (concat txns) + length txns"
    using encoded_lengths [OF encs] len by simp
  have len_ls: "length ls = Suc (length records)" using ls(1) encoded_length [OF enc] by simp
  then have "ls \<noteq> []" by (metis list.size(3) nat.distinct(1))
  then have last: "last ls = ls ! length records" by (simp add: last_conv_nth len_ls)
  have "expected_groups ck (txns @ [records]) (lsns @ ls) = expected_groups ck txns lsns @ [stamped_group (last ls) records]"
    using expected_groups_take [of txns "length lsns" ck "lsns @ ls"] total last len_ls ls(3)
    by (simp add: expected_groups_append Let_def del: length_concat)
  moreover have "group_delta (stamped_group (last ls) records) = Inr (last ls, d)"
    by (simp only: stamped_group_delta delta rbind.simps)
  ultimately have "list_all2 (\<lambda>g c. group_delta g = Inr c)
      (expected_groups ck (txns @ [records]) (lsns @ ls)) (commits @ [(last ls, d)])"
    using commits by (simp only: list_all2_append list_all2_lengthD list_all2_Cons list_all2_Nil simp_thms)
  moreover have "list_all2 (\<lambda>records enc. encode_transaction js records = Inr enc) (txns @ [records]) (encs @ [enc])"
    using encs enc by (simp add: list_all2_appendI)
  ultimately show ?thesis
    using recs rec ls len by (simp add: log_of_def del: length_concat)
qed

abbreviation read_deltas :: "serde_json \<Rightarrow> u64 \<Rightarrow> (u64 \<times> bytes) list \<Rightarrow> (u64 \<times> commit_delta) list devon_result" where
  "read_deltas js ck log \<equiv> rbind (group_transactions js log ck) (rmapM group_delta)"

lemma log_of_prefix:
  assumes "log_of js ck txns encs lsns commits"
  shows "\<exists>m \<le> length txns. read_deltas js ck (take j (zip lsns (concat encs))) =
      Inr (take (length (expected_groups ck (take m txns) lsns)) commits) \<and>
    (\<forall>n \<le> length txns. length (concat (take n encs)) \<le> j \<longrightarrow> n \<le> m)"
proof -
  from assms have commits: "list_all2 (\<lambda>g c. group_delta g = Inr c) (expected_groups ck txns lsns) commits"
    by (simp add: log_of_def)
  from assms group_prefix [of js txns encs lsns j ck] obtain m where m: "m \<le> length txns"
    "group_transactions js (take j (zip lsns (concat encs))) ck = Inr (expected_groups ck (take m txns) lsns)"
    "\<forall>n \<le> length txns. length (concat (take n encs)) \<le> j \<longrightarrow> n \<le> m"
    unfolding log_of_def by blast
  have "expected_groups ck txns lsns = expected_groups ck (take m txns) lsns @
      expected_groups ck (drop m txns) (drop (length (concat (take m txns)) + length (take m txns)) lsns)"
    by (metis append_take_drop_id expected_groups_append)
  with list_all2_takeI [OF commits, of "length (expected_groups ck (take m txns) lsns)"]
  have "rmapM group_delta (expected_groups ck (take m txns) lsns) =
      Inr (take (length (expected_groups ck (take m txns) lsns)) commits)"
    by (simp add: rmapM_eq_Inr)
  with m show ?thesis by (intro exI [of _ m]) simp
qed

lemma expected_groups_commits:
  "log_of js ck txns encs lsns commits \<Longrightarrow> length (expected_groups ck txns lsns) = length commits"
  by (auto simp: log_of_def dest: list_all2_lengthD)

text \<open>
  A crash while a commit is appended: recovery reads a prefix of the commits, at least those that
  were durable before when their records are whole, and all of them when the log is whole.
\<close>

lemma commit_atomic:
  assumes old: "log_of js ck txns encs lsns commits"
    and new: "log_of js ck (txns @ [records]) (encs @ [enc]) (lsns @ ls) (commits @ [c])"
    and len: "length ls = length enc"
  shows "\<exists>m. read_deltas js ck (take j (zip lsns (concat encs) @ zip ls enc)) = Inr (take m (commits @ [c])) \<and>
    (length (concat encs) \<le> j \<longrightarrow> length commits \<le> m) \<and>
    (length (concat encs) + length enc \<le> j \<longrightarrow> length commits < m)"
proof -
  have eq: "length lsns = length (concat encs)" and txns: "length txns = length encs"
    using old by (auto simp: log_of_def dest: list_all2_lengthD)
  have zip: "zip (lsns @ ls) (concat (encs @ [enc])) = zip lsns (concat encs) @ zip ls enc"
    using eq by (simp del: length_concat)
  from log_of_prefix [OF new, of j, unfolded zip] obtain m where m: "m \<le> length (txns @ [records])"
    "read_deltas js ck (take j (zip lsns (concat encs) @ zip ls enc)) =
      Inr (take (length (expected_groups ck (take m (txns @ [records])) (lsns @ ls))) (commits @ [c]))"
    "\<forall>n \<le> length (txns @ [records]). length (concat (take n (encs @ [enc]))) \<le> j \<longrightarrow> n \<le> m"
    by blast
  have same: "expected_groups ck txns (lsns @ ls) = expected_groups ck txns lsns"
    using expected_groups_take [of txns "length lsns" ck "lsns @ ls"] encoded_lengths [of js txns encs] old eq
    by (simp add: log_of_def del: length_concat)
  have upto: "length commits \<le> length (expected_groups ck (take m (txns @ [records])) (lsns @ ls))"
    if "length txns \<le> m"
  proof -
    have "take m (txns @ [records]) = txns @ take (m - length txns) [records]" using that by simp
    then show ?thesis
      using expected_groups_commits [OF old] by (simp add: expected_groups_append same)
  qed
  moreover have "length commits < length (expected_groups ck (take m (txns @ [records])) (lsns @ ls))"
    if "length (txns @ [records]) \<le> m"
  proof -
    have "take m (txns @ [records]) = txns @ [records]" using that m(1) by simp
    then show ?thesis using expected_groups_commits [OF new] by simp
  qed
  moreover have "length txns \<le> m" if "length (concat encs) \<le> j"
    using m(3) that txns by (metis append_eq_conv_conj le_add1 length_append)
  moreover have "length (txns @ [records]) \<le> m" if "length (concat encs) + length enc \<le> j"
    using m(3) that txns by (simp del: length_concat)
  ultimately show ?thesis using m(2) by blast
qed

section \<open>The appends of a commit\<close>

lemma wal_append_success:
  assumes "wal_append crc32c crc32c_append io w bs = (Inr lsn, w')"
  shows "io = Written" "wr_poison_reason w = None" "wr_poison_reason w' = None" "wr_next_lsn w = Some lsn"
    "wr_next_lsn w' = checked_add_word lsn 1"
  using assms
  by (auto simp: wal_append_def Let_def split: option.splits sum.splits io_outcome.splits prod.splits)

lemma append_seq_success:
  assumes "append_seq (wal_append crc32c crc32c_append) batch l w = (Inr (Some lsn), w')" "batch \<noteq> []"
  shows "(\<forall>(io, p) \<in> set batch. io_ok io p) \<and> wr_poison_reason w' = None \<and>
    (\<exists>n. wr_next_lsn w = Some n \<and> n \<le> lsn)"
  using assms
proof (induction batch arbitrary: l w)
  case (Cons x batch)
  obtain io p where x: "x = (io, p)" by fastforce
  obtain r w1 where ap: "wal_append crc32c crc32c_append io w p = (r, w1)" by fastforce
  then obtain n where r: "r = Inr n" using Cons.prems(1) x by (cases r) auto
  note ok = wal_append_success [OF ap [unfolded r]]
  from Cons.prems(1) x ap r have rest: "append_seq (wal_append crc32c crc32c_append) batch (Some n) w1 = (Inr (Some lsn), w')"
    by simp
  show ?case
  proof (cases "batch = []")
    case True
    with rest ok x show ?thesis by simp
  next
    case False
    from Cons.IH [OF rest False] obtain n' where IH: "\<forall>(io, p) \<in> set batch. io_ok io p"
      "wr_poison_reason w' = None" "wr_next_lsn w1 = Some n'" "n' \<le> lsn" by blast
    with ok(5) have "n \<le> n'" by (auto simp: checked_add_word_def word_le_nat_alt unat_word_ariths split: if_splits)
    with IH ok x show ?thesis by (auto intro: order_trans)
  qed
qed simp

lemma wal_file_replay:
  assumes "wal_inv crc32c crc32c_append w" "wr_poison_reason w = None"
  shows "wr_file w = log_file crc32c crc32c_append (replay crc32c crc32c_append (wr_file w))"
proof -
  from assms obtain recs where "wr_file w = log_file crc32c crc32c_append recs" "log_ok None recs"
    by (auto simp: wal_inv_def)
  then show ?thesis by (simp add: replay_log_file)
qed

lemma log_file_take_le:
  "length (log_file crc32c crc32c_append (take i recs)) \<le> length (log_file crc32c crc32c_append recs)"
  by (metis append_take_drop_id le_add1 length_append log_file_simps(3))

lemma chain_deltas_Some:
  "chain_deltas (Some (CommitLink prev lsn d bytes)) = chain_deltas prev @ [(lsn, d)]"
  by (simp add: chain_deltas_def commit_links_oldest_first_def)

text \<open>A successful \<open>make_durable\<close> appends exactly the encoded records.\<close>

lemma make_durable_appends:
  assumes "make_durable js crc32c crc32c_append io required records pipe = (Inr lsn, pipe')"
    and "cp_wal pipe = Some wal" and inv: "wal_inv crc32c crc32c_append wal"
  obtains enc ls wal' where "encode_transaction js records = Inr enc" "cp_wal pipe' = Some wal'"
    "wal_inv crc32c crc32c_append wal'" "wr_poison_reason wal' = None"
    "replay crc32c crc32c_append (wr_file wal') = replay crc32c crc32c_append (wr_file wal) @ zip ls enc"
    "length ls = length enc" "lsn = last ls" "\<exists>n. wr_next_lsn wal = Some n \<and> n \<le> lsn"
proof -
  from assms(1) obtain enc where enc: "encode_transaction js records = Inr enc"
    by (cases "encode_transaction js records") (auto simp: make_durable_def)
  obtain fr flags where flags: "set_wal_feature_flags (io_flags io) required (cp_flags pipe) = (fr, flags)"
    by fastforce
  let ?batch = "zip (map (io_writes io) [0..<length enc]) enc"
  obtain res wal' where seq: "append_seq (wal_append crc32c crc32c_append) ?batch None wal = (res, wal')"
    by fastforce
  from assms(1,2) enc flags obtain u where "fr = Inr u" by (cases fr) (auto simp: make_durable_def)
  with assms(1,2) enc flags seq obtain l where l: "res = Inr l"
    by (cases res) (auto simp: make_durable_def)
  with assms(1,2) enc flags seq \<open>fr = Inr u\<close> have res: "l = Some lsn" and wal': "cp_wal pipe' = Some wal'"
    by (auto simp: make_durable_def rbind_eq_Inr ok_or_eq_Inr)
  have ne: "?batch \<noteq> []" using encoded_length [OF enc] by (cases enc) auto
  note ok = append_seq_success [OF seq [unfolded l res] ne]
  from wal.append_seq_records [OF inv conjunct1 [OF ok] seq] l obtain ls where
    "wal_inv crc32c crc32c_append wal'" "length ls = length ?batch" "Some lsn = Some (last ls)"
    "replay crc32c crc32c_append (wr_file wal') = replay crc32c crc32c_append (wr_file wal) @ zip ls (map snd ?batch)"
    using ne res by auto
  moreover have "map snd ?batch = enc" by simp
  ultimately show thesis using that [of enc wal' ls] enc wal' ok by simp
qed

lemma publish_success:
  assumes "publish_prepared_commit js crc32c crc32c_append io p r (pipe, budget) = (Inr next, pipe', budget')"
  obtains required lsn charged where
    "make_durable js crc32c crc32c_append io required
      (wal_records (pc_delta p) (pc_rel_delete_records p)) pipe = (Inr lsn, pipe')"
    "next = next_state p (CommitLink (ps_chain (pc_current p)) lsn (pc_delta p) charged) lsn"
    "budget' = budget"
  using assms
  by (auto simp: publish_prepared_commit_def Let_def commit_link_new_arc_reserved_def rbind_eq_Inr
      split: sum.splits prod.splits if_splits)

lemma durable_commit:
  assumes inv: "wal_inv crc32c crc32c_append wal"
    and log: "log_holds js ck (replay crc32c crc32c_append (wr_file wal)) commits"
    and canonical: "delta_canonical d records" and rec: "recoverable js (wal_records d records)"
    and lsns: "\<forall>n. wr_next_lsn wal = Some n \<longrightarrow> ck < n"
    and "cp_wal pipe = Some wal"
    and durable: "make_durable js crc32c crc32c_append io required (wal_records d records) pipe = (Inr lsn, pipe')"
  shows "\<exists>wal'. cp_wal pipe' = Some wal' \<and> wal_inv crc32c crc32c_append wal' \<and>
    log_holds js ck (replay crc32c crc32c_append (wr_file wal')) (commits @ [(lsn, d)]) \<and>
    (\<forall>k. \<exists>m. recovered_deltas js crc32c crc32c_append ck (take k (wr_file wal')) = Inr (take m (commits @ [(lsn, d)])) \<and>
      (length (wr_file wal) \<le> k \<longrightarrow> length commits \<le> m) \<and>
      (length (wr_file wal') \<le> k \<longrightarrow> length commits < m))"
proof -
  let ?rep = "replay crc32c crc32c_append" and ?file = "log_file crc32c crc32c_append"
  from make_durable_appends [OF durable \<open>cp_wal pipe = Some wal\<close> inv] obtain enc ls wal' where
    enc: "encode_transaction js (wal_records d records) = Inr enc" and wal': "cp_wal pipe' = Some wal'"
    and inv': "wal_inv crc32c crc32c_append wal'" and clean: "wr_poison_reason wal' = None"
    and app: "?rep (wr_file wal') = ?rep (wr_file wal) @ zip ls enc"
    and len: "length ls = length enc" and lsn: "lsn = last ls" and "\<exists>n. wr_next_lsn wal = Some n \<and> n \<le> lsn"
    by metis
  with lsns have above: "ck < last ls" by (metis order_less_le_trans)
  from log obtain txns encs lsns where old: "log_of js ck txns encs lsns commits"
    and rep: "?rep (wr_file wal) = zip lsns (concat encs)" unfolding log_holds_def by blast
  have eq: "length lsns = length (concat encs)" using old by (simp add: log_of_def)
  have ok: "log_ok None (?rep (wr_file wal'))" by (rule wal_inv_replay(1) [OF inv'])
  have "map fst (?rep (wr_file wal')) = lsns @ ls" using app rep eq len by (simp del: length_concat)
  with log_ok_sorted [OF ok] have sorted: "sorted_wrt (<) (lsns @ ls)" by simp
  note new = log_of_commit [OF old enc rec records_rebuild_delta [OF canonical] len sorted above]
  have "log_holds js ck (?rep (wr_file wal')) (commits @ [(lsn, d)])"
    unfolding log_holds_def app rep lsn using new eq len
    by (intro exI [of _ "txns @ [wal_records d records]"] exI [of _ "encs @ [enc]"] exI [of _ "lsns @ ls"])
      (simp del: length_concat)
  moreover have "\<exists>m. recovered_deltas js crc32c crc32c_append ck (take k (wr_file wal')) = Inr (take m (commits @ [(lsn, d)])) \<and>
      (length (wr_file wal) \<le> k \<longrightarrow> length commits \<le> m) \<and>
      (length (wr_file wal') \<le> k \<longrightarrow> length commits < m)" for k
  proof -
    have whole: "wr_file wal' = ?file (?rep (wr_file wal'))" by (rule wal_file_replay [OF inv' clean])
    from replay_cut [OF ok, of crc32c crc32c_append k] obtain j where j: "j \<le> length (?rep (wr_file wal'))"
      "?rep (take k (wr_file wal')) = take j (?rep (wr_file wal'))"
      "j < length (?rep (wr_file wal')) \<longrightarrow> k < length (?file (take (Suc j) (?rep (wr_file wal'))))"
      using whole by metis
    from commit_atomic [OF old new len, of j] obtain m where
      "read_deltas js ck (take j (?rep (wr_file wal'))) = Inr (take m (commits @ [(lsn, d)]))"
      "length (concat encs) \<le> j \<longrightarrow> length commits \<le> m"
      "length (concat encs) + length enc \<le> j \<longrightarrow> length commits < m"
      unfolding app rep lsn by blast
    moreover have "length (concat encs) \<le> j" if "length (wr_file wal) \<le> k"
    proof (rule ccontr)
      assume "\<not> length (concat encs) \<le> j"
      then have short: "Suc j \<le> length (?rep (wr_file wal))" using eq by (simp add: rep del: length_concat)
      then have "take (Suc j) (?rep (wr_file wal')) = take (Suc j) (?rep (wr_file wal))" by (simp add: app)
      moreover have "j < length (?rep (wr_file wal'))" using short by (simp add: app)
      moreover have "length (?file (?rep (wr_file wal))) \<le> length (wr_file wal)"
        by (metis le_add1 length_append replay_iff)
      ultimately show False
        using j(3) that log_file_take_le [of crc32c crc32c_append "Suc j" "?rep (wr_file wal)"] by simp
    qed
    moreover have "length (concat encs) + length enc \<le> j" if "length (wr_file wal') \<le> k"
    proof -
      have "\<not> j < length (?rep (wr_file wal'))"
        using j(3) that whole log_file_take_le [of crc32c crc32c_append "Suc j" "?rep (wr_file wal')"] by auto
      then show ?thesis using eq len by (simp add: app rep del: length_concat)
    qed
    ultimately show ?thesis by (auto simp: recovered_deltas_def j(2))
  qed
  ultimately show ?thesis using wal' inv' by blast
qed

section \<open>Durable commits\<close>

lemma prepare_commit_canonical:
  assumes "prepare_commit env current tx st = (Inr p, st')" and "ws_full (tx_writes tx)"
  shows "delta_canonical (pc_delta p) (pc_rel_delete_records p)" "pc_current p = current"
proof -
  let ?pre = "rbind (detect_conflict current tx) (\<lambda>_.
       rbind (validate_ddl_interface_collisions (ps_catalog current) (ws_ddl (tx_writes tx))) (\<lambda>_.
       rbind (map_err (\<lambda>_. Corrupt ''validated transaction DDL became invalid: {}'')
         (apply_ddl_to_catalog (ps_catalog current) (ws_ddl (tx_writes tx)))) (\<lambda>cat.
       rbind (validate_commit_dml_refusals cat (tx_writes tx)) (\<lambda>_. Inr cat))))"
  from assms(1) obtain cat where cat: "?pre = Inr cat"
    by (cases ?pre) (auto simp: prepare_commit_def)
  obtain b st1 where b: "build_commit_delta env current cat (tx_writes tx) st = (b, st1)" by (metis surj_pair)
  with assms(1) cat obtain d records where d: "b = Inr (d, records)"
    by (cases b) (auto simp: prepare_commit_def)
  with assms(1) cat b have p: "pc_delta p = d" "pc_rel_delete_records p = records" "pc_current p = current"
    by (auto simp: prepare_commit_def rbind_eq_Inr)
  show "delta_canonical (pc_delta p) (pc_rel_delete_records p)" "pc_current p = current"
    using build_commit_delta_canonical [OF b [unfolded d] assms(2)] p by simp_all
qed

text \<open>
  C1. A commit is durable and atomic: when a prepared commit is published over a log that holds the
  commits of the published chain, the log then holds those of the new chain, and wherever a crash
  cuts its file, recovery reads a prefix of the commits with the deltas that were published: never a
  part of a transaction, every commit that was durable before when its bytes are there, and the new
  commit itself when its bytes are.
\<close>

theorem commit_survives_crash:
  assumes "wal_inv crc32c crc32c_append wal" and "cp_wal pipe = Some wal"
    and "log_holds js ck (replay crc32c crc32c_append (wr_file wal)) (chain_deltas (ps_chain current))"
    and "\<forall>n. wr_next_lsn wal = Some n \<longrightarrow> ck < n"
    and "prepare_commit env current tx st = (Inr p, st')" and "ws_full (tx_writes tx)"
    and "recoverable js (wal_records (pc_delta p) (pc_rel_delete_records p))"
    and "publish_prepared_commit js crc32c crc32c_append io p r (pipe, budget) = (Inr next, pipe', budget')"
  shows "\<exists>wal'. cp_wal pipe' = Some wal' \<and> wal_inv crc32c crc32c_append wal' \<and>
    chain_deltas (ps_chain next) = chain_deltas (ps_chain current) @ [(ps_last_commit_lsn next, pc_delta p)] \<and>
    log_holds js ck (replay crc32c crc32c_append (wr_file wal')) (chain_deltas (ps_chain next)) \<and>
    (\<forall>k. \<exists>m. recovered_deltas js crc32c crc32c_append ck (take k (wr_file wal')) =
        Inr (take m (chain_deltas (ps_chain next))) \<and>
      (length (wr_file wal) \<le> k \<longrightarrow> length (chain_deltas (ps_chain current)) \<le> m) \<and>
      (length (wr_file wal') \<le> k \<longrightarrow> length (chain_deltas (ps_chain current)) < m))"
proof -
  note p = prepare_commit_canonical [OF assms(5,6)]
  from publish_success [OF assms(8)] obtain required lsn charged where
    durable: "make_durable js crc32c crc32c_append io required
      (wal_records (pc_delta p) (pc_rel_delete_records p)) pipe = (Inr lsn, pipe')"
    and nxt: "next = next_state p (CommitLink (ps_chain (pc_current p)) lsn (pc_delta p) charged) lsn"
    by metis
  have "chain_deltas (ps_chain next) = chain_deltas (ps_chain current) @ [(lsn, pc_delta p)]"
    "ps_last_commit_lsn next = lsn"
    by (simp_all add: nxt next_state_def chain_deltas_Some p)
  with durable_commit [OF assms(1,3) p(1) assms(7,4,2) durable] show ?thesis by simp
qed

definition delete_transaction :: transaction where
  "delete_transaction = (transaction_new 1 \<lparr> ps_catalog = sample_read_catalog, ps_chain = None,
      ps_last_commit_lsn = 4, ps_catalog_generation = 4, ps_recent_summaries = [] \<rparr>)\<lparr>
    tx_writes := write_set_default\<lparr> ws_node_deletes := [(''T'', [VInt64 1])] \<rparr> \<rparr>"

definition delete_prepared :: prepared_commit where
  "delete_prepared = \<lparr> pc_current = tx_state delete_transaction, pc_catalog = sample_read_catalog,
    pc_delta = delta_default\<lparr> delta_node_deletes := [(''T'', [VInt64 1])] \<rparr>, pc_rel_delete_records = [],
    pc_summary = \<lparr> sum_inserted_pks = [], sum_dml_pks = [(''T'', [VInt64 1])], sum_detach_pks = [],
      sum_edge_endpoint_pks = [], sum_created_tables = [] \<rparr> \<rparr>"

lemma delete_prepared:
  "prepare_commit sample_env (tx_state delete_transaction) delete_transaction st = (Inr delete_prepared, st)"
proof -
  have pre: "detect_conflict (tx_state delete_transaction) delete_transaction = Inr ()"
    "validate_commit_dml_refusals sample_read_catalog (tx_writes delete_transaction) = Inr ()"
    "ps_catalog (tx_state delete_transaction) = sample_read_catalog"
    "ws_ddl (tx_writes delete_transaction) = []" "ws_edges (tx_writes delete_transaction) = []"
    "ws_detaches (tx_writes delete_transaction) = []"
    "summary_from_writes sample_read_catalog (tx_writes delete_transaction) = Inr (pc_summary delete_prepared)"
    by code_simp+
  have delta: "delta_of_writes (tx_writes delete_transaction) = pc_delta delete_prepared" by code_simp
  have "(pc_delta delete_prepared)\<lparr> delta_edges := [], delta_rel_tombstones := [] \<rparr> = pc_delta delete_prepared"
    by code_simp
  then show ?thesis
    by (simp add: prepare_commit_def pre delta validate_ddl_interface_collisions_def apply_ddl_to_catalog_def
        build_commit_delta_def resolve_edges_for_view_def resolve_detaches_for_commit_def
        rel_tombstones_from_records_def delete_prepared_def)
qed

lemma delete_estimates:
  "delta_estimated_bytes (pc_delta delete_prepared) = Inr 177"
  "summary_estimated_bytes (pc_summary delete_prepared) = Inr 177"
  by (simp_all add: delete_prepared_def delta_estimated_bytes_def summary_estimated_bytes_def delta_default_def
      estimate_node_rows_def estimate_keys_def estimate_edges_def estimate_rel_tombstones_def estimate_entry_def
      estimate_values_def checked_estimate_accumulate_def checked_estimate_add_def checked_add_usize_def
      COMMIT_DELTA_OVERHEAD_BYTES_def COMMIT_SUMMARY_OVERHEAD_BYTES_def MAP_ENTRY_OVERHEAD_BYTES_def)

definition sample_pipe :: commit_pipe where
  "sample_pipe = \<lparr> cp_wal = Some (wal_open byte_sum byte_sum_append [] 5), cp_flags = 0 \<rparr>"

definition good_io :: commit_io where
  "good_io = \<lparr> io_writes = (\<lambda>_. Written), io_flags = Inr (), io_sync = Inr () \<rparr>"

lemma delete_durable:
  "\<exists>pipe'. make_durable sample_json byte_sum byte_sum_append good_io required
    [NodeDelete ''T'' (VInt64 1)] sample_pipe = (Inr 6, pipe')"
proof -
  have "encode_transaction sample_json [NodeDelete ''T'' (VInt64 1)] = Inr [[1], [3]]"
    by (simp add: encode_transaction_def validate_record_order_def order_start_def advance_phase_def
        encode_json_def sample_json_def)
  then show ?thesis
    by (simp add: make_durable_def sample_pipe_def good_io_def set_wal_feature_flags_def wal_open_empty
        wal_append_def encode_header_def u32_try_from_def checked_add_usize_def WAL_HEADER_LEN_def
        checked_add_word_def Let_def)
qed

lemma delete_published:
  "\<exists>next pipe'. publish_prepared_commit sample_json byte_sum byte_sum_append good_io delete_prepared
      \<lparr> cr_link_bytes = 305, cr_summary_bytes = 177 \<rparr> (sample_pipe, budget_new 4096) =
    (Inr next, pipe', budget_new 4096)"
proof -
  have "wal_records (pc_delta delete_prepared) (pc_rel_delete_records delete_prepared) = [NodeDelete ''T'' (VInt64 1)]"
    by code_simp
  moreover obtain pipe' where "make_durable sample_json byte_sum byte_sum_append good_io
      (required_wal_flags (delta_node_updates (pc_delta delete_prepared) \<noteq> [] \<or>
          delta_node_deletes (pc_delta delete_prepared) \<noteq> [])
        (pc_rel_delete_records delete_prepared \<noteq> [])
        (delta_mutates_indexed_table (pc_catalog delete_prepared) (pc_delta delete_prepared)))
      [NodeDelete ''T'' (VInt64 1)] sample_pipe = (Inr 6, pipe')"
    using delete_durable by blast
  ultimately show ?thesis
    by (simp add: publish_prepared_commit_def delete_estimates commit_link_new_arc_reserved_def
        checked_estimate_add_def checked_add_usize_def COMMIT_LINK_OVERHEAD_BYTES_def Let_def
        del: disj_not1 disj_not2)
qed

theorem commit_survives_crash_witness:
  "\<exists>next pipe' wal'. publish_prepared_commit sample_json byte_sum byte_sum_append good_io delete_prepared
      \<lparr> cr_link_bytes = 305, cr_summary_bytes = 177 \<rparr> (sample_pipe, budget_new 4096) =
      (Inr next, pipe', budget_new 4096) \<and>
    cp_wal pipe' = Some wal' \<and>
    recovered_deltas sample_json byte_sum byte_sum_append 4 (wr_file wal') =
      Inr [(ps_last_commit_lsn next, delta_default\<lparr> delta_node_deletes := [(''T'', [VInt64 1])] \<rparr>)]"
proof -
  let ?wal = "wal_open byte_sum byte_sum_append [] 5" and ?state = "tx_state delete_transaction"
  from delete_published obtain nxt pipe' where pub: "publish_prepared_commit sample_json byte_sum byte_sum_append
      good_io delete_prepared \<lparr> cr_link_bytes = 305, cr_summary_bytes = 177 \<rparr> (sample_pipe, budget_new 4096) =
      (Inr nxt, pipe', budget_new 4096)" by blast
  have "replay byte_sum byte_sum_append [] = []"
    using replay_log_file [of "[]" byte_sum byte_sum_append] by simp
  moreover have none: "chain_deltas (ps_chain ?state) = []" by code_simp
  ultimately have log: "log_holds sample_json 4 (replay byte_sum byte_sum_append (wr_file ?wal)) (chain_deltas (ps_chain ?state))"
    by (simp add: wal_open_empty log_holds_empty)
  have records: "wal_records (pc_delta delete_prepared) (pc_rel_delete_records delete_prepared) = [NodeDelete ''T'' (VInt64 1)]"
    and delta: "pc_delta delete_prepared = delta_default\<lparr> delta_node_deletes := [(''T'', [VInt64 1])] \<rparr>"
    and full: "ws_full (tx_writes delete_transaction)" by code_simp+
  have "recoverable sample_json (wal_records (pc_delta delete_prepared) (pc_rel_delete_records delete_prepared))"
    unfolding records by (simp add: sample_json_def recoverable_def transaction_docs_def json_faithful_def)
  moreover have "cp_wal sample_pipe = Some ?wal" "\<forall>n. wr_next_lsn ?wal = Some n \<longrightarrow> 4 < n"
    by (simp_all add: sample_pipe_def wal_open_empty)
  ultimately obtain wal' where wal': "cp_wal pipe' = Some wal'"
    and chain: "chain_deltas (ps_chain nxt) = [(ps_last_commit_lsn nxt, pc_delta delete_prepared)]"
    and cut: "\<forall>k. \<exists>m. recovered_deltas sample_json byte_sum byte_sum_append 4 (take k (wr_file wal')) =
        Inr (take m (chain_deltas (ps_chain nxt))) \<and> (length (wr_file wal') \<le> k \<longrightarrow> 0 < m)"
    using commit_survives_crash [OF wal_open_inv _ log _ delete_prepared full _ pub] none by fastforce
  from cut [rule_format, of "length (wr_file wal')"] obtain m where
    "recovered_deltas sample_json byte_sum byte_sum_append 4 (wr_file wal') = Inr (take m (chain_deltas (ps_chain nxt)))" "0 < m"
    by auto
  with chain have "recovered_deltas sample_json byte_sum byte_sum_append 4 (wr_file wal') =
      Inr [(ps_last_commit_lsn nxt, pc_delta delete_prepared)]" by simp
  with pub wal' delta show ?thesis by auto
qed

section \<open>A commit that fails half way\<close>

lemma group_loop_complete:
  assumes "list_all2 (\<lambda>records enc. encode_transaction js records = Inr enc) txns encs"
    and "list_all (recoverable js) txns"
    and "sorted_wrt (<) lsns" "length lsns = length (concat encs)"
    and "\<forall>p \<in> set_option previous. \<forall>lsn \<in> set lsns. p < lsn"
  shows "\<exists>previous'. group_loop js ck (zip lsns (concat encs) @ rest) [] groups previous =
      group_loop js ck rest [] (groups @ expected_groups ck txns lsns) previous' \<and>
    set_option previous' \<subseteq> set lsns \<union> set_option previous"
  using assms
proof (induction txns encs arbitrary: lsns groups previous rule: list_all2_induct)
  case (Cons records txns enc encs)
  define now later where "now = take (length enc) lsns" and "later = drop (length enc) lsns"
  have lsns: "lsns = now @ later" and len: "length now = length enc" "length later = length (concat encs)"
    using Cons.prems(3) by (simp_all add: now_def later_def)
  have enc: "length enc = Suc (length records)" by (rule encoded_length [OF Cons.hyps(1)])
  then have "now \<noteq> []" using len by auto
  then have now: "last now = lsns ! length records" "last now \<in> set now"
    using len enc by (auto simp: lsns last_conv_nth nth_append)
  have "group_loop js ck (zip lsns (concat (enc # encs)) @ rest) [] groups previous =
    group_loop js ck (zip now enc @ (zip later (concat encs) @ rest)) [] groups previous"
    using len by (simp add: lsns)
  also have "\<dots> = group_loop js ck (zip later (concat encs) @ rest) []
      (groups @ (if last now \<le> ck then [] else [stamped_group (last now) records])) (Some (last now))"
    using Cons.prems(1,4) now by (intro group_loop_transaction [OF Cons.hyps(1)]) (auto simp: len lsns)
  finally have step: "group_loop js ck (zip lsns (concat (enc # encs)) @ rest) [] groups previous = \<dots>" .
  have "\<exists>previous'. group_loop js ck (zip later (concat encs) @ rest) []
      (groups @ (if last now \<le> ck then [] else [stamped_group (last now) records])) (Some (last now)) =
      group_loop js ck rest [] ((groups @ (if last now \<le> ck then [] else [stamped_group (last now) records]))
        @ expected_groups ck txns later) previous' \<and>
      set_option previous' \<subseteq> set later \<union> set_option (Some (last now))"
    using Cons.prems now(2) by (intro Cons.IH) (auto simp: lsns len sorted_wrt_append)
  moreover have "expected_groups ck (records # txns) lsns =
      (if last now \<le> ck then [] else [stamped_group (last now) records]) @ expected_groups ck txns later"
    using now(1) enc by (simp add: later_def Let_def)
  ultimately show ?case
    unfolding step using now(2) by (auto simp: lsns intro!: exI)
qed auto

lemma orphans_refuse_commit:
  assumes "list_all2 (\<lambda>p b. decode_payload js b = Inr p) orphans bs" "list_all (\<lambda>p. \<not> is_commit p) orphans"
    and "orphans \<noteq> []" "length orphans + length records < 2 ^ 64"
    and enc: "encode_transaction js records = Inr enc" and rec: "recoverable js records"
    and len: "length ls = length bs" "length ls' = length enc"
    and "ck < last ls'" "\<forall>p \<in> set_option previous. p < last ls'"
  shows "\<exists>msg. group_loop js ck (zip ls bs @ zip ls' enc) [] groups previous = Inl (Corrupt msg)"
proof -
  from enc obtain body commit where body: "enc = body @ [commit]"
    "list_all2 (\<lambda>p b. encode_payload js p = Inr b) records body"
    and commit: "encode_payload js (Commit (of_nat (length records))) = Inr commit"
    and order: "canonical_order records"
    by (auto simp: encode_transaction_eq_Inr simp del: encode_payload.simps)
  from len(2) body(1) obtain l c where l: "ls' = l @ [c]" "length l = length body"
    by (cases ls' rule: rev_cases) auto
  have dec: "decode_payload js commit = Inr (Commit (of_nat (length records)))"
    using rec by (intro decode_encode_payload [OF commit]) (simp_all add: recoverable_def transaction_docs_def)
  have dbody: "list_all2 (\<lambda>p b. decode_payload js b = Inr p) records body"
    using rec by (intro list_all2_decode [OF body(2)]) (simp_all add: recoverable_def transaction_docs_def)
  have "list_all (\<lambda>p. \<not> is_commit p) records" using order by (simp add: canonical_order_def)
  then have loop: "group_loop js ck (zip ls bs @ zip ls' enc) [] groups previous =
      group_loop js ck [(c, commit)] (orphans @ records) groups previous"
    using group_loop_pending [OF assms(1,2) len(1), of ck "zip ls' enc" "[]"]
      group_loop_pending [OF dbody _ l(2), of ck "[(c, commit)]" orphans]
    by (simp add: body(1) l)
  have "ensure_ascending_commit_lsn previous c = Inr ()"
    using assms(10) l(1) by (cases previous) (auto simp: ensure_ascending_commit_lsn_def)
  moreover have "(of_nat (length records) :: u64) \<noteq> of_nat (length (orphans @ records))"
  proof
    assume "(of_nat (length records) :: u64) = of_nat (length (orphans @ records))"
    then have "unat (of_nat (length records) :: u64) = unat (of_nat (length (orphans @ records)) :: u64)" by simp
    then show False using assms(3,4) unfolding length_append unat_of_nat by (simp add: take_bit_nat_eq_self)
  qed
  ultimately show ?thesis
    unfolding loop using dec assms(4,9) l(1) by (simp add: finish_group_def)
qed

lemma make_durable_leaves:
  assumes "make_durable js crc32c crc32c_append io required records pipe = (res, pipe')"
    and "cp_wal pipe = Some wal" "cp_wal pipe' = Some wal'" and inv: "wal_inv crc32c crc32c_append wal"
    and io: "\<And>enc i. encode_transaction js records = Inr enc \<Longrightarrow> i < length enc \<Longrightarrow> io_ok (io_writes io i) (enc ! i)"
    and changed: "replay crc32c crc32c_append (wr_file wal') \<noteq> replay crc32c crc32c_append (wr_file wal)"
  obtains enc ls where "encode_transaction js records = Inr enc" "wal_inv crc32c crc32c_append wal'"
    "length ls \<le> length enc"
    "replay crc32c crc32c_append (wr_file wal') = replay crc32c crc32c_append (wr_file wal) @ zip ls enc"
proof -
  from assms(1-3) changed obtain enc where enc: "encode_transaction js records = Inr enc"
    by (cases "encode_transaction js records") (auto simp: make_durable_def)
  let ?batch = "zip (map (io_writes io) [0..<length enc]) enc"
  obtain fr flags where flags: "set_wal_feature_flags (io_flags io) required (cp_flags pipe) = (fr, flags)"
    by fastforce
  obtain r wal1 where seq: "append_seq (wal_append crc32c crc32c_append) ?batch None wal = (r, wal1)"
    by fastforce
  have wal1: "wal' = wal1"
    using assms(1-3) changed enc flags seq by (cases fr; cases r) (auto simp: make_durable_def)
  have "\<forall>(io, p) \<in> set ?batch. io_ok io p" using io [OF enc] by (auto simp: set_zip)
  from wal.append_seq_records [OF inv this seq] obtain ls where "wal_inv crc32c crc32c_append wal1"
    "length ls \<le> length ?batch"
    "replay crc32c crc32c_append (wr_file wal1) = replay crc32c crc32c_append (wr_file wal) @ zip ls (map snd ?batch)"
    by blast
  then show thesis using that [OF enc] wal1 by simp
qed

text \<open>
  C19. A commit that fails half way blocks recovery: when the appends of one commit fail after some
  of its records but before its commit record, the records stay in the log; the next commit that
  succeeds is published, and recovery then refuses the whole log as corrupt, because it counts the
  records that were left behind into the group of that commit.
\<close>

theorem failed_commit_blocks_recovery:
  assumes "wal_inv crc32c crc32c_append wal" and "cp_wal pipe = Some wal"
    and "log_holds js ck (replay crc32c crc32c_append (wr_file wal)) commits"
    and "make_durable js crc32c crc32c_append io required records pipe = (Inl e, pipe1)" and "cp_wal pipe1 = Some wal1"
    and "\<And>enc i. encode_transaction js records = Inr enc \<Longrightarrow> i < length enc \<Longrightarrow> io_ok (io_writes io i) (enc ! i)"
    and "length (replay crc32c crc32c_append (wr_file wal1)) = length (replay crc32c crc32c_append (wr_file wal)) + left"
    and "0 < left" and "left \<le> length records" and "left + length records' < 2 ^ 64"
    and "make_durable js crc32c crc32c_append io' required' records' pipe1 = (Inr lsn, pipe2)" and "cp_wal pipe2 = Some wal2"
    and "ck < lsn" and "recoverable js records" and "recoverable js records'"
  shows "\<exists>msg. recovered_deltas js crc32c crc32c_append ck (wr_file wal2) = Inl (Corrupt msg)"
proof -
  let ?rep = "replay crc32c crc32c_append"
  have "?rep (wr_file wal1) \<noteq> ?rep (wr_file wal)" using assms(7,8) by (metis less_add_same_cancel1 less_irrefl)
  from make_durable_leaves [OF assms(4,2,5,1,6) this] obtain enc ls where
    enc: "encode_transaction js records = Inr enc" and inv1: "wal_inv crc32c crc32c_append wal1"
    and le: "length ls \<le> length enc" and rep1: "?rep (wr_file wal1) = ?rep (wr_file wal) @ zip ls enc" by blast
  then have ls: "length ls = left" using assms(7) by simp
  from make_durable_appends [OF assms(11,5) inv1] obtain enc' ls' where
    enc': "encode_transaction js records' = Inr enc'" and inv2: "wal_inv crc32c crc32c_append wal2"
    and rep2: "?rep (wr_file wal2) = ?rep (wr_file wal1) @ zip ls' enc'"
    and ls': "length ls' = length enc'" and lsn: "lsn = last ls'"
    using assms(12) by (metis option.inject)
  from assms(3) obtain txns encs lsns where rep: "?rep (wr_file wal) = zip lsns (concat encs)"
    and old: "log_of js ck txns encs lsns commits" unfolding log_holds_def by blast
  have cut: "zip ls enc = zip ls (take left enc)" using take_zip [of left ls enc] ls by simp
  have small: "left < length enc" using assms(9) encoded_length [OF enc] by simp
  have all: "?rep (wr_file wal2) = zip lsns (concat encs) @ zip ls (take left enc) @ zip ls' enc'"
    by (simp add: rep2 rep1 rep cut)
  have eq: "length lsns = length (concat encs)" using old by (simp add: log_of_def)
  have "map fst (?rep (wr_file wal2)) = lsns @ ls @ ls'"
    using eq ls ls' small by (simp add: all del: length_concat)
  with log_ok_sorted [OF wal_inv_replay(1) [OF inv2]] have sorted: "sorted_wrt (<) (lsns @ ls @ ls')" by simp
  have "ls' \<noteq> []" using ls' encoded_length [OF enc'] by auto
  with sorted have above: "\<forall>p \<in> set lsns. p < last ls'" by (auto simp: sorted_wrt_append)
  have "\<exists>previous'. group_loop js ck (zip lsns (concat encs) @ (zip ls (take left enc) @ zip ls' enc')) [] [] None =
      group_loop js ck (zip ls (take left enc) @ zip ls' enc') [] ([] @ expected_groups ck txns lsns) previous' \<and>
      set_option previous' \<subseteq> set lsns \<union> set_option None"
    using old sorted by (intro group_loop_complete) (auto simp: log_of_def sorted_wrt_append)
  then obtain previous where loop: "group_loop js ck (?rep (wr_file wal2)) [] [] None =
      group_loop js ck (zip ls (take left enc) @ zip ls' enc') [] (expected_groups ck txns lsns) previous"
    and prev: "set_option previous \<subseteq> set lsns"
    by (auto simp: all)
  have "\<exists>msg. group_loop js ck (zip ls (take left enc) @ zip ls' enc') [] (expected_groups ck txns lsns) previous =
      Inl (Corrupt msg)"
    by (rule orphans_refuse_commit [OF encoded_prefix_decodes [OF enc assms(14) small] _ _ enc' assms(15) _ ls'])
      (use assms(8-10,13) ls small lsn prev above in auto)
  then show ?thesis by (auto simp: recovered_deltas_def group_transactions_def loop)
qed

lemma wal_append_outcome:
  assumes "wr_poison_reason w = None" "wr_next_lsn w = Some n" "length bs < 2 ^ 32"
    "wr_log_end w + (16 + length bs) < 2 ^ 64"
  shows "\<exists>w'. wal_append crc32c crc32c_append Written w bs = (Inr n, w') \<and> wr_poison_reason w' = None \<and>
      wr_next_lsn w' = checked_add_word n 1 \<and> wr_log_end w' = wr_log_end w + (16 + length bs)"
    and "\<exists>w'. wal_append crc32c crc32c_append (WriteFailed k True) w bs = (Inl (Io ''write_all''), w') \<and>
      wr_poison_reason w' = None \<and> wr_next_lsn w' = Some n \<and> wr_log_end w' = wr_log_end w"
  using assms
  by (simp_all add: wal_append_def encode_header_def u32_try_from_def checked_add_usize_def WAL_HEADER_LEN_def
      recover_failed_append_def Let_def)

theorem failed_commit_blocks_recovery_witness:
  "\<exists>pipe1 pipe2 wal2 msg.
    make_durable sample_json byte_sum byte_sum_append
      (good_io\<lparr> io_writes := (\<lambda>i. if i = 0 then Written else WriteFailed 0 True) \<rparr>) 0
      [NodeDelete ''T'' (VInt64 1)] sample_pipe = (Inl (Io ''write_all''), pipe1) \<and>
    make_durable sample_json byte_sum byte_sum_append good_io 0 [NodeDelete ''T'' (VInt64 1)] pipe1 = (Inr 7, pipe2) \<and>
    cp_wal pipe2 = Some wal2 \<and>
    recovered_deltas sample_json byte_sum byte_sum_append 4 (wr_file wal2) = Inl (Corrupt msg)"
proof -
  let ?rep = "replay byte_sum byte_sum_append" and ?app = "wal_append byte_sum byte_sum_append"
  let ?w = "wal_open byte_sum byte_sum_append [] 5" and ?records = "[NodeDelete ''T'' (VInt64 1)]"
  let ?io = "good_io\<lparr> io_writes := (\<lambda>i. if i = 0 then Written else WriteFailed 0 True) \<rparr>"
  have enc: "encode_transaction sample_json ?records = Inr [[1], [3]]"
    by (simp add: encode_transaction_def validate_record_order_def order_start_def advance_phase_def
        encode_json_def sample_json_def)
  have w: "wr_poison_reason ?w = None" "wr_next_lsn ?w = Some 5" "wr_log_end ?w = 0" "?rep (wr_file ?w) = []"
    using replay_log_file [of "[]" byte_sum byte_sum_append] by (simp_all add: wal_open_empty)
  obtain w1 where w1: "?app Written ?w [1] = (Inr 5, w1)" "wr_poison_reason w1 = None"
      "wr_next_lsn w1 = Some 6" "wr_log_end w1 = 17"
    using wal_append_outcome(1) [OF w(1,2), of "[1]" byte_sum byte_sum_append] w(3) by (auto simp: checked_add_word_def)
  obtain w2 where w2: "?app (WriteFailed 0 True) w1 [3] = (Inl (Io ''write_all''), w2)" "wr_poison_reason w2 = None"
      "wr_next_lsn w2 = Some 6" "wr_log_end w2 = 17"
    using wal_append_outcome(2) [OF w1(2,3), of "[3]" byte_sum byte_sum_append 0] w1(4) by auto
  obtain w3 where w3: "?app Written w2 [1] = (Inr 6, w3)" "wr_poison_reason w3 = None"
      "wr_next_lsn w3 = Some 7" "wr_log_end w3 = 34"
    using wal_append_outcome(1) [OF w2(2,3), of "[1]" byte_sum byte_sum_append] w2(4) by (auto simp: checked_add_word_def)
  obtain w4 where w4: "?app Written w3 [3] = (Inr 7, w4)"
    using wal_append_outcome(1) [OF w3(2,3), of "[3]" byte_sum byte_sum_append] w3(4) by auto
  have inv: "wal_inv byte_sum byte_sum_append ?w" by (rule wal_open_inv)
  have "wal_inv byte_sum byte_sum_append w1 \<and> ?rep (wr_file w1) = [(5, [1])]"
    using wal_append_refines [OF inv _ w1(1)] w(4) by simp
  then have rep: "?rep (wr_file w2) = [(5, [1])]"
    using wal_append_refines [OF _ _ w2(1)] by simp
  define p1 where "p1 = \<lparr> cp_wal = Some w2, cp_flags = 0 \<rparr>"
  define p2 where "p2 = \<lparr> cp_wal = Some w4, cp_flags = 0 \<rparr>"
  have fail: "make_durable sample_json byte_sum byte_sum_append ?io 0 ?records sample_pipe = (Inl (Io ''write_all''), p1)"
    by (simp add: make_durable_def enc sample_pipe_def good_io_def set_wal_feature_flags_def w1(1) w2(1) p1_def)
  have good: "make_durable sample_json byte_sum byte_sum_append good_io 0 ?records p1 = (Inr 7, p2)"
    by (simp add: make_durable_def enc good_io_def set_wal_feature_flags_def w3(1) w4 p1_def p2_def)
  have rec: "recoverable sample_json ?records"
    by (simp add: sample_json_def recoverable_def transaction_docs_def json_faithful_def)
  have "\<exists>msg. recovered_deltas sample_json byte_sum byte_sum_append 4 (wr_file w4) = Inl (Corrupt msg)"
    by (rule failed_commit_blocks_recovery [OF inv _ _ fail _ _ _ _ _ _ good _ _ rec rec, of 4 "[]" w2 1])
      (use enc w(4) rep in \<open>simp_all add: sample_pipe_def p1_def p2_def log_holds_empty\<close>)
  with fail good show ?thesis by (auto simp: p2_def)
qed

end
