(* ===== verification/Statements.thy ===== *)
theory Statements
  imports CommitRecords
begin

text \<open>
  Executing a statement inside a transaction (\<^verbatim>\<open>devondb/src/database/commit.rs\<close>, up to
  \<open>transaction_read_view\<close>, and \<open>Statement\<close> of \<^verbatim>\<open>devondb-plan/src/statement.rs\<close>): every statement is
  checked against the view of the transaction and staged in its write set under the memory budget.

  A step acts on a session: the transaction, the primary-key caches of its snapshot and the budget.
  What lies outside is an argument: the store and the build of the caches (\<^typ>\<open>read_env\<close>), what relieves
  memory pressure, the preparation of an index build and the check of a plan to pin.
\<close>

section \<open>Sessions\<close>

type_synonym session = "transaction \<times> caches \<times> memory_budget"

type_synonym 'a step = "session \<Rightarrow> 'a devon_result \<times> session"

definition sbind :: "('s \<Rightarrow> ('e + 'a) \<times> 's) \<Rightarrow> ('a \<Rightarrow> 's \<Rightarrow> ('e + 'b) \<times> 's) \<Rightarrow> 's \<Rightarrow> ('e + 'b) \<times> 's" where
  "sbind m f s = (case m s of (Inl e, s) \<Rightarrow> (Inl e, s) | (Inr x, s) \<Rightarrow> f x s)"

definition slift :: "'e + 'a \<Rightarrow> 's \<Rightarrow> ('e + 'a) \<times> 's" where
  "slift r s = (r, s)"

text \<open>A loop that threads the session and stops at the first error.\<close>

fun sfold :: "('a \<Rightarrow> 'b \<Rightarrow> 's \<Rightarrow> ('e + 'b) \<times> 's) \<Rightarrow> 'a list \<Rightarrow> 'b \<Rightarrow> 's \<Rightarrow> ('e + 'b) \<times> 's" where
  "sfold f [] acc = slift (Inr acc)"
| "sfold f (x # xs) acc = sbind (f x acc) (sfold f xs)"

definition with_tx :: "(transaction \<Rightarrow> 'a step) \<Rightarrow> 'a step" where
  "with_tx f s = f (fst s) s"

definition modify_writes :: "(write_set \<Rightarrow> write_set) \<Rightarrow> unit step" where
  "modify_writes f = (\<lambda>(tx, st). (Inr (), tx\<lparr> tx_writes := f (tx_writes tx) \<rparr>, st))"

definition set_tx_catalog :: "catalog \<Rightarrow> unit step" where
  "set_tx_catalog cat = (\<lambda>(tx, st). (Inr (), tx\<lparr> tx_catalog := cat \<rparr>, st))"

section \<open>Statements\<close>

record rel_row =
  rr_from_key :: devon_value
  rr_to_key :: devon_value
  rr_values :: "devon_value list"

record set_item =
  si_column :: string
  si_value :: devon_value

record class_clauses =
  cc_display :: "string option"
  cc_plural :: "string option"
  cc_label :: "string option"
  cc_summary :: "string list"
  cc_color :: "string option"
  cc_description :: "string option"
  cc_verb :: "string option"
  cc_inverse :: "string option"
  cc_implements :: "string list"

datatype 'plan statement =
    StmtCreateNodeTable string "schema_column list"
  | StmtCreateRelTable string string string "schema_column list"
  | StmtInsertNode string "row list"
  | StmtInsertRel string "rel_row list"
  | StmtUpsertNode string "row list"
  | StmtUpdateNode string "set_item list" string devon_value
  | StmtDeleteNode string string devon_value
  | StmtDetachDeleteNode string string devon_value
  | StmtCopyNode string string "string option"
  | StmtCreateInterface string "interface_column list"
  | StmtCreateClass string class_clauses
  | StmtCreateHnswIndex string string string
  | StmtPinPlan string string 'plan
  | StmtUnpinPlan string

section \<open>The view of a transaction\<close>

definition own_delta :: "write_set \<Rightarrow> commit_delta" where
  "own_delta w = (delta_of_writes w)\<lparr> delta_rel_tombstones := ws_rel_tombstones w \<rparr>"

definition transaction_view :: "transaction \<Rightarrow> read_view" where
  "transaction_view tx =
    \<lparr> rv_state = tx_state tx, rv_catalog = tx_catalog tx, rv_own = Some (own_delta (tx_writes tx)) \<rparr>"

text \<open>\<open>run\<close> reads through a view whose own edges are resolved too.\<close>

definition transaction_read_view :: "read_env \<Rightarrow> bool \<Rightarrow> read_view step" where
  "transaction_read_view env resolve_edges = (\<lambda>(tx, st).
    if resolve_edges
    then (case resolve_edges_for_view env (tx_state tx) (tx_catalog tx) (own_delta (tx_writes tx))
                 (ws_edges (tx_writes tx)) st of
            (Inl e, st) \<Rightarrow> (Inl e, tx, st)
          | (Inr edges, st) \<Rightarrow>
              (Inr ((transaction_view tx)\<lparr> rv_own := Some ((own_delta (tx_writes tx))\<lparr> delta_edges := edges \<rparr>) \<rparr>),
               tx, st))
    else (Inr (transaction_view tx), tx, st))"

definition tx_resolve_key :: "read_env \<Rightarrow> read_view \<Rightarrow> string \<Rightarrow> devon_value \<Rightarrow> u64 step" where
  "tx_resolve_key env view table key = (\<lambda>(tx, st).
    case view_resolve_key env view table key st of (res, st) \<Rightarrow> (res, tx, st))"

definition tx_resolve_row :: "read_env \<Rightarrow> read_view \<Rightarrow> string \<Rightarrow> devon_value \<Rightarrow> row step" where
  "tx_resolve_row env view table key = (\<lambda>(tx, caches, budget).
    let name = (case node_table (rv_catalog view) table of None \<Rightarrow> table | Some sch \<Rightarrow> node_name sch)
    in (case resolve_node_row env view table key (caches name, budget) of
          (res, cache, budget) \<Rightarrow> (res, tx, caches(name := cache), budget)))"

section \<open>Charging the write set\<close>

text \<open>
  What relieves memory pressure: the pager evicts frames, caches nobody is using are dropped, and a
  checkpoint drains the overlay. Other snapshots share the budget, so how many bytes come free is an
  argument; \<open>rl_idle\<close> says which locks of the cache of a table are free.
\<close>

record relief =
  rl_shed_cache :: "nat \<Rightarrow> memory_budget \<Rightarrow> memory_budget"
  rl_idle :: "string \<Rightarrow> bool \<times> bool"
  rl_shed_indexes :: "memory_budget \<Rightarrow> memory_budget"
  rl_checkpoint :: "memory_budget \<Rightarrow> unit devon_result \<times> memory_budget"

definition shed_table_cache :: "bool \<times> bool \<Rightarrow> table_pk_cache \<Rightarrow> table_pk_cache" where
  "shed_table_cache idle cache = cache\<lparr>
     pc_index := (case pc_index cache of
       Ready ix \<Rightarrow> if fst idle then Unbuilt else Ready ix | other \<Rightarrow> other),
     pc_decoded_group := (if snd idle then None else pc_decoded_group cache) \<rparr>"

definition try_charge_write_set :: "nat \<Rightarrow> bool step" where
  "try_charge_write_set requested = (\<lambda>(tx, caches, budget).
    case try_charge budget requested of
      (False, budget) \<Rightarrow> (Inr False, tx, caches, budget)
    | (True, budget) \<Rightarrow>
        (case checked_add_usize (ws_charged (tx_writes tx)) requested of
           None \<Rightarrow> (Inl (BudgetExceeded ''write set charge exceeds usize::MAX''), tx, caches, release budget requested)
         | Some charged \<Rightarrow>
             (Inr True, tx\<lparr> tx_writes := (tx_writes tx)\<lparr> ws_charged := charged \<rparr> \<rparr>, caches, budget)))"

definition shed_cache :: "relief \<Rightarrow> nat \<Rightarrow> unit step" where
  "shed_cache rl requested = (\<lambda>(tx, caches, budget). (Inr (), tx, caches, rl_shed_cache rl requested budget))"

definition shed_indexes :: "relief \<Rightarrow> unit step" where
  "shed_indexes rl = (\<lambda>(tx, caches, budget).
    (Inr (), tx, (\<lambda>table. shed_table_cache (rl_idle rl table) (caches table)), rl_shed_indexes rl budget))"

definition relief_checkpoint :: "relief \<Rightarrow> unit step" where
  "relief_checkpoint rl = (\<lambda>(tx, caches, budget).
    case rl_checkpoint rl budget of (res, budget) \<Rightarrow> (res, tx, caches, budget))"

definition charge_write_set :: "relief \<Rightarrow> nat \<Rightarrow> unit step" where
  "charge_write_set rl requested =
    sbind (try_charge_write_set requested) (\<lambda>ok. if ok then slift (Inr ()) else
    sbind (shed_cache rl requested) (\<lambda>_.
    sbind (try_charge_write_set requested) (\<lambda>ok. if ok then slift (Inr ()) else
    sbind (shed_indexes rl) (\<lambda>_.
    sbind (try_charge_write_set requested) (\<lambda>ok. if ok then slift (Inr ()) else
    sbind (relief_checkpoint rl) (\<lambda>_.
    sbind (shed_cache rl requested) (\<lambda>_.
    sbind (try_charge_write_set requested) (\<lambda>ok. if ok then slift (Inr ()) else
    slift (Inl (BudgetExceeded ''write set requested {} bytes with {} bytes charged and limit {}''))))))))))"

section \<open>Edits of the write set\<close>

abbreviation row_has :: "nat \<Rightarrow> devon_value \<Rightarrow> row \<Rightarrow> bool" where
  "row_has key_index key row \<equiv> slice_get row key_index = Some key"

definition own_insert_position :: "write_set \<Rightarrow> string \<Rightarrow> nat \<Rightarrow> devon_value \<Rightarrow> nat option" where
  "own_insert_position w table key_index key =
    Option.bind (bt_get (ws_nodes w) table) (position (row_has key_index key))"

definition replace_own_insert ::
    "string \<Rightarrow> nat \<Rightarrow> devon_value \<Rightarrow> row \<Rightarrow> write_set \<Rightarrow> bool \<times> write_set" where
  "replace_own_insert table key_index key replacement w =
    (case bt_get (ws_nodes w) table of
       None \<Rightarrow> (False, w)
     | Some rows \<Rightarrow>
         (case position (row_has key_index key) rows of
            None \<Rightarrow> (False, w)
          | Some pos \<Rightarrow> (True, w\<lparr> ws_nodes := bt_insert table (rows[pos := replacement]) (ws_nodes w) \<rparr>)))"

definition remove_at :: "nat \<Rightarrow> 'a list \<Rightarrow> 'a list" where
  "remove_at pos xs = take pos xs @ drop (Suc pos) xs"

definition set_or_remove :: "'k::linorder \<Rightarrow> 'a list \<Rightarrow> ('k, 'a list) btree \<Rightarrow> ('k, 'a list) btree" where
  "set_or_remove table xs m = (if xs = [] then bt_remove table m else bt_insert table xs m)"

definition remove_own_insert ::
    "string \<Rightarrow> nat \<Rightarrow> devon_value \<Rightarrow> write_set \<Rightarrow> bool devon_result \<times> write_set" where
  "remove_own_insert table key_index key w =
    (case bt_get (ws_nodes w) table of
       None \<Rightarrow> (Inr False, w)
     | Some rows \<Rightarrow>
         (case position (row_has key_index key) rows of
            None \<Rightarrow> (Inr False, w)
          | Some pos \<Rightarrow>
              (let w = w\<lparr> ws_nodes := set_or_remove table (remove_at pos rows) (ws_nodes w) \<rparr>
               in case bt_get (ws_inserted_pks w) table of
                    None \<Rightarrow> (Inl (Corrupt ''own inserted row has no primary-key write-set entry''), w)
                  | Some keys \<Rightarrow>
                      (case position (\<lambda>candidate. candidate = key) keys of
                         None \<Rightarrow> (Inl (Corrupt ''own inserted row primary key disappeared from write set''), w)
                       | Some key_position \<Rightarrow>
                           (Inr True, w\<lparr> ws_inserted_pks :=
                              set_or_remove table (remove_at key_position keys) (ws_inserted_pks w) \<rparr>)))))"

definition upsert_node_update :: "string \<Rightarrow> nat \<Rightarrow> devon_value \<Rightarrow> row \<Rightarrow> write_set \<Rightarrow> write_set" where
  "upsert_node_update table key_index key replacement w =
    w\<lparr> ws_node_updates := bt_entry table []
      (\<lambda>rows. case position (row_has key_index key) rows of
         Some pos \<Rightarrow> rows[pos := replacement]
       | None \<Rightarrow> rows @ [replacement]) (ws_node_updates w) \<rparr>"

definition remove_node_update :: "string \<Rightarrow> nat \<Rightarrow> devon_value \<Rightarrow> write_set \<Rightarrow> write_set" where
  "remove_node_update table key_index key w =
    (case bt_get (ws_node_updates w) table of
       None \<Rightarrow> w
     | Some rows \<Rightarrow>
         w\<lparr> ws_node_updates := set_or_remove table (filter (\<lambda>row. \<not> row_has key_index key row) rows)
              (ws_node_updates w) \<rparr>)"

definition stage_delete :: "string \<Rightarrow> devon_value \<Rightarrow> write_set \<Rightarrow> write_set" where
  "stage_delete table key w = w\<lparr> ws_node_deletes := bt_entry table [] (push_new key) (ws_node_deletes w) \<rparr>"

definition stage_node_delete :: "string \<Rightarrow> nat \<Rightarrow> devon_value \<Rightarrow> write_set \<Rightarrow> write_set" where
  "stage_node_delete table key_index key w = stage_delete table key (remove_node_update table key_index key w)"

definition keep_edge :: "rel_table_schema \<Rightarrow> string \<Rightarrow> devon_value \<Rightarrow> pending_edge \<Rightarrow> bool" where
  "keep_edge sch table key edge \<longleftrightarrow>
    \<not> (fold_name (rel_from sch) = fold_name table \<and> pe_from_key edge = key \<or>
       fold_name (rel_to sch) = fold_name table \<and> pe_to_key edge = key)"

definition fold_pending_incident_edges :: "catalog \<Rightarrow> string \<Rightarrow> devon_value \<Rightarrow> write_set \<Rightarrow> write_set" where
  "fold_pending_incident_edges cat table key w =
    w\<lparr> ws_edges := List.map_filter (\<lambda>(rel, edges).
      case rel_table cat rel of
        None \<Rightarrow> Some (rel, edges)
      | Some sch \<Rightarrow>
          (let kept = filter (keep_edge sch table key) edges
           in if kept = [] then None else Some (rel, kept))) (ws_edges w) \<rparr>"

definition detach_tombstone_claims :: "catalog \<Rightarrow> string \<Rightarrow> u64 \<Rightarrow> tombstone_claim list" where
  "detach_tombstone_claims cat table offset =
    concat (map (\<lambda>rel.
      (if fold_name (rel_from rel) = fold_name table then [(rel_name rel, True, offset)] else []) @
      (if fold_name (rel_to rel) = fold_name table then [(rel_name rel, False, offset)] else []))
      (cat_rel_tables cat))"

definition stage_tombstone :: "tombstone_claim \<Rightarrow> write_set \<Rightarrow> write_set" where
  "stage_tombstone = (\<lambda>(rel, from_side, offset) w.
    w\<lparr> ws_rel_tombstones := bt_entry rel no_tombstones
      (add_tombstone (if from_side then EndpointFrom else EndpointTo) offset) (ws_rel_tombstones w) \<rparr>)"

definition stage_detach ::
    "catalog \<Rightarrow> nat \<Rightarrow> pending_detach \<Rightarrow> tombstone_claim list \<Rightarrow> write_set \<Rightarrow> write_set" where
  "stage_detach cat key_index intent tombstones w =
    (let w = stage_node_delete (pd_table intent) key_index (pd_key intent)
           (fold_pending_incident_edges cat (pd_table intent) (pd_key intent) w)
     in fold stage_tombstone tombstones (w\<lparr> ws_detaches := ws_detaches w @ [intent] \<rparr>))"

section \<open>Node statements\<close>

definition resolve_dml_table :: "transaction \<Rightarrow> string \<Rightarrow> node_table_schema devon_result" where
  "resolve_dml_table tx table =
    ok_or (NotFound (''node table {}'' @ suggestion_suffix table (map node_name (cat_node_tables (tx_catalog tx)))))
      (node_table (tx_catalog tx) table)"

definition resolve_dml_column :: "node_table_schema \<Rightarrow> string \<Rightarrow> nat devon_result" where
  "resolve_dml_column sch column =
    ok_or (NotFound (''column {} in node table {}'' @ suggestion_suffix column (map scol_name (node_columns sch))))
      (column_index (node_columns sch) column)"

definition validate_dml_key_column :: "node_table_schema \<Rightarrow> string \<Rightarrow> (nat \<times> string) devon_result" where
  "validate_dml_key_column sch key_column =
    rbind (resolve_dml_column sch key_column) (\<lambda>supplied_index.
    rbind (primary_key sch) (\<lambda>(key_index, canonical_key).
    if supplied_index \<noteq> key_index
    then Inl (InvalidArgument
      ''update/delete where column {} is not primary key {} in node table {}; predicate-driven bulk DML is not supported'')
    else Inr (key_index, canonical_key)))"

definition validate_node_insert_row :: "node_table_schema \<Rightarrow> nat \<Rightarrow> row \<Rightarrow> devon_value devon_result" where
  "validate_node_insert_row sch key_index row =
    rbind (recover_row sch row []) (\<lambda>_.
    rbind (ok_or (Corrupt ''validated node row lost its primary-key value'') (slice_get row key_index)) (\<lambda>key.
    if key = Null
    then Inl (InvalidArgument ''primary key column {} in node table {} cannot be null'')
    else Inr key))"

fun not_found_absent :: "'a devon_result \<Rightarrow> bool devon_result" where
  "not_found_absent (Inr _) = Inr True"
| "not_found_absent (Inl (NotFound _)) = Inr False"
| "not_found_absent (Inl e) = Inl e"

definition transaction_key_exists :: "read_env \<Rightarrow> string \<Rightarrow> devon_value \<Rightarrow> bool step" where
  "transaction_key_exists env table key = with_tx (\<lambda>tx.
    if key \<in> set (bt_items (ws_inserted_pks (tx_writes tx)) table) then slift (Inr True)
    else sbind (transaction_read_view env False) (\<lambda>view s.
      case tx_resolve_key env view table key s of (res, s) \<Rightarrow> (not_found_absent res, s)))"

definition stage_inserts :: "string \<Rightarrow> row list \<Rightarrow> devon_value list \<Rightarrow> write_set \<Rightarrow> write_set" where
  "stage_inserts table rows keys w =
    w\<lparr> ws_nodes := bt_entry table [] (\<lambda>staged. staged @ rows) (ws_nodes w),
       ws_inserted_pks := bt_entry table [] (\<lambda>staged. staged @ keys) (ws_inserted_pks w) \<rparr>"

definition stage_node_inserts :: "relief \<Rightarrow> string \<Rightarrow> row list \<Rightarrow> devon_value list \<Rightarrow> unit step" where
  "stage_node_inserts rl table rows keys = with_tx (\<lambda>tx.
    sbind (slift (node_insert_bytes (tx_writes tx) table rows keys)) (\<lambda>requested.
    sbind (charge_write_set rl requested) (\<lambda>_.
    modify_writes (stage_inserts table rows keys))))"

definition check_insert_row ::
    "read_env \<Rightarrow> node_table_schema \<Rightarrow> nat \<Rightarrow> row \<Rightarrow> devon_value list \<Rightarrow> devon_value list step" where
  "check_insert_row env sch key_index row staged =
    sbind (slift (validate_node_insert_row sch key_index row)) (\<lambda>key.
    sbind (if key \<in> set staged then slift (Inr True) else transaction_key_exists env (node_name sch) key) (\<lambda>exists.
    if exists then slift (Inl (InvalidArgument ''duplicate primary key {} in node table {}''))
    else slift (Inr (staged @ [key]))))"

definition execute_node_insert :: "read_env \<Rightarrow> relief \<Rightarrow> string \<Rightarrow> row list \<Rightarrow> unit step" where
  "execute_node_insert env rl table rows = with_tx (\<lambda>tx.
    sbind (slift (resolve_dml_table tx table)) (\<lambda>sch.
    sbind (slift (primary_key sch)) (\<lambda>(key_index, key_column).
    sbind (sfold (check_insert_row env sch key_index) rows []) (\<lambda>staged_keys.
    stage_node_inserts rl (node_name sch) rows staged_keys))))"

definition apply_set_item ::
    "node_table_schema \<Rightarrow> nat \<Rightarrow> set_item \<Rightarrow> row \<Rightarrow> row devon_result" where
  "apply_set_item sch key_index item replacement =
    rbind (resolve_dml_column sch (si_column item)) (\<lambda>column_index.
    if column_index = key_index
    then Inl (InvalidArgument
      ''update of primary key column {} in node table {} is not supported; use delete plus insert'')
    else Inr (replacement[column_index := si_value item]))"

definition stage_update :: "string \<Rightarrow> nat \<Rightarrow> devon_value \<Rightarrow> row \<Rightarrow> write_set \<Rightarrow> write_set" where
  "stage_update table key_index key replacement w =
    (case replace_own_insert table key_index key replacement w of
       (True, w) \<Rightarrow> w
     | (False, w) \<Rightarrow> upsert_node_update table key_index key replacement w)"

definition execute_node_update ::
    "read_env \<Rightarrow> relief \<Rightarrow> string \<Rightarrow> set_item list \<Rightarrow> string \<Rightarrow> devon_value \<Rightarrow> unit step" where
  "execute_node_update env rl table items key_column key = with_tx (\<lambda>tx.
    sbind (slift (resolve_dml_table tx table)) (\<lambda>sch.
    sbind (slift (validate_dml_key_column sch key_column)) (\<lambda>(key_index, _).
    sbind (transaction_read_view env False) (\<lambda>view.
    sbind (tx_resolve_row env view (node_name sch) key) (\<lambda>row.
    sbind (slift (rfold (apply_set_item sch key_index) items row)) (\<lambda>replacement.
    sbind (slift (recover_row sch replacement [])) (\<lambda>_.
    sbind (slift (node_dml_bytes (ws_node_updates (tx_writes tx)) (node_name sch) replacement)) (\<lambda>requested.
    sbind (charge_write_set rl requested) (\<lambda>_.
    modify_writes (stage_update (node_name sch) key_index key replacement))))))))))"

definition tx_remove_own_insert :: "string \<Rightarrow> nat \<Rightarrow> devon_value \<Rightarrow> bool step" where
  "tx_remove_own_insert table key_index key = (\<lambda>(tx, st).
    case remove_own_insert table key_index key (tx_writes tx) of
      (res, w) \<Rightarrow> (res, tx\<lparr> tx_writes := w \<rparr>, st))"

definition execute_node_delete ::
    "read_env \<Rightarrow> relief \<Rightarrow> string \<Rightarrow> string \<Rightarrow> devon_value \<Rightarrow> unit step" where
  "execute_node_delete env rl table key_column key = with_tx (\<lambda>tx.
    sbind (slift (resolve_dml_table tx table)) (\<lambda>sch.
    sbind (slift (reject_referenced_delete (tx_catalog tx) sch)) (\<lambda>_.
    sbind (slift (validate_dml_key_column sch key_column)) (\<lambda>(key_index, _).
    sbind (transaction_read_view env False) (\<lambda>view.
    sbind (tx_resolve_row env view (node_name sch) key) (\<lambda>row.
    sbind (slift (ok_or (Corrupt ''resolved DML row lost its primary-key value'') (slice_get row key_index))) (\<lambda>canonical_key.
    sbind (tx_remove_own_insert (node_name sch) key_index canonical_key) (\<lambda>removed.
    if removed then slift (Inr ()) else
    sbind (slift (node_dml_bytes [] (node_name sch) [canonical_key])) (\<lambda>requested.
    sbind (charge_write_set rl requested) (\<lambda>_.
    modify_writes (stage_node_delete (node_name sch) key_index canonical_key)))))))))))"

definition execute_detach_delete ::
    "read_env \<Rightarrow> relief \<Rightarrow> string \<Rightarrow> string \<Rightarrow> devon_value \<Rightarrow> unit step" where
  "execute_detach_delete env rl table key_column key = with_tx (\<lambda>tx.
    sbind (slift (resolve_dml_table tx table)) (\<lambda>sch.
    sbind (slift (validate_dml_key_column sch key_column)) (\<lambda>(key_index, _).
    sbind (transaction_read_view env False) (\<lambda>view.
    sbind (tx_resolve_row env view (node_name sch) key) (\<lambda>row.
    sbind (slift (ok_or (Corrupt ''resolved detach row lost its primary-key value'') (slice_get row key_index))) (\<lambda>canonical_key.
    sbind (tx_resolve_key env view (node_name sch) canonical_key) (\<lambda>offset.
    let tombstones = detach_tombstone_claims (tx_catalog tx) (node_name sch) offset;
        fold_edges = fold_pending_incident_edges (tx_catalog tx) (node_name sch) canonical_key
    in
      if own_insert_position (tx_writes tx) (node_name sch) key_index canonical_key \<noteq> None
      then
        sbind (tx_remove_own_insert (node_name sch) key_index canonical_key) (\<lambda>_. modify_writes fold_edges)
      else
        sbind (slift (node_dml_bytes [] (node_name sch) [canonical_key])) (\<lambda>delete_bytes.
        let intent = \<lparr> pd_table = node_name sch, pd_key = canonical_key \<rparr> in
        sbind (slift (rbind (detach_bytes (tx_writes tx) intent tombstones) (\<lambda>bytes.
          ok_or (BudgetExceeded ''detach write-set byte estimate exceeds usize::MAX'')
            (checked_add_usize delete_bytes bytes)))) (\<lambda>requested.
        sbind (charge_write_set rl requested) (\<lambda>_.
        modify_writes (stage_detach (tx_catalog tx) key_index intent tombstones)))))))))))"

text \<open>An upsert decides for every row whether it inserts or updates before it stages any.\<close>

datatype upsert_action = UpsertInsert | UpsertUpdate

definition upsert_key :: "devon_value \<Rightarrow> pk_key devon_result" where
  "upsert_key v = map_err (\<lambda>_. Corrupt ''validated upsert primary key has unsupported value {}'') (pk_try_from v)"

definition resolve_upsert_action ::
    "read_env \<Rightarrow> read_view \<Rightarrow> string \<Rightarrow> devon_value \<Rightarrow> upsert_action list \<times> pk_key set
      \<Rightarrow> (upsert_action list \<times> pk_key set) step" where
  "resolve_upsert_action env view table key = (\<lambda>(actions, present).
    sbind (slift (upsert_key key)) (\<lambda>normalized_key.
    if normalized_key \<in> present then slift (Inr (actions @ [UpsertUpdate], present))
    else
      sbind (\<lambda>s. case tx_resolve_key env view table key s of (res, s) \<Rightarrow> (not_found_absent res, s)) (\<lambda>exists.
      slift (Inr (actions @ [if exists then UpsertUpdate else UpsertInsert], insert normalized_key present)))))"

definition resolve_upsert_actions ::
    "read_env \<Rightarrow> string \<Rightarrow> devon_value list \<Rightarrow> upsert_action list step" where
  "resolve_upsert_actions env table keys = with_tx (\<lambda>tx.
    sbind (transaction_read_view env False) (\<lambda>view.
    sbind (slift (rmapM upsert_key (bt_items (ws_inserted_pks (tx_writes tx)) table))) (\<lambda>present.
    sbind (sfold (resolve_upsert_action env view table) keys ([], set present)) (\<lambda>(actions, _).
    slift (Inr actions)))))"

definition full_row_update_set :: "node_table_schema \<Rightarrow> row \<Rightarrow> nat \<Rightarrow> set_item list devon_result" where
  "full_row_update_set sch row key_index =
    rmapM (\<lambda>(index, column).
      rbind (ok_or (Corrupt ''validated upsert row lost a non-key value'') (slice_get row index)) (\<lambda>v.
      Inr \<lparr> si_column = scol_name column, si_value = v \<rparr>))
      (filter (\<lambda>(index, _). index \<noteq> key_index) (enumerate 0 (node_columns sch)))"

definition apply_upsert ::
    "read_env \<Rightarrow> relief \<Rightarrow> node_table_schema \<Rightarrow> nat \<Rightarrow> string \<Rightarrow> (row \<times> devon_value) \<times> upsert_action \<Rightarrow> unit step" where
  "apply_upsert env rl sch key_index key_column = (\<lambda>((row, key), action).
    case action of
      UpsertInsert \<Rightarrow> stage_node_inserts rl (node_name sch) [row] [key]
    | UpsertUpdate \<Rightarrow>
        sbind (slift (full_row_update_set sch row key_index)) (\<lambda>items.
        execute_node_update env rl (node_name sch) items key_column key))"

definition execute_node_upsert :: "read_env \<Rightarrow> relief \<Rightarrow> string \<Rightarrow> row list \<Rightarrow> unit step" where
  "execute_node_upsert env rl table rows = with_tx (\<lambda>tx.
    sbind (slift (resolve_dml_table tx table)) (\<lambda>sch.
    sbind (slift (primary_key sch)) (\<lambda>(key_index, key_column).
    sbind (slift (rmapM (validate_node_insert_row sch key_index) rows)) (\<lambda>keys.
    sbind (resolve_upsert_actions env (node_name sch) keys) (\<lambda>actions.
    sfold (\<lambda>item _. apply_upsert env rl sch key_index key_column item) (zip (zip rows keys) actions) ())))))"

section \<open>Relationship inserts\<close>

definition validate_rel_values :: "rel_table_schema \<Rightarrow> devon_value list \<Rightarrow> unit devon_result" where
  "validate_rel_values sch vs =
    (if length vs \<noteq> length (rel_columns sch)
     then Inl (InvalidArgument ''relationship table {} expects {} property columns but edge has {} values'')
     else
       rbind (rmapM (\<lambda>(col, v).
         if \<not> matches_type v (scol_ty col)
         then Inl (InvalidArgument ''column {} in relationship table {} expects {} but received {}'')
         else Inr ()) (zip (rel_columns sch) vs)) (\<lambda>_. Inr ()))"

definition reject_own_deleted_endpoint :: "transaction \<Rightarrow> string \<Rightarrow> devon_value \<Rightarrow> unit devon_result" where
  "reject_own_deleted_endpoint tx table key =
    (let canonical = (case node_table (tx_catalog tx) table of None \<Rightarrow> table | Some sch \<Rightarrow> node_name sch)
     in if key \<in> set (bt_items (ws_inserted_pks (tx_writes tx)) canonical) then Inr ()
        else if key \<in> set (bt_items (ws_node_deletes (tx_writes tx)) canonical)
        then Inl (NotFound ''node table {} primary key {}'')
        else Inr ())"

definition stage_edges :: "string \<Rightarrow> pending_edge list \<Rightarrow> write_set \<Rightarrow> write_set" where
  "stage_edges table staged w = w\<lparr> ws_edges := bt_entry table [] (\<lambda>edges. edges @ staged) (ws_edges w) \<rparr>"

definition check_rel_row ::
    "read_env \<Rightarrow> read_view \<Rightarrow> rel_table_schema \<Rightarrow> rel_row \<Rightarrow> pending_edge list \<Rightarrow> pending_edge list step" where
  "check_rel_row env view sch row staged = with_tx (\<lambda>tx.
    sbind (slift (validate_rel_values sch (rr_values row))) (\<lambda>_.
    sbind (slift (reject_own_deleted_endpoint tx (rel_from sch) (rr_from_key row))) (\<lambda>_.
    sbind (slift (reject_own_deleted_endpoint tx (rel_to sch) (rr_to_key row))) (\<lambda>_.
    sbind (tx_resolve_key env view (rel_from sch) (rr_from_key row)) (\<lambda>_.
    sbind (tx_resolve_key env view (rel_to sch) (rr_to_key row)) (\<lambda>_.
    slift (Inr (staged @ [\<lparr> pe_from_key = rr_from_key row, pe_to_key = rr_to_key row, pe_values = rr_values row \<rparr>]))))))))"

definition execute_rel_insert :: "read_env \<Rightarrow> relief \<Rightarrow> string \<Rightarrow> rel_row list \<Rightarrow> unit step" where
  "execute_rel_insert env rl table rows = with_tx (\<lambda>tx.
    sbind (slift (ok_or (NotFound (''relationship table {}'' @
      suggestion_suffix table (map rel_name (cat_rel_tables (tx_catalog tx))))) (rel_table (tx_catalog tx) table))) (\<lambda>sch.
    sbind (transaction_read_view env False) (\<lambda>view.
    sbind (sfold (check_rel_row env view sch) rows []) (\<lambda>staged.
    sbind (slift (edge_endpoint_table_staged (tx_catalog tx) (tx_writes tx) (rel_from sch))) (\<lambda>from_claims_staged.
    sbind (slift (edge_endpoint_table_staged (tx_catalog tx) (tx_writes tx) (rel_to sch))) (\<lambda>to_claims_staged.
    sbind (slift (rel_insert_bytes (tx_writes tx) (rel_name sch) staged (rel_from sch) (rel_to sch)
      from_claims_staged to_claims_staged)) (\<lambda>requested.
    sbind (charge_write_set rl requested) (\<lambda>_.
    modify_writes (stage_edges (rel_name sch) staged)))))))))"

section \<open>Schema, ontology and pin statements\<close>

definition stage_ddl :: "relief \<Rightarrow> ddl_op \<Rightarrow> catalog \<Rightarrow> unit step" where
  "stage_ddl rl ddl cat =
    sbind (slift (ddl_bytes ddl)) (\<lambda>requested.
    sbind (charge_write_set rl requested) (\<lambda>_.
    sbind (set_tx_catalog cat) (\<lambda>_.
    modify_writes (\<lambda>w. w\<lparr> ws_ddl := ws_ddl w @ [ddl] \<rparr>))))"

definition execute_create_node_table :: "relief \<Rightarrow> string \<Rightarrow> schema_column list \<Rightarrow> unit step" where
  "execute_create_node_table rl name columns = with_tx (\<lambda>tx.
    sbind (slift (node_schema_new name columns)) (\<lambda>sch.
    sbind (slift (reject_interface_collision_for_node (tx_catalog tx) (node_name sch))) (\<lambda>_.
    sbind (slift (add_node_table (tx_catalog tx) sch)) (\<lambda>cat.
    stage_ddl rl (OpCreateNodeTable sch) cat))))"

definition execute_create_rel_table ::
    "relief \<Rightarrow> string \<Rightarrow> string \<Rightarrow> string \<Rightarrow> schema_column list \<Rightarrow> unit step" where
  "execute_create_rel_table rl name src dst columns = with_tx (\<lambda>tx.
    sbind (slift (rel_schema_new name src dst columns)) (\<lambda>sch.
    sbind (slift (add_rel_table (tx_catalog tx) sch)) (\<lambda>cat.
    stage_ddl rl (OpCreateRelTable sch) cat)))"

definition ontology_pending :: "transaction \<Rightarrow> bool" where
  "ontology_pending tx \<longleftrightarrow> cat_ontology (tx_catalog tx) \<noteq> cat_ontology (ps_catalog (tx_state tx))"

definition pins_pending :: "transaction \<Rightarrow> bool" where
  "pins_pending tx \<longleftrightarrow> cat_pins (tx_catalog tx) \<noteq> cat_pins (ps_catalog (tx_state tx))"

definition metadata_pending :: "transaction \<Rightarrow> bool" where
  "metadata_pending tx \<longleftrightarrow> ontology_pending tx \<or> pins_pending tx"

definition ontology_mixed :: devon_error where
  "ontology_mixed = InvalidArgument ''ontology DDL may be combined only with other ontology DDL in a transaction''"

definition pins_mixed :: devon_error where
  "pins_mixed = InvalidArgument ''pin DDL may be combined only with other pin DDL in a transaction''"

definition ensure_ontology_only :: "transaction \<Rightarrow> unit devon_result" where
  "ensure_ontology_only tx =
    (if write_set_is_empty (tx_writes tx) \<and> \<not> pins_pending tx then Inr () else Inl ontology_mixed)"

definition ensure_pins_only :: "transaction \<Rightarrow> unit devon_result" where
  "ensure_pins_only tx =
    (if write_set_is_empty (tx_writes tx) \<and> \<not> ontology_pending tx then Inr () else Inl pins_mixed)"

definition reject_relationship_clauses :: "class_clauses \<Rightarrow> unit devon_result" where
  "reject_relationship_clauses cc =
    (if cc_verb cc = None \<and> cc_inverse cc = None then Inr ()
     else Inl (InvalidArgument ''node class for {} does not admit relationship clause(s): {}''))"

definition reject_node_clauses :: "class_clauses \<Rightarrow> unit devon_result" where
  "reject_node_clauses cc =
    (if cc_display cc = None \<and> cc_plural cc = None \<and> cc_label cc = None \<and> cc_summary cc = [] \<and>
        cc_color cc = None \<and> cc_description cc = None \<and> cc_implements cc = [] then Inr ()
     else Inl (InvalidArgument ''relationship class for {} does not admit node clause(s): {}''))"

definition unknown_class_table :: "catalog \<Rightarrow> string \<Rightarrow> devon_error" where
  "unknown_class_table cat table = InvalidArgument (''class target table {} was not found'' @
    suggestion_suffix table (map node_name (cat_node_tables cat) @ map rel_name (cat_rel_tables cat)))"

definition create_class :: "catalog \<Rightarrow> string \<Rightarrow> class_clauses \<Rightarrow> catalog devon_result" where
  "create_class cat table cc =
    (if node_table cat table \<noteq> None
     then
       rbind (reject_relationship_clauses cc) (\<lambda>_.
       declare_node_class cat \<lparr> nc_table = table, nc_display = cc_display cc, nc_plural = cc_plural cc,
         nc_label = cc_label cc, nc_summary = cc_summary cc, nc_color = cc_color cc,
         nc_description = cc_description cc, nc_implements = cc_implements cc \<rparr>)
     else if rel_table cat table \<noteq> None
     then
       rbind (reject_node_clauses cc) (\<lambda>_.
       declare_rel_class cat \<lparr> rc_table = table, rc_verb = cc_verb cc, rc_inverse = cc_inverse cc \<rparr>)
     else Inl (unknown_class_table cat table))"

definition execute_create_class :: "string \<Rightarrow> class_clauses \<Rightarrow> unit step" where
  "execute_create_class table cc = with_tx (\<lambda>tx.
    sbind (slift (create_class (tx_catalog tx) table cc)) set_tx_catalog)"

section \<open>Dispatch\<close>

text \<open>The index builder and the plan layer: preparing an index, and a plan to the JSON of its pin.\<close>

record 'plan statement_env =
  se_prepare_index :: "transaction \<Rightarrow> string \<Rightarrow> string \<Rightarrow> string \<Rightarrow> unit devon_result"
  se_pin_json :: "catalog \<Rightarrow> 'plan \<Rightarrow> json devon_result"

definition from_plan_json :: "string \<Rightarrow> string \<Rightarrow> json \<Rightarrow> u64 \<Rightarrow> pin_entry devon_result" where
  "from_plan_json name body plan created_lsn =
    (let entry = \<lparr> pin_name = name, pin_text = body, pin_plan = plan, pin_created_lsn = created_lsn \<rparr>
     in rbind (map_err corrupt_to_invalid (validate_pin_entry entry)) (\<lambda>_. Inr entry))"

fun is_ontology_statement :: "'plan statement \<Rightarrow> bool" where
  "is_ontology_statement (StmtCreateInterface name columns) = True"
| "is_ontology_statement (StmtCreateClass table cc) = True"
| "is_ontology_statement _ = False"

fun is_pin_statement :: "'plan statement \<Rightarrow> bool" where
  "is_pin_statement (StmtPinPlan name body plan) = True"
| "is_pin_statement (StmtUnpinPlan name) = True"
| "is_pin_statement _ = False"

fun execute_statement :: "read_env \<Rightarrow> relief \<Rightarrow> 'plan statement_env \<Rightarrow> 'plan statement \<Rightarrow> unit step" where
  "execute_statement env rl se (StmtCreateNodeTable name columns) = execute_create_node_table rl name columns"
| "execute_statement env rl se (StmtCreateRelTable name src dst columns) =
    execute_create_rel_table rl name src dst columns"
| "execute_statement env rl se (StmtInsertNode table rows) = execute_node_insert env rl table rows"
| "execute_statement env rl se (StmtInsertRel table rows) = execute_rel_insert env rl table rows"
| "execute_statement env rl se (StmtUpsertNode table rows) = execute_node_upsert env rl table rows"
| "execute_statement env rl se (StmtCopyNode table path sort_by) =
    slift (Inl (InvalidArgument ''copy does not run inside a transaction; execute it directly on the database''))"
| "execute_statement env rl se (StmtUpdateNode table items key_column key) =
    execute_node_update env rl table items key_column key"
| "execute_statement env rl se (StmtDeleteNode table key_column key) =
    execute_node_delete env rl table key_column key"
| "execute_statement env rl se (StmtDetachDeleteNode table key_column key) =
    execute_detach_delete env rl table key_column key"
| "execute_statement env rl se (StmtCreateInterface name columns) = with_tx (\<lambda>tx.
    sbind (slift (ensure_ontology_only tx)) (\<lambda>_.
    sbind (slift (reject_node_collision_for_interface (tx_catalog tx) name)) (\<lambda>_.
    sbind (slift (declare_interface (tx_catalog tx) \<lparr> if_name = name, if_columns = columns \<rparr>)) set_tx_catalog)))"
| "execute_statement env rl se (StmtCreateClass table cc) = with_tx (\<lambda>tx.
    sbind (slift (ensure_ontology_only tx)) (\<lambda>_. execute_create_class table cc))"
| "execute_statement env rl se (StmtCreateHnswIndex name table column) = with_tx (\<lambda>tx.
    sbind (slift (se_prepare_index se tx name table column)) (\<lambda>_.
    modify_writes (\<lambda>w. w\<lparr> ws_hnsw_create := True \<rparr>)))"
| "execute_statement env rl se (StmtPinPlan name body plan) = with_tx (\<lambda>tx.
    sbind (slift (ensure_pins_only tx)) (\<lambda>_.
    sbind (slift (se_pin_json se (tx_catalog tx) plan)) (\<lambda>plan_json.
    sbind (slift (rbind (from_plan_json name body plan_json 0) (pin (tx_catalog tx)))) set_tx_catalog)))"
| "execute_statement env rl se (StmtUnpinPlan name) = with_tx (\<lambda>tx.
    sbind (slift (ensure_pins_only tx)) (\<lambda>_.
    sbind (slift (unpin (tx_catalog tx) name)) set_tx_catalog))"

definition execute_transaction ::
    "read_env \<Rightarrow> relief \<Rightarrow> 'plan statement_env \<Rightarrow> 'plan statement \<Rightarrow> unit step" where
  "execute_transaction env rl se stmt = with_tx (\<lambda>tx.
    if ws_hnsw_create (tx_writes tx)
    then slift (Inl (InvalidArgument ''CREATE HNSW INDEX must be the only statement in its transaction''))
    else if ontology_pending tx \<and> \<not> is_ontology_statement stmt then slift (Inl ontology_mixed)
    else if pins_pending tx \<and> \<not> is_pin_statement stmt then slift (Inl pins_mixed)
    else execute_statement env rl se stmt)"

definition execute_in_transaction ::
    "read_env \<Rightarrow> relief \<Rightarrow> 'plan statement_env \<Rightarrow> 'plan statement \<Rightarrow> unit step" where
  "execute_in_transaction env rl se stmt = transaction_execute (execute_transaction env rl se stmt)"

end
