(* ===== verification/Staging.thy ===== *)
theory Staging
  imports Statements
begin

text \<open>
  What statements keep of a transaction: a small Hoare logic for steps on a session, and the
  invariant of the write set that committing relies on.
\<close>

section \<open>Triples\<close>

text \<open>From a session with \<open>P\<close>, a step that returns establishes \<open>Q\<close> and one that fails \<open>E\<close>.\<close>

definition triple :: "('s \<Rightarrow> bool) \<Rightarrow> ('s \<Rightarrow> ('e + 'a) \<times> 's) \<Rightarrow> ('a \<Rightarrow> 's \<Rightarrow> bool) \<Rightarrow> ('s \<Rightarrow> bool) \<Rightarrow> bool" where
  "triple P m Q E \<longleftrightarrow> (\<forall>s. P s \<longrightarrow> (case m s of (Inl e, s') \<Rightarrow> E s' | (Inr x, s') \<Rightarrow> Q x s'))"

named_theorems step_rules \<open>one rule per way of composing steps\<close>

lemma triple_bind [step_rules]:
  "triple P m R E \<Longrightarrow> (\<And>x. triple (R x) (f x) Q E) \<Longrightarrow> triple P (sbind m f) Q E"
  unfolding triple_def sbind_def by (fastforce split: prod.splits sum.splits)

lemma triple_lift:
  "(\<And>s e. P s \<Longrightarrow> r = Inl e \<Longrightarrow> E s) \<Longrightarrow> (\<And>s x. P s \<Longrightarrow> r = Inr x \<Longrightarrow> Q x s) \<Longrightarrow> triple P (slift r) Q E"
  unfolding triple_def slift_def by (auto split: sum.splits)

text \<open>A check before a step: what it establishes is known in the rest.\<close>

lemma triple_check:
  "(\<And>s. P s \<Longrightarrow> E s) \<Longrightarrow> (\<And>x. r = Inr x \<Longrightarrow> triple P (f x) Q E) \<Longrightarrow> triple P (sbind (slift r) f) Q E"
  unfolding triple_def sbind_def slift_def by (cases r) auto

lemma triple_check_pair:
  "(\<And>s. P s \<Longrightarrow> E s) \<Longrightarrow> (\<And>a b. r = Inr (a, b) \<Longrightarrow> triple P (f a b) Q E) \<Longrightarrow>
    triple P (sbind (slift r) (\<lambda>(a, b). f a b)) Q E"
  by (rule triple_check) auto

lemma triple_with_tx:
  "(\<And>tx. triple (\<lambda>s. P s \<and> fst s = tx) (f tx) Q E) \<Longrightarrow> triple P (with_tx f) Q E"
  unfolding triple_def with_tx_def by auto

lemma triple_if:
  "(b \<Longrightarrow> triple P m Q E) \<Longrightarrow> (\<not> b \<Longrightarrow> triple P m' Q E) \<Longrightarrow> triple P (if b then m else m') Q E"
  by simp

lemma triple_modify:
  "(\<And>tx caches budget. P (tx, caches, budget) \<Longrightarrow> Q () (tx\<lparr> tx_writes := f (tx_writes tx) \<rparr>, caches, budget)) \<Longrightarrow>
    triple P (modify_writes f) Q E"
  unfolding triple_def modify_writes_def by auto

lemma triple_set_catalog:
  "(\<And>tx caches budget. P (tx, caches, budget) \<Longrightarrow> Q () (tx\<lparr> tx_catalog := cat \<rparr>, caches, budget)) \<Longrightarrow>
    triple P (set_tx_catalog cat) Q E"
  unfolding triple_def set_tx_catalog_def by auto

lemma triple_fold:
  assumes "\<And>x acc. x \<in> set xs \<Longrightarrow> triple (I acc) (f x acc) I E"
  shows "triple (I acc) (sfold f xs acc) I E"
  using assms
proof (induction xs arbitrary: acc)
  case (Cons x xs)
  then show ?case by (auto intro!: triple_bind)
qed (auto simp: triple_def slift_def)

text \<open>A loop whose invariant follows the elements already treated.\<close>

lemma triple_fold_prefix:
  assumes "\<And>seen x rest acc. xs = seen @ x # rest \<Longrightarrow> triple (I seen acc) (f x acc) (I (seen @ [x])) E"
  shows "triple (I [] acc) (sfold f xs acc) (I xs) E"
proof -
  have "triple (I seen acc) (sfold f rest acc) (I (seen @ rest)) E" if "xs = seen @ rest" for seen rest acc
    using that
  proof (induction rest arbitrary: seen acc)
    case (Cons x rest)
    then have "triple (I seen acc) (f x acc) (I (seen @ [x])) E" by (intro assms)
    moreover have "triple (I (seen @ [x]) acc') (sfold f rest acc') (I (seen @ x # rest)) E" for acc'
      using Cons by (metis append_Cons append_Nil append_assoc)
    ultimately show ?case by (auto intro: triple_bind)
  qed (auto simp: triple_def slift_def)
  from this [of "[]" xs] show ?thesis by simp
qed

lemma triple_conseq:
  "triple P' m Q' E' \<Longrightarrow> (\<And>s. P s \<Longrightarrow> P' s) \<Longrightarrow> (\<And>x s. Q' x s \<Longrightarrow> Q x s) \<Longrightarrow> (\<And>s. E' s \<Longrightarrow> E s) \<Longrightarrow> triple P m Q E"
  unfolding triple_def by (fastforce split: prod.splits sum.splits)

lemma triple_forget: "triple P m Q E \<Longrightarrow> triple (\<lambda>s. P s \<and> A s) m Q E"
  unfolding triple_def by simp

lemma tripleD:
  "triple P m Q E \<Longrightarrow> m s = (res, s') \<Longrightarrow> P s \<Longrightarrow> (case res of Inl e \<Rightarrow> E s' | Inr x \<Rightarrow> Q x s')"
  unfolding triple_def by (cases res) fastforce+

section \<open>Charging and reading\<close>

definition charge :: "nat \<Rightarrow> transaction \<Rightarrow> transaction" where
  "charge n tx = tx\<lparr> tx_writes := (tx_writes tx)\<lparr> ws_charged := n \<rparr> \<rparr>"

lemma charge_simps [simp]:
  "tx_catalog (charge n tx) = tx_catalog tx" "tx_state (charge n tx) = tx_state tx"
  "tx_writes (charge n tx) = (tx_writes tx)\<lparr> ws_charged := n \<rparr>"
  "charge m (charge n tx) = charge m tx" "charge (ws_charged (tx_writes tx)) tx = tx"
  "transaction_view (charge n tx) = transaction_view tx"
  by (simp_all add: charge_def transaction_view_def own_delta_def delta_of_writes_def)

text \<open>
  A session of a transaction, its charge apart, whose caches have the property \<open>C\<close>.
\<close>

definition sess :: "transaction \<Rightarrow> (caches \<Rightarrow> bool) \<Rightarrow> session \<Rightarrow> bool" where
  "sess tx C = (\<lambda>(tx', caches, budget). (\<exists>n. tx' = charge n tx) \<and> C caches)"

definition post :: "(transaction \<Rightarrow> bool) \<Rightarrow> (caches \<Rightarrow> bool) \<Rightarrow> unit \<Rightarrow> session \<Rightarrow> bool" where
  "post R C = (\<lambda>_ s. R (fst s) \<and> C (fst (snd s)))"

lemma sess_fst: "C caches \<Longrightarrow> sess tx C (tx, caches, budget)"
  unfolding sess_def by (auto intro: exI [of _ "ws_charged (tx_writes tx)"])

lemma triple_start:
  assumes "\<And>tx. P tx \<Longrightarrow> triple (sess tx C) (f tx) Q E"
  shows "triple (\<lambda>(tx, caches, budget). P tx \<and> C caches) (with_tx f) Q E"
  unfolding triple_def with_tx_def
proof (intro allI impI)
  fix s :: session assume "case s of (tx, caches, budget) \<Rightarrow> P tx \<and> C caches"
  then have "P (fst s)" "sess (fst s) C s" by (auto intro: sess_fst)
  with assms [of "fst s"] show "case f (fst s) s of (Inl e, s') \<Rightarrow> E s' | (Inr x, s') \<Rightarrow> Q x s'"
    by (auto simp only: triple_def)
qed

lemma triple_sessI:
  assumes "\<And>n caches budget. C caches \<Longrightarrow>
    (case m (charge n tx, caches, budget) of (Inl e, s') \<Rightarrow> E s' | (Inr x, s') \<Rightarrow> Q x s')"
  shows "triple (sess tx C) m Q E"
  unfolding triple_def
proof (intro allI impI)
  fix s assume "sess tx C s"
  then obtain n caches budget where "s = (charge n tx, caches, budget)" "C caches" by (auto simp: sess_def)
  with assms show "case m s of (Inl e, s') \<Rightarrow> E s' | (Inr x, s') \<Rightarrow> Q x s'" by simp
qed

lemma triple_with_sess:
  assumes "\<And>n. triple (sess tx C) (f (charge n tx)) Q E"
  shows "triple (sess tx C) (with_tx f) Q E"
proof (rule triple_with_tx)
  fix tx'
  show "triple (\<lambda>s. sess tx C s \<and> fst s = tx') (f tx') Q E"
  proof (cases "\<exists>n. tx' = charge n tx")
    case True
    with assms show ?thesis by (auto intro: triple_forget)
  next
    case False
    then have "\<not> (sess tx C s \<and> fst s = tx')" for s by (auto simp: sess_def)
    then show ?thesis unfolding triple_def by blast
  qed
qed

text \<open>The transaction after an edit of its writes.\<close>

definition staged_by :: "(write_set \<Rightarrow> write_set) \<Rightarrow> transaction \<Rightarrow> transaction \<Rightarrow> bool" where
  "staged_by f tx tx' \<longleftrightarrow> (\<exists>n. tx' = tx\<lparr> tx_writes := f ((tx_writes tx)\<lparr> ws_charged := n \<rparr>) \<rparr>)"

lemma triple_stage: "triple (sess tx C) (modify_writes f) (post (staged_by f tx) C) E"
  by (rule triple_modify) (auto simp: sess_def post_def staged_by_def charge_def)

lemma primary_key_column: "primary_key sch = Inr (c, column) \<Longrightarrow> column = scol_name (node_columns sch ! c)"
  by (auto simp: primary_key_def rbind_eq_Inr)

lemma recover_row_nil: "recover_row sch row [] = Inr buffered \<Longrightarrow> validate_row sch row = Inr ()"
  by (auto simp: recover_row_def rbind_eq_Inr)

lemma dml_key_column:
  "validate_dml_key_column sch column = Inr (c, name) \<Longrightarrow> primary_key sch = Inr (c, scol_name (node_columns sch ! c))"
proof -
  assume "validate_dml_key_column sch column = Inr (c, name)"
  then have "primary_key sch = Inr (c, name)"
    by (auto simp: validate_dml_key_column_def rbind_eq_Inr split: if_splits)
  with primary_key_column show ?thesis by blast
qed

lemma triple_known: "(A \<Longrightarrow> triple P m Q E) \<Longrightarrow> triple (\<lambda>s. P s \<and> A) m Q E"
  by (cases A) (simp_all add: triple_def)

text \<open>Removing an own insert does not look at the charge, and finds the key of every staged row.\<close>

definition removable :: "transaction \<Rightarrow> bool" where
  "removable tx \<longleftrightarrow> (\<forall>sch c key. sch \<in> set (cat_node_tables (tx_catalog tx)) \<longrightarrow>
    primary_key sch = Inr (c, scol_name (node_columns sch ! c)) \<longrightarrow>
    is_ok (fst (remove_own_insert (node_name sch) c key (tx_writes tx))))"

definition own_removal :: "string \<Rightarrow> nat \<Rightarrow> devon_value \<Rightarrow> write_set \<Rightarrow> write_set" where
  "own_removal table c key w = snd (remove_own_insert table c key w)"

lemma remove_own_insert_charged:
  "remove_own_insert table c key (w\<lparr> ws_charged := n \<rparr>) =
    (fst (remove_own_insert table c key w), (own_removal table c key w)\<lparr> ws_charged := n \<rparr>)"
  by (auto simp: remove_own_insert_def own_removal_def Let_def split: option.splits)

lemma remove_own_insert_False:
  "fst (remove_own_insert table c key w) = Inr False \<longleftrightarrow> own_insert_position w table c key = None"
  "fst (remove_own_insert table c key w) = Inr False \<Longrightarrow> own_removal table c key w = w"
  by (auto simp: remove_own_insert_def own_removal_def own_insert_position_def Let_def split: option.splits)

lemma node_table_in: "node_table cat table = Some sch \<Longrightarrow> sch \<in> set (cat_node_tables cat)"
  by (auto simp: node_table_def find_Some_iff)

lemma staged_by_then:
  "staged_by f tx tx' \<Longrightarrow> staged_by (\<lambda>w. g (f w)) tx (tx'\<lparr> tx_writes := g (tx_writes tx') \<rparr>)"
  by (auto simp: staged_by_def)

text \<open>The edge a row of a relationship insert stages.\<close>

abbreviation pending_edge_of :: "rel_row \<Rightarrow> pending_edge" where
  "pending_edge_of row \<equiv> \<lparr> pe_from_key = rr_from_key row, pe_to_key = rr_to_key row, pe_values = rr_values row \<rparr>"

text \<open>
  What reading and shedding keep of the caches: \<open>V\<close> is what is known of the view that is read.
\<close>

locale cache_invariant =
  fixes env :: read_env
    and V :: "read_view \<Rightarrow> bool"
    and C :: "caches \<Rightarrow> bool"
  assumes C_shed: "C caches \<Longrightarrow> C (\<lambda>table. shed_table_cache (idle table) (caches table))"
    and C_key: "V view \<Longrightarrow> C caches \<Longrightarrow>
      view_resolve_key env view table key (caches, budget) = (res, caches', budget') \<Longrightarrow> C caches'"
    and C_row: "V view \<Longrightarrow> C caches \<Longrightarrow>
      tx_resolve_row env view table key (tx, caches, budget) = (row_res, tx', caches', budget') \<Longrightarrow> C caches'"
begin

definition absent :: "transaction \<Rightarrow> string \<Rightarrow> devon_value \<Rightarrow> bool" where
  "absent tx table key \<longleftrightarrow> (\<exists>caches budget what. C caches \<and>
    fst (view_resolve_key env (transaction_view tx) table key (caches, budget)) = Inl (NotFound what))"

definition resolved :: "transaction \<Rightarrow> string \<Rightarrow> devon_value \<Rightarrow> row \<Rightarrow> bool" where
  "resolved tx table key row \<longleftrightarrow> (\<exists>caches budget. C caches \<and>
    fst (tx_resolve_row env (transaction_view tx) table key (tx, caches, budget)) = Inr row)"

definition located :: "transaction \<Rightarrow> string \<Rightarrow> devon_value \<Rightarrow> u64 \<Rightarrow> bool" where
  "located tx table key offset \<longleftrightarrow> (\<exists>caches budget. C caches \<and>
    fst (view_resolve_key env (transaction_view tx) table key (caches, budget)) = Inr offset)"

lemma try_charge_triple: "triple (sess tx C) (try_charge_write_set n) (\<lambda>_. sess tx C) (sess tx C)"
  unfolding triple_def try_charge_write_set_def sess_def charge_def
  by (force split: prod.splits bool.splits option.splits)

lemma shed_cache_triple: "triple (sess tx C) (shed_cache rl n) (\<lambda>_. sess tx C) (sess tx C)"
  unfolding triple_def shed_cache_def sess_def by auto

lemma shed_indexes_triple: "triple (sess tx C) (shed_indexes rl) (\<lambda>_. sess tx C) (sess tx C)"
  unfolding triple_def shed_indexes_def sess_def using C_shed by auto

lemma checkpoint_triple: "triple (sess tx C) (relief_checkpoint rl) (\<lambda>_. sess tx C) (sess tx C)"
  unfolding triple_def relief_checkpoint_def sess_def by (auto split: prod.splits sum.splits)

lemma charge_triple: "triple (sess tx C) (charge_write_set rl n) (\<lambda>_. sess tx C) (sess tx C)"
  unfolding charge_write_set_def
  by (intro triple_bind [OF try_charge_triple] triple_if triple_bind [OF shed_cache_triple]
      triple_bind [OF shed_indexes_triple] triple_bind [OF checkpoint_triple]) (auto intro: triple_lift)

lemma read_view_triple:
  assumes "triple (sess tx C) (f (transaction_view tx)) Q E"
  shows "triple (sess tx C) (sbind (transaction_read_view env False) f) Q E"
proof -
  have "sbind (transaction_read_view env False) f s = f (transaction_view tx) s" if "sess tx C s" for s
    using that by (auto simp: sess_def sbind_def transaction_read_view_def)
  with assms show ?thesis unfolding triple_def by simp
qed

lemma resolve_key_triple:
  assumes "V (transaction_view tx)"
  shows "triple (sess tx C) (tx_resolve_key env (transaction_view tx) table key) (\<lambda>_. sess tx C) (sess tx C)"
  using C_key [OF assms] unfolding triple_def tx_resolve_key_def sess_def by (fastforce split: prod.splits sum.splits)

lemma locate_key_triple:
  assumes "V (transaction_view tx)"
  shows "triple (sess tx C) (tx_resolve_key env (transaction_view tx) table key)
    (\<lambda>offset s. sess tx C s \<and> located tx table key offset) (sess tx C)"
proof (rule triple_sessI)
  fix n caches budget assume C: "C caches"
  obtain r caches' budget' where r: "view_resolve_key env (transaction_view tx) table key (caches, budget) = (r, caches', budget')"
    by (metis prod_cases3)
  have "located tx table key offset" if "r = Inr offset" for offset using C r that unfolding located_def by (metis fst_conv)
  with C_key [OF assms C r] r show "case tx_resolve_key env (transaction_view tx) table key (charge n tx, caches, budget) of
      (Inl e, s') \<Rightarrow> sess tx C s' | (Inr offset, s') \<Rightarrow> sess tx C s' \<and> located tx table key offset"
    by (auto simp: tx_resolve_key_def sess_def split: sum.split)
qed

lemma key_absent_triple:
  assumes "V (transaction_view tx)"
  shows "triple (sess tx C)
    (\<lambda>s. case tx_resolve_key env (transaction_view tx) table key s of (res, s) \<Rightarrow> (not_found_absent res, s))
    (\<lambda>exists s. sess tx C s \<and> (\<not> exists \<longrightarrow> absent tx table key)) (sess tx C)"
proof -
  have abs: "absent tx table key" if "C caches"
    "view_resolve_key env (transaction_view tx) table key (caches, budget) = (res, st)"
    "not_found_absent res = Inr False" for caches budget res st
  proof -
    from that(3) obtain what where "res = Inl (NotFound what)"
      by (cases res rule: not_found_absent.cases) auto
    with that(1,2) show ?thesis unfolding absent_def by (metis fst_conv)
  qed
  show ?thesis
    using C_key [OF assms] abs unfolding triple_def tx_resolve_key_def sess_def
    by (fastforce split: prod.splits sum.splits)
qed

lemma resolve_row_triple:
  assumes "V (transaction_view tx)"
  shows "triple (sess tx C) (tx_resolve_row env (transaction_view tx) table key)
    (\<lambda>row s. sess tx C s \<and> resolved tx table key row) (sess tx C)"
proof -
  have keep: "\<exists>caches' budget'. snd (tx_resolve_row env view table key (tx', caches, budget)) = (tx', caches', budget')"
    for view tx' caches budget
    by (simp add: tx_resolve_row_def Let_def split: prod.split)
  have res: "fst (tx_resolve_row env view table key (tx', caches, budget)) =
      fst (tx_resolve_row env view table key (tx, caches, budget))" for view tx' caches budget
    by (simp add: tx_resolve_row_def Let_def split: prod.split)
  show ?thesis
    unfolding triple_def
  proof (intro allI impI)
    fix s assume s: "sess tx C s"
    obtain n caches budget where s': "s = (charge n tx, caches, budget)" and C: "C caches"
      using s by (auto simp: sess_def)
    obtain r caches' budget' where r: "tx_resolve_row env (transaction_view tx) table key s = (r, charge n tx, caches', budget')"
      using keep [of "transaction_view tx" "charge n tx" caches budget] unfolding s' by (metis prod.collapse)
    have "C caches'" using C_row [OF assms C] r unfolding s' by blast
    moreover have "resolved tx table key row" if "r = Inr row" for row
      using res [of "transaction_view tx" "charge n tx" caches budget] r that C unfolding resolved_def s'
      by (metis fst_conv)
    ultimately show "case tx_resolve_row env (transaction_view tx) table key s of
        (Inl e, s') \<Rightarrow> sess tx C s' | (Inr row, s') \<Rightarrow> sess tx C s' \<and> resolved tx table key row"
      unfolding r by (auto simp: sess_def split: sum.split)
  qed
qed

text \<open>What each statement does to the transaction when it returns.\<close>

definition insert_outcome :: "string \<Rightarrow> row list \<Rightarrow> transaction \<Rightarrow> transaction \<Rightarrow> bool" where
  "insert_outcome table rows tx tx' \<longleftrightarrow> (\<exists>sch c keys.
    node_table (tx_catalog tx) table = Some sch \<and> primary_key sch = Inr (c, scol_name (node_columns sch ! c)) \<and>
    list_all2 (\<lambda>row key. validate_node_insert_row sch c row = Inr key) rows keys \<and> distinct keys \<and>
    (\<forall>key \<in> set keys. key \<notin> set (bt_items (ws_inserted_pks (tx_writes tx)) (node_name sch)) \<and>
      absent tx (node_name sch) key) \<and>
    staged_by (stage_inserts (node_name sch) rows keys) tx tx')"

lemma key_exists_triple:
  assumes "V (transaction_view tx)"
  shows "triple (sess tx C) (transaction_key_exists env table key)
    (\<lambda>exists s. sess tx C s \<and> (\<not> exists \<longrightarrow>
      key \<notin> set (bt_items (ws_inserted_pks (tx_writes tx)) table) \<and> absent tx table key)) (sess tx C)"
  unfolding transaction_key_exists_def
proof (rule triple_with_sess, rule triple_if)
  fix n assume "key \<notin> set (bt_items (ws_inserted_pks (tx_writes (charge n tx))) table)"
  then show "triple (sess tx C) (sbind (transaction_read_view env False) (\<lambda>view s.
      case tx_resolve_key env view table key s of (res, s) \<Rightarrow> (not_found_absent res, s)))
      (\<lambda>exists s. sess tx C s \<and> (\<not> exists \<longrightarrow>
        key \<notin> set (bt_items (ws_inserted_pks (tx_writes tx)) table) \<and> absent tx table key)) (sess tx C)"
    by (intro read_view_triple triple_conseq [OF key_absent_triple [OF assms]]) auto
qed (auto intro: triple_lift)

lemma check_insert_triple:
  assumes "V (transaction_view tx)"
  shows "triple (\<lambda>s. sess tx C s \<and> list_all2 (\<lambda>row key. validate_node_insert_row sch c row = Inr key) seen staged \<and>
        distinct staged \<and> (\<forall>key \<in> set staged. key \<notin> set (bt_items (ws_inserted_pks (tx_writes tx)) (node_name sch)) \<and>
          absent tx (node_name sch) key))
      (check_insert_row env sch c row staged)
      (\<lambda>staged s. sess tx C s \<and> list_all2 (\<lambda>row key. validate_node_insert_row sch c row = Inr key) (seen @ [row]) staged \<and>
        distinct staged \<and> (\<forall>key \<in> set staged. key \<notin> set (bt_items (ws_inserted_pks (tx_writes tx)) (node_name sch)) \<and>
          absent tx (node_name sch) key))
      (sess tx C)"
  (is "triple ?P _ ?Q _")
  unfolding check_insert_row_def
proof (rule triple_check)
  fix key assume key: "validate_node_insert_row sch c row = Inr key"
  let ?fresh = "key \<notin> set (bt_items (ws_inserted_pks (tx_writes tx)) (node_name sch)) \<and> absent tx (node_name sch) key"
  have exists: "triple ?P (if key \<in> set staged then slift (Inr True) else transaction_key_exists env (node_name sch) key)
      (\<lambda>exists s. ?P s \<and> (\<not> exists \<longrightarrow> key \<notin> set staged \<and> ?fresh)) (sess tx C)"
  proof (cases "\<exists>s. ?P s")
    case True
    then show ?thesis
      by (intro triple_if) (auto intro: triple_lift triple_conseq [OF key_exists_triple [OF assms]])
  qed (auto simp: triple_def)
  show "triple ?P (sbind (if key \<in> set staged then slift (Inr True) else transaction_key_exists env (node_name sch) key)
      (\<lambda>exists. if exists then slift (Inl (InvalidArgument ''duplicate primary key {} in node table {}''))
        else slift (Inr (staged @ [key])))) ?Q (sess tx C)"
    by (rule triple_bind [OF exists], rule triple_if)
      (auto intro!: triple_lift list_all2_appendI simp: key)
qed simp

lemma stage_inserts_triple:
  "triple (sess tx C) (stage_node_inserts rl table rows keys)
    (post (staged_by (stage_inserts table rows keys) tx) C) (sess tx C)"
  unfolding stage_node_inserts_def
  by (rule triple_with_sess, rule triple_check, simp, rule triple_bind [OF charge_triple], rule triple_stage)

lemma insert_triple:
  assumes "V (transaction_view tx)"
  shows "triple (sess tx C) (execute_node_insert env rl table rows)
    (post (insert_outcome table rows tx) C) (sess tx C)"
  unfolding execute_node_insert_def
proof (rule triple_with_sess, rule triple_check, simp, rule triple_check, simp, clarsimp)
  fix n sch c column
  assume sch: "resolve_dml_table (charge n tx) table = Inr sch" and pk: "primary_key sch = Inr (c, column)"
  let ?I = "\<lambda>seen staged s. sess tx C s \<and>
      list_all2 (\<lambda>row key. validate_node_insert_row sch c row = Inr key) seen staged \<and> distinct staged \<and>
      (\<forall>key \<in> set staged. key \<notin> set (bt_items (ws_inserted_pks (tx_writes tx)) (node_name sch)) \<and>
        absent tx (node_name sch) key)"
  have loop: "triple (?I [] []) (sfold (check_insert_row env sch c) rows []) (?I rows) (sess tx C)"
    by (rule triple_fold_prefix) (rule check_insert_triple [OF assms])
  have stage: "triple (?I rows keys) (stage_node_inserts rl (node_name sch) rows keys)
      (post (insert_outcome table rows tx) C) (sess tx C)" for keys
  proof (cases "\<exists>s. ?I rows keys s")
    case True
    then show ?thesis
      using sch pk primary_key_column [OF pk]
      by (auto intro!: triple_conseq [OF stage_inserts_triple]
          simp: insert_outcome_def post_def resolve_dml_table_def ok_or_eq_Inr)
  qed (auto simp: triple_def)
  from triple_bind [OF loop stage] show "triple (sess tx C)
      (sbind (sfold (check_insert_row env sch c) rows []) (stage_node_inserts rl (node_name sch) rows))
      (post (insert_outcome table rows tx) C) (sess tx C)"
    by simp
qed

definition update_outcome ::
    "string \<Rightarrow> set_item list \<Rightarrow> devon_value \<Rightarrow> transaction \<Rightarrow> transaction \<Rightarrow> bool" where
  "update_outcome table items key tx tx' \<longleftrightarrow> (\<exists>sch c row replacement.
    node_table (tx_catalog tx) table = Some sch \<and> primary_key sch = Inr (c, scol_name (node_columns sch ! c)) \<and>
    resolved tx (node_name sch) key row \<and> rfold (apply_set_item sch c) items row = Inr replacement \<and>
    validate_row sch replacement = Inr () \<and> staged_by (stage_update (node_name sch) c key replacement) tx tx')"

lemma update_triple:
  assumes "V (transaction_view tx)"
  shows "triple (sess tx C) (execute_node_update env rl table items column key)
    (post (update_outcome table items key tx) C) (sess tx C)"
  unfolding execute_node_update_def
proof (rule triple_with_sess, rule triple_check, simp, rule triple_check, simp, clarsimp, rule read_view_triple,
    rule triple_bind [OF resolve_row_triple [OF assms]], rule triple_known, rule triple_check, simp,
    rule triple_check, simp, rule triple_check, simp, rule triple_bind [OF charge_triple])
  fix n sch c name row replacement buffered
  assume "resolve_dml_table (charge n tx) table = Inr sch" "validate_dml_key_column sch column = Inr (c, name)"
    "resolved tx (node_name sch) key row" "rfold (apply_set_item sch c) items row = Inr replacement"
    "recover_row sch replacement [] = Inr buffered"
  then have "update_outcome table items key tx tx'"
    if "staged_by (stage_update (node_name sch) c key replacement) tx tx'" for tx'
    using that dml_key_column recover_row_nil unfolding update_outcome_def resolve_dml_table_def ok_or_eq_Inr
    by (metis charge_simps(1))
  then show "triple (sess tx C) (modify_writes (stage_update (node_name sch) c key replacement))
      (post (update_outcome table items key tx) C) (sess tx C)"
    by (auto intro!: triple_conseq [OF triple_stage] simp: post_def)
qed

lemma remove_triple:
  assumes "is_ok (fst (remove_own_insert table c key (tx_writes tx)))"
  shows "triple (sess tx C) (tx_remove_own_insert table c key)
    (\<lambda>removed s. if removed
      then own_insert_position (tx_writes tx) table c key \<noteq> None \<and> post (staged_by (own_removal table c key) tx) C () s
      else own_insert_position (tx_writes tx) table c key = None \<and> sess tx C s) E"
proof -
  obtain r where r: "fst (remove_own_insert table c key (tx_writes tx)) = Inr r"
    using assms by (cases "fst (remove_own_insert table c key (tx_writes tx))") auto
  then have "\<not> r \<Longrightarrow> own_removal table c key (tx_writes tx) = tx_writes tx"
    using remove_own_insert_False(2) [of table c key "tx_writes tx"] by simp
  moreover have "r \<longleftrightarrow> own_insert_position (tx_writes tx) table c key \<noteq> None"
    using remove_own_insert_False(1) [of table c key "tx_writes tx"] r by (cases r) auto
  moreover have "own_removal table c key (w\<lparr> ws_charged := n \<rparr>) = (own_removal table c key w)\<lparr> ws_charged := n \<rparr>" for n w
    by (simp add: own_removal_def [of _ _ _ "w\<lparr> ws_charged := n \<rparr>"] remove_own_insert_charged)
  ultimately have "case tx_remove_own_insert table c key (charge n tx, caches, budget) of
      (Inl e, s') \<Rightarrow> E s'
    | (Inr removed, s') \<Rightarrow> if removed
        then own_insert_position (tx_writes tx) table c key \<noteq> None \<and> post (staged_by (own_removal table c key) tx) C () s'
        else own_insert_position (tx_writes tx) table c key = None \<and> sess tx C s'" if "C caches" for n caches budget
    using r that by (cases r) (auto simp: tx_remove_own_insert_def remove_own_insert_charged charge_def
        sess_def post_def staged_by_def)
  then show ?thesis by (rule triple_sessI)
qed

definition delete_outcome :: "string \<Rightarrow> devon_value \<Rightarrow> transaction \<Rightarrow> transaction \<Rightarrow> bool" where
  "delete_outcome table key tx tx' \<longleftrightarrow> (\<exists>sch c row key'.
    node_table (tx_catalog tx) table = Some sch \<and> primary_key sch = Inr (c, scol_name (node_columns sch ! c)) \<and>
    reject_referenced_delete (tx_catalog tx) sch = Inr () \<and>
    resolved tx (node_name sch) key row \<and> slice_get row c = Some key' \<and>
    staged_by (if own_insert_position (tx_writes tx) (node_name sch) c key' \<noteq> None
      then own_removal (node_name sch) c key' else stage_node_delete (node_name sch) c key') tx tx')"

lemma delete_triple:
  assumes "V (transaction_view tx)" and "removable tx"
  shows "triple (sess tx C) (execute_node_delete env rl table column key)
    (post (delete_outcome table key tx) C) (sess tx C)"
  unfolding execute_node_delete_def
proof (rule triple_with_sess, rule triple_check, simp, rule triple_check, simp, rule triple_check, simp, clarsimp,
    rule read_view_triple, rule triple_bind [OF resolve_row_triple [OF assms(1)]], rule triple_known,
    rule triple_check, simp)
  fix n sch c name row key'
  assume sch: "resolve_dml_table (charge n tx) table = Inr sch" and pk: "validate_dml_key_column sch column = Inr (c, name)"
    and ref: "reject_referenced_delete (tx_catalog tx) sch = Inr ()"
    and row: "resolved tx (node_name sch) key row"
    and key': "ok_or (Corrupt ''resolved DML row lost its primary-key value'') (slice_get row c) = Inr key'"
  note pk' = dml_key_column [OF pk]
  have table: "node_table (tx_catalog tx) table = Some sch" using sch by (simp add: resolve_dml_table_def ok_or_eq_Inr)
  then have ok: "is_ok (fst (remove_own_insert (node_name sch) c key' (tx_writes tx)))"
    using assms(2) pk' node_table_in unfolding removable_def by blast
  have out: "delete_outcome table key tx tx'" if "staged_by (if own_insert_position (tx_writes tx) (node_name sch) c key' \<noteq> None
      then own_removal (node_name sch) c key' else stage_node_delete (node_name sch) c key') tx tx'" for tx'
    using table pk' ref row key' that unfolding delete_outcome_def ok_or_eq_Inr by blast
  show "triple (sess tx C) (sbind (tx_remove_own_insert (node_name sch) c key') (\<lambda>removed.
      if removed then slift (Inr ()) else
      sbind (slift (node_dml_bytes [] (node_name sch) [key'])) (\<lambda>requested.
      sbind (charge_write_set rl requested) (\<lambda>_. modify_writes (stage_node_delete (node_name sch) c key')))))
      (post (delete_outcome table key tx) C) (sess tx C)"
  proof (rule triple_bind [OF remove_triple [OF ok]], rule triple_if)
    fix removed assume removed
    then show "triple (\<lambda>s. if removed then own_insert_position (tx_writes tx) (node_name sch) c key' \<noteq> None \<and>
          post (staged_by (own_removal (node_name sch) c key') tx) C () s
        else own_insert_position (tx_writes tx) (node_name sch) c key' = None \<and> sess tx C s) (slift (Inr ()))
      (post (delete_outcome table key tx) C) (sess tx C)"
      using out by (auto intro!: triple_lift simp: post_def)
  next
    fix removed assume "\<not> removed"
    have "triple (\<lambda>s. sess tx C s \<and> own_insert_position (tx_writes tx) (node_name sch) c key' = None)
      (sbind (slift (node_dml_bytes [] (node_name sch) [key'])) (\<lambda>requested.
      sbind (charge_write_set rl requested) (\<lambda>_. modify_writes (stage_node_delete (node_name sch) c key'))))
      (post (delete_outcome table key tx) C) (sess tx C)"
      using out by (intro triple_known triple_check triple_bind [OF charge_triple] triple_conseq [OF triple_stage])
        (auto simp: post_def)
    then show "triple (\<lambda>s. if removed then own_insert_position (tx_writes tx) (node_name sch) c key' \<noteq> None \<and>
          post (staged_by (own_removal (node_name sch) c key') tx) C () s
        else own_insert_position (tx_writes tx) (node_name sch) c key' = None \<and> sess tx C s)
      (sbind (slift (node_dml_bytes [] (node_name sch) [key'])) (\<lambda>requested.
      sbind (charge_write_set rl requested) (\<lambda>_. modify_writes (stage_node_delete (node_name sch) c key'))))
      (post (delete_outcome table key tx) C) (sess tx C)"
      by (rule triple_conseq) (use \<open>\<not> removed\<close> in auto)
  qed
qed

definition detach_outcome :: "string \<Rightarrow> devon_value \<Rightarrow> transaction \<Rightarrow> transaction \<Rightarrow> bool" where
  "detach_outcome table key tx tx' \<longleftrightarrow> (\<exists>sch c row key' offset.
    node_table (tx_catalog tx) table = Some sch \<and> primary_key sch = Inr (c, scol_name (node_columns sch ! c)) \<and>
    resolved tx (node_name sch) key row \<and> slice_get row c = Some key' \<and> located tx (node_name sch) key' offset \<and>
    staged_by (if own_insert_position (tx_writes tx) (node_name sch) c key' \<noteq> None
      then (\<lambda>w. fold_pending_incident_edges (tx_catalog tx) (node_name sch) key' (own_removal (node_name sch) c key' w))
      else stage_detach (tx_catalog tx) c \<lparr> pd_table = node_name sch, pd_key = key' \<rparr>
        (detach_tombstone_claims (tx_catalog tx) (node_name sch) offset)) tx tx')"

lemma removed_triple:
  assumes "is_ok (fst (remove_own_insert table c key (tx_writes tx)))"
    and "own_insert_position (tx_writes tx) table c key \<noteq> None"
    and "\<And>tx'. staged_by (\<lambda>w. f (own_removal table c key w)) tx tx' \<Longrightarrow> R tx'"
  shows "triple (sess tx C) (sbind (tx_remove_own_insert table c key) (\<lambda>_. modify_writes f)) (post R C) (sess tx C)"
proof (rule triple_bind [OF remove_triple [OF assms(1)]])
  fix removed
  show "triple (\<lambda>s. if removed then own_insert_position (tx_writes tx) table c key \<noteq> None \<and>
        post (staged_by (own_removal table c key) tx) C () s
      else own_insert_position (tx_writes tx) table c key = None \<and> sess tx C s) (modify_writes f) (post R C) (sess tx C)"
    using assms(2) by (intro triple_modify) (auto simp: post_def intro: assms(3) staged_by_then split: if_splits)
qed

lemma detach_triple:
  assumes "V (transaction_view tx)" and "removable tx"
  shows "triple (sess tx C) (execute_detach_delete env rl table column key)
    (post (detach_outcome table key tx) C) (sess tx C)"
  unfolding execute_detach_delete_def
proof (rule triple_with_sess, rule triple_check, simp, rule triple_check_pair, simp,
    rule read_view_triple, rule triple_bind [OF resolve_row_triple [OF assms(1)]], rule triple_known,
    rule triple_check, simp, rule triple_bind [OF locate_key_triple [OF assms(1)]], rule triple_known, goal_cases)
  case (1 n sch c name row key' offset)
  note pk = dml_key_column [OF 1(2)]
  have table: "node_table (tx_catalog tx) table = Some sch" using 1(1) by (simp add: resolve_dml_table_def ok_or_eq_Inr)
  then have ok: "is_ok (fst (remove_own_insert (node_name sch) c key' (tx_writes tx)))"
    using assms(2) pk node_table_in unfolding removable_def by blast
  let ?tombs = "detach_tombstone_claims (tx_catalog tx) (node_name sch) offset"
  let ?own = "own_insert_position (tx_writes tx) (node_name sch) c key' \<noteq> None"
  let ?fold = "fold_pending_incident_edges (tx_catalog tx) (node_name sch) key'"
  let ?intent = "\<lparr> pd_table = node_name sch, pd_key = key' \<rparr>"
  have out: "detach_outcome table key tx tx'" if "staged_by (if ?own
      then (\<lambda>w. ?fold (own_removal (node_name sch) c key' w)) else stage_detach (tx_catalog tx) c ?intent ?tombs) tx tx'" for tx'
    using table pk 1(3,4,5) that unfolding detach_outcome_def ok_or_eq_Inr by blast
  have own: "own_insert_position (tx_writes (charge n tx)) (node_name sch) c key' =
      own_insert_position (tx_writes tx) (node_name sch) c key'"
    by (simp add: own_insert_position_def)
  show ?case
    unfolding Let_def own unfolding charge_simps
  proof (rule triple_if, goal_cases)
    case 1
    then show ?case using out by (intro removed_triple [OF ok]) auto
  next
    case 2
    then show ?case
      using out by (intro triple_check triple_bind [OF charge_triple] triple_conseq [OF triple_stage])
        (auto simp: post_def)
  qed
qed

definition rel_row_checked :: "transaction \<Rightarrow> rel_table_schema \<Rightarrow> rel_row \<Rightarrow> bool" where
  "rel_row_checked tx sch row \<longleftrightarrow> validate_rel_values sch (rr_values row) = Inr () \<and>
    (\<exists>offset. located tx (rel_from sch) (rr_from_key row) offset) \<and> (\<exists>offset. located tx (rel_to sch) (rr_to_key row) offset)"

definition edges_outcome :: "string \<Rightarrow> rel_row list \<Rightarrow> transaction \<Rightarrow> transaction \<Rightarrow> bool" where
  "edges_outcome table rows tx tx' \<longleftrightarrow> (\<exists>sch. rel_table (tx_catalog tx) table = Some sch \<and>
    list_all (rel_row_checked tx sch) rows \<and> staged_by (stage_edges (rel_name sch) (map pending_edge_of rows)) tx tx')"

lemma check_rel_triple:
  assumes "V (transaction_view tx)"
  shows "triple (\<lambda>s. sess tx C s \<and> staged = xs \<and> list_all (rel_row_checked tx sch) seen)
    (check_rel_row env (transaction_view tx) sch row staged)
    (\<lambda>staged s. sess tx C s \<and> staged = xs @ [pending_edge_of row] \<and> list_all (rel_row_checked tx sch) (seen @ [row])) (sess tx C)"
  unfolding check_rel_row_def
proof (rule triple_known, rule triple_with_sess, rule triple_check, simp, rule triple_check, simp, rule triple_check, simp,
    rule triple_bind [OF locate_key_triple [OF assms]], rule triple_known,
    rule triple_bind [OF locate_key_triple [OF assms]], rule triple_known, goal_cases)
  case 1
  then show ?case by (auto intro!: triple_lift simp: rel_row_checked_def)
qed

lemma edges_triple:
  assumes "V (transaction_view tx)"
  shows "triple (sess tx C) (execute_rel_insert env rl table rows) (post (edges_outcome table rows tx) C) (sess tx C)"
  unfolding execute_rel_insert_def
proof (rule triple_with_sess, rule triple_check, simp, rule read_view_triple, goal_cases)
  case (1 n sch)
  let ?I = "\<lambda>seen staged s. sess tx C s \<and> staged = map pending_edge_of seen \<and> list_all (rel_row_checked tx sch) seen"
  have loop: "triple (?I [] []) (sfold (check_rel_row env (transaction_view tx) sch) rows []) (?I rows) (sess tx C)"
    by (rule triple_fold_prefix [where I = ?I]) (use check_rel_triple [OF assms] in simp)
  have start: "(?I [] []) = sess tx C" by simp
  have "rel_table (tx_catalog tx) table = Some sch" using 1 by (simp add: ok_or_eq_Inr)
  then have out: "edges_outcome table rows tx tx'" if "staged_by (stage_edges (rel_name sch) (map pending_edge_of rows)) tx tx'"
    "list_all (rel_row_checked tx sch) rows" for tx'
    using that unfolding edges_outcome_def by blast
  show ?case
  proof (rule triple_bind [OF loop [unfolded start]], rule triple_known, goal_cases)
    case (1 staged)
    then show ?case
      using out by (intro triple_check triple_bind [OF charge_triple] triple_conseq [OF triple_stage])
        (auto simp: post_def)
  qed
qed

end

end
