(* ===== verification/StagedWrites.thy ===== *)
theory StagedWrites
  imports Staging
begin

text \<open>
  The invariant of a transaction's write set, which every statement keeps whatever its outcome: maps
  without empty entries under canonical table names, a primary-key claim for every staged row, and
  schema changes that lead from the catalog of the snapshot to the catalog of the transaction.
\<close>

section \<open>Maps of lists\<close>

lemma full_map_iff: "full_map m \<longleftrightarrow> bt_wf m \<and> (\<forall>k. bt_get m k \<noteq> Some [])"
proof (cases "bt_wf m")
  case True
  then have "bt_get m k = Some vs \<longleftrightarrow> (k, vs) \<in> set m" for k vs
    using bt_wf_distinct [OF True] by (simp add: bt_get_def)
  with True show ?thesis by (auto simp: full_map_def list_all_iff)
qed (simp add: full_map_def)

lemma full_map_wf: "full_map m \<Longrightarrow> bt_wf m"
  by (simp add: full_map_def)

lemma full_insert:
  assumes "full_map m" and "vs \<noteq> []"
  shows "full_map (bt_insert k vs m)"
    and "bt_items (bt_insert k vs m) k' = (if k' = k then vs else bt_items m k')"
    and "bt_keys (bt_insert k vs m) = insert k (bt_keys m)"
  using assms by (auto simp: full_map_iff bt_wf_insert bt_get_insert bt_items_def bt_keys_insert)

lemma bt_entry_items: "bt_entry k [] f m = bt_insert k (f (bt_items m k)) m"
  by (simp add: bt_entry_def bt_items_def)

lemmas full_entry = full_insert [of m "f (bt_items m k)" k for f m k, folded bt_entry_items]

lemma full_set_or_remove:
  assumes "full_map m"
  shows "full_map (set_or_remove k vs m)"
    and "bt_items (set_or_remove k vs m) k' = (if k' = k then vs else bt_items m k')"
    and "bt_keys (set_or_remove k vs m) \<subseteq> insert k (bt_keys m)"
  using assms bt_keys_remove [of k m]
  by (auto simp: set_or_remove_def full_map_iff bt_wf_insert bt_wf_remove bt_get_insert bt_get_remove
      bt_items_def bt_keys_insert)

lemma full_map_get: "full_map m \<Longrightarrow> bt_get m k = (if bt_items m k = [] then None else Some (bt_items m k))"
  by (auto simp: full_map_iff bt_items_def split: option.split)

lemma bt_get_keys: "bt_get m k = Some v \<Longrightarrow> k \<in> bt_keys m"
  by (auto simp: bt_keys_def bt_get_def image_iff dest!: map_of_SomeD intro: bexI [rotated])

lemma set_remove_at: "set (remove_at i xs) \<subseteq> set xs"
  by (auto simp: remove_at_def dest: in_set_takeD in_set_dropD)

lemma map_remove_at: "map f (remove_at i xs) = remove_at i (map f xs)"
  by (simp add: remove_at_def take_map drop_map)

lemma distinct_remove_at: "distinct xs \<Longrightarrow> distinct (remove_at i xs)"
  unfolding remove_at_def
  by (metis append_take_drop_id distinct_append disjoint_iff in_set_dropD distinct_drop distinct_take
      set_take_disj_set_drop_if_distinct order_refl le_Suc_eq)

section \<open>The invariant\<close>

definition tables_wf :: "catalog \<Rightarrow> bool" where
  "tables_wf cat \<longleftrightarrow>
    (\<forall>sch \<in> set (cat_node_tables cat). node_schema_wf sch \<and> node_table cat (node_name sch) = Some sch) \<and>
    (\<forall>sch \<in> set (cat_rel_tables cat). rel_table cat (rel_name sch) = Some sch)"

abbreviation key_column :: "node_table_schema \<Rightarrow> nat option" where
  "key_column sch \<equiv> position scol_primary_key (node_columns sch)"

text \<open>The claims of a table are the keys of its staged rows, row by row.\<close>

definition inserts_match :: "write_set \<Rightarrow> node_table_schema \<Rightarrow> bool" where
  "inserts_match w sch \<longleftrightarrow>
    (\<forall>c. key_column sch = Some c \<longrightarrow>
      map (\<lambda>row. slice_get row c) (bt_items (ws_nodes w) (node_name sch)) =
      map Some (bt_items (ws_inserted_pks w) (node_name sch))) \<and>
    distinct (bt_items (ws_inserted_pks w) (node_name sch)) \<and>
    list_all is_key (bt_items (ws_inserted_pks w) (node_name sch))"

definition writes_named :: "catalog \<Rightarrow> write_set \<Rightarrow> bool" where
  "writes_named cat w \<longleftrightarrow>
    bt_keys (ws_nodes w) \<union> bt_keys (ws_inserted_pks w) \<union> bt_keys (ws_node_updates w) \<union> bt_keys (ws_node_deletes w)
      \<subseteq> node_name ` set (cat_node_tables cat) \<and>
    bt_keys (ws_edges w) \<subseteq> rel_name ` set (cat_rel_tables cat)"

definition writes_ok :: "catalog \<Rightarrow> write_set \<Rightarrow> bool" where
  "writes_ok cat w \<longleftrightarrow> ws_full w \<and> full_map (ws_inserted_pks w) \<and> writes_named cat w \<and>
    (\<forall>sch \<in> set (cat_node_tables cat). inserts_match w sch)"

lemma writes_ok_wf: "writes_ok cat w \<Longrightarrow> ws_wf w"
  by (simp add: writes_ok_def ws_full_def ws_wf_def full_map_wf)

lemma writes_ok_charged [simp]: "writes_ok cat (w\<lparr> ws_charged := n \<rparr>) = writes_ok cat w"
  by (simp add: writes_ok_def ws_full_def writes_named_def inserts_match_def)

lemma names_inj:
  assumes "tables_wf cat" "sch \<in> set (cat_node_tables cat)" "sch' \<in> set (cat_node_tables cat)"
  shows "node_name sch' = node_name sch \<longleftrightarrow> sch' = sch"
  using assms unfolding tables_wf_def by (metis option.inject)

lemma primary_key_position:
  "primary_key sch = Inr (c, scol_name (node_columns sch ! c)) \<longleftrightarrow> key_column sch = Some c"
  by (auto simp: primary_key_def rbind_eq_Inr ok_or_eq_Inr)

section \<open>Edits keep it\<close>

text \<open>A row that passes the checks of an insert carries a key.\<close>

lemma key_column_ty:
  assumes "node_schema_wf sch" "key_column sch = Some c"
  shows "c < length (node_columns sch)" "scol_ty (node_columns sch ! c) \<in> {TInt64, TString}"
proof -
  from assms(1) obtain key where key: "filter scol_primary_key (node_columns sch) = [key]" "scol_ty key \<in> {TInt64, TString}"
    by (auto simp: node_schema_wf_def)
  from assms(2) have c: "c < length (node_columns sch)" "scol_primary_key (node_columns sch ! c)"
    by (simp_all add: position_eq_Some)
  then have "node_columns sch ! c \<in> set (filter scol_primary_key (node_columns sch))" by simp
  with key c(1) show "c < length (node_columns sch)" "scol_ty (node_columns sch ! c) \<in> {TInt64, TString}" by auto
qed

lemma validate_row_at:
  assumes "validate_row sch row = Inr ()" "i < length (node_columns sch)"
  shows "matches_type (row ! i) (scol_ty (node_columns sch ! i))" "length row = length (node_columns sch)"
proof -
  from assms(1) show len: "length row = length (node_columns sch)"
    by (auto simp: validate_row_def split: if_splits)
  from assms(1) len have "\<forall>(col, v) \<in> set (zip (node_columns sch) row). matches_type v (scol_ty col)"
    by (auto simp: validate_row_def rbind_eq_Inr rmapM_eq_Inr list_all2_conv_all_nth set_zip split: if_splits)
  then show "matches_type (row ! i) (scol_ty (node_columns sch ! i))"
    using assms(2) len by (auto simp: set_zip)
qed

lemma insert_row_key:
  assumes "validate_node_insert_row sch c row = Inr key" "node_schema_wf sch" "key_column sch = Some c"
  shows "slice_get row c = Some key" "is_key key" "validate_row sch row = Inr ()"
proof -
  from assms(1) show get: "slice_get row c = Some key" and valid: "validate_row sch row = Inr ()"
    by (auto simp: validate_node_insert_row_def rbind_eq_Inr ok_or_eq_Inr recover_row_def split: if_splits)
  from assms(1) have "key \<noteq> Null"
    by (auto simp: validate_node_insert_row_def rbind_eq_Inr split: if_splits)
  moreover have "matches_type key (scol_ty (node_columns sch ! c))"
    using validate_row_at(1) [OF valid key_column_ty(1) [OF assms(2,3)]] get by (auto simp: slice_get_def split: if_splits)
  ultimately show "is_key key"
    using key_column_ty(2) [OF assms(2,3)] by (cases key) (auto simp: is_key_def)
qed

lemma known_name: "sch \<in> set (cat_node_tables cat) \<Longrightarrow> node_name sch \<in> node_name ` set (cat_node_tables cat)"
  by (rule imageI)

lemma stage_inserts_ok:
  assumes ok: "writes_ok cat w" and wf: "tables_wf cat" and sch: "sch \<in> set (cat_node_tables cat)"
    and c: "key_column sch = Some c" and rows: "list_all2 (\<lambda>row key. validate_node_insert_row sch c row = Inr key) rows keys"
    and fresh: "distinct keys" "\<forall>key \<in> set keys. key \<notin> set (bt_items (ws_inserted_pks w) (node_name sch))" and "rows \<noteq> []"
  shows "writes_ok cat (stage_inserts (node_name sch) rows keys w)"
proof -
  have swf: "node_schema_wf sch" using wf sch by (simp add: tables_wf_def)
  have "keys \<noteq> []" using rows \<open>rows \<noteq> []\<close> by auto
  have full: "full_map (ws_nodes w)" "full_map (ws_inserted_pks w)" using ok by (simp_all add: writes_ok_def ws_full_def)
  note nodes = full_entry [OF full(1), of "\<lambda>staged. staged @ rows" "node_name sch"]
  note pks = full_entry [OF full(2), of "\<lambda>staged. staged @ keys" "node_name sch"]
  have key_rows: "map (\<lambda>row. slice_get row c) rows = map Some keys" "list_all is_key keys"
    using rows insert_row_key [OF _ swf c]
    by (auto simp: list_all2_conv_all_nth list_all_length intro!: nth_equalityI)
  have "inserts_match (stage_inserts (node_name sch) rows keys w) sch'" if sch': "sch' \<in> set (cat_node_tables cat)" for sch'
  proof (cases "sch' = sch")
    case True
    have old: "inserts_match w sch" using ok sch by (simp add: writes_ok_def)
    with True show ?thesis
      using key_rows fresh c \<open>rows \<noteq> []\<close> \<open>keys \<noteq> []\<close>
      by (auto simp: inserts_match_def stage_inserts_def nodes pks)
  next
    case False
    then have "node_name sch' \<noteq> node_name sch" using names_inj [OF wf sch sch'] by simp
    then show ?thesis
      using ok sch' \<open>rows \<noteq> []\<close> \<open>keys \<noteq> []\<close> by (simp add: writes_ok_def inserts_match_def stage_inserts_def nodes pks)
  qed
  moreover have "ws_full (stage_inserts (node_name sch) rows keys w)" "full_map (ws_inserted_pks (stage_inserts (node_name sch) rows keys w))"
    using ok \<open>rows \<noteq> []\<close> \<open>keys \<noteq> []\<close> by (simp_all add: writes_ok_def ws_full_def stage_inserts_def nodes pks)
  moreover have "writes_named cat (stage_inserts (node_name sch) rows keys w)"
    using ok known_name [OF sch] \<open>rows \<noteq> []\<close> \<open>keys \<noteq> []\<close>
    by (simp add: writes_ok_def writes_named_def stage_inserts_def nodes pks)
  ultimately show ?thesis by (simp add: writes_ok_def)
qed

text \<open>Edits that leave the inserts alone, or change rows without their keys.\<close>

lemma writes_okI:
  assumes "writes_ok cat w" and "ws_full w'" and "writes_named cat w'"
    and "ws_inserted_pks w' = ws_inserted_pks w"
    and "\<And>sch c. sch \<in> set (cat_node_tables cat) \<Longrightarrow> key_column sch = Some c \<Longrightarrow>
      map (\<lambda>row. slice_get row c) (bt_items (ws_nodes w') (node_name sch)) =
      map (\<lambda>row. slice_get row c) (bt_items (ws_nodes w) (node_name sch))"
  shows "writes_ok cat w'"
  using assms by (simp add: writes_ok_def inserts_match_def)

lemma upsert_node_update_ok:
  assumes "writes_ok cat w" and "sch \<in> set (cat_node_tables cat)"
  shows "writes_ok cat (upsert_node_update (node_name sch) c key replacement w)"
proof -
  have full: "full_map (ws_node_updates w)" using assms(1) by (simp add: writes_ok_def ws_full_def)
  have nonempty: "(case position (row_has c key) rows of Some pos \<Rightarrow> rows[pos := replacement] | None \<Rightarrow> rows @ [replacement]) \<noteq> []" for rows
    by (cases rows) (auto split: option.splits)
  note upd = full_entry [OF full, of "\<lambda>rows. case position (row_has c key) rows of
      Some pos \<Rightarrow> rows[pos := replacement] | None \<Rightarrow> rows @ [replacement]", OF nonempty]
  show ?thesis
    by (rule writes_okI [OF assms(1)])
      (use assms known_name [OF assms(2)] in \<open>simp_all add: upsert_node_update_def ws_full_def writes_named_def writes_ok_def upd\<close>)
qed

lemma replace_own_insert_ok:
  assumes ok: "writes_ok cat w" and sch: "sch \<in> set (cat_node_tables cat)" and wf: "tables_wf cat"
    and c: "key_column sch = Some c" and key: "slice_get replacement c = Some key"
    and rows: "bt_get (ws_nodes w) (node_name sch) = Some rows" and pos: "position (row_has c key) rows = Some pos"
  shows "writes_ok cat (w\<lparr> ws_nodes := bt_insert (node_name sch) (rows[pos := replacement]) (ws_nodes w) \<rparr>)"
proof (rule writes_okI [OF ok])
  have full: "full_map (ws_nodes w)" using ok by (simp add: writes_ok_def ws_full_def)
  have at: "pos < length rows" "slice_get (rows ! pos) c = Some key" using pos by (simp_all add: position_eq_Some)
  then have "rows[pos := replacement] \<noteq> []" by auto
  note ins = full_insert [OF full this, of "node_name sch"]
  show "ws_full (w\<lparr> ws_nodes := bt_insert (node_name sch) (rows[pos := replacement]) (ws_nodes w) \<rparr>)"
    using ok by (simp add: writes_ok_def ws_full_def ins)
  show "writes_named cat (w\<lparr> ws_nodes := bt_insert (node_name sch) (rows[pos := replacement]) (ws_nodes w) \<rparr>)"
    using ok known_name [OF sch] by (simp add: writes_ok_def writes_named_def ins)
  fix sch' c' assume sch': "sch' \<in> set (cat_node_tables cat)" "key_column sch' = Some c'"
  have "map (\<lambda>row. slice_get row c) (rows[pos := replacement]) = map (\<lambda>row. slice_get row c) rows"
    using at key by (intro nth_equalityI) (auto simp: nth_list_update)
  moreover have "bt_items (ws_nodes w) (node_name sch) = rows" using rows by (simp add: bt_items_def)
  ultimately show "map (\<lambda>row. slice_get row c') (bt_items (ws_nodes
        (w\<lparr> ws_nodes := bt_insert (node_name sch) (rows[pos := replacement]) (ws_nodes w) \<rparr>)) (node_name sch')) =
      map (\<lambda>row. slice_get row c') (bt_items (ws_nodes w) (node_name sch'))"
    using names_inj [OF wf sch sch'(1)] sch'(2) c by (auto simp: ins)
qed simp

lemma stage_update_ok:
  assumes ok: "writes_ok cat w" and sch: "sch \<in> set (cat_node_tables cat)" and wf: "tables_wf cat"
    and c: "key_column sch = Some c"
    and key: "own_insert_position w (node_name sch) c key \<noteq> None \<Longrightarrow> slice_get replacement c = Some key"
  shows "writes_ok cat (stage_update (node_name sch) c key replacement w)"
proof -
  consider rows pos where "bt_get (ws_nodes w) (node_name sch) = Some rows" "position (row_has c key) rows = Some pos"
    | "replace_own_insert (node_name sch) c key replacement w = (False, w)"
    by (fastforce simp: replace_own_insert_def split: option.splits)
  then show ?thesis
  proof cases
    case 1
    then show ?thesis
      using replace_own_insert_ok [OF ok sch wf c key 1] by (simp add: stage_update_def replace_own_insert_def own_insert_position_def)
  qed (simp add: stage_update_def upsert_node_update_ok [OF ok sch])
qed

lemma own_removal_ok:
  assumes ok: "writes_ok cat w" and sch: "sch \<in> set (cat_node_tables cat)" and wf: "tables_wf cat" and c: "key_column sch = Some c"
  shows "is_ok (fst (remove_own_insert (node_name sch) c key w))"
    and "writes_ok cat (own_removal (node_name sch) c key w)"
proof -
  let ?T = "node_name sch" and ?rows = "bt_items (ws_nodes w) (node_name sch)" and ?pks = "bt_items (ws_inserted_pks w) (node_name sch)"
  have full: "full_map (ws_nodes w)" "full_map (ws_inserted_pks w)" using ok by (simp_all add: writes_ok_def ws_full_def)
  have match: "inserts_match w sch" using ok sch by (simp add: writes_ok_def)
  then have keys: "map (\<lambda>row. slice_get row c) ?rows = map Some ?pks" using c by (simp add: inserts_match_def)
  have "position (row_has c key) ?rows = position (\<lambda>v. v = Some key) (map (\<lambda>row. slice_get row c) ?rows)"
    by (simp add: position_map)
  also have "\<dots> = position (\<lambda>v. v = key) ?pks" by (simp add: keys position_map)
  finally have same: "position (row_has c key) ?rows = position (\<lambda>v. v = key) ?pks" .
  show "is_ok (fst (remove_own_insert ?T c key w))"
    using same by (auto simp: remove_own_insert_def full_map_get [OF full(1)] full_map_get [OF full(2)] Let_def split: option.splits)
  show "writes_ok cat (own_removal ?T c key w)"
  proof (cases "position (row_has c key) ?rows")
    case None
    then have "own_removal ?T c key w = w"
      by (auto simp: own_removal_def remove_own_insert_def full_map_get [OF full(1)] split: option.splits)
    with ok show ?thesis by simp
  next
    case (Some pos)
    have ne: "?rows \<noteq> []" "?pks \<noteq> []" using Some same by (auto simp del: position.simps) (metis option.distinct(1) position.simps(1))+
    let ?w = "w\<lparr> ws_nodes := set_or_remove ?T (remove_at pos ?rows) (ws_nodes w),
        ws_inserted_pks := set_or_remove ?T (remove_at pos ?pks) (ws_inserted_pks w) \<rparr>"
    have w': "own_removal ?T c key w = ?w"
      using Some same ne
      by (simp add: own_removal_def remove_own_insert_def full_map_get [OF full(1)] full_map_get [OF full(2)] Let_def)
    note nodes = full_set_or_remove [OF full(1), of ?T] and pks = full_set_or_remove [OF full(2), of ?T]
    have "inserts_match ?w sch'" if sch': "sch' \<in> set (cat_node_tables cat)" for sch'
    proof (cases "sch' = sch")
      case True
      have "map (\<lambda>row. slice_get row c) (remove_at pos ?rows) = map Some (remove_at pos ?pks)"
        by (simp add: map_remove_at keys)
      with True match c show ?thesis
        using set_remove_at [of pos ?pks] by (auto simp: inserts_match_def nodes pks distinct_remove_at list_all_iff)
    next
      case False
      then show ?thesis using ok sch' names_inj [OF wf sch sch'] by (simp add: writes_ok_def inserts_match_def nodes pks)
    qed
    moreover have "writes_named cat ?w"
      using ok known_name [OF sch] nodes(3) [of "remove_at pos ?rows"] pks(3) [of "remove_at pos ?pks"]
      by (auto simp: writes_ok_def writes_named_def)
    ultimately show ?thesis using ok by (simp add: w' writes_ok_def ws_full_def nodes pks)
  qed
qed

lemma stage_node_delete_ok:
  assumes ok: "writes_ok cat w" and sch: "sch \<in> set (cat_node_tables cat)"
  shows "writes_ok cat (stage_node_delete (node_name sch) c key w)"
proof -
  let ?T = "node_name sch" and ?w = "remove_node_update (node_name sch) c key w"
  have full: "full_map (ws_node_updates w)" "full_map (ws_node_deletes w)" using ok by (simp_all add: writes_ok_def ws_full_def)
  note upd = full_set_or_remove [OF full(1), of ?T]
  have removed: "writes_ok cat ?w"
  proof (cases "bt_get (ws_node_updates w) ?T")
    case (Some rows)
    show ?thesis
      by (rule writes_okI [OF ok])
        (use ok known_name [OF sch] Some in \<open>auto simp: remove_node_update_def writes_ok_def ws_full_def writes_named_def upd
          dest!: subsetD [OF upd(3)]\<close>)
  qed (simp add: remove_node_update_def ok)
  then have "full_map (ws_node_deletes ?w)" by (simp add: writes_ok_def ws_full_def)
  moreover have "push_new key keys \<noteq> []" for keys by (auto simp: push_new_def)
  ultimately have del: "full_map (bt_entry ?T [] (push_new key) (ws_node_deletes ?w))"
      "bt_keys (bt_entry ?T [] (push_new key) (ws_node_deletes ?w)) = insert ?T (bt_keys (ws_node_deletes ?w))"
    by (simp_all add: full_entry)
  show ?thesis
    unfolding stage_node_delete_def stage_delete_def
    by (rule writes_okI [OF removed])
      (use removed known_name [OF sch] del in \<open>auto simp: writes_ok_def ws_full_def writes_named_def\<close>)
qed

lemma fold_edges_full:
  assumes "full_map m"
  shows "full_map (ws_edges (fold_pending_incident_edges cat table key (w\<lparr> ws_edges := m \<rparr>))) \<and>
    bt_keys (ws_edges (fold_pending_incident_edges cat table key (w\<lparr> ws_edges := m \<rparr>))) \<subseteq> bt_keys m"
  using assms
proof (induction m)
  case (Cons entry m)
  obtain rel edges where entry: "entry = (rel, edges)" by fastforce
  from Cons.prems have "full_map m" by (auto simp: full_map_def entry)
  note IH = Cons.IH [OF this]
  from Cons.prems have "\<forall>k' \<in> bt_keys m. rel < k'" "edges \<noteq> []" by (simp_all add: full_map_def entry)
  with IH show ?case
    by (auto simp: fold_pending_incident_edges_def full_map_def entry map_filter_simps Let_def
        split: option.splits prod.splits)
qed (simp add: fold_pending_incident_edges_def full_map_def map_filter_simps)

lemma fold_edges_ok:
  assumes "writes_ok cat w"
  shows "writes_ok cat (fold_pending_incident_edges cat' table key w)"
proof -
  have "full_map (ws_edges w)" using assms by (simp add: writes_ok_def ws_full_def)
  from fold_edges_full [OF this, of cat' table key w]
  have edges: "full_map (ws_edges (fold_pending_incident_edges cat' table key w))"
    "bt_keys (ws_edges (fold_pending_incident_edges cat' table key w)) \<subseteq> bt_keys (ws_edges w)" by simp_all
  have others: "ws_nodes (fold_pending_incident_edges cat' table key w) = ws_nodes w"
    "ws_node_updates (fold_pending_incident_edges cat' table key w) = ws_node_updates w"
    "ws_node_deletes (fold_pending_incident_edges cat' table key w) = ws_node_deletes w"
    "ws_inserted_pks (fold_pending_incident_edges cat' table key w) = ws_inserted_pks w"
    by (simp_all add: fold_pending_incident_edges_def)
  show ?thesis
    by (rule writes_okI [OF assms])
      (use assms edges in \<open>auto simp: others writes_ok_def ws_full_def writes_named_def\<close>)
qed

lemma stage_tombstones_fields:
  "ws_nodes (fold stage_tombstone ts w) = ws_nodes w" "ws_node_updates (fold stage_tombstone ts w) = ws_node_updates w"
  "ws_node_deletes (fold stage_tombstone ts w) = ws_node_deletes w" "ws_edges (fold stage_tombstone ts w) = ws_edges w"
  "ws_inserted_pks (fold stage_tombstone ts w) = ws_inserted_pks w" "ws_ddl (fold stage_tombstone ts w) = ws_ddl w"
  "ws_hnsw_create (fold stage_tombstone ts w) = ws_hnsw_create w" "ws_detaches (fold stage_tombstone ts w) = ws_detaches w"
  by (induction ts arbitrary: w) (auto simp: stage_tombstone_def split: prod.splits)

lemma stage_detach_ok:
  assumes "writes_ok cat w" and "sch \<in> set (cat_node_tables cat)"
  shows "writes_ok cat (stage_detach cat' c \<lparr> pd_table = node_name sch, pd_key = key \<rparr> tombstones w)"
proof -
  have ok: "writes_ok cat (stage_node_delete (node_name sch) c key (fold_pending_incident_edges cat' (node_name sch) key w))"
    by (rule stage_node_delete_ok [OF fold_edges_ok [OF assms(1)] assms(2)])
  show ?thesis
    unfolding stage_detach_def Let_def
    by (rule writes_okI [OF ok]) (use ok in \<open>simp_all add: stage_tombstones_fields writes_ok_def ws_full_def writes_named_def\<close>)
qed

lemma stage_edges_ok:
  assumes ok: "writes_ok cat w" and "sch \<in> set (cat_rel_tables cat)" and "staged \<noteq> []"
  shows "writes_ok cat (stage_edges (rel_name sch) staged w)"
proof -
  have full: "full_map (ws_edges w)" using ok by (simp add: writes_ok_def ws_full_def)
  note edges = full_entry [OF full, of "\<lambda>edges. edges @ staged" "rel_name sch"]
  show ?thesis
    by (rule writes_okI [OF ok])
      (use assms in \<open>auto simp: stage_edges_def writes_ok_def ws_full_def writes_named_def edges\<close>)
qed

section \<open>Reading back an own insert\<close>

lemma visible_own_insert:
  assumes "visible_dml_effects view sch = Inr visible" and "key_column sch = Some c" and "rv_own view = Some own"
    and "row \<in> set (bt_items (delta_nodes own) (node_name sch))" and "row_key c row = Some k"
  shows "visible k = None"
proof -
  have clear: "vis' k = None" if "rfold (\<lambda>row vis. rbind (key_from_row row c) (\<lambda>k. Inr (vis(k := None)))) rows vis = Inr vis'"
    "row \<in> set rows \<or> vis k = None" for rows and vis vis' :: visible_effects
    using that
  proof (induction rows arbitrary: vis)
    case (Cons r rows)
    from Cons.prems(1) obtain k' where k': "key_from_row r c = Inr k'"
      "rfold (\<lambda>row vis. rbind (key_from_row row c) (\<lambda>k. Inr (vis(k := None)))) rows (vis(k' := None)) = Inr vis'"
      unfolding rfold.simps rbind_eq_Inr by blast
    moreover have "row = r \<Longrightarrow> k' = k" using k'(1) assms(5) by (simp add: key_from_row_iff)
    ultimately show ?case using Cons.IH [OF k'(2)] Cons.prems(2) by auto
  qed auto
  from assms(1-3) show ?thesis
    using clear assms(4) by (auto simp: visible_dml_effects_def primary_key_def rbind_eq_Inr apply_own_dml_effects_def)
qed

lemma own_delta_simps [simp]:
  "delta_nodes (own_delta w) = ws_nodes w" "delta_node_updates (own_delta w) = ws_node_updates w"
  "delta_node_deletes (own_delta w) = ws_node_deletes w"
  by (simp_all add: own_delta_def delta_of_writes_def)

lemma transaction_view_own: "rv_own (transaction_view tx) = Some (own_delta (tx_writes tx))"
  by (simp add: transaction_view_def)

lemma resolve_own_insert:
  assumes res: "resolve_node_row env (transaction_view tx) (node_name sch) key st = (Inr row, st')"
    and table: "node_table (tx_catalog tx) (node_name sch) = Some sch" and c: "key_column sch = Some c"
    and own: "own_insert_position (tx_writes tx) (node_name sch) c key \<noteq> None"
  shows "own_node_row (transaction_view tx) (node_name sch) c key = Some row" "slice_get row c = Some key"
proof -
  let ?view = "transaction_view tx"
  let ?rows = "bt_items (ws_nodes (tx_writes tx)) (node_name sch)"
  have pk: "primary_key sch = Inr (c, scol_name (node_columns sch ! c))" using c by (simp add: primary_key_position)
  from own obtain pos where pos: "position (row_has c key) ?rows = Some pos"
    by (auto simp: own_insert_position_def bt_items_def bind_eq_Some_conv split: option.splits)
  then have at: "?rows ! pos \<in> set ?rows" "row_has c key (?rows ! pos)" by (simp_all add: position_eq_Some)
  have ownrow: "own_node_row ?view (node_name sch) c key = find (row_has c key) ?rows"
    by (simp add: own_node_row_def transaction_view_own bt_items_def split: option.split)
  with pos have some: "own_node_row ?view (node_name sch) c key = Some (?rows ! pos)" by (simp add: find_position)
  have cat: "node_table (rv_catalog ?view) (node_name sch) = Some sch" using table by (simp add: transaction_view_def)
  obtain k where k: "key_from_query sch c key = Inr k"
    using res cat pk by (cases "key_from_query sch c key") (auto simp: resolve_node_row_def)
  obtain visible where vis: "visible_dml_effects ?view sch = Inr visible"
    using res cat pk k by (cases "visible_dml_effects ?view sch") (auto simp: resolve_node_row_def)
  have key: "row_key c (?rows ! pos) = Some k" using at(2) key_from_query_key [OF k] by (rule slice_get_key)
  have "visible k = None"
    by (rule visible_own_insert [OF vis c transaction_view_own _ key]) (use at(1) in simp)
  with res cat pk k vis some have "row = ?rows ! pos" by (simp add: resolve_node_row_def)
  with some at(2) show "own_node_row ?view (node_name sch) c key = Some row" "slice_get row c = Some key" by simp_all
qed

lemma apply_set_items_key:
  "rfold (apply_set_item sch c) items row = Inr replacement \<Longrightarrow> slice_get replacement c = slice_get row c"
  by (induction items arbitrary: row) (fastforce simp: rbind_eq_Inr apply_set_item_def slice_get_def split: if_splits)+

section \<open>Schema changes\<close>

text \<open>Catalogs that differ in metadata only.\<close>

definition same_tables :: "catalog \<Rightarrow> catalog \<Rightarrow> bool" where
  "same_tables cat cat' \<longleftrightarrow> cat_node_tables cat' = cat_node_tables cat \<and> cat_rel_tables cat' = cat_rel_tables cat \<and>
    cat_storage cat' = cat_storage cat"

definition ddl_follows :: "transaction \<Rightarrow> bool" where
  "ddl_follows tx \<longleftrightarrow> (\<exists>cat. apply_ddl_to_catalog (ps_catalog (tx_state tx)) (ws_ddl (tx_writes tx)) = Inr cat \<and>
    same_tables cat (tx_catalog tx))"

lemma same_tables_lookup:
  assumes "same_tables cat cat'"
  shows "node_table cat' = node_table cat" "rel_table cat' = rel_table cat" "contains_table cat' = contains_table cat"
    "require_node_table cat' = require_node_table cat" "table_storage_of cat' = table_storage_of cat"
  using assms by (auto simp: same_tables_def node_table_def rel_table_def contains_table_def require_node_table_def
      table_storage_of_def storage_state_of_def fun_eq_iff)

lemma apply_ddl_same_tables:
  assumes "apply_ddl op cat = Inr cat2" "same_tables cat' cat" "cat_ontology cat' = cat_ontology cat"
  shows "\<exists>cat2'. apply_ddl op cat' = Inr cat2' \<and> same_tables cat2' cat2"
proof -
  have "interface cat' = interface cat" by (simp add: interface_def assms(3) fun_eq_iff)
  with assms(1,2) same_tables_lookup [OF assms(2)] show ?thesis
    by (cases op) (auto simp: same_tables_def add_node_table_def add_rel_table_def rbind_eq_Inr
        reject_interface_collision_for_node_def split: if_splits)
qed

lemma apply_ddl_ontology: "apply_ddl op cat = Inr cat' \<Longrightarrow> cat_ontology cat' = cat_ontology cat"
  by (cases op) (auto simp: add_node_table_def add_rel_table_def rbind_eq_Inr split: if_splits)

lemma apply_ddl_catalog_ontology: "apply_ddl_to_catalog cat ddl = Inr cat' \<Longrightarrow> cat_ontology cat' = cat_ontology cat"
  unfolding apply_ddl_to_catalog_def
  by (rule rfold_invariant [where P = "\<lambda>c. cat_ontology c = cat_ontology cat"]) (auto dest: apply_ddl_ontology)

lemma ddl_follows_extend:
  assumes "ddl_follows tx" "\<not> ontology_pending tx" "apply_ddl op (tx_catalog tx) = Inr cat'"
  shows "ddl_follows (tx\<lparr> tx_catalog := cat', tx_writes := (tx_writes tx)\<lparr> ws_charged := n, ws_ddl := ws_ddl (tx_writes tx) @ [op] \<rparr> \<rparr>)"
proof -
  from assms(1) obtain cat where cat: "apply_ddl_to_catalog (ps_catalog (tx_state tx)) (ws_ddl (tx_writes tx)) = Inr cat"
    "same_tables cat (tx_catalog tx)" by (auto simp: ddl_follows_def)
  have "cat_ontology cat = cat_ontology (tx_catalog tx)"
    using apply_ddl_catalog_ontology [OF cat(1)] assms(2) by (simp add: ontology_pending_def)
  from apply_ddl_same_tables [OF assms(3) cat(2) this] cat(1) show ?thesis
    by (auto simp: ddl_follows_def apply_ddl_to_catalog_def rfold_append)
qed

text \<open>Creating a table keeps every other one, and a fresh table has no writes.\<close>

lemma find_append_fresh:
  "find P xs = None \<Longrightarrow> find P (xs @ ys) = find P ys" "find P xs = Some x \<Longrightarrow> find P (xs @ ys) = Some x"
  by (induction xs) (auto split: if_splits)

lemma tables_wf_add_node:
  assumes "tables_wf cat" "add_node_table cat sch = Inr cat'" "node_schema_wf sch"
  shows "tables_wf cat'"
proof -
  from assms(2) have cat': "cat' = cat\<lparr> cat_node_tables := cat_node_tables cat @ [sch] \<rparr>" and fresh: "node_table cat (node_name sch) = None"
    by (auto simp: add_node_table_def contains_table_def split: if_splits)
  show ?thesis
    using assms(1,3) fresh
    by (auto simp: tables_wf_def cat' node_table_def rel_table_def find_append_fresh)
qed

lemma tables_wf_add_rel:
  assumes "tables_wf cat" "add_rel_table cat sch = Inr cat'"
  shows "tables_wf cat'"
proof -
  from assms(2) have cat': "cat' = cat\<lparr> cat_rel_tables := cat_rel_tables cat @ [sch] \<rparr>" and fresh: "rel_table cat (rel_name sch) = None"
    by (auto simp: add_rel_table_def contains_table_def rbind_eq_Inr split: if_splits)
  show ?thesis
    using assms(1) fresh
    by (auto simp: tables_wf_def cat' node_table_def rel_table_def find_append_fresh)
qed

lemma writes_ok_add_node:
  assumes "writes_ok cat w" "tables_wf cat" "add_node_table cat sch = Inr cat'"
  shows "writes_ok cat' w"
proof -
  from assms(3) have cat': "cat' = cat\<lparr> cat_node_tables := cat_node_tables cat @ [sch] \<rparr>" and fresh: "node_table cat (node_name sch) = None"
    by (auto simp: add_node_table_def contains_table_def split: if_splits)
  have "node_name sch \<notin> node_name ` set (cat_node_tables cat)"
    using fresh assms(2) by (auto simp: tables_wf_def)
  then have "node_name sch \<notin> bt_keys (ws_nodes w)" "node_name sch \<notin> bt_keys (ws_inserted_pks w)"
    using assms(1) by (auto simp: writes_ok_def writes_named_def)
  then have "inserts_match w sch" by (simp add: inserts_match_def bt_items_def bt_get_None)
  with assms(1) show ?thesis by (auto simp: writes_ok_def writes_named_def cat')
qed

lemma writes_ok_add_rel: "writes_ok cat w \<Longrightarrow> add_rel_table cat sch = Inr cat' \<Longrightarrow> writes_ok cat' w"
  by (auto simp: writes_ok_def writes_named_def add_rel_table_def rbind_eq_Inr split: if_splits)

lemma writes_ok_ddl [simp]: "writes_ok cat (w\<lparr> ws_ddl := ddl \<rparr>) = writes_ok cat w"
  by (simp add: writes_ok_def ws_full_def writes_named_def inserts_match_def)

lemma writes_ok_hnsw [simp]: "writes_ok cat (w\<lparr> ws_hnsw_create := b \<rparr>) = writes_ok cat w"
  by (simp add: writes_ok_def ws_full_def writes_named_def inserts_match_def)

section \<open>Every statement keeps the invariant\<close>

definition staged_ok :: "transaction \<Rightarrow> bool" where
  "staged_ok tx \<longleftrightarrow> tables_wf (tx_catalog tx) \<and> writes_ok (tx_catalog tx) (tx_writes tx) \<and> ddl_follows tx"

lemma staged_ok_charge [simp]: "staged_ok (charge n tx) = staged_ok tx"
  by (simp add: staged_ok_def ddl_follows_def)

lemma staged_ok_metadata:
  assumes "staged_ok tx" "same_tables (tx_catalog tx) cat"
  shows "staged_ok (tx\<lparr> tx_catalog := cat \<rparr>)"
proof -
  have "cat_node_tables cat = cat_node_tables (tx_catalog tx)" "cat_rel_tables cat = cat_rel_tables (tx_catalog tx)"
    using assms(2) by (simp_all add: same_tables_def)
  then have "tables_wf cat" "writes_ok cat (tx_writes tx)"
    using assms(1) same_tables_lookup(1,2) [OF assms(2)]
    by (simp_all add: staged_ok_def tables_wf_def writes_ok_def writes_named_def)
  moreover have "ddl_follows (tx\<lparr> tx_catalog := cat \<rparr>)"
    using assms by (auto simp: staged_ok_def ddl_follows_def same_tables_def)
  ultimately show ?thesis by (simp add: staged_ok_def)
qed

lemma staged_ok_edit:
  assumes "staged_ok tx" "staged_by f tx tx'" "\<And>w. ws_ddl (f w) = ws_ddl w"
    and "\<And>n. writes_ok (tx_catalog tx) ((tx_writes tx)\<lparr> ws_charged := n \<rparr>) \<Longrightarrow>
      writes_ok (tx_catalog tx) (f ((tx_writes tx)\<lparr> ws_charged := n \<rparr>))"
  shows "staged_ok tx'"
  using assms by (auto simp: staged_ok_def staged_by_def ddl_follows_def)

interpretation plain: cache_invariant env "\<lambda>_. True" "\<lambda>_. True" for env
  by unfold_locales simp_all

abbreviation any :: "caches \<Rightarrow> bool" where "any \<equiv> \<lambda>_. True"

lemma staged_ok_removable: "staged_ok tx \<Longrightarrow> removable tx"
  unfolding removable_def staged_ok_def primary_key_position using own_removal_ok(1) by blast

lemma edit_ddl:
  "ws_ddl (stage_inserts t rows keys w) = ws_ddl w" "ws_ddl (stage_update t c key row w) = ws_ddl w"
  "ws_ddl (own_removal t c key w) = ws_ddl w" "ws_ddl (stage_node_delete t c key w) = ws_ddl w"
  "ws_ddl (fold_pending_incident_edges cat t key w) = ws_ddl w" "ws_ddl (stage_edges t edges w) = ws_ddl w"
  "ws_ddl (stage_detach cat c intent ts w) = ws_ddl w"
  by (auto simp: stage_inserts_def stage_update_def replace_own_insert_def upsert_node_update_def own_removal_def
      remove_own_insert_def stage_node_delete_def stage_delete_def remove_node_update_def fold_pending_incident_edges_def
      stage_edges_def stage_detach_def stage_tombstones_fields Let_def split: option.splits)

lemma own_position_charged [simp]:
  "own_insert_position (w\<lparr> ws_charged := n \<rparr>) t c key = own_insert_position w t c key"
  by (simp add: own_insert_position_def)

lemma plain_resolved_own:
  assumes "plain.resolved env tx (node_name sch) key row" "staged_ok tx" "sch \<in> set (cat_node_tables (tx_catalog tx))"
    "key_column sch = Some c" "own_insert_position (tx_writes tx) (node_name sch) c key \<noteq> None"
  shows "slice_get row c = Some key"
proof -
  have table: "node_table (tx_catalog tx) (node_name sch) = Some sch" using assms(2,3) by (simp add: staged_ok_def tables_wf_def)
  from assms(1) obtain st st' where "resolve_node_row env (transaction_view tx) (node_name sch) key st = (Inr row, st')"
    unfolding plain.resolved_def tx_resolve_row_def Let_def by (auto split: prod.splits) (metis surj_pair)
  from resolve_own_insert(2) [OF this table assms(4,5)] show ?thesis .
qed

text \<open>Whatever a step returns, its session goes on with a sound transaction.\<close>

abbreviation sound :: "session \<Rightarrow> bool" where "sound s \<equiv> staged_ok (fst s)"

lemma sound_triple:
  assumes "triple (sess tx any) m (post R any) (sess tx any)" and "staged_ok tx" and "\<And>tx'. R tx' \<Longrightarrow> staged_ok tx'"
  shows "triple (sess tx any) m (\<lambda>_. sound) sound"
  by (rule triple_conseq [OF assms(1)]) (use assms(2,3) in \<open>auto simp: post_def sess_def\<close>)

lemma sound_at:
  assumes "\<And>tx. staged_ok tx \<Longrightarrow> triple (sess tx any) m (\<lambda>_. sound) sound"
  shows "triple sound m (\<lambda>_. sound) sound"
  unfolding triple_def
proof (intro allI impI)
  fix s assume "sound s"
  from assms [OF this] show "case m s of (Inl e, s') \<Rightarrow> sound s' | (Inr x, s') \<Rightarrow> sound s'"
    unfolding triple_def by (metis (no_types) sess_fst prod.collapse)
qed

lemma insert_sound:
  assumes "rows \<noteq> []"
  shows "triple sound (execute_node_insert env rl table rows) (\<lambda>_. sound) sound"
proof (rule sound_at, rule sound_triple [OF plain.insert_triple])
  fix tx tx' assume ok: "staged_ok tx" and out: "plain.insert_outcome env table rows tx tx'"
  from out obtain sch c keys where sch: "node_table (tx_catalog tx) table = Some sch" and c: "key_column sch = Some c"
    and keys: "list_all2 (\<lambda>row key. validate_node_insert_row sch c row = Inr key) rows keys" "distinct keys"
      "\<forall>key \<in> set keys. key \<notin> set (bt_items (ws_inserted_pks (tx_writes tx)) (node_name sch))"
    and staged: "staged_by (stage_inserts (node_name sch) rows keys) tx tx'"
    unfolding plain.insert_outcome_def primary_key_position by blast
  show "staged_ok tx'"
  proof (rule staged_ok_edit [OF ok staged])
    fix n assume "writes_ok (tx_catalog tx) ((tx_writes tx)\<lparr> ws_charged := n \<rparr>)"
    then show "writes_ok (tx_catalog tx) (stage_inserts (node_name sch) rows keys ((tx_writes tx)\<lparr> ws_charged := n \<rparr>))"
      by (rule stage_inserts_ok [OF _ _ node_table_in [OF sch] c keys(1,2)])
        (use ok keys(3) assms in \<open>simp_all add: staged_ok_def\<close>)
  qed (simp add: edit_ddl)
qed simp

lemma update_sound: "triple sound (execute_node_update env rl table items column key) (\<lambda>_. sound) sound"
proof (rule sound_at, rule sound_triple [OF plain.update_triple])
  fix tx tx' assume ok: "staged_ok tx" and out: "plain.update_outcome env table items key tx tx'"
  from out obtain sch c row replacement where sch: "node_table (tx_catalog tx) table = Some sch" and c: "key_column sch = Some c"
    and row: "plain.resolved env tx (node_name sch) key row" "rfold (apply_set_item sch c) items row = Inr replacement"
    and staged: "staged_by (stage_update (node_name sch) c key replacement) tx tx'"
    unfolding plain.update_outcome_def primary_key_position by blast
  note mem = node_table_in [OF sch]
  show "staged_ok tx'"
  proof (rule staged_ok_edit [OF ok staged])
    fix n assume "writes_ok (tx_catalog tx) ((tx_writes tx)\<lparr> ws_charged := n \<rparr>)"
    then show "writes_ok (tx_catalog tx) (stage_update (node_name sch) c key replacement ((tx_writes tx)\<lparr> ws_charged := n \<rparr>))"
      by (rule stage_update_ok [OF _ mem _ c])
        (use ok plain_resolved_own [OF row(1) ok mem c] apply_set_items_key [OF row(2)] in \<open>simp_all add: staged_ok_def\<close>)
  qed (simp add: edit_ddl)
qed simp

lemma delete_sound: "triple sound (execute_node_delete env rl table column key) (\<lambda>_. sound) sound"
proof (rule sound_at, rule sound_triple [OF plain.delete_triple])
  fix tx tx' assume ok: "staged_ok tx" and out: "plain.delete_outcome env table key tx tx'"
  from out obtain sch c key' where sch: "node_table (tx_catalog tx) table = Some sch" and c: "key_column sch = Some c"
    and staged: "staged_by (if own_insert_position (tx_writes tx) (node_name sch) c key' \<noteq> None
      then own_removal (node_name sch) c key' else stage_node_delete (node_name sch) c key') tx tx'"
    unfolding plain.delete_outcome_def primary_key_position by blast
  note mem = node_table_in [OF sch]
  show "staged_ok tx'"
    by (rule staged_ok_edit [OF ok staged])
      (use ok c own_removal_ok(2) [OF _ mem] stage_node_delete_ok [OF _ mem] in \<open>auto simp: edit_ddl staged_ok_def\<close>)
qed (simp_all add: staged_ok_removable)

lemma detach_sound: "triple sound (execute_detach_delete env rl table column key) (\<lambda>_. sound) sound"
proof (rule sound_at, rule sound_triple [OF plain.detach_triple])
  fix tx tx' assume ok: "staged_ok tx" and out: "plain.detach_outcome env table key tx tx'"
  from out obtain sch c key' offset where sch: "node_table (tx_catalog tx) table = Some sch" and c: "key_column sch = Some c"
    and staged: "staged_by (if own_insert_position (tx_writes tx) (node_name sch) c key' \<noteq> None
      then (\<lambda>w. fold_pending_incident_edges (tx_catalog tx) (node_name sch) key' (own_removal (node_name sch) c key' w))
      else stage_detach (tx_catalog tx) c \<lparr> pd_table = node_name sch, pd_key = key' \<rparr>
        (detach_tombstone_claims (tx_catalog tx) (node_name sch) offset)) tx tx'"
    unfolding plain.detach_outcome_def primary_key_position by blast
  note mem = node_table_in [OF sch]
  show "staged_ok tx'"
    by (rule staged_ok_edit [OF ok staged])
      (use ok c own_removal_ok(2) [OF _ mem] stage_detach_ok [OF _ mem] fold_edges_ok in \<open>auto simp: edit_ddl staged_ok_def\<close>)
qed (simp_all add: staged_ok_removable)

lemma edges_sound:
  assumes "rows \<noteq> []"
  shows "triple sound (execute_rel_insert env rl table rows) (\<lambda>_. sound) sound"
proof (rule sound_at, rule sound_triple [OF plain.edges_triple])
  fix tx tx' assume ok: "staged_ok tx" and out: "plain.edges_outcome env table rows tx tx'"
  from out obtain sch staged where sch: "rel_table (tx_catalog tx) table = Some sch" and ne: "staged \<noteq> []"
    and staged: "staged_by (stage_edges (rel_name sch) staged) tx tx'"
    unfolding plain.edges_outcome_def using assms by (metis map_is_Nil_conv)
  have "sch \<in> set (cat_rel_tables (tx_catalog tx))" using sch by (auto simp: rel_table_def find_Some_iff)
  then show "staged_ok tx'"
    by (intro staged_ok_edit [OF ok staged]) (auto simp: edit_ddl intro: stage_edges_ok [OF _ _ ne])
qed simp

section \<open>Upserts\<close>

text \<open>
  An upsert inserts a key only if it is neither claimed nor named by an earlier row, and was looked
  up in vain.
\<close>

definition upsert_plan :: "(devon_value \<Rightarrow> bool) \<Rightarrow> devon_value list \<Rightarrow> devon_value list \<Rightarrow> upsert_action list \<Rightarrow> bool" where
  "upsert_plan missing staged_keys keys actions \<longleftrightarrow> length actions = length keys \<and>
    (\<forall>i < length keys. actions ! i = UpsertInsert \<longrightarrow>
      missing (keys ! i) \<and> keys ! i \<notin> set staged_keys \<union> set (take i keys))"

abbreviation pk_set :: "devon_value list \<Rightarrow> pk_key set" where
  "pk_set vs \<equiv> {k. \<exists>v \<in> set vs. pk_try_from v = Inr k}"

lemma pk_set_mem:
  assumes "pk_try_from v = Inr k"
  shows "k \<in> pk_set vs \<longleftrightarrow> v \<in> set vs"
  by (simp add: pk_try_from_inj [OF assms])

lemma upsert_key_Inr: "upsert_key v = Inr k \<longleftrightarrow> pk_try_from v = Inr k"
  by (simp add: upsert_key_def map_err_eq_Inr)

lemma rmapM_upsert_key: "rmapM upsert_key vs = Inr ks \<Longrightarrow> set ks = pk_set vs"
proof (induction vs arbitrary: ks)
  case (Cons v vs)
  then obtain k ks' where "pk_try_from v = Inr k" "rmapM upsert_key vs = Inr ks'" "ks = k # ks'"
    by (auto simp: rbind_eq_Inr upsert_key_Inr)
  with Cons.IH show ?case by auto
qed simp

lemma upsert_plan_snoc:
  "upsert_plan missing staged_keys (keys @ [key]) (actions @ [action]) \<longleftrightarrow> upsert_plan missing staged_keys keys actions \<and>
    (action = UpsertInsert \<longrightarrow> missing key \<and> key \<notin> set staged_keys \<union> set keys)" if "length actions = length keys"
  using that by (auto simp: upsert_plan_def nth_append less_Suc_eq)

context cache_invariant
begin

lemma upsert_action_triple:
  assumes "V (transaction_view tx)"
  shows "triple (\<lambda>s. sess tx C s \<and> upsert_plan (absent tx table) staged_keys seen (fst acc) \<and> snd acc = pk_set (staged_keys @ seen))
    (resolve_upsert_action env (transaction_view tx) table key acc)
    (\<lambda>acc s. sess tx C s \<and> upsert_plan (absent tx table) staged_keys (seen @ [key]) (fst acc) \<and> snd acc = pk_set (staged_keys @ seen @ [key]))
    (sess tx C)"
proof (cases acc)
  case (Pair actions present)
  show ?thesis
    unfolding resolve_upsert_action_def Pair prod.case
  proof (rule triple_known, rule triple_check, simp, goal_cases)
    case (1 k)
    then have k: "pk_try_from key = Inr k" by (simp add: upsert_key_Inr)
    from 1 have acc: "upsert_plan (absent tx table) staged_keys seen actions" "present = pk_set (staged_keys @ seen)" by simp_all
    then have len: "length actions = length seen" by (simp add: upsert_plan_def)
    have grow: "pk_set (staged_keys @ seen @ [key]) = insert k present" using k acc(2) by auto
    show ?case
    proof (rule triple_if)
      assume "k \<in> present"
      then show "triple (sess tx C) (slift (Inr (actions @ [UpsertUpdate], present)))
          (\<lambda>acc s. sess tx C s \<and> upsert_plan (absent tx table) staged_keys (seen @ [key]) (fst acc) \<and> snd acc = pk_set (staged_keys @ seen @ [key]))
          (sess tx C)"
        unfolding grow by (auto intro!: triple_lift simp: acc(1) upsert_plan_snoc [OF len] insert_absorb)
    next
      assume new: "k \<notin> present"
      then have fresh: "key \<notin> set staged_keys \<union> set seen" using pk_set_mem [OF k, of "staged_keys @ seen"] acc(2) by auto
      show "triple (sess tx C) (sbind (\<lambda>s. case tx_resolve_key env (transaction_view tx) table key s of
            (res, s) \<Rightarrow> (not_found_absent res, s)) (\<lambda>exists.
          slift (Inr (actions @ [if exists then UpsertUpdate else UpsertInsert], insert k present))))
          (\<lambda>acc s. sess tx C s \<and> upsert_plan (absent tx table) staged_keys (seen @ [key]) (fst acc) \<and> snd acc = pk_set (staged_keys @ seen @ [key]))
          (sess tx C)"
        unfolding grow using fresh
        by (intro triple_bind [OF key_absent_triple [OF assms]] triple_lift)
          (auto simp: acc(1) upsert_plan_snoc [OF len])
    qed
  qed
qed

lemma upsert_actions_triple:
  assumes "V (transaction_view tx)"
  shows "triple (sess tx C) (resolve_upsert_actions env table keys)
    (\<lambda>actions s. sess tx C s \<and> upsert_plan (absent tx table) (bt_items (ws_inserted_pks (tx_writes tx)) table) keys actions) (sess tx C)"
  unfolding resolve_upsert_actions_def
proof (rule triple_with_sess, rule read_view_triple, rule triple_check, simp, goal_cases)
  case (1 n present)
  let ?ins = "bt_items (ws_inserted_pks (tx_writes tx)) table"
  have "set present = pk_set ?ins"
    using rmapM_upsert_key [OF 1] by simp
  then have start: "(\<lambda>s. sess tx C s \<and> upsert_plan (absent tx table) ?ins [] (fst ([], set present)) \<and>
      snd ([] :: upsert_action list, set present) = pk_set (?ins @ [])) = sess tx C"
    by (auto simp: upsert_plan_def)
  let ?I = "\<lambda>seen acc s. sess tx C s \<and> upsert_plan (absent tx table) ?ins seen (fst acc) \<and> snd acc = pk_set (?ins @ seen)"
  have "triple (?I [] ([], set present)) (sfold (resolve_upsert_action env (transaction_view tx) table) keys ([], set present))
      (?I keys) (sess tx C)"
    by (rule triple_fold_prefix [where I = ?I]) (rule upsert_action_triple [OF assms])
  from this [unfolded start] show ?case
    by (rule triple_bind) (auto intro!: triple_lift split: prod.split)
qed

end

lemma stage_inserts_items:
  assumes "writes_ok cat w" "keys \<noteq> []"
  shows "bt_items (ws_inserted_pks (stage_inserts table rows keys w)) table = bt_items (ws_inserted_pks w) table @ keys"
  using assms by (simp add: stage_inserts_def writes_ok_def full_entry)

lemma stage_update_pks: "ws_inserted_pks (stage_update t c key row w) = ws_inserted_pks w"
  by (auto simp: stage_update_def replace_own_insert_def upsert_node_update_def split: option.splits)

text \<open>One row of an upsert, while \<open>seen\<close> are the keys of the rows before it.\<close>

definition upserting :: "catalog \<Rightarrow> string \<Rightarrow> devon_value list \<Rightarrow> devon_value list \<Rightarrow> session \<Rightarrow> bool" where
  "upserting cat table staged_keys seen s \<longleftrightarrow> sound s \<and> tx_catalog (fst s) = cat \<and>
    set (bt_items (ws_inserted_pks (tx_writes (fst s))) table) \<subseteq> set staged_keys \<union> set seen"

lemma upserting_at:
  assumes "\<And>tx. staged_ok tx \<Longrightarrow> tx_catalog tx = cat \<Longrightarrow>
      set (bt_items (ws_inserted_pks (tx_writes tx)) table) \<subseteq> set staged_keys \<union> set seen \<Longrightarrow>
      triple (sess tx any) m Q sound"
  shows "triple (upserting cat table staged_keys seen) m Q sound"
  unfolding triple_def
proof (intro allI impI)
  fix s assume "upserting cat table staged_keys seen s"
  then have "triple (sess (fst s) any) m Q sound" unfolding upserting_def using assms by blast
  then show "case m s of (Inl e, s') \<Rightarrow> sound s' | (Inr x, s') \<Rightarrow> Q x s'"
    unfolding triple_def by (metis (no_types) sess_fst prod.collapse)
qed

lemma apply_upsert_triple:
  assumes sch: "sch \<in> set (cat_node_tables cat)" and c: "key_column sch = Some c"
    and key: "validate_node_insert_row sch c row = Inr key"
    and fresh: "action = UpsertInsert \<Longrightarrow> key \<notin> set staged_keys \<union> set seen"
  shows "triple (upserting cat (node_name sch) staged_keys seen) (apply_upsert env rl sch c column ((row, key), action))
    (\<lambda>_. upserting cat (node_name sch) staged_keys (seen @ [key])) sound"
proof (rule upserting_at)
  fix tx assume ok: "staged_ok tx" and cat: "tx_catalog tx = cat"
    and sub: "set (bt_items (ws_inserted_pks (tx_writes tx)) (node_name sch)) \<subseteq> set staged_keys \<union> set seen"
  have swf: "node_table cat (node_name sch) = Some sch" "tables_wf cat"
    using ok sch cat by (auto simp: staged_ok_def tables_wf_def)
  show "triple (sess tx any) (apply_upsert env rl sch c column ((row, key), action))
      (\<lambda>_. upserting cat (node_name sch) staged_keys (seen @ [key])) sound"
  proof (cases action)
    case UpsertInsert
    have "upserting cat (node_name sch) staged_keys (seen @ [key]) s"
      if "post (staged_by (stage_inserts (node_name sch) [row] [key]) tx) any () s" for s
    proof -
      from that obtain n where tx': "fst s = tx\<lparr> tx_writes := stage_inserts (node_name sch) [row] [key] ((tx_writes tx)\<lparr> ws_charged := n \<rparr>) \<rparr>"
        and staged: "staged_by (stage_inserts (node_name sch) [row] [key]) tx (fst s)"
        by (auto simp: post_def staged_by_def)
      have "writes_ok cat (stage_inserts (node_name sch) [row] [key] ((tx_writes tx)\<lparr> ws_charged := n \<rparr>))" for n
        by (rule stage_inserts_ok [OF _ swf(2) sch c])
          (use ok cat key fresh [OF UpsertInsert] sub in \<open>auto simp: staged_ok_def\<close>)
      then have "sound s" by (intro staged_ok_edit [OF ok staged]) (simp_all add: edit_ddl cat)
      moreover have "writes_ok cat ((tx_writes tx)\<lparr> ws_charged := n \<rparr>)" using ok cat by (simp add: staged_ok_def)
      ultimately show ?thesis using sub by (auto simp: upserting_def tx' cat stage_inserts_items)
    qed
    then show ?thesis
      unfolding apply_upsert_def UpsertInsert
      using ok by (auto intro!: triple_conseq [OF plain.stage_inserts_triple] simp: sess_def)
  next
    case UpsertUpdate
    have out: "upserting cat (node_name sch) staged_keys (seen @ [key]) s"
      if "plain.update_outcome env (node_name sch) items key tx (fst s)" and "sound s" for s items
      using that sub cat swf by (auto simp: upserting_def plain.update_outcome_def staged_by_def stage_update_pks)
    have upd: "triple (sess tx any) (execute_node_update env rl (node_name sch) items column key)
        (\<lambda>_ s. sound s \<and> plain.update_outcome env (node_name sch) items key tx (fst s)) sound" for items
    proof -
      have "triple (sess tx any) (execute_node_update env rl (node_name sch) items column key) (\<lambda>_. sound) sound"
        by (rule triple_conseq [OF update_sound]) (use ok in \<open>auto simp: sess_def\<close>)
      moreover have "triple (sess tx any) (execute_node_update env rl (node_name sch) items column key)
          (\<lambda>_ s. plain.update_outcome env (node_name sch) items key tx (fst s)) (\<lambda>_. True)"
        by (rule triple_conseq [OF plain.update_triple]) (auto simp: post_def)
      ultimately show ?thesis unfolding triple_def by (fastforce split: prod.splits sum.splits)
    qed
    show ?thesis
      unfolding apply_upsert_def UpsertUpdate prod.case upsert_action.case
      by (rule triple_check, use ok in \<open>force simp: sess_def\<close>, rule triple_conseq [OF upd]) (auto intro: out)
  qed
qed

lemma upsert_sound: "triple sound (execute_node_upsert env rl table rows) (\<lambda>_. sound) sound"
proof (rule sound_at)
  fix tx assume ok: "staged_ok tx"
  have E: "sound s" if "sess tx any s" for s using ok that by (auto simp: sess_def)
  show "triple (sess tx any) (execute_node_upsert env rl table rows) (\<lambda>_. sound) sound"
    unfolding execute_node_upsert_def
  proof (rule triple_with_sess, rule triple_check, erule E, rule triple_check_pair, erule E, rule triple_check, erule E, goal_cases)
    case (1 n sch c column keys)
    have sch: "sch \<in> set (cat_node_tables (tx_catalog tx))"
      using 1(1) by (auto simp: resolve_dml_table_def ok_or_eq_Inr intro: node_table_in)
    have c: "key_column sch = Some c" using 1(2) primary_key_column primary_key_position by metis
    have keys: "list_all2 (\<lambda>row key. validate_node_insert_row sch c row = Inr key) rows keys" using 1(3) by (simp add: rmapM_eq_Inr)
    let ?ins = "bt_items (ws_inserted_pks (tx_writes tx)) (node_name sch)"
    have plan: "triple (sess tx any) (resolve_upsert_actions env (node_name sch) keys)
        (\<lambda>actions s. sess tx any s \<and> upsert_plan (plain.absent env tx (node_name sch)) ?ins keys actions) sound"
      by (rule triple_conseq [OF plain.upsert_actions_triple]) (auto intro: E)
    show ?case
    proof (rule triple_bind [OF plan], rule triple_known)
      fix actions assume actions: "upsert_plan (plain.absent env tx (node_name sch)) ?ins keys actions"
      let ?items = "zip (zip rows keys) actions" and ?key = "\<lambda>item :: (row \<times> devon_value) \<times> upsert_action. snd (fst item)"
      let ?I = "\<lambda>seen (_ :: unit). upserting (tx_catalog tx) (node_name sch) ?ins (map ?key seen)"
      have len: "length rows = length keys" "length actions = length keys"
        using keys actions by (auto simp: list_all2_lengthD upsert_plan_def)
      have "triple (?I seen ()) (apply_upsert env rl sch c column item) (\<lambda>_. ?I (seen @ [item]) ()) sound"
        if items: "?items = seen @ item # rest" for seen item rest
      proof -
        have at: "length seen < length keys" "?items ! length seen = item" "take (length seen) ?items = seen"
          using items len by (auto simp: list_eq_iff_nth_eq nth_append)
        then have item: "item = ((rows ! length seen, keys ! length seen), actions ! length seen)" using len by simp
        have "map ?key seen = take (length seen) (map ?key ?items)" by (simp add: take_map at(3))
        also have "map ?key ?items = keys" using len by (intro nth_equalityI) simp_all
        finally have seen: "map ?key seen = take (length seen) keys" .
        show ?thesis
          using apply_upsert_triple [OF sch c, of "rows ! length seen" "keys ! length seen" "actions ! length seen" ?ins "map ?key seen"]
            at(1) keys len actions
          by (simp add: item seen list_all2_conv_all_nth upsert_plan_def)
      qed
      then have "triple (?I [] ()) (sfold (\<lambda>item _. apply_upsert env rl sch c column item) ?items ()) (?I ?items) sound"
        by (intro triple_fold_prefix [where I = ?I]) simp
      then show "triple (sess tx any) (sfold (\<lambda>item _. apply_upsert env rl sch c column item) ?items ()) (\<lambda>_. sound) sound"
        by (rule triple_conseq) (use ok in \<open>auto simp: upserting_def sess_def\<close>)
    qed
  qed
qed

section \<open>Dispatch\<close>

context cache_invariant
begin

lemma stage_ddl_triple:
  "triple (sess tx C) (stage_ddl rl op cat) (post (\<lambda>tx'. \<exists>n. tx' = tx\<lparr> tx_catalog := cat,
    tx_writes := (tx_writes tx)\<lparr> ws_charged := n, ws_ddl := ws_ddl (tx_writes tx) @ [op] \<rparr> \<rparr>) C) (sess tx C)"
proof -
  have "triple (sess tx C) (set_tx_catalog cat) (\<lambda>_. sess (tx\<lparr> tx_catalog := cat \<rparr>) C) (sess tx C)"
  proof (rule triple_set_catalog)
    fix tx' caches budget assume "sess tx C (tx', caches, budget)"
    then obtain n where "tx' = charge n tx" and C: "C caches" by (auto simp: sess_def)
    then have "tx'\<lparr> tx_catalog := cat \<rparr> = charge n (tx\<lparr> tx_catalog := cat \<rparr>)" by (simp add: charge_def)
    with C show "sess (tx\<lparr> tx_catalog := cat \<rparr>) C (tx'\<lparr> tx_catalog := cat \<rparr>, caches, budget)"
      by (auto simp: sess_def)
  qed
  moreover have "triple (sess (tx\<lparr> tx_catalog := cat \<rparr>) C) (modify_writes (\<lambda>w. w\<lparr> ws_ddl := ws_ddl w @ [op] \<rparr>))
    (post (\<lambda>tx'. \<exists>n. tx' = tx\<lparr> tx_catalog := cat,
      tx_writes := (tx_writes tx)\<lparr> ws_charged := n, ws_ddl := ws_ddl (tx_writes tx) @ [op] \<rparr> \<rparr>) C) (sess tx C)"
    by (rule triple_conseq [OF triple_stage]) (auto simp: post_def staged_by_def)
  ultimately show ?thesis
    unfolding stage_ddl_def
    by (intro triple_check triple_bind [OF charge_triple] triple_bind [of _ "set_tx_catalog cat"]) auto
qed

end

lemma create_sound:
  assumes "\<not> ontology_pending tx" "staged_ok tx"
  shows "triple (sess tx any) (execute_create_node_table rl name columns) (\<lambda>_. sound) sound"
    and "triple (sess tx any) (execute_create_rel_table rl rname src dst rcolumns) (\<lambda>_. sound) sound"
proof -
  have E: "sound s" if "sess tx any s" for s using assms(2) that by (auto simp: sess_def)
  have extend: "staged_ok tx'" if "apply_ddl op (tx_catalog tx) = Inr cat'" "tables_wf cat'" "writes_ok cat' (tx_writes tx)"
    "\<exists>n. tx' = tx\<lparr> tx_catalog := cat', tx_writes := (tx_writes tx)\<lparr> ws_charged := n, ws_ddl := ws_ddl (tx_writes tx) @ [op] \<rparr> \<rparr>"
    for op cat' tx'
    using that assms ddl_follows_extend [OF _ assms(1) that(1)] by (auto simp: staged_ok_def)
  show "triple (sess tx any) (execute_create_node_table rl name columns) (\<lambda>_. sound) sound"
    unfolding execute_create_node_table_def
  proof (rule triple_with_sess, rule triple_check, erule E, rule triple_check, erule E, rule triple_check, erule E, goal_cases)
    case (1 n sch u cat')
    then have ddl: "apply_ddl (OpCreateNodeTable sch) (tx_catalog tx) = Inr cat'" by simp
    have "tables_wf cat'" "writes_ok cat' (tx_writes tx)"
      using 1 assms(2) by (auto simp: staged_ok_def node_schema_new_iff intro: tables_wf_add_node writes_ok_add_node)
    from extend [OF ddl this] show ?case
      by (intro triple_conseq [OF plain.stage_ddl_triple]) (auto simp: post_def intro: E)
  qed
  show "triple (sess tx any) (execute_create_rel_table rl rname src dst rcolumns) (\<lambda>_. sound) sound"
    unfolding execute_create_rel_table_def
  proof (rule triple_with_sess, rule triple_check, erule E, rule triple_check, erule E, goal_cases)
    case (1 n sch cat')
    then have ddl: "apply_ddl (OpCreateRelTable sch) (tx_catalog tx) = Inr cat'" by simp
    have "tables_wf cat'" "writes_ok cat' (tx_writes tx)"
      using 1 assms(2) by (auto simp: staged_ok_def intro: tables_wf_add_rel writes_ok_add_rel)
    from extend [OF ddl this] show ?case
      by (intro triple_conseq [OF plain.stage_ddl_triple]) (auto simp: post_def intro: E)
  qed
qed

lemma metadata_same_tables:
  "declare_interface cat i = Inr cat' \<Longrightarrow> same_tables cat cat'" "declare_node_class cat nc = Inr cat' \<Longrightarrow> same_tables cat cat'"
  "declare_rel_class cat rc = Inr cat' \<Longrightarrow> same_tables cat cat'" "pin cat entry = Inr cat' \<Longrightarrow> same_tables cat cat'"
  "unpin cat name = Inr cat' \<Longrightarrow> same_tables cat cat'" "create_class cat table cc = Inr cat' \<Longrightarrow> same_tables cat cat'"
  by (auto simp: same_tables_def declare_interface_def declare_node_class_def declare_rel_class_def pin_def unpin_def
      create_class_def rbind_eq_Inr Let_def split: if_splits)

lemma set_catalog_sound:
  assumes "staged_ok tx" "same_tables (tx_catalog tx) cat"
  shows "triple (sess tx any) (set_tx_catalog cat) (\<lambda>_. sound) sound"
proof (rule triple_set_catalog)
  fix tx' caches budget assume "sess tx any (tx', caches, budget)"
  then obtain n where "tx' = charge n tx" by (auto simp: sess_def)
  then show "sound (tx'\<lparr> tx_catalog := cat \<rparr>, caches, budget)"
    using assms by (auto intro: staged_ok_metadata)
qed

lemma hnsw_sound: "triple sound (modify_writes (\<lambda>w. w\<lparr> ws_hnsw_create := True \<rparr>)) (\<lambda>_. sound) sound"
  by (rule triple_modify) (simp add: staged_ok_def ddl_follows_def)

text \<open>Insert statements carry rows.\<close>

fun statement_rows :: "'plan statement \<Rightarrow> bool" where
  "statement_rows (StmtInsertNode table rows) \<longleftrightarrow> rows \<noteq> []"
| "statement_rows (StmtInsertRel table rows) \<longleftrightarrow> rows \<noteq> []"
| "statement_rows _ \<longleftrightarrow> True"

lemma sound_start: "triple sound m (\<lambda>_. sound) sound \<Longrightarrow> staged_ok tx \<Longrightarrow> triple (sess tx any) m (\<lambda>_. sound) sound"
  by (erule triple_conseq) (auto simp: sess_def)

lemma statement_sound:
  assumes "statement_rows stmt" "staged_ok tx" "ontology_pending tx \<Longrightarrow> is_ontology_statement stmt"
  shows "triple (sess tx any) (execute_statement env rl se stmt) (\<lambda>_. sound) sound"
proof -
  have E: "sound s" if "sess tx any s" for s using assms(2) that by (auto simp: sess_def)
  note start = sound_start [OF _ assms(2)] and set_cat = set_catalog_sound [OF assms(2)]
  have err: "triple (sess tx any) (slift (Inl e)) (\<lambda>_. sound) sound" for e by (auto intro: triple_lift E)
  show ?thesis
  proof (cases stmt)
    case (StmtCreateNodeTable name columns)
    with assms(3) have "\<not> ontology_pending tx" by auto
    from create_sound(1) [OF this assms(2)] show ?thesis unfolding StmtCreateNodeTable execute_statement.simps .
  next
    case (StmtCreateRelTable name src dst columns)
    with assms(3) have "\<not> ontology_pending tx" by auto
    from create_sound(2) [OF this assms(2)] show ?thesis unfolding StmtCreateRelTable execute_statement.simps .
  next
    case (StmtCreateInterface name columns)
    show ?thesis
      unfolding StmtCreateInterface execute_statement.simps
      by (rule triple_with_sess) (auto intro!: triple_check set_cat metadata_same_tables(1) E)
  next
    case (StmtCreateClass table cc)
    show ?thesis
      unfolding StmtCreateClass execute_statement.simps execute_create_class_def
      by (rule triple_with_sess, rule triple_check, erule E, rule triple_with_sess)
        (auto intro!: triple_check set_cat metadata_same_tables(6) E)
  next
    case (StmtCreateHnswIndex name table column)
    show ?thesis
      unfolding StmtCreateHnswIndex execute_statement.simps
      by (rule triple_with_sess) (auto intro!: triple_check start hnsw_sound E)
  next
    case (StmtPinPlan name body plan)
    show ?thesis
      unfolding StmtPinPlan execute_statement.simps
      by (rule triple_with_sess) (auto intro!: triple_check set_cat E intro: metadata_same_tables(4) simp: rbind_eq_Inr)
  next
    case (StmtUnpinPlan name)
    show ?thesis
      unfolding StmtUnpinPlan execute_statement.simps
      by (rule triple_with_sess) (auto intro!: triple_check set_cat metadata_same_tables(5) E)
  qed (use assms(1) in \<open>auto intro: start insert_sound edges_sound upsert_sound update_sound delete_sound detach_sound err\<close>)
qed

lemma execute_sound:
  assumes "statement_rows stmt" "sound s"
  shows "sound (snd (execute_in_transaction env rl se stmt s))"
proof -
  have run: "triple (sess (fst s) any) (execute_transaction env rl se stmt) (\<lambda>_. sound) sound"
    unfolding execute_transaction_def
  proof (rule triple_with_sess, intro triple_if)
    have err: "triple (sess (fst s) any) (slift (Inl e)) (\<lambda>_. sound) sound" for e
      using assms(2) by (auto intro!: triple_lift simp: sess_def)
    show "triple (sess (fst s) any) (slift (Inl e)) (\<lambda>_. sound) sound"
      "triple (sess (fst s) any) (slift (Inl e')) (\<lambda>_. sound) sound"
      "triple (sess (fst s) any) (slift (Inl e'')) (\<lambda>_. sound) sound" for e e' e'' by (rule err)+
    fix n assume "\<not> (ontology_pending (charge n (fst s)) \<and> \<not> is_ontology_statement stmt)"
    then show "triple (sess (fst s) any) (execute_statement env rl se stmt) (\<lambda>_. sound) sound"
      using assms by (intro statement_sound) (auto simp: ontology_pending_def)
  qed
  have keep: "sound s'" if "execute_transaction env rl se stmt s = (res, s')" for res s'
    using tripleD [OF run that] sess_fst [of any] by (cases s; cases res) auto
  have poison: "staged_ok (tx\<lparr> tx_poisoned := p \<rparr>) = staged_ok tx" for tx p
    by (simp add: staged_ok_def ddl_follows_def)
  show ?thesis
    using keep assms(2) unfolding execute_in_transaction_def transaction_execute_def
    by (auto simp: poison split: option.splits prod.splits sum.splits devon_error.splits)
qed

text \<open>A transaction from its beginning: statements one after the other, whatever each returns.\<close>

definition run_statements ::
    "read_env \<Rightarrow> relief \<Rightarrow> 'plan statement_env \<Rightarrow> 'plan statement list \<Rightarrow> session \<Rightarrow> session" where
  "run_statements env rl se stmts s = fold (\<lambda>stmt s. snd (execute_in_transaction env rl se stmt s)) stmts s"

lemma staged_ok_new:
  assumes "tables_wf (ps_catalog state)"
  shows "staged_ok (transaction_new txn_id state)"
  using assms
  by (auto simp: staged_ok_def transaction_new_def write_set_default_def writes_ok_def ws_full_def full_map_def
      writes_named_def inserts_match_def bt_items_def ddl_follows_def apply_ddl_to_catalog_def same_tables_def)


definition sample_relief :: relief where
  "sample_relief = \<lparr> rl_shed_cache = \<lambda>_ b. b, rl_idle = \<lambda>_. (True, True), rl_shed_indexes = \<lambda>b. b,
     rl_checkpoint = \<lambda>b. (Inr (), b) \<rparr>"

definition sample_statement_env :: "unit statement_env" where
  "sample_statement_env = \<lparr> se_prepare_index = \<lambda>_ _ _ _. Inr (), se_pin_json = \<lambda>_ _. Inl (Corrupt ''no plan'') \<rparr>"

definition empty_state :: published_state where
  "empty_state = \<lparr> ps_catalog = catalog_default, ps_chain = None, ps_last_commit_lsn = 0,
     ps_catalog_generation = 0, ps_recent_summaries = [] \<rparr>"

definition sample_statements :: "unit statement list" where
  "sample_statements =
    [StmtCreateNodeTable ''t'' [\<lparr> scol_name = ''id'', scol_ty = TInt64, scol_primary_key = True \<rparr>],
     StmtInsertNode ''T'' [[VInt64 1], [VInt64 2]], StmtInsertNode ''t'' [[VInt64 2]],
     StmtDeleteNode ''t'' ''ID'' (VInt64 1)]"


text \<open>
  An insert without rows is accepted and creates the entry of its table, so that the write set is not
  empty although it has nothing to write.
\<close>

lemma empty_insert_leaves_entry:
  "\<exists>s. execute_in_transaction sample_env sample_relief sample_statement_env (StmtInsertNode ''T'' [])
      (transaction_new 0 (empty_state\<lparr> ps_catalog := sample_read_catalog \<rparr>), \<lambda>_. cache_default, budget_new 4096) = (Inr (), s) \<and>
    ws_nodes (tx_writes (fst s)) = [(''T'', [])] \<and> \<not> staged_ok (fst s)"
proof -
  let ?tx = "transaction_new 0 (empty_state\<lparr> ps_catalog := sample_read_catalog \<rparr>)"
  have table: "node_table sample_read_catalog ''T'' = Some sample_node_schema" "primary_key sample_node_schema = Inr (0, scol_name (node_columns sample_node_schema ! 0))"
    "node_name sample_node_schema = ''T''" by code_simp+
  have tx: "tx_catalog ?tx = sample_read_catalog" "tx_writes ?tx = write_set_default"
    by (simp_all add: transaction_new_def)
  obtain n where bytes: "node_insert_bytes write_set_default ''T'' [] [] = Inr n" "n \<le> 4096"
  proof (rule that)
    show "node_insert_bytes write_set_default ''T'' [] [] = Inr 130"
      by (simp add: node_insert_bytes_def checked_accumulate_def checked_add_usize_def ws_estimate_values_def
          estimate_map_entry_def MAP_ENTRY_OVERHEAD_BYTES_def write_set_default_def)
  qed simp
  have writes: "ws_hnsw_create write_set_default = False" "ws_charged write_set_default = 0" "ws_nodes (stage_inserts ''T'' [] [] (write_set_default\<lparr> ws_charged := m \<rparr>)) = [(''T'', [])]" for m
    by (simp_all add: write_set_default_def stage_inserts_def bt_entry_def)
  have calm: "poison_error ?tx = None" "\<not> ontology_pending ?tx" "\<not> pins_pending ?tx"
    by (simp_all add: poison_error_def ontology_pending_def pins_pending_def transaction_new_def)
  have charge: "try_charge (budget_new 4096) n = (True, (budget_new 4096)\<lparr> mb_charged := n \<rparr>)"
    "checked_add_usize 0 n = Some n"
    using bytes(2) by (simp_all add: try_charge_def charge_attempt_def checked_add_usize_def budget_new_def)
  show ?thesis
    by (simp add: execute_in_transaction_def transaction_execute_def execute_transaction_def execute_node_insert_def
        stage_node_inserts_def charge_write_set_def try_charge_write_set_def with_tx_def sbind_def slift_def
        modify_writes_def resolve_dml_table_def tx table bytes writes calm charge
        staged_ok_def writes_ok_def ws_full_def full_map_def)
qed

end
