(* ===== verification/NodeOffsets.thy ===== *)
theory NodeOffsets
  imports ReadView
begin

text \<open>
  Offsets of nodes: what resolving a primary key to its physical offset returns. Checkpointed rows
  come first, then the insert slots of the overlay, deleted ones included, then the own inserts of
  the transaction; edges store these offsets, so they have to name nodes uniquely.
\<close>

section \<open>Positions\<close>

abbreviation slot_has_key :: "nat \<Rightarrow> pk_key \<Rightarrow> row option \<Rightarrow> bool" where
  "slot_has_key c k slot \<equiv> (\<exists>r. slot = Some r \<and> row_key c r = Some k)"

definition node_position ::
    "nat \<Rightarrow> row list \<Rightarrow> row option list \<Rightarrow> row list \<Rightarrow> pk_key \<Rightarrow> nat option" where
  "node_position c stored slots own k =
    (case position (\<lambda>r. row_key c r = Some k) own of
       Some p \<Rightarrow> Some (length stored + length slots + p)
     | None \<Rightarrow>
         (case position (slot_has_key c k) slots of
            Some p \<Rightarrow> Some (length stored + p)
          | None \<Rightarrow> position (\<lambda>r. row_key c r = Some k) stored))"

lemma position_lt: "position P xs = Some i \<Longrightarrow> i < length xs"
  by (simp add: position_eq_Some)

lemma position_key_inj:
  assumes "position (\<lambda>r. f r = Some k) xs = Some i" "position (\<lambda>r. f r = Some k') xs = Some i"
  shows "k = k'"
  using assms by (simp add: position_eq_Some)

lemma node_position_inj:
  assumes "node_position c stored slots own k = Some n" "node_position c stored slots own k' = Some n"
  shows "k = k'"
proof -
  have slots: "k = k'" if "position (slot_has_key c k) slots = Some i" "position (slot_has_key c k') slots = Some i" for i
    using that by (auto simp: position_eq_Some)
  show ?thesis
    using assms position_lt [of _ stored] position_lt [of _ slots]
    by (fastforce simp: node_position_def split: option.splits dest: position_key_inj slots)
qed

lemma node_position_lt:
  "node_position c stored slots own k = Some n \<Longrightarrow> n < length stored + length slots + length own"
  by (fastforce simp: node_position_def dest: position_lt split: option.splits)

section \<open>The parts of the resolution\<close>

lemma overlay_index_loop:
  assumes "\<And>r. Some r \<in> set slots \<Longrightarrow> row_key c r \<noteq> None" and "start + length slots < 2 ^ 64"
  shows "rfold (overlay_index_step c) (enumerate start slots) (positions, start) =
    Inr (\<lambda>k. case positions k of Some p \<Rightarrow> Some p
      | None \<Rightarrow> map_option (\<lambda>i. start + i) (position (slot_has_key c k) slots), start + length slots)"
  using assms
proof (induction slots arbitrary: start positions)
  case Nil
  show ?case by (auto simp: fun_eq_iff split: option.split)
next
  case (Cons slot slots)
  have count: "checked_add_usize start 1 = Some (Suc start)"
    using Cons.prems(2) by (simp add: checked_add_usize_def)
  have IH: "rfold (overlay_index_step c) (enumerate (Suc start) slots) (p, Suc start) =
    Inr (\<lambda>k. case p k of Some p \<Rightarrow> Some p
      | None \<Rightarrow> map_option (\<lambda>i. Suc start + i) (position (slot_has_key c k) slots), Suc start + length slots)" for p
    by (rule Cons.IH) (use Cons.prems in auto)
  have shift: "map_option ((+) (Suc start)) x = map_option ((+) start) (map_option Suc x)" for x
    by (cases x) simp_all
  show ?case
  proof (cases slot)
    case None
    have "position (slot_has_key c k) (slot # slots) = map_option Suc (position (slot_has_key c k) slots)" for k
      by (simp add: None)
    with None IH [of positions] count show ?thesis
      by (simp add: overlay_index_step_def shift fun_eq_iff split: option.split)
  next
    case (Some r)
    obtain k where k: "row_key c r = Some k" using Cons.prems(1) Some by auto
    then have "key_from_row r c = Inr k" by (simp add: key_from_row_iff)
    with Some k IH [of "if positions k = None then positions(k \<mapsto> start) else positions"] count
    show ?thesis by (auto simp: overlay_index_step_def shift fun_eq_iff split: option.split)
  qed
qed

lemma checkpointed_row_count_eq:
  assumes "list_all2 (\<lambda>gid rows. re_store env gid = Inr rows) (stored_group_ids (rv_catalog view) (node_name sch)) gs"
    and "length (concat gs) < 2 ^ 64"
  shows "checkpointed_row_count env view sch = Inr (of_nat (length (concat gs)))"
proof -
  have "rfold (\<lambda>group_id count.
      rbind (map_err (\<lambda>_. Corrupt ''node table {} group {} has invalid metadata: {}'') (re_store env group_id)) (\<lambda>rows.
      rbind (ok_or (Corrupt ''node table {} group row count exceeds u64::MAX'') (u64_try_from (length rows))) (\<lambda>n.
      ok_or (Corrupt ''checkpointed row count for node table {} exceeds u64::MAX'') (checked_add_word count n))))
      gids (of_nat start :: u64) = Inr (of_nat (start + length (concat gs)))"
    if "list_all2 (\<lambda>gid rows. re_store env gid = Inr rows) gids gs" "start + length (concat gs) < 2 ^ 64"
    for gids gs start
    using that
  proof (induction arbitrary: start rule: list_all2_induct)
    case (Cons gid gids rows gs)
    have "checked_add_word (of_nat start :: u64) (of_nat (length rows)) = Some (of_nat (start + length rows))"
      using Cons.prems by (simp add: checked_add_word_def unat_of_nat take_bit_nat_eq_self_iff)
    with Cons show ?case by (simp add: u64_try_from_def add.assoc del: of_nat_add)
  qed simp
  from this [OF assms(1), of 0] assms(2) show ?thesis by (simp add: checkpointed_row_count_def)
qed

lemma no_deletes_no_tombstones:
  assumes "node_dml_effects head table c = Inr eff"
    and "\<not> list_ex (\<lambda>link. bt_get (delta_node_deletes (link_delta link)) table \<noteq> None) (commit_links_oldest_first head)"
  shows "eff_tombstones eff = {}"
proof -
  have upd: "eff_tombstones e' = {}" if "rfold (effects_update c) rows e = Inr e'" "eff_tombstones e = {}" for rows e e'
    using that by (rule rfold_invariant) (auto simp: effects_update_def rbind_eq_Inr)
  have ins: "eff_tombstones e' = {}" if "rfold (effects_insert c) rows e = Inr e'" "eff_tombstones e = {}" for rows e e'
    using that by (rule rfold_invariant) (auto simp: effects_insert_def rbind_eq_Inr)
  show ?thesis
    using assms(1) unfolding node_dml_effects_def
  proof (rule rfold_invariant)
    show "eff_tombstones no_effects = {}" by (simp add: no_effects_def)
    show "eff_tombstones e' = {}" if "link \<in> set (commit_links_oldest_first head)" "eff_tombstones e = {}"
      "effects_of_link table c (link_delta link) e = Inr e'" for link e e'
    proof -
      have "bt_items (delta_node_deletes (link_delta link)) table = []"
        using assms(2) that(1) by (auto simp: list_ex_iff bt_items_def)
      with that(2,3) upd ins show ?thesis
        by (auto simp: effects_of_link_def rbind_eq_Inr)
    qed
  qed
qed

section \<open>Resolving a key\<close>

text \<open>Updates name rows that exist: a committed one a stored or live row, an own one a visible row.\<close>

definition updates_grounded :: "read_view \<Rightarrow> string \<Rightarrow> nat \<Rightarrow> row list list \<Rightarrow> bool" where
  "updates_grounded view table c gs \<longleftrightarrow>
    (\<forall>eff. node_dml_effects (ps_chain (rv_state view)) table c = Inr eff \<longrightarrow>
      (\<forall>k. bt_get (eff_updates eff) k \<noteq> None \<longrightarrow> k \<in> keys_of c (concat gs) \<or>
        k \<in> keys_of c (node_rows_oldest_first (ps_chain (rv_state view)) table c))) \<and>
    (\<forall>own. rv_own view = Some own \<longrightarrow>
      (\<forall>k \<in> keys_of c (bt_items (delta_node_updates own) table).
        spec_chain table c (ps_chain (rv_state view)) (lookup_row c (concat gs)) k \<noteq> None))"

abbreviation own_inserts :: "read_view \<Rightarrow> string \<Rightarrow> row list" where
  "own_inserts view table \<equiv>
    (case rv_own view of None \<Rightarrow> [] | Some own \<Rightarrow> bt_items (delta_nodes own) table)"

abbreviation view_slots :: "read_view \<Rightarrow> string \<Rightarrow> nat \<Rightarrow> row option list" where
  "view_slots view table c \<equiv> effective_node_rows (ps_chain (rv_state view)) table c"

lemma slots_position_None:
  "position (slot_has_key c k) slots = None \<longleftrightarrow> (\<forall>r. Some r \<in> set slots \<longrightarrow> row_key c r \<noteq> Some k)"
  by (induction slots) auto

lemma position_None: "position P xs = None \<longleftrightarrow> (\<forall>x \<in> set xs. \<not> P x)"
  by (induction xs) auto

lemma position_keys: "position (\<lambda>r. row_key c r = Some k) rows = None \<longleftrightarrow> k \<notin> keys_of c rows"
  unfolding position_None keys_of_def by blast

lemma untouched_slots:
  assumes "\<forall>link \<in> set (commit_links_oldest_first head).
      bt_items (delta_nodes (link_delta link)) table = [] \<and>
      bt_items (delta_node_updates (link_delta link)) table = [] \<and>
      bt_items (delta_node_deletes (link_delta link)) table = []"
  shows "effective_node_rows head table c = []"
proof -
  have "fold (\<lambda>link. slots_of_link table c (link_delta link)) links ([], []) = ([], [])"
    if "\<forall>link \<in> set links. bt_items (delta_nodes (link_delta link)) table = [] \<and>
      bt_items (delta_node_updates (link_delta link)) table = [] \<and>
      bt_items (delta_node_deletes (link_delta link)) table = []" for links
    using that by (induction links) (simp_all add: slots_of_link_def)
  from this [OF assms] show ?thesis by (simp add: effective_node_rows_def)
qed

lemma overlay_key_position_eq:
  assumes ok: "view_ok env view sch c gs cache"
    and bound: "length (view_slots view (node_name sch) c) < 2 ^ 64"
  shows "overlay_key_position view (node_name sch) c k =
    Inr (position (slot_has_key c k) (view_slots view (node_name sch) c), length (view_slots view (node_name sch) c))"
proof (cases "node_table (ps_catalog (rv_state view)) (node_name sch)")
  case None
  with ok have "view_slots view (node_name sch) x = []" for x
    by (auto simp: view_ok_def intro: untouched_slots)
  then show ?thesis
    by (simp add: overlay_key_position_def build_overlay_key_index_def node_slots_oldest_first_def)
next
  case (Some sch')
  then have c: "state_primary_key_column (rv_state view) (node_name sch) = Some c"
    using ok by (auto simp: view_ok_def state_primary_key_column_def)
  from ok obtain eff where "node_dml_effects (ps_chain (rv_state view)) (node_name sch) c = Inr eff"
    by (auto simp: view_ok_def)
  note keyed = overlay_live_rows(4) [OF this]
  have plus0: "map_option ((+) 0) x = x" for x :: "nat option" by (cases x) simp_all
  from overlay_index_loop [of "view_slots view (node_name sch) c" c 0 Map.empty] keyed bound
  have "build_overlay_key_index view (node_name sch) c =
      Inr (\<lambda>k. position (slot_has_key c k) (view_slots view (node_name sch) c), length (view_slots view (node_name sch) c))"
    by (simp add: build_overlay_key_index_def c node_slots_oldest_first_def plus0)
  then show ?thesis by (simp add: overlay_key_position_def)
qed

lemma resolve_checkpointed_eq:
  assumes ok: "view_ok env view sch c gs cache" and key: "pk_try_from key = Inr k"
    and res: "resolve_checkpointed_node_key env view sch c key (cache, budget) = (res, st')"
  shows "res = Inr (map_option of_nat (position (\<lambda>r. row_key c r = Some k) (concat gs)))"
proof (cases "node_table (ps_catalog (rv_state view)) (node_name sch)")
  case None
  with ok res show ?thesis by (simp add: resolve_checkpointed_node_key_def view_ok_def)
next
  case (Some sch')
  let ?gids = "stored_group_ids (rv_catalog view) (node_name sch)"
  from ok Some have same: "sch' = sch" "stored_group_ids (ps_catalog (rv_state view)) (node_name sch) = ?gids"
    and c: "position scol_primary_key (node_columns sch) = Some c"
    and gs: "list_all2 (\<lambda>gid rows. re_store env gid = Inr rows) ?gids gs" "length (concat gs) < 2 ^ 64"
      "keyed_rows c (concat gs)"
    and cok: "cache_ok (re_store env) c ?gids gs cache"
    by (auto simp: view_ok_def)
  have key': "is_key key" using key by (simp add: is_key_def)
  have at: "c < length row \<and> (row ! c = key \<longleftrightarrow> row_key c row = Some k)" if "row \<in> set (concat gs)" for row
  proof -
    have "row_key c row \<noteq> None" using gs(3) that by (auto simp: keyed_rows_def list_all_iff)
    then have "c < length row" "slice_get row c = Some (row ! c)"
      by (auto simp: optional_row_pk_def slice_get_def split: if_splits)
    then show ?thesis using slice_get_is_key [OF key, of row c] by simp
  qed
  have wide: "\<forall>row \<in> set (concat gs). c < length row" using at by blast
  have "scan_checkpointed_node_key (re_store env) c key ?gids =
      Inr (first_offset 0 (key_column_of c gs) key)"
    using scan_loop_offset [OF gs(1), of 0 c key] gs(2) wide by (simp add: scan_checkpointed_node_key_def)
  also have "first_offset 0 (key_column_of c gs) key =
      map_option of_nat (position (\<lambda>r. row_key c r = Some k) (concat gs))"
    unfolding first_offset_def position_map add_0 using at
    by (intro arg_cong2 [where f = map_option] position_cong) auto
  finally have scan: "scan_checkpointed_node_key (re_store env) c key ?gids =
      Inr (map_option of_nat (position (\<lambda>r. row_key c r = Some k) (concat gs)))" .
  obtain r cache1 b1 where look: "lookup_offset (re_reclaim env) (re_reserve env) (re_store env) sch ?gids key
      (cache, budget) = (r, cache1, b1)" by (metis prod_cases3)
  obtain r0 cache0 b0 where ens: "ensure_pk_index (re_reclaim env) (re_reserve env) (re_store env) sch ?gids
      (cache, budget) = (r0, cache0, b0)" by (metis prod_cases3)
  have "pc_index cache0 \<noteq> Unbuilt" by (rule ensure_pk_index_total [OF gs(1,2) c ens])
  moreover have "r0 = Inr ()" using ensure_pk_index_ok(3) [OF ens cok c gs(1)] calculation by simp
  ultimately have "(\<exists>off. r = Inr (Indexed off)) \<or> r = Inr Unavailable"
    using look ens by (auto simp: lookup_offset_def split: pk_index_state.splits)
  then show ?thesis
  proof
    assume "\<exists>off. r = Inr (Indexed off)"
    then obtain off where r: "r = Inr (Indexed off)" by blast
    with lookup_offset_matches_scan [OF gs(1) c wide cok key'] look scan have
      "off = map_option of_nat (position (\<lambda>r. row_key c r = Some k) (concat gs))" by fastforce
    with r res look Some same show ?thesis by (auto simp: resolve_checkpointed_node_key_def)
  next
    assume "r = Inr Unavailable"
    with res look Some same scan show ?thesis by (auto simp: resolve_checkpointed_node_key_def)
  qed
qed

lemma lookup_row_rev_None: "lookup_row c (rev rows) k = None \<longleftrightarrow> k \<notin> keys_of c rows"
  by (simp add: lookup_row_None keys_of_def)

text \<open>Whether the delete check of the resolution fires, and what the view holds when it does not.\<close>

lemma deleted_check_eq:
  assumes ok: "view_ok env view sch c gs cache"
    and eff: "node_dml_effects (ps_chain (rv_state view)) (node_name sch) c = Inr eff"
    and fresh: "k \<notin> keys_of c (own_inserts view (node_name sch))"
  shows "(if view_has_node_deletes view (node_name sch)
      then rbind (visible_dml_effects view sch) (\<lambda>visible. Inr (visible k = Some VisibleDelete))
      else Inr False) =
    Inr (case rv_own view of
        None \<Rightarrow> k \<in> eff_tombstones eff
      | Some own \<Rightarrow> k \<in> delete_keys (bt_items (delta_node_deletes own) (node_name sch)) \<or>
          k \<notin> keys_of c (bt_items (delta_node_updates own) (node_name sch)) \<and> k \<in> eff_tombstones eff)"
proof -
  let ?T = "node_name sch"
  note vis = visible_dml_effects_eq [OF ok eff, unfolded Let_def]
  have quiet: "eff_tombstones eff = {}" if "\<not> view_has_node_deletes view ?T"
    using no_deletes_no_tombstones [OF eff] that by (simp add: view_has_node_deletes_def)
  have none: "bt_items (delta_node_deletes own) ?T = []"
    if "\<not> view_has_node_deletes view ?T" "rv_own view = Some own" for own
    using that by (simp add: view_has_node_deletes_def bt_items_def)
  show ?thesis
  proof (cases "rv_own view")
    case None
    with vis quiet show ?thesis by (simp split: option.split)
  next
    case (Some own)
    have "own_ok c ?T own" using ok Some by (simp add: view_ok_def)
    note applied = apply_own_dml_effects_eq [OF this]
    have "(case lookup_row c (rev rows) k of Some r \<Rightarrow> Some (VisibleUpdate r)
        | None \<Rightarrow> if P then Some VisibleDelete else map_option VisibleUpdate x) = Some VisibleDelete \<longleftrightarrow>
        k \<notin> keys_of c rows \<and> P" for rows P x
      unfolding lookup_row_rev_None [symmetric] by (auto split: option.split)
    with Some fresh vis quiet none [OF _ Some] show ?thesis
      by (simp add: applied delete_keys_def)
  qed
qed

lemma view_table_position:
  assumes ok: "view_ok env view sch c gs cache"
    and grounded: "updates_grounded view (node_name sch) c gs"
    and eff: "node_dml_effects (ps_chain (rv_state view)) (node_name sch) c = Inr eff"
    and fresh: "k \<notin> keys_of c (own_inserts view (node_name sch))"
  shows "view_table view (node_name sch) c (lookup_row c (concat gs)) k = None \<longleftrightarrow>
    (case rv_own view of
        None \<Rightarrow> k \<in> eff_tombstones eff
      | Some own \<Rightarrow> k \<in> delete_keys (bt_items (delta_node_deletes own) (node_name sch)) \<or>
          k \<notin> keys_of c (bt_items (delta_node_updates own) (node_name sch)) \<and> k \<in> eff_tombstones eff) \<or>
    k \<notin> keys_of c (node_rows_oldest_first (ps_chain (rv_state view)) (node_name sch) c) \<and>
    k \<notin> keys_of c (concat gs)"
proof -
  let ?T = "node_name sch" and ?head = "ps_chain (rv_state view)" and ?base = "lookup_row c (concat gs)"
  have "represents_at (?base k) (lookup_row c (node_rows_oldest_first ?head ?T c) k)
      (k \<in> eff_tombstones eff) (bt_get (eff_updates eff) k) (spec_chain ?T c ?head ?base k)"
    unfolding lookup_row_def [of c "node_rows_oldest_first ?head ?T c"] by (rule overlay_live_rows(2) [OF eff])
  moreover have "k \<in> keys_of c (concat gs) \<or> k \<in> keys_of c (node_rows_oldest_first ?head ?T c)"
    if "bt_get (eff_updates eff) k \<noteq> None"
    using grounded eff that by (auto simp: updates_grounded_def)
  then have "lookup_row c (concat gs) k \<noteq> None \<or> lookup_row c (node_rows_oldest_first ?head ?T c) k \<noteq> None"
    if "bt_get (eff_updates eff) k \<noteq> None"
    using that by (simp only: lookup_row_None simp_thms)
  ultimately have chain: "spec_chain ?T c ?head ?base k = None \<longleftrightarrow> k \<in> eff_tombstones eff \<or>
      k \<notin> keys_of c (node_rows_oldest_first ?head ?T c) \<and> k \<notin> keys_of c (concat gs)"
    unfolding lookup_row_None [symmetric] by (auto simp: represents_at_def split: option.splits if_splits)
  show ?thesis
  proof (cases "rv_own view")
    case None
    with chain show ?thesis by (simp add: view_table_def)
  next
    case (Some own)
    have "spec_chain ?T c ?head ?base k \<noteq> None"
      if "k \<in> keys_of c (bt_items (delta_node_updates own) ?T)"
      using grounded Some that by (auto simp: updates_grounded_def)
    with Some fresh chain lookup_row_rev_None [of c "bt_items (delta_nodes own) ?T" k]
      lookup_row_rev_None [of c "bt_items (delta_node_updates own) ?T" k]
    show ?thesis by (auto simp: view_table_def spec_delta_at split: option.splits)
  qed
qed

lemma node_offset_eq:
  "a + p < 2 ^ 64 \<Longrightarrow> node_offset (of_nat a) p = Inr (of_nat (a + p))"
  by (simp add: node_offset_def unat_of_nat take_bit_nat_eq_self_iff)

lemma slot_keys:
  "position (slot_has_key c k) (effective_node_rows head table c) = None \<longleftrightarrow>
    k \<notin> keys_of c (node_rows_oldest_first head table c)"
  by (auto simp: slots_position_None keys_of_def set_node_rows)

lemma resolve_node_key_eq:
  assumes ok: "view_ok env view sch c gs cache" and grounded: "updates_grounded view (node_name sch) c gs"
    and table: "node_table (rv_catalog view) table = Some sch"
    and query: "key_from_query sch c key = Inr k"
    and bound: "length (concat gs) + length (view_slots view (node_name sch) c) +
      length (own_inserts view (node_name sch)) < 2 ^ 64"
  shows "fst (resolve_node_key env view table key (cache, budget)) =
    (if view_table view (node_name sch) c (lookup_row c (concat gs)) k = None then Inl missing_node_key
     else Inr (of_nat (the (node_position c (concat gs) (view_slots view (node_name sch) c)
       (own_inserts view (node_name sch)) k))))"
proof -
  let ?T = "node_name sch"
  let ?slots = "view_slots view ?T c" and ?own = "own_inserts view ?T"
  from ok obtain eff where eff: "node_dml_effects (ps_chain (rv_state view)) ?T c = Inr eff"
    by (auto simp: view_ok_def)
  have pk: "primary_key sch = Inr (c, scol_name (node_columns sch ! c))"
    and gs: "list_all2 (\<lambda>gid rows. re_store env gid = Inr rows) (stored_group_ids (rv_catalog view) ?T) gs"
      "length (concat gs) < 2 ^ 64"
    using ok by (simp_all add: view_ok_def primary_key_def)
  note key = key_from_query_key [OF query]
  have "length ?slots < 2 ^ 64" using bound by linarith
  note head = overlay_key_position_eq [OF ok this, of k] checkpointed_row_count_eq [OF gs] pk query
  have own: "own_row_position view ?T c key = position (\<lambda>r. row_key c r = Some k) ?own"
    by (simp add: own_row_position_def slice_get_is_key [OF key] bt_items_def split: option.split)
  show ?thesis
  proof (cases "position (\<lambda>r. row_key c r = Some k) ?own")
    case (Some p)
    note p = position_eq_Some [THEN iffD1, OF Some]
    then have "?own ! p \<in> set ?own" "row_key c (?own ! p) = Some k" by (simp_all only: nth_mem)
    then have "k \<in> keys_of c ?own" unfolding keys_of_def by blast
    then have "lookup_row c (rev ?own) k \<noteq> None" by (simp add: lookup_row_rev_None)
    then have "view_table view ?T c (lookup_row c (concat gs)) k \<noteq> None"
      by (auto simp: view_table_def spec_delta_at lookup_row_def split: option.splits)
    moreover have small: "length (concat gs) + (length ?slots + p) < 2 ^ 64" using p bound by linarith
    moreover from small have "checked_add_usize (length ?slots) p = Some (length ?slots + p)"
      by (simp add: checked_add_usize_def)
    moreover note node_offset_eq [OF small]
    ultimately show ?thesis
      using Some own head by (simp add: resolve_node_key_def table node_position_def add.assoc)
  next
    case None
    then have fresh: "k \<notin> keys_of c ?own" by (rule position_keys [THEN iffD1])
    obtain r st' where ck: "resolve_checkpointed_node_key env view sch c key (cache, budget) = (r, st')"
      by (metis surj_pair)
    have r: "r = Inr (map_option of_nat (position (\<lambda>r. row_key c r = Some k) (concat gs)))"
      by (rule resolve_checkpointed_eq [OF ok key ck])
    have stored: "k \<notin> keys_of c (concat gs) \<longleftrightarrow> position (\<lambda>r. row_key c r = Some k) (concat gs) = None"
      by (simp only: position_keys)
    have offset: "node_offset (of_nat (length (concat gs))) p = Inr (of_nat (length (concat gs) + p))"
      if "position (slot_has_key c k) ?slots = Some p" for p
      using position_lt [OF that] bound by (intro node_offset_eq) linarith
    note gone = deleted_check_eq [OF ok eff fresh]
    note shown = view_table_position [OF ok grounded eff fresh, folded slot_keys, unfolded stored]
    show ?thesis
      using offset None own head gone shown ck r
      by (auto simp: resolve_node_key_def table node_position_def split: option.splits bool.splits)
  qed
qed

lemma node_position_visible:
  assumes ok: "view_ok env view sch c gs cache" and grounded: "updates_grounded view (node_name sch) c gs"
    and shown: "view_table view (node_name sch) c (lookup_row c (concat gs)) k \<noteq> None"
  shows "node_position c (concat gs) (view_slots view (node_name sch) c) (own_inserts view (node_name sch)) k \<noteq> None"
proof (cases "k \<in> keys_of c (own_inserts view (node_name sch))")
  case True
  then obtain p where "position (\<lambda>r. row_key c r = Some k) (own_inserts view (node_name sch)) = Some p"
    using position_keys [of c k "own_inserts view (node_name sch)"] by blast
  then show ?thesis by (simp add: node_position_def)
next
  case False
  from ok obtain eff where "node_dml_effects (ps_chain (rv_state view)) (node_name sch) c = Inr eff"
    by (auto simp: view_ok_def)
  from view_table_position [OF ok grounded this False] shown
  have "k \<in> keys_of c (node_rows_oldest_first (ps_chain (rv_state view)) (node_name sch) c) \<or> k \<in> keys_of c (concat gs)"
    by blast
  then have "position (slot_has_key c k) (view_slots view (node_name sch) c) \<noteq> None \<or>
      position (\<lambda>r. row_key c r = Some k) (concat gs) \<noteq> None"
    unfolding slot_keys position_keys by simp
  then show ?thesis by (auto simp: node_position_def split: option.split)
qed

text \<open>
  C22. The offset of a node names it: on a sound view whose updates name existing rows, resolving a
  key to its offset succeeds exactly when the view has a row for it and otherwise reports the missing
  key, and two keys get the same offset only if they are the same key, wherever their rows are: in
  checkpointed groups, in the overlay, deleted slots included, or among the own inserts.
\<close>

theorem offsets_identify_nodes:
  assumes "view_ok env view sch c gs cache" and "updates_grounded view (node_name sch) c gs"
    and "node_table (rv_catalog view) table = Some sch"
    and "length (concat gs) + length (view_slots view (node_name sch) c) +
      length (own_inserts view (node_name sch)) < 2 ^ 64"
    and "key_from_query sch c key = Inr k" and "key_from_query sch c key' = Inr k'"
  shows "view_table view (node_name sch) c (lookup_row c (concat gs)) k = None \<and>
      fst (resolve_node_key env view table key (cache, budget)) = Inl missing_node_key \<or>
    view_table view (node_name sch) c (lookup_row c (concat gs)) k \<noteq> None \<and>
      (\<exists>offset. fst (resolve_node_key env view table key (cache, budget)) = Inr offset \<and>
        (fst (resolve_node_key env view table key' (cache, budget')) = Inr offset \<longrightarrow> key' = key))"
proof -
  let ?pos = "node_position c (concat gs) (view_slots view (node_name sch) c) (own_inserts view (node_name sch))"
  let ?view = "view_table view (node_name sch) c (lookup_row c (concat gs))"
  note eq = resolve_node_key_eq [OF assms(1,2,3) _ assms(4)]
  have "k' = k" if "?view k \<noteq> None" "?view k' \<noteq> None"
    "of_nat (the (?pos k')) = (of_nat (the (?pos k)) :: u64)"
  proof -
    from that node_position_visible [OF assms(1,2)]
    obtain n n' where n: "?pos k = Some n" "?pos k' = Some n'" by blast
    with node_position_lt assms(4) have "n < 2 ^ 64" "n' < 2 ^ 64" by (meson less_trans)+
    with that(3) n have "n' = n" by (simp add: word_of_nat_eq_iff take_bit_nat_eq_self)
    with n node_position_inj show ?thesis by metis
  qed
  moreover have "key' = key" if "k' = k"
    using that pk_try_from_inj [OF key_from_query_key [OF assms(5)], of key'] key_from_query_key [OF assms(6)]
    by simp
  ultimately show ?thesis
    unfolding eq [OF assms(5)] eq [OF assms(6)] by (auto split: if_splits)
qed

theorem offsets_identify_nodes_witness:
  "fst (resolve_node_key sample_env sample_view ''t'' (VInt64 2) (cache_default, budget_new 4096)) =
      Inl missing_node_key"
proof -
  have table: "node_table (rv_catalog sample_view) ''t'' = Some sample_node_schema"
    and query: "key_from_query sample_node_schema 0 (VInt64 2) = Inr (PkInt64 2)"
    "key_from_query sample_node_schema 0 (VInt64 4) = Inr (PkInt64 4)" by code_simp+
  have "view_table sample_view (node_name sample_node_schema) 0
      (lookup_row 0 (concat [[[VInt64 3, VString ''z''], [VInt64 4, VString ''y'']]])) (PkInt64 2) = None"
    by (simp add: view_table_def sample_view_def spec_delta_at sample_node_schema_def delta_default_def
        bt_items_def bt_get_def lookup_row_def delete_keys_def Let_def)
  moreover have "updates_grounded sample_view (node_name sample_node_schema) 0
      [[[VInt64 3, VString ''z''], [VInt64 4, VString ''y'']]]"
  proof -
    have "[VInt64 2, VString ''c''] \<in> set (node_rows_oldest_first sample_chain ''T'' 0)"
      "row_key 0 [VInt64 2, VString ''c''] = Some (PkInt64 2)" by code_simp+
    then have "PkInt64 2 \<in> keys_of 0 (node_rows_oldest_first sample_chain ''T'' 0)"
      unfolding keys_of_def by blast
    then show ?thesis
      by (simp add: updates_grounded_def sample_view_def sample_node_schema_def sample_effects bt_get_def
          bt_items_def delta_default_def keys_of_def [of _ "[]"])
  qed
  moreover have "length (view_slots sample_view (node_name sample_node_schema) 0) = 2"
    and "own_inserts sample_view (node_name sample_node_schema) = []" by code_simp+
  ultimately show ?thesis
    using offsets_identify_nodes [OF sample_view_ok _ table _ query] by simp
qed

end
