(* ===== verification/OwnWrites.thy ===== *)
theory OwnWrites
  imports StagedWrites NodeOffsets
begin

text \<open>
  The table a transaction sees, as a map from keys to rows, and what each edit of the write set does
  to it: own inserts over own deletes over own updates over the committed table.
\<close>

section \<open>The own table\<close>

text \<open>Below the inserts.\<close>

definition under :: "nat \<Rightarrow> string \<Rightarrow> write_set \<Rightarrow> (pk_key \<rightharpoonup> row) \<Rightarrow> (pk_key \<rightharpoonup> row)" where
  "under c table w m = fold spec_delete (bt_items (ws_node_deletes w) table)
    (fold (spec_put c) (bt_items (ws_node_updates w) table) m)"

definition own_table :: "nat \<Rightarrow> string \<Rightarrow> write_set \<Rightarrow> (pk_key \<rightharpoonup> row) \<Rightarrow> (pk_key \<rightharpoonup> row)" where
  "own_table c table w m = fold (spec_put c) (bt_items (ws_nodes w) table) (under c table w m)"

lemma own_table_delta: "own_table c table w m = spec_delta table c (own_delta w) m"
  by (simp add: own_table_def under_def spec_delta_def)

text \<open>
  Keys are staged once, deletes are keys, an own insert hides nothing, and an own update replaces a
  committed row.
\<close>

definition own_sound :: "nat \<Rightarrow> string \<Rightarrow> write_set \<Rightarrow> (pk_key \<rightharpoonup> row) \<Rightarrow> bool" where
  "own_sound c table w m \<longleftrightarrow>
    keyed_rows c (bt_items (ws_nodes w) table) \<and> keyed_rows c (bt_items (ws_node_updates w) table) \<and>
    list_all is_key (bt_items (ws_node_deletes w) table) \<and>
    (\<forall>k \<in> keys_of c (bt_items (ws_nodes w) table). under c table w m k = None) \<and>
    (\<forall>k \<in> keys_of c (bt_items (ws_node_updates w) table). m k \<noteq> None)"

lemma own_sound_ok: "own_sound c table w m \<Longrightarrow> own_ok c table (own_delta w)"
  by (simp add: own_sound_def own_ok_def keyed_rows_def)

lemma under_at:
  "keyed_rows c (bt_items (ws_node_updates w) table) \<Longrightarrow> under c table w m k =
    (if k \<in> delete_keys (bt_items (ws_node_deletes w) table) then None
     else case lookup_row c (bt_items (ws_node_updates w) table) k of Some r \<Rightarrow> Some r | None \<Rightarrow> m k)"
  by (simp add: under_def fold_spec_put fold_spec_delete lookup_row_rev)

lemma own_table_at:
  "keyed_rows c (bt_items (ws_nodes w) table) \<Longrightarrow> own_table c table w m k =
    (case lookup_row c (bt_items (ws_nodes w) table) k of Some r \<Rightarrow> Some r | None \<Rightarrow> under c table w m k)"
  by (simp add: own_table_def fold_spec_put lookup_row_rev)

section \<open>Keyed rows\<close>

lemma bt_items_entry:
  "bt_wf m \<Longrightarrow> bt_items (bt_entry k [] f m) k' = (if k' = k then f (bt_items m k) else bt_items m k')"
  by (simp add: bt_items_def bt_get_entry split: option.split)

lemma lookup_key: "lookup_row c rows k = Some r \<Longrightarrow> row_key c r = Some k"
  by (auto simp: lookup_row_def find_Some_iff)

text \<open>Replacing the row of a key by one with the same key.\<close>

lemma replace_keyed:
  assumes "position (\<lambda>r. row_key c r = Some k) rows = Some pos" "row_key c replacement = Some k"
  shows "keyed_rows c (rows[pos := replacement]) = keyed_rows c rows"
    "keys_of c (rows[pos := replacement]) = keys_of c rows"
    "keyed_rows c rows \<Longrightarrow> lookup_row c (rows[pos := replacement]) = (lookup_row c rows)(k \<mapsto> replacement)"
proof -
  have pos: "pos < length rows" "row_key c (rows ! pos) = Some k" using assms(1) by (simp_all add: position_eq_Some)
  then have same: "map (row_key c) (rows[pos := replacement]) = map (row_key c) rows"
    using assms(2) by (intro nth_equalityI) (auto simp: nth_list_update)
  have all: "list_all (\<lambda>r. row_key c r \<noteq> None) xs \<longleftrightarrow> None \<notin> set (map (row_key c) xs)" for xs
    by (induction xs) auto
  have keys: "keys_of c xs = {k. Some k \<in> set (map (row_key c) xs)}" for xs
    by (auto simp: keys_of_def image_iff) metis
  show "keyed_rows c (rows[pos := replacement]) = keyed_rows c rows" by (simp only: keyed_rows_def all same)
  show "keys_of c (rows[pos := replacement]) = keys_of c rows" by (simp only: keys same)
  show "lookup_row c (rows[pos := replacement]) = (lookup_row c rows)(k \<mapsto> replacement)" if kr: "keyed_rows c rows"
  proof
    fix k'
    have kr': "keyed_rows c (rows[pos := replacement])" using kr unfolding keyed_rows_def all same .
    have "lookup_row c (rows[pos := replacement]) k' = Some r \<longleftrightarrow> ((lookup_row c rows)(k \<mapsto> replacement)) k' = Some r" for r
    proof (cases "k' = k")
      case True
      have "lookup_row c (rows[pos := replacement]) k = Some replacement"
        using set_update_memI [OF pos(1)] assms(2) by (simp add: lookup_row_keyed [OF kr'])
      with True show ?thesis by auto
    next
      case False
      have "r \<in> set (rows[pos := replacement]) \<and> row_key c r = Some k' \<longleftrightarrow> r \<in> set rows \<and> row_key c r = Some k'"
        using pos assms(2) False by (auto simp: in_set_conv_nth nth_list_update) (metis option.inject)
      with False show ?thesis by (simp add: lookup_row_keyed [OF kr'] lookup_row_keyed [OF kr])
    qed
    then show "lookup_row c (rows[pos := replacement]) k' = ((lookup_row c rows)(k \<mapsto> replacement)) k'"
      by (metis option.exhaust)
  qed
qed

lemma remove_keyed:
  assumes "position (\<lambda>r. row_key c r = Some k) rows = Some pos" "keyed_rows c rows"
  shows "keyed_rows c (remove_at pos rows)" "keys_of c (remove_at pos rows) = keys_of c rows - {k}"
    "lookup_row c (remove_at pos rows) = (lookup_row c rows)(k := None)"
proof -
  have pos: "pos < length rows" "row_key c (rows ! pos) = Some k" using assms(1) by (simp_all add: position_eq_Some)
  have rows: "rows = take pos rows @ rows ! pos # drop (Suc pos) rows" using pos(1) by (simp add: id_take_nth_drop [symmetric])
  have split: "keyed_rows c (take pos rows @ [rows ! pos] @ drop (Suc pos) rows)" using assms(2) rows by simp
  then have parts: "keyed_rows c (take pos rows)" "keyed_rows c (drop (Suc pos) rows)"
    "k \<notin> keys_of c (take pos rows)" "k \<notin> keys_of c (drop (Suc pos) rows)"
    "keys_of c (take pos rows) \<inter> keys_of c (drop (Suc pos) rows) = {}"
    using pos(2) unfolding keyed_rows_append keys_of_append by (auto simp: keys_of_def)
  then show "keyed_rows c (remove_at pos rows)" by (simp add: remove_at_def keyed_rows_append)
  have "keys_of c rows = keys_of c (take pos rows @ [rows ! pos] @ drop (Suc pos) rows)" using rows by simp
  also have "\<dots> = insert k (keys_of c (remove_at pos rows))"
    using pos(2) unfolding keys_of_append remove_at_def by (auto simp: keys_of_def)
  finally show keys: "keys_of c (remove_at pos rows) = keys_of c rows - {k}"
    using parts by (simp add: remove_at_def keys_of_append)
  show "lookup_row c (remove_at pos rows) = (lookup_row c rows)(k := None)"
  proof
    fix k'
    show "lookup_row c (remove_at pos rows) k' = ((lookup_row c rows)(k := None)) k'"
    proof (cases "k' = k")
      case True
      then show ?thesis using lookup_row_None [of c "remove_at pos rows" k] keys by simp
    next
      case False
      have "lookup_row c rows k' = lookup_row c (take pos rows @ [rows ! pos] @ drop (Suc pos) rows) k'" using rows by simp
      moreover have single: "lookup_row c ([rows ! pos] @ drop (Suc pos) rows) k' = lookup_row c (drop (Suc pos) rows) k'"
        using pos(2) False by (simp add: lookup_row_def)
      have "lookup_row c (take pos rows @ [rows ! pos] @ drop (Suc pos) rows) k' = lookup_row c (remove_at pos rows) k'"
        unfolding lookup_row_append [of c "take pos rows"] single remove_at_def ..
      ultimately show ?thesis using False by simp
    qed
  qed
qed

lemma filter_keyed:
  assumes "keyed_rows c rows"
  shows "keyed_rows c (filter (\<lambda>r. row_key c r \<noteq> Some k) rows)"
    "keys_of c (filter (\<lambda>r. row_key c r \<noteq> Some k) rows) = keys_of c rows - {k}"
    "lookup_row c (filter (\<lambda>r. row_key c r \<noteq> Some k) rows) = (lookup_row c rows)(k := None)"
proof -
  show "keyed_rows c (filter (\<lambda>r. row_key c r \<noteq> Some k) rows)"
    using assms by (auto simp: keyed_rows_def distinct_map list_all_iff intro: inj_on_subset)
  show "keys_of c (filter (\<lambda>r. row_key c r \<noteq> Some k) rows) = keys_of c rows - {k}" by (auto simp: keys_of_def)
  show "lookup_row c (filter (\<lambda>r. row_key c r \<noteq> Some k) rows) = (lookup_row c rows)(k := None)"
  proof
    fix k'
    show "lookup_row c (filter (\<lambda>r. row_key c r \<noteq> Some k) rows) k' = ((lookup_row c rows)(k := None)) k'"
      by (induction rows) (auto simp: lookup_row_def find_None_iff)
  qed
qed

section \<open>What the edits do\<close>

text \<open>A statement compares values, the table compares keys.\<close>

lemma row_has_key: "pk_try_from key = Inr k \<Longrightarrow> row_has c key = (\<lambda>r. row_key c r = Some k)"
  by (simp add: slice_get_is_key fun_eq_iff)

lemma stage_inserts_table:
  assumes wf: "bt_wf (ws_nodes w)" and sound: "own_sound c table w m" and rows: "keyed_rows c rows"
    and absent: "\<forall>k \<in> keys_of c rows. own_table c table w m k = None"
  shows "own_table c table (stage_inserts table rows keys w) m = fold (spec_put c) rows (own_table c table w m)"
    "own_sound c table (stage_inserts table rows keys w) m"
proof -
  let ?nodes = "bt_items (ws_nodes w) table"
  have nodes: "bt_items (ws_nodes (stage_inserts table rows keys w)) table = ?nodes @ rows"
    by (simp add: stage_inserts_def bt_items_entry [OF wf])
  have others: "ws_node_updates (stage_inserts table rows keys w) = ws_node_updates w"
    "ws_node_deletes (stage_inserts table rows keys w) = ws_node_deletes w"
    by (simp_all add: stage_inserts_def)
  then have same: "under c table (stage_inserts table rows keys w) m = under c table w m"
    by (simp add: under_def)
  show "own_table c table (stage_inserts table rows keys w) m = fold (spec_put c) rows (own_table c table w m)"
    by (simp add: own_table_def nodes same)
  have kr: "keyed_rows c ?nodes" using sound by (simp add: own_sound_def)
  have none: "lookup_row c ?nodes k = None \<and> under c table w m k = None" if "k \<in> keys_of c rows" for k
    using absent that by (auto simp: own_table_at [OF kr] split: option.splits)
  then have "keys_of c ?nodes \<inter> keys_of c rows = {}" unfolding lookup_row_None by blast
  with sound rows none show "own_sound c table (stage_inserts table rows keys w) m"
    by (auto simp: own_sound_def nodes same keyed_rows_append keys_of_append others)
qed

lemma own_position_key:
  "pk_try_from key = Inr k \<Longrightarrow> own_insert_position w table c key =
    position (\<lambda>r. row_key c r = Some k) (bt_items (ws_nodes w) table)"
  by (simp add: own_insert_position_def bt_items_def row_has_key split: option.split)

lemma replace_own_insert_eq:
  "pk_try_from key = Inr k \<Longrightarrow> replace_own_insert table c key replacement w =
    (case position (\<lambda>r. row_key c r = Some k) (bt_items (ws_nodes w) table) of
       None \<Rightarrow> (False, w)
     | Some pos \<Rightarrow> (True, w\<lparr> ws_nodes := bt_insert table ((bt_items (ws_nodes w) table)[pos := replacement]) (ws_nodes w) \<rparr>))"
  by (simp add: replace_own_insert_def bt_items_def row_has_key split: option.split)

lemma stage_update_table:
  assumes wf: "bt_wf (ws_nodes w)" "bt_wf (ws_node_updates w)" and sound: "own_sound c table w m"
    and key: "pk_try_from key = Inr k" "row_key c replacement = Some k" and old: "own_table c table w m k \<noteq> None"
  shows "own_table c table (stage_update table c key replacement w) m = (own_table c table w m)(k \<mapsto> replacement)"
    "own_sound c table (stage_update table c key replacement w) m"
proof -
  let ?nodes = "bt_items (ws_nodes w) table" and ?upds = "bt_items (ws_node_updates w) table"
  have kr: "keyed_rows c ?nodes" "keyed_rows c ?upds" using sound by (simp_all add: own_sound_def)
  have "own_table c table (stage_update table c key replacement w) m = (own_table c table w m)(k \<mapsto> replacement) \<and>
    own_sound c table (stage_update table c key replacement w) m"
  proof (cases "position (\<lambda>r. row_key c r = Some k) ?nodes")
    case (Some pos)
    let ?w = "w\<lparr> ws_nodes := bt_insert table (?nodes[pos := replacement]) (ws_nodes w) \<rparr>"
    have w: "stage_update table c key replacement w = ?w"
      by (simp add: stage_update_def replace_own_insert_eq [OF key(1)] Some)
    have nodes: "bt_items (ws_nodes ?w) table = ?nodes[pos := replacement]"
      by (simp add: bt_items_def [of "bt_insert _ _ _"] bt_get_insert [OF wf(1)])
    have same: "under c table ?w m = under c table w m" by (simp add: under_def)
    note rep = replace_keyed [OF Some key(2)]
    have "own_table c table ?w m = (own_table c table w m)(k \<mapsto> replacement)"
    proof
      fix k'
      have "own_table c table ?w m k' =
          (case lookup_row c (?nodes[pos := replacement]) k' of Some r \<Rightarrow> Some r | None \<Rightarrow> under c table w m k')"
        using own_table_at [of c ?w table m k'] kr(1) unfolding nodes same rep(1) by simp
      then show "own_table c table ?w m k' = ((own_table c table w m)(k \<mapsto> replacement)) k'"
        by (simp add: own_table_at [OF kr(1)] rep(3) [OF kr(1)])
    qed
    moreover have "own_sound c table ?w m" using sound unfolding own_sound_def nodes same rep(1,2) by simp
    ultimately show ?thesis by (simp add: w)
  next
    case None
    then have fresh: "k \<notin> keys_of c ?nodes" by (rule position_keys [THEN iffD1])
    then have below: "under c table w m k \<noteq> None" using old by (simp add: own_table_at [OF kr(1)] lookup_row_None [symmetric])
    then have base: "k \<notin> delete_keys (bt_items (ws_node_deletes w) table)" "m k \<noteq> None"
      using sound lookup_row_None [of c ?upds k]
      by (auto simp: under_at [OF kr(2)] own_sound_def split: if_splits option.splits)
    define upds' where "upds' = (case position (\<lambda>r. row_key c r = Some k) ?upds of
        Some pos \<Rightarrow> ?upds[pos := replacement] | None \<Rightarrow> ?upds @ [replacement])"
    have upds': "keyed_rows c upds'" "keys_of c upds' = insert k (keys_of c ?upds)"
      "lookup_row c upds' = (lookup_row c ?upds)(k \<mapsto> replacement)"
    proof -
      have "keyed_rows c upds' \<and> keys_of c upds' = insert k (keys_of c ?upds) \<and>
        lookup_row c upds' = (lookup_row c ?upds)(k \<mapsto> replacement)"
      proof (cases "position (\<lambda>r. row_key c r = Some k) ?upds")
        case (Some pos)
        have "k \<in> keys_of c ?upds" using Some position_keys [of c k ?upds] by (metis option.distinct(1))
        with Some show ?thesis using replace_keyed [OF Some key(2)] kr(2) by (simp add: upds'_def insert_absorb)
      next
        case None
        then have "k \<notin> keys_of c ?upds" by (rule position_keys [THEN iffD1])
        moreover have "lookup_row c [replacement] = [k \<mapsto> replacement]" "keys_of c [replacement] = {k}" "keyed_rows c [replacement]"
          using key(2) by (auto simp: lookup_row_def keys_of_def keyed_rows_def fun_eq_iff)
        ultimately show ?thesis
          using None kr(2) lookup_row_None [of c ?upds k]
          by (auto simp: upds'_def keyed_rows_append keys_of_append lookup_row_append fun_eq_iff split: option.splits)
      qed
      then show "keyed_rows c upds'" "keys_of c upds' = insert k (keys_of c ?upds)"
        "lookup_row c upds' = (lookup_row c ?upds)(k \<mapsto> replacement)" by simp_all
    qed
    let ?w = "stage_update table c key replacement w"
    have w: "?w = upsert_node_update table c key replacement w"
      by (simp add: stage_update_def replace_own_insert_eq [OF key(1)] None)
    then have items: "bt_items (ws_node_updates ?w) table = upds'" "ws_nodes ?w = ws_nodes w" "ws_node_deletes ?w = ws_node_deletes w"
      by (simp_all add: upsert_node_update_def bt_items_entry [OF wf(2)] upds'_def row_has_key [OF key(1)])
    have under: "under c table ?w m = (under c table w m)(k \<mapsto> replacement)"
    proof
      fix k'
      have "under c table ?w m k' = (if k' \<in> delete_keys (bt_items (ws_node_deletes w) table) then None
          else case lookup_row c upds' k' of Some r \<Rightarrow> Some r | None \<Rightarrow> m k')"
        using under_at [of c ?w table m k'] upds'(1) unfolding items by simp
      then show "under c table ?w m k' = ((under c table w m)(k \<mapsto> replacement)) k'"
        using base(1) by (simp add: under_at [OF kr(2)] upds'(3))
    qed
    have "own_table c table ?w m = (own_table c table w m)(k \<mapsto> replacement)"
    proof
      fix k'
      have "own_table c table ?w m k' = (case lookup_row c ?nodes k' of Some r \<Rightarrow> Some r | None \<Rightarrow> under c table ?w m k')"
        using own_table_at [of c ?w table m k'] kr(1) by (simp add: items)
      then show "own_table c table ?w m k' = ((own_table c table w m)(k \<mapsto> replacement)) k'"
        using fresh lookup_row_None [of c ?nodes k] by (auto simp: own_table_at [OF kr(1)] under split: option.split)
    qed
    moreover have "own_sound c table ?w m"
      using sound upds' base(2) fresh by (auto simp: own_sound_def items under)
    ultimately show ?thesis by simp
  qed
  then show "own_table c table (stage_update table c key replacement w) m = (own_table c table w m)(k \<mapsto> replacement)"
    "own_sound c table (stage_update table c key replacement w) m" by simp_all
qed

lemma own_removal_table:
  assumes wf: "full_map (ws_nodes w)" and sound: "own_sound c table w m" and key: "pk_try_from key = Inr k"
    and own: "own_insert_position w table c key \<noteq> None" and ok: "is_ok (fst (remove_own_insert table c key w))"
  shows "own_table c table (own_removal table c key w) m = (own_table c table w m)(k := None)"
    "own_sound c table (own_removal table c key w) m"
proof -
  let ?nodes = "bt_items (ws_nodes w) table" and ?w = "own_removal table c key w"
  obtain pos where pos: "position (\<lambda>r. row_key c r = Some k) ?nodes = Some pos" using own by (auto simp: own_position_key [OF key])
  have kr: "keyed_rows c ?nodes" using sound by (simp add: own_sound_def)
  have "?nodes \<noteq> []" using pos by auto
  then have get: "bt_get (ws_nodes w) table = Some ?nodes" using full_map_get [OF wf] by simp
  have fields: "ws_nodes ?w = set_or_remove table (remove_at pos ?nodes) (ws_nodes w)"
    "ws_node_updates ?w = ws_node_updates w" "ws_node_deletes ?w = ws_node_deletes w"
    using pos ok by (auto simp: own_removal_def remove_own_insert_def get row_has_key [OF key] Let_def split: option.splits)
  have nodes: "bt_items (ws_nodes ?w) table = remove_at pos ?nodes" by (simp add: fields full_set_or_remove [OF wf])
  have same: "under c table ?w m = under c table w m" by (simp add: under_def fields)
  note rem = remove_keyed [OF pos kr]
  have k: "k \<in> keys_of c ?nodes" using pos position_keys [of c k ?nodes] by (metis option.distinct(1))
  show "own_table c table ?w m = (own_table c table w m)(k := None)"
  proof
    fix k'
    have "own_table c table ?w m k' = (case lookup_row c (remove_at pos ?nodes) k' of Some r \<Rightarrow> Some r | None \<Rightarrow> under c table w m k')"
      using own_table_at [of c ?w table m k'] rem(1) unfolding nodes same by simp
    then show "own_table c table ?w m k' = ((own_table c table w m)(k := None)) k'"
      using k sound by (simp add: own_table_at [OF kr] rem(3) own_sound_def)
  qed
  show "own_sound c table ?w m"
    using sound rem(1) unfolding own_sound_def nodes same rem(2) fields(2,3) by blast
qed

lemma delete_keys_push:
  "pk_try_from key = Inr k \<Longrightarrow> delete_keys (push_new key keys) = insert k (delete_keys keys)"
  by (auto simp: delete_keys_def push_new_def)

lemma stage_node_delete_table:
  assumes wf: "full_map (ws_node_updates w)" "full_map (ws_node_deletes w)" and sound: "own_sound c table w m"
    and key: "pk_try_from key = Inr k" and own: "own_insert_position w table c key = None"
  shows "own_table c table (stage_node_delete table c key w) m = (own_table c table w m)(k := None)"
    "own_sound c table (stage_node_delete table c key w) m"
proof -
  let ?nodes = "bt_items (ws_nodes w) table" and ?upds = "bt_items (ws_node_updates w) table" and ?w = "stage_node_delete table c key w"
  have kr: "keyed_rows c ?nodes" "keyed_rows c ?upds" using sound by (simp_all add: own_sound_def)
  have fresh: "k \<notin> keys_of c ?nodes" using own by (simp add: own_position_key [OF key] position_keys)
  have "bt_items (ws_node_updates (remove_node_update table c key w)) table = filter (\<lambda>r. row_key c r \<noteq> Some k) ?upds"
  proof (cases "bt_get (ws_node_updates w) table")
    case (Some rows)
    then show ?thesis
      using full_set_or_remove(2) [OF wf(1), of table _ table]
      by (simp add: remove_node_update_def slice_get_is_key [OF key] bt_items_def [of "ws_node_updates w"])
  qed (simp add: remove_node_update_def bt_items_def)
  then have upds: "bt_items (ws_node_updates ?w) table = filter (\<lambda>r. row_key c r \<noteq> Some k) ?upds"
    by (simp add: stage_node_delete_def stage_delete_def)
  have others: "ws_nodes ?w = ws_nodes w" "bt_items (ws_node_deletes ?w) table = push_new key (bt_items (ws_node_deletes w) table)"
    using full_map_wf [OF wf(2)]
    by (auto simp: stage_node_delete_def stage_delete_def remove_node_update_def bt_items_entry split: option.split)
  note fil = filter_keyed [OF kr(2), of k]
  have under: "under c table ?w m = (under c table w m)(k := None)"
  proof
    fix k'
    have "under c table ?w m k' = (if k' \<in> insert k (delete_keys (bt_items (ws_node_deletes w) table)) then None
        else case ((lookup_row c ?upds)(k := None)) k' of Some r \<Rightarrow> Some r | None \<Rightarrow> m k')"
      using under_at [of c ?w table m k'] fil(1) unfolding upds others fil(3) delete_keys_push [OF key] by simp
    then show "under c table ?w m k' = ((under c table w m)(k := None)) k'" by (simp add: under_at [OF kr(2)])
  qed
  show "own_table c table ?w m = (own_table c table w m)(k := None)"
  proof
    fix k'
    have "own_table c table ?w m k' = (case lookup_row c ?nodes k' of Some r \<Rightarrow> Some r | None \<Rightarrow> under c table ?w m k')"
      using own_table_at [of c ?w table m k'] kr(1) unfolding others by simp
    then show "own_table c table ?w m k' = ((own_table c table w m)(k := None)) k'"
      using fresh lookup_row_None [of c ?nodes k] by (auto simp: own_table_at [OF kr(1)] under split: option.split)
  qed
  have "list_all is_key (push_new key (bt_items (ws_node_deletes w) table))"
    using sound key by (auto simp: own_sound_def push_new_def is_key_def)
  then show "own_sound c table ?w m"
    using sound fil(1) unfolding own_sound_def upds others fil(2) under by auto
qed

section \<open>Other tables\<close>

definition same_table :: "string \<Rightarrow> write_set \<Rightarrow> write_set \<Rightarrow> bool" where
  "same_table table w w' \<longleftrightarrow>
    bt_items (ws_nodes w') table = bt_items (ws_nodes w) table \<and>
    bt_items (ws_node_updates w') table = bt_items (ws_node_updates w) table \<and>
    bt_items (ws_node_deletes w') table = bt_items (ws_node_deletes w) table"

lemma same_table_own:
  "same_table table w w' \<Longrightarrow> own_table c table w' m = own_table c table w m"
  "same_table table w w' \<Longrightarrow> own_sound c table w' m = own_sound c table w m"
  by (simp_all add: same_table_def own_table_def own_sound_def under_def)

lemma other_table:
  assumes "writes_ok cat w" "table' \<noteq> table"
  shows "same_table table' w (stage_inserts table rows keys w)"
    "same_table table' w (stage_update table c key replacement w)"
    "same_table table' w (own_removal table c key w)"
    "same_table table' w (stage_node_delete table c key w)"
proof -
  have full: "full_map (ws_nodes w)" "full_map (ws_node_updates w)" "full_map (ws_node_deletes w)"
    using assms(1) by (simp_all add: writes_ok_def ws_full_def)
  note wf = full [THEN full_map_wf]
  have ins: "bt_items (bt_insert table v m) table' = bt_items m table'" if "bt_wf m" for v and m :: "(string, 'x list) btree"
    using assms(2) by (simp add: bt_items_def bt_get_insert [OF that])
  note items = ins [OF wf(1)] ins [OF wf(2)] bt_items_entry [OF wf(1)] bt_items_entry [OF wf(2)] bt_items_entry [OF wf(3)]
    full_set_or_remove(2) [OF full(1)] full_set_or_remove(2) [OF full(2)]
  show "same_table table' w (stage_inserts table rows keys w)"
    using assms(2) by (simp add: same_table_def stage_inserts_def items)
  show "same_table table' w (stage_update table c key replacement w)"
    using assms(2) by (auto simp: same_table_def stage_update_def replace_own_insert_def upsert_node_update_def items split: option.split)
  show "same_table table' w (own_removal table c key w)"
    using assms(2) by (auto simp: same_table_def own_removal_def remove_own_insert_def Let_def items split: option.split)
  show "same_table table' w (stage_node_delete table c key w)"
    using assms(2) by (auto simp: same_table_def stage_node_delete_def stage_delete_def remove_node_update_def items split: option.split)
qed

lemma edges_table:
  "same_table table w (fold_pending_incident_edges cat t key w)" "same_table table w (stage_edges t edges w)"
  "same_table table w (w\<lparr> ws_charged := n \<rparr>)" "same_table table w (w\<lparr> ws_ddl := ddl \<rparr>)"
  "same_table table w (w\<lparr> ws_hnsw_create := b \<rparr>)"
  by (simp_all add: same_table_def fold_pending_incident_edges_def stage_edges_def)

lemma detach_table:
  "same_table table (stage_node_delete (pd_table intent) c (pd_key intent)
     (fold_pending_incident_edges cat (pd_table intent) (pd_key intent) w)) (stage_detach cat c intent ts w)"
  by (simp add: same_table_def stage_detach_def Let_def stage_tombstones_fields)

end
