(* ===== verification/TxnEffects.thy ===== *)
theory TxnEffects
  imports OwnWrites
begin

text \<open>
  What statements do to the tables a transaction sees: every statement that returns takes the table
  it names to the table the statement describes and leaves every other table as it was.
\<close>

section \<open>Sound sessions\<close>

text \<open>\<open>base\<close> gives the checkpointed groups of every table.\<close>

type_synonym base = "string \<Rightarrow> row list list"

definition committed_table :: "base \<Rightarrow> transaction \<Rightarrow> nat \<Rightarrow> string \<Rightarrow> (pk_key \<rightharpoonup> row)" where
  "committed_table base tx c table = spec_chain table c (ps_chain (tx_state tx)) (lookup_row c (concat (base table)))"

definition tx_table :: "base \<Rightarrow> transaction \<Rightarrow> nat \<Rightarrow> string \<Rightarrow> (pk_key \<rightharpoonup> row)" where
  "tx_table base tx c table = own_table c table (tx_writes tx) (committed_table base tx c table)"

lemma tx_table_view:
  "tx_table base tx c table = view_table (transaction_view tx) table c (lookup_row c (concat (base table)))"
  by (simp add: tx_table_def committed_table_def view_table_def transaction_view_def own_table_delta)

definition untouched :: "transaction \<Rightarrow> string \<Rightarrow> bool" where
  "untouched tx table \<longleftrightarrow> (\<forall>link \<in> set (commit_links_oldest_first (ps_chain (tx_state tx))).
    bt_items (delta_nodes (link_delta link)) table = [] \<and>
    bt_items (delta_node_updates (link_delta link)) table = [] \<and>
    bt_items (delta_node_deletes (link_delta link)) table = [])"

text \<open>The committed part of a table, which statements do not change.\<close>

definition stored_ok :: "read_env \<Rightarrow> base \<Rightarrow> transaction \<Rightarrow> node_table_schema \<Rightarrow> nat \<Rightarrow> bool" where
  "stored_ok env base tx sch c \<longleftrightarrow>
    key_column sch = Some c \<and>
    list_all2 (\<lambda>gid rows. re_store env gid = Inr rows) (stored_group_ids (tx_catalog tx) (node_name sch)) (base (node_name sch)) \<and>
    packed (base (node_name sch)) \<and> keyed_rows c (concat (base (node_name sch))) \<and>
    length (concat (base (node_name sch))) < 2 ^ 64 \<and>
    (\<exists>eff. node_dml_effects (ps_chain (tx_state tx)) (node_name sch) c = Inr eff \<and>
      (\<forall>k. bt_get (eff_updates eff) k \<noteq> None \<longrightarrow> k \<in> keys_of c (concat (base (node_name sch))) \<or>
        k \<in> keys_of c (node_rows_oldest_first (ps_chain (tx_state tx)) (node_name sch) c))) \<and>
    (case node_table (ps_catalog (tx_state tx)) (node_name sch) of
       Some sch' \<Rightarrow> sch' = sch \<and>
         stored_group_ids (ps_catalog (tx_state tx)) (node_name sch) = stored_group_ids (tx_catalog tx) (node_name sch)
     | None \<Rightarrow> base (node_name sch) = [] \<and> untouched tx (node_name sch))"

text \<open>A name that is not in use has no trace in the snapshot.\<close>

definition free_name :: "base \<Rightarrow> transaction \<Rightarrow> string \<Rightarrow> bool" where
  "free_name base tx table \<longleftrightarrow> base table = [] \<and> stored_group_ids (tx_catalog tx) table = [] \<and>
    node_table (ps_catalog (tx_state tx)) table = None \<and> untouched tx table"

definition tx_ok :: "read_env \<Rightarrow> base \<Rightarrow> transaction \<Rightarrow> bool" where
  "tx_ok env base tx \<longleftrightarrow> staged_ok tx \<and>
    (\<forall>sch \<in> set (cat_node_tables (tx_catalog tx)). \<exists>c. stored_ok env base tx sch c \<and>
      own_sound c (node_name sch) (tx_writes tx) (committed_table base tx c (node_name sch))) \<and>
    (\<forall>table. node_table (tx_catalog tx) table = None \<longrightarrow> free_name base tx table)"

definition caches_ok :: "read_env \<Rightarrow> catalog \<Rightarrow> base \<Rightarrow> caches \<Rightarrow> bool" where
  "caches_ok env cat base caches \<longleftrightarrow>
    (\<forall>sch \<in> set (cat_node_tables cat). \<forall>c. key_column sch = Some c \<longrightarrow>
      cache_ok (re_store env) c (stored_group_ids cat (node_name sch)) (base (node_name sch)) (caches (node_name sch))) \<and>
    (\<forall>table. node_table cat table = None \<longrightarrow> (\<forall>c. cache_ok (re_store env) c [] [] (caches table)))"

definition session_ok :: "read_env \<Rightarrow> base \<Rightarrow> session \<Rightarrow> bool" where
  "session_ok env base s \<longleftrightarrow> tx_ok env base (fst s) \<and> caches_ok env (tx_catalog (fst s)) base (fst (snd s))"

text \<open>Every node of the transaction has an offset.\<close>

definition offsets_fit :: "base \<Rightarrow> transaction \<Rightarrow> bool" where
  "offsets_fit base tx \<longleftrightarrow> (\<forall>sch \<in> set (cat_node_tables (tx_catalog tx)). \<forall>c. key_column sch = Some c \<longrightarrow>
    length (concat (base (node_name sch))) + length (view_slots (transaction_view tx) (node_name sch) c) +
      length (own_inserts (transaction_view tx) (node_name sch)) < 2 ^ 64)"

lemma static_writes [simp]:
  "untouched (tx\<lparr> tx_writes := w \<rparr>) = untouched tx"
  "stored_ok env base (tx\<lparr> tx_writes := w \<rparr>) = stored_ok env base tx"
  "free_name base (tx\<lparr> tx_writes := w \<rparr>) = free_name base tx"
proof -
  show un: "untouched (tx\<lparr> tx_writes := w \<rparr>) = untouched tx" by (simp add: untouched_def fun_eq_iff)
  show "stored_ok env base (tx\<lparr> tx_writes := w \<rparr>) = stored_ok env base tx" by (simp add: stored_ok_def fun_eq_iff un cong: option.case_cong)
  show "free_name base (tx\<lparr> tx_writes := w \<rparr>) = free_name base tx" by (simp add: free_name_def fun_eq_iff un)
qed

lemma tx_okD:
  assumes "tx_ok env base tx" "sch \<in> set (cat_node_tables (tx_catalog tx))" "key_column sch = Some c"
  shows "stored_ok env base tx sch c" "own_sound c (node_name sch) (tx_writes tx) (committed_table base tx c (node_name sch))"
    "node_table (tx_catalog tx) (node_name sch) = Some sch"
proof -
  from assms obtain c' where "stored_ok env base tx sch c'"
    "own_sound c' (node_name sch) (tx_writes tx) (committed_table base tx c' (node_name sch))" by (auto simp: tx_ok_def)
  moreover from this(1) assms(3) have "c' = c" by (simp add: stored_ok_def)
  ultimately show "stored_ok env base tx sch c" "own_sound c (node_name sch) (tx_writes tx) (committed_table base tx c (node_name sch))"
    by simp_all
  show "node_table (tx_catalog tx) (node_name sch) = Some sch"
    using assms(1,2) by (simp add: tx_ok_def staged_ok_def tables_wf_def)
qed

lemma tx_view_ok:
  assumes "tx_ok env base tx" "sch \<in> set (cat_node_tables (tx_catalog tx))" "key_column sch = Some c"
    "cache_ok (re_store env) c (stored_group_ids (tx_catalog tx) (node_name sch)) (base (node_name sch)) cache"
  shows "view_ok env (transaction_view tx) sch c (base (node_name sch)) cache"
    "updates_grounded (transaction_view tx) (node_name sch) c (base (node_name sch))"
proof -
  note ok = tx_okD [OF assms(1-3)]
  show "view_ok env (transaction_view tx) sch c (base (node_name sch)) cache"
    using ok(1) assms(4) own_sound_ok [OF ok(2)]
    by (auto simp: view_ok_def stored_ok_def transaction_view_def untouched_def split: option.splits)
  show "updates_grounded (transaction_view tx) (node_name sch) c (base (node_name sch))"
  proof -
    from ok(1) obtain eff where eff: "node_dml_effects (ps_chain (tx_state tx)) (node_name sch) c = Inr eff"
      and grounded: "\<forall>k. bt_get (eff_updates eff) k \<noteq> None \<longrightarrow> k \<in> keys_of c (concat (base (node_name sch))) \<or>
        k \<in> keys_of c (node_rows_oldest_first (ps_chain (tx_state tx)) (node_name sch) c)"
      unfolding stored_ok_def by blast
    have "rv_state (transaction_view tx) = tx_state tx" by (simp add: transaction_view_def)
    moreover have "\<forall>k \<in> keys_of c (bt_items (delta_node_updates (own_delta (tx_writes tx))) (node_name sch)).
        spec_chain (node_name sch) c (ps_chain (tx_state tx)) (lookup_row c (concat (base (node_name sch)))) k \<noteq> None"
      using ok(2) by (simp add: own_sound_def committed_table_def)
    ultimately show ?thesis
      using grounded by (simp only: updates_grounded_def transaction_view_own eff sum.inject option.inject) blast
  qed
qed

section \<open>Reading keeps the caches\<close>

lemma shed_cache_ok: "cache_ok store c gids gs cache \<Longrightarrow> cache_ok store c gids gs (shed_table_cache idle cache)"
  by (auto simp: cache_ok_def shed_table_cache_def split: pk_index_state.splits if_splits)

lemma resolve_checkpointed_cache:
  assumes ok: "view_ok env view sch c gs cache"
    and res: "resolve_checkpointed_node_key env view sch c key (cache, budget) = (res, cache', budget')"
  shows "cache_ok (re_store env) c (stored_group_ids (rv_catalog view) (node_name sch)) gs cache'"
proof (cases "node_table (ps_catalog (rv_state view)) (node_name sch)")
  case None
  with ok res show ?thesis by (auto simp: resolve_checkpointed_node_key_def view_ok_def)
next
  case (Some sch')
  let ?gids = "stored_group_ids (rv_catalog view) (node_name sch)"
  from ok Some have same: "sch' = sch" "stored_group_ids (ps_catalog (rv_state view)) (node_name sch) = ?gids"
    and c: "key_column sch = Some c" and gs: "list_all2 (\<lambda>gid rows. re_store env gid = Inr rows) ?gids gs"
    and cok: "cache_ok (re_store env) c ?gids gs cache" by (auto simp: view_ok_def)
  obtain r cache1 b1 where look: "lookup_offset (re_reclaim env) (re_reserve env) (re_store env) sch ?gids key (cache, budget) = (r, cache1, b1)"
    by (metis prod_cases3)
  have "cache_ok (re_store env) c ?gids gs cache1"
  proof -
    obtain e cache2 b2 where ens: "ensure_pk_index (re_reclaim env) (re_reserve env) (re_store env) sch ?gids (cache, budget) = (e, cache2, b2)"
      by (metis prod_cases3)
    with look have "cache1 = cache2" by (auto simp: lookup_offset_def split: sum.splits pk_index_state.splits)
    with ensure_pk_index_ok(1) [OF ens cok c gs] show ?thesis by simp
  qed
  moreover have "cache' = cache1"
    using res Some same look
    by (auto simp: resolve_checkpointed_node_key_def split: sum.splits pk_index_result.splits)
  ultimately show ?thesis by simp
qed

lemma resolve_node_key_cache:
  assumes ok: "view_ok env view sch c gs cache" and table: "node_table (rv_catalog view) table = Some sch"
    and res: "resolve_node_key env view table key (cache, budget) = (res, cache', budget')"
  shows "cache_ok (re_store env) c (stored_group_ids (rv_catalog view) (node_name sch)) gs cache'"
proof -
  have pk: "primary_key sch = Inr (c, scol_name (node_columns sch ! c))" and cok: "cache_ok (re_store env) c (stored_group_ids (rv_catalog view) (node_name sch)) gs cache"
    using ok by (simp_all add: view_ok_def primary_key_def)
  obtain r cache1 b1 where ck: "resolve_checkpointed_node_key env view sch c key (cache, budget) = (r, cache1, b1)" by (metis prod_cases3)
  have "cache' = cache \<or> cache' = cache1"
    using res ck pk table
    by (auto simp: resolve_node_key_def rbind_eq_Inr split: sum.splits option.splits bool.splits prod.splits)
  with cok resolve_checkpointed_cache [OF ok ck] show ?thesis by auto
qed

lemma resolve_node_row_cache:
  assumes ok: "view_ok env view sch c gs cache" and table: "node_table (rv_catalog view) table = Some sch"
    and res: "resolve_node_row env view table key (cache, budget) = (res, cache', budget')"
  shows "cache_ok (re_store env) c (stored_group_ids (rv_catalog view) (node_name sch)) gs cache'"
proof (cases "key_from_query sch c key")
  case (Inr k)
  from resolve_node_row_eq [OF ok table Inr res] show ?thesis by simp
next
  case (Inl e)
  have "primary_key sch = Inr (c, scol_name (node_columns sch ! c))" using ok by (simp add: view_ok_def primary_key_def)
  with Inl res table have "cache' = cache" by (simp add: resolve_node_row_def)
  with ok show ?thesis by (simp add: view_ok_def)
qed

definition tx_view :: "read_env \<Rightarrow> catalog \<Rightarrow> base \<Rightarrow> read_view \<Rightarrow> bool" where
  "tx_view env cat base view \<longleftrightarrow> (\<exists>tx. tx_ok env base tx \<and> tx_catalog tx = cat \<and> view = transaction_view tx)"

lemma caches_ok_update:
  assumes "caches_ok env cat base caches" "tables_wf cat" "sch \<in> set (cat_node_tables cat)" "key_column sch = Some c"
    "cache_ok (re_store env) c (stored_group_ids cat (node_name sch)) (base (node_name sch)) cache"
  shows "caches_ok env cat base (caches(node_name sch := cache))"
proof -
  have "node_table cat (node_name sch) = Some sch" using assms(2,3) by (simp add: tables_wf_def)
  moreover have "node_name sch' = node_name sch \<longleftrightarrow> sch' = sch" if "sch' \<in> set (cat_node_tables cat)" for sch'
    using names_inj [OF assms(2,3) that] .
  ultimately show ?thesis using assms(1,4,5) by (auto simp: caches_ok_def)
qed

lemma read_keeps_caches:
  assumes view: "tx_view env cat base view" and caches: "caches_ok env cat base caches"
    and known: "\<And>sch c gs cache' budget' res. node_table (rv_catalog view) table = Some sch \<Longrightarrow> view_ok env view sch c gs (caches (node_name sch)) \<Longrightarrow>
      read (caches (node_name sch), budget) = (res, cache', budget') \<Longrightarrow>
      cache_ok (re_store env) c (stored_group_ids (rv_catalog view) (node_name sch)) gs cache'"
    and unknown: "node_table (rv_catalog view) table = None \<Longrightarrow> fst (snd (read (caches table, budget))) = caches table"
    and name: "name = (case node_table (rv_catalog view) table of None \<Rightarrow> table | Some sch \<Rightarrow> node_name sch)"
  shows "caches_ok env cat base (caches(name := fst (snd (read (caches name, budget)))))"
proof -
  from view obtain tx where tx: "tx_ok env base tx" "tx_catalog tx = cat" "view = transaction_view tx" by (auto simp: tx_view_def)
  have rv: "rv_catalog view = cat" using tx by (simp add: transaction_view_def)
  show ?thesis
  proof (cases "node_table cat table")
    case None
    with unknown show ?thesis using caches by (simp add: name rv)
  next
    case (Some sch)
    have sch: "sch \<in> set (cat_node_tables cat)" by (rule node_table_in [OF Some])
    from tx sch obtain c where c: "key_column sch = Some c" by (auto simp: tx_ok_def stored_ok_def)
    have wf: "tables_wf cat" using tx by (auto simp: tx_ok_def staged_ok_def)
    have "cache_ok (re_store env) c (stored_group_ids cat (node_name sch)) (base (node_name sch)) (caches (node_name sch))"
      using caches sch c by (simp add: caches_ok_def)
    with tx_view_ok(1) [OF tx(1)] tx sch c
    have vok: "view_ok env view sch c (base (node_name sch)) (caches (node_name sch))" by simp
    obtain res cache' budget' where read: "read (caches (node_name sch), budget) = (res, cache', budget')" by (metis prod_cases3)
    from known [OF _ vok read] Some rv have "cache_ok (re_store env) c (stored_group_ids cat (node_name sch)) (base (node_name sch)) cache'"
      by simp
    from caches_ok_update [OF caches wf sch c this] read show ?thesis by (simp add: name rv Some)
  qed
qed

interpretation tables: cache_invariant env "tx_view env cat base" "caches_ok env cat base" for env cat base
proof
  show "caches_ok env cat base (\<lambda>table. shed_table_cache (idle table) (caches table))"
    if "caches_ok env cat base caches" for caches idle
    using that by (auto simp: caches_ok_def intro: shed_cache_ok)
next
  fix view caches table key budget res caches' budget'
  assume view: "tx_view env cat base view" and caches: "caches_ok env cat base caches"
    and res: "view_resolve_key env view table key (caches, budget) = (res, caches', budget')"
  let ?name = "case node_table (rv_catalog view) table of None \<Rightarrow> table | Some sch \<Rightarrow> node_name sch"
  have "caches' = caches(?name := fst (snd (resolve_node_key env view table key (caches ?name, budget))))"
    using res by (simp add: view_resolve_key_def Let_def split: prod.splits)
  then show "caches_ok env cat base caches'"
    using read_keeps_caches [OF view caches, of table "resolve_node_key env view table key" budget ?name] resolve_node_key_cache
    by (simp add: resolve_node_key_def)
next
  fix view caches table key tx budget row_res tx' caches' budget'
  assume view: "tx_view env cat base view" and caches: "caches_ok env cat base caches"
    and res: "tx_resolve_row env view table key (tx, caches, budget) = (row_res, tx', caches', budget')"
  let ?name = "case node_table (rv_catalog view) table of None \<Rightarrow> table | Some sch \<Rightarrow> node_name sch"
  have "caches' = caches(?name := fst (snd (resolve_node_row env view table key (caches ?name, budget))))"
    using res by (simp add: tx_resolve_row_def Let_def split: prod.splits)
  then show "caches_ok env cat base caches'"
    using read_keeps_caches [OF view caches, of table "resolve_node_row env view table key" budget ?name] resolve_node_row_cache
    by (simp add: resolve_node_row_def)
qed

section \<open>What reads mean\<close>

text \<open>Maps that hold every row under its own key.\<close>

definition keyed_map :: "nat \<Rightarrow> (pk_key \<rightharpoonup> row) \<Rightarrow> bool" where
  "keyed_map c m \<longleftrightarrow> (\<forall>k row. m k = Some row \<longrightarrow> row_key c row = Some k)"

lemma keyed_map_put: "keyed_map c m \<Longrightarrow> keyed_map c (spec_put c row m)"
  by (auto simp: keyed_map_def spec_put_def split: option.split)

lemma keyed_map_delete: "keyed_map c m \<Longrightarrow> keyed_map c (spec_delete v m)"
  by (auto simp: keyed_map_def spec_delete_def split: sum.split)

lemma keyed_map_puts: "keyed_map c m \<Longrightarrow> keyed_map c (fold (spec_put c) rows m)"
  by (induction rows arbitrary: m) (simp_all add: keyed_map_put)

lemma keyed_map_deletes: "keyed_map c m \<Longrightarrow> keyed_map c (fold spec_delete vs m)"
  by (induction vs arbitrary: m) (simp_all add: keyed_map_delete)

lemma keyed_map_chain: "keyed_map c m \<Longrightarrow> keyed_map c (spec_chain table c head m)"
proof -
  have "keyed_map c (fold (\<lambda>link. spec_delta table c (link_delta link)) links m)" if "keyed_map c m" for links m
    using that by (induction links arbitrary: m) (auto simp: spec_delta_def intro: keyed_map_puts keyed_map_deletes)
  then show "keyed_map c m \<Longrightarrow> ?thesis" by (simp add: spec_chain_def)
qed

lemma tx_table_keyed: "tx_table base tx c table k = Some row \<Longrightarrow> row_key c row = Some k"
proof -
  have "keyed_map c (lookup_row c rows)" for rows by (auto simp: keyed_map_def dest: lookup_key)
  then have "keyed_map c (tx_table base tx c table)"
    by (simp add: tx_table_def own_table_def under_def committed_table_def keyed_map_puts keyed_map_deletes keyed_map_chain)
  then show "tx_table base tx c table k = Some row \<Longrightarrow> ?thesis" by (simp add: keyed_map_def)
qed

lemma tx_resolved:
  assumes ok: "tx_ok env base tx" and sch: "sch \<in> set (cat_node_tables (tx_catalog tx))" "key_column sch = Some c"
    and res: "tables.resolved env (tx_catalog tx) base tx (node_name sch) key row"
  obtains k where "pk_try_from key = Inr k" "tx_table base tx c (node_name sch) k = Some row"
    "row_key c row = Some k" "slice_get row c = Some key"
proof -
  note table = tx_okD(3) [OF ok sch]
  have rv: "node_table (rv_catalog (transaction_view tx)) (node_name sch) = Some sch" using table by (simp add: transaction_view_def)
  from res obtain caches budget where caches: "caches_ok env (tx_catalog tx) base caches"
    and row: "fst (tx_resolve_row env (transaction_view tx) (node_name sch) key (tx, caches, budget)) = Inr row"
    unfolding tables.resolved_def by blast
  obtain res' cache' budget' where read: "resolve_node_row env (transaction_view tx) (node_name sch) key (caches (node_name sch), budget) = (res', cache', budget')"
    by (metis prod_cases3)
  have res': "res' = Inr row" using row read rv by (simp add: tx_resolve_row_def Let_def)
  have "cache_ok (re_store env) c (stored_group_ids (tx_catalog tx) (node_name sch)) (base (node_name sch)) (caches (node_name sch))"
    using caches sch by (simp add: caches_ok_def)
  note vok = tx_view_ok(1) [OF ok sch this]
  have pk: "primary_key sch = Inr (c, scol_name (node_columns sch ! c))" using sch(2) by (simp add: primary_key_position)
  obtain k where k: "key_from_query sch c key = Inr k"
    using read res' rv pk by (cases "key_from_query sch c key") (auto simp: resolve_node_row_def)
  have "tx_table base tx c (node_name sch) k = Some row"
    using resolve_node_row_eq [OF vok rv k read] res' by (auto simp: tx_table_view split: option.splits)
  moreover from this have "row_key c row = Some k" by (rule tx_table_keyed)
  moreover note key_from_query_key [OF k]
  ultimately show thesis using that slice_get_is_key [of key k row c] by blast
qed

lemma tx_absent:
  assumes ok: "tx_ok env base tx" and sch: "sch \<in> set (cat_node_tables (tx_catalog tx))" "key_column sch = Some c"
    and fit: "offsets_fit base tx" and absent: "tables.absent env (tx_catalog tx) base tx (node_name sch) key"
    and key: "pk_try_from key = Inr k"
  shows "tx_table base tx c (node_name sch) k = None"
proof -
  note table = tx_okD(3) [OF ok sch]
  have rv: "node_table (rv_catalog (transaction_view tx)) (node_name sch) = Some sch" using table by (simp add: transaction_view_def)
  from absent obtain caches budget what where caches: "caches_ok env (tx_catalog tx) base caches"
    and gone: "fst (view_resolve_key env (transaction_view tx) (node_name sch) key (caches, budget)) = Inl (NotFound what)"
    unfolding tables.absent_def by blast
  have gone': "fst (resolve_node_key env (transaction_view tx) (node_name sch) key (caches (node_name sch), budget)) = Inl (NotFound what)"
    using gone rv by (simp add: view_resolve_key_def Let_def split: prod.splits)
  have cok: "cache_ok (re_store env) c (stored_group_ids (tx_catalog tx) (node_name sch)) (base (node_name sch)) (caches (node_name sch))"
    using caches sch by (simp add: caches_ok_def)
  note vok = tx_view_ok [OF ok sch cok]
  have pk: "primary_key sch = Inr (c, scol_name (node_columns sch ! c))" using sch(2) by (simp add: primary_key_position)
  obtain k' where k': "key_from_query sch c key = Inr k'"
  proof (cases "key_from_query sch c key")
    case (Inl e)
    then have "\<nexists>what. e = NotFound what" by (auto simp: key_from_query_def split: logical_type.splits devon_value.splits)
    with Inl gone' rv pk show ?thesis by (simp add: resolve_node_key_def)
  qed
  have "k' = k" using key_from_query_key [OF k'] key by simp
  moreover have "length (concat (base (node_name sch))) + length (view_slots (transaction_view tx) (node_name sch) c) +
      length (own_inserts (transaction_view tx) (node_name sch)) < 2 ^ 64"
    using fit sch unfolding offsets_fit_def by blast
  ultimately show ?thesis
    using resolve_node_key_eq [OF vok rv k'] gone' by (simp add: tx_table_view split: if_splits)
qed

section \<open>One edit\<close>

lemma same_table_charged: "same_table table (w\<lparr> ws_charged := n \<rparr>) w' \<longleftrightarrow> same_table table w w'"
  by (simp add: same_table_def)

lemma own_charged [simp]:
  "own_table c table (w\<lparr> ws_charged := n \<rparr>) m = own_table c table w m"
  "own_sound c table (w\<lparr> ws_charged := n \<rparr>) m = own_sound c table w m"
  by (simp_all add: own_table_def own_sound_def under_def)

text \<open>
  An edit that turns the named table of the transaction into \<open>g\<close> of it and keeps every other one.
\<close>

definition turns :: "base \<Rightarrow> transaction \<Rightarrow> string \<Rightarrow> nat \<Rightarrow> ((pk_key \<rightharpoonup> row) \<Rightarrow> (pk_key \<rightharpoonup> row)) \<Rightarrow> transaction \<Rightarrow> bool" where
  "turns base tx table c g tx' \<longleftrightarrow> tx_table base tx' c table = g (tx_table base tx c table) \<and>
    (\<forall>table' c'. table' \<noteq> table \<longrightarrow> tx_table base tx' c' table' = tx_table base tx c' table')"

lemma staged_effect:
  assumes ok: "tx_ok env base tx" and staged: "staged_by f tx tx'" and ok': "staged_ok tx'"
    and sch: "sch \<in> set (cat_node_tables (tx_catalog tx))" "key_column sch = Some c"
    and at: "\<And>w n m. w = (tx_writes tx)\<lparr> ws_charged := n \<rparr> \<Longrightarrow> m = committed_table base tx c (node_name sch) \<Longrightarrow>
      own_sound c (node_name sch) w m \<Longrightarrow>
      own_sound c (node_name sch) (f w) m \<and> own_table c (node_name sch) (f w) m = g (own_table c (node_name sch) w m)"
    and others: "\<And>w n table. w = (tx_writes tx)\<lparr> ws_charged := n \<rparr> \<Longrightarrow> table \<noteq> node_name sch \<Longrightarrow> same_table table w (f w)"
  shows "tx_ok env base tx'" "turns base tx (node_name sch) c g tx'"
proof -
  from staged obtain n where tx': "tx' = tx\<lparr> tx_writes := f ((tx_writes tx)\<lparr> ws_charged := n \<rparr>) \<rparr>" by (auto simp: staged_by_def)
  let ?w = "(tx_writes tx)\<lparr> ws_charged := n \<rparr>"
  have com: "committed_table base tx' = committed_table base tx" by (simp add: committed_table_def tx' fun_eq_iff)
  note here = at [OF refl refl, unfolded own_charged] and there = same_table_own [OF others [OF refl], unfolded own_charged]
  have sound: "own_sound c (node_name sch) (tx_writes tx) (committed_table base tx c (node_name sch))" by (rule tx_okD(2) [OF ok sch])
  have "own_sound c' (node_name sch') (tx_writes tx') (committed_table base tx' c' (node_name sch'))"
    if "sch' \<in> set (cat_node_tables (tx_catalog tx))" "key_column sch' = Some c'" for sch' c'
  proof (cases "node_name sch' = node_name sch")
    case True
    have "tables_wf (tx_catalog tx)" using ok by (simp add: tx_ok_def staged_ok_def)
    with True names_inj sch(1) that(1) have "sch' = sch" by blast
    with that sch(2) have "c' = c" by simp
    with True here sound show ?thesis by (simp add: com) (simp add: tx')
  next
    case False
    from there(2) [OF False] tx_okD(2) [OF ok that] show ?thesis by (simp add: com) (simp add: tx')
  qed
  moreover have "stored_ok env base tx' sch' c' = stored_ok env base tx sch' c'" "free_name base tx' table = free_name base tx table" for sch' c' table
    by (simp_all add: tx')
  moreover have "tx_catalog tx' = tx_catalog tx" by (simp add: tx')
  ultimately show "tx_ok env base tx'"
    using ok ok' unfolding tx_ok_def by (metis stored_ok_def)
  show "turns base tx (node_name sch) c g tx'"
    using here sound there(1) by (simp add: turns_def tx_table_def com) (simp add: tx')
qed

section \<open>What each statement does\<close>

text \<open>The table a statement names, and what it does to that table.\<close>

fun statement_table :: "'plan statement \<Rightarrow> string option" where
  "statement_table (StmtInsertNode table rows) = Some table"
| "statement_table (StmtUpsertNode table rows) = Some table"
| "statement_table (StmtUpdateNode table items column key) = Some table"
| "statement_table (StmtDeleteNode table column key) = Some table"
| "statement_table (StmtDetachDeleteNode table column key) = Some table"
| "statement_table _ = None"

fun table_step :: "node_table_schema \<Rightarrow> nat \<Rightarrow> 'plan statement \<Rightarrow> (pk_key \<rightharpoonup> row) \<Rightarrow> (pk_key \<rightharpoonup> row) \<Rightarrow> bool" where
  "table_step sch c (StmtInsertNode table rows) m m' \<longleftrightarrow>
    keyed_rows c rows \<and> list_all (\<lambda>row. validate_row sch row = Inr ()) rows \<and>
    (\<forall>k \<in> keys_of c rows. m k = None) \<and> m' = fold (spec_put c) rows m"
| "table_step sch c (StmtUpsertNode table rows) m m' \<longleftrightarrow>
    list_all (\<lambda>row. row_key c row \<noteq> None \<and> validate_row sch row = Inr ()) rows \<and> m' = fold (spec_put c) rows m"
| "table_step sch c (StmtUpdateNode table items column key) m m' \<longleftrightarrow> (\<exists>k row row'.
    pk_try_from key = Inr k \<and> m k = Some row \<and> rfold (apply_set_item sch c) items row = Inr row' \<and>
    validate_row sch row' = Inr () \<and> m' = m(k \<mapsto> row'))"
| "table_step sch c (StmtDeleteNode table column key) m m' \<longleftrightarrow>
    (\<exists>k. pk_try_from key = Inr k \<and> m k \<noteq> None \<and> m' = m(k := None))"
| "table_step sch c (StmtDetachDeleteNode table column key) m m' \<longleftrightarrow>
    (\<exists>k. pk_try_from key = Inr k \<and> m k \<noteq> None \<and> m' = m(k := None))"
| "table_step sch c _ m m' \<longleftrightarrow> m' = m"

definition tables_kept :: "base \<Rightarrow> transaction \<Rightarrow> transaction \<Rightarrow> bool" where
  "tables_kept base tx tx' \<longleftrightarrow> (\<forall>c table. tx_table base tx' c table = tx_table base tx c table)"

definition statement_effect :: "base \<Rightarrow> 'plan statement \<Rightarrow> transaction \<Rightarrow> transaction \<Rightarrow> bool" where
  "statement_effect base stmt tx tx' \<longleftrightarrow> (case statement_table stmt of
     None \<Rightarrow> tables_kept base tx tx'
   | Some table \<Rightarrow> \<exists>sch c. node_table (tx_catalog tx) table = Some sch \<and> key_column sch = Some c \<and>
       table_step sch c stmt (tx_table base tx c (node_name sch)) (tx_table base tx' c (node_name sch)) \<and>
       (\<forall>c' table'. table' \<noteq> node_name sch \<longrightarrow> tx_table base tx' c' table' = tx_table base tx c' table'))"

lemma effectI:
  assumes "statement_table stmt = Some table" "node_table (tx_catalog tx) table = Some sch" "key_column sch = Some c"
    "turns base tx (node_name sch) c g tx'"
    "table_step sch c stmt (tx_table base tx c (node_name sch)) (g (tx_table base tx c (node_name sch)))"
  shows "statement_effect base stmt tx tx'"
  using assms unfolding statement_effect_def turns_def by auto

lemma row_key_slice: "slice_get row c = Some key \<Longrightarrow> pk_try_from key = Inr k \<Longrightarrow> row_key c row = Some k"
  by (rule slice_get_key)

lemma insert_rows_keyed:
  assumes rows: "list_all2 (\<lambda>row key. validate_node_insert_row sch c row = Inr key) rows keys"
    and wf: "node_schema_wf sch" "key_column sch = Some c"
  shows "list_all (\<lambda>row. row_key c row \<noteq> None \<and> validate_row sch row = Inr ()) rows"
    "distinct keys \<Longrightarrow> keyed_rows c rows"
    "k \<in> keys_of c rows \<Longrightarrow> \<exists>key \<in> set keys. pk_try_from key = Inr k"
proof -
  have at: "slice_get (rows ! i) c = Some (keys ! i)" "is_key (keys ! i)" "validate_row sch (rows ! i) = Inr ()"
    "\<exists>k. pk_try_from (keys ! i) = Inr k \<and> row_key c (rows ! i) = Some k" if "i < length rows" for i
  proof -
    from rows that have "validate_node_insert_row sch c (rows ! i) = Inr (keys ! i)" by (simp add: list_all2_conv_all_nth)
    note row = insert_row_key [OF this wf]
    then show "slice_get (rows ! i) c = Some (keys ! i)" "is_key (keys ! i)" "validate_row sch (rows ! i) = Inr ()" by simp_all
    from row(2) obtain k where "pk_try_from (keys ! i) = Inr k" by (cases "pk_try_from (keys ! i)") (auto simp: is_key_def)
    with row(1) show "\<exists>k. pk_try_from (keys ! i) = Inr k \<and> row_key c (rows ! i) = Some k" by (blast intro: row_key_slice)
  qed
  have len: "length keys = length rows" using rows by (simp add: list_all2_lengthD)
  show all: "list_all (\<lambda>row. row_key c row \<noteq> None \<and> validate_row sch row = Inr ()) rows"
    unfolding list_all_length using at(3,4) by fastforce
  show "keyed_rows c rows" if "distinct keys"
  proof -
    have "i = j" if "i < length rows" "j < length rows" "row_key c (rows ! i) = row_key c (rows ! j)" for i j
    proof -
      from at(4) [OF that(1)] at(4) [OF that(2)] that(3) obtain k
        where "pk_try_from (keys ! i) = Inr k" "pk_try_from (keys ! j) = Inr k" by auto
      then have "keys ! i = keys ! j" by (metis pk_try_from_inj)
      with \<open>distinct keys\<close> that len show ?thesis by (simp add: nth_eq_iff_index_eq)
    qed
    with all show ?thesis by (auto simp: keyed_rows_def distinct_conv_nth list_all_iff)
  qed
  show "\<exists>key \<in> set keys. pk_try_from key = Inr k" if "k \<in> keys_of c rows"
  proof -
    from that obtain i where "i < length rows" "row_key c (rows ! i) = Some k" by (auto simp: keys_of_def in_set_conv_nth)
    with at(4) len show ?thesis by (metis nth_mem option.inject)
  qed
qed

lemma tx_schema:
  assumes "tx_ok env base tx" "node_table (tx_catalog tx) table = Some sch"
  shows "sch \<in> set (cat_node_tables (tx_catalog tx))" "node_schema_wf sch" "writes_ok (tx_catalog tx) (tx_writes tx)"
    "tables_wf (tx_catalog tx)"
  using assms node_table_in [OF assms(2)] by (auto simp: tx_ok_def staged_ok_def tables_wf_def)

text \<open>The maps of the write set, whatever is charged.\<close>

lemma writes_ok_maps:
  assumes "writes_ok cat w"
  shows "full_map (ws_nodes w)" "full_map (ws_node_updates w)" "full_map (ws_node_deletes w)"
    "bt_wf (ws_nodes w)" "bt_wf (ws_node_updates w)"
  using assms full_map_wf by (auto simp: writes_ok_def ws_full_def)

lemma stage_inserts_effect:
  assumes ok: "tx_ok env base tx" and sch: "sch \<in> set (cat_node_tables (tx_catalog tx))" "key_column sch = Some c"
    and staged: "staged_by (stage_inserts (node_name sch) rows keys) tx tx'" and ok': "staged_ok tx'"
    and rows: "keyed_rows c rows" "\<forall>k \<in> keys_of c rows. tx_table base tx c (node_name sch) k = None"
  shows "tx_ok env base tx'" "turns base tx (node_name sch) c (fold (spec_put c) rows) tx'"
proof -
  have w: "writes_ok (tx_catalog tx) ((tx_writes tx)\<lparr> ws_charged := n \<rparr>)" for n using ok by (simp add: tx_ok_def staged_ok_def)
  have absent: "\<forall>k \<in> keys_of c rows. own_table c (node_name sch) ((tx_writes tx)\<lparr> ws_charged := n \<rparr>)
      (committed_table base tx c (node_name sch)) k = None" for n
    using rows(2) by (simp add: tx_table_def)
  note eff = staged_effect [OF ok staged ok' sch, where g = "fold (spec_put c) rows"]
  have "tx_ok env base tx' \<and> turns base tx (node_name sch) c (fold (spec_put c) rows) tx'"
    by (intro conjI eff)
      (simp_all add: stage_inserts_table [OF writes_ok_maps(4) [OF w] _ rows(1) absent] other_table(1) [OF w])
  then show "tx_ok env base tx'" "turns base tx (node_name sch) c (fold (spec_put c) rows) tx'" by simp_all
qed

lemma stage_update_effect:
  assumes ok: "tx_ok env base tx" and sch: "sch \<in> set (cat_node_tables (tx_catalog tx))" "key_column sch = Some c"
    and staged: "staged_by (stage_update (node_name sch) c key replacement) tx tx'" and ok': "staged_ok tx'"
    and key: "pk_try_from key = Inr k" "row_key c replacement = Some k"
    and old: "tx_table base tx c (node_name sch) k \<noteq> None"
  shows "tx_ok env base tx'" "turns base tx (node_name sch) c (\<lambda>m. m(k \<mapsto> replacement)) tx'"
proof -
  have w: "writes_ok (tx_catalog tx) ((tx_writes tx)\<lparr> ws_charged := n \<rparr>)" for n using ok by (simp add: tx_ok_def staged_ok_def)
  have old': "own_table c (node_name sch) ((tx_writes tx)\<lparr> ws_charged := n \<rparr>) (committed_table base tx c (node_name sch)) k \<noteq> None" for n
    using old by (simp add: tx_table_def)
  note eff = staged_effect [OF ok staged ok' sch, where g = "\<lambda>m. m(k \<mapsto> replacement)"]
  have "tx_ok env base tx' \<and> turns base tx (node_name sch) c (\<lambda>m. m(k \<mapsto> replacement)) tx'"
    by (intro conjI eff)
      (simp_all add: stage_update_table [OF writes_ok_maps(4,5) [OF w] _ key old'] other_table(2) [OF w])
  then show "tx_ok env base tx'" "turns base tx (node_name sch) c (\<lambda>m. m(k \<mapsto> replacement)) tx'" by simp_all
qed

lemma delete_effect:
  assumes ok: "tx_ok env base tx" and sch: "sch \<in> set (cat_node_tables (tx_catalog tx))" "key_column sch = Some c"
    and key: "pk_try_from key = Inr k" and ok': "staged_ok tx'" and staged: "staged_by f tx tx'"
    and f: "\<And>table w n. w = (tx_writes tx)\<lparr> ws_charged := n \<rparr> \<Longrightarrow> same_table table
      (if own_insert_position (tx_writes tx) (node_name sch) c key \<noteq> None
       then own_removal (node_name sch) c key w else stage_node_delete (node_name sch) c key w) (f w)"
  shows "tx_ok env base tx'" "turns base tx (node_name sch) c (\<lambda>m. m(k := None)) tx'"
proof -
  have w: "writes_ok (tx_catalog tx) ((tx_writes tx)\<lparr> ws_charged := n \<rparr>)" for n using ok by (simp add: tx_ok_def staged_ok_def)
  have wf: "tables_wf (tx_catalog tx)" using ok by (simp add: tx_ok_def staged_ok_def)
  note eff = staged_effect [OF ok staged ok' sch, where g = "\<lambda>m. m(k := None)"]
  have "tx_ok env base tx' \<and> turns base tx (node_name sch) c (\<lambda>m. m(k := None)) tx'"
  proof (cases "own_insert_position (tx_writes tx) (node_name sch) c key = None")
    case True
    have at: "same_table table (stage_node_delete (node_name sch) c key ((tx_writes tx)\<lparr> ws_charged := n \<rparr>)) (f ((tx_writes tx)\<lparr> ws_charged := n \<rparr>))" for table n
      using f [OF refl, of table n] True by simp
    have own: "own_insert_position ((tx_writes tx)\<lparr> ws_charged := n \<rparr>) (node_name sch) c key = None" for n using True by simp
    show ?thesis
      by (intro conjI eff; simp add: same_table_own [OF at]
          stage_node_delete_table [OF writes_ok_maps(2,3) [OF w] _ key own])
        (use other_table(4) [OF w] at in \<open>auto simp: same_table_def\<close>)
  next
    case False
    have at: "same_table table (own_removal (node_name sch) c key ((tx_writes tx)\<lparr> ws_charged := n \<rparr>)) (f ((tx_writes tx)\<lparr> ws_charged := n \<rparr>))" for table n
      using f [OF refl, of table n] False by simp
    have own: "own_insert_position ((tx_writes tx)\<lparr> ws_charged := n \<rparr>) (node_name sch) c key \<noteq> None" for n using False by simp
    note rem = own_removal_table [OF writes_ok_maps(1) [OF w] _ key own own_removal_ok(1) [OF w sch(1) wf sch(2)]]
    show ?thesis
      by (intro conjI eff; simp add: same_table_own [OF at] rem)
        (use other_table(3) [OF w] at in \<open>auto simp: same_table_def\<close>)
  qed
  then show "tx_ok env base tx'" "turns base tx (node_name sch) c (\<lambda>m. m(k := None)) tx'" by simp_all
qed

section \<open>Statements that change a table\<close>

lemma insert_effect:
  assumes ok: "tx_ok env base tx" and fit: "offsets_fit base tx" and ok': "staged_ok tx'"
    and out: "tables.insert_outcome env (tx_catalog tx) base table rows tx tx'"
  shows "tx_ok env base tx' \<and> statement_effect base (StmtInsertNode table rows) tx tx'"
proof -
  from out obtain sch c keys where sch: "node_table (tx_catalog tx) table = Some sch" and c: "key_column sch = Some c"
    and keys: "list_all2 (\<lambda>row key. validate_node_insert_row sch c row = Inr key) rows keys" "distinct keys"
    and absent: "\<forall>key \<in> set keys. tables.absent env (tx_catalog tx) base tx (node_name sch) key"
    and staged: "staged_by (stage_inserts (node_name sch) rows keys) tx tx'"
    unfolding tables.insert_outcome_def primary_key_position by blast
  note mem = tx_schema [OF ok sch]
  note rows = insert_rows_keyed [OF keys(1) mem(2) c]
  have gone: "\<forall>k \<in> keys_of c rows. tx_table base tx c (node_name sch) k = None"
    using rows(3) absent tx_absent [OF ok mem(1) c fit] by blast
  note eff = stage_inserts_effect [OF ok mem(1) c staged ok' rows(2) [OF keys(2)] gone]
  have "table_step sch c (StmtInsertNode table rows) (tx_table base tx c (node_name sch))
      (fold (spec_put c) rows (tx_table base tx c (node_name sch)))"
    using rows(1) rows(2) [OF keys(2)] gone by (simp add: list_all_iff)
  with eff show ?thesis by (auto intro: effectI [OF _ sch c])
qed

lemma update_effect:
  assumes ok: "tx_ok env base tx" and ok': "staged_ok tx'"
    and out: "tables.update_outcome env (tx_catalog tx) base table items key tx tx'"
  obtains sch c k row row' where "node_table (tx_catalog tx) table = Some sch" "key_column sch = Some c"
    "pk_try_from key = Inr k" "tx_table base tx c (node_name sch) k = Some row" "slice_get row c = Some key"
    "rfold (apply_set_item sch c) items row = Inr row'" "validate_row sch row' = Inr ()"
    "tx_ok env base tx'" "turns base tx (node_name sch) c (\<lambda>m. m(k \<mapsto> row')) tx'"
    "staged_by (stage_update (node_name sch) c key row') tx tx'"
proof -
  from out obtain sch c row row' where sch: "node_table (tx_catalog tx) table = Some sch" and c: "key_column sch = Some c"
    and row: "tables.resolved env (tx_catalog tx) base tx (node_name sch) key row" "rfold (apply_set_item sch c) items row = Inr row'"
      "validate_row sch row' = Inr ()"
    and staged: "staged_by (stage_update (node_name sch) c key row') tx tx'"
    unfolding tables.update_outcome_def primary_key_position by blast
  note mem = tx_schema [OF ok sch]
  obtain k where k: "pk_try_from key = Inr k" "tx_table base tx c (node_name sch) k = Some row" "slice_get row c = Some key"
    by (rule tx_resolved [OF ok mem(1) c row(1)])
  have "row_key c row' = Some k"
    using apply_set_items_key [OF row(2)] k by (auto intro: row_key_slice)
  from stage_update_effect [OF ok mem(1) c staged ok' k(1) this] k(2) show thesis
    using that [OF sch c k(1,2,3) row(2,3) _ _ staged] by simp
qed

lemma removal_effect:
  assumes ok: "tx_ok env base tx" and ok': "staged_ok tx'"
    and sch: "node_table (tx_catalog tx) table = Some sch" "key_column sch = Some c"
    and row: "tables.resolved env (tx_catalog tx) base tx (node_name sch) key row" "slice_get row c = Some key'"
    and staged: "staged_by f tx tx'"
    and f: "\<And>table w n. w = (tx_writes tx)\<lparr> ws_charged := n \<rparr> \<Longrightarrow> same_table table
      (if own_insert_position (tx_writes tx) (node_name sch) c key' \<noteq> None
       then own_removal (node_name sch) c key' w else stage_node_delete (node_name sch) c key' w) (f w)"
    and stmt: "stmt \<in> {StmtDeleteNode table column key, StmtDetachDeleteNode table column key}"
  shows "tx_ok env base tx' \<and> statement_effect base stmt tx tx'"
proof -
  note mem = tx_schema [OF ok sch(1)]
  obtain k where k: "pk_try_from key = Inr k" "tx_table base tx c (node_name sch) k = Some row" "slice_get row c = Some key"
    by (rule tx_resolved [OF ok mem(1) sch(2) row(1)])
  with row(2) have key': "pk_try_from key' = Inr k" by simp
  note eff = delete_effect [OF ok mem(1) sch(2) key' ok' staged f]
  from k have "table_step sch c stmt (tx_table base tx c (node_name sch)) ((tx_table base tx c (node_name sch))(k := None))"
    using stmt by auto
  then have "statement_effect base stmt tx tx'"
    using stmt by (intro effectI [OF _ sch(1,2) eff(2)]) auto
  with eff(1) show ?thesis by simp
qed

lemma node_delete_effect:
  assumes ok: "tx_ok env base tx" and ok': "staged_ok tx'"
    and out: "tables.delete_outcome env (tx_catalog tx) base table key tx tx'"
  shows "tx_ok env base tx' \<and> statement_effect base (StmtDeleteNode table column key) tx tx'"
proof -
  from out obtain sch c row key' where sch: "node_table (tx_catalog tx) table = Some sch" "key_column sch = Some c"
    and row: "tables.resolved env (tx_catalog tx) base tx (node_name sch) key row" "slice_get row c = Some key'"
    and staged: "staged_by (if own_insert_position (tx_writes tx) (node_name sch) c key' \<noteq> None
      then own_removal (node_name sch) c key' else stage_node_delete (node_name sch) c key') tx tx'"
    unfolding tables.delete_outcome_def primary_key_position by blast
  show ?thesis
    by (rule removal_effect [OF ok ok' sch row staged]) (auto simp: same_table_def)
qed

lemma same_table_trans: "same_table t w w' \<Longrightarrow> same_table t w' w'' \<Longrightarrow> same_table t w w''"
  by (simp add: same_table_def)

lemma delete_edges_commute:
  "same_table table (stage_node_delete t c key w) (stage_node_delete t c key (fold_pending_incident_edges cat t' key' w))"
  by (simp add: same_table_def stage_node_delete_def stage_delete_def remove_node_update_def fold_pending_incident_edges_def
      split: option.split)

lemma detach_effect:
  assumes ok: "tx_ok env base tx" and ok': "staged_ok tx'"
    and out: "tables.detach_outcome env (tx_catalog tx) base table key tx tx'"
  shows "tx_ok env base tx' \<and> statement_effect base (StmtDetachDeleteNode table column key) tx tx'"
proof -
  from out obtain sch c row key' offset where sch: "node_table (tx_catalog tx) table = Some sch" "key_column sch = Some c"
    and row: "tables.resolved env (tx_catalog tx) base tx (node_name sch) key row" "slice_get row c = Some key'"
    and staged: "staged_by (if own_insert_position (tx_writes tx) (node_name sch) c key' \<noteq> None
      then (\<lambda>w. fold_pending_incident_edges (tx_catalog tx) (node_name sch) key' (own_removal (node_name sch) c key' w))
      else stage_detach (tx_catalog tx) c \<lparr> pd_table = node_name sch, pd_key = key' \<rparr>
        (detach_tombstone_claims (tx_catalog tx) (node_name sch) offset)) tx tx'"
    unfolding tables.detach_outcome_def primary_key_position by blast
  have detach: "same_table t (stage_node_delete (node_name sch) c key' w)
      (stage_detach (tx_catalog tx) c \<lparr> pd_table = node_name sch, pd_key = key' \<rparr> ts w)" for t w ts
    using same_table_trans [OF delete_edges_commute detach_table [of t "\<lparr> pd_table = node_name sch, pd_key = key' \<rparr>" c "tx_catalog tx"]]
    by simp
  show ?thesis
    by (rule removal_effect [OF ok ok' sch row staged]) (auto simp: edges_table detach)
qed

section \<open>Upserts\<close>

lemma resolve_column:
  assumes "node_schema_wf sch" "i < length (node_columns sch)"
  shows "resolve_dml_column sch (scol_name (node_columns sch ! i)) = Inr i"
proof -
  have "distinct (map (\<lambda>col. fold_name (scol_name col)) (node_columns sch))"
    using assms(1) by (simp add: node_schema_wf_def columns_wf_def)
  with assms(2) have "fold_name (scol_name (node_columns sch ! j)) = fold_name (scol_name (node_columns sch ! i)) \<longleftrightarrow> j = i"
    if "j < length (node_columns sch)" for j
    using that by (auto simp: distinct_conv_nth)
  with assms(2) have "column_index (node_columns sch) (scol_name (node_columns sch ! i)) = Some i"
    by (auto simp: column_index_def Let_def position_eq_Some)
  then show ?thesis by (simp add: resolve_dml_column_def)
qed

text \<open>Setting every column but the key to the values of a row gives that row.\<close>

lemma set_columns:
  assumes "node_schema_wf sch" "length row = length (node_columns sch)" "length old = length row"
    "items = map (\<lambda>i. \<lparr> si_column = scol_name (node_columns sch ! i), si_value = row ! i \<rparr>) is"
    "\<forall>i \<in> set is. i < length row \<and> i \<noteq> c"
  shows "rfold (apply_set_item sch c) items old = Inr (fold (\<lambda>i r. r[i := row ! i]) is old)"
  using assms(3-5)
proof (induction "is" arbitrary: items old)
  case (Cons i "is")
  then show ?case
    using resolve_column [OF assms(1), of i] assms(2) by (simp add: apply_set_item_def)
qed simp

lemma fold_updates_nth:
  "j < length old \<Longrightarrow> fold (\<lambda>i r. r[i := row ! i]) is old ! j = (if j \<in> set is then row ! j else old ! j)"
  "length (fold (\<lambda>i r. r[i := row ! i]) is old) = length old"
  by (induction "is" arbitrary: old) (auto simp: nth_list_update)

lemma full_row_update:
  assumes wf: "node_schema_wf sch" and row: "validate_row sch row = Inr ()" "slice_get row c = Some key"
    and items: "full_row_update_set sch row c = Inr items" and old: "slice_get old c = Some key"
    and res: "rfold (apply_set_item sch c) items old = Inr row'" and valid: "validate_row sch row' = Inr ()"
  shows "row' = row"
proof -
  let ?n = "length (node_columns sch)" and ?is = "filter (\<lambda>i. i \<noteq> c) [0..<length (node_columns sch)]"
  have len: "length row = ?n" "length row' = ?n" using row(1) valid by (auto simp: validate_row_def split: if_splits)
  have keep: "length r' = length r" if "rfold (apply_set_item sch c) is r = Inr r'" for "is" r r'
    using that by (induction "is" arbitrary: r) (fastforce simp: rbind_eq_Inr apply_set_item_def split: if_splits)+
  have old_len: "length old = length row" using keep [OF res] len by simp
  have "filter (\<lambda>(index, _). index \<noteq> c) (enumerate 0 (node_columns sch)) = map (\<lambda>i. (i, node_columns sch ! i)) ?is"
  proof -
    have "enumerate 0 (node_columns sch) = map (\<lambda>i. (i, node_columns sch ! i)) [0..<?n]"
      by (rule nth_equalityI) (simp_all add: nth_enumerate_eq)
    then show ?thesis by (simp add: filter_map comp_def)
  qed
  then have "items = map (\<lambda>i. \<lparr> si_column = scol_name (node_columns sch ! i), si_value = row ! i \<rparr>) ?is"
    using items len unfolding full_row_update_set_def rmapM_eq_Inr
    by (auto simp: list_all2_conv_all_nth rbind_eq_Inr ok_or_eq_Inr slice_get_def split: if_splits intro!: nth_equalityI)
  from set_columns [OF wf len(1) old_len this] len have row': "row' = fold (\<lambda>i r. r[i := row ! i]) ?is old" using res by auto
  show ?thesis
  proof (rule nth_equalityI)
    fix j assume "j < length row'"
    then have j: "j < ?n" "j < length old" using len old_len by simp_all
    show "row' ! j = row ! j"
    proof (cases "j = c")
      case True
      with j row(2) old len old_len have "row ! j = key" "old ! j = key" by (auto simp: slice_get_def split: if_splits)
      then show ?thesis by (simp add: row' fold_updates_nth(1) [OF j(2)])
    qed (use j in \<open>simp add: row' fold_updates_nth(1) [OF j(2)]\<close>)
  qed (simp add: len)
qed

lemma tx_table_charge [simp]: "tx_table base (charge n tx) c table = tx_table base tx c table"
  by (simp add: tx_table_def committed_table_def)

lemma tx_ok_charge [simp]: "tx_ok env base (charge n tx) = tx_ok env base tx"
  by (simp add: tx_ok_def charge_def committed_table_def staged_ok_def ddl_follows_def cong: conj_cong)

lemma turns_charge [simp]:
  "turns base tx table c g (charge n tx') = turns base tx table c g tx'"
  "turns base (charge n tx) table c g tx' = turns base tx table c g tx'"
  by (simp_all add: turns_def)

lemma turns_trans:
  "turns base tx table c g tx1 \<Longrightarrow> turns base tx1 table c h tx2 \<Longrightarrow> turns base tx table c (\<lambda>m. h (g m)) tx2"
  by (simp add: turns_def)

lemma triple_both:
  "triple P m Q E \<Longrightarrow> triple P' m Q' E' \<Longrightarrow> triple (\<lambda>s. P s \<and> P' s) m (\<lambda>x s. Q x s \<and> Q' x s) (\<lambda>s. E s \<and> E' s)"
  unfolding triple_def by (fastforce split: prod.splits sum.splits)

lemma triple_from:
  assumes "\<And>tx. R tx \<Longrightarrow> triple (sess tx C) m Q E"
  shows "triple (\<lambda>s :: session. R (fst s) \<and> C (fst (snd s))) m Q E"
  unfolding triple_def
proof (intro allI impI)
  fix s :: session assume s: "R (fst s) \<and> C (fst (snd s))"
  then have "sess (fst s) C s" using sess_fst [of C "fst (snd s)" "fst s" "snd (snd s)"] unfolding prod.collapse by blast
  moreover have "triple (sess (fst s) C) m Q E" by (rule assms) (use s in simp)
  ultimately show "case m s of (Inl e, s') \<Rightarrow> E s' | (Inr x, s') \<Rightarrow> Q x s'" by (simp only: triple_def)
qed

lemma fold_put_other: "k \<notin> keys_of c rows \<Longrightarrow> fold (spec_put c) rows m k = m k"
  by (induction rows arbitrary: m) (auto simp: keys_of_def spec_put_def split: option.split)

lemma apply_upsert_effect:
  assumes ok: "tx_ok env base tx" and sch: "sch \<in> set (cat_node_tables (tx_catalog tx))" "key_column sch = Some c"
    and key: "validate_node_insert_row sch c row = Inr key"
    and fresh: "\<And>k. action = UpsertInsert \<Longrightarrow> pk_try_from key = Inr k \<Longrightarrow> tx_table base tx c (node_name sch) k = None"
  shows "triple (sess tx (caches_ok env (tx_catalog tx) base)) (apply_upsert env rl sch c column ((row, key), action))
    (\<lambda>_ s. sound s \<longrightarrow> tx_ok env base (fst s) \<and> caches_ok env (tx_catalog tx) base (fst (snd s)) \<and>
      turns base tx (node_name sch) c (spec_put c row) (fst s)) (sess tx (caches_ok env (tx_catalog tx) base))"
proof -
  let ?C = "caches_ok env (tx_catalog tx) base"
  have swf: "node_schema_wf sch" "node_table (tx_catalog tx) (node_name sch) = Some sch"
    using ok sch by (auto simp: tx_ok_def staged_ok_def tables_wf_def)
  note row = insert_row_key [OF key swf(1) sch(2)]
  obtain k where k: "pk_try_from key = Inr k" using row(2) by (cases "pk_try_from key") (auto simp: is_key_def)
  have rk: "row_key c row = Some k" by (rule row_key_slice [OF row(1) k])
  have put: "spec_put c row = (\<lambda>m. m(k \<mapsto> row))" by (simp add: spec_put_def rk fun_eq_iff)
  show ?thesis
  proof (cases action)
    case UpsertInsert
    have one: "keyed_rows c [row]" "keys_of c [row] = {k}" using rk by (auto simp: keyed_rows_def keys_of_def)
    have "tx_ok env base tx' \<and> turns base tx (node_name sch) c (spec_put c row) tx'"
      if "staged_by (stage_inserts (node_name sch) [row] [key]) tx tx'" "staged_ok tx'" for tx'
      using stage_inserts_effect [OF ok sch that one(1)] fresh [OF UpsertInsert k] by (simp add: one(2))
    then show ?thesis
      unfolding apply_upsert_def UpsertInsert
      by (auto intro!: triple_conseq [OF tables.stage_inserts_triple] simp: post_def)
  next
    case UpsertUpdate
    have out: "tx_ok env base tx' \<and> turns base tx (node_name sch) c (spec_put c row) tx'"
      if items: "full_row_update_set sch row c = Inr items"
      and "tables.update_outcome env (tx_catalog tx) base (node_name sch) items key tx tx'" "staged_ok tx'" for tx' items
    proof (rule update_effect [OF ok that(3,2)], goal_cases)
      case (1 sch' c' k' old row')
      with swf sch k have same: "sch' = sch" "c' = c" "k' = k" by auto
      with 1 full_row_update [OF swf(1) row(3,1) items, of old row'] have "row' = row" by simp
      with 1 same show ?case by (simp add: put)
    qed
    have view: "tx_view env (tx_catalog tx) base (transaction_view tx)" using ok by (auto simp: tx_view_def)
    show ?thesis
      unfolding apply_upsert_def UpsertUpdate prod.case upsert_action.case
      by (rule triple_check, assumption, rule triple_conseq [OF tables.update_triple [OF view]]) (auto simp: post_def out)
  qed
qed

lemma upsert_fresh:
  assumes rows: "list_all2 (\<lambda>row key. validate_node_insert_row sch c row = Inr key) rows keys"
    and wf: "node_schema_wf sch" "key_column sch = Some c" and i: "i < length keys" "keys ! i \<notin> set (take i keys)"
    and k: "pk_try_from (keys ! i) = Inr k"
  shows "k \<notin> keys_of c (take i rows)"
proof
  assume "k \<in> keys_of c (take i rows)"
  with insert_rows_keyed(3) [OF list_all2_takeI [OF rows] wf] obtain key where "key \<in> set (take i keys)" "pk_try_from key = Inr k" by blast
  with k i(2) show False by (metis pk_try_from_inj)
qed

definition upserted :: "base \<Rightarrow> string \<Rightarrow> row list \<Rightarrow> transaction \<Rightarrow> transaction \<Rightarrow> bool" where
  "upserted base table rows tx tx' \<longleftrightarrow> (\<exists>sch c. node_table (tx_catalog tx) table = Some sch \<and> key_column sch = Some c \<and>
    turns base tx (node_name sch) c (fold (spec_put c) rows) tx')"

lemma upsert_loop:
  assumes ok: "tx_ok env base tx" and sch: "node_table (tx_catalog tx) table = Some sch" "key_column sch = Some c"
    and rows: "list_all2 (\<lambda>row key. validate_node_insert_row sch c row = Inr key) rows keys"
    and actions: "upsert_plan (\<lambda>key. \<forall>k. pk_try_from key = Inr k \<longrightarrow> tx_table base tx c (node_name sch) k = None)
      (bt_items (ws_inserted_pks (tx_writes tx)) (node_name sch)) keys actions"
  shows "triple (sess tx (caches_ok env (tx_catalog tx) base))
    (sfold (\<lambda>item _. apply_upsert env rl sch c column item) (zip (zip rows keys) actions) ())
    (\<lambda>_ s. session_ok env base s \<and> upserted base table rows tx (fst s))
    (\<lambda>s. session_ok env base s \<and> (\<exists>n. upserted base table (take n rows) tx (fst s)))"
proof -
  let ?cat = "tx_catalog tx" and ?C = "caches_ok env (tx_catalog tx) base" and ?T = "node_name sch"
  let ?ins = "bt_items (ws_inserted_pks (tx_writes tx)) (node_name sch)" and ?items = "zip (zip rows keys) actions"
  note mem = tx_schema [OF ok sch(1)]
  have len: "length rows = length keys" "length actions = length keys"
    using rows actions by (auto simp: list_all2_lengthD upsert_plan_def)
  define R where "R i tx' \<longleftrightarrow> tx_ok env base tx' \<and> tx_catalog tx' = ?cat \<and>
      set (bt_items (ws_inserted_pks (tx_writes tx')) ?T) \<subseteq> set ?ins \<union> set (take i keys) \<and>
      turns base tx ?T c (fold (spec_put c) (take i rows)) tx'" for i :: nat and tx'
  let ?I = "\<lambda>(seen :: ((row \<times> devon_value) \<times> upsert_action) list) (_ :: unit) (s :: session). R (length seen) (fst s) \<and> ?C (fst (snd s))"
  let ?E = "\<lambda>s :: session. session_ok env base s \<and> (\<exists>n. upserted base table (take n rows) tx (fst s))"
  have fin: "session_ok env base s \<and> upserted base table (take i rows) tx (fst s)" if "R i (fst s) \<and> ?C (fst (snd s))" for i and s :: session
    using that sch by (auto simp: R_def session_ok_def upserted_def)
  have step: "triple (?I seen ()) (apply_upsert env rl sch c column item) (\<lambda>_. ?I (seen @ [item]) ()) ?E"
    if items: "?items = seen @ item # rest" for seen item rest
  proof (rule triple_from)
    let ?i = "length seen"
    have i: "?i < length keys" "?items ! ?i = item" using items len by (auto simp: list_eq_iff_nth_eq nth_append)
    then have item: "item = ((rows ! ?i, keys ! ?i), actions ! ?i)" using len by simp
    have valid: "validate_node_insert_row sch c (rows ! ?i) = Inr (keys ! ?i)" using rows i len by (simp add: list_all2_conv_all_nth)
    fix tx1 assume R: "R ?i tx1"
    then have ok1: "tx_ok env base tx1" and cat1: "tx_catalog tx1 = ?cat" by (simp_all add: R_def)
    have sub: "set (bt_items (ws_inserted_pks (tx_writes tx1)) ?T) \<subseteq> set ?ins \<union> set (take ?i keys)" using R by (simp add: R_def)
    have plan: "actions ! ?i = UpsertInsert \<Longrightarrow> (\<forall>k. pk_try_from (keys ! ?i) = Inr k \<longrightarrow> tx_table base tx c ?T k = None) \<and>
        keys ! ?i \<notin> set ?ins \<union> set (take ?i keys)"
      using actions i(1) by (simp add: upsert_plan_def)
    have fresh: "tx_table base tx1 c ?T k = None" if "actions ! ?i = UpsertInsert" "pk_try_from (keys ! ?i) = Inr k" for k
    proof -
      have "tx_table base tx1 c ?T k = fold (spec_put c) (take ?i rows) (tx_table base tx c ?T) k" using R by (simp add: R_def turns_def)
      also have "\<dots> = tx_table base tx c ?T k"
        using upsert_fresh [OF rows mem(2) sch(2) i(1) _ that(2)] plan [OF that(1)] by (intro fold_put_other) simp
      finally show ?thesis using plan [OF that(1)] that(2) by simp
    qed
    have eff: "triple (sess tx1 ?C) (apply_upsert env rl sch c column item)
        (\<lambda>_ s. sound s \<longrightarrow> tx_ok env base (fst s) \<and> ?C (fst (snd s)) \<and> turns base tx1 ?T c (spec_put c (rows ! ?i)) (fst s)) (sess tx1 ?C)"
      unfolding item cat1 [symmetric] by (rule apply_upsert_effect [OF ok1 _ sch(2) valid fresh]) (simp add: cat1 mem(1))
    have keep: "triple (upserting ?cat ?T ?ins (take ?i keys)) (apply_upsert env rl sch c column item)
        (\<lambda>_. upserting ?cat ?T ?ins (take ?i keys @ [keys ! ?i])) sound"
      unfolding item by (rule apply_upsert_triple [OF mem(1) sch(2) valid]) (use plan in simp)
    have up: "upserting ?cat ?T ?ins (take ?i keys) s" if "sess tx1 ?C s" for s
      using that ok1 cat1 sub by (auto simp: upserting_def sess_def tx_ok_def)
    have next_R: "R (Suc ?i) (fst s)" if "upserting ?cat ?T ?ins (take ?i keys @ [keys ! ?i]) s" "tx_ok env base (fst s)"
      "turns base tx1 ?T c (spec_put c (rows ! ?i)) (fst s)" for s
    proof -
      have rows_i: "take (Suc ?i) rows = take ?i rows @ [rows ! ?i]" "take (Suc ?i) keys = take ?i keys @ [keys ! ?i]"
        using i(1) len by (simp_all add: take_Suc_conv_app_nth)
      have "turns base tx ?T c (fold (spec_put c) (take ?i rows)) tx1" using R by (simp add: R_def)
      from turns_trans [OF this that(3)] that(1,2) show ?thesis by (simp add: R_def upserting_def rows_i comp_def)
    qed
    show "triple (sess tx1 ?C) (apply_upsert env rl sch c column item) (\<lambda>_. ?I (seen @ [item]) ()) ?E"
    proof (rule triple_conseq [OF triple_both [OF eff keep]], goal_cases)
      case (1 s)
      with up show ?case by blast
    next
      case (2 x s)
      then show ?case using next_R by (auto simp: upserting_def)
    next
      case (3 s)
      then obtain n where s: "fst s = charge n tx1" "?C (fst (snd s))" by (auto simp: sess_def)
      have "R ?i (fst s)" using R by (simp add: s R_def)
      then show ?case using fin s(2) by blast
    qed
  qed
  have "triple (?I [] ()) (sfold (\<lambda>item _. apply_upsert env rl sch c column item) ?items ()) (?I ?items) ?E"
    by (rule triple_fold_prefix [where I = ?I]) (rule step)
  then show ?thesis
  proof (rule triple_conseq, goal_cases)
    case (1 s)
    then show ?case using ok by (auto simp: sess_def R_def turns_def)
  next
    case (2 x s)
    from fin [OF 2] len show ?case by simp
  qed
qed

lemma upsert_effect:
  assumes ok: "tx_ok env base tx" and fit: "offsets_fit base tx"
  shows "triple (sess tx (caches_ok env (tx_catalog tx) base)) (execute_node_upsert env rl table rows)
    (\<lambda>_ s. session_ok env base s \<and> statement_effect base (StmtUpsertNode table rows) tx (fst s))
    (\<lambda>s. session_ok env base s \<and> (tables_kept base tx (fst s) \<or> (\<exists>n. upserted base table (take n rows) tx (fst s))))"
  (is "triple (sess tx ?C) _ ?Q ?E")
proof -
  have E: "?E s" if "sess tx ?C s" for s
    using that ok by (auto simp: sess_def session_ok_def tables_kept_def)
  have view: "tx_view env (tx_catalog tx) base (transaction_view tx)" using ok by (auto simp: tx_view_def)
  show ?thesis
    unfolding execute_node_upsert_def
  proof (rule triple_with_sess, rule triple_check, erule E, rule triple_check_pair, erule E, rule triple_check, erule E, goal_cases)
    case (1 n sch c column keys)
    have sch: "node_table (tx_catalog tx) table = Some sch" using 1(1) by (simp add: resolve_dml_table_def ok_or_eq_Inr)
    have c: "key_column sch = Some c" using 1(2) primary_key_column primary_key_position by metis
    have rows: "list_all2 (\<lambda>row key. validate_node_insert_row sch c row = Inr key) rows keys" using 1(3) by (simp add: rmapM_eq_Inr)
    note mem = tx_schema [OF ok sch]
    let ?ins = "bt_items (ws_inserted_pks (tx_writes tx)) (node_name sch)"
    let ?missing = "\<lambda>key. \<forall>k. pk_try_from key = Inr k \<longrightarrow> tx_table base tx c (node_name sch) k = None"
    have plan: "triple (sess tx ?C) (resolve_upsert_actions env (node_name sch) keys)
        (\<lambda>actions s. sess tx ?C s \<and> upsert_plan ?missing ?ins keys actions) ?E"
    proof (rule triple_conseq [OF tables.upsert_actions_triple [OF view]], goal_cases)
      case (2 actions s)
      then show ?case by (auto simp: upsert_plan_def intro: tx_absent [OF ok mem(1) c fit])
    qed (use E in blast)+
    show ?case
    proof (rule triple_bind [OF plan], rule triple_known)
      fix actions assume actions: "upsert_plan ?missing ?ins keys actions"
      have fin: "statement_effect base (StmtUpsertNode table rows) tx tx'" if "upserted base table rows tx tx'" for tx'
        using that sch c insert_rows_keyed(1) [OF rows mem(2) c] by (auto simp: upserted_def intro!: effectI [of _ table tx sch c])
      show "triple (sess tx ?C) (sfold (\<lambda>item _. apply_upsert env rl sch c column item) (zip (zip rows keys) actions) ()) ?Q ?E"
        by (rule triple_conseq [OF upsert_loop [OF ok sch c rows actions]]) (auto dest: fin)
    qed
  qed
qed

section \<open>Statements that keep the tables\<close>

lemma tables_kept_same:
  assumes "tx_state tx' = tx_state tx" "\<And>table. same_table table (tx_writes tx) (tx_writes tx')"
  shows "tables_kept base tx tx'"
proof -
  have "committed_table base tx' = committed_table base tx" by (simp add: committed_table_def assms(1) fun_eq_iff)
  then show ?thesis by (simp add: tables_kept_def tx_table_def same_table_own(1) [OF assms(2)])
qed

text \<open>A catalog with the same tables, and one with a table more.\<close>

lemma stored_ids_storage:
  "cat_storage cat' = cat_storage cat \<Longrightarrow> stored_group_ids cat' = stored_group_ids cat"
  by (simp add: stored_group_ids_def table_storage_of_def storage_state_of_def fun_eq_iff)

lemma static_same:
  assumes "tx_state tx' = tx_state tx" "stored_group_ids (tx_catalog tx') = stored_group_ids (tx_catalog tx)"
  shows "stored_ok env base tx' sch c = stored_ok env base tx sch c" "free_name base tx' table = free_name base tx table"
proof -
  have "untouched tx' = untouched tx" by (simp add: untouched_def assms fun_eq_iff)
  then show "stored_ok env base tx' sch c = stored_ok env base tx sch c" "free_name base tx' table = free_name base tx table"
    by (simp_all only: stored_ok_def free_name_def assms)
qed

lemma tx_ok_static:
  assumes ok: "tx_ok env base tx" and ok': "staged_ok tx'" and state: "tx_state tx' = tx_state tx"
    and writes: "\<And>table. same_table table (tx_writes tx) (tx_writes tx')"
    and cat: "cat_node_tables (tx_catalog tx') = cat_node_tables (tx_catalog tx)" "cat_storage (tx_catalog tx') = cat_storage (tx_catalog tx)"
  shows "tx_ok env base tx'" "caches_ok env (tx_catalog tx') base = caches_ok env (tx_catalog tx) base"
proof -
  have nt: "node_table (tx_catalog tx') = node_table (tx_catalog tx)" by (simp add: node_table_def cat fun_eq_iff)
  note ids = stored_ids_storage [OF cat(2)]
  have com: "committed_table base tx' = committed_table base tx" by (simp add: committed_table_def state fun_eq_iff)
  show "tx_ok env base tx'"
    using ok ok' same_table_own(2) [OF writes] by (simp add: tx_ok_def cat nt com static_same [OF state ids])
  show "caches_ok env (tx_catalog tx') base = caches_ok env (tx_catalog tx) base"
    by (simp add: caches_ok_def cat nt ids fun_eq_iff)
qed

lemma untouched_effects: "untouched tx table \<Longrightarrow> node_dml_effects (ps_chain (tx_state tx)) table c = Inr no_effects"
proof -
  have "rfold (\<lambda>link. effects_of_link table c (link_delta link)) links eff = Inr eff"
    if "\<forall>link \<in> set links. bt_items (delta_nodes (link_delta link)) table = [] \<and>
      bt_items (delta_node_updates (link_delta link)) table = [] \<and> bt_items (delta_node_deletes (link_delta link)) table = []" for links eff
    using that by (induction links) (simp_all add: effects_of_link_def)
  then show "untouched tx table \<Longrightarrow> ?thesis" by (simp add: untouched_def node_dml_effects_def)
qed

lemma bt_items_unnamed: "table \<notin> bt_keys m \<Longrightarrow> bt_items m table = []"
  using bt_get_keys [of m table] by (auto simp: bt_items_def split: option.split)

lemma tx_ok_created:
  assumes ok: "tx_ok env base tx" and ok': "staged_ok tx'" and sch: "node_schema_wf sch"
    and add: "add_node_table (tx_catalog tx) sch = Inr (tx_catalog tx')" and state: "tx_state tx' = tx_state tx"
    and writes: "\<And>table. same_table table (tx_writes tx) (tx_writes tx')"
  shows "tx_ok env base tx'" "caches_ok env (tx_catalog tx) base caches \<Longrightarrow> caches_ok env (tx_catalog tx') base caches"
proof -
  let ?T = "node_name sch"
  have fresh: "node_table (tx_catalog tx) ?T = None"
    and cat': "tx_catalog tx' = (tx_catalog tx)\<lparr> cat_node_tables := cat_node_tables (tx_catalog tx) @ [sch] \<rparr>"
    using add by (auto simp: add_node_table_def contains_table_def split: if_splits)
  have ids: "stored_group_ids (tx_catalog tx') = stored_group_ids (tx_catalog tx)" by (rule stored_ids_storage) (simp add: cat')
  have nt: "node_table (tx_catalog tx') table = None \<Longrightarrow> node_table (tx_catalog tx) table = None" for table
    by (auto simp: node_table_def cat' find_None_iff)
  have com: "committed_table base tx' = committed_table base tx" by (simp add: committed_table_def state fun_eq_iff)
  note same = static_same [OF state ids]
  have free: "free_name base tx ?T" using ok fresh by (simp add: tx_ok_def)
  obtain c where c: "key_column sch = Some c"
  proof -
    from sch obtain key where "filter scol_primary_key (node_columns sch) = [key]" by (auto simp: node_schema_wf_def)
    then have "key \<in> set (filter scol_primary_key (node_columns sch))" by simp
    then have "\<exists>col \<in> set (node_columns sch). scol_primary_key col" by auto
    then show ?thesis using that by (cases "key_column sch") (auto simp: position_None)
  qed
  have "stored_ok env base tx sch c"
    using free untouched_effects [of tx ?T c] by (simp add: stored_ok_def free_name_def c keyed_rows_def packed_def no_effects_def)
  moreover have "own_sound c ?T (tx_writes tx') m" for m
  proof -
    have "?T \<notin> node_name ` set (cat_node_tables (tx_catalog tx))" using fresh by (auto simp: node_table_def find_None_iff)
    moreover have "writes_named (tx_catalog tx) (tx_writes tx)" using ok by (simp add: tx_ok_def staged_ok_def writes_ok_def)
    ultimately have "bt_items (ws_nodes (tx_writes tx)) ?T = []" "bt_items (ws_node_updates (tx_writes tx)) ?T = []"
      "bt_items (ws_node_deletes (tx_writes tx)) ?T = []"
      by (auto simp: writes_named_def intro!: bt_items_unnamed)
    then have "own_sound c ?T (tx_writes tx) m" by (simp add: own_sound_def keyed_rows_def keys_of_def)
    then show ?thesis by (simp add: same_table_own(2) [OF writes])
  qed
  moreover have "cat_node_tables (tx_catalog tx') = cat_node_tables (tx_catalog tx) @ [sch]" by (simp add: cat')
  ultimately show "tx_ok env base tx'"
    using ok ok' nt same_table_own(2) [OF writes] by (auto simp: tx_ok_def com same)
  show "caches_ok env (tx_catalog tx') base caches" if "caches_ok env (tx_catalog tx) base caches"
    using that fresh nt free unfolding caches_ok_def ids by (auto simp: cat' free_name_def)
qed

section \<open>Every statement\<close>

definition failed_effect :: "base \<Rightarrow> 'plan statement \<Rightarrow> transaction \<Rightarrow> transaction \<Rightarrow> bool" where
  "failed_effect base stmt tx tx' \<longleftrightarrow> tables_kept base tx tx' \<or>
    (\<exists>table rows n. stmt = StmtUpsertNode table rows \<and> upserted base table (take n rows) tx tx')"

lemma effect_triple:
  assumes ok: "tx_ok env base tx"
    and m: "triple (sess tx (caches_ok env (tx_catalog tx) base)) m (post R (caches_ok env (tx_catalog tx) base))
      (sess tx (caches_ok env (tx_catalog tx) base))"
    and keep: "triple (sess tx any) m (\<lambda>_. sound) sound"
    and out: "\<And>tx'. R tx' \<Longrightarrow> staged_ok tx' \<Longrightarrow> tx_ok env base tx' \<and> statement_effect base stmt tx tx'"
    and caches: "\<And>tx' caches. R tx' \<Longrightarrow> staged_ok tx' \<Longrightarrow> caches_ok env (tx_catalog tx) base caches \<Longrightarrow> caches_ok env (tx_catalog tx') base caches"
  shows "triple (sess tx (caches_ok env (tx_catalog tx) base)) m
    (\<lambda>_ s. session_ok env base s \<and> statement_effect base stmt tx (fst s))
    (\<lambda>s. session_ok env base s \<and> failed_effect base stmt tx (fst s))"
proof (rule triple_conseq [OF triple_both [OF m keep]], goal_cases)
  case (3 s)
  then show ?case using ok by (auto simp: sess_def session_ok_def failed_effect_def tables_kept_def)
qed (use out caches in \<open>auto simp: sess_def post_def session_ok_def\<close>)

lemma kept_effect: "statement_table stmt = None \<Longrightarrow> tables_kept base tx tx' \<Longrightarrow> statement_effect base stmt tx tx'"
  by (simp add: statement_effect_def)

lemma catalog_triple:
  assumes "P (tx\<lparr> tx_catalog := cat \<rparr>)" "\<And>n. P (charge n (tx\<lparr> tx_catalog := cat \<rparr>)) = P (tx\<lparr> tx_catalog := cat \<rparr>)"
  shows "triple (sess tx C) (set_tx_catalog cat) (post P C) E"
proof (rule triple_set_catalog)
  fix tx' caches budget assume "sess tx C (tx', caches, budget)"
  then obtain n where "tx' = charge n tx" "C caches" by (auto simp: sess_def)
  moreover have "(charge n tx)\<lparr> tx_catalog := cat \<rparr> = charge n (tx\<lparr> tx_catalog := cat \<rparr>)" by (simp add: charge_def)
  ultimately show "post P C () (tx'\<lparr> tx_catalog := cat \<rparr>, caches, budget)" using assms by (simp add: post_def)
qed

text \<open>A change of the metadata keeps tables, storage and writes.\<close>

definition metadata_change :: "transaction \<Rightarrow> transaction \<Rightarrow> bool" where
  "metadata_change tx tx' \<longleftrightarrow> tx_state tx' = tx_state tx \<and> same_tables (tx_catalog tx) (tx_catalog tx') \<and>
    (\<forall>table. same_table table (tx_writes tx) (tx_writes tx'))"

lemma metadata_change_catalog:
  "same_tables (tx_catalog tx) cat \<Longrightarrow> triple (sess tx C) (set_tx_catalog cat) (post (metadata_change tx) C) E"
  by (rule catalog_triple) (simp_all add: metadata_change_def same_table_def)

lemma metadata_effect:
  assumes "tx_ok env base tx" "staged_ok tx'" "metadata_change tx tx'" "statement_table stmt = None"
  shows "tx_ok env base tx' \<and> statement_effect base stmt tx tx'" "caches_ok env (tx_catalog tx') base = caches_ok env (tx_catalog tx) base"
proof -
  from assms(3) have same: "tx_state tx' = tx_state tx" "\<And>table. same_table table (tx_writes tx) (tx_writes tx')"
    "cat_node_tables (tx_catalog tx') = cat_node_tables (tx_catalog tx)" "cat_storage (tx_catalog tx') = cat_storage (tx_catalog tx)"
    by (auto simp: metadata_change_def same_tables_def)
  note static = tx_ok_static [OF assms(1,2) same]
  from static(1) tables_kept_same [OF same(1,2)] assms(4) show "tx_ok env base tx' \<and> statement_effect base stmt tx tx'"
    by (simp add: kept_effect)
  show "caches_ok env (tx_catalog tx') base = caches_ok env (tx_catalog tx) base" by (rule static(2))
qed

lemma staged_by_catalog: "staged_by f tx tx' \<Longrightarrow> tx_catalog tx' = tx_catalog tx"
  by (auto simp: staged_by_def)

lemma outcome_catalog:
  "tables.insert_outcome env cat base table rows tx tx' \<Longrightarrow> tx_catalog tx' = tx_catalog tx"
  "tables.update_outcome env cat base table items key tx tx' \<Longrightarrow> tx_catalog tx' = tx_catalog tx"
  "tables.delete_outcome env cat base table key tx tx' \<Longrightarrow> tx_catalog tx' = tx_catalog tx"
  "tables.detach_outcome env cat base table key tx tx' \<Longrightarrow> tx_catalog tx' = tx_catalog tx"
  by (auto simp: tables.insert_outcome_def tables.update_outcome_def tables.delete_outcome_def tables.detach_outcome_def
      dest: staged_by_catalog)

text \<open>What a step establishes for a statement, and what it leaves behind when it fails.\<close>

abbreviation returns :: "read_env \<Rightarrow> base \<Rightarrow> 'plan statement \<Rightarrow> transaction \<Rightarrow> unit \<Rightarrow> session \<Rightarrow> bool" where
  "returns env base stmt tx \<equiv> \<lambda>_ s. session_ok env base s \<and> statement_effect base stmt tx (fst s)"

abbreviation fails :: "read_env \<Rightarrow> base \<Rightarrow> 'plan statement \<Rightarrow> transaction \<Rightarrow> session \<Rightarrow> bool" where
  "fails env base stmt tx \<equiv> \<lambda>s. session_ok env base s \<and> failed_effect base stmt tx (fst s)"

lemma metadata_triple:
  assumes "tx_ok env base tx" "statement_table stmt = None"
    and m: "triple (sess tx (caches_ok env (tx_catalog tx) base)) m (post (metadata_change tx) (caches_ok env (tx_catalog tx) base))
      (sess tx (caches_ok env (tx_catalog tx) base))"
    and keep: "triple (sess tx any) m (\<lambda>_. sound) sound"
  shows "triple (sess tx (caches_ok env (tx_catalog tx) base)) m (returns env base stmt tx) (fails env base stmt tx)"
  by (rule effect_triple [OF assms(1) m keep]) (use metadata_effect [OF assms(1) _ _ assms(2)] in auto)

lemma create_effect:
  assumes ok: "tx_ok env base tx" and keep: "triple (sess tx any) (execute_create_node_table rl name columns) (\<lambda>_. sound) sound"
  shows "triple (sess tx (caches_ok env (tx_catalog tx) base)) (execute_create_node_table rl name columns)
    (returns env base (StmtCreateNodeTable name columns :: 'plan statement) tx)
    (fails env base (StmtCreateNodeTable name columns :: 'plan statement) tx)"
proof (rule effect_triple [OF ok _ keep])
  let ?C = "caches_ok env (tx_catalog tx) base"
  define R where "R tx' \<longleftrightarrow> (\<exists>sch. node_schema_wf sch \<and> add_node_table (tx_catalog tx) sch = Inr (tx_catalog tx') \<and>
    tx_state tx' = tx_state tx \<and> (\<forall>table. same_table table (tx_writes tx) (tx_writes tx')))" for tx' :: transaction
  show "triple (sess tx ?C) (execute_create_node_table rl name columns) (post R ?C) (sess tx ?C)"
    unfolding execute_create_node_table_def
  proof (rule triple_with_sess, rule triple_check, assumption, rule triple_check, assumption, rule triple_check, assumption, goal_cases)
    case (1 n sch u cat')
    then show ?case
      by (intro triple_conseq [OF tables.stage_ddl_triple]) (auto simp: post_def R_def node_schema_new_iff same_table_def)
  qed
  fix tx' assume R: "R tx'" and ok': "staged_ok tx'"
  then obtain sch where sch: "node_schema_wf sch" "add_node_table (tx_catalog tx) sch = Inr (tx_catalog tx')"
    "tx_state tx' = tx_state tx" "\<And>table. same_table table (tx_writes tx) (tx_writes tx')" by (auto simp: R_def)
  note created = tx_ok_created [OF ok ok' sch]
  from created(1) tables_kept_same [OF sch(3,4)] show "tx_ok env base tx' \<and> statement_effect base (StmtCreateNodeTable name columns :: 'plan statement) tx tx'"
    by (simp add: kept_effect)
  show "caches_ok env (tx_catalog tx') base caches" if "caches_ok env (tx_catalog tx) base caches" for caches
    using created(2) that .
qed

lemma create_rel_effect:
  assumes ok: "tx_ok env base tx" and keep: "triple (sess tx any) (execute_create_rel_table rl name src dst columns) (\<lambda>_. sound) sound"
  shows "triple (sess tx (caches_ok env (tx_catalog tx) base)) (execute_create_rel_table rl name src dst columns)
    (returns env base (StmtCreateRelTable name src dst columns :: 'plan statement) tx)
    (fails env base (StmtCreateRelTable name src dst columns :: 'plan statement) tx)"
proof (rule effect_triple [OF ok _ keep])
  let ?C = "caches_ok env (tx_catalog tx) base"
  define R where "R tx' \<longleftrightarrow> tx_state tx' = tx_state tx \<and> (\<forall>table. same_table table (tx_writes tx) (tx_writes tx')) \<and>
    cat_node_tables (tx_catalog tx') = cat_node_tables (tx_catalog tx) \<and> cat_storage (tx_catalog tx') = cat_storage (tx_catalog tx)" for tx' :: transaction
  show "triple (sess tx ?C) (execute_create_rel_table rl name src dst columns) (post R ?C) (sess tx ?C)"
    unfolding execute_create_rel_table_def
  proof (rule triple_with_sess, rule triple_check, assumption, rule triple_check, assumption, goal_cases)
    case (1 n sch cat')
    then have "cat_node_tables cat' = cat_node_tables (tx_catalog tx)" "cat_storage cat' = cat_storage (tx_catalog tx)"
      by (auto simp: add_rel_table_def rbind_eq_Inr split: if_splits)
    then show ?case
      by (intro triple_conseq [OF tables.stage_ddl_triple]) (auto simp: post_def R_def same_table_def)
  qed
  fix tx' assume R: "R tx'" and ok': "staged_ok tx'"
  then have same: "tx_state tx' = tx_state tx" "\<And>table. same_table table (tx_writes tx) (tx_writes tx')"
    "cat_node_tables (tx_catalog tx') = cat_node_tables (tx_catalog tx)" "cat_storage (tx_catalog tx') = cat_storage (tx_catalog tx)"
    by (auto simp: R_def)
  note static = tx_ok_static [OF ok ok' same]
  from static(1) tables_kept_same [OF same(1,2)]
  show "tx_ok env base tx' \<and> statement_effect base (StmtCreateRelTable name src dst columns :: 'plan statement) tx tx'" by (simp add: kept_effect)
  show "caches_ok env (tx_catalog tx') base caches" if "caches_ok env (tx_catalog tx) base caches" for caches
    using static(2) that by simp
qed

lemma statement_effects:
  assumes ok: "tx_ok env base tx" and fit: "offsets_fit base tx" and rows: "statement_rows stmt"
    and ont: "ontology_pending tx \<Longrightarrow> is_ontology_statement stmt"
  shows "triple (sess tx (caches_ok env (tx_catalog tx) base)) (execute_statement env rl se stmt)
    (returns env base stmt tx) (fails env base stmt tx)"
proof -
  let ?C = "caches_ok env (tx_catalog tx) base"
  have sok: "staged_ok tx" using ok by (simp add: tx_ok_def)
  note keep = statement_sound [OF rows sok ont, of env rl se]
  note rem = staged_ok_removable [OF sok]
  have view: "tx_view env (tx_catalog tx) base (transaction_view tx)" using ok by (auto simp: tx_view_def)
  show ?thesis
  proof (cases stmt)
    case (StmtCreateNodeTable name columns)
    with create_effect [OF ok] keep show ?thesis by simp
  next
    case (StmtCreateRelTable name src dst columns)
    with create_rel_effect [OF ok] keep show ?thesis by simp
  next
    case (StmtInsertNode table ins)
    from keep show ?thesis
      unfolding StmtInsertNode execute_statement.simps
      by (intro effect_triple [OF ok tables.insert_triple [OF view]])
        (auto dest: insert_effect [OF ok fit] outcome_catalog)
  next
    case (StmtInsertRel table edges)
    from keep show ?thesis
      unfolding StmtInsertRel execute_statement.simps
    proof (intro metadata_triple [OF ok])
      show "triple (sess tx ?C) (execute_rel_insert env rl table edges) (post (metadata_change tx) ?C) (sess tx ?C)"
        by (rule triple_conseq [OF tables.edges_triple [OF view]])
          (auto simp: post_def tables.edges_outcome_def staged_by_def metadata_change_def same_tables_def same_table_def stage_edges_def)
    qed simp_all
  next
    case (StmtUpsertNode table ins)
    show ?thesis
      unfolding StmtUpsertNode execute_statement.simps
      by (rule triple_conseq [OF upsert_effect [OF ok fit]]) (auto simp: failed_effect_def)
  next
    case (StmtUpdateNode table items column key)
    have out: "tx_ok env base tx' \<and> statement_effect base (StmtUpdateNode table items column key) tx tx'"
      if "tables.update_outcome env (tx_catalog tx) base table items key tx tx'" "staged_ok tx'" for tx'
      by (rule update_effect [OF ok that(2,1)]) (auto intro!: effectI [of _ table])
    from keep show ?thesis
      unfolding StmtUpdateNode execute_statement.simps
      by (intro effect_triple [OF ok tables.update_triple [OF view]])
        (auto dest: out outcome_catalog)
  next
    case (StmtDeleteNode table column key)
    from keep show ?thesis
      unfolding StmtDeleteNode execute_statement.simps
      by (intro effect_triple [OF ok tables.delete_triple [OF view rem]])
        (auto dest: node_delete_effect [OF ok] outcome_catalog)
  next
    case (StmtDetachDeleteNode table column key)
    from keep show ?thesis
      unfolding StmtDetachDeleteNode execute_statement.simps
      by (intro effect_triple [OF ok tables.detach_triple [OF view rem]])
        (auto dest: detach_effect [OF ok] outcome_catalog)
  next
    case (StmtCreateInterface name columns)
    from keep show ?thesis
      unfolding StmtCreateInterface
      by (intro metadata_triple [OF ok])
        (auto intro!: triple_with_sess triple_check metadata_change_catalog metadata_same_tables(1))
  next
    case (StmtCreateClass table cc)
    from keep show ?thesis
      unfolding StmtCreateClass
      by (intro metadata_triple [OF ok])
        (auto intro!: triple_with_sess triple_check metadata_change_catalog metadata_same_tables(6) simp: execute_create_class_def)
  next
    case (StmtCreateHnswIndex name table column)
    from keep show ?thesis
      unfolding StmtCreateHnswIndex
      by (intro metadata_triple [OF ok])
        (auto intro!: triple_with_sess triple_check triple_conseq [OF triple_stage]
          simp: post_def staged_by_def metadata_change_def same_tables_def same_table_def)
  next
    case (StmtPinPlan name body plan)
    from keep show ?thesis
      unfolding StmtPinPlan
      by (intro metadata_triple [OF ok])
        (auto intro!: triple_with_sess triple_check metadata_change_catalog intro: metadata_same_tables(4) simp: rbind_eq_Inr)
  next
    case (StmtUnpinPlan name)
    from keep show ?thesis
      unfolding StmtUnpinPlan
      by (intro metadata_triple [OF ok])
        (auto intro!: triple_with_sess triple_check metadata_change_catalog metadata_same_tables(5))
  next
    case (StmtCopyNode table path sort_by)
    from keep show ?thesis
      unfolding StmtCopyNode
      by (intro metadata_triple [OF ok]) (auto intro: triple_lift)
  qed
qed

lemma poisoned_same [simp]:
  "tx_ok env base (tx\<lparr> tx_poisoned := p \<rparr>) = tx_ok env base tx"
  "failed_effect base stmt tx (tx'\<lparr> tx_poisoned := p \<rparr>) = failed_effect base stmt tx tx'"
proof -
  have com: "committed_table base (tx\<lparr> tx_poisoned := p \<rparr>) = committed_table base tx" for tx
    by (simp add: committed_table_def fun_eq_iff)
  have "stored_ok env base (tx\<lparr> tx_poisoned := p \<rparr>) sch c = stored_ok env base tx sch c"
    "free_name base (tx\<lparr> tx_poisoned := p \<rparr>) table = free_name base tx table" for sch c table
    by (rule static_same; simp)+
  with com show "tx_ok env base (tx\<lparr> tx_poisoned := p \<rparr>) = tx_ok env base tx"
    "failed_effect base stmt tx (tx'\<lparr> tx_poisoned := p \<rparr>) = failed_effect base stmt tx tx'"
    by (simp_all add: tx_ok_def staged_ok_def ddl_follows_def failed_effect_def tables_kept_def
        upserted_def turns_def tx_table_def)
qed

lemma transaction_effects:
  assumes "tx_ok env base tx" "offsets_fit base tx" "statement_rows stmt"
  shows "triple (sess tx (caches_ok env (tx_catalog tx) base)) (execute_transaction env rl se stmt)
    (returns env base stmt tx) (fails env base stmt tx)"
  unfolding execute_transaction_def
proof (rule triple_with_sess, intro triple_if, goal_cases)
  case (4 n)
  then show ?case using assms by (intro statement_effects) (auto simp: ontology_pending_def)
qed (use assms(1) in \<open>auto intro!: triple_lift simp: sess_def session_ok_def failed_effect_def tables_kept_def\<close>)


definition sample_table_state :: published_state where
  "sample_table_state = empty_state\<lparr> ps_catalog := catalog_default\<lparr> cat_node_tables := [sample_node_schema] \<rparr> \<rparr>"

definition sample_session :: session where
  "sample_session = (transaction_new 0 sample_table_state, \<lambda>_. cache_default, budget_new 4096)"

lemma sample_schema: "node_schema_wf sample_node_schema" "key_column sample_node_schema = Some 0" "node_name sample_node_schema = ''T''"
proof -
  have "node_schema_new (node_name sample_node_schema) (node_columns sample_node_schema) = Inr sample_node_schema" by code_simp
  then show "node_schema_wf sample_node_schema" by (simp add: node_schema_new_iff)
qed (code_simp)+

lemma sample_session_ok: "session_ok sample_env (\<lambda>_. []) sample_session" "offsets_fit (\<lambda>_. []) (fst sample_session)"
proof -
  let ?tx = "transaction_new 0 sample_table_state" and ?cat = "catalog_default\<lparr> cat_node_tables := [sample_node_schema] \<rparr>"
  have tx: "tx_catalog ?tx = ?cat" "ps_catalog (tx_state ?tx) = ?cat" "ps_chain (tx_state ?tx) = None" "tx_writes ?tx = write_set_default"
    by (simp_all add: transaction_new_def sample_table_state_def empty_state_def)
  have ids: "stored_group_ids ?cat table = []" for table
    by (simp add: stored_group_ids_def table_storage_of_def storage_state_of_def catalog_default_def bt_get_def)
  have table: "node_table ?cat ''T'' = Some sample_node_schema" by code_simp
  have "tables_wf ?cat" using sample_schema table by (auto simp: tables_wf_def catalog_default_def)
  then have sok: "staged_ok ?tx" by (intro staged_ok_new) (simp add: sample_table_state_def empty_state_def)
  have un: "untouched ?tx table" for table by (simp add: untouched_def tx commit_links_oldest_first_def)
  have "stored_ok sample_env (\<lambda>_. []) ?tx sample_node_schema 0"
    by (simp add: stored_ok_def tx ids sample_schema table untouched_effects [OF un, unfolded tx] no_effects_def packed_def keyed_rows_def)
  moreover have "own_sound 0 ''T'' (tx_writes ?tx) m" for m
    by (simp add: tx write_set_default_def own_sound_def keyed_rows_def keys_of_def bt_items_def bt_get_def)
  moreover have "node_table ?cat table = None \<Longrightarrow> free_name (\<lambda>_. []) ?tx table" for table
    by (simp add: free_name_def tx ids un)
  ultimately have "tx_ok sample_env (\<lambda>_. []) ?tx"
    using sok sample_schema by (auto simp: tx_ok_def tx catalog_default_def)
  moreover have "cache_ok store c gids gs cache_default" for store c gids gs by (simp add: cache_ok_def cache_default_def)
  ultimately show "session_ok sample_env (\<lambda>_. []) sample_session" by (simp add: session_ok_def sample_session_def caches_ok_def)
  show "offsets_fit (\<lambda>_. []) (fst sample_session)"
  proof -
    have "length (view_slots (transaction_view (fst sample_session)) (node_name sample_node_schema) 0) = 0"
      "length (own_inserts (transaction_view (fst sample_session)) (node_name sample_node_schema)) = 0"
      by code_simp+
    moreover have "cat_node_tables (tx_catalog (fst sample_session)) = [sample_node_schema]" by (simp add: sample_session_def tx)
    ultimately show ?thesis unfolding offsets_fit_def by (auto simp: sample_schema(2))
  qed
qed


end
