(* ===== verification/CommitTxn.thy ===== *)
theory CommitTxn
  imports Statements
begin

text \<open>
  Committing a transaction (\<^verbatim>\<open>devondb/src/database/commit.rs\<close>, \<open>commit_transaction\<close> to \<open>commit_locked\<close>,
  \<open>checkpoint_locked\<close> of \<^verbatim>\<open>checkpoint.rs\<close> and \<open>Transaction::commit\<close> of \<^verbatim>\<open>txn.rs\<close>): a commit of data
  with its retry behind a checkpoint, the publication of metadata and of an index, and the checkpoint
  that may follow. All of it runs under the lock of the commit pipe, so each is one function on the
  shared state.
\<close>

section \<open>The shared state\<close>

text \<open>
  What the handles of a database share: the published state and its primary-key caches, the budget,
  the pipe with the log writer, the LSN of the last saved superblock and the registered transactions.
\<close>

record db =
  db_state :: published_state
  db_caches :: caches
  db_budget :: memory_budget
  db_pipe :: commit_pipe
  db_checkpoint_lsn :: u64
  db_write_txns :: "(u64, u64) btree"

text \<open>
  What a checkpoint meets outside: the remembered refusal of a detach, the writing of the tables and
  indexes of a state, which gives the catalog that locates them, and the outcomes of file operations.
\<close>

record checkpoint_io =
  ci_backoff :: "unit devon_result"
  ci_materialize :: "published_state \<Rightarrow> catalog devon_result"
  ci_save :: "unit devon_result"
  ci_truncate :: "unit devon_result"
  ci_open :: "unit devon_result"
  ci_flags :: "unit devon_result"

record commit_env =
  ce_read :: read_env
  ce_json :: serde_json
  ce_crc :: crc_fun
  ce_crc_append :: crc_append_fun
  ce_io :: commit_io
  ce_shed :: "memory_budget \<Rightarrow> memory_budget"
  ce_checkpoint :: checkpoint_io
  ce_publish :: checkpoint_io
  ce_check_index :: "catalog \<Rightarrow> unit devon_result"
  ce_build_index :: "catalog \<Rightarrow> catalog devon_result"
  ce_auto_checkpoint :: "checkpoint_io option"

definition next_lsn :: "u64 \<Rightarrow> u64 devon_result" where
  "next_lsn checkpoint_lsn = ok_or (InvalidArgument ''WAL LSN space is exhausted'') (checked_add_word checkpoint_lsn 1)"

section \<open>Checkpoints\<close>

text \<open>The writer is taken down first, so that a failure leaves none behind.\<close>

definition rotate_empty_wal :: "crc_fun \<Rightarrow> crc_append_fun \<Rightarrow> checkpoint_io \<Rightarrow> db \<Rightarrow> unit devon_result \<times> db" where
  "rotate_empty_wal crc32c crc32c_append io db =
    (let taken = db\<lparr> db_pipe := (db_pipe db)\<lparr> cp_wal := None \<rparr> \<rparr>
     in case
       rbind (ci_truncate io) (\<lambda>_. rbind (next_lsn (db_checkpoint_lsn db)) (\<lambda>lsn. rbind (ci_open io) (\<lambda>_. Inr lsn))) of
       Inl e \<Rightarrow> (Inl e, taken)
     | Inr lsn \<Rightarrow>
         (Inr (), db\<lparr> db_pipe := (db_pipe db)\<lparr> cp_wal := Some (wal_open crc32c crc32c_append [] lsn) \<rparr> \<rparr>))"

definition checkpoint_wal_flags :: u64 where
  "checkpoint_wal_flags = DML_WAL_FLAG OR REL_TOMBSTONE_WAL_FLAG OR HNSW_MUTATION_WAL_FLAG"

definition clear_checkpoint_wal_flags :: "checkpoint_io \<Rightarrow> db \<Rightarrow> unit devon_result \<times> db" where
  "clear_checkpoint_wal_flags io db =
    (if cp_flags (db_pipe db) AND checkpoint_wal_flags = 0 then (Inr (), db)
     else (case ci_flags io of
       Inl e \<Rightarrow> (Inl e, db)
     | Inr _ \<Rightarrow> (Inr (), db\<lparr> db_pipe := (db_pipe db)\<lparr> cp_flags := cp_flags (db_pipe db) AND NOT checkpoint_wal_flags \<rparr> \<rparr>)))"

text \<open>A new published state does not adopt the caches of the old one.\<close>

definition publish_fresh :: "published_state \<Rightarrow> db \<Rightarrow> db" where
  "publish_fresh state db = db\<lparr> db_state := state, db_caches := (\<lambda>_. cache_default) \<rparr>"

definition checkpoint_locked :: "crc_fun \<Rightarrow> crc_append_fun \<Rightarrow> checkpoint_io \<Rightarrow> db \<Rightarrow> unit devon_result \<times> db" where
  "checkpoint_locked crc32c crc32c_append io = sbind (slift (ci_backoff io)) (\<lambda>_ db.
    let current = db_state db in
    if ps_chain current = None
    then
      sbind (rotate_empty_wal crc32c crc32c_append io) (\<lambda>_.
      sbind (clear_checkpoint_wal_flags io) (\<lambda>_ db.
      let retained = retained_summaries (db_write_txns db) current in
      (Inr (), if length retained \<noteq> length (ps_recent_summaries current)
               then publish_fresh (checkpoint_publish (db_write_txns db) (ps_catalog current) current) db else db))) db
    else
      (case rbind (ci_materialize io current) (\<lambda>cat. rbind (ci_save io) (\<lambda>_. Inr cat)) of
         Inl e \<Rightarrow> (Inl e, db)
       | Inr cat \<Rightarrow>
           sbind (rotate_empty_wal crc32c crc32c_append io) (\<lambda>_.
           sbind (clear_checkpoint_wal_flags io) (\<lambda>_ db.
           (Inr (), publish_fresh (checkpoint_publish (db_write_txns db) cat current) db)))
             (db\<lparr> db_checkpoint_lsn := ps_last_commit_lsn current \<rparr>)))"

section \<open>Publishing metadata and indexes\<close>

definition pin_by_name :: "pin_entry list \<Rightarrow> string \<Rightarrow> pin_entry option" where
  "pin_by_name pins name = find (\<lambda>p. fold_name (pin_name p) = fold_name name) pins"

definition replay_pin_changes :: "catalog \<Rightarrow> transaction \<Rightarrow> u64 \<Rightarrow> catalog devon_result" where
  "replay_pin_changes cat tx publish_lsn =
    (let base = cat_pins (ps_catalog (tx_state tx)); pending = cat_pins (tx_catalog tx)
     in rbind (rfold (\<lambda>entry cat.
          if pin_by_name pending (pin_name entry) = Some entry then Inr cat else unpin cat (pin_name entry)) base cat) (\<lambda>cat.
        rfold (\<lambda>entry cat.
          if pin_by_name base (pin_name entry) = Some entry then Inr cat
          else pin cat (entry\<lparr> pin_created_lsn := publish_lsn \<rparr>)) pending cat))"

definition appended :: "'a list \<Rightarrow> 'a list \<Rightarrow> 'a list devon_result" where
  "appended base pending =
    (if take (length base) pending = base then Inr (drop (length base) pending)
     else Inl (Corrupt ''transaction-local ontology {} do not extend the snapshot catalog''))"

definition replay_ontology_additions :: "catalog \<Rightarrow> transaction \<Rightarrow> catalog devon_result" where
  "replay_ontology_additions cat tx =
    (let base = (case cat_ontology (ps_catalog (tx_state tx)) of None \<Rightarrow> ontology_default | Some ont \<Rightarrow> ont)
     in rbind (ok_or (Corrupt ''pending ontology disappeared before commit'') (cat_ontology (tx_catalog tx))) (\<lambda>pending.
        rbind (appended (ont_interfaces base) (ont_interfaces pending)) (\<lambda>interfaces.
        rbind (rfold (\<lambda>entry cat.
          rbind (reject_node_collision_for_interface cat (if_name entry)) (\<lambda>_. declare_interface cat entry)) interfaces cat) (\<lambda>cat.
        rbind (appended (ont_node_classes base) (ont_node_classes pending)) (\<lambda>node_classes.
        rbind (rfold (\<lambda>entry cat. declare_node_class cat entry) node_classes cat) (\<lambda>cat.
        rbind (appended (ont_rel_classes base) (ont_rel_classes pending)) (\<lambda>rel_classes.
        rfold (\<lambda>entry cat. declare_rel_class cat entry) rel_classes cat)))))))"

text \<open>Saving a catalog under a fresh LSN and publishing it over an empty chain.\<close>

definition publish_catalog :: "crc_fun \<Rightarrow> crc_append_fun \<Rightarrow> checkpoint_io \<Rightarrow> catalog \<Rightarrow> u64 \<Rightarrow> db \<Rightarrow> unit devon_result \<times> db" where
  "publish_catalog crc32c crc32c_append io cat publish_lsn db =
    (case ci_save io of
       Inl e \<Rightarrow> (Inl e, db)
     | Inr _ \<Rightarrow>
         sbind (rotate_empty_wal crc32c crc32c_append io) (\<lambda>_ db.
         (Inr (), publish_fresh \<lparr> ps_catalog = cat, ps_chain = None, ps_last_commit_lsn = publish_lsn,
            ps_catalog_generation = publish_lsn, ps_recent_summaries = ps_recent_summaries (db_state db) \<rparr> db))
           (db\<lparr> db_checkpoint_lsn := publish_lsn \<rparr>))"

definition publish_metadata :: "commit_env \<Rightarrow> transaction \<Rightarrow> db \<Rightarrow> unit devon_result \<times> db" where
  "publish_metadata ce tx =
    sbind (slift (if write_set_is_empty (tx_writes tx) then Inr ()
      else Inl (Corrupt ''metadata transaction unexpectedly contains non-metadata writes''))) (\<lambda>_.
    sbind (checkpoint_locked (ce_crc ce) (ce_crc_append ce) (ce_checkpoint ce)) (\<lambda>_ db.
    case
      rbind (next_lsn (db_checkpoint_lsn db)) (\<lambda>publish_lsn.
      rbind (if ontology_pending tx then replay_ontology_additions (ps_catalog (db_state db)) tx
        else Inr (ps_catalog (db_state db))) (\<lambda>cat.
      rbind (if pins_pending tx then replay_pin_changes cat tx publish_lsn else Inr cat) (\<lambda>cat.
      Inr (cat, publish_lsn)))) of
      Inl e \<Rightarrow> (Inl e, db)
    | Inr (cat, publish_lsn) \<Rightarrow> publish_catalog (ce_crc ce) (ce_crc_append ce) (ce_publish ce) cat publish_lsn db))"

text \<open>
  The check of the index against a catalog, its build and its entry in the catalog are arguments.
\<close>

definition publish_index_build :: "commit_env \<Rightarrow> db \<Rightarrow> unit devon_result \<times> db" where
  "publish_index_build ce =
    sbind (\<lambda>db. (ce_check_index ce (ps_catalog (db_state db)), db)) (\<lambda>_.
    sbind (checkpoint_locked (ce_crc ce) (ce_crc_append ce) (ce_checkpoint ce)) (\<lambda>_ db.
    case
      rbind (ce_check_index ce (ps_catalog (db_state db))) (\<lambda>_.
      rbind (ce_build_index ce (ps_catalog (db_state db))) (\<lambda>cat.
      rbind (next_lsn (db_checkpoint_lsn db)) (\<lambda>publish_lsn. Inr (cat, publish_lsn)))) of
      Inl e \<Rightarrow> (Inl e, db)
    | Inr (cat, publish_lsn) \<Rightarrow> publish_catalog (ce_crc ce) (ce_crc_append ce) (ce_publish ce) cat publish_lsn db))"

section \<open>Committing data\<close>

definition prepare_on :: "commit_env \<Rightarrow> transaction \<Rightarrow> db \<Rightarrow> prepared_commit devon_result \<times> db" where
  "prepare_on ce tx db =
    (case prepare_commit (ce_read ce) (db_state db) tx (db_caches db, db_budget db) of
       (res, caches, budget) \<Rightarrow> (res, db\<lparr> db_caches := caches, db_budget := budget \<rparr>))"

definition transfer_on ::
    "prepared_commit \<Rightarrow> transaction \<times> db \<Rightarrow> commit_reservation devon_result \<times> transaction \<times> db" where
  "transfer_on p = (\<lambda>(tx, db).
    case transfer_commit_charge (pc_delta p) (pc_summary p) (tx_writes tx, db_budget db) of
      (res, w, budget) \<Rightarrow> (res, tx\<lparr> tx_writes := w \<rparr>, db\<lparr> db_budget := budget \<rparr>))"

text \<open>An ordinary commit leaves the storage alone: the next state adopts the caches.\<close>

definition publish_on :: "commit_env \<Rightarrow> prepared_commit \<Rightarrow> commit_reservation \<Rightarrow> db \<Rightarrow> unit devon_result \<times> db" where
  "publish_on ce p r db =
    (case publish_prepared_commit (ce_json ce) (ce_crc ce) (ce_crc_append ce) (ce_io ce) p r (db_pipe db, db_budget db) of
       (Inl e, pipe, budget) \<Rightarrow> (Inl e, db\<lparr> db_pipe := pipe, db_budget := budget \<rparr>)
     | (Inr state, pipe, budget) \<Rightarrow> (Inr (), db\<lparr> db_state := state, db_pipe := pipe, db_budget := budget \<rparr>))"

definition shed_on :: "commit_env \<Rightarrow> db \<Rightarrow> db" where
  "shed_on ce db = db\<lparr> db_budget := ce_shed ce (db_budget db) \<rparr>"

definition commit_locked :: "commit_env \<Rightarrow> transaction \<times> db \<Rightarrow> unit devon_result \<times> transaction \<times> db" where
  "commit_locked ce = (\<lambda>(tx, db).
    case prepare_on ce tx db of
      (Inl e, db) \<Rightarrow> (Inl e, tx, db)
    | (Inr p, db) \<Rightarrow>
        (case transfer_on p (tx, db) of
           (Inr r, tx, db) \<Rightarrow> (case publish_on ce p r db of (res, db) \<Rightarrow> (res, tx, db))
         | (Inl (BudgetExceeded context), tx, db) \<Rightarrow>
             (case checkpoint_locked (ce_crc ce) (ce_crc_append ce) (ce_checkpoint ce) (shed_on ce db) of
                (Inl e, db) \<Rightarrow> (Inl e, tx, db)
              | (Inr _, db) \<Rightarrow>
                  (case prepare_on ce tx (shed_on ce db) of
                     (Inl e, db) \<Rightarrow> (Inl e, tx, db)
                   | (Inr p, db) \<Rightarrow>
                       (case transfer_on p (tx, db) of
                          (Inl e, tx, db) \<Rightarrow> (Inl e, tx, db)
                        | (Inr r, tx, db) \<Rightarrow> (case publish_on ce p r db of (res, db) \<Rightarrow> (res, tx, db)))))
         | (Inl e, tx, db) \<Rightarrow> (Inl e, tx, db)))"

section \<open>Committing a transaction\<close>

definition finish_on :: "transaction \<Rightarrow> db \<Rightarrow> db" where
  "finish_on tx db =
    (case transaction_finish tx (db_budget db) (db_write_txns db) of
       (_, budget, write_txns) \<Rightarrow> db\<lparr> db_budget := budget, db_write_txns := write_txns \<rparr>)"

definition commit_transaction :: "commit_env \<Rightarrow> transaction \<Rightarrow> db \<Rightarrow> unit devon_result \<times> db" where
  "commit_transaction ce tx db =
    (if metadata_pending tx
     then (case publish_metadata ce tx db of (res, db) \<Rightarrow> (res, finish_on tx db))
     else if write_set_is_empty (tx_writes tx) then (Inr (), finish_on tx db)
     else if ws_hnsw_create (tx_writes tx)
     then (case publish_index_build ce db of (res, db) \<Rightarrow> (res, finish_on tx db))
     else
       (case commit_locked ce (tx, db) of
          (Inl e, tx, db) \<Rightarrow> (Inl e, finish_on tx db)
        | (Inr _, tx, db) \<Rightarrow>
            (Inr (), case ce_auto_checkpoint ce of
               None \<Rightarrow> finish_on tx db
             | Some io \<Rightarrow> snd (checkpoint_locked (ce_crc ce) (ce_crc_append ce) io (finish_on tx db)))))"

text \<open>\<open>commit\<close> of a poisoned transaction ends it with the error that poisoned it.\<close>

definition transaction_commit :: "commit_env \<Rightarrow> transaction \<Rightarrow> db \<Rightarrow> unit devon_result \<times> db" where
  "transaction_commit ce tx db =
    (case poison_error tx of
       Some e \<Rightarrow> (Inl e, finish_on tx db)
     | None \<Rightarrow> commit_transaction ce tx db)"

definition database_begin :: "u64 \<Rightarrow> db \<Rightarrow> transaction \<times> db" where
  "database_begin txn_id db =
    (case begin_transaction txn_id (db_state db) (db_write_txns db) of
       (tx, write_txns) \<Rightarrow> (tx, db\<lparr> db_write_txns := write_txns \<rparr>))"

end
