(* ===== verification/Isolation.thy ===== *)
theory Isolation
  imports CommitTxn StagedWrites Durability
begin

text \<open>
  First committer wins, over every interleaving of transactions, checkpoints and metadata
  publications: the transitions of a database, the invariant that relates the retained summaries to
  the commits of the past, and what follows for pairs of concurrent commits.
\<close>

section \<open>Catalogs that grow\<close>

definition extends :: "catalog \<Rightarrow> catalog \<Rightarrow> bool" where
  "extends cat cat' \<longleftrightarrow> (\<forall>n sch. node_table cat n = Some sch \<longrightarrow> node_table cat' n = Some sch) \<and>
    (\<forall>n sch. rel_table cat n = Some sch \<longrightarrow> rel_table cat' n = Some sch)"

lemma extends_refl [simp]: "extends cat cat"
  by (simp add: extends_def)

lemma extends_trans: "extends a b \<Longrightarrow> extends b c \<Longrightarrow> extends a c"
  by (simp add: extends_def)

definition tables_of :: "catalog \<Rightarrow> node_table_schema list \<times> rel_table_schema list" where
  "tables_of cat = (cat_node_tables cat, cat_rel_tables cat)"

lemma same_tables_of:
  assumes "tables_of cat' = tables_of cat"
  shows "extends cat cat'" "extends a cat' = extends a cat" "tables_wf cat' = tables_wf cat"
proof -
  have "node_table cat' = node_table cat" "rel_table cat' = rel_table cat"
    using assms by (simp_all add: tables_of_def node_table_def rel_table_def fun_eq_iff)
  then show "extends cat cat'" "extends a cat' = extends a cat" "tables_wf cat' = tables_wf cat"
    using assms by (simp_all add: extends_def tables_wf_def tables_of_def)
qed

lemma add_table_lookup:
  "add_node_table cat sch = Inr cat' \<Longrightarrow> node_table cat (node_name sch) = None \<and> rel_table cat' = rel_table cat \<and>
    node_table cat' n = (case node_table cat n of Some s \<Rightarrow> Some s
      | None \<Rightarrow> if fold_name n = fold_name (node_name sch) then Some sch else None)"
  "add_rel_table cat rsch = Inr cat' \<Longrightarrow> rel_table cat (rel_name rsch) = None \<and> node_table cat' = node_table cat \<and>
    rel_table cat' n = (case rel_table cat n of Some s \<Rightarrow> Some s
      | None \<Rightarrow> if fold_name n = fold_name (rel_name rsch) then Some rsch else None)"
  by (auto simp: add_node_table_def add_rel_table_def contains_table_def node_table_def rel_table_def rbind_eq_Inr
      find_append_fresh fun_eq_iff split: if_splits option.split)

lemma node_table_fold: "fold_name a = fold_name b \<Longrightarrow> node_table cat a = node_table cat b"
  "fold_name a = fold_name b \<Longrightarrow> rel_table cat a = rel_table cat b"
  by (simp_all add: node_table_def rel_table_def)

lemma apply_ddl_extends: "apply_ddl op cat = Inr cat' \<Longrightarrow> extends cat cat'"
  by (cases op) (auto simp: extends_def add_table_lookup rbind_eq_Inr)

lemma apply_ddl_mono:
  assumes "apply_ddl op a = Inr a'" "apply_ddl op b = Inr b'" "extends a b"
  shows "extends a' b'"
proof (cases op)
  case (OpCreateNodeTable sch)
  with assms have add: "add_node_table a sch = Inr a'" "add_node_table b sch = Inr b'" by (auto simp: rbind_eq_Inr)
  note la = add_table_lookup(1) [OF add(1)] and lb = add_table_lookup(1) [OF add(2)]
  show ?thesis
    unfolding extends_def
  proof (intro conjI allI impI)
    fix n s assume "node_table a' n = Some s"
    then show "node_table b' n = Some s"
      using la [of n] lb [of n] assms(3) node_table_fold(1) [of n "node_name sch" b]
      by (auto simp: extends_def split: option.splits if_splits)
  qed (use la lb assms(3) in \<open>auto simp: extends_def\<close>)
next
  case (OpCreateRelTable sch)
  with assms have add: "add_rel_table a sch = Inr a'" "add_rel_table b sch = Inr b'" by simp_all
  note la = add_table_lookup(2) [OF add(1)] and lb = add_table_lookup(2) [OF add(2)]
  show ?thesis
    unfolding extends_def
  proof (intro conjI allI impI)
    fix n s assume "rel_table a' n = Some s"
    then show "rel_table b' n = Some s"
      using la [of n] lb [of n] assms(3) node_table_fold(2) [of n "rel_name sch" b]
      by (auto simp: extends_def split: option.splits if_splits)
  qed (use la lb assms(3) in \<open>auto simp: extends_def\<close>)
qed

lemma apply_ddl_catalog_mono:
  assumes "apply_ddl_to_catalog a ddl = Inr a'" "apply_ddl_to_catalog b ddl = Inr b'" "extends a b"
  shows "extends a' b'"
  using assms unfolding apply_ddl_to_catalog_def
proof (induction ddl arbitrary: a b)
  case (Cons op ddl)
  then show ?case by (auto simp: rbind_eq_Inr intro: Cons.IH apply_ddl_mono)
qed simp

lemma apply_ddl_catalog_extends: "apply_ddl_to_catalog cat ddl = Inr cat' \<Longrightarrow> extends cat cat'"
  unfolding apply_ddl_to_catalog_def
  by (rule rfold_invariant [where P = "extends cat"]) (auto intro: extends_trans apply_ddl_extends)

section \<open>Claims do not depend on the catalog\<close>

text \<open>Staged writes name tables of the catalog of the transaction.\<close>

lemma rfold_cong': "(\<And>x acc. x \<in> set xs \<Longrightarrow> f x acc = g x acc) \<Longrightarrow> rfold f xs acc = rfold g xs acc"
  by (induction xs arbitrary: acc) (simp_all cong: rbind_cong)

lemma summary_extends:
  assumes wf: "tables_wf cat" and named: "writes_named cat w" and ext: "extends cat cat'"
  shows "summary_from_writes cat' w = summary_from_writes cat w"
proof -
  have node: "node_table cat' t = node_table cat t" if "(t, rows) \<in> set (ws_node_updates w)" for t rows
  proof -
    from that have "t \<in> bt_keys (ws_node_updates w)" by (force simp: bt_keys_def)
    then obtain sch where "sch \<in> set (cat_node_tables cat)" "t = node_name sch" using named by (auto simp: writes_named_def)
    with wf have "node_table cat t = Some sch" by (simp add: tables_wf_def)
    with ext show ?thesis by (simp add: extends_def)
  qed
  have rel: "rel_table cat' t = rel_table cat t" if "(t, edges) \<in> set (ws_edges w)" for t edges
  proof -
    from that have "t \<in> bt_keys (ws_edges w)" by (force simp: bt_keys_def)
    then obtain sch where "sch \<in> set (cat_rel_tables cat)" "t = rel_name sch" using named by (auto simp: writes_named_def)
    with wf have "rel_table cat t = Some sch" by (simp add: tables_wf_def)
    with ext show ?thesis by (simp add: extends_def)
  qed
  have "dml_pks_from_writes cat' w = dml_pks_from_writes cat w"
    unfolding dml_pks_from_writes_def merge_update_keys_def by (rule rfold_cong') (auto simp: node)
  moreover have "edge_endpoint_pks_from_writes cat' w = edge_endpoint_pks_from_writes cat w"
    unfolding edge_endpoint_pks_from_writes_def
    by (rule arg_cong [where f = "\<lambda>r. rbind r (\<lambda>(claims, seen). Inr claims)"], rule rfold_cong') (auto simp: rel)
  ultimately show ?thesis by (simp add: summary_from_writes_def)
qed

text \<open>The summary of a commit is the one its conflicts were checked with.\<close>

lemma commit_summary_same:
  assumes ok: "staged_ok tx" and ext: "extends (ps_catalog (tx_state tx)) cur"
    and cat: "apply_ddl_to_catalog cur (ws_ddl (tx_writes tx)) = Inr cat"
  shows "summary_from_writes cat (tx_writes tx) = summary_from_writes (tx_catalog tx) (tx_writes tx)"
proof -
  from ok obtain cat0 where "apply_ddl_to_catalog (ps_catalog (tx_state tx)) (ws_ddl (tx_writes tx)) = Inr cat0"
    "same_tables cat0 (tx_catalog tx)" by (auto simp: staged_ok_def ddl_follows_def)
  with apply_ddl_catalog_mono [OF _ cat ext] have "extends cat0 cat" by blast
  moreover have "tables_of (tx_catalog tx) = tables_of cat0" using \<open>same_tables cat0 (tx_catalog tx)\<close> by (simp add: same_tables_def tables_of_def)
  ultimately have "extends (tx_catalog tx) cat"
    using \<open>same_tables cat0 (tx_catalog tx)\<close> by (simp add: extends_def same_tables_lookup)
  then show ?thesis using ok by (intro summary_extends) (simp_all add: staged_ok_def writes_ok_def)
qed

section \<open>Statements keep the snapshot\<close>

definition snapshot_of :: "transaction \<Rightarrow> published_state \<times> u64 \<times> bool" where
  "snapshot_of tx = (tx_state tx, tx_id tx, tx_registered tx)"

definition keeps_snapshot :: "'a step \<Rightarrow> bool" where
  "keeps_snapshot m \<longleftrightarrow> (\<forall>s. snapshot_of (fst (snd (m s))) = snapshot_of (fst s))"

named_theorems snapshot_rules \<open>steps that keep the snapshot\<close>

lemma keeps_bind [snapshot_rules]: "keeps_snapshot m \<Longrightarrow> (\<And>x. keeps_snapshot (f x)) \<Longrightarrow> keeps_snapshot (sbind m f)"
  unfolding keeps_snapshot_def sbind_def by (auto split: prod.splits sum.splits) (metis fst_conv snd_conv)+

lemma keeps_basic [snapshot_rules]:
  "keeps_snapshot (slift r)" "(\<And>tx. keeps_snapshot (f tx)) \<Longrightarrow> keeps_snapshot (with_tx f)"
  "keeps_snapshot (modify_writes g)" "keeps_snapshot (set_tx_catalog cat)" "keeps_snapshot (transaction_read_view env b)"
  "keeps_snapshot (tx_resolve_key env view t k)" "keeps_snapshot (tx_resolve_row env view t k)"
  "keeps_snapshot (try_charge_write_set n)" "keeps_snapshot (shed_cache rl n)" "keeps_snapshot (shed_indexes rl)"
  "keeps_snapshot (relief_checkpoint rl)" "keeps_snapshot (tx_remove_own_insert t c k)"
  by (auto simp: keeps_snapshot_def slift_def with_tx_def modify_writes_def set_tx_catalog_def transaction_read_view_def
      tx_resolve_key_def tx_resolve_row_def try_charge_write_set_def shed_cache_def shed_indexes_def relief_checkpoint_def
      tx_remove_own_insert_def snapshot_of_def Let_def split: prod.splits sum.splits option.splits bool.splits)

lemma keeps_if [snapshot_rules]: "keeps_snapshot m \<Longrightarrow> keeps_snapshot m' \<Longrightarrow> keeps_snapshot (if b then m else m')"
  by simp

lemma keeps_pair [snapshot_rules]: "(\<And>a b. keeps_snapshot (f a b)) \<Longrightarrow> keeps_snapshot (case p of (a, b) \<Rightarrow> f a b)"
  by (cases p) simp

lemma keeps_pair_arg [snapshot_rules]: "(\<And>a b. keeps_snapshot (f a b y)) \<Longrightarrow> keeps_snapshot ((case p of (a, b) \<Rightarrow> f a b) y)"
  by (cases p) simp

lemma keeps_fold [snapshot_rules]: "(\<And>x acc. keeps_snapshot (f x acc)) \<Longrightarrow> keeps_snapshot (sfold f xs acc)"
  by (induction xs arbitrary: acc) (auto intro: snapshot_rules)

lemma keeps_map [snapshot_rules]:
  "keeps_snapshot m \<Longrightarrow> keeps_snapshot (\<lambda>s. case m s of (res, s) \<Rightarrow> (g res, s))"
  by (simp add: keeps_snapshot_def case_prod_beta)

lemma keeps_let [snapshot_rules]: "keeps_snapshot (f x) \<Longrightarrow> keeps_snapshot (let y = x in f y)"
  by simp

lemma keeps_action [snapshot_rules]:
  "keeps_snapshot m \<Longrightarrow> keeps_snapshot m' \<Longrightarrow> keeps_snapshot (case a of UpsertInsert \<Rightarrow> m | UpsertUpdate \<Rightarrow> m')"
  by (cases a) simp_all

lemma keeps_charge [snapshot_rules]: "keeps_snapshot (charge_write_set rl n)"
  unfolding charge_write_set_def by (intro snapshot_rules)

lemma keeps_stage [snapshot_rules]: "keeps_snapshot (stage_node_inserts rl t rows keys)" "keeps_snapshot (stage_ddl rl op cat)"
  unfolding stage_node_inserts_def stage_ddl_def by (intro snapshot_rules)+

lemma keeps_update [snapshot_rules]: "keeps_snapshot (execute_node_update env rl t items col k)"
  unfolding execute_node_update_def by (intro snapshot_rules)

lemma keeps_executors [snapshot_rules]:
  "keeps_snapshot (execute_create_node_table rl name cols)" "keeps_snapshot (execute_create_rel_table rl name src dst cols)"
  "keeps_snapshot (execute_node_insert env rl t rows)" "keeps_snapshot (execute_node_upsert env rl t rows)"
  "keeps_snapshot (execute_node_delete env rl t col k)" "keeps_snapshot (execute_detach_delete env rl t col k)"
  "keeps_snapshot (execute_rel_insert env rl t edges)" "keeps_snapshot (execute_create_class t cc)"
  unfolding execute_create_node_table_def execute_create_rel_table_def execute_node_insert_def check_insert_row_def
    transaction_key_exists_def execute_node_upsert_def resolve_upsert_actions_def resolve_upsert_action_def apply_upsert_def
    execute_node_delete_def execute_detach_delete_def execute_rel_insert_def check_rel_row_def execute_create_class_def Let_def
  by (intro snapshot_rules)+

lemma keeps_statement [snapshot_rules]: "keeps_snapshot (execute_statement env rl se stmt)"
  by (cases stmt; simp only: execute_statement.simps; intro snapshot_rules)

lemma execute_keeps_snapshot:
  assumes "execute_in_transaction env rl se stmt s = (res, s')"
  shows "snapshot_of (fst s') = snapshot_of (fst s)"
proof -
  have keep: "keeps_snapshot (execute_transaction env rl se stmt)"
    unfolding execute_transaction_def by (intro snapshot_rules)
  obtain r tx st where run: "execute_transaction env rl se stmt s = (r, tx, st)" by (metis prod_cases3)
  have "snapshot_of tx = snapshot_of (fst s)" using keep run unfolding keeps_snapshot_def by (metis fst_conv snd_conv)
  moreover have "snapshot_of (tx\<lparr> tx_poisoned := p \<rparr>) = snapshot_of tx" for tx p by (simp add: snapshot_of_def)
  ultimately show ?thesis
    using assms unfolding execute_in_transaction_def transaction_execute_def run
    by (auto split: option.splits sum.splits devon_error.splits)
qed

section \<open>Transitions\<close>

text \<open>
  A database with its open transactions. The last component is not part of the program: the commits
  of the past with their LSN, the LSN of their snapshot and their summary.
\<close>

record world =
  wd_db :: db
  wd_next_id :: u64
  wd_active :: "u64 \<rightharpoonup> transaction"
  wd_history :: "(u64 \<times> u64 \<times> commit_summary) list"

abbreviation snapshot_lsn :: "transaction \<Rightarrow> u64" where
  "snapshot_lsn tx \<equiv> ps_last_commit_lsn (tx_state tx)"

text \<open>Writing tables and building an index change where tables are stored, not which tables there are.\<close>

definition checkpoint_io_ok :: "checkpoint_io \<Rightarrow> bool" where
  "checkpoint_io_ok io \<longleftrightarrow> (\<forall>state cat. ci_materialize io state = Inr cat \<longrightarrow> tables_of cat = tables_of (ps_catalog state))"

definition commit_env_ok :: "commit_env \<Rightarrow> bool" where
  "commit_env_ok ce \<longleftrightarrow> checkpoint_io_ok (ce_checkpoint ce) \<and>
    (\<forall>io. ce_auto_checkpoint ce = Some io \<longrightarrow> checkpoint_io_ok io) \<and>
    (\<forall>cat cat'. ce_build_index ce cat = Inr cat' \<longrightarrow> tables_of cat' = tables_of cat)"

definition is_data_commit :: "transaction \<Rightarrow> bool" where
  "is_data_commit tx \<longleftrightarrow> poison_error tx = None \<and> \<not> metadata_pending tx \<and> \<not> write_set_is_empty (tx_writes tx) \<and>
    \<not> ws_hnsw_create (tx_writes tx)"

definition commits_of :: "commit_env \<Rightarrow> transaction \<Rightarrow> db \<Rightarrow> (u64 \<times> u64 \<times> commit_summary) list" where
  "commits_of ce tx db =
    (if is_data_commit tx
     then (case commit_locked ce (tx, db) of
             (Inr _, _, db) \<Rightarrow> [(ps_last_commit_lsn (db_state db), snapshot_lsn tx, snd (last (ps_recent_summaries (db_state db))))]
           | _ \<Rightarrow> [])
     else [])"

inductive db_step :: "world \<Rightarrow> world \<Rightarrow> bool" where
  step_begin: "checked_add_word (wd_next_id w) 1 = Some next_id \<Longrightarrow>
    database_begin (wd_next_id w) (wd_db w) = (tx, db) \<Longrightarrow>
    db_step w (w\<lparr> wd_db := db, wd_next_id := next_id, wd_active := (wd_active w)(wd_next_id w \<mapsto> tx) \<rparr>)"
| step_execute: "wd_active w txn = Some tx \<Longrightarrow> statement_rows stmt \<Longrightarrow>
    execute_in_transaction env rl se (stmt :: unit statement) (tx, caches, budget) = (res, tx', caches', budget') \<Longrightarrow>
    db_step w (w\<lparr> wd_db := (wd_db w)\<lparr> db_caches := shared, db_budget := budget' \<rparr>, wd_active := (wd_active w)(txn \<mapsto> tx') \<rparr>)"
| step_commit: "wd_active w txn = Some tx \<Longrightarrow> commit_env_ok ce \<Longrightarrow> transaction_commit ce tx (wd_db w) = (res, db) \<Longrightarrow>
    db_step w (w\<lparr> wd_db := db, wd_active := (wd_active w)(txn := None),
      wd_history := wd_history w @ commits_of ce tx (wd_db w) \<rparr>)"
| step_abort: "wd_active w txn = Some tx \<Longrightarrow>
    db_step w (w\<lparr> wd_db := finish_on tx (wd_db w), wd_active := (wd_active w)(txn := None) \<rparr>)"
| step_checkpoint: "checkpoint_io_ok io \<Longrightarrow> checkpoint_locked crc32c crc32c_append io (wd_db w) = (res, db) \<Longrightarrow>
    db_step w (w\<lparr> wd_db := db \<rparr>)"

text \<open>A database that was just opened, with commits recovered from the log or without.\<close>

definition lsns_ok :: "db \<Rightarrow> bool" where
  "lsns_ok db \<longleftrightarrow>
    (\<forall>wal n. cp_wal (db_pipe db) = Some wal \<longrightarrow> wr_next_lsn wal = Some n \<longrightarrow> ps_last_commit_lsn (db_state db) < n) \<and>
    (ps_chain (db_state db) = None \<longrightarrow> ps_last_commit_lsn (db_state db) \<le> db_checkpoint_lsn db)"

definition db_opened :: "world \<Rightarrow> bool" where
  "db_opened w \<longleftrightarrow> lsns_ok (wd_db w) \<and> tables_wf (ps_catalog (db_state (wd_db w))) \<and>
    db_write_txns (wd_db w) = [] \<and> ps_recent_summaries (db_state (wd_db w)) = [] \<and>
    wd_active w = Map.empty \<and> wd_history w = []"

section \<open>The invariant\<close>

text \<open>
  Every open transaction is registered, its snapshot is a past of the published state, and the
  summaries of all commits it does not see are retained.
\<close>

definition txn_inv :: "db \<Rightarrow> (u64 \<times> u64 \<times> commit_summary) list \<Rightarrow> u64 \<Rightarrow> transaction \<Rightarrow> bool" where
  "txn_inv db history txn tx \<longleftrightarrow> staged_ok tx \<and> tx_id tx = txn \<and> tx_registered tx \<and>
    bt_get (db_write_txns db) txn = Some (snapshot_lsn tx) \<and> snapshot_lsn tx \<le> ps_last_commit_lsn (db_state db) \<and>
    extends (ps_catalog (tx_state tx)) (ps_catalog (db_state db)) \<and>
    (\<forall>(lsn, seen, summary) \<in> set history. snapshot_lsn tx < lsn \<longrightarrow> (lsn, summary) \<in> set (ps_recent_summaries (db_state db)))"

definition state_inv :: "db \<Rightarrow> (u64 \<times> u64 \<times> commit_summary) list \<Rightarrow> bool" where
  "state_inv db history \<longleftrightarrow> lsns_ok db \<and> tables_wf (ps_catalog (db_state db)) \<and> bt_wf (db_write_txns db) \<and>
    sorted_wrt (<) (map fst (ps_recent_summaries (db_state db))) \<and>
    (\<forall>(lsn, summary) \<in> set (ps_recent_summaries (db_state db)). \<exists>seen. (lsn, seen, summary) \<in> set history) \<and>
    (\<forall>(lsn, seen, summary) \<in> set history. lsn \<le> ps_last_commit_lsn (db_state db)) \<and>
    (\<forall>(lsn, seen, summary) \<in> set history. \<forall>(lsn', seen', summary') \<in> set history.
      seen < lsn' \<and> lsn' < lsn \<longrightarrow> \<not> conflicts summary summary')"

definition db_inv :: "(u64 \<rightharpoonup> transaction) \<Rightarrow> (u64 \<times> u64 \<times> commit_summary) list \<Rightarrow> db \<Rightarrow> bool" where
  "db_inv active history db \<longleftrightarrow> state_inv db history \<and> (\<forall>txn tx. active txn = Some tx \<longrightarrow> txn_inv db history txn tx)"

definition world_inv :: "world \<Rightarrow> bool" where
  "world_inv w \<longleftrightarrow> db_inv (wd_active w) (wd_history w) (wd_db w) \<and> (\<forall>txn \<in> dom (wd_active w). txn < wd_next_id w)"

lemma db_inv_same:
  assumes "db_state db' = db_state db" "db_write_txns db' = db_write_txns db" "lsns_ok db'"
  shows "db_inv active history db \<Longrightarrow> db_inv active history db'"
  using assms by (auto simp: db_inv_def state_inv_def txn_inv_def)

section \<open>Checkpoints and publications keep it\<close>

lemma rotate_fields:
  assumes "rotate_empty_wal crc32c crc32c_append io db = (res, db')"
  shows "db_state db' = db_state db" "db_write_txns db' = db_write_txns db" "db_checkpoint_lsn db' = db_checkpoint_lsn db"
    "res = Inr u \<Longrightarrow> cp_wal (db_pipe db') = Some wal \<Longrightarrow> wr_next_lsn wal = Some n \<Longrightarrow> db_checkpoint_lsn db < n"
    "res = Inl e \<Longrightarrow> cp_wal (db_pipe db') = None"
proof -
  have res: "rotate_empty_wal crc32c crc32c_append io db = (res, db')" by (rule assms)
  show "db_state db' = db_state db" "db_write_txns db' = db_write_txns db" "db_checkpoint_lsn db' = db_checkpoint_lsn db"
    "res = Inl e \<Longrightarrow> cp_wal (db_pipe db') = None"
    using res by (auto simp: rotate_empty_wal_def Let_def split: sum.splits)
  assume "res = Inr u" "cp_wal (db_pipe db') = Some wal" and n: "wr_next_lsn wal = Some n"
  then obtain lsn where lsn: "next_lsn (db_checkpoint_lsn db) = Inr lsn" "wal = wal_open crc32c crc32c_append [] lsn"
    using res by (auto simp: rotate_empty_wal_def Let_def rbind_eq_Inr split: sum.splits)
  from lsn(1) have "db_checkpoint_lsn db < lsn"
    by (auto simp: next_lsn_def ok_or_eq_Inr checked_add_word_def word_less_nat_alt unat_word_ariths split: if_splits)
  with wal_open_next [of crc32c crc32c_append "[]" lsn] n lsn(2) show "db_checkpoint_lsn db < n"
    by (auto intro: order_less_le_trans)
qed

lemma flags_fields:
  assumes "clear_checkpoint_wal_flags io db = (res, db')"
  shows "db_state db' = db_state db" "db_write_txns db' = db_write_txns db" "db_checkpoint_lsn db' = db_checkpoint_lsn db"
    "cp_wal (db_pipe db') = cp_wal (db_pipe db)"
  using assms by (auto simp: clear_checkpoint_wal_flags_def split: if_splits sum.splits)

text \<open>What pruning drops, no open transaction needs.\<close>

lemma retained_needed:
  assumes "bt_wf wt" "bt_get wt txn = Some snap" "(lsn, summary) \<in> set (ps_recent_summaries state)" "snap < lsn"
  shows "(lsn, summary) \<in> set (retained_summaries wt state)"
proof -
  have mem: "(txn, snap) \<in> set wt" using assms(2) by (simp add: bt_get_def map_of_SomeD)
  then have "snap \<in> snd ` set wt" by force
  then have "Min (snd ` set wt) \<le> snap" by (intro Min_le) auto
  with assms(3,4) mem show ?thesis by (auto simp: retained_summaries_def prune_recent_summaries_def)
qed

lemma retained_sorted:
  "sorted_wrt (<) (map fst (ps_recent_summaries state)) \<Longrightarrow> sorted_wrt (<) (map fst (retained_summaries wt state))"
  "set (retained_summaries wt state) \<subseteq> set (ps_recent_summaries state)"
  by (auto simp: retained_summaries_def prune_recent_summaries_def sorted_wrt_map sorted_wrt_filter)

text \<open>A new state over the same commits, with a catalog of the same tables and a newer LSN.\<close>

lemma publish_inv:
  assumes inv: "db_inv active history db" and cat: "tables_of (ps_catalog state) = tables_of (ps_catalog (db_state db))"
    and lsn: "ps_last_commit_lsn (db_state db) \<le> ps_last_commit_lsn state"
    and sums: "ps_recent_summaries state = ps_recent_summaries (db_state db) \<or>
      ps_recent_summaries state = retained_summaries (db_write_txns db) (db_state db)"
    and db': "db_state db' = state" "db_write_txns db' = db_write_txns db" "lsns_ok db'"
  shows "db_inv active history db'"
proof -
  have st: "state_inv db history" using inv by (simp add: db_inv_def)
  have sub: "set (ps_recent_summaries state) \<subseteq> set (ps_recent_summaries (db_state db))"
    and sorted: "sorted_wrt (<) (map fst (ps_recent_summaries state))"
  proof -
    have old: "sorted_wrt (<) (map fst (ps_recent_summaries (db_state db)))" using st by (simp add: state_inv_def)
    show "set (ps_recent_summaries state) \<subseteq> set (ps_recent_summaries (db_state db))"
      using sums retained_sorted(2) by (elim disjE) simp_all
    show "sorted_wrt (<) (map fst (ps_recent_summaries state))"
      using sums retained_sorted(1) [OF old] old by (elim disjE) simp_all
  qed
  have "state_inv db' history"
    unfolding state_inv_def db'(1,2)
  proof (intro conjI, goal_cases)
    case 6
    have "\<forall>(l, seen, summary) \<in> set history. l \<le> ps_last_commit_lsn (db_state db)" using st by (simp add: state_inv_def)
    with lsn show ?case by (auto intro: order_trans)
  qed (use st sub sorted db'(3) same_tables_of(3) [OF cat] in \<open>auto simp: state_inv_def\<close>)
  moreover have "txn_inv db' history txn tx" if "active txn = Some tx" for txn tx
  proof -
    have t: "txn_inv db history txn tx" using inv that by (simp add: db_inv_def)
    have keep: "(lsn, summary) \<in> set (ps_recent_summaries state)"
      if "(lsn, summary) \<in> set (ps_recent_summaries (db_state db))" "snapshot_lsn tx < lsn" for lsn summary
      using sums retained_needed [OF _ _ that] t st that by (auto simp: txn_inv_def state_inv_def)
    have "\<forall>(l, seen, summary) \<in> set history. snapshot_lsn tx < l \<longrightarrow> (l, summary) \<in> set (ps_recent_summaries state)"
      using t keep unfolding txn_inv_def by auto
    moreover have "snapshot_lsn tx \<le> ps_last_commit_lsn state" using t lsn by (auto simp: txn_inv_def)
    ultimately show ?thesis using t db'(1,2) same_tables_of(2) [OF cat] by (simp add: txn_inv_def)
  qed
  ultimately show ?thesis by (simp add: db_inv_def)
qed

lemma lsns_ok_rotated:
  assumes rot: "rotate_empty_wal crc32c crc32c_append io db = (res, db')"
    and le: "ps_last_commit_lsn (db_state db) \<le> db_checkpoint_lsn db"
  shows "lsns_ok db'"
proof (cases res)
  case (Inl e)
  then show ?thesis using rotate_fields [OF rot] le by (simp add: lsns_ok_def)
next
  case (Inr u)
  then show ?thesis using rotate_fields(1-3) [OF rot] rotate_fields(4) [OF rot Inr] le by (auto simp: lsns_ok_def intro: order_le_less_trans)
qed

text \<open>Both branches of a checkpoint end the same way.\<close>

definition checkpoint_tail :: "crc_fun \<Rightarrow> crc_append_fun \<Rightarrow> checkpoint_io \<Rightarrow> published_state \<Rightarrow> catalog \<Rightarrow> db \<Rightarrow> unit devon_result \<times> db" where
  "checkpoint_tail crc32c crc32c_append io current cat =
    sbind (rotate_empty_wal crc32c crc32c_append io) (\<lambda>_.
    sbind (clear_checkpoint_wal_flags io) (\<lambda>_ db. (Inr (),
      if ps_chain current = None \<and> length (retained_summaries (db_write_txns db) current) = length (ps_recent_summaries current) then db
      else publish_fresh (checkpoint_publish (db_write_txns db) cat current) db)))"

lemma checkpoint_locked_tail:
  "checkpoint_locked crc32c crc32c_append io db =
    (case ci_backoff io of
       Inl e \<Rightarrow> (Inl e, db)
     | Inr _ \<Rightarrow>
         if ps_chain (db_state db) = None
         then checkpoint_tail crc32c crc32c_append io (db_state db) (ps_catalog (db_state db)) db
         else (case rbind (ci_materialize io (db_state db)) (\<lambda>cat. rbind (ci_save io) (\<lambda>_. Inr cat)) of
             Inl e \<Rightarrow> (Inl e, db)
           | Inr cat \<Rightarrow> checkpoint_tail crc32c crc32c_append io (db_state db) cat
               (db\<lparr> db_checkpoint_lsn := ps_last_commit_lsn (db_state db) \<rparr>)))"
proof -
  have swap: "(if \<not> b then x else y) = (if b then y else x)" for b and x y :: 'x by simp
  note defs = checkpoint_locked_def checkpoint_tail_def sbind_def [of "slift r" for r] slift_def Let_def swap
  show ?thesis
  proof (cases "ci_backoff io")
    case (Inr b)
    then show ?thesis
      by (cases "ps_chain (db_state db)") (simp_all add: defs split: sum.split)
  qed (simp add: defs)
qed

definition checkpointed :: "(u64 \<rightharpoonup> transaction) \<Rightarrow> (u64 \<times> u64 \<times> commit_summary) list \<Rightarrow> db \<Rightarrow> unit devon_result \<Rightarrow> db \<Rightarrow> bool" where
  "checkpointed active history db res db' \<longleftrightarrow> db_inv active history db' \<and> db_write_txns db' = db_write_txns db \<and>
    tables_of (ps_catalog (db_state db')) = tables_of (ps_catalog (db_state db)) \<and>
    (res = Inr () \<longrightarrow> ps_chain (db_state db') = None \<and> ps_last_commit_lsn (db_state db') \<le> db_checkpoint_lsn db')"

lemma checkpoint_tail_inv:
  assumes inv: "db_inv active history db" and run: "checkpoint_tail crc32c crc32c_append io (db_state db) cat db0 = (res, db')"
    and db0: "db_state db0 = db_state db" "db_write_txns db0 = db_write_txns db"
    and le: "ps_last_commit_lsn (db_state db) \<le> db_checkpoint_lsn db0" and cat: "tables_of cat = tables_of (ps_catalog (db_state db))"
  shows "checkpointed active history db res db'"
proof -
  let ?cur = "db_state db"
  obtain r1 db1 where rot: "rotate_empty_wal crc32c crc32c_append io db0 = (r1, db1)" by fastforce
  note f1 = rotate_fields(1-3) [OF rot]
  have ok1: "lsns_ok db1" by (rule lsns_ok_rotated [OF rot]) (simp add: db0 le)
  have inv1: "db_inv active history db1" by (rule db_inv_same [OF _ _ ok1 inv]) (simp_all add: f1 db0)
  obtain r2 db3 where fl: "clear_checkpoint_wal_flags io db1 = (r2, db3)" by fastforce
  note f2 = flags_fields [OF fl]
  have ok3: "lsns_ok db3" using ok1 f2 by (simp add: lsns_ok_def)
  have inv3: "db_inv active history db3" by (rule db_inv_same [OF _ _ ok3 inv1]) (simp_all add: f2)
  have wt: "db_write_txns db3 = db_write_txns db" "db_state db3 = ?cur" by (simp_all add: f1 f2 db0)
  let ?pub = "checkpoint_publish (db_write_txns db) cat ?cur"
  have pub: "tables_of (ps_catalog ?pub) = tables_of (ps_catalog ?cur)" "ps_last_commit_lsn ?pub = ps_last_commit_lsn ?cur"
    "ps_recent_summaries ?pub = retained_summaries (db_write_txns db) ?cur" "ps_chain ?pub = None"
    using cat by (simp_all add: checkpoint_publish_def)
  have okp: "lsns_ok (publish_fresh ?pub db3)"
    using ok3 le f1 f2 db0 pub by (auto simp: lsns_ok_def publish_fresh_def)
  have invp: "db_inv active history (publish_fresh ?pub db3)"
    by (rule publish_inv [OF inv3 _ _ _ _ _ okp, where state = ?pub]) (simp_all add: publish_fresh_def pub wt)
  show ?thesis
    using run rot fl inv1 inv3 invp pub f1 f2 wt db0 le
    by (auto simp: checkpoint_tail_def sbind_def checkpointed_def publish_fresh_def split: sum.splits if_splits)
qed

lemma checkpoint_inv:
  assumes inv: "db_inv active history db" and io: "checkpoint_io_ok io"
    and run: "checkpoint_locked crc32c crc32c_append io db = (res, db')"
  shows "checkpointed active history db res db'"
proof -
  have lsns: "lsns_ok db" using inv by (simp add: db_inv_def state_inv_def)
  have fail: "checkpointed active history db (Inl e) db" for e using inv by (simp add: checkpointed_def)
  let ?save = "rbind (ci_materialize io (db_state db)) (\<lambda>cat. rbind (ci_save io) (\<lambda>_. Inr cat))"
  consider e where "ci_backoff io = Inl e" | "is_ok (ci_backoff io)" "ps_chain (db_state db) = None"
    | e where "is_ok (ci_backoff io)" "ps_chain (db_state db) \<noteq> None" "?save = Inl e"
    | cat where "is_ok (ci_backoff io)" "ps_chain (db_state db) \<noteq> None" "?save = Inr cat"
    by (cases "ci_backoff io"; cases ?save) auto
  then show ?thesis
  proof cases
    case (1 e)
    with run have "res = Inl e" "db' = db" by (simp_all add: checkpoint_locked_tail)
    with fail show ?thesis by simp
  next
    case (3 e)
    with run have "res = Inl e" "db' = db" by (auto simp: checkpoint_locked_tail split: sum.splits)
    with fail show ?thesis by simp
  next
    case 2
    with run have "checkpoint_tail crc32c crc32c_append io (db_state db) (ps_catalog (db_state db)) db = (res, db')"
      by (auto simp: checkpoint_locked_tail split: sum.splits)
    from checkpoint_tail_inv [OF inv this] 2 lsns show ?thesis by (simp add: lsns_ok_def)
  next
    case (4 cat)
    then have "tables_of cat = tables_of (ps_catalog (db_state db))" using io by (auto simp: checkpoint_io_ok_def rbind_eq_Inr)
    moreover have "checkpoint_tail crc32c crc32c_append io (db_state db) cat
        (db\<lparr> db_checkpoint_lsn := ps_last_commit_lsn (db_state db) \<rparr>) = (res, db')"
      using run 4 by (auto simp: checkpoint_locked_tail split: sum.splits)
    ultimately show ?thesis using checkpoint_tail_inv [OF inv] by simp
  qed
qed

lemma next_lsn_above: "next_lsn lsn = Inr n \<Longrightarrow> lsn < n"
  by (auto simp: next_lsn_def ok_or_eq_Inr checked_add_word_def word_less_nat_alt unat_word_ariths split: if_splits)

lemma publish_catalog_inv:
  assumes inv: "db_inv active history db" and run: "publish_catalog crc32c crc32c_append io cat publish_lsn db = (res, db')"
    and cat: "tables_of cat = tables_of (ps_catalog (db_state db))"
    and lsn: "ps_last_commit_lsn (db_state db) \<le> db_checkpoint_lsn db" "db_checkpoint_lsn db < publish_lsn"
  shows "db_inv active history db'" "db_write_txns db' = db_write_txns db"
proof -
  let ?db0 = "db\<lparr> db_checkpoint_lsn := publish_lsn \<rparr>"
  obtain r1 db1 where rot: "rotate_empty_wal crc32c crc32c_append io ?db0 = (r1, db1)" by fastforce
  have f1: "db_state db1 = db_state db" "db_write_txns db1 = db_write_txns db" "db_checkpoint_lsn db1 = publish_lsn"
    using rotate_fields(1-3) [OF rot] by simp_all
  have below: "ps_last_commit_lsn (db_state db) \<le> publish_lsn" using lsn by simp
  have ok1: "lsns_ok db1" by (rule lsns_ok_rotated [OF rot]) (simp add: below)
  have inv1: "db_inv active history db1" by (rule db_inv_same [OF _ _ ok1 inv]) (simp_all add: f1)
  let ?state = "\<lparr> ps_catalog = cat, ps_chain = None, ps_last_commit_lsn = publish_lsn,
    ps_catalog_generation = publish_lsn, ps_recent_summaries = ps_recent_summaries (db_state db1) \<rparr>"
  have "db_inv active history (publish_fresh ?state db1)" if "r1 = Inr u" for u
  proof (rule publish_inv [OF inv1, where state = ?state])
    show "lsns_ok (publish_fresh ?state db1)"
      using rotate_fields(4) [OF rot that] f1(3) by (auto simp: lsns_ok_def publish_fresh_def)
  qed (simp_all add: cat f1 below publish_fresh_def)
  then show "db_inv active history db'" "db_write_txns db' = db_write_txns db"
    using run rot inv inv1 f1 by (auto simp: publish_catalog_def sbind_def publish_fresh_def split: sum.splits)
qed

lemma tables_of_metadata:
  "declare_interface cat i = Inr cat' \<Longrightarrow> tables_of cat' = tables_of cat" "declare_node_class cat nc = Inr cat' \<Longrightarrow> tables_of cat' = tables_of cat"
  "declare_rel_class cat rc = Inr cat' \<Longrightarrow> tables_of cat' = tables_of cat" "pin cat entry = Inr cat' \<Longrightarrow> tables_of cat' = tables_of cat"
  "unpin cat name = Inr cat' \<Longrightarrow> tables_of cat' = tables_of cat"
  using metadata_same_tables by (auto simp: tables_of_def same_tables_def)

lemma replay_tables:
  "replay_pin_changes cat tx lsn = Inr cat' \<Longrightarrow> tables_of cat' = tables_of cat"
  "replay_ontology_additions cat tx = Inr cat' \<Longrightarrow> tables_of cat' = tables_of cat"
proof -
  have loop: "rfold f xs cat = Inr cat' \<Longrightarrow> (\<And>x c c'. f x c = Inr c' \<Longrightarrow> tables_of c' = tables_of c) \<Longrightarrow> tables_of cat' = tables_of cat"
    for f :: "'x \<Rightarrow> catalog \<Rightarrow> catalog devon_result" and xs cat cat'
    by (rule rfold_invariant [where P = "\<lambda>c. tables_of c = tables_of cat"]) auto
  show "replay_pin_changes cat tx lsn = Inr cat' \<Longrightarrow> tables_of cat' = tables_of cat"
    by (auto simp: replay_pin_changes_def Let_def rbind_eq_Inr dest!: loop split: if_splits dest: tables_of_metadata)
  show "replay_ontology_additions cat tx = Inr cat' \<Longrightarrow> tables_of cat' = tables_of cat"
    by (auto simp: replay_ontology_additions_def Let_def rbind_eq_Inr dest!: loop dest: tables_of_metadata)
qed

lemma metadata_inv:
  assumes inv: "db_inv active history db" and ce: "commit_env_ok ce" and run: "publish_metadata ce tx db = (res, db')"
  shows "db_inv active history db'" "db_write_txns db' = db_write_txns db"
proof -
  obtain r1 db1 where ck: "checkpoint_locked (ce_crc ce) (ce_crc_append ce) (ce_checkpoint ce) db = (r1, db1)" by fastforce
  have io: "checkpoint_io_ok (ce_checkpoint ce)" using ce by (simp add: commit_env_ok_def)
  from checkpoint_inv [OF inv io ck] have c: "db_inv active history db1" "db_write_txns db1 = db_write_txns db"
    "r1 = Inr () \<Longrightarrow> ps_last_commit_lsn (db_state db1) \<le> db_checkpoint_lsn db1" by (simp_all add: checkpointed_def)
  have pub: "db_inv active history db2 \<and> db_write_txns db2 = db_write_txns db"
    if "r1 = Inr ()" "next_lsn (db_checkpoint_lsn db1) = Inr lsn" "tables_of cat = tables_of (ps_catalog (db_state db1))"
      "publish_catalog (ce_crc ce) (ce_crc_append ce) (ce_publish ce) cat lsn db1 = (r2, db2)" for lsn cat r2 db2
    using publish_catalog_inv [OF c(1) that(4,3) c(3) [OF that(1)] next_lsn_above [OF that(2)]] c(2) by simp
  have keep: "tables_of cat' = tables_of cat"
    if "(if ontology_pending tx then replay_ontology_additions cat tx else Inr cat) = Inr cat1"
      "(if pins_pending tx then replay_pin_changes cat1 tx lsn else Inr cat1) = Inr cat'" for cat cat1 cat' lsn
    using that replay_tables by (auto split: if_splits)
  let ?sel = "\<lambda>db. rbind (next_lsn (db_checkpoint_lsn db)) (\<lambda>publish_lsn.
      rbind (if ontology_pending tx then replay_ontology_additions (ps_catalog (db_state db)) tx
        else Inr (ps_catalog (db_state db))) (\<lambda>cat.
      rbind (if pins_pending tx then replay_pin_changes cat tx publish_lsn else Inr cat) (\<lambda>cat.
      Inr (cat, publish_lsn))))"
  consider "db' = db" | "db' = db1"
    | cat lsn where "r1 = Inr ()" "?sel db1 = Inr (cat, lsn)"
      "publish_catalog (ce_crc ce) (ce_crc_append ce) (ce_publish ce) cat lsn db1 = (res, db')"
    using run ck unfolding publish_metadata_def sbind_def slift_def
    by (cases "write_set_is_empty (tx_writes tx)"; cases r1; cases "?sel db1") auto
  then have "db_inv active history db' \<and> db_write_txns db' = db_write_txns db"
  proof cases
    case (3 cat lsn)
    then have "next_lsn (db_checkpoint_lsn db1) = Inr lsn" "tables_of cat = tables_of (ps_catalog (db_state db1))"
      using keep by (auto simp only: rbind_eq_Inr sum.inject prod.inject)
    with pub 3 show ?thesis by blast
  qed (use inv c in auto)
  then show "db_inv active history db'" "db_write_txns db' = db_write_txns db" by simp_all
qed

lemma index_inv:
  assumes inv: "db_inv active history db" and ce: "commit_env_ok ce" and run: "publish_index_build ce db = (res, db')"
  shows "db_inv active history db'" "db_write_txns db' = db_write_txns db"
proof -
  obtain r1 db1 where ck: "checkpoint_locked (ce_crc ce) (ce_crc_append ce) (ce_checkpoint ce) db = (r1, db1)" by fastforce
  have io: "checkpoint_io_ok (ce_checkpoint ce)" using ce by (simp add: commit_env_ok_def)
  from checkpoint_inv [OF inv io ck] have c: "db_inv active history db1" "db_write_txns db1 = db_write_txns db"
    "r1 = Inr () \<Longrightarrow> ps_last_commit_lsn (db_state db1) \<le> db_checkpoint_lsn db1" by (simp_all add: checkpointed_def)
  have pub: "db_inv active history db2 \<and> db_write_txns db2 = db_write_txns db"
    if "r1 = Inr ()" "next_lsn (db_checkpoint_lsn db1) = Inr lsn" "ce_build_index ce (ps_catalog (db_state db1)) = Inr cat"
      "publish_catalog (ce_crc ce) (ce_crc_append ce) (ce_publish ce) cat lsn db1 = (r2, db2)" for lsn cat r2 db2
    using publish_catalog_inv [OF c(1) that(4) _ c(3) [OF that(1)] next_lsn_above [OF that(2)]] c(2) that(3) ce
    by (auto simp: commit_env_ok_def)
  show "db_inv active history db'" "db_write_txns db' = db_write_txns db"
    using run ck c pub inv
    by (auto simp: publish_index_build_def sbind_def rbind_eq_Inr split: sum.splits prod.splits)
qed

section \<open>Commits of data keep it\<close>

text \<open>The log hands out growing LSNs, also across failed appends.\<close>

definition lsn_above :: "u64 \<Rightarrow> wal_writer \<Rightarrow> bool" where
  "lsn_above lsn wal \<longleftrightarrow> (\<forall>n. wr_next_lsn wal = Some n \<longrightarrow> lsn < n)"

lemma wal_append_above:
  assumes "wal_append crc32c crc32c_append io w bs = (res, w')" "lsn_above b w"
  shows "lsn_above b w'" "res = Inr lsn \<Longrightarrow> b < lsn \<and> lsn_above lsn w'"
proof -
  consider e where "res = Inl e" "wr_next_lsn w' = wr_next_lsn w"
    | n where "res = Inr n" "wr_next_lsn w = Some n" "wr_next_lsn w' = checked_add_word n 1"
    using assms(1) by (cases rule: wal_append_cases) auto
  then have "lsn_above b w' \<and> (\<forall>lsn. res = Inr lsn \<longrightarrow> b < lsn \<and> lsn_above lsn w')"
  proof cases
    case (2 n)
    then have n: "b < n" using assms(2) by (simp add: lsn_above_def)
    from 2 have "lsn_above n w'"
      by (auto simp: lsn_above_def checked_add_word_def word_less_nat_alt unat_word_ariths split: if_splits)
    with n 2 show ?thesis by (auto simp: lsn_above_def)
  qed (use assms(2) in \<open>simp add: lsn_above_def\<close>)
  then show "lsn_above b w'" "res = Inr lsn \<Longrightarrow> b < lsn \<and> lsn_above lsn w'" by blast+
qed

lemma append_seq_above:
  assumes "append_seq (wal_append crc32c crc32c_append) batch l w = (res, w')" "lsn_above b w"
    and "\<And>lsn. l = Some lsn \<Longrightarrow> b < lsn \<and> lsn_above lsn w"
  shows "lsn_above b w' \<and> (\<forall>lsn. res = Inr (Some lsn) \<longrightarrow> b < lsn \<and> lsn_above lsn w')"
  using assms
proof (induction batch arbitrary: l w)
  case (Cons x batch)
  obtain io bs where x: "x = (io, bs)" by fastforce
  obtain r w1 where ap: "wal_append crc32c crc32c_append io w bs = (r, w1)" by fastforce
  note above = wal_append_above [OF ap Cons.prems(2)]
  show ?case
  proof (cases r)
    case (Inl e)
    with Cons.prems(1) x ap above show ?thesis by auto
  next
    case (Inr n)
    with Cons.prems(1) x ap have "append_seq (wal_append crc32c crc32c_append) batch (Some n) w1 = (res, w')" by simp
    then show ?thesis by (rule Cons.IH) (use above Inr in auto)
  qed
qed auto

lemma make_durable_above:
  assumes run: "make_durable js crc32c crc32c_append io required records pipe = (res, pipe')"
    and above: "\<And>wal. cp_wal pipe = Some wal \<Longrightarrow> lsn_above b wal"
  shows "cp_wal pipe' = Some wal \<Longrightarrow> lsn_above b wal" "res = Inr lsn \<Longrightarrow> b < lsn"
    "res = Inr lsn \<Longrightarrow> cp_wal pipe' = Some wal \<Longrightarrow> lsn_above lsn wal"
proof -
  have seq: "lsn_above b w' \<and> (\<forall>lsn. r = Inr (Some lsn) \<longrightarrow> b < lsn \<and> lsn_above lsn w')"
    if "append_seq (wal_append crc32c crc32c_append) batch None w = (r, w')" "cp_wal pipe = Some w" for batch w r w'
    by (rule append_seq_above [OF that(1)]) (use above that(2) in auto)
  consider "\<forall>lsn. res \<noteq> Inr lsn" "cp_wal pipe' = cp_wal pipe"
    | batch w r w' where "append_seq (wal_append crc32c crc32c_append) batch None w = (r, w')" "cp_wal pipe = Some w"
      "cp_wal pipe' = Some w'" "\<forall>lsn. res = Inr lsn \<longrightarrow> r = Inr (Some lsn)"
    using run
    by (auto simp: make_durable_def rbind_eq_Inr ok_or_eq_Inr split: sum.splits option.splits prod.splits)
  then have "(cp_wal pipe' = Some wal \<longrightarrow> lsn_above b wal) \<and> (\<forall>lsn. res = Inr lsn \<longrightarrow> b < lsn \<and> (cp_wal pipe' = Some wal \<longrightarrow> lsn_above lsn wal))"
    by cases (use above in \<open>auto dest: seq\<close>)
  then show "cp_wal pipe' = Some wal \<Longrightarrow> lsn_above b wal" "res = Inr lsn \<Longrightarrow> b < lsn"
    "res = Inr lsn \<Longrightarrow> cp_wal pipe' = Some wal \<Longrightarrow> lsn_above lsn wal" by blast+
qed

text \<open>The schemas a transaction creates are well formed: they are tables of its catalog.\<close>

lemma ddl_tables_wf:
  assumes "apply_ddl_to_catalog cat ddl = Inr cat'" "tables_wf cat" "\<And>sch. OpCreateNodeTable sch \<in> set ddl \<Longrightarrow> node_schema_wf sch"
  shows "tables_wf cat'"
  using assms(1) unfolding apply_ddl_to_catalog_def
proof (rule rfold_invariant [where P = tables_wf])
  fix op c c' assume op: "op \<in> set ddl" "tables_wf c" "apply_ddl op c = Inr c'"
  show "tables_wf c'"
    by (cases op) (use op in \<open>auto simp: rbind_eq_Inr intro: tables_wf_add_node tables_wf_add_rel assms(3)\<close>)
qed (rule assms(2))

lemma apply_ddl_adds:
  "apply_ddl_to_catalog cat ddl = Inr cat' \<Longrightarrow> OpCreateNodeTable sch \<in> set ddl \<or> sch \<in> set (cat_node_tables cat) \<Longrightarrow>
    sch \<in> set (cat_node_tables cat')"
  unfolding apply_ddl_to_catalog_def
proof (induction ddl arbitrary: cat)
  case (Cons op ddl)
  then obtain c where c: "apply_ddl op cat = Inr c" "rfold apply_ddl ddl c = Inr cat'" by (auto simp: rbind_eq_Inr)
  have "OpCreateNodeTable sch \<in> set ddl \<or> sch \<in> set (cat_node_tables c)"
    using Cons.prems(2) c(1)
    by (cases op) (auto simp: rbind_eq_Inr add_node_table_def add_rel_table_def split: if_splits)
  with Cons.IH [OF c(2)] show ?case by blast
qed auto

lemma staged_ddl_wf:
  assumes "staged_ok tx" "OpCreateNodeTable sch \<in> set (ws_ddl (tx_writes tx))"
  shows "node_schema_wf sch"
proof -
  from assms(1) obtain cat0 where "apply_ddl_to_catalog (ps_catalog (tx_state tx)) (ws_ddl (tx_writes tx)) = Inr cat0"
    "same_tables cat0 (tx_catalog tx)" by (auto simp: staged_ok_def ddl_follows_def)
  with apply_ddl_adds assms(2) have "sch \<in> set (cat_node_tables (tx_catalog tx))" by (auto simp: same_tables_def)
  with assms(1) show ?thesis by (simp add: staged_ok_def tables_wf_def)
qed

lemma prepare_on_fields:
  assumes "prepare_on ce tx db = (res, db')"
  shows "db_state db' = db_state db" "db_write_txns db' = db_write_txns db" "db_pipe db' = db_pipe db"
    "db_checkpoint_lsn db' = db_checkpoint_lsn db"
  using assms by (auto simp: prepare_on_def split: prod.splits)

lemma transfer_on_fields:
  assumes "transfer_on p (tx, db) = (res, tx', db')"
  shows "db_state db' = db_state db" "db_write_txns db' = db_write_txns db" "db_pipe db' = db_pipe db"
    "db_checkpoint_lsn db' = db_checkpoint_lsn db" "\<exists>n. tx' = charge n tx"
proof -
  show "db_state db' = db_state db" "db_write_txns db' = db_write_txns db" "db_pipe db' = db_pipe db"
    "db_checkpoint_lsn db' = db_checkpoint_lsn db"
    using assms by (auto simp: transfer_on_def split: prod.splits)
  obtain w b where t: "transfer_commit_charge (pc_delta p) (pc_summary p) (tx_writes tx, db_budget db) = (res, w, b)"
    and tx': "tx' = tx\<lparr> tx_writes := w \<rparr>"
    using assms by (auto simp: transfer_on_def split: prod.splits)
  from t have "w = tx_writes tx \<or> w = (tx_writes tx)\<lparr> ws_charged := 0 \<rparr>"
    by (auto simp: transfer_commit_charge_def split: sum.splits prod.splits bool.splits)
  then have "w = (tx_writes tx)\<lparr> ws_charged := ws_charged w \<rparr>" by auto
  with tx' have "tx' = charge (ws_charged w) tx" by (simp add: charge_def)
  then show "\<exists>n. tx' = charge n tx" ..
qed

lemma prepare_on_checks:
  assumes "prepare_on ce tx db = (Inr p, db')"
  shows "detect_conflict (db_state db) tx = Inr ()" "pc_current p = db_state db"
    "apply_ddl_to_catalog (ps_catalog (db_state db)) (ws_ddl (tx_writes tx)) = Inr (pc_catalog p)"
    "summary_from_writes (pc_catalog p) (tx_writes tx) = Inr (pc_summary p)"
  using assms
  by (auto simp: prepare_on_def prepare_commit_def rbind_eq_Inr map_err_eq_Inr split: prod.splits sum.splits)

text \<open>
  A commit that passed the checks on the published state: its summary conflicts with no commit that its
  snapshot does not contain.
\<close>

lemma commit_inv:
  assumes inv: "db_inv active history db" and t: "txn_inv db history txn tx"
    and checks: "detect_conflict (db_state db) tx = Inr ()" "pc_current p = db_state db"
      "apply_ddl_to_catalog (ps_catalog (db_state db)) (ws_ddl (tx_writes tx)) = Inr (pc_catalog p)"
      "summary_from_writes (pc_catalog p) (tx_writes tx) = Inr (pc_summary p)"
    and db': "db_state db' = next_state p link lsn" "db_write_txns db' = db_write_txns db" "lsns_ok db'"
    and lsn: "ps_last_commit_lsn (db_state db) < lsn"
  shows "db_inv active (history @ [(lsn, snapshot_lsn tx, pc_summary p)]) db'"
proof -
  let ?cur = "db_state db" and ?new = "(lsn, snapshot_lsn tx, pc_summary p)"
  have st: "state_inv db history" using inv by (simp add: db_inv_def)
  have ok: "staged_ok tx" and ext: "extends (ps_catalog (tx_state tx)) (ps_catalog ?cur)"
    and unseen: "\<forall>(l, seen, summary) \<in> set history. snapshot_lsn tx < l \<longrightarrow> (l, summary) \<in> set (ps_recent_summaries ?cur)"
    using t by (simp_all add: txn_inv_def)
  have old: "\<forall>(l, seen, summary) \<in> set history. l \<le> ps_last_commit_lsn ?cur" using st by (simp add: state_inv_def)
  have below: "l < lsn" if "(l, seen, summary) \<in> set history" for l seen summary
    using bspec [OF old that] lsn by simp
  have sorted: "sorted_wrt (<) (map fst (ps_recent_summaries ?cur))" using st by (simp add: state_inv_def)
  have recent: "l < lsn" if "(l, summary) \<in> set (ps_recent_summaries ?cur)" for l summary
    using st that below by (force simp: state_inv_def)
  have "summary_from_writes (tx_catalog tx) (tx_writes tx) = Inr (pc_summary p)"
    using commit_summary_same [OF ok ext checks(3)] checks(4) by simp
  from detect_conflict_iff [OF this _ sorted] ok checks(1)
  have free: "\<forall>(l, summary) \<in> set (ps_recent_summaries ?cur). snapshot_lsn tx < l \<longrightarrow> \<not> conflicts (pc_summary p) summary"
    by (auto simp: staged_ok_def dest: writes_ok_wf)
  have nxt: "ps_catalog (db_state db') = pc_catalog p" "ps_last_commit_lsn (db_state db') = lsn"
    "ps_recent_summaries (db_state db') = ps_recent_summaries ?cur @ [(lsn, pc_summary p)]"
    by (simp_all add: db'(1) next_state_def checks(2))
  have wf: "tables_wf (pc_catalog p)"
    using ddl_tables_wf [OF checks(3)] staged_ddl_wf [OF ok] st by (auto simp: state_inv_def)
  have "state_inv db' (history @ [?new])"
    unfolding state_inv_def nxt db'(2)
  proof (intro conjI, goal_cases)
    case 7
    have "\<not> conflicts (pc_summary p) summary" if "(l, seen, summary) \<in> set history" "snapshot_lsn tx < l" for l seen summary
      using unseen free that by blast
    moreover have "\<not> conflicts summary summary'"
      if "(l, seen, summary) \<in> set history" "(l', seen', summary') \<in> set history" "seen < l'" "l' < l" for l seen summary l' seen' summary'
      using st that unfolding state_inv_def by blast
    moreover have "\<not> lsn < l" if "(l, seen, summary) \<in> set history" for l seen summary
      using below [OF that] by simp
    ultimately show ?case by auto
  qed (use st db'(3) wf sorted recent below in \<open>auto simp: state_inv_def sorted_wrt_append less_imp_le\<close>)
  moreover have "txn_inv db' (history @ [?new]) id' tx'" if "active id' = Some tx'" for id' tx'
  proof -
    have "txn_inv db history id' tx'" using inv that by (simp add: db_inv_def)
    then show ?thesis
      using lsn extends_trans [OF _ apply_ddl_catalog_extends [OF checks(3)]] by (auto simp: txn_inv_def nxt db'(2))
  qed
  ultimately show ?thesis by (simp add: db_inv_def)
qed

lemma publish_on_inv:
  assumes inv: "db_inv active history db" and t: "txn_inv db history txn tx"
    and checks: "detect_conflict (db_state db) tx = Inr ()" "pc_current p = db_state db"
      "apply_ddl_to_catalog (ps_catalog (db_state db)) (ws_ddl (tx_writes tx)) = Inr (pc_catalog p)"
      "summary_from_writes (pc_catalog p) (tx_writes tx) = Inr (pc_summary p)"
    and run: "publish_on ce p r db = (res, db')"
  shows "db_write_txns db' = db_write_txns db" "res = Inl e \<Longrightarrow> db_inv active history db'"
    "res = Inr u \<Longrightarrow> db_inv active (history @ [(ps_last_commit_lsn (db_state db'), snapshot_lsn tx,
      snd (last (ps_recent_summaries (db_state db'))))]) db'"
proof -
  obtain r' pipe budget where pub: "publish_prepared_commit (ce_json ce) (ce_crc ce) (ce_crc_append ce) (ce_io ce) p r
      (db_pipe db, db_budget db) = (r', pipe, budget)" by (metis prod_cases3)
  have lsns: "lsns_ok db" using inv by (simp add: db_inv_def state_inv_def)
  have above: "lsn_above (ps_last_commit_lsn (db_state db)) wal" if "cp_wal (db_pipe db) = Some wal" for wal
    using lsns that by (simp add: lsns_ok_def lsn_above_def)
  show "db_write_txns db' = db_write_txns db" using run pub by (cases r') (auto simp: publish_on_def)
  show "db_inv active history db'" if "res = Inl e"
  proof -
    from that run pub have db': "db' = db\<lparr> db_pipe := pipe, db_budget := budget \<rparr>" and r': "r' = Inl e"
      by (cases r'; simp add: publish_on_def)+
    have "pipe = db_pipe db \<or> (\<exists>required res. make_durable (ce_json ce) (ce_crc ce) (ce_crc_append ce) (ce_io ce) required
        (wal_records (pc_delta p) (pc_rel_delete_records p)) (db_pipe db) = (res, pipe))"
      using pub r' by (auto simp: publish_prepared_commit_def Let_def split: sum.splits prod.splits)
    then have "lsn_above (ps_last_commit_lsn (db_state db)) wal" if "cp_wal pipe = Some wal" for wal
      using above make_durable_above(1) [OF _ above] that by blast
    then have "lsns_ok db'" using lsns by (simp add: lsns_ok_def lsn_above_def db')
    with inv show ?thesis by (intro db_inv_same [OF _ _ _ inv]) (simp_all add: db')
  qed
  show "db_inv active (history @ [(ps_last_commit_lsn (db_state db'), snapshot_lsn tx,
      snd (last (ps_recent_summaries (db_state db'))))]) db'" if "res = Inr u"
  proof -
    from that run pub obtain state where r': "r' = Inr state"
      and db': "db' = db\<lparr> db_state := state, db_pipe := pipe, db_budget := budget \<rparr>"
      by (cases r'; simp add: publish_on_def)
    from publish_success [OF pub [unfolded r']] obtain required lsn charged where
      dur: "make_durable (ce_json ce) (ce_crc ce) (ce_crc_append ce) (ce_io ce) required
        (wal_records (pc_delta p) (pc_rel_delete_records p)) (db_pipe db) = (Inr lsn, pipe)"
      and state: "state = next_state p (CommitLink (ps_chain (pc_current p)) lsn (pc_delta p) charged) lsn" by metis
    have lsn: "ps_last_commit_lsn (db_state db) < lsn" "\<And>wal. cp_wal pipe = Some wal \<Longrightarrow> lsn_above lsn wal"
      using make_durable_above(2,3) [OF dur above] by blast+
    have "lsns_ok db'" using lsn(2) by (simp add: lsns_ok_def lsn_above_def db' state next_state_def)
    from commit_inv [OF inv t checks _ _ this lsn(1)] have
      "db_inv active (history @ [(lsn, snapshot_lsn tx, pc_summary p)]) db'" by (simp add: db' state)
    then show ?thesis by (simp add: db' state next_state_def)
  qed
qed

text \<open>Preparing and charging change caches and the budget only.\<close>

definition same_db :: "db \<Rightarrow> db \<Rightarrow> bool" where
  "same_db db db' \<longleftrightarrow> db_state db' = db_state db \<and> db_write_txns db' = db_write_txns db \<and> db_pipe db' = db_pipe db \<and>
    db_checkpoint_lsn db' = db_checkpoint_lsn db"

lemma same_db_inv: "same_db db db' \<Longrightarrow> db_inv active history db' = db_inv active history db"
  "same_db db db' \<Longrightarrow> txn_inv db' history txn tx = txn_inv db history txn tx"
  by (simp_all add: same_db_def db_inv_def state_inv_def txn_inv_def lsns_ok_def)

lemma same_db_steps:
  "prepare_on ce tx db = (res, db') \<Longrightarrow> same_db db db'" "transfer_on p (tx, db) = (res', tx', db') \<Longrightarrow> same_db db db'"
  "same_db db (shed_on ce db)"
  using prepare_on_fields transfer_on_fields by (auto simp: same_db_def shed_on_def)

lemma charge_same: "\<exists>n. tx = charge n tx"
  by (metis charge_simps(5))

lemma txn_inv_charge [simp]: "txn_inv db history txn (charge n tx) = txn_inv db history txn tx"
  by (simp add: txn_inv_def charge_def) (simp add: staged_ok_charge [unfolded charge_def])

text \<open>What a commit leaves: on failure the commits of before, on success one more.\<close>

definition committed ::
    "(u64 \<rightharpoonup> transaction) \<Rightarrow> (u64 \<times> u64 \<times> commit_summary) list \<Rightarrow> transaction \<Rightarrow> db \<Rightarrow> unit devon_result \<Rightarrow> transaction \<Rightarrow> db \<Rightarrow> bool" where
  "committed active history tx db res tx' db' \<longleftrightarrow> db_write_txns db' = db_write_txns db \<and> (\<exists>n. tx' = charge n tx) \<and>
    (case res of Inl _ \<Rightarrow> db_inv active history db'
     | Inr _ \<Rightarrow> db_inv active (history @ [(ps_last_commit_lsn (db_state db'), snapshot_lsn tx,
         snd (last (ps_recent_summaries (db_state db'))))]) db')"

definition attempt :: "commit_env \<Rightarrow> transaction \<times> db \<Rightarrow> unit devon_result \<times> transaction \<times> db" where
  "attempt ce = (\<lambda>(tx, db).
    case prepare_on ce tx db of
      (Inl e, db) \<Rightarrow> (Inl e, tx, db)
    | (Inr p, db) \<Rightarrow>
        (case transfer_on p (tx, db) of
           (Inl e, tx, db) \<Rightarrow> (Inl e, tx, db)
         | (Inr r, tx, db) \<Rightarrow> (case publish_on ce p r db of (res, db) \<Rightarrow> (res, tx, db))))"

lemma attempt_inv:
  assumes inv: "db_inv active history db" and t: "txn_inv db history txn tx" and run: "attempt ce (tx, db) = (res, tx', db')"
  shows "committed active history tx db res tx' db'"
proof -
  obtain r1 db1 where prep: "prepare_on ce tx db = (r1, db1)" by fastforce
  note same1 = same_db_steps(1) [OF prep]
  show ?thesis
  proof (cases r1)
    case (Inl e)
    with run prep have "res = Inl e" "tx' = tx" "db' = db1" by (auto simp: attempt_def)
    with inv same1 show ?thesis by (auto simp: committed_def same_db_inv) (simp_all add: same_db_def charge_same)
  next
    case (Inr p)
    obtain r2 tx2 db2 where tr: "transfer_on p (tx, db1) = (r2, tx2, db2)" by (metis prod_cases3)
    note tx2 = transfer_on_fields(5) [OF tr]
    have same2: "same_db db db2" using same1 same_db_steps(2) [OF tr] by (simp add: same_db_def)
    show ?thesis
    proof (cases r2)
      case (Inl e)
      with run prep Inr tr have "res = Inl e" "tx' = tx2" "db' = db2" by (auto simp: attempt_def)
      with inv same2 tx2 show ?thesis by (auto simp: committed_def same_db_inv) (simp_all add: same_db_def)
    next
      case r: (Inr r)
      obtain r3 db3 where pub: "publish_on ce p r db2 = (r3, db3)" by fastforce
      with run prep Inr tr r have eq: "res = r3" "tx' = tx2" "db' = db3" by (auto simp: attempt_def)
      have checks: "detect_conflict (db_state db2) tx = Inr ()" "pc_current p = db_state db2"
        "apply_ddl_to_catalog (ps_catalog (db_state db2)) (ws_ddl (tx_writes tx)) = Inr (pc_catalog p)"
        "summary_from_writes (pc_catalog p) (tx_writes tx) = Inr (pc_summary p)"
        using prepare_on_checks [OF prep [unfolded Inr]] same2 by (simp_all add: same_db_def)
      have inv2: "db_inv active history db2" "txn_inv db2 history txn tx" using inv t same2 by (simp_all add: same_db_inv)
      note pubs = publish_on_inv [OF inv2 checks pub]
      from pubs(1) same2 have "db_write_txns db3 = db_write_txns db" by (simp add: same_db_def)
      with pubs(2,3) eq tx2 show ?thesis by (auto simp: committed_def split: sum.splits)
    qed
  qed
qed

lemma commit_locked_attempts:
  "commit_locked ce (tx, db) =
    (case prepare_on ce tx db of
       (Inr p, db1) \<Rightarrow>
         (case transfer_on p (tx, db1) of
            (Inl (BudgetExceeded context), tx, db2) \<Rightarrow>
              (case checkpoint_locked (ce_crc ce) (ce_crc_append ce) (ce_checkpoint ce) (shed_on ce db2) of
                 (Inl e, db3) \<Rightarrow> (Inl e, tx, db3)
               | (Inr _, db3) \<Rightarrow> attempt ce (tx, shed_on ce db3))
          | _ \<Rightarrow> attempt ce (tx, db))
     | _ \<Rightarrow> attempt ce (tx, db))"
  unfolding commit_locked_def attempt_def
  by (auto split: prod.splits sum.splits devon_error.splits)

lemma commit_locked_inv:
  assumes inv: "db_inv active history db" and ce: "commit_env_ok ce" and tx: "active txn = Some tx"
    and run: "commit_locked ce (tx, db) = (res, tx', db')"
  shows "committed active history tx db res tx' db'"
proof -
  have t: "txn_inv db history txn tx" using inv tx by (simp add: db_inv_def)
  have io: "checkpoint_io_ok (ce_checkpoint ce)" using ce by (simp add: commit_env_ok_def)
  have retry: "committed active history tx db r tx4 db4"
    if prep: "prepare_on ce tx db = (Inr p, db1)" and tr: "transfer_on p (tx, db1) = (r2, tx2, db2)"
      and cp: "checkpoint_locked (ce_crc ce) (ce_crc_append ce) (ce_checkpoint ce) (shed_on ce db2) = (r3, db3)"
      and last: "(case r3 of Inl e \<Rightarrow> (Inl e, tx2, db3) | Inr _ \<Rightarrow> attempt ce (tx2, shed_on ce db3)) = (r, tx4, db4)"
    for p db1 r2 tx2 db2 r3 db3 r tx4 db4
  proof -
    from transfer_on_fields(5) [OF tr] obtain n where tx2: "tx2 = charge n tx" ..
    have same: "same_db db (shed_on ce db2)"
      using same_db_steps(1) [OF prep] same_db_steps(2) [OF tr] by (simp add: same_db_def shed_on_def)
    have ck: "checkpointed active history (shed_on ce db2) r3 db3"
      by (rule checkpoint_inv [OF _ io cp]) (simp add: inv same_db_inv(1) [OF same])
    have inv3: "db_inv active history db3" and wt: "db_write_txns db3 = db_write_txns db"
      using ck same by (simp_all add: checkpointed_def same_db_def)
    have t3: "txn_inv (shed_on ce db3) history txn tx2"
      using inv3 tx by (simp add: tx2 same_db_inv(2) [OF same_db_steps(3)] db_inv_def)
    have inv4: "db_inv active history (shed_on ce db3)" using inv3 by (simp add: same_db_inv(1) [OF same_db_steps(3)])
    show ?thesis
    proof (cases r3)
      case (Inl e)
      with last inv3 wt tx2 show ?thesis by (auto simp: committed_def)
    next
      case (Inr u)
      with last have "attempt ce (tx2, shed_on ce db3) = (r, tx4, db4)" by simp
      from attempt_inv [OF inv4 t3 this] wt show ?thesis by (auto simp: committed_def tx2 shed_on_def split: sum.splits)
    qed
  qed
  show ?thesis
    using run attempt_inv [OF inv t] retry unfolding commit_locked_attempts
    by (auto split: prod.splits sum.splits devon_error.splits)
qed

section \<open>Every step keeps it\<close>

text \<open>A transaction that ends leaves the registry; the entries of the others stay.\<close>

lemma finish_inv:
  assumes inv: "db_inv active history db" and tx: "active txn = Some tx"
  shows "db_inv (active(txn := None)) history (finish_on (charge n tx) db)"
proof -
  have st: "state_inv db history" and t: "txn_inv db history txn tx" using inv tx by (simp_all add: db_inv_def)
  have fin: "db_state (finish_on (charge n tx) db) = db_state db" "lsns_ok (finish_on (charge n tx) db) = lsns_ok db"
    "db_write_txns (finish_on (charge n tx) db) = bt_remove txn (db_write_txns db)"
    using t by (simp_all add: finish_on_def transaction_finish_def lsns_ok_def charge_def txn_inv_def)
  have wf: "bt_wf (db_write_txns db)" using st by (simp add: state_inv_def)
  have "state_inv (finish_on (charge n tx) db) history"
    using st wf by (simp add: state_inv_def fin bt_wf_remove)
  moreover have "txn_inv (finish_on (charge n tx) db) history id' tx'" if "(active(txn := None)) id' = Some tx'" for id' tx'
  proof -
    from that have "id' \<noteq> txn" "active id' = Some tx'" by (auto split: if_splits)
    with inv have "txn_inv db history id' tx'" by (simp add: db_inv_def)
    with \<open>id' \<noteq> txn\<close> wf show ?thesis by (simp add: txn_inv_def fin bt_get_remove)
  qed
  ultimately show ?thesis by (simp add: db_inv_def)
qed

lemma finish_same:
  assumes "db_inv active history db" "active txn = Some tx"
  shows "db_inv (active(txn := None)) history (finish_on tx db)"
  using finish_inv [OF assms] charge_same [of tx] by metis

lemma commit_transaction_inv:
  assumes inv: "db_inv active history db" and ce: "commit_env_ok ce" and tx: "active txn = Some tx"
    and poison: "poison_error tx = None" and run: "commit_transaction ce tx db = (res, db')"
  shows "db_inv (active(txn := None)) (history @ commits_of ce tx db) db'"
proof -
  have meta: "db_inv (active(txn := None)) history (finish_on tx db1)" if "publish_metadata ce tx db = (r, db1)" for r db1
    by (rule finish_same [OF metadata_inv(1) [OF inv ce that] tx])
  have index: "db_inv (active(txn := None)) history (finish_on tx db1)" if "publish_index_build ce db = (r, db1)" for r db1
    by (rule finish_same [OF index_inv(1) [OF inv ce that] tx])
  obtain r1 tx1 db1 where cl: "commit_locked ce (tx, db) = (r1, tx1, db1)" by (metis prod_cases3)
  from commit_locked_inv [OF inv ce tx cl] obtain n where n: "tx1 = charge n tx"
    and c: "case r1 of Inl _ \<Rightarrow> db_inv active history db1
       | Inr _ \<Rightarrow> db_inv active (history @ [(ps_last_commit_lsn (db_state db1), snapshot_lsn tx,
           snd (last (ps_recent_summaries (db_state db1))))]) db1"
    by (auto simp: committed_def)
  have auto_ck: "db_inv a h (snd (checkpoint_locked (ce_crc ce) (ce_crc_append ce) io db2))"
    if "ce_auto_checkpoint ce = Some io" "db_inv a h db2" for io a h db2
    using checkpoint_inv [OF that(2), of io "ce_crc ce" "ce_crc_append ce"] that(1) ce
    by (metis checkpointed_def commit_env_ok_def prod.collapse)
  show ?thesis
  proof (cases "is_data_commit tx")
    case data: True
    then have kind: "\<not> metadata_pending tx" "\<not> write_set_is_empty (tx_writes tx)" "\<not> ws_hnsw_create (tx_writes tx)"
      by (simp_all add: is_data_commit_def)
    show ?thesis
    proof (cases r1)
      case (Inl e)
      with run kind cl have "db' = finish_on tx1 db1" by (simp add: commit_transaction_def)
      moreover from Inl c have "db_inv active history db1" by simp
      ultimately show ?thesis using finish_inv [where active = active and tx = tx and txn = txn and db = db1, OF _ tx] n Inl cl data by (simp add: commits_of_def)
    next
      case (Inr u)
      let ?h = "history @ commits_of ce tx db"
      have "commits_of ce tx db = [(ps_last_commit_lsn (db_state db1), snapshot_lsn tx, snd (last (ps_recent_summaries (db_state db1))))]"
        using data cl Inr by (simp add: commits_of_def)
      with c Inr have "db_inv active ?h db1" by simp
      from finish_inv [OF this tx, of n] n have fin: "db_inv (active(txn := None)) ?h (finish_on tx1 db1)" by simp
      from run kind cl Inr have "db' = (case ce_auto_checkpoint ce of None \<Rightarrow> finish_on tx1 db1
        | Some io \<Rightarrow> snd (checkpoint_locked (ce_crc ce) (ce_crc_append ce) io (finish_on tx1 db1)))"
        by (simp add: commit_transaction_def)
      with fin auto_ck show ?thesis by (simp split: option.splits)
    qed
  next
    case False
    then have "commits_of ce tx db = []" by (simp add: commits_of_def)
    with False run poison meta index finish_same [OF inv tx] show ?thesis
      by (auto simp: commit_transaction_def is_data_commit_def split: if_splits prod.splits)
  qed
qed

lemma transaction_commit_inv:
  assumes inv: "db_inv active history db" and ce: "commit_env_ok ce" and tx: "active txn = Some tx"
    and run: "transaction_commit ce tx db = (res, db')"
  shows "db_inv (active(txn := None)) (history @ commits_of ce tx db) db'"
proof (cases "poison_error tx")
  case None
  with run commit_transaction_inv [OF inv ce tx] show ?thesis by (simp add: transaction_commit_def)
next
  case (Some e)
  then have "commits_of ce tx db = []" by (simp add: commits_of_def is_data_commit_def)
  with Some run finish_same [OF inv tx] show ?thesis by (simp add: transaction_commit_def)
qed

lemma begin_inv:
  assumes inv: "db_inv active history db" and fresh: "active txn = None" and run: "database_begin txn db = (tx, db')"
  shows "db_inv (active(txn \<mapsto> tx)) history db'"
proof -
  have st: "state_inv db history" using inv by (simp add: db_inv_def)
  then have wf: "bt_wf (db_write_txns db)" and cat: "tables_wf (ps_catalog (db_state db))"
    and past: "\<forall>(l, seen, summary) \<in> set history. l \<le> ps_last_commit_lsn (db_state db)" by (simp_all add: state_inv_def)
  have db': "db_state db' = db_state db" "lsns_ok db' = lsns_ok db"
    "db_write_txns db' = bt_insert txn (ps_last_commit_lsn (db_state db)) (db_write_txns db)"
    and tx: "tx = transaction_new txn (db_state db)"
    using run by (auto simp: database_begin_def begin_transaction_def lsns_ok_def)
  have "state_inv db' history" using st wf by (simp add: state_inv_def db' bt_wf_insert)
  moreover have "txn_inv db' history txn tx"
    using past staged_ok_new [OF cat, of txn] wf
    by (auto simp: txn_inv_def tx transaction_new_def db' bt_get_insert not_less)
  moreover have "txn_inv db' history id' tx'" if "active id' = Some tx'" for id' tx'
  proof -
    from that fresh have "id' \<noteq> txn" by auto
    with inv that wf show ?thesis by (auto simp: db_inv_def txn_inv_def db' bt_get_insert)
  qed
  ultimately show ?thesis by (simp add: db_inv_def)
qed

lemma execute_inv:
  assumes inv: "db_inv active history db" and tx: "active txn = Some tx" and rows: "statement_rows stmt"
    and run: "execute_in_transaction env rl se stmt (tx, st) = (res, tx', st')"
  shows "db_inv (active(txn \<mapsto> tx')) history db"
proof -
  have t: "txn_inv db history txn tx" using inv tx by (simp add: db_inv_def)
  then have "sound (tx, st)" by (simp add: txn_inv_def)
  from execute_sound [OF rows this, of env rl se] have "staged_ok tx'" by (simp add: run)
  moreover have "snapshot_of tx' = snapshot_of tx" using execute_keeps_snapshot [OF run] by simp
  ultimately have "txn_inv db history txn tx'" using t by (simp add: txn_inv_def snapshot_of_def)
  with inv show ?thesis by (simp add: db_inv_def)
qed

lemma step_world_inv:
  assumes "db_step w w'" "world_inv w"
  shows "world_inv w'"
  using assms
proof (induction rule: db_step.induct)
  case (step_begin w next_id tx db)
  then have fresh: "wd_active w (wd_next_id w) = None" by (auto simp: world_inv_def dom_def)
  have up: "wd_next_id w < next_id"
    using step_begin(1) by (auto simp: checked_add_word_def word_less_nat_alt unat_word_ariths split: if_splits)
  from step_begin(3) have "db_inv (wd_active w) (wd_history w) (wd_db w)" by (simp add: world_inv_def)
  from begin_inv [OF this fresh step_begin(2)] up step_begin(3) show ?case
    by (auto simp: world_inv_def intro: order.strict_trans)
next
  case (step_execute w txn tx stmt env rl se caches budget res tx' caches' budget' shared)
  from step_execute(4) have inv: "db_inv (wd_active w) (wd_history w) (wd_db w)" by (simp add: world_inv_def)
  let ?db = "(wd_db w)\<lparr> db_caches := shared, db_budget := budget' \<rparr>"
  have "same_db (wd_db w) ?db" by (simp add: same_db_def)
  from same_db_inv(1) [OF this] inv have "db_inv (wd_active w) (wd_history w) ?db" by simp
  from execute_inv [OF this step_execute(1-3)] step_execute(1,4) show ?case by (auto simp: world_inv_def)
next
  case (step_commit w txn tx ce res db)
  then have "db_inv (wd_active w) (wd_history w) (wd_db w)" by (simp add: world_inv_def)
  from transaction_commit_inv [OF this step_commit(2,1,3)] step_commit(4) show ?case by (auto simp: world_inv_def)
next
  case (step_abort w txn tx)
  then have "db_inv (wd_active w) (wd_history w) (wd_db w)" by (simp add: world_inv_def)
  from finish_same [OF this step_abort(1)] step_abort(2) show ?case by (auto simp: world_inv_def)
next
  case (step_checkpoint io crc32c crc32c_append w res db)
  then have "db_inv (wd_active w) (wd_history w) (wd_db w)" by (simp add: world_inv_def)
  from checkpoint_inv [OF this step_checkpoint(1,2)] step_checkpoint(3) show ?case by (simp add: world_inv_def checkpointed_def)
qed

interpretation db_system: invariant_system db_opened db_step world_inv
proof unfold_locales
  fix w :: world
  assume "db_opened w"
  then show "world_inv w" by (simp add: db_opened_def world_inv_def db_inv_def state_inv_def)
next
  fix w w' :: world
  assume "db_step w w'" "world_inv w"
  then show "world_inv w'" by (rule step_world_inv)
qed

section \<open>First committer wins\<close>

text \<open>
  C2. First committer wins: however transactions begin, execute, commit, abort and checkpoint one after
  the other, no two commits whose claims conflict were concurrent, so that of two conflicting
  transactions the later one committed on a snapshot that contains the earlier; and the check of a
  transaction at its commit is exact: it passes if and only if the claims of the transaction conflict with
  no commit of the past that is newer than its snapshot, although summaries are pruned at checkpoints.
\<close>

theorem first_committer_wins:
  assumes "db_opened w0" and "db_step\<^sup>*\<^sup>* w0 w"
  shows "(\<forall>(lsn, seen, summary) \<in> set (wd_history w). \<forall>(lsn', seen', summary') \<in> set (wd_history w).
      seen < lsn' \<and> lsn' < lsn \<longrightarrow> \<not> conflicts summary summary') \<and>
    (\<forall>txn tx ours. wd_active w txn = Some tx \<longrightarrow> summary_from_writes (tx_catalog tx) (tx_writes tx) = Inr ours \<longrightarrow>
      (detect_conflict (db_state (wd_db w)) tx = Inr () \<longleftrightarrow>
        (\<forall>(lsn, seen, summary) \<in> set (wd_history w). snapshot_lsn tx < lsn \<longrightarrow> \<not> conflicts ours summary)))"
proof (intro conjI allI impI)
  have "world_inv w" using assms by (rule db_system.reachable_inv)
  then have inv: "db_inv (wd_active w) (wd_history w) (wd_db w)" by (simp add: world_inv_def)
  then have st: "state_inv (wd_db w) (wd_history w)" by (simp add: db_inv_def)
  then show "\<forall>(lsn, seen, summary) \<in> set (wd_history w). \<forall>(lsn', seen', summary') \<in> set (wd_history w).
      seen < lsn' \<and> lsn' < lsn \<longrightarrow> \<not> conflicts summary summary'"
    by (simp add: state_inv_def)
  fix txn tx ours
  assume tx: "wd_active w txn = Some tx" and ours: "summary_from_writes (tx_catalog tx) (tx_writes tx) = Inr ours"
  then have t: "txn_inv (wd_db w) (wd_history w) txn tx" using inv by (simp add: db_inv_def)
  then have wf: "ws_wf (tx_writes tx)" by (auto simp: txn_inv_def staged_ok_def intro: writes_ok_wf)
  have sorted: "sorted_wrt (<) (map fst (ps_recent_summaries (db_state (wd_db w))))" using st by (simp add: state_inv_def)
  have past: "\<exists>seen. (lsn, seen, summary) \<in> set (wd_history w)"
    if "(lsn, summary) \<in> set (ps_recent_summaries (db_state (wd_db w)))" for lsn summary
    using st that unfolding state_inv_def by blast
  have kept: "(lsn, summary) \<in> set (ps_recent_summaries (db_state (wd_db w)))"
    if "(lsn, seen, summary) \<in> set (wd_history w)" "snapshot_lsn tx < lsn" for lsn seen summary
    using t that unfolding txn_inv_def by blast
  show "detect_conflict (db_state (wd_db w)) tx = Inr () \<longleftrightarrow>
      (\<forall>(lsn, seen, summary) \<in> set (wd_history w). snapshot_lsn tx < lsn \<longrightarrow> \<not> conflicts ours summary)"
    unfolding detect_conflict_iff [OF ours wf sorted] using past kept by fast
qed

section \<open>Two transactions that create the same table\<close>

definition race_columns :: "schema_column list" where
  "race_columns = [\<lparr> scol_name = ''id'', scol_ty = TInt64, scol_primary_key = True \<rparr>]"

definition race_schema :: node_table_schema where
  "race_schema = projr (node_schema_new ''t'' race_columns)"

abbreviation race_catalog :: catalog where
  "race_catalog \<equiv> catalog_default\<lparr> cat_node_tables := [race_schema] \<rparr>"

definition race_summary :: commit_summary where
  "race_summary = \<lparr> sum_inserted_pks = [], sum_dml_pks = [], sum_detach_pks = [], sum_edge_endpoint_pks = [], sum_created_tables = [''t''] \<rparr>"

definition race_writes :: write_set where
  "race_writes = write_set_default\<lparr> ws_ddl := [OpCreateNodeTable race_schema] \<rparr>"

definition racer :: "nat \<Rightarrow> u64 \<Rightarrow> transaction" where
  "racer n i = (transaction_new i empty_state)\<lparr> tx_catalog := race_catalog, tx_writes := race_writes\<lparr> ws_charged := n \<rparr> \<rparr>"

definition race_prepared :: prepared_commit where
  "race_prepared = \<lparr> pc_current = empty_state, pc_catalog = race_catalog, pc_delta = delta_default\<lparr> delta_ddl := [OpCreateNodeTable race_schema] \<rparr>,
     pc_rel_delete_records = [], pc_summary = race_summary \<rparr>"

lemma race_schema:
  "node_schema_new ''t'' race_columns = Inr race_schema" "add_node_table catalog_default race_schema = Inr race_catalog"
  "reject_interface_collision_for_node catalog_default ''t'' = Inr ()" "node_name race_schema = ''t''"
  "node_columns race_schema = race_columns"
  by code_simp+

lemma race_estimates:
  "ddl_bytes (OpCreateNodeTable race_schema) = Inr 147" "delta_estimated_bytes (pc_delta race_prepared) = Inr 243"
  "summary_estimated_bytes race_summary = Inr 121"
  by (simp_all add: race_prepared_def race_summary_def race_schema race_columns_def ws_estimate_columns_def checked_accumulate_def delta_estimated_bytes_def delta_default_def
      summary_estimated_bytes_def estimate_node_rows_def estimate_keys_def estimate_edges_def estimate_rel_tombstones_def estimate_columns_def
      checked_estimate_accumulate_def checked_estimate_add_def checked_add_usize_def DDL_OP_OVERHEAD_BYTES_def SCHEMA_COLUMN_OVERHEAD_BYTES_def
      COMMIT_DELTA_OVERHEAD_BYTES_def COMMIT_SUMMARY_OVERHEAD_BYTES_def SUMMARY_TABLE_NAME_OVERHEAD_BYTES_def)

lemma race_summary: "summary_from_writes cat (race_writes\<lparr> ws_charged := n \<rparr>) = Inr race_summary"
  by (simp add: summary_from_writes_def race_writes_def write_set_default_def dml_pks_from_writes_def merge_update_keys_def
      edge_endpoint_pks_from_writes_def detach_pks_from_writes_def race_schema race_summary_def)

lemma race_prepares: "prepare_commit env empty_state (racer n i) st = (Inr race_prepared, st)"
proof -
  have "detect_conflict empty_state (racer n i) = Inr ()" 
    by (simp add: detect_conflict_def empty_state_def racer_def race_writes_def write_set_default_def
      dml_pks_from_writes_def merge_update_keys_def edge_endpoint_pks_from_writes_def detach_pks_from_writes_def)
  moreover have "ps_catalog empty_state = catalog_default" "tx_writes (racer n i) = race_writes\<lparr> ws_charged := n \<rparr>"
    by (simp_all add: empty_state_def racer_def)
  moreover have "ws_ddl race_writes = [OpCreateNodeTable race_schema]" by (simp add: race_writes_def)
  moreover have "build_commit_delta env empty_state race_catalog (race_writes\<lparr> ws_charged := n \<rparr>) st = (Inr (pc_delta race_prepared, []), st)"
    by (simp add: race_writes_def write_set_default_def build_commit_delta_def delta_of_writes_def resolve_edges_for_view_def resolve_detaches_for_commit_def
      rel_tombstones_from_records_def race_prepared_def delta_default_def)
  moreover have "validate_commit_dml_refusals race_catalog (race_writes\<lparr> ws_charged := n \<rparr>) = Inr ()"
    by (simp add: validate_commit_dml_refusals_def race_writes_def write_set_default_def)
  ultimately show ?thesis
    by (simp add: prepare_commit_def validate_ddl_interface_collisions_def race_schema race_summary apply_ddl_to_catalog_def race_prepared_def)
qed

definition race_env :: commit_env where
  "race_env = \<lparr> ce_read = sample_env, ce_json = sample_json\<lparr> to_vec := \<lambda>_. Some [] \<rparr>, ce_crc = byte_sum, ce_crc_append = byte_sum_append,
     ce_io = good_io, ce_shed = (\<lambda>b. b),
     ce_checkpoint = \<lparr> ci_backoff = Inr (), ci_materialize = (\<lambda>state. Inr (ps_catalog state)), ci_save = Inr (), ci_truncate = Inr (),
       ci_open = Inr (), ci_flags = Inr () \<rparr>,
     ce_publish = \<lparr> ci_backoff = Inr (), ci_materialize = (\<lambda>state. Inr (ps_catalog state)), ci_save = Inr (), ci_truncate = Inr (),
       ci_open = Inr (), ci_flags = Inr () \<rparr>,
     ce_check_index = (\<lambda>_. Inr ()), ce_build_index = Inr, ce_auto_checkpoint = None \<rparr>"

definition race_db :: db where
  "race_db = \<lparr> db_state = empty_state, db_caches = (\<lambda>_. cache_default), db_budget = budget_new 4096,
     db_pipe = \<lparr> cp_wal = Some (wal_open byte_sum byte_sum_append [] 1), cp_flags = 0 \<rparr>, db_checkpoint_lsn = 0, db_write_txns = [] \<rparr>"

lemma race_records: "wal_records (pc_delta race_prepared) (pc_rel_delete_records race_prepared) = [Ddl (CreateNodeTable race_schema)]"
  by (simp add: wal_records_def race_prepared_def delta_default_def)

lemma race_durable: 
  "\<exists>pipe'. make_durable (ce_json race_env) byte_sum byte_sum_append good_io required [Ddl (CreateNodeTable race_schema)] (db_pipe race_db) = (Inr 2, pipe')"
proof -
  have "encode_transaction (ce_json race_env) [Ddl (CreateNodeTable race_schema)] = Inr [[], []]"
    by (simp add: encode_transaction_def validate_record_order_def order_start_def advance_phase_def
        encode_json_def race_env_def sample_json_def)
  then show ?thesis
    by (simp add: make_durable_def race_db_def good_io_def set_wal_feature_flags_def wal_open_empty
        wal_append_def encode_header_def u32_try_from_def checked_add_usize_def WAL_HEADER_LEN_def
        checked_add_word_def Let_def)
qed

lemma race_executes:
  "execute_in_transaction sample_env sample_relief sample_statement_env (StmtCreateNodeTable ''t'' race_columns)
    (transaction_new i empty_state, caches, budget_new 4096) = (Inr (), racer 147 i, caches, (budget_new 4096)\<lparr> mb_charged := 147 \<rparr>)"
proof -
  let ?tx = "transaction_new i empty_state"
  have tx: "\<not> ws_hnsw_create (tx_writes ?tx)" "\<not> ontology_pending ?tx" "\<not> pins_pending ?tx" "poison_error ?tx = None" "tx_catalog ?tx = catalog_default"
    by (simp_all add: transaction_new_def write_set_default_def ontology_pending_def pins_pending_def empty_state_def poison_error_def)
  have charge: "charge_write_set sample_relief 147 (?tx, caches, budget_new 4096) = (Inr (), charge 147 ?tx, caches, (budget_new 4096)\<lparr> mb_charged := 147 \<rparr>)"
    by (simp add: charge_write_set_def sbind_def try_charge_write_set_def try_charge_def charge_attempt_def budget_new_def checked_add_usize_def slift_def
       transaction_new_def write_set_default_def charge_def)
  have stage: "stage_ddl sample_relief (OpCreateNodeTable race_schema) race_catalog (?tx, caches, budget_new 4096) =
      (Inr (), racer 147 i, caches, (budget_new 4096)\<lparr> mb_charged := 147 \<rparr>)"
    by (simp add: stage_ddl_def race_estimates sbind_def slift_def charge set_tx_catalog_def modify_writes_def del: ddl_bytes.simps)
      (simp add: charge_def racer_def race_writes_def transaction_new_def write_set_default_def)
  show ?thesis
    by (simp add: execute_in_transaction_def transaction_execute_def execute_transaction_def execute_create_node_table_def with_tx_def
      tx sbind_def slift_def race_schema stage)
qed

text \<open>Two transactions create the same table; the first one commits.\<close>

definition race_commit_db :: db where
  "race_commit_db = race_db\<lparr> db_budget := (budget_new 4096)\<lparr> mb_charged := 147 \<rparr>, db_write_txns := [(0, 0), (1, 0)] \<rparr>"

lemma race_commits:
  "\<exists>tx db. commit_locked race_env (racer 147 0, race_commit_db) = (Inr (), tx, db) \<and>
    ps_last_commit_lsn (db_state db) = 2 \<and> ps_recent_summaries (db_state db) = [(2, race_summary)]"
proof -
  let ?db = "race_commit_db\<lparr> db_budget := (budget_new 4096)\<lparr> mb_charged := 492 \<rparr> \<rparr>"
  have prep: "prepare_on race_env (racer 147 0) race_commit_db = (Inr race_prepared, race_commit_db)"
    by (simp add: prepare_on_def race_prepares race_commit_db_def race_db_def)
  have sum: "pc_summary race_prepared = race_summary" by (simp add: race_prepared_def)
  have transfer: "transfer_on race_prepared (racer 147 0, race_commit_db) =
      (Inr \<lparr> cr_link_bytes = 371, cr_summary_bytes = 121 \<rparr>, racer 0 0, ?db)"
    by (simp add: transfer_on_def transfer_commit_charge_def race_estimates sum COMMIT_LINK_OVERHEAD_BYTES_def checked_add_usize_def
        racer_def race_commit_db_def race_db_def try_charge_def charge_attempt_def budget_new_def)
  obtain pipe' where dur: "make_durable (ce_json race_env) byte_sum byte_sum_append good_io 0 [Ddl (CreateNodeTable race_schema)] (db_pipe race_db) = (Inr 2, pipe')"
    using race_durable by blast
  have flags: "required_wal_flags (delta_node_updates (pc_delta race_prepared) \<noteq> [] \<or> delta_node_deletes (pc_delta race_prepared) \<noteq> [])
      (pc_rel_delete_records race_prepared \<noteq> []) (delta_mutates_indexed_table (pc_catalog race_prepared) (pc_delta race_prepared)) = 0"
    by (simp add: required_wal_flags_def race_prepared_def delta_default_def delta_mutates_indexed_table_def catalog_default_def)
  have chain: "ps_chain (pc_current race_prepared) = None" by (simp add: race_prepared_def empty_state_def)
  have pipe: "db_pipe race_commit_db = db_pipe race_db" by (simp add: race_commit_db_def)
  let ?st = "next_state race_prepared (CommitLink None 2 (pc_delta race_prepared) 371) 2"
  have "publish_prepared_commit (ce_json race_env) byte_sum byte_sum_append good_io race_prepared \<lparr> cr_link_bytes = 371, cr_summary_bytes = 121 \<rparr>
      (db_pipe race_db, db_budget ?db) = (Inr ?st, pipe', db_budget ?db)"
    unfolding publish_prepared_commit_def Let_def flags
    by (simp add: race_estimates sum race_records dur COMMIT_LINK_OVERHEAD_BYTES_def checked_add_usize_def
       commit_link_new_arc_reserved_def checked_estimate_add_def chain
        del: disj_not1 disj_not2)
  then have "publish_on race_env race_prepared \<lparr> cr_link_bytes = 371, cr_summary_bytes = 121 \<rparr> ?db =
     (Inr (), ?db\<lparr> db_state := ?st, db_pipe := pipe' \<rparr>)"
    by (simp add: publish_on_def race_commit_db_def race_db_def race_env_def)
  then have "commit_locked race_env (racer 147 0, race_commit_db) = (Inr (), racer 0 0, ?db\<lparr> db_state := ?st, db_pipe := pipe' \<rparr>)"
    by (simp add: commit_locked_def prep transfer)
  then show ?thesis by (simp add: next_state_def race_prepared_def empty_state_def)
qed

definition race_world :: world where
  "race_world = \<lparr> wd_db = race_db, wd_next_id = 0, wd_active = Map.empty, wd_history = [] \<rparr>"

lemma race_opened: "db_opened race_world"
  by (auto simp: db_opened_def race_world_def race_db_def lsns_ok_def wal_open_empty empty_state_def catalog_default_def tables_wf_def)

theorem first_committer_wins_witness:
  "\<exists>w tx. db_opened race_world \<and> db_step\<^sup>*\<^sup>* race_world w \<and> wd_history w = [(2, 0, race_summary)] \<and>
    wd_active w 1 = Some tx \<and> summary_from_writes (tx_catalog tx) (tx_writes tx) = Inr race_summary \<and>
    detect_conflict (db_state (wd_db w)) tx \<noteq> Inr ()"
proof -
  let ?charged = "(budget_new 4096)\<lparr> mb_charged := 147 \<rparr>"
  let ?w1 = "\<lparr> wd_db = race_db\<lparr> db_write_txns := [(0, 0)] \<rparr>, wd_next_id = 1, wd_active = [0 \<mapsto> transaction_new 0 empty_state], wd_history = [] \<rparr>"
  let ?w2 = "?w1\<lparr> wd_db := race_db\<lparr> db_write_txns := [(0, 0), (1, 0)] \<rparr>, wd_next_id := 2,
    wd_active := [0 \<mapsto> transaction_new 0 empty_state, 1 \<mapsto> transaction_new 1 empty_state] \<rparr>"
  let ?w3 = "?w2\<lparr> wd_db := race_commit_db, wd_active := [0 \<mapsto> racer 147 0, 1 \<mapsto> transaction_new 1 empty_state] \<rparr>"
  let ?w4 = "?w2\<lparr> wd_db := race_commit_db, wd_active := [0 \<mapsto> racer 147 0, 1 \<mapsto> racer 147 1] \<rparr>"
  have "db_step race_world ?w1"
    using step_begin [of race_world 1 "transaction_new 0 empty_state" "race_db\<lparr> db_write_txns := [(0, 0)] \<rparr>"]
    by (simp add: race_world_def database_begin_def begin_transaction_def race_db_def empty_state_def checked_add_word_def)
  moreover have "db_step ?w1 ?w2"
    using step_begin [of ?w1 2 "transaction_new 1 empty_state" "race_db\<lparr> db_write_txns := [(0, 0), (1, 0)] \<rparr>"]
    by (simp add: race_world_def database_begin_def begin_transaction_def race_db_def empty_state_def checked_add_word_def)
  moreover have "db_step ?w2 ?w3"
    using step_execute [of ?w2 0, OF _ _ race_executes [where i = 0 and caches = "\<lambda>_. cache_default"], of "\<lambda>_. cache_default"]
    by (simp add: race_commit_db_def race_db_def fun_upd_twist)
  moreover have "db_step ?w3 ?w4"
    using step_execute [of ?w3 1, OF _ _ race_executes [where i = 1 and caches = "\<lambda>_. cache_default"], of "\<lambda>_. cache_default"]
    by (simp add: race_commit_db_def race_db_def)
  ultimately have four: "db_step\<^sup>*\<^sup>* race_world ?w4"
    by (meson rtranclp.rtrancl_refl rtranclp.rtrancl_into_rtrancl)
  obtain tx db where cl: "commit_locked race_env (racer 147 0, race_commit_db) = (Inr (), tx, db)"
    "ps_last_commit_lsn (db_state db) = 2" "ps_recent_summaries (db_state db) = [(2, race_summary)]" using race_commits by blast
  have data: "is_data_commit (racer 147 0)"
    by code_simp
  have "commits_of race_env (racer 147 0) race_commit_db = [(2, 0, race_summary)]"
    using data cl by (simp add: commits_of_def racer_def transaction_new_def empty_state_def)
  moreover obtain res db' where "transaction_commit race_env (racer 147 0) race_commit_db = (res, db')" by fastforce
  moreover have "commit_env_ok race_env" by (simp add: race_env_def commit_env_ok_def checkpoint_io_ok_def)
  ultimately have "db_step ?w4 (?w4\<lparr> wd_db := db', wd_active := (wd_active ?w4)(0 := None), wd_history := [(2, 0, race_summary)] \<rparr>)"
    using step_commit [of ?w4 0 "racer 147 0" race_env res db'] by simp
  with four have five: "db_step\<^sup>*\<^sup>* race_world (?w4\<lparr> wd_db := db', wd_active := (wd_active ?w4)(0 := None), wd_history := [(2, 0, race_summary)] \<rparr>)"
    (is "db_step\<^sup>*\<^sup>* race_world ?w") by (rule rtranclp.rtrancl_into_rtrancl)
  have act: "wd_active ?w 1 = Some (racer 147 1)" "wd_history ?w = [(2, 0, race_summary)]" by simp_all
  have ours: "summary_from_writes (tx_catalog (racer 147 1)) (tx_writes (racer 147 1)) = Inr race_summary"
    by (simp add: racer_def race_summary)
  have "conflicts race_summary race_summary" by (simp add: conflicts_def race_summary_def)
  with conjunct2 [OF first_committer_wins [OF race_opened five], rule_format, OF act(1) ours] act(2)
  have "detect_conflict (db_state (wd_db ?w)) (racer 147 1) \<noteq> Inr ()" by (simp add: racer_def transaction_new_def empty_state_def)
  with race_opened five act ours show ?thesis by blast
qed

end
