(* ===== verification/Recovery.thy ===== *)
theory Recovery
  imports Statements Durability
begin

text \<open>
  Opening a database after a crash and following one that another process writes
  (\<^verbatim>\<open>devondb/src/database/recovery.rs\<close>, the open and follower paths of \<^verbatim>\<open>options.rs\<close>): reading the log
  from a cursor, checking every committed group against the catalog and the row counts it finds,
  rebuilding the published state from the groups, extending it by later ones, and trimming what a
  crash left behind the last commit. Files are their bytes; \<open>None\<close> is a file that does not exist. The
  groups of a table are read from a store, as on the other paths.
\<close>

section \<open>Row counts\<close>

type_synonym node_totals = "(string, u64) btree"

definition group_rows_total :: "group_store \<Rightarrow> u64 list \<Rightarrow> u64 devon_result" where
  "group_rows_total store group_ids =
    rfold (\<lambda>group_id count.
      rbind (map_err (\<lambda>_. Corrupt ''node table {} group {} has invalid metadata during recovery: {}'') (store group_id)) (\<lambda>rows.
      rbind (ok_or (Corrupt ''node table {} group row count exceeds u64::MAX during recovery'') (u64_try_from (length rows))) (\<lambda>n.
      ok_or (Corrupt ''checkpointed row count for node table {} exceeds u64::MAX during recovery'')
        (checked_add_word count n)))) group_ids 0"

definition checkpointed_node_totals :: "group_store \<Rightarrow> catalog \<Rightarrow> node_totals devon_result" where
  "checkpointed_node_totals store cat =
    rfold (\<lambda>sch totals.
      rbind (group_rows_total store (stored_group_ids cat (node_name sch))) (\<lambda>count.
      Inr (bt_insert (node_name sch) count totals))) (cat_node_tables cat) []"

definition register_tables :: "catalog \<Rightarrow> node_totals \<Rightarrow> node_totals" where
  "register_tables cat totals = fold (\<lambda>sch. bt_entry (node_name sch) 0 (\<lambda>n. n)) (cat_node_tables cat) totals"

definition total_of :: "node_totals \<Rightarrow> string \<Rightarrow> u64" where
  "total_of totals table = (case bt_get totals table of None \<Rightarrow> 0 | Some n \<Rightarrow> n)"

definition increment_table :: "string \<times> row list \<Rightarrow> node_totals \<Rightarrow> node_totals devon_result" where
  "increment_table = (\<lambda>(table, rows) totals.
    rbind (ok_or (Corrupt ''WAL transaction committed at LSN {} has too many rows for node table {}'') (u64_try_from (length rows))) (\<lambda>added.
    rbind (ok_or (Corrupt ''WAL transaction committed at LSN {} overflows the overlay row count for node table {}'')
      (checked_add_word (total_of totals table) added)) (\<lambda>sum.
    Inr (bt_insert table sum totals))))"

definition increment_overlay_totals :: "commit_delta \<Rightarrow> node_totals \<Rightarrow> node_totals devon_result" where
  "increment_overlay_totals d totals = rfold increment_table (delta_nodes d) totals"

definition recovered_node_total :: "node_totals \<Rightarrow> node_totals \<Rightarrow> commit_delta \<Rightarrow> string \<Rightarrow> u64 devon_result" where
  "recovered_node_total checkpointed overlay d table =
    rbind (ok_or (Corrupt ''WAL transaction committed at LSN {} references missing endpoint node table {}'')
      (bt_get checkpointed table)) (\<lambda>base.
    rbind (ok_or (Corrupt ''WAL transaction committed at LSN {} has too many rows for node table {}'')
      (u64_try_from (length (bt_items (delta_nodes d) table)))) (\<lambda>own.
    ok_or (Corrupt ''WAL transaction committed at LSN {} overflows the row count for node table {}'')
      (Option.bind (checked_add_word base (total_of overlay table)) (\<lambda>sum. checked_add_word sum own))))"

section \<open>Checking a recovered delta\<close>

text \<open>The validators buffer what they accept; only the check is used.\<close>

definition check_rows :: "node_table_schema \<Rightarrow> devon_error \<Rightarrow> row list \<Rightarrow> unit devon_result" where
  "check_rows sch e rows = rbind (map_err (\<lambda>_. e) (rfold (recover_row sch) rows [])) (\<lambda>_. Inr ())"

definition reject_recovered_referenced_delete ::
    "catalog \<Rightarrow> node_table_schema \<Rightarrow> devon_value list \<Rightarrow> commit_delta \<Rightarrow> unit devon_result" where
  "reject_recovered_referenced_delete cat sch keys d =
    rfold (\<lambda>rel _.
      let claims = bt_get (delta_rel_tombstones d) (rel_name rel);
          count = (\<lambda>offsets. case claims of None \<Rightarrow> 0 | Some t \<Rightarrow> card (offsets t :: u64 set));
          incomplete = Inl (Corrupt
            ''WAL transaction committed at LSN {} deletes from relationship endpoint node table {} without complete {} {} tombstones'')
      in if fold_name (rel_from rel) = fold_name (node_name sch) \<and> count from_offsets \<noteq> length keys then incomplete
         else if fold_name (rel_to rel) = fold_name (node_name sch) \<and> count to_offsets \<noteq> length keys then incomplete
         else Inr ()) (cat_rel_tables cat) ()"

definition validate_recovered_dml :: "catalog \<Rightarrow> commit_delta \<Rightarrow> unit devon_result" where
  "validate_recovered_dml cat d =
    (let dml_schema = (\<lambda>table.
       ok_or (Corrupt ''WAL transaction committed at LSN {} names unknown DML node table {}'') (node_table cat table))
     in rbind (rfold (\<lambda>(table, rows) _.
          rbind (dml_schema table) (\<lambda>sch.
          check_rows sch (Corrupt ''WAL transaction committed at LSN {} has invalid update for node table {}: {}'') rows))
          (delta_node_updates d) ()) (\<lambda>_.
        rfold (\<lambda>(table, keys) _.
          rbind (dml_schema table) (\<lambda>sch.
          rbind (reject_recovered_referenced_delete cat sch keys d) (\<lambda>_.
          rbind (primary_key sch) (\<lambda>(key_index, key_column).
          rfold (\<lambda>key _.
            if key = Null \<or> \<not> matches_type key (scol_ty (node_columns sch ! key_index))
            then Inl (Corrupt ''WAL transaction committed at LSN {} has invalid delete key for {}.{}: {}'')
            else Inr ()) keys ())))) (delta_node_deletes d) ()))"

definition validate_recovered_role_offsets ::
    "node_totals \<Rightarrow> node_totals \<Rightarrow> commit_delta \<Rightarrow> string \<Rightarrow> u64 set \<Rightarrow> unit devon_result" where
  "validate_recovered_role_offsets checkpointed overlay d endpoint_table offsets =
    (if offsets = {} then Inr ()
     else if \<not> list_ex (\<lambda>(table, _). fold_name table = fold_name endpoint_table) (delta_node_deletes d)
     then Inl (Corrupt ''WAL transaction committed at LSN {} has {} {} tombstones but does not detach node table {}'')
     else
       rbind (recovered_node_total checkpointed overlay d endpoint_table) (\<lambda>sum.
       if \<exists>offset \<in> offsets. sum \<le> offset
       then Inl (Corrupt ''WAL transaction committed at LSN {} has out-of-range {} {} tombstone offset {} for domain {}'')
       else Inr ()))"

definition validate_recovered_rel_tombstones ::
    "catalog \<Rightarrow> node_totals \<Rightarrow> node_totals \<Rightarrow> commit_delta \<Rightarrow> unit devon_result" where
  "validate_recovered_rel_tombstones cat checkpointed overlay d =
    rfold (\<lambda>(rel, tombstones) _.
      rbind (ok_or (Corrupt ''WAL transaction committed at LSN {} names unknown relationship tombstone table {}'')
        (rel_table cat rel)) (\<lambda>sch.
      rbind (validate_recovered_role_offsets checkpointed overlay d (rel_from sch) (from_offsets tombstones)) (\<lambda>_.
      validate_recovered_role_offsets checkpointed overlay d (rel_to sch) (to_offsets tombstones))))
      (delta_rel_tombstones d) ()"

definition validate_recovered_edges ::
    "catalog \<Rightarrow> node_totals \<Rightarrow> node_totals \<Rightarrow> commit_delta \<Rightarrow> string \<Rightarrow> overlay_edge list \<Rightarrow> unit devon_result" where
  "validate_recovered_edges cat checkpointed overlay d table edges =
    rbind (ok_or (Corrupt ''WAL transaction committed at LSN {} names unknown relationship table {}'') (rel_table cat table)) (\<lambda>sch.
    rbind (recovered_node_total checkpointed overlay d (rel_from sch)) (\<lambda>from_total.
    rbind (recovered_node_total checkpointed overlay d (rel_to sch)) (\<lambda>to_total.
    rfold (\<lambda>edge _.
      rbind (map_err (\<lambda>_. Corrupt ''WAL transaction committed at LSN {} has invalid edge for relationship table {}: {}'')
        (validate_rel_values sch (edge_values edge))) (\<lambda>_.
      if from_total \<le> edge_from edge \<or> to_total \<le> edge_to edge
      then Inl (Corrupt ''WAL transaction committed at LSN {} has out-of-range offsets ({}, {}) for relationship table {}'')
      else Inr ())) edges ())))"

definition validate_recovered_delta ::
    "catalog \<Rightarrow> node_totals \<Rightarrow> node_totals \<Rightarrow> commit_delta \<Rightarrow> unit devon_result" where
  "validate_recovered_delta cat checkpointed overlay d =
    rbind (rfold (\<lambda>(table, rows) _.
      rbind (ok_or (Corrupt ''WAL transaction committed at LSN {} names unknown node table {}'') (node_table cat table)) (\<lambda>sch.
      check_rows sch (Corrupt ''WAL transaction committed at LSN {} has invalid row for node table {}: {}'') rows))
      (delta_nodes d) ()) (\<lambda>_.
    rbind (validate_recovered_dml cat d) (\<lambda>_.
    rbind (validate_recovered_rel_tombstones cat checkpointed overlay d) (\<lambda>_.
    rfold (\<lambda>(table, edges) _. validate_recovered_edges cat checkpointed overlay d table edges) (delta_edges d) ())))"

section \<open>Summaries of recovered commits\<close>

definition keys_of_rows :: "devon_error \<Rightarrow> nat \<Rightarrow> row list \<Rightarrow> devon_value list devon_result" where
  "keys_of_rows e key_index rows =
    rmapM (\<lambda>row. ok_or e (if key_index < length row then Some (row ! key_index) else None)) rows"

definition summary_from_delta :: "catalog \<Rightarrow> commit_delta \<Rightarrow> commit_summary devon_result" where
  "summary_from_delta cat d =
    (let schema_of = (\<lambda>table. ok_or (Corrupt ''committed delta names unknown node table {}'') (node_table cat table))
     in rbind (rfold (\<lambda>(table, rows) claims.
          rbind (schema_of table) (\<lambda>sch.
          rbind (primary_key sch) (\<lambda>(key_index, _).
          rbind (keys_of_rows (Corrupt ''committed row lost its primary-key value'') key_index rows) (\<lambda>keys.
          Inr (bt_insert table keys claims))))) (delta_nodes d) []) (\<lambda>inserted.
        rbind (rfold (\<lambda>(table, rows) claims.
          rbind (schema_of table) (\<lambda>sch.
          rbind (primary_key sch) (\<lambda>(key_index, _).
          rbind (keys_of_rows (Corrupt ''committed update lost its primary-key value'') key_index rows) (\<lambda>keys.
          Inr (bt_entry table [] (fold push_new keys) claims))))) (delta_node_updates d) (delta_node_deletes d)) (\<lambda>dml.
        Inr \<lparr> sum_inserted_pks = inserted, sum_dml_pks = dml, sum_detach_pks = [], sum_edge_endpoint_pks = [],
              sum_created_tables = map ddl_name (delta_ddl d) \<rparr>)))"

definition commit_summary_new ::
    "memory_budget \<Rightarrow> commit_summary \<Rightarrow> (commit_summary \<times> nat) devon_result \<times> memory_budget" where
  "commit_summary_new budget summary =
    (case summary_estimated_bytes summary of
       Inl e \<Rightarrow> (Inl e, budget)
     | Inr bytes \<Rightarrow>
         (case try_charge budget bytes of
            (False, budget) \<Rightarrow>
              (Inl (BudgetExceeded ''commit summary requested {} bytes with {} bytes charged and limit {}''), budget)
          | (True, budget) \<Rightarrow> (Inr (summary, bytes), budget)))"

section \<open>Rebuilding the published state\<close>

record recovery_state =
  rs_catalog :: catalog
  rs_checkpointed_node_totals :: node_totals
  rs_overlay_node_totals :: node_totals
  rs_chain :: "commit_link option"
  rs_recent_summaries :: "(u64 \<times> commit_summary) list"
  rs_last_commit_lsn :: u64
  rs_catalog_generation :: u64
  rs_feature_flags :: u64

definition from_checkpoint :: "group_store \<Rightarrow> u64 \<Rightarrow> catalog \<Rightarrow> u64 \<Rightarrow> recovery_state devon_result" where
  "from_checkpoint store flags cat checkpoint_lsn =
    rbind (checkpointed_node_totals store cat) (\<lambda>totals.
    Inr \<lparr> rs_catalog = cat, rs_checkpointed_node_totals = totals, rs_overlay_node_totals = [], rs_chain = None,
          rs_recent_summaries = [], rs_last_commit_lsn = checkpoint_lsn, rs_catalog_generation = checkpoint_lsn,
          rs_feature_flags = flags \<rparr>)"

definition from_published :: "group_store \<Rightarrow> u64 \<Rightarrow> published_state \<Rightarrow> recovery_state devon_result" where
  "from_published store flags current =
    rbind (checkpointed_node_totals store (ps_catalog current)) (\<lambda>totals.
    rbind (rfold (\<lambda>link. increment_overlay_totals (link_delta link)) (commit_links_oldest_first (ps_chain current)) []) (\<lambda>overlay.
    Inr \<lparr> rs_catalog = ps_catalog current, rs_checkpointed_node_totals = totals, rs_overlay_node_totals = overlay,
          rs_chain = ps_chain current, rs_recent_summaries = ps_recent_summaries current,
          rs_last_commit_lsn = ps_last_commit_lsn current, rs_catalog_generation = ps_catalog_generation current,
          rs_feature_flags = flags \<rparr>))"

definition recovery_error :: "devon_error \<Rightarrow> devon_error" where
  "recovery_error e = Corrupt ''WAL transaction committed at LSN {} has {}: {}''"

text \<open>The checks of a group, before anything is charged: the catalog, the totals, the delta and its summary.\<close>

definition check_group ::
    "recovery_state \<Rightarrow> committed_group \<Rightarrow> (recovery_state \<times> commit_delta \<times> commit_summary) devon_result" where
  "check_group rs g =
    (if commit_lsn g \<le> rs_last_commit_lsn rs
     then Inl (Corrupt ''WAL commit LSN {} does not strictly follow previous commit LSN {}'')
     else
       rbind (map_err recovery_error (from_committed_group g)) (\<lambda>d.
       rbind (map_err (\<lambda>_. Corrupt ''WAL transaction committed at LSN {} has invalid DDL: {}'')
         (apply_ddl_to_catalog (rs_catalog rs) (delta_ddl d))) (\<lambda>cat.
       if delta_mutates_indexed_table cat d \<and> rs_feature_flags rs AND HNSW_MUTATION_WAL_FLAG = 0
       then Inl (Corrupt ''WAL transaction at LSN {} mutates an HNSW table without HNSW_MUTATION_WAL'')
       else
         (let checkpointed = register_tables cat (rs_checkpointed_node_totals rs);
              overlay = register_tables cat (rs_overlay_node_totals rs)
          in rbind (validate_recovered_delta cat checkpointed overlay d) (\<lambda>_.
             rbind (map_err recovery_error (summary_from_delta cat d)) (\<lambda>summary.
             Inr (rs\<lparr> rs_catalog := cat, rs_checkpointed_node_totals := checkpointed,
                      rs_overlay_node_totals := overlay \<rparr>, d, summary)))))))"

text \<open>An error after the summary was charged drops it. The result carries the bytes of the group.\<close>

definition apply_group ::
    "committed_group \<Rightarrow> recovery_state \<times> memory_budget \<Rightarrow> (recovery_state \<times> nat) devon_result \<times> memory_budget" where
  "apply_group g = (\<lambda>(rs, budget).
    case check_group rs g of
      Inl e \<Rightarrow> (Inl e, budget)
    | Inr (rs, d, summary) \<Rightarrow>
        (case commit_summary_new budget summary of
           (Inl e, budget) \<Rightarrow> (Inl (recovery_error e), budget)
         | (Inr (summary, summary_bytes), budget) \<Rightarrow>
             (case increment_overlay_totals d (rs_overlay_node_totals rs) of
                Inl e \<Rightarrow> (Inl e, release budget summary_bytes)
              | Inr overlay \<Rightarrow>
                  (case commit_link_new budget (rs_chain rs) (commit_lsn g) d of
                     (Inl e, budget) \<Rightarrow> (Inl (recovery_error e), release budget summary_bytes)
                   | (Inr link, budget) \<Rightarrow>
                       (Inr (rs\<lparr> rs_overlay_node_totals := overlay, rs_chain := Some link,
                               rs_recent_summaries := rs_recent_summaries rs @ [(commit_lsn g, summary)],
                               rs_last_commit_lsn := commit_lsn g \<rparr>,
                             summary_bytes + link_charged_bytes link), budget)))))"

text \<open>An error drops the state with the links and summaries of the groups before it.\<close>

fun apply_groups ::
    "committed_group list \<Rightarrow> recovery_state \<times> memory_budget \<Rightarrow> recovery_state devon_result \<times> memory_budget" where
  "apply_groups [] (rs, budget) = (Inr rs, budget)"
| "apply_groups (g # groups) (rs, budget) =
    (case apply_group g (rs, budget) of
       (Inl e, budget) \<Rightarrow> (Inl e, budget)
     | (Inr (rs, bytes), budget) \<Rightarrow>
         (case apply_groups groups (rs, budget) of
            (Inl e, budget) \<Rightarrow> (Inl e, release budget bytes)
          | (Inr rs, budget) \<Rightarrow> (Inr rs, budget)))"

definition recovered_state :: "recovery_state \<Rightarrow> published_state" where
  "recovered_state rs = \<lparr> ps_catalog = rs_catalog rs, ps_chain = rs_chain rs, ps_last_commit_lsn = rs_last_commit_lsn rs,
     ps_catalog_generation = rs_catalog_generation rs, ps_recent_summaries = rs_recent_summaries rs \<rparr>"

definition recover_from ::
    "recovery_state devon_result \<Rightarrow> committed_group list \<Rightarrow> memory_budget \<Rightarrow> published_state devon_result \<times> memory_budget" where
  "recover_from start groups budget =
    (case start of
       Inl e \<Rightarrow> (Inl e, budget)
     | Inr rs \<Rightarrow>
         (case apply_groups groups (rs, budget) of
            (Inl e, budget) \<Rightarrow> (Inl e, budget)
          | (Inr rs, budget) \<Rightarrow> (Inr (recovered_state rs), budget)))"

definition recover_published_state ::
    "group_store \<Rightarrow> u64 \<Rightarrow> catalog \<Rightarrow> committed_group list \<Rightarrow> u64 \<Rightarrow> memory_budget \<Rightarrow> published_state devon_result \<times> memory_budget" where
  "recover_published_state store flags cat groups checkpoint_lsn =
    recover_from (from_checkpoint store flags cat checkpoint_lsn) groups"

definition extend_published_state ::
    "group_store \<Rightarrow> u64 \<Rightarrow> published_state \<Rightarrow> committed_group list \<Rightarrow> memory_budget \<Rightarrow> published_state devon_result \<times> memory_budget" where
  "extend_published_state store flags current groups = recover_from (from_published store flags current) groups"

section \<open>Reading the log from a cursor\<close>

record replayed_wal =
  rw_groups :: "committed_group list"
  rw_first_lsn :: "u64 option"
  rw_committed_offset :: nat
  rw_intact_offset :: nat

fun offset_after_lsn :: "nat \<Rightarrow> (u64 \<times> bytes) list \<Rightarrow> u64 \<Rightarrow> nat devon_result" where
  "offset_after_lsn offset [] target_lsn = Inl (Corrupt ''WAL commit LSN {} is missing from its replay batch'')"
| "offset_after_lsn offset ((lsn, bs) # records) target_lsn =
    rbind (ok_or (InvalidArgument ''WAL cursor exceeds u64::MAX'')
      (Option.bind (checked_add_usize offset WAL_HEADER_LEN) (\<lambda>value. checked_add_usize value (length bs)))) (\<lambda>offset.
    if lsn = target_lsn then Inr offset else offset_after_lsn offset records target_lsn)"

definition replay_wal_from ::
    "serde_json \<Rightarrow> crc_fun \<Rightarrow> crc_append_fun \<Rightarrow> bytes option \<Rightarrow> nat \<Rightarrow> replayed_wal devon_result" where
  "replay_wal_from js crc32c crc32c_append wal offset =
    rbind (case wal of
        None \<Rightarrow> if offset = 0 then Inr ([], 0) else Inl (Io ''not found'')
      | Some bs \<Rightarrow> replay_from crc32c crc32c_append bs offset) (\<lambda>(records, intact_offset).
    rbind (group_transactions js records 0) (\<lambda>groups.
    rbind (if groups = [] then Inr offset else offset_after_lsn offset records (commit_lsn (last groups))) (\<lambda>committed_offset.
    Inr \<lparr> rw_groups = groups, rw_first_lsn = (case records of [] \<Rightarrow> None | (lsn, _) # _ \<Rightarrow> Some lsn),
          rw_committed_offset = committed_offset, rw_intact_offset = intact_offset \<rparr>)))"

definition groups_after :: "committed_group list \<Rightarrow> u64 \<Rightarrow> committed_group list" where
  "groups_after groups checkpoint_lsn = filter (\<lambda>g. commit_lsn g > checkpoint_lsn) groups"

section \<open>Opening\<close>

text \<open>\<open>io\<close> is the outcome of opening and synchronizing the log; a failed one may have cut the file.\<close>

definition rposition :: "('a \<Rightarrow> bool) \<Rightarrow> 'a list \<Rightarrow> nat option" where
  "rposition P xs = map_option (\<lambda>i. length xs - Suc i) (position P (rev xs))"

definition decodes_commit :: "serde_json \<Rightarrow> u64 \<times> bytes \<Rightarrow> bool" where
  "decodes_commit js = (\<lambda>(_, bs). case decode_payload js bs of Inr (Commit _) \<Rightarrow> True | _ \<Rightarrow> False)"

definition prefix_len :: "(u64 \<times> bytes) list \<Rightarrow> nat devon_result" where
  "prefix_len records =
    rfold (\<lambda>(_, bs) count.
      ok_or (InvalidArgument ''WAL prefix length exceeds u64::MAX'')
        (Option.bind (checked_add_usize count WAL_HEADER_LEN) (\<lambda>value. checked_add_usize value (length bs)))) records 0"

definition trim_unterminated_tail ::
    "serde_json \<Rightarrow> unit devon_result \<Rightarrow> (u64 \<times> bytes) list \<Rightarrow> bytes \<Rightarrow> unit devon_result \<times> bytes" where
  "trim_unterminated_tail js io records bs =
    (case rposition (decodes_commit js) records of
       None \<Rightarrow> if records = [] then (Inr (), bs) else (io, [])
     | Some last_commit_index \<Rightarrow>
         if last_commit_index + 1 = length records then (Inr (), bs)
         else (case prefix_len (take (Suc last_commit_index) records) of
             Inl e \<Rightarrow> (Inl e, bs)
           | Inr len \<Rightarrow> (io, set_len bs len)))"

text \<open>
  What an open finds: the feature flags and the checkpoint LSN of the superblock, the catalog and the
  groups of the tables, and the log.
\<close>

record disk =
  dk_flags :: u64
  dk_checkpoint_lsn :: u64
  dk_catalog :: "catalog devon_result"
  dk_store :: group_store
  dk_wal :: "bytes option"

definition heal_empty_wal_flags ::
    "unit devon_result \<Rightarrow> bool \<Rightarrow> u64 \<times> bytes \<Rightarrow> unit devon_result \<times> u64 \<times> bytes" where
  "heal_empty_wal_flags io live_chain = (\<lambda>(flags, bs).
    let scoped = DML_WAL_FLAG OR REL_TOMBSTONE_WAL_FLAG OR HNSW_MUTATION_WAL_FLAG
    in if flags AND scoped = 0 \<or> live_chain then (Inr (), flags, bs)
       else (case io of Inl e \<Rightarrow> (Inl e, flags, bs) | Inr _ \<Rightarrow> (Inr (), flags AND NOT scoped, [])))"

definition dk_read_only :: "disk \<Rightarrow> bool" where
  "dk_read_only dk \<longleftrightarrow> dk_flags dk AND READ_SAFE_FLAG_MASK AND NOT SUPPORTED_FLAG_MASK \<noteq> 0"

text \<open>
  The state an open publishes, the writer it leaves (none when the file requires read-only access),
  the flags of the superblock and the budget. A read-only open never touches the log.
\<close>

definition open_with ::
    "serde_json \<Rightarrow> crc_fun \<Rightarrow> crc_append_fun \<Rightarrow> unit devon_result \<Rightarrow> disk \<Rightarrow> memory_budget
      \<Rightarrow> (published_state \<times> wal_writer option \<times> u64 \<times> memory_budget) devon_result" where
  "open_with js crc32c crc32c_append io dk budget =
    rbind (dk_catalog dk) (\<lambda>cat.
    let wal = (case dk_wal dk of None \<Rightarrow> [] | Some bs \<Rightarrow> bs);
        recover = (\<lambda>records.
          rbind (group_transactions js records (dk_checkpoint_lsn dk)) (\<lambda>groups.
          case recover_published_state (dk_store dk) (dk_flags dk) cat groups (dk_checkpoint_lsn dk) budget of
            (Inl e, _) \<Rightarrow> Inl e
          | (Inr published, budget) \<Rightarrow> Inr (published, budget)))
    in if dk_read_only dk
       then rbind (recover (replay crc32c crc32c_append wal)) (\<lambda>(published, budget). Inr (published, None, dk_flags dk, budget))
       else
         rbind (ok_or (InvalidArgument ''WAL LSN space is exhausted'') (checked_add_word (dk_checkpoint_lsn dk) 1)) (\<lambda>lsn.
         let opened = wr_file (wal_open crc32c crc32c_append wal lsn);
             records = replay crc32c crc32c_append opened
         in rbind (recover records) (\<lambda>(published, budget).
            case trim_unterminated_tail js io records opened of
              (Inl e, _) \<Rightarrow> Inl e
            | (Inr _, trimmed) \<Rightarrow>
                (case heal_empty_wal_flags io (ps_chain published \<noteq> None) (dk_flags dk, trimmed) of
                   (Inl e, _) \<Rightarrow> Inl e
                 | (Inr _, flags, healed) \<Rightarrow>
                     Inr (published, Some (wal_open crc32c crc32c_append healed lsn), flags, budget)))))"

definition open_inspect_with ::
    "serde_json \<Rightarrow> crc_fun \<Rightarrow> crc_append_fun \<Rightarrow> disk \<Rightarrow> memory_budget \<Rightarrow> published_state devon_result \<times> memory_budget" where
  "open_inspect_with js crc32c crc32c_append dk budget =
    (case rbind (dk_catalog dk) (\<lambda>cat.
          rbind (replay_wal_from js crc32c crc32c_append (dk_wal dk) 0) (\<lambda>replayed. Inr (cat, replayed))) of
       Inl e \<Rightarrow> (Inl e, budget)
     | Inr (cat, replayed) \<Rightarrow>
         recover_published_state (dk_store dk) (dk_flags dk) cat (groups_after (rw_groups replayed) (dk_checkpoint_lsn dk))
           (dk_checkpoint_lsn dk) budget)"

section \<open>Following\<close>

record follower_progress =
  fp_last_seen_checkpoint_lsn :: u64
  fp_last_seen_commit_lsn :: u64
  fp_wal_cursor :: nat

definition require_multiprocess_flag :: "disk \<Rightarrow> unit devon_result" where
  "require_multiprocess_flag dk =
    (if dk_flags dk AND MULTIPROCESS_COORDINATION_FLAG \<noteq> 0 then Inr ()
     else Inl (InvalidArgument ''open_read_only requires MULTIPROCESS_COORDINATION; call Database::activate_multiprocess(path) before opening a follower''))"

definition wal_file_len :: "disk \<Rightarrow> nat" where
  "wal_file_len dk = (case dk_wal dk of None \<Rightarrow> 0 | Some bs \<Rightarrow> length bs)"

definition cursor_names_expected_lsn :: "follower_progress \<Rightarrow> replayed_wal \<Rightarrow> nat \<Rightarrow> bool" where
  "cursor_names_expected_lsn progress replayed wal_len =
    (case rw_first_lsn replayed of
       Some first_lsn \<Rightarrow> checked_add_word (fp_last_seen_commit_lsn progress) 1 = Some first_lsn
     | None \<Rightarrow> rw_intact_offset replayed = wal_len)"

text \<open>
  The state of a follower: what it shows, its progress and the budget. What the state it replaces
  releases when its last snapshot goes is not modelled.
\<close>

type_synonym follower = "published_state \<times> follower_progress \<times> memory_budget"

definition extend_follower :: "disk \<Rightarrow> replayed_wal \<Rightarrow> follower \<Rightarrow> bool devon_result \<times> follower" where
  "extend_follower dk replayed = (\<lambda>(current, progress, budget).
    if rw_groups replayed = [] then (Inr False, current, progress, budget)
    else
      (case extend_published_state (dk_store dk) (dk_flags dk) current (rw_groups replayed) budget of
         (Inl e, budget) \<Rightarrow> (Inl e, current, progress, budget)
       | (Inr published, charged) \<Rightarrow>
           if ps_last_commit_lsn published < fp_last_seen_commit_lsn progress
           then (Inl (Corrupt ''follower commit LSN would decrease during refresh''), current, progress, budget)
           else (Inr True, published,
             progress\<lparr> fp_wal_cursor := rw_committed_offset replayed, fp_last_seen_commit_lsn := ps_last_commit_lsn published \<rparr>,
             charged)))"

definition rebase_follower ::
    "serde_json \<Rightarrow> crc_fun \<Rightarrow> crc_append_fun \<Rightarrow> disk \<Rightarrow> follower \<Rightarrow> bool devon_result \<times> follower" where
  "rebase_follower js crc32c crc32c_append dk = (\<lambda>(current, progress, budget).
    case rbind (dk_catalog dk) (\<lambda>cat.
         rbind (replay_wal_from js crc32c crc32c_append (dk_wal dk) 0) (\<lambda>replayed. Inr (cat, replayed))) of
      Inl e \<Rightarrow> (Inl e, current, progress, budget)
    | Inr (cat, replayed) \<Rightarrow>
        (case recover_published_state (dk_store dk) (dk_flags dk) cat (groups_after (rw_groups replayed) (dk_checkpoint_lsn dk))
            (dk_checkpoint_lsn dk) budget of
           (Inl e, budget) \<Rightarrow> (Inl e, current, progress, budget)
         | (Inr published, charged) \<Rightarrow>
             if ps_last_commit_lsn published < fp_last_seen_commit_lsn progress
             then (Inl (Corrupt ''follower commit LSN would decrease from {} to {} during rebase''), current, progress, budget)
             else (Inr (dk_checkpoint_lsn dk \<noteq> fp_last_seen_checkpoint_lsn progress \<or>
                 ps_last_commit_lsn published > fp_last_seen_commit_lsn progress), published,
               \<lparr> fp_last_seen_checkpoint_lsn = dk_checkpoint_lsn dk, fp_last_seen_commit_lsn = ps_last_commit_lsn published,
                 fp_wal_cursor = rw_committed_offset replayed \<rparr>, charged)))"

definition refresh_follower ::
    "serde_json \<Rightarrow> crc_fun \<Rightarrow> crc_append_fun \<Rightarrow> disk \<Rightarrow> follower \<Rightarrow> bool devon_result \<times> follower" where
  "refresh_follower js crc32c crc32c_append dk = (\<lambda>(current, progress, budget).
    case require_multiprocess_flag dk of
      Inl e \<Rightarrow> (Inl e, current, progress, budget)
    | Inr _ \<Rightarrow>
        if dk_checkpoint_lsn dk < fp_last_seen_checkpoint_lsn progress
        then (Inl (Corrupt ''follower checkpoint LSN decreased from {} to {}''), current, progress, budget)
        else if dk_checkpoint_lsn dk \<noteq> fp_last_seen_checkpoint_lsn progress \<or> wal_file_len dk < fp_wal_cursor progress
        then rebase_follower js crc32c crc32c_append dk (current, progress, budget)
        else
          (case replay_wal_from js crc32c crc32c_append (dk_wal dk) (fp_wal_cursor progress) of
             Inl e \<Rightarrow> (Inl e, current, progress, budget)
           | Inr replayed \<Rightarrow>
               if \<not> cursor_names_expected_lsn progress replayed (wal_file_len dk)
               then rebase_follower js crc32c crc32c_append dk (current, progress, budget)
               else extend_follower dk replayed (current, progress, budget)))"

definition open_follower ::
    "serde_json \<Rightarrow> crc_fun \<Rightarrow> crc_append_fun \<Rightarrow> disk \<Rightarrow> memory_budget \<Rightarrow> follower devon_result \<times> memory_budget" where
  "open_follower js crc32c crc32c_append dk budget =
    (case
       rbind (require_multiprocess_flag dk) (\<lambda>_.
       rbind (dk_catalog dk) (\<lambda>cat.
       rbind (replay_wal_from js crc32c crc32c_append (dk_wal dk) 0) (\<lambda>replayed. Inr (cat, replayed)))) of
       Inl e \<Rightarrow> (Inl e, budget)
     | Inr (cat, replayed) \<Rightarrow>
         (case recover_published_state (dk_store dk) (dk_flags dk) cat (groups_after (rw_groups replayed) (dk_checkpoint_lsn dk))
             (dk_checkpoint_lsn dk) budget of
            (Inl e, budget) \<Rightarrow> (Inl e, budget)
          | (Inr published, charged) \<Rightarrow>
              (Inr (published, \<lparr> fp_last_seen_checkpoint_lsn = dk_checkpoint_lsn dk,
                 fp_last_seen_commit_lsn = ps_last_commit_lsn published,
                 fp_wal_cursor = rw_committed_offset replayed \<rparr>, charged), charged)))"

end
