(* ===== verification/Reopening.thy ===== *)
theory Reopening
  imports Recovery
begin

text \<open>
  What recovery rebuilds: the published state as a function of the committed groups, with nothing left
  charged when it fails; extending a published state gives what rebuilding it from the whole log
  gives, so that a follower that refreshes shows what it would show after opening again.
\<close>

section \<open>Ordered maps by their entries\<close>

lemma bt_eqI:
  assumes "bt_wf m" "bt_wf m'" "\<And>k. bt_get m k = bt_get m' k"
  shows "m = m'"
proof -
  have mem: "x \<in> set m \<longleftrightarrow> x \<in> set m'" for x
  proof -
    have d: "distinct (map fst m)" "distinct (map fst m')" using assms(1,2) by (simp_all add: bt_wf_distinct)
    obtain k v where x: "x = (k, v)" by fastforce
    show ?thesis
      using assms(3) [of k] map_of_eq_Some_iff [OF d(1), of k v] map_of_eq_Some_iff [OF d(2), of k v]
      by (simp add: x bt_get_def)
  qed
  then have sets: "set m = set m'" by blast
  have d: "distinct (map fst m)" "distinct (map fst m')" using assms(1,2) by (simp_all add: bt_wf_distinct)
  moreover have "sorted (map fst m)" "sorted (map fst m')"
    using assms(1,2) by (simp_all add: bt_wf_def strict_sorted_imp_sorted)
  moreover have "inj_on fst (set m \<union> set m')" using d(1) sets by (simp add: distinct_map)
  ultimately show ?thesis using sets by (intro map_sorted_distinct_set_unique [of fst m m'])
qed

lemma bt_keys_get: "k \<in> bt_keys m \<longleftrightarrow> bt_get m k \<noteq> None"
  by (auto simp: bt_keys_def bt_get_def map_of_eq_None_iff)

section \<open>Row counts of a growing catalog\<close>

lemma fold_entry_get:
  "bt_wf m \<Longrightarrow> bt_wf (fold (\<lambda>sch. bt_entry (node_name sch) 0 (\<lambda>n. n)) schs m) \<and>
    bt_get (fold (\<lambda>sch. bt_entry (node_name sch) 0 (\<lambda>n. n)) schs m) k =
    (case bt_get m k of Some n \<Rightarrow> Some n | None \<Rightarrow> if k \<in> node_name ` set schs then Some 0 else None)"
proof (induction schs arbitrary: m)
  case (Cons sch schs)
  then show ?case by (auto simp: bt_wf_entry bt_get_entry split: option.splits)
qed (auto split: option.split)

lemma register_get:
  assumes "bt_wf m"
  shows "bt_wf (register_tables cat m)"
    "bt_get (register_tables cat m) k =
      (case bt_get m k of Some n \<Rightarrow> Some n | None \<Rightarrow> if k \<in> node_name ` set (cat_node_tables cat) then Some 0 else None)"
  unfolding register_tables_def
  by (rule conjunct1 [OF fold_entry_get [OF assms]], rule conjunct2 [OF fold_entry_get [OF assms]])

lemma register_total: "bt_wf m \<Longrightarrow> total_of (register_tables cat m) = total_of m"
  by (auto simp: total_of_def register_get fun_eq_iff split: option.split)

lemma totals_keys:
  assumes "checkpointed_node_totals store cat = Inr totals"
  shows "bt_wf totals" "bt_keys totals = node_name ` set (cat_node_tables cat)"
proof -
  have "bt_wf t \<and> bt_keys t = bt_keys m \<union> node_name ` set schs"
    if "rfold (\<lambda>sch totals. rbind (f sch) (\<lambda>count. Inr (bt_insert (node_name sch) count totals))) schs m = Inr t" "bt_wf m"
    for f :: "node_table_schema \<Rightarrow> u64 devon_result" and schs m t
    using that by (induction schs arbitrary: m) (auto simp: rbind_eq_Inr bt_wf_insert bt_keys_insert)
  from this [OF assms [unfolded checkpointed_node_totals_def]] show "bt_wf totals" "bt_keys totals = node_name ` set (cat_node_tables cat)"
    by simp_all
qed

text \<open>A table that a group creates has no groups of rows yet.\<close>

lemma fresh_storage:
  assumes "storage_ok cat" "\<not> contains_table cat name"
  shows "stored_group_ids cat name = []"
proof (cases "table_storage_of cat name")
  case (Some st)
  then obtain stored where "(stored, StorageNode st) \<in> set (cat_storage cat)" "fold_name stored = fold_name name"
    by (auto simp: table_storage_of_def storage_state_of_def find_Some_iff split: option.splits storage_state.splits)
      (metis nth_mem)
  then have "stored \<in> node_name ` set (cat_node_tables cat)" using assms(1) by (force simp: storage_ok_def)
  with node_table_mem [of stored cat] have "node_table cat name \<noteq> None"
    using \<open>fold_name stored = fold_name name\<close> by (simp add: node_table_def)
  with assms(2) show ?thesis by (simp add: contains_table_def)
qed (simp add: stored_group_ids_def)

lemma ddl_totals:
  assumes "apply_ddl op cat = Inr cat'" "storage_ok cat" "checkpointed_node_totals store cat = Inr totals"
  shows "storage_ok cat'" "checkpointed_node_totals store cat' = Inr (register_tables cat' totals)"
    "set (cat_node_tables cat) \<subseteq> set (cat_node_tables cat')"
proof -
  note keys = totals_keys [OF assms(3)]
  have same: "register_tables cat totals = totals"
  proof (rule bt_eqI)
    fix k
    show "bt_get (register_tables cat totals) k = bt_get totals k"
      using keys(2) bt_keys_get [of k totals] by (auto simp: register_get(2) [OF keys(1)] split: option.split)
  qed (use keys(1) register_get(1) in auto)
  have ids: "stored_group_ids c = stored_group_ids cat" if "cat_storage c = cat_storage cat" for c
    using that by (simp add: fun_eq_iff stored_group_ids_def table_storage_of_def storage_state_of_def)
  have stok: "storage_ok c" if "cat_storage c = cat_storage cat" "set (cat_node_tables cat) \<subseteq> set (cat_node_tables c)"
      "set (cat_rel_tables cat) \<subseteq> set (cat_rel_tables c)" for c
  proof -
    have "storage_entry_ok c entry" if "storage_entry_ok cat entry" for entry
      using that \<open>set (cat_node_tables cat) \<subseteq> _\<close> \<open>set (cat_rel_tables cat) \<subseteq> _\<close>
      by (cases entry; cases "snd entry") auto
    with assms(2) that(1) show ?thesis by (simp add: storage_ok_def)
  qed
  have "storage_ok cat' \<and> checkpointed_node_totals store cat' = Inr (register_tables cat' totals) \<and>
    set (cat_node_tables cat) \<subseteq> set (cat_node_tables cat')"
  proof (cases op)
    case (OpCreateNodeTable sch)
    with assms(1) have new: "\<not> contains_table cat (node_name sch)"
      and cat': "cat' = cat\<lparr> cat_node_tables := cat_node_tables cat @ [sch] \<rparr>"
      by (auto simp: rbind_eq_Inr add_node_table_def split: if_splits)
    have "node_name sch \<notin> bt_keys totals"
      using new node_table_mem [of "node_name sch" cat] keys(2) by (auto simp: contains_table_def)
    then have get: "bt_get totals (node_name sch) = None" by (rule bt_get_None)
    have "register_tables cat' totals = bt_insert (node_name sch) 0 totals"
      using same get by (simp add: register_tables_def cat' bt_entry_def)
    moreover have "checkpointed_node_totals store cat' = Inr (bt_insert (node_name sch) 0 totals)"
      using assms(3) ids [of cat'] fresh_storage [OF assms(2) new]
      by (simp add: checkpointed_node_totals_def cat' rfold_append group_rows_total_def)
    ultimately show ?thesis using stok [of cat'] by (auto simp: cat')
  next
    case (OpCreateRelTable sch)
    with assms(1) have cat': "cat' = cat\<lparr> cat_rel_tables := cat_rel_tables cat @ [sch] \<rparr>"
      by (auto simp: rbind_eq_Inr add_rel_table_def split: if_splits)
    have "checkpointed_node_totals store cat' = Inr totals" "register_tables cat' totals = register_tables cat totals"
      using assms(3) ids [of cat'] by (simp_all add: checkpointed_node_totals_def register_tables_def cat')
    with same stok [of cat'] show ?thesis by (auto simp: cat')
  qed
  then show "storage_ok cat'" "checkpointed_node_totals store cat' = Inr (register_tables cat' totals)"
    "set (cat_node_tables cat) \<subseteq> set (cat_node_tables cat')" by simp_all
qed

lemma apply_ddl_tables: "apply_ddl op cat = Inr cat' \<Longrightarrow> sch \<in> set (cat_node_tables cat) \<Longrightarrow> sch \<in> set (cat_node_tables cat')"
  by (cases op) (auto simp: rbind_eq_Inr add_node_table_def add_rel_table_def split: if_splits)

lemma ddl_catalog_totals:
  assumes "apply_ddl_to_catalog cat ddl = Inr cat'" "storage_ok cat" "checkpointed_node_totals store cat = Inr totals"
  shows "storage_ok cat' \<and> checkpointed_node_totals store cat' = Inr (register_tables cat' totals)"
  using assms unfolding apply_ddl_to_catalog_def
proof (induction ddl arbitrary: cat totals)
  case Nil
  have "register_tables cat totals = totals"
    using totals_keys [OF Nil(3)] register_get [OF totals_keys(1) [OF Nil(3)]] bt_keys_get [of _ totals]
    by (intro bt_eqI) (auto split: option.split)
  with Nil show ?case by simp
next
  case (Cons op ddl)
  then obtain c where c: "apply_ddl op cat = Inr c" "rfold apply_ddl ddl c = Inr cat'" by (auto simp: rbind_eq_Inr)
  note step = ddl_totals [OF c(1) Cons.prems(2,3)]
  from Cons.IH [OF c(2) step(1,2)]
  have IH: "storage_ok cat'" "checkpointed_node_totals store cat' = Inr (register_tables cat' (register_tables c totals))"
    by simp_all
  have wf: "bt_wf totals" by (rule totals_keys(1) [OF Cons.prems(3)])
  have sub: "set (cat_node_tables c) \<subseteq> set (cat_node_tables cat')"
    using c(2) by (rule rfold_invariant [where P = "\<lambda>x. set (cat_node_tables c) \<subseteq> set (cat_node_tables x)"])
      (auto dest!: apply_ddl_tables)
  have "register_tables cat' (register_tables c totals) = register_tables cat' totals"
    using sub by (intro bt_eqI) (auto simp: register_get wf split: option.split)
  with IH show ?case by simp
qed

section \<open>Overlay counts by their values\<close>

text \<open>The checks read the overlay counts with zero for a missing table.\<close>

definition same_totals :: "node_totals \<Rightarrow> node_totals \<Rightarrow> bool" where
  "same_totals m m' \<longleftrightarrow> bt_wf m \<and> bt_wf m' \<and> total_of m = total_of m'"

lemma same_totals_refl: "bt_wf m \<Longrightarrow> same_totals m m"
  by (simp add: same_totals_def)

lemma same_totals_register:
  "same_totals m m' \<Longrightarrow> same_totals (register_tables cat m) (register_tables cat m')"
  "same_totals m m' \<Longrightarrow> same_totals (register_tables cat m) m'"
  by (simp_all add: same_totals_def register_total register_get(1))

lemma total_of_insert: "bt_wf m \<Longrightarrow> total_of (bt_insert k v m) = (total_of m)(k := v)"
  by (auto simp: total_of_def bt_get_insert fun_eq_iff)

lemma rfold_rel:
  assumes "R s s'" "\<And>x t t'. R t t' \<Longrightarrow> rel_sum (=) R (f x t) (f x t')"
  shows "rel_sum (=) R (rfold f xs s) (rfold f xs s')"
  using assms(1)
proof (induction xs arbitrary: s s')
  case (Cons x xs)
  from assms(2) [OF Cons.prems, of x] show ?case
    by (cases "f x s"; cases "f x s'") (auto intro: Cons.IH)
qed simp

lemma increment_same: "same_totals m m' \<Longrightarrow> rel_sum (=) same_totals (increment_overlay_totals d m) (increment_overlay_totals d m')"
  unfolding increment_overlay_totals_def
proof (rule rfold_rel)
  fix entry :: "string \<times> row list" and t t' :: node_totals
  assume same: "same_totals t t'"
  obtain table rows where entry: "entry = (table, rows)" by fastforce
  have sum: "total_of t' = total_of t" using same by (simp add: same_totals_def)
  have "same_totals (bt_insert table n t) (bt_insert table n t')" for n
    using same by (simp add: same_totals_def bt_wf_insert total_of_insert)
  then show "rel_sum (=) same_totals (increment_table entry t) (increment_table entry t')"
    by (cases "u64_try_from (length rows)"; cases "checked_add_word (total_of t table) (the (u64_try_from (length rows)))")
      (simp_all add: increment_table_def entry sum)
qed

lemma validate_same:
  assumes "total_of o' = total_of ov"
  shows "validate_recovered_delta cat checkpointed o' d = validate_recovered_delta cat checkpointed ov d"
proof -
  have eq: "recovered_node_total checkpointed o' = recovered_node_total checkpointed ov"
    by (simp add: fun_eq_iff recovered_node_total_def assms)
  show ?thesis
    unfolding validate_recovered_delta_def validate_recovered_rel_tombstones_def validate_recovered_role_offsets_def
      validate_recovered_edges_def eq ..
qed

text \<open>Two states of recovery that differ in the overlay counts of tables without rows only.\<close>

definition same_recovery :: "recovery_state \<Rightarrow> recovery_state \<Rightarrow> bool" where
  "same_recovery rs rs' \<longleftrightarrow> same_totals (rs_overlay_node_totals rs) (rs_overlay_node_totals rs') \<and>
    rs' = rs\<lparr> rs_overlay_node_totals := rs_overlay_node_totals rs' \<rparr>"

lemma check_same:
  assumes "same_recovery rs rs'"
  shows "rel_sum (=) (rel_prod same_recovery (=)) (check_group rs g) (check_group rs' g)"
proof -
  obtain ov where rs': "rs' = rs\<lparr> rs_overlay_node_totals := ov \<rparr>" and same: "same_totals (rs_overlay_node_totals rs) ov"
    using assms by (metis same_recovery_def)
  let ?reg = "\<lambda>cat. register_tables cat (rs_overlay_node_totals rs)" and ?reg' = "\<lambda>cat. register_tables cat ov"
  have val: "validate_recovered_delta cat c (?reg' cat) d = validate_recovered_delta cat c (?reg cat) d" for cat c d
    using same_totals_register(1) [OF same, of cat] by (intro validate_same) (simp add: same_totals_def)
  have sim: "same_recovery (rs\<lparr> rs_catalog := cat, rs_checkpointed_node_totals := c, rs_overlay_node_totals := ?reg cat \<rparr>)
      (rs\<lparr> rs_catalog := cat, rs_checkpointed_node_totals := c, rs_overlay_node_totals := ?reg' cat \<rparr>)" for cat c
    using same_totals_register(1) [OF same] by (simp add: same_recovery_def)
  show ?thesis
  proof (cases "from_committed_group g")
    case d: (Inr d)
    show ?thesis
    proof (cases "apply_ddl_to_catalog (rs_catalog rs) (delta_ddl d)")
      case cat: (Inr cat)
      show ?thesis
        by (cases "validate_recovered_delta cat (register_tables cat (rs_checkpointed_node_totals rs)) (?reg cat) d";
            cases "summary_from_delta cat d")
          (simp_all add: check_group_def rs' Let_def d cat val sim)
    qed (simp add: check_group_def rs' d)
  qed (simp add: check_group_def rs')
qed

abbreviation same_applied :: "(recovery_state \<times> nat) devon_result \<Rightarrow> (recovery_state \<times> nat) devon_result \<Rightarrow> bool" where
  "same_applied \<equiv> rel_sum (=) (rel_prod same_recovery (=))"

lemma apply_group_same:
  assumes "same_recovery rs rs'"
  shows "rel_prod same_applied (=) (apply_group g (rs, budget)) (apply_group g (rs', budget))"
proof (cases "check_group rs g")
  case (Inl e)
  with check_same [OF assms, of g] have "check_group rs' g = Inl e" by (cases "check_group rs' g") simp_all
  with Inl show ?thesis by (simp add: apply_group_def)
next
  case (Inr res)
  obtain r d summary where res: "res = (r, d, summary)" by (metis prod_cases3)
  with Inr check_same [OF assms, of g] obtain r' where r': "check_group rs' g = Inr (r', d, summary)" "same_recovery r r'"
    by (cases "check_group rs' g") (auto simp: rel_prod_sel)
  obtain ov where ov: "r' = r\<lparr> rs_overlay_node_totals := ov \<rparr>" "same_totals (rs_overlay_node_totals r) ov"
    using r'(2) by (metis same_recovery_def)
  obtain s b where s: "commit_summary_new budget summary = (s, b)" by fastforce
  obtain l b2 where l: "commit_link_new b (rs_chain r) (commit_lsn g) d = (l, b2)" by fastforce
  note inc = increment_same [OF ov(2), of d]
  show ?thesis
    by (cases s; cases "increment_overlay_totals d (rs_overlay_node_totals r)"; cases "increment_overlay_totals d ov"; cases l)
      (use inc in \<open>auto simp: apply_group_def Inr res r'(1) s l ov(1) same_recovery_def\<close>)
qed

lemma apply_groups_same:
  assumes "same_recovery rs rs'"
  shows "rel_prod (rel_sum (=) same_recovery) (=) (apply_groups groups (rs, budget)) (apply_groups groups (rs', budget))"
  using assms
proof (induction groups arbitrary: rs rs' budget)
  case (Cons g groups)
  obtain res b where run: "apply_group g (rs, budget) = (res, b)" by fastforce
  with apply_group_same [OF Cons.prems, of g budget] obtain res' where
    run': "apply_group g (rs', budget) = (res', b)" "same_applied res res'"
    by (cases "apply_group g (rs', budget)") auto
  show ?case
  proof (cases res)
    case (Inl e)
    with run' have "res' = Inl e" by (cases res') simp_all
    with Inl run run' show ?thesis by simp
  next
    case (Inr x)
    obtain r n where x: "x = (r, n)" by fastforce
    with Inr run'(2) obtain r' where r': "res' = Inr (r', n)" "same_recovery r r'" by (cases res') (auto simp: rel_prod_sel)
    obtain q q' c c' where q: "apply_groups groups (r, b) = (q, c)" "apply_groups groups (r', b) = (q', c')" by fastforce
    with Cons.IH [OF r'(2), of b] have "rel_sum (=) same_recovery q q'" "c = c'" by simp_all
    with q run run' Inr x r' show ?thesis by (cases q; cases q') simp_all
  qed
qed simp

section \<open>What recovery charges\<close>

lemma charged_release: "release (b\<lparr> mb_charged := mb_charged b + n \<rparr>) n = b"
  by (simp add: release_def release_attempt_def)

lemma try_charge_outcome:
  assumes "try_charge b n = (ok, b')"
  shows "ok \<Longrightarrow> b' = b\<lparr> mb_charged := mb_charged b + n \<rparr> \<and> mb_charged b + n \<le> mb_limit b" "\<not> ok \<Longrightarrow> b' = b"
  using assms
  by (auto simp: try_charge_def charge_attempt_def checked_add_usize_def split: option.splits if_splits)

definition charges :: "nat \<Rightarrow> memory_budget \<Rightarrow> memory_budget \<Rightarrow> bool" where
  "charges n b b' \<longleftrightarrow> b' = b\<lparr> mb_charged := mb_charged b + n \<rparr> \<and> mb_charged b' \<le> mb_limit b"

lemma apply_group_charges:
  assumes "apply_group g (rs, b) = (res, b')"
  shows "case res of Inl _ \<Rightarrow> b' = b | Inr (_, n) \<Rightarrow> charges n b b'"
proof -
  have sum: "case s of Inl _ \<Rightarrow> b1 = b | Inr (_, n) \<Rightarrow> charges n b b1" if "commit_summary_new b summary = (s, b1)" for summary s b1
    using that by (auto simp: commit_summary_new_def charges_def split: sum.splits prod.splits bool.splits dest: try_charge_outcome)
  have link: "case l of Inl _ \<Rightarrow> b2 = b1 | Inr k \<Rightarrow> charges (link_charged_bytes k) b1 b2"
    if "commit_link_new b1 chain lsn d = (l, b2)" for b1 chain lsn d l b2
    using that by (auto simp: commit_link_new_def charges_def split: sum.splits prod.splits bool.splits dest: try_charge_outcome)
  have undo: "release b1 n = b" if "charges n b b1" for n b1 using that charged_release by (simp add: charges_def)
  have add: "charges (m + n) b b2" if "charges m b b1" "charges n b1 b2" for m n b1 b2 using that by (auto simp: charges_def)
  show ?thesis
    using assms unfolding apply_group_def
    by (auto split: sum.splits prod.splits dest!: sum link dest: undo add)
qed

lemma apply_groups_charges:
  assumes "apply_groups groups (rs, b) = (res, b')"
  shows "case res of Inl _ \<Rightarrow> b' = b | Inr _ \<Rightarrow> b' = b \<or> (\<exists>n. charges n b b')"
  using assms
proof (induction groups arbitrary: rs b res b')
  case (Cons g groups)
  obtain r b1 where run: "apply_group g (rs, b) = (r, b1)" by fastforce
  note c = apply_group_charges [OF run]
  show ?case
  proof (cases r)
    case (Inl e)
    with Cons.prems run c show ?thesis by auto
  next
    case (Inr x)
    obtain rs1 n where x: "x = (rs1, n)" by fastforce
    obtain q b2 where q: "apply_groups groups (rs1, b1) = (q, b2)" by fastforce
    have "release b1 n = b" "charges n b b1" using c Inr x charged_release by (auto simp: charges_def)
    moreover have "\<forall>m. charges m b1 b2 \<longrightarrow> charges (n + m) b b2"
      using \<open>charges n b b1\<close> by (auto simp: charges_def)
    ultimately show ?thesis using Cons.IH [OF q] Cons.prems run Inr x q by (cases q) auto
  qed
qed simp

lemma apply_groups_append:
  "apply_groups (g1 @ g2) (rs, b) =
    (case apply_groups g1 (rs, b) of
       (Inl e, b') \<Rightarrow> (Inl e, b')
     | (Inr rs1, b1) \<Rightarrow> (case apply_groups g2 (rs1, b1) of (Inl e, _) \<Rightarrow> (Inl e, b) | (Inr rs2, b2) \<Rightarrow> (Inr rs2, b2)))"
proof (induction g1 arbitrary: rs b)
  case Nil
  obtain q b2 where q: "apply_groups g2 (rs, b) = (q, b2)" by fastforce
  from apply_groups_charges [OF q] show ?case by (cases q) (simp_all add: q)
next
  case (Cons g g1)
  obtain r b1 where run: "apply_group g (rs, b) = (r, b1)" by fastforce
  note c = apply_group_charges [OF run]
  show ?case
  proof (cases r)
    case (Inr x)
    obtain rs1 n where x: "x = (rs1, n)" by fastforce
    have "release b1 n = b" using c Inr x charged_release by (auto simp: charges_def)
    with run Inr x show ?thesis by (simp add: Cons.IH split: prod.split sum.split)
  qed (simp add: run)
qed

section \<open>What recovery rebuilds\<close>

lemma check_group_ok:
  assumes "check_group rs g = Inr (r, d, summary)"
  shows "rs_last_commit_lsn rs < commit_lsn g" "from_committed_group g = Inr d"
    "apply_ddl_to_catalog (rs_catalog rs) (delta_ddl d) = Inr (rs_catalog r)"
    "r = rs\<lparr> rs_catalog := rs_catalog r, rs_checkpointed_node_totals := register_tables (rs_catalog r) (rs_checkpointed_node_totals rs),
      rs_overlay_node_totals := register_tables (rs_catalog r) (rs_overlay_node_totals rs) \<rparr>"
    "summary_from_delta (rs_catalog r) d = Inr summary"
  using assms by (auto simp: check_group_def Let_def rbind_eq_Inr map_err_eq_Inr not_le split: if_splits)

lemma apply_group_ok:
  assumes "apply_group g (rs, b) = (Inr (rs', n), b')"
  obtains d summary overlay link where "rs_last_commit_lsn rs < commit_lsn g" "from_committed_group g = Inr d"
    "apply_ddl_to_catalog (rs_catalog rs) (delta_ddl d) = Inr (rs_catalog rs')"
    "increment_overlay_totals d (register_tables (rs_catalog rs') (rs_overlay_node_totals rs)) = Inr overlay"
    "link = CommitLink (rs_chain rs) (commit_lsn g) d (link_charged_bytes link)"
    "rs' = rs\<lparr> rs_catalog := rs_catalog rs', rs_checkpointed_node_totals := register_tables (rs_catalog rs') (rs_checkpointed_node_totals rs),
      rs_overlay_node_totals := overlay, rs_chain := Some link,
      rs_recent_summaries := rs_recent_summaries rs @ [(commit_lsn g, summary)], rs_last_commit_lsn := commit_lsn g \<rparr>"
    "summary_from_delta (rs_catalog rs') d = Inr summary"
proof -
  obtain r d summary where ck: "check_group rs g = Inr (r, d, summary)"
    using assms by (cases "check_group rs g") (auto simp: apply_group_def)
  note ok = check_group_ok [OF ck]
  obtain s bytes b1 where s: "commit_summary_new b summary = (Inr (s, bytes), b1)"
    using assms ck by (auto simp: apply_group_def split: prod.splits sum.splits)
  obtain overlay where o: "increment_overlay_totals d (rs_overlay_node_totals r) = Inr overlay"
    using assms ck s by (auto simp: apply_group_def split: sum.splits)
  obtain link b2 where l: "commit_link_new b1 (rs_chain r) (commit_lsn g) d = (Inr link, b2)"
    using assms ck s o by (auto simp: apply_group_def split: prod.splits sum.splits)
  have rs': "rs' = r\<lparr> rs_overlay_node_totals := overlay, rs_chain := Some link,
      rs_recent_summaries := rs_recent_summaries r @ [(commit_lsn g, s)], rs_last_commit_lsn := commit_lsn g \<rparr>"
    using assms ck s o l by (simp add: apply_group_def)
  have fields: "rs_catalog rs' = rs_catalog r" "rs_chain r = rs_chain rs" "rs_recent_summaries r = rs_recent_summaries rs"
    "rs_overlay_node_totals r = register_tables (rs_catalog r) (rs_overlay_node_totals rs)"
    using rs' arg_cong [OF ok(4), of rs_chain] arg_cong [OF ok(4), of rs_recent_summaries] arg_cong [OF ok(4), of rs_overlay_node_totals]
    by simp_all
  have same: "s = summary"
    using s by (auto simp: commit_summary_new_def split: sum.splits prod.splits bool.splits)
  have link: "link = CommitLink (rs_chain rs) (commit_lsn g) d (link_charged_bytes link)"
    using l fields by (auto simp: commit_link_new_def split: sum.splits prod.splits bool.splits)
  show thesis
  proof (rule that [OF ok(1,2) _ _ link])
    show "rs' = rs\<lparr> rs_catalog := rs_catalog rs', rs_checkpointed_node_totals := register_tables (rs_catalog rs') (rs_checkpointed_node_totals rs),
        rs_overlay_node_totals := overlay, rs_chain := Some link,
        rs_recent_summaries := rs_recent_summaries rs @ [(commit_lsn g, s)], rs_last_commit_lsn := commit_lsn g \<rparr>"
      unfolding rs' using fields
        arg_cong [OF ok(4), of "\<lambda>r. r\<lparr> rs_overlay_node_totals := overlay, rs_chain := Some link,
          rs_recent_summaries := rs_recent_summaries rs @ [(commit_lsn g, s)], rs_last_commit_lsn := commit_lsn g \<rparr>"]
      by simp
  qed (use ok(3,5) o fields same in simp_all)
qed

lemma links_oldest_Some:
  "commit_links_oldest_first (Some (CommitLink prev lsn d n)) = commit_links_oldest_first prev @ [CommitLink prev lsn d n]"
  by (simp add: commit_links_oldest_first_def)

definition apply_deltas_ddl :: "commit_delta list \<Rightarrow> catalog \<Rightarrow> catalog devon_result" where
  "apply_deltas_ddl ds cat = rfold (\<lambda>d cat. apply_ddl_to_catalog cat (delta_ddl d)) ds cat"

text \<open>
  What the summary of a recovered commit claims, stated over its delta and the catalog it left: per
  node table, the primary keys of the rows it inserted, in order, and the keys it deleted together with
  those of the rows it updated; the tables it created. Detached nodes and edge endpoints are not claimed,
  since the log does not record them.
\<close>

definition key_values :: "catalog \<Rightarrow> string \<Rightarrow> row list \<Rightarrow> devon_value list" where
  "key_values cat table rows =
    (case node_table cat table of
       None \<Rightarrow> []
     | Some sch \<Rightarrow>
         (case position scol_primary_key (node_columns sch) of
            None \<Rightarrow> []
          | Some c \<Rightarrow> map (\<lambda>row. row ! c) rows))"

definition summary_claims :: "catalog \<Rightarrow> commit_delta \<Rightarrow> commit_summary \<Rightarrow> bool" where
  "summary_claims cat d s \<longleftrightarrow>
    (\<forall>table.
      bt_items (sum_inserted_pks s) table = key_values cat table (bt_items (delta_nodes d) table) \<and>
      set (bt_items (sum_dml_pks s) table) =
        set (bt_items (delta_node_deletes d) table) \<union> set (key_values cat table (bt_items (delta_node_updates d) table))) \<and>
    sum_detach_pks s = [] \<and> sum_edge_endpoint_pks s = [] \<and> sum_created_tables s = map ddl_name (delta_ddl d)"

fun summaries_claim :: "catalog \<Rightarrow> commit_delta list \<Rightarrow> commit_summary list \<Rightarrow> bool" where
  "summaries_claim cat [] [] \<longleftrightarrow> True"
| "summaries_claim cat (d # ds) (s # ss) \<longleftrightarrow>
    (case apply_ddl_to_catalog cat (delta_ddl d) of
       Inl _ \<Rightarrow> False
     | Inr cat' \<Rightarrow> summary_claims cat' d s \<and> summaries_claim cat' ds ss)"
| "summaries_claim cat _ _ \<longleftrightarrow> False"

lemma summaries_claim_length: "summaries_claim cat ds ss \<Longrightarrow> length ss = length ds"
  by (induction cat ds ss rule: summaries_claim.induct) (auto split: sum.splits)

text \<open>The deltas the log gives are ordered maps.\<close>

definition delta_sorted :: "commit_delta \<Rightarrow> bool" where
  "delta_sorted d \<longleftrightarrow> bt_wf (delta_nodes d) \<and> bt_wf (delta_node_updates d) \<and> bt_wf (delta_node_deletes d)"

lemma apply_payload_sorted: "apply_payload p d = Inr d' \<Longrightarrow> delta_sorted d \<Longrightarrow> delta_sorted d'"
  by (cases p) (auto simp: delta_sorted_def bt_wf_entry)

lemma committed_delta_sorted: "from_committed_group g = Inr d \<Longrightarrow> delta_sorted d"
  using rfold_invariant [of apply_payload "map payload (group_records g)" delta_default d delta_sorted] apply_payload_sorted
  by (auto simp: from_committed_group_def from_wal_payloads_def delta_sorted_def delta_default_def split: if_splits)

lemma bt_items_insert: "bt_wf m \<Longrightarrow> bt_items (bt_insert k vs m) k' = (if k' = k then vs else bt_items m k')"
  by (simp add: bt_items_def bt_get_insert)

lemma keys_of_rows_values:
  assumes "node_table cat table = Some sch" "primary_key sch = Inr (c, name)" "keys_of_rows e c rows = Inr keys"
  shows "keys = key_values cat table rows"
proof -
  have "position scol_primary_key (node_columns sch) = Some c"
    using assms(2) by (auto simp: primary_key_def rbind_eq_Inr ok_or_eq_Inr)
  moreover have "rmapM (\<lambda>row. ok_or e (if c < length row then Some (row ! c) else None)) rows = Inr keys \<Longrightarrow>
      keys = map (\<lambda>row. row ! c) rows"
    by (induction rows arbitrary: keys) (auto simp: rbind_eq_Inr ok_or_eq_Inr split: if_splits)
  ultimately show ?thesis using assms(1,3) by (simp add: key_values_def keys_of_rows_def)
qed

lemma key_values_Nil [simp]: "key_values cat table [] = []"
  by (simp add: key_values_def split: option.split)

text \<open>A fold over an ordered map that records, per table, what its rows give.\<close>

lemma claims_fold:
  assumes "rfold f m s = Inr t" "bt_wf m" "bt_wf s"
    and step: "\<And>table rows s t. f (table, rows) s = Inr t \<Longrightarrow> t = bt_insert table (h table rows (bt_items s table)) s"
  shows "bt_items t table = (if table \<in> bt_keys m then h table (bt_items m table) (bt_items s table) else bt_items s table)"
  using assms(1-3)
proof (induction m arbitrary: s)
  case (Cons x m)
  obtain k rows where x: "x = (k, rows)" by fastforce
  from Cons.prems(1) obtain s' where s': "f (k, rows) s = Inr s'" "rfold f m s' = Inr t" by (auto simp: x rbind_eq_Inr)
  note eq = step [OF s'(1)]
  have "k \<notin> bt_keys m" "bt_wf m" using Cons.prems(2) by (auto simp: x)
  moreover have "bt_items (x # m) table = (if table = k then rows else bt_items m table)" by (auto simp: x bt_items_def)
  ultimately show ?case using Cons.IH [OF s'(2)] Cons.prems(3) by (auto simp: x eq bt_wf_insert bt_items_insert)
qed simp

lemma set_push_new_keys: "set (fold push_new keys old) = set old \<union> set keys"
  by (induction keys arbitrary: old) (auto simp: push_new_def)

lemma summary_from_delta_claims:
  assumes run: "summary_from_delta cat d = Inr s" and sorted: "delta_sorted d"
  shows "summary_claims cat d s"
proof -
  obtain inserted dml where
    ins: "rfold (\<lambda>(table, rows) claims.
      rbind (ok_or (Corrupt ''committed delta names unknown node table {}'') (node_table cat table)) (\<lambda>sch.
      rbind (primary_key sch) (\<lambda>(key_index, _).
      rbind (keys_of_rows (Corrupt ''committed row lost its primary-key value'') key_index rows) (\<lambda>keys.
      Inr (bt_insert table keys claims))))) (delta_nodes d) [] = Inr inserted"
    and dml: "rfold (\<lambda>(table, rows) claims.
      rbind (ok_or (Corrupt ''committed delta names unknown node table {}'') (node_table cat table)) (\<lambda>sch.
      rbind (primary_key sch) (\<lambda>(key_index, _).
      rbind (keys_of_rows (Corrupt ''committed update lost its primary-key value'') key_index rows) (\<lambda>keys.
      Inr (bt_entry table [] (fold push_new keys) claims))))) (delta_node_updates d) (delta_node_deletes d) = Inr dml"
    and s: "s = \<lparr> sum_inserted_pks = inserted, sum_dml_pks = dml, sum_detach_pks = [], sum_edge_endpoint_pks = [],
              sum_created_tables = map ddl_name (delta_ddl d) \<rparr>"
    using run unfolding summary_from_delta_def Let_def by (auto simp: rbind_eq_Inr)
  have unnamed: "table \<notin> bt_keys m \<Longrightarrow> bt_items m table = []" for table and m :: "(string, 'v list) btree"
    by (simp add: bt_items_def bt_get_None)
  have "bt_items inserted table = key_values cat table (bt_items (delta_nodes d) table)" for table
    by (subst claims_fold [OF ins, where h = "\<lambda>table rows _. key_values cat table rows"])
      (use sorted in \<open>auto simp: delta_sorted_def rbind_eq_Inr ok_or_eq_Inr unnamed dest: keys_of_rows_values\<close>)
  moreover have "bt_items dml table = (if table \<in> bt_keys (delta_node_updates d)
      then fold push_new (key_values cat table (bt_items (delta_node_updates d) table)) (bt_items (delta_node_deletes d) table)
      else bt_items (delta_node_deletes d) table)" for table
    by (rule claims_fold [OF dml, where h = "\<lambda>table rows old. fold push_new (key_values cat table rows) old"])
      (use sorted in \<open>auto simp: delta_sorted_def rbind_eq_Inr ok_or_eq_Inr bt_entry_def bt_items_def dest: keys_of_rows_values\<close>)
  ultimately show ?thesis by (simp add: summary_claims_def s set_push_new_keys unnamed)
qed

text \<open>What the groups make of the state that recovery started from.\<close>

definition rebuilt :: "recovery_state \<Rightarrow> committed_group list \<Rightarrow> recovery_state \<Rightarrow> bool" where
  "rebuilt rs groups rs' \<longleftrightarrow> (\<exists>ds ss. list_all2 (\<lambda>g d. from_committed_group g = Inr d) groups ds \<and>
    apply_deltas_ddl ds (rs_catalog rs) = Inr (rs_catalog rs') \<and>
    chain_deltas (rs_chain rs') = chain_deltas (rs_chain rs) @ zip (map commit_lsn groups) ds \<and>
    rs_recent_summaries rs' = rs_recent_summaries rs @ zip (map commit_lsn groups) ss \<and>
    summaries_claim (rs_catalog rs) ds ss) \<and>
    sorted_wrt (<) (rs_last_commit_lsn rs # map commit_lsn groups) \<and>
    rs_last_commit_lsn rs' = last (rs_last_commit_lsn rs # map commit_lsn groups) \<and>
    rs_catalog_generation rs' = rs_catalog_generation rs \<and> rs_feature_flags rs' = rs_feature_flags rs"

lemma apply_groups_rebuilt:
  "apply_groups groups (rs, b) = (Inr rs', b') \<Longrightarrow> rebuilt rs groups rs'"
proof (induction groups arbitrary: rs b)
  case Nil
  then show ?case by (auto simp: rebuilt_def apply_deltas_ddl_def intro!: exI [of _ "[]"])
next
  case (Cons g groups)
  obtain r n b1 where run: "apply_group g (rs, b) = (Inr (r, n), b1)" and rest: "apply_groups groups (r, b1) = (Inr rs', b')"
    using Cons.prems by (auto split: prod.splits sum.splits)
  from Cons.IH [OF rest] obtain ds ss where ds: "list_all2 (\<lambda>g d. from_committed_group g = Inr d) groups ds"
    "apply_deltas_ddl ds (rs_catalog r) = Inr (rs_catalog rs')"
    "chain_deltas (rs_chain rs') = chain_deltas (rs_chain r) @ zip (map commit_lsn groups) ds"
    "rs_recent_summaries rs' = rs_recent_summaries r @ zip (map commit_lsn groups) ss" "summaries_claim (rs_catalog r) ds ss"
    and rb: "sorted_wrt (<) (rs_last_commit_lsn r # map commit_lsn groups)"
      "rs_last_commit_lsn rs' = last (rs_last_commit_lsn r # map commit_lsn groups)"
      "rs_catalog_generation rs' = rs_catalog_generation r" "rs_feature_flags rs' = rs_feature_flags r"
    by (auto simp: rebuilt_def)
  from run obtain d summary overlay link where step: "rs_last_commit_lsn rs < commit_lsn g" "from_committed_group g = Inr d"
    "apply_ddl_to_catalog (rs_catalog rs) (delta_ddl d) = Inr (rs_catalog r)"
    "link = CommitLink (rs_chain rs) (commit_lsn g) d (link_charged_bytes link)"
    "r = rs\<lparr> rs_catalog := rs_catalog r, rs_checkpointed_node_totals := register_tables (rs_catalog r) (rs_checkpointed_node_totals rs),
      rs_overlay_node_totals := overlay, rs_chain := Some link,
      rs_recent_summaries := rs_recent_summaries rs @ [(commit_lsn g, summary)], rs_last_commit_lsn := commit_lsn g \<rparr>"
    "summary_from_delta (rs_catalog r) d = Inr summary"
    by (rule apply_group_ok)
  have r: "rs_chain r = Some link" "rs_recent_summaries r = rs_recent_summaries rs @ [(commit_lsn g, summary)]"
    "rs_last_commit_lsn r = commit_lsn g" "rs_catalog_generation r = rs_catalog_generation rs" "rs_feature_flags r = rs_feature_flags rs"
    by (subst step(5); simp)+
  have chain: "chain_deltas (rs_chain r) = chain_deltas (rs_chain rs) @ [(commit_lsn g, d)]"
    unfolding r(1) by (subst step(4)) (rule chain_deltas_Some)
  have "\<exists>ds ss. list_all2 (\<lambda>g d. from_committed_group g = Inr d) (g # groups) ds \<and>
      apply_deltas_ddl ds (rs_catalog rs) = Inr (rs_catalog rs') \<and>
      chain_deltas (rs_chain rs') = chain_deltas (rs_chain rs) @ zip (map commit_lsn (g # groups)) ds \<and>
      rs_recent_summaries rs' = rs_recent_summaries rs @ zip (map commit_lsn (g # groups)) ss \<and>
      summaries_claim (rs_catalog rs) ds ss"
    using ds chain step(2,3) summary_from_delta_claims [OF step(6) committed_delta_sorted [OF step(2)]]
    by (intro exI [of _ "d # ds"] exI [of _ "summary # ss"]) (simp add: apply_deltas_ddl_def r)
  moreover have "sorted_wrt (<) (rs_last_commit_lsn rs # map commit_lsn (g # groups))"
    using rb(1) step(1) by (auto simp: r)
  ultimately show ?case using rb by (simp add: rebuilt_def r)
qed

section \<open>Extending is rebuilding\<close>

text \<open>The counts that recovery carries are those a published state gives.\<close>

definition rs_ok :: "group_store \<Rightarrow> recovery_state \<Rightarrow> bool" where
  "rs_ok store rs \<longleftrightarrow> storage_ok (rs_catalog rs) \<and>
    checkpointed_node_totals store (rs_catalog rs) = Inr (rs_checkpointed_node_totals rs) \<and>
    (\<exists>overlay. rfold (\<lambda>link. increment_overlay_totals (link_delta link)) (commit_links_oldest_first (rs_chain rs)) [] = Inr overlay \<and>
      same_totals (rs_overlay_node_totals rs) overlay)"

lemma rs_ok_start: "storage_ok cat \<Longrightarrow> from_checkpoint store flags cat ck = Inr rs \<Longrightarrow> rs_ok store rs"
  by (auto simp: from_checkpoint_def rbind_eq_Inr rs_ok_def commit_links_oldest_first_def same_totals_def)

lemma rs_ok_step:
  assumes ok: "rs_ok store rs" and run: "apply_group g (rs, b) = (Inr (rs', n), b')"
  shows "rs_ok store rs'"
proof -
  from run obtain d summary overlay link where step: "apply_ddl_to_catalog (rs_catalog rs) (delta_ddl d) = Inr (rs_catalog rs')"
    "increment_overlay_totals d (register_tables (rs_catalog rs') (rs_overlay_node_totals rs)) = Inr overlay"
    "link = CommitLink (rs_chain rs) (commit_lsn g) d (link_charged_bytes link)"
    and rs': "rs' = rs\<lparr> rs_catalog := rs_catalog rs', rs_checkpointed_node_totals := register_tables (rs_catalog rs') (rs_checkpointed_node_totals rs),
      rs_overlay_node_totals := overlay, rs_chain := Some link,
      rs_recent_summaries := rs_recent_summaries rs @ [(commit_lsn g, summary)], rs_last_commit_lsn := commit_lsn g \<rparr>"
    by (rule apply_group_ok)
  have fields: "rs_checkpointed_node_totals rs' = register_tables (rs_catalog rs') (rs_checkpointed_node_totals rs)"
    "rs_overlay_node_totals rs' = overlay" "rs_chain rs' = Some link" by (subst rs'; simp)+
  from ok obtain old where old: "rfold (\<lambda>link. increment_overlay_totals (link_delta link)) (commit_links_oldest_first (rs_chain rs)) [] = Inr old"
    "same_totals (rs_overlay_node_totals rs) old" by (auto simp: rs_ok_def)
  from increment_same [OF same_totals_register(2) [OF old(2), of "rs_catalog rs'"], of d] step(2)
  obtain new where new: "increment_overlay_totals d old = Inr new" "same_totals overlay new"
    by (cases "increment_overlay_totals d old") auto
  have "commit_links_oldest_first (rs_chain rs') = commit_links_oldest_first (rs_chain rs) @ [link]" "link_delta link = d"
    using step(3) fields(3) by (metis links_oldest_Some, metis commit_link.sel(3))
  with old new have "rfold (\<lambda>link. increment_overlay_totals (link_delta link)) (commit_links_oldest_first (rs_chain rs')) [] = Inr new"
    by (simp add: rfold_append)
  moreover have "storage_ok (rs_catalog rs') \<and> checkpointed_node_totals store (rs_catalog rs') = Inr (rs_checkpointed_node_totals rs')"
    using ddl_catalog_totals [OF step(1), of store "rs_checkpointed_node_totals rs"] ok by (simp add: rs_ok_def fields)
  ultimately show ?thesis using new(2) by (simp add: rs_ok_def fields(2))
qed

lemma rs_ok_steps: "rs_ok store rs \<Longrightarrow> apply_groups groups (rs, b) = (Inr rs', b') \<Longrightarrow> rs_ok store rs'"
proof (induction groups arbitrary: rs b)
  case (Cons g groups)
  obtain r n b1 where "apply_group g (rs, b) = (Inr (r, n), b1)" "apply_groups groups (r, b1) = (Inr rs', b')"
    using Cons.prems by (auto split: prod.splits sum.splits)
  with Cons.IH rs_ok_step [OF Cons.prems(1)] show ?case by blast
qed simp

lemma from_published_same:
  assumes "rs_ok store rs"
  obtains rs' where "from_published store flags (recovered_state rs) = Inr rs'" "same_recovery (rs\<lparr> rs_feature_flags := flags \<rparr>) rs'"
proof -
  from assms obtain overlay where
    "rfold (\<lambda>link. increment_overlay_totals (link_delta link)) (commit_links_oldest_first (rs_chain rs)) [] = Inr overlay"
    "same_totals (rs_overlay_node_totals rs) overlay" by (auto simp: rs_ok_def)
  with assms show thesis
    by (intro that [of "rs\<lparr> rs_overlay_node_totals := overlay, rs_feature_flags := flags \<rparr>"])
      (simp_all add: from_published_def recovered_state_def rs_ok_def same_recovery_def)
qed

text \<open>Between two checkpoints the flags of the log are only ever set.\<close>

definition flags_grow :: "u64 \<Rightarrow> u64 \<Rightarrow> bool" where
  "flags_grow flags flags' \<longleftrightarrow> (flags AND HNSW_MUTATION_WAL_FLAG \<noteq> 0 \<longrightarrow> flags' AND HNSW_MUTATION_WAL_FLAG \<noteq> 0)"

lemma apply_group_flags:
  assumes "apply_group g (rs, b) = (Inr (rs', n), b')" "flags_grow (rs_feature_flags rs) flags"
  shows "apply_group g (rs\<lparr> rs_feature_flags := flags \<rparr>, b) = (Inr (rs'\<lparr> rs_feature_flags := flags \<rparr>, n), b')"
    "rs_feature_flags rs' = rs_feature_flags rs"
proof -
  obtain r d summary where ck: "check_group rs g = Inr (r, d, summary)"
    using assms(1) by (cases "check_group rs g") (auto simp: apply_group_def)
  then have "check_group (rs\<lparr> rs_feature_flags := flags \<rparr>) g = Inr (r\<lparr> rs_feature_flags := flags \<rparr>, d, summary)"
    using assms(2) by (auto simp: check_group_def Let_def rbind_eq_Inr flags_grow_def split: if_splits)
  with assms(1) ck show "apply_group g (rs\<lparr> rs_feature_flags := flags \<rparr>, b) = (Inr (rs'\<lparr> rs_feature_flags := flags \<rparr>, n), b')"
    by (auto simp: apply_group_def split: prod.splits sum.splits)
  from apply_group_ok [OF assms(1)] show "rs_feature_flags rs' = rs_feature_flags rs"
    by (metis (no_types, lifting) recovery_state.select_convs(8) recovery_state.surjective recovery_state.update_convs(1-6))
qed

lemma apply_groups_flags:
  "apply_groups groups (rs, b) = (Inr rs', b') \<Longrightarrow> flags_grow (rs_feature_flags rs) flags \<Longrightarrow>
    apply_groups groups (rs\<lparr> rs_feature_flags := flags \<rparr>, b) = (Inr (rs'\<lparr> rs_feature_flags := flags \<rparr>), b')"
proof (induction groups arbitrary: rs b)
  case (Cons g groups)
  obtain r n b1 where run: "apply_group g (rs, b) = (Inr (r, n), b1)" and rest: "apply_groups groups (r, b1) = (Inr rs', b')"
    using Cons.prems(1) by (auto split: prod.splits sum.splits)
  note f = apply_group_flags [OF run Cons.prems(2)]
  from Cons.IH [OF rest] f Cons.prems(2) show ?case by simp
qed simp

lemma same_recovered: "same_recovery rs rs' \<Longrightarrow> recovered_state rs' = recovered_state rs"
  by (auto simp: same_recovery_def recovered_state_def) (metis (no_types, lifting) recovery_state.select_convs recovery_state.surjective recovery_state.update_convs(3))+

lemma extend_recover:
  assumes storage: "storage_ok cat" and grow: "flags_grow flags flags'"
    and start: "recover_published_state store flags cat g1 ck b = (Inr st1, b1)"
  shows "recover_published_state store flags' cat (g1 @ g2) ck b =
    (case extend_published_state store flags' st1 g2 b1 of (Inl e, _) \<Rightarrow> (Inl e, b) | (Inr st2, b2) \<Rightarrow> (Inr st2, b2))"
proof -
  obtain rs0 rs1 where rs0: "from_checkpoint store flags cat ck = Inr rs0" and run: "apply_groups g1 (rs0, b) = (Inr rs1, b1)"
    and st1: "st1 = recovered_state rs1"
    using start by (auto simp: recover_published_state_def recover_from_def split: sum.splits prod.splits)
  have f0: "rs_feature_flags rs0 = flags" "from_checkpoint store flags' cat ck = Inr (rs0\<lparr> rs_feature_flags := flags' \<rparr>)"
    using rs0 by (auto simp: from_checkpoint_def rbind_eq_Inr)
  have run': "apply_groups g1 (rs0\<lparr> rs_feature_flags := flags' \<rparr>, b) = (Inr (rs1\<lparr> rs_feature_flags := flags' \<rparr>), b1)"
    using apply_groups_flags [OF run] grow f0(1) by simp
  from from_published_same [OF rs_ok_steps [OF rs_ok_start [OF storage rs0] run], of flags'] obtain rs2 where
    rs2: "from_published store flags' st1 = Inr rs2" "same_recovery (rs1\<lparr> rs_feature_flags := flags' \<rparr>) rs2" by (metis st1)
  obtain q b2 q' b2' where q: "apply_groups g2 (rs1\<lparr> rs_feature_flags := flags' \<rparr>, b1) = (q, b2)" "apply_groups g2 (rs2, b1) = (q', b2')"
    by fastforce
  with apply_groups_same [OF rs2(2), of g2 b1] have "rel_sum (=) same_recovery q q'" "b2 = b2'" by simp_all
  with q rs2 run' f0(2) show ?thesis
    by (cases q; cases q') (simp_all add: recover_published_state_def extend_published_state_def recover_from_def apply_groups_append same_recovered)
qed

section \<open>Recovery\<close>

text \<open>
  C3. What recovery rebuilds: from the committed groups of a log, in order, the published state whose
  catalog is the checkpointed one with their schema changes, whose chain holds exactly their deltas at
  their LSNs and whose summaries, one per group at its LSN, claim exactly the keys and tables of the
  group's delta (\<open>summary_claims\<close>), within the budget. Groups at or below the
  checkpoint or out of order are refused, and a recovery that fails leaves nothing charged.
\<close>

theorem recovery_rebuilds_history:
  assumes "recover_published_state store flags cat groups ck b = (res, b')"
  shows "case res of
      Inl _ \<Rightarrow> b' = b
    | Inr st \<Rightarrow>
        (\<exists>ds ss. list_all2 (\<lambda>g d. from_committed_group g = Inr d) groups ds \<and> apply_deltas_ddl ds cat = Inr (ps_catalog st) \<and>
          chain_deltas (ps_chain st) = zip (map commit_lsn groups) ds \<and>
          ps_recent_summaries st = zip (map commit_lsn groups) ss \<and> summaries_claim cat ds ss) \<and>
        sorted_wrt (<) (ck # map commit_lsn groups) \<and>
        ps_last_commit_lsn st = last (ck # map commit_lsn groups) \<and> ps_catalog_generation st = ck \<and>
        (mb_charged b \<le> mb_limit b \<longrightarrow> mb_charged b' \<le> mb_limit b)"
proof (cases "from_checkpoint store flags cat ck")
  case (Inl e)
  with assms show ?thesis by (auto simp: recover_published_state_def recover_from_def)
next
  case (Inr rs)
  obtain q b1 where run: "apply_groups groups (rs, b) = (q, b1)" by fastforce
  have start: "rs_catalog rs = cat" "rs_chain rs = None" "rs_recent_summaries rs = []" "rs_last_commit_lsn rs = ck"
    "rs_catalog_generation rs = ck"
    using Inr by (auto simp: from_checkpoint_def rbind_eq_Inr)
  show ?thesis
  proof (cases q)
    case (Inl e)
    with assms Inr run apply_groups_charges [OF run] show ?thesis by (auto simp: recover_published_state_def recover_from_def)
  next
    case q: (Inr rs')
    with assms Inr run have res: "res = Inr (recovered_state rs')" "b' = b1"
      by (auto simp: recover_published_state_def recover_from_def)
    have "chain_deltas None = []" by (simp add: chain_deltas_def commit_links_oldest_first_def)
    with apply_groups_rebuilt [OF run [unfolded q]] apply_groups_charges [OF run] q start show ?thesis
      by (auto simp: res rebuilt_def recovered_state_def charges_def)
  qed
qed

definition sample_group :: committed_group where
  "sample_group = stamped_group 6 [NodeDelete ''T'' (VInt64 1)]"

definition sample_start :: "u64 \<Rightarrow> recovery_state" where
  "sample_start flags = \<lparr> rs_catalog = sample_read_catalog, rs_checkpointed_node_totals = [(''T'', 2)], rs_overlay_node_totals = [],
     rs_chain = None, rs_recent_summaries = [], rs_last_commit_lsn = 4, rs_catalog_generation = 4, rs_feature_flags = flags \<rparr>"

definition sample_link :: commit_link where
  "sample_link = CommitLink None 6 (delta_default\<lparr> delta_node_deletes := [(''T'', [VInt64 1])] \<rparr>) 305"

definition sample_recovered :: "u64 \<Rightarrow> recovery_state" where
  "sample_recovered flags = (sample_start flags)\<lparr> rs_overlay_node_totals := [(''T'', 0)], rs_chain := Some sample_link,
     rs_recent_summaries := [(6, pc_summary delete_prepared)], rs_last_commit_lsn := 6 \<rparr>"

lemma sample_from_checkpoint:
  "from_checkpoint (re_store sample_env) flags sample_read_catalog 4 = Inr (sample_start flags)"
proof -
  have "cat_node_tables sample_read_catalog = [sample_node_schema]" "node_name sample_node_schema = ''T''"
    "stored_group_ids sample_read_catalog ''T'' = [9]" by code_simp+
  then show ?thesis
    by (simp add: from_checkpoint_def sample_start_def checkpointed_node_totals_def group_rows_total_def sample_env_def
        u64_try_from_def checked_add_word_def)
qed

lemma sample_checked:
  "check_group (sample_start flags) sample_group =
    Inr ((sample_start flags)\<lparr> rs_overlay_node_totals := [(''T'', 0)] \<rparr>, pc_delta delete_prepared, pc_summary delete_prepared)"
proof -
  let ?d = "pc_delta delete_prepared"
  have d: "from_committed_group sample_group = Inr ?d" by code_simp
  have ddl: "apply_ddl_to_catalog sample_read_catalog (delta_ddl ?d) = Inr sample_read_catalog"
    "delta_mutates_indexed_table sample_read_catalog ?d = False"
    "register_tables sample_read_catalog [(''T'', 2)] = [(''T'', 2)]" "register_tables sample_read_catalog [] = [(''T'', 0)]"
    "summary_from_delta sample_read_catalog ?d = Inr (pc_summary delete_prepared)" by code_simp+
  have "delta_nodes ?d = []" "delta_node_updates ?d = []" "delta_edges ?d = []" "delta_rel_tombstones ?d = []"
    "delta_node_deletes ?d = [(''T'', [VInt64 1])]" "cat_rel_tables sample_read_catalog = []"
    "node_table sample_read_catalog ''T'' = Some sample_node_schema" "rbind (primary_key sample_node_schema) (\<lambda>(c, _). Inr c) = Inr 0"
    "matches_type (VInt64 1) (scol_ty (node_columns sample_node_schema ! 0))" by code_simp+
  then have val: "validate_recovered_delta sample_read_catalog [(''T'', 2)] [(''T'', 0)] ?d = Inr ()"
    by (auto simp: validate_recovered_delta_def validate_recovered_dml_def validate_recovered_rel_tombstones_def
        reject_recovered_referenced_delete_def rbind_eq_Inr)
  have "commit_lsn sample_group = 6" by code_simp
  with d ddl val show ?thesis by (simp add: check_group_def sample_start_def)
qed

lemma sample_applied:
  "apply_groups [sample_group] (sample_start flags, budget_new 4096) =
    (Inr (sample_recovered flags), (budget_new 4096)\<lparr> mb_charged := 482 \<rparr>)"
proof -
  have d: "pc_delta delete_prepared = delta_default\<lparr> delta_node_deletes := [(''T'', [VInt64 1])] \<rparr>" "delta_nodes (pc_delta delete_prepared) = []"
    "commit_lsn sample_group = 6" by code_simp+
  have "commit_summary_new (budget_new 4096) (pc_summary delete_prepared) =
      (Inr (pc_summary delete_prepared, 177), (budget_new 4096)\<lparr> mb_charged := 177 \<rparr>)"
    by (simp add: commit_summary_new_def delete_estimates try_charge_def charge_attempt_def checked_add_usize_def budget_new_def)
  moreover have "commit_link_new ((budget_new 4096)\<lparr> mb_charged := 177 \<rparr>) None 6 (pc_delta delete_prepared) =
      (Inr (CommitLink None 6 (pc_delta delete_prepared) 305), (budget_new 4096)\<lparr> mb_charged := 482 \<rparr>)"
    by (simp add: commit_link_new_def delete_estimates checked_estimate_add_def COMMIT_LINK_OVERHEAD_BYTES_def try_charge_def
        charge_attempt_def checked_add_usize_def budget_new_def)
  moreover have "increment_overlay_totals (pc_delta delete_prepared) [(''T'', 0)] = Inr [(''T'', 0)]"
    by (simp only: increment_overlay_totals_def d(2) rfold.simps)
  ultimately show ?thesis
    by (simp add: apply_group_def sample_checked d) (simp add: sample_recovered_def sample_start_def sample_link_def d)
qed

theorem recovery_rebuilds_history_witness:
  "\<exists>st b'. recover_published_state (re_store sample_env) 0 sample_read_catalog [sample_group] 4 (budget_new 4096) = (Inr st, b') \<and>
    chain_deltas (ps_chain st) = [(6, delta_default\<lparr> delta_node_deletes := [(''T'', [VInt64 1])] \<rparr>)] \<and>
    (\<exists>s. ps_recent_summaries st = [(6, s)] \<and> set (bt_items (sum_dml_pks s) ''T'') = {VInt64 1}) \<and> mb_charged b' \<le> 4096"
proof -
  let ?b = "(budget_new 4096)\<lparr> mb_charged := 482 \<rparr>"
  have run: "recover_published_state (re_store sample_env) 0 sample_read_catalog [sample_group] 4 (budget_new 4096) =
      (Inr (recovered_state (sample_recovered 0)), ?b)"
    by (simp only: recover_published_state_def recover_from_def sample_from_checkpoint sample_applied sum.case prod.case)
  let ?d = "delta_default\<lparr> delta_node_deletes := [(''T'', [VInt64 1])] \<rparr>"
  have d: "from_committed_group sample_group = Inr ?d" "commit_lsn sample_group = 6"
    "apply_ddl_to_catalog sample_read_catalog (delta_ddl ?d) = Inr sample_read_catalog" "bt_items (delta_node_deletes ?d) ''T'' = [VInt64 1]"
    "bt_items (delta_node_updates ?d) ''T'' = []" by code_simp+
  from recovery_rebuilds_history [OF run] obtain ss where
    st: "chain_deltas (ps_chain (recovered_state (sample_recovered 0))) = [(6, ?d)]"
    "ps_recent_summaries (recovered_state (sample_recovered 0)) = zip [6] ss" "summaries_claim sample_read_catalog [?d] ss"
    "mb_charged ?b \<le> 4096"
    by (auto simp: list_all2_Cons1 budget_new_def d)
  from st(3) obtain s where ss: "ss = [s]" "summary_claims sample_read_catalog ?d s"
    using d(3) by (auto elim!: summaries_claim.elims(2))
  from ss(2) have "set (bt_items (sum_dml_pks s) ''T'') = {VInt64 1}"
    by (simp only: summary_claims_def d(4,5) key_values_Nil) simp
  with st ss run show ?thesis by auto
qed

end
