(* ===== verification/Follower.thy ===== *)
theory Follower
  imports Reopening
begin

text \<open>
  A follower that refreshes from its cursor shows what opening the files again would show: the log
  splits at the last commit the follower has seen, grouping and cursors split with it, and extending
  the published state is rebuilding it.
\<close>

section \<open>Logs on disk\<close>

text \<open>The intact records of a log, with a torn tail that is no record.\<close>

definition disk_log :: "crc_fun \<Rightarrow> crc_append_fun \<Rightarrow> disk \<Rightarrow> wal_record list \<Rightarrow> bool" where
  "disk_log crc32c crc32c_append dk recs \<longleftrightarrow> log_ok None recs \<and> (\<forall>(lsn, _) \<in> set recs. 0 < lsn) \<and>
    (case dk_wal dk of
       None \<Rightarrow> recs = []
     | Some bs \<Rightarrow> \<exists>tail. bs = log_file crc32c crc32c_append recs @ tail \<and> parse_record crc32c crc32c_append None tail = None)"

lemma parse_record_none:
  "parse_record crc32c crc32c_append None tail = None \<Longrightarrow> parse_record crc32c crc32c_append last_lsn tail = None"
proof (rule ccontr)
  assume none: "parse_record crc32c crc32c_append None tail = None" and "parse_record crc32c crc32c_append last_lsn tail \<noteq> None"
  then obtain rec where rec: "parse_record crc32c crc32c_append last_lsn tail = Some rec" by blast
  note some = parse_record_SomeD [OF rec]
  have "parse_record crc32c crc32c_append None (frame crc32c crc32c_append rec @ drop (16 + length (snd rec)) tail) = Some rec"
    by (rule parse_record_frame) (simp, rule some(3))
  with none some(1) show False by simp
qed

lemma replay_from_log:
  assumes "disk_log crc32c crc32c_append dk (old @ new)" "dk_wal dk = Some bs"
  shows "replay_from crc32c crc32c_append bs (length (log_file crc32c crc32c_append old)) =
    Inr (new, length (log_file crc32c crc32c_append (old @ new)))"
proof -
  from assms obtain tail where bs: "bs = log_file crc32c crc32c_append (old @ new) @ tail"
    and tail: "parse_record crc32c crc32c_append None tail = None" and ok: "log_ok None (old @ new)"
    by (auto simp: disk_log_def)
  let ?r = "(from_file bs)\<lparr> rd_pos := length (log_file crc32c crc32c_append old) \<rparr>"
  have "log_ok None new" using ok by (auto simp: log_ok_append intro: log_ok_weaken)
  then have "read_loop crc32c crc32c_append ?r = (new,
      ?r\<lparr> rd_pos := rd_pos ?r + length (log_file crc32c crc32c_append new), rd_last_lsn := last_lsn_of None new \<rparr>)"
    using read_loop_frames [of ?r crc32c crc32c_append new tail] parse_record_none [OF tail] bs by (simp add: from_file_def)
  then show ?thesis using bs by (simp add: replay_from_def)
qed

lemma replay_wal_from_log:
  assumes "disk_log crc32c crc32c_append dk (old @ new)"
  shows "replay_wal_from js crc32c crc32c_append (dk_wal dk) (length (log_file crc32c crc32c_append old)) =
    rbind (group_transactions js new 0) (\<lambda>groups.
    rbind (if groups = [] then Inr (length (log_file crc32c crc32c_append old))
      else offset_after_lsn (length (log_file crc32c crc32c_append old)) new (commit_lsn (last groups))) (\<lambda>committed_offset.
    Inr \<lparr> rw_groups = groups, rw_first_lsn = (case new of [] \<Rightarrow> None | (lsn, _) # _ \<Rightarrow> Some lsn),
          rw_committed_offset = committed_offset, rw_intact_offset = length (log_file crc32c crc32c_append (old @ new)) \<rparr>))"
proof (cases "dk_wal dk")
  case None
  then have "old = []" "new = []" using assms by (simp_all add: disk_log_def)
  with None show ?thesis by (simp add: replay_wal_from_def group_transactions_def)
next
  case (Some bs)
  with replay_from_log [OF assms Some] show ?thesis by (simp add: replay_wal_from_def)
qed

lemma replay_wal_iff:
  assumes "disk_log crc32c crc32c_append dk (old @ new)"
  shows "replay_wal_from js crc32c crc32c_append (dk_wal dk) (length (log_file crc32c crc32c_append old)) = Inr r \<longleftrightarrow>
    (\<exists>groups. group_transactions js new 0 = Inr groups \<and>
      (if groups = [] then Inr (length (log_file crc32c crc32c_append old))
       else offset_after_lsn (length (log_file crc32c crc32c_append old)) new (commit_lsn (last groups))) = Inr (rw_committed_offset r) \<and>
      r = \<lparr> rw_groups = groups, rw_first_lsn = (case new of [] \<Rightarrow> None | (lsn, _) # _ \<Rightarrow> Some lsn),
            rw_committed_offset = rw_committed_offset r, rw_intact_offset = length (log_file crc32c crc32c_append (old @ new)) \<rparr>)"
  unfolding replay_wal_from_log [OF assms] by (cases r) (auto simp: rbind_eq_Inr)

lemma replay_wal_start:
  assumes "disk_log crc32c crc32c_append dk recs"
  shows "replay_wal_from js crc32c crc32c_append (dk_wal dk) 0 = Inr r \<longleftrightarrow>
    (\<exists>groups. group_transactions js recs 0 = Inr groups \<and>
      (if groups = [] then Inr 0 else offset_after_lsn 0 recs (commit_lsn (last groups))) = Inr (rw_committed_offset r) \<and>
      r = \<lparr> rw_groups = groups, rw_first_lsn = (case recs of [] \<Rightarrow> None | (lsn, _) # _ \<Rightarrow> Some lsn),
            rw_committed_offset = rw_committed_offset r, rw_intact_offset = length (log_file crc32c crc32c_append recs) \<rparr>)"
  using replay_wal_iff [of crc32c crc32c_append dk "[]" recs js r] assms by simp

section \<open>Grouping splits at a commit\<close>

lemma finish_group_pending: "finish_group groups pending lsn n ck = Inr (groups', pending') \<Longrightarrow> pending' = []"
  by (auto simp: finish_group_def rbind_eq_Inr split: if_splits)

lemma finish_group_append:
  "finish_group groups pending lsn n ck = rbind (finish_group [] pending lsn n ck) (\<lambda>(gs, p). Inr (groups @ gs, p))"
  by (cases "validate_record_order pending") (simp_all add: finish_group_def)

lemma group_loop_append_groups:
  "group_loop js ck records pending groups previous =
    rbind (group_loop js ck records pending [] previous) (\<lambda>gs. Inr (groups @ gs))"
proof (induction records arbitrary: pending groups previous)
  case (Cons entry records)
  obtain lsn bs where entry: "entry = (lsn, bs)" by fastforce
  show ?case
  proof (cases "decode_payload js bs")
    case (Inr p)
    show ?thesis
    proof (cases p)
      case (Commit n)
      show ?thesis
      proof (cases "finish_group [] pending lsn n ck")
        case fin: (Inr x)
        obtain gs p' where x: "x = (gs, p')" by fastforce
        have "group_loop js ck records p' (groups @ gs) (Some lsn) =
            rbind (group_loop js ck records p' gs (Some lsn)) (\<lambda>all. Inr (groups @ all))"
          unfolding Cons.IH [of p' "groups @ gs"] Cons.IH [of p' gs] by (cases "group_loop js ck records p' [] (Some lsn)") simp_all
        with fin x show ?thesis
          by (simp add: entry Inr Commit finish_group_append [of groups] ensure_ascending_commit_lsn_def)
      qed (simp add: entry Inr Commit finish_group_append [of groups] ensure_ascending_commit_lsn_def)
    qed (simp add: entry Inr, rule Cons.IH)+
  qed (simp add: entry)
qed simp

lemma ascending_past:
  "previous < lsn \<Longrightarrow> ensure_ascending_commit_lsn (Some previous) lsn = ensure_ascending_commit_lsn None lsn"
  by (simp add: ensure_ascending_commit_lsn_def)

lemma group_loop_previous:
  "\<forall>(lsn, _) \<in> set records. l < lsn \<Longrightarrow>
    group_loop js ck records pending groups (Some l) = group_loop js ck records pending groups None"
proof (induction records arbitrary: pending)
  case (Cons entry records)
  obtain lsn bs where entry: "entry = (lsn, bs)" by fastforce
  have IH: "group_loop js ck records p groups (Some l) = group_loop js ck records p groups None" for p
    using Cons.prems by (intro Cons.IH) simp
  from Cons.prems have "l < lsn" by (simp add: entry)
  then show ?case
    by (cases "decode_payload js bs") (simp_all add: entry IH ascending_past split: wal_payload.split)
qed simp

definition settled :: "serde_json \<Rightarrow> (u64 \<times> bytes) list \<Rightarrow> bool" where
  "settled js records \<longleftrightarrow> records = [] \<or> decodes_commit js (last records)"

lemma decodes_commit_iff: "decodes_commit js (lsn, bs) \<longleftrightarrow> (\<exists>n. decode_payload js bs = Inr (Commit n))"
  by (auto simp: decodes_commit_def split: sum.splits wal_payload.splits)

lemma group_loop_settled:
  assumes "records \<noteq> []" "decodes_commit js (last records)"
  shows "group_loop js ck (records @ more_records) pending groups previous =
    rbind (group_loop js ck records pending groups previous) (\<lambda>gs. group_loop js ck more_records [] gs (Some (fst (last records))))"
  using assms
proof (induction records arbitrary: pending groups previous)
  case (Cons entry records)
  obtain lsn bs where entry: "entry = (lsn, bs)" by fastforce
  show ?case
  proof (cases "records = []")
    case True
    with Cons.prems(2) obtain n where n: "decode_payload js bs = Inr (Commit n)" by (auto simp: entry decodes_commit_iff)
    show ?thesis
    proof (cases "finish_group groups pending lsn n ck")
      case (Inr x)
      then have "snd x = []" using finish_group_pending by (cases x) auto
      with Inr n True show ?thesis
        by (cases x) (auto simp: entry ensure_ascending_commit_lsn_def)
    qed (simp add: n True entry ensure_ascending_commit_lsn_def)
  next
    case False
    have IH: "group_loop js ck (records @ more_records) p gs prev =
        rbind (group_loop js ck records p gs prev) (\<lambda>gs. group_loop js ck more_records [] gs (Some (fst (last records))))" for p gs prev
      using Cons.prems False by (intro Cons.IH) simp_all
    show ?thesis
    proof (cases "decode_payload js bs")
      case (Inr p)
      show ?thesis
      proof (cases p)
        case (Commit n)
        show ?thesis
          using False Inr Commit
          by (cases "finish_group groups pending lsn n ck") (auto simp: entry IH ensure_ascending_commit_lsn_def)
      qed (simp_all add: entry Inr IH False)
    qed (simp add: entry)
  qed
qed simp

lemma log_ok_above: "log_ok None (old @ new) \<Longrightarrow> old \<noteq> [] \<Longrightarrow> \<forall>(lsn, _) \<in> set new. fst (last old) < lsn"
  using log_ok_sorted [of None "old @ new"] last_in_set [of old] by (fastforce simp: sorted_wrt_append)

lemma log_ok_last_fresh:
  assumes "log_ok None (old @ new)" "old \<noteq> []"
  shows "fst (last old) \<notin> fst ` set (butlast old)"
proof -
  have "sorted_wrt (<) (map fst old)" using assms(1) log_ok_sorted [of None old] by (simp add: log_ok_append)
  then have "sorted_wrt (<) (map fst (butlast old @ [last old]))" using assms(2) by simp
  then show ?thesis by (auto simp: sorted_wrt_append)
qed

lemma group_transactions_split:
  assumes "settled js old" "log_ok None (old @ new)"
  shows "group_transactions js (old @ new) ck =
    rbind (group_transactions js old ck) (\<lambda>g1. rbind (group_transactions js new ck) (\<lambda>g2. Inr (g1 @ g2)))"
proof (cases "old = []")
  case False
  then have "decodes_commit js (last old)" using assms(1) by (simp add: settled_def)
  note split = group_loop_settled [OF False this]
  show ?thesis
  proof (cases "group_loop js ck old [] [] None")
    case (Inr gs)
    then show ?thesis
      using group_loop_append_groups [of js ck new "[]" gs None]
      by (simp add: group_transactions_def split group_loop_previous [OF log_ok_above [OF assms(2) False]])
  qed (simp add: group_transactions_def split)
qed (cases "group_transactions js new ck"; simp add: group_transactions_def)

lemma group_loop_no_commit:
  "list_all (\<lambda>r. \<not> decodes_commit js r) records \<Longrightarrow> group_loop js ck records pending groups previous = Inr gs \<Longrightarrow> gs = groups"
proof (induction records arbitrary: pending)
  case (Cons entry records)
  obtain lsn bs where entry: "entry = (lsn, bs)" by fastforce
  with Cons.prems obtain p where p: "decode_payload js bs = Inr p" by (auto simp: rbind_eq_Inr map_err_eq_Inr)
  with Cons.prems(1) have "\<nexists>n. p = Commit n" by (auto simp: entry decodes_commit_iff)
  with Cons p show ?case by (cases p) (auto simp: entry)
qed simp

lemma group_loop_last:
  assumes "records \<noteq> []" "decodes_commit js (last records)" "ck < fst (last records)"
    and "group_loop js ck records pending groups previous = Inr gs"
  shows "gs \<noteq> [] \<and> commit_lsn (last gs) = fst (last records)"
  using assms
proof (induction records arbitrary: pending groups previous)
  case (Cons entry records)
  obtain lsn bs where entry: "entry = (lsn, bs)" by fastforce
  show ?case
  proof (cases "records = []")
    case True
    with Cons.prems(2) obtain n where n: "decode_payload js bs = Inr (Commit n)" by (auto simp: entry decodes_commit_iff)
    with Cons.prems(3,4) True show ?thesis
      by (auto simp: entry rbind_eq_Inr finish_group_def split: if_splits)
  next
    case False
    from Cons.prems(4) obtain x where x: "decode_payload js bs = Inr x" by (auto simp: entry rbind_eq_Inr map_err_eq_Inr)
    with Cons.prems(4) obtain p g q where "group_loop js ck records p g q = Inr gs"
      by (cases x) (auto simp: entry rbind_eq_Inr)
    from Cons.IH [OF False _ _ this] Cons.prems False show ?thesis by simp
  qed
qed simp

lemma settled_last:
  assumes "settled js old" "\<forall>(lsn, _) \<in> set old. 0 < lsn" "group_transactions js old 0 = Inr g1"
  shows "old = [] \<and> g1 = [] \<or> old \<noteq> [] \<and> g1 \<noteq> [] \<and> commit_lsn (last g1) = fst (last old)"
proof (cases "old = []")
  case False
  have "0 < fst (last old)" using bspec [OF assms(2) last_in_set [OF False]] by (simp add: case_prod_beta)
  with group_loop_last [OF False] assms(1,3) False show ?thesis by (auto simp: settled_def group_transactions_def)
qed (use assms(3) in \<open>simp add: group_transactions_def\<close>)

section \<open>Cursors\<close>

lemma offset_step:
  "offset_after_lsn offset ((lsn, bs) # records) target =
    (if offset + 16 + length bs < 2 ^ 64
     then if lsn = target then Inr (offset + 16 + length bs) else offset_after_lsn (offset + 16 + length bs) records target
     else Inl (InvalidArgument ''WAL cursor exceeds u64::MAX''))"
  by (simp add: WAL_HEADER_LEN_def checked_add_usize_def)

lemma offset_bounds: "offset_after_lsn offset records target = Inr n \<Longrightarrow> offset < n \<and> n < 2 ^ 64"
proof (induction records arbitrary: offset)
  case (Cons entry records)
  obtain lsn bs where "entry = (lsn, bs)" by fastforce
  with Cons show ?case by (fastforce simp: offset_step simp del: offset_after_lsn.simps split: if_splits)
qed simp

lemma offset_at_last:
  assumes "old \<noteq> []" "fst (last old) \<notin> fst ` set (butlast old)"
  shows "offset_after_lsn offset (old @ rest) (fst (last old)) =
    (if offset + length (log_file crc32c crc32c_append old) < 2 ^ 64 then Inr (offset + length (log_file crc32c crc32c_append old))
     else Inl (InvalidArgument ''WAL cursor exceeds u64::MAX''))"
  using assms
proof (induction old arbitrary: offset)
  case (Cons entry old)
  obtain lsn bs where entry: "entry = (lsn, bs)" by fastforce
  show ?case
  proof (cases "old = []")
    case True
    then show ?thesis by (simp add: entry offset_step ac_simps del: offset_after_lsn.simps)
  next
    case False
    with Cons.prems have "lsn \<noteq> fst (last old)" "fst (last old) \<notin> fst ` set (butlast old)" by (auto simp: entry)
    with Cons.IH [OF False this(2), of "offset + 16 + length bs"] False show ?thesis
      by (simp add: entry offset_step ac_simps del: offset_after_lsn.simps)
  qed
qed simp

lemma offset_past:
  assumes "target \<notin> fst ` set old" "offset_after_lsn (offset + length (log_file crc32c crc32c_append old)) new target = Inr n"
  shows "offset_after_lsn offset (old @ new) target = Inr n"
  using assms
proof (induction old arbitrary: offset)
  case (Cons entry old)
  obtain lsn bs where entry: "entry = (lsn, bs)" by fastforce
  have "offset_after_lsn (offset + 16 + length bs + length (log_file crc32c crc32c_append old)) new target = Inr n"
    using Cons.prems(2) by (simp add: entry ac_simps del: offset_after_lsn.simps)
  from Cons.IH [OF _ this] offset_bounds [OF this] Cons.prems(1) show ?case
    by (auto simp: entry offset_step simp del: offset_after_lsn.simps)
qed simp

section \<open>Refreshing\<close>

lemma recover_error: "recover_from start groups b = (Inl e, b') \<Longrightarrow> b' = b"
  by (auto simp: recover_from_def split: sum.splits prod.splits dest: apply_groups_charges)

lemma recovered_lsns:
  assumes "recover_from (Inr rs) groups b = (Inr st, b')"
  shows "ps_last_commit_lsn st = last (rs_last_commit_lsn rs # map commit_lsn groups)"
    "sorted_wrt (<) (rs_last_commit_lsn rs # map commit_lsn groups)"
proof -
  obtain rs' where "apply_groups groups (rs, b) = (Inr rs', b')" "st = recovered_state rs'"
    using assms by (auto simp: recover_from_def split: sum.splits prod.splits)
  with apply_groups_rebuilt show "ps_last_commit_lsn st = last (rs_last_commit_lsn rs # map commit_lsn groups)"
    "sorted_wrt (<) (rs_last_commit_lsn rs # map commit_lsn groups)"
    by (fastforce simp: rebuilt_def recovered_state_def)+
qed

lemma recover_lsn_ge: "recover_published_state store flags cat groups ck b = (Inr st, b') \<Longrightarrow> ck \<le> ps_last_commit_lsn st"
proof -
  assume run: "recover_published_state store flags cat groups ck b = (Inr st, b')"
  then obtain rs where rs: "from_checkpoint store flags cat ck = Inr rs"
    by (cases "from_checkpoint store flags cat ck") (simp_all add: recover_published_state_def recover_from_def)
  with run recovered_lsns [of rs groups b st b'] show ?thesis
    by (cases groups rule: rev_cases)
      (auto simp: recover_published_state_def from_checkpoint_def rbind_eq_Inr sorted_wrt_append)
qed

lemma extend_lsn_above:
  assumes "extend_published_state store flags st groups b = (Inr st', b')" "groups \<noteq> []"
  shows "ps_last_commit_lsn st < ps_last_commit_lsn st'"
proof -
  obtain rs where rs: "from_published store flags st = Inr rs"
    using assms(1) by (cases "from_published store flags st") (simp_all add: extend_published_state_def recover_from_def)
  then have "rs_last_commit_lsn rs = ps_last_commit_lsn st" by (auto simp: from_published_def rbind_eq_Inr)
  with assms rs recovered_lsns [of rs groups b st' b'] show ?thesis
    by (cases groups rule: rev_cases) (auto simp: extend_published_state_def)
qed

lemma recover_flags:
  assumes "recover_published_state store flags cat groups ck b = (Inr st, b')" "flags_grow flags flags'"
  shows "recover_published_state store flags' cat groups ck b = (Inr st, b')"
proof -
  obtain rs rs' where rs: "from_checkpoint store flags cat ck = Inr rs" "apply_groups groups (rs, b) = (Inr rs', b')"
    and st: "st = recovered_state rs'"
    using assms(1) by (auto simp: recover_published_state_def recover_from_def split: sum.splits prod.splits)
  have "rs_feature_flags rs = flags" "from_checkpoint store flags' cat ck = Inr (rs\<lparr> rs_feature_flags := flags' \<rparr>)"
    using rs(1) by (auto simp: from_checkpoint_def rbind_eq_Inr)
  with apply_groups_flags [OF rs(2), of flags'] assms(2) show ?thesis
    by (simp add: recover_published_state_def recover_from_def st recovered_state_def)
qed

text \<open>What opening a follower computes from the log of the disk.\<close>

lemma open_follower_ok:
  assumes "open_follower js crc32c crc32c_append dk b = (Inr (st, p, b'), x)"
  obtains cat replayed where "require_multiprocess_flag dk = Inr ()" "dk_catalog dk = Inr cat"
    "replay_wal_from js crc32c crc32c_append (dk_wal dk) 0 = Inr replayed"
    "recover_published_state (dk_store dk) (dk_flags dk) cat (groups_after (rw_groups replayed) (dk_checkpoint_lsn dk))
      (dk_checkpoint_lsn dk) b = (Inr st, b')"
    "p = \<lparr> fp_last_seen_checkpoint_lsn = dk_checkpoint_lsn dk, fp_last_seen_commit_lsn = ps_last_commit_lsn st,
      fp_wal_cursor = rw_committed_offset replayed \<rparr>"
  using assms by (auto simp: open_follower_def rbind_eq_Inr split: sum.splits prod.splits)

lemma rebase_reopens:
  assumes "require_multiprocess_flag dk = Inr ()"
    and "rebase_follower js crc32c crc32c_append dk (st, p, b) = (res, st', p', b')"
  shows "case res of Inl _ \<Rightarrow> (st', p', b') = (st, p, b)
    | Inr advanced \<Rightarrow> open_follower js crc32c crc32c_append dk b = (Inr (st', p', b'), b') \<and>
        fp_last_seen_commit_lsn p \<le> ps_last_commit_lsn st' \<and>
        (advanced \<longleftrightarrow> dk_checkpoint_lsn dk \<noteq> fp_last_seen_checkpoint_lsn p \<or> fp_last_seen_commit_lsn p < ps_last_commit_lsn st')"
  using assms
  by (auto simp: rebase_follower_def open_follower_def not_less rbind_eq_Inr recover_published_state_def
      split: sum.splits prod.splits if_splits dest: recover_error)

text \<open>The disk a follower finds: checkpointed since, or with the log grown behind the last commit.\<close>

definition disk_grown :: "serde_json \<Rightarrow> crc_fun \<Rightarrow> crc_append_fun \<Rightarrow> disk \<Rightarrow> disk \<Rightarrow> bool" where
  "disk_grown js crc32c crc32c_append dk dk' \<longleftrightarrow>
    (dk_checkpoint_lsn dk' = dk_checkpoint_lsn dk \<longrightarrow>
      dk_catalog dk' = dk_catalog dk \<and> dk_store dk' = dk_store dk \<and> flags_grow (dk_flags dk) (dk_flags dk') \<and>
      (\<exists>old unfinished new. settled js old \<and> list_all (\<lambda>r. \<not> decodes_commit js r) unfinished \<and>
        disk_log crc32c crc32c_append dk (old @ unfinished) \<and> disk_log crc32c crc32c_append dk' (old @ new)))"

lemma offset_target: "offset_after_lsn offset records target = Inr n \<Longrightarrow> target \<in> fst ` set records"
proof (induction records arbitrary: offset)
  case (Cons entry records)
  obtain lsn bs where "entry = (lsn, bs)" by fastforce
  with Cons show ?case by (fastforce simp: offset_step simp del: offset_after_lsn.simps split: if_splits)
qed simp

lemma group_loop_lsns:
  "group_loop js ck records pending groups previous = Inr gs \<Longrightarrow>
    commit_lsn ` set gs \<subseteq> commit_lsn ` set groups \<union> fst ` set records"
proof (induction records arbitrary: pending groups previous)
  case (Cons entry records)
  obtain lsn bs where entry: "entry = (lsn, bs)" by fastforce
  with Cons.prems obtain x where x: "decode_payload js bs = Inr x" by (auto simp: rbind_eq_Inr map_err_eq_Inr)
  show ?case
  proof (cases x)
    case (Commit n)
    with Cons.prems x obtain g q where fin: "finish_group groups pending lsn n ck = Inr (g, q)" "group_loop js ck records q g (Some lsn) = Inr gs"
      by (auto simp: entry rbind_eq_Inr)
    from fin(1) have "commit_lsn ` set g \<subseteq> commit_lsn ` set groups \<union> {lsn}"
      by (auto simp: finish_group_def rbind_eq_Inr split: if_splits)
    with Cons.IH [OF fin(2)] show ?thesis by (auto simp: entry)
  qed (use Cons x in \<open>fastforce simp: entry\<close>)+
qed simp

lemma new_groups_late:
  assumes "log_ok previous new" "group_transactions js new 0 = Inr g2"
    and "case case new of [] \<Rightarrow> None | (lsn, _) # _ \<Rightarrow> Some lsn of Some first_lsn \<Rightarrow> checked_add_word seen 1 = Some first_lsn | None \<Rightarrow> P"
  shows "\<forall>g \<in> set g2. seen < commit_lsn g"
proof
  fix g assume "g \<in> set g2"
  with assms(2) group_loop_lsns [of js 0 new "[]" "[]" None g2] obtain rec where rec: "rec \<in> set new" "fst rec = commit_lsn g"
    by (fastforce simp: group_transactions_def)
  then obtain lsn bs rest where new: "new = (lsn, bs) # rest" by (cases new) auto
  have "seen < lsn"
    using assms(3) by (auto simp: new checked_add_word_def word_less_nat_alt unat_word_ariths split: if_splits)
  moreover have "lsn \<le> fst rec" using log_ok_sorted [OF assms(1)] rec(1) by (auto simp: new less_imp_le)
  ultimately show "seen < commit_lsn g" using rec(2) by simp
qed

text \<open>The log read from the start, at the last commit.\<close>

lemma replay_settled:
  assumes log: "disk_log crc32c crc32c_append dk (old @ new)" and settled: "settled js old"
    and run: "replay_wal_from js crc32c crc32c_append (dk_wal dk) 0 = Inr replayed"
  obtains g1 g2 where "group_transactions js old 0 = Inr g1" "group_transactions js new 0 = Inr g2" "rw_groups replayed = g1 @ g2"
    "g2 = [] \<Longrightarrow> rw_committed_offset replayed = length (log_file crc32c crc32c_append old)"
    "old \<noteq> [] \<Longrightarrow> g2 = [] \<Longrightarrow> length (log_file crc32c crc32c_append old) < 2 ^ 64"
proof -
  have ok: "log_ok None (old @ new)" and pos: "\<forall>(lsn, _) \<in> set old. 0 < lsn" using log by (auto simp: disk_log_def)
  from run [unfolded replay_wal_start [OF log]]
  obtain groups where groups: "group_transactions js (old @ new) 0 = Inr groups" "rw_groups replayed = groups"
    and off: "(if groups = [] then Inr 0 else offset_after_lsn 0 (old @ new) (commit_lsn (last groups))) = Inr (rw_committed_offset replayed)"
    by (metis replayed_wal.select_convs(1))
  from groups(1) group_transactions_split [OF settled ok] obtain g1 g2 where
    g: "group_transactions js old 0 = Inr g1" "group_transactions js new 0 = Inr g2" "groups = g1 @ g2" by (auto simp: rbind_eq_Inr)
  note last = settled_last [OF settled pos g(1)]
  have at: "rw_committed_offset replayed = length (log_file crc32c crc32c_append old) \<and> (old \<noteq> [] \<longrightarrow> length (log_file crc32c crc32c_append old) < 2 ^ 64)"
    if "g2 = []"
  proof (cases "old = []")
    case True
    with last that g off show ?thesis by simp
  next
    case False
    with last that g off offset_at_last [OF False log_ok_last_fresh [OF ok False], of 0 new crc32c crc32c_append] show ?thesis
      by (auto split: if_splits)
  qed
  show thesis by (rule that [OF g(1,2)]) (use g(3) groups(2) at in auto)
qed

lemma reread_offset:
  assumes settled: "settled js old" and pos: "\<forall>(lsn, _) \<in> set old. 0 < lsn" and ok: "log_ok None (old @ new)"
    and g: "group_transactions js old 0 = Inr g1" "group_transactions js new 0 = Inr g2"
    and bound: "old \<noteq> [] \<longrightarrow> length (log_file crc32c crc32c_append old) < 2 ^ 64"
    and off: "(if g2 = [] then Inr (length (log_file crc32c crc32c_append old))
      else offset_after_lsn (length (log_file crc32c crc32c_append old)) new (commit_lsn (last g2))) = Inr n"
  shows "(if g1 @ g2 = [] then Inr 0 else offset_after_lsn 0 (old @ new) (commit_lsn (last (g1 @ g2)))) = Inr n"
proof (cases "g2 = []")
  case True
  show ?thesis
  proof (cases "old = []")
    case False
    from offset_at_last [OF False log_ok_last_fresh [OF ok False], of 0 new crc32c crc32c_append] settled_last [OF settled pos g(1)] False True off bound
    show ?thesis by simp
  qed (use True off settled_last [OF settled pos g(1)] in simp)
next
  case False
  with off have at: "offset_after_lsn (length (log_file crc32c crc32c_append old)) new (commit_lsn (last g2)) = Inr n" by simp
  then have "commit_lsn (last g2) \<in> fst ` set new" by (rule offset_target)
  with ok have "commit_lsn (last g2) \<notin> fst ` set old" using log_ok_sorted [OF ok] by (fastforce simp: sorted_wrt_append)
  from offset_past [OF this, of 0] at False show ?thesis by simp
qed

lemma extend_reopens:
  assumes open1: "open_follower js crc32c crc32c_append dk b = (Inr (st, p, b1), b1)"
    and cat: "dk_catalog dk = Inr cat" "storage_ok cat" and grown: "disk_grown js crc32c crc32c_append dk dk'"
    and same: "dk_checkpoint_lsn dk' = dk_checkpoint_lsn dk" and flag: "require_multiprocess_flag dk' = Inr ()"
    and read: "replay_wal_from js crc32c crc32c_append (dk_wal dk') (fp_wal_cursor p) = Inr replayed"
    and cursor: "cursor_names_expected_lsn p replayed (wal_file_len dk')"
    and run: "extend_follower dk' replayed (st, p, b1) = (Inr advanced, st', p', b')"
  shows "open_follower js crc32c crc32c_append dk' b = (Inr (st', p', b'), b')"
    "if advanced then ps_last_commit_lsn st < ps_last_commit_lsn st' else st' = st"
proof -
  let ?ck = "dk_checkpoint_lsn dk" and ?len = "\<lambda>recs. length (log_file crc32c crc32c_append recs)"
  from grown same obtain old unfinished new where settled: "settled js old"
    and none: "list_all (\<lambda>r. \<not> decodes_commit js r) unfinished"
    and log: "disk_log crc32c crc32c_append dk (old @ unfinished)" and log': "disk_log crc32c crc32c_append dk' (old @ new)"
    and disk: "dk_catalog dk' = Inr cat" "dk_store dk' = dk_store dk" "flags_grow (dk_flags dk) (dk_flags dk')"
    using cat(1) by (auto simp: disk_grown_def)
  from open1 obtain cat' replayed1 where o1: "dk_catalog dk = Inr cat'"
    "replay_wal_from js crc32c crc32c_append (dk_wal dk) 0 = Inr replayed1"
    "recover_published_state (dk_store dk) (dk_flags dk) cat' (groups_after (rw_groups replayed1) ?ck) ?ck b = (Inr st, b1)"
    "p = \<lparr> fp_last_seen_checkpoint_lsn = ?ck, fp_last_seen_commit_lsn = ps_last_commit_lsn st, fp_wal_cursor = rw_committed_offset replayed1 \<rparr>"
    by (rule open_follower_ok)
  from replay_settled [OF log settled o1(2)] obtain g1 u where
    g1: "group_transactions js old 0 = Inr g1" "group_transactions js unfinished 0 = Inr u" "rw_groups replayed1 = g1 @ u"
    "u = [] \<Longrightarrow> rw_committed_offset replayed1 = ?len old" "old \<noteq> [] \<Longrightarrow> u = [] \<Longrightarrow> ?len old < 2 ^ 64" by metis
  have "u = []" using g1(2) group_loop_no_commit [OF none] by (auto simp: group_transactions_def)
  with g1 o1(4) have groups1: "rw_groups replayed1 = g1" and at: "fp_wal_cursor p = ?len old" and bound: "old \<noteq> [] \<longrightarrow> ?len old < 2 ^ 64" by simp_all
  from read [unfolded at replay_wal_iff [OF log']] obtain g2 where g2: "group_transactions js new 0 = Inr g2" "rw_groups replayed = g2"
    and off2: "(if g2 = [] then Inr (?len old) else offset_after_lsn (?len old) new (commit_lsn (last g2))) = Inr (rw_committed_offset replayed)"
    and first: "rw_first_lsn replayed = (case new of [] \<Rightarrow> None | (lsn, _) # _ \<Rightarrow> Some lsn)"
    by (metis replayed_wal.select_convs(1,2))
  have ok': "log_ok None (old @ new)" and pos: "\<forall>(lsn, _) \<in> set old. 0 < lsn" using log' by (auto simp: disk_log_def)
  have all: "group_transactions js (old @ new) 0 = Inr (g1 @ g2)" using group_transactions_split [OF settled ok'] g1(1) g2(1) by simp
  have reread: "replay_wal_from js crc32c crc32c_append (dk_wal dk') 0 = Inr \<lparr> rw_groups = g1 @ g2,
      rw_first_lsn = (case old @ new of [] \<Rightarrow> None | (lsn, _) # _ \<Rightarrow> Some lsn), rw_committed_offset = rw_committed_offset replayed,
      rw_intact_offset = ?len (old @ new) \<rparr>"
    unfolding replay_wal_start [OF log'] using all reread_offset [OF settled pos ok' g1(1) g2(1) bound off2] by simp
  have late: "groups_after g2 ?ck = g2"
  proof -
    have "log_ok (last_lsn_of None old) new" using ok' by (simp add: log_ok_append)
    from new_groups_late [OF this g2(1) cursor [unfolded cursor_names_expected_lsn_def first]] o1(4)
    have "\<forall>g \<in> set g2. ps_last_commit_lsn st < commit_lsn g" by simp
    with recover_lsn_ge [OF o1(3)] show ?thesis
      by (simp add: groups_after_def filter_id_conv) (meson order_le_less_trans)
  qed
  have after: "groups_after (g1 @ g2) ?ck = groups_after g1 ?ck @ g2" using late by (simp add: groups_after_def)
  have "cat' = cat" using o1(1) cat(1) by simp
  note start = o1(3) [unfolded groups1 this]
  show "open_follower js crc32c crc32c_append dk' b = (Inr (st', p', b'), b')"
    "if advanced then ps_last_commit_lsn st < ps_last_commit_lsn st' else st' = st"
  proof -
    have "open_follower js crc32c crc32c_append dk' b = (Inr (st', p', b'), b') \<and> (if advanced then ps_last_commit_lsn st < ps_last_commit_lsn st' else st' = st)"
    proof (cases "g2 = []")
      case True
      with run g2(2) have "advanced = False" "st' = st" "p' = p" "b' = b1" by (auto simp: extend_follower_def)
      with True recover_flags [OF start disk(3)] reread off2 at o1(4) flag disk same show ?thesis
        by (simp add: open_follower_def)
    next
      case False
      with run g2(2) obtain published where ext: "extend_published_state (dk_store dk') (dk_flags dk') st g2 b1 = (Inr published, b')"
        and res: "advanced = True" "st' = published"
        "p' = p\<lparr> fp_wal_cursor := rw_committed_offset replayed, fp_last_seen_commit_lsn := ps_last_commit_lsn published \<rparr>"
        by (auto simp: extend_follower_def split: prod.splits sum.splits if_splits)
      from extend_recover [OF cat(2) disk(3) start, of g2] ext disk(2) after
      have "recover_published_state (dk_store dk') (dk_flags dk') cat (groups_after (g1 @ g2) ?ck) ?ck b = (Inr published, b')" by simp
      with reread flag disk same o1(4) res extend_lsn_above [OF ext False] show ?thesis by (simp add: open_follower_def)
    qed
    then show "open_follower js crc32c crc32c_append dk' b = (Inr (st', p', b'), b')"
      "if advanced then ps_last_commit_lsn st < ps_last_commit_lsn st' else st' = st" by simp_all
  qed
qed

text \<open>
  A refresh extends the published state when the checkpoint is the one the follower has seen, the log
  reaches its cursor and continues there with the LSN it expects; otherwise it rebases.
\<close>

definition refresh_extends :: "serde_json \<Rightarrow> crc_fun \<Rightarrow> crc_append_fun \<Rightarrow> disk \<Rightarrow> follower_progress \<Rightarrow> bool" where
  "refresh_extends js crc32c crc32c_append dk p \<longleftrightarrow>
    dk_checkpoint_lsn dk = fp_last_seen_checkpoint_lsn p \<and> fp_wal_cursor p \<le> wal_file_len dk \<and>
    (case replay_wal_from js crc32c crc32c_append (dk_wal dk) (fp_wal_cursor p) of
       Inl _ \<Rightarrow> False
     | Inr replayed \<Rightarrow> cursor_names_expected_lsn p replayed (wal_file_len dk))"


section \<open>A follower that meets a commit\<close>

definition follower_disk :: "bytes option \<Rightarrow> disk" where
  "follower_disk wal = \<lparr> dk_flags = MULTIPROCESS_COORDINATION_FLAG, dk_checkpoint_lsn = 4, dk_catalog = Inr sample_read_catalog,
     dk_store = re_store sample_env, dk_wal = wal \<rparr>"

lemma follower_disk_simps [simp]:
  "dk_flags (follower_disk wal) = MULTIPROCESS_COORDINATION_FLAG" "dk_checkpoint_lsn (follower_disk wal) = 4"
  "dk_catalog (follower_disk wal) = Inr sample_read_catalog" "dk_store (follower_disk wal) = re_store sample_env"
  "dk_wal (follower_disk wal) = wal"
  by (simp_all add: follower_disk_def)

definition follower_start :: follower_progress where
  "follower_start = \<lparr> fp_last_seen_checkpoint_lsn = 4, fp_last_seen_commit_lsn = 4, fp_wal_cursor = 0 \<rparr>"

abbreviation follower_records :: "wal_record list" where
  "follower_records \<equiv> [(5, [1]), (6, [3])]"

abbreviation follower_log :: bytes where
  "follower_log \<equiv> log_file byte_sum byte_sum_append follower_records"

lemma follower_flag: "require_multiprocess_flag (follower_disk wal) = Inr ()"
  by (simp add: require_multiprocess_flag_def MULTIPROCESS_COORDINATION_FLAG_def)

lemma follower_logs:
  "disk_log byte_sum byte_sum_append (follower_disk None) []"
  "disk_log byte_sum byte_sum_append (follower_disk (Some follower_log)) follower_records"
  by (auto simp: disk_log_def parse_record_def read_next_def WAL_HEADER_LEN_def Let_def)

lemma follower_opened:
  "open_follower sample_json byte_sum byte_sum_append (follower_disk None) (budget_new 4096) =
    (Inr (recovered_state (sample_start MULTIPROCESS_COORDINATION_FLAG), follower_start, budget_new 4096), budget_new 4096)"
  by (simp add: open_follower_def follower_flag replay_wal_from_def group_transactions_def groups_after_def
      recover_published_state_def sample_from_checkpoint recover_from_def follower_start_def)
    (simp add: recovered_state_def sample_start_def)

lemma follower_replayed:
  "replay_wal_from sample_json byte_sum byte_sum_append (Some follower_log) 0 =
    Inr \<lparr> rw_groups = [sample_group], rw_first_lsn = Some 5, rw_committed_offset = 34, rw_intact_offset = 34 \<rparr>"
proof -
  have "group_transactions sample_json follower_records 0 = Inr [sample_group]"
    by (simp add: group_transactions_def decode_payload_def sample_json_def discriminator_keys_def sample_group_def
        decode_arm_defs ensure_ascending_commit_lsn_def finish_group_def validate_record_order_def
        order_start_def advance_phase_def stamped_group_def)
  moreover have "commit_lsn sample_group = 6" by code_simp
  moreover have "offset_after_lsn 0 follower_records 6 = Inr 34" by (simp add: WAL_HEADER_LEN_def checked_add_usize_def)
  ultimately show ?thesis
    using replay_wal_start [OF follower_logs(2), of sample_json] by (simp del: offset_after_lsn.simps)
qed

lemma follower_refreshed:
  "\<exists>st p b. refresh_follower sample_json byte_sum byte_sum_append (follower_disk (Some follower_log))
      (recovered_state (sample_start MULTIPROCESS_COORDINATION_FLAG), follower_start, budget_new 4096) = (Inr True, st, p, b)"
proof -
  let ?flags = MULTIPROCESS_COORDINATION_FLAG
  have "from_published (re_store sample_env) ?flags (recovered_state (sample_start ?flags)) = Inr (sample_start ?flags)"
    using sample_from_checkpoint [of ?flags]
    by (auto simp: from_checkpoint_def from_published_def rbind_eq_Inr commit_links_oldest_first_def recovered_state_def sample_start_def)
  then have "extend_published_state (re_store sample_env) ?flags (recovered_state (sample_start ?flags)) [sample_group] (budget_new 4096) =
      (Inr (recovered_state (sample_recovered ?flags)), (budget_new 4096)\<lparr> mb_charged := 482 \<rparr>)"
    by (simp only: extend_published_state_def recover_from_def sample_applied sum.case prod.case)
  moreover have "ps_last_commit_lsn (recovered_state (sample_recovered ?flags)) = 6"
    by (simp add: recovered_state_def sample_recovered_def)
  ultimately show ?thesis
    using follower_flag [of "Some follower_log"] follower_replayed
    by (simp add: refresh_follower_def follower_start_def wal_file_len_def cursor_names_expected_lsn_def
        checked_add_word_def extend_follower_def del: log_file_simps)
qed


end
