(* ===== verification/Opening.thy ===== *)
theory Opening
  imports Follower
begin

text \<open>
  Opening a database for writing: what the open reads is what an inspection of the same files shows,
  what it trims and heals loses no commit, and opening again gives the same state and touches nothing.
\<close>

section \<open>The log an open leaves\<close>

lemma rposition_Some:
  assumes "rposition P xs = Some i"
  shows "i < length xs" "P (xs ! i)" "list_all (\<lambda>x. \<not> P x) (drop (Suc i) xs)"
proof -
  from assms obtain j where j: "position P (rev xs) = Some j" "i = length xs - Suc j" by (auto simp: rposition_def)
  from j(1) have jl: "j < length xs" "P (rev xs ! j)" "\<forall>k < j. \<not> P (rev xs ! k)" by (auto simp: position_eq_Some)
  with j(2) show "i < length xs" "P (xs ! i)" by (simp_all add: rev_nth)
  have "\<not> P (drop (Suc i) xs ! k)" if "k < length xs - Suc i" for k
  proof -
    from that jl(1) j(2) have "drop (Suc i) xs ! k = rev xs ! (length xs - Suc (Suc i + k))" "length xs - Suc (Suc i + k) < j"
      by (auto simp: rev_nth intro: arg_cong [of _ _ "(!) xs"])
    with jl(3) show ?thesis by simp
  qed
  then show "list_all (\<lambda>x. \<not> P x) (drop (Suc i) xs)" by (simp add: list_all_length)
qed

lemma rposition_None: "rposition P xs = None \<longleftrightarrow> list_all (\<lambda>x. \<not> P x) xs"
proof -
  have "position P ys = None \<longleftrightarrow> list_all (\<lambda>x. \<not> P x) ys" for ys by (induction ys) auto
  then show ?thesis by (auto simp: rposition_def list_all_iff)
qed

lemma prefix_len_log:
  "prefix_len records = Inr n \<Longrightarrow> n = length (log_file crc32c crc32c_append records)"
proof -
  define step where "step = (\<lambda>(_ :: u64, bs :: bytes) count. ok_or (InvalidArgument ''WAL prefix length exceeds u64::MAX'')
      (Option.bind (checked_add_usize count WAL_HEADER_LEN) (\<lambda>value. checked_add_usize value (length bs))))"
  have one: "step r k = Inr m \<Longrightarrow> m = k + 16 + length (snd r)" for r k m
    by (cases r) (auto simp: step_def WAL_HEADER_LEN_def checked_add_usize_def split: if_splits)
  have "rfold step records k = Inr n \<Longrightarrow> n = k + length (log_file crc32c crc32c_append records)" for k
    by (induction records arbitrary: k) (fastforce simp: rbind_eq_Inr dest!: one)+
  from this [of 0] show "prefix_len records = Inr n \<Longrightarrow> n = length (log_file crc32c crc32c_append records)"
    by (simp add: prefix_len_def step_def)
qed

text \<open>Trimming keeps the records up to the last commit.\<close>

lemma trim_keeps_commits:
  assumes "trim_unterminated_tail js io records (log_file crc32c crc32c_append records) = (Inr u, bs)"
  obtains kept rest where "records = kept @ rest" "bs = log_file crc32c crc32c_append kept" "settled js kept"
    "list_all (\<lambda>r. \<not> decodes_commit js r) rest"
proof (cases "rposition (decodes_commit js) records")
  case None
  then have none: "list_all (\<lambda>r. \<not> decodes_commit js r) records" by (simp add: rposition_None)
  show ?thesis
    using that [of "[]" records] none None assms by (cases "records = []") (simp_all add: trim_unterminated_tail_def settled_def)
next
  case (Some i)
  note pos = rposition_Some [OF Some]
  let ?kept = "take (Suc i) records" and ?rest = "drop (Suc i) records"
  have "settled js ?kept" using pos(1,2) by (auto simp: settled_def take_Suc_conv_app_nth)
  moreover have "bs = log_file crc32c crc32c_append ?kept"
  proof (cases "Suc i = length records")
    case True
    with assms Some show ?thesis by (simp add: trim_unterminated_tail_def)
  next
    case False
    with assms Some obtain n where n: "prefix_len ?kept = Inr n" "bs = set_len (log_file crc32c crc32c_append records) n"
      by (auto simp: trim_unterminated_tail_def split: sum.splits)
    have "log_file crc32c crc32c_append records = log_file crc32c crc32c_append ?kept @ log_file crc32c crc32c_append ?rest"
      by (simp flip: log_file_simps(3))
    with n prefix_len_log [OF n(1), of crc32c crc32c_append] show ?thesis by (simp add: set_len_log)
  qed
  ultimately show ?thesis using that [of ?kept ?rest] pos(3) by simp
qed

lemma trim_settled:
  assumes "settled js records"
  shows "trim_unterminated_tail js io records bs = (Inr (), bs)"
proof (cases "records = []")
  case False
  then have "position (decodes_commit js) (rev records) = Some 0"
    using assms by (cases records rule: rev_cases) (simp_all add: settled_def position_eq_Some)
  with False show ?thesis by (simp add: trim_unterminated_tail_def rposition_def Suc_leI)
qed (simp add: trim_unterminated_tail_def rposition_def)

section \<open>The groups an open reads\<close>

lemma group_transactions_kept:
  assumes "settled js kept" "log_ok None (kept @ rest)" "list_all (\<lambda>r. \<not> decodes_commit js r) rest"
    and "group_transactions js (kept @ rest) ck = Inr groups"
  shows "group_transactions js kept ck = Inr groups"
  using group_transactions_split [OF assms(1,2), of ck] assms(4) group_loop_no_commit [OF assms(3)]
  by (fastforce simp: rbind_eq_Inr group_transactions_def)

lemma finish_group_after:
  assumes "finish_group [] pending lsn n 0 = Inr (gs, p)"
  shows "finish_group [] pending lsn n ck = Inr (groups_after gs ck, p)"
  using assms by (auto simp: finish_group_def groups_after_def rbind_eq_Inr split: if_splits)

lemma group_loop_after:
  "group_loop js 0 records pending [] previous = Inr gs \<Longrightarrow>
    group_loop js ck records pending [] previous = Inr (groups_after gs ck)"
proof (induction records arbitrary: pending previous gs)
  case (Cons entry records)
  obtain lsn bs where entry: "entry = (lsn, bs)" by fastforce
  from Cons.prems obtain x where x: "decode_payload js bs = Inr x" by (auto simp: entry rbind_eq_Inr map_err_eq_Inr)
  show ?case
  proof (cases x)
    case (Commit n)
    with Cons.prems x obtain g p where fin: "finish_group [] pending lsn n 0 = Inr (g, p)"
      "ensure_ascending_commit_lsn previous lsn = Inr ()" "group_loop js 0 records p g (Some lsn) = Inr gs"
      by (auto simp: entry rbind_eq_Inr)
    then obtain g' where g': "group_loop js 0 records p [] (Some lsn) = Inr g'" "gs = g @ g'"
      by (auto simp: group_loop_append_groups [of js 0 records p g] rbind_eq_Inr)
    from Cons.IH [OF g'(1)] have "group_loop js ck records p (groups_after g ck) (Some lsn) = Inr (groups_after gs ck)"
      unfolding group_loop_append_groups [of js ck records p "groups_after g ck"] by (simp add: groups_after_def g'(2))
    with fin finish_group_after [OF fin(1), of ck] x Commit show ?thesis by (simp add: entry)
  qed (use Cons x in \<open>simp_all add: entry\<close>)
qed (simp add: groups_after_def)

lemma group_transactions_after:
  "group_transactions js records 0 = Inr gs \<Longrightarrow> group_transactions js records ck = Inr (groups_after gs ck)"
  unfolding group_transactions_def by (rule group_loop_after)

section \<open>Opening again\<close>

lemma recovered_chain_None:
  assumes "recover_published_state store flags cat groups ck b = (Inr st, b')" "ps_chain st = None"
  shows "groups = []"
proof -
  from assms(1) obtain rs rs' where "from_checkpoint store flags cat ck = Inr rs" "apply_groups groups (rs, b) = (Inr rs', b')"
    and st: "st = recovered_state rs'"
    by (auto simp: recover_published_state_def recover_from_def split: sum.splits prod.splits)
  from apply_groups_rebuilt [OF this(2)] this(1) obtain ds where "list_all2 (\<lambda>g d. from_committed_group g = Inr d) groups ds"
    "chain_deltas (rs_chain rs') = zip (map commit_lsn groups) ds"
    by (auto simp: rebuilt_def from_checkpoint_def rbind_eq_Inr chain_deltas_def commit_links_oldest_first_def)
  with assms(2) st show ?thesis
    by (cases groups; cases ds) (auto simp: recovered_state_def chain_deltas_def commit_links_oldest_first_def)
qed

lemma recover_nothing_flags:
  "recover_published_state store flags cat [] ck b = (Inr st, b') \<Longrightarrow> recover_published_state store flags' cat [] ck b = (Inr st, b')"
  by (cases "checkpointed_node_totals store cat")
    (simp_all add: recover_published_state_def recover_from_def from_checkpoint_def recovered_state_def)

abbreviation wal_bytes :: "disk \<Rightarrow> bytes" where
  "wal_bytes dk \<equiv> case dk_wal dk of None \<Rightarrow> [] | Some bs \<Rightarrow> bs"

text \<open>What a successful open has done.\<close>

lemma case_result_Inr:
  "(case r of (Inl e, _) \<Rightarrow> Inl e | (Inr x, y) \<Rightarrow> Inr (x, y)) = Inr z \<longleftrightarrow> r = (Inr (fst z), snd z)"
  "(case t of (Inl e, _) \<Rightarrow> Inl e | (Inr _, x) \<Rightarrow> f x) = Inr y \<longleftrightarrow> (\<exists>x. t = (Inr (), x) \<and> f x = Inr y)"
  "(case u of (Inl e, _) \<Rightarrow> Inl e | (Inr _, x, y) \<Rightarrow> g x y) = Inr v \<longleftrightarrow> (\<exists>x y. u = (Inr (), x, y) \<and> g x y = Inr v)"
  by (auto split: prod.splits sum.splits)

lemma open_with_read:
  assumes "open_with js crc32c crc32c_append io dk b = Inr (st, w, flags, b')"
  obtains cat groups where "dk_catalog dk = Inr cat"
    "group_transactions js (replay crc32c crc32c_append (wal_bytes dk)) (dk_checkpoint_lsn dk) = Inr groups"
    "recover_published_state (dk_store dk) (dk_flags dk) cat groups (dk_checkpoint_lsn dk) b = (Inr st, b')"
    "dk_read_only dk \<Longrightarrow> w = None \<and> flags = dk_flags dk"
  using assms unfolding open_with_def Let_def wal_open_replay
  by (cases "dk_read_only dk") (auto simp: rbind_eq_Inr case_result_Inr)

lemma open_with_writable:
  assumes "open_with js crc32c crc32c_append io dk b = Inr (st, w, flags, b')" "\<not> dk_read_only dk"
  obtains trimmed healed where "checked_add_word (dk_checkpoint_lsn dk) 1 = Some (dk_checkpoint_lsn dk + 1)"
    "trim_unterminated_tail js io (replay crc32c crc32c_append (wal_bytes dk))
      (log_file crc32c crc32c_append (replay crc32c crc32c_append (wal_bytes dk))) = (Inr (), trimmed)"
    "heal_empty_wal_flags io (ps_chain st \<noteq> None) (dk_flags dk, trimmed) = (Inr (), flags, healed)"
    "w = Some (wal_open crc32c crc32c_append healed (dk_checkpoint_lsn dk + 1))"
proof -
  have lsn: "ok_or e (checked_add_word (dk_checkpoint_lsn dk) 1) = Inr lsn \<Longrightarrow>
      checked_add_word (dk_checkpoint_lsn dk) 1 = Some (dk_checkpoint_lsn dk + 1) \<and> lsn = dk_checkpoint_lsn dk + 1" for e lsn
    by (auto simp: checked_add_word_def split: if_splits)
  from assms that show ?thesis
    unfolding open_with_def Let_def wal_open_replay unfolding wal_open_file
    by (auto simp: rbind_eq_Inr case_result_Inr dest!: lsn)
qed

lemma open_groups:
  assumes "open_with js crc32c crc32c_append io dk b = Inr (st, Some w, flags, b')"
  obtains cat groups kept where "dk_catalog dk = Inr cat" "\<not> dk_read_only dk" "settled js kept" "log_ok None kept"
    "w = wal_open crc32c crc32c_append (log_file crc32c crc32c_append kept) (dk_checkpoint_lsn dk + 1)"
    "checked_add_word (dk_checkpoint_lsn dk) 1 = Some (dk_checkpoint_lsn dk + 1)"
    "\<exists>rest. replay crc32c crc32c_append (wal_bytes dk) = kept @ rest \<and>
      (list_all (\<lambda>r. \<not> decodes_commit js r) rest \<or> ps_chain st = None)"
    "group_transactions js kept (dk_checkpoint_lsn dk) = Inr groups"
    "recover_published_state (dk_store dk) flags cat groups (dk_checkpoint_lsn dk) b = (Inr st, b')"
    "flags = dk_flags dk \<or> flags = dk_flags dk AND NOT (DML_WAL_FLAG OR REL_TOMBSTONE_WAL_FLAG OR HNSW_MUTATION_WAL_FLAG)"
    "flags AND (DML_WAL_FLAG OR REL_TOMBSTONE_WAL_FLAG OR HNSW_MUTATION_WAL_FLAG) = 0 \<or> ps_chain st \<noteq> None"
proof -
  let ?recs = "replay crc32c crc32c_append (wal_bytes dk)" and ?ck = "dk_checkpoint_lsn dk"
  let ?scoped = "DML_WAL_FLAG OR REL_TOMBSTONE_WAL_FLAG OR HNSW_MUTATION_WAL_FLAG"
  from assms obtain cat groups where o: "dk_catalog dk = Inr cat" "group_transactions js ?recs ?ck = Inr groups"
    "recover_published_state (dk_store dk) (dk_flags dk) cat groups ?ck b = (Inr st, b')" "\<not> dk_read_only dk"
    by (rule open_with_read) auto
  from assms o(4) obtain trimmed healed where t: "checked_add_word ?ck 1 = Some (?ck + 1)"
    "trim_unterminated_tail js io ?recs (log_file crc32c crc32c_append ?recs) = (Inr (), trimmed)"
    "heal_empty_wal_flags io (ps_chain st \<noteq> None) (dk_flags dk, trimmed) = (Inr (), flags, healed)"
    "Some w = Some (wal_open crc32c crc32c_append healed (?ck + 1))"
    by (rule open_with_writable)
  have ok: "log_ok None ?recs" by (rule replay_split)
  from t(2) obtain kept rest where kept: "?recs = kept @ rest" "trimmed = log_file crc32c crc32c_append kept" "settled js kept"
    "list_all (\<lambda>r. \<not> decodes_commit js r) rest" by (rule trim_keeps_commits)
  have okk: "log_ok None kept" using ok kept(1) by (simp add: log_ok_append)
  have groups: "group_transactions js kept ?ck = Inr groups"
    using group_transactions_kept [OF kept(3) _ kept(4)] ok o(2) kept(1) by simp
  show ?thesis
  proof (cases "dk_flags dk AND ?scoped = 0 \<or> ps_chain st \<noteq> None")
    case True
    with t(3) have "flags = dk_flags dk" "healed = trimmed" by (auto simp: heal_empty_wal_flags_def)
    with that [of cat kept groups] o t kept okk groups True show ?thesis by auto
  next
    case False
    with t(3) have healed: "flags = dk_flags dk AND NOT ?scoped" "healed = []" by (auto simp: heal_empty_wal_flags_def split: sum.splits)
    from False recovered_chain_None [OF o(3)] have "groups = []" by simp
    with recover_nothing_flags [of "dk_store dk" "dk_flags dk" cat ?ck b st b' flags] o(3)
    have "recover_published_state (dk_store dk) flags cat [] ?ck b = (Inr st, b')" by simp
    moreover have "(f AND NOT s) AND s = 0" for f s :: u64 by (simp add: and.assoc)
    then have "flags AND ?scoped = 0" unfolding healed(1) .
    ultimately show ?thesis
      using that [of cat "[]" "[]"] o(1,4) t(1,4) healed False by (simp add: settled_def group_transactions_def)
  qed
qed

lemma inspected_groups:
  assumes "replay_wal_from js crc32c crc32c_append (dk_wal dk) 0 = Inr r"
  shows "group_transactions js (replay crc32c crc32c_append (wal_bytes dk)) 0 = Inr (rw_groups r)"
proof (cases "dk_wal dk")
  case None
  with assms wal_open_empty [of crc32c crc32c_append 0] wal_open_replay [of crc32c crc32c_append "[]" 0] show ?thesis
    by (auto simp: replay_wal_from_def group_transactions_def replay_log_file [of "[]", simplified])
next
  case (Some bs)
  with assms show ?thesis by (auto simp: replay_wal_from_def replay_from_def replay_def from_file_def rbind_eq_Inr case_prod_beta split: if_splits)
qed

lemma open_inspect_same:
  assumes "open_with js crc32c crc32c_append io dk b = Inr (st, w, flags, b')"
    and "open_inspect_with js crc32c crc32c_append dk b = (Inr st2, b2)"
  shows "st2 = st \<and> b2 = b'"
proof -
  from assms(2) obtain cat r where i: "dk_catalog dk = Inr cat" "replay_wal_from js crc32c crc32c_append (dk_wal dk) 0 = Inr r"
    "recover_published_state (dk_store dk) (dk_flags dk) cat (groups_after (rw_groups r) (dk_checkpoint_lsn dk)) (dk_checkpoint_lsn dk) b = (Inr st2, b2)"
    by (auto simp: open_inspect_with_def rbind_eq_Inr split: sum.splits)
  from assms(1) show ?thesis
    by (rule open_with_read) (use i(1,3) group_transactions_after [OF inspected_groups [OF i(2)]] in auto)
qed

lemma healed_writable:
  assumes "flags' = flags \<or> flags' = flags AND NOT scoped" "\<not> dk_read_only (dk\<lparr> dk_flags := flags \<rparr>)"
  shows "\<not> dk_read_only (dk\<lparr> dk_flags := flags' \<rparr>)"
proof -
  have "(flags AND NOT scoped) AND READ_SAFE_FLAG_MASK AND NOT SUPPORTED_FLAG_MASK =
      (flags AND READ_SAFE_FLAG_MASK AND NOT SUPPORTED_FLAG_MASK) AND NOT scoped" by (simp add: ac_simps)
  with assms show ?thesis by (auto simp: dk_read_only_def)
qed

text \<open>
  C5. Opening for writing loses no commit and is done once: the log it leaves is intact, ends with a
  commit and lacks at most records no commit follows, or is empty when no commit is newer than the
  checkpoint; opening the files again, whatever happens to further file operations, publishes the same
  state with the same writer, flags and charge. The state is the one an inspection of the files shows
  that does not touch them, and a read-only open leaves the flags as they are.
\<close>

theorem open_is_stable:
  assumes "open_with js crc32c crc32c_append io dk b = Inr (st, writer, flags, b')"
  shows "(\<forall>st2 b2. open_inspect_with js crc32c crc32c_append dk b = (Inr st2, b2) \<longrightarrow> st2 = st \<and> b2 = b') \<and>
    (case writer of
       None \<Rightarrow> flags = dk_flags dk
     | Some w \<Rightarrow>
         wr_file w = log_file crc32c crc32c_append (replay crc32c crc32c_append (wr_file w)) \<and>
         settled js (replay crc32c crc32c_append (wr_file w)) \<and>
         (\<exists>rest. replay crc32c crc32c_append (wal_bytes dk) = replay crc32c crc32c_append (wr_file w) @ rest \<and>
           (list_all (\<lambda>r. \<not> decodes_commit js r) rest \<or> ps_chain st = None)) \<and>
         (\<forall>io. open_with js crc32c crc32c_append io (dk\<lparr> dk_wal := Some (wr_file w), dk_flags := flags \<rparr>) b =
           Inr (st, Some w, flags, b')))"
proof (cases writer)
  case None
  with assms open_inspect_same [OF assms] show ?thesis by (cases "dk_read_only dk") (auto elim: open_with_read open_with_writable)
next
  case (Some w)
  from assms [unfolded Some] obtain cat groups kept where o: "dk_catalog dk = Inr cat" "\<not> dk_read_only dk" "settled js kept" "log_ok None kept"
    "w = wal_open crc32c crc32c_append (log_file crc32c crc32c_append kept) (dk_checkpoint_lsn dk + 1)"
    "checked_add_word (dk_checkpoint_lsn dk) 1 = Some (dk_checkpoint_lsn dk + 1)"
    "\<exists>rest. replay crc32c crc32c_append (wal_bytes dk) = kept @ rest \<and> (list_all (\<lambda>r. \<not> decodes_commit js r) rest \<or> ps_chain st = None)"
    "group_transactions js kept (dk_checkpoint_lsn dk) = Inr groups"
    "recover_published_state (dk_store dk) flags cat groups (dk_checkpoint_lsn dk) b = (Inr st, b')"
    "flags = dk_flags dk \<or> flags = dk_flags dk AND NOT (DML_WAL_FLAG OR REL_TOMBSTONE_WAL_FLAG OR HNSW_MUTATION_WAL_FLAG)"
    "flags AND (DML_WAL_FLAG OR REL_TOMBSTONE_WAL_FLAG OR HNSW_MUTATION_WAL_FLAG) = 0 \<or> ps_chain st \<noteq> None"
    by (rule open_groups)
  have "wr_file w = log_file crc32c crc32c_append kept"
    unfolding o(5) wal_open_file by (simp add: replay_log_file [OF o(4)])
  moreover note replay_log_file [OF o(4), of crc32c crc32c_append]
  ultimately have w: "wr_file w = log_file crc32c crc32c_append kept" "replay crc32c crc32c_append (wr_file w) = kept"
    "wr_file (wal_open crc32c crc32c_append (log_file crc32c crc32c_append kept) lsn) = log_file crc32c crc32c_append kept" for lsn
    by (simp_all add: wal_open_file)
  have rw: "\<not> dk_read_only (dk\<lparr> dk_wal := Some (wr_file w), dk_flags := flags \<rparr>)"
    using healed_writable [OF o(10), of dk] o(2) by (simp add: dk_read_only_def)
  have heal: "heal_empty_wal_flags io (ps_chain st \<noteq> None) (flags, bs) = (Inr (), flags, bs)" for io bs
    using o(11) by (auto simp: heal_empty_wal_flags_def Let_def)
  have "open_with js crc32c crc32c_append io (dk\<lparr> dk_wal := Some (wr_file w), dk_flags := flags \<rparr>) b = Inr (st, Some w, flags, b')" for io
    using rw o(1,6,8,9) trim_settled [OF o(3), of io] heal [of io] w o(5) unfolding open_with_def by simp
  with open_inspect_same [OF assms] o(3,7) w show ?thesis by (simp add: Some)
qed

section \<open>An open after a crash\<close>

text \<open>A log with a committed delete and the first record of a transaction that never committed.\<close>

abbreviation crashed_records :: "wal_record list" where
  "crashed_records \<equiv> follower_records @ [(7, [1])]"

lemma crashed_opened:
  "open_with sample_json byte_sum byte_sum_append (Inr ())
      (follower_disk (Some (log_file byte_sum byte_sum_append crashed_records))) (budget_new 4096) =
    Inr (recovered_state (sample_recovered MULTIPROCESS_COORDINATION_FLAG),
      Some (wal_open byte_sum byte_sum_append follower_log 5), MULTIPROCESS_COORDINATION_FLAG, (budget_new 4096)\<lparr> mb_charged := 482 \<rparr>)"
proof -
  let ?flags = MULTIPROCESS_COORDINATION_FLAG and ?log = "log_file byte_sum byte_sum_append crashed_records"
  have ok: "log_ok None crashed_records" by simp
  note log = replay_log_file [OF ok, of byte_sum byte_sum_append]
  have groups: "group_transactions sample_json crashed_records 4 = Inr [sample_group]"
    by (simp add: group_transactions_def decode_payload_def sample_json_def discriminator_keys_def sample_group_def
        decode_arm_defs ensure_ascending_commit_lsn_def finish_group_def validate_record_order_def
        order_start_def advance_phase_def stamped_group_def)
  have recovered: "recover_published_state (re_store sample_env) ?flags sample_read_catalog [sample_group] 4 (budget_new 4096) =
      (Inr (recovered_state (sample_recovered ?flags)), (budget_new 4096)\<lparr> mb_charged := 482 \<rparr>)"
    by (simp only: recover_published_state_def recover_from_def sample_from_checkpoint sample_applied sum.case prod.case)
  have "rposition (decodes_commit sample_json) crashed_records = Some 1"
    by (simp add: rposition_def decodes_commit_def decode_payload_def sample_json_def discriminator_keys_def decode_arm_defs)
  moreover have "prefix_len (take 2 crashed_records) = Inr 34" by (simp add: prefix_len_def WAL_HEADER_LEN_def checked_add_usize_def)
  moreover have "set_len ?log 34 = follower_log" by (simp add: set_len_def)
  ultimately have trim: "trim_unterminated_tail sample_json (Inr ()) crashed_records ?log = (Inr (), follower_log)"
    by (simp add: trim_unterminated_tail_def numeral_2_eq_2 del: log_file_simps)
  have heal: "heal_empty_wal_flags (Inr ()) live (?flags, bs) = (Inr (), ?flags, bs)" for live bs
    by (simp add: heal_empty_wal_flags_def MULTIPROCESS_COORDINATION_FLAG_def DML_WAL_FLAG_def REL_TOMBSTONE_WAL_FLAG_def HNSW_MUTATION_WAL_FLAG_def)
  have "\<not> dk_read_only (follower_disk (Some ?log))" by (simp add: dk_read_only_def) code_simp
  moreover have "wr_file (wal_open byte_sum byte_sum_append ?log 5) = ?log" by (simp only: wal_open_file log)
  ultimately show ?thesis
    using log groups recovered trim heal by (simp add: open_with_def checked_add_word_def del: log_file_simps append.simps)
qed

theorem open_is_stable_witness:
  "\<exists>st w b. open_with sample_json byte_sum byte_sum_append (Inr ())
      (follower_disk (Some (log_file byte_sum byte_sum_append crashed_records))) (budget_new 4096) =
      Inr (st, Some w, MULTIPROCESS_COORDINATION_FLAG, b) \<and> settled sample_json (replay byte_sum byte_sum_append (wr_file w)) \<and>
    open_with sample_json byte_sum byte_sum_append (Inl (Io ''read-only file system'')) (follower_disk (Some (wr_file w))) (budget_new 4096) =
      Inr (st, Some w, MULTIPROCESS_COORDINATION_FLAG, b)"
  using open_is_stable [OF crashed_opened] crashed_opened by (auto simp: follower_disk_def)

end
