(* ===== verification/PageCache.thy ===== *)
theory PageCache
  imports Budget BTree Wal Schema
begin

text \<open>
  The page cache of the pager (\<^verbatim>\<open>devondb-storage/src/pager.rs\<close>): frames charged to the shared budget,
  eviction by a clock with a second chance, pins held by page references, reads through the cache,
  write-through writes and the shedding of frames under memory pressure. A page reference is the
  allocation it points to and the bytes; a frame is pinned while a reference to its allocation is
  alive. \<open>None\<close> is a panic: an index out of the clock.
\<close>

definition FRAME_OVERHEAD :: nat where "FRAME_OVERHEAD = 64"
definition MIN_CACHE_FRAMES :: nat where "MIN_CACHE_FRAMES = 8"
definition SUPERBLOCK_SLOTS :: u64 where "SUPERBLOCK_SLOTS = 2"

type_synonym page_ref = "nat \<times> bytes"

record cache_frame =
  fr_data :: page_ref
  fr_referenced :: bool

record frame_table =
  ft_frames :: "(u64, cache_frame) btree"
  ft_clock :: "u64 list"
  ft_hand :: nat

definition frame_table_default :: frame_table where
  "frame_table_default = \<lparr> ft_frames = [], ft_clock = [], ft_hand = 0 \<rparr>"

section \<open>The clock\<close>

text \<open>\<open>frames.get_mut(page_id)\<close> followed by an assignment to the flag.\<close>

definition set_referenced :: "u64 \<Rightarrow> bool \<Rightarrow> frame_table \<Rightarrow> frame_table" where
  "set_referenced page_id flag t =
    t\<lparr> ft_frames := map (\<lambda>(k, f). (k, if k = page_id then f\<lparr> fr_referenced := flag \<rparr> else f)) (ft_frames t) \<rparr>"

definition ft_get :: "u64 \<Rightarrow> frame_table \<Rightarrow> page_ref option \<times> frame_table" where
  "ft_get page_id t =
    (case bt_get (ft_frames t) page_id of
       None \<Rightarrow> (None, t)
     | Some f \<Rightarrow> (Some (fr_data f), set_referenced page_id True t))"

definition ft_insert :: "u64 \<Rightarrow> page_ref \<Rightarrow> frame_table \<Rightarrow> frame_table" where
  "ft_insert page_id data t =
    t\<lparr> ft_frames := bt_insert page_id \<lparr> fr_data = data, fr_referenced = True \<rparr> (ft_frames t), ft_clock := ft_clock t @ [page_id] \<rparr>"

definition adjust_hand_after_remove :: "nat \<Rightarrow> frame_table \<Rightarrow> frame_table" where
  "adjust_hand_after_remove at t =
    (if ft_clock t = [] then t\<lparr> ft_hand := 0 \<rparr>
     else if at < ft_hand t then t\<lparr> ft_hand := ft_hand t - 1 \<rparr>
     else if ft_hand t = length (ft_clock t) then t\<lparr> ft_hand := 0 \<rparr>
     else t)"

definition clock_remove :: "nat \<Rightarrow> frame_table \<Rightarrow> frame_table" where
  "clock_remove at t = adjust_hand_after_remove at (t\<lparr> ft_clock := take at (ft_clock t) @ drop (Suc at) (ft_clock t) \<rparr>)"

definition ft_remove :: "u64 \<Rightarrow> frame_table \<Rightarrow> bool \<times> frame_table" where
  "ft_remove page_id t =
    (case bt_get (ft_frames t) page_id of
       None \<Rightarrow> (False, t)
     | Some _ \<Rightarrow>
         let t = t\<lparr> ft_frames := bt_remove page_id (ft_frames t) \<rparr>
         in (True, (case position (\<lambda>candidate. candidate = page_id) (ft_clock t) of
              None \<Rightarrow> t
            | Some at \<Rightarrow> clock_remove at t)))"

definition advance_hand :: "frame_table \<Rightarrow> frame_table" where
  "advance_hand t = t\<lparr> ft_hand := (ft_hand t + 1) mod length (ft_clock t) \<rparr>"

fun evict_visits :: "(nat \<Rightarrow> bool) \<Rightarrow> nat \<Rightarrow> frame_table \<Rightarrow> (bool \<times> frame_table) option" where
  "evict_visits pinned 0 t = Some (False, t)"
| "evict_visits pinned (Suc visits) t =
    (if \<not> ft_hand t < length (ft_clock t) then None
     else
       (let page_id = ft_clock t ! ft_hand t
        in case bt_get (ft_frames t) page_id of
             None \<Rightarrow> evict_visits pinned visits (clock_remove (ft_hand t) t)
           | Some f \<Rightarrow>
               if fr_referenced f then evict_visits pinned visits (advance_hand (set_referenced page_id False t))
               else if \<not> pinned (fst (fr_data f)) then Some (ft_remove page_id t)
               else evict_visits pinned visits (advance_hand t)))"

definition evict_one :: "(nat \<Rightarrow> bool) \<Rightarrow> frame_table \<Rightarrow> (bool \<times> frame_table) option" where
  "evict_one pinned t =
    (if length (ft_frames t) < MIN_CACHE_FRAMES then Some (False, t)
     else evict_visits pinned (min (length (ft_clock t) * 2) (2 ^ 64 - 1)) t)"

lemma length_bt_remove: "bt_get m k = Some v \<Longrightarrow> Suc (length (bt_remove k m)) = length m"
  by (induction m) (auto split: if_splits)

lemma adjust_hand_simps [simp]:
  "ft_frames (adjust_hand_after_remove at t) = ft_frames t" "ft_clock (adjust_hand_after_remove at t) = ft_clock t"
  by (simp_all add: adjust_hand_after_remove_def)

lemma clock_remove_simps [simp]:
  "ft_frames (clock_remove at t) = ft_frames t"
  "ft_clock (clock_remove at t) = take at (ft_clock t) @ drop (Suc at) (ft_clock t)"
  by (simp_all add: clock_remove_def)

lemma set_referenced_simps [simp]:
  "length (ft_frames (set_referenced page_id flag t)) = length (ft_frames t)"
  "ft_clock (set_referenced page_id flag t) = ft_clock t" "ft_hand (set_referenced page_id flag t) = ft_hand t"
  by (simp_all add: set_referenced_def)

lemma advance_hand_simps [simp]:
  "ft_frames (advance_hand t) = ft_frames t" "ft_clock (advance_hand t) = ft_clock t"
  by (simp_all add: advance_hand_def)

lemma ft_remove_shrinks: "ft_remove page_id t = (True, t') \<Longrightarrow> Suc (length (ft_frames t')) = length (ft_frames t)"
  by (auto simp: ft_remove_def length_bt_remove Let_def split: option.splits)

lemma evict_shrinks: "evict_one pinned t = Some (True, t') \<Longrightarrow> Suc (length (ft_frames t')) = length (ft_frames t)"
proof -
  have "evict_visits pinned n t = Some (True, t') \<Longrightarrow> Suc (length (ft_frames t')) = length (ft_frames t)" for n
    by (induction pinned n t rule: evict_visits.induct)
      (auto simp: Let_def split: if_splits option.splits dest: ft_remove_shrinks)
  then show "evict_one pinned t = Some (True, t') \<Longrightarrow> Suc (length (ft_frames t')) = length (ft_frames t)"
    by (auto simp: evict_one_def split: if_splits)
qed

section \<open>Charging and shedding\<close>

definition frame_charge :: "nat \<Rightarrow> nat" where
  "frame_charge page_size = page_size + FRAME_OVERHEAD"

text \<open>The \<open>while\<close> loops of the cache; every turn evicts a frame.\<close>

function charge_loop ::
    "(nat \<Rightarrow> bool) \<Rightarrow> nat \<Rightarrow> frame_table \<times> memory_budget \<Rightarrow> (bool \<times> frame_table \<times> memory_budget) option" where
  "charge_loop pinned bytes (t, budget) =
    (case evict_one pinned t of
       None \<Rightarrow> None
     | Some (False, t') \<Rightarrow> Some (False, t', budget)
     | Some (True, t') \<Rightarrow>
         (case try_charge (release budget bytes) bytes of
            (True, budget') \<Rightarrow> Some (True, t', budget')
          | (False, budget') \<Rightarrow> charge_loop pinned bytes (t', budget')))"
  by pat_completeness auto
termination
  by (relation "measure (\<lambda>(_, _, t, _). length (ft_frames t))") (auto dest: evict_shrinks)

definition charge_after_reclaim ::
    "(nat \<Rightarrow> bool) \<Rightarrow> nat \<Rightarrow> frame_table \<times> memory_budget \<Rightarrow> (bool \<times> frame_table \<times> memory_budget) option" where
  "charge_after_reclaim pinned bytes = (\<lambda>(t, budget).
    case try_charge budget bytes of
      (True, budget) \<Rightarrow> Some (True, t, budget)
    | (False, budget) \<Rightarrow> charge_loop pinned bytes (t, budget))"

function shed_loop ::
    "(nat \<Rightarrow> bool) \<Rightarrow> nat \<Rightarrow> nat \<Rightarrow> nat \<Rightarrow> bool \<Rightarrow> frame_table \<times> memory_budget \<Rightarrow> (bool \<times> frame_table \<times> memory_budget) option" where
  "shed_loop pinned charge wanted released evicted (t, budget) =
    (if \<not> released < wanted then Some (evicted, t, budget)
     else
       (case evict_one pinned t of
          None \<Rightarrow> None
        | Some (False, t') \<Rightarrow> Some (evicted, t', budget)
        | Some (True, t') \<Rightarrow>
            shed_loop pinned charge wanted (saturating_add_usize released charge) True (t', release budget charge)))"
  by pat_completeness auto
termination
  by (relation "measure (\<lambda>(_, _, _, _, _, t, _). length (ft_frames t))") (auto dest: evict_shrinks)

declare charge_loop.simps [simp del] shed_loop.simps [simp del]

definition shed ::
    "(nat \<Rightarrow> bool) \<Rightarrow> nat \<Rightarrow> nat \<Rightarrow> frame_table \<times> memory_budget \<Rightarrow> (bool \<times> frame_table \<times> memory_budget) option" where
  "shed pinned charge bytes = shed_loop pinned charge bytes 0 False"

section \<open>Reading and writing pages\<close>

text \<open>The references that are alive are the allocations of \<open>pg_handles\<close>, one entry for each.\<close>

record page_cache =
  pg_file :: bytes
  pg_table :: frame_table
  pg_budget :: memory_budget
  pg_handles :: "nat list"
  pg_next :: nat

definition ensure_data_page :: "u64 \<Rightarrow> unit devon_result" where
  "ensure_data_page page_id =
    (if page_id < SUPERBLOCK_SLOTS then Inl (InvalidArgument ''pages 0 and 1 are reserved for superblocks'') else Inr ())"

definition page_offset :: "u64 \<Rightarrow> nat \<Rightarrow> nat devon_result" where
  "page_offset page_id page_size =
    ok_or (InvalidArgument ''page offset overflows u64'') (checked_mul_usize (unat page_id) page_size)"

definition readable_page_offset :: "nat \<Rightarrow> bytes \<Rightarrow> u64 \<Rightarrow> nat devon_result" where
  "readable_page_offset page_size bs page_id =
    rbind (ensure_data_page page_id) (\<lambda>_.
    rbind (page_offset page_id page_size) (\<lambda>offset.
    rbind (ok_or (InvalidArgument ''page end offset overflows u64'') (checked_add_usize offset page_size)) (\<lambda>end_offset.
    if end_offset > length bs then Inl (InvalidArgument ''page is beyond the end of the database file'') else Inr offset)))"

text \<open>\<open>io\<close> is the outcome of the read itself.\<close>

definition read_page_at :: "nat \<Rightarrow> unit devon_result \<Rightarrow> bytes \<Rightarrow> nat \<Rightarrow> bytes devon_result" where
  "read_page_at page_size io bs offset = rbind io (\<lambda>_. Inr (subslice bs offset (offset + page_size)))"

definition fresh_ref :: "bytes devon_result \<Rightarrow> page_cache \<Rightarrow> page_ref devon_result \<times> page_cache" where
  "fresh_ref page pg =
    (case page of
       Inl e \<Rightarrow> (Inl e, pg)
     | Inr bs \<Rightarrow> (Inr (pg_next pg, bs), pg\<lparr> pg_handles := pg_next pg # pg_handles pg, pg_next := Suc (pg_next pg) \<rparr>))"

abbreviation pinned_by :: "page_cache \<Rightarrow> nat \<Rightarrow> bool" where
  "pinned_by pg \<equiv> (\<lambda>a. a \<in> set (pg_handles pg))"

definition read_page_ref ::
    "nat \<Rightarrow> unit devon_result \<Rightarrow> u64 \<Rightarrow> page_cache \<Rightarrow> (page_ref devon_result \<times> page_cache) option" where
  "read_page_ref page_size io page_id pg =
    (case readable_page_offset page_size (pg_file pg) page_id of
       Inl e \<Rightarrow> Some (Inl e, pg)
     | Inr offset \<Rightarrow>
         (case ft_get page_id (pg_table pg) of
            (Some page, t) \<Rightarrow> Some (Inr page, pg\<lparr> pg_table := t, pg_handles := fst page # pg_handles pg \<rparr>)
          | (None, t) \<Rightarrow>
              (case charge_after_reclaim (pinned_by pg) (frame_charge page_size) (t, pg_budget pg) of
                 None \<Rightarrow> None
               | Some (False, t, budget) \<Rightarrow>
                   Some (fresh_ref (read_page_at page_size io (pg_file pg) offset) (pg\<lparr> pg_table := t, pg_budget := budget \<rparr>))
               | Some (True, t, budget) \<Rightarrow>
                   (case fresh_ref (read_page_at page_size io (pg_file pg) offset) (pg\<lparr> pg_table := t, pg_budget := budget \<rparr>) of
                      (Inl e, pg) \<Rightarrow> Some (Inl e, pg\<lparr> pg_budget := release (pg_budget pg) (frame_charge page_size) \<rparr>)
                    | (Inr page, pg) \<Rightarrow> Some (Inr page, pg\<lparr> pg_table := ft_insert page_id page (pg_table pg) \<rparr>)))))"

definition invalidate :: "nat \<Rightarrow> u64 \<Rightarrow> page_cache \<Rightarrow> page_cache" where
  "invalidate page_size page_id pg =
    (case ft_remove page_id (pg_table pg) of
       (True, t) \<Rightarrow> pg\<lparr> pg_table := t, pg_budget := release (pg_budget pg) (frame_charge page_size) \<rparr>
     | (False, t) \<Rightarrow> pg\<lparr> pg_table := t \<rparr>)"

text \<open>A write that fails may have reached the file with a prefix of the page.\<close>

datatype write_outcome = PageWritten | PageTorn nat devon_error

fun backend_write :: "write_outcome \<Rightarrow> bytes \<Rightarrow> nat \<Rightarrow> bytes \<Rightarrow> unit devon_result \<times> bytes" where
  "backend_write PageWritten bs offset data = (Inr (), write_at bs offset data)"
| "backend_write (PageTorn n e) bs offset data = (Inl e, if n = 0 then bs else write_at bs offset (take n data))"

definition write_page_locked :: "nat \<Rightarrow> write_outcome \<Rightarrow> u64 \<Rightarrow> bytes \<Rightarrow> page_cache \<Rightarrow> unit devon_result \<times> page_cache" where
  "write_page_locked page_size io page_id data pg =
    (case page_offset page_id page_size of
       Inl e \<Rightarrow> (Inl e, pg)
     | Inr offset \<Rightarrow>
         (case backend_write io (pg_file pg) offset data of
            (Inl e, bs) \<Rightarrow> (Inl e, pg\<lparr> pg_file := bs \<rparr>)
          | (Inr _, bs) \<Rightarrow> (Inr (), invalidate page_size page_id (pg\<lparr> pg_file := bs \<rparr>))))"

definition write_page :: "nat \<Rightarrow> write_outcome \<Rightarrow> u64 \<Rightarrow> bytes \<Rightarrow> page_cache \<Rightarrow> unit devon_result \<times> page_cache" where
  "write_page page_size io page_id data pg =
    (case ensure_data_page page_id of
       Inl e \<Rightarrow> (Inl e, pg)
     | Inr _ \<Rightarrow>
         if length data \<noteq> page_size then (Inl (InvalidArgument ''page data length must equal the database page size''), pg)
         else write_page_locked page_size io page_id data pg)"

definition pager_shed_cache :: "nat \<Rightarrow> nat \<Rightarrow> page_cache \<Rightarrow> (bool \<times> page_cache) option" where
  "pager_shed_cache page_size bytes pg =
    map_option (\<lambda>(evicted, t, budget). (evicted, pg\<lparr> pg_table := t, pg_budget := budget \<rparr>))
      (shed (pinned_by pg) (frame_charge page_size) bytes (pg_table pg, pg_budget pg))"

definition drop_page_ref :: "nat \<Rightarrow> page_cache \<Rightarrow> page_cache" where
  "drop_page_ref a pg = pg\<lparr> pg_handles := remove1 a (pg_handles pg) \<rparr>"

end
