(* ===== verification/Pager.thy ===== *)
theory Pager
  imports Superblock FreePages PageCache
begin

text \<open>
  The two superblock slots of the pager (\<^verbatim>\<open>devondb-storage/src/pager.rs\<close>): creating and opening a file,
  arbitrating between its slots, and publishing a superblock or new feature flags. The file is its bytes;
  the outcome of a write and of a synchronization are arguments, and a write that fails may have reached
  the file with a prefix of the page. The count of truncated pages of the free-page state, which only the
  compaction of the file changes, is left out.
\<close>

definition SUPERBLOCK_HEADER_LEN :: nat where "SUPERBLOCK_HEADER_LEN = 64"
definition VALID_PAGE_SIZES :: "u32 list" where "VALID_PAGE_SIZES = [4096, 8192, 16384, 32768, 65536]"

record free_state =
  fs_extension :: "superblock_extension option"
  fs_degraded :: bool
  fs_pending_extension :: "superblock_extension option"
  fs_consumed_in_session :: "(u64, u32) btree"
  fs_reused_in_session :: nat
  fs_deferred_reuse :: "u64 set"
  fs_pending_deferred_reuse :: "u64 list"
  fs_retired_total_floor :: u64

definition free_state_default :: free_state where
  "free_state_default = \<lparr> fs_extension = None, fs_degraded = False, fs_pending_extension = None,
     fs_consumed_in_session = [], fs_reused_in_session = 0, fs_deferred_reuse = {}, fs_pending_deferred_reuse = [], fs_retired_total_floor = 0 \<rparr>"

record pager =
  pgr_file :: bytes
  pgr_page_size :: nat
  pgr_superblock :: superblock
  pgr_slot :: nat
  pgr_free :: free_state
  pgr_min_pin :: u64

section \<open>Opening\<close>

definition encode_page :: "(bytes \<Rightarrow> u32) \<Rightarrow> superblock \<Rightarrow> bytes devon_result" where
  "encode_page crc32c sb =
    rbind (sb_encode crc32c sb (replicate SUPERBLOCK_HEADER_LEN 0)) (\<lambda>header.
    Inr (copy_into (replicate (unat (sb_page_size sb)) 0) 0 header))"

definition initial_superblock :: "u32 \<Rightarrow> bytes \<Rightarrow> superblock" where
  "initial_superblock page_size db_id =
    \<lparr> sb_format_version = SUPPORTED_FORMAT_VERSION, sb_min_reader_version = SUPPORTED_FORMAT_VERSION, sb_feature_flags = 0,
      sb_page_size = page_size, sb_db_id = db_id, sb_checkpoint_lsn = 0, sb_catalog_root = 0 \<rparr>"

definition pager_new :: "bytes \<Rightarrow> superblock \<Rightarrow> nat \<Rightarrow> free_state \<Rightarrow> pager" where
  "pager_new bs sb slot free =
    \<lparr> pgr_file = bs, pgr_page_size = unat (sb_page_size sb), pgr_superblock = sb, pgr_slot = slot, pgr_free = free,
      pgr_min_pin = 0 \<rparr>"

definition pager_create :: "(bytes \<Rightarrow> u32) \<Rightarrow> u32 \<Rightarrow> bytes \<Rightarrow> pager devon_result" where
  "pager_create crc32c page_size db_id =
    rbind (encode_page crc32c (initial_superblock page_size db_id)) (\<lambda>page.
    Inr (pager_new (write_at (write_at [] 0 page) (unat page_size) page) (initial_superblock page_size db_id) 0 free_state_default))"

definition read_exact_at :: "bytes \<Rightarrow> nat \<Rightarrow> nat \<Rightarrow> bytes devon_result" where
  "read_exact_at bs offset n =
    (if offset + n \<le> length bs then Inr (subslice bs offset (offset + n)) else Inl (Io ''failed to fill whole buffer''))"

definition read_slot :: "(bytes \<Rightarrow> u32) \<Rightarrow> bytes \<Rightarrow> nat \<Rightarrow> u32 option \<Rightarrow> superblock devon_result" where
  "read_slot crc32c bs offset expected_page_size =
    rbind (read_exact_at bs offset SUPERBLOCK_HEADER_LEN) (\<lambda>header.
    rbind (sb_decode crc32c header) (\<lambda>sb.
    case expected_page_size of
      Some expected \<Rightarrow> if expected \<noteq> sb_page_size sb then Inl (Corrupt ''superblock slots disagree on page size'') else Inr sb
    | None \<Rightarrow> Inr sb))"

fun second_slot_candidates :: "(bytes \<Rightarrow> u32) \<Rightarrow> bytes \<Rightarrow> u32 list \<Rightarrow> superblock devon_result" where
  "second_slot_candidates crc32c bs [] = Inl (Corrupt ''could not locate a valid second superblock slot'')"
| "second_slot_candidates crc32c bs (candidate # candidates) =
    (case read_slot crc32c bs (unat candidate) (Some candidate) of
       Inr sb \<Rightarrow> Inr sb
     | Inl _ \<Rightarrow> second_slot_candidates crc32c bs candidates)"

definition read_second_slot :: "(bytes \<Rightarrow> u32) \<Rightarrow> bytes \<Rightarrow> u32 option \<Rightarrow> superblock devon_result" where
  "read_second_slot crc32c bs page_size =
    (case page_size of
       Some page_size \<Rightarrow> read_slot crc32c bs (unat page_size) (Some page_size)
     | None \<Rightarrow> second_slot_candidates crc32c bs VALID_PAGE_SIZES)"

definition selected_slot :: "superblock devon_result \<Rightarrow> superblock devon_result \<Rightarrow> nat" where
  "selected_slot a b =
    (case (a, b) of
       (Inr a, Inr b) \<Rightarrow> if sb_checkpoint_lsn b > sb_checkpoint_lsn a then 1 else 0
     | (Inr _, Inl _) \<Rightarrow> 0
     | (Inl _, Inr _) \<Rightarrow> 1
     | (Inl _, Inl _) \<Rightarrow> 0)"

definition validate_file_length :: "nat \<Rightarrow> u32 \<Rightarrow> unit devon_result" where
  "validate_file_length file_len page_size =
    (if file_len < unat page_size * 2 then Inl (Corrupt ''database file length {} is shorter than two pages'')
     else if file_len mod unat page_size \<noteq> 0 then Inl (Corrupt ''database file length {} is not page-aligned'')
     else Inr ())"

definition read_slot_extension :: "(bytes \<Rightarrow> u32) \<Rightarrow> bytes \<Rightarrow> superblock \<Rightarrow> nat \<Rightarrow> nat \<Rightarrow> free_state \<Rightarrow> free_state" where
  "read_slot_extension crc32c bs sb authoritative_slot slot free =
    (case read_exact_at bs (slot * unat (sb_page_size sb)) EXTENSION_END of
       Inl _ \<Rightarrow> free
     | Inr prefix \<Rightarrow>
         (case ext_decode_from crc32c prefix of
            Some ext \<Rightarrow>
              let free = free\<lparr> fs_retired_total_floor := max (fs_retired_total_floor free) (retired_total ext) \<rparr>
              in if slot = authoritative_slot then free\<lparr> fs_extension := Some ext \<rparr> else free
          | None \<Rightarrow> if slot = authoritative_slot then free\<lparr> fs_degraded := True \<rparr> else free))"

definition read_free_state :: "(bytes \<Rightarrow> u32) \<Rightarrow> bytes \<Rightarrow> superblock \<Rightarrow> nat \<Rightarrow> free_state" where
  "read_free_state crc32c bs sb authoritative_slot =
    (if sb_feature_flags sb AND FREE_PAGES_FLAG = 0 then free_state_default
     else fold (read_slot_extension crc32c bs sb authoritative_slot) [0, 1] free_state_default)"

definition open_backend :: "(bytes \<Rightarrow> u32) \<Rightarrow> bytes \<Rightarrow> pager devon_result" where
  "open_backend crc32c bs =
    (let slot_zero = read_slot crc32c bs 0 None;
         page_size = (case slot_zero of Inr slot \<Rightarrow> Some (sb_page_size slot) | Inl _ \<Rightarrow> None);
         slot_one = read_second_slot crc32c bs page_size;
         authoritative_slot = selected_slot slot_zero slot_one
     in rbind (choose_authoritative slot_zero slot_one) (\<lambda>sb.
        rbind (validate_file_length (length bs) (sb_page_size sb)) (\<lambda>_.
        Inr (pager_new bs sb authoritative_slot (read_free_state crc32c bs sb authoritative_slot)))))"

section \<open>Publishing\<close>

definition ensure_commit_is_valid :: "superblock \<Rightarrow> superblock \<Rightarrow> unit devon_result" where
  "ensure_commit_is_valid current nxt =
    (if sb_page_size nxt \<noteq> sb_page_size current then Inl (InvalidArgument ''a commit cannot change the database page size'')
     else if sb_db_id nxt \<noteq> sb_db_id current then Inl (InvalidArgument ''a commit cannot change the database identifier'')
     else if sb_checkpoint_lsn nxt \<le> sb_checkpoint_lsn current
     then Inl (InvalidArgument ''a committed superblock must advance the checkpoint LSN'')
     else Inr ())"

definition encode_slot_page :: "(bytes \<Rightarrow> u32) \<Rightarrow> superblock \<Rightarrow> bool \<Rightarrow> free_state \<Rightarrow> bytes devon_result" where
  "encode_slot_page crc32c sb include_pending free =
    rbind (encode_page crc32c sb) (\<lambda>page.
    if sb_feature_flags sb AND FREE_PAGES_FLAG \<noteq> 0
    then (case (if include_pending \<and> fs_pending_extension free \<noteq> None then fs_pending_extension free else fs_extension free) of
            Some ext \<Rightarrow> ext_encode_into crc32c ext page
          | None \<Rightarrow> Inr page)
    else Inr page)"

definition promote_pending :: "free_state \<Rightarrow> free_state" where
  "promote_pending free =
    (case fs_pending_extension free of
       None \<Rightarrow> free
     | Some pending \<Rightarrow>
         free\<lparr> fs_pending_extension := None, fs_extension := Some pending, fs_degraded := False,
               fs_deferred_reuse := fs_deferred_reuse free - set (fs_pending_deferred_reuse free), fs_pending_deferred_reuse := [] \<rparr>)"

definition raise_floor :: "free_state \<Rightarrow> free_state" where
  "raise_floor free =
    (case fs_pending_extension free of
       None \<Rightarrow> free
     | Some pending \<Rightarrow> free\<lparr> fs_retired_total_floor := max (fs_retired_total_floor free) (retired_total pending) \<rparr>)"

definition commit_superblock ::
    "(bytes \<Rightarrow> u32) \<Rightarrow> write_outcome \<Rightarrow> unit devon_result \<Rightarrow> superblock \<Rightarrow> pager \<Rightarrow> unit devon_result \<times> pager" where
  "commit_superblock crc32c io sync nxt pg =
    (case rbind (ensure_commit_is_valid (pgr_superblock pg) nxt) (\<lambda>_. encode_slot_page crc32c nxt True (pgr_free pg)) of
       Inl e \<Rightarrow> (Inl e, pg)
     | Inr page \<Rightarrow>
         (let next_slot = 1 - pgr_slot pg;
              offset = next_slot * pgr_page_size pg
          in case backend_write io (pgr_file pg) offset page of
               (Inl e, bs) \<Rightarrow> (Inl e, pg\<lparr> pgr_file := bs \<rparr>)
             | (Inr _, bs) \<Rightarrow>
                 (case sync of
                    Inl e \<Rightarrow> (Inl e, pg\<lparr> pgr_file := bs, pgr_free := raise_floor (pgr_free pg) \<rparr>)
                  | Inr _ \<Rightarrow>
                      (Inr (), pg\<lparr> pgr_file := bs, pgr_superblock := nxt, pgr_slot := next_slot, pgr_free := promote_pending (pgr_free pg) \<rparr>))))"

fun write_slots ::
    "nat \<Rightarrow> bytes \<Rightarrow> (nat \<times> write_outcome \<times> unit devon_result) list \<Rightarrow> bytes \<Rightarrow> unit devon_result \<times> bytes" where
  "write_slots page_size page [] bs = (Inr (), bs)"
| "write_slots page_size page ((slot, io, sync) # slots) bs =
    (case backend_write io bs (slot * page_size) page of
       (Inl e, bs) \<Rightarrow> (Inl e, bs)
     | (Inr _, bs) \<Rightarrow> (case sync of Inl e \<Rightarrow> (Inl e, bs) | Inr _ \<Rightarrow> write_slots page_size page slots bs))"

definition commit_feature_flags ::
    "(bytes \<Rightarrow> u32) \<Rightarrow> (nat \<Rightarrow> write_outcome \<times> unit devon_result) \<Rightarrow> u64 \<Rightarrow> pager \<Rightarrow> unit devon_result \<times> pager" where
  "commit_feature_flags crc32c io feature_flags pg =
    (if sb_feature_flags (pgr_superblock pg) = feature_flags then (Inr (), pg)
     else
       (let sb = (pgr_superblock pg)\<lparr> sb_feature_flags := feature_flags \<rparr>;
            other_slot = 1 - pgr_slot pg
        in case encode_slot_page crc32c sb False (pgr_free pg) of
             Inl e \<Rightarrow> (Inl e, pg)
           | Inr page \<Rightarrow>
               (case write_slots (pgr_page_size pg) page (map (\<lambda>slot. (slot, io slot)) [other_slot, pgr_slot pg]) (pgr_file pg) of
                  (Inl e, bs) \<Rightarrow> (Inl e, pg\<lparr> pgr_file := bs \<rparr>)
                | (Inr _, bs) \<Rightarrow> (Inr (), pg\<lparr> pgr_file := bs, pgr_superblock := sb \<rparr>))))"

end
