(* ===== verification/RunSelect.thy ===== *)
theory RunSelect
  imports FreePages PageCache
begin

text \<open>
  Choosing a run of contiguous pages among reclaimable ones (\<^verbatim>\<open>devondb-storage/src/pager.rs\<close>): the search in
  the pool of deferred pages and the selection among scanned ledger entries. The selection slides a window
  over the page ids in order and keeps the last ledger position of the window in a monotone queue; the
  theorem is that it equals the choice written down directly.
\<close>

record scanned_reuse_entry =
  sc_ledger_page :: u64
  sc_consumed_after :: u32
  sc_entry :: ledger_entry

record reuse_scan =
  rs_entries :: "scanned_reuse_entry list"
  rs_selected :: "nat set option"
  rs_ledger_pages :: "u64 list"

abbreviation sc_page_id :: "scanned_reuse_entry \<Rightarrow> u64" where
  "sc_page_id c \<equiv> le_page_id (sc_entry c)"

fun find_run_loop :: "nat \<Rightarrow> u64 list \<Rightarrow> u64 list \<Rightarrow> u64 list option" where
  "find_run_loop count run [] = None"
| "find_run_loop count run (page_id # entries) =
    (let run = (if run \<noteq> [] \<and> checked_add_word (last run) 1 \<noteq> Some page_id then [] else run) @ [page_id]
     in if length run = count then Some run else find_run_loop count run entries)"

definition find_contiguous_run :: "u64 set \<Rightarrow> nat \<Rightarrow> u64 list option" where
  "find_contiguous_run entries count = find_run_loop count [] (sorted_list_of_set entries)"

definition trim_unselected_scan :: "reuse_scan \<Rightarrow> nat \<Rightarrow> reuse_scan" where
  "trim_unselected_scan scan skip_capacity =
    (if rs_selected scan = None then scan\<lparr> rs_entries := take skip_capacity (rs_entries scan) \<rparr> else scan)"

text \<open>\<open>or_insert\<close> keeps the first ledger position of a page.\<close>

definition first_positions :: "scanned_reuse_entry list \<Rightarrow> (u64, nat) btree" where
  "first_positions entries = foldl (\<lambda>m (index, c). bt_entry (sc_page_id c) index (\<lambda>i. i) m) [] (enumerate 0 entries)"

type_synonym run_search = "(nat \<times> nat) option \<times> nat \<times> nat list"

text \<open>One turn of the loop over the ids; \<open>at\<close> is the ledger position of the id with an index, \<open>joined\<close> whether it
  follows its predecessor.\<close>

definition select_step :: "(nat \<Rightarrow> nat) \<Rightarrow> (nat \<Rightarrow> bool) \<Rightarrow> nat \<Rightarrow> nat \<Rightarrow> run_search \<Rightarrow> run_search" where
  "select_step at joined count i = (\<lambda>(best, run_start, window).
    let (run_start, window) = (if 0 < i \<and> \<not> joined i then (i, []) else (run_start, window));
        window = rev (dropWhile (\<lambda>back. at back \<le> at i) (rev window)) @ [i];
        window = dropWhile (\<lambda>front. front + count \<le> i + 1 \<and> front < i + 1 - count) window;
        best = (if count \<le> i + 1 - run_start
                then (let through = at (case window of [] \<Rightarrow> i | front # _ \<Rightarrow> front)
                      in case best of
                           Some (best_through, _) \<Rightarrow> if through < best_through then Some (through, i + 1 - count) else best
                         | None \<Rightarrow> Some (through, i + 1 - count))
                else best)
    in (best, run_start, window))"

definition select_earliest_run :: "reuse_scan \<Rightarrow> nat \<Rightarrow> reuse_scan" where
  "select_earliest_run scan count =
    (if count = 0 then scan
     else
       (let places = first_positions (rs_entries scan);
            ids = sort (map fst places);
            at = (\<lambda>i. the (bt_get places (ids ! i)));
            joined = (\<lambda>i. checked_add_word (ids ! (i - 1)) 1 = Some (ids ! i));
            (best, _, _) = fold (select_step at joined count) [0..<length ids] (None, 0, [])
        in case best of
             None \<Rightarrow> scan
           | Some (through, start) \<Rightarrow>
               scan\<lparr> rs_entries := take (through + 1) (rs_entries scan),
                     rs_selected := Some ((\<lambda>page_id. the (bt_get places page_id)) ` set (take count (drop start ids))) \<rparr>))"

section \<open>The choice written down directly\<close>

definition page_run :: "u64 \<Rightarrow> nat \<Rightarrow> u64 set" where
  "page_run first count = {p. unat first \<le> unat p \<and> unat p < unat first + count}"

definition is_run :: "u64 set \<Rightarrow> nat \<Rightarrow> u64 \<Rightarrow> bool" where
  "is_run pages count first \<longleftrightarrow> unat first + count \<le> 2 ^ 64 \<and> page_run first count \<subseteq> pages"

definition first_at :: "scanned_reuse_entry list \<Rightarrow> u64 \<Rightarrow> nat" where
  "first_at entries p = length (takeWhile (\<lambda>c. sc_page_id c \<noteq> p) entries)"

text \<open>Among the runs of scanned pages the one whose last entry comes first in the ledger, the lowest of them
  when several end there.\<close>

definition earliest_run :: "reuse_scan \<Rightarrow> nat \<Rightarrow> reuse_scan" where
  "earliest_run scan count =
    (let entries = rs_entries scan;
         pages = sc_page_id ` set entries;
         runs = filter (is_run pages count) (sorted_list_of_set pages);
         through = (\<lambda>first. Max (first_at entries ` page_run first count));
         first = arg_min_list through runs
     in if runs = [] then scan
        else scan\<lparr> rs_entries := take (Suc (through first)) entries, rs_selected := Some (first_at entries ` page_run first count) \<rparr>)"

section \<open>The monotone queue\<close>

definition queue_of :: "(nat \<Rightarrow> nat) \<Rightarrow> nat \<Rightarrow> nat \<Rightarrow> nat list" where
  "queue_of at lo n = filter (\<lambda>j. \<forall>k \<in> {j<..<n}. at k < at j) [lo..<n]"

lemma queue_of_mem: "j \<in> set (queue_of at lo n) \<longleftrightarrow> lo \<le> j \<and> j < n \<and> (\<forall>k \<in> {j<..<n}. at k < at j)"
  by (auto simp: queue_of_def)

lemma queue_of_sorted: "sorted_wrt (\<lambda>i j. i < j \<and> at j < at i) (queue_of at lo n)"
proof -
  have "sorted_wrt (<) (queue_of at lo n)" by (simp add: queue_of_def sorted_wrt_filter)
  then show ?thesis
    by (rule sorted_wrt_mono_rel [rotated]) (auto simp: queue_of_mem)
qed

lemma dropWhile_as_filter:
  assumes "sorted_wrt (\<lambda>x y. P y \<longrightarrow> P x) xs"
  shows "dropWhile P xs = filter (\<lambda>x. \<not> P x) xs"
  using assms by (induction xs) (auto simp: filter_id_conv)

lemma queue_push:
  assumes "lo \<le> n"
  shows "rev (dropWhile (\<lambda>back. at back \<le> at n) (rev (queue_of at lo n))) @ [n] = queue_of at lo (Suc n)"
proof -
  have "sorted_wrt (\<lambda>x y. at y \<le> at n \<longrightarrow> at x \<le> at n) (rev (queue_of at lo n))"
    unfolding sorted_wrt_rev using queue_of_sorted by (rule sorted_wrt_mono_rel [rotated]) auto
  then have "dropWhile (\<lambda>back. at back \<le> at n) (rev (queue_of at lo n)) = filter (\<lambda>j. \<not> at j \<le> at n) (rev (queue_of at lo n))"
    by (rule dropWhile_as_filter)
  then have "rev (dropWhile (\<lambda>back. at back \<le> at n) (rev (queue_of at lo n))) = filter (\<lambda>j. \<not> at j \<le> at n) (queue_of at lo n)"
    by (simp add: rev_filter)
  moreover have "filter (\<lambda>j. \<not> at j \<le> at n) (queue_of at lo n) = filter (\<lambda>j. \<forall>k \<in> {j<..<Suc n}. at k < at j) [lo..<n]"
  proof -
    have "(\<forall>k \<in> {j<..<Suc n}. at k < at j) \<longleftrightarrow> (\<forall>k \<in> {j<..<n}. at k < at j) \<and> \<not> at j \<le> at n" if "j < n" for j
      using that by (auto simp: less_Suc_eq not_le dest: bspec [of _ _ n])
    then show ?thesis unfolding queue_of_def filter_filter by (intro filter_cong) simp_all
  qed
  ultimately show ?thesis
    using assms by (simp add: queue_of_def)
qed

lemma queue_slide:
  assumes "lo \<le> lo'"
  shows "dropWhile (\<lambda>j. j < lo') (queue_of at lo n) = queue_of at lo' n"
proof -
  have "dropWhile (\<lambda>j. j < lo') (queue_of at lo n) = filter (\<lambda>j. \<not> j < lo') (queue_of at lo n)"
    using queue_of_sorted by (intro dropWhile_as_filter, rule sorted_wrt_mono_rel [rotated]) auto
  also have "\<dots> = filter (\<lambda>j. \<forall>k \<in> {j<..<n}. at k < at j) (filter (\<lambda>j. \<not> j < lo') [lo..<n])"
    by (simp add: queue_of_def conj_commute)
  also have "filter (\<lambda>j. \<not> j < lo') [lo..<n] = [lo'..<n]"
    using assms by (induction n) (auto simp: not_less)
  finally show ?thesis by (simp add: queue_of_def)
qed

lemma queue_front:
  assumes "lo < n"
  obtains j js where "queue_of at lo n = j # js" "at j = Max (at ` {lo..<n})"
proof -
  let ?M = "Max (at ` {lo..<n})"
  let ?S = "{j \<in> {lo..<n}. at j = ?M}"
  have S: "finite ?S" "?S \<noteq> {}"
    using Max_in [of "at ` {lo..<n}"] assms by (auto simp: image_iff)
  define m where "m = Max ?S"
  have m: "m \<in> ?S" unfolding m_def using Max_in [OF S] .
  have max: "at k \<le> ?M" if "lo \<le> k" "k < n" for k using that by (intro Max_ge) auto
  have "at k < ?M" if "m < k" "k < n" for k
  proof -
    have "lo \<le> k" using that m by auto
    then have "at k \<noteq> ?M" using Max_ge [OF S(1), of k] that unfolding m_def by (metis (mono_tags, lifting) atLeastLessThan_iff leD mem_Collect_eq)
    then show ?thesis using max [OF \<open>lo \<le> k\<close> that(2)] by simp
  qed
  then have mem: "m \<in> set (queue_of at lo n)" using m by (auto simp: queue_of_mem)
  then obtain j js where q: "queue_of at lo n = j # js" by (cases "queue_of at lo n") auto
  have "j \<le> m" using mem queue_of_sorted [of at lo n] by (auto simp: q)
  moreover have "\<not> j < m"
  proof
    assume "j < m"
    have j: "lo \<le> j" "j < n" "\<forall>k \<in> {j<..<n}. at k < at j" using queue_of_mem [of j at lo n] by (simp_all add: q)
    moreover have "m \<in> {j<..<n}" "at m = ?M" using \<open>j < m\<close> m by auto
    ultimately have "?M < at j" by metis
    then show False using max [OF j(1,2)] by linarith
  qed
  ultimately have "j = m" by simp
  then show thesis using that [OF q] m by simp
qed

section \<open>The search\<close>

definition through_of :: "(nat \<Rightarrow> nat) \<Rightarrow> nat \<Rightarrow> nat \<Rightarrow> nat" where
  "through_of at count j = Max (at ` {j..<j + count})"

definition starts :: "(nat \<Rightarrow> bool) \<Rightarrow> nat \<Rightarrow> nat \<Rightarrow> nat list" where
  "starts joined count n = filter (\<lambda>j. \<forall>k \<in> {j<..<j + count}. joined k) [0..<Suc n - count]"

definition best_of :: "(nat \<Rightarrow> nat) \<Rightarrow> nat list \<Rightarrow> (nat \<times> nat) option" where
  "best_of through js = (if js = [] then None else Some (through (arg_min_list through js), arg_min_list through js))"

lemma arg_min_list_snoc:
  "xs \<noteq> [] \<Longrightarrow> arg_min_list f (xs @ [x]) = (if f x < f (arg_min_list f xs) then x else arg_min_list f xs :: 'a)"
  for f :: "'a \<Rightarrow> 'b::linorder"
proof (induction xs rule: induct_list012)
  case (3 y z zs)
  then show ?case by (auto simp: Let_def)
qed auto

definition search_inv :: "(nat \<Rightarrow> nat) \<Rightarrow> (nat \<Rightarrow> bool) \<Rightarrow> nat \<Rightarrow> nat \<Rightarrow> run_search \<Rightarrow> bool" where
  "search_inv at joined count n = (\<lambda>(best, run_start, window).
    (\<forall>k \<in> {run_start<..<n}. joined k) \<and> (run_start = 0 \<or> run_start < n \<and> \<not> joined run_start) \<and>
    window = queue_of at (max run_start (n - count)) n \<and> best = best_of (through_of at count) (starts joined count n))"

lemma starts_Suc:
  assumes "0 < count" "\<forall>k \<in> {r<..<Suc n}. joined k" "r = 0 \<or> r \<le> n \<and> \<not> joined r"
  shows "starts joined count (Suc n) = starts joined count n @ (if count \<le> Suc n - r then [Suc n - count] else [])"
proof (cases "count \<le> Suc n")
  case True
  have "(\<forall>k \<in> {Suc n - count<..<Suc n}. joined k) \<longleftrightarrow> count \<le> Suc n - r"
  proof
    assume all: "\<forall>k \<in> {Suc n - count<..<Suc n}. joined k"
    show "count \<le> Suc n - r"
      using assms(3) True bspec [OF all, of r] by (cases "Suc n - count < r") auto
  next
    assume "count \<le> Suc n - r"
    then show "\<forall>k \<in> {Suc n - count<..<Suc n}. joined k" using assms(1,2) by auto
  qed
  then show ?thesis using True by (simp add: starts_def Suc_diff_le)
qed (use assms(1) in \<open>simp add: starts_def\<close>)

lemma best_of_snoc:
  "best_of through (js @ [j]) =
    (case best_of through js of
       Some (best_through, _) \<Rightarrow> if through j < best_through then Some (through j, j) else best_of through js
     | None \<Rightarrow> Some (through j, j))"
  by (simp add: best_of_def arg_min_list_snoc)

lemma search_step:
  assumes "0 < count" "search_inv at joined count n s"
  shows "search_inv at joined count (Suc n) (select_step at joined count n s)"
proof -
  obtain best run_start window where s: "s = (best, run_start, window)" by (cases s)
  define r where "r = (if 0 < n \<and> \<not> joined n then n else run_start)"
  define w where "w = (if 0 < n \<and> \<not> joined n then [] else window)"
  have inv: "\<forall>k \<in> {run_start<..<n}. joined k" "run_start = 0 \<or> run_start < n \<and> \<not> joined run_start"
    "window = queue_of at (max run_start (n - count)) n" "best = best_of (through_of at count) (starts joined count n)"
    using assms(2) by (auto simp: search_inv_def s)
  have r: "\<forall>k \<in> {r<..<Suc n}. joined k" "r = 0 \<or> r \<le> n \<and> \<not> joined r" "r \<le> n"
    using inv(1,2) by (auto simp: r_def less_Suc_eq)
  have w: "w = queue_of at (max r (n - count)) n"
    using inv(3) assms(1) by (auto simp: w_def r_def queue_of_def)
  have push: "rev (dropWhile (\<lambda>back. at back \<le> at n) (rev w)) @ [n] = queue_of at (max r (n - count)) (Suc n)"
    unfolding w using r(3) by (intro queue_push) auto
  have slide: "dropWhile (\<lambda>front. front + count \<le> n + 1 \<and> front < n + 1 - count) (queue_of at (max r (n - count)) (Suc n))
      = queue_of at (max r (Suc n - count)) (Suc n)"
  proof -
    have "dropWhile (\<lambda>front. front + count \<le> n + 1 \<and> front < n + 1 - count) (queue_of at (max r (n - count)) (Suc n))
        = dropWhile (\<lambda>front. front < max r (Suc n - count)) (queue_of at (max r (n - count)) (Suc n))"
      by (rule dropWhile_cong) (auto simp: queue_of_mem)
    then show ?thesis by (simp add: queue_slide)
  qed
  obtain j js where front: "queue_of at (max r (Suc n - count)) (Suc n) = j # js"
      "at j = Max (at ` {max r (Suc n - count)..<Suc n})"
    using r(3) assms(1) by (auto intro: queue_front [of "max r (Suc n - count)" "Suc n" at])
  have through: "at j = through_of at count (Suc n - count)" if "count \<le> Suc n - r"
    using that front(2) r(3) by (simp add: through_of_def max_def)
  have step: "select_step at joined count n s =
      ((if count \<le> Suc n - r
        then (case best of Some (best_through, _) \<Rightarrow> if at j < best_through then Some (at j, Suc n - count) else best
              | None \<Rightarrow> Some (at j, Suc n - count))
        else best), r, queue_of at (max r (Suc n - count)) (Suc n))"
  proof -
    have start: "(if 0 < n \<and> \<not> joined n then (n, []) else (run_start, window)) = (r, w)" by (simp add: r_def w_def)
    show ?thesis
      unfolding select_step_def s prod.case start Let_def push slide front(1) by (simp split: option.split)
  qed
  show ?thesis
    using r through
    by (auto simp: step search_inv_def starts_Suc [OF assms(1) r(1,2)] best_of_snoc inv(4) split: option.split)
qed

lemma search_result:
  assumes "0 < count"
  shows "search_inv at joined count n (fold (select_step at joined count) [0..<n] (None, 0, []))"
proof (induction n)
  case 0
  show ?case using assms by (simp add: search_inv_def queue_of_def best_of_def starts_def)
next
  case (Suc n)
  then show ?case using search_step [OF assms] by simp
qed

section \<open>Positions and page ids\<close>

lemma first_at_snoc:
  "first_at (es @ [c]) p =
    (if p \<in> sc_page_id ` set es then first_at es p else if sc_page_id c = p then length es else Suc (length es))"
proof (cases "p \<in> sc_page_id ` set es")
  case True
  then obtain x where "x \<in> set es" "\<not> sc_page_id x \<noteq> p" by auto
  then show ?thesis using True by (simp add: first_at_def takeWhile_append1)
next
  case False
  then have "takeWhile (\<lambda>c. sc_page_id c \<noteq> p) (es @ [c]) = es @ takeWhile (\<lambda>c. sc_page_id c \<noteq> p) [c]"
    by (intro takeWhile_append2) auto
  then show ?thesis using False by (auto simp: first_at_def)
qed

lemma first_positions_spec:
  "bt_wf (first_positions es) \<and> bt_keys (first_positions es) = sc_page_id ` set es \<and>
   (\<forall>p \<in> sc_page_id ` set es. bt_get (first_positions es) p = Some (first_at es p))"
proof (induction es rule: rev_induct)
  case Nil
  show ?case by (simp add: first_positions_def bt_wf_def)
next
  case (snoc c es)
  let ?m = "first_positions es"
  have m: "first_positions (es @ [c]) = bt_entry (sc_page_id c) (length es) (\<lambda>i. i) ?m"
    by (simp add: first_positions_def enumerate_append_eq)
  have "bt_get (first_positions (es @ [c])) p = Some (first_at (es @ [c]) p)" if "p \<in> sc_page_id ` set (es @ [c])" for p
    using snoc that by (auto simp: m bt_get_entry first_at_snoc bt_get_None)
  then show ?case
    using snoc by (auto simp: m bt_wf_entry) (auto simp: bt_entry_def bt_keys_insert)
qed

lemma first_positions_ids: "sort (map fst (first_positions es)) = sorted_list_of_set (sc_page_id ` set es)"
proof -
  have "sorted_wrt (<) (map fst (first_positions es))" using first_positions_spec [of es] by (simp add: bt_wf_def)
  moreover have "set (map fst (first_positions es)) = sc_page_id ` set es"
    using first_positions_spec [of es] by (simp add: bt_keys_def)
  ultimately show ?thesis
    by (metis sorted_list_of_set.idem_if_sorted_distinct sorted_sort_id strict_sorted_iff)
qed

lemma next_page_iff: "checked_add_word p 1 = Some q \<longleftrightarrow> unat q = Suc (unat p)" for p q :: u64
proof
  assume next_page: "unat q = Suc (unat p)"
  then have "unat p + 1 < 2 ^ 64" using unsigned_less [of q, where 'a = nat] by simp
  then have "checked_add_word p 1 = Some (p + 1)" by (simp add: checked_add_word_def)
  moreover have "unat (p + 1) = unat q"
    using checked_add_word_eq_Some [OF \<open>checked_add_word p 1 = Some (p + 1)\<close>] next_page by simp
  ultimately show "checked_add_word p 1 = Some q" by (simp add: word_unat_eq_iff)
qed (use checked_add_word_eq_Some [of p 1 q] in simp)

text \<open>In a strictly ascending list the successors of an element are the elements after it.\<close>

lemma nth_successor:
  fixes ids :: "u64 list"
  assumes asc: "sorted_wrt (<) ids" and j: "j < length ids" and next_page: "unat p = Suc (unat (ids ! j))" and mem: "p \<in> set ids"
  shows "Suc j < length ids" "ids ! Suc j = p"
proof -
  obtain k where k: "k < length ids" "p = ids ! k" using mem by (auto simp: in_set_conv_nth)
  have less: "unat (ids ! a) < unat (ids ! b)" if "a < b" "b < length ids" for a b
    using sorted_wrt_nth_less [OF asc that] by (simp add: word_less_nat_alt)
  have "j < k" using less [of k j] j k next_page by (cases k j rule: linorder_cases) auto
  moreover have "\<not> Suc j < k" using less [of j "Suc j"] less [of "Suc j" k] k next_page by auto
  ultimately have "k = Suc j" by simp
  then show "Suc j < length ids" "ids ! Suc j = p" using k by simp_all
qed

lemma run_indices:
  fixes ids :: "u64 list"
  assumes asc: "sorted_wrt (<) ids" and j: "j < length ids" and count: "0 < count"
  defines "consecutive \<equiv> j + count \<le> length ids \<and> (\<forall>k \<in> {j<..<j + count}. unat (ids ! k) = Suc (unat (ids ! (k - 1))))"
  shows "is_run (set ids) count (ids ! j) \<longleftrightarrow> consecutive"
    and "consecutive \<Longrightarrow> page_run (ids ! j) count = nth ids ` {j..<j + count}"
proof -
  have image: "page_run (ids ! j) count = nth ids ` {j..<j + count} \<and> unat (ids ! j) + count \<le> 2 ^ 64"
    if at: "\<And>m. m < count \<Longrightarrow> unat (ids ! (j + m)) = unat (ids ! j) + m"
  proof -
    have "p \<in> nth ids ` {j..<j + count}" if "p \<in> page_run (ids ! j) count" for p
    proof -
      let ?m = "unat p - unat (ids ! j)"
      have "?m < count" "unat p = unat (ids ! j) + ?m" using that by (auto simp: page_run_def)
      then have "p = ids ! (j + ?m)" using at [of ?m] by (simp add: word_unat_eq_iff)
      then show ?thesis using \<open>?m < count\<close> by auto
    qed
    moreover have "ids ! k \<in> page_run (ids ! j) count" if "k \<in> {j..<j + count}" for k
      using at [of "k - j"] that by (auto simp: page_run_def)
    moreover have "unat (ids ! j) + count \<le> 2 ^ 64"
      using at [of "count - 1"] unsigned_less [of "ids ! (j + (count - 1))", where 'a = nat] count by simp
    ultimately show ?thesis by auto
  qed
  have "consecutive" if run: "is_run (set ids) count (ids ! j)"
  proof -
    have "m < count \<Longrightarrow> j + m < length ids \<and> unat (ids ! (j + m)) = unat (ids ! j) + m" for m
    proof (induction m)
      case (Suc m)
      let ?p = "word_of_nat (unat (ids ! j) + Suc m) :: u64"
      have p: "unat ?p = unat (ids ! j) + Suc m"
      proof -
        have "unat (ids ! j) + Suc m < 2 ^ LENGTH(64)" using run Suc.prems by (simp add: is_run_def)
        then show ?thesis by (simp only: unat_of_nat mod_less)
      qed
      then have "?p \<in> set ids" using run Suc.prems by (auto simp: is_run_def page_run_def)
      then show ?case using Suc nth_successor [OF asc, of "j + m" ?p] p by auto
    qed (use j in simp)
    note at = this
    have "j + count \<le> length ids" using at [of "count - 1"] count by linarith
    moreover have "unat (ids ! k) = Suc (unat (ids ! (k - 1)))" if "k \<in> {j<..<j + count}" for k
    proof -
      have "unat (ids ! k) = unat (ids ! j) + (k - j)" "unat (ids ! (k - 1)) = unat (ids ! j) + (k - 1 - j)"
        using at [of "k - j"] at [of "k - 1 - j"] that by auto
      then show ?thesis using that by auto
    qed
    ultimately show ?thesis by (simp add: consecutive_def)
  qed
  moreover have at: "m < count \<Longrightarrow> unat (ids ! (j + m)) = unat (ids ! j) + m" if consecutive for m
    using that by (induction m) (auto simp: consecutive_def)
  moreover have "is_run (set ids) count (ids ! j)" if consecutive
    using image [OF at [OF that]] that by (auto simp: is_run_def consecutive_def)
  ultimately show "is_run (set ids) count (ids ! j) \<longleftrightarrow> consecutive" by blast
  show "page_run (ids ! j) count = nth ids ` {j..<j + count}" if consecutive
    using image [OF at [OF that]] by simp
qed

lemma runs_as_starts:
  fixes ids :: "u64 list"
  assumes "sorted_wrt (<) ids" "0 < count"
  shows "filter (is_run (set ids) count) ids = map (nth ids) (starts (\<lambda>i. checked_add_word (ids ! (i - 1)) 1 = Some (ids ! i)) count (length ids))"
proof -
  have "filter (is_run (set ids) count) ids = map (nth ids) (filter (\<lambda>j. is_run (set ids) count (ids ! j)) [0..<length ids])"
    by (metis (no_types, lifting) comp_def filter_cong filter_map map_nth)
  also have "filter (\<lambda>j. is_run (set ids) count (ids ! j)) [0..<length ids] =
      filter (\<lambda>j. \<forall>k \<in> {j<..<j + count}. checked_add_word (ids ! (k - 1)) 1 = Some (ids ! k)) (filter (\<lambda>j. j + count \<le> length ids) [0..<length ids])"
    using run_indices(1) [OF assms(1) _ assms(2)] by (auto simp: next_page_iff intro!: filter_cong)
  also have "filter (\<lambda>j. j + count \<le> n) [0..<m] = [0..<min m (Suc n - count)]" for n m
  proof (induction m)
    case (Suc m)
    show ?case
    proof (cases "m + count \<le> n")
      case True
      then have "min (Suc m) (Suc n - count) = Suc m" "min m (Suc n - count) = m" by linarith+
      then show ?thesis using Suc True by simp
    next
      case False
      then have "min (Suc m) (Suc n - count) = min m (Suc n - count)" by linarith
      then show ?thesis using Suc False by simp
    qed
  qed simp
  also have "min (length ids) (Suc (length ids) - count) = Suc (length ids) - count" using assms(2) by auto
  finally show ?thesis by (simp add: starts_def)
qed

lemma arg_min_list_map: "xs \<noteq> [] \<Longrightarrow> arg_min_list f (map g xs) = g (arg_min_list (\<lambda>x. f (g x)) xs)"
  for f :: "'a \<Rightarrow> 'b::linorder"
  by (induction xs rule: induct_list012) (auto simp: Let_def)

lemma arg_min_list_cong: "xs \<noteq> [] \<Longrightarrow> (\<And>x. x \<in> set xs \<Longrightarrow> f x = g x) \<Longrightarrow> arg_min_list f xs = arg_min_list g xs"
  for f :: "'a \<Rightarrow> 'b::linorder"
proof (induction xs rule: induct_list012)
  case (3 x y zs)
  then show ?case using arg_min_list_in [of "y # zs" g] by (simp add: Let_def)
qed auto

section \<open>The selection is the choice\<close>

lemma select_is_choice:
  "select_earliest_run scan count = (if count = 0 then scan else earliest_run scan count)"
proof (cases "count = 0")
  case False
  define es where "es = rs_entries scan"
  define ids where "ids = sorted_list_of_set (sc_page_id ` set es)"
  define at where "at = (\<lambda>i. the (bt_get (first_positions es) (ids ! i)))"
  define joined where "joined = (\<lambda>i. checked_add_word (ids ! (i - 1)) 1 = Some (ids ! i))"
  define js where "js = starts joined count (length ids)"
  have asc: "sorted_wrt (<) ids" and ids: "set ids = sc_page_id ` set es" by (simp_all add: ids_def)
  have at: "the (bt_get (first_positions es) p) = first_at es p" if "p \<in> set ids" for p
    using first_positions_spec [of es] that by (auto simp: ids)
  obtain r w where search: "fold (select_step at joined count) [0..<length ids] (None, 0, []) = (best_of (through_of at count) js, r, w)"
    using search_result [of count at joined "length ids"] False by (auto simp: search_inv_def js_def split: prod.splits)
  have run: "page_run (ids ! j) count = nth ids ` {j..<j + count}" "j + count \<le> length ids" if "j \<in> set js" for j
    using that False run_indices(2) [OF asc, of j count] by (auto simp: js_def starts_def joined_def next_page_iff)
  have through: "Max (first_at es ` page_run (ids ! j) count) = through_of at count j" if "j \<in> set js" for j
    using run [OF that] at by (auto simp: through_of_def at_def image_image intro!: arg_cong [of _ _ Max] image_cong)
  have selected: "(\<lambda>page_id. the (bt_get (first_positions es) page_id)) ` set (take count (drop j ids)) = first_at es ` page_run (ids ! j) count"
    if "j \<in> set js" for j
  proof -
    have "set (take count (drop j ids)) = page_run (ids ! j) count"
    proof -
      have "nth ids ` {j..<j + count} = nth (drop j ids) ` {0..<count}"
      proof -
        have "{j..<j + count} = (+) j ` {0..<count}" by (simp add: add.commute)
        then show ?thesis using run(2) [OF that] by (simp only: image_image) (auto intro!: image_cong)
      qed
      then show ?thesis using run [OF that] nth_image [of count "drop j ids"] by simp
    qed
    moreover have "page_run (ids ! j) count \<subseteq> set ids" using run [OF that] by auto
    ultimately show ?thesis using at by (auto intro!: image_cong)
  qed
  have runs: "filter (is_run (sc_page_id ` set es) count) ids = map (nth ids) js"
    using runs_as_starts [OF asc] False by (simp add: js_def joined_def [abs_def] flip: ids)
  have first: "arg_min_list (\<lambda>first. Max (first_at es ` page_run first count)) (map (nth ids) js) = ids ! arg_min_list (through_of at count) js"
    if "js \<noteq> []"
    using that through by (simp add: arg_min_list_map cong: arg_min_list_cong)
  have "select_earliest_run scan count =
      (case best_of (through_of at count) js of
         None \<Rightarrow> scan
       | Some (through, start) \<Rightarrow>
           scan\<lparr> rs_entries := take (through + 1) es,
                 rs_selected := Some ((\<lambda>page_id. the (bt_get (first_positions es) page_id)) ` set (take count (drop start ids))) \<rparr>)"
    unfolding select_earliest_run_def Let_def es_def [symmetric] first_positions_ids ids_def [symmetric] at_def [symmetric]
      joined_def [symmetric] search using False by simp
  also have "\<dots> = earliest_run scan count"
  proof (cases "js = []")
    case True
    then show ?thesis using runs by (simp add: earliest_run_def best_of_def Let_def flip: es_def ids_def)
  next
    case js: False
    have least: "arg_min_list (through_of at count) js \<in> set js" using js by (rule arg_min_list_in)
    show ?thesis
      using js runs first [OF js] through [OF least] selected [OF least]
      by (simp add: earliest_run_def best_of_def Let_def flip: es_def ids_def)
  qed
  finally show ?thesis using False by simp
qed (simp add: select_earliest_run_def)

lemma first_at_nth: "p \<in> sc_page_id ` set es \<Longrightarrow> first_at es p < length es \<and> sc_page_id (es ! first_at es p) = p"
  by (induction es) (auto simp: first_at_def)

lemma page_run_finite [simp]: "finite (page_run first count)"
  by (rule finite)

lemma page_run_first: "0 < count \<Longrightarrow> first \<in> page_run first count"
  by (simp add: page_run_def)

text \<open>What a client of the selection needs: it leaves the scan alone, or the selected positions hold a run.\<close>

lemma select_outcome:
  assumes "0 < count"
  obtains "select_earliest_run scan count = scan"
  | first S k where "select_earliest_run scan count = scan\<lparr> rs_entries := take k (rs_entries scan), rs_selected := Some S \<rparr>"
      "is_run (sc_page_id ` set (rs_entries scan)) count first"
      "(\<lambda>i. sc_page_id (take k (rs_entries scan) ! i)) ` {i \<in> S. i < length (take k (rs_entries scan))} = page_run first count"
proof -
  let ?es = "rs_entries scan"
  define runs where "runs = filter (is_run (sc_page_id ` set ?es) count) (sorted_list_of_set (sc_page_id ` set ?es))"
  define first where "first = arg_min_list (\<lambda>first. Max (first_at ?es ` page_run first count)) runs"
  let ?k = "Suc (Max (first_at ?es ` page_run first count))" and ?S = "first_at ?es ` page_run first count"
  have choice: "select_earliest_run scan count = (if runs = [] then scan else scan\<lparr> rs_entries := take ?k ?es, rs_selected := Some ?S \<rparr>)"
    using assms by (simp add: select_is_choice earliest_run_def Let_def runs_def first_def)
  show thesis
  proof (cases "runs = []")
    case False
    then have "first \<in> set runs" unfolding first_def by (rule arg_min_list_in)
    then have run: "is_run (sc_page_id ` set ?es) count first" by (simp add: runs_def)
    then have at: "first_at ?es p < length ?es" "sc_page_id (?es ! first_at ?es p) = p" "first_at ?es p < ?k" if "p \<in> page_run first count" for p
      using that first_at_nth [of p ?es] by (auto simp: is_run_def less_Suc_eq_le)
    have "(\<lambda>i. sc_page_id (take ?k ?es ! i)) ` {i \<in> ?S. i < length (take ?k ?es)} = page_run first count"
    proof -
      have "{i \<in> ?S. i < length (take ?k ?es)} = ?S" using at by auto
      moreover have "(\<lambda>i. sc_page_id (take ?k ?es ! i)) ` ?S = page_run first count"
        using at by (force simp: image_image)
      ultimately show ?thesis by simp
    qed
    then show thesis using that(2) [OF _ run] choice False by simp
  qed (use choice that(1) in simp)
qed

text \<open>
  C23. The selection of a run among the scanned ledger entries equals the choice written down directly: with no
  run of the requested length among the scanned pages the scan is unchanged; otherwise it selects the first
  ledger positions of the pages of the run whose last position is least, the lowest such run, and cuts the scan
  just after that position.
\<close>

theorem select_earliest_run_optimal:
  "select_earliest_run scan count = (if count = 0 then scan else earliest_run scan count)"
  by (rule select_is_choice)

end
