(* ===== verification/PageAlloc.thy ===== *)
theory PageAlloc
  imports Pager RunSelect
begin

text \<open>
  Page allocation of the pager (\<^verbatim>\<open>devondb-storage/src/pager.rs\<close>): reuse of retired pages from the pool of
  deferred pages and from the ledger, and appending to the file. The page cache does not show through
  (\<^verbatim>\<open>CacheProgress\<close>), so pages are read from and written to the file. The outcome of reading and of writing each
  page is an argument; within one call no page is read or written twice.
\<close>

definition RUN_SCAN_SKIP_LIMIT :: nat where "RUN_SCAN_SKIP_LIMIT = 4096"

section \<open>Pages\<close>

definition pgr_write_page_locked :: "(u64 \<Rightarrow> write_outcome) \<Rightarrow> u64 \<Rightarrow> bytes \<Rightarrow> pager \<Rightarrow> unit devon_result \<times> pager" where
  "pgr_write_page_locked wr page_id data pg =
    (case page_offset page_id (pgr_page_size pg) of
       Inl e \<Rightarrow> (Inl e, pg)
     | Inr offset \<Rightarrow> (case backend_write (wr page_id) (pgr_file pg) offset data of (res, bs) \<Rightarrow> (res, pg\<lparr> pgr_file := bs \<rparr>)))"

definition pgr_write_page :: "(u64 \<Rightarrow> write_outcome) \<Rightarrow> u64 \<Rightarrow> bytes \<Rightarrow> pager \<Rightarrow> unit devon_result \<times> pager" where
  "pgr_write_page wr page_id data pg =
    (case ensure_data_page page_id of
       Inl e \<Rightarrow> (Inl e, pg)
     | Inr _ \<Rightarrow>
         if length data \<noteq> pgr_page_size pg then (Inl (InvalidArgument ''page data length must equal the database page size''), pg)
         else pgr_write_page_locked wr page_id data pg)"

definition pgr_page_count :: "pager \<Rightarrow> nat" where
  "pgr_page_count pg = length (pgr_file pg) div pgr_page_size pg"

definition is_reusable_page_id :: "pager \<Rightarrow> u64 \<Rightarrow> bool" where
  "is_reusable_page_id pg page_id \<longleftrightarrow> ensure_data_page page_id = Inr () \<and> unat page_id < pgr_page_count pg"

definition read_ledger_page_locked ::
    "(u32 \<Rightarrow> bytes \<Rightarrow> u32) \<Rightarrow> (u64 \<Rightarrow> unit devon_result) \<Rightarrow> pager \<Rightarrow> u64 \<Rightarrow> ledger_page devon_result" where
  "read_ledger_page_locked crc32c_append rd pg page_id =
    rbind (readable_page_offset (pgr_page_size pg) (pgr_file pg) page_id) (\<lambda>offset.
    rbind (read_page_at (pgr_page_size pg) (rd page_id) (pgr_file pg) offset) (ledger_decode crc32c_append))"

definition effective_consumed :: "pager \<Rightarrow> u64 \<Rightarrow> ledger_page \<Rightarrow> u32" where
  "effective_consumed pg page_id decoded =
    max (case bt_get (fs_consumed_in_session (pgr_free pg)) page_id of Some consumed \<Rightarrow> consumed | None \<Rightarrow> lp_consumed_count decoded)
      (lp_consumed_count decoded)"

definition degrade_free_pages_locked :: "pager \<Rightarrow> pager" where
  "degrade_free_pages_locked pg =
    (let free = pgr_free pg;
         free = (case fs_extension free of
                   Some ext \<Rightarrow> free\<lparr> fs_extension := None, fs_retired_total_floor := max (fs_retired_total_floor free) (retired_total ext) \<rparr>
                 | None \<Rightarrow> free)
     in pg\<lparr> pgr_free := free\<lparr> fs_degraded := True, fs_consumed_in_session := [] \<rparr> \<rparr>)"

definition raise_min_pin :: "u64 \<Rightarrow> pager \<Rightarrow> pager" where
  "raise_min_pin candidate pg = pg\<lparr> pgr_min_pin := max (pgr_min_pin pg) candidate \<rparr>"

section \<open>Reuse\<close>

fun zero_reused_pages_locked :: "(u64 \<Rightarrow> write_outcome) \<Rightarrow> u64 list \<Rightarrow> pager \<Rightarrow> unit devon_result \<times> pager" where
  "zero_reused_pages_locked wr [] pg = (Inr (), pg)"
| "zero_reused_pages_locked wr (page_id # page_ids) pg =
    (case pgr_write_page_locked wr page_id (replicate (pgr_page_size pg) 0) pg of
       (Inl e, pg) \<Rightarrow> (Inl e, pg)
     | (Inr _, pg) \<Rightarrow> zero_reused_pages_locked wr page_ids pg)"

definition try_deferred_run_locked :: "(u64 \<Rightarrow> write_outcome) \<Rightarrow> nat \<Rightarrow> pager \<Rightarrow> u64 option devon_result \<times> pager" where
  "try_deferred_run_locked wr count pg =
    (case find_contiguous_run (fs_deferred_reuse (pgr_free pg)) count of
       None \<Rightarrow> (Inr None, pg)
     | Some candidates \<Rightarrow>
         if \<exists>page_id \<in> set candidates. \<not> is_reusable_page_id pg page_id then (Inr None, degrade_free_pages_locked pg)
         else
           (case zero_reused_pages_locked wr candidates pg of
              (Inl e, pg) \<Rightarrow> (Inl e, pg)
            | (Inr _, pg) \<Rightarrow>
                (let free = pgr_free pg
                 in (Inr (Some (hd candidates)),
                     pg\<lparr> pgr_free := free\<lparr> fs_deferred_reuse := fs_deferred_reuse free - set candidates,
                                          fs_reused_in_session := fs_reused_in_session free + length candidates \<rparr> \<rparr>))))"

definition scan_ledger_page_locked ::
    "(u32 \<Rightarrow> bytes \<Rightarrow> u32) \<Rightarrow> (u64 \<Rightarrow> unit devon_result) \<Rightarrow> u64 \<Rightarrow> reuse_scan \<Rightarrow> pager \<Rightarrow> (ledger_page \<times> reuse_scan) option \<times> pager" where
  "scan_ledger_page_locked crc32c_append rd cursor scan pg =
    (if cursor \<in> set (rs_ledger_pages scan) \<or> length (cursor # rs_ledger_pages scan) > pgr_page_count pg
     then (None, degrade_free_pages_locked pg)
     else
       (case read_ledger_page_locked crc32c_append rd pg cursor of
          Inr decoded \<Rightarrow> (Some (decoded, scan\<lparr> rs_ledger_pages := cursor # rs_ledger_pages scan \<rparr>), pg)
        | Inl _ \<Rightarrow> (None, degrade_free_pages_locked pg)))"

text \<open>The loop over the entries of one ledger page; the flag says whether it broke off.\<close>

fun scan_entries :: "u64 \<Rightarrow> u64 \<Rightarrow> nat \<Rightarrow> (nat \<times> ledger_entry) list \<Rightarrow> scanned_reuse_entry list \<Rightarrow> bool \<times> scanned_reuse_entry list" where
  "scan_entries cursor min_pin entry_limit [] scanned = (False, scanned)"
| "scan_entries cursor min_pin entry_limit ((index, entry) # entries) scanned =
    (if min_pin \<le> le_retired_lsn entry \<or> entry_limit \<le> length scanned then (True, scanned)
     else
       scan_entries cursor min_pin entry_limit entries
         (scanned @ [\<lparr> sc_ledger_page = cursor,
                       sc_consumed_after = (case u32_try_from (index + 1) of Some n \<Rightarrow> n | None \<Rightarrow> - 1),
                       sc_entry = entry \<rparr>]))"

lemma scan_page_progress:
  "scan_ledger_page_locked crc32c_append rd cursor scan pg = (Some (decoded, scan'), pg') \<Longrightarrow>
    pg' = pg \<and> scan' = scan\<lparr> rs_ledger_pages := cursor # rs_ledger_pages scan \<rparr> \<and> length (rs_ledger_pages scan) < pgr_page_count pg \<and>
    cursor \<notin> set (rs_ledger_pages scan) \<and> read_ledger_page_locked crc32c_append rd pg cursor = Inr decoded"
  by (auto simp: scan_ledger_page_locked_def split: if_splits sum.splits)

lemma select_keeps_pages [simp]: "rs_ledger_pages (select_earliest_run scan count) = rs_ledger_pages scan"
  by (simp add: select_earliest_run_def Let_def split: prod.split option.split)

function reuse_scan_loop ::
    "(u32 \<Rightarrow> bytes \<Rightarrow> u32) \<Rightarrow> (u64 \<Rightarrow> unit devon_result) \<Rightarrow> u64 \<Rightarrow> nat \<Rightarrow> nat \<Rightarrow> u64 \<Rightarrow> pager \<Rightarrow> u64 \<Rightarrow> reuse_scan \<Rightarrow> reuse_scan option \<times> pager" where
  "reuse_scan_loop crc32c_append rd min_pin count skip_capacity tail pg cursor scan =
    (case scan_ledger_page_locked crc32c_append rd cursor scan pg of
       (None, pg) \<Rightarrow> (None, pg)
     | (Some (decoded, scan), pg) \<Rightarrow>
         (let consumed = unat (effective_consumed pg cursor decoded);
              entry_limit = saturating_add_usize count RUN_SCAN_SKIP_LIMIT;
              (exhausted, entries) = scan_entries cursor min_pin entry_limit (drop consumed (enumerate 0 (lp_entries decoded))) (rs_entries scan);
              scan = scan\<lparr> rs_entries := entries \<rparr>;
              scan = (if count \<le> length entries then select_earliest_run scan count else scan)
          in if rs_selected scan \<noteq> None then (Some scan, pg)
             else if exhausted \<or> cursor = tail \<or> lp_next_page decoded = 0 then (Some (trim_unselected_scan scan skip_capacity), pg)
             else reuse_scan_loop crc32c_append rd min_pin count skip_capacity tail pg (lp_next_page decoded) scan))"
  by pat_completeness auto
termination
  by (relation "measure (\<lambda>(_, _, _, _, _, _, pg, _, scan). pgr_page_count pg - length (rs_ledger_pages scan))")
    (auto dest!: scan_page_progress [OF sym] split: if_splits)

definition scan_reclaimable_run_locked ::
    "(u32 \<Rightarrow> bytes \<Rightarrow> u32) \<Rightarrow> (u64 \<Rightarrow> unit devon_result) \<Rightarrow> superblock_extension \<Rightarrow> u64 \<Rightarrow> nat \<Rightarrow> nat \<Rightarrow> pager \<Rightarrow> reuse_scan option \<times> pager" where
  "scan_reclaimable_run_locked crc32c_append rd ext min_pin count skip_capacity pg =
    reuse_scan_loop crc32c_append rd min_pin count skip_capacity (retire_ledger_tail ext) pg (retire_ledger_head ext)
      \<lparr> rs_entries = [], rs_selected = None, rs_ledger_pages = [] \<rparr>"

definition note_consumed :: "scanned_reuse_entry \<Rightarrow> (u64, u32) btree \<Rightarrow> (u64, u32) btree" where
  "note_consumed candidate consumed =
    bt_entry (sc_ledger_page candidate) (sc_consumed_after candidate) (\<lambda>n. max n (sc_consumed_after candidate)) consumed"

definition stage_reuse_scan_locked :: "(u64 \<Rightarrow> write_outcome) \<Rightarrow> reuse_scan \<Rightarrow> pager \<Rightarrow> u64 option devon_result \<times> pager" where
  "stage_reuse_scan_locked wr scan pg =
    (if \<exists>c \<in> set (rs_entries scan). sc_page_id c \<in> set (rs_ledger_pages scan) \<or> \<not> is_reusable_page_id pg (sc_page_id c)
     then (Inr None, degrade_free_pages_locked pg)
     else
       (let selected = (case rs_selected scan of Some indices \<Rightarrow> indices | None \<Rightarrow> {});
            selected_ids = (\<lambda>i. sc_page_id (rs_entries scan ! i)) ` {i \<in> selected. i < length (rs_entries scan)};
            run = sorted_list_of_set selected_ids
        in case zero_reused_pages_locked wr run pg of
             (Inl e, pg) \<Rightarrow> (Inl e, pg)
           | (Inr _, pg) \<Rightarrow>
               (let free = pgr_free pg
                in (Inr (case run of [] \<Rightarrow> None | first # _ \<Rightarrow> Some first),
                    pg\<lparr> pgr_free := free\<lparr>
                      fs_consumed_in_session := fold note_consumed (rs_entries scan) (fs_consumed_in_session free),
                      fs_deferred_reuse := fs_deferred_reuse free \<union> (sc_page_id ` set (rs_entries scan) - selected_ids),
                      fs_reused_in_session := fs_reused_in_session free + length run \<rparr> \<rparr>))))"

definition try_reuse_run_locked ::
    "(u32 \<Rightarrow> bytes \<Rightarrow> u32) \<Rightarrow> (u64 \<Rightarrow> unit devon_result) \<Rightarrow> (u64 \<Rightarrow> write_outcome) \<Rightarrow> nat \<Rightarrow> pager \<Rightarrow> u64 option devon_result \<times> pager" where
  "try_reuse_run_locked crc32c_append rd wr count pg =
    (case try_deferred_run_locked wr count pg of
       (Inl e, pg) \<Rightarrow> (Inl e, pg)
     | (Inr (Some first), pg) \<Rightarrow> (Inr (Some first), pg)
     | (Inr None, pg) \<Rightarrow>
         if pgr_min_pin pg = 0 then (Inr None, pg)
         else
           (case fs_extension (pgr_free pg) of
              None \<Rightarrow> (Inr None, pg)
            | Some ext \<Rightarrow>
                if \<not> has_ledger ext then (Inr None, pg)
                else
                  (case scan_reclaimable_run_locked crc32c_append rd ext (pgr_min_pin pg) count
                      (ledger_capacity (pgr_page_size pg) - card (fs_deferred_reuse (pgr_free pg))) pg of
                     (None, pg) \<Rightarrow> (Inr None, pg)
                   | (Some scan, pg) \<Rightarrow> stage_reuse_scan_locked wr scan pg)))"

section \<open>Appending\<close>

fun append_pages :: "(u64 \<Rightarrow> write_outcome) \<Rightarrow> nat \<Rightarrow> nat \<Rightarrow> nat list \<Rightarrow> bytes \<Rightarrow> unit devon_result \<times> bytes" where
  "append_pages wr page_size file_len [] bs = (Inr (), bs)"
| "append_pages wr page_size file_len (index # indices) bs =
    (case rbind (ok_or (InvalidArgument ''page run length overflows u64'') (checked_mul_usize page_size index)) (\<lambda>skip.
          ok_or (InvalidArgument ''page run end overflows u64'') (checked_add_usize file_len skip)) of
       Inl e \<Rightarrow> (Inl e, bs)
     | Inr offset \<Rightarrow>
         (case backend_write (wr (word_of_nat (file_len div page_size + index))) bs offset (replicate page_size 0) of
            (Inl e, bs) \<Rightarrow> (Inl e, bs)
          | (Inr _, bs) \<Rightarrow> append_pages wr page_size file_len indices bs))"

definition append_run_locked :: "(u64 \<Rightarrow> write_outcome) \<Rightarrow> nat \<Rightarrow> pager \<Rightarrow> u64 devon_result \<times> pager" where
  "append_run_locked wr count pg =
    (let page_size = pgr_page_size pg;
         file_len = length (pgr_file pg);
         page_id = word_of_nat (file_len div page_size)
     in if file_len mod page_size \<noteq> 0 then (Inl (Corrupt ''database file length is not page-aligned''), pg)
        else if page_id < SUPERBLOCK_SLOTS then (Inl (Corrupt ''database file is missing a superblock page''), pg)
        else
          (case append_pages wr page_size file_len [0..<count] (pgr_file pg) of
             (Inl e, bs) \<Rightarrow> (Inl e, pg\<lparr> pgr_file := bs \<rparr>)
           | (Inr _, bs) \<Rightarrow> (Inr page_id, pg\<lparr> pgr_file := bs \<rparr>)))"

definition allocate_run ::
    "(u32 \<Rightarrow> bytes \<Rightarrow> u32) \<Rightarrow> (u64 \<Rightarrow> unit devon_result) \<Rightarrow> (u64 \<Rightarrow> write_outcome) \<Rightarrow> nat \<Rightarrow> pager \<Rightarrow> u64 devon_result \<times> pager" where
  "allocate_run crc32c_append rd wr count pg =
    (if count = 0 then (Inl (InvalidArgument ''cannot allocate a run of zero pages''), pg)
     else
       (case try_reuse_run_locked crc32c_append rd wr count pg of
          (Inl e, pg) \<Rightarrow> (Inl e, pg)
        | (Inr (Some first), pg) \<Rightarrow> (Inr first, pg)
        | (Inr None, pg) \<Rightarrow> append_run_locked wr count pg))"

definition allocate_page ::
    "(u32 \<Rightarrow> bytes \<Rightarrow> u32) \<Rightarrow> (u64 \<Rightarrow> unit devon_result) \<Rightarrow> (u64 \<Rightarrow> write_outcome) \<Rightarrow> pager \<Rightarrow> u64 devon_result \<times> pager" where
  "allocate_page crc32c_append rd wr = allocate_run crc32c_append rd wr 1"

end
