(* ===== verification/CacheProgress.thy ===== *)
theory CacheProgress
  imports PageCache
begin

text \<open>
  The page cache under every interleaving of readers, the writer, memory pressure and other users of
  the budget: the clock and the frames agree, the charge is exact, cached pages are the pages of the
  file, and the clock always finds a frame to evict when there is one.
\<close>

section \<open>The frame table\<close>

definition table_ok :: "frame_table \<Rightarrow> bool" where
  "table_ok t \<longleftrightarrow> bt_wf (ft_frames t) \<and> distinct (ft_clock t) \<and> set (ft_clock t) = bt_keys (ft_frames t) \<and>
    (ft_hand t = 0 \<or> ft_hand t < length (ft_clock t))"

text \<open>The pages a table holds.\<close>

definition ft_data :: "frame_table \<Rightarrow> u64 \<rightharpoonup> page_ref" where
  "ft_data t = (\<lambda>p. map_option fr_data (bt_get (ft_frames t) p))"

lemma set_referenced_get:
  "bt_get (ft_frames (set_referenced p flag t)) q =
    map_option (\<lambda>f. if q = p then f\<lparr> fr_referenced := flag \<rparr> else f) (bt_get (ft_frames t) q)"
proof -
  have "bt_get (map (\<lambda>(k, f). (k, if k = p then f\<lparr> fr_referenced := flag \<rparr> else f)) m) q =
      map_option (\<lambda>f. if q = p then f\<lparr> fr_referenced := flag \<rparr> else f) (bt_get m q)" for m :: "(u64, cache_frame) btree"
    by (induction m) auto
  then show ?thesis by (simp add: set_referenced_def)
qed

lemma set_referenced_keys:
  "map fst (ft_frames (set_referenced p flag t)) = map fst (ft_frames t)"
  by (simp add: set_referenced_def comp_def case_prod_beta)

lemma set_referenced_table [simp]: "table_ok (set_referenced p flag t) = table_ok t"
proof -
  have "bt_keys (ft_frames (set_referenced p flag t)) = bt_keys (ft_frames t)"
    by (metis bt_keys_def list.set_map set_referenced_keys)
  then show ?thesis by (simp add: table_ok_def bt_wf_def set_referenced_keys)
qed

lemma set_referenced_data [simp]: "ft_data (set_referenced p flag t) = ft_data t"
proof
  fix q
  show "ft_data (set_referenced p flag t) q = ft_data t q"
    by (cases "bt_get (ft_frames t) q") (simp_all add: ft_data_def set_referenced_get)
qed

lemma advance_hand_ok [simp]: "ft_clock t \<noteq> [] \<Longrightarrow> table_ok t \<Longrightarrow> table_ok (advance_hand t)"
  by (simp add: table_ok_def advance_hand_def)

lemma advance_hand_data [simp]: "ft_data (advance_hand t) = ft_data t"
  by (simp add: ft_data_def)

lemma table_length: "table_ok t \<Longrightarrow> length (ft_clock t) = length (ft_frames t)"
proof -
  assume ok: "table_ok t"
  then have "distinct (map fst (ft_frames t))" by (auto simp: table_ok_def bt_wf_def strict_sorted_iff)
  then have "card (bt_keys (ft_frames t)) = length (ft_frames t)"
    by (metis bt_keys_def distinct_card length_map list.set_map)
  with ok distinct_card [of "ft_clock t"] show ?thesis by (simp add: table_ok_def)
qed

lemma keys_found: "p \<in> bt_keys m \<longleftrightarrow> (\<exists>f. bt_get m p = Some f)"
  by (metis bt_get_def bt_keys_def map_of_eq_None_iff not_None_eq)

lemma table_frame: "table_ok t \<Longrightarrow> p \<in> set (ft_clock t) \<longleftrightarrow> (\<exists>f. bt_get (ft_frames t) p = Some f)"
  by (simp add: table_ok_def keys_found)

lemma ft_insert_ok:
  assumes "table_ok t" "bt_get (ft_frames t) p = None"
  shows "table_ok (ft_insert p page t)" "ft_data (ft_insert p page t) = (ft_data t)(p \<mapsto> page)"
    "length (ft_frames (ft_insert p page t)) = Suc (length (ft_frames t))"
proof -
  have "p \<notin> set (ft_clock t)" using table_frame [OF assms(1)] assms(2) by simp
  with assms(1) show ok: "table_ok (ft_insert p page t)"
    by (auto simp: table_ok_def ft_insert_def bt_wf_insert bt_keys_insert)
  show "ft_data (ft_insert p page t) = (ft_data t)(p \<mapsto> page)"
    using assms(1) by (auto simp: ft_data_def ft_insert_def table_ok_def bt_get_insert)
  show "length (ft_frames (ft_insert p page t)) = Suc (length (ft_frames t))"
    using table_length [OF ok] table_length [OF assms(1)] by (simp add: ft_insert_def)
qed

lemma clock_remove_ok:
  assumes "distinct xs" "at < length xs"
  shows "distinct (take at xs @ drop (Suc at) xs)" "set (take at xs @ drop (Suc at) xs) = set xs - {xs ! at}"
proof -
  have xs: "xs = take at xs @ xs ! at # drop (Suc at) xs" using assms(2) by (simp add: id_take_nth_drop)
  from assms(1) have "distinct (take at xs @ xs ! at # drop (Suc at) xs)" using xs by simp
  then show "distinct (take at xs @ drop (Suc at) xs)" by simp
  have "set xs = set (take at xs) \<union> insert (xs ! at) (set (drop (Suc at) xs))" by (subst xs) simp
  with \<open>distinct (take at xs @ xs ! at # drop (Suc at) xs)\<close>
  show "set (take at xs @ drop (Suc at) xs) = set xs - {xs ! at}" by auto
qed

lemma position_member: "x \<in> set xs \<Longrightarrow> \<exists>at. position (\<lambda>y. y = x) xs = Some at"
  by (induction xs) auto

lemma ft_remove_ok:
  assumes "table_ok t" "ft_remove p t = (removed, t')"
  shows "table_ok t'" "removed \<longleftrightarrow> bt_get (ft_frames t) p \<noteq> None" "ft_data t' = (ft_data t)(p := None)"
    "length (ft_frames t) = length (ft_frames t') + of_bool removed"
proof -
  have "table_ok t' \<and> (removed \<longleftrightarrow> bt_get (ft_frames t) p \<noteq> None) \<and> ft_data t' = (ft_data t)(p := None) \<and>
      length (ft_frames t) = length (ft_frames t') + of_bool removed"
  proof (cases "bt_get (ft_frames t) p")
    case None
    with assms show ?thesis by (auto simp: ft_remove_def ft_data_def)
  next
    case (Some f)
    then have "p \<in> set (ft_clock t)" using table_frame [OF assms(1)] by simp
    then obtain at where at: "position (\<lambda>candidate. candidate = p) (ft_clock t) = Some at" using position_member [of p] by metis
    then have bound: "at < length (ft_clock t)" "ft_clock t ! at = p" unfolding position_eq_Some by blast+
    have t': "removed" "t' = clock_remove at (t\<lparr> ft_frames := bt_remove p (ft_frames t) \<rparr>)"
      using assms(2) Some at by (auto simp: ft_remove_def)
    let ?xs = "take at (ft_clock t) @ drop (Suc at) (ft_clock t)"
    have wf: "bt_wf (ft_frames t)" using assms(1) by (simp add: table_ok_def)
    note clock = clock_remove_ok [of "ft_clock t" at]
    have "bt_keys (bt_remove p (ft_frames t)) = bt_keys (ft_frames t) - {p}"
      by (auto simp: set_eq_iff keys_found bt_get_remove [OF wf])
    moreover have "ft_hand t' = 0 \<or> ft_hand t' < length (ft_clock t')"
      using assms(1) bound(1) by (auto simp: t' clock_remove_def adjust_hand_after_remove_def table_ok_def)
    ultimately have "table_ok t'"
      using assms(1) clock [OF _ bound(1)] wf unfolding table_ok_def t' by (simp add: bound(2) bt_wf_remove)
    moreover have "ft_data t' = (ft_data t)(p := None)" using bt_get_remove [OF wf] by (auto simp: ft_data_def t')
    ultimately show ?thesis using t' Some length_bt_remove [OF Some] by simp
  qed
  then show "table_ok t'" "removed \<longleftrightarrow> bt_get (ft_frames t) p \<noteq> None" "ft_data t' = (ft_data t)(p := None)"
    "length (ft_frames t) = length (ft_frames t') + of_bool removed" by simp_all
qed

section \<open>Eviction\<close>

text \<open>What a sweep of the clock does: nothing is lost, or exactly one frame that no reference pins.\<close>

definition evicts :: "(nat \<Rightarrow> bool) \<Rightarrow> frame_table \<Rightarrow> bool \<times> frame_table \<Rightarrow> bool" where
  "evicts pinned t = (\<lambda>(evicted, t'). table_ok t' \<and> length (ft_frames t) = length (ft_frames t') + of_bool evicted \<and>
    (if evicted then \<exists>p page. ft_data t p = Some page \<and> \<not> pinned (fst page) \<and> ft_data t' = (ft_data t)(p := None)
     else ft_data t' = ft_data t))"

lemma hand_in_clock: "table_ok t \<Longrightarrow> ft_clock t \<noteq> [] \<Longrightarrow> ft_hand t < length (ft_clock t)"
  by (auto simp: table_ok_def)

lemma evict_visits_sound:
  "table_ok t \<Longrightarrow> ft_clock t \<noteq> [] \<Longrightarrow> \<exists>r. evict_visits pinned n t = Some r \<and> evicts pinned t r"
proof (induction n arbitrary: t)
  case 0
  then show ?case by (simp add: evicts_def)
next
  case (Suc n)
  let ?p = "ft_clock t ! ft_hand t"
  have hand: "ft_hand t < length (ft_clock t)" using Suc.prems by (rule hand_in_clock)
  then obtain f where f: "bt_get (ft_frames t) ?p = Some f" using table_frame [OF Suc.prems(1), of ?p] by auto
  have same: "evicts pinned t r" if "evicts pinned u r" "ft_data u = ft_data t" "length (ft_frames u) = length (ft_frames t)" for u r
    using that(1) unfolding evicts_def that(2,3) .
  consider "fr_referenced f" | "\<not> fr_referenced f" "pinned (fst (fr_data f))" | "\<not> fr_referenced f" "\<not> pinned (fst (fr_data f))" by blast
  then show ?case
  proof cases
    case 1
    from Suc.IH [of "advance_hand (set_referenced ?p False t)"] Suc.prems 1 hand f same show ?thesis by (auto simp: Let_def)
  next
    case 2
    from Suc.IH [of "advance_hand t"] Suc.prems 2 hand f same show ?thesis by (auto simp: Let_def)
  next
    case 3
    obtain ev t' where r: "ft_remove ?p t = (ev, t')" by fastforce
    note removed = ft_remove_ok [OF Suc.prems(1) r]
    have "evicts pinned t (ev, t')"
      using removed f 3 by (auto simp: evicts_def ft_data_def simp del: split_paired_Ex intro!: exI [of _ ?p])
    with 3 hand f r show ?thesis by (simp add: Let_def)
  qed
qed

text \<open>How many visits the hand needs to reach a frame it may evict: twice around at most.\<close>

definition visits_needed :: "frame_table \<Rightarrow> nat \<Rightarrow> cache_frame \<Rightarrow> nat" where
  "visits_needed t i f = (i + length (ft_clock t) - ft_hand t) mod length (ft_clock t) + 1 +
    (if fr_referenced f then length (ft_clock t) else 0)"

lemma distance_step:
  assumes "h < n" "i < n"
  shows "i = h \<Longrightarrow> (i + n - h) mod n = 0" "i \<noteq> h \<Longrightarrow> (i + n - h) mod n = Suc ((i + n - Suc h mod n) mod n)"
    "i = h \<Longrightarrow> (i + n - Suc h mod n) mod n = n - 1"
proof -
  show "i = h \<Longrightarrow> (i + n - h) mod n = 0" using assms by simp
  show "i \<noteq> h \<Longrightarrow> (i + n - h) mod n = Suc ((i + n - Suc h mod n) mod n)"
    using assms by (cases "Suc h = n"; cases "h < i") (auto simp: mod_if le_mod_geq)
  show "i = h \<Longrightarrow> (i + n - Suc h mod n) mod n = n - 1"
    using assms by (cases "Suc h = n") (auto simp: mod_if)
qed

lemma evict_visits_progress:
  "table_ok t \<Longrightarrow> i < length (ft_clock t) \<Longrightarrow> bt_get (ft_frames t) (ft_clock t ! i) = Some f \<Longrightarrow>
    \<not> pinned (fst (fr_data f)) \<Longrightarrow> visits_needed t i f \<le> n \<Longrightarrow> \<exists>t'. evict_visits pinned n t = Some (True, t')"
proof (induction n arbitrary: t f)
  case 0
  then show ?case by (simp add: visits_needed_def)
next
  case (Suc n)
  let ?p = "ft_clock t ! ft_hand t" and ?len = "length (ft_clock t)"
  have hand: "ft_hand t < ?len" using Suc.prems(1,2) by (intro hand_in_clock) auto
  then obtain g where g: "bt_get (ft_frames t) ?p = Some g" using table_frame [OF Suc.prems(1), of ?p] by auto
  have nonempty: "ft_clock t \<noteq> []" using hand by auto
  note dist = distance_step [OF hand Suc.prems(2)]
  have i_p: "i = ft_hand t \<longleftrightarrow> ft_clock t ! i = ?p"
    using Suc.prems(1,2) hand by (auto simp: table_ok_def nth_eq_iff_index_eq)
  show ?case
  proof (cases "fr_referenced g")
    case True
    let ?t = "advance_hand (set_referenced ?p False t)"
    let ?f = "if i = ft_hand t then f\<lparr> fr_referenced := False \<rparr> else f"
    have "bt_get (ft_frames ?t) (ft_clock ?t ! i) = Some ?f" using Suc.prems(3) i_p by (simp add: set_referenced_get)
    moreover have "visits_needed ?t i ?f \<le> n"
      using Suc.prems(3,5) dist g True i_p hand by (auto simp: visits_needed_def advance_hand_def split: if_splits)
    ultimately have "\<exists>t'. evict_visits pinned n ?t = Some (True, t')"
      using Suc.prems(1,2,4) nonempty by (intro Suc.IH) auto
    with hand g True show ?thesis by (simp add: Let_def)
  next
    case False
    show ?thesis
    proof (cases "pinned (fst (fr_data g))")
      case True
      with Suc.prems(3,4) g i_p have "i \<noteq> ft_hand t" by auto
      with dist(2) Suc.prems(5) have "visits_needed (advance_hand t) i f \<le> n"
        by (auto simp: visits_needed_def advance_hand_def split: if_splits)
      with Suc.prems(1-4) nonempty have "\<exists>t'. evict_visits pinned n (advance_hand t) = Some (True, t')"
        by (intro Suc.IH) auto
      with hand g False True show ?thesis by (simp add: Let_def)
    next
      case unpinned: False
      with hand g False show ?thesis by (simp add: Let_def ft_remove_def)
    qed
  qed
qed

lemma evict_one_sound:
  assumes "table_ok t"
  shows "\<exists>r. evict_one pinned t = Some r \<and> evicts pinned t r"
proof (cases "length (ft_frames t) < MIN_CACHE_FRAMES")
  case True
  with assms show ?thesis by (simp add: evict_one_def evicts_def)
next
  case False
  then have "ft_clock t \<noteq> []" using table_length [OF assms] by (auto simp: MIN_CACHE_FRAMES_def)
  with False evict_visits_sound [OF assms] show ?thesis by (simp add: evict_one_def)
qed

text \<open>A frame that may go: the floor is reached and some frame is not pinned.\<close>

definition evictable :: "(nat \<Rightarrow> bool) \<Rightarrow> frame_table \<Rightarrow> bool" where
  "evictable pinned t \<longleftrightarrow> MIN_CACHE_FRAMES \<le> length (ft_frames t) \<and> (\<exists>p page. ft_data t p = Some page \<and> \<not> pinned (fst page))"

lemma evict_one_iff:
  assumes "table_ok t" "length (ft_frames t) < 2 ^ 63" "evict_one pinned t = Some (evicted, t')"
  shows "evicted \<longleftrightarrow> evictable pinned t"
proof
  assume evicted
  with assms(3) have "MIN_CACHE_FRAMES \<le> length (ft_frames t)" by (auto simp: evict_one_def split: if_splits)
  moreover have "evicts pinned t (True, t')" using evict_one_sound [OF assms(1), of pinned] assms(3) \<open>evicted\<close> by auto
  ultimately show "evictable pinned t" unfolding evicts_def evictable_def by (simp del: split_paired_Ex) blast
next
  assume "evictable pinned t"
  then obtain p f where f: "bt_get (ft_frames t) p = Some f" "\<not> pinned (fst (fr_data f))" "MIN_CACHE_FRAMES \<le> length (ft_frames t)"
    by (auto simp: evictable_def ft_data_def)
  then obtain i where i: "i < length (ft_clock t)" "ft_clock t ! i = p" using table_frame [OF assms(1), of p] by (auto simp: in_set_conv_nth)
  define d where "d = (i + length (ft_clock t) - ft_hand t) mod length (ft_clock t)"
  have "d < length (ft_clock t)" unfolding d_def by (rule mod_less_divisor) (use i(1) in linarith)
  then have "visits_needed t i f \<le> min (length (ft_clock t) * 2) (2 ^ 64 - 1)"
    using assms(2) table_length [OF assms(1)] unfolding visits_needed_def d_def [symmetric] by auto
  from evict_visits_progress [OF assms(1) i(1) _ _ this, of pinned] f i(2) assms(3) show evicted
    by (auto simp: evict_one_def)
qed

section \<open>Making room\<close>

text \<open>What a loop that evicts leaves of a table: the frames that are gone were not pinned.\<close>

definition shrunk :: "(nat \<Rightarrow> bool) \<Rightarrow> frame_table \<Rightarrow> frame_table \<Rightarrow> bool" where
  "shrunk pinned t t' \<longleftrightarrow> table_ok t' \<and> length (ft_frames t') \<le> length (ft_frames t) \<and> ft_data t' \<subseteq>\<^sub>m ft_data t \<and>
    (\<forall>p page. ft_data t p = Some page \<and> pinned (fst page) \<longrightarrow> ft_data t' p = Some page)"

lemma shrunk_refl: "table_ok t \<Longrightarrow> shrunk pinned t t"
  by (simp add: shrunk_def)

lemma shrunk_trans: "shrunk pinned t u \<Longrightarrow> shrunk pinned u v \<Longrightarrow> shrunk pinned t v"
  by (auto simp: shrunk_def intro: map_le_trans)

lemma evicts_shrunk: "evicts pinned t (evicted, t') \<Longrightarrow> shrunk pinned t t'"
  by (cases evicted) (auto simp: evicts_def shrunk_def map_le_def split: if_splits)

lemma evict_one_step:
  assumes "table_ok t" "length (ft_frames t) < 2 ^ 63"
  obtains (evicted) t' where "evict_one pinned t = Some (True, t')" "shrunk pinned t t'" "length (ft_frames t) = Suc (length (ft_frames t'))"
    | (stuck) t' where "evict_one pinned t = Some (False, t')" "shrunk pinned t t'" "length (ft_frames t') = length (ft_frames t)"
        "\<not> evictable pinned t'"
proof -
  obtain ev t' where r: "evict_one pinned t = Some (ev, t')" "evicts pinned t (ev, t')"
    using evict_one_sound [OF assms(1), of pinned] by auto
  show ?thesis
  proof (cases ev)
    case True
    with r evicted evicts_shrunk [OF r(2)] show ?thesis by (simp add: evicts_def)
  next
    case False
    with evict_one_iff [OF assms r(1)] r(2) have "\<not> evictable pinned t'" by (simp add: evictable_def evicts_def)
    with False r stuck evicts_shrunk [OF r(2)] show ?thesis by (simp add: evicts_def)
  qed
qed

lemma shed_loop_sound:
  assumes "table_ok t" "length (ft_frames t) < 2 ^ 63" "length (ft_frames t) * charge \<le> mb_charged b"
    and "released + length (ft_frames t) * charge < usize_bound"
  shows "\<exists>evicted' t' n. shed_loop pinned charge wanted released evicted (t, b) =
      Some (evicted', t', b\<lparr> mb_charged := mb_charged b - n * charge \<rparr>) \<and>
    shrunk pinned t t' \<and> length (ft_frames t) = length (ft_frames t') + n \<and> (evicted' \<longleftrightarrow> evicted \<or> 0 < n) \<and>
    (wanted \<le> released + n * charge \<or> \<not> evictable pinned t') \<and> (0 < n \<longrightarrow> released + (n - 1) * charge < wanted)"
  using assms
proof (induction "length (ft_frames t)" arbitrary: t b released evicted rule: less_induct)
  case less
  show ?case
  proof (cases "released < wanted")
    case False
    then show ?thesis
      using less.prems(1) by (intro exI [of _ evicted] exI [of _ t] exI [of _ 0]) (simp add: shed_loop.simps shrunk_refl)
  next
    case True
    from less.prems(1,2) show ?thesis
    proof (cases rule: evict_one_step [of t pinned])
      case (evicted u)
      let ?b = "release b charge" and ?released = "released + charge"
      have step: "shed_loop pinned charge wanted released evicted (t, b) = shed_loop pinned charge wanted ?released True (u, ?b)" for evicted
        using True less.prems(4) evicted(1,3) by (simp add: shed_loop.simps [of pinned charge wanted released] saturating_add_usize_def)
      have "table_ok u" "length (ft_frames u) * charge \<le> mb_charged ?b" "?released + length (ft_frames u) * charge < usize_bound"
        using evicted(2,3) less.prems(3,4) by (simp_all add: shrunk_def release_def release_attempt_def)
      with less.hyps [of u ?b ?released True] less.prems evicted(3) obtain ev t' n where
        run: "shed_loop pinned charge wanted ?released True (u, ?b) = Some (ev, t', ?b\<lparr> mb_charged := mb_charged ?b - n * charge \<rparr>)"
        and rest: "shrunk pinned u t'" "length (ft_frames u) = length (ft_frames t') + n" "ev"
          "wanted \<le> ?released + n * charge \<or> \<not> evictable pinned t'" "0 < n \<longrightarrow> ?released + (n - 1) * charge < wanted"
        by (auto simp: release_def release_attempt_def)
      have "?b\<lparr> mb_charged := mb_charged ?b - n * charge \<rparr> = b\<lparr> mb_charged := mb_charged b - Suc n * charge \<rparr>"
        by (simp add: release_def release_attempt_def)
      with step run rest evicted(3) True shrunk_trans [OF evicted(2) rest(1)] show ?thesis
        by (intro exI [of _ True] exI [of _ t'] exI [of _ "Suc n"]) (cases n; simp add: algebra_simps)
    next
      case (stuck u)
      with True show ?thesis
        by (intro exI [of _ evicted] exI [of _ u] exI [of _ 0]) (simp add: shed_loop.simps)
    qed
  qed
qed

lemma charge_attempt_room: "try_charge b bytes = (True, b') \<longleftrightarrow>
    mb_charged b + bytes \<le> mb_limit b \<and> mb_charged b + bytes < usize_bound \<and> b' = b\<lparr> mb_charged := mb_charged b + bytes \<rparr>"
  "try_charge b bytes = (False, b') \<longleftrightarrow> (mb_limit b < mb_charged b + bytes \<or> usize_bound \<le> mb_charged b + bytes) \<and> b' = b"
  by (auto simp: try_charge_def charge_attempt_def checked_add_usize_def)

text \<open>
  A charge that does not fit at once evicts until it fits; it is refused only when nothing more can
  go. Evicting one frame always makes room, when the charge of frames fits at all.
\<close>

lemma charge_after_reclaim_sound:
  assumes "table_ok t" "length (ft_frames t) < 2 ^ 63" "length (ft_frames t) * charge \<le> mb_charged b"
    and "mb_charged b \<le> mb_limit b" "mb_charged b < usize_bound"
  shows "\<exists>ok t' n. charge_after_reclaim pinned charge (t, b) =
      Some (ok, t', b\<lparr> mb_charged := mb_charged b - n * charge + of_bool ok * charge \<rparr>) \<and> n \<le> 1 \<and>
    shrunk pinned t t' \<and> length (ft_frames t) = length (ft_frames t') + n \<and>
    (ok \<longleftrightarrow> n = 1 \<or> mb_charged b + charge \<le> mb_limit b \<and> mb_charged b + charge < usize_bound) \<and>
    (\<not> ok \<longrightarrow> \<not> evictable pinned t)"
proof (cases "try_charge b charge")
  case (Pair ok b1)
  show ?thesis
  proof (cases ok)
    case True
    with Pair have "mb_charged b + charge \<le> mb_limit b" "mb_charged b + charge < usize_bound" "b1 = b\<lparr> mb_charged := mb_charged b + charge \<rparr>"
      by (simp_all add: charge_attempt_room)
    with True Pair assms(1) show ?thesis
      by (intro exI [of _ True] exI [of _ t] exI [of _ 0]) (simp add: charge_after_reclaim_def shrunk_refl)
  next
    case False
    with Pair have full: "mb_limit b < mb_charged b + charge \<or> usize_bound \<le> mb_charged b + charge" "b1 = b"
      by (simp_all add: charge_attempt_room)
    from assms(1,2) show ?thesis
    proof (cases rule: evict_one_step [of t pinned])
      case (evicted u)
      then have room: "charge \<le> mb_charged b" using assms(3) by simp
      then have "try_charge (release b charge) charge = (True, b\<lparr> mb_charged := mb_charged b - charge + charge \<rparr>)"
        using assms(4,5) by (simp add: charge_attempt_room release_def release_attempt_def)
      with False Pair evicted full show ?thesis
        by (intro exI [of _ True] exI [of _ u] exI [of _ 1]) (simp add: charge_after_reclaim_def charge_loop.simps)
    next
      case (stuck u)
      with evict_one_iff [OF assms(1,2) stuck(1)] False Pair full show ?thesis
        by (intro exI [of _ False] exI [of _ u] exI [of _ 0]) (auto simp: charge_after_reclaim_def charge_loop.simps)
    qed
  qed
qed

section \<open>Readers, a writer and other users of the budget\<close>

text \<open>
  The cache with the pages whose last write has not completed and what the rest of the process has
  charged. A write reaches the file first, whole or in part, and then discards the frame of its page;
  readers run in between.
\<close>

type_synonym cache_world = "page_cache \<times> u64 set \<times> nat"

definition page_bytes :: "nat \<Rightarrow> bytes \<Rightarrow> u64 \<Rightarrow> bytes" where
  "page_bytes page_size bs p = subslice bs (unat p * page_size) (unat p * page_size + page_size)"

inductive cache_step :: "nat \<Rightarrow> cache_world \<Rightarrow> cache_world \<Rightarrow> bool" for page_size :: nat where
  read: "read_page_ref page_size io p pg = Some (res, pg') \<Longrightarrow> cache_step page_size (pg, dirty, other) (pg', dirty, other)"
| drop_ref: "cache_step page_size (pg, dirty, other) (drop_page_ref a pg, dirty, other)"
| write_bytes: "ensure_data_page p = Inr () \<Longrightarrow> length data = page_size \<Longrightarrow> page_offset p page_size = Inr offset \<Longrightarrow>
    backend_write outcome (pg_file pg) offset data = (res, bs) \<Longrightarrow>
    cache_step page_size (pg, dirty, other) (pg\<lparr> pg_file := bs \<rparr>, insert p dirty, other)"
| discard: "cache_step page_size (pg, dirty, other) (invalidate page_size p pg, dirty - {p}, other)"
| shed: "pager_shed_cache page_size bytes pg = Some (res, pg') \<Longrightarrow> bytes < usize_bound \<Longrightarrow>
    cache_step page_size (pg, dirty, other) (pg', dirty, other)"
| charge: "try_charge (pg_budget pg) bytes = (True, b) \<Longrightarrow>
    cache_step page_size (pg, dirty, other) (pg\<lparr> pg_budget := b \<rparr>, dirty, other + bytes)"
| release: "bytes \<le> other \<Longrightarrow>
    cache_step page_size (pg, dirty, other) (pg\<lparr> pg_budget := release (pg_budget pg) bytes \<rparr>, dirty, other - bytes)"

definition cache_init :: "cache_world \<Rightarrow> bool" where
  "cache_init = (\<lambda>(pg, dirty, other). pg_table pg = frame_table_default \<and> mb_charged (pg_budget pg) = other \<and>
    other \<le> mb_limit (pg_budget pg) \<and> mb_limit (pg_budget pg) < usize_bound)"

text \<open>Cached pages are the pages of the file, but for those with an unfinished write.\<close>

definition coherent :: "nat \<Rightarrow> bytes \<Rightarrow> u64 set \<Rightarrow> (u64 \<rightharpoonup> page_ref) \<Rightarrow> bool" where
  "coherent page_size bs dirty data \<longleftrightarrow> (\<forall>p page. data p = Some page \<and> p \<notin> dirty \<longrightarrow>
    unat p * page_size + page_size \<le> length bs \<and> snd page = page_bytes page_size bs p)"

lemma coherent_le: "coherent page_size bs dirty data \<Longrightarrow> data' \<subseteq>\<^sub>m data \<Longrightarrow> coherent page_size bs dirty data'"
  unfolding coherent_def by (metis domI map_le_def)

lemma coherent_insert:
  "coherent page_size bs dirty data \<Longrightarrow> unat p * page_size + page_size \<le> length bs \<Longrightarrow> snd page = page_bytes page_size bs p \<Longrightarrow>
    coherent page_size bs dirty (data(p \<mapsto> page))"
  by (auto simp: coherent_def)

lemma coherent_discard: "coherent page_size bs dirty data \<Longrightarrow> coherent page_size bs (dirty - {p}) (data(p := None))"
  by (auto simp: coherent_def split: if_splits)

definition cache_inv :: "nat \<Rightarrow> cache_world \<Rightarrow> bool" where
  "cache_inv page_size = (\<lambda>(pg, dirty, other). table_ok (pg_table pg) \<and>
    mb_charged (pg_budget pg) = other + length (ft_frames (pg_table pg)) * frame_charge page_size \<and>
    mb_charged (pg_budget pg) \<le> mb_limit (pg_budget pg) \<and> mb_limit (pg_budget pg) < usize_bound \<and>
    coherent page_size (pg_file pg) dirty (ft_data (pg_table pg)))"

lemma cache_inv_bounds:
  assumes "cache_inv page_size (pg, dirty, other)"
  shows "length (ft_frames (pg_table pg)) < 2 ^ 63"
    "length (ft_frames (pg_table pg)) * frame_charge page_size \<le> mb_charged (pg_budget pg)" "mb_charged (pg_budget pg) < usize_bound"
proof -
  from assms have c: "length (ft_frames (pg_table pg)) * frame_charge page_size \<le> mb_charged (pg_budget pg)"
    "mb_charged (pg_budget pg) < usize_bound" by (auto simp: cache_inv_def)
  have "length (ft_frames (pg_table pg)) * 64 \<le> length (ft_frames (pg_table pg)) * frame_charge page_size"
    by (rule mult_le_mono2) (simp add: frame_charge_def FRAME_OVERHEAD_def)
  from le_less_trans [OF order_trans [OF this c(1)] c(2)] show "length (ft_frames (pg_table pg)) < 2 ^ 63" by simp
  from c show "length (ft_frames (pg_table pg)) * frame_charge page_size \<le> mb_charged (pg_budget pg)" "mb_charged (pg_budget pg) < usize_bound"
    by simp_all
qed

lemma cache_inv_shrunk:
  assumes "cache_inv page_size (pg, dirty, other)" "shrunk pinned (pg_table pg) t"
    and "length (ft_frames (pg_table pg)) = length (ft_frames t) + n"
  shows "cache_inv page_size (pg\<lparr> pg_table := t, pg_budget := (pg_budget pg)\<lparr> mb_charged := mb_charged (pg_budget pg) - n * frame_charge page_size \<rparr> \<rparr>, dirty, other)"
proof -
  have "mb_charged (pg_budget pg) - n * frame_charge page_size = other + length (ft_frames t) * frame_charge page_size"
    using assms(1,3) by (simp add: cache_inv_def add_mult_distrib)
  moreover have "other + length (ft_frames t) * frame_charge page_size \<le> mb_limit (pg_budget pg)"
    using assms(1,3) by (auto simp: cache_inv_def add_mult_distrib)
  moreover have "coherent page_size (pg_file pg) dirty (ft_data t)"
    using assms(1,2) by (auto simp: cache_inv_def shrunk_def intro: coherent_le)
  moreover have "table_ok t" using assms(2) by (simp add: shrunk_def)
  ultimately show ?thesis using assms(1) by (simp add: cache_inv_def)
qed

text \<open>A frame for a page read from the file.\<close>

lemma cache_inv_insert:
  assumes "cache_inv page_size (pg, dirty, other)" "bt_get (ft_frames (pg_table pg)) p = None"
    and "mb_charged (pg_budget pg) + frame_charge page_size \<le> mb_limit (pg_budget pg)"
    and "unat p * page_size + page_size \<le> length (pg_file pg)" "snd page = page_bytes page_size (pg_file pg) p"
  shows "cache_inv page_size (pg\<lparr> pg_table := ft_insert p page (pg_table pg),
    pg_budget := (pg_budget pg)\<lparr> mb_charged := mb_charged (pg_budget pg) + frame_charge page_size \<rparr> \<rparr>, dirty, other)"
proof -
  have "table_ok (pg_table pg)" using assms(1) by (simp add: cache_inv_def)
  note ins = ft_insert_ok [OF this assms(2)]
  have "coherent page_size (pg_file pg) dirty ((ft_data (pg_table pg))(p \<mapsto> page))"
    using assms(1,4,5) by (auto simp: cache_inv_def intro: coherent_insert)
  with ins assms(1,3) show ?thesis by (simp add: cache_inv_def)
qed

lemma cache_inv_handles:
  "cache_inv page_size (pg\<lparr> pg_handles := hs \<rparr>, dirty, other) = cache_inv page_size (pg, dirty, other)"
  "cache_inv page_size (pg\<lparr> pg_handles := hs, pg_next := n \<rparr>, dirty, other) = cache_inv page_size (pg, dirty, other)"
  by (simp_all add: cache_inv_def)

lemma readable_offset_iff:
  "readable_page_offset page_size bs p = Inr offset \<longleftrightarrow> 2 \<le> p \<and> offset = unat p * page_size \<and>
    unat p * page_size + page_size < usize_bound \<and> unat p * page_size + page_size \<le> length bs"
  by (auto simp: readable_page_offset_def ensure_data_page_def page_offset_def SUPERBLOCK_SLOTS_def rbind_eq_Inr result_simps
      checked_mul_usize_def checked_add_usize_def not_less split: if_splits)

text \<open>What a read returns: the frame, or the page of the file, and never a panic.\<close>

definition read_result :: "nat \<Rightarrow> unit devon_result \<Rightarrow> page_cache \<Rightarrow> u64 \<Rightarrow> page_ref devon_result \<Rightarrow> bool" where
  "read_result page_size io pg p res \<longleftrightarrow>
    (case readable_page_offset page_size (pg_file pg) p of
       Inl e \<Rightarrow> res = Inl e
     | Inr _ \<Rightarrow>
         (case ft_data (pg_table pg) p of
            Some page \<Rightarrow> res = Inr page
          | None \<Rightarrow> (case io of Inl e \<Rightarrow> res = Inl e | Inr _ \<Rightarrow> \<exists>a. res = Inr (a, page_bytes page_size (pg_file pg) p))))"

lemma read_cached:
  assumes "cache_inv page_size (pg, dirty, other)" "readable_page_offset page_size (pg_file pg) p = Inr offset"
    and "bt_get (ft_frames (pg_table pg)) p = Some f"
  shows "\<exists>pg'. read_page_ref page_size io p pg = Some (Inr (fr_data f), pg') \<and> cache_inv page_size (pg', dirty, other) \<and> pg_file pg' = pg_file pg"
  using assms by (simp add: read_page_ref_def ft_get_def cache_inv_def)

lemma read_missed:
  assumes inv: "cache_inv page_size (pg, dirty, other)" and off: "readable_page_offset page_size (pg_file pg) p = Inr offset"
    and miss: "bt_get (ft_frames (pg_table pg)) p = None"
  shows "\<exists>res pg'. read_page_ref page_size io p pg = Some (res, pg') \<and> cache_inv page_size (pg', dirty, other) \<and> pg_file pg' = pg_file pg \<and>
    (case io of Inl e \<Rightarrow> res = Inl e | Inr _ \<Rightarrow> \<exists>a. res = Inr (a, page_bytes page_size (pg_file pg) p))"
proof -
  let ?fc = "frame_charge page_size" and ?b = "pg_budget pg" and ?t = "pg_table pg"
  have table: "table_ok ?t" and le: "mb_charged ?b \<le> mb_limit ?b" using inv by (simp_all add: cache_inv_def)
  from charge_after_reclaim_sound [OF table cache_inv_bounds(1) [OF inv] cache_inv_bounds(2) [OF inv] le cache_inv_bounds(3) [OF inv], of "pinned_by pg"]
  obtain ok t' n where run: "charge_after_reclaim (pinned_by pg) ?fc (?t, ?b) =
      Some (ok, t', ?b\<lparr> mb_charged := mb_charged ?b - n * ?fc + of_bool ok * ?fc \<rparr>)" and n: "n \<le> 1"
    and shrunk: "shrunk (pinned_by pg) ?t t'" "length (ft_frames ?t) = length (ft_frames t') + n"
    and ok: "ok \<longleftrightarrow> n = 1 \<or> mb_charged ?b + ?fc \<le> mb_limit ?b \<and> mb_charged ?b + ?fc < usize_bound" by blast
  let ?b' = "?b\<lparr> mb_charged := mb_charged ?b - n * ?fc \<rparr>"
  let ?pg = "pg\<lparr> pg_table := t', pg_budget := ?b' \<rparr>"
  have inv': "cache_inv page_size (?pg, dirty, other)" by (rule cache_inv_shrunk [OF inv shrunk])
  have miss': "bt_get (ft_frames t') p = None"
    using shrunk(1) miss by (metis ft_data_def map_le_implies_dom_le domIff option.map_disc_iff shrunk_def subsetD)
  have off': "offset = unat p * page_size" "unat p * page_size + page_size \<le> length (pg_file pg)" using off by (auto simp: readable_offset_iff)
  have get: "ft_get p ?t = (None, ?t)" using miss by (simp add: ft_get_def)
  have room: "mb_charged ?b' + ?fc \<le> mb_limit ?b'" if ok
  proof (cases "n = 1")
    case True
    with shrunk(2) cache_inv_bounds(2) [OF inv] le show ?thesis by simp
  qed (use that ok n in auto)
  have ins: "cache_inv page_size (?pg\<lparr> pg_table := ft_insert p (a, page_bytes page_size (pg_file pg) p) t',
      pg_budget := ?b'\<lparr> mb_charged := mb_charged ?b' + ?fc \<rparr> \<rparr>, dirty, other)" if ok for a
    using cache_inv_insert [OF inv', of p "(a, page_bytes page_size (pg_file pg) p)"] room [OF that] miss' off' by simp
  show ?thesis
  proof (cases ok)
    case False
    with run off get inv' off' show ?thesis
      by (cases io) (auto simp: read_page_ref_def fresh_ref_def read_page_at_def page_bytes_def cache_inv_def)
  next
    case True
    with run off get inv' off' ins [OF True] show ?thesis
      by (cases io) (auto simp: read_page_ref_def fresh_ref_def read_page_at_def page_bytes_def cache_inv_def release_def release_attempt_def)
  qed
qed

lemma read_sound:
  assumes "cache_inv page_size (pg, dirty, other)"
  shows "\<exists>res pg'. read_page_ref page_size io p pg = Some (res, pg') \<and> cache_inv page_size (pg', dirty, other) \<and> pg_file pg' = pg_file pg \<and>
    read_result page_size io pg p res"
proof (cases "readable_page_offset page_size (pg_file pg) p")
  case (Inl e)
  with assms show ?thesis by (simp add: read_page_ref_def read_result_def)
next
  case (Inr offset)
  show ?thesis
  proof (cases "bt_get (ft_frames (pg_table pg)) p")
    case None
    with read_missed [OF assms Inr] Inr show ?thesis by (auto simp: read_result_def ft_data_def)
  next
    case (Some f)
    with read_cached [OF assms Inr Some] Inr show ?thesis by (auto simp: read_result_def ft_data_def)
  qed
qed

section \<open>Every step keeps the cache coherent\<close>

lemma write_at_outside:
  assumes "k < length bs" "k < pos \<or> pos + length src \<le> k"
  shows "write_at bs pos src ! k = bs ! k"
  using assms by (auto simp: write_at_def set_len_def nth_append)

lemma length_write_at: "length (write_at bs pos src) = max (length bs) (pos + length src)"
  by (auto simp: write_at_def set_len_def)

lemma page_bytes_other:
  assumes "q \<noteq> p" "length src \<le> page_size" "unat q * page_size + page_size \<le> length bs"
  shows "page_bytes page_size (write_at bs (unat p * page_size) src) q = page_bytes page_size bs q"
proof -
  have apart: "unat q * page_size + page_size \<le> unat p * page_size \<or> unat p * page_size + page_size \<le> unat q * page_size"
  proof (cases "unat q < unat p")
    case True
    then have "Suc (unat q) * page_size \<le> unat p * page_size" by (intro mult_le_mono1) simp
    then show ?thesis by simp
  next
    case False
    with assms(1) have "Suc (unat p) * page_size \<le> unat q * page_size" by (intro mult_le_mono1) (simp add: word_unat_eq_iff)
    then show ?thesis by simp
  qed
  show ?thesis unfolding page_bytes_def subslice_def
    using apart assms(2,3) by (intro nth_equalityI) (auto simp: length_write_at write_at_outside)
qed

lemma page_bytes_written:
  "length src = page_size \<Longrightarrow> page_bytes page_size (write_at bs (unat p * page_size) src) p = src"
  by (simp add: page_bytes_def subslice_def write_at_def set_len_def)

lemma coherent_write:
  assumes "coherent page_size bs dirty data" "length src \<le> page_size"
  shows "coherent page_size (write_at bs (unat p * page_size) src) (insert p dirty) data"
  using assms page_bytes_other [of _ p src page_size bs] by (auto simp: coherent_def length_write_at intro: max.coboundedI1)

lemma coherent_weaken: "coherent page_size bs dirty data \<Longrightarrow> coherent page_size bs (insert p dirty) data"
  by (auto simp: coherent_def)

lemma backend_write_coherent:
  assumes "coherent page_size bs dirty data" "length src = page_size" "page_offset p page_size = Inr offset"
    and "backend_write outcome bs offset src = (res, bs')"
  shows "coherent page_size bs' (insert p dirty) data"
proof -
  have offset: "offset = unat p * page_size" using assms(3) by (auto simp: page_offset_def result_simps checked_mul_usize_def split: if_splits)
  show ?thesis
  proof (cases outcome)
    case PageWritten
    with assms offset show ?thesis by (auto intro: coherent_write)
  next
    case (PageTorn n e)
    have "bs' = (if n = 0 then bs else write_at bs (unat p * page_size) (take n src))" using assms(4) PageTorn offset by auto
    with coherent_write [OF assms(1), of "take n src" p] coherent_weaken [OF assms(1), of p] assms(2) show ?thesis by auto
  qed
qed

lemma invalidate_inv:
  assumes "cache_inv page_size (pg, dirty, other)"
  shows "cache_inv page_size (invalidate page_size p pg, dirty - {p}, other)" "ft_data (pg_table (invalidate page_size p pg)) p = None"
    "pg_file (invalidate page_size p pg) = pg_file pg"
proof -
  obtain removed t where r: "ft_remove p (pg_table pg) = (removed, t)" by fastforce
  have "table_ok (pg_table pg)" using assms by (simp add: cache_inv_def)
  note ok = ft_remove_ok [OF this r]
  have "coherent page_size (pg_file pg) (dirty - {p}) (ft_data t)"
    using assms ok(3) by (simp add: cache_inv_def coherent_discard)
  with assms ok r show "cache_inv page_size (invalidate page_size p pg, dirty - {p}, other)"
    by (cases removed) (auto simp: cache_inv_def invalidate_def release_def release_attempt_def)
  show "ft_data (pg_table (invalidate page_size p pg)) p = None" "pg_file (invalidate page_size p pg) = pg_file pg"
    using r ok(3) by (auto simp: invalidate_def split: bool.splits)
qed

lemma shed_sound:
  assumes "cache_inv page_size (pg, dirty, other)" "bytes < usize_bound"
  shows "\<exists>t n. pager_shed_cache page_size bytes pg = Some (0 < n, pg\<lparr> pg_table := t,
      pg_budget := (pg_budget pg)\<lparr> mb_charged := mb_charged (pg_budget pg) - n * frame_charge page_size \<rparr> \<rparr>) \<and>
    shrunk (pinned_by pg) (pg_table pg) t \<and> length (ft_frames (pg_table pg)) = length (ft_frames t) + n \<and>
    (bytes \<le> n * frame_charge page_size \<or> \<not> evictable (pinned_by pg) t) \<and> (0 < n \<longrightarrow> (n - 1) * frame_charge page_size < bytes)"
proof -
  note bounds = cache_inv_bounds [OF assms(1)]
  have "table_ok (pg_table pg)" "0 + length (ft_frames (pg_table pg)) * frame_charge page_size < usize_bound"
    using assms(1) by (auto simp: cache_inv_def)
  from shed_loop_sound [OF this(1) bounds(1,2) this(2), of "pinned_by pg" bytes False] show ?thesis
    by (auto simp: pager_shed_cache_def shed_def)
qed

lemma cache_step_inv: "cache_step page_size w w' \<Longrightarrow> cache_inv page_size w \<Longrightarrow> cache_inv page_size w'"
proof (induction rule: cache_step.induct)
  case (read io p pg res pg' dirty other)
  from read_sound [OF read.prems, of io p] read.hyps show ?case by auto
next
  case (drop_ref pg dirty other a)
  then show ?case by (simp add: drop_page_ref_def cache_inv_handles)
next
  case (write_bytes p data offset outcome pg res bs dirty other)
  then have "coherent page_size bs (insert p dirty) (ft_data (pg_table pg))"
    by (intro backend_write_coherent [of page_size "pg_file pg" dirty _ data p offset]) (auto simp: cache_inv_def)
  with write_bytes.prems show ?case by (simp add: cache_inv_def)
next
  case (discard pg dirty other p)
  then show ?case by (rule invalidate_inv)
next
  case (shed bytes pg res pg' dirty other)
  from shed_sound [OF shed.prems shed.hyps(2)] shed.hyps(1) cache_inv_shrunk [OF shed.prems] show ?case by auto
next
  case (charge pg bytes b dirty other)
  then show ?case by (auto simp: cache_inv_def charge_attempt_room)
next
  case (release bytes other pg dirty)
  then show ?case by (auto simp: cache_inv_def release_def release_attempt_def)
qed

lemma cache_init_inv: "cache_init w \<Longrightarrow> cache_inv page_size w"
  by (auto simp: cache_init_def cache_inv_def table_ok_def frame_table_default_def coherent_def ft_data_def)

interpretation page_cache_sys: invariant_system cache_init "cache_step page_size" "cache_inv page_size" for page_size
  by unfold_locales (auto intro: cache_init_inv cache_step_inv)

section \<open>The cache is transparent\<close>

lemma write_page_read:
  assumes inv: "cache_inv page_size (pg, dirty, other)" and fits: "unat p * page_size + page_size < usize_bound"
    and run: "write_page page_size PageWritten p data pg = (Inr (), pg')"
  shows "\<exists>page pg2. read_page_ref page_size (Inr ()) p pg' = Some (Inr page, pg2) \<and> snd page = data"
proof -
  from run have w: "2 \<le> p" "length data = page_size"
    "pg' = invalidate page_size p (pg\<lparr> pg_file := write_at (pg_file pg) (unat p * page_size) data \<rparr>)"
    by (auto simp: write_page_def ensure_data_page_def SUPERBLOCK_SLOTS_def write_page_locked_def page_offset_def result_simps
        checked_mul_usize_def not_less split: if_splits sum.splits)
  let ?pg = "pg\<lparr> pg_file := write_at (pg_file pg) (unat p * page_size) data \<rparr>"
  have "cache_inv page_size (?pg, insert p dirty, other)"
    using inv coherent_write [of page_size "pg_file pg" dirty "ft_data (pg_table pg)" data p] w(2) by (simp add: cache_inv_def)
  note inval = invalidate_inv [OF this, of p]
  have "readable_page_offset page_size (pg_file pg') p = Inr (unat p * page_size)"
    using w fits inval(3) by (simp add: readable_offset_iff length_write_at)
  with read_sound [OF inval(1), of "Inr ()" p] inval(2,3) w page_bytes_written [OF w(2)] show ?thesis
    by (auto simp: read_result_def)
qed

text \<open>
  C7. The page cache is transparent: whatever readers, the writer, memory pressure and the other users
  of the budget did before, in any order, a read does not panic, returns the error of its page when the
  page does not exist, and otherwise the bytes the file has there, from the cache or not, unless the
  last write of that page has not completed; it fails only when reading the file fails. A page that
  was written reads back as written. The shared counter is exactly what the others hold and the charge of
  the cached frames, and never above the limit.
\<close>

theorem page_cache_transparent:
  assumes "cache_init w" "(cache_step page_size)\<^sup>*\<^sup>* w (pg, dirty, other)"
  shows "(\<exists>res pg'. read_page_ref page_size io p pg = Some (res, pg') \<and>
      (case readable_page_offset page_size (pg_file pg) p of
         Inl e \<Rightarrow> res = Inl e
       | Inr _ \<Rightarrow> (\<forall>e. res = Inl e \<longrightarrow> io = Inl e) \<and>
           (\<forall>page. res = Inr page \<and> p \<notin> dirty \<longrightarrow> snd page = page_bytes page_size (pg_file pg) p))) \<and>
    (\<forall>data pg'. write_page page_size PageWritten p data pg = (Inr (), pg') \<and> unat p * page_size + page_size < usize_bound \<longrightarrow>
      (\<exists>page pg2. read_page_ref page_size (Inr ()) p pg' = Some (Inr page, pg2) \<and> snd page = data)) \<and>
    mb_charged (pg_budget pg) = other + length (ft_frames (pg_table pg)) * frame_charge page_size \<and>
    mb_charged (pg_budget pg) \<le> mb_limit (pg_budget pg)"
proof -
  have inv: "cache_inv page_size (pg, dirty, other)" using assms by (rule page_cache_sys.reachable_inv)
  then have co: "coherent page_size (pg_file pg) dirty (ft_data (pg_table pg))" by (simp add: cache_inv_def)
  from read_sound [OF inv, of io p] obtain res pg' where r: "read_page_ref page_size io p pg = Some (res, pg')" "read_result page_size io pg p res"
    by blast
  have "case readable_page_offset page_size (pg_file pg) p of
         Inl e \<Rightarrow> res = Inl e
       | Inr _ \<Rightarrow> (\<forall>e. res = Inl e \<longrightarrow> io = Inl e) \<and>
           (\<forall>page. res = Inr page \<and> p \<notin> dirty \<longrightarrow> snd page = page_bytes page_size (pg_file pg) p)"
    using r(2) co unfolding read_result_def coherent_def
    by (cases "ft_data (pg_table pg) p"; cases io) (auto split: sum.splits)
  with r(1) inv write_page_read [OF inv] show ?thesis by (auto simp: cache_inv_def)
qed

text \<open>
  C20. Eviction makes progress: with the floor of eight frames reached, one sweep of the clock, two
  visits of each frame at most, evicts exactly one frame whenever some frame is not pinned; it never
  evicts a pinned one, and without an unpinned frame it leaves every page where it is.
\<close>

theorem eviction_makes_progress:
  assumes "cache_init w" "(cache_step page_size)\<^sup>*\<^sup>* w (pg, dirty, other)"
  shows "\<exists>evicted t. evict_one (pinned_by pg) (pg_table pg) = Some (evicted, t) \<and>
    (evicted \<longleftrightarrow> MIN_CACHE_FRAMES \<le> length (ft_frames (pg_table pg)) \<and>
      (\<exists>p page. ft_data (pg_table pg) p = Some page \<and> \<not> pinned_by pg (fst page))) \<and>
    (if evicted then \<exists>p page. ft_data (pg_table pg) p = Some page \<and> \<not> pinned_by pg (fst page) \<and> ft_data t = (ft_data (pg_table pg))(p := None)
     else ft_data t = ft_data (pg_table pg))"
proof -
  have inv: "cache_inv page_size (pg, dirty, other)" using assms by (rule page_cache_sys.reachable_inv)
  then have "table_ok (pg_table pg)" by (simp add: cache_inv_def)
  from evict_one_sound [OF this, of "pinned_by pg"] evict_one_iff [OF this cache_inv_bounds(1) [OF inv], of "pinned_by pg"]
  show ?thesis unfolding evicts_def evictable_def by (fastforce simp del: split_paired_Ex)
qed

text \<open>
  C21. Shedding frames under memory pressure ends, and ends with enough: it evicts only unpinned frames,
  gives back exactly their charge, stops at the first point where the requested bytes are released, and
  before that only when nothing more can be evicted. It reports whether it evicted anything.
\<close>

theorem shed_releases_enough:
  assumes "cache_init w" "(cache_step page_size)\<^sup>*\<^sup>* w (pg, dirty, other)" "bytes < usize_bound"
  shows "\<exists>pg' n. pager_shed_cache page_size bytes pg = Some (0 < n, pg') \<and>
    length (ft_frames (pg_table pg)) = length (ft_frames (pg_table pg')) + n \<and>
    mb_charged (pg_budget pg) = mb_charged (pg_budget pg') + n * frame_charge page_size \<and>
    (\<forall>p page. ft_data (pg_table pg) p = Some page \<and> pinned_by pg (fst page) \<longrightarrow> ft_data (pg_table pg') p = Some page) \<and>
    (bytes \<le> n * frame_charge page_size \<or> \<not> evictable (pinned_by pg) (pg_table pg')) \<and>
    (0 < n \<longrightarrow> (n - 1) * frame_charge page_size < bytes)"
proof -
  have inv: "cache_inv page_size (pg, dirty, other)" using assms(1,2) by (rule page_cache_sys.reachable_inv)
  from shed_sound [OF inv assms(3)] obtain t n where s: "pager_shed_cache page_size bytes pg = Some (0 < n, pg\<lparr> pg_table := t,
      pg_budget := (pg_budget pg)\<lparr> mb_charged := mb_charged (pg_budget pg) - n * frame_charge page_size \<rparr> \<rparr>)"
    "shrunk (pinned_by pg) (pg_table pg) t" "length (ft_frames (pg_table pg)) = length (ft_frames t) + n"
    "bytes \<le> n * frame_charge page_size \<or> \<not> evictable (pinned_by pg) t" "0 < n \<longrightarrow> (n - 1) * frame_charge page_size < bytes"
    by blast
  have "n * frame_charge page_size \<le> mb_charged (pg_budget pg)"
    using cache_inv_bounds(2) [OF inv] s(3) by (simp add: add_mult_distrib)
  with s show ?thesis unfolding shrunk_def by (intro exI conjI) auto
qed

section \<open>A full cache\<close>

text \<open>Pages of one byte, a budget for eight frames, and a reader that keeps the reference of page 2 only.\<close>

fun read_pages :: "u64 list \<Rightarrow> page_cache \<Rightarrow> page_cache option" where
  "read_pages [] pg = Some pg"
| "read_pages (p # ps) pg =
    Option.bind (read_page_ref 1 (Inr ()) p pg) (\<lambda>(res, pg).
      read_pages ps (if p = 2 then pg else drop_page_ref (hd (pg_handles pg)) pg))"

lemma read_pages_steps: "read_pages ps pg = Some pg' \<Longrightarrow> (cache_step 1)\<^sup>*\<^sup>* (pg, dirty, other) (pg', dirty, other)"
proof (induction ps arbitrary: pg)
  case (Cons p ps)
  then obtain res pg1 where r: "read_page_ref 1 (Inr ()) p pg = Some (res, pg1)"
    "read_pages ps (if p = 2 then pg1 else drop_page_ref (hd (pg_handles pg1)) pg1) = Some pg'"
    by (auto simp: bind_eq_Some_conv)
  have "cache_step 1 (pg, dirty, other) (pg1, dirty, other)" using r(1) by (rule cache_step.read)
  moreover have "(cache_step 1)\<^sup>*\<^sup>* (pg1, dirty, other) (if p = 2 then pg1 else drop_page_ref (hd (pg_handles pg1)) pg1, dirty, other)"
    by (auto intro: cache_step.drop_ref)
  ultimately show ?case using Cons.IH [OF r(2)] by (meson converse_rtranclp_into_rtranclp rtranclp_trans)
qed simp

definition empty_cache :: page_cache where
  "empty_cache = \<lparr> pg_file = map of_nat [0..<10], pg_table = frame_table_default, pg_budget = budget_new 520, pg_handles = [], pg_next = 0 \<rparr>"

definition full_cache :: page_cache where
  "full_cache = empty_cache\<lparr>
    pg_table := \<lparr> ft_frames = map (\<lambda>i. (of_nat i, \<lparr> fr_data = (i - 2, [of_nat i]), fr_referenced = True \<rparr>)) [2..<10],
      ft_clock = map of_nat [2..<10], ft_hand = 0 \<rparr>,
    pg_budget := (budget_new 520)\<lparr> mb_charged := 520 \<rparr>, pg_handles := [0], pg_next := 8 \<rparr>"

lemma full_cache_reads: "read_pages [2, 3, 4, 5, 6, 7, 8, 9] empty_cache = Some full_cache"
  by (simp add: empty_cache_def full_cache_def read_page_ref_def readable_page_offset_def ensure_data_page_def SUPERBLOCK_SLOTS_def
      page_offset_def checked_mul_usize_def checked_add_usize_def ft_get_def frame_table_default_def charge_after_reclaim_def try_charge_def
      charge_attempt_def budget_new_def frame_charge_def FRAME_OVERHEAD_def fresh_ref_def read_page_at_def subslice_def ft_insert_def
      drop_page_ref_def upt_conv_Cons)

lemma full_cache_reachable: "cache_init (empty_cache, {}, 0)" "(cache_step 1)\<^sup>*\<^sup>* (empty_cache, {}, 0) (full_cache, {}, 0)"
  using read_pages_steps [OF full_cache_reads] by (simp_all add: cache_init_def empty_cache_def budget_new_def)

theorem page_cache_transparent_witness:
  "\<exists>a pg' page pg2. read_page_ref 1 (Inr ()) 3 full_cache = Some (Inr (a, [3]), pg') \<and>
    read_page_ref 1 (Inr ()) 3 (snd (write_page 1 PageWritten 3 [77] full_cache)) = Some (Inr page, pg2) \<and> snd page = [77] \<and>
    mb_charged (pg_budget full_cache) = 8 * 65"
proof -
  have page: "page_bytes 1 (pg_file full_cache) 3 = [3]" "readable_page_offset 1 (pg_file full_cache) 3 = Inr 3"
    by (simp_all add: page_bytes_def subslice_def full_cache_def empty_cache_def readable_offset_iff upt_conv_Cons)
  have wrote: "write_page 1 PageWritten 3 [77] full_cache = (Inr (), snd (write_page 1 PageWritten 3 [77] full_cache))"
    by (simp add: write_page_def ensure_data_page_def SUPERBLOCK_SLOTS_def write_page_locked_def page_offset_def checked_mul_usize_def)
  note reads = page_cache_transparent [OF full_cache_reachable, of "Inr ()" 3]
  from reads page obtain res pg' where "read_page_ref 1 (Inr ()) 3 full_cache = Some (res, pg')" "\<forall>e. res \<noteq> Inl e"
    "\<forall>page. res = Inr page \<longrightarrow> snd page = [3]" by (auto simp del: split_paired_All)
  moreover from this(2,3) obtain a where "res = Inr (a, [3])" by (cases res) auto
  moreover from reads wrote obtain page pg2 where "read_page_ref 1 (Inr ()) 3 (snd (write_page 1 PageWritten 3 [77] full_cache)) = Some (Inr page, pg2)"
    "snd page = [77]" by fastforce
  moreover have "mb_charged (pg_budget full_cache) = 8 * 65" by (simp add: full_cache_def)
  ultimately show ?thesis by blast
qed

theorem eviction_makes_progress_witness:
  "\<exists>t p a b. evict_one (pinned_by full_cache) (pg_table full_cache) = Some (True, t) \<and> a \<noteq> 0 \<and>
    ft_data (pg_table full_cache) p = Some (a, b) \<and> ft_data t p = None"
proof -
  have "MIN_CACHE_FRAMES \<le> length (ft_frames (pg_table full_cache))" "pg_handles full_cache = [0]"
    by (simp_all add: full_cache_def MIN_CACHE_FRAMES_def)
  moreover have "ft_data (pg_table full_cache) 3 = Some (1, [3])" by (simp add: full_cache_def ft_data_def upt_conv_Cons)
  ultimately have can: "\<exists>p page. ft_data (pg_table full_cache) p = Some page \<and> \<not> pinned_by full_cache (fst page)"
    "MIN_CACHE_FRAMES \<le> length (ft_frames (pg_table full_cache))" by (auto intro!: exI [of _ 3] simp del: split_paired_Ex)
  obtain evicted t where e: "evict_one (pinned_by full_cache) (pg_table full_cache) = Some (evicted, t)"
    "evicted \<longleftrightarrow> MIN_CACHE_FRAMES \<le> length (ft_frames (pg_table full_cache)) \<and>
      (\<exists>p page. ft_data (pg_table full_cache) p = Some page \<and> \<not> pinned_by full_cache (fst page))"
    "if evicted then \<exists>p page. ft_data (pg_table full_cache) p = Some page \<and> \<not> pinned_by full_cache (fst page) \<and>
        ft_data t = (ft_data (pg_table full_cache))(p := None) else ft_data t = ft_data (pg_table full_cache)"
    using eviction_makes_progress [OF full_cache_reachable] by blast
  with can have "evicted" by blast
  with e(3) obtain p page where "ft_data (pg_table full_cache) p = Some page" "\<not> pinned_by full_cache (fst page)"
    "ft_data t = (ft_data (pg_table full_cache))(p := None)" by (auto simp del: split_paired_Ex)
  with e(1) \<open>evicted\<close> \<open>pg_handles full_cache = [0]\<close> show ?thesis by (cases page) auto
qed

theorem shed_releases_enough_witness:
  "\<exists>pg' n. pager_shed_cache 1 100 full_cache = Some (0 < n, pg') \<and> mb_charged (pg_budget pg') + n * 65 = 520 \<and> n \<le> 2"
proof -
  have "mb_charged (pg_budget full_cache) = 520" "frame_charge 1 = 65"
    by (simp_all add: full_cache_def frame_charge_def FRAME_OVERHEAD_def)
  with shed_releases_enough [OF full_cache_reachable, of 100] obtain pg' n where
    "pager_shed_cache 1 100 full_cache = Some (0 < n, pg')" "520 = mb_charged (pg_budget pg') + n * 65" "0 < n \<longrightarrow> (n - 1) * 65 < 100" by auto
  then show ?thesis by (intro exI [of _ pg'] exI [of _ n]) auto
qed

end
