(* ===== verification/PageReuse.thy ===== *)
theory PageReuse
  imports PageAlloc CacheProgress
begin

text \<open>
  What page allocation may touch. A session of allocations, writes to the pages handed out and raises of the
  pin horizon hands out no page twice, takes from below the old end of the file only pages that the ledger
  lists as retired below the horizon, and leaves every other page of the file as it was.
\<close>

section \<open>Writes\<close>

text \<open>Every page of the old file outside a set is still there and has its bytes.\<close>

definition keeps :: "nat \<Rightarrow> u64 set \<Rightarrow> bytes \<Rightarrow> bytes \<Rightarrow> bool" where
  "keeps page_size pages bs bs' \<longleftrightarrow> length bs \<le> length bs' \<and>
    (\<forall>p. p \<notin> pages \<longrightarrow> unat p * page_size + page_size \<le> length bs \<longrightarrow> page_bytes page_size bs' p = page_bytes page_size bs p)"

lemma keeps_refl [simp]: "keeps page_size pages bs bs"
  by (simp add: keeps_def)

lemma keeps_trans:
  assumes "keeps page_size pages bs bs1" "keeps page_size pages1 bs1 bs2"
    and "\<And>p. p \<in> pages1 \<Longrightarrow> unat p * page_size + page_size \<le> length bs \<Longrightarrow> p \<in> pages"
  shows "keeps page_size pages bs bs2"
proof -
  have "page_bytes page_size bs2 p = page_bytes page_size bs p" if "p \<notin> pages" "unat p * page_size + page_size \<le> length bs" for p
  proof -
    have "p \<notin> pages1" "unat p * page_size + page_size \<le> length bs1"
      using assms(1,3) that by (auto simp: keeps_def)
    then show ?thesis using assms(1,2) that by (simp add: keeps_def)
  qed
  then show ?thesis using assms(1,2) by (auto simp: keeps_def)
qed

lemma keeps_mono: "keeps page_size pages bs bs' \<Longrightarrow> pages \<subseteq> pages' \<Longrightarrow> keeps page_size pages' bs bs'"
  by (auto simp: keeps_def)

lemma backend_write_keeps:
  assumes "backend_write outcome bs (unat p * page_size) src = (res, bs')" "length src = page_size"
  shows "keeps page_size {p} bs bs'" "res = Inr () \<Longrightarrow> page_bytes page_size bs' p = src \<and> length bs' = max (length bs) (unat p * page_size + page_size)"
proof -
  have torn: "keeps page_size {p} bs (write_at bs (unat p * page_size) (take n src))" for n
    using assms(2) page_bytes_other [of _ p "take n src" page_size bs] by (auto simp: keeps_def length_write_at)
  show "keeps page_size {p} bs bs'"
    using assms torn [of "length src"] torn by (cases outcome) (auto split: if_splits)
  show "res = Inr () \<Longrightarrow> page_bytes page_size bs' p = src \<and> length bs' = max (length bs) (unat p * page_size + page_size)"
    using assms by (cases outcome) (auto simp: page_bytes_written length_write_at)
qed

lemma page_offset_Inr: "page_offset p page_size = Inr offset \<Longrightarrow> offset = unat p * page_size"
  by (auto simp: page_offset_def checked_mul_usize_def split: if_splits)

lemma write_page_locked_keeps:
  assumes "pgr_write_page_locked wr p data pg = (res, pg')" "length data = pgr_page_size pg"
  shows "pg' = pg\<lparr> pgr_file := pgr_file pg' \<rparr>" "keeps (pgr_page_size pg) {p} (pgr_file pg) (pgr_file pg')"
    and "res = Inr () \<Longrightarrow> page_bytes (pgr_page_size pg) (pgr_file pg') p = data"
proof -
  have "pg' = pg\<lparr> pgr_file := pgr_file pg' \<rparr> \<and> keeps (pgr_page_size pg) {p} (pgr_file pg) (pgr_file pg') \<and>
      (res = Inr () \<longrightarrow> page_bytes (pgr_page_size pg) (pgr_file pg') p = data)"
  proof (cases "page_offset p (pgr_page_size pg)")
    case (Inl e)
    then show ?thesis using assms by (auto simp: pgr_write_page_locked_def)
  next
    case (Inr offset)
    obtain res' bs where run: "backend_write (wr p) (pgr_file pg) offset data = (res', bs)" by fastforce
    have "backend_write (wr p) (pgr_file pg) (unat p * pgr_page_size pg) data = (res', bs)" using run page_offset_Inr [OF Inr] by simp
    from backend_write_keeps [OF this assms(2)] show ?thesis
      using assms Inr run by (auto simp: pgr_write_page_locked_def)
  qed
  then show "pg' = pg\<lparr> pgr_file := pgr_file pg' \<rparr>" "keeps (pgr_page_size pg) {p} (pgr_file pg) (pgr_file pg')"
    "res = Inr () \<Longrightarrow> page_bytes (pgr_page_size pg) (pgr_file pg') p = data" by simp_all
qed

lemma zero_keeps:
  assumes "zero_reused_pages_locked wr ps pg = (res, pg')" "\<forall>p \<in> set ps. unat p < pgr_page_count pg"
  shows "pg' = pg\<lparr> pgr_file := pgr_file pg' \<rparr> \<and> keeps (pgr_page_size pg) (set ps) (pgr_file pg) (pgr_file pg') \<and>
    (res = Inr () \<longrightarrow> (\<forall>p \<in> set ps. page_bytes (pgr_page_size pg) (pgr_file pg') p = replicate (pgr_page_size pg) 0))"
  using assms
proof (induction ps arbitrary: pg)
  case (Cons p ps)
  let ?sz = "pgr_page_size pg"
  obtain res1 pg1 where run: "pgr_write_page_locked wr p (replicate ?sz 0) pg = (res1, pg1)" by fastforce
  note w = write_page_locked_keeps [OF run, simplified]
  have sz: "pgr_page_size pg1 = ?sz" using w(1) by (metis pager.select_convs(2) pager.surjective pager.update_convs(1))
  have inside: "unat q * ?sz + ?sz \<le> length (pgr_file pg1)" if "unat q < pgr_page_count pg" for q :: u64
  proof -
    have "Suc (unat q) * ?sz \<le> length (pgr_file pg)"
      using that by (metis Suc_leI div_times_less_eq_dividend le_trans mult_le_mono1 pgr_page_count_def)
    then show ?thesis using w(2) by (simp add: keeps_def)
  qed
  show ?case
  proof (cases res1)
    case (Inl e)
    then show ?thesis using Cons.prems run w by (auto intro: keeps_mono)
  next
    case (Inr u)
    have "pgr_page_count pg \<le> pgr_page_count pg1" using w(2) sz by (simp add: pgr_page_count_def keeps_def div_le_mono)
    then have "\<forall>p \<in> set ps. unat p < pgr_page_count pg1" using Cons.prems(2) by fastforce
    from Cons.IH [OF _ this] have ih: "pg' = pg1\<lparr> pgr_file := pgr_file pg' \<rparr>" "keeps ?sz (set ps) (pgr_file pg1) (pgr_file pg')"
        "res = Inr () \<Longrightarrow> \<forall>p \<in> set ps. page_bytes ?sz (pgr_file pg') p = replicate ?sz 0"
      using Cons.prems(1) run Inr sz by auto
    have "keeps ?sz (set (p # ps)) (pgr_file pg) (pgr_file pg')"
      by (rule keeps_trans [OF keeps_mono [OF w(2)] ih(2)]) auto
    moreover have "page_bytes ?sz (pgr_file pg') p = replicate ?sz 0" if "p \<notin> set ps"
      using ih(2) w(3) Inr that inside [of p] Cons.prems(2) by (simp add: keeps_def)
    moreover have "pg' = pg\<lparr> pgr_file := pgr_file pg' \<rparr>" using ih(1) w(1) by (metis pager.surjective pager.update_convs(1))
    ultimately show ?thesis using ih(3) by auto
  qed
qed auto

section \<open>Appending\<close>

lemma append_pages_spec:
  assumes "append_pages wr sz (n * sz) [i..<i + k] bs = (res, bs')" "length bs = (n + i) * sz" "0 < sz"
  shows "(\<exists>zeros. bs' = bs @ replicate zeros 0) \<and> (res = Inr () \<longrightarrow> bs' = bs @ replicate (k * sz) 0 \<and> (0 < k \<longrightarrow> (n + i + k - 1) * sz < 2 ^ 64))"
  using assms
proof (induction k arbitrary: i bs)
  case (Suc k)
  have idx: "[i..<i + Suc k] = i # [Suc i..<Suc i + k]" by (simp add: upt_rec)
  let ?o = "wr (word_of_nat (n * sz div sz + i))"
  show ?case
  proof (cases "rbind (ok_or (InvalidArgument ''page run length overflows u64'') (checked_mul_usize sz i)) (\<lambda>skip.
          ok_or (InvalidArgument ''page run end overflows u64'') (checked_add_usize (n * sz) skip))")
    case (Inl e)
    then show ?thesis using Suc.prems(1) unfolding idx by (auto intro: exI [of _ 0])
  next
    case (Inr offset)
    then have offset: "offset = length bs" "length bs < 2 ^ 64"
      using Suc.prems(2) by (auto simp: rbind_eq_Inr checked_mul_usize_def checked_add_usize_def algebra_simps split: if_splits)
    have next_len: "length (bs @ replicate sz 0) = (n + Suc i) * sz" using Suc.prems(2) by simp
    show ?thesis
    proof (cases ?o)
      case PageWritten
      then have "append_pages wr sz (n * sz) [Suc i..<Suc i + k] (bs @ replicate sz 0) = (res, bs')"
        using Suc.prems(1) Inr offset unfolding idx by (simp add: write_at_end)
      from Suc.IH [OF this next_len Suc.prems(3)] show ?thesis
        using offset(2) Suc.prems(2) by (cases k) (auto simp: replicate_add [symmetric] add.assoc intro: exI [of _ "sz + _"])
    next
      case (PageTorn m e)
      then have "bs' = (if m = 0 then bs else bs @ take m (replicate sz 0))" "res = Inl e"
        using Suc.prems(1) Inr offset unfolding idx by (auto simp: write_at_end split: if_splits)
      then show ?thesis by (auto intro: exI [of _ 0] exI [of _ "min m sz"])
    qed
  qed
qed (auto intro: exI [of _ 0])

lemma append_keeps:
  assumes "append_run_locked wr count pg = (res, pg')" "0 < pgr_page_size pg"
  shows "pg' = pg\<lparr> pgr_file := pgr_file pg' \<rparr> \<and> (\<exists>zeros. pgr_file pg' = pgr_file pg @ replicate zeros 0) \<and>
    (\<forall>first. res = Inr first \<longrightarrow> 0 < count \<longrightarrow> length (pgr_file pg) = unat first * pgr_page_size pg \<and> 2 \<le> first \<and>
      unat first + count \<le> 2 ^ 64 \<and> pgr_file pg' = pgr_file pg @ replicate (count * pgr_page_size pg) 0)"
proof -
  let ?sz = "pgr_page_size pg" and ?n = "length (pgr_file pg) div pgr_page_size pg"
  show ?thesis
  proof (cases "length (pgr_file pg) mod ?sz \<noteq> 0 \<or> (word_of_nat ?n :: u64) < SUPERBLOCK_SLOTS")
    case True
    then show ?thesis using assms(1) by (auto simp: append_run_locked_def Let_def intro: exI [of _ 0] split: if_splits)
  next
    case False
    then have len: "length (pgr_file pg) = ?n * ?sz" by auto
    obtain res' bs where run: "append_pages wr ?sz (length (pgr_file pg)) [0..<count] (pgr_file pg) = (res', bs)" by fastforce
    from append_pages_spec [of wr ?sz ?n 0 count "pgr_file pg" res' bs] run len assms(2)
    have bs: "\<exists>zeros. bs = pgr_file pg @ replicate zeros 0"
      "res' = Inr () \<Longrightarrow> bs = pgr_file pg @ replicate (count * ?sz) 0 \<and> (0 < count \<longrightarrow> (?n + count - 1) * ?sz < 2 ^ 64)"
      by simp_all
    have pg': "pg' = pg\<lparr> pgr_file := bs \<rparr>" "res = map_sum id (\<lambda>_. word_of_nat ?n) res'"
      using assms(1) run False by (auto simp: append_run_locked_def Let_def split: sum.splits)
    have "length (pgr_file pg) = unat first * ?sz \<and> 2 \<le> first \<and> unat first + count \<le> 2 ^ 64 \<and> bs = pgr_file pg @ replicate (count * ?sz) 0"
      if first: "res = Inr first" and count: "0 < count" for first
    proof -
      have ok: "res' = Inr ()" "first = word_of_nat ?n" using pg'(2) first by (cases res'; simp)+
      have "?n + count - 1 \<le> (?n + count - 1) * ?sz" using assms(2) by simp
      also have "\<dots> < 2 ^ 64" using bs(2) [OF ok(1)] count by blast
      finally have small: "?n + count \<le> 2 ^ 64" "?n < 2 ^ LENGTH(64)" using count by simp_all
      then have "unat first = ?n" unfolding ok(2) by (simp only: unat_of_nat mod_less)
      moreover have "2 \<le> first" using False ok(2) by (simp add: SUPERBLOCK_SLOTS_def not_less)
      ultimately show ?thesis using small bs(2) [OF ok(1)] len by simp
    qed
    then show ?thesis using pg'(1) bs(1) by simp
  qed
qed

section \<open>The ledger\<close>

fun linked :: "u64 \<Rightarrow> (u64 \<times> ledger_page) list \<Rightarrow> bool" where
  "linked tail [] \<longleftrightarrow> False"
| "linked tail [(p, lp)] \<longleftrightarrow> p = tail \<or> lp_next_page lp = 0"
| "linked tail ((p, lp) # (q, lq) # chain) \<longleftrightarrow> p \<noteq> tail \<and> lp_next_page lp \<noteq> 0 \<and> lp_next_page lp = q \<and> linked tail ((q, lq) # chain)"

text \<open>The pages of the ledger in order, with what they hold: each reads back, none comes twice, and the extension
  names the first and the last.\<close>

definition ledger_chain :: "(u32 \<Rightarrow> bytes \<Rightarrow> u32) \<Rightarrow> pager \<Rightarrow> (u64 \<times> ledger_page) list \<Rightarrow> bool" where
  "ledger_chain crc32c_append pg chain \<longleftrightarrow>
    (\<forall>(p, lp) \<in> set chain. read_ledger_page_locked crc32c_append (\<lambda>_. Inr ()) pg p = Inr lp) \<and> distinct (map fst chain) \<and>
    (case fs_extension (pgr_free pg) of
       None \<Rightarrow> chain = []
     | Some ext \<Rightarrow> if has_ledger ext then linked (retire_ledger_tail ext) chain \<and> fst (hd chain) = retire_ledger_head ext else chain = [])"

text \<open>The entries a scan can still find, in ledger order, and the pages the pager may hand out again.\<close>

definition scanned :: "u64 \<Rightarrow> nat \<times> ledger_entry \<Rightarrow> scanned_reuse_entry" where
  "scanned p = (\<lambda>(i, e). \<lparr> sc_ledger_page = p, sc_consumed_after = word_of_nat (i + 1), sc_entry = e \<rparr>)"

definition page_entries :: "pager \<Rightarrow> u64 \<times> ledger_page \<Rightarrow> scanned_reuse_entry list" where
  "page_entries pg = (\<lambda>(p, lp). map (scanned p) (drop (unat (effective_consumed pg p lp)) (enumerate 0 (lp_entries lp))))"

definition chain_entries :: "pager \<Rightarrow> (u64 \<times> ledger_page) list \<Rightarrow> scanned_reuse_entry list" where
  "chain_entries pg chain = concat (map (page_entries pg) chain)"

abbreviation deferred :: "pager \<Rightarrow> u64 set" where
  "deferred pg \<equiv> fs_deferred_reuse (pgr_free pg)"

definition pool :: "pager \<Rightarrow> (u64 \<times> ledger_page) list \<Rightarrow> u64 set" where
  "pool pg chain = deferred pg \<union> sc_page_id ` set (chain_entries pg chain)"

definition ledger_sound :: "(u32 \<Rightarrow> bytes \<Rightarrow> u32) \<Rightarrow> pager \<Rightarrow> (u64 \<times> ledger_page) list \<Rightarrow> bool" where
  "ledger_sound crc32c_append pg chain \<longleftrightarrow>
    0 < pgr_page_size pg \<and> ledger_chain crc32c_append pg chain \<and> bt_wf (fs_consumed_in_session (pgr_free pg)) \<and> finite (deferred pg) \<and>
    distinct (map sc_page_id (chain_entries pg chain)) \<and> deferred pg \<inter> sc_page_id ` set (chain_entries pg chain) = {} \<and>
    pool pg chain \<inter> fst ` set chain = {} \<and> (\<forall>p \<in> pool pg chain. unat p < pgr_page_count pg)"

definition retired_below :: "pager \<Rightarrow> (u64 \<times> ledger_page) list \<Rightarrow> u64 \<Rightarrow> u64 set" where
  "retired_below pg chain horizon = {sc_page_id c | c. c \<in> set (chain_entries pg chain) \<and> le_retired_lsn (sc_entry c) < horizon}"

declare reuse_scan_loop.simps [simp del]

lemma readable_iff:
  "readable_page_offset sz bs p = Inr offset \<longleftrightarrow>
    ensure_data_page p = Inr () \<and> offset = unat p * sz \<and> unat p * sz + sz < usize_bound \<and> unat p * sz + sz \<le> length bs"
  by (auto simp: readable_page_offset_def page_offset_def rbind_eq_Inr checked_mul_usize_def checked_add_usize_def split: if_splits)

lemma read_ledger_iff:
  "read_ledger_page_locked crc32c_append rd pg p = Inr lp \<longleftrightarrow>
    (\<exists>offset. readable_page_offset (pgr_page_size pg) (pgr_file pg) p = Inr offset) \<and> rd p = Inr () \<and>
    ledger_decode crc32c_append (page_bytes (pgr_page_size pg) (pgr_file pg) p) = Inr lp"
  by (auto simp: read_ledger_page_locked_def rbind_eq_Inr readable_iff read_page_at_def page_bytes_def)

lemma read_ledger_kept:
  assumes "read_ledger_page_locked crc32c_append rd pg p = Inr lp" "keeps (pgr_page_size pg) pages (pgr_file pg) (pgr_file pg')"
    and "pgr_page_size pg' = pgr_page_size pg" "p \<notin> pages"
  shows "read_ledger_page_locked crc32c_append rd pg' p = Inr lp"
  using assms by (auto simp: read_ledger_iff readable_iff keeps_def)

lemma read_ledger_page:
  assumes "read_ledger_page_locked crc32c_append rd pg p = Inr lp"
  shows "read_ledger_page_locked crc32c_append (\<lambda>_. Inr ()) pg p = Inr lp" "unat p < pgr_page_count pg"
    "length (lp_entries lp) < 2 ^ 32"
proof -
  let ?sz = "pgr_page_size pg"
  have page: "unat p * ?sz + ?sz \<le> length (pgr_file pg)" "ledger_decode crc32c_append (page_bytes ?sz (pgr_file pg) p) = Inr lp"
    using assms by (simp_all add: read_ledger_iff readable_iff)
  show "read_ledger_page_locked crc32c_append (\<lambda>_. Inr ()) pg p = Inr lp" using assms by (simp add: read_ledger_iff)
  have "0 < ?sz" using page(2) by (cases ?sz) (auto simp: ledger_decode_def page_bytes_def LEDGER_ENTRIES_OFFSET_def)
  then show "unat p < pgr_page_count pg"
    using div_le_mono [OF page(1), of ?sz] by (simp add: pgr_page_count_def)
  show "length (lp_entries lp) < 2 ^ 32"
    using page(2) unsigned_less [of "read_u32 (page_bytes ?sz (pgr_file pg) p) 16", where 'a = nat]
    by (auto simp: ledger_decode_def Let_def split: if_splits)
qed

lemma chain_kept:
  assumes "ledger_chain crc32c_append pg chain" "keeps (pgr_page_size pg) pages (pgr_file pg) (pgr_file pg')"
    and "pgr_page_size pg' = pgr_page_size pg" "pages \<inter> fst ` set chain = {}" "fs_extension (pgr_free pg') = fs_extension (pgr_free pg)"
  shows "ledger_chain crc32c_append pg' chain"
proof -
  have "read_ledger_page_locked crc32c_append (\<lambda>_. Inr ()) pg' p = Inr lp" if "(p, lp) \<in> set chain" for p lp
  proof -
    have "read_ledger_page_locked crc32c_append (\<lambda>_. Inr ()) pg p = Inr lp" using assms(1) that by (auto simp: ledger_chain_def)
    moreover have "p \<notin> pages" using assms(4) that by force
    ultimately show ?thesis by (rule read_ledger_kept [OF _ assms(2,3)])
  qed
  then show ?thesis using assms(1,5) by (auto simp: ledger_chain_def)
qed

lemma chain_entries_cong:
  "fs_consumed_in_session (pgr_free pg') = fs_consumed_in_session (pgr_free pg) \<Longrightarrow> chain_entries pg' = chain_entries pg"
  by (simp add: chain_entries_def page_entries_def effective_consumed_def fun_eq_iff)

lemma degrade_simps [simp]:
  "pgr_file (degrade_free_pages_locked pg) = pgr_file pg" "pgr_page_size (degrade_free_pages_locked pg) = pgr_page_size pg"
  "pgr_min_pin (degrade_free_pages_locked pg) = pgr_min_pin pg" "deferred (degrade_free_pages_locked pg) = deferred pg"
  "fs_extension (pgr_free (degrade_free_pages_locked pg)) = None" "fs_consumed_in_session (pgr_free (degrade_free_pages_locked pg)) = []"
  by (simp_all add: degrade_free_pages_locked_def Let_def split: option.split)

lemma chain_entries_Nil [simp]: "chain_entries pg [] = []"
  by (simp add: chain_entries_def)

lemma degraded_sound:
  assumes "ledger_sound crc32c_append pg chain"
  shows "ledger_sound crc32c_append (degrade_free_pages_locked pg) []"
  using assms by (auto simp: ledger_sound_def ledger_chain_def bt_wf_def pool_def pgr_page_count_def)

lemma chain_short: "ledger_chain crc32c_append pg chain \<Longrightarrow> \<forall>(p, lp) \<in> set chain. length (lp_entries lp) < 2 ^ 32"
  unfolding ledger_chain_def using read_ledger_page(3) by blast

section \<open>Consuming entries\<close>

lemma scanned_simps [simp]: "sc_entry (scanned p ie) = snd ie" "sc_ledger_page (scanned p ie) = p" "sc_consumed_after (scanned p ie) = word_of_nat (fst ie + 1)"
  by (simp_all add: scanned_def split: prod.split)

definition with_consumed :: "(u64, u32) btree \<Rightarrow> pager \<Rightarrow> pager" where
  "with_consumed consumed pg = pg\<lparr> pgr_free := (pgr_free pg)\<lparr> fs_consumed_in_session := consumed \<rparr> \<rparr>"

lemma page_entries_other:
  assumes "bt_wf (fs_consumed_in_session (pgr_free pg))" "p \<noteq> sc_ledger_page c"
  shows "page_entries (with_consumed (note_consumed c (fs_consumed_in_session (pgr_free pg))) pg) (p, lp) = page_entries pg (p, lp)"
  using assms by (simp add: page_entries_def effective_consumed_def with_consumed_def note_consumed_def bt_get_entry)

lemma page_entries_consume:
  assumes wf: "bt_wf (fs_consumed_in_session (pgr_free pg))" and short: "length (lp_entries lp) < 2 ^ 32"
    and entries: "page_entries pg (p, lp) = c # rest"
  shows "page_entries (with_consumed (note_consumed c (fs_consumed_in_session (pgr_free pg))) pg) (p, lp) = rest"
proof -
  let ?n = "effective_consumed pg p lp" and ?es = "enumerate 0 (lp_entries lp)"
  have less: "unat ?n < length (lp_entries lp)"
    using entries by (auto simp: page_entries_def intro: ccontr)
  then have "drop (unat ?n) ?es = ?es ! unat ?n # drop (Suc (unat ?n)) ?es" by (intro Cons_nth_drop_Suc [symmetric]) simp
  then have c: "c = scanned p (unat ?n, lp_entries lp ! unat ?n)" and rest: "rest = map (scanned p) (drop (Suc (unat ?n)) ?es)"
    using entries less by (auto simp: page_entries_def nth_enumerate_eq)
  have after: "unat (word_of_nat (unat ?n + 1) :: u32) = Suc (unat ?n)" using less short by (simp only: unat_of_nat) simp
  have "effective_consumed (with_consumed (note_consumed c (fs_consumed_in_session (pgr_free pg))) pg) p lp = word_of_nat (unat ?n + 1)"
  proof -
    have "?n \<le> word_of_nat (unat ?n + 1)" using after by (simp only: word_le_nat_alt)
    then show ?thesis
      using wf by (auto simp: effective_consumed_def with_consumed_def note_consumed_def bt_get_entry c max_def split: option.splits if_splits)
  qed
  then show ?thesis using after by (simp only: page_entries_def prod.case rest)
qed

lemma chain_entries_consume:
  assumes "bt_wf (fs_consumed_in_session (pgr_free pg))" "distinct (map fst chain)" "\<forall>(p, lp) \<in> set chain. length (lp_entries lp) < 2 ^ 32"
    and "chain_entries pg chain = c # rest"
  shows "chain_entries (with_consumed (note_consumed c (fs_consumed_in_session (pgr_free pg))) pg) chain = rest"
  using assms
proof (induction chain)
  case (Cons pl chain)
  obtain p lp where pl: "pl = (p, lp)" by fastforce
  let ?pg = "with_consumed (note_consumed c (fs_consumed_in_session (pgr_free pg))) pg"
  show ?case
  proof (cases "page_entries pg pl")
    case Nil
    then have head: "chain_entries pg chain = c # rest" using Cons.prems(4) by (simp add: chain_entries_def)
    then have "c \<in> set (chain_entries pg chain)" by simp
    then have "sc_ledger_page c \<in> fst ` set chain" by (force simp: chain_entries_def page_entries_def)
    then have "p \<noteq> sc_ledger_page c" using Cons.prems(2) pl by auto
    then have "page_entries ?pg pl = []" using page_entries_other Cons.prems(1) Nil pl by simp
    then show ?thesis using Cons.IH [OF Cons.prems(1) _ _ head] Cons.prems(2,3) by (simp add: chain_entries_def)
  next
    case (Cons c' rest')
    have eq: "c' = c" "rest = rest' @ chain_entries pg chain" using Cons Cons.prems(4) by (simp_all add: chain_entries_def)
    have "sc_ledger_page c = p" using Cons eq(1) pl by (auto simp: page_entries_def map_eq_Cons_conv)
    then have "page_entries ?pg q = page_entries pg q" if "q \<in> set chain" for q
      using page_entries_other [OF Cons.prems(1), of "fst q" c "snd q"] Cons.prems(2) that pl by force
    then have "chain_entries ?pg chain = chain_entries pg chain" by (simp add: chain_entries_def cong: map_cong)
    moreover have "page_entries ?pg pl = rest'"
      using page_entries_consume [OF Cons.prems(1), of lp p c rest'] Cons eq(1) pl Cons.prems(3) by auto
    ultimately show ?thesis using eq(2) by (simp add: chain_entries_def)
  qed
qed simp

lemma consume_entries:
  assumes "distinct (map fst chain)" "\<forall>(p, lp) \<in> set chain. length (lp_entries lp) < 2 ^ 32"
    and "bt_wf (fs_consumed_in_session (pgr_free pg))" "consumed = fold note_consumed (take n (chain_entries pg chain)) (fs_consumed_in_session (pgr_free pg))"
  shows "bt_wf consumed \<and> chain_entries (with_consumed consumed pg) chain = drop n (chain_entries pg chain)"
  using assms(3,4)
proof (induction n arbitrary: pg)
  case 0
  then show ?case by (simp add: with_consumed_def)
next
  case (Suc n)
  show ?case
  proof (cases "chain_entries pg chain")
    case Nil
    then show ?thesis using Suc.prems by (simp add: with_consumed_def)
  next
    case (Cons c rest)
    let ?pg = "with_consumed (note_consumed c (fs_consumed_in_session (pgr_free pg))) pg"
    have rest: "chain_entries ?pg chain = rest" using chain_entries_consume [OF Suc.prems(1) assms(1,2) Cons] .
    have "bt_wf (fs_consumed_in_session (pgr_free ?pg))" using Suc.prems(1) by (simp add: with_consumed_def note_consumed_def bt_wf_entry)
    moreover have "consumed = fold note_consumed (take n (chain_entries ?pg chain)) (fs_consumed_in_session (pgr_free ?pg))"
      using Suc.prems(2) Cons rest by (simp add: with_consumed_def)
    moreover have "with_consumed consumed ?pg = with_consumed consumed pg" by (simp add: with_consumed_def)
    ultimately show ?thesis using Suc.IH [of ?pg] rest Cons by simp
  qed
qed

section \<open>Scanning\<close>

lemma scan_entries_spec:
  assumes "scan_entries cursor min_pin limit xs sc = (exhausted, sc')" "\<forall>(i, e) \<in> set xs. i + 1 < 2 ^ 32"
  shows "\<exists>n. sc' = sc @ map (scanned cursor) (take n xs) \<and> (\<forall>x \<in> set (take n xs). le_retired_lsn (snd x) < min_pin) \<and>
    (\<not> exhausted \<longrightarrow> take n xs = xs)"
  using assms
proof (induction xs arbitrary: sc)
  case (Cons x xs)
  obtain i e where x: "x = (i, e)" by fastforce
  show ?case
  proof (cases "min_pin \<le> le_retired_lsn e \<or> limit \<le> length sc")
    case True
    then show ?thesis using Cons.prems x by (auto intro: exI [of _ 0])
  next
    case False
    have "i + 1 < 2 ^ 32" using Cons.prems(2) x by simp
    then have "scan_entries cursor min_pin limit xs (sc @ [scanned cursor x]) = (exhausted, sc')"
      using Cons.prems(1) False x by (simp add: u32_try_from_def scanned_def)
    from Cons.IH [OF this] Cons.prems(2) obtain n where
      "sc' = (sc @ [scanned cursor x]) @ map (scanned cursor) (take n xs)" "\<forall>x \<in> set (take n xs). le_retired_lsn (snd x) < min_pin"
      "\<not> exhausted \<longrightarrow> take n xs = xs" by auto
    then show ?thesis using False x by (auto intro!: exI [of _ "Suc n"])
  qed
qed (auto intro: exI [of _ 0])

text \<open>A scan that goes through holds a prefix of the entries, all of them below the horizon, and selects nothing
  or a run of their pages.\<close>

definition scan_result :: "scanned_reuse_entry list \<Rightarrow> u64 \<Rightarrow> nat \<Rightarrow> reuse_scan \<Rightarrow> bool" where
  "scan_result entries min_pin count scan \<longleftrightarrow>
    (\<exists>n. rs_entries scan = take n entries) \<and> (\<forall>c \<in> set (rs_entries scan). le_retired_lsn (sc_entry c) < min_pin) \<and>
    (case rs_selected scan of
       None \<Rightarrow> True
     | Some S \<Rightarrow> \<exists>first. unat first + count \<le> 2 ^ 64 \<and>
         (\<lambda>i. sc_page_id (rs_entries scan ! i)) ` {i \<in> S. i < length (rs_entries scan)} = page_run first count)"

lemma reuse_scan_loop_sound:
  assumes count: "0 < count" and run: "reuse_scan_loop crc32c_append rd min_pin count skip tail pg cursor scan = (r, pg')"
    and chain: "\<forall>(p, lp) \<in> set (chain1 @ chain2). read_ledger_page_locked crc32c_append (\<lambda>_. Inr ()) pg p = Inr lp"
    and "linked tail chain2" "cursor = fst (hd chain2)"
    and scan: "scan = \<lparr> rs_entries = chain_entries pg chain1, rs_selected = None, rs_ledger_pages = pages \<rparr>"
    and below: "\<forall>c \<in> set (chain_entries pg chain1). le_retired_lsn (sc_entry c) < min_pin"
  shows "r = None \<and> pg' = degrade_free_pages_locked pg \<or>
    (\<exists>scan'. r = Some scan' \<and> pg' = pg \<and> scan_result (chain_entries pg (chain1 @ chain2)) min_pin count scan')"
  using assms(2-7)
proof (induction chain2 arbitrary: chain1 cursor scan pages)
  case (Cons pl rest)
  obtain p lp where pl: "pl = (p, lp)" by fastforce
  have cursor: "cursor = p" using Cons.prems(4) pl by simp
  let ?all = "chain_entries pg (chain1 @ pl # rest)"
  show ?case
  proof (cases "scan_ledger_page_locked crc32c_append rd p scan pg")
    case (Pair res pg1)
    show ?thesis
    proof (cases res)
      case None
      then have "pg1 = degrade_free_pages_locked pg" using Pair by (auto simp: scan_ledger_page_locked_def split: if_splits sum.splits)
      then show ?thesis using Cons.prems(1) Pair None cursor by (subst (asm) reuse_scan_loop.simps) auto
    next
      case (Some ds)
      obtain decoded scan1 where ds: "ds = (decoded, scan1)" by fastforce
      from scan_page_progress [OF Pair [unfolded Some ds]] have step: "pg1 = pg" "scan1 = scan\<lparr> rs_ledger_pages := p # rs_ledger_pages scan \<rparr>"
          "read_ledger_page_locked crc32c_append rd pg p = Inr decoded" by simp_all
      have lp: "decoded = lp" using read_ledger_page(1) [OF step(3)] Cons.prems(2) pl by auto
      let ?xs = "drop (unat (effective_consumed pg p lp)) (enumerate 0 (lp_entries lp))"
      obtain exhausted sc' where se: "scan_entries p min_pin (saturating_add_usize count RUN_SCAN_SKIP_LIMIT) ?xs (chain_entries pg chain1) = (exhausted, sc')"
        by fastforce
      have "\<forall>(i, e) \<in> set ?xs. i + 1 < 2 ^ 32"
      proof -
        have "length (lp_entries lp) < 2 ^ 32" using read_ledger_page(3) [OF step(3)] lp by simp
        then show ?thesis using set_drop_subset [of _ "enumerate 0 (lp_entries lp)"] by (fastforce simp: in_set_enumerate_eq)
      qed
      from scan_entries_spec [OF se this] obtain n where
        n: "sc' = chain_entries pg chain1 @ map (scanned p) (take n ?xs)" "\<forall>x \<in> set (take n ?xs). le_retired_lsn (snd x) < min_pin"
          "\<not> exhausted \<Longrightarrow> take n ?xs = ?xs" by auto
      have all: "?all = chain_entries pg chain1 @ map (scanned p) ?xs @ chain_entries pg rest"
        by (simp add: chain_entries_def page_entries_def pl)
      have sc': "\<exists>n. sc' = take n ?all" "\<forall>c \<in> set sc'. le_retired_lsn (sc_entry c) < min_pin"
      proof -
        have "take n ?xs = take (min n (length ?xs)) ?xs" by (simp add: min_def)
        then have "sc' = take (length (chain_entries pg chain1) + min n (length ?xs)) ?all" unfolding all n(1) by (simp add: take_map)
        then show "\<exists>n. sc' = take n ?all" by blast
        show "\<forall>c \<in> set sc'. le_retired_lsn (sc_entry c) < min_pin" using n(1,2) Cons.prems(6) by auto
      qed
      define scan2 where "scan2 = scan1\<lparr> rs_entries := sc' \<rparr>"
      define scan3 where "scan3 = (if count \<le> length sc' then select_earliest_run scan2 count else scan2)"
      have loop: "(r, pg') = (if rs_selected scan3 \<noteq> None then (Some scan3, pg)
             else if exhausted \<or> p = tail \<or> lp_next_page lp = 0 then (Some (trim_unselected_scan scan3 skip), pg)
             else reuse_scan_loop crc32c_append rd min_pin count skip tail pg (lp_next_page lp) scan3)"
      proof -
        have entries: "rs_entries scan1 = chain_entries pg chain1" using step(2) Cons.prems(5) by simp
        have run: "reuse_scan_loop crc32c_append rd min_pin count skip tail pg p scan = (r, pg')" using Cons.prems(1) cursor by simp
        show ?thesis
          unfolding run [symmetric] reuse_scan_loop.simps [of crc32c_append rd min_pin count skip tail pg p scan] Pair Some ds prod.case option.case Let_def
            step(1) lp entries se scan2_def [symmetric] scan3_def [symmetric] by (rule refl)
      qed
      have sel: "rs_selected scan2 = None" "rs_entries scan2 = sc'" using step(2) Cons.prems(5) by (simp_all add: scan2_def)
      have below: "scan_result ?all min_pin count (scan2\<lparr> rs_entries := take k sc' \<rparr>)" for k
      proof -
        have "\<exists>n. take k sc' = take n ?all" using sc'(1) by (metis take_take)
        moreover have "\<forall>c \<in> set (take k sc'). le_retired_lsn (sc_entry c) < min_pin" using sc'(2) by (meson in_set_takeD)
        ultimately show ?thesis using sel(1) by (simp add: scan_result_def)
      qed
      have scan3: "scan3 = scan2 \<or> rs_selected scan3 \<noteq> None \<and> scan_result ?all min_pin count scan3"
      proof (cases "count \<le> length sc'")
        case True
        from assms(1) show ?thesis
        proof (rule select_outcome [of count scan2])
          fix first S k
          assume sel: "select_earliest_run scan2 count = scan2\<lparr> rs_entries := take k (rs_entries scan2), rs_selected := Some S \<rparr>"
            "is_run (sc_page_id ` set (rs_entries scan2)) count first"
            "(\<lambda>i. sc_page_id (take k (rs_entries scan2) ! i)) ` {i \<in> S. i < length (take k (rs_entries scan2))} = page_run first count"
          then show ?thesis
            using below [of k] True sel \<open>rs_entries scan2 = sc'\<close> by (auto simp: scan3_def scan_result_def is_run_def)
        qed (simp add: scan3_def True)
      qed (simp add: scan3_def)
      show ?thesis
      proof (cases "rs_selected scan3 \<noteq> None \<or> exhausted \<or> p = tail \<or> lp_next_page lp = 0")
        case True
        then show ?thesis
          using loop scan3 below [of skip] sel by (auto simp: trim_unselected_scan_def split: if_splits)
      next
        case False
        then have scan3: "scan3 = scan2" using scan3 by auto
        obtain q lq rest' where rest: "rest = (q, lq) # rest'" "lp_next_page lp = q"
          using Cons.prems(3) False pl by (cases rest) auto
        have entries: "sc' = chain_entries pg (chain1 @ [pl])" using n(1,3) False by (simp add: chain_entries_def page_entries_def pl)
        have "r = None \<and> pg' = degrade_free_pages_locked pg \<or>
            (\<exists>scan'. r = Some scan' \<and> pg' = pg \<and> scan_result (chain_entries pg ((chain1 @ [pl]) @ rest)) min_pin count scan')"
        proof (rule Cons.IH)
          show "reuse_scan_loop crc32c_append rd min_pin count skip tail pg q scan2 = (r, pg')" using loop False scan3 rest by simp
          show "scan2 = \<lparr> rs_entries = chain_entries pg (chain1 @ [pl]), rs_selected = None, rs_ledger_pages = p # rs_ledger_pages scan \<rparr>"
            using sel step(2) Cons.prems(5) entries by (simp add: scan2_def)
          show "linked tail rest" using Cons.prems(3) rest pl by simp
          show "\<forall>c \<in> set (chain_entries pg (chain1 @ [pl])). le_retired_lsn (sc_entry c) < min_pin" using sc'(2) entries by simp
        qed (use Cons.prems(2) rest in auto)
        then show ?thesis by simp
      qed
    qed
  qed
qed simp

section \<open>Runs\<close>

definition ascending :: "u64 list \<Rightarrow> bool" where
  "ascending run \<longleftrightarrow> (\<forall>i < length run. unat (run ! i) = unat (hd run) + i)"

lemma ascending_run:
  assumes "ascending run" "run \<noteq> []"
  shows "set run = page_run (hd run) (length run)" "unat (hd run) + length run \<le> 2 ^ 64"
proof -
  have "p \<in> set run" if p: "p \<in> page_run (hd run) (length run)" for p
  proof -
    let ?i = "unat p - unat (hd run)"
    have i: "?i < length run" "unat p = unat (hd run) + ?i" using p by (auto simp: page_run_def)
    then have "p = run ! ?i" using assms(1) by (simp add: ascending_def word_unat_eq_iff)
    then show ?thesis using nth_mem [OF i(1)] by metis
  qed
  then show "set run = page_run (hd run) (length run)"
    using assms(1) by (auto simp: ascending_def page_run_def in_set_conv_nth)
  have "unat (last run) = unat (hd run) + (length run - 1)" using assms by (simp add: ascending_def last_conv_nth)
  then show "unat (hd run) + length run \<le> 2 ^ 64" using unsigned_less [of "last run", where 'a = nat] assms(2) by (cases run) auto
qed

lemma ascending_snoc:
  assumes "ascending run" "run \<noteq> []" "checked_add_word (last run) 1 = Some p"
  shows "ascending (run @ [p])"
proof -
  have "unat p = unat (hd run) + length run"
    using assms by (cases run rule: rev_cases) (auto simp: next_page_iff ascending_def nth_append)
  then show ?thesis using assms(1,2) by (auto simp: ascending_def nth_append less_Suc_eq)
qed

lemma find_run_loop_sound:
  assumes "find_run_loop count run ps = Some r" "ascending run" "set run \<union> set ps \<subseteq> S"
  shows "ascending r \<and> r \<noteq> [] \<and> length r = count \<and> set r \<subseteq> S"
  using assms
proof (induction ps arbitrary: run)
  case (Cons p ps)
  define run' where "run' = (if run \<noteq> [] \<and> checked_add_word (last run) 1 \<noteq> Some p then [] else run) @ [p]"
  have "ascending run'"
  proof (cases "run \<noteq> [] \<and> checked_add_word (last run) 1 = Some p")
    case True
    then show ?thesis using Cons.prems(2) ascending_snoc [of run p] by (simp add: run'_def)
  next
    case False
    then have "run' = [p]" by (auto simp: run'_def)
    then show ?thesis by (simp add: ascending_def)
  qed
  moreover have "run' \<noteq> []" "set run' \<union> set ps \<subseteq> S" using Cons.prems(3) by (auto simp: run'_def)
  ultimately show ?case
    using Cons.IH [of run'] Cons.prems(1) by (auto simp: run'_def [symmetric] Let_def split: if_splits)
qed simp

lemma find_contiguous_run_sound:
  assumes "find_contiguous_run S count = Some run" "finite S"
  shows "run \<noteq> [] \<and> set run = page_run (hd run) count \<and> unat (hd run) + count \<le> 2 ^ 64 \<and> set run \<subseteq> S"
  using find_run_loop_sound [of count "[]" "sorted_list_of_set S" run S] assms ascending_run [of run]
  by (simp add: find_contiguous_run_def ascending_def)

lemma sorted_page_run:
  assumes "0 < count" "unat first + count \<le> 2 ^ 64"
  obtains rest where "sorted_list_of_set (page_run first count) = first # rest"
proof -
  have "Min (page_run first count) = first"
    by (rule Min_eqI) (use assms(1) in \<open>auto simp: page_run_def word_le_nat_alt\<close>)
  then have "sorted_list_of_set (page_run first count) = first # sorted_list_of_set (page_run first count - {first})"
    using sorted_list_of_set_nonempty [of "page_run first count"] page_run_first [OF assms(1), of first] by auto
  then show thesis by (rule that)
qed

section \<open>One allocation\<close>

definition eligible :: "pager \<Rightarrow> (u64 \<times> ledger_page) list \<Rightarrow> u64 set" where
  "eligible pg chain = deferred pg \<union> retired_below pg chain (pgr_min_pin pg)"

definition reuse_step ::
    "(u32 \<Rightarrow> bytes \<Rightarrow> u32) \<Rightarrow> pager \<Rightarrow> (u64 \<times> ledger_page) list \<Rightarrow> u64 set \<Rightarrow> pager \<Rightarrow> (u64 \<times> ledger_page) list \<Rightarrow> bool" where
  "reuse_step crc32c_append pg chain run pg' chain' \<longleftrightarrow>
    ledger_sound crc32c_append pg' chain' \<and> fst ` set chain' \<subseteq> fst ` set chain \<and>
    pgr_page_size pg' = pgr_page_size pg \<and> pgr_min_pin pg' = pgr_min_pin pg \<and>
    set (chain_entries pg' chain') \<subseteq> set (chain_entries pg chain) \<and> deferred pg' \<subseteq> eligible pg chain \<and>
    pool pg' chain' \<subseteq> pool pg chain - run \<and> keeps (pgr_page_size pg) (eligible pg chain) (pgr_file pg) (pgr_file pg')"

definition handed_out :: "pager \<Rightarrow> nat \<Rightarrow> u64 \<Rightarrow> bool" where
  "handed_out pg count first \<longleftrightarrow> unat first + count \<le> 2 ^ 64 \<and>
    (\<forall>p \<in> page_run first count. 2 \<le> p \<and> unat p < pgr_page_count pg \<and> page_bytes (pgr_page_size pg) (pgr_file pg) p = replicate (pgr_page_size pg) 0)"

definition reuse_ok ::
    "(u32 \<Rightarrow> bytes \<Rightarrow> u32) \<Rightarrow> nat \<Rightarrow> pager \<Rightarrow> (u64 \<times> ledger_page) list \<Rightarrow> u64 option devon_result \<Rightarrow> pager \<Rightarrow> bool" where
  "reuse_ok crc32c_append count pg chain res pg' \<longleftrightarrow>
    (\<exists>chain'. reuse_step crc32c_append pg chain (case res of Inr (Some first) \<Rightarrow> page_run first count | _ \<Rightarrow> {}) pg' chain') \<and>
    (\<forall>first. res = Inr (Some first) \<longrightarrow> handed_out pg' count first \<and> page_run first count \<subseteq> eligible pg chain)"

lemma reuse_step_refl: "ledger_sound crc32c_append pg chain \<Longrightarrow> reuse_step crc32c_append pg chain {} pg chain"
  by (auto simp: reuse_step_def eligible_def)

lemma reuse_step_degrade:
  "ledger_sound crc32c_append pg chain \<Longrightarrow> reuse_step crc32c_append pg chain {} (degrade_free_pages_locked pg) []"
  using degraded_sound by (auto simp: reuse_step_def eligible_def pool_def)

lemma eligible_pool: "eligible pg chain \<subseteq> pool pg chain"
  by (auto simp: eligible_def pool_def retired_below_def)

lemma reusable_iff: "is_reusable_page_id pg p \<longleftrightarrow> 2 \<le> p \<and> unat p < pgr_page_count pg"
  by (auto simp: is_reusable_page_id_def ensure_data_page_def SUPERBLOCK_SLOTS_def not_less)

text \<open>Zeroing pages that are eligible, whether or not it goes through, leaves the ledger as it was.\<close>

lemma zero_step:
  assumes sound: "ledger_sound crc32c_append pg chain" and run: "zero_reused_pages_locked wr ps pg = (res, pg')"
    and ps: "set ps \<subseteq> eligible pg chain" "\<forall>p \<in> set ps. is_reusable_page_id pg p"
  shows "reuse_step crc32c_append pg chain {} pg' chain" "pgr_free pg' = pgr_free pg" "chain_entries pg' = chain_entries pg"
    and "ps = sorted_list_of_set (page_run first count) \<or> set ps = page_run first count \<Longrightarrow>
      unat first + count \<le> 2 ^ 64 \<Longrightarrow> res = Inr () \<Longrightarrow> handed_out pg' count first"
proof -
  have "\<forall>p \<in> set ps. unat p < pgr_page_count pg" using ps(2) by (simp add: reusable_iff)
  note z = zero_keeps [OF run this]
  obtain bs where pg': "pg' = pg\<lparr> pgr_file := bs \<rparr>" using z by blast
  have keep: "keeps (pgr_page_size pg) (set ps) (pgr_file pg) (pgr_file pg')" using z by blast
  have "set ps \<inter> fst ` set chain = {}" using ps(1) sound eligible_pool [of pg chain] unfolding ledger_sound_def by blast
  then have chain: "ledger_chain crc32c_append pg' chain" using sound pg' by (intro chain_kept [OF _ keep]) (simp_all add: ledger_sound_def)
  show entries: "chain_entries pg' = chain_entries pg" by (rule chain_entries_cong) (simp add: pg')
  show free: "pgr_free pg' = pgr_free pg" by (simp add: pg')
  have count: "pgr_page_count pg \<le> pgr_page_count pg'" using keep by (simp add: pgr_page_count_def keeps_def pg' div_le_mono)
  have "ledger_sound crc32c_append pg' chain"
    using sound chain free entries count by (auto simp: ledger_sound_def pool_def pg' dest: order.strict_trans2)
  moreover have "keeps (pgr_page_size pg) (eligible pg chain) (pgr_file pg) (pgr_file pg')" using keep ps(1) by (rule keeps_mono)
  ultimately show "reuse_step crc32c_append pg chain {} pg' chain"
    using entries free by (auto simp: reuse_step_def pool_def eligible_def pg')
  show "handed_out pg' count first" if "ps = sorted_list_of_set (page_run first count) \<or> set ps = page_run first count"
    "unat first + count \<le> 2 ^ 64" "res = Inr ()"
  proof -
    have "set ps = page_run first count" using that(1) by auto
    then show ?thesis using that z ps(2) count by (auto simp: handed_out_def reusable_iff pg')
  qed
qed

lemma deferred_ok:
  assumes sound: "ledger_sound crc32c_append pg chain" and run: "try_deferred_run_locked wr count pg = (res, pg')"
  shows "reuse_ok crc32c_append count pg chain res pg'"
proof (cases "find_contiguous_run (deferred pg) count")
  case None
  then show ?thesis using run reuse_step_refl [OF sound] by (auto simp: try_deferred_run_locked_def reuse_ok_def)
next
  case (Some cs)
  have "finite (deferred pg)" using sound by (simp add: ledger_sound_def)
  note cs = find_contiguous_run_sound [OF Some this]
  show ?thesis
  proof (cases "\<exists>p \<in> set cs. \<not> is_reusable_page_id pg p")
    case True
    then show ?thesis using run Some reuse_step_degrade [OF sound] by (auto simp: try_deferred_run_locked_def reuse_ok_def)
  next
    case False
    obtain z pg1 where zero: "zero_reused_pages_locked wr cs pg = (z, pg1)" by fastforce
    have "set cs \<subseteq> eligible pg chain" using cs by (auto simp: eligible_def)
    note step = zero_step [OF sound zero this] 
    have st: "reuse_step crc32c_append pg chain {} pg1 chain" "pgr_free pg1 = pgr_free pg" "chain_entries pg1 = chain_entries pg"
      and handed: "z = Inr () \<Longrightarrow> handed_out pg1 count (hd cs)"
      using step(1-3) step(4) [of "hd cs" count] False cs by auto
    show ?thesis
    proof (cases z)
      case (Inl e)
      then show ?thesis using run Some False zero st(1) by (auto simp: try_deferred_run_locked_def reuse_ok_def)
    next
      case (Inr u)
      define free where "free = (pgr_free pg)\<lparr> fs_deferred_reuse := deferred pg - set cs, fs_reused_in_session := fs_reused_in_session (pgr_free pg) + length cs \<rparr>"
      have res: "res = Inr (Some (hd cs))" "pg' = pg1\<lparr> pgr_free := free \<rparr>"
        using run Some False zero Inr st(2) by (auto simp: try_deferred_run_locked_def Let_def free_def)
      have entries: "chain_entries pg' = chain_entries pg"
        unfolding st(3) [symmetric] by (rule chain_entries_cong) (simp add: res(2) free_def st(2))
      have chain: "ledger_chain crc32c_append pg' chain"
        using st(1,2) by (auto simp: reuse_step_def ledger_sound_def ledger_chain_def res(2) free_def read_ledger_iff)
      have "ledger_sound crc32c_append pg' chain" 
        using sound chain entries st by (auto simp: ledger_sound_def pool_def res(2) free_def reuse_step_def pgr_page_count_def)
      moreover have "pool pg' chain \<subseteq> pool pg chain - page_run (hd cs) count"
        using sound cs entries by (auto simp: pool_def res(2) free_def ledger_sound_def)
      ultimately have "reuse_step crc32c_append pg chain (page_run (hd cs) count) pg' chain"
        using st(1) entries by (auto simp: reuse_step_def res(2) free_def eligible_def)
      moreover have "handed_out pg' count (hd cs)" using handed Inr by (simp add: handed_out_def res(2) pgr_page_count_def)
      moreover have "page_run (hd cs) count \<subseteq> eligible pg chain" using cs by (auto simp: eligible_def)
      ultimately show ?thesis by (auto simp: reuse_ok_def res(1))
    qed
  qed
qed

lemma stage_ok:
  assumes sound: "ledger_sound crc32c_append pg chain" and run: "stage_reuse_scan_locked wr scan pg = (res, pg')"
    and scan: "scan_result (chain_entries pg chain) (pgr_min_pin pg) count scan" and count: "0 < count"
  shows "reuse_ok crc32c_append count pg chain res pg'"
proof (cases "\<exists>c \<in> set (rs_entries scan). sc_page_id c \<in> set (rs_ledger_pages scan) \<or> \<not> is_reusable_page_id pg (sc_page_id c)")
  case True
  then show ?thesis using run reuse_step_degrade [OF sound] by (auto simp: stage_reuse_scan_locked_def reuse_ok_def)
next
  case False
  let ?all = "chain_entries pg chain" and ?es = "rs_entries scan"
  obtain n where n: "?es = take n ?all" and below: "\<forall>c \<in> set ?es. le_retired_lsn (sc_entry c) < pgr_min_pin pg"
    using scan by (auto simp: scan_result_def)
  define ids where "ids = (\<lambda>i. sc_page_id (?es ! i)) ` {i \<in> (case rs_selected scan of Some S \<Rightarrow> S | None \<Rightarrow> {}). i < length ?es}"
  have ids: "ids \<subseteq> sc_page_id ` set ?es" by (auto simp: ids_def)
  have listed: "sc_page_id ` set ?es \<subseteq> retired_below pg chain (pgr_min_pin pg)"
    using below by (auto simp: retired_below_def n dest: in_set_takeD)
  have fin: "finite ids" by (rule finite)
  have run_ids: "ids = {} \<or> (\<exists>first. ids = page_run first count \<and> unat first + count \<le> 2 ^ 64)"
    using scan by (auto simp: scan_result_def ids_def split: option.splits)
  obtain z pg1 where zero: "zero_reused_pages_locked wr (sorted_list_of_set ids) pg = (z, pg1)" by fastforce
  have "set (sorted_list_of_set ids) \<subseteq> eligible pg chain" "\<forall>p \<in> set (sorted_list_of_set ids). is_reusable_page_id pg p"
    using ids listed False fin by (auto simp: eligible_def)
  note st = zero_step [OF sound zero this]
  have body: "stage_reuse_scan_locked wr scan pg = (case zero_reused_pages_locked wr (sorted_list_of_set ids) pg of
       (Inl e, pg) \<Rightarrow> (Inl e, pg)
     | (Inr _, pg) \<Rightarrow>
         (let free = pgr_free pg
          in (Inr (case sorted_list_of_set ids of [] \<Rightarrow> None | first # _ \<Rightarrow> Some first),
              pg\<lparr> pgr_free := free\<lparr>
                fs_consumed_in_session := fold note_consumed ?es (fs_consumed_in_session free),
                fs_deferred_reuse := fs_deferred_reuse free \<union> (sc_page_id ` set ?es - ids),
                fs_reused_in_session := fs_reused_in_session free + length (sorted_list_of_set ids) \<rparr> \<rparr>)))"
    unfolding stage_reuse_scan_locked_def Let_def ids_def using False by (simp only: if_False)
  show ?thesis
  proof (cases z)
    case (Inl e)
    then show ?thesis using run body zero st(1) by (auto simp: reuse_ok_def)
  next
    case (Inr u)
    define consumed where "consumed = fold note_consumed (take n ?all) (fs_consumed_in_session (pgr_free pg))"
    define free where "free = (pgr_free pg)\<lparr> fs_consumed_in_session := consumed,
        fs_deferred_reuse := deferred pg \<union> (sc_page_id ` set ?es - ids),
        fs_reused_in_session := fs_reused_in_session (pgr_free pg) + length (sorted_list_of_set ids) \<rparr>"
    have res: "res = Inr (case sorted_list_of_set ids of [] \<Rightarrow> None | first # _ \<Rightarrow> Some first)" "pg' = pg1\<lparr> pgr_free := free \<rparr>"
      using run body zero Inr st(2) by (auto simp: Let_def free_def consumed_def n)
    have reads: "\<forall>(p, lp) \<in> set chain. length (lp_entries lp) < 2 ^ 32" "distinct (map fst chain)" "bt_wf (fs_consumed_in_session (pgr_free pg))"
      using sound chain_short [of crc32c_append pg chain] by (simp_all add: ledger_sound_def ledger_chain_def)
    note consume = consume_entries [OF reads(2,1,3) consumed_def]
    have "chain_entries pg' = chain_entries (with_consumed consumed pg)" by (rule chain_entries_cong) (simp add: res(2) free_def with_consumed_def)
    then have entries: "chain_entries pg' chain = drop n ?all" using consume by simp
    have dist: "distinct (map sc_page_id ?all)" "deferred pg \<inter> sc_page_id ` set ?all = {}" "pool pg chain \<inter> fst ` set chain = {}"
      using sound by (simp_all add: ledger_sound_def)
    have apart: "sc_page_id ` set (take n ?all) \<inter> sc_page_id ` set (drop n ?all) = {}"
      using set_take_disj_set_drop_if_distinct [OF dist(1), of n n] by (simp add: take_map drop_map)
    have sub: "sc_page_id ` set (take n ?all) \<subseteq> sc_page_id ` set ?all" "sc_page_id ` set (drop n ?all) \<subseteq> sc_page_id ` set ?all"
      by (auto dest: in_set_takeD in_set_dropD)
    have deferred': "deferred pg' = deferred pg \<union> (sc_page_id ` set (take n ?all) - ids)" by (simp add: res(2) free_def n)
    have pool': "pool pg' chain \<subseteq> pool pg chain - ids"
    proof -
      have "D \<union> (A - R) \<union> B \<subseteq> D \<union> U - R" if "R \<subseteq> A" "A \<inter> B = {}" "D \<inter> U = {}" "A \<subseteq> U" "B \<subseteq> U" for A B D R U :: "u64 set"
        using that by blast
      from this [OF _ apart dist(2) sub, of ids] ids n show ?thesis by (simp add: pool_def entries deferred')
    qed
    have chain: "ledger_chain crc32c_append pg' chain"
      using st(1,2) by (auto simp: reuse_step_def ledger_sound_def ledger_chain_def res(2) free_def read_ledger_iff)
    have "ledger_sound crc32c_append pg' chain"
    proof -
      have "0 < pgr_page_size pg'" using st(1) sound by (simp add: res(2) reuse_step_def ledger_sound_def)
      moreover have "bt_wf (fs_consumed_in_session (pgr_free pg'))" using consume by (simp add: res(2) free_def)
      moreover have "finite (deferred pg')" by (rule finite)
      moreover have "distinct (map sc_page_id (chain_entries pg' chain))" using dist(1) by (simp add: entries drop_map [symmetric])
      moreover have "deferred pg' \<inter> sc_page_id ` set (chain_entries pg' chain) = {}"
      proof -
        have "(D \<union> (A - R)) \<inter> B = {}" if "A \<inter> B = {}" "D \<inter> U = {}" "B \<subseteq> U" for A B D R U :: "u64 set"
          using that by blast
        from this [OF apart dist(2) sub(2)] show ?thesis by (simp only: entries deferred')
      qed
      moreover have "pool pg' chain \<inter> fst ` set chain = {}" using pool' dist(3) by blast
      moreover have "\<forall>p \<in> pool pg' chain. unat p < pgr_page_count pg'"
        using pool' st by (auto simp: res(2) reuse_step_def ledger_sound_def pool_def pgr_page_count_def)
      ultimately show ?thesis using chain by (simp only: ledger_sound_def)
    qed
    moreover have "deferred pg' \<subseteq> eligible pg chain" using listed by (auto simp: deferred' eligible_def n)
    moreover have "set (chain_entries pg' chain) \<subseteq> set ?all" by (auto simp: entries dest: in_set_dropD)
    ultimately have step: "reuse_step crc32c_append pg chain ids pg' chain"
      using st(1) pool' by (simp add: reuse_step_def res(2))
    show ?thesis
    proof (cases "ids = {}")
      case True
      then show ?thesis using step by (auto simp: reuse_ok_def res(1))
    next
      case ne: False
      obtain first where first: "ids = page_run first count" "unat first + count \<le> 2 ^ 64" using run_ids ne by auto
      obtain rest where "sorted_list_of_set (page_run first count) = first # rest" using sorted_page_run [OF count first(2)] .
      then have "res = Inr (Some first)" by (simp add: res(1) first(1))
      moreover have "handed_out pg' count first"
        using st(4) [of first count] first Inr by (simp add: handed_out_def res(2) pgr_page_count_def)
      moreover have "page_run first count \<subseteq> eligible pg chain" using ids listed first(1) by (auto simp: eligible_def)
      ultimately show ?thesis using step first(1) by (auto simp: reuse_ok_def)
    qed
  qed
qed

lemma eligible_mono:
  "reuse_step crc32c_append pg chain run pg' chain' \<Longrightarrow> eligible pg' chain' \<subseteq> eligible pg chain"
  by (auto simp: reuse_step_def eligible_def retired_below_def)

lemma reuse_step_trans:
  assumes "reuse_step crc32c_append pg chain run1 pg1 chain1" "reuse_step crc32c_append pg1 chain1 run2 pg2 chain2"
  shows "reuse_step crc32c_append pg chain run2 pg2 chain2"
proof -
  have "keeps (pgr_page_size pg) (eligible pg chain) (pgr_file pg) (pgr_file pg2)"
  proof (rule keeps_trans)
    show "keeps (pgr_page_size pg) (eligible pg chain) (pgr_file pg) (pgr_file pg1)" using assms(1) by (simp add: reuse_step_def)
    show "keeps (pgr_page_size pg) (eligible pg1 chain1) (pgr_file pg1) (pgr_file pg2)" using assms by (simp add: reuse_step_def)
  qed (use eligible_mono [OF assms(1)] in blast)
  then show ?thesis
    using assms eligible_mono [OF assms(1)] unfolding reuse_step_def by (intro conjI) (simp_all, blast+)
qed

lemma reuse_ok_trans:
  assumes "reuse_step crc32c_append pg chain run pg1 chain1" "reuse_ok crc32c_append count pg1 chain1 res pg2"
  shows "reuse_ok crc32c_append count pg chain res pg2"
  using assms(2) reuse_step_trans [OF assms(1)] eligible_mono [OF assms(1)] unfolding reuse_ok_def by blast

lemma scan_ok:
  assumes sound: "ledger_sound crc32c_append pg chain" and ext: "fs_extension (pgr_free pg) = Some ext" "has_ledger ext"
    and run: "scan_reclaimable_run_locked crc32c_append rd ext (pgr_min_pin pg) count skip pg = (r, pg')" and count: "0 < count"
  shows "r = None \<and> pg' = degrade_free_pages_locked pg \<or> (\<exists>scan. r = Some scan \<and> pg' = pg \<and> scan_result (chain_entries pg chain) (pgr_min_pin pg) count scan)"
proof -
  have chain: "ledger_chain crc32c_append pg chain" using sound by (simp add: ledger_sound_def)
  show ?thesis
    using reuse_scan_loop_sound [OF count run [unfolded scan_reclaimable_run_locked_def], of "[]" chain] chain ext by (simp add: ledger_chain_def)
qed

lemma try_reuse_ok:
  assumes sound: "ledger_sound crc32c_append pg chain" and run: "try_reuse_run_locked crc32c_append rd wr count pg = (res, pg')"
    and count: "0 < count"
  shows "reuse_ok crc32c_append count pg chain res pg'"
proof -
  obtain res1 pg1 where d: "try_deferred_run_locked wr count pg = (res1, pg1)" by fastforce
  have ok1: "reuse_ok crc32c_append count pg chain res1 pg1" using deferred_ok [OF sound d] .
  show ?thesis
  proof (cases "res1 = Inr None")
    case False
    then show ?thesis using run d ok1 by (auto simp: try_reuse_run_locked_def split: sum.splits option.splits)
  next
    case True
    then obtain chain1 where st: "reuse_step crc32c_append pg chain {} pg1 chain1" using ok1 by (auto simp: reuse_ok_def)
    have sound1: "ledger_sound crc32c_append pg1 chain1" using st by (simp add: reuse_step_def)
    have refl: "reuse_ok crc32c_append count pg1 chain1 (Inr None) pg1" using reuse_step_refl [OF sound1] by (auto simp: reuse_ok_def)
    have "reuse_ok crc32c_append count pg1 chain1 res pg'"
    proof (cases "pgr_min_pin pg1 \<noteq> 0 \<and> (\<exists>ext. fs_extension (pgr_free pg1) = Some ext \<and> has_ledger ext)")
      case False
      then have "res = Inr None" "pg' = pg1" using run d True by (auto simp: try_reuse_run_locked_def split: option.splits if_splits)
      then show ?thesis using refl by simp
    next
      case scans: True
      then obtain ext where ext: "fs_extension (pgr_free pg1) = Some ext" "has_ledger ext" by auto
      let ?skip = "ledger_capacity (pgr_page_size pg1) - card (deferred pg1)"
      obtain r pg2 where scan: "scan_reclaimable_run_locked crc32c_append rd ext (pgr_min_pin pg1) count ?skip pg1 = (r, pg2)" by fastforce
      have body: "(res, pg') = (case r of None \<Rightarrow> (Inr None, pg2) | Some scan \<Rightarrow> stage_reuse_scan_locked wr scan pg2)"
        using run d True scans ext scan by (simp add: try_reuse_run_locked_def split: option.splits)
      from scan_ok [OF sound1 ext scan count] show ?thesis
      proof
        assume "r = None \<and> pg2 = degrade_free_pages_locked pg1"
        then show ?thesis using body reuse_step_degrade [OF sound1] by (auto simp: reuse_ok_def)
      next
        assume "\<exists>scan. r = Some scan \<and> pg2 = pg1 \<and> scan_result (chain_entries pg1 chain1) (pgr_min_pin pg1) count scan"
        then show ?thesis using body stage_ok [OF sound1 _ _ count] by (metis option.simps(5))
      qed
    qed
    then show ?thesis by (rule reuse_ok_trans [OF st])
  qed
qed

definition alloc_ok ::
    "(u32 \<Rightarrow> bytes \<Rightarrow> u32) \<Rightarrow> nat \<Rightarrow> pager \<Rightarrow> (u64 \<times> ledger_page) list \<Rightarrow> u64 devon_result \<Rightarrow> pager \<Rightarrow> bool" where
  "alloc_ok crc32c_append count pg chain res pg' \<longleftrightarrow>
    (\<exists>chain'. reuse_step crc32c_append pg chain (case res of Inr first \<Rightarrow> page_run first count | Inl _ \<Rightarrow> {}) pg' chain') \<and>
    (\<forall>first. res = Inr first \<longrightarrow> handed_out pg' count first \<and>
      (page_run first count \<subseteq> eligible pg chain \<or> (\<forall>p \<in> page_run first count. pgr_page_count pg \<le> unat p)))"

lemma append_ok:
  assumes sound: "ledger_sound crc32c_append pg chain" and run: "append_run_locked wr count pg = (res, pg')" and count: "0 < count"
  shows "alloc_ok crc32c_append count pg chain res pg'"
proof -
  let ?sz = "pgr_page_size pg"
  have sz: "0 < ?sz" using sound by (simp add: ledger_sound_def)
  note a = append_keeps [OF run sz]
  obtain bs where pg': "pg' = pg\<lparr> pgr_file := bs \<rparr>" using a by blast
  obtain zeros where bs: "bs = pgr_file pg @ replicate zeros 0" using a pg' by auto
  have keep: "keeps ?sz {} (pgr_file pg) (pgr_file pg')"
    by (auto simp: keeps_def pg' bs page_bytes_def subslice_append_left)
  have count_le: "pgr_page_count pg \<le> pgr_page_count pg'" using keep by (simp add: pgr_page_count_def keeps_def pg' div_le_mono)
  have entries: "chain_entries pg' = chain_entries pg" by (rule chain_entries_cong) (simp add: pg')
  have "ledger_chain crc32c_append pg' chain"
    using sound by (intro chain_kept [OF _ keep]) (simp_all add: ledger_sound_def pg')
  then have sound': "ledger_sound crc32c_append pg' chain"
    using sound entries count_le by (auto simp: ledger_sound_def pool_def pg' dest: order.strict_trans2)
  have handed: "handed_out pg' count first \<and> (\<forall>p \<in> page_run first count. pgr_page_count pg \<le> unat p)" if "res = Inr first" for first
  proof -
    have f: "length (pgr_file pg) = unat first * ?sz" "2 \<le> first" "unat first + count \<le> 2 ^ 64"
        "bs = pgr_file pg @ replicate (count * ?sz) 0"
      using a that count pg' by auto
    have n: "pgr_page_count pg = unat first" "pgr_page_count pg' = unat first + count"
      using f(1,4) sz by (simp_all add: pgr_page_count_def pg' div_mult_self3 flip: distrib_right)
    have "page_bytes ?sz bs p = replicate ?sz 0" if p: "p \<in> page_run first count" for p
    proof -
      have "unat first * ?sz \<le> unat p * ?sz" "Suc (unat p) * ?sz \<le> (unat first + count) * ?sz"
        using p by (simp_all only: page_run_def mem_Collect_eq mult_le_mono1 Suc_leI)
      then have "unat p * ?sz + ?sz - unat first * ?sz \<le> count * ?sz" "unat first * ?sz \<le> unat p * ?sz" by (simp_all add: algebra_simps)
      then show ?thesis by (simp add: page_bytes_def f(4) subslice_append_right f(1) subslice_replicate)
    qed
    then show ?thesis using f n by (auto simp: handed_out_def pg' page_run_def word_le_nat_alt pgr_page_count_def)
  qed
  have "reuse_step crc32c_append pg chain (case res of Inr first \<Rightarrow> page_run first count | Inl _ \<Rightarrow> {}) pg' chain"
  proof -
    have "pool pg chain \<inter> (case res of Inr first \<Rightarrow> page_run first count | Inl _ \<Rightarrow> {}) = {}"
    proof (cases res)
      case (Inr first)
      have "p \<notin> page_run first count" if "p \<in> pool pg chain" for p
      proof -
        have "unat p < pgr_page_count pg" using sound that by (simp add: ledger_sound_def)
        then show ?thesis using handed [OF Inr] by (meson leD)
      qed
      then show ?thesis using Inr by auto
    qed simp
    moreover have "pool pg' chain = pool pg chain" unfolding pool_def entries by (simp add: pg')
    moreover have "set (chain_entries pg' chain) \<subseteq> set (chain_entries pg chain)" by (simp only: entries order_refl)
    ultimately show ?thesis
      using sound' keeps_mono [OF keep, of "eligible pg chain"] by (auto simp: reuse_step_def pg' eligible_def)
  qed
  then show ?thesis using handed unfolding alloc_ok_def by blast
qed

lemma allocate_ok:
  assumes sound: "ledger_sound crc32c_append pg chain" and run: "allocate_run crc32c_append rd wr count pg = (res, pg')"
  shows "alloc_ok crc32c_append count pg chain res pg'"
proof (cases "count = 0")
  case True
  then show ?thesis using run reuse_step_refl [OF sound] by (auto simp: allocate_run_def alloc_ok_def)
next
  case False
  obtain res1 pg1 where reuse: "try_reuse_run_locked crc32c_append rd wr count pg = (res1, pg1)" by fastforce
  have ok: "reuse_ok crc32c_append count pg chain res1 pg1" using try_reuse_ok [OF sound reuse] False by simp
  show ?thesis
  proof (cases "res1 = Inr None")
    case True
    then obtain chain1 where st: "reuse_step crc32c_append pg chain {} pg1 chain1" using ok by (auto simp: reuse_ok_def)
    have "append_run_locked wr count pg1 = (res, pg')" using run reuse True False by (simp add: allocate_run_def)
    then have app: "alloc_ok crc32c_append count pg1 chain1 res pg'" using st False by (intro append_ok) (simp_all add: reuse_step_def)
    have "pgr_page_count pg \<le> pgr_page_count pg1" using st by (simp add: reuse_step_def keeps_def pgr_page_count_def div_le_mono)
    then show ?thesis
      using app reuse_step_trans [OF st] eligible_mono [OF st] unfolding alloc_ok_def by (blast intro: order_trans)
  next
    case no_append: False
    then have "res = map_sum id the res1" "pg' = pg1" using run reuse False by (auto simp: allocate_run_def split: sum.splits option.splits)
    then show ?thesis using ok no_append by (cases res1) (auto simp: reuse_ok_def alloc_ok_def)
  qed
qed

end
