(* ===== verification/SlotCommit.thy ===== *)
theory SlotCommit
  imports PageReuse
begin

text \<open>
  Publishing a superblock is atomic: whatever prefix of a slot page reached the file, opening it gives
  the superblock before or after the publication, and the one after when the publication returned. This
  holds through the life of a pager: pages allocated and written, extensions staged, files reopened
  after publications that returned and after ones that failed.
\<close>

section \<open>Slot pages\<close>

definition header_at :: "bytes \<Rightarrow> nat \<Rightarrow> bytes" where
  "header_at bs offset = subslice bs offset (offset + 64)"

lemma page_size_bounds:
  assumes "valid_page_size sz"
  shows "4096 \<le> unat sz"
  using assms by (auto simp: valid_page_size_iff)

lemma encode_page_eq:
  assumes "encode_page crc32c sb = Inr page" "length (sb_db_id sb) = 16"
  shows "sb_encode crc32c sb (replicate 64 0) = Inr (take 64 page)" "length page = unat (sb_page_size sb)" "valid_page_size (sb_page_size sb)"
    "\<forall>i. 64 \<le> i \<longrightarrow> i < length page \<longrightarrow> page ! i = 0"
proof -
  from assms(1) obtain header where h: "sb_encode crc32c sb (replicate 64 0) = Inr header"
    "page = copy_into (replicate (unat (sb_page_size sb)) 0) 0 header"
    by (auto simp: encode_page_def rbind_eq_Inr SUPERBLOCK_HEADER_LEN_def)
  have len: "length header = 64" using sb_encode_tail(1) [OF h(1) assms(2)] by simp
  show v: "valid_page_size (sb_page_size sb)" using h(1) by (auto elim: sb_encode_eq)
  note size = page_size_bounds [OF v]
  show "sb_encode crc32c sb (replicate 64 0) = Inr (take 64 page)" "length page = unat (sb_page_size sb)"
    "\<forall>i. 64 \<le> i \<longrightarrow> i < length page \<longrightarrow> page ! i = 0"
    using h len size by (auto simp: copy_into_def nth_append)
qed

text \<open>A slot page: the header and zeros past the extension.\<close>

lemma encode_slot_page_eq:
  assumes "encode_slot_page crc32c sb pending free = Inr page" "length (sb_db_id sb) = 16"
  shows "sb_encode crc32c sb (replicate 64 0) = Inr (take 64 page)" "length page = unat (sb_page_size sb)" "valid_page_size (sb_page_size sb)"
    "\<forall>i. 92 \<le> i \<longrightarrow> i < length page \<longrightarrow> page ! i = 0"
proof -
  from assms(1) obtain p where p: "encode_page crc32c sb = Inr p" "page = p \<or> (\<exists>ext. ext_encode_into crc32c ext p = Inr page)"
    by (auto simp: encode_slot_page_def rbind_eq_Inr split: if_splits option.splits)
  note enc = encode_page_eq [OF p(1) assms(2)]
  have size: "4096 \<le> length p" using page_size_bounds [OF enc(3)] enc(2) by simp
  have "take 64 page = take 64 p \<and> length page = length p \<and> (\<forall>i. 92 \<le> i \<longrightarrow> i < length page \<longrightarrow> page ! i = 0)"
    using p(2)
  proof
    assume "page = p"
    then show ?thesis using enc(4) by simp
  next
    assume "\<exists>ext. ext_encode_into crc32c ext p = Inr page"
    then obtain ext where "ext_encode_into crc32c ext p = Inr page" by blast
    then obtain body where "page = copy_into p 64 body" "length body = 28"
      using size by (auto simp: ext_encode_into_eq Let_def)
    then show ?thesis using size enc(4) by (auto simp: copy_into_def nth_append)
  qed
  then show "sb_encode crc32c sb (replicate 64 0) = Inr (take 64 page)" "length page = unat (sb_page_size sb)" "valid_page_size (sb_page_size sb)"
    "\<forall>i. 92 \<le> i \<longrightarrow> i < length page \<longrightarrow> page ! i = 0"
    using enc by simp_all
qed

section \<open>Opening\<close>

lemma read_slot_header:
  "offset + 64 \<le> length bs \<Longrightarrow> read_slot crc32c bs offset expected =
    rbind (sb_decode crc32c (header_at bs offset)) (\<lambda>sb. case expected of
      Some e \<Rightarrow> if e \<noteq> sb_page_size sb then Inl (Corrupt ''superblock slots disagree on page size'') else Inr sb | None \<Rightarrow> Inr sb)"
  by (simp add: read_slot_def read_exact_at_def SUPERBLOCK_HEADER_LEN_def header_at_def)

lemma zeros_no_superblock:
  assumes "\<forall>i. k \<le> i \<longrightarrow> i < k + 64 \<longrightarrow> bs ! i = 0" "k + 64 \<le> length bs"
  shows "\<exists>e. sb_decode crc32c (header_at bs k) = Inl e"
proof -
  have "header_at bs k = replicate 64 0"
    using assms by (intro nth_equalityI) (auto simp: header_at_def subslice_def)
  then have "hd (subslice (header_at bs k) 0 8) \<noteq> hd MAGIC" by (simp add: subslice_def MAGIC_def)
  then have "subslice (header_at bs k) 0 8 \<noteq> MAGIC" by auto
  then show ?thesis by (simp add: sb_decode_def decode_with_masks_def)
qed

lemma second_slot_found:
  assumes "valid_page_size sz" "2 * unat sz \<le> length bs" "\<forall>i. 92 \<le> i \<longrightarrow> i < unat sz \<longrightarrow> bs ! i = 0"
    and "sb_decode crc32c (header_at bs (unat sz)) = Inr sb" "sb_page_size sb = sz"
  shows "read_second_slot crc32c bs None = Inr sb"
proof -
  have miss: "\<exists>e. read_slot crc32c bs k expected = Inl e" if "92 \<le> k" "k + 64 \<le> unat sz" for k expected
    using zeros_no_superblock [of k bs crc32c] that assms(2,3) by (auto simp: read_slot_header)
  have hit: "read_slot crc32c bs (unat sz) (Some sz) = Inr sb"
    using assms(2,4,5) page_size_bounds [OF assms(1)] by (simp add: read_slot_header)
  consider "sz = 4096" | "sz = 8192" | "sz = 16384" | "sz = 32768" | "sz = 65536" using assms(1) by (auto simp: valid_page_size_iff)
  then show ?thesis
    using hit miss [of 4096 "Some 4096"] miss [of 8192 "Some 8192"] miss [of 16384 "Some 16384"] miss [of 32768 "Some 32768"]
    by cases (auto simp: read_second_slot_def VALID_PAGE_SIZES_def)
qed

text \<open>What an open chooses among two slots of one page size.\<close>

definition newer :: "superblock devon_result \<Rightarrow> superblock devon_result \<Rightarrow> superblock option" where
  "newer a b = (case (a, b) of
     (Inr a, Inr b) \<Rightarrow> Some (if sb_checkpoint_lsn a < sb_checkpoint_lsn b then b else a)
   | (Inr a, Inl _) \<Rightarrow> Some a | (Inl _, Inr b) \<Rightarrow> Some b | (Inl _, Inl _) \<Rightarrow> None)"

definition slot_fits :: "u32 \<Rightarrow> superblock devon_result \<Rightarrow> bool" where
  "slot_fits sz d \<longleftrightarrow> (case d of Inr sb \<Rightarrow> sb_page_size sb = sz | Inl e \<Rightarrow> \<not> is_version_mismatch e)"

lemma open_newer:
  assumes "valid_page_size sz" "2 * unat sz \<le> length bs" "unat sz dvd length bs" "\<forall>i. 92 \<le> i \<longrightarrow> i < unat sz \<longrightarrow> bs ! i = 0"
    and "slot_fits sz (sb_decode crc32c (header_at bs 0))" "slot_fits sz (sb_decode crc32c (header_at bs (unat sz)))"
    and "newer (sb_decode crc32c (header_at bs 0)) (sb_decode crc32c (header_at bs (unat sz))) = Some sb"
  shows "\<exists>free. open_backend crc32c bs = Inr (pager_new bs sb (selected_slot (sb_decode crc32c (header_at bs 0))
    (sb_decode crc32c (header_at bs (unat sz)))) free)"
proof -
  have size: "4096 \<le> unat sz" by (rule page_size_bounds [OF assms(1)])
  have len: "validate_file_length (length bs) sz = Inr ()"
    using assms(2,3) by (simp add: validate_file_length_def mult.commute)
  have zero: "read_slot crc32c bs 0 None = sb_decode crc32c (header_at bs 0)"
    using assms(2) size by (cases "sb_decode crc32c (header_at bs 0)") (simp_all add: read_slot_header)
  have one: "read_slot crc32c bs (unat sz) (Some sz) = sb_decode crc32c (header_at bs (unat sz))"
    using assms(2,6) size by (cases "sb_decode crc32c (header_at bs (unat sz))") (simp_all add: read_slot_header slot_fits_def)
  show ?thesis
  proof (cases "sb_decode crc32c (header_at bs 0)")
    case (Inl e)
    with assms(7) have "sb_decode crc32c (header_at bs (unat sz)) = Inr sb" by (auto simp: newer_def split: sum.splits)
    with second_slot_found [OF assms(1,2,4) this] zero len Inl assms(5,6) show ?thesis
      by (auto simp: open_backend_def slot_fits_def choose_authoritative_def selected_slot_def Let_def)
  next
    case (Inr sb0)
    with assms(5-7) zero one len show ?thesis
      by (cases "sb_decode crc32c (header_at bs (unat sz))")
        (auto simp: open_backend_def slot_fits_def choose_authoritative_def newer_def read_second_slot_def selected_slot_def Let_def)
  qed
qed

section \<open>Writing a slot\<close>

text \<open>
  A write of a slot page that stops early leaves a header of new and old bytes. The checksum detects it
  unless it is one of the two headers.
\<close>

definition torn_header_detected :: "(bytes \<Rightarrow> u32) \<Rightarrow> bytes \<Rightarrow> bytes \<Rightarrow> bool" where
  "torn_header_detected crc32c new old \<longleftrightarrow> (\<forall>n < 64. let torn = take n new @ drop n old
    in torn = new \<or> torn = old \<or> crc32c (subslice torn 0 60) \<noteq> read_u32 torn 60)"

lemma bad_checksum: "crc32c (subslice page 0 60) \<noteq> read_u32 page 60 \<Longrightarrow> \<exists>e. sb_decode crc32c page = Inl e \<and> \<not> is_version_mismatch e"
  by (auto simp: sb_decode_def decode_with_masks_def CHECKSUM_OFFSET_def Let_def)

lemma header_written:
  assumes "offset + 64 \<le> length bs" "64 \<le> length page"
  shows "header_at (write_at bs offset (take n page)) offset = take n (take 64 page) @ drop n (header_at bs offset)"
proof (rule nth_equalityI)
  show "length (header_at (write_at bs offset (take n page)) offset) = length (take n (take 64 page) @ drop n (header_at bs offset))"
    using assms by (simp add: header_at_def length_write_at)
next
  fix i assume "i < length (header_at (write_at bs offset (take n page)) offset)"
  then have "i < 64" by (simp add: header_at_def)
  show "header_at (write_at bs offset (take n page)) offset ! i = (take n (take 64 page) @ drop n (header_at bs offset)) ! i"
  proof (cases "i < n")
    case True
    with assms \<open>i < 64\<close> show ?thesis by (auto simp: header_at_def subslice_def write_at_def set_len_def nth_append min_def)
  next
    case False
    with assms \<open>i < 64\<close> have "length (header_at bs offset) = 64" "n \<le> 64" by (simp_all add: header_at_def)
    then have "drop n (header_at bs offset) ! (i - n) = bs ! (offset + i)"
      using False assms \<open>i < 64\<close> by (subst nth_drop) (simp_all add: header_at_def subslice_def)
    with False assms \<open>i < 64\<close> show ?thesis
      by (simp add: header_at_def subslice_def nth_append write_at_outside length_write_at min_def)
  qed
qed

text \<open>What a write of a page for \<open>sb\<close> to a slot leaves there.\<close>

lemma slot_after_write:
  assumes "backend_write io bs offset page = (res, bs')" "offset + 64 \<le> length bs" "64 \<le> length page"
    and "sb_decode crc32c (take 64 page) = Inr sb" "torn_header_detected crc32c (take 64 page) (header_at bs offset)"
  shows "sb_decode crc32c (header_at bs' offset) = Inr sb \<or> res \<noteq> Inr () \<and> (header_at bs' offset = header_at bs offset \<or>
    (\<exists>e. sb_decode crc32c (header_at bs' offset) = Inl e \<and> \<not> is_version_mismatch e))"
proof (cases io)
  case PageWritten
  with header_written [OF assms(2,3), of "length page"] assms(1,4) assms(3) show ?thesis by (auto simp: header_at_def)
next
  case (PageTorn n e)
  have res: "res = Inl e" "bs' = (if n = 0 then bs else write_at bs offset (take n page))" using assms(1) PageTorn by auto
  show ?thesis
  proof (cases "n < 64")
    case False
    with header_written [OF assms(2,3), of n] res assms(4) show ?thesis by (simp add: header_at_def)
  next
    case True
    let ?torn = "take n (take 64 page) @ drop n (header_at bs offset)"
    have h: "header_at bs' offset = ?torn" using header_written [OF assms(2,3), of n] res by (cases "n = 0") simp_all
    from True assms(5) have "?torn = take 64 page \<or> ?torn = header_at bs offset \<or> crc32c (subslice ?torn 0 60) \<noteq> read_u32 ?torn 60"
      unfolding torn_header_detected_def Let_def by blast
    with h res(1) assms(4) bad_checksum [of crc32c ?torn] show ?thesis by auto
  qed
qed

lemma write_elsewhere:
  assumes "backend_write io bs offset page = (res, bs')" "length page \<le> sz" "offset + sz \<le> length bs"
  shows "length bs' = length bs" "k < length bs \<Longrightarrow> k < offset \<or> offset + sz \<le> k \<Longrightarrow> bs' ! k = bs ! k"
    "k + 64 \<le> offset \<or> offset + sz \<le> k \<Longrightarrow> k + 64 \<le> length bs \<Longrightarrow> header_at bs' k = header_at bs k"
proof -
  have bs': "\<exists>src. length src \<le> sz \<and> bs' = write_at bs offset src \<or> bs' = bs"
  proof (cases io)
    case PageWritten
    with assms(1,2) show ?thesis by (intro exI [of _ page]) auto
  next
    case (PageTorn n e)
    with assms(1,2) show ?thesis by (intro exI [of _ "take n page"]) auto
  qed
  then show len: "length bs' = length bs" using assms(3) by (auto simp: length_write_at)
  have same: "bs' ! k = bs ! k" if "k < length bs" "k < offset \<or> offset + sz \<le> k" for k
    using bs' that write_at_outside [of k bs offset] by fastforce
  then show "k < length bs \<Longrightarrow> k < offset \<or> offset + sz \<le> k \<Longrightarrow> bs' ! k = bs ! k" by blast
  show "header_at bs' k = header_at bs k" if "k + 64 \<le> offset \<or> offset + sz \<le> k" "k + 64 \<le> length bs"
    using that len same by (intro nth_equalityI) (auto simp: header_at_def subslice_def)
qed

lemma tail_after_write:
  assumes "backend_write io bs offset page = (res, bs')" "length page = sz" "offset = 0 \<or> sz \<le> offset" "offset + sz \<le> length bs"
    and "\<forall>i. 92 \<le> i \<longrightarrow> i < sz \<longrightarrow> bs ! i = 0" "\<forall>i. 92 \<le> i \<longrightarrow> i < length page \<longrightarrow> page ! i = 0"
  shows "\<forall>i. 92 \<le> i \<longrightarrow> i < sz \<longrightarrow> bs' ! i = 0"
proof (cases "offset = 0")
  case True
  have "\<exists>n. bs' = write_at bs 0 (take n page) \<or> bs' = bs"
    using assms(1) True by (cases io) (auto intro: exI [of _ "length page"] split: if_splits)
  then obtain n where "bs' = write_at bs 0 (take n page) \<or> bs' = bs" by blast
  with assms(2,4-6) True show ?thesis by (auto simp: write_at_def set_len_def nth_append)
next
  case False
  with assms write_elsewhere(2) [OF assms(1), of sz] show ?thesis by auto
qed

section \<open>Publications\<close>

text \<open>The slots of a pager and of a file a publication may have been interrupted in.\<close>

definition slots_hold :: "(bytes \<Rightarrow> u32) \<Rightarrow> u32 \<Rightarrow> bytes \<Rightarrow> bool" where
  "slots_hold crc32c sz bs \<longleftrightarrow> valid_page_size sz \<and> 2 * unat sz \<le> length bs \<and> unat sz dvd length bs \<and>
    (\<forall>i. 92 \<le> i \<longrightarrow> i < unat sz \<longrightarrow> bs ! i = 0)"

abbreviation slot_of :: "(bytes \<Rightarrow> u32) \<Rightarrow> u32 \<Rightarrow> bytes \<Rightarrow> nat \<Rightarrow> superblock devon_result" where
  "slot_of crc32c sz bs slot \<equiv> sb_decode crc32c (header_at bs (slot * unat sz))"

text \<open>An open prefers the superblock of \<open>slot\<close> to that of the other one: it is newer, or as new and in the first slot.\<close>

definition beats :: "nat \<Rightarrow> superblock \<Rightarrow> superblock \<Rightarrow> bool" where
  "beats slot sb other \<longleftrightarrow> other = sb \<or> sb_checkpoint_lsn other < sb_checkpoint_lsn sb \<or>
    sb_checkpoint_lsn other = sb_checkpoint_lsn sb \<and> slot = 0"

definition pager_ok :: "(bytes \<Rightarrow> u32) \<Rightarrow> pager \<Rightarrow> bool" where
  "pager_ok crc32c pg \<longleftrightarrow> (let sb = pgr_superblock pg; sz = sb_page_size sb; other = slot_of crc32c sz (pgr_file pg) (1 - pgr_slot pg)
    in pgr_page_size pg = unat sz \<and> pgr_slot pg \<le> 1 \<and> slots_hold crc32c sz (pgr_file pg) \<and> length (sb_db_id sb) = 16 \<and>
       slot_of crc32c sz (pgr_file pg) (pgr_slot pg) = Inr sb \<and> slot_fits sz other \<and>
       (\<forall>older. other = Inr older \<longrightarrow> beats (pgr_slot pg) sb older))"

text \<open>Opening a file whose slots are known.\<close>

lemma open_slots:
  assumes "slots_hold crc32c sz bs" "slot \<le> 1" "slot_of crc32c sz bs slot = Inr sb" "sb_page_size sb = sz"
    and "slot_fits sz (slot_of crc32c sz bs (1 - slot))"
  shows "\<exists>pg. open_backend crc32c bs = Inr pg \<and>
    (pgr_superblock pg = sb \<or> slot_of crc32c sz bs (1 - slot) = Inr (pgr_superblock pg) \<and> \<not> beats slot sb (pgr_superblock pg))"
proof -
  have fits: "slot_fits sz (sb_decode crc32c (header_at bs 0))" "slot_fits sz (sb_decode crc32c (header_at bs (unat sz)))"
    using assms(2-5) by (cases "slot = 0"; simp add: slot_fits_def le_Suc_eq)+
  have known: "\<exists>c. newer (sb_decode crc32c (header_at bs 0)) (sb_decode crc32c (header_at bs (unat sz))) = Some c"
    using assms(2,3) by (cases "slot = 0") (auto simp: newer_def le_Suc_eq split: sum.splits)
  then obtain c where c: "newer (sb_decode crc32c (header_at bs 0)) (sb_decode crc32c (header_at bs (unat sz))) = Some c" by blast
  from open_newer [OF _ _ _ _ fits c] assms(1) obtain pg where "open_backend crc32c bs = Inr pg" "pgr_superblock pg = c"
    by (auto simp: slots_hold_def pager_new_def)
  with c assms(2,3) show ?thesis
    by (cases "slot = 0") (auto simp: newer_def beats_def le_Suc_eq not_less split: sum.splits if_splits)
qed

text \<open>Opening a file one slot of which is sound gives its superblock, or the one the other slot was written for.\<close>

lemma open_among:
  assumes "slots_hold crc32c sz bs" "slot \<le> 1" "slot_of crc32c sz bs slot = Inr a" "sb_page_size a = sz" "sb_page_size b = sz"
    and "slot_of crc32c sz bs (1 - slot) = Inr b \<or> (\<exists>e. slot_of crc32c sz bs (1 - slot) = Inl e \<and> \<not> is_version_mismatch e) \<or>
      (slot_fits sz (slot_of crc32c sz bs (1 - slot)) \<and>
        (\<forall>older. slot_of crc32c sz bs (1 - slot) = Inr older \<longrightarrow> beats slot a older))"
  shows "\<exists>q. open_backend crc32c bs = Inr q \<and> pgr_superblock q \<in> {a, b}"
proof -
  have "slot_fits sz (slot_of crc32c sz bs (1 - slot))" using assms(5,6) by (auto simp: slot_fits_def)
  from open_slots [OF assms(1-4) this] assms(6) show ?thesis by auto
qed

text \<open>One slot write: the other slot stays, and the written one is the new superblock, or, after a failure, the old or unusable.\<close>

lemma slot_write:
  assumes hold: "slots_hold crc32c sz bs" and page: "encode_slot_page crc32c sb pending free = Inr page" "length (sb_db_id sb) = 16"
    and sb: "sb_page_size sb = sz" "sb_readable sb" and t: "t \<le> 1" and run: "backend_write io bs (t * unat sz) page = (res, bs')"
  shows "slots_hold crc32c sz bs'" "header_at bs' ((1 - t) * unat sz) = header_at bs ((1 - t) * unat sz)"
    "res = Inr () \<Longrightarrow> slot_of crc32c sz bs' t = Inr sb"
    "torn_header_detected crc32c (take 64 page) (header_at bs (t * unat sz)) \<Longrightarrow> slot_of crc32c sz bs' t = Inr sb \<or>
      slot_of crc32c sz bs' t = slot_of crc32c sz bs t \<or> (\<exists>e. slot_of crc32c sz bs' t = Inl e \<and> \<not> is_version_mismatch e)"
proof -
  note enc = encode_slot_page_eq [OF page]
  let ?P = "unat sz"
  have size: "4096 \<le> ?P" "length page = ?P" "t * ?P + ?P \<le> length bs" "?P dvd length bs" "2 * ?P \<le> length bs"
    using hold enc(2) sb(1) t page_size_bounds [of sz] by (auto simp: slots_hold_def le_Suc_eq)
  note other = write_elsewhere [OF run, of ?P]
  have "\<forall>i. 92 \<le> i \<longrightarrow> i < ?P \<longrightarrow> bs' ! i = 0"
    using tail_after_write [OF run, of ?P] hold enc(4) size t by (auto simp: slots_hold_def le_Suc_eq)
  with hold other(1) size show "slots_hold crc32c sz bs'" by (simp add: slots_hold_def)
  show "header_at bs' ((1 - t) * ?P) = header_at bs ((1 - t) * ?P)"
    using size t by (intro other(3)) (auto simp: le_Suc_eq)
  have dec: "sb_decode crc32c (take 64 page) = Inr sb" using sb_decode_sb_encode [OF enc(1) page(2) sb(2)] .
  show "slot_of crc32c sz bs' t = Inr sb" if "res = Inr ()"
  proof -
    have "bs' = write_at bs (t * ?P) (take (length page) page)" using run that by (cases io) auto
    with header_written [of "t * ?P" bs page "length page"] dec size show ?thesis by (simp add: header_at_def)
  qed
  show "slot_of crc32c sz bs' t = Inr sb \<or> slot_of crc32c sz bs' t = slot_of crc32c sz bs t \<or>
      (\<exists>e. slot_of crc32c sz bs' t = Inl e \<and> \<not> is_version_mismatch e)"
    if "torn_header_detected crc32c (take 64 page) (header_at bs (t * ?P))"
    using slot_after_write [OF run _ _ dec that] size by auto
qed

datatype publication = PublishSuperblock superblock write_outcome "unit devon_result"
  | PublishFlags u64 "nat \<Rightarrow> write_outcome \<times> unit devon_result"

fun run_publication :: "(bytes \<Rightarrow> u32) \<Rightarrow> publication \<Rightarrow> pager \<Rightarrow> unit devon_result \<times> pager" where
  "run_publication crc32c (PublishSuperblock sb io sync) pg = commit_superblock crc32c io sync sb pg"
| "run_publication crc32c (PublishFlags flags io) pg = commit_feature_flags crc32c io flags pg"

fun published_superblock :: "publication \<Rightarrow> pager \<Rightarrow> superblock" where
  "published_superblock (PublishSuperblock sb io sync) pg = sb"
| "published_superblock (PublishFlags flags io) pg = (pgr_superblock pg)\<lparr> sb_feature_flags := flags \<rparr>"

text \<open>The checksum detects a torn header of the superblock in either slot.\<close>

definition tears_detected :: "(bytes \<Rightarrow> u32) \<Rightarrow> superblock \<Rightarrow> pager \<Rightarrow> bool" where
  "tears_detected crc32c sb pg \<longleftrightarrow> (\<forall>new slot. sb_encode crc32c sb (replicate 64 0) = Inr new \<and> slot \<le> 1 \<longrightarrow>
    torn_header_detected crc32c new (header_at (pgr_file pg) (slot * pgr_page_size pg)))"

definition atomic_outcome :: "(bytes \<Rightarrow> u32) \<Rightarrow> superblock \<Rightarrow> pager \<Rightarrow> unit devon_result \<times> pager \<Rightarrow> bool" where
  "atomic_outcome crc32c sb pg = (\<lambda>(res, pg'). \<exists>q. open_backend crc32c (pgr_file pg') = Inr q \<and>
    (case res of
       Inr _ \<Rightarrow> pgr_superblock q = sb \<and> pgr_superblock pg' = sb
     | Inl _ \<Rightarrow> pgr_superblock q \<in> {pgr_superblock pg, sb} \<and> pgr_superblock pg' = pgr_superblock pg))"

lemma pager_ok_opens:
  assumes "pager_ok crc32c pg"
  shows "\<exists>q. open_backend crc32c (pgr_file pg) = Inr q \<and> pgr_superblock q = pgr_superblock pg"
proof -
  let ?sz = "sb_page_size (pgr_superblock pg)"
  from assms have ok: "slots_hold crc32c ?sz (pgr_file pg)" "pgr_slot pg \<le> 1" "slot_of crc32c ?sz (pgr_file pg) (pgr_slot pg) = Inr (pgr_superblock pg)"
    "slot_fits ?sz (slot_of crc32c ?sz (pgr_file pg) (1 - pgr_slot pg))"
    "\<forall>older. slot_of crc32c ?sz (pgr_file pg) (1 - pgr_slot pg) = Inr older \<longrightarrow>
      beats (pgr_slot pg) (pgr_superblock pg) older"
    by (simp_all add: pager_ok_def Let_def)
  from open_slots [OF ok(1-3) refl ok(4)] ok(5) show ?thesis by blast
qed

lemma pager_okD:
  assumes "pager_ok crc32c pg" "sz = sb_page_size (pgr_superblock pg)"
  shows "slots_hold crc32c sz (pgr_file pg)" "pgr_slot pg \<le> 1" "slot_of crc32c sz (pgr_file pg) (pgr_slot pg) = Inr (pgr_superblock pg)"
    "slot_fits sz (slot_of crc32c sz (pgr_file pg) (1 - pgr_slot pg))" "pgr_page_size pg = unat sz" "length (sb_db_id (pgr_superblock pg)) = 16"
  using assms by (simp_all add: pager_ok_def Let_def)

text \<open>An interrupted write of the slot that is not authoritative.\<close>

lemma commit_superblock_cases:
  assumes "pager_ok crc32c pg" "commit_superblock crc32c io sync nxt pg = (res, pg')"
  obtains (refused) e where "res = Inl e" "pg' = pg"
  | (attempted) page wres bs where "encode_slot_page crc32c nxt True (pgr_free pg) = Inr page" "sb_page_size nxt = sb_page_size (pgr_superblock pg)"
      "sb_db_id nxt = sb_db_id (pgr_superblock pg)" "sb_checkpoint_lsn (pgr_superblock pg) < sb_checkpoint_lsn nxt"
      "backend_write io (pgr_file pg) ((1 - pgr_slot pg) * unat (sb_page_size nxt)) page = (wres, bs)" "pgr_file pg' = bs"
      "res = Inr () \<Longrightarrow> wres = Inr () \<and> pgr_superblock pg' = nxt \<and> pgr_slot pg' = 1 - pgr_slot pg"
      "res \<noteq> Inr () \<Longrightarrow> pgr_superblock pg' = pgr_superblock pg" "pgr_page_size pg' = pgr_page_size pg"
proof (cases "rbind (ensure_commit_is_valid (pgr_superblock pg) nxt) (\<lambda>_. encode_slot_page crc32c nxt True (pgr_free pg))")
  case (Inl e)
  with refused assms(2) show ?thesis by (auto simp: commit_superblock_def)
next
  case (Inr page)
  then have valid: "sb_page_size nxt = sb_page_size (pgr_superblock pg)" "sb_db_id nxt = sb_db_id (pgr_superblock pg)"
    "sb_checkpoint_lsn (pgr_superblock pg) < sb_checkpoint_lsn nxt" "encode_slot_page crc32c nxt True (pgr_free pg) = Inr page"
    by (auto simp: rbind_eq_Inr ensure_commit_is_valid_def not_le split: if_splits)
  obtain wres bs where w: "backend_write io (pgr_file pg) ((1 - pgr_slot pg) * unat (sb_page_size nxt)) page = (wres, bs)" by fastforce
  have "pgr_page_size pg = unat (sb_page_size nxt)" using pager_okD(5) [OF assms(1) refl] valid(1) by simp
  with assms(2) Inr w attempted [OF valid(4,1-3) w] show ?thesis
    by (auto simp: commit_superblock_def split: sum.splits)
qed

lemma commit_superblock_ok:
  assumes "pager_ok crc32c pg" "sb_readable nxt" "commit_superblock crc32c io sync nxt pg = (Inr u, pg')"
  shows "pager_ok crc32c pg'"
  using assms(1,3)
proof (cases rule: commit_superblock_cases)
  case (attempted page wres bs)
  note ok = pager_okD [OF assms(1) attempted(2)]
  have "length (sb_db_id nxt) = 16" using ok(6) attempted(3) by simp
  note written = slot_write [OF ok(1) attempted(1) this refl assms(2) _ attempted(5)]
  have "1 - (1 - pgr_slot pg) = pgr_slot pg" using ok(2) by simp
  with written attempted ok \<open>length (sb_db_id nxt) = 16\<close> show ?thesis
    by (auto simp: pager_ok_def Let_def slot_fits_def beats_def)
qed simp

lemma commit_superblock_atomic:
  assumes "pager_ok crc32c pg" "sb_readable nxt" "tears_detected crc32c nxt pg" "commit_superblock crc32c io sync nxt pg = (res, pg')"
  shows "atomic_outcome crc32c nxt pg (res, pg')"
proof (cases "res = Inr ()")
  case True
  with commit_superblock_ok [OF assms(1,2)] assms(4) have "pager_ok crc32c pg'" by simp
  moreover have "pgr_superblock pg' = nxt"
    using assms(1,4) True by (cases rule: commit_superblock_cases) auto
  ultimately show ?thesis using pager_ok_opens True by (auto simp: atomic_outcome_def)
next
  case False
  then obtain e where res: "res = Inl e" by (cases res) auto
  from assms(1,4) show ?thesis
  proof (cases rule: commit_superblock_cases)
    case (refused e)
    with pager_ok_opens [OF assms(1)] show ?thesis by (auto simp: atomic_outcome_def)
  next
    case (attempted page wres bs)
    let ?sz = "sb_page_size nxt"
    note ok = pager_okD [OF assms(1) attempted(2)]
    have id: "length (sb_db_id nxt) = 16" using ok(6) attempted(3) by simp
    have t: "1 - pgr_slot pg \<le> 1" "1 - (1 - pgr_slot pg) = pgr_slot pg" using ok(2) by simp_all
    note written = slot_write [OF ok(1) attempted(1) id refl assms(2) t(1) attempted(5)]
    have "torn_header_detected crc32c (take 64 page) (header_at (pgr_file pg) ((1 - pgr_slot pg) * unat ?sz))"
      using assms(3) encode_slot_page_eq(1) [OF attempted(1) id] ok(5) t(1) by (auto simp: tears_detected_def)
    note outcome = written(4) [OF this]
    have here: "slot_of crc32c ?sz bs (pgr_slot pg) = Inr (pgr_superblock pg)" using written(2) ok(3) t(2) by simp
    have "slot_fits ?sz (slot_of crc32c ?sz (pgr_file pg) (1 - pgr_slot pg)) \<and>
        (\<forall>older. slot_of crc32c ?sz (pgr_file pg) (1 - pgr_slot pg) = Inr older \<longrightarrow>
          beats (pgr_slot pg) (pgr_superblock pg) older)"
      using assms(1) attempted(2) by (simp add: pager_ok_def Let_def)
    with outcome have "slot_of crc32c ?sz bs (1 - pgr_slot pg) = Inr nxt \<or>
        (\<exists>e. slot_of crc32c ?sz bs (1 - pgr_slot pg) = Inl e \<and> \<not> is_version_mismatch e) \<or>
        (slot_fits ?sz (slot_of crc32c ?sz bs (1 - pgr_slot pg)) \<and> (\<forall>older. slot_of crc32c ?sz bs (1 - pgr_slot pg) = Inr older \<longrightarrow>
          beats (pgr_slot pg) (pgr_superblock pg) older))" by metis
    from open_among [OF written(1) ok(2) here attempted(2) [symmetric] refl this] obtain q where
      q: "open_backend crc32c bs = Inr q" "pgr_superblock q \<in> {pgr_superblock pg, nxt}" by blast
    with q(1) attempted(6,8) res show ?thesis by (auto simp: atomic_outcome_def)
  qed
qed

section \<open>Feature flags\<close>

lemma commit_feature_flags_cases:
  assumes "pager_ok crc32c pg" "commit_feature_flags crc32c io flags pg = (res, pg')"
    and "sb = (pgr_superblock pg)\<lparr> sb_feature_flags := flags \<rparr>" "sz = sb_page_size (pgr_superblock pg)"
  obtains (same) "res = Inr ()" "pg' = pg" "sb = pgr_superblock pg"
  | (refused) e where "res = Inl e" "pg' = pg"
  | (first) e page wres where "res = Inl e" "encode_slot_page crc32c sb False (pgr_free pg) = Inr page"
      "backend_write (fst (io (1 - pgr_slot pg))) (pgr_file pg) ((1 - pgr_slot pg) * unat sz) page = (wres, pgr_file pg')"
      "pgr_superblock pg' = pgr_superblock pg"
  | (second) page bs wres where "encode_slot_page crc32c sb False (pgr_free pg) = Inr page"
      "backend_write (fst (io (1 - pgr_slot pg))) (pgr_file pg) ((1 - pgr_slot pg) * unat sz) page = (Inr (), bs)"
      "backend_write (fst (io (pgr_slot pg))) bs (pgr_slot pg * unat sz) page = (wres, pgr_file pg')"
      "res = Inr () \<Longrightarrow> wres = Inr () \<and> pgr_superblock pg' = sb" "res \<noteq> Inr () \<Longrightarrow> pgr_superblock pg' = pgr_superblock pg"
      "pgr_slot pg' = pgr_slot pg" "pgr_page_size pg' = pgr_page_size pg"
proof (cases "sb_feature_flags (pgr_superblock pg) = flags")
  case True
  with same assms(2,3) show ?thesis by (simp add: commit_feature_flags_def)
next
  case False
  have P: "pgr_page_size pg = unat sz" using pager_okD(5) [OF assms(1,4)] .
  show ?thesis
  proof (cases "encode_slot_page crc32c sb False (pgr_free pg)")
    case (Inl e)
    with False refused assms(2,3) show ?thesis by (auto simp: commit_feature_flags_def Let_def)
  next
    case (Inr page)
    obtain io1 s1 io2 s2 where io: "io (1 - pgr_slot pg) = (io1, s1)" "io (pgr_slot pg) = (io2, s2)" by fastforce
    obtain r1 bs1 where w1: "backend_write io1 (pgr_file pg) ((1 - pgr_slot pg) * unat sz) page = (r1, bs1)" by fastforce
    obtain r2 bs2 where w2: "backend_write io2 bs1 (pgr_slot pg * unat sz) page = (r2, bs2)" by fastforce
    have run: "commit_feature_flags crc32c io flags pg =
      (case write_slots (unat sz) page [(1 - pgr_slot pg, io1, s1), (pgr_slot pg, io2, s2)] (pgr_file pg) of
         (Inl e, bs) \<Rightarrow> (Inl e, pg\<lparr> pgr_file := bs \<rparr>) | (Inr _, bs) \<Rightarrow> (Inr (), pg\<lparr> pgr_file := bs, pgr_superblock := sb \<rparr>))"
      using False Inr P io unfolding assms(3) by (simp add: commit_feature_flags_def)
    show ?thesis
    proof (cases "r1 = Inr () \<and> s1 = Inr ()")
      case True
      with w1 w2 second [OF Inr, of bs1 r2] run io assms(2) show ?thesis by (auto split: sum.splits)
    next
      case fail: False
      with w1 first [OF _ Inr, of _ r1] run io assms(2) show ?thesis by (cases r1; cases s1) auto
    qed
  qed
qed

lemma flags_superblock:
  assumes "pager_ok crc32c pg" "sb = (pgr_superblock pg)\<lparr> sb_feature_flags := flags \<rparr>"
  shows "sb_page_size sb = sb_page_size (pgr_superblock pg)" "length (sb_db_id sb) = 16"
  using assms pager_okD(6) [OF assms(1) refl] by simp_all

lemma commit_feature_flags_ok:
  assumes "pager_ok crc32c pg" "sb_readable ((pgr_superblock pg)\<lparr> sb_feature_flags := flags \<rparr>)"
    and "commit_feature_flags crc32c io flags pg = (Inr u, pg')"
  shows "pager_ok crc32c pg' \<and> pgr_superblock pg' = (pgr_superblock pg)\<lparr> sb_feature_flags := flags \<rparr>"
proof -
  define sb sz where "sb = (pgr_superblock pg)\<lparr> sb_feature_flags := flags \<rparr>" and "sz = sb_page_size (pgr_superblock pg)"
  note sb = flags_superblock [OF assms(1) sb_def]
  note ok = pager_okD [OF assms(1) sz_def]
  have "pager_ok crc32c pg' \<and> pgr_superblock pg' = sb"
    using assms(1,3) sb_def sz_def
  proof (cases rule: commit_feature_flags_cases)
    case same
    with assms(1) show ?thesis by simp
  next
    case (second page bs wres)
    have t: "1 - pgr_slot pg \<le> 1" "1 - (1 - pgr_slot pg) = pgr_slot pg" using ok(2) by simp_all
    note first = slot_write [OF ok(1) second(1) sb(2) sb(1) [folded sz_def] assms(2) [folded sb_def] t(1) second(2)]
    note next_write = slot_write [OF first(1) second(1) sb(2) sb(1) [folded sz_def] assms(2) [folded sb_def] ok(2) second(3)]
    from second have "wres = Inr ()" "pgr_superblock pg' = sb" by simp_all
    with next_write(1-3) first(3) second(6,7) ok(2,5) sb show ?thesis
      by (simp add: pager_ok_def Let_def slot_fits_def sz_def beats_def)
  qed simp_all
  then show ?thesis by (simp add: sb_def)
qed

lemma commit_feature_flags_atomic:
  assumes "pager_ok crc32c pg" "sb_readable ((pgr_superblock pg)\<lparr> sb_feature_flags := flags \<rparr>)"
    and "tears_detected crc32c ((pgr_superblock pg)\<lparr> sb_feature_flags := flags \<rparr>) pg" "commit_feature_flags crc32c io flags pg = (res, pg')"
  shows "atomic_outcome crc32c ((pgr_superblock pg)\<lparr> sb_feature_flags := flags \<rparr>) pg (res, pg')"
proof (cases "res = Inr ()")
  case True
  with commit_feature_flags_ok [OF assms(1,2)] assms(4) pager_ok_opens [of crc32c pg'] show ?thesis by (auto simp: atomic_outcome_def)
next
  case False
  then obtain e where res: "res = Inl e" by (cases res) auto
  define sb sz where "sb = (pgr_superblock pg)\<lparr> sb_feature_flags := flags \<rparr>" and "sz = sb_page_size (pgr_superblock pg)"
  note sb = flags_superblock [OF assms(1) sb_def]
  note ok = pager_okD [OF assms(1) sz_def]
  have t: "1 - pgr_slot pg \<le> 1" "1 - (1 - pgr_slot pg) = pgr_slot pg" using ok(2) by simp_all
  have detect: "torn_header_detected crc32c (take 64 page) (header_at (pgr_file pg) (slot * unat sz))"
    if "encode_slot_page crc32c sb False (pgr_free pg) = Inr page" "slot \<le> 1" for page slot
    using assms(3) encode_slot_page_eq(1) [OF that(1) sb(2)] that(2) ok(5) by (auto simp: tears_detected_def sb_def)
  have "\<exists>q. open_backend crc32c (pgr_file pg') = Inr q \<and> pgr_superblock q \<in> {pgr_superblock pg, sb} \<and> pgr_superblock pg' = pgr_superblock pg"
    using assms(1,4) sb_def sz_def
  proof (cases rule: commit_feature_flags_cases)
    case (refused e)
    with pager_ok_opens [OF assms(1)] show ?thesis by auto
  next
    case (first e page wres)
    note written = slot_write [OF ok(1) first(2) sb(2) sb(1) [folded sz_def] assms(2) [folded sb_def] t(1) first(3)]
    have here: "slot_of crc32c sz (pgr_file pg') (pgr_slot pg) = Inr (pgr_superblock pg)" using written(2) ok(3) t(2) by simp
    have "slot_fits sz (slot_of crc32c sz (pgr_file pg) (1 - pgr_slot pg)) \<and>
        (\<forall>older. slot_of crc32c sz (pgr_file pg) (1 - pgr_slot pg) = Inr older \<longrightarrow>
          beats (pgr_slot pg) (pgr_superblock pg) older)"
      using assms(1) by (simp add: pager_ok_def Let_def sz_def)
    with written(4) [OF detect [OF first(2) t(1)]] have "slot_of crc32c sz (pgr_file pg') (1 - pgr_slot pg) = Inr sb \<or>
        (\<exists>e. slot_of crc32c sz (pgr_file pg') (1 - pgr_slot pg) = Inl e \<and> \<not> is_version_mismatch e) \<or>
        (slot_fits sz (slot_of crc32c sz (pgr_file pg') (1 - pgr_slot pg)) \<and> (\<forall>older. slot_of crc32c sz (pgr_file pg') (1 - pgr_slot pg) = Inr older \<longrightarrow>
          beats (pgr_slot pg) (pgr_superblock pg) older))" by metis
    from open_among [OF written(1) ok(2) here sz_def [symmetric] sb(1) [folded sz_def] this] first(4) show ?thesis by blast
  next
    case (second page bs wres)
    note one = slot_write [OF ok(1) second(1) sb(2) sb(1) [folded sz_def] assms(2) [folded sb_def] t(1) second(2)]
    note two = slot_write [OF one(1) second(1) sb(2) sb(1) [folded sz_def] assms(2) [folded sb_def] ok(2) second(3)]
    have head: "header_at bs (pgr_slot pg * unat sz) = header_at (pgr_file pg) (pgr_slot pg * unat sz)" using one(2) t(2) by simp
    have there: "slot_of crc32c sz (pgr_file pg') (1 - pgr_slot pg) = Inr sb" using two(2) one(3) by simp
    have "slot_of crc32c sz (pgr_file pg') (pgr_slot pg) = Inr sb \<or>
        slot_of crc32c sz (pgr_file pg') (pgr_slot pg) = Inr (pgr_superblock pg) \<or>
        (\<exists>e. slot_of crc32c sz (pgr_file pg') (pgr_slot pg) = Inl e \<and> \<not> is_version_mismatch e)"
      using two(4) detect [OF second(1) ok(2)] head ok(3) by simp
    then have "slot_of crc32c sz (pgr_file pg') (1 - (1 - pgr_slot pg)) = Inr (pgr_superblock pg) \<or>
        (\<exists>e. slot_of crc32c sz (pgr_file pg') (1 - (1 - pgr_slot pg)) = Inl e \<and> \<not> is_version_mismatch e) \<or>
        (slot_fits sz (slot_of crc32c sz (pgr_file pg') (1 - (1 - pgr_slot pg))) \<and>
          (\<forall>older. slot_of crc32c sz (pgr_file pg') (1 - (1 - pgr_slot pg)) = Inr older \<longrightarrow> beats (1 - pgr_slot pg) sb older))"
      unfolding t(2) using sb(1) [folded sz_def] by (auto simp: slot_fits_def beats_def)
    from open_among [OF two(1) t(1) there sb(1) [folded sz_def] sz_def [symmetric] this] second(5) res show ?thesis by auto
  qed (use res in simp)
  then show ?thesis using res by (auto simp: atomic_outcome_def sb_def)
qed

section \<open>Files that open\<close>

text \<open>Slots that an open accepts: of one page size, none of a newer format, and one of them readable.\<close>

definition slots_sound :: "(bytes \<Rightarrow> u32) \<Rightarrow> u32 \<Rightarrow> bytes \<Rightarrow> bool" where
  "slots_sound crc32c sz bs \<longleftrightarrow> slots_hold crc32c sz bs \<and> slot_fits sz (slot_of crc32c sz bs 0) \<and> slot_fits sz (slot_of crc32c sz bs 1) \<and>
    (\<exists>slot sb. slot \<le> 1 \<and> slot_of crc32c sz bs slot = Inr sb)"

lemma slots_soundI:
  assumes "slots_hold crc32c sz bs" "slot \<le> 1" "slot_of crc32c sz bs slot = Inr sb" "sb_page_size sb = sz"
    and "slot_fits sz (slot_of crc32c sz bs (1 - slot))"
  shows "slots_sound crc32c sz bs"
  using assms by (cases "slot = 0") (auto simp: slots_sound_def slot_fits_def le_Suc_eq intro: exI [of _ 0] exI [of _ 1])

lemma pager_ok_sound: "pager_ok crc32c pg \<Longrightarrow> slots_sound crc32c (sb_page_size (pgr_superblock pg)) (pgr_file pg)"
  using pager_okD [of crc32c pg] by (intro slots_soundI) simp_all

lemma sb_decode_id: "sb_decode crc32c (header_at bs offset) = Inr sb \<Longrightarrow> offset + 64 \<le> length bs \<Longrightarrow> length (sb_db_id sb) = 16"
  by (auto simp: sb_decode_def decode_with_masks_def Let_def read_db_id_def header_at_def rbind_eq_Inr split: if_splits)

text \<open>Opening such a file makes a pager whose superblock is authoritative.\<close>

lemma opened_ok:
  assumes sound: "slots_sound crc32c sz bs" and run: "open_backend crc32c bs = Inr q"
  shows "pager_ok crc32c q"
proof -
  let ?a = "slot_of crc32c sz bs 0" and ?b = "slot_of crc32c sz bs 1"
  have hold: "slots_hold crc32c sz bs" and fits: "slot_fits sz ?a" "slot_fits sz ?b" using sound by (simp_all add: slots_sound_def)
  have "newer ?a ?b \<noteq> None" using sound by (auto simp: slots_sound_def newer_def le_Suc_eq split: sum.splits)
  then obtain c where c: "newer ?a ?b = Some c" by blast
  from open_newer [of sz bs crc32c c] hold fits c run obtain free where q: "q = pager_new bs c (selected_slot ?a ?b) free"
    by (auto simp: slots_hold_def)
  have len: "unat sz + 64 \<le> length bs" using hold page_size_bounds [of sz] by (auto simp: slots_hold_def)
  have sel: "selected_slot ?a ?b \<le> 1 \<and> slot_of crc32c sz bs (selected_slot ?a ?b) = Inr c \<and> slot_fits sz (slot_of crc32c sz bs (1 - selected_slot ?a ?b)) \<and>
      (\<forall>older. slot_of crc32c sz bs (1 - selected_slot ?a ?b) = Inr older \<longrightarrow> beats (selected_slot ?a ?b) c older)"
    using c fits by (auto simp: newer_def selected_slot_def beats_def not_less order.order_iff_strict split: sum.splits if_splits)
  moreover from sel fits have "sb_page_size c = sz" by (auto simp: slot_fits_def le_Suc_eq)
  moreover from sel sb_decode_id [of crc32c bs _ c] len have "length (sb_db_id c) = 16" by (auto simp: le_Suc_eq)
  ultimately show ?thesis using hold by (simp add: pager_ok_def pager_new_def Let_def q)
qed

lemma commit_superblock_sound:
  assumes "pager_ok crc32c pg" "sb_readable nxt" "tears_detected crc32c nxt pg" "commit_superblock crc32c io sync nxt pg = (res, pg')"
  shows "slots_sound crc32c (sb_page_size (pgr_superblock pg)) (pgr_file pg')"
  using assms(1,4)
proof (cases rule: commit_superblock_cases)
  case (refused e)
  then show ?thesis using pager_ok_sound [OF assms(1)] by simp
next
  case (attempted page wres bs)
  note ok = pager_okD [OF assms(1) attempted(2)]
  have id: "length (sb_db_id nxt) = 16" using ok(6) attempted(3) by simp
  have t: "1 - pgr_slot pg \<le> 1" "1 - (1 - pgr_slot pg) = pgr_slot pg" using ok(2) by simp_all
  note written = slot_write [OF ok(1) attempted(1) id refl assms(2) t(1) attempted(5)]
  have "torn_header_detected crc32c (take 64 page) (header_at (pgr_file pg) ((1 - pgr_slot pg) * unat (sb_page_size nxt)))"
    using assms(3) encode_slot_page_eq(1) [OF attempted(1) id] ok(5) t(1) by (auto simp: tears_detected_def)
  from written(4) [OF this] ok(4) have "slot_fits (sb_page_size nxt) (slot_of crc32c (sb_page_size nxt) bs (1 - pgr_slot pg))"
    by (auto simp: slot_fits_def)
  moreover have "slot_of crc32c (sb_page_size nxt) bs (pgr_slot pg) = Inr (pgr_superblock pg)" using written(2) ok(3) t(2) by simp
  ultimately have "slots_sound crc32c (sb_page_size nxt) bs"
    by (intro slots_soundI [OF written(1) ok(2)]) (simp_all add: attempted(2))
  then show ?thesis by (simp add: attempted(2,6))
qed

lemma commit_feature_flags_sound:
  assumes "pager_ok crc32c pg" "sb_readable ((pgr_superblock pg)\<lparr> sb_feature_flags := flags \<rparr>)"
    and "tears_detected crc32c ((pgr_superblock pg)\<lparr> sb_feature_flags := flags \<rparr>) pg" "commit_feature_flags crc32c io flags pg = (res, pg')"
  shows "slots_sound crc32c (sb_page_size (pgr_superblock pg)) (pgr_file pg')"
proof -
  define sb sz where "sb = (pgr_superblock pg)\<lparr> sb_feature_flags := flags \<rparr>" and "sz = sb_page_size (pgr_superblock pg)"
  note sb = flags_superblock [OF assms(1) sb_def]
  note ok = pager_okD [OF assms(1) sz_def]
  have t: "1 - pgr_slot pg \<le> 1" "1 - (1 - pgr_slot pg) = pgr_slot pg" using ok(2) by simp_all
  have detect: "torn_header_detected crc32c (take 64 page) (header_at (pgr_file pg) (slot * unat sz))"
    if "encode_slot_page crc32c sb False (pgr_free pg) = Inr page" "slot \<le> 1" for page slot
    using assms(3) encode_slot_page_eq(1) [OF that(1) sb(2)] that(2) ok(5) by (auto simp: tears_detected_def sb_def)
  have "slots_sound crc32c sz (pgr_file pg')"
    using assms(1,4) sb_def sz_def
  proof (cases rule: commit_feature_flags_cases)
    case (first e page wres)
    note written = slot_write [OF ok(1) first(2) sb(2) sb(1) [folded sz_def] assms(2) [folded sb_def] t(1) first(3)]
    have "slot_of crc32c sz (pgr_file pg') (pgr_slot pg) = Inr (pgr_superblock pg)" using written(2) ok(3) t(2) by simp
    moreover from written(4) [OF detect [OF first(2) t(1)]] ok(4) sb(1) have
      "slot_fits sz (slot_of crc32c sz (pgr_file pg') (1 - pgr_slot pg))" by (auto simp: slot_fits_def sz_def)
    ultimately show ?thesis by (intro slots_soundI [OF written(1) ok(2)]) (simp_all add: sz_def)
  next
    case (second page bs wres)
    note one = slot_write [OF ok(1) second(1) sb(2) sb(1) [folded sz_def] assms(2) [folded sb_def] t(1) second(2)]
    note two = slot_write [OF one(1) second(1) sb(2) sb(1) [folded sz_def] assms(2) [folded sb_def] ok(2) second(3)]
    have head: "header_at bs (pgr_slot pg * unat sz) = header_at (pgr_file pg) (pgr_slot pg * unat sz)" using one(2) t(2) by simp
    have there: "slot_of crc32c sz (pgr_file pg') (1 - pgr_slot pg) = Inr sb" using two(2) one(3) by simp
    have "slot_fits sz (slot_of crc32c sz (pgr_file pg') (pgr_slot pg))"
      using two(4) detect [OF second(1) ok(2)] head ok(3) sb(1) by (auto simp: slot_fits_def sz_def)
    then show ?thesis by (rule slots_soundI [OF two(1) t(1) there sb(1) [folded sz_def], unfolded t(2)])
  qed (use pager_ok_sound [OF assms(1)] in \<open>simp_all add: sz_def\<close>)
  then show ?thesis by (simp add: sz_def)
qed

section \<open>Data pages\<close>

text \<open>Writing and allocating data pages leaves the slots and the published superblock alone.\<close>

definition slots_kept :: "pager \<Rightarrow> pager \<Rightarrow> bool" where
  "slots_kept pg pg' \<longleftrightarrow> pgr_page_size pg' = pgr_page_size pg \<and> pgr_superblock pg' = pgr_superblock pg \<and> pgr_slot pg' = pgr_slot pg \<and>
    keeps (pgr_page_size pg) {p. 2 \<le> p} (pgr_file pg) (pgr_file pg')"

lemma slots_kept_refl [simp]: "slots_kept pg pg"
  by (simp add: slots_kept_def)

lemma slots_kept_trans: "slots_kept pg pg1 \<Longrightarrow> slots_kept pg1 pg2 \<Longrightarrow> slots_kept pg pg2"
  by (auto simp: slots_kept_def intro: keeps_trans)

lemma slots_kept_file:
  assumes "pg' = pg\<lparr> pgr_file := pgr_file pg' \<rparr>" "keeps (pgr_page_size pg) pages (pgr_file pg) (pgr_file pg')" "pages \<subseteq> {p. 2 \<le> p}"
  shows "slots_kept pg pg'"
proof -
  obtain bs where "pg' = pg\<lparr> pgr_file := bs \<rparr>" using assms(1) by blast
  with keeps_mono [OF assms(2,3)] show ?thesis by (simp add: slots_kept_def)
qed

lemma slots_kept_free [simp]: "slots_kept pg (pg'\<lparr> pgr_free := free \<rparr>) = slots_kept pg pg'"
  by (simp add: slots_kept_def)

lemma data_page: "ensure_data_page p = Inr () \<longleftrightarrow> 2 \<le> p"
  by (auto simp: ensure_data_page_def SUPERBLOCK_SLOTS_def not_less)

lemma write_page_slots: "pgr_write_page wr p data pg = (res, pg') \<Longrightarrow> slots_kept pg pg'"
  using write_page_locked_keeps [of wr p data pg res pg'] slots_kept_file [of pg' pg "{p}"]
  by (auto simp: pgr_write_page_def data_page split: sum.splits if_splits)

lemma zero_slots:
  assumes "zero_reused_pages_locked wr ps pg = (res, pg')" "\<forall>p \<in> set ps. is_reusable_page_id pg p"
  shows "slots_kept pg pg'"
  using zero_keeps [OF assms(1)] assms(2) by (intro slots_kept_file [of _ _ "set ps"]) (auto simp: is_reusable_page_id_def data_page)

lemma degrade_slots: "slots_kept pg (degrade_free_pages_locked pg)"
  by (simp add: degrade_free_pages_locked_def slots_kept_def Let_def)

lemma try_deferred_slots: "try_deferred_run_locked wr count pg = (res, pg') \<Longrightarrow> slots_kept pg pg'"
  using degrade_slots [of pg]
  by (auto simp: try_deferred_run_locked_def Let_def split: option.splits if_splits prod.splits sum.splits dest: zero_slots)

lemma stage_reuse_slots:
  assumes "stage_reuse_scan_locked wr scan pg = (res, pg')"
  shows "slots_kept pg pg'"
proof (cases "\<exists>c \<in> set (rs_entries scan). sc_page_id c \<in> set (rs_ledger_pages scan) \<or> \<not> is_reusable_page_id pg (sc_page_id c)")
  case True
  then show ?thesis using assms degrade_slots [of pg] by (auto simp: stage_reuse_scan_locked_def)
next
  case False
  define ids where "ids = (\<lambda>i. sc_page_id (rs_entries scan ! i)) `
    {i \<in> (case rs_selected scan of Some indices \<Rightarrow> indices | None \<Rightarrow> {}). i < length (rs_entries scan)}"
  obtain r pg1 where run: "zero_reused_pages_locked wr (sorted_list_of_set ids) pg = (r, pg1)" by fastforce
  have "finite ids" by (simp add: ids_def)
  then have "\<forall>p \<in> set (sorted_list_of_set ids). is_reusable_page_id pg p"
    using False by (auto simp: ids_def)
  from zero_slots [OF run this] have "slots_kept pg pg1" .
  moreover have "\<exists>free. pg' = pg1\<lparr> pgr_free := free \<rparr>"
    using assms False run unfolding stage_reuse_scan_locked_def ids_def [symmetric] Let_def
    by (cases r) (auto simp: ids_def [symmetric] intro: exI [of _ "pgr_free pg1"])
  ultimately show ?thesis by (auto simp: slots_kept_def)
qed

lemma scan_page_slots: "scan_ledger_page_locked crc32c_append rd cursor scan pg = (res, pg') \<Longrightarrow> slots_kept pg pg'"
  using degrade_slots [of pg] by (auto simp: scan_ledger_page_locked_def split: if_splits sum.splits)

lemma scan_loop_slots: "reuse_scan_loop crc32c_append rd pin count skip tail pg cursor scan = (res, pg') \<Longrightarrow> slots_kept pg pg'"
proof (induction crc32c_append rd pin count skip tail pg cursor scan arbitrary: res pg' rule: reuse_scan_loop.induct)
  case (1 crc32c_append rd pin count skip tail pg cursor scan)
  obtain r pg1 where page: "scan_ledger_page_locked crc32c_append rd cursor scan pg = (r, pg1)" by fastforce
  note kept = scan_page_slots [OF page]
  show ?case
  proof (cases r)
    case None
    with 1 page kept show ?thesis by (simp add: reuse_scan_loop.simps [of _ _ _ _ _ _ pg])
  next
    case (Some x)
    obtain decoded scan1 where x: "x = (decoded, scan1)" by fastforce
    obtain exhausted entries where e: "scan_entries cursor pin (saturating_add_usize count RUN_SCAN_SKIP_LIMIT)
        (drop (unat (effective_consumed pg1 cursor decoded)) (enumerate 0 (lp_entries decoded))) (rs_entries scan1) = (exhausted, entries)" by fastforce
    define scan2 where "scan2 = (if count \<le> length entries then select_earliest_run (scan1\<lparr> rs_entries := entries \<rparr>) count else scan1\<lparr> rs_entries := entries \<rparr>)"
    have IH: "slots_kept pg1 pg'" if "reuse_scan_loop crc32c_append rd pin count skip tail pg1 (lp_next_page decoded) scan2 = (res, pg')"
      "rs_selected scan2 = None" "\<not> (exhausted \<or> cursor = tail \<or> lp_next_page decoded = 0)"
      using "1.IH" [OF page [unfolded Some x, symmetric] refl refl refl refl e [symmetric] refl refl, folded scan2_def] that by auto
    have "reuse_scan_loop crc32c_append rd pin count skip tail pg cursor scan = (if rs_selected scan2 \<noteq> None then (Some scan2, pg1)
        else if exhausted \<or> cursor = tail \<or> lp_next_page decoded = 0 then (Some (trim_unselected_scan scan2 skip), pg1)
        else reuse_scan_loop crc32c_append rd pin count skip tail pg1 (lp_next_page decoded) scan2)"
      by (subst reuse_scan_loop.simps) (simp only: page Some x prod.case option.case Let_def e scan2_def)
    with IH 1(2) have "slots_kept pg1 pg'" by (auto split: if_splits)
    with kept show ?thesis by (rule slots_kept_trans)
  qed
qed

lemma scan_slots: "scan_reclaimable_run_locked crc32c_append rd ext pin count limit pg = (res, pg') \<Longrightarrow> slots_kept pg pg'"
  unfolding scan_reclaimable_run_locked_def by (rule scan_loop_slots)

lemma try_reuse_slots: "try_reuse_run_locked crc32c_append rd wr count pg = (res, pg') \<Longrightarrow> slots_kept pg pg'"
  by (auto simp: try_reuse_run_locked_def split: prod.splits sum.splits option.splits if_splits
      dest!: try_deferred_slots scan_slots stage_reuse_slots intro: slots_kept_trans)

lemma append_slots: "append_run_locked wr count pg = (res, pg') \<Longrightarrow> 0 < pgr_page_size pg \<Longrightarrow> slots_kept pg pg'"
proof -
  assume "append_run_locked wr count pg = (res, pg')" "0 < pgr_page_size pg"
  note a = append_keeps [OF this]
  then obtain zeros where "pgr_file pg' = pgr_file pg @ replicate zeros 0" by blast
  then have "keeps (pgr_page_size pg) {} (pgr_file pg) (pgr_file pg')" by (auto simp: keeps_def page_bytes_def subslice_append_left)
  with a show ?thesis by (intro slots_kept_file [of _ _ "{}"]) simp_all
qed

lemma allocate_slots:
  assumes run: "allocate_run crc32c_append rd wr count pg = (res, pg')" and sz: "0 < pgr_page_size pg"
  shows "slots_kept pg pg'"
proof -
  obtain r pg1 where reuse: "try_reuse_run_locked crc32c_append rd wr count pg = (r, pg1)" by fastforce
  note kept = try_reuse_slots [OF reuse]
  then have "0 < pgr_page_size pg1" using sz by (simp add: slots_kept_def)
  with append_slots [of wr count pg1 res pg'] kept run reuse show ?thesis
    by (auto simp: allocate_run_def split: if_splits sum.splits option.splits intro: slots_kept_trans)
qed

text \<open>A pager whose slots were kept in a page-aligned file is as good as before.\<close>

lemma kept_ok:
  assumes ok: "pager_ok crc32c pg" and kept: "slots_kept pg pg'" and aligned: "pgr_page_size pg dvd length (pgr_file pg')"
  shows "pager_ok crc32c pg'"
proof -
  let ?sz = "pgr_page_size pg" and ?bs = "pgr_file pg" and ?bs' = "pgr_file pg'"
  have hold: "slots_hold crc32c (sb_page_size (pgr_superblock pg)) ?bs" and sz: "?sz = unat (sb_page_size (pgr_superblock pg))"
    using pager_okD [OF ok refl] by simp_all
  then have size: "4096 \<le> ?sz" "2 * ?sz \<le> length ?bs" using page_size_bounds by (simp_all add: slots_hold_def)
  have len: "length ?bs \<le> length ?bs'" and keep: "keeps ?sz {p. 2 \<le> p} ?bs ?bs'" using kept by (simp_all add: slots_kept_def keeps_def)
  have "page_bytes ?sz ?bs' 0 = page_bytes ?sz ?bs 0" "page_bytes ?sz ?bs' 1 = page_bytes ?sz ?bs 1"
    using keep size unfolding keeps_def by (auto simp: word_le_nat_alt)
  then have pages: "take ?sz ?bs' = take ?sz ?bs" "take ?sz (drop ?sz ?bs') = take ?sz (drop ?sz ?bs)"
    using size len by (simp_all add: page_bytes_def subslice_def)
  have "header_at x 0 = take 64 (take ?sz x)" "header_at x ?sz = take 64 (take ?sz (drop ?sz x))" for x
    using size(1) by (simp_all add: header_at_def subslice_def min_def)
  then have heads: "header_at ?bs' 0 = header_at ?bs 0" "header_at ?bs' ?sz = header_at ?bs ?sz" using pages by metis+
  have "?bs' ! i = ?bs ! i" if "i < ?sz" for i using pages(1) that by (metis nth_take)
  with hold aligned len have "slots_hold crc32c (sb_page_size (pgr_superblock pg)) ?bs'" by (auto simp: slots_hold_def sz)
  moreover have "header_at ?bs' (slot * ?sz) = header_at ?bs (slot * ?sz)" if "slot \<le> 1" for slot
    using that heads by (auto simp: le_Suc_eq)
  ultimately show ?thesis using ok kept by (simp add: pager_ok_def slots_kept_def Let_def sz)
qed

section \<open>Atomic publication\<close>

text \<open>
  The life of a pager and its file: it is created, it allocates and writes data pages, whatever of that
  fails, as long as the file stays page-aligned; it stages free-page extensions and raises its pin
  horizon, which is any change of that state; it publishes; and the file is opened again, at any moment
  and after a publication that failed. A pager is not used further after a failed publication.
\<close>

inductive pager_life :: "(bytes \<Rightarrow> u32) \<Rightarrow> pager \<Rightarrow> bool" for crc32c :: "bytes \<Rightarrow> u32" where
  created: "pager_create crc32c page_size db_id = Inr pg \<Longrightarrow> length db_id = 16 \<Longrightarrow> pager_life crc32c pg"
| allocated: "pager_life crc32c pg \<Longrightarrow> allocate_run crc32c_append rd wr count pg = (run, pg') \<Longrightarrow>
    pgr_page_size pg dvd length (pgr_file pg') \<Longrightarrow> pager_life crc32c pg'"
| wrote: "pager_life crc32c pg \<Longrightarrow> pgr_write_page wr page_id data pg = (res, pg') \<Longrightarrow>
    pgr_page_size pg dvd length (pgr_file pg') \<Longrightarrow> pager_life crc32c pg'"
| staged: "pager_life crc32c pg \<Longrightarrow> pager_life crc32c (pg\<lparr> pgr_free := free, pgr_min_pin := pin \<rparr>)"
| published: "pager_life crc32c pg \<Longrightarrow> sb_readable (published_superblock p pg) \<Longrightarrow> run_publication crc32c p pg = (Inr (), pg') \<Longrightarrow>
    pager_life crc32c pg'"
| reopened: "pager_life crc32c pg \<Longrightarrow> open_backend crc32c (pgr_file pg) = Inr q \<Longrightarrow> pager_life crc32c q"
| recovered: "pager_life crc32c pg \<Longrightarrow> sb_readable (published_superblock p pg) \<Longrightarrow> tears_detected crc32c (published_superblock p pg) pg \<Longrightarrow>
    run_publication crc32c p pg = (Inl e, pg') \<Longrightarrow> open_backend crc32c (pgr_file pg') = Inr q \<Longrightarrow> pager_life crc32c q"

lemma created_file:
  assumes "pager_create crc32c page_size db_id = Inr pg" "length db_id = 16"
  obtains page where "encode_page crc32c (initial_superblock page_size db_id) = Inr page" "pgr_file pg = page @ page"
    "pg = pager_new (page @ page) (initial_superblock page_size db_id) 0 free_state_default" "length page = unat page_size"
proof -
  from assms(1) obtain page where page: "encode_page crc32c (initial_superblock page_size db_id) = Inr page"
    "pg = pager_new (write_at (write_at [] 0 page) (unat page_size) page) (initial_superblock page_size db_id) 0 free_state_default"
    by (auto simp: pager_create_def rbind_eq_Inr)
  have "length page = unat page_size" using encode_page_eq(2) [OF page(1)] assms(2) by (simp add: initial_superblock_def)
  with page that show ?thesis by (simp add: write_at_def set_len_def pager_new_def)
qed

lemma created_ok:
  assumes "pager_create crc32c page_size db_id = Inr pg" "length db_id = 16"
  shows "pager_ok crc32c pg"
proof -
  let ?sb = "initial_superblock page_size db_id"
  from assms obtain page where page: "encode_page crc32c ?sb = Inr page" "pg = pager_new (page @ page) ?sb 0 free_state_default" "length page = unat page_size"
    by (rule created_file)
  have id: "length (sb_db_id ?sb) = 16" "sb_page_size ?sb = page_size" using assms(2) by (simp_all add: initial_superblock_def)
  note enc = encode_page_eq [OF page(1) id(1)]
  have "sb_readable ?sb" by (simp add: sb_readable_def initial_superblock_def)
  from sb_decode_sb_encode [OF enc(1) id(1) this] have dec: "sb_decode crc32c (take 64 page) = Inr ?sb" .
  have size: "4096 \<le> length page" using page_size_bounds [OF enc(3)] page(3) id(2) by simp
  then have "header_at (page @ page) 0 = take 64 page" "header_at (page @ page) (length page) = take 64 page"
    by (simp_all add: header_at_def subslice_def)
  with dec page(2,3) id enc(3,4) size show ?thesis
    by (auto simp: pager_ok_def pager_new_def slots_hold_def slot_fits_def beats_def Let_def nth_append)
qed

lemma life_ok: "pager_life crc32c pg \<Longrightarrow> pager_ok crc32c pg"
proof (induction rule: pager_life.induct)
  case (created page_size db_id pg)
  then show ?case by (rule created_ok)
next
  case (allocated pg crc32c_append rd wr count run pg')
  have "0 < pgr_page_size pg"
    using page_size_bounds [of "sb_page_size (pgr_superblock pg)"] pager_okD [OF allocated.IH refl] by (auto simp: slots_hold_def)
  from kept_ok [OF allocated.IH allocate_slots [OF allocated.hyps(2) this] allocated.hyps(3)] show ?case .
next
  case (wrote pg wr page_id data res pg')
  from kept_ok [OF wrote.IH write_page_slots [OF wrote.hyps(2)] wrote.hyps(3)] show ?case .
next
  case (staged pg free pin)
  then show ?case by (simp add: pager_ok_def Let_def)
next
  case (published pg p pg')
  then show ?case by (cases p) (auto dest: commit_superblock_ok commit_feature_flags_ok)
next
  case (reopened pg q)
  from opened_ok [OF pager_ok_sound [OF reopened.IH] reopened.hyps(2)] show ?case .
next
  case (recovered pg p e pg' q)
  have "slots_sound crc32c (sb_page_size (pgr_superblock pg)) (pgr_file pg')"
    using recovered.IH recovered.hyps by (cases p) (auto intro: commit_superblock_sound commit_feature_flags_sound)
  from opened_ok [OF this recovered.hyps(5)] show ?case .
qed

text \<open>
  C6. Publishing a superblock or new feature flags is atomic under crashes, at any point of the life of
  a pager (\<open>pager_life\<close>: created, pages allocated and written, extensions staged, published, and
  reopened, also after publications that failed): whatever prefix of a slot page a failing write left in
  the file, opening the file succeeds and gives the superblock from before the publication or the
  published one; after a publication that returned it gives the published one, which the pager then
  holds too. The checksum is only asked to detect a header torn between the old and the new one.
  Compacting the file is not part of that life, nor is going on with a pager whose publication failed.
\<close>

theorem publication_atomic:
  assumes "pager_life crc32c pg" "sb_readable (published_superblock p pg)" "tears_detected crc32c (published_superblock p pg) pg"
    and "run_publication crc32c p pg = (res, pg')"
  shows "\<exists>q. open_backend crc32c (pgr_file pg') = Inr q \<and>
    (case res of
       Inr _ \<Rightarrow> pgr_superblock q = published_superblock p pg \<and> pgr_superblock pg' = published_superblock p pg
     | Inl _ \<Rightarrow> pgr_superblock q \<in> {pgr_superblock pg, published_superblock p pg} \<and> pgr_superblock pg' = pgr_superblock pg)"
proof -
  note ok = life_ok [OF assms(1)]
  have "atomic_outcome crc32c (published_superblock p pg) pg (res, pg')"
  proof (cases p)
    case (PublishSuperblock sb io sync)
    with commit_superblock_atomic [OF ok] assms show ?thesis by simp
  next
    case (PublishFlags flags io)
    with commit_feature_flags_atomic [OF ok] assms show ?thesis by simp
  qed
  then show ?thesis by (simp add: atomic_outcome_def)
qed

section \<open>A torn superblock\<close>

definition new_superblock :: superblock where
  "new_superblock = (initial_superblock 4096 (replicate 16 7))\<lparr> sb_checkpoint_lsn := 1 \<rparr>"

definition sample_header :: "u8 \<Rightarrow> bytes" where
  "sample_header lsn = MAGIC @ [1, 0, 0, 0, 1, 0, 0, 0] @ replicate 8 0 @ [0, 16, 0, 0] @ replicate 16 7 @ [lsn] @ replicate 15 0 @ [132 + lsn, 2, 0, 0]"

lemma sample_headers:
  "sb_encode byte_sum (initial_superblock 4096 (replicate 16 7)) (replicate 64 0) = Inr (sample_header 0)"
  "sb_encode byte_sum new_superblock (replicate 64 0) = Inr (sample_header 1)"
  by code_simp+

lemma sample_tears: "torn_header_detected byte_sum (sample_header 1) (sample_header 0)"
proof -
  have "list_all (\<lambda>n. let torn = take n (sample_header 1) @ drop n (sample_header 0)
      in torn = sample_header 1 \<or> torn = sample_header 0 \<or> byte_sum (subslice torn 0 60) \<noteq> read_u32 torn 60) [0..<64]" by code_simp
  then show ?thesis by (simp add: torn_header_detected_def list_all_iff)
qed

theorem publication_atomic_witness:
  "\<exists>pg pg' q. pager_create byte_sum 4096 (replicate 16 7) = Inr pg \<and>
    run_publication byte_sum (PublishSuperblock new_superblock (PageTorn 50 (Io ''disk full'')) (Inr ())) pg = (Inl (Io ''disk full''), pg') \<and>
    open_backend byte_sum (pgr_file pg') = Inr q \<and> pgr_superblock q \<in> {pgr_superblock pg, new_superblock}"
proof -
  let ?sb = "initial_superblock 4096 (replicate 16 7)" and ?p = "PublishSuperblock new_superblock (PageTorn 50 (Io ''disk full'')) (Inr ())"
  obtain pg where pg: "pager_create byte_sum 4096 (replicate 16 7) = Inr pg"
    by (simp add: pager_create_def encode_page_def SUPERBLOCK_HEADER_LEN_def sample_headers)
  obtain page where page: "encode_page byte_sum ?sb = Inr page" "pg = pager_new (page @ page) ?sb 0 free_state_default" "length page = 4096"
    by (rule created_file [OF pg]) simp_all
  have "take 64 page = sample_header 0"
    using encode_page_eq(1) [OF page(1)] sample_headers(1) by (simp add: initial_superblock_def)
  then have heads: "header_at (page @ page) 0 = sample_header 0" "header_at (page @ page) 4096 = sample_header 0"
    using page(3) by (simp_all add: header_at_def subslice_def)
  have fields: "sb_feature_flags new_superblock = 0" "sb_page_size new_superblock = 4096" "sb_db_id new_superblock = sb_db_id ?sb"
    "sb_checkpoint_lsn new_superblock = 1" "sb_page_size ?sb = 4096" "sb_checkpoint_lsn ?sb = 0" "sb_min_reader_version new_superblock = SUPPORTED_FORMAT_VERSION"
    by (simp_all add: new_superblock_def initial_superblock_def)
  have "pager_life byte_sum pg" by (rule pager_life.created [OF pg]) simp
  moreover have "sb_readable new_superblock" by (simp add: sb_readable_def fields)
  moreover have "tears_detected byte_sum new_superblock pg"
    using heads sample_tears sample_headers(2) page(2) fields(5) by (auto simp: tears_detected_def pager_new_def le_Suc_eq)
  moreover have "\<exists>pg'. run_publication byte_sum ?p pg = (Inl (Io ''disk full''), pg')"
    using page(2) fields by (auto simp: commit_superblock_def ensure_commit_is_valid_def pager_new_def encode_slot_page_def encode_page_def
        SUPERBLOCK_HEADER_LEN_def sample_headers)
  then obtain pg' where run: "run_publication byte_sum ?p pg = (Inl (Io ''disk full''), pg')" by blast
  ultimately obtain q where "open_backend byte_sum (pgr_file pg') = Inr q" "pgr_superblock q \<in> {pgr_superblock pg, new_superblock}"
    using publication_atomic [of byte_sum pg ?p] by auto
  with pg run show ?thesis by blast
qed

end
