(* ===== verification/AllocSession.thy ===== *)
theory AllocSession
  imports PageReuse
begin

text \<open>
  Sessions of the page allocator: what a pager does between two publications. The theorem is the safety of page
  reuse over every session, whatever reads and writes fail.
\<close>

section \<open>Sessions\<close>

text \<open>\<open>runs\<close> are the runs handed out so far, the latest first. A client writes only to pages it was given.\<close>

inductive allocation_session :: "(u32 \<Rightarrow> bytes \<Rightarrow> u32) \<Rightarrow> pager \<Rightarrow> (u64 \<times> nat) list \<Rightarrow> pager \<Rightarrow> bool"
  for crc32c_append :: "u32 \<Rightarrow> bytes \<Rightarrow> u32" and pg0 :: pager where
  opened: "allocation_session crc32c_append pg0 [] pg0"
| allocated: "allocation_session crc32c_append pg0 runs pg \<Longrightarrow> allocate_run crc32c_append rd wr count pg = (Inr first, pg') \<Longrightarrow>
    allocation_session crc32c_append pg0 ((first, count) # runs) pg'"
| failed: "allocation_session crc32c_append pg0 runs pg \<Longrightarrow> allocate_run crc32c_append rd wr count pg = (Inl e, pg') \<Longrightarrow>
    allocation_session crc32c_append pg0 runs pg'"
| wrote: "allocation_session crc32c_append pg0 runs pg \<Longrightarrow> (first, count) \<in> set runs \<Longrightarrow> p \<in> page_run first count \<Longrightarrow>
    pgr_write_page wr p data pg = (res, pg') \<Longrightarrow> allocation_session crc32c_append pg0 runs pg'"
| raised: "allocation_session crc32c_append pg0 runs pg \<Longrightarrow> allocation_session crc32c_append pg0 runs (raise_min_pin candidate pg)"

definition run_pages :: "(u64 \<times> nat) list \<Rightarrow> u64 set" where
  "run_pages runs = (\<Union>(first, count) \<in> set runs. page_run first count)"

fun runs_apart :: "(u64 \<times> nat) list \<Rightarrow> bool" where
  "runs_apart [] \<longleftrightarrow> True"
| "runs_apart ((first, count) # runs) \<longleftrightarrow> page_run first count \<inter> run_pages runs = {} \<and> runs_apart runs"

text \<open>The pages a session may reuse: those in the pool at its start and those the ledger lists as retired below the horizon.\<close>

definition reusable :: "pager \<Rightarrow> (u64 \<times> ledger_page) list \<Rightarrow> u64 \<Rightarrow> u64 set" where
  "reusable pg chain horizon = deferred pg \<union> retired_below pg chain horizon"

definition session_inv ::
    "(u32 \<Rightarrow> bytes \<Rightarrow> u32) \<Rightarrow> pager \<Rightarrow> (u64 \<times> ledger_page) list \<Rightarrow> (u64 \<times> nat) list \<Rightarrow> pager \<Rightarrow> (u64 \<times> ledger_page) list \<Rightarrow> bool" where
  "session_inv crc32c_append pg0 chain0 runs pg chain \<longleftrightarrow>
    ledger_sound crc32c_append pg chain \<and> pgr_page_size pg = pgr_page_size pg0 \<and> pgr_page_count pg0 \<le> pgr_page_count pg \<and>
    set (chain_entries pg chain) \<subseteq> set (chain_entries pg0 chain0) \<and>
    deferred pg \<subseteq> reusable pg0 chain0 (pgr_min_pin pg) \<and>
    run_pages runs \<inter> pool pg chain = {} \<and> run_pages runs \<inter> fst ` set chain = {} \<and> runs_apart runs \<and>
    (\<forall>p \<in> run_pages runs. 2 \<le> p \<and> unat p < pgr_page_count pg \<and> (p \<in> reusable pg0 chain0 (pgr_min_pin pg) \<or> pgr_page_count pg0 \<le> unat p)) \<and>
    keeps (pgr_page_size pg0) (reusable pg0 chain0 (pgr_min_pin pg)) (pgr_file pg0) (pgr_file pg)"

lemma run_pages_simps [simp]: "run_pages [] = {}" "run_pages ((first, count) # runs) = page_run first count \<union> run_pages runs"
  by (auto simp: run_pages_def)

lemma reusable_mono: "m \<le> n \<Longrightarrow> reusable pg chain m \<subseteq> reusable pg chain n"
  by (auto simp: reusable_def retired_below_def intro: order.strict_trans2)

lemma past_the_end:
  assumes "pgr_page_count pg \<le> unat p" "0 < pgr_page_size pg"
  shows "\<not> unat p * pgr_page_size pg + pgr_page_size pg \<le> length (pgr_file pg)"
proof
  assume "unat p * pgr_page_size pg + pgr_page_size pg \<le> length (pgr_file pg)"
  from div_le_mono [OF this, of "pgr_page_size pg"] show False using assms by (simp add: pgr_page_count_def)
qed

lemma page_inside: "unat p < pgr_page_count pg \<Longrightarrow> unat p * pgr_page_size pg + pgr_page_size pg \<le> length (pgr_file pg)"
proof -
  assume "unat p < pgr_page_count pg"
  then have "Suc (unat p) * pgr_page_size pg \<le> pgr_page_count pg * pgr_page_size pg" by (intro mult_le_mono1) simp
  also have "\<dots> \<le> length (pgr_file pg)" by (simp add: pgr_page_count_def)
  finally show ?thesis by simp
qed

lemma card_page_run:
  assumes "unat first + count \<le> 2 ^ 64"
  shows "card (page_run first count) = count"
proof -
  have "unat ` page_run first count = {unat first..<unat first + count}"
  proof (intro equalityI subsetI)
    fix n assume n: "n \<in> {unat first..<unat first + count}"
    then have "n < 2 ^ LENGTH(64)" using assms by simp
    then have "unat (word_of_nat n :: u64) = n" by (simp only: unat_of_nat mod_less)
    then show "n \<in> unat ` page_run first count" using n by (intro image_eqI [of _ _ "word_of_nat n"]) (simp_all add: page_run_def)
  qed (auto simp: page_run_def)
  moreover have "card (unat ` page_run first count) = card (page_run first count)"
    by (rule card_image) (simp add: inj_on_def word_unat_eq_iff)
  ultimately show ?thesis by simp
qed

lemma session_eligible:
  "session_inv crc32c_append pg0 chain0 runs pg chain \<Longrightarrow> eligible pg chain \<subseteq> reusable pg0 chain0 (pgr_min_pin pg)"
  by (auto simp: session_inv_def eligible_def reusable_def retired_below_def)

lemma session_alloc:
  assumes inv: "session_inv crc32c_append pg0 chain0 runs pg chain" and run: "allocate_run crc32c_append rd wr count pg = (res, pg')"
  shows "\<exists>chain'. session_inv crc32c_append pg0 chain0 (case res of Inr first \<Rightarrow> (first, count) # runs | Inl _ \<Rightarrow> runs) pg' chain'"
proof -
  have sound: "ledger_sound crc32c_append pg chain" using inv by (simp add: session_inv_def)
  let ?new = "case res of Inr first \<Rightarrow> page_run first count | Inl _ \<Rightarrow> {}"
  let ?E = "reusable pg0 chain0 (pgr_min_pin pg)"
  from allocate_ok [OF sound run] obtain chain' where st: "reuse_step crc32c_append pg chain ?new pg' chain'"
    and new: "\<And>first. res = Inr first \<Longrightarrow> handed_out pg' count first \<and>
      (page_run first count \<subseteq> eligible pg chain \<or> (\<forall>p \<in> page_run first count. pgr_page_count pg \<le> unat p))"
    by (auto simp: alloc_ok_def)
  have elig: "eligible pg chain \<subseteq> ?E" using session_eligible [OF inv] .
  have pages: "?new \<subseteq> eligible pg chain \<or> (\<forall>p \<in> ?new. pgr_page_count pg \<le> unat p)" using new by (cases res) auto
  have old: "run_pages runs \<inter> pool pg chain = {}" "run_pages runs \<inter> fst ` set chain = {}" "\<forall>p \<in> run_pages runs. unat p < pgr_page_count pg"
    using inv by (auto simp: session_inv_def)
  have apart: "?new \<inter> run_pages runs = {}"
    using pages
  proof
    assume "?new \<subseteq> eligible pg chain"
    then show ?thesis using eligible_pool [of pg chain] old(1) by blast
  next
    assume "\<forall>p \<in> ?new. pgr_page_count pg \<le> unat p"
    then show ?thesis using old(3) by (meson disjoint_iff leD)
  qed
  have off_chain: "?new \<inter> fst ` set chain = {}"
    using pages
  proof
    assume "?new \<subseteq> eligible pg chain"
    moreover have "pool pg chain \<inter> fst ` set chain = {}" using sound by (simp add: ledger_sound_def)
    ultimately show ?thesis using eligible_pool [of pg chain] by blast
  next
    assume past: "\<forall>p \<in> ?new. pgr_page_count pg \<le> unat p"
    have "unat p < pgr_page_count pg" if "(p, lp) \<in> set chain" for p lp
    proof -
      have "read_ledger_page_locked crc32c_append (\<lambda>_. Inr ()) pg p = Inr lp"
        using sound that unfolding ledger_sound_def ledger_chain_def by blast
      then show ?thesis by (rule read_ledger_page(2))
    qed
    then have "unat p < pgr_page_count pg" if "p \<in> fst ` set chain" for p using that by force
    then show ?thesis using past by (meson disjoint_iff leD)
  qed
  have count: "pgr_page_count pg \<le> pgr_page_count pg'" using st by (simp add: reuse_step_def keeps_def pgr_page_count_def div_le_mono)
  have keep: "keeps (pgr_page_size pg0) ?E (pgr_file pg0) (pgr_file pg')"
  proof (rule keeps_trans)
    show "keeps (pgr_page_size pg0) ?E (pgr_file pg0) (pgr_file pg)" using inv by (simp add: session_inv_def)
    show "keeps (pgr_page_size pg0) (eligible pg chain) (pgr_file pg) (pgr_file pg')" using st inv by (simp add: reuse_step_def session_inv_def)
  qed (use elig in blast)
  have fresh: "2 \<le> p \<and> unat p < pgr_page_count pg' \<and> (p \<in> ?E \<or> pgr_page_count pg0 \<le> unat p)" if mem: "p \<in> ?new" for p
  proof -
    obtain first where first: "res = Inr first" "p \<in> page_run first count" using mem by (cases res) auto
    have "pgr_page_count pg0 \<le> pgr_page_count pg" using inv by (simp add: session_inv_def)
    then show ?thesis using new [OF first(1)] first(2) elig unfolding handed_out_def by (meson order_trans subsetD)
  qed
  define runs' where "runs' = (case res of Inr first \<Rightarrow> (first, count) # runs | Inl _ \<Rightarrow> runs)"
  have runs': "run_pages runs' = ?new \<union> run_pages runs" "runs_apart runs'"
    using inv apart by (auto simp: runs'_def session_inv_def split: sum.split)
  have "session_inv crc32c_append pg0 chain0 runs' pg' chain'"
    unfolding session_inv_def
  proof (intro conjI)
    show "ledger_sound crc32c_append pg' chain'" "pgr_page_size pg' = pgr_page_size pg0" "pgr_page_count pg0 \<le> pgr_page_count pg'"
      "set (chain_entries pg' chain') \<subseteq> set (chain_entries pg0 chain0)"
      using st inv count by (auto simp: reuse_step_def session_inv_def)
    show "deferred pg' \<subseteq> reusable pg0 chain0 (pgr_min_pin pg')" using st elig by (auto simp: reuse_step_def)
    have "pool pg' chain' \<subseteq> pool pg chain - ?new" "fst ` set chain' \<subseteq> fst ` set chain" "pgr_min_pin pg' = pgr_min_pin pg"
      using st by (simp_all add: reuse_step_def)
    then show "run_pages runs' \<inter> pool pg' chain' = {}" "run_pages runs' \<inter> fst ` set chain' = {}"
      "keeps (pgr_page_size pg0) (reusable pg0 chain0 (pgr_min_pin pg')) (pgr_file pg0) (pgr_file pg')"
      using old off_chain keep unfolding runs'(1) by (blast, blast, simp)
    show "runs_apart runs'" by (rule runs'(2))
    show "\<forall>p \<in> run_pages runs'. 2 \<le> p \<and> unat p < pgr_page_count pg' \<and>
        (p \<in> reusable pg0 chain0 (pgr_min_pin pg') \<or> pgr_page_count pg0 \<le> unat p)"
      using fresh inv count \<open>pgr_min_pin pg' = pgr_min_pin pg\<close> unfolding runs'(1) by (auto simp: session_inv_def dest: order.strict_trans2)
  qed
  then show ?thesis unfolding runs'_def by blast
qed

lemma session_write:
  assumes inv: "session_inv crc32c_append pg0 chain0 runs pg chain" and p: "p \<in> run_pages runs"
    and run: "pgr_write_page wr p data pg = (res, pg')"
  shows "session_inv crc32c_append pg0 chain0 runs pg' chain"
proof -
  have p': "2 \<le> p" "unat p < pgr_page_count pg" "p \<in> reusable pg0 chain0 (pgr_min_pin pg) \<or> pgr_page_count pg0 \<le> unat p"
    "p \<notin> pool pg chain" "p \<notin> fst ` set chain"
    using inv p by (auto simp: session_inv_def)
  show ?thesis
  proof (cases "length data = pgr_page_size pg")
    case False
    then have "pg' = pg" using run by (auto simp: pgr_write_page_def split: sum.splits)
    then show ?thesis using inv by simp
  next
    case True
    have "pgr_write_page_locked wr p data pg = (res, pg')"
      using run True p'(1) by (simp add: pgr_write_page_def ensure_data_page_def SUPERBLOCK_SLOTS_def leD)
    note w = write_page_locked_keeps [OF this True]
    obtain bs where pg': "pg' = pg\<lparr> pgr_file := bs \<rparr>" using w(1) by blast
    have sz: "pgr_page_size pg = pgr_page_size pg0" "0 < pgr_page_size pg0" using inv by (auto simp: session_inv_def ledger_sound_def)
    have count: "pgr_page_count pg \<le> pgr_page_count pg'" using w(2) by (simp add: pgr_page_count_def keeps_def pg' div_le_mono)
    have entries: "chain_entries pg' = chain_entries pg" by (rule chain_entries_cong) (simp add: pg')
    have pool: "pool pg' chain = pool pg chain" unfolding pool_def entries by (simp add: pg')
    have "ledger_chain crc32c_append pg' chain"
      using inv p'(5) by (intro chain_kept [OF _ w(2)]) (auto simp: session_inv_def ledger_sound_def pg')
    then have "ledger_sound crc32c_append pg' chain"
      using inv count unfolding session_inv_def ledger_sound_def entries pool by (auto simp: pg' dest: order.strict_trans2)
    moreover have "keeps (pgr_page_size pg0) (reusable pg0 chain0 (pgr_min_pin pg)) (pgr_file pg0) (pgr_file pg')"
    proof (rule keeps_trans)
      show "keeps (pgr_page_size pg0) (reusable pg0 chain0 (pgr_min_pin pg)) (pgr_file pg0) (pgr_file pg)"
        using inv by (simp add: session_inv_def)
      show "keeps (pgr_page_size pg0) {p} (pgr_file pg) (pgr_file pg')" using w(2) sz by simp
    qed (use p'(3) past_the_end [of pg0 p] sz in auto)
    ultimately show ?thesis
      using inv count unfolding session_inv_def entries pool by (auto simp: pg' dest: order.strict_trans2)
  qed
qed

lemma session_raise:
  assumes "session_inv crc32c_append pg0 chain0 runs pg chain"
  shows "session_inv crc32c_append pg0 chain0 runs (raise_min_pin candidate pg) chain"
proof -
  let ?pg = "raise_min_pin candidate pg"
  have entries: "chain_entries ?pg = chain_entries pg" by (rule chain_entries_cong) (simp add: raise_min_pin_def)
  have pool: "pool ?pg chain = pool pg chain" unfolding pool_def entries by (simp add: raise_min_pin_def)
  have same: "pgr_file ?pg = pgr_file pg" "pgr_page_size ?pg = pgr_page_size pg" "pgr_free ?pg = pgr_free pg" "pgr_page_count ?pg = pgr_page_count pg"
    by (simp_all add: raise_min_pin_def pgr_page_count_def)
  have "ledger_chain crc32c_append ?pg chain = ledger_chain crc32c_append pg chain" by (simp add: ledger_chain_def read_ledger_iff same)
  then have sound: "ledger_sound crc32c_append ?pg chain = ledger_sound crc32c_append pg chain" by (simp add: ledger_sound_def entries pool same)
  have more: "reusable pg0 chain0 (pgr_min_pin pg) \<subseteq> reusable pg0 chain0 (pgr_min_pin ?pg)"
    by (rule reusable_mono) (simp add: raise_min_pin_def)
  show ?thesis
    using assms more keeps_mono [OF _ more] unfolding session_inv_def sound entries pool same by auto
qed

lemma session_holds:
  assumes "allocation_session crc32c_append pg0 runs pg" "ledger_sound crc32c_append pg0 chain0"
  shows "\<exists>chain. session_inv crc32c_append pg0 chain0 runs pg chain"
  using assms(1)
proof induction
  case opened
  then show ?case using assms(2) by (auto simp: session_inv_def reusable_def)
next
  case (allocated runs pg rd wr count first pg')
  then show ?case using session_alloc [OF _ allocated(2)] by auto
next
  case (failed runs pg rd wr count e pg')
  then show ?case using session_alloc [OF _ failed(2)] by auto
next
  case (wrote runs pg first count p wr data res pg')
  then show ?case using session_write [OF _ _ wrote(4)] by (fastforce simp: run_pages_def)
next
  case (raised runs pg candidate)
  then show ?case using session_raise by blast
qed


section \<open>A torn append\<close>

text \<open>
  An append that stops inside a page leaves a file whose length is not a multiple of the page size. The error is
  reported, but nothing cuts the file back: every later append is refused, and so is opening the file.
\<close>

lemma opened_aligned: "open_backend crc32c bs = Inr pg \<Longrightarrow> length bs mod pgr_page_size pg = 0"
  by (auto simp: open_backend_def Let_def rbind_eq_Inr validate_file_length_def pager_new_def split: if_splits)

lemma torn_append_blocks_open:
  assumes torn: "0 < n" "n < pgr_page_size pg" and len: "length (pgr_file pg) mod pgr_page_size pg = 0" "length (pgr_file pg) < 2 ^ 64"
    and pages: "2 \<le> pgr_page_count pg" and count: "0 < count"
    and run: "append_run_locked (\<lambda>_. PageTorn n e) count pg = (res, pg')"
  shows "res = Inl e \<and> fst (append_run_locked wr count pg') = Inl (Corrupt ''database file length is not page-aligned'') \<and>
    (open_backend crc32c (pgr_file pg') = Inr opened \<longrightarrow> pgr_page_size opened \<noteq> pgr_page_size pg)"
proof -
  let ?sz = "pgr_page_size pg" and ?n = "length (pgr_file pg) div pgr_page_size pg"
  have "?n < 2 ^ LENGTH(64)" using len(2) div_le_dividend [of "length (pgr_file pg)" ?sz] by (simp del: div_le_dividend)
  then have "unat (word_of_nat ?n :: u64) = ?n" by (simp only: unat_of_nat mod_less)
  then have slot: "\<not> (word_of_nat ?n :: u64) < SUPERBLOCK_SLOTS"
    using pages by (simp add: word_less_nat_alt SUPERBLOCK_SLOTS_def pgr_page_count_def)
  have "append_pages (\<lambda>_. PageTorn n e) ?sz (length (pgr_file pg)) [0..<count] (pgr_file pg) = (Inl e, pgr_file pg @ replicate n 0)"
    using count torn len(2) by (subst upt_conv_Cons) (simp_all add: checked_mul_usize_def checked_add_usize_def write_at_end)
  then have pg': "pg' = pg\<lparr> pgr_file := pgr_file pg @ replicate n 0 \<rparr>" "res = Inl e"
    using run len(1) slot by (auto simp: append_run_locked_def Let_def)
  have odd: "length (pgr_file pg') mod ?sz \<noteq> 0"
    using torn len(1) by (simp add: pg' mod_add_eq [of "length (pgr_file pg)" ?sz n, symmetric])
  then show ?thesis using opened_aligned [of crc32c "pgr_file pg'" opened] pg' by (auto simp: append_run_locked_def Let_def)
qed

section \<open>Concrete ledgers\<close>

lemma checked_mul_usize_code [code]: "checked_mul_usize a b = (if int a * int b < 18446744073709551616 then Some (a * b) else None)"
  unfolding checked_mul_usize_def by (simp flip: of_nat_mult)

lemma checked_add_usize_code [code]: "checked_add_usize a b = (if int a + int b < 18446744073709551616 then Some (a + b) else None)"
  unfolding checked_add_usize_def by (simp flip: of_nat_add)

lemma saturating_add_usize_code [code]:
  "saturating_add_usize a b = (if int a + int b < 18446744073709551616 then a + b else 18446744073709551615)"
  unfolding saturating_add_usize_def by (simp flip: of_nat_add)

lemma u32_try_from_code [code]: "u32_try_from n = (if int n < 4294967296 then Some (of_nat n) else None)"
  unfolding u32_try_from_def by simp

lemma checked_add_word_code [code]: "checked_add_word a b = (if uint a + uint b < 2 ^ LENGTH('a) then Some (a + b) else None)" for a b :: "'a::len word"
proof -
  have "unat a + unat b < 2 ^ LENGTH('a) \<longleftrightarrow> int (unat a + unat b) < int (2 ^ LENGTH('a))" by (simp only: of_nat_less_iff)
  then show ?thesis by (simp add: checked_add_word_def)
qed

definition listing :: "(u64 \<times> u64) list \<Rightarrow> ledger_page" where
  "listing entries = \<lparr> lp_next_page = 0, lp_consumed_count = 0, lp_entries = map (\<lambda>(p, lsn). \<lparr> le_page_id = p, le_retired_lsn = lsn \<rparr>) entries \<rparr>"

definition no_checksum :: "u32 \<Rightarrow> bytes \<Rightarrow> u32" where
  "no_checksum seed data = 0"

text \<open>Six pages of eighty bytes; the third is the ledger.\<close>

definition pager_listing :: "ledger_page \<Rightarrow> (u64, u32) btree \<Rightarrow> nat \<Rightarrow> u8 \<Rightarrow> pager" where
  "pager_listing ledger consumed reused filler =
    (pager_new (replicate 160 1 @ (case ledger_encode no_checksum 80 ledger of Inr page \<Rightarrow> page | Inl _ \<Rightarrow> []) @
        replicate 80 7 @ replicate 80 filler @ replicate 80 7)
      (initial_superblock 80 []) 0
      (free_state_default\<lparr> fs_extension := Some \<lparr> retire_ledger_head = 2, retire_ledger_tail = 2, retired_total = 3 \<rparr>,
         fs_consumed_in_session := consumed, fs_reused_in_session := reused \<rparr>))\<lparr> pgr_min_pin := 5 \<rparr>"

definition allocate_two :: "pager \<Rightarrow> u64 devon_result \<times> pager" where
  "allocate_two = allocate_run no_checksum (\<lambda>_. Inr ()) (\<lambda>_. PageWritten) 2"

definition allocate_one :: "pager \<Rightarrow> u64 devon_result \<times> pager" where
  "allocate_one = allocate_page no_checksum (\<lambda>_. Inr ()) (\<lambda>_. PageWritten)"

text \<open>A ledger that lists a page twice hands it out twice: the second entry stays in the ledger.\<close>

abbreviation listed_twice :: ledger_page where
  "listed_twice \<equiv> listing [(4, 3), (4, 3)]"

lemma listed_twice_handed_out_twice:
  "allocate_one (pager_listing listed_twice [] 0 7) = (Inr 4, pager_listing listed_twice [(2, 1)] 1 0) \<and>
   fst (allocate_one (pager_listing listed_twice [(2, 1)] 1 0)) = Inr 4"
proof
  show "allocate_one (pager_listing listed_twice [] 0 7) = (Inr 4, pager_listing listed_twice [(2, 1)] 1 0)" by code_simp
  show "fst (allocate_one (pager_listing listed_twice [(2, 1)] 1 0)) = Inr 4" by code_simp
qed

abbreviation three_retired :: ledger_page where
  "three_retired \<equiv> listing [(4, 3), (3, 3), (5, 9)]"

lemma three_retired_entries:
  "map (\<lambda>c. (sc_page_id c, le_retired_lsn (sc_entry c))) (chain_entries (pager_listing three_retired [] 0 7) [(2, three_retired)]) = [(4, 3), (3, 3), (5, 9)]"
  by code_simp

lemma three_retired_below: "retired_below (pager_listing three_retired [] 0 7) [(2, three_retired)] horizon = {p. \<exists>lsn. (p, lsn) \<in> {(4, 3), (3, 3), (5, 9)} \<and> lsn < horizon}"
proof -
  have listed: "retired_below pg chain horizon = {p. \<exists>lsn. (p, lsn) \<in> set (map (\<lambda>c. (sc_page_id c, le_retired_lsn (sc_entry c))) (chain_entries pg chain)) \<and> lsn < horizon}"
    for pg chain by (force simp: retired_below_def)
  show ?thesis unfolding listed three_retired_entries by simp
qed

lemma three_retired_sound: "ledger_sound no_checksum (pager_listing three_retired [] 0 7) [(2, three_retired)]"
proof -
  let ?pg = "pager_listing three_retired [] 0 7"
  have read: "read_ledger_page_locked no_checksum (\<lambda>_. Inr ()) ?pg 2 = Inr three_retired" by code_simp
  have ids: "map sc_page_id (chain_entries ?pg [(2, three_retired)]) = [4, 3, 5]"
    using arg_cong [OF three_retired_entries, of "map fst"] by (simp add: comp_def)
  have set_ids: "sc_page_id ` set (chain_entries ?pg [(2, three_retired)]) = {4, 3, 5}" unfolding set_map [symmetric] ids by simp
  have count: "pgr_page_count ?pg = 6" by code_simp
  have fields: "fs_extension (pgr_free ?pg) = Some \<lparr> retire_ledger_head = 2, retire_ledger_tail = 2, retired_total = 3 \<rparr>"
    "deferred ?pg = {}" "fs_consumed_in_session (pgr_free ?pg) = []" "pgr_page_size ?pg = 80"
    by (simp_all add: pager_listing_def pager_new_def free_state_default_def initial_superblock_def)
  have "ledger_chain no_checksum ?pg [(2, three_retired)]"
    using read by (simp add: ledger_chain_def fields has_ledger_def)
  then show ?thesis using ids set_ids count by (simp add: ledger_sound_def pool_def fields bt_wf_def)
qed

lemma three_retired_session:
  "allocation_session no_checksum (pager_listing three_retired [] 0 7) [(3, 2)] (snd (allocate_two (pager_listing three_retired [] 0 7)))"
proof -
  have "fst (allocate_two (pager_listing three_retired [] 0 7)) = Inr 3" by code_simp
  then have "allocate_run no_checksum (\<lambda>_. Inr ()) (\<lambda>_. PageWritten) 2 (pager_listing three_retired [] 0 7) = (Inr 3, snd (allocate_two (pager_listing three_retired [] 0 7)))"
    by (simp add: allocate_two_def prod_eq_iff)
  then show ?thesis by (rule allocated [OF opened])
qed


end
