(* ===== verification/Spec2Isabelle.thy ===== *)
theory Spec2Isabelle
  imports Superblock Wal FreePages DecimalRounding Encodings Durability TxnEffects Isolation Opening SlotCommit AllocSession
begin

text \<open>
  A verification development for the storage and transaction core of devondb, an embedded graph
  database: one main file of pages, a write-ahead log beside it, snapshots for readers and optimistic
  transactions for writers. Paths below are relative to \<^verbatim>\<open>src/crates/\<close>.

  \<^bold>\<open>The program.\<close> The main file starts with two superblock slots, of which the one with the larger
  checkpoint LSN is authoritative; data pages follow and are read through a page cache that shares one
  memory budget with everything else. The catalog names the tables and the pages of their node groups; a
  group is a set of encoded columns. Between two checkpoints committed changes live in memory, as a
  chain of deltas over the checkpointed groups, and in the log, as groups of records that a commit record
  ends. A transaction reads its snapshot with its own writes on top, stages every statement in a write set,
  and commits under one lock: its claims are compared with those of the commits after its snapshot, its
  records are made durable, and the next published state becomes visible. A checkpoint writes the merged
  tables, publishes a superblock and empties the log. Opening replays the log into a published state; a
  follower in another process does so again from its cursor.

  \<^bold>\<open>The theories\<close>, each named with the source it models.

  \<^item> \<open>Prelude\<close>: words and results, checked arithmetic, byte slices and little-endian codecs, and the locale
    \<open>invariant_system\<close> through which the step systems below obtain their reachable states. \<open>BTree\<close>: ordered
    maps behind the locale \<open>ordered_map\<close>.
  \<^item> \<open>Superblock\<close> (\<^verbatim>\<open>devondb-storage/src/superblock.rs\<close>), \<open>FreePages\<close> (\<^verbatim>\<open>free_pages.rs\<close>), \<open>Pager\<close> and \<open>PageCache\<close>
    (\<^verbatim>\<open>pager.rs\<close>): the header codec and its flags, the extension and the ledger pages, creating and opening a
    file, publishing superblocks and feature flags, and the frames of the cache with their clock.
    \<open>CacheProgress\<close> proves the cache transparent, exactly charged and live; \<open>SlotCommit\<close> that publications
    are atomic under torn writes. \<open>RunSelect\<close> and \<open>PageAlloc\<close>: choosing a run of pages among retired ones, and
    allocation from the deferred pool, from the ledger or at the end of the file; \<open>PageReuse\<close> proves what one
    allocation may touch, \<open>AllocSession\<close> what any session of them may.
  \<^item> \<open>Budget\<close> (\<^verbatim>\<open>budget.rs\<close>): the shared counter, sequentially and as interleaved compare-and-swap loops, and
    reservations.
  \<^item> \<open>Wal\<close> (\<^verbatim>\<open>wal.rs\<close>): the log file, its reader with the rule for torn tails, replay from a cursor, and the writer
    with repair, which implements an append-only log (locale \<open>durable_log\<close>). \<open>TxnLog\<close> (\<^verbatim>\<open>txn_log.rs\<close>): the
    records of transactions, their order, and the grouping of a replayed log.
  \<^item> \<open>Decimal\<close>, \<open>DecimalRounding\<close>, \<open>ValueTypes\<close>, \<open>Schema\<close> (\<^verbatim>\<open>devondb-types/src/\<close> \<^verbatim>\<open>decimal.rs\<close>,
    \<^verbatim>\<open>value.rs\<close>, \<^verbatim>\<open>logical_type.rs\<close>, \<^verbatim>\<open>column.rs\<close>, \<^verbatim>\<open>schema.rs\<close>): exact decimals and their rational meaning,
    values, types, typed columns, and validated schemas with the suggestion of names.
  \<^item> \<open>EncodingBase\<close>, \<open>EncConstant\<close>, \<open>EncRle\<close>, \<open>EncBitpackFor\<close>, \<open>EncDictionary\<close>, \<open>Encodings\<close>
    (\<^verbatim>\<open>devondb-storage/src/node_group/encodings/\<close> and the payload part of \<^verbatim>\<open>node_group.rs\<close>): the column
    encodings, each an interpretation of the locale \<open>values_encoding\<close>, and their dispatch.
  \<^item> \<open>Catalog\<close> (\<^verbatim>\<open>catalog.rs\<close>): entries, mutators and the validation of a loaded catalog.
  \<^item> \<open>Overlay\<close>, \<open>OverlayView\<close> (\<^verbatim>\<open>overlay.rs\<close>): deltas, the chain of commits, and the merged view of a table, which
    refines the history of its commits. \<open>NodeTable\<close> (\<^verbatim>\<open>node_table.rs\<close>): what a checkpoint writes for a table.
    \<open>PkIndex\<close>: the primary-key index and its caches, equal to a scan.
  \<^item> \<open>ReadView\<close>, \<open>NodeOffsets\<close> (\<^verbatim>\<open>devondb/src/database/view.rs\<close>): what a transaction reads for a key, and the
    offsets that edges store.
  \<^item> \<open>WriteSet\<close> (\<^verbatim>\<open>devondb/src/txn.rs\<close>), \<open>Conflicts\<close>, \<open>Commit\<close>, \<open>CommitRecords\<close>, \<open>Statements\<close>, \<open>CommitTxn\<close>
    (\<^verbatim>\<open>devondb/src/database/\<close> \<^verbatim>\<open>commit.rs\<close>, \<^verbatim>\<open>checkpoint.rs\<close>, \<^verbatim>\<open>hnsw.rs\<close>): write sets and claims, conflict detection,
    preparing a commit, its records, making it durable and publishing it, the execution of statements, and
    commits, metadata publications and checkpoints as transitions of one shared state.
  \<^item> \<open>Staging\<close>, \<open>StagedWrites\<close>, \<open>OwnWrites\<close>, \<open>TxnEffects\<close>: a small Hoare logic for statements, the invariant of
    the write set, and the refinement of statements by operations on tables as maps from keys to rows.
  \<^item> \<open>Durability\<close>: what recovery finds in the log of a commit wherever a crash cuts it. \<open>Isolation\<close>: first
    committer wins over every interleaving of transactions, checkpoints and metadata publications.
  \<^item> \<open>Recovery\<close> (\<^verbatim>\<open>devondb/src/database/recovery.rs\<close>, the open and follower paths of \<^verbatim>\<open>options.rs\<close>): checking and
    applying the committed groups, the writable, read-only and inspecting opens, and followers. \<open>Reopening\<close>
    proves what recovery rebuilds, \<open>Follower\<close> that a refresh shows what an open would show, \<open>Opening\<close> that an
    open loses nothing and is stable.

  \<^bold>\<open>State, errors and outside code.\<close> A struct is a record, an enum a datatype, a fallible operation returns an
  error or a result, and a stateful one takes the state and returns it with the result, also when it
  fails. An error keeps its constructor and its message without the values formatted into it. A file is its
  bytes. Code that is not part of the repository, or whose effect is up to the operating system, is an
  argument: the CRC-32C function, the JSON codec (\<open>serde_json\<close>), the outcomes of writes, reads and
  synchronizations, whether an allocation succeeds, the store that leads from a page to the rows of a
  group, and what reclaiming memory elsewhere frees. Theorems that need something of such an argument state
  it: that decoding inverts encoding, or that the checksum tells a torn header from the two it is torn
  between. Mutexes are not modelled as such: an operation that holds one is one step, and where the code
  releases it in between (compare-and-swap loops, a page write before its frame is discarded) the
  step relation interleaves the parts.

  \<^bold>\<open>What the theorems show.\<close> A committed transaction survives a crash at any byte of the log, whole or not at
  all, and in the order of commits; a failed commit cannot be taken for a committed one. No two concurrent
  commits conflict. Statements do to the tables of a transaction what they describe, keep its write set
  sound and leave other tables alone; reads are exact over checkpointed rows, committed deltas and own
  writes; a checkpoint writes exactly the merged table. Recovery rebuilds exactly the history of the log, a
  refreshed follower equals a reopened one, and opening is stable. Superblocks are published atomically.
  Page reuse takes only pages retired below the pin horizon, hands none out twice and leaves every other
  page alone, and the run it takes is the one that ends first in the ledger. The page cache is transparent and its clock makes progress. Codecs round-trip and decoders refuse what
  encoders do not write. Charges are exact and within the limit.

  \<^bold>\<open>Bounds.\<close> No definition uses fuel. Loops are structural recursion or have a termination proof: the log reader
  by the bytes left, the loops of the cache by the frames left, the walk along the ledger by the pages of the
  file it has not seen. A \<open>usize\<close> is a natural number below \<open>2\<^sup>6\<^sup>4\<close>,
  and every checked or saturating operation of the code is written out at that bound; LSNs, page numbers,
  counts and offsets that the code stores are 64-bit words.

  \<^bold>\<open>Not modelled.\<close> Writing new ledger pages at a publication and cutting the tail of the file off (\<^verbatim>\<open>pager.rs\<close>), the byte backends, locks and leases; the
  directory, zone maps and plain layouts of node groups; relationship tables (\<^verbatim>\<open>rel_table.rs\<close>, \<^verbatim>\<open>csr_group.rs\<close>);
  vector, full-text and geo indexes, which compute with floating point; bulk loading, copying, dumping and
  statistics; saving and loading a catalog page by page; the query language, its planner and its vectorised
  execution (\<^verbatim>\<open>devondb-plan\<close>, \<^verbatim>\<open>devondb-exec\<close>); the natural-language compiler, the server, the command line
  and the language bindings. HNSW deltas of a commit are derived data that never reach the log. These parts
  are clients of what is modelled, or rest on floating point, or are input and output.
\<close>

end
